(* ===== verification/Prelude.thy ===== *)
theory Prelude
  imports Main "HOL-Library.Word" "HOL-Library.Monad_Syntax"
begin

text \<open>
  The vocabulary every component shares.

  \<^item> Go's bytes are \<open>8 word\<close>, a Go string or byte slice is a \<open>bytes\<close>, a Go \<open>int\<close> is an
    \<open>int\<close>; where the source can leave the 64-bit range the definition says \<open>wrap64\<close>.
  \<^item> A run-time panic (an index or a slice bound out of range) is the value \<open>None\<close> of
    \<open>'a option\<close>; code that may panic is written in the option monad (\<open>do\<close>), with
    \<open>idx\<close>, \<open>upd\<close> and \<open>subslice\<close> as the checked accesses and \<open>for_range\<close>, \<open>go_times\<close>
    as the loops.
  \<^item> The pieces of the standard library the sources use: \<open>strings.Split\<close>, \<open>Cut\<close>,
    \<open>TrimSpace\<close>, \<open>ToLower\<close> (compared with ASCII spellings only), \<open>strconv.Itoa\<close>, \<open>Atoi\<close>.
\<close>

section \<open>Bytes, strings and machine integers\<close>

type_synonym byte = "8 word"
type_synonym bytes = "byte list"

named_theorems go_ok \<comment> \<open>an operation returns normally and keeps what it must\<close>
named_theorems go_bounds \<comment> \<open>range facts of the model's integers\<close>

definition bstr :: "string \<Rightarrow> bytes" where
  "bstr s = map of_char s"

lemma bstr_Nil [simp]: "bstr [] = []"
  by (simp add: bstr_def)

lemma bstr_Cons [simp]: "bstr (c # s) = of_char c # bstr s"
  by (simp add: bstr_def)

definition max_int64 :: int where
  "max_int64 = 9223372036854775807"

text \<open>A 64-bit \<open>int\<close> result brought back into range the way the hardware does.\<close>

definition wrap64 :: "int \<Rightarrow> int" where
  "wrap64 x = (x + 9223372036854775808) mod 18446744073709551616 - 9223372036854775808"

lemma wrap64_id [simp]: "- 9223372036854775808 \<le> x \<Longrightarrow> x \<le> 9223372036854775807 \<Longrightarrow> wrap64 x = x"
  by (simp add: wrap64_def)

lemma wrap64_range [go_bounds]: "- 9223372036854775808 \<le> wrap64 x \<and> wrap64 x \<le> 9223372036854775807"
proof -
  have "0 \<le> (x + 9223372036854775808) mod 18446744073709551616"
    and "(x + 9223372036854775808) mod 18446744073709551616 < 18446744073709551616" by simp_all
  then show ?thesis unfolding wrap64_def by linarith
qed

definition clamp :: "int \<Rightarrow> int \<Rightarrow> int \<Rightarrow> int" where
  "clamp v lo hi = max lo (min v hi)"

lemma clamp_bounds [go_bounds]: "lo \<le> hi \<Longrightarrow> lo \<le> clamp v lo hi \<and> clamp v lo hi \<le> hi"
  by (simp add: clamp_def)

lemma clamp_id [simp]: "lo \<le> v \<Longrightarrow> v \<le> hi \<Longrightarrow> clamp v lo hi = v"
  by (simp add: clamp_def)

section \<open>Lists\<close>

text \<open>The newest \<open>n\<close> elements: what every bounded buffer of the program keeps.\<close>

definition lastn :: "nat \<Rightarrow> 'a list \<Rightarrow> 'a list" where
  "lastn n xs = drop (length xs - n) xs"

lemma length_lastn [simp]: "length (lastn n xs) = min n (length xs)"
  by (simp add: lastn_def)

lemma lastn_all [simp]: "length xs \<le> n \<Longrightarrow> lastn n xs = xs"
  by (simp add: lastn_def)

lemma lastn_0 [simp]: "lastn 0 xs = []"
  by (simp add: lastn_def)

lemma lastn_Nil [simp]: "lastn n [] = []"
  by (simp add: lastn_def)

lemma lastn_append_long: "n \<le> length ys \<Longrightarrow> lastn n (xs @ ys) = lastn n ys"
  by (simp add: lastn_def)

lemma lastn_append: "length ys \<le> n \<Longrightarrow> lastn n (xs @ ys) = lastn (n - length ys) xs @ ys"
  by (simp add: lastn_def)

lemma lastn_lastn_append [simp]: "lastn n (lastn n xs @ ys) = lastn n (xs @ ys)"
  by (cases "length ys \<le> n"; cases "length xs \<le> n") (simp_all add: lastn_def add.commute)

lemma lastn_lastn [simp]: "lastn n (lastn m xs) = lastn (min n m) xs"
  by (cases "length xs \<le> m"; cases "n \<le> m") (simp_all add: lastn_def min_def)

lemma lastn_snoc: "0 < n \<Longrightarrow> lastn n (xs @ [y]) = lastn (n - 1) xs @ [y]"
  by (simp add: lastn_append)

section \<open>Checked accesses: \<open>None\<close> is a panic\<close>

definition idx :: "'a list \<Rightarrow> int \<Rightarrow> 'a option" where
  "idx xs i = (if 0 \<le> i \<and> i < int (length xs) then Some (xs ! nat i) else None)"

definition upd :: "'a list \<Rightarrow> int \<Rightarrow> 'a \<Rightarrow> 'a list option" where
  "upd xs i v = (if 0 \<le> i \<and> i < int (length xs) then Some (xs[nat i := v]) else None)"

text \<open>The slice expression \<open>xs[lo:hi]\<close> on a slice whose capacity is its length.\<close>

definition subslice :: "'a list \<Rightarrow> int \<Rightarrow> int \<Rightarrow> 'a list option" where
  "subslice xs lo hi =
     (if 0 \<le> lo \<and> lo \<le> hi \<and> hi \<le> int (length xs)
      then Some (take (nat hi - nat lo) (drop (nat lo) xs)) else None)"

lemma idx_Some [simp]: "0 \<le> i \<Longrightarrow> i < int (length xs) \<Longrightarrow> idx xs i = Some (xs ! nat i)"
  by (simp add: idx_def)

lemma upd_Some [simp]: "0 \<le> i \<Longrightarrow> i < int (length xs) \<Longrightarrow> upd xs i v = Some (xs[nat i := v])"
  by (simp add: upd_def)

lemma upd_None: "\<not> (0 \<le> i \<and> i < int (length xs)) \<Longrightarrow> upd xs i v = None"
  by (auto simp: upd_def)

lemma subslice_Some [simp]:
  "0 \<le> lo \<Longrightarrow> lo \<le> hi \<Longrightarrow> hi \<le> int (length xs) \<Longrightarrow>
     subslice xs lo hi = Some (take (nat hi - nat lo) (drop (nat lo) xs))"
  by (simp add: subslice_def)

text \<open>\<open>copy(xs[a:b], xs[c:d])\<close>, which moves as if through a temporary, bounds checked.\<close>

definition copy_within :: "'a list \<Rightarrow> int \<Rightarrow> int \<Rightarrow> int \<Rightarrow> int \<Rightarrow> 'a list option" where
  "copy_within xs a b c d = do {
     dst \<leftarrow> subslice xs a b;
     src \<leftarrow> subslice xs c d;
     let k = min (length dst) (length src) in
     Some (take (nat a) xs @ take k src @ drop (nat a + k) xs) }"

text \<open>\<open>copy(dst, src)\<close> between two different slices.\<close>

definition go_copy :: "'a list \<Rightarrow> 'a list \<Rightarrow> 'a list" where
  "go_copy dst src =
     (let k = min (length dst) (length src) in take k src @ drop k dst)"

lemma length_go_copy [simp]: "length (go_copy dst src) = length dst"
  by (simp add: go_copy_def Let_def)

lemma set_go_copy: "set (go_copy dst src) \<subseteq> set dst \<union> set src"
  using set_take_subset[of _ src] set_drop_subset[of _ dst]
  by (fastforce simp: go_copy_def Let_def)

lemma copy_within_form:
  assumes "copy_within xs a b c d = Some ys"
  shows "\<exists>i k n. ys = take i xs @ take k (drop n xs) @ drop (i + k) xs \<and> i + k \<le> length xs \<and> n + k \<le> length xs"
proof -
  obtain dst src where dst: "subslice xs a b = Some dst" and src: "subslice xs c d = Some src"
    and ys: "(let k = min (length dst) (length src) in
      Some (take (nat a) xs @ take k src @ drop (nat a + k) xs)) = Some ys"
    using assms unfolding copy_within_def bind_eq_Some_conv by blast
  have ab: "0 \<le> a" "a \<le> b" "b \<le> int (length xs)" and dst': "dst = take (nat b - nat a) (drop (nat a) xs)"
    using dst by (auto simp: subslice_def split: if_split_asm)
  have cd: "0 \<le> c" "c \<le> d" "d \<le> int (length xs)" and src': "src = take (nat d - nat c) (drop (nat c) xs)"
    using src by (auto simp: subslice_def split: if_split_asm)
  define k where "k = min (length dst) (length src)"
  have "k \<le> nat d - nat c" unfolding k_def src' by (auto intro: le_trans[OF min.cobounded2])
  then have "take k src = take k (drop (nat c) xs)" by (simp add: src' min_absorb1)
  then have "ys = take (nat a) xs @ take k (drop (nat c) xs) @ drop (nat a + k) xs"
    using ys by (simp add: Let_def flip: k_def)
  moreover have "nat a + k \<le> length xs" "nat c + k \<le> length xs"
  proof -
    have "length dst \<le> nat b - nat a" by (simp add: dst')
    then have "k \<le> nat b - nat a" by (simp add: k_def)
    then show "nat a + k \<le> length xs" "nat c + k \<le> length xs"
      using ab cd \<open>k \<le> nat d - nat c\<close> by linarith+
  qed
  ultimately show ?thesis by blast
qed

lemma set_copy_within:
  assumes "copy_within xs a b c d = Some ys"
  shows "set ys \<subseteq> set xs"
proof -
  obtain i k n where ys: "ys = take i xs @ take k (drop n xs) @ drop (i + k) xs"
    using copy_within_form[OF assms] by blast
  have "set (take k (drop n xs)) \<subseteq> set xs"
    by (metis set_drop_subset set_take_subset subset_trans)
  then show ?thesis using set_take_subset[of i xs] set_drop_subset[of "i + k" xs] by (auto simp: ys)
qed

lemma length_copy_within:
  assumes "copy_within xs a b c d = Some ys"
  shows "length ys = length xs"
  using copy_within_form[OF assms] by auto

lemma copy_within_ok:
  assumes "0 \<le> a" "a \<le> b" "b \<le> int (length xs)" "0 \<le> c" "c \<le> d" "d \<le> int (length xs)"
  shows "\<exists>ys. copy_within xs a b c d = Some ys"
  using assms by (simp add: copy_within_def Let_def)

section \<open>Loops\<close>

primrec iter_up :: "nat \<Rightarrow> int \<Rightarrow> (int \<Rightarrow> 's \<Rightarrow> 's option) \<Rightarrow> 's \<Rightarrow> 's option" where
  "iter_up 0 i f s = Some s"
| "iter_up (Suc n) i f s = Option.bind (f i s) (iter_up n (i + 1) f)"

text \<open>\<open>for i := lo; i < hi; i++ { f(i) }\<close>\<close>

definition for_range :: "int \<Rightarrow> int \<Rightarrow> (int \<Rightarrow> 's \<Rightarrow> 's option) \<Rightarrow> 's \<Rightarrow> 's option" where
  "for_range lo hi f s = iter_up (nat (hi - lo)) lo f s"

text \<open>\<open>for i := 0; i < n; i++ { f() }\<close>, the body not reading \<open>i\<close>\<close>

primrec go_times :: "nat \<Rightarrow> ('s \<Rightarrow> 's option) \<Rightarrow> 's \<Rightarrow> 's option" where
  "go_times 0 f s = Some s"
| "go_times (Suc n) f s = Option.bind (f s) (go_times n f)"

lemma iter_up_rule:
  assumes "P i s"
    and "\<And>j s. i \<le> j \<Longrightarrow> j < i + int n \<Longrightarrow> P j s \<Longrightarrow> \<exists>s'. f j s = Some s' \<and> P (j + 1) s'"
  shows "\<exists>s'. iter_up n i f s = Some s' \<and> P (i + int n) s'"
  using assms
proof (induction n arbitrary: i s)
  case 0
  then show ?case by simp
next
  case (Suc n)
  obtain s1 where s1: "f i s = Some s1" "P (i + 1) s1"
    using Suc.prems(2)[of i s] Suc.prems(1) by auto
  have "\<exists>s'. iter_up n (i + 1) f s1 = Some s' \<and> P (i + 1 + int n) s'"
    by (rule Suc.IH[OF s1(2)]) (use Suc.prems(2) in auto)
  then show ?case using s1(1) by (simp add: algebra_simps)
qed

lemma for_range_rule:
  assumes "lo \<le> hi" "P lo s"
    and "\<And>j s. lo \<le> j \<Longrightarrow> j < hi \<Longrightarrow> P j s \<Longrightarrow> \<exists>s'. f j s = Some s' \<and> P (j + 1) s'"
  shows "\<exists>s'. for_range lo hi f s = Some s' \<and> P hi s'"
  using iter_up_rule[of P lo s "nat (hi - lo)" f] assms by (simp add: for_range_def)

lemma for_range_empty [simp]: "hi \<le> lo \<Longrightarrow> for_range lo hi f s = Some s"
  by (simp add: for_range_def)

lemma for_range_inv:
  assumes "P s"
    and "\<And>j s. lo \<le> j \<Longrightarrow> j < hi \<Longrightarrow> P s \<Longrightarrow> \<exists>s'. f j s = Some s' \<and> P s'"
  shows "\<exists>s'. for_range lo hi f s = Some s' \<and> P s'"
proof (cases "lo \<le> hi")
  case True
  then show ?thesis using for_range_rule[of lo hi "\<lambda>_. P" s f] assms by blast
qed (use assms(1) in simp)

lemma go_times_inv:
  assumes "P s" and "\<And>s. P s \<Longrightarrow> \<exists>s'. f s = Some s' \<and> P s'"
  shows "\<exists>s'. go_times n f s = Some s' \<and> P s'"
  using assms(1)
proof (induction n arbitrary: s)
  case (Suc n)
  obtain s1 where "f s = Some s1" "P s1" using assms(2)[OF Suc.prems] by blast
  then show ?case using Suc.IH[of s1] by simp
qed simp

text \<open>The loop that stores one value over a range of a slice.\<close>

definition fill :: "int \<Rightarrow> int \<Rightarrow> 'a \<Rightarrow> 'a list \<Rightarrow> 'a list option" where
  "fill lo hi v = for_range lo hi (\<lambda>i xs. upd xs i v)"

lemma fill_ok:
  assumes "0 \<le> lo" "hi \<le> int (length xs)"
  shows "\<exists>ys. fill lo hi v xs = Some ys \<and> length ys = length xs \<and>
           (\<forall>i < length xs. ys ! i = (if lo \<le> int i \<and> int i < hi then v else xs ! i))"
proof (cases "lo \<le> hi")
  case True
  let ?P = "\<lambda>j ys. length ys = length xs \<and>
      (\<forall>i < length xs. ys ! i = (if lo \<le> int i \<and> int i < j then v else xs ! i))"
  have "\<exists>ys. for_range lo hi (\<lambda>i xs. upd xs i v) xs = Some ys \<and> ?P hi ys"
  proof (rule for_range_rule[OF True, where P = ?P])
    show "?P lo xs" by auto
    show "\<exists>s'. upd s j v = Some s' \<and> ?P (j + 1) s'" if "lo \<le> j" "j < hi" "?P j s" for j s
    proof -
      have j: "0 \<le> j" "j < int (length s)" using that assms by auto
      have "?P (j + 1) (s[nat j := v])"
        using that j by (auto simp: nth_list_update split: if_split_asm)
      then show ?thesis using j by simp
    qed
  qed
  then show ?thesis by (simp add: fill_def)
qed (auto simp: fill_def)

lemma fill_set:
  assumes "0 \<le> lo" "hi \<le> int (length xs)" "fill lo hi v xs = Some ys"
  shows "length ys = length xs" "set ys \<subseteq> insert v (set xs)"
proof -
  have ys: "length ys = length xs"
    "\<And>i. i < length xs \<Longrightarrow> ys ! i = (if lo \<le> int i \<and> int i < hi then v else xs ! i)"
    using fill_ok[OF assms(1,2), of v] assms(3) by auto
  show "length ys = length xs" by (rule ys(1))
  show "set ys \<subseteq> insert v (set xs)"
  proof
    fix x assume "x \<in> set ys"
    then obtain i where "i < length xs" "x = ys ! i" using ys(1) by (auto simp: in_set_conv_nth)
    then show "x \<in> insert v (set xs)" using ys(2)[of i] by (auto split: if_splits)
  qed
qed

section \<open>The standard library's string functions\<close>

fun split_on :: "byte \<Rightarrow> bytes \<Rightarrow> bytes list" where
  "split_on sep [] = [[]]"
| "split_on sep (c # cs) =
     (if c = sep then [] # split_on sep cs
      else (case split_on sep cs of [] \<Rightarrow> [[c]] | f # fs \<Rightarrow> (c # f) # fs))"

text \<open>\<open>strings.Cut(s, ";")\<close>: before, after and whether the separator was there.\<close>

fun cut_at :: "byte \<Rightarrow> bytes \<Rightarrow> (bytes \<times> bytes) option" where
  "cut_at sep [] = None"
| "cut_at sep (c # cs) =
     (if c = sep then Some ([], cs)
      else map_option (\<lambda>(a, b). (c # a, b)) (cut_at sep cs))"

definition is_digit :: "byte \<Rightarrow> bool" where
  "is_digit c \<longleftrightarrow> 0x30 \<le> c \<and> c \<le> 0x39"

definition digits_value :: "bytes \<Rightarrow> int" where
  "digits_value cs = foldl (\<lambda>n c. n * 10 + uint (c - 0x30)) 0 cs"

text \<open>
  \<open>strconv.Atoi\<close>: the value and whether there was an error. A syntax error gives 0; a number out
  of range gives the nearest 64-bit integer, with an error the callers here ignore.
\<close>

definition atoi :: "bytes \<Rightarrow> int \<times> bool" where
  "atoi s =
     (let (neg, ds) = (case s of [] \<Rightarrow> (False, [])
                       | c # cs \<Rightarrow> (if c = 0x2d then (True, cs) else if c = 0x2b then (False, cs)
                                    else (False, s)))
      in if ds = [] \<or> \<not> list_all is_digit ds then (0, False)
         else let n = (if neg then - digits_value ds else digits_value ds)
              in if n > max_int64 then (max_int64, False)
                 else if n < - max_int64 - 1 then (- max_int64 - 1, False)
                 else (n, True))"

fun nat_digits :: "nat \<Rightarrow> bytes" where
  "nat_digits n = (if n < 10 then [0x30 + of_nat n]
                   else nat_digits (n div 10) @ [0x30 + of_nat (n mod 10)])"

declare nat_digits.simps [simp del]

definition itoa :: "int \<Rightarrow> bytes" where
  "itoa n = (if n < 0 then 0x2d # nat_digits (nat (- n)) else nat_digits (nat n))"

text \<open>\<open>strings.TrimSpace\<close>: the white-space runes, as the byte sequences that encode them.\<close>

definition white_space :: "bytes list" where
  "white_space = map (\<lambda>b. [b]) [0x09, 0x0a, 0x0b, 0x0c, 0x0d, 0x20]
     @ [[0xc2, 0x85], [0xc2, 0xa0], [0xe1, 0x9a, 0x80]]
     @ map (\<lambda>b. [0xe2, 0x80, b]) [0x80, 0x81, 0x82, 0x83, 0x84, 0x85, 0x86, 0x87, 0x88, 0x89,
         0x8a, 0xa8, 0xa9, 0xaf]
     @ [[0xe2, 0x81, 0x9f], [0xe3, 0x80, 0x80]]"

definition starts_with :: "bytes \<Rightarrow> bytes \<Rightarrow> bool" where
  "starts_with p s \<longleftrightarrow> take (length p) s = p"

definition leading :: "bytes list \<Rightarrow> bytes \<Rightarrow> nat" where
  "leading ps s = (case find (\<lambda>p. starts_with p s) ps of None \<Rightarrow> 0 | Some p \<Rightarrow> length p)"

fun trim_front :: "nat \<Rightarrow> bytes list \<Rightarrow> bytes \<Rightarrow> bytes" where
  "trim_front 0 ps s = s"
| "trim_front (Suc k) ps s = (if leading ps s = 0 then s else trim_front k ps (drop (leading ps s) s))"

definition trim_space :: "bytes \<Rightarrow> bytes" where
  "trim_space s =
     (let a = trim_front (length s) white_space s;
          b = trim_front (length a) (map rev white_space) (rev a)
      in rev b)"

text \<open>
  \<open>strings.ToLower\<close> as far as a comparison with an ASCII word can see it: A-Z, and the two runes
  outside ASCII whose lower case is an ASCII letter (U+0130 and U+212A).
\<close>

fun to_lower :: "bytes \<Rightarrow> bytes" where
  "to_lower [] = []"
| "to_lower (c # cs) =
     (if c = 0xc4 \<and> starts_with [0xb0] cs then 0x69 # to_lower (drop 1 cs)
      else if c = 0xe2 \<and> starts_with [0x84, 0xaa] cs then 0x6b # to_lower (drop 2 cs)
      else (if 0x41 \<le> c \<and> c \<le> 0x5a then c + 0x20 else c) # to_lower cs)"

subsection \<open>Decimal numbers\<close>

lemma digit_byte:
  assumes "n < 10"
  shows "is_digit (0x30 + of_nat n)" "uint ((0x30 + of_nat n :: byte) - 0x30) = int n"
proof -
  have "n \<in> {0, 1, 2, 3, 4, 5, 6, 7, 8, 9}" using assms by auto
  then show "is_digit (0x30 + of_nat n)" "uint ((0x30 + of_nat n :: byte) - 0x30) = int n"
    by (auto simp: is_digit_def)
qed

lemma nat_digits_nonempty [simp]: "nat_digits n \<noteq> []"
  by (subst nat_digits.simps) simp

lemma nat_digits_digits: "list_all is_digit (nat_digits n)"
proof (induction n rule: nat_digits.induct)
  case (1 n)
  then show ?case by (subst nat_digits.simps) (auto simp: digit_byte)
qed

lemma digits_value_snoc: "digits_value (cs @ [c]) = digits_value cs * 10 + uint (c - 0x30)"
  by (simp add: digits_value_def)

lemma digits_value_nat_digits [simp]: "digits_value (nat_digits n) = int n"
proof (induction n rule: nat_digits.induct)
  case (1 n)
  show ?case
  proof (cases "n < 10")
    case True
    then have "nat_digits n = [0x30 + of_nat n]" by (subst nat_digits.simps) simp
    then show ?thesis using digit_byte(2)[OF True] by (simp add: digits_value_def)
  next
    case False
    then have "nat_digits n = nat_digits (n div 10) @ [0x30 + of_nat (n mod 10)]"
      by (subst nat_digits.simps) simp
    then show ?thesis using 1 False digit_byte(2)[of "n mod 10"]
      by (simp add: digits_value_snoc zdiv_int zmod_int)
  qed
qed

lemma is_digit_not_sign: "is_digit c \<Longrightarrow> c \<noteq> 0x2d \<and> c \<noteq> 0x2b"
  by (auto simp: is_digit_def)

lemma atoi_digits:
  assumes "ds \<noteq> []" "list_all is_digit ds" "digits_value ds \<le> max_int64"
  shows "atoi ds = (digits_value ds, True)"
proof -
  obtain c cs where ds: "ds = c # cs" using assms(1) by (cases ds) auto
  have "c \<noteq> 0x2d" "c \<noteq> 0x2b" using assms(2) is_digit_not_sign by (auto simp: ds)
  moreover have "0 \<le> digits_value ds"
    unfolding digits_value_def by (induction ds rule: rev_induct) auto
  ultimately show ?thesis using assms by (auto simp: atoi_def ds Let_def max_int64_def)
qed

lemma atoi_itoa: "0 \<le> n \<Longrightarrow> n \<le> max_int64 \<Longrightarrow> atoi (itoa n) = (n, True)"
  using atoi_digits[of "nat_digits (nat n)"]
  by (simp add: itoa_def nat_digits_digits)

end
