(* ===== verification/Restart.thy ===== *)
theory Restart
  imports Prelude
begin

text \<open>
  \<open>src/internal/fabric/restart.go\<close>: the restart policy, how a process ended, and the tracker
  that spaces out restarts of a flapping process. A \<open>time.Duration\<close> is an \<open>int\<close> of nanoseconds.
\<close>

section \<open>Policies\<close>

text \<open>A \<open>RestartPolicy\<close> is a Go \<open>int\<close>: three named values, and any other number.\<close>

datatype restart_policy = RestartNo | RestartOnFailure | RestartAlways | RestartPolicyOther int

definition restart_policy_string :: "restart_policy \<Rightarrow> bytes" where
  "restart_policy_string p =
     (case p of
        RestartNo \<Rightarrow> bstr ''no''
      | RestartOnFailure \<Rightarrow> bstr ''on-failure''
      | RestartAlways \<Rightarrow> bstr ''always''
      | RestartPolicyOther n \<Rightarrow> bstr ''RestartPolicy('' @ itoa n @ bstr '')'')"

text \<open>The error carries the spelling that was not understood.\<close>

datatype policy_error = UnknownPolicy bytes | PolicyNotAString

definition parse_restart_policy :: "bytes \<Rightarrow> policy_error + restart_policy" where
  "parse_restart_policy s =
     (let w = to_lower (trim_space s)
      in if w = bstr ''no'' \<or> w = bstr ''never'' \<or> w = [] then Inr RestartNo
         else if w = bstr ''on-failure'' \<or> w = bstr ''onfailure'' \<or> w = bstr ''on_failure''
           then Inr RestartOnFailure
         else if w = bstr ''always'' then Inr RestartAlways
         else Inl (UnknownPolicy s))"

record exit_status =
  code :: int
  signal :: bytes

definition exit_clean :: "exit_status \<Rightarrow> bool" where
  "exit_clean e \<longleftrightarrow> code e = 0 \<and> signal e = []"

definition should_restart :: "restart_policy \<Rightarrow> exit_status \<Rightarrow> bool" where
  "should_restart p e =
     (case p of
        RestartAlways \<Rightarrow> True
      | RestartOnFailure \<Rightarrow> \<not> exit_clean e
      | _ \<Rightarrow> False)"

section \<open>Backoff\<close>

definition second :: int where "second = 1000000000"
definition backoff_first :: int where "backoff_first = 1 * second"
definition backoff_max :: int where "backoff_max = 30 * second"
definition stable_after :: int where "stable_after = 60 * second"

lemmas backoff_consts = second_def backoff_first_def backoff_max_def stable_after_def

record restart_tracker =
  delay :: int
  restarts :: int

definition fresh_tracker :: restart_tracker where
  "fresh_tracker = \<lparr>delay = 0, restarts = 0\<rparr>"

definition died :: "int \<Rightarrow> restart_tracker \<Rightarrow> int \<times> restart_tracker" where
  "died ran_for t0 =
     (let t1 = (if ran_for \<ge> stable_after then t0\<lparr>delay := 0, restarts := 0\<rparr> else t0);
          t2 = (if delay t1 = 0 then t1\<lparr>delay := backoff_first\<rparr>
                else if delay t1 < backoff_max
                  then (let d = delay t1 * 2
                        in t1\<lparr>delay := (if d > backoff_max then backoff_max else d)\<rparr>)
                else t1);
          t3 = t2\<lparr>restarts := restarts t2 + 1\<rparr>
      in (delay t3, t3))"

definition reset_tracker :: "restart_tracker \<Rightarrow> restart_tracker" where
  "reset_tracker t = t\<lparr>delay := 0, restarts := 0\<rparr>"

text \<open>A run of deaths, each with the time the process had been up.\<close>

primrec deaths :: "int list \<Rightarrow> restart_tracker \<Rightarrow> restart_tracker" where
  "deaths [] t = t"
| "deaths (r # rs) t = deaths rs (snd (died r t))"

lemma deaths_append: "deaths (rs @ ss) t = deaths ss (deaths rs t)"
  by (induction rs arbitrary: t) auto

subsection \<open>What the tracker promises\<close>

text \<open>
  The specification: the delay before restart number \<open>k\<close> of a flapping run is \<open>2^(k-1)\<close> seconds,
  capped at thirty; a run of a minute or more starts the count again.
\<close>

definition backoff_delay :: "nat \<Rightarrow> int" where
  "backoff_delay k = (if k = 0 then 0 else min (2 ^ (k - 1) * second) backoff_max)"

primrec flaps :: "nat \<Rightarrow> int list \<Rightarrow> nat" where
  "flaps k [] = k"
| "flaps k (r # rs) = flaps (if r \<ge> stable_after then 1 else k + 1) rs"

text \<open>A tracker that stands at restart number \<open>k\<close> of a flapping run.\<close>

definition at_flap :: "nat \<Rightarrow> restart_tracker \<Rightarrow> bool" where
  "at_flap k t \<longleftrightarrow> delay t = backoff_delay k \<and> restarts t = int k"

lemma at_flap_fresh: "at_flap 0 fresh_tracker"
  by (simp add: at_flap_def fresh_tracker_def backoff_delay_def)

lemma at_flap_reset: "at_flap 0 (reset_tracker t)"
  by (simp add: at_flap_def reset_tracker_def backoff_delay_def)

lemma backoff_delay_Suc:
  "backoff_delay (Suc k) =
     (if backoff_delay k = 0 then backoff_first
      else if backoff_delay k < backoff_max then min (backoff_delay k * 2) backoff_max
      else backoff_delay k)"
proof (cases k)
  case 0
  then show ?thesis by (simp add: backoff_delay_def backoff_consts)
next
  case (Suc j)
  show ?thesis
  proof (cases "2 ^ j * second < backoff_max")
    case True
    then show ?thesis by (simp add: Suc backoff_delay_def backoff_consts min_def)
  next
    case False
    have "(2::int) ^ j \<le> 2 ^ Suc j" by simp
    then have "\<not> 2 ^ Suc j * second < backoff_max" using False by (simp add: backoff_consts)
    then show ?thesis using False by (simp add: Suc backoff_delay_def backoff_consts min_def)
  qed
qed

lemma died_at_flap:
  assumes "at_flap k t"
  shows "fst (died r t) = delay (snd (died r t))"
    and "at_flap (if r \<ge> stable_after then 1 else k + 1) (snd (died r t))"
proof -
  show "fst (died r t) = delay (snd (died r t))" by (simp add: died_def Let_def)
  have one: "backoff_delay (Suc 0) = backoff_first"
    by (simp add: backoff_delay_def backoff_consts)
  show "at_flap (if r \<ge> stable_after then 1 else k + 1) (snd (died r t))"
    using assms one backoff_delay_Suc[of k]
    by (simp add: at_flap_def died_def Let_def min_def)
qed

lemma deaths_at_flap: "at_flap k t \<Longrightarrow> at_flap (flaps k rs) (deaths rs t)"
  by (induction rs arbitrary: k t) (use died_at_flap(2) in auto)

lemma flaps_pos: "rs \<noteq> [] \<Longrightarrow> 0 < flaps k rs"
proof (induction rs arbitrary: k)
  case (Cons r rs)
  then show ?case by (cases "rs = []") auto
qed simp

lemma backoff_delay_range: "0 < k \<Longrightarrow> backoff_first \<le> backoff_delay k \<and> backoff_delay k \<le> backoff_max"
  by (simp add: backoff_delay_def backoff_consts)

section \<open>JSON spelling\<close>

text \<open>
  A policy is written to disk as the JSON string of its spelling. The spellings hold no character
  JSON escapes, so \<open>json.Marshal\<close> of one is the spelling in quotes; reading one back accepts any
  string without escapes (\<open>None\<close>: not a plain JSON string).
\<close>

definition json_quote :: "bytes \<Rightarrow> bytes" where
  "json_quote s = 0x22 # s @ [0x22]"

definition json_unquote :: "bytes \<Rightarrow> bytes option" where
  "json_unquote b =
     (if 2 \<le> length b \<and> hd b = 0x22 \<and> last b = 0x22 \<and>
         list_all (\<lambda>c. c \<noteq> 0x22 \<and> c \<noteq> 0x5c \<and> 0x20 \<le> c) (butlast (tl b))
      then Some (butlast (tl b)) else None)"

definition policy_marshal_json :: "restart_policy \<Rightarrow> bytes" where
  "policy_marshal_json p = json_quote (restart_policy_string p)"

definition policy_unmarshal_json :: "bytes \<Rightarrow> policy_error + restart_policy" where
  "policy_unmarshal_json b =
     (case json_unquote b of
        None \<Rightarrow> Inl PolicyNotAString
      | Some s \<Rightarrow> parse_restart_policy s)"

lemma leading_white_space_0:
  assumes "0x29 \<le> c" "c < 0x80"
  shows "leading white_space (c # cs) = 0" "leading (map rev white_space) (c # cs) = 0"
proof -
  have "hd p \<noteq> c" if "p \<in> set white_space \<union> set (map rev white_space)" for p
    using that assms by (auto simp: white_space_def word_le_nat_alt word_less_nat_alt)
  moreover have "p \<noteq> []" if "p \<in> set white_space \<union> set (map rev white_space)" for p
    using that by (auto simp: white_space_def)
  moreover have "p \<noteq> [] \<Longrightarrow> hd p \<noteq> c \<Longrightarrow> \<not> starts_with p (c # cs)" for p
    by (cases p) (auto simp: starts_with_def)
  ultimately have "\<not> starts_with p (c # cs)"
    if "p \<in> set white_space \<union> set (map rev white_space)" for p
    using that by blast
  then show "leading white_space (c # cs) = 0" "leading (map rev white_space) (c # cs) = 0"
    by (auto simp: leading_def find_Some_iff split: option.split)
qed

lemma trim_space_tight:
  assumes "s = c # cs @ [d]" "0x29 \<le> c" "c < 0x80" "0x29 \<le> d" "d < 0x80"
  shows "trim_space s = s"
proof -
  have "trim_front n white_space s = s" for n
    using leading_white_space_0(1)[OF assms(2,3)] by (cases n) (auto simp: assms(1))
  moreover have "trim_front n (map rev white_space) (rev s) = rev s" for n
    using leading_white_space_0(2)[OF assms(4,5)] by (cases n) (auto simp: assms(1))
  ultimately show ?thesis by (simp add: trim_space_def)
qed

lemma parse_other_policy: "parse_restart_policy (restart_policy_string (RestartPolicyOther n)) =
     Inl (UnknownPolicy (restart_policy_string (RestartPolicyOther n)))"
proof -
  let ?s = "restart_policy_string (RestartPolicyOther n)"
  have s: "?s = 0x52 # (bstr ''estartPolicy('' @ itoa n) @ [0x29]"
    by (simp add: restart_policy_string_def)
  have "trim_space ?s = ?s" by (rule trim_space_tight[OF s]) auto
  moreover have "hd (to_lower ?s) = 0x72" "to_lower ?s \<noteq> []" by (simp_all add: s)
  ultimately show ?thesis by (auto simp: parse_restart_policy_def Let_def)
qed

lemma parse_named_policy:
  "parse_restart_policy (restart_policy_string RestartNo) = Inr RestartNo"
  "parse_restart_policy (restart_policy_string RestartOnFailure) = Inr RestartOnFailure"
  "parse_restart_policy (restart_policy_string RestartAlways) = Inr RestartAlways"
  by code_simp+

lemma itoa_plain: "list_all (\<lambda>c. c \<noteq> 0x22 \<and> c \<noteq> 0x5c \<and> 0x20 \<le> c) (itoa n)"
proof -
  have "list_all (\<lambda>c. c \<noteq> 0x22 \<and> c \<noteq> 0x5c \<and> 0x20 \<le> c) (nat_digits m)" for m
    using nat_digits_digits[of m]
    by (rule list.pred_mono_strong) (auto simp: is_digit_def word_le_nat_alt)
  then show ?thesis by (simp add: itoa_def)
qed

lemma json_unquote_quote:
  assumes "list_all (\<lambda>c. c \<noteq> 0x22 \<and> c \<noteq> 0x5c \<and> 0x20 \<le> c) s"
  shows "json_unquote (json_quote s) = Some s"
  using assms by (simp add: json_quote_def json_unquote_def)

lemma json_unquote_policy: "json_unquote (policy_marshal_json p) = Some (restart_policy_string p)"
  unfolding policy_marshal_json_def
  by (rule json_unquote_quote)
    (use itoa_plain in \<open>cases p; simp add: restart_policy_string_def\<close>)

section \<open>Properties\<close>

text \<open>
  The backoff schedule: whatever the history of deaths since the tracker was made, the wait
  before the next restart is \<open>2^(k-1)\<close> seconds capped at thirty, where \<open>k\<close> is the number of
  deaths since (and including) the last one that ended a stable run, and \<open>Restarts\<close> is that \<open>k\<close>.
\<close>

theorem backoff_schedule:
  "fst (died r (deaths rs fresh_tracker)) = backoff_delay (flaps 0 (rs @ [r])) \<and>
   restarts (snd (died r (deaths rs fresh_tracker))) = int (flaps 0 (rs @ [r]))"
proof -
  have "at_flap (flaps 0 rs) (deaths rs fresh_tracker)"
    using at_flap_fresh by (rule deaths_at_flap)
  from died_at_flap(1)[OF this, of r] died_at_flap(2)[OF this, of r]
  have "fst (died r (deaths rs fresh_tracker)) = delay (snd (died r (deaths rs fresh_tracker)))"
    and "at_flap (if r \<ge> stable_after then 1 else flaps 0 rs + 1) (snd (died r (deaths rs fresh_tracker)))"
    by auto
  moreover have "flaps k (rs @ [r]) = (if r \<ge> stable_after then 1 else flaps k rs + 1)" for k
    by (induction rs arbitrary: k) auto
  ultimately show ?thesis by (simp add: at_flap_def)
qed

text \<open>
  A policy survives being written to a service file and read back; a number that is none of
  the three policies is written too, and then refused on reading rather than taken for a policy.
\<close>

theorem policy_json_roundtrip:
  "policy_unmarshal_json (policy_marshal_json p) =
     (case p of RestartPolicyOther n \<Rightarrow> Inl (UnknownPolicy (restart_policy_string p)) | _ \<Rightarrow> Inr p)"
proof -
  have json: "json_unquote (policy_marshal_json p) = Some (restart_policy_string p)"
    by (rule json_unquote_policy)
  show ?thesis
  proof (cases p)
    case (RestartPolicyOther n)
    then show ?thesis using json parse_other_policy[of n]
      by (simp add: policy_unmarshal_json_def)
  qed (use json in \<open>simp_all add: policy_unmarshal_json_def parse_named_policy\<close>)
qed

end
