(* ===== verification/Ipc.thy ===== *)
theory Ipc
  imports Prelude
begin

text \<open>
  \<open>src/internal/ipc/frame.go\<close> and the \<open>Response\<close> of \<open>messages.go\<close>: length-prefixed frames on a
  stream. A connection's read side is the bytes still to come and how they end; the write side is
  the bytes handed to the stream in one \<open>Write\<close>, so interleaving writers interleave whole frames.
  JSON encoding is the standard library's: the encoder and decoder are arguments.
\<close>

section \<open>Kinds and limits\<close>

type_synonym kind = byte

definition kind_request :: kind where "kind_request = 1"
definition kind_response :: kind where "kind_response = 2"
definition kind_data :: kind where "kind_data = 3"
definition kind_event :: kind where "kind_event = 4"

definition kind_valid :: "kind \<Rightarrow> bool" where
  "kind_valid k \<longleftrightarrow> k = kind_request \<or> k = kind_response \<or> k = kind_data \<or> k = kind_event"

definition kind_string :: "kind \<Rightarrow> bytes" where
  "kind_string k =
     (if k = kind_request then bstr ''request''
      else if k = kind_response then bstr ''response''
      else if k = kind_data then bstr ''data''
      else if k = kind_event then bstr ''event''
      else bstr ''Kind('' @ itoa (uint k) @ bstr '')'')"

definition max_frame_size :: nat where "max_frame_size = 8388608"

datatype frame_error =
    FrameTooLarge nat
  | EmptyFrame
  | UnknownKind kind
  | EndOfStream
  | TruncatedHeader
  | TruncatedBody nat
  | StreamFailed
  | WrongKind kind kind
  | BadPayload kind
  | CannotEncode kind

section \<open>Writing\<close>

definition be32 :: "nat \<Rightarrow> bytes" where
  "be32 n = [of_nat (n div 16777216), of_nat (n div 65536), of_nat (n div 256), of_nat n]"

definition be32_value :: "bytes \<Rightarrow> nat" where
  "be32_value b = unat (b ! 0) * 16777216 + unat (b ! 1) * 65536 + unat (b ! 2) * 256 + unat (b ! 3)"

text \<open>The bytes of one frame, or why it is refused; the frame is written with a single \<open>Write\<close>.\<close>

definition write_frame :: "kind \<Rightarrow> bytes \<Rightarrow> frame_error + bytes" where
  "write_frame k payload =
     (if \<not> kind_valid k then Inl (UnknownKind k)
      else let n = length payload + 1 in
        if n > max_frame_size then Inl (FrameTooLarge n)
        else Inr (be32 n @ k # payload))"

definition write_json :: "('v \<Rightarrow> bytes option) \<Rightarrow> kind \<Rightarrow> 'v \<Rightarrow> frame_error + bytes" where
  "write_json enc k v =
     (case enc v of None \<Rightarrow> Inl (CannotEncode k) | Some b \<Rightarrow> write_frame k b)"

section \<open>Reading\<close>

datatype stream_end = EndEOF | EndFailed

record stream =
  pending :: bytes
  ending :: stream_end

datatype short_read = ReadEOF | ReadUnexpectedEOF | ReadFailed

text \<open>\<open>io.ReadFull\<close>: exactly \<open>n\<close> bytes, or why not. It consumes what there was.\<close>

definition read_full :: "nat \<Rightarrow> stream \<Rightarrow> (short_read + bytes) \<times> stream" where
  "read_full n s =
     (if n \<le> length (pending s)
      then (Inr (take n (pending s)), s\<lparr>pending := drop n (pending s)\<rparr>)
      else (Inl (case ending s of
                   EndFailed \<Rightarrow> ReadFailed
                 | EndEOF \<Rightarrow> (if pending s = [] then ReadEOF else ReadUnexpectedEOF)),
            s\<lparr>pending := []\<rparr>))"

definition read_frame :: "stream \<Rightarrow> (frame_error + kind \<times> bytes) \<times> stream" where
  "read_frame s0 =
     (case read_full 4 s0 of
        (Inl ReadEOF, s) \<Rightarrow> (Inl EndOfStream, s)
      | (Inl ReadUnexpectedEOF, s) \<Rightarrow> (Inl TruncatedHeader, s)
      | (Inl ReadFailed, s) \<Rightarrow> (Inl StreamFailed, s)
      | (Inr header, s) \<Rightarrow>
          let n = be32_value header in
          if n = 0 then (Inl EmptyFrame, s)
          else if n > max_frame_size then (Inl (FrameTooLarge n), s)
          else (case read_full n s of
              (Inl ReadFailed, s') \<Rightarrow> (Inl StreamFailed, s')
            | (Inl _, s') \<Rightarrow> (Inl (TruncatedBody n), s')
            | (Inr buf, s') \<Rightarrow>
                if \<not> kind_valid (hd buf) then (Inl (UnknownKind (hd buf)), s')
                else (Inr (hd buf, tl buf), s')))"

definition read_json :: "(bytes \<Rightarrow> 'v option) \<Rightarrow> kind \<Rightarrow> stream \<Rightarrow> (frame_error + 'v) \<times> stream" where
  "read_json dec want s =
     (case read_frame s of
        (Inl e, s') \<Rightarrow> (Inl e, s')
      | (Inr (k, payload), s') \<Rightarrow>
          if k \<noteq> want then (Inl (WrongKind want k), s')
          else (case dec payload of
                  None \<Rightarrow> (Inl (BadPayload k), s')
                | Some v \<Rightarrow> (Inr v, s')))"

text \<open>A reader's loop: frames until the first error, with that error.\<close>

fun read_frames :: "nat \<Rightarrow> stream \<Rightarrow> (kind \<times> bytes) list \<times> frame_error option" where
  "read_frames 0 s = ([], None)"
| "read_frames (Suc fuel) s =
     (case read_frame s of
        (Inl e, s') \<Rightarrow> ([], Some e)
      | (Inr f, s') \<Rightarrow> (case read_frames fuel s' of (fs, e) \<Rightarrow> (f # fs, e)))"

section \<open>Responses\<close>

record response =
  resp_id :: nat
  ok :: bool
  error_text :: bytes
  payload :: bytes

text \<open>\<open>ipc.Err\<close>: the text of the error, \<open>None\<close> being a nil error.\<close>

definition err_response :: "nat \<Rightarrow> bytes option \<Rightarrow> response" where
  "err_response i err =
     \<lparr>resp_id = i, ok = False,
      error_text = (case err of None \<Rightarrow> bstr ''unspecified error'' | Some e \<Rightarrow> e), payload = []\<rparr>"

text \<open>\<open>ipc.OKResponse\<close>: \<open>None\<close> is a nil value; an encoding error (\<open>Inl\<close>) must not look like success.\<close>

definition ok_response :: "('v \<Rightarrow> bytes + bytes) \<Rightarrow> nat \<Rightarrow> 'v option \<Rightarrow> response" where
  "ok_response enc i v =
     (case v of
        None \<Rightarrow> \<lparr>resp_id = i, ok = True, error_text = [], payload = []\<rparr>
      | Some x \<Rightarrow> (case enc x of
            Inl e \<Rightarrow> err_response i (Some (bstr ''encoding response: '' @ e))
          | Inr b \<Rightarrow> \<lparr>resp_id = i, ok = True, error_text = [], payload = b\<rparr>))"

definition decode_response :: "(bytes \<Rightarrow> 'v option) \<Rightarrow> response \<Rightarrow> bytes + 'v" where
  "decode_response dec r =
     (if payload r = []
      then Inl (bstr ''response '' @ itoa (int (resp_id r)) @ bstr '' has no payload'')
      else (case dec (payload r) of None \<Rightarrow> Inl (bstr ''invalid JSON'') | Some v \<Rightarrow> Inr v))"

section \<open>Lemmas\<close>

lemma length_be32 [simp]: "length (be32 n) = 4"
  by (simp add: be32_def)

lemma base256: "n = n div 16777216 * 16777216 + n div 65536 mod 256 * 65536
      + n div 256 mod 256 * 256 + n mod 256" for n :: nat
proof -
  have a: "n div 65536 = n div 256 div 256" "n div 16777216 = n div 65536 div 256"
    by (simp_all flip: div_mult2_eq)
  have "n = n div 256 * 256 + n mod 256" by simp
  moreover have "n div 256 = n div 65536 * 256 + n div 256 mod 256" by (simp add: a(1))
  moreover have "n div 65536 = n div 16777216 * 256 + n div 65536 mod 256" by (simp add: a(2))
  ultimately show ?thesis by linarith
qed

lemma be32_value_be32 [simp]:
  assumes "n \<le> max_frame_size"
  shows "be32_value (be32 n @ rest) = n"
proof -
  have "n div 16777216 < 256" using assms by (simp add: max_frame_size_def)
  then show ?thesis
    using base256[of n] by (simp add: be32_value_def be32_def unat_of_nat take_bit_eq_mod)
qed

lemma be32_value_take: "be32_value (take 4 b) = be32_value b" if "4 \<le> length b"
  using that by (simp add: be32_value_def)

definition frame_ok :: "kind \<times> bytes \<Rightarrow> bool" where
  "frame_ok f \<longleftrightarrow> kind_valid (fst f) \<and> length (snd f) < max_frame_size"

definition frame_bytes :: "kind \<times> bytes \<Rightarrow> bytes" where
  "frame_bytes f = be32 (length (snd f) + 1) @ fst f # snd f"

lemma write_frame_Inr: "write_frame k p = Inr b \<longleftrightarrow> frame_ok (k, p) \<and> b = frame_bytes (k, p)"
  by (auto simp: write_frame_def frame_ok_def frame_bytes_def Let_def)

lemma length_frame_bytes: "length (frame_bytes f) = length (snd f) + 5"
  by (simp add: frame_bytes_def)

lemma read_frame_frame_bytes:
  assumes "frame_ok f" and "pending s = frame_bytes f @ rest"
  shows "read_frame s = (Inr f, s\<lparr>pending := rest\<rparr>)"
proof -
  obtain k p where f: "f = (k, p)" by (cases f)
  let ?n = "length p + 1"
  have n: "?n \<le> max_frame_size" and k: "kind_valid k" using assms(1) by (auto simp: frame_ok_def f)
  have "read_full 4 s = (Inr (be32 ?n), s\<lparr>pending := (k # p) @ rest\<rparr>)"
    using assms(2) by (simp add: read_full_def frame_bytes_def f)
  moreover have "read_full ?n (s\<lparr>pending := (k # p) @ rest\<rparr>) = (Inr (k # p), s\<lparr>pending := rest\<rparr>)"
    by (simp add: read_full_def)
  moreover have "be32_value (be32 ?n) = ?n" using be32_value_be32[OF n, of "[]"] by simp
  ultimately show ?thesis using n k by (simp add: read_frame_def f Let_def)
qed

lemma read_frames_frame_bytes:
  assumes "\<forall>f \<in> set fs. frame_ok f" and "pending s = concat (map frame_bytes fs) @ rest"
  shows "read_frames (length fs + n) s =
     (let (gs, e) = read_frames n (s\<lparr>pending := rest\<rparr>) in (fs @ gs, e))"
  using assms
proof (induction fs arbitrary: s)
  case Nil
  then have "s\<lparr>pending := rest\<rparr> = s" by simp
  then show ?case by (simp add: split_def)
next
  case (Cons f fs)
  have "read_frame s = (Inr f, s\<lparr>pending := concat (map frame_bytes fs) @ rest\<rparr>)"
    by (rule read_frame_frame_bytes) (use Cons.prems in auto)
  then show ?case
    using Cons.IH[of "s\<lparr>pending := concat (map frame_bytes fs) @ rest\<rparr>"] Cons.prems
    by (simp add: split_def Let_def)
qed

text \<open>A frame cut anywhere in the middle is reported, never delivered short.\<close>

lemma read_frame_cut:
  assumes "frame_ok f" and "m < length (frame_bytes f)"
    and "pending s = take m (frame_bytes f)" and "ending s = EndEOF"
  shows "fst (read_frame s) =
     Inl (if m = 0 then EndOfStream else if m < 4 then TruncatedHeader
          else TruncatedBody (length (snd f) + 1))"
proof -
  obtain k p where f: "f = (k, p)" by (cases f)
  let ?n = "length p + 1"
  have n: "?n \<le> max_frame_size" using assms(1) by (auto simp: frame_ok_def f)
  have len: "length (pending s) = m" using assms(2,3) by simp
  show ?thesis
  proof (cases "m < 4")
    case True
    then show ?thesis using len assms(4) by (auto simp: read_frame_def read_full_def)
  next
    case False
    have four: "take 4 (pending s) = be32 ?n"
      using False assms(3) by (simp add: frame_bytes_def f take_append min_def)
    have "read_full 4 s = (Inr (be32 ?n), s\<lparr>pending := drop 4 (pending s)\<rparr>)"
      using False len four by (simp add: read_full_def)
    moreover have "be32_value (be32 ?n) = ?n" using be32_value_be32[OF n, of "[]"] by simp
    moreover have "\<not> ?n \<le> length (drop 4 (pending s))"
      using assms(2) len by (simp add: length_frame_bytes f)
    ultimately show ?thesis using False n assms(4)
      by (auto simp: read_frame_def read_full_def f Let_def)
  qed
qed

lemma read_frame_bounds:
  assumes "read_frame s = (Inr (k, p), s')"
  shows "frame_ok (k, p)" and "\<exists>header. length header = 4 \<and> pending s = header @ k # p @ pending s'"
proof -
  obtain h s1 where h: "read_full 4 s = (Inr h, s1)"
    using assms by (auto simp: read_frame_def split: prod.splits sum.splits short_read.splits)
  let ?n = "be32_value h"
  have n: "?n \<noteq> 0" "?n \<le> max_frame_size"
    using assms by (auto simp: read_frame_def h Let_def split: if_split_asm)
  obtain buf where buf: "read_full ?n s1 = (Inr buf, s')" "kind_valid (hd buf)" "k = hd buf" "p = tl buf"
    using assms n by (auto simp: read_frame_def h Let_def
        split: if_split_asm prod.split_asm sum.split_asm short_read.split_asm)
  have hs: "h = take 4 (pending s)" "4 \<le> length (pending s)" "pending s1 = drop 4 (pending s)"
    using h by (auto simp: read_full_def split: if_split_asm)
  have bs: "buf = take ?n (pending s1)" "?n \<le> length (pending s1)" "pending s' = drop ?n (pending s1)"
    using buf(1) by (auto simp: read_full_def split: if_split_asm)
  have len: "length buf = ?n" using bs by simp
  then have "buf \<noteq> []" using n(1) by auto
  then have kp: "buf = k # p" using buf(3,4) by simp
  have "Suc (length p) = ?n" using len kp by simp
  then show "frame_ok (k, p)" using n(2) buf(2,3) by (simp add: frame_ok_def)
  have "pending s = h @ buf @ pending s'"
    using hs bs by (metis append_take_drop_id)
  then show "\<exists>header. length header = 4 \<and> pending s = header @ k # p @ pending s'"
    using hs kp by (intro exI[of _ h]) simp
qed

section \<open>Properties\<close>

text \<open>
  C35. The wire round trip: every frame of a known kind whose payload is under the limit is accepted by the writer, and from
  what the writer puts on the stream for any list of them, back to back, a reader gets exactly those frames, in order, and
  then the clean end of the stream.
\<close>

theorem frames_roundtrip:
  assumes "\<forall>(k, p) \<in> set fs. kind_valid k \<and> length p + 1 \<le> max_frame_size"
  shows "\<exists>bs. list_all2 (\<lambda>(k, p) b. write_frame k p = Inr b) fs bs
    \<and> read_frames (length fs + 1) \<lparr>pending = concat bs, ending = EndEOF\<rparr> = (fs, Some EndOfStream)"
proof (intro exI conjI)
  have ok: "\<forall>f \<in> set fs. frame_ok f" using assms by (auto simp: frame_ok_def)
  show "list_all2 (\<lambda>(k, p) b. write_frame k p = Inr b) fs (map frame_bytes fs)"
    using ok by (auto simp: list_all2_map2 list_all2_same write_frame_Inr)
  from read_frames_frame_bytes[OF ok, of "\<lparr>pending = concat (map frame_bytes fs), ending = EndEOF\<rparr>" "[]" 1]
  show "read_frames (length fs + 1) \<lparr>pending = concat (map frame_bytes fs), ending = EndEOF\<rparr> = (fs, Some EndOfStream)"
    by (simp add: read_frame_def read_full_def)
qed

theorem frames_roundtrip_witness:
  "\<exists>bs. list_all2 (\<lambda>(k, p) b. write_frame k p = Inr b) [(kind_data, bstr ''hi''), (kind_event, [])] bs
    \<and> read_frames (length [(kind_data, bstr ''hi''), (kind_event, [])] + 1) \<lparr>pending = concat bs, ending = EndEOF\<rparr>
      = ([(kind_data, bstr ''hi''), (kind_event, [])], Some EndOfStream)"
  by (rule frames_roundtrip) (simp add: kind_valid_def max_frame_size_def bstr_def)

text \<open>
  What a reader can be made to believe: for any bytes a peer sends, a frame that is delivered
  has a known kind and a payload under the limit and is a literal piece of the input; and a frame
  cut short at any point is an error, never a shorter frame.
\<close>

theorem read_frame_safe:
  "(\<forall>k p s'. read_frame s = (Inr (k, p), s') \<longrightarrow>
      kind_valid k \<and> length p + 1 \<le> max_frame_size \<and>
      (\<exists>header. length header = 4 \<and> pending s = header @ k # p @ pending s')) \<and>
   (\<forall>k p m. write_frame k p = Inr (frame_bytes (k, p)) \<longrightarrow> m < length (frame_bytes (k, p)) \<longrightarrow>
      fst (read_frame \<lparr>pending = take m (frame_bytes (k, p)), ending = EndEOF\<rparr>) =
        Inl (if m = 0 then EndOfStream else if m < 4 then TruncatedHeader
             else TruncatedBody (length p + 1)))"
proof (intro conjI allI impI)
  fix k p s' assume r: "read_frame s = (Inr (k, p), s')"
  show "kind_valid k" "length p + 1 \<le> max_frame_size"
    using read_frame_bounds(1)[OF r] by (auto simp: frame_ok_def)
  show "\<exists>header. length header = 4 \<and> pending s = header @ k # p @ pending s'"
    by (rule read_frame_bounds(2)[OF r])
next
  fix k p m assume w: "write_frame k p = Inr (frame_bytes (k, p))" and m: "m < length (frame_bytes (k, p))"
  have "frame_ok (k, p)" using w by (simp add: write_frame_Inr)
  from read_frame_cut[OF this m, of "\<lparr>pending = take m (frame_bytes (k, p)), ending = EndEOF\<rparr>"]
  show "fst (read_frame \<lparr>pending = take m (frame_bytes (k, p)), ending = EndEOF\<rparr>) =
      Inl (if m = 0 then EndOfStream else if m < 4 then TruncatedHeader
           else TruncatedBody (length p + 1))"
    by simp
qed

theorem read_frame_safe_witness:
  "kind_valid kind_data \<and>
   fst (read_frame \<lparr>pending = take 6 (frame_bytes (kind_data, bstr ''hi'')), ending = EndEOF\<rparr>) =
     Inl (TruncatedBody 3)"
proof
  have w: "write_frame kind_data (bstr ''hi'') = Inr (frame_bytes (kind_data, bstr ''hi''))"
    by (simp add: write_frame_Inr frame_ok_def kind_valid_def max_frame_size_def)
  have six: "6 < length (frame_bytes (kind_data, bstr ''hi''))" by (simp add: frame_bytes_def)
  show "fst (read_frame \<lparr>pending = take 6 (frame_bytes (kind_data, bstr ''hi'')), ending = EndEOF\<rparr>) =
     Inl (TruncatedBody 3)"
    using read_frame_safe[THEN conjunct2, rule_format, OF w six] by simp
  have "read_frame \<lparr>pending = frame_bytes (kind_data, []) @ [], ending = EndEOF\<rparr> =
      (Inr (kind_data, []), \<lparr>pending = frame_bytes (kind_data, []) @ [], ending = EndEOF\<rparr>\<lparr>pending := []\<rparr>)"
    by (rule read_frame_frame_bytes)
      (simp_all add: frame_ok_def kind_valid_def max_frame_size_def)
  then show "kind_valid kind_data" by (rule read_frame_safe[THEN conjunct1, rule_format, THEN conjunct1])
qed

end
