(* ===== verification/Cells.thy ===== *)
theory Cells
  imports Prelude
begin

text \<open>
  What a terminal shows: UTF-8 as Go's \<open>unicode/utf8\<close> reads it, the width table of
  \<open>src/internal/vt/width.go\<close> and the cells, styles and cursor of \<open>src/internal/vt/vt.go\<close>.
  The Unicode categories Mn, Me and Cf of Go's \<open>unicode\<close> tables are the argument \<open>mark\<close>.
\<close>

section \<open>UTF-8\<close>

text \<open>\<open>(size, lo, hi)\<close>: how long a sequence this byte begins, and the range of its second byte.\<close>

definition lead_info :: "byte \<Rightarrow> nat \<times> byte \<times> byte" where
  "lead_info c =
     (if c < 0xc2 then (1, 0x80, 0xbf)
      else if c \<le> 0xdf then (2, 0x80, 0xbf)
      else if c = 0xe0 then (3, 0xa0, 0xbf)
      else if c = 0xed then (3, 0x80, 0x9f)
      else if c \<le> 0xef then (3, 0x80, 0xbf)
      else if c = 0xf0 then (4, 0x90, 0xbf)
      else if c \<le> 0xf3 then (4, 0x80, 0xbf)
      else if c = 0xf4 then (4, 0x80, 0x8f)
      else (1, 0x80, 0xbf))"

definition is_cont :: "byte \<Rightarrow> bool" where
  "is_cont c \<longleftrightarrow> 0x80 \<le> c \<and> c \<le> 0xbf"

text \<open>\<open>utf8.FullRune\<close>: the bytes begin with a whole encoding, or can no longer become one.\<close>

definition full_rune :: "bytes \<Rightarrow> bool" where
  "full_rune p =
     (case p of [] \<Rightarrow> False
      | c # cs \<Rightarrow> (case lead_info c of (sz, lo, hi) \<Rightarrow>
          length p \<ge> sz
          \<or> (length p > 1 \<and> \<not> (lo \<le> p ! 1 \<and> p ! 1 \<le> hi))
          \<or> (length p > 2 \<and> \<not> is_cont (p ! 2))))"

definition rune_error :: int where "rune_error = 0xfffd"

text \<open>\<open>utf8.DecodeRune\<close>: the rune and how many bytes it took; \<open>(rune_error, 1)\<close> for bytes that are none.\<close>

definition decode_rune :: "bytes \<Rightarrow> int \<times> nat" where
  "decode_rune p =
     (case p of [] \<Rightarrow> (rune_error, 0)
      | c # cs \<Rightarrow>
         if c < 0x80 then (uint c, 1)
         else (case lead_info c of (sz, lo, hi) \<Rightarrow>
           if sz = 1 \<or> length p < sz \<or> \<not> (lo \<le> p ! 1 \<and> p ! 1 \<le> hi) then (rune_error, 1)
           else if sz = 2 then ((uint c - 0xc0) * 64 + (uint (p ! 1) - 0x80), 2)
           else if \<not> is_cont (p ! 2) then (rune_error, 1)
           else if sz = 3
             then ((uint c - 0xe0) * 4096 + (uint (p ! 1) - 0x80) * 64 + (uint (p ! 2) - 0x80), 3)
           else if \<not> is_cont (p ! 3) then (rune_error, 1)
           else ((uint c - 0xf0) * 262144 + (uint (p ! 1) - 0x80) * 4096
                 + (uint (p ! 2) - 0x80) * 64 + (uint (p ! 3) - 0x80), 4)))"

text \<open>\<open>string(r)\<close>: a rune that is no code point encodes as U+FFFD.\<close>

definition encode_rune :: "int \<Rightarrow> bytes" where
  "encode_rune r0 =
     (let r = (if r0 < 0 \<or> r0 > 0x10ffff \<or> (0xd800 \<le> r0 \<and> r0 \<le> 0xdfff) then rune_error else r0)
      in if r < 0x80 then [word_of_int r]
         else if r < 0x800 then [word_of_int (0xc0 + r div 64), word_of_int (0x80 + r mod 64)]
         else if r < 0x10000
           then [word_of_int (0xe0 + r div 4096), word_of_int (0x80 + r div 64 mod 64),
                 word_of_int (0x80 + r mod 64)]
         else [word_of_int (0xf0 + r div 262144), word_of_int (0x80 + r div 4096 mod 64),
               word_of_int (0x80 + r div 64 mod 64), word_of_int (0x80 + r mod 64)])"

lemma lead_info_size: "1 \<le> fst (lead_info c) \<and> fst (lead_info c) \<le> 4"
  by (simp add: lead_info_def)

lemma lead_info_cont:
  "lead_info c = (sz, lo, hi) \<Longrightarrow> lo \<le> d \<Longrightarrow> d \<le> hi \<Longrightarrow> is_cont d"
  by (auto simp: lead_info_def is_cont_def word_le_nat_alt split: if_split_asm)

lemma full_rune_long: "4 \<le> length p \<Longrightarrow> full_rune p"
  using lead_info_size[of "hd p"] by (cases p) (auto simp: full_rune_def split: prod.split)

lemma full_rune_ascii: "c < 0x80 \<Longrightarrow> full_rune (c # cs)"
  by (simp add: full_rune_def lead_info_def word_less_nat_alt split: prod.split)

lemma decode_rune_size: "p \<noteq> [] \<Longrightarrow> 1 \<le> snd (decode_rune p) \<and> snd (decode_rune p) \<le> length p"
proof (cases p)
  case (Cons c cs)
  obtain sz lo hi where i: "lead_info c = (sz, lo, hi)" by (cases "lead_info c")
  then have "sz \<in> {1, 2, 3, 4}" using lead_info_size[of c] by auto
  then show ?thesis using Cons i by (auto simp: decode_rune_def Suc_le_eq)
qed simp

lemma encode_rune_nonempty [simp]: "encode_rune r \<noteq> []"
  by (simp add: encode_rune_def Let_def)

text \<open>What \<open>range\<close> over a string visits: each rune with the offset it starts at.\<close>

function string_runes :: "nat \<Rightarrow> bytes \<Rightarrow> (nat \<times> int) list" where
  "string_runes i s =
     (if s = [] then []
      else (i, fst (decode_rune s)) #
           string_runes (i + snd (decode_rune s)) (drop (snd (decode_rune s)) s))"
  by pat_completeness auto
termination
proof (relation "measure (\<lambda>(i, s). length s)")
  show "((i + snd (decode_rune s), drop (snd (decode_rune s)) s), (i, s)) \<in> measure (\<lambda>(i, s). length s)"
    if "s \<noteq> []" for i :: nat and s
    using decode_rune_size[OF that] that by simp
qed simp

declare string_runes.simps [simp del]

lemma string_runes_Nil [simp]: "string_runes i [] = []"
  by (subst string_runes.simps) simp

section \<open>Widths\<close>

definition wide_ranges :: "(int \<times> int) list" where
  "wide_ranges =
     [(0x1100, 0x115F), (0x2E80, 0x303E), (0x3041, 0x33FF), (0x3400, 0x4DBF), (0x4E00, 0x9FFF),
      (0xA000, 0xA4CF), (0xAC00, 0xD7A3), (0xF900, 0xFAFF), (0xFE10, 0xFE19), (0xFE30, 0xFE6F),
      (0xFF00, 0xFF60), (0xFFE0, 0xFFE6), (0x1F300, 0x1F64F), (0x1F900, 0x1F9FF),
      (0x20000, 0x2FFFD), (0x30000, 0x3FFFD)]"

definition is_wide :: "int \<Rightarrow> bool" where
  "is_wide r \<longleftrightarrow> list_ex (\<lambda>(lo, hi). lo \<le> r \<and> r \<le> hi) wide_ranges"

definition rune_width :: "(int \<Rightarrow> bool) \<Rightarrow> int \<Rightarrow> int" where
  "rune_width mark r =
     (if r = 0 then 0
      else if r < 32 \<or> (r \<ge> 0x7f \<and> r < 0xa0) then 0
      else if mark r then 0
      else if is_wide r then 2
      else 1)"

definition string_width :: "(int \<Rightarrow> bool) \<Rightarrow> bytes \<Rightarrow> int" where
  "string_width mark s = (\<Sum>(i, r) \<leftarrow> string_runes 0 s. rune_width mark r)"

fun cut_width :: "(int \<Rightarrow> bool) \<Rightarrow> int \<Rightarrow> int \<Rightarrow> (nat \<times> int) list \<Rightarrow> nat option" where
  "cut_width mark w u [] = None"
| "cut_width mark w u ((i, r) # rs) =
     (let rw = rune_width mark r in
      if u + rw > w then Some i else cut_width mark w (u + rw) rs)"

definition truncate_to_width :: "(int \<Rightarrow> bool) \<Rightarrow> bytes \<Rightarrow> int \<Rightarrow> bytes" where
  "truncate_to_width mark s w =
     (if w \<le> 0 then []
      else (case cut_width mark w 0 (string_runes 0 s) of None \<Rightarrow> s | Some i \<Rightarrow> take i s))"

lemma rune_width_range [go_bounds]: "0 \<le> rune_width mark r \<and> rune_width mark r \<le> 2"
  by (simp add: rune_width_def)

section \<open>Cells\<close>

datatype color_kind = ColorDefault | ColorIndexed | ColorRGB

record color =
  col_kind :: color_kind
  col_index :: byte
  col_r :: byte
  col_g :: byte
  col_b :: byte

definition no_color :: color where
  "no_color = \<lparr>col_kind = ColorDefault, col_index = 0, col_r = 0, col_g = 0, col_b = 0\<rparr>"

record style =
  st_link :: bytes
  st_fg :: color
  st_bg :: color
  st_bold :: bool
  st_faint :: bool
  st_italic :: bool
  st_underline :: bool
  st_blink :: bool
  st_reverse :: bool
  st_strike :: bool
  st_hyperlink :: bytes

definition no_style :: style where
  "no_style = \<lparr>st_link = [], st_fg = no_color, st_bg = no_color, st_bold = False, st_faint = False,
     st_italic = False, st_underline = False, st_blink = False, st_reverse = False,
     st_strike = False, st_hyperlink = []\<rparr>"

record cell =
  content :: bytes
  width :: int
  style :: style

definition space_cell :: "style \<Rightarrow> cell" where
  "space_cell s = \<lparr>content = [0x20], width = 1, style = s\<rparr>"

definition blank_cell :: cell where
  "blank_cell = space_cell no_style"

text \<open>The second column of a wide character.\<close>

definition cont_cell :: "style \<Rightarrow> cell" where
  "cont_cell s = \<lparr>content = [], width = 0, style = s\<rparr>"

definition zero_cell :: cell where
  "zero_cell = \<lparr>content = [], width = 0, style = no_style\<rparr>"

definition blank_row :: "int \<Rightarrow> cell list" where
  "blank_row cols = replicate (nat cols) blank_cell"

record cursor =
  c_row :: int
  c_col :: int
  c_visible :: bool
  c_shape :: int
  c_pending :: bool

definition zero_cursor :: cursor where
  "zero_cursor = \<lparr>c_row = 0, c_col = 0, c_visible = False, c_shape = 0, c_pending = False\<rparr>"

definition width_ok :: "cell \<Rightarrow> bool" where
  "width_ok c \<longleftrightarrow> 0 \<le> width c \<and> width c \<le> 2"

definition row_ok :: "cell list \<Rightarrow> bool" where
  "row_ok r \<longleftrightarrow> (\<forall>c \<in> set r. width_ok c)"

lemma width_ok_simps [simp]:
  "width_ok (space_cell s)" "width_ok blank_cell" "width_ok (cont_cell s)" "width_ok zero_cell"
  by (simp_all add: width_ok_def space_cell_def blank_cell_def cont_cell_def zero_cell_def)

lemma length_blank_row [simp]: "length (blank_row n) = nat n"
  by (simp add: blank_row_def)

lemma set_blank_row: "set (blank_row n) \<subseteq> {blank_cell}"
  by (auto simp: blank_row_def)

lemma row_ok_blank [simp]: "row_ok (blank_row n)"
  using set_blank_row by (fastforce simp: row_ok_def)

lemma row_ok_subset: "row_ok r \<Longrightarrow> set r' \<subseteq> insert c (set r) \<Longrightarrow> width_ok c \<Longrightarrow> row_ok r'"
  by (auto simp: row_ok_def)

lemma row_ok_update: "row_ok r \<Longrightarrow> width_ok c \<Longrightarrow> row_ok (r[i := c])"
  using set_update_subset_insert[of r i c] by (auto simp: row_ok_def)

subsection \<open>Truncation\<close>

lemma string_runes_nonempty:
  "s \<noteq> [] \<Longrightarrow> string_runes i s = (i, fst (decode_rune s)) #
     string_runes (i + snd (decode_rune s)) (drop (snd (decode_rune s)) s)"
  by (subst string_runes.simps) simp

text \<open>A prefix that ends where a rune starts is read as a prefix of the runes.\<close>

definition rune_start :: "bytes \<Rightarrow> nat \<Rightarrow> bool" where
  "rune_start s i \<longleftrightarrow> i \<in> fst ` set (string_runes 0 s) \<or> i = length s"

lemma string_runes_shift: "string_runes (i + k) s = map (\<lambda>(j, r). (j + k, r)) (string_runes i s)"
proof (induction i s rule: string_runes.induct)
  case (1 i s)
  show ?case
  proof (cases "s = []")
    case False
    then show ?thesis using 1[OF False]
      by (simp add: string_runes_nonempty[OF False] algebra_simps)
  qed simp
qed

lemma string_runes_bound: "(j, r) \<in> set (string_runes i s) \<Longrightarrow> i \<le> j \<and> j < i + length s"
proof (induction i s rule: string_runes.induct)
  case (1 i s)
  show ?case
  proof (cases "s = []")
    case False
    then show ?thesis
      using 1 decode_rune_size[OF False] by (fastforce simp: string_runes_nonempty)
  qed (use 1 in simp)
qed

end
