(* ===== verification/History.thy ===== *)
theory History
  imports Cells
begin

text \<open>
  \<open>src/internal/vt/grid/history.go\<close>: the scrollback ring. The interface \<open>line_store\<close> says what
  the emulator relies on - the ring holds the newest \<open>limit\<close> lines, oldest first - and the ring is
  shown to provide it.
\<close>

section \<open>The ring\<close>

record hist_line =
  hl_cells :: "cell list"
  hl_wrapped :: bool
  hl_used :: int

record hist_ring =
  hr_lines :: "hist_line list"
  hr_start :: int
  hr_n :: int
  hr_limit :: int

definition empty_ring :: hist_ring where
  "empty_ring = \<lparr>hr_lines = [], hr_start = 0, hr_n = 0, hr_limit = 0\<rparr>"

definition hist_len :: "hist_ring \<Rightarrow> int" where
  "hist_len h = hr_n h"

text \<open>An empty ring has no line to give: the remainder by zero panics.\<close>

definition hist_at :: "hist_ring \<Rightarrow> int \<Rightarrow> hist_line option" where
  "hist_at h i =
     (if hr_lines h = [] then None
      else idx (hr_lines h) ((hr_start h + i) mod int (length (hr_lines h))))"

definition hist_push :: "cell list \<Rightarrow> bool \<Rightarrow> int \<Rightarrow> hist_ring \<Rightarrow> hist_ring option" where
  "hist_push cells wr us h =
     (if hr_limit h \<le> 0 then Some h
      else if int (length (hr_lines h)) < hr_limit h then
        (let ls = hr_lines h @ [\<lparr>hl_cells = cells, hl_wrapped = wr, hl_used = us\<rparr>]
         in Some (h\<lparr>hr_lines := ls, hr_n := int (length ls)\<rparr>))
      else do {
        ls \<leftarrow> upd (hr_lines h) (hr_start h) \<lparr>hl_cells = cells, hl_wrapped = wr, hl_used = us\<rparr>;
        Some (h\<lparr>hr_lines := ls, hr_start := (hr_start h + 1) mod hr_limit h, hr_n := hr_limit h\<rparr>) })"

definition hist_reset :: "hist_ring \<Rightarrow> hist_ring" where
  "hist_reset h = h\<lparr>hr_lines := [], hr_start := 0, hr_n := 0\<rparr>"

definition hist_set_limit :: "int \<Rightarrow> hist_ring \<Rightarrow> hist_ring option" where
  "hist_set_limit n0 h =
     (let n = (if n0 < 0 then 0 else n0) in
      if n = hr_limit h then Some h
      else let keep = min n (hr_n h) in do {
        ls \<leftarrow> for_range (hr_n h - keep) (hr_n h)
               (\<lambda>i ls. do { l \<leftarrow> hist_at h i; Some (ls @ [l]) }) [];
        Some (h\<lparr>hr_lines := ls, hr_start := 0, hr_n := keep, hr_limit := n\<rparr>) })"

section \<open>Abstraction\<close>

definition hist_inv :: "hist_ring \<Rightarrow> bool" where
  "hist_inv h \<longleftrightarrow>
     0 \<le> hr_limit h \<and> hr_n h = int (length (hr_lines h)) \<and> hr_n h \<le> hr_limit h \<and>
     0 \<le> hr_start h \<and> (hr_start h = 0 \<or> hr_start h < hr_n h) \<and>
     (hr_n h < hr_limit h \<longrightarrow> hr_start h = 0)"

text \<open>The lines, oldest first: the array read from its start, wrapping around.\<close>

definition hist_list :: "hist_ring \<Rightarrow> hist_line list" where
  "hist_list h = rotate (nat (hr_start h)) (hr_lines h)"

lemma length_hist_list [simp]: "length (hist_list h) = length (hr_lines h)"
  by (simp add: hist_list_def)

lemma hist_len_list: "hist_inv h \<Longrightarrow> hist_len h = int (length (hist_list h))"
  by (simp add: hist_inv_def hist_len_def)

lemma hist_at_list:
  assumes "hist_inv h" "0 \<le> i" "i < hist_len h"
  shows "hist_at h i = Some (hist_list h ! nat i)"
proof -
  let ?n = "length (hr_lines h)"
  have n: "0 < ?n" "i < int ?n" using assms by (auto simp: hist_inv_def hist_len_def)
  have "hist_list h ! nat i = hr_lines h ! ((nat (hr_start h) + nat i) mod ?n)"
    using n assms(2) by (simp add: hist_list_def nth_rotate)
  moreover have "(nat (hr_start h) + nat i) mod ?n = nat ((hr_start h + i) mod int ?n)"
    using assms by (simp add: hist_inv_def nat_mod_distrib nat_add_distrib)
  moreover have "0 \<le> (hr_start h + i) mod int ?n" "(hr_start h + i) mod int ?n < int ?n"
    using n by simp_all
  ultimately show ?thesis using n by (auto simp: hist_at_def)
qed

lemma rotate_overwrite:
  assumes "k < length xs"
  shows "rotate (Suc k) (xs[k := x]) = tl (rotate k xs) @ [x]"
proof -
  have "xs[k := x] = take k xs @ x # drop (Suc k) xs"
    using assms by (simp add: upd_conv_take_nth_drop)
  then have "rotate (Suc k) (xs[k := x]) = drop (Suc k) xs @ take k xs @ [x]"
    using assms rotate_append[of "take k xs @ [x]" "drop (Suc k) xs"] by simp
  moreover have "rotate k xs = drop k xs @ take k xs"
    using assms rotate_append[of "take k xs" "drop k xs"] by simp
  moreover have "tl (drop k xs @ take k xs) = drop (Suc k) xs @ take k xs"
    using assms by (simp add: drop_Suc tl_drop)
  ultimately show ?thesis by simp
qed

lemma rotate_mod: "rotate (k mod length xs) xs = rotate k xs"
  using rotate_conv_mod[of k xs] by simp

lemma hist_push_ok:
  assumes "hist_inv h"
  shows "\<exists>h'. hist_push cs wr us h = Some h' \<and> hist_inv h' \<and> hr_limit h' = hr_limit h \<and>
     hist_list h' = lastn (nat (hr_limit h)) (hist_list h @ [\<lparr>hl_cells = cs, hl_wrapped = wr, hl_used = us\<rparr>])"
proof -
  let ?l = "\<lparr>hl_cells = cs, hl_wrapped = wr, hl_used = us\<rparr>"
  let ?n = "length (hr_lines h)"
  consider (off) "hr_limit h = 0" | (grow) "0 < hr_limit h" "int ?n < hr_limit h"
    | (full) "0 < hr_limit h" "int ?n = hr_limit h"
    using assms unfolding hist_inv_def by linarith
  then show ?thesis
  proof cases
    case off
    then have "hr_lines h = []" using assms by (auto simp: hist_inv_def)
    with off show ?thesis using assms by (simp add: hist_push_def hist_list_def)
  next
    case grow
    then have "hr_start h = 0" using assms by (auto simp: hist_inv_def)
    with grow show ?thesis using assms
      by (simp add: hist_push_def hist_inv_def hist_list_def Let_def)
  next
    case full
    let ?k = "nat (hr_start h)"
    have k: "?k < ?n" using full assms by (auto simp: hist_inv_def)
    have "(hr_start h + 1) mod hr_limit h = int (Suc ?k mod ?n)"
      using full assms by (simp add: hist_inv_def zmod_int add.commute)
    then have start: "nat ((hr_start h + 1) mod hr_limit h) = Suc ?k mod ?n" by simp
    have "rotate (Suc ?k mod ?n) ((hr_lines h)[?k := ?l]) = tl (hist_list h) @ [?l]"
      using rotate_overwrite[OF k] rotate_mod[of "Suc ?k" "(hr_lines h)[?k := ?l]"]
      by (simp add: hist_list_def)
    moreover have "lastn (nat (hr_limit h)) (hist_list h @ [?l]) = tl (hist_list h) @ [?l]"
    proof -
      have n: "nat (hr_limit h) = ?n" using full(2) by simp
      have "lastn (?n - 1) (hist_list h) = tl (hist_list h)"
        using k by (simp add: lastn_def drop_Suc)
      moreover have "0 < ?n" using k by linarith
      ultimately show ?thesis using lastn_snoc[of ?n "hist_list h" ?l] by (simp add: n)
    qed
    moreover have "(hr_start h + 1) mod hr_limit h < hr_limit h" using full by simp
    ultimately show ?thesis
      using assms k full start by (auto simp: hist_push_def hist_inv_def hist_list_def)
  qed
qed

lemma collect_lines:
  assumes "hist_inv h" "0 \<le> a" "a \<le> hist_len h"
  shows "for_range a (hist_len h) (\<lambda>i ls. do { l \<leftarrow> hist_at h i; Some (ls @ [l]) }) [] =
     Some (drop (nat a) (hist_list h))"
proof -
  have "\<exists>s'. for_range a (hist_len h) (\<lambda>i ls. do { l \<leftarrow> hist_at h i; Some (ls @ [l]) }) [] = Some s' \<and>
      s' = take (nat (hist_len h) - nat a) (drop (nat a) (hist_list h))"
  proof (rule for_range_rule[OF assms(3), where P = "\<lambda>j s. s = take (nat j - nat a) (drop (nat a) (hist_list h))"])
    fix j s assume j: "a \<le> j" "j < hist_len h" "s = take (nat j - nat a) (drop (nat a) (hist_list h))"
    then have at: "hist_at h j = Some (hist_list h ! nat j)" and "nat j < length (hist_list h)"
      using hist_at_list assms hist_len_list by auto
    moreover have "nat (j + 1) - nat a = Suc (nat j - nat a)" using j assms by auto
    ultimately show "\<exists>s'. (do { l \<leftarrow> hist_at h j; Some (s @ [l]) }) = Some s' \<and>
        s' = take (nat (j + 1) - nat a) (drop (nat a) (hist_list h))"
    proof -
      have "nat j - nat a < length (drop (nat a) (hist_list h))" using j assms \<open>nat j < _\<close> by auto
      from take_Suc_conv_app_nth[OF this] have
        "take (Suc (nat j - nat a)) (drop (nat a) (hist_list h)) =
         take (nat j - nat a) (drop (nat a) (hist_list h)) @ [hist_list h ! nat j]"
        using j assms \<open>nat j < _\<close> by (subst (asm) nth_drop) auto
      then show ?thesis using at \<open>nat (j + 1) - nat a = _\<close> j by simp
    qed
  qed simp
  then show ?thesis using assms by (simp add: hist_len_list)
qed

lemma hist_set_limit_ok:
  assumes "hist_inv h"
  shows "\<exists>h'. hist_set_limit n h = Some h' \<and> hist_inv h' \<and> hr_limit h' = max 0 n \<and>
     hist_list h' = lastn (nat n) (hist_list h)"
proof (cases "max 0 n = hr_limit h")
  case True
  then show ?thesis using assms
    by (auto simp: hist_set_limit_def Let_def hist_inv_def hist_list_def max_def split: if_split_asm)
next
  case False
  let ?m = "max 0 n"
  let ?keep = "min ?m (hr_n h)"
  have inv: "hr_n h = hist_len h" "0 \<le> hr_n h" "hr_n h = int (length (hist_list h))"
    using assms by (auto simp: hist_inv_def hist_len_def)
  then have "0 \<le> hr_n h - ?keep" "hr_n h - ?keep \<le> hist_len h" by auto
  from collect_lines[OF assms this]
  have ls: "for_range (hr_n h - ?keep) (hr_n h) (\<lambda>i ls. do { l \<leftarrow> hist_at h i; Some (ls @ [l]) }) [] =
      Some (drop (nat (hr_n h - ?keep)) (hist_list h))" by (simp add: inv)
  have d: "drop (nat (hr_n h - ?keep)) (hist_list h) = lastn (nat n) (hist_list h)"
  proof (cases "?m \<le> hr_n h")
    case True
    then have "nat (hr_n h - ?keep) = length (hist_list h) - nat n" using inv(3) by auto
    then show ?thesis by (simp add: lastn_def)
  next
    case False
    then have "nat (hr_n h - ?keep) = 0" "length (hist_list h) \<le> nat n" using inv(3) by auto
    then show ?thesis by simp
  qed
  have m: "(if n < 0 then 0 else n) = ?m" by auto
  have "hist_set_limit n h = Some (h\<lparr>hr_lines := lastn (nat n) (hist_list h), hr_start := 0,
      hr_n := ?keep, hr_limit := ?m\<rparr>)"
    using False ls by (simp add: hist_set_limit_def Let_def m d)
  moreover have "int (length (lastn (nat n) (hist_list h))) = ?keep"
    using inv(3) by auto
  ultimately show ?thesis by (simp add: hist_inv_def hist_list_def)
qed

section \<open>The interface\<close>

text \<open>
  What the emulator asks of a scrollback: lines go in at the new end, the oldest fall out past the
  limit, reading by age, and changing the limit keeps the newest.
\<close>

locale line_store =
  fixes push :: "cell list \<Rightarrow> bool \<Rightarrow> int \<Rightarrow> 'h \<Rightarrow> 'h option"
    and at :: "'h \<Rightarrow> int \<Rightarrow> hist_line option"
    and len :: "'h \<Rightarrow> int"
    and set_limit :: "int \<Rightarrow> 'h \<Rightarrow> 'h option"
    and reset :: "'h \<Rightarrow> 'h"
    and limit :: "'h \<Rightarrow> int"
    and lines :: "'h \<Rightarrow> hist_line list"
    and inv :: "'h \<Rightarrow> bool"
  assumes push_lines: "inv h \<Longrightarrow> \<exists>h'. push cs w u h = Some h' \<and> inv h' \<and> limit h' = limit h \<and>
        lines h' = lastn (nat (limit h)) (lines h @ [\<lparr>hl_cells = cs, hl_wrapped = w, hl_used = u\<rparr>])"
    and at_lines: "inv h \<Longrightarrow> 0 \<le> i \<Longrightarrow> i < len h \<Longrightarrow> at h i = Some (lines h ! nat i)"
    and len_lines: "inv h \<Longrightarrow> len h = int (length (lines h))"
    and set_limit_lines: "inv h \<Longrightarrow> \<exists>h'. set_limit n h = Some h' \<and> inv h' \<and> limit h' = max 0 n \<and>
        lines h' = lastn (nat n) (lines h)"
    and reset_lines: "inv h \<Longrightarrow> inv (reset h) \<and> lines (reset h) = [] \<and> limit (reset h) = limit h"
    and bounded: "inv h \<Longrightarrow> int (length (lines h)) \<le> limit h"
begin

text \<open>Pushing a whole list of lines.\<close>

primrec push_all :: "hist_line list \<Rightarrow> 'h \<Rightarrow> 'h option" where
  "push_all [] h = Some h"
| "push_all (l # ls) h = Option.bind (push (hl_cells l) (hl_wrapped l) (hl_used l) h) (push_all ls)"

lemma push_all_lines:
  "inv h \<Longrightarrow> \<exists>h'. push_all ls h = Some h' \<and> inv h' \<and> limit h' = limit h \<and>
     lines h' = lastn (nat (limit h)) (lines h @ ls)"
proof (induction ls arbitrary: h)
  case Nil
  then show ?case using bounded[OF Nil] by simp
next
  case (Cons l ls)
  obtain h1 where h1: "push (hl_cells l) (hl_wrapped l) (hl_used l) h = Some h1" "inv h1"
      "limit h1 = limit h" "lines h1 = lastn (nat (limit h)) (lines h @ [l])"
    using push_lines[OF Cons.prems, of "hl_cells l" "hl_wrapped l" "hl_used l"] by (cases l) auto
  then show ?case using Cons.IH[OF h1(2)] by simp
qed

lemma readback: "inv h \<Longrightarrow> map (\<lambda>i. at h (int i)) [0..<length (lines h)] = map Some (lines h)"
  by (rule nth_equalityI) (auto simp: at_lines len_lines)

end

interpretation ring: line_store hist_push hist_at hist_len hist_set_limit hist_reset hr_limit hist_list hist_inv
proof unfold_locales
  show "hist_inv h \<Longrightarrow> hist_inv (hist_reset h) \<and> hist_list (hist_reset h) = [] \<and>
      hr_limit (hist_reset h) = hr_limit h" for h
    by (simp add: hist_inv_def hist_reset_def hist_list_def)
  show "hist_inv h \<Longrightarrow> int (length (hist_list h)) \<le> hr_limit h" for h
    by (simp add: hist_inv_def)
qed (auto intro: hist_push_ok hist_set_limit_ok simp: hist_at_list hist_len_list)

lemma hist_inv_empty: "hist_inv empty_ring"
  by (simp add: hist_inv_def empty_ring_def)

section \<open>Properties\<close>

text \<open>
  C25. The scrollback keeps exactly the newest \<open>limit\<close> lines, oldest first: from any ring the
  operations can have produced, a push never panics and leaves the last \<open>limit\<close> of the old lines
  and the new one, and a change of limit keeps the newest lines of what was there.
\<close>

theorem scrollback_keeps_newest:
  assumes "hist_inv h"
  shows "(\<exists>h'. hist_push cs wr us h = Some h' \<and> hist_inv h' \<and>
            hist_list h' = lastn (nat (hr_limit h)) (hist_list h @ [\<lparr>hl_cells = cs, hl_wrapped = wr, hl_used = us\<rparr>])) \<and>
         (\<exists>h'. hist_set_limit n h = Some h' \<and> hist_inv h' \<and> hist_list h' = lastn (nat n) (hist_list h)) \<and>
         (\<forall>i. 0 \<le> i \<and> i < hist_len h \<longrightarrow> hist_at h i = Some (hist_list h ! nat i))"
  using ring.push_lines[OF assms] ring.set_limit_lines[OF assms] ring.at_lines[OF assms] by blast

definition three_line_ring :: hist_ring where
  "three_line_ring = \<lparr>hr_lines = [\<lparr>hl_cells = [], hl_wrapped = False, hl_used = 3\<rparr>,
      \<lparr>hl_cells = [], hl_wrapped = False, hl_used = 1\<rparr>, \<lparr>hl_cells = [], hl_wrapped = False, hl_used = 2\<rparr>],
     hr_start = 1, hr_n = 3, hr_limit = 3\<rparr>"

theorem scrollback_keeps_newest_witness:
  "hist_inv three_line_ring \<and> map hl_used (hist_list three_line_ring) = [1, 2, 3] \<and>
   (\<exists>h'. hist_push [] False 4 three_line_ring = Some h' \<and> map hl_used (hist_list h') = [2, 3, 4])"
proof -
  have inv: "hist_inv three_line_ring" by (simp add: hist_inv_def three_line_ring_def)
  have l: "hist_list three_line_ring = [\<lparr>hl_cells = [], hl_wrapped = False, hl_used = 1\<rparr>,
      \<lparr>hl_cells = [], hl_wrapped = False, hl_used = 2\<rparr>, \<lparr>hl_cells = [], hl_wrapped = False, hl_used = 3\<rparr>]"
    by (simp add: hist_list_def three_line_ring_def)
  obtain h' where "hist_push [] False 4 three_line_ring = Some h'"
    "hist_list h' = lastn (nat (hr_limit three_line_ring))
       (hist_list three_line_ring @ [\<lparr>hl_cells = [], hl_wrapped = False, hl_used = 4\<rparr>])"
    using scrollback_keeps_newest[OF inv, of "[]" False 4] by blast
  then show ?thesis using inv l by (simp add: three_line_ring_def lastn_def eval_nat_numeral)
qed

end
