(* ===== verification/Terminal.thy ===== *)
theory Terminal
  imports History "HOL-Library.AList"
begin

text \<open>
  The emulator's state, \<open>Term\<close> of \<open>src/internal/vt/grid/grid.go\<close>, and the operations that draw on
  it: put, wrap, scroll, erase, insert, delete, move, save and restore (\<open>grid.go\<close>, and the drawing
  helpers of \<open>parser.go\<close>), with the character sets of \<open>charset.go\<close>. Rows are distinct slices in the
  source and are values here; an operation that can index out of range is in the option monad.
\<close>

section \<open>State\<close>

datatype charset = CharsetASCII | CharsetGraphics

record vterm =
  t_cols :: int
  t_rows :: int
  t_cells :: "cell list list"
  t_wrapped :: "bool list"
  t_used :: "int list"
  t_cur :: cursor
  t_saved :: cursor
  t_saved_style :: style
  t_style :: style
  t_pend :: bool
  t_top :: int
  t_bottom :: int
  t_alt :: "cell list list option"
  t_alt_wrapped :: "bool list"
  t_alt_used :: "int list"
  t_alt_saved :: cursor
  t_on_alt :: bool
  t_alt_pending :: bool
  t_modes :: "int \<Rightarrow> bool option"
  t_dir :: bytes
  t_title :: bytes
  t_titles :: "bytes list"
  t_irm :: bool
  t_awm :: bool
  t_keypad :: bool
  t_colour_asks :: "int list"
  t_replies :: bytes
  t_unknown :: "(bytes \<times> nat) list"
  t_g0 :: charset
  t_g1 :: charset
  t_active :: int
  t_tabs :: "bool list"
  t_hist :: hist_ring

definition default_scrollback :: int where "default_scrollback = 2000"

text \<open>A tab stop every eight columns.\<close>

definition default_tabs :: "int \<Rightarrow> bool list" where
  "default_tabs cols = map (\<lambda>c. c \<noteq> 0 \<and> c mod 8 = 0) [0..<nat cols]"

definition new_ring :: hist_ring where
  "new_ring = empty_ring\<lparr>hr_limit := default_scrollback\<rparr>"

definition new_term :: "int \<Rightarrow> int \<Rightarrow> vterm" where
  "new_term cols0 rows0 =
     (let cols = (if cols0 < 1 then 1 else cols0); rows = (if rows0 < 1 then 1 else rows0) in
      \<lparr>t_cols = cols, t_rows = rows,
       t_cells = replicate (nat rows) (blank_row cols),
       t_wrapped = replicate (nat rows) False, t_used = replicate (nat rows) 0,
       t_cur = zero_cursor\<lparr>c_visible := True\<rparr>, t_saved = zero_cursor,
       t_saved_style = no_style, t_style = no_style, t_pend = False,
       t_top = 0, t_bottom = rows - 1,
       t_alt = None, t_alt_wrapped = [], t_alt_used = [], t_alt_saved = zero_cursor,
       t_on_alt = False, t_alt_pending = False, t_modes = (\<lambda>_. None), t_dir = [], t_title = [],
       t_titles = [], t_irm = False, t_awm = True, t_keypad = False, t_colour_asks = [],
       t_replies = [], t_unknown = [], t_g0 = CharsetASCII, t_g1 = CharsetASCII, t_active = 0,
       t_tabs = default_tabs cols, t_hist = new_ring\<rparr>)"

text \<open>\<open>t.hist.setLimit(DefaultScrollback)\<close> on the zero ring of a new terminal.\<close>

lemma new_ring_eq: "hist_set_limit default_scrollback empty_ring = Some new_ring"
  by (simp add: hist_set_limit_def new_ring_def empty_ring_def default_scrollback_def)

section \<open>Looking\<close>

definition cursor_of :: "vterm \<Rightarrow> cursor" where
  "cursor_of t = (t_cur t)\<lparr>c_pending := t_pend t\<rparr>"

definition cell_at :: "int \<Rightarrow> int \<Rightarrow> vterm \<Rightarrow> (cell \<times> bool) option" where
  "cell_at row col t =
     (if row < 0 \<or> row \<ge> t_rows t \<or> col < 0 \<or> col \<ge> t_cols t then Some (zero_cell, False)
      else do { r \<leftarrow> idx (t_cells t) row; c \<leftarrow> idx r col; Some (c, True) })"

definition snapshot :: "vterm \<Rightarrow> cell list list" where
  "snapshot t = map (\<lambda>r. go_copy (replicate (nat (t_cols t)) zero_cell) r) (t_cells t)"

definition alt_screen :: "vterm \<Rightarrow> bool" where
  "alt_screen t \<longleftrightarrow> t_alt t \<noteq> None"

definition modes_on :: "vterm \<Rightarrow> int \<Rightarrow> bool" where
  "modes_on t m \<longleftrightarrow> t_modes t m = Some True"

section \<open>Tabs, cursor, titles, modes\<close>

fun tab_from :: "bool list \<Rightarrow> nat \<Rightarrow> int \<Rightarrow> int \<Rightarrow> int" where
  "tab_from tabs 0 c cols = cols - 1"
| "tab_from tabs (Suc k) c cols =
     (if c < int (length tabs) \<and> tabs ! nat c then c else tab_from tabs k (c + 1) cols)"

definition next_tab :: "vterm \<Rightarrow> int" where
  "next_tab t = tab_from (t_tabs t) (nat (t_cols t - (c_col (t_cur t) + 1))) (c_col (t_cur t) + 1) (t_cols t)"

definition set_tab :: "vterm \<Rightarrow> vterm option" where
  "set_tab t =
     (if c_col (t_cur t) < int (length (t_tabs t))
      then do { tabs \<leftarrow> upd (t_tabs t) (c_col (t_cur t)) True; Some (t\<lparr>t_tabs := tabs\<rparr>) }
      else Some t)"

definition clear_tabs :: "bool \<Rightarrow> vterm \<Rightarrow> vterm option" where
  "clear_tabs every t =
     (if every then Some (t\<lparr>t_tabs := replicate (length (t_tabs t)) False\<rparr>)
      else if c_col (t_cur t) < int (length (t_tabs t))
      then do { tabs \<leftarrow> upd (t_tabs t) (c_col (t_cur t)) False; Some (t\<lparr>t_tabs := tabs\<rparr>) }
      else Some t)"

definition set_col :: "int \<Rightarrow> vterm \<Rightarrow> vterm" where
  "set_col c t = t\<lparr>t_cur := (t_cur t)\<lparr>c_col := c\<rparr>\<rparr>"

definition set_row :: "int \<Rightarrow> vterm \<Rightarrow> vterm" where
  "set_row r t = t\<lparr>t_cur := (t_cur t)\<lparr>c_row := r\<rparr>\<rparr>"

definition move_to :: "int \<Rightarrow> int \<Rightarrow> vterm \<Rightarrow> vterm" where
  "move_to row col t =
     (set_col (clamp col 0 (t_cols t - 1)) (set_row (clamp row 0 (t_rows t - 1)) t))\<lparr>t_pend := False\<rparr>"

definition move_vertically :: "int \<Rightarrow> vterm \<Rightarrow> vterm" where
  "move_vertically delta t =
     (let hi = (if delta > 0 \<and> c_row (t_cur t) \<le> t_bottom t then t_bottom t else t_rows t - 1);
          lo = (if delta < 0 \<and> c_row (t_cur t) \<ge> t_top t then t_top t else 0)
      in (set_row (clamp (wrap64 (c_row (t_cur t) + delta)) lo hi) t)\<lparr>t_pend := False\<rparr>)"

definition eff_col :: "vterm \<Rightarrow> int" where
  "eff_col t = (if t_pend t then t_cols t else c_col (t_cur t))"

definition save_cursor :: "vterm \<Rightarrow> vterm" where
  "save_cursor t = t\<lparr>t_saved := t_cur t, t_saved_style := t_style t\<rparr>"

definition restore_cursor :: "vterm \<Rightarrow> vterm" where
  "restore_cursor t =
     (let s = t_saved t in
      t\<lparr>t_cur := s\<lparr>c_visible := c_visible (t_cur t), c_row := clamp (c_row s) 0 (t_rows t - 1),
                  c_col := clamp (c_col s) 0 (t_cols t - 1)\<rparr>,
        t_style := t_saved_style t, t_pend := False\<rparr>)"

definition unknown_limit :: nat where "unknown_limit = 50"

definition note_unknown :: "bytes \<Rightarrow> vterm \<Rightarrow> vterm" where
  "note_unknown name t =
     (case map_of (t_unknown t) name of
        Some n \<Rightarrow> t\<lparr>t_unknown := AList.update name (n + 1) (t_unknown t)\<rparr>
      | None \<Rightarrow> (if length (t_unknown t) \<ge> unknown_limit then t
                 else t\<lparr>t_unknown := AList.update name 1 (t_unknown t)\<rparr>))"

definition title_stack_limit :: nat where "title_stack_limit = 10"

definition push_title :: "vterm \<Rightarrow> vterm" where
  "push_title t =
     (let ts = (if length (t_titles t) \<ge> title_stack_limit then tl (t_titles t) else t_titles t)
      in t\<lparr>t_titles := ts @ [t_title t]\<rparr>)"

definition pop_title :: "vterm \<Rightarrow> vterm" where
  "pop_title t =
     (if t_titles t = [] then t
      else t\<lparr>t_title := last (t_titles t), t_titles := butlast (t_titles t)\<rparr>)"

definition colour_ask_limit :: nat where "colour_ask_limit = 10"

definition take_colour_asks :: "vterm \<Rightarrow> int list \<times> vterm" where
  "take_colour_asks t = (t_colour_asks t, t\<lparr>t_colour_asks := []\<rparr>)"

definition take_replies :: "vterm \<Rightarrow> bytes \<times> vterm" where
  "take_replies t = (t_replies t, t\<lparr>t_replies := []\<rparr>)"

definition reply :: "bytes \<Rightarrow> vterm \<Rightarrow> vterm" where
  "reply b t = t\<lparr>t_replies := t_replies t @ b\<rparr>"

definition set_mode :: "int \<Rightarrow> bool \<Rightarrow> vterm \<Rightarrow> vterm" where
  "set_mode n on t = t\<lparr>t_modes := (t_modes t)(n := Some on)\<rparr>"

section \<open>Character sets\<close>

definition dec_special_graphics :: "(byte \<times> int) list" where
  "dec_special_graphics =
     [(0x60, 0x25C6), (0x61, 0x2592), (0x62, 0x2409), (0x63, 0x240C), (0x64, 0x240D),
      (0x65, 0x240A), (0x66, 0xB0), (0x67, 0xB1), (0x68, 0x2424), (0x69, 0x240B), (0x6a, 0x2518),
      (0x6b, 0x2510), (0x6c, 0x250C), (0x6d, 0x2514), (0x6e, 0x253C), (0x6f, 0x23BA),
      (0x70, 0x23BB), (0x71, 0x2500), (0x72, 0x23BC), (0x73, 0x23BD), (0x74, 0x251C),
      (0x75, 0x2524), (0x76, 0x2534), (0x77, 0x252C), (0x78, 0x2502), (0x79, 0x2264),
      (0x7a, 0x2265), (0x7b, 0x3C0), (0x7c, 0x2260), (0x7d, 0xA3), (0x7e, 0xB7)]"

definition select_charset :: "int \<Rightarrow> byte \<Rightarrow> vterm \<Rightarrow> vterm" where
  "select_charset slot c t =
     (let cs = (if c = 0x30 then CharsetGraphics else CharsetASCII)
      in if slot = 0 then t\<lparr>t_g0 := cs\<rparr> else t\<lparr>t_g1 := cs\<rparr>)"

definition shift_to :: "int \<Rightarrow> vterm \<Rightarrow> vterm" where
  "shift_to slot t = t\<lparr>t_active := slot\<rparr>"

definition map_rune :: "byte \<Rightarrow> vterm \<Rightarrow> bytes option" where
  "map_rune c t =
     (let cs = (if t_active t = 1 then t_g1 t else t_g0 t) in
      if cs \<noteq> CharsetGraphics \<or> c > 0x7f then None
      else map_option encode_rune (map_of dec_special_graphics c))"

section \<open>Cells\<close>

definition set_cell :: "int \<Rightarrow> int \<Rightarrow> cell \<Rightarrow> vterm \<Rightarrow> vterm option" where
  "set_cell row col c t = do {
     r \<leftarrow> idx (t_cells t) row;
     r' \<leftarrow> upd r col c;
     cells \<leftarrow> upd (t_cells t) row r';
     Some (t\<lparr>t_cells := cells\<rparr>) }"

text \<open>Replace a whole row through a function that may panic.\<close>

definition on_row :: "int \<Rightarrow> (cell list \<Rightarrow> cell list option) \<Rightarrow> vterm \<Rightarrow> vterm option" where
  "on_row row f t = do {
     r \<leftarrow> idx (t_cells t) row;
     r' \<leftarrow> f r;
     cells \<leftarrow> upd (t_cells t) row r';
     Some (t\<lparr>t_cells := cells\<rparr>) }"

definition set_used :: "int \<Rightarrow> int \<Rightarrow> vterm \<Rightarrow> vterm option" where
  "set_used row n t = do { us \<leftarrow> upd (t_used t) row n; Some (t\<lparr>t_used := us\<rparr>) }"

definition set_wrapped :: "int \<Rightarrow> bool \<Rightarrow> vterm \<Rightarrow> vterm option" where
  "set_wrapped row b t = do { ws \<leftarrow> upd (t_wrapped t) row b; Some (t\<lparr>t_wrapped := ws\<rparr>) }"

definition erase_in_row :: "int \<Rightarrow> int \<Rightarrow> int \<Rightarrow> vterm \<Rightarrow> vterm option" where
  "erase_in_row row from to t =
     (if row < 0 \<or> row \<ge> t_rows t then Some t
      else on_row row
        (fill (max from 0) (min to (t_cols t - 1) + 1)
           (space_cell (no_style\<lparr>st_bg := st_bg (t_style t)\<rparr>))) t)"

section \<open>Scrolling\<close>

definition remember :: "cell list \<Rightarrow> bool \<Rightarrow> int \<Rightarrow> vterm \<Rightarrow> vterm option" where
  "remember line wr us t =
     (if t_on_alt t then Some t
      else do { h \<leftarrow> hist_push line wr us (t_hist t); Some (t\<lparr>t_hist := h\<rparr>) })"

text \<open>\<open>copy(x[a:b], x[c:d])\<close> on the three per-row slices together.\<close>

definition copy_rows :: "int \<Rightarrow> int \<Rightarrow> int \<Rightarrow> int \<Rightarrow> vterm \<Rightarrow> vterm option" where
  "copy_rows a b c d t = do {
     cells \<leftarrow> copy_within (t_cells t) a b c d;
     ws \<leftarrow> copy_within (t_wrapped t) a b c d;
     us \<leftarrow> copy_within (t_used t) a b c d;
     Some (t\<lparr>t_cells := cells, t_wrapped := ws, t_used := us\<rparr>) }"

text \<open>Put a row in place, neither wrapped nor written to.\<close>

definition place_row :: "int \<Rightarrow> cell list \<Rightarrow> vterm \<Rightarrow> vterm option" where
  "place_row row line t = do {
     cells \<leftarrow> upd (t_cells t) row line;
     t1 \<leftarrow> set_wrapped row False (t\<lparr>t_cells := cells\<rparr>);
     set_used row 0 t1 }"

definition scroll_up1 :: "vterm \<Rightarrow> vterm option" where
  "scroll_up1 t = do {
     recycled \<leftarrow> idx (t_cells t) (t_top t);
     w \<leftarrow> idx (t_wrapped t) (t_top t);
     u \<leftarrow> idx (t_used t) (t_top t);
     t1 \<leftarrow> remember recycled w u t;
     t2 \<leftarrow> copy_rows (t_top t) (t_bottom t) (t_top t + 1) (t_bottom t + 1) t1;
     place_row (t_bottom t) (map (\<lambda>_. blank_cell) recycled) t2 }"

definition scroll_up :: "int \<Rightarrow> vterm \<Rightarrow> vterm option" where
  "scroll_up n = go_times (nat n) scroll_up1"

definition scroll_down1 :: "vterm \<Rightarrow> vterm option" where
  "scroll_down1 t = do {
     t1 \<leftarrow> copy_rows (t_top t + 1) (t_bottom t + 1) (t_top t) (t_bottom t) t;
     place_row (t_top t) (blank_row (t_cols t)) t1 }"

definition scroll_down :: "int \<Rightarrow> vterm \<Rightarrow> vterm option" where
  "scroll_down n = go_times (nat n) scroll_down1"

definition line_feed :: "vterm \<Rightarrow> vterm option" where
  "line_feed t =
     (if c_row (t_cur t) = t_bottom t then scroll_up 1 t
      else if c_row (t_cur t) < t_rows t - 1 then Some (set_row (c_row (t_cur t) + 1) t)
      else Some t)"

definition wrap_line :: "vterm \<Rightarrow> vterm option" where
  "wrap_line t = do {
     t1 \<leftarrow> set_wrapped (c_row (t_cur t)) True t;
     line_feed (set_col 0 (t1\<lparr>t_pend := False\<rparr>)) }"

section \<open>Drawing\<close>

text \<open>\<open>for c := cols-1; c >= col+n; c-- { line[c] = line[c-n] }\<close>\<close>

definition shift_cells :: "int \<Rightarrow> int \<Rightarrow> int \<Rightarrow> cell list \<Rightarrow> cell list option" where
  "shift_cells cols col n =
     for_range 0 (cols - (col + n))
       (\<lambda>i line. let c = cols - 1 - i in do { x \<leftarrow> idx line (c - n); upd line c x })"

definition shift_right :: "int \<Rightarrow> int \<Rightarrow> int \<Rightarrow> vterm \<Rightarrow> vterm option" where
  "shift_right row col n t =
     (if n \<le> 0 \<or> col \<ge> t_cols t then Some t
      else do {
        t1 \<leftarrow> on_row row (\<lambda>line. do {
                line1 \<leftarrow> shift_cells (t_cols t) col n line;
                fill col (min (col + n) (t_cols t)) (space_cell (t_style t)) line1 }) t;
        u \<leftarrow> idx (t_used t1) row;
        if u > 0 then set_used row (min (u + n) (t_cols t)) t1 else Some t1 })"

definition put_string :: "bytes \<Rightarrow> int \<Rightarrow> vterm \<Rightarrow> vterm option" where
  "put_string s w t0 = do {
     t1 \<leftarrow> (if t_pend t0 then wrap_line t0 else Some t0);
     t2 \<leftarrow> (if c_col (t_cur t1) + w > t_cols t1
            then (if \<not> t_awm t1 then Some (set_col (max (t_cols t1 - w) 0) t1) else wrap_line t1)
            else Some t1);
     let row = c_row (t_cur t2);
     let col = c_col (t_cur t2);
     t3 \<leftarrow> (if t_irm t2 then shift_right row col w t2 else Some t2);
     t4 \<leftarrow> set_cell row col \<lparr>content = s, width = w, style = t_style t3\<rparr> t3;
     u \<leftarrow> idx (t_used t4) row;
     t5 \<leftarrow> (if col + w > u then set_used row (col + w) t4 else Some t4);
     t6 \<leftarrow> for_range 1 w (\<lambda>i t. set_cell row (col + i) (cont_cell (t_style t3)) t) t5;
     if col + w \<ge> t_cols t6 then Some ((set_col (t_cols t6 - 1) t6)\<lparr>t_pend := t_awm t6\<rparr>)
     else Some (set_col (col + w) t6) }"

text \<open>Step back over the continuation cells of a wide character.\<close>

fun step_back :: "nat \<Rightarrow> cell list \<Rightarrow> int \<Rightarrow> int option" where
  "step_back 0 row col = Some col"
| "step_back (Suc k) row col =
     (if col > 0 then do { c \<leftarrow> idx row col;
                           if content c = [] then step_back k row (col - 1) else Some col }
      else Some col)"

definition combine :: "int \<Rightarrow> vterm \<Rightarrow> vterm option" where
  "combine r t =
     (if c_col (t_cur t) = 0 \<and> \<not> t_pend t then Some t
      else do {
        row \<leftarrow> idx (t_cells t) (c_row (t_cur t));
        let col0 = (if t_pend t then t_cols t - 1 else c_col (t_cur t) - 1);
        col \<leftarrow> step_back (nat col0) row col0;
        if col \<ge> 0 then do {
          c \<leftarrow> idx row col;
          if content c \<noteq> [] then set_cell (c_row (t_cur t)) col (c\<lparr>content := content c @ encode_rune r\<rparr>) t
          else Some t }
        else Some t })"

definition put :: "int \<Rightarrow> int \<Rightarrow> vterm \<Rightarrow> vterm option" where
  "put r w t = (if w = 0 then combine r t else put_string (encode_rune r) w t)"

section \<open>Inserting and deleting\<close>

definition shift_bottom :: "vterm \<Rightarrow> int" where
  "shift_bottom t =
     (if c_row (t_cur t) \<ge> t_top t \<and> c_row (t_cur t) \<le> t_bottom t then t_bottom t else t_rows t - 1)"

definition insert_lines :: "int \<Rightarrow> vterm \<Rightarrow> vterm option" where
  "insert_lines n t =
     (let bottom = shift_bottom t; row = c_row (t_cur t) in
      if row > bottom then Some t
      else go_times (nat n) (\<lambda>t. do {
             t1 \<leftarrow> copy_rows (row + 1) (bottom + 1) row bottom t;
             place_row row (blank_row (t_cols t1)) t1 }) t)"

definition delete_lines :: "int \<Rightarrow> vterm \<Rightarrow> vterm option" where
  "delete_lines n t =
     (let bottom = shift_bottom t; row = c_row (t_cur t) in
      if row > bottom then Some t
      else go_times (nat n) (\<lambda>t. do {
             t1 \<leftarrow> copy_rows row bottom (row + 1) (bottom + 1) t;
             place_row bottom (blank_row (t_cols t1)) t1 }) t)"

definition delete_chars :: "int \<Rightarrow> vterm \<Rightarrow> vterm option" where
  "delete_chars n t =
     (let col = eff_col t in
      if col \<ge> t_cols t then Some t
      else do {
        t1 \<leftarrow> on_row (c_row (t_cur t)) (\<lambda>row.
                copy_within row col (int (length row)) (min (wrap64 (col + n)) (t_cols t)) (int (length row))) t;
        erase_in_row (c_row (t_cur t)) (max (t_cols t - n) col) (t_cols t - 1) t1 })"

definition insert_chars :: "int \<Rightarrow> vterm \<Rightarrow> vterm option" where
  "insert_chars n t =
     (let col = eff_col t in
      if col \<ge> t_cols t then Some t
      else do {
        t1 \<leftarrow> on_row (c_row (t_cur t)) (\<lambda>row.
                copy_within row (min (wrap64 (col + n)) (t_cols t)) (int (length row)) col (int (length row))) t;
        erase_in_row (c_row (t_cur t)) col (wrap64 (wrap64 (col + n) - 1)) t1 })"

definition erase_chars :: "int \<Rightarrow> vterm \<Rightarrow> vterm option" where
  "erase_chars n t =
     erase_in_row (c_row (t_cur t)) (eff_col t) (wrap64 (wrap64 (eff_col t + n) - 1)) t"

text \<open>ED and EL, the three meanings of each; ED with a number above 3 is discarded.\<close>

definition erase_display :: "int \<Rightarrow> vterm \<Rightarrow> vterm option" where
  "erase_display n t =
     (let row = c_row (t_cur t); last_col = t_cols t - 1 in
      if n > 3 then Some t
      else if n = 0 then do {
        t1 \<leftarrow> erase_in_row row (c_col (t_cur t)) last_col t;
        for_range (row + 1) (t_rows t) (\<lambda>r t. erase_in_row r 0 last_col t) t1 }
      else if n = 1 then do {
        t1 \<leftarrow> for_range 0 row (\<lambda>r t. erase_in_row r 0 last_col t) t;
        erase_in_row row 0 (c_col (t_cur t)) t1 }
      else for_range 0 (t_rows t) (\<lambda>r t. erase_in_row r 0 last_col t) t)"

definition erase_line :: "int \<Rightarrow> vterm \<Rightarrow> vterm option" where
  "erase_line n t =
     (if n = 0 then erase_in_row (c_row (t_cur t)) (eff_col t) (t_cols t - 1) t
      else if n = 1 then erase_in_row (c_row (t_cur t)) 0 (eff_col t) t
      else erase_in_row (c_row (t_cur t)) 0 (t_cols t - 1) t)"

definition set_region :: "int \<Rightarrow> int \<Rightarrow> vterm \<Rightarrow> vterm" where
  "set_region lo hi t =
     (if lo < 0 \<or> hi \<ge> t_rows t \<or> lo \<ge> hi then t
      else move_to 0 0 (t\<lparr>t_top := lo, t_bottom := hi\<rparr>))"

definition reverse_index :: "vterm \<Rightarrow> vterm option" where
  "reverse_index t =
     (if c_row (t_cur t) = t_top t then scroll_down 1 t
      else if c_row (t_cur t) > 0 then Some (set_row (c_row (t_cur t) - 1) t)
      else Some t)"

section \<open>The alternate screen\<close>

definition enter_alt :: "bool \<Rightarrow> vterm \<Rightarrow> vterm" where
  "enter_alt save t =
     (if t_on_alt t then t
      else let t1 = (if save then t\<lparr>t_alt_saved := t_cur t\<rparr> else t) in
        t1\<lparr>t_alt := Some (t_cells t), t_alt_wrapped := t_wrapped t, t_alt_used := t_used t,
           t_wrapped := replicate (nat (t_rows t)) False, t_used := replicate (nat (t_rows t)) 0,
           t_cells := replicate (nat (t_rows t)) (blank_row (t_cols t)), t_on_alt := True\<rparr>)"

end
