(* ===== verification/GridInv.thy ===== *)
theory GridInv
  imports Terminal
begin

text \<open>
  The emulator's invariant and the proof that no drawing operation leaves it or panics:
  the grid and its per-row bookkeeping have the screen's size, the cursor and the scrolling region
  are on the screen, every cell is at most two columns wide, and the hidden primary screen of a
  full-screen program is itself a grid. \<open>redrawn\<close> is what an operation that only draws may change;
  \<open>framed\<close> what every operation of a stream, short of switching screens, leaves alone.
\<close>

section \<open>The invariant\<close>

definition grid_ok :: "int \<Rightarrow> int \<Rightarrow> cell list list \<Rightarrow> bool list \<Rightarrow> int list \<Rightarrow> bool" where
  "grid_ok cols rows cells ws us \<longleftrightarrow>
     int (length cells) = rows \<and> int (length ws) = rows \<and> int (length us) = rows \<and>
     (\<forall>r \<in> set cells. int (length r) = cols \<and> row_ok r) \<and> (\<forall>u \<in> set us. 0 \<le> u)"

definition hist_ok :: "hist_ring \<Rightarrow> bool" where
  "hist_ok h \<longleftrightarrow> hist_inv h \<and> (\<forall>l \<in> set (hr_lines h). row_ok (hl_cells l) \<and> 0 \<le> hl_used l)"

definition on_screen :: "int \<Rightarrow> int \<Rightarrow> cursor \<Rightarrow> bool" where
  "on_screen cols rows c \<longleftrightarrow> 0 \<le> c_row c \<and> c_row c < rows \<and> 0 \<le> c_col c \<and> c_col c < cols"

definition alt_ok :: "vterm \<Rightarrow> bool" where
  "alt_ok t \<longleftrightarrow>
     (case t_alt t of
        None \<Rightarrow> \<not> t_on_alt t \<and> \<not> t_alt_pending t
      | Some cells \<Rightarrow> t_on_alt t \<and>
          (if t_alt_pending t then (\<exists>cols rows. grid_ok cols rows cells (t_alt_wrapped t) (t_alt_used t))
           else grid_ok (t_cols t) (t_rows t) cells (t_alt_wrapped t) (t_alt_used t)))"

definition max_dim :: int where "max_dim = 1000000000"
definition max_param :: int where "max_param = 1000000000000000000"

definition wf :: "vterm \<Rightarrow> bool" where
  "wf t \<longleftrightarrow>
     2 \<le> t_cols t \<and> t_cols t \<le> max_dim \<and> 1 \<le> t_rows t \<and> t_rows t \<le> max_dim \<and>
     grid_ok (t_cols t) (t_rows t) (t_cells t) (t_wrapped t) (t_used t) \<and>
     on_screen (t_cols t) (t_rows t) (t_cur t) \<and>
     0 \<le> t_top t \<and> t_top t \<le> t_bottom t \<and> t_bottom t < t_rows t \<and>
     int (length (t_tabs t)) = t_cols t \<and> hist_ok (t_hist t) \<and> alt_ok t \<and>
     0 \<le> c_row (t_alt_saved t) \<and> 0 \<le> c_col (t_alt_saved t)"

text \<open>The cursor DECSET 1048 saved is still on the screen, which only a resize can end.\<close>

definition saved_ok :: "vterm \<Rightarrow> bool" where
  "saved_ok t \<longleftrightarrow> on_screen (t_cols t) (t_rows t) (t_alt_saved t)"

definition redrawn :: "vterm \<Rightarrow> vterm \<Rightarrow> bool" where
  "redrawn t t' \<longleftrightarrow>
     (\<exists>cells ws us h. t' = t\<lparr>t_cells := cells, t_wrapped := ws, t_used := us, t_hist := h\<rparr> \<and>
        grid_ok (t_cols t) (t_rows t) cells ws us \<and> hist_ok h \<and>
        hr_limit h = hr_limit (t_hist t) \<and> (t_on_alt t \<longrightarrow> h = t_hist t))"

definition draws :: "vterm \<Rightarrow> vterm option \<Rightarrow> bool" where
  "draws t r \<longleftrightarrow> (\<exists>t'. r = Some t' \<and> redrawn t t')"

text \<open>What a program can make the terminal remember is capped.\<close>

definition small :: "vterm \<Rightarrow> bool" where
  "small t \<longleftrightarrow> length (t_unknown t) \<le> unknown_limit \<and> length (t_titles t) \<le> title_stack_limit \<and>
     length (t_colour_asks t) \<le> colour_ask_limit"

definition framed :: "vterm \<Rightarrow> vterm \<Rightarrow> bool" where
  "framed t t' \<longleftrightarrow>
     t_cols t' = t_cols t \<and> t_rows t' = t_rows t \<and> t_alt t' = t_alt t \<and>
     t_alt_wrapped t' = t_alt_wrapped t \<and> t_alt_used t' = t_alt_used t \<and>
     t_alt_saved t' = t_alt_saved t \<and> t_on_alt t' = t_on_alt t \<and>
     t_alt_pending t' = t_alt_pending t \<and> hr_limit (t_hist t') = hr_limit (t_hist t) \<and>
     (t_on_alt t \<longrightarrow> t_hist t' = t_hist t) \<and> (small t \<longrightarrow> small t')"

definition safe :: "vterm \<Rightarrow> vterm option \<Rightarrow> bool" where
  "safe t r \<longleftrightarrow> (\<exists>t'. r = Some t' \<and> wf t' \<and> framed t t')"

lemma framed_refl [simp]: "framed t t"
  by (simp add: framed_def)

lemma framed_trans: "framed t u \<Longrightarrow> framed u v \<Longrightarrow> framed t v"
  by (simp add: framed_def)

lemma safe_Some [simp]: "safe t (Some t') \<longleftrightarrow> wf t' \<and> framed t t'"
  by (simp add: safe_def)

lemma safe_bind:
  assumes "safe t r" and "\<And>t'. wf t' \<Longrightarrow> framed t t' \<Longrightarrow> safe t' (g t')"
  shows "safe t (Option.bind r g)"
proof -
  obtain t1 where t1: "r = Some t1" "wf t1" "framed t t1" using assms(1) by (auto simp: safe_def)
  then obtain t2 where "g t1 = Some t2" "wf t2" "framed t1 t2"
    using assms(2) by (auto simp: safe_def)
  then show ?thesis using t1 framed_trans by (auto simp: safe_def)
qed

lemma safe_times:
  assumes "wf t" and "\<And>t'. wf t' \<Longrightarrow> framed t t' \<Longrightarrow> safe t' (f t')"
  shows "safe t (go_times n f t)"
proof -
  have "\<exists>t'. go_times n f t = Some t' \<and> (wf t' \<and> framed t t')"
  proof (rule go_times_inv[where P = "\<lambda>t'. wf t' \<and> framed t t'"])
    fix s assume s: "wf s \<and> framed t s"
    then obtain s' where "f s = Some s'" "wf s'" "framed s s'" using assms(2)[of s] by (auto simp: safe_def)
    then show "\<exists>s'. f s = Some s' \<and> (wf s' \<and> framed t s')" using s framed_trans by blast
  qed (use assms(1) in simp)
  then show ?thesis by (simp add: safe_def)
qed

section \<open>Facts read off the invariant\<close>

lemma wf_dims: "wf t \<Longrightarrow> 2 \<le> t_cols t \<and> t_cols t \<le> max_dim \<and> 1 \<le> t_rows t \<and> t_rows t \<le> max_dim"
  by (simp add: wf_def)

lemma wf_grid: "wf t \<Longrightarrow> grid_ok (t_cols t) (t_rows t) (t_cells t) (t_wrapped t) (t_used t)"
  by (simp add: wf_def)

lemma wf_cur: "wf t \<Longrightarrow> 0 \<le> c_row (t_cur t) \<and> c_row (t_cur t) < t_rows t \<and>
    0 \<le> c_col (t_cur t) \<and> c_col (t_cur t) < t_cols t"
  by (simp add: wf_def on_screen_def)

lemma wf_region: "wf t \<Longrightarrow> 0 \<le> t_top t \<and> t_top t \<le> t_bottom t \<and> t_bottom t < t_rows t"
  by (simp add: wf_def)

lemma wf_hist: "wf t \<Longrightarrow> hist_ok (t_hist t)"
  by (simp add: wf_def)

lemma wf_lengths:
  "wf t \<Longrightarrow> int (length (t_cells t)) = t_rows t"
  "wf t \<Longrightarrow> int (length (t_wrapped t)) = t_rows t"
  "wf t \<Longrightarrow> int (length (t_used t)) = t_rows t"
  "wf t \<Longrightarrow> int (length (t_tabs t)) = t_cols t"
  by (simp_all add: wf_def grid_ok_def)

lemma wf_row:
  assumes "wf t" "0 \<le> row" "row < t_rows t"
  shows "int (length (t_cells t ! nat row)) = t_cols t" "row_ok (t_cells t ! nat row)"
    "idx (t_cells t) row = Some (t_cells t ! nat row)"
proof -
  have "nat row < length (t_cells t)" using assms wf_lengths(1)[OF assms(1)] by linarith
  then have "t_cells t ! nat row \<in> set (t_cells t)" by simp
  then show "int (length (t_cells t ! nat row)) = t_cols t" "row_ok (t_cells t ! nat row)"
    using wf_grid[OF assms(1)] by (auto simp: grid_ok_def)
  show "idx (t_cells t) row = Some (t_cells t ! nat row)"
    using assms wf_lengths(1)[OF assms(1)] by simp
qed

lemma redrawnI:
  assumes "grid_ok (t_cols t) (t_rows t) cells ws us" "hist_ok h"
    "hr_limit h = hr_limit (t_hist t)" "t_on_alt t \<Longrightarrow> h = t_hist t"
  shows "redrawn t (t\<lparr>t_cells := cells, t_wrapped := ws, t_used := us, t_hist := h\<rparr>)"
  unfolding redrawn_def using assms by blast

lemma redrawnE:
  assumes "redrawn t t'"
  obtains cells ws us h where
    "t' = t\<lparr>t_cells := cells, t_wrapped := ws, t_used := us, t_hist := h\<rparr>"
    "grid_ok (t_cols t) (t_rows t) cells ws us" "hist_ok h" "hr_limit h = hr_limit (t_hist t)"
    "t_on_alt t \<longrightarrow> h = t_hist t"
  using assms unfolding redrawn_def by blast

lemma alt_ok_redrawn: "alt_ok (t\<lparr>t_cells := a, t_wrapped := b, t_used := c, t_hist := d\<rparr>) = alt_ok t"
  by (cases "t_alt t") (simp_all add: alt_ok_def)

lemma wf_redrawn: "wf t \<Longrightarrow> redrawn t t' \<Longrightarrow> wf t' \<and> framed t t'"
  by (erule redrawnE) (simp add: wf_def framed_def alt_ok_redrawn small_def)

lemma redrawn_refl: "wf t \<Longrightarrow> redrawn t t"
  using redrawnI[of t "t_cells t" "t_wrapped t" "t_used t" "t_hist t"]
  by (simp add: wf_grid wf_hist)

lemma redrawn_trans:
  assumes "redrawn t u" "redrawn u v"
  shows "redrawn t v"
proof -
  obtain a b c d where u: "u = t\<lparr>t_cells := a, t_wrapped := b, t_used := c, t_hist := d\<rparr>"
    "hr_limit d = hr_limit (t_hist t)" "t_on_alt t \<longrightarrow> d = t_hist t"
    by (rule redrawnE[OF assms(1)]) blast
  obtain a' b' c' d' where v: "v = u\<lparr>t_cells := a', t_wrapped := b', t_used := c', t_hist := d'\<rparr>"
    "grid_ok (t_cols u) (t_rows u) a' b' c'" "hist_ok d'"
    "hr_limit d' = hr_limit (t_hist u)" "t_on_alt u \<longrightarrow> d' = t_hist u"
    by (rule redrawnE[OF assms(2)]) blast
  have "v = t\<lparr>t_cells := a', t_wrapped := b', t_used := c', t_hist := d'\<rparr>" using u(1) v(1) by simp
  moreover have "redrawn t (t\<lparr>t_cells := a', t_wrapped := b', t_used := c', t_hist := d'\<rparr>)"
    by (rule redrawnI) (use u v(2-5) in simp_all)
  ultimately show ?thesis by simp
qed

text \<open>What an operation that only draws leaves as it was.\<close>

lemma redrawn_same:
  assumes "redrawn t t'"
  shows "t_cols t' = t_cols t" "t_rows t' = t_rows t" "t_cur t' = t_cur t" "t_pend t' = t_pend t"
    "t_top t' = t_top t" "t_bottom t' = t_bottom t" "t_style t' = t_style t" "t_awm t' = t_awm t"
    "t_irm t' = t_irm t" "t_on_alt t' = t_on_alt t"
  using assms by (auto simp: redrawn_def)

lemma draws_safe: "wf t \<Longrightarrow> draws t r \<Longrightarrow> safe t r"
  using wf_redrawn by (auto simp: draws_def safe_def)

lemma draws_Some [simp]: "wf t \<Longrightarrow> draws t (Some t)"
  by (simp add: draws_def redrawn_refl)

lemma draws_bind:
  assumes "wf t" "draws t r" and "\<And>t'. wf t' \<Longrightarrow> redrawn t t' \<Longrightarrow> draws t' (g t')"
  shows "draws t (Option.bind r g)"
proof -
  obtain t1 where t1: "r = Some t1" "redrawn t t1" using assms(2) by (auto simp: draws_def)
  then have "wf t1" using wf_redrawn assms(1) by blast
  then obtain t2 where "g t1 = Some t2" "redrawn t1 t2" using assms(3) t1 by (auto simp: draws_def)
  then show ?thesis using t1 redrawn_trans by (auto simp: draws_def)
qed

lemma draws_step:
  assumes "wf t" "redrawn t t1" and "wf t1 \<Longrightarrow> draws t1 r"
  shows "\<exists>t'. r = Some t' \<and> redrawn t t'"
proof -
  have "wf t1" using wf_redrawn assms(1,2) by blast
  then obtain t' where "r = Some t'" "redrawn t1 t'" using assms(3) by (auto simp: draws_def)
  then show ?thesis using redrawn_trans[OF assms(2)] by blast
qed

lemma draws_range:
  assumes "wf t" and "\<And>j t'. lo \<le> j \<Longrightarrow> j < hi \<Longrightarrow> wf t' \<Longrightarrow> redrawn t t' \<Longrightarrow> draws t' (f j t')"
  shows "draws t (for_range lo hi f t)"
  unfolding draws_def
  by (rule for_range_inv[where P = "redrawn t"])
    (use assms redrawn_refl draws_step in blast)+

lemma draws_times:
  assumes "wf t" and "\<And>t'. wf t' \<Longrightarrow> redrawn t t' \<Longrightarrow> draws t' (f t')"
  shows "draws t (go_times n f t)"
  unfolding draws_def
  by (rule go_times_inv[where P = "redrawn t"])
    (use assms redrawn_refl draws_step in blast)+

section \<open>Rows\<close>

lemma redrawn_cells:
  assumes "wf t" "0 \<le> row" "row < t_rows t" "int (length r) = t_cols t" "row_ok r"
  shows "redrawn t (t\<lparr>t_cells := (t_cells t)[nat row := r]\<rparr>)"
proof -
  have "grid_ok (t_cols t) (t_rows t) ((t_cells t)[nat row := r]) (t_wrapped t) (t_used t)"
    using wf_grid[OF assms(1)] assms(4,5) set_update_subset_insert[of "t_cells t" "nat row" r]
    by (auto simp: grid_ok_def)
  from redrawnI[OF this, of "t_hist t"] show ?thesis using wf_hist[OF assms(1)] by simp
qed

lemma on_row_eq:
  assumes "wf t" "0 \<le> row" "row < t_rows t" and "f (t_cells t ! nat row) = Some r"
  shows "on_row row f t = Some (t\<lparr>t_cells := (t_cells t)[nat row := r]\<rparr>)"
  using assms wf_lengths(1)[OF assms(1)] by (simp add: on_row_def wf_row(3))

lemma on_row_draws:
  assumes "wf t" "0 \<le> row" "row < t_rows t"
    and "\<And>r. int (length r) = t_cols t \<Longrightarrow> row_ok r \<Longrightarrow>
           \<exists>r'. f r = Some r' \<and> length r' = length r \<and> row_ok r'"
  shows "draws t (on_row row f t)"
proof -
  obtain r' where r': "f (t_cells t ! nat row) = Some r'" "length r' = length (t_cells t ! nat row)" "row_ok r'"
    using assms(4) wf_row[OF assms(1-3)] by blast
  then have "int (length r') = t_cols t" using wf_row(1)[OF assms(1-3)] by simp
  then show ?thesis
    using on_row_eq[of t row f r'] redrawn_cells[of t row r'] assms(1-3) r'
    by (simp add: draws_def)
qed

lemma fill_row:
  assumes "0 \<le> lo" "hi \<le> int (length r)" "row_ok r" "width_ok c"
  shows "\<exists>r'. fill lo hi c r = Some r' \<and> length r' = length r \<and> row_ok r'"
proof -
  obtain r' where r': "fill lo hi c r = Some r'" using fill_ok[OF assms(1,2)] by blast
  show ?thesis using fill_set[OF assms(1,2) r'] r' assms(3,4) by (auto simp: row_ok_def)
qed

lemma erase_in_row_draws:
  assumes "wf t"
  shows "draws t (erase_in_row row from to t)"
proof (cases "row < 0 \<or> row \<ge> t_rows t")
  case False
  show ?thesis unfolding erase_in_row_def
    using False assms by (auto intro!: on_row_draws fill_row)
qed (use assms in \<open>simp add: erase_in_row_def\<close>)

lemma set_cell_eq:
  assumes "wf t" "0 \<le> row" "row < t_rows t" "0 \<le> col" "col < t_cols t"
  shows "set_cell row col c t = Some (t\<lparr>t_cells := (t_cells t)[nat row := (t_cells t ! nat row)[nat col := c]]\<rparr>)"
  using assms wf_row[OF assms(1-3)] wf_lengths(1)[OF assms(1)] by (simp add: set_cell_def)

lemma set_cell_draws:
  assumes "wf t" "0 \<le> row" "row < t_rows t" "0 \<le> col" "col < t_cols t" "width_ok c"
  shows "draws t (set_cell row col c t)"
proof -
  have "redrawn t (t\<lparr>t_cells := (t_cells t)[nat row := (t_cells t ! nat row)[nat col := c]]\<rparr>)"
    by (rule redrawn_cells) (use assms wf_row[OF assms(1-3)] in \<open>auto intro: row_ok_update\<close>)
  then show ?thesis using set_cell_eq[OF assms(1-5)] by (simp add: draws_def)
qed

lemma set_used_draws:
  assumes "wf t" "0 \<le> row" "row < t_rows t" "0 \<le> n"
  shows "draws t (set_used row n t)"
proof -
  have "redrawn t (t\<lparr>t_used := (t_used t)[nat row := n]\<rparr>)"
  proof -
    have "grid_ok (t_cols t) (t_rows t) (t_cells t) (t_wrapped t) ((t_used t)[nat row := n])"
      using wf_grid[OF assms(1)] assms(4) set_update_subset_insert[of "t_used t" "nat row" n]
      by (auto simp: grid_ok_def)
    from redrawnI[OF this, of "t_hist t"] show ?thesis using wf_hist[OF assms(1)] by simp
  qed
  then show ?thesis using assms wf_lengths(3)[OF assms(1)] by (simp add: draws_def set_used_def)
qed

lemma set_wrapped_draws:
  assumes "wf t" "0 \<le> row" "row < t_rows t"
  shows "draws t (set_wrapped row b t)"
proof -
  have "redrawn t (t\<lparr>t_wrapped := (t_wrapped t)[nat row := b]\<rparr>)"
  proof -
    have "grid_ok (t_cols t) (t_rows t) (t_cells t) ((t_wrapped t)[nat row := b]) (t_used t)"
      using wf_grid[OF assms(1)] by (simp add: grid_ok_def)
    from redrawnI[OF this, of "t_hist t"] show ?thesis using wf_hist[OF assms(1)] by simp
  qed
  then show ?thesis using assms wf_lengths(2)[OF assms(1)] by (simp add: draws_def set_wrapped_def)
qed

lemma copy_rows_draws:
  assumes "wf t" "0 \<le> a" "a \<le> b" "b \<le> t_rows t" "0 \<le> c" "c \<le> d" "d \<le> t_rows t"
  shows "draws t (copy_rows a b c d t)"
proof -
  obtain cells ws us where
    c: "copy_within (t_cells t) a b c d = Some cells" and
    w: "copy_within (t_wrapped t) a b c d = Some ws" and
    u: "copy_within (t_used t) a b c d = Some us"
    using assms wf_lengths[OF assms(1)] copy_within_ok by metis
  have "grid_ok (t_cols t) (t_rows t) cells ws us"
    using wf_grid[OF assms(1)] set_copy_within[OF c] set_copy_within[OF u]
      length_copy_within[OF c] length_copy_within[OF w] length_copy_within[OF u]
    by (auto simp: grid_ok_def)
  then have "redrawn t (t\<lparr>t_cells := cells, t_wrapped := ws, t_used := us\<rparr>)"
    using redrawnI[of t cells ws us "t_hist t"] wf_hist[OF assms(1)] by simp
  then show ?thesis by (simp add: draws_def copy_rows_def c w u)
qed

lemma place_row_draws:
  assumes "wf t" "0 \<le> row" "row < t_rows t" "int (length r) = t_cols t" "row_ok r"
  shows "draws t (place_row row r t)"
proof -
  have r: "redrawn t (t\<lparr>t_cells := (t_cells t)[nat row := r]\<rparr>)" using redrawn_cells assms by blast
  have "draws t (Option.bind (Some (t\<lparr>t_cells := (t_cells t)[nat row := r]\<rparr>))
      (\<lambda>t. do { t1 \<leftarrow> set_wrapped row False t; set_used row 0 t1 }))"
  proof (rule draws_bind[OF assms(1)])
    show "draws t (Some (t\<lparr>t_cells := (t_cells t)[nat row := r]\<rparr>))" using r by (simp add: draws_def)
    show "draws t' (do { t1 \<leftarrow> set_wrapped row False t'; set_used row 0 t1 })"
      if "wf t'" "redrawn t t'" for t'
    proof (rule draws_bind[OF that(1)])
      show "draws t' (set_wrapped row False t')"
        using that assms(2,3) by (intro set_wrapped_draws) (simp_all add: redrawn_same)
      show "draws t'' (set_used row 0 t'')" if "wf t''" "redrawn t' t''" for t''
        using that \<open>redrawn t t'\<close> assms(2,3) by (intro set_used_draws) (simp_all add: redrawn_same)
    qed
  qed
  then show ?thesis
    using assms(2,3) wf_lengths(1)[OF assms(1)] by (simp add: place_row_def)
qed

section \<open>Scrolling\<close>

lemma set_hist_list: "set (hist_list h) = set (hr_lines h)"
  by (simp add: hist_list_def)

lemma remember_draws:
  assumes "wf t" "row_ok line" "0 \<le> us"
  shows "draws t (remember line w us t)"
proof (cases "t_on_alt t")
  case False
  let ?l = "\<lparr>hl_cells = line, hl_wrapped = w, hl_used = us\<rparr>"
  have inv: "hist_inv (t_hist t)" using wf_hist[OF assms(1)] by (simp add: hist_ok_def)
  obtain h where h: "hist_push line w us (t_hist t) = Some h" "hist_inv h" "hr_limit h = hr_limit (t_hist t)"
      "hist_list h = lastn (nat (hr_limit (t_hist t))) (hist_list (t_hist t) @ [?l])"
    using ring.push_lines[OF inv, of line w us] by auto
  have "set (hist_list h) \<subseteq> set (hist_list (t_hist t)) \<union> {?l}"
    unfolding h(4) lastn_def by (metis set_append list.set set_drop_subset)
  then have "hist_ok h" using wf_hist[OF assms(1)] h(2) assms(2,3)
    by (auto simp: hist_ok_def set_hist_list)
  then have "redrawn t (t\<lparr>t_hist := h\<rparr>)"
    using redrawnI[of t "t_cells t" "t_wrapped t" "t_used t" h] False h(3) wf_grid[OF assms(1)] by simp
  then show ?thesis using False h(1) by (simp add: remember_def draws_def)
qed (use assms(1) in \<open>simp add: remember_def\<close>)

lemma scroll_up1_draws:
  assumes "wf t"
  shows "draws t (scroll_up1 t)"
proof -
  let ?r = "t_cells t ! nat (t_top t)" and ?u = "t_used t ! nat (t_top t)"
  note reg = wf_region[OF assms]
  have top: "0 \<le> t_top t" "t_top t < t_rows t" using reg by auto
  note row = wf_row[OF assms top]
  have u: "idx (t_used t) (t_top t) = Some ?u" "0 \<le> ?u"
    using top wf_lengths(3)[OF assms] wf_grid[OF assms] by (auto simp: grid_ok_def)
  have w: "idx (t_wrapped t) (t_top t) = Some (t_wrapped t ! nat (t_top t))"
    using top wf_lengths(2)[OF assms] by simp
  have "draws t (do {
     t1 \<leftarrow> remember ?r (t_wrapped t ! nat (t_top t)) ?u t;
     t2 \<leftarrow> copy_rows (t_top t) (t_bottom t) (t_top t + 1) (t_bottom t + 1) t1;
     place_row (t_bottom t) (map (\<lambda>_. blank_cell) ?r) t2 })"
  proof (rule draws_bind[OF assms remember_draws[OF assms row(2) u(2)]])
    fix t1 assume t1: "wf t1" "redrawn t t1"
    show "draws t1 (do {
       t2 \<leftarrow> copy_rows (t_top t) (t_bottom t) (t_top t + 1) (t_bottom t + 1) t1;
       place_row (t_bottom t) (map (\<lambda>_. blank_cell) ?r) t2 })"
    proof (rule draws_bind[OF t1(1)])
      show "draws t1 (copy_rows (t_top t) (t_bottom t) (t_top t + 1) (t_bottom t + 1) t1)"
        using reg t1 by (intro copy_rows_draws) (simp_all add: redrawn_same)
      show "draws t2 (place_row (t_bottom t) (map (\<lambda>_. blank_cell) ?r) t2)"
        if "wf t2" "redrawn t1 t2" for t2
        using reg t1 that row(1) by (intro place_row_draws) (auto simp: redrawn_same row_ok_def)
    qed
  qed
  then show ?thesis by (simp add: scroll_up1_def row(3) u(1) w)
qed

lemma scroll_up_draws: "wf t \<Longrightarrow> draws t (scroll_up n t)"
  unfolding scroll_up_def by (rule draws_times) (auto intro: scroll_up1_draws)

lemma scroll_down1_draws:
  assumes "wf t"
  shows "draws t (scroll_down1 t)"
  unfolding scroll_down1_def
proof (rule draws_bind[OF assms])
  note reg = wf_region[OF assms]
  show "draws t (copy_rows (t_top t + 1) (t_bottom t + 1) (t_top t) (t_bottom t) t)"
    using reg assms by (intro copy_rows_draws) auto
  show "draws t1 (place_row (t_top t) (blank_row (t_cols t)) t1)" if "wf t1" "redrawn t t1" for t1
    using that reg wf_dims[OF assms] by (intro place_row_draws) (auto simp: redrawn_same)
qed

lemma scroll_down_draws: "wf t \<Longrightarrow> draws t (scroll_down n t)"
  unfolding scroll_down_def by (rule draws_times) (auto intro: scroll_down1_draws)

lemma insert_lines_draws:
  assumes "wf t"
  shows "draws t (insert_lines n t)"
proof -
  let ?b = "shift_bottom t" and ?r = "c_row (t_cur t)"
  have b: "?b < t_rows t" using wf_region[OF assms] by (simp add: shift_bottom_def)
  have "draws t (go_times (nat n) (\<lambda>t. do {
             t1 \<leftarrow> copy_rows (?r + 1) (?b + 1) ?r ?b t;
             place_row ?r (blank_row (t_cols t1)) t1 }) t)" if "?r \<le> ?b"
  proof (rule draws_times[OF assms])
    fix t' assume t': "wf t'" "redrawn t t'"
    show "draws t' (do { t1 \<leftarrow> copy_rows (?r + 1) (?b + 1) ?r ?b t';
             place_row ?r (blank_row (t_cols t1)) t1 })"
    proof (rule draws_bind[OF t'(1)])
      show "draws t' (copy_rows (?r + 1) (?b + 1) ?r ?b t')"
        using b that wf_cur[OF assms] t' by (intro copy_rows_draws) (simp_all add: redrawn_same)
      show "draws t1 (place_row ?r (blank_row (t_cols t1)) t1)" if "wf t1" "redrawn t' t1" for t1
        using that t' wf_cur[OF assms] wf_dims[OF that(1)]
        by (intro place_row_draws) (simp_all add: redrawn_same)
    qed
  qed
  then show ?thesis using assms by (auto simp: insert_lines_def Let_def)
qed

lemma delete_lines_draws:
  assumes "wf t"
  shows "draws t (delete_lines n t)"
proof -
  let ?b = "shift_bottom t" and ?r = "c_row (t_cur t)"
  have b: "?b < t_rows t" using wf_region[OF assms] by (simp add: shift_bottom_def)
  have "draws t (go_times (nat n) (\<lambda>t. do {
             t1 \<leftarrow> copy_rows ?r ?b (?r + 1) (?b + 1) t;
             place_row ?b (blank_row (t_cols t1)) t1 }) t)" if "?r \<le> ?b"
  proof (rule draws_times[OF assms])
    fix t' assume t': "wf t'" "redrawn t t'"
    show "draws t' (do { t1 \<leftarrow> copy_rows ?r ?b (?r + 1) (?b + 1) t';
             place_row ?b (blank_row (t_cols t1)) t1 })"
    proof (rule draws_bind[OF t'(1)])
      show "draws t' (copy_rows ?r ?b (?r + 1) (?b + 1) t')"
        using b that wf_cur[OF assms] t' by (intro copy_rows_draws) (simp_all add: redrawn_same)
      show "draws t1 (place_row ?b (blank_row (t_cols t1)) t1)" if "wf t1" "redrawn t' t1" for t1
        using that t' b \<open>?r \<le> ?b\<close> wf_cur[OF assms] wf_dims[OF that(1)]
        by (intro place_row_draws) (auto simp: redrawn_same)
    qed
  qed
  then show ?thesis using assms by (auto simp: delete_lines_def Let_def)
qed

section \<open>Inserting, deleting and erasing characters\<close>

lemma copy_within_row:
  assumes "row_ok r" "0 \<le> a" "a \<le> int (length r)" "0 \<le> c" "c \<le> int (length r)"
  shows "\<exists>r'. copy_within r a (int (length r)) c (int (length r)) = Some r' \<and> length r' = length r \<and> row_ok r'"
proof -
  obtain r' where r': "copy_within r a (int (length r)) c (int (length r)) = Some r'"
    using copy_within_ok[of a "int (length r)" r c "int (length r)"] assms by auto
  then show ?thesis using length_copy_within[OF r'] set_copy_within[OF r'] assms(1)
    by (auto simp: row_ok_def)
qed

lemma param_sum [go_bounds]:
  assumes "wf t" "0 < n" "n \<le> max_param" "0 \<le> col" "col \<le> t_cols t"
  shows "wrap64 (col + n) = col + n" "wrap64 (col + n - 1) = col + n - 1"
  using assms wf_dims[OF assms(1)] by (simp_all add: max_param_def max_dim_def)

lemma eff_col_bounds: "wf t \<Longrightarrow> 0 \<le> eff_col t \<and> eff_col t \<le> t_cols t"
  using wf_cur wf_dims by (fastforce simp: eff_col_def)

lemma delete_chars_draws:
  assumes "wf t" "0 < n" "n \<le> max_param"
  shows "draws t (delete_chars n t)"
proof (cases "eff_col t \<ge> t_cols t")
  case False
  note cur = wf_cur[OF assms(1)] and e = eff_col_bounds[OF assms(1)]
  have "draws t (do {
        t1 \<leftarrow> on_row (c_row (t_cur t)) (\<lambda>row.
                copy_within row (eff_col t) (int (length row)) (min (wrap64 (eff_col t + n)) (t_cols t)) (int (length row))) t;
        erase_in_row (c_row (t_cur t)) (max (t_cols t - n) (eff_col t)) (t_cols t - 1) t1 })"
  proof (rule draws_bind[OF assms(1)])
    show "draws t (on_row (c_row (t_cur t)) (\<lambda>row.
        copy_within row (eff_col t) (int (length row)) (min (wrap64 (eff_col t + n)) (t_cols t)) (int (length row))) t)"
      using cur e assms(2) wf_dims[OF assms(1)] param_sum[OF assms(1-3)]
      by (intro on_row_draws[OF assms(1)] copy_within_row) auto
  qed (rule erase_in_row_draws)
  then show ?thesis using False by (simp add: delete_chars_def Let_def)
qed (use assms(1) in \<open>simp add: delete_chars_def\<close>)

lemma insert_chars_draws:
  assumes "wf t" "0 < n" "n \<le> max_param"
  shows "draws t (insert_chars n t)"
proof (cases "eff_col t \<ge> t_cols t")
  case False
  note cur = wf_cur[OF assms(1)] and e = eff_col_bounds[OF assms(1)]
  have "draws t (do {
        t1 \<leftarrow> on_row (c_row (t_cur t)) (\<lambda>row.
                copy_within row (min (wrap64 (eff_col t + n)) (t_cols t)) (int (length row)) (eff_col t) (int (length row))) t;
        erase_in_row (c_row (t_cur t)) (eff_col t) (wrap64 (wrap64 (eff_col t + n) - 1)) t1 })"
  proof (rule draws_bind[OF assms(1)])
    show "draws t (on_row (c_row (t_cur t)) (\<lambda>row.
        copy_within row (min (wrap64 (eff_col t + n)) (t_cols t)) (int (length row)) (eff_col t) (int (length row))) t)"
      using cur e assms(2) wf_dims[OF assms(1)] param_sum[OF assms(1-3)]
      by (intro on_row_draws[OF assms(1)] copy_within_row) auto
  qed (rule erase_in_row_draws)
  then show ?thesis using False by (simp add: insert_chars_def Let_def)
qed (use assms(1) in \<open>simp add: insert_chars_def\<close>)

lemma erase_chars_draws: "wf t \<Longrightarrow> draws t (erase_chars n t)"
  by (simp add: erase_chars_def erase_in_row_draws)

lemma erase_rows_draws: "wf t \<Longrightarrow> draws t (for_range lo hi (\<lambda>r t. erase_in_row r 0 c t) t)"
  by (rule draws_range) (auto intro: erase_in_row_draws)

lemma erase_display_draws: "wf t \<Longrightarrow> draws t (erase_display n t)"
  by (auto simp: erase_display_def Let_def intro!: draws_bind intro: erase_in_row_draws erase_rows_draws)

lemma erase_line_draws: "wf t \<Longrightarrow> draws t (erase_line n t)"
  by (simp add: erase_line_def erase_in_row_draws)

end
