(* ===== verification/GridSafe.thy ===== *)
theory GridSafe
  imports GridInv
begin

text \<open>
  Every operation of the emulator that moves the cursor or writes text keeps the invariant and never
  panics, on a screen of two columns or more; and what the operations do, branch by branch.
\<close>

section \<open>Fields the invariant does not read\<close>

lemma alt_ok_simps [simp]:
  "alt_ok (t\<lparr>t_cur := c\<rparr>) = alt_ok t" "alt_ok (t\<lparr>t_pend := b\<rparr>) = alt_ok t"
  "alt_ok (t\<lparr>t_saved := c\<rparr>) = alt_ok t" "alt_ok (t\<lparr>t_saved_style := s\<rparr>) = alt_ok t"
  "alt_ok (t\<lparr>t_style := s\<rparr>) = alt_ok t" "alt_ok (t\<lparr>t_modes := m\<rparr>) = alt_ok t"
  "alt_ok (t\<lparr>t_dir := d\<rparr>) = alt_ok t" "alt_ok (t\<lparr>t_title := d\<rparr>) = alt_ok t"
  "alt_ok (t\<lparr>t_titles := ds\<rparr>) = alt_ok t" "alt_ok (t\<lparr>t_irm := b\<rparr>) = alt_ok t"
  "alt_ok (t\<lparr>t_awm := b\<rparr>) = alt_ok t" "alt_ok (t\<lparr>t_keypad := b\<rparr>) = alt_ok t"
  "alt_ok (t\<lparr>t_colour_asks := k\<rparr>) = alt_ok t" "alt_ok (t\<lparr>t_replies := d\<rparr>) = alt_ok t"
  "alt_ok (t\<lparr>t_unknown := u\<rparr>) = alt_ok t" "alt_ok (t\<lparr>t_g0 := cs\<rparr>) = alt_ok t"
  "alt_ok (t\<lparr>t_g1 := cs\<rparr>) = alt_ok t" "alt_ok (t\<lparr>t_active := i\<rparr>) = alt_ok t"
  "alt_ok (t\<lparr>t_tabs := tb\<rparr>) = alt_ok t" "alt_ok (t\<lparr>t_top := i\<rparr>) = alt_ok t"
  "alt_ok (t\<lparr>t_bottom := i\<rparr>) = alt_ok t" "alt_ok (t\<lparr>t_alt_saved := c\<rparr>) = alt_ok t"
  "alt_ok (t\<lparr>t_hist := h\<rparr>) = alt_ok t"
  by (cases "t_alt t"; simp add: alt_ok_def)+

lemma wf_simps [simp]:
  "wf (t\<lparr>t_pend := b\<rparr>) = wf t"
  "wf (t\<lparr>t_saved := c\<rparr>) = wf t" "wf (t\<lparr>t_saved_style := s\<rparr>) = wf t"
  "wf (t\<lparr>t_style := s\<rparr>) = wf t" "wf (t\<lparr>t_modes := m\<rparr>) = wf t"
  "wf (t\<lparr>t_dir := d\<rparr>) = wf t" "wf (t\<lparr>t_title := d\<rparr>) = wf t"
  "wf (t\<lparr>t_titles := ds\<rparr>) = wf t" "wf (t\<lparr>t_irm := b\<rparr>) = wf t"
  "wf (t\<lparr>t_awm := b\<rparr>) = wf t" "wf (t\<lparr>t_keypad := b\<rparr>) = wf t"
  "wf (t\<lparr>t_colour_asks := k\<rparr>) = wf t" "wf (t\<lparr>t_replies := d\<rparr>) = wf t"
  "wf (t\<lparr>t_unknown := u\<rparr>) = wf t" "wf (t\<lparr>t_g0 := cs\<rparr>) = wf t"
  "wf (t\<lparr>t_g1 := cs\<rparr>) = wf t" "wf (t\<lparr>t_active := i\<rparr>) = wf t"
  by (simp_all add: wf_def)

lemma framed_simps [simp]:
  "framed t (u\<lparr>t_cur := c\<rparr>) = framed t u" "framed t (u\<lparr>t_pend := b\<rparr>) = framed t u"
  "framed t (u\<lparr>t_saved := c\<rparr>) = framed t u" "framed t (u\<lparr>t_saved_style := s\<rparr>) = framed t u"
  "framed t (u\<lparr>t_style := s\<rparr>) = framed t u" "framed t (u\<lparr>t_modes := m\<rparr>) = framed t u"
  "framed t (u\<lparr>t_dir := d\<rparr>) = framed t u" "framed t (u\<lparr>t_title := d\<rparr>) = framed t u"
  "framed t (u\<lparr>t_irm := b\<rparr>) = framed t u"
  "framed t (u\<lparr>t_awm := b\<rparr>) = framed t u" "framed t (u\<lparr>t_keypad := b\<rparr>) = framed t u"
  "framed t (u\<lparr>t_replies := d\<rparr>) = framed t u"
  "framed t (u\<lparr>t_g0 := cs\<rparr>) = framed t u"
  "framed t (u\<lparr>t_g1 := cs\<rparr>) = framed t u" "framed t (u\<lparr>t_active := i\<rparr>) = framed t u"
  "framed t (u\<lparr>t_tabs := tb\<rparr>) = framed t u" "framed t (u\<lparr>t_top := i\<rparr>) = framed t u"
  "framed t (u\<lparr>t_bottom := i\<rparr>) = framed t u"
  by (simp_all add: framed_def small_def)

lemma wf_cursor: "wf t \<Longrightarrow> wf (t\<lparr>t_cur := c\<rparr>) = on_screen (t_cols t) (t_rows t) c"
  by (simp add: wf_def)

lemma wf_tabs: "wf t \<Longrightarrow> wf (t\<lparr>t_tabs := tb\<rparr>) = (int (length tb) = t_cols t)"
  by (simp add: wf_def)

lemma wf_set_region:
  "wf t \<Longrightarrow> 0 \<le> lo \<Longrightarrow> lo \<le> hi \<Longrightarrow> hi < t_rows t \<Longrightarrow> wf (t\<lparr>t_top := lo, t_bottom := hi\<rparr>)"
  by (simp add: wf_def)

lemma framed_moves [simp]:
  "framed t (set_col c u) = framed t u" "framed t (set_row r u) = framed t u"
  by (simp_all add: set_col_def set_row_def)

section \<open>Moving\<close>

lemma set_col_safe [go_ok]: "wf t \<Longrightarrow> 0 \<le> c \<Longrightarrow> c < t_cols t \<Longrightarrow> wf (set_col c t) \<and> framed t (set_col c t)"
  using wf_cur[of t] by (simp add: set_col_def wf_cursor on_screen_def)

lemma set_row_safe [go_ok]: "wf t \<Longrightarrow> 0 \<le> r \<Longrightarrow> r < t_rows t \<Longrightarrow> wf (set_row r t) \<and> framed t (set_row r t)"
  using wf_cur[of t] by (simp add: set_row_def wf_cursor on_screen_def)

lemma set_col_simps [simp]:
  "t_cols (set_col c t) = t_cols t" "t_rows (set_col c t) = t_rows t" "c_col (t_cur (set_col c t)) = c"
  "c_row (t_cur (set_col c t)) = c_row (t_cur t)" "t_pend (set_col c t) = t_pend t"
  "t_top (set_col c t) = t_top t" "t_bottom (set_col c t) = t_bottom t"
  "t_awm (set_col c t) = t_awm t" "t_irm (set_col c t) = t_irm t" "t_style (set_col c t) = t_style t"
  "t_cells (set_col c t) = t_cells t" "t_on_alt (set_col c t) = t_on_alt t"
  by (simp_all add: set_col_def)

lemma set_row_simps [simp]:
  "t_cols (set_row c t) = t_cols t" "t_rows (set_row c t) = t_rows t" "c_row (t_cur (set_row c t)) = c"
  "c_col (t_cur (set_row c t)) = c_col (t_cur t)" "t_pend (set_row c t) = t_pend t"
  "t_top (set_row c t) = t_top t" "t_bottom (set_row c t) = t_bottom t"
  "t_awm (set_row c t) = t_awm t" "t_irm (set_row c t) = t_irm t" "t_style (set_row c t) = t_style t"
  "t_cells (set_row c t) = t_cells t" "t_on_alt (set_row c t) = t_on_alt t"
  by (simp_all add: set_row_def)

lemma clamp_screen:
  assumes "wf t"
  shows "0 \<le> clamp r 0 (t_rows t - 1)" "clamp r 0 (t_rows t - 1) < t_rows t"
    "0 \<le> clamp r 0 (t_cols t - 1)" "clamp r 0 (t_cols t - 1) < t_cols t"
  using wf_dims[OF assms] clamp_bounds[of 0 "t_rows t - 1" r] clamp_bounds[of 0 "t_cols t - 1" r] by auto

lemma move_to_safe [go_ok]: "wf t \<Longrightarrow> wf (move_to r c t) \<and> framed t (move_to r c t)"
  using clamp_screen[of t] by (simp add: move_to_def set_col_def set_row_def wf_cursor on_screen_def)

lemma move_vertically_safe [go_ok]:
  assumes "wf t"
  shows "wf (move_vertically d t) \<and> framed t (move_vertically d t)"
proof -
  note reg = wf_region[OF assms] and dims = wf_dims[OF assms] and cur = wf_cur[OF assms]
  let ?hi = "if d > 0 \<and> c_row (t_cur t) \<le> t_bottom t then t_bottom t else t_rows t - 1"
  let ?lo = "if d < 0 \<and> c_row (t_cur t) \<ge> t_top t then t_top t else 0"
  have "0 \<le> ?lo" "?hi < t_rows t" "?lo \<le> ?hi" using reg dims by auto
  then have "0 \<le> clamp (wrap64 (c_row (t_cur t) + d)) ?lo ?hi"
    "clamp (wrap64 (c_row (t_cur t) + d)) ?lo ?hi < t_rows t"
    using clamp_bounds[of ?lo ?hi "wrap64 (c_row (t_cur t) + d)"] by linarith+
  then show ?thesis using set_row_safe[OF assms] by (simp add: move_vertically_def Let_def)
qed

lemma set_region_safe [go_ok]:
  assumes "wf t"
  shows "wf (set_region lo hi t) \<and> framed t (set_region lo hi t)"
proof (cases "lo < 0 \<or> hi \<ge> t_rows t \<or> lo \<ge> hi")
  case False
  then have "wf (t\<lparr>t_top := lo, t_bottom := hi\<rparr>)" using wf_set_region[OF assms, of lo hi] by auto
  from move_to_safe[OF this, of 0 0] show ?thesis using False
    by (simp add: set_region_def) (simp add: framed_def small_def)
qed (use assms in \<open>auto simp: set_region_def\<close>)

lemma restore_cursor_safe [go_ok]: "wf t \<Longrightarrow> wf (restore_cursor t) \<and> framed t (restore_cursor t)"
  using clamp_screen[of t] by (simp add: restore_cursor_def Let_def wf_cursor on_screen_def)

lemma save_cursor_safe [go_ok]: "wf t \<Longrightarrow> wf (save_cursor t) \<and> framed t (save_cursor t)"
  by (simp add: save_cursor_def)

lemma tab_from_range: "0 \<le> c \<Longrightarrow> 1 \<le> cols \<Longrightarrow> c + int n \<le> cols \<Longrightarrow> 0 \<le> tab_from tabs n c cols \<and> tab_from tabs n c cols < cols"
  by (induction n arbitrary: c) auto

lemma next_tab_range: "wf t \<Longrightarrow> 0 \<le> next_tab t \<and> next_tab t < t_cols t"
  using wf_cur[of t] wf_dims[of t] unfolding next_tab_def by (intro tab_from_range) auto

lemma set_tab_safe [go_ok]: "wf t \<Longrightarrow> safe t (set_tab t)"
  using wf_cur[of t] wf_lengths(4)[of t] by (simp add: set_tab_def wf_tabs)

lemma clear_tabs_safe [go_ok]: "wf t \<Longrightarrow> safe t (clear_tabs e t)"
  using wf_cur[of t] wf_lengths(4)[of t] by (simp add: clear_tabs_def wf_tabs)

lemma reverse_index_safe [go_ok]:
  assumes "wf t"
  shows "safe t (reverse_index t)"
  using draws_safe[OF assms scroll_down_draws[OF assms]] set_row_safe[OF assms, of "c_row (t_cur t) - 1"]
    wf_cur[OF assms] assms
  by (simp add: reverse_index_def)

lemma line_feed_safe [go_ok]:
  assumes "wf t"
  shows "safe t (line_feed t)"
  using draws_safe[OF assms scroll_up_draws[OF assms]] set_row_safe[OF assms, of "c_row (t_cur t) + 1"]
    wf_cur[OF assms] assms
  by (simp add: line_feed_def)

section \<open>Writing\<close>

lemma line_feed_same:
  assumes "wf t" "line_feed t = Some t'"
  shows "c_col (t_cur t') = c_col (t_cur t)" "t_pend t' = t_pend t" "t_awm t' = t_awm t"
    "t_irm t' = t_irm t" "t_style t' = t_style t"
proof -
  have "redrawn t t' \<or> t' = set_row (c_row (t_cur t) + 1) t"
    using assms scroll_up_draws[OF assms(1), of 1] redrawn_refl[OF assms(1)]
    by (auto simp: line_feed_def draws_def split: if_split_asm)
  then show "c_col (t_cur t') = c_col (t_cur t)" "t_pend t' = t_pend t" "t_awm t' = t_awm t"
    "t_irm t' = t_irm t" "t_style t' = t_style t"
    using redrawn_same[of t t'] by auto
qed

lemma wrap_line_ok:
  assumes "wf t"
  shows "\<exists>t'. wrap_line t = Some t' \<and> wf t' \<and> framed t t' \<and> c_col (t_cur t') = 0 \<and>
     t_pend t' = False \<and> t_awm t' = t_awm t \<and> t_irm t' = t_irm t \<and> t_style t' = t_style t"
proof -
  obtain t1 where t1: "set_wrapped (c_row (t_cur t)) True t = Some t1" "redrawn t t1"
    using set_wrapped_draws[OF assms] wf_cur[OF assms] by (auto simp: draws_def)
  have w1: "wf t1" "framed t t1" using wf_redrawn[OF assms t1(2)] by auto
  let ?t2 = "set_col 0 (t1\<lparr>t_pend := False\<rparr>)"
  have w2: "wf ?t2" "framed t ?t2"
    using set_col_safe[of "t1\<lparr>t_pend := False\<rparr>" 0] w1 wf_dims[OF w1(1)] by simp_all
  obtain t' where t': "line_feed ?t2 = Some t'" "wf t'" "framed ?t2 t'"
    using line_feed_safe[OF w2(1)] by (auto simp: safe_def)
  have "wrap_line t = Some t'" by (simp add: wrap_line_def t1 t')
  then show ?thesis
    using t' framed_trans[OF w2(2) t'(3)] line_feed_same[OF w2(1) t'(1)] redrawn_same[OF t1(2)]
    by simp
qed

lemma wrap_line_safe [go_ok]: "wf t \<Longrightarrow> safe t (wrap_line t)"
  using wrap_line_ok by (fastforce simp: safe_def)

lemma shift_cells_ok:
  assumes "row_ok r" "0 < n" "0 \<le> col" "cols \<le> int (length r)"
  shows "\<exists>r'. shift_cells cols col n r = Some r' \<and> length r' = length r \<and> row_ok r'"
  unfolding shift_cells_def
proof (rule for_range_inv[where P = "\<lambda>r'. length r' = length r \<and> row_ok r'", simplified conj_assoc])
  fix j s assume j: "0 \<le> j" "j < cols - (col + n)" "length s = length r \<and> row_ok s"
  have b: "0 \<le> cols - 1 - j - n" "cols - 1 - j - n < int (length s)" "0 \<le> cols - 1 - j" "cols - 1 - j < int (length s)"
    using j assms by auto
  have "s ! nat (cols - 1 - j - n) \<in> set s" using b by (intro nth_mem) linarith
  then have "width_ok (s ! nat (cols - 1 - j - n))" using j by (auto simp: row_ok_def)
  then have "row_ok (s[nat (cols - 1 - j) := s ! nat (cols - 1 - j - n)])"
    using row_ok_update j by blast
  then show "\<exists>s'. (let c = cols - 1 - j in do { x \<leftarrow> idx s (c - n); upd s c x }) = Some s' \<and>
      length s' = length r \<and> row_ok s'"
    using b j by (simp add: Let_def)
qed (use assms in simp)

lemma shift_right_draws:
  assumes "wf t" "0 \<le> row" "row < t_rows t" "0 \<le> col"
  shows "draws t (shift_right row col n t)"
proof (cases "n \<le> 0 \<or> col \<ge> t_cols t")
  case False
  let ?f = "\<lambda>line. do { line1 \<leftarrow> shift_cells (t_cols t) col n line;
                fill col (min (col + n) (t_cols t)) (space_cell (t_style t)) line1 }"
  have "draws t (do { t1 \<leftarrow> on_row row ?f t; u \<leftarrow> idx (t_used t1) row;
        if u > 0 then set_used row (min (u + n) (t_cols t)) t1 else Some t1 })"
  proof (rule draws_bind[OF assms(1)])
    show "draws t (on_row row ?f t)"
    proof (rule on_row_draws[OF assms(1-3)])
      fix r assume r: "int (length r) = t_cols t" "row_ok r"
      obtain r1 where r1: "shift_cells (t_cols t) col n r = Some r1" "length r1 = length r" "row_ok r1"
        using shift_cells_ok[of r n col "t_cols t"] r False assms(4) by auto
      obtain r2 where "fill col (min (col + n) (t_cols t)) (space_cell (t_style t)) r1 = Some r2"
        "length r2 = length r1" "row_ok r2"
        using fill_row[of col "min (col + n) (t_cols t)" r1 "space_cell (t_style t)"] r r1 assms(4) by auto
      then show "\<exists>r'. ?f r = Some r' \<and> length r' = length r \<and> row_ok r'" using r1 by simp
    qed
    fix t1 assume t1: "wf t1" "redrawn t t1"
    have row: "row < t_rows t1" using assms(3) redrawn_same[OF t1(2)] by simp
    have "draws t1 (set_used row (min (t_used t1 ! nat row + n) (t_cols t)) t1)" if "t_used t1 ! nat row > 0"
      using that row assms t1(1) False by (intro set_used_draws) auto
    then show "draws t1 (do { u \<leftarrow> idx (t_used t1) row;
        if u > 0 then set_used row (min (u + n) (t_cols t)) t1 else Some t1 })"
      using row assms(2) wf_lengths(3)[OF t1(1)] t1(1) by simp
  qed
  then show ?thesis using False by (simp add: shift_right_def)
qed (use assms in \<open>auto simp: shift_right_def\<close>)

text \<open>The writing part of \<open>putString\<close>, once the position is settled.\<close>

lemma write_cells_draws:
  assumes "wf t" "0 \<le> row" "row < t_rows t" "0 \<le> col" "0 \<le> w" "w \<le> 2" "col + max w 1 \<le> t_cols t"
  shows "draws t (do {
     t3 \<leftarrow> (if t_irm t then shift_right row col w t else Some t);
     t4 \<leftarrow> set_cell row col \<lparr>content = s, width = w, style = t_style t3\<rparr> t3;
     u \<leftarrow> idx (t_used t4) row;
     t5 \<leftarrow> (if col + w > u then set_used row (col + w) t4 else Some t4);
     for_range 1 w (\<lambda>i t. set_cell row (col + i) (cont_cell (t_style t3)) t) t5 })"
proof (rule draws_bind[OF assms(1)])
  show "draws t (if t_irm t then shift_right row col w t else Some t)"
    using shift_right_draws assms by simp
  fix t3 assume t3: "wf t3" "redrawn t t3"
  have d3: "t_rows t3 = t_rows t" "t_cols t3 = t_cols t" using redrawn_same[OF t3(2)] by simp_all
  show "draws t3 (do { t4 \<leftarrow> set_cell row col \<lparr>content = s, width = w, style = t_style t3\<rparr> t3;
     u \<leftarrow> idx (t_used t4) row;
     t5 \<leftarrow> (if col + w > u then set_used row (col + w) t4 else Some t4);
     for_range 1 w (\<lambda>i t. set_cell row (col + i) (cont_cell (t_style t3)) t) t5 })"
  proof (rule draws_bind[OF t3(1)])
    show "draws t3 (set_cell row col \<lparr>content = s, width = w, style = t_style t3\<rparr> t3)"
      using assms d3 by (intro set_cell_draws[OF t3(1)]) (auto simp: width_ok_def)
    fix t4 assume t4: "wf t4" "redrawn t3 t4"
    have d4: "t_rows t4 = t_rows t" "t_cols t4 = t_cols t" using redrawn_same[OF t4(2)] d3 by simp_all
    have u: "idx (t_used t4) row = Some (t_used t4 ! nat row)"
      using wf_lengths(3)[OF t4(1)] assms d4 by simp
    have "draws t4 (do { t5 \<leftarrow> (if col + w > t_used t4 ! nat row then set_used row (col + w) t4 else Some t4);
       for_range 1 w (\<lambda>i t. set_cell row (col + i) (cont_cell (t_style t3)) t) t5 })"
    proof (rule draws_bind[OF t4(1)])
      show "draws t4 (if col + w > t_used t4 ! nat row then set_used row (col + w) t4 else Some t4)"
        using t4(1) assms d4 by (simp add: set_used_draws)
      fix t5 assume t5: "wf t5" "redrawn t4 t5"
      have d5: "t_rows t5 = t_rows t" "t_cols t5 = t_cols t" using redrawn_same[OF t5(2)] d4 by simp_all
      show "draws t5 (for_range 1 w (\<lambda>i t. set_cell row (col + i) (cont_cell (t_style t3)) t) t5)"
      proof (rule draws_range[OF t5(1)])
        fix j t' assume j: "1 \<le> j" "j < w" "wf t'" "redrawn t5 t'"
        show "draws t' (set_cell row (col + j) (cont_cell (t_style t3)) t')"
          using j assms d5 redrawn_same[OF j(4)] by (intro set_cell_draws[OF j(3)]) auto
      qed
    qed
    then show "draws t4 (do { u \<leftarrow> idx (t_used t4) row;
       t5 \<leftarrow> (if col + w > u then set_used row (col + w) t4 else Some t4);
       for_range 1 w (\<lambda>i t. set_cell row (col + i) (cont_cell (t_style t3)) t) t5 })" by (simp add: u)
  qed
qed

lemma settle_column:
  assumes "wf t" "0 \<le> w" "w \<le> 2"
  shows "\<exists>t2. (do { t1 \<leftarrow> (if t_pend t then wrap_line t else Some t);
       (if c_col (t_cur t1) + w > t_cols t1
        then (if \<not> t_awm t1 then Some (set_col (max (t_cols t1 - w) 0) t1) else wrap_line t1)
        else Some t1) }) = Some t2 \<and> wf t2 \<and> framed t t2 \<and>
     0 \<le> c_col (t_cur t2) \<and> c_col (t_cur t2) + max w 1 \<le> t_cols t2"
proof -
  obtain t1 where t1: "(if t_pend t then wrap_line t else Some t) = Some t1" "wf t1" "framed t t1"
    using wrap_line_ok[OF assms(1)] assms(1) by (cases "t_pend t") auto
  note d = wf_dims[OF t1(2)] and c = wf_cur[OF t1(2)]
  let ?s = "set_col (max (t_cols t1 - w) 0) t1"
  have s: "wf ?s \<and> framed t1 ?s" if "c_col (t_cur t1) + w > t_cols t1"
    using set_col_safe[OF t1(2), of "max (t_cols t1 - w) 0"] d c that assms by auto
  obtain t2 where t2: "wrap_line t1 = Some t2" "wf t2" "framed t1 t2" "c_col (t_cur t2) = 0"
    using wrap_line_ok[OF t1(2)] by blast
  have e: "t_cols t2 = t_cols t1" using t2(3) by (simp add: framed_def)
  consider "c_col (t_cur t1) + w \<le> t_cols t1" | "c_col (t_cur t1) + w > t_cols t1" "t_awm t1"
    | "c_col (t_cur t1) + w > t_cols t1" "\<not> t_awm t1" by linarith
  then show ?thesis
  proof cases
    case 1
    then have "c_col (t_cur t1) + max w 1 \<le> t_cols t1" using c by (simp add: max_def)
    then show ?thesis using t1 c 1 by simp
  next
    case 2 then show ?thesis using t1 t2 e d assms framed_trans[OF t1(3) t2(3)] by simp
  next
    case 3 then show ?thesis using t1 s framed_trans[of t t1 ?s] d c assms by auto
  qed
qed

lemma put_string_safe [go_ok]:
  assumes "wf t" "0 \<le> w" "w \<le> 2"
  shows "safe t (put_string s w t)"
proof -
  obtain t1 t2 where t1: "(if t_pend t then wrap_line t else Some t) = Some t1" and
    t2: "(if c_col (t_cur t1) + w > t_cols t1
        then (if \<not> t_awm t1 then Some (set_col (max (t_cols t1 - w) 0) t1) else wrap_line t1)
        else Some t1) = Some t2" and
    w2: "wf t2" "framed t t2" "0 \<le> c_col (t_cur t2)" "c_col (t_cur t2) + max w 1 \<le> t_cols t2"
    using settle_column[OF assms] by (auto simp: bind_eq_Some_conv simp del: if_split)
  let ?row = "c_row (t_cur t2)" and ?col = "c_col (t_cur t2)"
  let ?body = "\<lambda>t. do {
     t3 \<leftarrow> (if t_irm t then shift_right ?row ?col w t else Some t);
     t4 \<leftarrow> set_cell ?row ?col \<lparr>content = s, width = w, style = t_style t3\<rparr> t3;
     u \<leftarrow> idx (t_used t4) ?row;
     t5 \<leftarrow> (if ?col + w > u then set_used ?row (?col + w) t4 else Some t4);
     for_range 1 w (\<lambda>i t. set_cell ?row (?col + i) (cont_cell (t_style t3)) t) t5 }"
  let ?fin = "\<lambda>t6. if ?col + w \<ge> t_cols t6 then Some ((set_col (t_cols t6 - 1) t6)\<lparr>t_pend := t_awm t6\<rparr>)
     else Some (set_col (?col + w) t6)"
  obtain t6 where t6: "?body t2 = Some t6" "redrawn t2 t6"
    using write_cells_draws[OF w2(1) _ _ w2(3) assms(2,3) w2(4), of ?row s] wf_cur[OF w2(1)]
    by (auto simp: draws_def)
  have w6: "wf t6" "framed t t6" using wf_redrawn[OF w2(1) t6(2)] framed_trans[OF w2(2)] by auto
  have "wf (set_col (t_cols t6 - 1) t6) \<and> framed t6 (set_col (t_cols t6 - 1) t6)"
    using set_col_safe[OF w6(1)] wf_dims[OF w6(1)] by simp
  moreover have "wf (set_col (?col + w) t6) \<and> framed t6 (set_col (?col + w) t6)" if "?col + w < t_cols t6"
    using set_col_safe[OF w6(1)] that w2(3) assms by simp
  ultimately have fin: "safe t (?fin t6)" using framed_trans[OF w6(2)] by auto
  have "put_string s w t = Option.bind (?body t2) ?fin"
    by (simp add: put_string_def t1 t2 Let_def)
  then show ?thesis using fin t6(1) by simp
qed

lemma step_back_ok:
  assumes "0 \<le> col" "col < int (length row)"
  shows "\<exists>c. step_back k row col = Some c \<and> 0 \<le> c \<and> c \<le> col"
  using assms
proof (induction k arbitrary: col)
  case (Suc k)
  show ?case
  proof (cases "col > 0 \<and> content (row ! nat col) = []")
    case True
    then obtain c where "step_back k row (col - 1) = Some c" "0 \<le> c" "c \<le> col - 1"
      using Suc.IH[of "col - 1"] Suc.prems by auto
    then show ?thesis using True Suc.prems by auto
  qed (use Suc.prems in auto)
qed simp

lemma combine_draws [go_ok]:
  assumes "wf t"
  shows "draws t (combine r t)"
proof (cases "c_col (t_cur t) = 0 \<and> \<not> t_pend t")
  case False
  let ?row = "t_cells t ! nat (c_row (t_cur t))"
  let ?col = "if t_pend t then t_cols t - 1 else c_col (t_cur t) - 1"
  note cur = wf_cur[OF assms] and dims = wf_dims[OF assms]
  have r: "int (length ?row) = t_cols t" "row_ok ?row" "idx (t_cells t) (c_row (t_cur t)) = Some ?row"
    using wf_row[OF assms] cur by blast+
  have "0 \<le> ?col" "?col < int (length ?row)" using False cur dims r by auto
  then obtain c where c: "step_back (nat ?col) ?row ?col = Some c" "0 \<le> c" "c < t_cols t"
    using step_back_ok[of ?col ?row "nat ?col"] r(1) by auto
  have "?row ! nat c \<in> set ?row" using c r(1) by (intro nth_mem) linarith
  then have "width_ok (?row ! nat c)" using r(2) by (simp add: row_ok_def)
  then have "draws t (set_cell (c_row (t_cur t)) c ((?row ! nat c)\<lparr>content := content (?row ! nat c) @ encode_rune r\<rparr>) t)"
    using cur c by (intro set_cell_draws[OF assms]) (auto simp: width_ok_def)
  then show ?thesis using False c r assms by (simp add: combine_def Let_def)
qed (use assms in \<open>simp add: combine_def\<close>)

lemma put_safe [go_ok]:
  assumes "wf t" "0 \<le> w" "w \<le> 2"
  shows "safe t (put r w t)"
  using put_string_safe[OF assms] draws_safe[OF assms(1) combine_draws[OF assms(1)]] by (simp add: put_def)

lemma new_term_wf:
  assumes "2 \<le> cols" "cols \<le> max_dim" "1 \<le> rows" "rows \<le> max_dim"
  shows "wf (new_term cols rows)"
  using assms
  by (simp add: wf_def new_term_def Let_def grid_ok_def on_screen_def zero_cursor_def hist_ok_def
      alt_ok_def new_ring_def empty_ring_def hist_inv_def default_scrollback_def default_tabs_def)

end
