(* ===== verification/Resize.thy ===== *)
theory Resize
  imports Reflow
begin

text \<open>
  What a resize keeps: the emulator's invariant, and every character of the scrollback and the
  screen in its order.
\<close>

lemma min_pred_less [simp]: "min x (b - 1) < (b::int)"
  by (simp add: min_def)

lemma hist_line_eta [simp]:
  "\<lparr>hl_cells = hl_cells l, hl_wrapped = hl_wrapped l, hl_used = hl_used l\<rparr> = l"
  by (cases l) simp

section \<open>The paragraphs hold what was written\<close>

definition relay_ok :: "vterm \<Rightarrow> bool" where
  "relay_ok t \<longleftrightarrow> (\<exists>c r. grid_ok c r (t_cells t) (t_wrapped t) (t_used t)) \<and> hist_ok (t_hist t) \<and>
     0 \<le> c_row (t_cur t) \<and> 0 \<le> c_col (t_cur t)"

definition line_cells :: "hist_line \<Rightarrow> cell list" where
  "line_cells l = take (nat (hl_used l)) (hl_cells l)"

text \<open>The row the cursor is on reaches at least as far as the cursor.\<close>

definition cursor_reach :: "vterm \<Rightarrow> vterm" where
  "cursor_reach t = t\<lparr>t_used := map (\<lambda>r. if int r = c_row (t_cur t) then max (c_col (t_cur t)) (t_used t ! r)
      else t_used t ! r) [0..<length (t_used t)]\<rparr>"

lemma line_text_cells: "line_text l = ink (line_cells l)"
  by (simp add: line_text_def line_cells_def)

lemma join_history:
  assumes "hist_ok h" "joiner_ok j"
  shows "\<exists>j'. for_range 0 (hist_len h)
       (\<lambda>i j. do { l \<leftarrow> hist_at h i; add_row (hl_cells l) (hl_used l) (hl_wrapped l) (-1) j }) j = Some j' \<and>
     joiner_ok j' \<and> joiner_text j' = joiner_text j @ concat (map line_cells (hist_list h))"
proof -
  have inv: "hist_inv h" using assms(1) by (simp add: hist_ok_def)
  have n: "hist_len h = int (length (hist_list h))" using hist_len_list[OF inv] .
  let ?P = "\<lambda>i j'. joiner_ok j' \<and> joiner_text j' = joiner_text j @ concat (map line_cells (take (nat i) (hist_list h)))"
  have "\<exists>j'. for_range 0 (hist_len h)
       (\<lambda>i j. do { l \<leftarrow> hist_at h i; add_row (hl_cells l) (hl_used l) (hl_wrapped l) (-1) j }) j = Some j' \<and> ?P (hist_len h) j'"
  proof (rule for_range_rule[where P = ?P])
    fix i s assume i: "0 \<le> i" "i < hist_len h" "?P i s"
    let ?l = "hist_list h ! nat i"
    have k: "nat i < length (hist_list h)" using i n by linarith
    then have "?l \<in> set (hr_lines h)" using set_hist_list[of h] nth_mem by blast
    then have l: "row_ok (hl_cells ?l)" "0 \<le> hl_used ?l" using assms(1) by (auto simp: hist_ok_def)
    obtain s' where s': "add_row (hl_cells ?l) (hl_used ?l) (hl_wrapped ?l) (-1) s = Some s'" "joiner_ok s'"
      "joiner_text s' = joiner_text s @ line_cells ?l"
      using add_row_ok[OF _ l, of s "hl_wrapped ?l" "-1"] i(3) by (auto simp: line_cells_def)
    have "take (nat (i + 1)) (hist_list h) = take (nat i) (hist_list h) @ [?l]"
      using k i(1) by (simp add: nat_add_distrib take_Suc_conv_app_nth)
    then show "\<exists>s'. (do { l \<leftarrow> hist_at h i; add_row (hl_cells l) (hl_used l) (hl_wrapped l) (-1) s }) = Some s' \<and> ?P (i + 1) s'"
      using s' i hist_at_list[OF inv i(1,2)] by simp
  qed (use assms(2) n in simp_all)
  then show ?thesis using n by simp
qed

definition reach :: "vterm \<Rightarrow> nat \<Rightarrow> int" where
  "reach t r = (if int r = c_row (t_cur t) then max (c_col (t_cur t)) (t_used t ! r) else t_used t ! r)"

lemma join_screen:
  assumes "relay_ok t" "joiner_ok j" "0 \<le> n" "n \<le> int (length (t_cells t))"
  shows "\<exists>j'. for_range 0 n
       (\<lambda>r j. do {
          used \<leftarrow> used_at t r;
          let here = (r = c_row (t_cur t));
          cells \<leftarrow> idx (t_cells t) r;
          w \<leftarrow> wrapped_at t r;
          add_row cells (if here \<and> c_col (t_cur t) > used then c_col (t_cur t) else used) w
            (if here then c_col (t_cur t) else -1) j }) j = Some j' \<and> joiner_ok j' \<and>
     joiner_text j' = joiner_text j @ concat (map (\<lambda>r. take (nat (reach t r)) (t_cells t ! r)) [0..<nat n])"
    (is "\<exists>j'. for_range 0 n ?f j = Some j' \<and> _")
proof -
  obtain c0 r0 where g: "grid_ok c0 r0 (t_cells t) (t_wrapped t) (t_used t)" using assms(1) by (auto simp: relay_ok_def)
  have us: "\<forall>u \<in> set (t_used t). 0 \<le> u" and len: "length (t_used t) = length (t_cells t)"
    "length (t_wrapped t) = length (t_cells t)"
    using g unfolding grid_ok_def by (blast, linarith+)
  let ?P = "\<lambda>i j'. joiner_ok j' \<and> joiner_text j' =
      joiner_text j @ concat (map (\<lambda>r. take (nat (reach t r)) (t_cells t ! r)) [0..<nat i])"
  have "\<exists>j'. for_range 0 n ?f j = Some j' \<and> ?P n j'"
  proof (rule for_range_rule[where P = ?P, OF assms(3)])
    fix i s assume i: "0 \<le> i" "i < n" "?P i s"
    let ?cs = "t_cells t ! nat i" and ?here = "i = c_row (t_cur t)"
    have k: "nat i < length (t_cells t)" using i assms(4) by linarith
    obtain u where u: "used_at t i = Some u" "0 \<le> u" "u = t_used t ! nat i"
      using used_at_ok[OF us i(1)] k len by auto
    have "row_ok ?cs" using g k by (auto simp: grid_ok_def)
    moreover have cu: "(if ?here \<and> c_col (t_cur t) > u then c_col (t_cur t) else u) = reach t (nat i)"
      using u(3) i(1) by (simp add: reach_def max_def)
    moreover have "0 \<le> reach t (nat i)" using u(2,3) by (auto simp: reach_def le_max_iff_disj)
    ultimately obtain s' where s': "add_row ?cs (reach t (nat i)) (t_wrapped t ! nat i) (if ?here then c_col (t_cur t) else -1) s = Some s'"
      "joiner_ok s'" "joiner_text s' = joiner_text s @ take (nat (reach t (nat i))) ?cs"
      using add_row_ok[of s ?cs "reach t (nat i)"] i(3) by blast
    have w: "wrapped_at t i = Some (t_wrapped t ! nat i)" using k len i(1) by (auto simp: wrapped_at_def idx_def)
    have c: "idx (t_cells t) i = Some ?cs" using k i(1) by simp
    have "?f i s = Some s'" using u(1) w c s'(1) cu by (simp add: Let_def)
    moreover have "[0..<nat (i + 1)] = [0..<nat i] @ [nat i]" using i(1) by (simp add: nat_add_distrib)
    ultimately show "\<exists>s'. ?f i s = Some s' \<and> ?P (i + 1) s'" using s' i(3) by simp
  qed (use assms(2) in simp)
  then show ?thesis by blast
qed

lemma logical_lines_ok:
  assumes "relay_ok t"
  shows "\<exists>ls. logical_lines t = Some ls \<and> (\<forall>l \<in> set ls. row_ok (lg_cells l)) \<and>
     concat (map lg_cells ls) = concat (map line_cells (hist_list (t_hist t))) @
       concat (map (\<lambda>r. take (nat (reach t r)) (t_cells t ! r)) [0..<length (t_cells t)])"
proof -
  let ?j0 = "\<lparr>j_lines = [], j_cur = no_logical, j_open = False\<rparr>"
  have j0: "joiner_ok ?j0" "joiner_text ?j0 = []"
    by (simp_all add: joiner_ok_def joiner_text_def no_logical_def row_ok_def)
  have h: "hist_ok (t_hist t)" and cur: "0 \<le> c_row (t_cur t)" using assms by (auto simp: relay_ok_def)
  obtain c0 r0 where g: "grid_ok c0 r0 (t_cells t) (t_wrapped t) (t_used t)" using assms by (auto simp: relay_ok_def)
  have us: "\<forall>u \<in> set (t_used t). 0 \<le> u" and len: "length (t_used t) = length (t_cells t)"
    using g unfolding grid_ok_def by (blast, linarith)
  obtain j1 where j1: "for_range 0 (hist_len (t_hist t))
       (\<lambda>i j. do { l \<leftarrow> hist_at (t_hist t) i; add_row (hl_cells l) (hl_used l) (hl_wrapped l) (-1) j }) ?j0 = Some j1"
     "joiner_ok j1" "joiner_text j1 = concat (map line_cells (hist_list (t_hist t)))"
    using join_history[OF h j0(1)] j0(2) by auto
  let ?have = "int (length (t_cells t))"
  let ?lst0 = "min (c_row (t_cur t)) (?have - 1)"
  have lo: "-1 \<le> ?lst0" using cur by simp
  obtain lst where lst: "last_used t (nat (?have - 1 - ?lst0)) ?lst0 = Some lst" "?lst0 \<le> lst"
      "lst \<le> ?lst0 + int (nat (?have - 1 - ?lst0))"
      "\<forall>i. lst < i \<and> i \<le> ?lst0 + int (nat (?have - 1 - ?lst0)) \<longrightarrow> used_at t i = Some 0"
    using last_used_ok[OF us lo] by blast
  have "?lst0 \<le> ?have - 1" by (rule min.cobounded2)
  then have top: "?lst0 + int (nat (?have - 1 - ?lst0)) = ?have - 1" by linarith
  have n: "0 \<le> lst + 1" "lst + 1 \<le> ?have" using lst(2,3) cur unfolding top by linarith+
  obtain j2 where j2: "for_range 0 (lst + 1)
       (\<lambda>r j. do {
          used \<leftarrow> used_at t r;
          let here = (r = c_row (t_cur t));
          cells \<leftarrow> idx (t_cells t) r;
          w \<leftarrow> wrapped_at t r;
          add_row cells (if here \<and> c_col (t_cur t) > used then c_col (t_cur t) else used) w
            (if here then c_col (t_cur t) else -1) j }) j1 = Some j2" "joiner_ok j2"
     "joiner_text j2 = joiner_text j1 @
        concat (map (\<lambda>r. take (nat (reach t r)) (t_cells t ! r)) [0..<nat (lst + 1)])"
    using join_screen[OF assms j1(2) n] by blast
  have rest: "concat (map (\<lambda>r. take (nat (reach t r)) (t_cells t ! r)) [nat (lst + 1)..<length (t_cells t)]) = []"
  proof -
    have "reach t r = 0" if "r \<in> set [nat (lst + 1)..<length (t_cells t)]" for r
    proof -
      have r: "lst < int r" "r < length (t_cells t)" using that n(1) by auto
      then have "used_at t (int r) = Some 0" using lst(4) top by auto
      then have "t_used t ! r = 0" using r(2) len by (simp add: used_at_def)
      moreover have "int r \<noteq> c_row (t_cur t)" using r lst(2) by auto
      ultimately show ?thesis by (simp add: reach_def)
    qed
    then show ?thesis by simp
  qed
  have "[0..<length (t_cells t)] = [0..<nat (lst + 1)] @ [nat (lst + 1)..<length (t_cells t)]"
    using n upt_add_eq_append[of 0 "nat (lst + 1)" "length (t_cells t) - nat (lst + 1)"] by simp
  then have tx: "joiner_text j2 = concat (map line_cells (hist_list (t_hist t))) @
       concat (map (\<lambda>r. take (nat (reach t r)) (t_cells t ! r)) [0..<length (t_cells t)])"
    using j2(3) j1(3) rest by simp
  let ?ls = "if j_open j2 \<or> lg_cursor (j_cur j2) \<ge> 0 then j_lines j2 @ [j_cur j2] else j_lines j2"
  have "concat (map lg_cells ?ls) = joiner_text j2" "\<forall>l \<in> set ?ls. row_ok (lg_cells l)"
    using j2(2) by (auto simp: joiner_ok_def joiner_text_def no_logical_def)
  moreover have "logical_lines t = Some ?ls"
    using j1(1) lst(1) j2(1) by (simp add: logical_lines_def Let_def)
  ultimately show ?thesis using tx by auto
qed

section \<open>Laying out\<close>

definition line_ok :: "int \<Rightarrow> hist_line \<Rightarrow> bool" where
  "line_ok cols l \<longleftrightarrow> int (length (hl_cells l)) = cols \<and> row_ok (hl_cells l) \<and> 0 \<le> hl_used l \<and> hl_used l \<le> cols"

lemma lay_out_ok:
  assumes "2 \<le> cols" "\<forall>l \<in> set ls. row_ok (lg_cells l)" "\<forall>l \<in> set (o_lines out). line_ok cols l" "-1 \<le> o_crow out"
  shows "\<exists>out'. lay_out cols ls out = Some out' \<and> (\<forall>l \<in> set (o_lines out'). line_ok cols l) \<and> -1 \<le> o_crow out' \<and>
     concat (map line_text (o_lines out')) = concat (map line_text (o_lines out)) @ ink (concat (map lg_cells ls))"
  using assms(2-4)
proof (induction ls arbitrary: out)
  case Nil
  then show ?case by simp
next
  case (Cons l ls)
  obtain rs us crow ccol where w: "wrap_cells (lg_cells l) cols (lg_cursor l) = Some (rs, us, crow, ccol)"
     "length rs = length us" "\<forall>r \<in> set rs. int (length r) = cols \<and> row_ok r"
     "\<forall>u \<in> set us. 0 \<le> u \<and> u \<le> cols" "-1 \<le> crow" "rows_text rs us = ink (lg_cells l)"
    using wrap_cells_ok[of "lg_cells l" cols "lg_cursor l"] Cons.prems(1) assms(1) by auto
  let ?new = "map (\<lambda>i. \<lparr>hl_cells = rs ! i, hl_wrapped = i < length rs - 1, hl_used = us ! i\<rparr>) [0..<length rs]"
  let ?o1 = "if crow \<ge> 0 then out\<lparr>o_crow := int (length (o_lines out)) + crow, o_ccol := ccol\<rparr> else out"
  let ?o2 = "?o1\<lparr>o_lines := o_lines ?o1 @ ?new\<rparr>"
  have new: "line_ok cols x" if x: "x \<in> set ?new" for x
  proof -
    obtain i where i: "i < length rs" "x = \<lparr>hl_cells = rs ! i, hl_wrapped = i < length rs - 1, hl_used = us ! i\<rparr>"
      using x by auto
    then have "rs ! i \<in> set rs" "us ! i \<in> set us" using w(2) by auto
    then show ?thesis using w(3,4) i(2) by (simp add: line_ok_def)
  qed
  have "map line_text ?new = map (\<lambda>(r, u). ink (take (nat u) r)) (zip rs us)"
    using w(2) by (intro nth_equalityI) (simp_all add: line_text_def)
  then have tx: "concat (map line_text ?new) = ink (lg_cells l)" using w(6) by (simp add: rows_text_def)
  have "o_lines ?o2 = o_lines out @ ?new" "-1 \<le> o_crow ?o2" using Cons.prems(3) w(5) by auto
  moreover have "\<forall>x \<in> set (o_lines out @ ?new). line_ok cols x" using Cons.prems(2) new by (auto simp del: set_map)
  ultimately obtain out' where "lay_out cols ls ?o2 = Some out'" "\<forall>l \<in> set (o_lines out'). line_ok cols l" "-1 \<le> o_crow out'"
    "concat (map line_text (o_lines out')) = concat (map line_text (o_lines out @ ?new)) @ ink (concat (map lg_cells ls))"
    using Cons.IH[of ?o2] Cons.prems(1) by auto
  then show ?case using w(1) tx by (simp add: Let_def)
qed

lemma push_lines_ok:
  assumes "hist_inv h" "hist_list h = []" "n \<le> int (length ls)" "\<forall>l \<in> set ls. line_ok cols l" "0 \<le> n"
  shows "\<exists>h'. for_range 0 n
       (\<lambda>i h. do { l \<leftarrow> idx ls i; hist_push (fit_row (hl_cells l) cols) (hl_wrapped l) (min (hl_used l) cols) h }) h = Some h' \<and>
     hist_inv h' \<and> hr_limit h' = hr_limit h \<and> hist_list h' = lastn (nat (hr_limit h)) (take (nat n) ls)"
proof -
  let ?P = "\<lambda>i h'. hist_inv h' \<and> hr_limit h' = hr_limit h \<and> hist_list h' = lastn (nat (hr_limit h)) (take (nat i) ls)"
  show ?thesis
  proof (rule for_range_rule[where P = ?P, OF assms(5)])
    fix i s assume i: "0 \<le> i" "i < n" "?P i s"
    let ?l = "ls ! nat i"
    have k: "nat i < length ls" using i assms(3) by linarith
    then have l: "line_ok cols ?l" using assms(4) by simp
    then have fit: "fit_row (hl_cells ?l) cols = hl_cells ?l" "min (hl_used ?l) cols = hl_used ?l"
      by (simp_all add: line_ok_def fit_row_id)
    have "take (nat (i + 1)) ls = take (nat i) ls @ [?l]"
      using k i(1) by (simp add: nat_add_distrib take_Suc_conv_app_nth)
    then show "\<exists>s'. (do { l \<leftarrow> idx ls i; hist_push (fit_row (hl_cells l) cols) (hl_wrapped l) (min (hl_used l) cols) s }) = Some s' \<and> ?P (i + 1) s'"
      using ring.push_lines[of s "hl_cells ?l" "hl_wrapped ?l" "hl_used ?l"] i k fit by auto
  qed (use assms in simp)
qed


section \<open>Re-laying the terminal\<close>

lemma screen_start_bounds:
  "0 \<le> screen_start n rows crow" "n - rows \<le> screen_start n rows crow"
  by (simp_all add: screen_start_def Let_def)

lemma screen_rows:
  assumes "0 \<le> start" "int (length ls) - rows \<le> start" "\<forall>l \<in> set ls. line_ok cols l"
  shows "map (\<lambda>r. if start + int r < int (length ls) then fit_line cols (ls ! nat (start + int r)) else blank_line cols) [0..<nat rows]
    = drop (nat start) ls @ replicate (nat rows - (length ls - nat start)) (blank_line cols)" (is "?l = ?r")
proof (rule nth_equalityI)
  show "length ?l = length ?r" using assms by simp
  fix i assume "i < length ?l"
  then have i: "i < nat rows" by simp
  show "?l ! i = ?r ! i"
  proof (cases "nat start + i < length ls")
    case True
    then have "line_ok cols (ls ! (nat start + i))" using assms(3) by simp
    then have "fit_line cols (ls ! (nat start + i)) = ls ! (nat start + i)"
      by (simp add: line_ok_def fit_line_id)
    moreover have "nat (start + int i) = nat start + i" using assms(1) by linarith
    moreover have "start + int i < int (length ls)" using True assms(1) by linarith
    ultimately show ?thesis using i True by (simp add: nth_append)
  next
    case False
    then have "\<not> start + int i < int (length ls)" using assms(1) by linarith
    moreover have "i - (length ls - nat start) < nat rows - (length ls - nat start)"
      "\<not> i < length ls - nat start" using i False by linarith+
    ultimately show ?thesis using i by (simp add: nth_append)
  qed
qed

lemma line_ok_blank: "2 \<le> cols \<Longrightarrow> line_ok cols (blank_line cols)"
  by (simp add: line_ok_def blank_line_def)

lemma grid_ok_lines:
  assumes "\<forall>l \<in> set ls. line_ok cols l" "int (length ls) = rows"
  shows "grid_ok cols rows (map hl_cells ls) (map hl_wrapped ls) (map hl_used ls)"
  using assms by (auto simp: grid_ok_def line_ok_def)

lemma screen_lines_map:
  "t_cells t = map hl_cells ls \<Longrightarrow> t_wrapped t = map hl_wrapped ls \<Longrightarrow> t_used t = map hl_used ls \<Longrightarrow>
     screen_lines t = ls"
  unfolding screen_lines_def by (rule nth_equalityI) simp_all

definition raw_cells :: "vterm \<Rightarrow> cell list" where
  "raw_cells t = concat (map line_cells (hist_list (t_hist t))) @
       concat (map (\<lambda>r. take (nat (reach t r)) (t_cells t ! r)) [0..<length (t_cells t)])"

lemma full_text_reach:
  assumes "length (t_used t) = length (t_cells t)"
  shows "full_text (cursor_reach t) = ink (raw_cells t)"
proof -
  have "map line_text (screen_lines (cursor_reach t)) =
      map (\<lambda>r. ink (take (nat (reach t r)) (t_cells t ! r))) [0..<length (t_cells t)]"
    using assms by (simp add: screen_lines_def cursor_reach_def line_text_def reach_def)
  moreover have "map line_text (hist_list (t_hist t)) = map (\<lambda>l. ink (line_cells l)) (hist_list (t_hist t))"
    by (simp add: line_text_cells)
  moreover have "t_hist (cursor_reach t) = t_hist t" by (simp add: cursor_reach_def)
  ultimately show ?thesis
    by (simp only: full_text_def raw_cells_def map_append concat_append ink_append ink_concat map_map comp_def)
qed

text \<open>What \<open>reflowTo\<close> leaves, in one statement.\<close>

definition relaid :: "int \<Rightarrow> int \<Rightarrow> vterm \<Rightarrow> vterm \<Rightarrow> bool" where
  "relaid cols rows t t' \<longleftrightarrow>
     t_cols t' = cols \<and> t_rows t' = rows \<and> t_top t' = 0 \<and> t_bottom t' = rows - 1 \<and>
     int (length (t_tabs t')) = cols \<and>
     grid_ok cols rows (t_cells t') (t_wrapped t') (t_used t') \<and> on_screen cols rows (t_cur t') \<and>
     hist_ok (t_hist t') \<and> hr_limit (t_hist t') = hr_limit (t_hist t) \<and>
     t_alt t' = t_alt t \<and> t_on_alt t' = t_on_alt t \<and> t_alt_pending t' = t_alt_pending t \<and>
     t_alt_wrapped t' = t_alt_wrapped t \<and> t_alt_used t' = t_alt_used t \<and> t_alt_saved t' = t_alt_saved t \<and>
     (small t' = small t) \<and>
     (\<exists>ls k. concat (map line_text ls) = ink (raw_cells t) \<and>
        hist_list (t_hist t') = lastn (nat (hr_limit (t_hist t))) (take k ls) \<and>
        (\<exists>n. screen_lines t' = drop k ls @ replicate n (blank_line cols)))"

lemma hist_ok_lines: "hist_ok h \<longleftrightarrow> hist_inv h \<and> (\<forall>l \<in> set (hist_list h). row_ok (hl_cells l) \<and> 0 \<le> hl_used l)"
  by (simp add: hist_ok_def set_hist_list)

lemma set_lastn_take: "set (lastn n (take k ls)) \<subseteq> set ls"
  unfolding lastn_def by (meson set_drop_subset set_take_subset subset_trans)

lemma reflow_to_ok:
  assumes "relay_ok t" "2 \<le> cols" "1 \<le> rows"
  shows "\<exists>t'. reflow_to cols rows t = Some t' \<and> relaid cols rows t t'"
proof -
  obtain ls where ls: "logical_lines t = Some ls" "\<forall>l \<in> set ls. row_ok (lg_cells l)"
    "concat (map lg_cells ls) = raw_cells t"
    using logical_lines_ok[OF assms(1)] by (auto simp: raw_cells_def)
  let ?o0 = "\<lparr>o_lines = [], o_crow = -1, o_ccol = 0\<rparr>"
  obtain out where out: "lay_out cols ls ?o0 = Some out" "\<forall>l \<in> set (o_lines out). line_ok cols l"
    "concat (map line_text (o_lines out)) = ink (raw_cells t)"
    using lay_out_ok[OF assms(2) ls(2), of ?o0] ls(3) by auto
  let ?n = "int (length (o_lines out))"
  let ?crow = "if o_crow out < 0 then ?n else o_crow out"
  let ?ccol = "if o_crow out < 0 then 0 else o_ccol out"
  let ?s = "screen_start ?n rows ?crow"
  note sb = screen_start_bounds[of ?n rows ?crow]
  let ?scr = "map (\<lambda>r. if ?s + int r < ?n then fit_line cols (o_lines out ! nat (?s + int r)) else blank_line cols) [0..<nat rows]"
  let ?rep = "replicate (nat rows - (length (o_lines out) - nat ?s)) (blank_line cols)"
  have scr: "?scr = drop (nat ?s) (o_lines out) @ ?rep" using screen_rows[OF sb(1) sb(2) out(2)] by simp
  have inv: "hist_inv (t_hist t)" using assms(1) by (simp add: relay_ok_def hist_ok_def)
  obtain h where h: "for_range 0 (min ?s ?n)
       (\<lambda>i h. do { l \<leftarrow> idx (o_lines out) i; hist_push (fit_row (hl_cells l) cols) (hl_wrapped l) (min (hl_used l) cols) h })
       (hist_reset (t_hist t)) = Some h" "hist_inv h" "hr_limit h = hr_limit (t_hist t)"
     "hist_list h = lastn (nat (hr_limit (t_hist t))) (take (nat (min ?s ?n)) (o_lines out))"
    using push_lines_ok[of "hist_reset (t_hist t)" "min ?s ?n" "o_lines out" cols] ring.reset_lines[OF inv] out(2) sb(1)
    by auto
  let ?t' = "t\<lparr>t_cols := cols, t_rows := rows, t_tabs := default_tabs cols,
             t_cells := map hl_cells ?scr, t_wrapped := map hl_wrapped ?scr,
             t_used := map hl_used ?scr, t_hist := h,
             t_cur := (t_cur t)\<lparr>c_row := clamp (?crow - ?s) 0 (rows - 1), c_col := clamp ?ccol 0 (cols - 1)\<rparr>,
             t_pend := False, t_top := 0, t_bottom := rows - 1\<rparr>"
  have eq: "reflow_to cols rows t = Some ?t'"
    unfolding reflow_to_def ls(1) Option.bind.bind_lunit out(1) Let_def h(1) ..
  have good: "\<forall>l \<in> set ?scr. line_ok cols l"
    using out(2) line_ok_blank[OF assms(2)] unfolding scr by (auto dest: in_set_dropD)
  have grid: "grid_ok cols rows (map hl_cells ?scr) (map hl_wrapped ?scr) (map hl_used ?scr)"
    by (rule grid_ok_lines[OF good]) (use assms(3) in simp)
  have hok: "hist_ok h"
    using h(2) set_lastn_take[of "nat (hr_limit (t_hist t))" "nat (min ?s ?n)" "o_lines out"] out(2)
    by (auto simp: hist_ok_lines h(4) line_ok_def)
  have "take (nat (min ?s ?n)) (o_lines out) = take (nat ?s) (o_lines out)"
    by (cases "?s \<le> ?n") simp_all
  then have hl: "hist_list h = lastn (nat (hr_limit (t_hist t))) (take (nat ?s) (o_lines out))" using h(4) by simp
  have sl: "screen_lines ?t' = drop (nat ?s) (o_lines out) @ ?rep"
    by (rule trans[OF _ scr], rule screen_lines_map) simp_all
  have cur: "on_screen cols rows ((t_cur t)\<lparr>c_row := clamp (?crow - ?s) 0 (rows - 1), c_col := clamp ?ccol 0 (cols - 1)\<rparr>)"
    using clamp_bounds[of 0 "rows - 1" "?crow - ?s"] clamp_bounds[of 0 "cols - 1" ?ccol] assms(2,3)
    by (simp add: on_screen_def)
  have tabs: "int (length (default_tabs cols)) = cols" using assms(2) by (simp add: default_tabs_def)
  have "\<exists>ls k. concat (map line_text ls) = ink (raw_cells t) \<and>
        hist_list h = lastn (nat (hr_limit (t_hist t))) (take k ls) \<and>
        (\<exists>n. screen_lines ?t' = drop k ls @ replicate n (blank_line cols))"
    using out(3) hl sl by blast
  then have "relaid cols rows t ?t'"
    unfolding relaid_def using grid cur hok h(3) tabs by (simp add: small_def)
  then show ?thesis using eq by blast
qed

lemma relaid_wf:
  assumes "relaid cols rows t t'" "alt_ok t" "\<not> t_on_alt t" "2 \<le> cols" "cols \<le> max_dim" "1 \<le> rows" "rows \<le> max_dim"
    "0 \<le> c_row (t_alt_saved t)" "0 \<le> c_col (t_alt_saved t)"
  shows "wf t'"
proof -
  have "t_alt t = None" "\<not> t_alt_pending t" using assms(2,3) by (auto simp: alt_ok_def split: option.splits)
  then have "alt_ok t'" using assms(1,3) by (simp add: relaid_def alt_ok_def)
  then show ?thesis using assms by (simp add: relaid_def wf_def)
qed

lemma wf_relay: "wf t \<Longrightarrow> relay_ok t"
  unfolding relay_ok_def using wf_grid wf_hist wf_cur by blast

lemma resize_cells_ok:
  assumes "\<forall>r \<in> set cells. row_ok r" "0 \<le> cols"
  shows "\<forall>r \<in> set (resize_cells cells cols rows). int (length r) = cols \<and> row_ok r"
proof
  fix r assume "r \<in> set (resize_cells cells cols rows)"
  then obtain i where i: "i < nat rows" "r = (if i < length cells
      then go_copy (blank_row cols) (take (nat (min cols (int (length (cells ! i))))) (cells ! i)) else blank_row cols)"
    by (auto simp: resize_cells_def)
  show "int (length r) = cols \<and> row_ok r"
  proof (cases "i < length cells")
    case True
    let ?src = "take (nat (min cols (int (length (cells ! i))))) (cells ! i)"
    have "row_ok (cells ! i)" using True assms(1) by simp
    moreover have "set (go_copy (blank_row cols) ?src) \<subseteq> insert blank_cell (set (cells ! i))"
      using set_go_copy[of "blank_row cols" ?src] set_blank_row[of cols] set_take_subset by fast
    ultimately have "row_ok (go_copy (blank_row cols) ?src)" using row_ok_subset by simp
    then show ?thesis using True i(2) assms(2) by simp
  qed (use i(2) assms(2) in simp)
qed

lemma resize_flags_ok:
  assumes "0 \<le> rows" "\<forall>u \<in> set us. 0 \<le> u" "resize_flags ws us rows = (ws', us')"
  shows "int (length ws') = rows" "int (length us') = rows" "\<forall>u \<in> set us'. 0 \<le> u"
proof -
  have e: "us' = go_copy (replicate (nat rows) 0) (take (nat (min rows (int (length us)))) us)"
    "ws' = go_copy (replicate (nat rows) False) (take (nat (min rows (int (length ws)))) ws)"
    using assms(3) by (simp_all add: resize_flags_def)
  show "int (length ws') = rows" "int (length us') = rows" using assms(1) by (simp_all add: e)
  have "set us' \<subseteq> {0} \<union> set us"
    unfolding e using set_go_copy set_take_subset set_replicate_conv_if by fastforce
  then show "\<forall>u \<in> set us'. 0 \<le> u" using assms(2) by auto
qed

lemma wfI:
  assumes "2 \<le> t_cols t" "t_cols t \<le> max_dim" "1 \<le> t_rows t" "t_rows t \<le> max_dim"
    "grid_ok (t_cols t) (t_rows t) (t_cells t) (t_wrapped t) (t_used t)"
    "on_screen (t_cols t) (t_rows t) (t_cur t)" "0 \<le> t_top t" "t_top t \<le> t_bottom t"
    "t_bottom t < t_rows t" "int (length (t_tabs t)) = t_cols t" "hist_ok (t_hist t)" "alt_ok t"
    "0 \<le> c_row (t_alt_saved t)" "0 \<le> c_col (t_alt_saved t)"
  shows "wf t"
  using assms by (simp add: wf_def)

lemma resize_ok:
  assumes "wf t" "2 \<le> cols" "cols \<le> max_dim" "1 \<le> rows" "rows \<le> max_dim"
  shows "\<exists>t'. resize cols rows t = Some t' \<and> wf t' \<and> t_cols t' = cols \<and> t_rows t' = rows \<and>
     t_on_alt t' = t_on_alt t \<and> (\<not> t_on_alt t \<longrightarrow> relaid cols rows t t')"
proof (cases "t_on_alt t")
  case False
  obtain t' where t': "reflow_to cols rows t = Some t'" "relaid cols rows t t'"
    using reflow_to_ok[OF wf_relay[OF assms(1)] assms(2,4)] by blast
  have "alt_ok t" "0 \<le> c_row (t_alt_saved t)" "0 \<le> c_col (t_alt_saved t)" using assms(1) by (simp_all add: wf_def)
  from relaid_wf[OF t'(2) this(1) False assms(2-5) this(2,3)] have "wf t'" .
  moreover have "t_cols t' = cols" "t_rows t' = rows" "t_on_alt t' = t_on_alt t" using t'(2) by (simp_all add: relaid_def)
  ultimately show ?thesis using False t' assms(2,4) by (simp add: resize_def)
next
  case True
  obtain ws us where f: "resize_flags (t_wrapped t) (t_used t) rows = (ws, us)" by force
  note g = wf_grid[OF assms(1)]
  have us0: "\<forall>u \<in> set (t_used t). 0 \<le> u" and rows0: "\<forall>r \<in> set (t_cells t). row_ok r" using g by (auto simp: grid_ok_def)
  have "0 \<le> rows" "0 \<le> cols" using assms by simp_all
  note fl = resize_flags_ok[OF \<open>0 \<le> rows\<close> us0 f] and rc = resize_cells_ok[OF rows0 \<open>0 \<le> cols\<close>, of rows]
  have "int (length (resize_cells (t_cells t) cols rows)) = rows"
    using \<open>0 \<le> rows\<close> by (simp add: resize_cells_def)
  then have grid: "grid_ok cols rows (resize_cells (t_cells t) cols rows) ws us"
    unfolding grid_ok_def using fl rc by blast
  have alt: "alt_ok t" and sv: "0 \<le> c_row (t_alt_saved t)" "0 \<le> c_col (t_alt_saved t)"
    using assms(1) by (simp_all add: wf_def)
  from alt obtain a where a: "t_alt t = Some a" "\<exists>c r. grid_ok c r a (t_alt_wrapped t) (t_alt_used t)"
    using True by (cases "t_alt t") (auto simp: alt_ok_def split: if_split_asm)
  let ?t' = "t\<lparr>t_cells := resize_cells (t_cells t) cols rows, t_wrapped := ws, t_used := us,
                 t_tabs := default_tabs cols, t_cols := cols, t_rows := rows,
                 t_top := 0, t_bottom := rows - 1,
                 t_cur := (t_cur t)\<lparr>c_row := min (c_row (t_cur t)) (rows - 1),
                                    c_col := min (c_col (t_cur t)) (cols - 1)\<rparr>,
                 t_pend := False, t_alt_pending := True\<rparr>"
  have eq: "resize cols rows t = Some ?t'" using True f assms(2,4) by (simp add: resize_def)
  have aok: "alt_ok ?t'" using a True by (simp add: alt_ok_def)
  have cur: "on_screen cols rows (t_cur ?t')"
    using wf_cur[OF assms(1)] assms(2,4) by (simp add: on_screen_def)
  have tabs: "int (length (default_tabs cols)) = cols" using assms(2) by (simp add: default_tabs_def)
  have "wf ?t'"
    by (rule wfI) (use grid cur aok tabs wf_hist[OF assms(1)] sv assms(2-5) in simp_all)
  then show ?thesis using eq True by simp
qed

lemma enter_alt_ok:
  assumes "wf t"
  shows "wf (enter_alt save t)"
proof (cases "t_on_alt t")
  case False
  have "t_alt t = None" using assms False by (auto simp: wf_def alt_ok_def split: option.splits)
  have b: "grid_ok (t_cols t) (t_rows t) (replicate (nat (t_rows t)) (blank_row (t_cols t)))
      (replicate (nat (t_rows t)) False) (replicate (nat (t_rows t)) 0)"
    using wf_dims[OF assms] by (auto simp: grid_ok_def)
  have "alt_ok (enter_alt save t)" using False wf_grid[OF assms] by (auto simp: alt_ok_def enter_alt_def Let_def)
  then show ?thesis using assms False b wf_cur[OF assms]
    by (simp add: wf_def enter_alt_def Let_def)
qed (use assms in \<open>simp add: enter_alt_def\<close>)

lemma leave_alt_ok:
  assumes "wf t"
  shows "\<exists>t'. leave_alt restore t = Some t' \<and> wf t' \<and> t_cols t' = t_cols t \<and> t_rows t' = t_rows t \<and>
     \<not> t_on_alt t' \<and> t_alt_saved t' = t_alt_saved t \<and> small t' = small t"
proof (cases "t_on_alt t")
  case True
  have alt: "alt_ok t" and sv: "0 \<le> c_row (t_alt_saved t)" "0 \<le> c_col (t_alt_saved t)"
    using assms by (simp_all add: wf_def)
  obtain a where a: "t_alt t = Some a" "\<exists>c r. grid_ok c r a (t_alt_wrapped t) (t_alt_used t)"
    "\<not> t_alt_pending t \<Longrightarrow> grid_ok (t_cols t) (t_rows t) a (t_alt_wrapped t) (t_alt_used t)"
    using alt True by (cases "t_alt t") (auto simp: alt_ok_def split: if_split_asm)
  note d = wf_dims[OF assms] and c = wf_cur[OF assms]
  let ?t1 = "t\<lparr>t_cells := a, t_wrapped := t_alt_wrapped t, t_used := t_alt_used t, t_alt := None,
     t_alt_wrapped := [], t_alt_used := [], t_on_alt := False\<rparr>"
  have "\<exists>t2. (if t_alt_pending ?t1 then reflow_to (t_cols ?t1) (t_rows ?t1) (?t1\<lparr>t_alt_pending := False\<rparr>)
               else Some ?t1) = Some t2 \<and> wf t2 \<and> t_cols t2 = t_cols t \<and> t_rows t2 = t_rows t \<and> \<not> t_on_alt t2 \<and>
               t_alt_saved t2 = t_alt_saved t \<and> small t2 = small t"
  proof (cases "t_alt_pending t")
    case True
    have "relay_ok (?t1\<lparr>t_alt_pending := False\<rparr>)" using a(2) c wf_hist[OF assms] by (simp add: relay_ok_def)
    from reflow_to_ok[OF this, of "t_cols t" "t_rows t"] d obtain t2 where
      t2: "reflow_to (t_cols t) (t_rows t) (?t1\<lparr>t_alt_pending := False\<rparr>) = Some t2"
        "relaid (t_cols t) (t_rows t) (?t1\<lparr>t_alt_pending := False\<rparr>) t2" by blast
    have "wf t2" by (rule relaid_wf[OF t2(2)]) (use d sv in \<open>simp_all add: alt_ok_def\<close>)
    then show ?thesis using t2 True by (simp add: relaid_def small_def)
  next
    case False
    have "alt_ok ?t1" using False by (simp add: alt_ok_def)
    then have "wf ?t1" using assms a(3)[OF False] by (simp add: wf_def)
    then show ?thesis using False by (simp add: small_def)
  qed
  then obtain t2 where t2: "(if t_alt_pending ?t1 then reflow_to (t_cols ?t1) (t_rows ?t1) (?t1\<lparr>t_alt_pending := False\<rparr>)
               else Some ?t1) = Some t2" "wf t2" "t_cols t2 = t_cols t" "t_rows t2 = t_rows t" "\<not> t_on_alt t2"
               "t_alt_saved t2 = t_alt_saved t" "small t2 = small t" by blast
  let ?t3 = "if restore
                  then t2\<lparr>t_cur := (t_alt_saved t2)\<lparr>c_row := min (c_row (t_alt_saved t2)) (t_rows t2 - 1),
                                                   c_col := min (c_col (t_alt_saved t2)) (t_cols t2 - 1)\<rparr>\<rparr>
                  else t2"
  have "wf ?t3" using t2(2,6) sv d t2(3,4) by (simp add: wf_cursor on_screen_def)
  moreover have "leave_alt restore t = Some (?t3\<lparr>t_pend := False\<rparr>)"
    using True t2(1) a(1) by (simp add: leave_alt_def Let_def)
  moreover have "t_cols ?t3 = t_cols t" "t_rows ?t3 = t_rows t" "\<not> t_on_alt ?t3" "t_alt_saved ?t3 = t_alt_saved t"
    "small (?t3\<lparr>t_pend := False\<rparr>) = small t"
    using t2 by (auto simp: small_def)
  ultimately show ?thesis by simp
qed (use assms in \<open>simp add: leave_alt_def\<close>)

end
