(* ===== verification/Parser.thy ===== *)
theory Parser
  imports Resize
begin

text \<open>
  The byte parser of \<open>src/internal/vt/grid/parser.go\<close>: a state machine that turns what a program
  writes into operations on the terminal. The parser is a field of \<open>Term\<close> in the source and the
  second half of an \<open>emu\<close> here; \<open>None\<close> is a panic. \<open>mark\<close> is the Unicode category table.
\<close>

section \<open>State\<close>

datatype pstate = Ground | Escape | Csi | Osc | CharsetSelect | Str

record parser =
  p_state :: pstate
  p_str_esc :: bool
  p_str_intro :: byte
  p_str_head :: bytes
  p_params :: bytes
  p_inter :: bytes
  p_utf8 :: bytes
  p_osc :: bytes
  p_slot :: int
  p_invalid :: bool

definition new_parser :: parser where
  "new_parser = \<lparr>p_state = Ground, p_str_esc = False, p_str_intro = 0, p_str_head = [], p_params = [],
     p_inter = [], p_utf8 = [], p_osc = [], p_slot = 0, p_invalid = False\<rparr>"

type_synonym emu = "vterm \<times> parser"

definition new_emu :: "int \<Rightarrow> int \<Rightarrow> emu" where
  "new_emu cols rows = (new_term cols rows, new_parser)"

section \<open>Numeric parameters\<close>

text \<open>An omitted parameter is \<open>-1\<close>; a malformed one 0; one out of range the largest \<open>int\<close>.\<close>

definition params :: "bytes \<Rightarrow> int list" where
  "params s =
     (if s = [] then []
      else map (\<lambda>f. if f = [] then -1 else fst (atoi f)) (split_on 0x3b s))"

definition arg :: "int list \<Rightarrow> nat \<Rightarrow> int \<Rightarrow> int" where
  "arg ps i def = (if i < length ps \<and> ps ! i > 0 then ps ! i else def)"

section \<open>Colours and attributes\<close>

definition indexed :: "int \<Rightarrow> color" where
  "indexed n = no_color\<lparr>col_kind := ColorIndexed, col_index := word_of_int n\<rparr>"

definition rgb :: "int \<Rightarrow> int \<Rightarrow> int \<Rightarrow> color" where
  "rgb r g b = no_color\<lparr>col_kind := ColorRGB, col_r := word_of_int r, col_g := word_of_int g, col_b := word_of_int b\<rparr>"

text \<open>The \<open>5;N\<close> and \<open>2;R;G;B\<close> forms: the colour and how many parameters it took.\<close>

definition extended_color :: "int list \<Rightarrow> color \<times> nat" where
  "extended_color rest =
     (case rest of
        [] \<Rightarrow> (no_color, 0)
      | n # xs \<Rightarrow>
         if n = 5 then (case xs of [] \<Rightarrow> (no_color, 1) | i # _ \<Rightarrow> (indexed i, 2))
         else if n = 2 then (case xs of r # g # b # _ \<Rightarrow> (rgb r g b, 4) | _ \<Rightarrow> (no_color, length rest))
         else (no_color, 1))"

definition sgr_one :: "int \<Rightarrow> style \<Rightarrow> style" where
  "sgr_one n s =
     (if n = 0 then no_style
      else if n = 1 then s\<lparr>st_bold := True\<rparr>
      else if n = 2 then s\<lparr>st_faint := True\<rparr>
      else if n = 3 then s\<lparr>st_italic := True\<rparr>
      else if n = 4 then s\<lparr>st_underline := True\<rparr>
      else if n = 5 then s\<lparr>st_blink := True\<rparr>
      else if n = 7 then s\<lparr>st_reverse := True\<rparr>
      else if n = 9 then s\<lparr>st_strike := True\<rparr>
      else if n = 22 then s\<lparr>st_bold := False, st_faint := False\<rparr>
      else if n = 23 then s\<lparr>st_italic := False\<rparr>
      else if n = 24 then s\<lparr>st_underline := False\<rparr>
      else if n = 27 then s\<lparr>st_reverse := False\<rparr>
      else if n = 25 then s\<lparr>st_blink := False\<rparr>
      else if n = 29 then s\<lparr>st_strike := False\<rparr>
      else if 30 \<le> n \<and> n \<le> 37 then s\<lparr>st_fg := indexed (n - 30)\<rparr>
      else if 40 \<le> n \<and> n \<le> 47 then s\<lparr>st_bg := indexed (n - 40)\<rparr>
      else if n = 39 then s\<lparr>st_fg := no_color\<rparr>
      else if n = 49 then s\<lparr>st_bg := no_color\<rparr>
      else if 90 \<le> n \<and> n \<le> 97 then s\<lparr>st_fg := indexed (n - 90 + 8)\<rparr>
      else if 100 \<le> n \<and> n \<le> 107 then s\<lparr>st_bg := indexed (n - 100 + 8)\<rparr>
      else s)"

fun sgr_loop :: "int list \<Rightarrow> style \<Rightarrow> style" where
  "sgr_loop [] s = s"
| "sgr_loop (n # rest) s =
     (if n = 38 \<or> n = 48
      then (let cu = extended_color rest
            in sgr_loop (drop (snd cu) rest) (if n = 38 then s\<lparr>st_fg := fst cu\<rparr> else s\<lparr>st_bg := fst cu\<rparr>))
      else sgr_loop rest (sgr_one n s))"

definition sgr :: "int list \<Rightarrow> vterm \<Rightarrow> vterm" where
  "sgr ps t = t\<lparr>t_style := sgr_loop (if ps = [] then [0] else ps) (t_style t)\<rparr>"

section \<open>Control characters\<close>

definition control :: "byte \<Rightarrow> vterm \<Rightarrow> (bool \<times> vterm) option" where
  "control c t =
     (if c = 0x0d then Some (True, (set_col 0 t)\<lparr>t_pend := False\<rparr>)
      else if c = 0x0a \<or> c = 0x0b \<or> c = 0x0c then do {
        t1 \<leftarrow> line_feed t; Some (True, t1\<lparr>t_pend := False\<rparr>) }
      else if c = 0x08 then
        Some (True, if t_pend t then t\<lparr>t_pend := False\<rparr>
                    else if c_col (t_cur t) > 0 then set_col (c_col (t_cur t) - 1) t else t)
      else if c = 0x09 then
        Some (True, if t_pend t then t else set_col (next_tab t) t)
      else if c = 0x0e then Some (True, shift_to 1 t)
      else if c = 0x0f then Some (True, shift_to 0 t)
      else if c = 0x07 then Some (True, t)
      else if c < 0x20 \<or> c = 0x7f then Some (True, t)
      else Some (False, t))"

section \<open>Control sequences\<close>

definition mode_name :: "int \<Rightarrow> byte \<Rightarrow> bytes" where
  "mode_name n final = bstr ''CSI ?'' @ itoa n @ [0x20, final]"

definition private_mode :: "byte \<Rightarrow> int \<Rightarrow> vterm \<Rightarrow> vterm option" where
  "private_mode final n t =
     (let set = (final = 0x68) in
      if n = 25 then Some (t\<lparr>t_cur := (t_cur t)\<lparr>c_visible := set\<rparr>\<rparr>)
      else if n = 47 \<or> n = 1047 then (if set then Some (enter_alt False t) else leave_alt False t)
      else if n = 1048 then
        Some (if set then t\<lparr>t_alt_saved := t_cur t\<rparr> else t\<lparr>t_cur := t_alt_saved t, t_pend := False\<rparr>)
      else if n = 7 then Some (t\<lparr>t_awm := set\<rparr>)
      else if n \<in> {1, 12} then Some (set_mode n set t)
      else if n \<in> {1000, 1002, 1003, 1004, 1005, 1006, 1015, 2004} then Some (set_mode n set t)
      else if n = 1049 then (if set then Some (enter_alt True t) else leave_alt True t)
      else Some (note_unknown (mode_name n final) t))"

fun each :: "('a \<Rightarrow> 's \<Rightarrow> 's option) \<Rightarrow> 'a list \<Rightarrow> 's \<Rightarrow> 's option" where
  "each f [] s = Some s"
| "each f (x # xs) s = Option.bind (f x s) (each f xs)"

definition ansi_mode :: "byte \<Rightarrow> int \<Rightarrow> vterm \<Rightarrow> vterm" where
  "ansi_mode final n t =
     (if n = 4 then t\<lparr>t_irm := (final = 0x68)\<rparr>
      else note_unknown (bstr ''CSI '' @ itoa n @ [0x20, final]) t)"

definition erase_params :: "int list \<Rightarrow> vterm \<Rightarrow> vterm option" where
  "erase_params ps t = erase_display (arg ps 0 0) t"

definition region_params :: "int list \<Rightarrow> vterm \<Rightarrow> vterm" where
  "region_params ps t =
     (if (length ps > 0 \<and> ps ! 0 = 0) \<or> (length ps > 1 \<and> ps ! 1 = 0) then t
      else set_region (arg ps 0 1 - 1) (arg ps 1 (t_rows t) - 1) t)"

definition window_op :: "int \<Rightarrow> vterm \<Rightarrow> vterm" where
  "window_op n t =
     (if n = 22 then push_title t
      else if n = 23 then pop_title t
      else note_unknown (bstr ''CSI '' @ itoa n @ bstr '' t'') t)"

definition status_report :: "int \<Rightarrow> vterm \<Rightarrow> vterm" where
  "status_report n t =
     (if n = 5 then reply (0x1b # bstr ''[0n'') t
      else if n = 6 then reply (0x1b # bstr ''['' @ itoa (c_row (t_cur t) + 1) @ bstr '';''
             @ itoa (min (c_col (t_cur t)) (t_cols t - 1) + 1) @ bstr ''R'') t
      else t)"

definition device_attributes :: "bytes \<Rightarrow> vterm \<Rightarrow> vterm" where
  "device_attributes raw t =
     (if raw \<noteq> [] \<and> hd raw = 0x3e then reply (0x1b # bstr ''[>0;1;0c'') t
      else reply (0x1b # bstr ''[?1;2;4c'') t)"

definition cursor_shape :: "bytes \<Rightarrow> int \<Rightarrow> vterm \<Rightarrow> vterm" where
  "cursor_shape ib n t = (if ib = [0x20] then t\<lparr>t_cur := (t_cur t)\<lparr>c_shape := n\<rparr>\<rparr> else t)"

text \<open>The cursor movements: CUU, CUD, CUF, CUB, CNL, CPL, CHA, HPA, VPA, CUP, HVP.\<close>

definition move_op :: "byte \<Rightarrow> int list \<Rightarrow> vterm \<Rightarrow> vterm" where
  "move_op final ps t =
     (if final = 0x41 then move_vertically (- arg ps 0 1) t
      else if final = 0x42 then move_vertically (arg ps 0 1) t
      else if final = 0x43 then move_to (c_row (t_cur t)) (wrap64 (c_col (t_cur t) + arg ps 0 1)) t
      else if final = 0x44 then move_to (c_row (t_cur t)) (c_col (t_cur t) - arg ps 0 1) t
      else if final = 0x45 then set_col 0 (move_vertically (arg ps 0 1) t)
      else if final = 0x46 then set_col 0 (move_vertically (- arg ps 0 1) t)
      else if final = 0x47 \<or> final = 0x60 then move_to (c_row (t_cur t)) (arg ps 0 1 - 1) t
      else if final = 0x64 then move_to (arg ps 0 1 - 1) (c_col (t_cur t)) t
      else move_to (arg ps 0 1 - 1) (arg ps 1 1 - 1) t)"

definition is_move :: "byte \<Rightarrow> bool" where
  "is_move final \<longleftrightarrow> (0x41 \<le> final \<and> final \<le> 0x48) \<or> final = 0x60 \<or> final = 0x64 \<or> final = 0x66"

definition dispatch_public :: "byte \<Rightarrow> bytes \<Rightarrow> bytes \<Rightarrow> vterm \<Rightarrow> vterm option" where
  "dispatch_public final raw ib t =
     (let ps = params raw in
      if is_move final then Some (move_op final ps t)
      else if final = 0x4a then erase_params ps t
      else if final = 0x4b then erase_line (arg ps 0 0) t
      else if final = 0x4c then insert_lines (arg ps 0 1) t
      else if final = 0x4d then delete_lines (arg ps 0 1) t
      else if final = 0x50 then delete_chars (arg ps 0 1) t
      else if final = 0x40 then insert_chars (arg ps 0 1) t
      else if final = 0x58 then erase_chars (arg ps 0 1) t
      else if final = 0x53 then scroll_up (arg ps 0 1) t
      else if final = 0x54 then scroll_down (arg ps 0 1) t
      else if final = 0x72 then Some (region_params ps t)
      else if final = 0x68 \<or> final = 0x6c then Some (fold (ansi_mode final) ps t)
      else if final = 0x74 then Some (window_op (arg ps 0 0) t)
      else if final = 0x73 then Some (save_cursor t)
      else if final = 0x75 then Some (restore_cursor t)
      else if final = 0x6d then Some (sgr ps t)
      else if final = 0x6e then Some (status_report (arg ps 0 0) t)
      else if final = 0x63 then Some (device_attributes raw t)
      else if final = 0x67 then clear_tabs (arg ps 0 0 = 3) t
      else if final = 0x71 then Some (cursor_shape ib (arg ps 0 0) t)
      else Some (note_unknown (bstr ''CSI '' @ ib @ [final]) t))"

definition dispatch :: "byte \<Rightarrow> bytes \<Rightarrow> bytes \<Rightarrow> vterm \<Rightarrow> vterm option" where
  "dispatch final raw ib t =
     (if raw \<noteq> [] \<and> hd raw = 0x3f
      then (if final = 0x68 \<or> final = 0x6c then each (private_mode final) (params (tl raw)) t else Some t)
      else dispatch_public final raw ib t)"

section \<open>Strings\<close>

definition osc_cap :: nat where "osc_cap = 1024"
definition str_head_max :: nat where "str_head_max = 16"

definition finish_osc :: "emu \<Rightarrow> emu" where
  "finish_osc = (\<lambda>(t, p).
     (case cut_at 0x3b (p_osc p) of
        None \<Rightarrow> t
      | Some (num, a) \<Rightarrow>
         if num = bstr ''10'' \<or> num = bstr ''11'' then
           (if a \<noteq> bstr ''?'' then note_unknown (bstr ''OSC '' @ num) t
            else if length (t_colour_asks t) < colour_ask_limit
              then t\<lparr>t_colour_asks := t_colour_asks t @ [fst (atoi num)]\<rparr> else t)
         else if num = bstr ''8'' then
           (case cut_at 0x3b a of
              None \<Rightarrow> t\<lparr>t_style := (t_style t)\<lparr>st_link := []\<rparr>\<rparr>
            | Some (_, uri) \<Rightarrow> t\<lparr>t_style := (t_style t)\<lparr>st_link := uri\<rparr>\<rparr>)
         else if num = bstr ''7'' then
           (if list_ex (\<lambda>b. b < 0x20 \<or> b = 0x7f) a
            then note_unknown (bstr ''OSC 7 with a control byte in it'') t
            else t\<lparr>t_dir := a\<rparr>)
         else if num = bstr ''0'' \<or> num = bstr ''2'' then t\<lparr>t_title := a\<rparr>
         else note_unknown (bstr ''OSC '' @ num) t,
      p\<lparr>p_state := Ground, p_osc := []\<rparr>))"

definition osc :: "byte \<Rightarrow> emu \<Rightarrow> emu" where
  "osc c = (\<lambda>(t, p).
     if c = 0x07 \<or> c = 0x1b then finish_osc (t, p)
     else if length (p_osc p) < osc_cap then (t, p\<lparr>p_osc := p_osc p @ [c]\<rparr>)
     else (t, p))"

definition finish_str :: "byte \<Rightarrow> bytes \<Rightarrow> vterm \<Rightarrow> vterm" where
  "finish_str intro head t =
     (if intro = 0x5f then
        (if head \<noteq> [] \<and> hd head = 0x47 then note_unknown (bstr ''APC G image'') t else t)
      else if intro \<noteq> 0x50 \<or> head = [] then t
      else if length head \<ge> 2 \<and> head ! 1 = 0x71 \<and> head ! 0 = 0x24
        then reply (0x1b # bstr ''P0$r'' @ [0x1b, 0x5c]) t
      else if length head \<ge> 2 \<and> head ! 1 = 0x71 \<and> head ! 0 = 0x2b
        then note_unknown (bstr ''DCS +q request'') t
      else (case dropWhile (\<lambda>b. is_digit b \<or> b = 0x3b) head of
              [] \<Rightarrow> t
            | b # _ \<Rightarrow> if b = 0x71 then note_unknown (bstr ''DCS sixel image'') t else t))"

definition str :: "byte \<Rightarrow> emu \<Rightarrow> emu" where
  "str c = (\<lambda>(t, p).
     if p_str_esc p then
       (if c = 0x5c
        then (finish_str (p_str_intro p) (p_str_head p) t, p\<lparr>p_str_esc := False, p_state := Ground\<rparr>)
        else (t, p\<lparr>p_str_esc := False\<rparr>))
     else if c = 0x1b then (t, p\<lparr>p_str_esc := True\<rparr>)
     else if length (p_str_head p) < str_head_max then (t, p\<lparr>p_str_head := p_str_head p @ [c]\<rparr>)
     else (t, p))"

section \<open>Escape sequences\<close>

definition to_ground :: "parser \<Rightarrow> parser" where
  "to_ground p = p\<lparr>p_state := Ground\<rparr>"

definition escape :: "byte \<Rightarrow> emu \<Rightarrow> emu option" where
  "escape c = (\<lambda>(t, p).
     if c = 0x1b then Some (t, p\<lparr>p_params := [], p_inter := []\<rparr>)
     else if c < 0x20 then do { (b, t1) \<leftarrow> control c t; Some (t1, p) }
     else if c = 0x5b then Some (t, p\<lparr>p_state := Csi, p_params := [], p_inter := []\<rparr>)
     else if c = 0x5d then Some (t, p\<lparr>p_state := Osc\<rparr>)
     else if c \<in> {0x50, 0x58, 0x5e, 0x5f}
       then Some (t, p\<lparr>p_state := Str, p_str_esc := False, p_str_intro := c, p_str_head := []\<rparr>)
     else if c = 0x37 then Some (save_cursor t, to_ground p)
     else if c = 0x38 then Some (restore_cursor t, to_ground p)
     else if c = 0x4d then do { t1 \<leftarrow> reverse_index t; Some (t1, to_ground p) }
     else if c = 0x44 then do { t1 \<leftarrow> line_feed t; Some (t1, to_ground p) }
     else if c = 0x45 then do { t1 \<leftarrow> line_feed (set_col 0 t); Some (t1, to_ground p) }
     else if c = 0x48 then do { t1 \<leftarrow> set_tab t; Some (t1, to_ground p) }
     else if c = 0x3d \<or> c = 0x3e then Some (t\<lparr>t_keypad := (c = 0x3d)\<rparr>, to_ground p)
     else if c = 0x63 then Some (new_term (t_cols t) (t_rows t), to_ground new_parser)
     else if c = 0x28 \<or> c = 0x29
       then Some (t, p\<lparr>p_slot := (if c = 0x29 then 1 else 0), p_state := CharsetSelect\<rparr>)
     else if 0x20 \<le> c \<and> c \<le> 0x2f then Some (t, p)
     else Some (note_unknown (bstr ''ESC '' @ encode_rune (uint c)) t, to_ground p))"

definition csi :: "byte \<Rightarrow> emu \<Rightarrow> emu option" where
  "csi c = (\<lambda>(t, p).
     if 0x30 \<le> c \<and> c \<le> 0x3f then Some (t, p\<lparr>p_params := p_params p @ [c]\<rparr>)
     else if 0x20 \<le> c \<and> c \<le> 0x2f then Some (t, p\<lparr>p_inter := p_inter p @ [c]\<rparr>)
     else if c = 0x1b then Some (t, p\<lparr>p_state := Escape, p_params := [], p_inter := []\<rparr>)
     else if c < 0x20 then do { (b, t1) \<leftarrow> control c t; Some (t1, p) }
     else if c < 0x40 \<or> c > 0x7e then Some (t, to_ground p)
     else do { t1 \<leftarrow> dispatch c (p_params p) (p_inter p) t; Some (t1, to_ground p) })"

section \<open>Text\<close>

text \<open>Whether these bytes might still become a character.\<close>

definition could_complete :: "bytes \<Rightarrow> bool" where
  "could_complete b =
     (case b of [] \<Rightarrow> True
      | c # _ \<Rightarrow>
         if c < 0x80 then length b < 1
         else if 0xc2 \<le> c \<and> c \<le> 0xdf then length b < 2
         else if 0xe0 \<le> c \<and> c \<le> 0xef then length b < 3
         else if 0xf0 \<le> c \<and> c \<le> 0xf4 then length b < 4
         else False)"

definition draw_pending :: "emu \<Rightarrow> emu option" where
  "draw_pending = (\<lambda>(t, p).
     if p_invalid p then do { t1 \<leftarrow> put rune_error 1 t; Some (t1, p\<lparr>p_invalid := False\<rparr>) }
     else Some (t, p))"

text \<open>The look-ahead of \<open>ground\<close>: continuation bytes taken from the same write.\<close>

fun look_ahead :: "nat \<Rightarrow> bytes \<Rightarrow> bytes \<Rightarrow> nat \<times> bytes" where
  "look_ahead extra u [] = (extra, u)"
| "look_ahead extra u (n # ns) =
     (if \<not> full_rune u \<and> extra < 3
      then (if n < 0x80 \<or> n > 0xbf then (extra, u) else look_ahead (extra + 1) (u @ [n]) ns)
      else (extra, u))"

text \<open>What happens to the bytes collected so far.\<close>

definition settle :: "(int \<Rightarrow> bool) \<Rightarrow> bytes \<Rightarrow> emu \<Rightarrow> emu option" where
  "settle mark u = (\<lambda>(t, p).
     if \<not> full_rune u then
       (if length u \<ge> 4 \<or> \<not> could_complete u then Some (t, p\<lparr>p_utf8 := [], p_invalid := True\<rparr>)
        else Some (t, p\<lparr>p_utf8 := u\<rparr>))
     else (case decode_rune u of (r, sz) \<Rightarrow>
       if r = rune_error \<and> sz \<le> 1
       then do { t1 \<leftarrow> put rune_error 1 t; Some (t1, p\<lparr>p_utf8 := []\<rparr>) }
       else do { t1 \<leftarrow> put r (rune_width mark r) t; Some (t1, p\<lparr>p_utf8 := []\<rparr>) }))"

text \<open>A byte that cannot continue a half-decoded character ends it.\<close>

definition cut_short :: "byte \<Rightarrow> parser \<Rightarrow> parser" where
  "cut_short c p =
     (if p_utf8 p \<noteq> [] \<and> (c < 0x80 \<or> c > 0xbf) then p\<lparr>p_utf8 := [], p_invalid := True\<rparr> else p)"

definition ground :: "(int \<Rightarrow> bool) \<Rightarrow> byte \<Rightarrow> bytes \<Rightarrow> emu \<Rightarrow> (nat \<times> emu) option" where
  "ground mark c rest = (\<lambda>(t, p). do {
     (t1, p1) \<leftarrow> (if c \<noteq> 0x1b then draw_pending (t, cut_short c p) else Some (t, cut_short c p));
     if c = 0x1b then Some (0, t1, p1\<lparr>p_state := Escape, p_params := [], p_inter := []\<rparr>)
     else do {
       (done_c, t2) \<leftarrow> control c t1;
       if done_c then Some (0, t2, p1)
       else if c < 0x80 then
         (case map_rune c t2 of
            Some glyph \<Rightarrow> do { t3 \<leftarrow> put_string glyph (string_width mark glyph) t2; Some (0, t3, p1) }
          | None \<Rightarrow> do { t3 \<leftarrow> put (uint c) (rune_width mark (uint c)) t2; Some (0, t3, p1) })
       else (case look_ahead 0 (p_utf8 p1 @ [c]) rest of (extra, u) \<Rightarrow> do {
         e \<leftarrow> settle mark u (t2, p1);
         Some (extra, e) }) } })"

definition step :: "(int \<Rightarrow> bool) \<Rightarrow> byte \<Rightarrow> bytes \<Rightarrow> emu \<Rightarrow> (nat \<times> emu) option" where
  "step mark c rest = (\<lambda>(t, p).
     (case p_state p of
        Ground \<Rightarrow> ground mark c rest (t, p)
      | Escape \<Rightarrow> map_option (Pair 0) (escape c (t, p))
      | Csi \<Rightarrow> map_option (Pair 0) (csi c (t, p))
      | Osc \<Rightarrow> Some (0, osc c (t, p))
      | CharsetSelect \<Rightarrow> Some (0, select_charset (p_slot p) c t, to_ground p)
      | Str \<Rightarrow> Some (0, str c (t, p))))"

text \<open>\<open>Write\<close>: the whole of a write through the machine.\<close>

function feed :: "(int \<Rightarrow> bool) \<Rightarrow> bytes \<Rightarrow> emu \<Rightarrow> emu option" where
  "feed mark [] e = Some e"
| "feed mark (c # rest) e = do {
     (extra, e1) \<leftarrow> step mark c rest e;
     feed mark (drop extra rest) e1 }"
  by pat_completeness auto
termination
  by (relation "measure (\<lambda>(mark, b, e). length b)") simp_all

declare feed.simps [simp del]

lemma feed_Nil [simp]: "feed mark [] e = Some e"
  by (simp add: feed.simps)

section \<open>Scrolling back\<close>

definition scrolled_offset :: "int \<Rightarrow> vterm \<Rightarrow> int" where
  "scrolled_offset off t =
     (let o1 = (if off < 0 then 0 else off) in if o1 > hist_len (t_hist t) then hist_len (t_hist t) else o1)"

definition view_cursor :: "int \<Rightarrow> vterm \<Rightarrow> cursor" where
  "view_cursor off t = (if off = 0 then cursor_of t else zero_cursor)"

text \<open>A remembered row fitted to today's width, \<open>Snapshot\<close> of the view.\<close>

definition view_row :: "int \<Rightarrow> cell list \<Rightarrow> cell list" where
  "view_row cols cells =
     take (nat (min cols (int (length cells)))) cells @ replicate (nat cols - length cells) (space_cell no_style)"

definition view_snapshot :: "int \<Rightarrow> vterm \<Rightarrow> cell list list option" where
  "view_snapshot off t =
     (if off = 0 then Some (snapshot t)
      else do {
        let start = hist_len (t_hist t) - off;
        old \<leftarrow> for_range start (min (hist_len (t_hist t)) (start + t_rows t))
          (\<lambda>i acc. do { l \<leftarrow> hist_at (t_hist t) i; Some (acc @ [view_row (t_cols t) (hl_cells l)]) }) [];
        Some (old @ map (\<lambda>r. go_copy (replicate (nat (t_cols t)) zero_cell) r)
                (take (nat (t_rows t) - length old) (t_cells t))) })"

end
