(* ===== verification/Stream.thy ===== *)
theory Stream
  imports Parser
begin

text \<open>
  What holds of every byte stream: how a write is split does not matter, no stream whose numbers fit
  an \<open>int\<close> panics or breaks the emulator's invariant, and nothing a program draws on the alternate
  screen reaches the primary one.
\<close>

section \<open>Where a write is split does not matter\<close>

lemma each_append: "each f (xs @ ys) s = Option.bind (each f xs s) (each f ys)"
proof (induction xs arbitrary: s)
  case (Cons x xs)
  then show ?case by (cases "f x s") simp_all
qed simp

lemma map_snd_bind [simp]: "map_option snd (Option.bind m (\<lambda>e. Some (k, e))) = m"
  by (cases m) simp_all

definition step1 :: "(int \<Rightarrow> bool) \<Rightarrow> byte \<Rightarrow> emu \<Rightarrow> emu option" where
  "step1 mark c e = map_option snd (step mark c [] e)"

text \<open>Bytes one at a time.\<close>

definition feed1 :: "(int \<Rightarrow> bool) \<Rightarrow> bytes \<Rightarrow> emu \<Rightarrow> emu option" where
  "feed1 mark = each (step1 mark)"

lemma feed1_simps [simp]:
  "feed1 mark [] e = Some e" "feed1 mark (c # cs) e = Option.bind (step1 mark c e) (feed1 mark cs)"
  by (simp_all add: feed1_def)

lemma feed1_append: "feed1 mark (xs @ ys) e = Option.bind (feed1 mark xs e) (feed1 mark ys)"
  by (simp add: feed1_def each_append)

text \<open>Bytes that are not yet a whole encoding can always still become one.\<close>

lemma incomplete_could_complete: "u \<noteq> [] \<Longrightarrow> \<not> full_rune u \<Longrightarrow> could_complete u \<and> length u < 4"
proof (cases u)
  case (Cons c cs)
  assume nf: "\<not> full_rune u"
  have l: "length u < 4" using full_rune_long nf by (meson not_less)
  obtain sz lo hi where i: "lead_info c = (sz, lo, hi)" by (cases "lead_info c")
  then have s: "length u < sz" using nf Cons by (auto simp: full_rune_def)
  have "sz = 1 \<or> (sz = 2 \<and> 0xc2 \<le> c \<and> c \<le> 0xdf) \<or> (sz = 3 \<and> 0xe0 \<le> c \<and> c \<le> 0xef) \<or> (sz = 4 \<and> 0xf0 \<le> c \<and> c \<le> 0xf4)"
    using i by (auto simp: lead_info_def word_le_nat_alt word_less_nat_alt split: if_split_asm)
  then show ?thesis using l s Cons
    by (auto simp: could_complete_def word_le_nat_alt word_less_nat_alt)
qed simp

lemma look_ahead_take:
  "look_ahead ex u ns = (k, v) \<Longrightarrow> ex \<le> k \<and> k - ex \<le> length ns \<and> v = u @ take (k - ex) ns"
proof (induction ex u ns rule: look_ahead.induct)
  case (2 ex u n ns)
  then show ?case
    by (cases "\<not> full_rune u \<and> ex < 3 \<and> \<not> (n < 0x80 \<or> n > 0xbf)")
      (fastforce simp: Suc_diff_Suc take_Cons' split: if_split_asm)+
qed simp

lemma settle_utf8: "settle mark u (t, p\<lparr>p_utf8 := v\<rparr>) = settle mark u (t, p)"
  by (simp add: settle_def split: prod.split)

lemma control_text: "0x80 \<le> c \<Longrightarrow> control c t = Some (False, t)"
  by (auto simp: control_def word_le_nat_alt word_less_nat_alt)

lemma continuation_step:
  assumes "p_state p = Ground" "\<not> p_invalid p" "0x80 \<le> n" "n \<le> 0xbf"
  shows "step1 mark n (t, p\<lparr>p_utf8 := u\<rparr>) = settle mark (u @ [n]) (t, p)"
proof -
  have n: "n \<noteq> 0x1b" "\<not> n < 0x80" "\<not> n > 0xbf" using assms(3,4) by (auto simp: word_le_nat_alt word_less_nat_alt)
  then have "cut_short n (p\<lparr>p_utf8 := u\<rparr>) = p\<lparr>p_utf8 := u\<rparr>" by (simp add: cut_short_def)
  then show ?thesis using n assms
    by (simp add: step1_def step_def ground_def draw_pending_def control_text settle_utf8
)
qed

lemma settle_look_ahead:
  "look_ahead ex u ns = (k, v) \<Longrightarrow> u \<noteq> [] \<Longrightarrow> p_state p = Ground \<Longrightarrow> \<not> p_invalid p \<Longrightarrow>
     settle mark v (t, p) = Option.bind (settle mark u (t, p)) (feed1 mark (take (k - ex) ns))"
proof (induction ex u ns rule: look_ahead.induct)
  case (1 ex u)
  then show ?case by simp
next
  case (2 ex u n ns)
  show ?case
  proof (cases "\<not> full_rune u \<and> ex < 3 \<and> \<not> (n < 0x80 \<or> n > 0xbf)")
    case True
    then have la: "look_ahead (ex + 1) (u @ [n]) ns = (k, v)" using 2 by simp
    have k: "ex + 1 \<le> k" using look_ahead_take[OF la] by simp
    have ih: "settle mark v (t, p) = Option.bind (settle mark (u @ [n]) (t, p)) (feed1 mark (take (k - (ex + 1)) ns))"
      using 2 True la by simp
    have "could_complete u" "length u < 4" using incomplete_could_complete True 2(3) by auto
    then have su: "settle mark u (t, p) = Some (t, p\<lparr>p_utf8 := u\<rparr>)" using True by (simp add: settle_def)
    have "take (k - ex) (n # ns) = n # take (k - (ex + 1)) ns" using k by (simp add: take_Cons')
    then show ?thesis using su ih continuation_step[of p n mark t u] True 2(4,5)
      by (simp add: linorder_not_less)
  next
    case False
    then have "k = ex" "v = u" using 2(2) by (auto split: if_split_asm)
    then show ?thesis by simp
  qed
qed

text \<open>A step that looks ahead does what its bytes do one at a time.\<close>

lemma ground_bytes:
  assumes "p_state p = Ground"
  shows "Option.bind (ground mark c rest (t, p)) (\<lambda>(k, e). feed1 mark (drop k rest) e) =
     Option.bind (step1 mark c (t, p)) (feed1 mark rest)"
proof -
  let ?pre = "if c \<noteq> 0x1b then draw_pending (t, cut_short c p) else Some (t, cut_short c p)"
  have s1: "step1 mark c (t, p) = map_option snd (ground mark c [] (t, p))"
    using assms by (simp add: step1_def step_def)
  show ?thesis
  proof (cases ?pre)
    case None
    then show ?thesis by (simp add: s1 ground_def)
  next
    case (Some e1)
    obtain t1 p1 where e1: "e1 = (t1, p1)" by (cases e1)
    have pre: "?pre = Some (t1, p1)" using Some e1 by simp
    show ?thesis
    proof (cases "c = 0x1b")
      case True
      then show ?thesis using pre unfolding s1 by (simp add: ground_def)
    next
      case esc: False
      have p1: "p_state p1 = Ground" "\<not> p_invalid p1"
        using pre esc assms by (auto simp: draw_pending_def cut_short_def bind_eq_Some_conv split: if_split_asm)
      show ?thesis
      proof (cases "control c t1")
        case None
        then show ?thesis using pre esc by (simp add: s1 ground_def)
      next
        case (Some dt)
        obtain d t2 where dt: "control c t1 = Some (d, t2)" using Some by (cases dt) auto
        show ?thesis
        proof (cases "d \<or> c < 0x80")
          case True
          then show ?thesis using pre esc dt
            by (cases "map_rune c t2") (auto simp: s1 ground_def option.map_comp Option.bind_map_option
                Option.map_conv_bind_option comp_def Option.bind_assoc split: option.splits)
        next
          case False
          obtain k v where la: "look_ahead 0 (p_utf8 p1 @ [c]) rest = (k, v)" by force
          have sv: "settle mark v (t2, p1) = Option.bind (settle mark (p_utf8 p1 @ [c]) (t2, p1)) (feed1 mark (take k rest))"
            using settle_look_ahead[OF la _ p1] by simp
          have "ground mark c rest (t, p) = map_option (Pair k) (settle mark v (t2, p1))"
            using pre esc dt False la by (simp add: ground_def Option.map_conv_bind_option comp_def)
          moreover have "step1 mark c (t, p) = settle mark (p_utf8 p1 @ [c]) (t2, p1)"
            using pre esc dt False by (simp add: s1 ground_def Option.map_conv_bind_option comp_def)
          moreover have "feed1 mark rest = (\<lambda>e. Option.bind (feed1 mark (take k rest) e) (feed1 mark (drop k rest)))"
            by (rule ext) (use feed1_append[of mark "take k rest" "drop k rest"] in simp)
          ultimately show ?thesis using sv
            by (simp add: Option.bind_map_option comp_def Option.bind_assoc)
        qed
      qed
    qed
  qed
qed

lemma feed_bytes: "feed mark b e = feed1 mark b e"
proof (induction "length b" arbitrary: b e rule: less_induct)
  case less
  show ?case
  proof (cases b)
    case (Cons c rest)
    obtain t p where e: "e = (t, p)" by (cases e)
    have ih: "feed mark (drop k rest) e1 = feed1 mark (drop k rest) e1" for k e1
      using less[of "drop k rest" e1] Cons by simp
    have "Option.bind (step mark c rest e) (\<lambda>(k, e1). feed1 mark (drop k rest) e1) =
        Option.bind (step1 mark c e) (feed1 mark rest)"
    proof (cases "p_state p = Ground")
      case True
      then show ?thesis using ground_bytes[OF True] by (simp add: e step_def)
    next
      case False
      then show ?thesis
        by (cases "p_state p") (simp_all add: e step1_def step_def Option.bind_map_option comp_def option.map_comp)
    qed
    moreover have "(\<lambda>(k, e1). feed mark (drop k rest) e1) = (\<lambda>(k, e1). feed1 mark (drop k rest) e1)"
      by (simp add: fun_eq_iff ih)
    ultimately show ?thesis by (simp add: Cons feed.simps)
  qed simp
qed


lemma feed_append: "feed mark (xs @ ys) e = Option.bind (feed mark xs e) (feed mark ys)"
  unfolding feed_bytes[abs_def] by (rule feed1_append)

section \<open>Numbers that fit\<close>

text \<open>No run of more than \<open>n\<close> digits; \<open>k\<close> have just been read.\<close>

fun runs_ok :: "nat \<Rightarrow> nat \<Rightarrow> bytes \<Rightarrow> bool" where
  "runs_ok n k [] = True"
| "runs_ok n k (c # cs) = (if is_digit c then k < n \<and> runs_ok n (k + 1) cs else runs_ok n 0 cs)"

lemma runs_ok_digits: "runs_ok n k (d @ b) \<Longrightarrow> list_all is_digit d \<Longrightarrow> k \<le> n \<Longrightarrow> k + length d \<le> n"
proof (induction d arbitrary: k)
  case (Cons c d)
  then show ?case using Cons.IH[of "k + 1"] by (simp add: Suc_le_eq)
qed simp

lemma runs_ok_drop: "runs_ok n k (a @ b) \<Longrightarrow> k \<le> n \<Longrightarrow> \<exists>k' \<le> n. runs_ok n k' b"
proof (induction a arbitrary: k)
  case (Cons c cs)
  then show ?case by (cases "is_digit c") (auto simp: Suc_le_eq)
qed auto

lemma runs_ok_infix: "runs_ok n 0 (a @ d @ b) \<Longrightarrow> list_all is_digit d \<Longrightarrow> length d \<le> n"
  using runs_ok_drop[of n 0 a "d @ b"] runs_ok_digits by fastforce

lemma split_on_infix: "f \<in> set (split_on sep s) \<Longrightarrow> \<exists>a b. s = a @ f @ b"
proof (induction s arbitrary: f)
  case (Cons c cs)
  show ?case
  proof (cases "c = sep")
    case True
    then have "f = [] \<or> f \<in> set (split_on sep cs)" using Cons.prems by auto
    then show ?thesis
    proof
      assume "f \<in> set (split_on sep cs)"
      then obtain a b where "cs = a @ f @ b" using Cons.IH by blast
      then have "c # cs = (c # a) @ f @ b" by simp
      then show ?thesis by blast
    qed (metis append_Nil)
  next
    case False
    obtain g gs where g: "split_on sep cs = g # gs" by (cases cs; cases "split_on sep cs") (auto split: list.splits if_splits)
    have "g \<noteq> [] \<longrightarrow> True" by simp
    have pre: "\<exists>b. cs = g @ b" using g
    proof (induction cs arbitrary: g gs)
      case (Cons d ds)
      then show ?case by (cases "d = sep"; cases "split_on sep ds") (auto split: list.splits)
    qed auto
    consider "f = c # g" | "f \<in> set gs" using Cons.prems False g by auto
    then show ?thesis
    proof cases
      case 1
      then obtain b where "c # cs = [] @ f @ b" using pre by auto
      then show ?thesis by blast
    next
      case 2
      then obtain a b where "cs = a @ f @ b" using Cons.IH[of f] g by auto
      then have "c # cs = (c # a) @ f @ b" by simp
      then show ?thesis by blast
    qed
  qed
qed auto

lemma digit_value_range: "is_digit c \<Longrightarrow> 0 \<le> uint (c - 0x30) \<and> uint (c - 0x30) \<le> 9"
proof -
  assume "is_digit c"
  then have "unat c \<ge> 48" "unat c \<le> 57" by (simp_all add: is_digit_def word_le_nat_alt)
  then have "unat (c - 0x30) = unat c - 48" by (subst unat_sub) (simp_all add: word_le_nat_alt)
  then have "int (unat (c - 0x30)) \<le> 9" using \<open>unat c \<le> 57\<close> by simp
  moreover have "uint (c - 0x30) = int (unat (c - 0x30))" by (rule uint_nat)
  ultimately show ?thesis by linarith
qed

lemma digits_value_range: "list_all is_digit ds \<Longrightarrow> 0 \<le> digits_value ds \<and> digits_value ds < 10 ^ length ds"
proof (induction ds rule: rev_induct)
  case Nil
  then show ?case by (simp add: digits_value_def)
next
  case (snoc c cs)
  then have d: "is_digit c" "list_all is_digit cs" by simp_all
  note digit_value_range[OF d(1)] snoc.IH[OF d(2)]
  moreover have "(10::int) ^ length (cs @ [c]) = 10 * 10 ^ length cs" by simp
  ultimately show ?case unfolding digits_value_snoc by linarith
qed

lemma power_18: "(10::int) ^ 18 = max_param"
  by (simp add: max_param_def)

lemma atoi_bound:
  assumes "runs_ok 18 0 (a @ f @ b)"
  shows "fst (atoi f) \<le> max_param"
proof -
  have ds: "digits_value ds \<le> max_param" if l: "list_all is_digit ds" and e: "\<exists>x. f = x @ ds" for ds
  proof -
    obtain x where "f = x @ ds" using e by blast
    then have "length ds \<le> 18" using runs_ok_infix[of 18 "a @ x" ds b] assms l by simp
    then have "(10::int) ^ length ds \<le> 10 ^ 18" by (intro power_increasing) simp_all
    then show ?thesis using digits_value_range[OF l] power_18 by simp
  qed
  have lo: "max_param \<le> max_int64" "0 \<le> max_param" by (simp_all add: max_param_def max_int64_def)
  show ?thesis
  proof (cases f)
    case (Cons c cs)
    have suf: "\<exists>x. f = x @ cs" "\<exists>x. f = x @ f" using Cons by (auto intro: exI[of _ "[c]"])
    have "0 \<le> digits_value cs" if "list_all is_digit cs" using digits_value_range[OF that] by simp
    then show ?thesis using ds[OF _ suf(1)] ds[OF _ suf(2)] lo
      by (auto simp: atoi_def Cons Let_def max_param_def max_int64_def)
  qed (simp add: atoi_def max_param_def)
qed

lemma params_bound:
  assumes "runs_ok 18 0 s" "n \<in> set (params s)"
  shows "n \<le> max_param"
proof -
  obtain f where f: "f \<in> set (split_on 0x3b s)" "n = (if f = [] then -1 else fst (atoi f))"
    using assms(2) by (auto simp: params_def split: if_split_asm)
  obtain a b where "s = a @ f @ b" using split_on_infix[OF f(1)] by blast
  then have "fst (atoi f) \<le> max_param" using atoi_bound assms(1) by blast
  then show ?thesis using f(2) by (simp add: max_param_def)
qed

lemma arg_range:
  assumes "\<forall>n \<in> set ps. n \<le> max_param" "0 \<le> d" "d \<le> max_param"
  shows "0 \<le> arg ps i d" "arg ps i d \<le> max_param" "0 < d \<Longrightarrow> 0 < arg ps i d"
  using assms by (auto simp: arg_def)

end
