(* ===== verification/Safety.thy ===== *)
theory Safety
  imports Stream
begin

text \<open>
  One lemma per handler of the parser: it returns, keeps the emulator's invariant and leaves the
  hidden screen alone. The step theorem puts them together, and induction over the bytes lifts it to
  every stream.
\<close>

section \<open>What a step keeps\<close>

text \<open>The primary screen and its scrollback, as they are put aside while a program has the alternate one.\<close>

definition hidden :: "vterm \<Rightarrow> cell list list option \<times> bool list \<times> int list \<times> hist_ring \<times> bool" where
  "hidden t = (t_alt t, t_alt_wrapped t, t_alt_used t, t_hist t, t_alt_pending t)"

definition kept :: "vterm \<Rightarrow> vterm \<Rightarrow> bool" where
  "kept t t' \<longleftrightarrow> t_cols t' = t_cols t \<and> t_rows t' = t_rows t \<and>
     (t_on_alt t \<and> t_on_alt t' \<longrightarrow> hidden t' = hidden t) \<and> (small t \<longrightarrow> small t')"

definition good :: "vterm \<Rightarrow> bool" where
  "good t \<longleftrightarrow> wf t \<and> saved_ok t"

definition okay :: "vterm \<Rightarrow> vterm option \<Rightarrow> bool" where
  "okay t r \<longleftrightarrow> (\<exists>t'. r = Some t' \<and> good t' \<and> kept t t')"

lemma framed_kept: "framed t t' \<Longrightarrow> kept t t'"
  by (simp add: framed_def kept_def hidden_def)

lemma safe_okay:
  assumes "good t" "safe t r"
  shows "okay t r"
proof -
  obtain t' where t': "r = Some t'" "wf t'" "framed t t'" using assms(2) by (auto simp: safe_def)
  have "saved_ok t'" using assms(1) t'(3) by (simp add: good_def saved_ok_def framed_def)
  then show ?thesis using t' framed_kept by (simp add: okay_def good_def)
qed

lemma okay_Some [simp]: "okay t (Some t') \<longleftrightarrow> good t' \<and> kept t t'"
  by (simp add: okay_def)

lemma good_wf: "good t \<Longrightarrow> wf t"
  by (simp add: good_def)

section \<open>Handlers\<close>

lemma length_update: "length (AList.update k v al) = (if k \<in> fst ` set al then length al else Suc (length al))"
  by (induction al) auto

lemma note_unknown_small: "small t \<Longrightarrow> small (note_unknown b t)"
proof (cases "map_of (t_unknown t) b")
  case (Some n)
  then have "b \<in> fst ` set (t_unknown t)" by (metis map_of_eq_None_iff option.distinct(1))
  then show "small t \<Longrightarrow> small (note_unknown b t)" using Some by (simp add: note_unknown_def small_def length_update)
next
  case None
  then have "b \<notin> fst ` set (t_unknown t)" by (simp add: map_of_eq_None_iff)
  then show "small t \<Longrightarrow> small (note_unknown b t)" using None by (auto simp: note_unknown_def small_def length_update)
qed

lemma note_unknown_safe [go_ok]:
  "wf (note_unknown b t) = wf t" "framed u t \<Longrightarrow> framed u (note_unknown b t)"
proof -
  show "wf (note_unknown b t) = wf t" by (simp add: note_unknown_def split: option.split)
  show "framed u (note_unknown b t)" if "framed u t"
  proof -
    have "\<exists>n. note_unknown b t = t\<lparr>t_unknown := n\<rparr>"
      by (cases t) (auto simp: note_unknown_def split: option.split)
    then obtain n where n: "note_unknown b t = t\<lparr>t_unknown := n\<rparr>" ..
    have "small u \<Longrightarrow> small (t\<lparr>t_unknown := n\<rparr>)" using that note_unknown_small[of t b] n by (simp add: framed_def)
    then show ?thesis unfolding n using that by (simp add: framed_def)
  qed
qed

lemma reply_safe [go_ok]: "wf (reply b t) = wf t \<and> framed u (reply b t) = framed u t"
  by (simp add: reply_def)

lemma control_safe:
  assumes "wf t"
  shows "\<exists>b t'. control c t = Some (b, t') \<and> wf t' \<and> framed t t'"
proof -
  obtain t1 where lf: "line_feed t = Some t1" "wf t1" "framed t t1"
    using line_feed_safe[OF assms] by (auto simp: safe_def)
  have c0: "wf (set_col 0 t)" using set_col_safe[OF assms, of 0] wf_dims[OF assms] by simp
  have cb: "wf (set_col (c_col (t_cur t) - 1) t)" if "c_col (t_cur t) > 0"
    using set_col_safe[OF assms, of "c_col (t_cur t) - 1"] wf_cur[OF assms] that by simp
  have ct: "wf (set_col (next_tab t) t)" using set_col_safe[OF assms] next_tab_range[OF assms] by simp
  show ?thesis
    unfolding control_def using assms lf c0 cb ct by (auto simp: shift_to_def)
qed

lemma move_op_safe:
  assumes "wf t"
  shows "wf (move_op f ps t) \<and> framed t (move_op f ps t)"
proof -
  have v: "wf (set_col 0 (move_vertically d t)) \<and> framed t (set_col 0 (move_vertically d t))" for d
    using move_vertically_safe[OF assms, of d] set_col_safe[of "move_vertically d t" 0]
      wf_dims[of "move_vertically d t"] by simp
  show ?thesis
    unfolding move_op_def using v move_to_safe[OF assms] move_vertically_safe[OF assms] by simp
qed

lemma ansi_modes_safe: "wf t \<Longrightarrow> wf (fold (ansi_mode f) ps t) \<and> framed t (fold (ansi_mode f) ps t)"
proof (induction ps arbitrary: t)
  case (Cons n ps)
  have "wf (ansi_mode f n t)" "framed t (ansi_mode f n t)"
    using Cons.prems note_unknown_safe(2)[of t t] by (simp_all add: ansi_mode_def note_unknown_safe(1))
  then show ?case using Cons.IH[of "ansi_mode f n t"] framed_trans by auto
qed simp

lemma region_params_safe: "wf t \<Longrightarrow> wf (region_params ps t) \<and> framed t (region_params ps t)"
  using set_region_safe by (simp add: region_params_def)

lemma title_safe:
  "wf t \<Longrightarrow> wf (push_title t) \<and> framed t (push_title t)" "wf t \<Longrightarrow> wf (pop_title t) \<and> framed t (pop_title t)"
  by (auto simp: push_title_def pop_title_def Let_def framed_def small_def title_stack_limit_def)

lemma window_op_safe: "wf t \<Longrightarrow> wf (window_op n t) \<and> framed t (window_op n t)"
  using note_unknown_safe title_safe by (simp add: window_op_def)

lemma status_report_safe: "wf t \<Longrightarrow> wf (status_report n t) \<and> framed t (status_report n t)"
  using reply_safe by (simp add: status_report_def)

lemma cursor_shape_safe: "wf t \<Longrightarrow> wf (cursor_shape ib n t) \<and> framed t (cursor_shape ib n t)"
  using wf_cur[of t] by (simp add: cursor_shape_def wf_cursor on_screen_def)

lemma dispatch_public_safe:
  assumes "wf t" "\<forall>n \<in> set (params raw). n \<le> max_param"
  shows "safe t (dispatch_public f raw ib t)"
proof -
  let ?ps = "params raw"
  have a: "0 < arg ?ps 0 1" "arg ?ps 0 1 \<le> max_param" "0 \<le> arg ?ps 0 0" "arg ?ps 0 0 \<le> max_param"
    using arg_range[OF assms(2), of 1 0] arg_range[OF assms(2), of 0 0] by (simp_all add: max_param_def)
  note d = draws_safe[OF assms(1)]
  note facts = d[OF erase_display_draws[OF assms(1)]] d[OF erase_line_draws[OF assms(1)]]
    d[OF insert_lines_draws[OF assms(1)]] d[OF delete_lines_draws[OF assms(1)]]
    d[OF delete_chars_draws[OF assms(1) a(1,2)]] d[OF insert_chars_draws[OF assms(1) a(1,2)]]
    d[OF erase_chars_draws[OF assms(1)]] d[OF scroll_up_draws[OF assms(1)]]
    d[OF scroll_down_draws[OF assms(1)]] clear_tabs_safe[OF assms(1)]
    move_op_safe[OF assms(1)] region_params_safe[OF assms(1)] ansi_modes_safe[OF assms(1)]
    window_op_safe[OF assms(1)] status_report_safe[OF assms(1)] cursor_shape_safe[OF assms(1)]
    save_cursor_safe[OF assms(1)] restore_cursor_safe[OF assms(1)]
  show ?thesis
    unfolding dispatch_public_def Let_def
    by (simp add: facts erase_params_def sgr_def device_attributes_def assms(1) reply_safe note_unknown_safe)
qed

text \<open>Private modes, whose one sequence may list several: all are set or all are reset.\<close>

definition kept_dir :: "bool \<Rightarrow> vterm \<Rightarrow> vterm \<Rightarrow> bool" where
  "kept_dir st t t' \<longleftrightarrow> kept t t' \<and> (if st then t_on_alt t \<longrightarrow> t_on_alt t' else \<not> t_on_alt t \<longrightarrow> \<not> t_on_alt t')"

lemma kept_dir_trans: "kept_dir st t u \<Longrightarrow> kept_dir st u v \<Longrightarrow> kept_dir st t v"
  by (cases st) (auto simp: kept_dir_def kept_def)

lemma leave_alt_good:
  assumes "good t"
  shows "\<exists>t'. leave_alt r t = Some t' \<and> good t' \<and> kept_dir False t t'"
  using leave_alt_ok[of t r] assms
  by (auto simp: good_def saved_ok_def kept_dir_def kept_def)

lemma enter_alt_good:
  assumes "good t"
  shows "good (enter_alt s t) \<and> kept_dir True t (enter_alt s t)"
proof -
  have "on_screen (t_cols t) (t_rows t) (t_cur t)" "saved_ok t" using assms by (auto simp: good_def wf_def)
  then show ?thesis using enter_alt_ok[of t s] assms
    by (simp add: good_def saved_ok_def kept_dir_def kept_def enter_alt_def Let_def hidden_def small_def)
qed

lemma good_framed: "good t \<Longrightarrow> wf t' \<Longrightarrow> framed t t' \<Longrightarrow> good t' \<and> kept_dir st t t'"
  by (simp add: good_def saved_ok_def kept_dir_def kept_def hidden_def framed_def)

lemma private_mode_good:
  assumes "good t"
  shows "\<exists>t'. private_mode f n t = Some t' \<and> good t' \<and> kept_dir (f = 0x68) t t'"
proof -
  have w: "wf t" "saved_ok t" using assms by (simp_all add: good_def)
  have cur: "on_screen (t_cols t) (t_rows t) (t_cur t)" using w(1) by (simp add: wf_def)
  have s1: "good (t\<lparr>t_alt_saved := t_cur t\<rparr>) \<and> kept_dir st t (t\<lparr>t_alt_saved := t_cur t\<rparr>)" for st
  proof -
    have "wf (t\<lparr>t_alt_saved := t_cur t\<rparr>)" using w(1) wf_cur[OF w(1)] by (simp add: wf_def)
    then show ?thesis using cur by (simp add: good_def saved_ok_def kept_dir_def kept_def hidden_def small_def)
  qed
  have s2: "good (t\<lparr>t_cur := t_alt_saved t, t_pend := False\<rparr>) \<and> kept_dir st t (t\<lparr>t_cur := t_alt_saved t, t_pend := False\<rparr>)" for st
    by (rule good_framed[OF assms]) (use w in \<open>simp_all add: wf_cursor saved_ok_def\<close>)
  have s3: "good (t\<lparr>t_cur := (t_cur t)\<lparr>c_visible := b\<rparr>\<rparr>) \<and> kept_dir st t (t\<lparr>t_cur := (t_cur t)\<lparr>c_visible := b\<rparr>\<rparr>)" for st b
    by (rule good_framed[OF assms]) (use w wf_cur[OF w(1)] in \<open>simp_all add: wf_cursor on_screen_def\<close>)
  have s4: "good (t\<lparr>t_awm := b\<rparr>) \<and> kept_dir st t (t\<lparr>t_awm := b\<rparr>)" for st b
    by (rule good_framed[OF assms]) (use w in simp_all)
  have s5: "good (set_mode n b t) \<and> kept_dir st t (set_mode n b t)" for st b
    by (rule good_framed[OF assms]) (use w in \<open>simp_all add: set_mode_def\<close>)
  have s6: "good (note_unknown b t) \<and> kept_dir st t (note_unknown b t)" for st b
    by (rule good_framed[OF assms]) (use w note_unknown_safe in simp_all)
  show ?thesis
    using s1[of "f = 0x68"] s2[of "f = 0x68"] s3[of "f = 0x68"] s4[of "f = 0x68"] s5[of "f = 0x68"] s6[of _ "f = 0x68"]
      enter_alt_good[OF assms] leave_alt_good[OF assms]
    unfolding private_mode_def Let_def by (cases "f = 0x68") simp_all
qed

lemma each_inv:
  assumes "P s" and "\<And>x s. x \<in> set xs \<Longrightarrow> P s \<Longrightarrow> \<exists>s'. f x s = Some s' \<and> P s'"
  shows "\<exists>s'. each f xs s = Some s' \<and> P s'"
  using assms
proof (induction xs arbitrary: s)
  case (Cons x xs)
  obtain s1 where "f x s = Some s1" "P s1" using Cons.prems(2)[of x s] Cons.prems(1) by auto
  then show ?case using Cons.IH[of s1] Cons.prems(2) by simp
qed simp

lemma dispatch_okay:
  assumes "good t" "runs_ok 18 0 raw"
  shows "okay t (dispatch f raw ib t)"
proof (cases "raw \<noteq> [] \<and> hd raw = 0x3f")
  case False
  have "safe t (dispatch_public f raw ib t)"
    using dispatch_public_safe[OF good_wf[OF assms(1)]] params_bound[OF assms(2)] by blast
  then show ?thesis using safe_okay[OF assms(1)] False by (simp only: dispatch_def if_False)
next
  case True
  have "\<exists>t'. each (private_mode f) (params (tl raw)) t = Some t' \<and> (good t' \<and> kept_dir (f = 0x68) t t')"
  proof (rule each_inv[where P = "\<lambda>t'. good t' \<and> kept_dir (f = 0x68) t t'"])
    show "good t \<and> kept_dir (f = 0x68) t t" using assms(1) by (simp add: kept_dir_def kept_def)
    fix n s assume "good s \<and> kept_dir (f = 0x68) t s"
    then show "\<exists>s'. private_mode f n s = Some s' \<and> good s' \<and> kept_dir (f = 0x68) t s'"
      using private_mode_good kept_dir_trans by blast
  qed
  then show ?thesis using True assms(1) by (auto simp: dispatch_def okay_def kept_dir_def kept_def)
qed

section \<open>One byte\<close>

text \<open>What the parser keeps of the strings it is reading is capped.\<close>

definition parser_small :: "parser \<Rightarrow> bool" where
  "parser_small p \<longleftrightarrow> length (p_osc p) \<le> osc_cap \<and> length (p_str_head p) \<le> str_head_max \<and> length (p_utf8 p) \<le> 3"

definition emu_okay :: "emu \<Rightarrow> emu option \<Rightarrow> bool" where
  "emu_okay e r \<longleftrightarrow> (\<exists>e'. r = Some e' \<and> good (fst e') \<and> kept (fst e) (fst e') \<and>
     (parser_small (snd e) \<longrightarrow> parser_small (snd e')))"

lemma emu_okay_Some [simp]:
  "emu_okay e (Some e') \<longleftrightarrow> good (fst e') \<and> kept (fst e) (fst e') \<and> (parser_small (snd e) \<longrightarrow> parser_small (snd e'))"
  by (simp add: emu_okay_def)

lemma emu_okay_bind:
  "okay t r \<Longrightarrow> (parser_small p \<Longrightarrow> parser_small q) \<Longrightarrow> emu_okay (t, p) (Option.bind r (\<lambda>t1. Some (t1, q)))"
  by (auto simp: okay_def)

lemma parser_small_simps [simp]:
  "parser_small (p\<lparr>p_state := s\<rparr>) = parser_small p" "parser_small (p\<lparr>p_params := b\<rparr>) = parser_small p"
  "parser_small (p\<lparr>p_inter := b\<rparr>) = parser_small p" "parser_small (p\<lparr>p_str_esc := e\<rparr>) = parser_small p"
  "parser_small (p\<lparr>p_str_intro := c\<rparr>) = parser_small p" "parser_small (p\<lparr>p_slot := i\<rparr>) = parser_small p"
  "parser_small (p\<lparr>p_invalid := e\<rparr>) = parser_small p" "parser_small (to_ground p) = parser_small p"
  "parser_small new_parser"
  by (simp_all add: parser_small_def to_ground_def new_parser_def)

lemma parser_small_weaker:
  "parser_small p \<Longrightarrow> parser_small (p\<lparr>p_utf8 := []\<rparr>)" "parser_small p \<Longrightarrow> parser_small (p\<lparr>p_osc := []\<rparr>)"
  "parser_small p \<Longrightarrow> parser_small (p\<lparr>p_str_head := []\<rparr>)" "parser_small p \<Longrightarrow> parser_small (cut_short c p)"
  "parser_small p \<Longrightarrow> length u < 4 \<Longrightarrow> parser_small (p\<lparr>p_utf8 := u\<rparr>)"
  "parser_small p \<Longrightarrow> length (p_osc p) < osc_cap \<Longrightarrow> parser_small (p\<lparr>p_osc := p_osc p @ [c]\<rparr>)"
  "parser_small p \<Longrightarrow> length (p_str_head p) < str_head_max \<Longrightarrow> parser_small (p\<lparr>p_str_head := p_str_head p @ [c]\<rparr>)"
  by (auto simp: parser_small_def cut_short_def)

lemma good_same: "good t \<Longrightarrow> wf t' \<Longrightarrow> framed t t' \<Longrightarrow> good t' \<and> kept t t'"
  using good_framed[of t t' True] by (simp add: kept_dir_def)

lemma kept_refl [simp]: "kept t t"
  by (simp add: kept_def)

lemma colour_ask_safe:
  "length (t_colour_asks t) < colour_ask_limit \<Longrightarrow> framed t (t\<lparr>t_colour_asks := t_colour_asks t @ [n]\<rparr>)"
  by (simp add: framed_def small_def)

lemma finish_osc_good:
  assumes "good t"
  shows "good (fst (finish_osc (t, p))) \<and> kept t (fst (finish_osc (t, p)))"
  by (rule good_same[OF assms])
    (use good_wf[OF assms] note_unknown_safe colour_ask_safe in \<open>simp_all add: finish_osc_def split: option.split prod.split\<close>)

lemma finish_osc_parser: "parser_small p \<Longrightarrow> parser_small (snd (finish_osc (t, p)))"
  by (simp add: finish_osc_def parser_small_weaker)

lemma finish_str_good:
  assumes "good t"
  shows "good (finish_str i h t) \<and> kept t (finish_str i h t)"
  by (rule good_same[OF assms])
    (use good_wf[OF assms] note_unknown_safe reply_safe in \<open>simp_all add: finish_str_def split: list.split\<close>)

lemma escape_okay:
  assumes "good t"
  shows "emu_okay (t, p) (escape c (t, p))"
proof -
  have w: "wf t" using good_wf[OF assms] .
  obtain b t1 where ctl: "control c t = Some (b, t1)" "good t1" "kept t t1"
    using control_safe[OF w] good_same[OF assms] by blast
  have c0: "wf (set_col 0 t)" using set_col_safe[OF w, of 0] wf_dims[OF w] by simp
  have lf0: "okay t (line_feed (set_col 0 t))"
  proof -
    have "safe (set_col 0 t) (line_feed (set_col 0 t))" using line_feed_safe[OF c0] .
    then have "safe t (line_feed (set_col 0 t))"
      using framed_trans[of t "set_col 0 t"] by (auto simp: safe_def)
    then show ?thesis using safe_okay[OF assms] by simp
  qed
  note o = safe_okay[OF assms]
  note oks = o[OF reverse_index_safe[OF w]] o[OF line_feed_safe[OF w]] lf0 o[OF set_tab_safe[OF w]]
  note binds = oks[THEN emu_okay_bind]
  have sv: "good (save_cursor t) \<and> kept t (save_cursor t)" using good_same[OF assms] save_cursor_safe[OF w] by blast
  have rs: "good (restore_cursor t) \<and> kept t (restore_cursor t)" using good_same[OF assms] restore_cursor_safe[OF w] by blast
  have kp: "good (t\<lparr>t_keypad := k\<rparr>) \<and> kept t (t\<lparr>t_keypad := k\<rparr>)" for k
    by (rule good_same[OF assms]) (use w in simp_all)
  have nu: "good (note_unknown n t) \<and> kept t (note_unknown n t)" for n
    by (rule good_same[OF assms]) (use w note_unknown_safe in simp_all)
  have nt: "good (new_term (t_cols t) (t_rows t)) \<and> kept t (new_term (t_cols t) (t_rows t))"
    using new_term_wf[of "t_cols t" "t_rows t"] wf_dims[OF w]
    by (auto simp: good_def kept_def saved_ok_def new_term_def Let_def on_screen_def zero_cursor_def small_def)
  show ?thesis
    unfolding escape_def split_conv using assms ctl binds sv rs kp nu nt parser_small_weaker by simp
qed

lemma csi_okay:
  assumes "good t" "runs_ok 18 0 (p_params p)"
  shows "emu_okay (t, p) (csi c (t, p))"
proof -
  obtain b t1 where ctl: "control c t = Some (b, t1)" "good t1" "kept t t1"
    using control_safe[OF good_wf[OF assms(1)]] good_same[OF assms(1)] by blast
  show ?thesis
    unfolding csi_def split_conv
    using assms(1) ctl emu_okay_bind[OF dispatch_okay[OF assms], of p "to_ground p" c "p_inter p"] by simp
qed

lemma put_good:
  assumes "good t" "0 \<le> w" "w \<le> 2"
  shows "okay t (put r w t)"
  using safe_okay[OF assms(1) put_safe[OF good_wf[OF assms(1)] assms(2,3)]] .

lemma kept_trans_frame: "framed t u \<Longrightarrow> kept u v \<Longrightarrow> kept t v"
  by (auto simp: framed_def kept_def hidden_def)

lemma settle_okay:
  assumes "good t"
  shows "emu_okay (t, p) (settle mark u (t, p))"
proof -
  have w: "okay t (put r (rune_width mark r) t)" "okay t (put rune_error 1 t)" for r
    using put_good[OF assms] rune_width_range[of mark r] by simp_all
  show ?thesis
    unfolding settle_def split_conv
    using assms w[THEN emu_okay_bind] by (auto simp: parser_small_weaker split: prod.split)
qed

lemma glyph_runes:
  "list_all (\<lambda>(c, r). string_runes 0 (encode_rune r) = [(0, r)]) dec_special_graphics"
  by code_simp

lemma glyph_width:
  assumes "map_rune c t = Some g"
  shows "0 \<le> string_width mark g \<and> string_width mark g \<le> 2"
proof -
  obtain r where r: "map_of dec_special_graphics c = Some r" "g = encode_rune r"
    using assms by (auto simp: map_rune_def Let_def split: if_split_asm)
  have "(c, r) \<in> set dec_special_graphics" using map_of_SomeD[OF r(1)] .
  then have "string_runes 0 g = [(0, r)]" using glyph_runes r(2) by (auto simp: list_all_iff)
  then show ?thesis using rune_width_range[of mark r] by (simp add: string_width_def)
qed

lemma draw_pending_okay:
  assumes "good t"
  shows "\<exists>t' p'. draw_pending (t, p) = Some (t', p') \<and> good t' \<and> framed t t' \<and> (parser_small p \<longrightarrow> parser_small p')"
proof (cases "p_invalid p")
  case True
  obtain t' where t': "put rune_error 1 t = Some t'" "wf t'" "framed t t'"
    using put_safe[OF good_wf[OF assms], of 1 rune_error] by (auto simp: safe_def)
  then show ?thesis using True good_same[OF assms] by (simp add: draw_pending_def)
qed (use assms in \<open>simp add: draw_pending_def\<close>)

lemma emu_okay_map_fst:
  "emu_okay e (map_option snd (Option.bind r (\<lambda>x. Some (k, f x)))) \<longleftrightarrow> emu_okay e (map_option f r)"
  by (cases r) simp_all

lemma ground_okay:
  assumes "good t"
  shows "emu_okay (t, p) (map_option snd (ground mark c [] (t, p)))"
proof (cases "c = 0x1b")
  case True
  then show ?thesis using assms parser_small_weaker(4) by (simp add: ground_def)
next
  case False
  obtain t1 p1 where d: "draw_pending (t, cut_short c p) = Some (t1, p1)" "good t1" "framed t t1"
      "parser_small p \<longrightarrow> parser_small p1"
    using draw_pending_okay[OF assms] parser_small_weaker(4) by metis
  obtain b t2 where ctl: "control c t1 = Some (b, t2)" "wf t2" "framed t1 t2"
    using control_safe[OF good_wf[OF d(2)]] by blast
  have g2: "good t2" "framed t t2" using good_same[OF d(2) ctl(2,3)] framed_trans[OF d(3) ctl(3)] by auto
  have kt: "kept t t2" using framed_kept[OF g2(2)] .
  have up: "emu_okay (t, p) r" if "emu_okay (t2, p1) r" for r
    using that kept_trans_frame[OF g2(2)] d(4) by (auto simp: emu_okay_def)
  have put: "okay t2 (put (uint c) (rune_width mark (uint c)) t2)"
    using put_good[OF g2(1)] rune_width_range[of mark "uint c"] by simp
  have str: "okay t2 (put_string g (string_width mark g) t2)" if "map_rune c t2 = Some g" for g
    using safe_okay[OF g2(1) put_string_safe[OF ctl(2)]] glyph_width[OF that] by blast
  have st: "emu_okay (t, p) (settle mark u (t2, p1))" for u
    using up settle_okay[OF g2(1)] by blast
  consider "b" | "\<not> b" "c < 0x80" "map_rune c t2 = None" | g where "\<not> b" "c < 0x80" "map_rune c t2 = Some g"
    | "\<not> b" "\<not> c < 0x80" by blast
  then show ?thesis
  proof cases
    case 1
    then show ?thesis using False d ctl g2 kt by (simp add: ground_def)
  next
    case 2
    obtain t3 where t3: "put (uint c) (rune_width mark (uint c)) t2 = Some t3" "good t3" "kept t2 t3"
      using put by (auto simp: okay_def)
    then show ?thesis using 2 False d ctl kept_trans_frame[OF g2(2)] by (simp add: ground_def)
  next
    case 3
    obtain t3 where t3: "put_string g (string_width mark g) t2 = Some t3" "good t3" "kept t2 t3"
      using str[OF 3(3)] by (auto simp: okay_def)
    then show ?thesis using 3 False d ctl kept_trans_frame[OF g2(2)] by (simp add: ground_def)
  next
    case 4
    then show ?thesis using False d ctl st by (simp add: ground_def)
  qed
qed

lemma step1_okay:
  assumes "good t" "runs_ok 18 0 (p_params p)"
  shows "emu_okay (t, p) (step1 mark c (t, p))"
proof (cases "p_state p")
  case Ground
  then show ?thesis using ground_okay[OF assms(1)] by (simp add: step1_def step_def)
next
  case Escape
  then show ?thesis using escape_okay[OF assms(1)] by (simp add: step1_def step_def option.map_comp comp_def option.map_ident)
next
  case Csi
  then show ?thesis using csi_okay[OF assms] by (simp add: step1_def step_def option.map_comp comp_def option.map_ident)
next
  case Osc
  then show ?thesis using finish_osc_good[OF assms(1)] finish_osc_parser assms(1) parser_small_weaker by (simp add: step1_def step_def osc_def)
next
  case CharsetSelect
  have "good (select_charset (p_slot p) c t) \<and> kept t (select_charset (p_slot p) c t)"
    by (rule good_same[OF assms(1)]) (use good_wf[OF assms(1)] in \<open>simp_all add: select_charset_def Let_def\<close>)
  then show ?thesis using CharsetSelect by (simp add: step1_def step_def)
next
  case Str
  then show ?thesis using finish_str_good[OF assms(1)] assms(1) parser_small_weaker by (simp add: step1_def step_def str_def)
qed

section \<open>Every stream\<close>

text \<open>What holds after every prefix of a stream, the empty one and the whole included.\<close>

definition throughout :: "(int \<Rightarrow> bool) \<Rightarrow> (emu \<Rightarrow> bool) \<Rightarrow> bytes \<Rightarrow> emu \<Rightarrow> bool" where
  "throughout mark Q b e \<longleftrightarrow>
     list_all (\<lambda>n. case feed mark (take n b) e of None \<Rightarrow> True | Some e' \<Rightarrow> Q e') [0..<Suc (length b)]"

text \<open>At no point of the stream does the parameter buffer hold a number of more than 18 digits.\<close>

definition numbers_ok :: "(int \<Rightarrow> bool) \<Rightarrow> bytes \<Rightarrow> emu \<Rightarrow> bool" where
  "numbers_ok mark = throughout mark (\<lambda>e. runs_ok 18 0 (p_params (snd e)))"

text \<open>The alternate screen is showing at every point of the stream.\<close>

definition stays_alt :: "(int \<Rightarrow> bool) \<Rightarrow> bytes \<Rightarrow> emu \<Rightarrow> bool" where
  "stays_alt mark = throughout mark (\<lambda>e. t_on_alt (fst e))"

lemma feed_Cons1: "feed mark (c # b) e = Option.bind (step1 mark c e) (feed mark b)"
  by (simp add: feed_bytes[abs_def])

lemma throughout_at:
  "throughout mark Q b e \<Longrightarrow> n \<le> length b \<Longrightarrow> feed mark (take n b) e = Some e' \<Longrightarrow> Q e'"
proof -
  assume a: "throughout mark Q b e" "n \<le> length b" "feed mark (take n b) e = Some e'"
  then have "n \<in> set [0..<Suc (length b)]" by auto
  then show "Q e'" using a(1,3) unfolding throughout_def list_all_iff by fastforce
qed

lemma throughout_now: "throughout mark Q b e \<Longrightarrow> Q e"
  using throughout_at[of mark Q b e 0 e] by simp

lemma throughout_Cons:
  assumes "throughout mark Q (c # b) e" "step1 mark c e = Some e1"
  shows "throughout mark Q b e1"
  unfolding throughout_def list_all_iff
proof
  fix n assume n: "n \<in> set [0..<Suc (length b)]"
  show "case feed mark (take n b) e1 of None \<Rightarrow> True | Some e' \<Rightarrow> Q e'"
  proof (cases "feed mark (take n b) e1")
    case (Some e')
    then have "feed mark (take (Suc n) (c # b)) e = Some e'"
      using assms(2) by (simp add: feed_Cons1)
    then have "Q e'" by (rule throughout_at[OF assms(1), rotated]) (use n in auto)
    then show ?thesis using Some by simp
  qed simp
qed

lemma feed_okay:
  assumes "good (fst e)" "numbers_ok mark b e"
  shows "\<exists>e'. feed mark b e = Some e' \<and> good (fst e') \<and> t_cols (fst e') = t_cols (fst e) \<and>
     t_rows (fst e') = t_rows (fst e) \<and> (stays_alt mark b e \<longrightarrow> hidden (fst e') = hidden (fst e)) \<and>
     (small (fst e) \<longrightarrow> small (fst e')) \<and> (parser_small (snd e) \<longrightarrow> parser_small (snd e'))"
  using assms
proof (induction b arbitrary: e)
  case (Cons c b)
  obtain t p where e: "e = (t, p)" by (cases e)
  obtain e1 where e1: "step1 mark c e = Some e1" "good (fst e1)" "kept t (fst e1)"
    "parser_small p \<longrightarrow> parser_small (snd e1)"
    using step1_okay[of t p mark c] Cons.prems(1) throughout_now[OF Cons.prems(2)[unfolded numbers_ok_def]]
    by (auto simp: emu_okay_def e)
  obtain e2 where e2: "feed mark b e1 = Some e2" "good (fst e2)" "t_cols (fst e2) = t_cols (fst e1)"
    "t_rows (fst e2) = t_rows (fst e1)" "stays_alt mark b e1 \<longrightarrow> hidden (fst e2) = hidden (fst e1)"
    "small (fst e1) \<longrightarrow> small (fst e2)" "parser_small (snd e1) \<longrightarrow> parser_small (snd e2)"
    using Cons.IH[OF e1(2)] throughout_Cons[OF Cons.prems(2)[unfolded numbers_ok_def] e1(1)] by (auto simp: numbers_ok_def)
  have "hidden (fst e2) = hidden t" if "stays_alt mark (c # b) e"
  proof -
    have a: "throughout mark (\<lambda>e. t_on_alt (fst e)) (c # b) e" using that by (simp add: stays_alt_def)
    have b: "throughout mark (\<lambda>e. t_on_alt (fst e)) b e1" by (rule throughout_Cons[OF a e1(1)])
    have s: "t_on_alt t" "t_on_alt (fst e1)" "stays_alt mark b e1"
      using throughout_now[OF a] throughout_now[OF b] b by (simp_all add: stays_alt_def e)
    then show ?thesis using s e1(3) e2(5) by (simp add: kept_def)
  qed
  then show ?case using e1 e2 by (simp add: feed_Cons1 e kept_def)
qed simp

end
