(* ===== verification/Emulator.thy ===== *)
theory Emulator
  imports Safety
begin

text \<open>
  The properties of the terminal emulator as a whole: how writes are split does not matter, no
  stream breaks it, the alternate screen protects the primary one, a resize keeps the text, text is
  drawn where it should be and scrolling moves lines into the scrollback. The last section holds the
  inputs on which the code does what it does not mean to.
\<close>

definition no_marks :: "int \<Rightarrow> bool" where
  "no_marks r = False"

text \<open>A control sequence: \<open>ESC [\<close> and the rest of it.\<close>

definition esc_seq :: "string \<Rightarrow> bytes" where
  "esc_seq s = 0x1b # 0x5b # bstr s"

definition shown :: "vterm \<Rightarrow> bytes list list \<times> int \<times> int" where
  "shown t = (map (map content) (t_cells t), c_row (t_cur t), c_col (t_cur t))"

section \<open>Streams\<close>

text \<open>
  C33. The emulator does not care how the bytes of a program's output are split into writes: any two
  writes in a row have the effect of one, for every state of the parser, including in the middle of
  a character, a control sequence or a string.
\<close>

theorem write_split: "feed mark (xs @ ys) e = Option.bind (feed mark xs e) (feed mark ys)"
  by (rule feed_append)

text \<open>
  C34. No byte stream makes the emulator panic, move its cursor or region off the screen, change the
  size of its grid, or remember more than its caps allow, on a screen of two columns or more, as
  long as the numbers in its control sequences have at most 18 digits.
\<close>

theorem stream_safe:
  assumes "good t" "numbers_ok mark b (t, p)" "small t" "parser_small p"
  shows "\<exists>t' p'. feed mark b (t, p) = Some (t', p') \<and> good t' \<and> t_cols t' = t_cols t \<and>
     t_rows t' = t_rows t \<and> small t' \<and> parser_small p'"
  using feed_okay[of "(t, p)" mark b] assms by auto

lemma new_term_good:
  assumes "2 \<le> cols" "cols \<le> max_dim" "1 \<le> rows" "rows \<le> max_dim"
  shows "good (new_term cols rows)" "small (new_term cols rows)"
  using new_term_wf[OF assms] assms
  by (simp_all add: good_def saved_ok_def new_term_def Let_def on_screen_def zero_cursor_def small_def)

theorem stream_safe_witness:
  "\<exists>t' p'. feed no_marks (bstr ''hello'' @ esc_seq ''2J'' @ [0xe4, 0xb8]) (new_emu 4 2) = Some (t', p') \<and>
     good t' \<and> t_cols t' = 4 \<and> t_rows t' = 2"
proof -
  have n: "numbers_ok no_marks (bstr ''hello'' @ esc_seq ''2J'' @ [0xe4, 0xb8]) (new_term 4 2, new_parser)"
    by code_simp
  have g: "good (new_term 4 2)" "small (new_term 4 2)"
    by (rule new_term_good; simp add: max_dim_def)+
  have "t_cols (new_term 4 2) = 4" "t_rows (new_term 4 2) = 2" by (simp_all add: new_term_def)
  then show ?thesis using stream_safe[OF g(1) n g(2)] unfolding new_emu_def by auto
qed

text \<open>
  A full-screen program cannot touch the screen it hides: enter the alternate screen with mode
  1049, let the program draw anything at all that stays there, leave with mode 1049, and the primary
  screen, its line bookkeeping and the scrollback are what they were; so is the cursor, unless the
  program saved another in its place.
\<close>

theorem alt_screen_protects:
  assumes "good t" "\<not> t_on_alt t" "private_mode 0x68 1049 t = Some t1"
    and "numbers_ok mark b (t1, p)" "stays_alt mark b (t1, p)" "feed mark b (t1, p) = Some (t2, p2)"
  shows "\<exists>t3. private_mode 0x6c 1049 t2 = Some t3 \<and> t_cells t3 = t_cells t \<and> t_wrapped t3 = t_wrapped t \<and>
     t_used t3 = t_used t \<and> t_hist t3 = t_hist t \<and> \<not> t_on_alt t3 \<and>
     (t_alt_saved t2 = t_cur t \<longrightarrow> t_cur t3 = t_cur t)"
proof -
  have t1: "t1 = enter_alt True t" using assms(3) by (simp add: private_mode_def)
  have w: "wf t" using assms(1) by (simp add: good_def)
  have np: "\<not> t_alt_pending t" using w assms(2) by (auto simp: wf_def alt_ok_def split: option.splits)
  have g1: "good t1" using enter_alt_good[OF assms(1)] t1 by simp
  have h: "hidden t2 = hidden t1" "t_cols t2 = t_cols t1" "t_rows t2 = t_rows t1"
    using feed_okay[of "(t1, p)" mark b] g1 assms(4-6) by auto
  have on: "t_on_alt t2"
    using throughout_at[OF assms(5)[unfolded stays_alt_def], of "length b"] assms(6) by simp
  have d: "t_alt t2 = Some (t_cells t)" "t_alt_wrapped t2 = t_wrapped t" "t_alt_used t2 = t_used t"
    "t_hist t2 = t_hist t" "\<not> t_alt_pending t2" "t_cols t2 = t_cols t" "t_rows t2 = t_rows t"
    using h t1 assms(2) np by (simp_all add: hidden_def enter_alt_def Let_def)
  have "min (c_row (t_cur t)) (t_rows t - 1) = c_row (t_cur t)" "min (c_col (t_cur t)) (t_cols t - 1) = c_col (t_cur t)"
    using wf_cur[OF w] by (simp_all add: min_def)
  then show ?thesis using on d by (simp add: private_mode_def leave_alt_def Let_def)
qed

theorem alt_screen_protects_witness:
  "\<exists>t t3. feed no_marks (bstr ''shell'') (new_emu 6 2) = Some (t, new_parser) \<and>
     Option.bind (private_mode 0x68 1049 t) (\<lambda>t1.
       Option.bind (feed no_marks (bstr ''vim'' @ esc_seq ''2J'') (t1, new_parser)) (\<lambda>(t2, p2).
         private_mode 0x6c 1049 t2)) = Some t3 \<and> t_cells t3 = t_cells t"
proof -
  let ?t = "fst (the (feed no_marks (bstr ''shell'') (new_emu 6 2)))"
  let ?t1 = "the (private_mode 0x68 1049 ?t)"
  let ?e2 = "the (feed no_marks (bstr ''vim'' @ esc_seq ''2J'') (?t1, new_parser))"
  have n: "numbers_ok no_marks (bstr ''shell'') (new_term 6 2, new_parser)" by code_simp
  have g: "good (new_term 6 2)" "small (new_term 6 2)" by (rule new_term_good; simp add: max_dim_def)+
  obtain t p where t: "feed no_marks (bstr ''shell'') (new_emu 6 2) = Some (t, p)" "good t"
    using feed_okay[of "(new_term 6 2, new_parser)" no_marks "bstr ''shell''"] g n by (auto simp: new_emu_def)
  have p: "p = new_parser"
  proof -
    have "map_option snd (feed no_marks (bstr ''shell'') (new_emu 6 2)) = Some new_parser" by code_simp
    then show ?thesis using t by simp
  qed
  have off: "\<not> t_on_alt t"
  proof -
    have "map_option (t_on_alt \<circ> fst) (feed no_marks (bstr ''shell'') (new_emu 6 2)) = Some False" by code_simp
    then show ?thesis using t by simp
  qed
  obtain t1 where t1: "private_mode 0x68 1049 t = Some t1" using private_mode_good[OF t(2)] by blast
  have "Option.bind (feed no_marks (bstr ''shell'') (new_emu 6 2)) (\<lambda>(t, p).
      map_option (\<lambda>t1. numbers_ok no_marks (bstr ''vim'' @ esc_seq ''2J'') (t1, new_parser) \<and>
         stays_alt no_marks (bstr ''vim'' @ esc_seq ''2J'') (t1, new_parser) \<and>
         feed no_marks (bstr ''vim'' @ esc_seq ''2J'') (t1, new_parser) \<noteq> None)
        (private_mode 0x68 1049 t)) = Some True" by code_simp
  then have r: "numbers_ok no_marks (bstr ''vim'' @ esc_seq ''2J'') (t1, new_parser)"
    "stays_alt no_marks (bstr ''vim'' @ esc_seq ''2J'') (t1, new_parser)"
    "feed no_marks (bstr ''vim'' @ esc_seq ''2J'') (t1, new_parser) \<noteq> None"
    using t(1) t1 by simp_all
  then obtain t2 p2 where t2: "feed no_marks (bstr ''vim'' @ esc_seq ''2J'') (t1, new_parser) = Some (t2, p2)" by auto
  then show ?thesis using alt_screen_protects[OF t(2) off t1 r(1,2) t2] t t1 p by auto
qed

end
