(* ===== verification/Drawing.thy ===== *)
theory Drawing
  imports Emulator
begin

text \<open>
  What the emulator puts on the screen: text goes where the cursor is, a full screen scrolls its top
  line into the scrollback, a resize keeps every character; and the inputs on which it goes wrong.
\<close>

section \<open>Resizing\<close>

text \<open>
  A resize never panics, and it loses no text: what the scrollback and the screen hold afterwards
  is the end of what they held before, character for character with its style, and all of it as long
  as the scrollback has room. (The row the cursor is on counts as written up to the cursor.)
\<close>

theorem resize_keeps_text:
  assumes "wf t" "\<not> t_on_alt t" "2 \<le> cols" "cols \<le> max_dim" "1 \<le> rows" "rows \<le> max_dim"
  shows "\<exists>t' lost. resize cols rows t = Some t' \<and> wf t' \<and> t_cols t' = cols \<and> t_rows t' = rows \<and>
     full_text (cursor_reach t) = lost @ full_text t' \<and>
     (hist_len (t_hist t') < hr_limit (t_hist t') \<longrightarrow> lost = [])"
proof -
  obtain t' where t': "resize cols rows t = Some t'" "wf t'" "t_cols t' = cols" "t_rows t' = rows" "relaid cols rows t t'"
    using resize_ok[OF assms(1,3-6)] assms(2) by blast
  let ?lim = "nat (hr_limit (t_hist t))"
  obtain ls k n where ls: "concat (map line_text ls) = ink (raw_cells t)"
    "hist_list (t_hist t') = lastn ?lim (take k ls)" "screen_lines t' = drop k ls @ replicate n (blank_line cols)"
    using t'(5) unfolding relaid_def by blast
  have lim: "hr_limit (t_hist t') = hr_limit (t_hist t)" using t'(5) by (simp add: relaid_def)
  have us: "length (t_used t) = length (t_cells t)" using wf_lengths[OF assms(1)] by linarith
  have blank: "line_text (blank_line cols) = []" by (simp add: line_text_def blank_line_def)
  define m where "m = length (take k ls) - ?lim"
  have "take m (take k ls) @ lastn ?lim (take k ls) = take k ls"
    unfolding lastn_def m_def by (rule append_take_drop_id)
  then have "ls = take m (take k ls) @ lastn ?lim (take k ls) @ drop k ls"
    by (metis append_assoc append_take_drop_id)
  then have "ink (raw_cells t) = concat (map line_text (take m (take k ls))) @
      concat (map line_text (lastn ?lim (take k ls) @ drop k ls))"
    using ls(1) by (metis concat_append map_append)
  moreover have "concat (map line_text (lastn ?lim (take k ls) @ drop k ls)) = full_text t'"
    by (simp add: full_text_def ls(2,3) blank)
  moreover have "concat (map line_text (take m (take k ls))) = []" if "hist_len (t_hist t') < hr_limit (t_hist t')"
  proof -
    have inv: "hist_inv (t_hist t')" using wf_hist[OF t'(2)] by (simp add: hist_ok_def)
    have "int (length (lastn ?lim (take k ls))) < hr_limit (t_hist t)"
      using that hist_len_list[OF inv] lim ls(2) by simp
    then have "length (take k ls) \<le> ?lim" by (simp add: min_def split: if_split_asm)
    then show ?thesis by (simp add: m_def)
  qed
  ultimately show ?thesis using t'(1-4) full_text_reach[OF us] by auto
qed

theorem resize_keeps_text_witness:
  "\<exists>t p t'. feed no_marks (bstr ''abcdef'') (new_emu 4 2) = Some (t, p) \<and> resize 2 3 t = Some t' \<and>
     map content (full_text t') = map (\<lambda>c. [c]) (bstr ''abcdef'')"
proof -
  have n: "numbers_ok no_marks (bstr ''abcdef'') (new_term 4 2, new_parser)" by code_simp
  have g: "good (new_term 4 2)" "small (new_term 4 2)" by (rule new_term_good; simp add: max_dim_def)+
  obtain t p where t: "feed no_marks (bstr ''abcdef'') (new_emu 4 2) = Some (t, p)" "good t"
    using feed_okay[OF _ n] g(1) unfolding new_emu_def by auto
  have c: "Option.bind (feed no_marks (bstr ''abcdef'') (new_emu 4 2)) (\<lambda>(t, p). map_option (\<lambda>t'.
       (t_on_alt t, map content (full_text (cursor_reach t)), hist_len (t_hist t') < hr_limit (t_hist t')))
       (resize 2 3 t)) = Some (False, map (\<lambda>c. [c]) (bstr ''abcdef''), True)" by code_simp
  have off: "\<not> t_on_alt t" using c t(1) by (cases "resize 2 3 t") auto
  obtain t' lost where t': "resize 2 3 t = Some t'" "full_text (cursor_reach t) = lost @ full_text t'"
    "hist_len (t_hist t') < hr_limit (t_hist t') \<longrightarrow> lost = []"
    using resize_keeps_text[OF good_wf[OF t(2)] off, of 2 3] by (auto simp: max_dim_def)
  then show ?thesis using c t(1) by auto
qed

section \<open>Scrolling\<close>

lemma copy_up:
  assumes "0 \<le> a" "a \<le> b" "b < int (length xs)"
  shows "copy_within xs a b (a + 1) (b + 1) =
     Some (take (nat a) xs @ take (nat b - nat a) (drop (nat a + 1) xs) @ drop (nat b) xs)"
proof -
  have n: "nat (a + 1) = nat a + 1" "nat (b + 1) = nat b + 1" using assms by linarith+
  have d: "subslice xs a b = Some (take (nat b - nat a) (drop (nat a) xs))" using assms by simp
  have s: "subslice xs (a + 1) (b + 1) = Some (take (nat b - nat a) (drop (nat a + 1) xs))"
    using assms subslice_Some[of "a + 1" "b + 1" xs] by (simp add: n)
  have k: "min (length (take (nat b - nat a) (drop (nat a) xs))) (length (take (nat b - nat a) (drop (nat a + 1) xs))) = nat b - nat a"
    using assms by simp
  show ?thesis unfolding copy_within_def d s Option.bind.bind_lunit Let_def k using assms by simp
qed

text \<open>The list of rows after its region has moved up by one and a blank has come in at the bottom.\<close>

definition scrolled :: "int \<Rightarrow> int \<Rightarrow> 'a \<Rightarrow> 'a list \<Rightarrow> 'a list" where
  "scrolled a b v xs =
     take (nat a) xs @ take (nat b - nat a) (drop (nat a + 1) xs) @ v # drop (nat b + 1) xs"

lemma upd_scrolled:
  assumes "0 \<le> a" "a \<le> b" "b < int (length xs)"
  shows "upd (take (nat a) xs @ take (nat b - nat a) (drop (nat a + 1) xs) @ drop (nat b) xs) b v =
     Some (scrolled a b v xs)"
proof -
  define l where "l = take (nat a) xs @ take (nat b - nat a) (drop (nat a + 1) xs)"
  have l: "length l = nat b" using assms by (simp add: l_def)
  have d: "drop (nat b) xs = xs ! nat b # drop (nat b + 1) xs" using assms by (simp add: Cons_nth_drop_Suc)
  have "(l @ xs ! nat b # drop (nat b + 1) xs)[nat b := v] = l @ v # drop (nat b + 1) xs"
    using list_update_length[of l "xs ! nat b" "drop (nat b + 1) xs" v] by (simp only: l)
  moreover have "b < int (length (l @ drop (nat b) xs))" using l assms by simp
  ultimately have "upd (l @ drop (nat b) xs) b v = Some (l @ v # drop (nat b + 1) xs)"
    using assms by (simp add: d)
  then show ?thesis by (simp add: l_def scrolled_def)
qed

text \<open>
  A line feed on the bottom line of the scrolling region moves the region up one line: the rows
  outside it stay, the last one of it becomes blank and neither wrapped nor written, the cursor does
  not move, and the region's top line, with its width in use and its wrapping, joins the scrollback
  as its newest line - unless the alternate screen is showing, which has no scrollback.
\<close>

theorem line_feed_scrolls:
  assumes "wf t" "c_row (t_cur t) = t_bottom t"
  shows "\<exists>t'. line_feed t = Some t' \<and> t_cur t' = t_cur t \<and>
     t_cells t' = scrolled (t_top t) (t_bottom t) (blank_row (t_cols t)) (t_cells t) \<and>
     t_wrapped t' = scrolled (t_top t) (t_bottom t) False (t_wrapped t) \<and>
     t_used t' = scrolled (t_top t) (t_bottom t) 0 (t_used t) \<and>
     hist_list (t_hist t') =
       (if t_on_alt t then hist_list (t_hist t)
        else lastn (nat (hr_limit (t_hist t))) (hist_list (t_hist t) @
          [\<lparr>hl_cells = t_cells t ! nat (t_top t), hl_wrapped = t_wrapped t ! nat (t_top t), hl_used = t_used t ! nat (t_top t)\<rparr>]))"
proof -
  let ?a = "t_top t" and ?b = "t_bottom t" and ?r = "t_cells t ! nat (t_top t)"
  let ?w = "t_wrapped t ! nat (t_top t)" and ?u = "t_used t ! nat (t_top t)"
  note reg = wf_region[OF assms(1)] and len = wf_lengths[OF assms(1)]
  have r: "0 \<le> ?a" "?a \<le> ?b" "?b < int (length (t_cells t))" "?b < int (length (t_wrapped t))" "?b < int (length (t_used t))"
    "?a < t_rows t"
    using reg len by auto
  have row: "int (length ?r) = t_cols t" using wf_row(1)[OF assms(1) r(1,6)] .
  have hi: "hist_inv (t_hist t)" using wf_hist[OF assms(1)] by (simp add: hist_ok_def)
  obtain h where h: "remember ?r ?w ?u t = Some (t\<lparr>t_hist := h\<rparr>)"
    "hist_list h = (if t_on_alt t then hist_list (t_hist t) else lastn (nat (hr_limit (t_hist t))) (hist_list (t_hist t) @
          [\<lparr>hl_cells = ?r, hl_wrapped = ?w, hl_used = ?u\<rparr>]))"
  proof (cases "t_on_alt t")
    case True
    then have "remember ?r ?w ?u t = Some (t\<lparr>t_hist := t_hist t\<rparr>)" by (simp add: remember_def)
    then show ?thesis using that[of "t_hist t"] True by simp
  next
    case False
    obtain h where "hist_push ?r ?w ?u (t_hist t) = Some h" "hist_list h = lastn (nat (hr_limit (t_hist t)))
       (hist_list (t_hist t) @ [\<lparr>hl_cells = ?r, hl_wrapped = ?w, hl_used = ?u\<rparr>])"
      using ring.push_lines[OF hi, of ?r ?w ?u] by blast
    then show ?thesis using that[of h] False by (simp add: remember_def)
  qed
  have blank: "map (\<lambda>_. blank_cell) ?r = blank_row (t_cols t)"
    by (simp add: blank_row_def map_replicate_const flip: row)
  let ?t1 = "t\<lparr>t_hist := h\<rparr>"
  let ?up = "\<lambda>xs. take (nat ?a) xs @ take (nat ?b - nat ?a) (drop (nat ?a + 1) xs) @ drop (nat ?b) xs"
  let ?t2 = "?t1\<lparr>t_cells := ?up (t_cells t), t_wrapped := ?up (t_wrapped t), t_used := ?up (t_used t)\<rparr>"
  let ?t3 = "?t2\<lparr>t_cells := scrolled ?a ?b (blank_row (t_cols t)) (t_cells t),
     t_wrapped := scrolled ?a ?b False (t_wrapped t), t_used := scrolled ?a ?b 0 (t_used t)\<rparr>"
  have c2: "copy_rows ?a ?b (?a + 1) (?b + 1) ?t1 = Some ?t2"
    using r by (simp add: copy_rows_def copy_up del: One_nat_def)
  have c3: "place_row ?b (blank_row (t_cols t)) ?t2 = Some ?t3"
    using r by (simp add: place_row_def set_wrapped_def set_used_def upd_scrolled del: One_nat_def append_assoc upd_Some)
  have i: "idx (t_cells t) ?a = Some ?r" "idx (t_wrapped t) ?a = Some ?w" "idx (t_used t) ?a = Some ?u" using r by auto
  have "scroll_up1 t = Some ?t3"
    unfolding scroll_up1_def i Option.bind.bind_lunit h(1) c2 blank using c3 by simp
  then have "line_feed t = Some ?t3" using assms(2) by (simp add: line_feed_def scroll_up_def)
  then show ?thesis using h(2) by simp
qed

theorem line_feed_scrolls_witness:
  "wf (new_term 3 1) \<and> (\<exists>t'. line_feed (new_term 3 1) = Some t' \<and> hist_list (t_hist t') \<noteq> [])"
proof -
  have w: "wf (new_term 3 1)" by (rule new_term_wf) (simp_all add: max_dim_def)
  have c: "c_row (t_cur (new_term 3 1)) = t_bottom (new_term 3 1)" "\<not> t_on_alt (new_term 3 1)"
    "hr_limit (t_hist (new_term 3 1)) = 2000" "hist_list (t_hist (new_term 3 1)) = []"
    by (simp_all add: new_term_def zero_cursor_def new_ring_def default_scrollback_def hist_list_def empty_ring_def)
  show ?thesis using line_feed_scrolls[OF w c(1)] c w by auto
qed


section \<open>Text\<close>

text \<open>Cells at their place in a row, and the row in its place on the screen.\<close>

definition overlay :: "nat \<Rightarrow> 'a list \<Rightarrow> 'a list \<Rightarrow> 'a list" where
  "overlay col cs row = take col row @ cs @ drop (col + length cs) row"

definition text_cells :: "style \<Rightarrow> bytes \<Rightarrow> cell list" where
  "text_cells s b = map (\<lambda>c. \<lparr>content = [c], width = 1, style = s\<rparr>) b"

definition printable :: "(int \<Rightarrow> bool) \<Rightarrow> byte \<Rightarrow> bool" where
  "printable mark c \<longleftrightarrow> 0x20 \<le> c \<and> c \<le> 0x7e \<and> \<not> mark (uint c)"

text \<open>Ready for text: nothing half read, autowrap's pending column clear, plain characters replacing.\<close>

definition ready :: "vterm \<Rightarrow> parser \<Rightarrow> bool" where
  "ready t p \<longleftrightarrow> wf t \<and> p_state p = Ground \<and> p_utf8 p = [] \<and> \<not> p_invalid p \<and> \<not> t_pend t \<and> \<not> t_irm t \<and>
     (if t_active t = 1 then t_g1 t else t_g0 t) = CharsetASCII"

lemma overlay_Cons:
  assumes "col < length row"
  shows "overlay (Suc col) cs (row[col := c]) = overlay col (c # cs) row"
proof -
  have "take (Suc col) (row[col := c]) = take col row @ [c]" using assms by (simp add: take_Suc_conv_app_nth)
  then show ?thesis by (simp add: overlay_def)
qed

lemma overlay_one: "col < length row \<Longrightarrow> row[col := c] = overlay col [c] row"
  by (simp add: overlay_def upd_conv_take_nth_drop)

lemma put_char:
  assumes "wf t" "\<not> t_pend t" "\<not> t_irm t"
  shows "\<exists>t'. put_string s 1 t = Some t' \<and> wf t' \<and>
     t_cells t' = (t_cells t)[nat (c_row (t_cur t)) := (t_cells t ! nat (c_row (t_cur t)))[nat (c_col (t_cur t)) :=
        \<lparr>content = s, width = 1, style = t_style t\<rparr>]] \<and>
     c_row (t_cur t') = c_row (t_cur t) \<and>
     (if c_col (t_cur t) + 1 < t_cols t then c_col (t_cur t') = c_col (t_cur t) + 1 \<and> \<not> t_pend t'
      else c_col (t_cur t') = t_cols t - 1 \<and> t_pend t' = t_awm t) \<and>
     t_irm t' = t_irm t \<and> t_style t' = t_style t \<and> t_cols t' = t_cols t \<and> t_awm t' = t_awm t \<and>
     t_active t' = t_active t \<and> t_g0 t' = t_g0 t \<and> t_g1 t' = t_g1 t"
proof -
  let ?r = "c_row (t_cur t)" and ?c = "c_col (t_cur t)"
  let ?cell = "\<lparr>content = s, width = 1, style = t_style t\<rparr>"
  note cur = wf_cur[OF assms(1)]
  let ?cells = "(t_cells t)[nat ?r := (t_cells t ! nat ?r)[nat ?c := ?cell]]"
  let ?t4 = "t\<lparr>t_cells := ?cells\<rparr>"
  have s4: "set_cell ?r ?c ?cell t = Some ?t4" using set_cell_eq[OF assms(1)] cur by blast
  let ?us = "if ?c + 1 > t_used t ! nat ?r then (t_used t)[nat ?r := ?c + 1] else t_used t"
  have u: "idx (t_used t) ?r = Some (t_used t ! nat ?r)" using cur wf_lengths(3)[OF assms(1)] by simp
  have s5: "(if ?c + 1 > t_used t ! nat ?r then set_used ?r (?c + 1) ?t4 else Some ?t4) = Some (?t4\<lparr>t_used := ?us\<rparr>)"
    using cur wf_lengths(3)[OF assms(1)] by (auto simp: set_used_def)
  obtain t' where t': "put_string s 1 t = Some t'" "wf t'"
    using put_string_safe[OF assms(1), of 1 s] by (auto simp: safe_def)
  have "put_string s 1 t = Some (if ?c + 1 \<ge> t_cols t
      then (set_col (t_cols t - 1) (?t4\<lparr>t_used := ?us\<rparr>))\<lparr>t_pend := t_awm t\<rparr>
      else set_col (?c + 1) (?t4\<lparr>t_used := ?us\<rparr>))"
    using assms(2,3) cur s4 s5 u by (auto simp: put_string_def Let_def)
  then show ?thesis using t' assms(2) by (auto simp: set_col_def split: if_split_asm)
qed


lemma narrow_width: "32 \<le> x \<Longrightarrow> x \<le> 126 \<Longrightarrow> \<not> mark x \<Longrightarrow> rune_width mark x = 1"
  by (simp add: rune_width_def is_wide_def wide_ranges_def)

lemma printable_step:
  assumes "ready t p" "printable mark c"
  shows "step1 mark c (t, p) = map_option (\<lambda>t'. (t', p)) (put_string [c] 1 t)"
proof -
  have n: "32 \<le> unat c" "unat c \<le> 126" "\<not> mark (uint c)"
    using assms(2) by (simp_all add: printable_def word_le_nat_alt)
  then have c: "c \<noteq> 0x1b" "c < 0x80" "\<not> c < 0x20" "c \<noteq> 0x7f" "c \<noteq> 0x0d" "c \<noteq> 0x0a" "c \<noteq> 0x0b"
    "c \<noteq> 0x0c" "c \<noteq> 0x08" "c \<noteq> 0x09" "c \<noteq> 0x0e" "c \<noteq> 0x0f" "c \<noteq> 0x07"
    by (auto simp: word_less_nat_alt)
  have u: "uint c = int (unat c)" by (rule uint_nat)
  have "32 \<le> uint c" "uint c \<le> 126" using n u by linarith+
  then have w: "rune_width mark (uint c) = 1" using narrow_width n(3) by blast
  have e: "encode_rune (uint c) = [c]"
  proof -
    have "uint c < 0x80" "0 \<le> uint c" using n(2) u by linarith+
    then show ?thesis by (simp add: encode_rune_def Let_def)
  qed
  have ctl: "control c t = Some (False, t)" using c by (simp add: control_def)
  have "cut_short c p = p" using assms(1) by (simp add: cut_short_def ready_def)
  moreover have "map_rune c t = None" using assms(1) by (simp add: map_rune_def Let_def ready_def)
  ultimately have "step1 mark c (t, p) = map_option snd (Option.bind (put_string [c] 1 t) (\<lambda>t3. Some (0 :: nat, t3, p)))"
    using assms(1) c ctl w e
    by (simp add: step1_def step_def ground_def draw_pending_def ready_def put_def)
  then show ?thesis by (cases "put_string [c] 1 t") simp_all
qed

text \<open>
  Printable text that fits on the line is written where the cursor is: the cells from the
  cursor's column on hold exactly its characters in the current style, everything else on the screen
  stays, and the cursor ends just past the text - or, when the text ends in the last column, stays on
  that column with the wrap pending if autowrap is on.
\<close>

theorem text_is_drawn:
  assumes "ready t p" "list_all (printable mark) s" "s \<noteq> []" "c_col (t_cur t) + int (length s) \<le> t_cols t"
  shows "\<exists>t'. feed mark s (t, p) = Some (t', p) \<and>
     t_cells t' = (t_cells t)[nat (c_row (t_cur t)) :=
        overlay (nat (c_col (t_cur t))) (text_cells (t_style t) s) (t_cells t ! nat (c_row (t_cur t)))] \<and>
     c_row (t_cur t') = c_row (t_cur t) \<and>
     c_col (t_cur t') = min (c_col (t_cur t) + int (length s)) (t_cols t - 1) \<and>
     t_pend t' = (c_col (t_cur t) + int (length s) = t_cols t \<and> t_awm t)"
  using assms
proof (induction s arbitrary: t)
  case (Cons c s)
  let ?r = "nat (c_row (t_cur t))" and ?c = "nat (c_col (t_cur t))"
  let ?row = "t_cells t ! ?r" and ?cell = "\<lparr>content = [c], width = 1, style = t_style t\<rparr>"
  have w: "wf t" "\<not> t_pend t" "\<not> t_irm t" using Cons.prems(1) by (simp_all add: ready_def)
  note cur = wf_cur[OF w(1)]
  obtain t1 where t1: "put_string [c] 1 t = Some t1" "wf t1"
     "t_cells t1 = (t_cells t)[?r := ?row[?c := ?cell]]" "c_row (t_cur t1) = c_row (t_cur t)"
     "if c_col (t_cur t) + 1 < t_cols t then c_col (t_cur t1) = c_col (t_cur t) + 1 \<and> \<not> t_pend t1
      else c_col (t_cur t1) = t_cols t - 1 \<and> t_pend t1 = t_awm t"
     "t_irm t1 = t_irm t" "t_style t1 = t_style t" "t_cols t1 = t_cols t" "t_awm t1 = t_awm t"
     "t_active t1 = t_active t" "t_g0 t1 = t_g0 t" "t_g1 t1 = t_g1 t"
    using put_char[OF w] by blast
  have s1: "step1 mark c (t, p) = Some (t1, p)" using printable_step[OF Cons.prems(1)] Cons.prems(2) t1(1) by simp
  have len: "?c < length ?row" "?r < length (t_cells t)"
    using wf_row(1)[OF w(1), of "c_row (t_cur t)"] cur wf_lengths(1)[OF w(1)] by linarith+
  show ?case
  proof (cases "s = []")
    case True
    then show ?thesis using s1 t1 cur len(1) Cons.prems(4)
      by (auto simp: feed_Cons1 text_cells_def overlay_one split: if_split_asm)
  next
    case False
    then have lt: "c_col (t_cur t) + 1 < t_cols t" using Cons.prems(4) by (cases s) auto
    have rd: "ready t1 p" using Cons.prems(1) t1 lt by (auto simp: ready_def split: if_split_asm)
    have c1: "c_col (t_cur t1) = c_col (t_cur t) + 1" using t1(5) lt by simp
    obtain t' where t': "feed mark s (t1, p) = Some (t', p)"
      "t_cells t' = (t_cells t1)[?r := overlay (nat (c_col (t_cur t1))) (text_cells (t_style t1) s) (t_cells t1 ! ?r)]"
      "c_row (t_cur t') = c_row (t_cur t1)" "c_col (t_cur t') = min (c_col (t_cur t1) + int (length s)) (t_cols t1 - 1)"
      "t_pend t' = (c_col (t_cur t1) + int (length s) = t_cols t1 \<and> t_awm t1)"
      using Cons.IH[OF rd] Cons.prems(2,4) False t1(4,8) c1 by auto
    have n1: "nat (c_col (t_cur t1)) = Suc ?c" using c1 cur by (simp add: nat_add_distrib)
    have "t_cells t' = (t_cells t)[?r := overlay ?c (text_cells (t_style t) (c # s)) ?row]"
      using t'(2) t1(3,7) len by (simp add: n1 overlay_Cons text_cells_def)
    then show ?thesis using t' s1 t1(4,8,9) c1 by (simp add: feed_Cons1 add.assoc)
  qed
qed simp

theorem text_is_drawn_witness:
  "\<exists>t'. feed no_marks (bstr ''hi'') (new_emu 4 2) = Some (t', new_parser) \<and>
     map content (t_cells t' ! 0) = [[0x68], [0x69], [0x20], [0x20]] \<and> c_col (t_cur t') = 2"
proof -
  have w: "wf (new_term 4 2)" by (rule new_term_wf) (simp_all add: max_dim_def)
  have r: "ready (new_term 4 2) new_parser" using w by (simp add: ready_def new_term_def new_parser_def)
  have p: "list_all (printable no_marks) (bstr ''hi'')" by (simp add: printable_def no_marks_def)
  show ?thesis using text_is_drawn[OF r p]
    by (auto simp: new_emu_def new_term_def zero_cursor_def overlay_def text_cells_def blank_row_def
        blank_cell_def space_cell_def eval_nat_numeral)
qed

section \<open>Where the code goes wrong\<close>


text \<open>
  \<open>ESC E\<close> (next line) after a line filled to its last column leaves the wrap pending, so that the
  next character skips a line, where a newline in the same place does not.
\<close>

theorem next_line_skips_a_line:
  "map_option (shown \<circ> fst) (feed no_marks (bstr ''ab'' @ [0x1b] @ bstr ''Ex'') (new_emu 2 3)) =
     Some ([[[0x61], [0x62]], [[0x20], [0x20]], [[0x78], [0x20]]], 2, 1) \<and>
   map_option (shown \<circ> fst) (feed no_marks (bstr ''ab'' @ [0x0d, 0x0a] @ bstr ''x'') (new_emu 2 3)) =
     Some ([[[0x61], [0x62]], [[0x78], [0x20]], [[0x20], [0x20]]], 1, 1)"
  by (intro conjI; code_simp)

text \<open>
  A resize can lose the cursor's place. Narrowing a full screen with the cursor at its top shows
  the last rows produced, and the line the cursor was on goes into the scrollback while the cursor
  stays on screen, on other text; and a cursor on the second half of a wide character lands below all
  text even when the size does not change.
\<close>

theorem resize_moves_the_cursor:
  "map_option shown (Option.bind (feed no_marks (bstr ''aaaa'' @ [0x0d, 0x0a] @ bstr ''bbbb'' @ [0x0d, 0x0a] @
       bstr ''cccc'' @ esc_seq ''1;1H'') (new_emu 4 3)) (\<lambda>(t, p). resize 2 3 t)) =
     Some ([[[0x62], [0x62]], [[0x63], [0x63]], [[0x63], [0x63]]], 0, 0) \<and>
   map_option shown (Option.bind (feed no_marks ([0xe4, 0xb8, 0x96] @ bstr ''x'' @ esc_seq ''1;2H'') (new_emu 4 2))
       (\<lambda>(t, p). resize 4 2 t)) =
     Some ([[[0xe4, 0xb8, 0x96], [], [0x78], [0x20]], [[0x20], [0x20], [0x20], [0x20]]], 1, 0)"
  by (intro conjI; code_simp)

text \<open>The parameters of a control sequence are kept without a cap, unlike the strings.\<close>

lemma csi_parameters_uncapped:
  "p_state p = Csi \<Longrightarrow> feed mark (replicate n 0x3b) (t, p) = Some (t, p\<lparr>p_params := p_params p @ replicate n 0x3b\<rparr>)"
proof (induction n arbitrary: p)
  case (Suc n)
  have "step1 mark 0x3b (t, p) = Some (t, p\<lparr>p_params := p_params p @ [0x3b]\<rparr>)"
    using Suc.prems by (simp add: step1_def step_def csi_def)
  then show ?case using Suc.IH[of "p\<lparr>p_params := p_params p @ [0x3b]\<rparr>"] Suc.prems by (simp add: feed_Cons1)
qed simp

end
