(* ===== verification/Layout.thy ===== *)
theory Layout
  imports Cells
begin

text \<open>
  \<open>src/internal/vt/layout/layout.go\<close>: several screens composed on one. A pane's terminal is its
  snapshot and its cursor, which is all \<open>Compose\<close> reads of it.
\<close>

record pane =
  pn_col :: int
  pn_row :: int
  pn_cols :: int
  pn_rows :: int
  pn_grid :: "cell list list"
  pn_cursor :: cursor
  pn_focused :: bool

record frame =
  fr_cols :: int
  fr_rows :: int
  fr_cells :: "cell list list"
  fr_cur :: cursor

text \<open>One row of a pane onto a row of the screen.\<close>

definition draw_cells :: "int \<Rightarrow> pane \<Rightarrow> cell list \<Rightarrow> cell list \<Rightarrow> cell list option" where
  "draw_cells cols p src =
     for_range 0 (pn_cols p) (\<lambda>c line.
       let x = pn_col p + c in
       if x < 0 \<or> x \<ge> cols \<or> c \<ge> int (length src) then Some line
       else do { cell \<leftarrow> idx src c; upd line x cell })"

definition trim_edge :: "int \<Rightarrow> pane \<Rightarrow> cell list \<Rightarrow> cell list option" where
  "trim_edge cols p line =
     (let edge = pn_col p + pn_cols p in
      if edge > 0 \<and> edge \<le> cols
      then do { c \<leftarrow> idx line (edge - 1); if width c = 2 then upd line (edge - 1) blank_cell else Some line }
      else Some line)"

definition draw_row :: "int \<Rightarrow> int \<Rightarrow> pane \<Rightarrow> int \<Rightarrow> cell list list \<Rightarrow> cell list list option" where
  "draw_row cols rows p r cells =
     (let y = pn_row p + r in
      if y < 0 \<or> y \<ge> rows \<or> r \<ge> int (length (pn_grid p)) then Some cells
      else do {
        src \<leftarrow> idx (pn_grid p) r;
        line \<leftarrow> idx cells y;
        line1 \<leftarrow> draw_cells cols p src line;
        line2 \<leftarrow> trim_edge cols p line1;
        upd cells y line2 })"

definition pane_cursor :: "int \<Rightarrow> int \<Rightarrow> pane \<Rightarrow> cursor" where
  "pane_cursor cols rows p =
     (pn_cursor p)\<lparr>
       c_row := clamp (c_row (pn_cursor p) + pn_row p) (pn_row p) (min (pn_row p + pn_rows p - 1) (rows - 1)),
       c_col := clamp (c_col (pn_cursor p) + pn_col p) (pn_col p) (min (pn_col p + pn_cols p - 1) (cols - 1))\<rparr>"

definition draw_pane :: "int \<Rightarrow> int \<Rightarrow> pane \<Rightarrow> frame \<Rightarrow> frame option" where
  "draw_pane cols rows p f = do {
     cells \<leftarrow> for_range 0 (pn_rows p) (draw_row cols rows p) (fr_cells f);
     Some (f\<lparr>fr_cells := cells, fr_cur := (if pn_focused p then pane_cursor cols rows p else fr_cur f)\<rparr>) }"

fun draw_panes :: "int \<Rightarrow> int \<Rightarrow> pane list \<Rightarrow> frame \<Rightarrow> frame option" where
  "draw_panes cols rows [] f = Some f"
| "draw_panes cols rows (p # ps) f = Option.bind (draw_pane cols rows p f) (draw_panes cols rows ps)"

definition compose :: "int \<Rightarrow> int \<Rightarrow> pane list \<Rightarrow> frame option" where
  "compose cols rows ps =
     draw_panes cols rows ps \<lparr>fr_cols = cols, fr_rows = rows,
       fr_cells = replicate (nat rows) (blank_row cols), fr_cur = zero_cursor\<rparr>"

section \<open>Pointwise\<close>

text \<open>What one pane makes of the cell at row \<open>y\<close> and column \<open>x\<close> of the screen.\<close>

definition own_cell :: "pane \<Rightarrow> int \<Rightarrow> int \<Rightarrow> cell \<Rightarrow> cell" where
  "own_cell p y x old =
     (let r = y - pn_row p; c = x - pn_col p; src = pn_grid p ! nat r in
      if 0 \<le> c \<and> c < pn_cols p \<and> c < int (length src) then src ! nat c else old)"

definition pane_cell :: "pane \<Rightarrow> int \<Rightarrow> int \<Rightarrow> cell \<Rightarrow> cell" where
  "pane_cell p y x old =
     (let r = y - pn_row p in
      if 0 \<le> r \<and> r < pn_rows p \<and> r < int (length (pn_grid p))
      then (let b = own_cell p y x old in
            if x = pn_col p + pn_cols p - 1 \<and> width b = 2 then blank_cell else b)
      else old)"

definition is_screen :: "int \<Rightarrow> int \<Rightarrow> cell list list \<Rightarrow> bool" where
  "is_screen cols rows cells \<longleftrightarrow> int (length cells) = rows \<and> (\<forall>l \<in> set cells. int (length l) = cols)"

lemma draw_cells_ok:
  assumes "int (length line) = cols"
  shows "\<exists>l. draw_cells cols p src line = Some l \<and> int (length l) = cols \<and>
     (\<forall>x. 0 \<le> x \<and> x < cols \<longrightarrow> l ! nat x =
        (if pn_col p \<le> x \<and> x < pn_col p + pn_cols p \<and> x - pn_col p < int (length src) then src ! nat (x - pn_col p)
         else line ! nat x))"
proof (cases "0 \<le> pn_cols p")
  case True
  let ?P = "\<lambda>j l. int (length l) = cols \<and>
     (\<forall>x. 0 \<le> x \<and> x < cols \<longrightarrow> l ! nat x =
        (if pn_col p \<le> x \<and> x < pn_col p + j \<and> x - pn_col p < int (length src) then src ! nat (x - pn_col p)
         else line ! nat x))"
  show ?thesis
    unfolding draw_cells_def
  proof (rule for_range_rule[where P = ?P, OF True])
    show "?P 0 line" using assms by auto
    fix c l assume c: "0 \<le> c" "c < pn_cols p" "?P c l"
    let ?x = "pn_col p + c"
    show "\<exists>s'. (let x = pn_col p + c in if x < 0 \<or> x \<ge> cols \<or> c \<ge> int (length src) then Some l
       else do { cell \<leftarrow> idx src c; upd l x cell }) = Some s' \<and> ?P (c + 1) s'"
    proof (cases "?x < 0 \<or> ?x \<ge> cols \<or> c \<ge> int (length src)")
      case True
      have "?P (c + 1) l"
      proof (intro conjI allI impI)
        show "int (length l) = cols" using c(3) by simp
        fix x assume x: "0 \<le> x \<and> x < cols"
        have "(x < pn_col p + (c + 1) \<and> x - pn_col p < int (length src)) = (x < pn_col p + c \<and> x - pn_col p < int (length src))"
          using True x by (auto simp: not_le)
        then show "l ! nat x = (if pn_col p \<le> x \<and> x < pn_col p + (c + 1) \<and> x - pn_col p < int (length src)
            then src ! nat (x - pn_col p) else line ! nat x)"
          using c(3) x by simp
      qed
      then show ?thesis using True by (auto simp: Let_def)
    next
      case False
      let ?l = "l[nat ?x := src ! nat c]"
      have "?P (c + 1) ?l"
      proof (intro conjI allI impI)
        show "int (length ?l) = cols" using c(3) by simp
        fix x assume x: "0 \<le> x \<and> x < cols"
        have e: "nat x = nat ?x \<longleftrightarrow> x = ?x" using x False by auto
        have "nat ?x < length l" using False c(3) by linarith
        then have nl: "?l ! nat x = (if x = ?x then src ! nat c else l ! nat x)" by (simp add: nth_list_update e eq_commute)
        show "?l ! nat x = (if pn_col p \<le> x \<and> x < pn_col p + (c + 1) \<and> x - pn_col p < int (length src)
            then src ! nat (x - pn_col p) else line ! nat x)"
        proof (cases "x = ?x")
          case True
          then show ?thesis using nl False c by simp
        next
          case ne: False
          then have "(x < pn_col p + (c + 1)) = (x < pn_col p + c)" by auto
          then show ?thesis using nl ne c(3) x by simp
        qed
      qed
      moreover have "idx src c = Some (src ! nat c)" "upd l ?x (src ! nat c) = Some ?l"
        using False c by (auto intro!: idx_Some upd_Some)
      ultimately show ?thesis using False by (auto simp: Let_def)
    qed
  qed
qed (use assms in \<open>auto simp: draw_cells_def\<close>)


definition at_cell :: "cell list list \<Rightarrow> int \<Rightarrow> int \<Rightarrow> cell" where
  "at_cell cells y x = cells ! nat y ! nat x"

definition edge_cell :: "pane \<Rightarrow> int \<Rightarrow> cell \<Rightarrow> cell" where
  "edge_cell p x b = (if x = pn_col p + pn_cols p - 1 \<and> width b = 2 then blank_cell else b)"

lemma pane_cell_edge:
  "0 \<le> r \<Longrightarrow> r < pn_rows p \<Longrightarrow> r < int (length (pn_grid p)) \<Longrightarrow>
     pane_cell p (pn_row p + r) x old = edge_cell p x (own_cell p (pn_row p + r) x old)"
  by (simp add: pane_cell_def edge_cell_def Let_def)

lemma trim_edge_ok:
  assumes "int (length line) = cols"
  shows "\<exists>l. trim_edge cols p line = Some l \<and> int (length l) = cols \<and>
     (\<forall>x. 0 \<le> x \<and> x < cols \<longrightarrow> l ! nat x = edge_cell p x (line ! nat x))"
proof (cases "pn_col p + pn_cols p > 0 \<and> pn_col p + pn_cols p \<le> cols")
  case True
  let ?e = "pn_col p + pn_cols p - 1"
  have e: "idx line ?e = Some (line ! nat ?e)" "upd line ?e blank_cell = Some (line[nat ?e := blank_cell])" "nat ?e < length line"
    using True assms by (auto intro!: idx_Some upd_Some)
  have n: "line[nat ?e := blank_cell] ! nat x = (if x = ?e then blank_cell else line ! nat x)"
    if "0 \<le> x" "x < cols" for x
    using that e(3) True by (auto simp: nth_list_update)
  have t: "trim_edge cols p line = (if width (line ! nat ?e) = 2 then Some (line[nat ?e := blank_cell]) else Some line)"
    using True by (simp add: trim_edge_def Let_def e(1,2))
  show ?thesis
  proof (cases "width (line ! nat ?e) = 2")
    case True
    then show ?thesis using t n assms by (auto simp: edge_cell_def)
  next
    case False
    then show ?thesis using t assms by (auto simp: edge_cell_def)
  qed
next
  case False
  then have "trim_edge cols p line = Some line" by (auto simp: trim_edge_def Let_def)
  then show ?thesis using False assms by (auto simp: edge_cell_def)
qed

lemma is_screen_row: "is_screen cols rows cells \<Longrightarrow> 0 \<le> y \<Longrightarrow> y < rows \<Longrightarrow>
    nat y < length cells \<and> int (length (cells ! nat y)) = cols"
proof -
  assume a: "is_screen cols rows cells" "0 \<le> y" "y < rows"
  then have "nat y < length cells" by (simp add: is_screen_def nat_less_iff)
  then show ?thesis using a(1) by (simp add: is_screen_def)
qed

lemma draw_row_ok:
  assumes "is_screen cols rows cells" "0 \<le> r" "r < pn_rows p"
  shows "\<exists>cells'. draw_row cols rows p r cells = Some cells' \<and> is_screen cols rows cells' \<and>
     (\<forall>y x. 0 \<le> y \<and> y < rows \<and> 0 \<le> x \<and> x < cols \<longrightarrow> at_cell cells' y x =
        (if y = pn_row p + r then pane_cell p y x (at_cell cells y x) else at_cell cells y x))"
proof (cases "pn_row p + r < 0 \<or> pn_row p + r \<ge> rows \<or> r \<ge> int (length (pn_grid p))")
  case True
  have "pane_cell p y x old = old" if "y = pn_row p + r" "0 \<le> y" "y < rows" for y x old
    using True that by (auto simp: pane_cell_def Let_def)
  then show ?thesis using True assms(1) by (auto simp: draw_row_def Let_def)
next
  case False
  let ?y = "pn_row p + r" and ?src = "pn_grid p ! nat r"
  have y: "0 \<le> ?y" "?y < rows" "r < int (length (pn_grid p))" using False by auto
  note row = is_screen_row[OF assms(1) y(1,2)]
  obtain l1 where l1: "draw_cells cols p ?src (cells ! nat ?y) = Some l1" "int (length l1) = cols"
    "\<forall>x. 0 \<le> x \<and> x < cols \<longrightarrow> l1 ! nat x =
        (if pn_col p \<le> x \<and> x < pn_col p + pn_cols p \<and> x - pn_col p < int (length ?src) then ?src ! nat (x - pn_col p)
         else cells ! nat ?y ! nat x)"
    using draw_cells_ok[of "cells ! nat ?y" cols p ?src] row by blast
  obtain l2 where l2: "trim_edge cols p l1 = Some l2" "int (length l2) = cols"
    "\<forall>x. 0 \<le> x \<and> x < cols \<longrightarrow> l2 ! nat x = edge_cell p x (l1 ! nat x)"
    using trim_edge_ok[OF l1(2)] by blast
  let ?cells = "cells[nat ?y := l2]"
  have "draw_row cols rows p r cells = Some ?cells"
    using False assms(2) row y(1) l1(1) l2(1) by (auto simp: draw_row_def Let_def idx_def upd_def)
  moreover have "is_screen cols rows ?cells"
    using assms(1) l2(2) set_update_subset_insert[of cells "nat ?y" l2] by (auto simp: is_screen_def)
  moreover have "at_cell ?cells y x = (if y = ?y then pane_cell p y x (at_cell cells y x) else at_cell cells y x)"
    if b: "0 \<le> y" "y < rows" "0 \<le> x" "x < cols" for y x
  proof (cases "y = ?y")
    case True
    have "l1 ! nat x = own_cell p ?y x (at_cell cells ?y x)"
      using l1(3) b by (auto simp: own_cell_def at_cell_def Let_def)
    then have "l2 ! nat x = pane_cell p ?y x (at_cell cells ?y x)"
      using l2(3) b assms(2,3) y(3) by (simp add: pane_cell_edge)
    then show ?thesis using True row by (simp add: at_cell_def)
  next
    case False
    then show ?thesis using b y(1) by (auto simp: at_cell_def nth_list_update)
  qed
  ultimately show ?thesis by blast
qed

lemma draw_pane_ok:
  assumes "is_screen cols rows (fr_cells f)"
  shows "\<exists>f'. draw_pane cols rows p f = Some f' \<and> is_screen cols rows (fr_cells f') \<and>
     fr_cols f' = fr_cols f \<and> fr_rows f' = fr_rows f \<and>
     fr_cur f' = (if pn_focused p then pane_cursor cols rows p else fr_cur f) \<and>
     (\<forall>y x. 0 \<le> y \<and> y < rows \<and> 0 \<le> x \<and> x < cols \<longrightarrow>
        at_cell (fr_cells f') y x = pane_cell p y x (at_cell (fr_cells f) y x))"
proof -
  let ?P = "\<lambda>j cells. is_screen cols rows cells \<and>
     (\<forall>y x. 0 \<le> y \<and> y < rows \<and> 0 \<le> x \<and> x < cols \<longrightarrow> at_cell cells y x =
        (if pn_row p \<le> y \<and> y < pn_row p + j then pane_cell p y x (at_cell (fr_cells f) y x)
         else at_cell (fr_cells f) y x))"
  have "\<exists>cells. for_range 0 (pn_rows p) (draw_row cols rows p) (fr_cells f) = Some cells \<and> ?P (max 0 (pn_rows p)) cells"
  proof (cases "0 \<le> pn_rows p")
    case True
    have "\<exists>cells. for_range 0 (pn_rows p) (draw_row cols rows p) (fr_cells f) = Some cells \<and> ?P (pn_rows p) cells"
    proof (rule for_range_rule[where P = ?P, OF True])
      show "?P 0 (fr_cells f)" using assms by auto
      fix j s assume j: "0 \<le> j" "j < pn_rows p" "?P j s"
      obtain s' where s': "draw_row cols rows p j s = Some s'" "is_screen cols rows s'"
        "\<forall>y x. 0 \<le> y \<and> y < rows \<and> 0 \<le> x \<and> x < cols \<longrightarrow> at_cell s' y x =
          (if y = pn_row p + j then pane_cell p y x (at_cell s y x) else at_cell s y x)"
        using draw_row_ok[of cols rows s j p] j by blast
      have "at_cell s' y x = (if pn_row p \<le> y \<and> y < pn_row p + (j + 1) then pane_cell p y x (at_cell (fr_cells f) y x)
         else at_cell (fr_cells f) y x)" if "0 \<le> y \<and> y < rows \<and> 0 \<le> x \<and> x < cols" for y x
      proof (cases "y = pn_row p + j")
        case True
        then show ?thesis using s'(3) j(1,3) that by simp
      next
        case False
        then have "(y < pn_row p + (j + 1)) = (y < pn_row p + j)" by auto
        then show ?thesis using s'(3) j(3) that False by simp
      qed
      then show "\<exists>s'. draw_row cols rows p j s = Some s' \<and> ?P (j + 1) s'" using s'(1,2) by blast
    qed
    then show ?thesis using True by (simp add: max_def)
  qed (use assms in auto)
  then obtain cells where c: "for_range 0 (pn_rows p) (draw_row cols rows p) (fr_cells f) = Some cells"
    "?P (max 0 (pn_rows p)) cells" by blast
  have "at_cell cells y x = pane_cell p y x (at_cell (fr_cells f) y x)" if "0 \<le> y \<and> y < rows \<and> 0 \<le> x \<and> x < cols" for y x
  proof (cases "pn_row p \<le> y \<and> y < pn_row p + max 0 (pn_rows p)")
    case True
    then show ?thesis using c(2) that by simp
  next
    case False
    then have "pane_cell p y x old = old" for old by (auto simp: pane_cell_def Let_def max_def split: if_split_asm)
    then show ?thesis using c(2) that False by simp
  qed
  then show ?thesis using c by (simp add: draw_pane_def)
qed

section \<open>Properties\<close>

lemma draw_panes_ok:
  assumes "is_screen cols rows (fr_cells f)"
  shows "\<exists>f'. draw_panes cols rows ps f = Some f' \<and> is_screen cols rows (fr_cells f') \<and>
     fr_cols f' = fr_cols f \<and> fr_rows f' = fr_rows f \<and>
     fr_cur f' = fold (\<lambda>p c. if pn_focused p then pane_cursor cols rows p else c) ps (fr_cur f) \<and>
     (\<forall>y x. 0 \<le> y \<and> y < rows \<and> 0 \<le> x \<and> x < cols \<longrightarrow>
        at_cell (fr_cells f') y x = fold (\<lambda>p. pane_cell p y x) ps (at_cell (fr_cells f) y x))"
  using assms
proof (induction ps arbitrary: f)
  case (Cons p ps)
  obtain f1 where f1: "draw_pane cols rows p f = Some f1" "is_screen cols rows (fr_cells f1)"
     "fr_cols f1 = fr_cols f" "fr_rows f1 = fr_rows f"
     "fr_cur f1 = (if pn_focused p then pane_cursor cols rows p else fr_cur f)"
     "\<forall>y x. 0 \<le> y \<and> y < rows \<and> 0 \<le> x \<and> x < cols \<longrightarrow>
        at_cell (fr_cells f1) y x = pane_cell p y x (at_cell (fr_cells f) y x)"
    using draw_pane_ok[OF Cons.prems] by blast
  then show ?case using Cons.IH[OF f1(2)] by auto
qed simp

lemma compose_frame:
  assumes "0 \<le> cols" "0 \<le> rows"
  shows "\<exists>f. compose cols rows ps = Some f \<and> fr_cols f = cols \<and> fr_rows f = rows \<and>
     is_screen cols rows (fr_cells f) \<and>
     fr_cur f = fold (\<lambda>p c. if pn_focused p then pane_cursor cols rows p else c) ps zero_cursor \<and>
     (\<forall>y x. 0 \<le> y \<and> y < rows \<and> 0 \<le> x \<and> x < cols \<longrightarrow>
        at_cell (fr_cells f) y x = fold (\<lambda>p. pane_cell p y x) ps blank_cell)"
proof -
  let ?f = "\<lparr>fr_cols = cols, fr_rows = rows, fr_cells = replicate (nat rows) (blank_row cols), fr_cur = zero_cursor\<rparr>"
  have s: "is_screen cols rows (fr_cells ?f)" using assms by (simp add: is_screen_def)
  have b: "at_cell (fr_cells ?f) y x = blank_cell" if "0 \<le> y" "y < rows" "0 \<le> x" "x < cols" for y x
    using that by (simp add: at_cell_def blank_row_def nat_less_iff)
  obtain f where f: "draw_panes cols rows ps ?f = Some f" "is_screen cols rows (fr_cells f)"
     "fr_cols f = cols" "fr_rows f = rows"
     "fr_cur f = fold (\<lambda>p c. if pn_focused p then pane_cursor cols rows p else c) ps zero_cursor"
     "\<forall>y x. 0 \<le> y \<and> y < rows \<and> 0 \<le> x \<and> x < cols \<longrightarrow>
        at_cell (fr_cells f) y x = fold (\<lambda>p. pane_cell p y x) ps (at_cell (fr_cells ?f) y x)"
    using draw_panes_ok[OF s, of ps] by auto
  then show ?thesis using b by (simp add: compose_def)
qed

text \<open>
  Composing panes onto a screen never panics, whatever the panes' rectangles and whatever size
  their terminals really are, and gives a frame of the screen's size in which every cell is, pane by
  pane in order, the pane's own cell where the pane has one there, a blank where half of a wide
  character would have been cut off at the pane's right edge, and otherwise what the earlier panes
  left; the cursor is the one of the last focused pane, moved and clipped into it, and hidden when no
  pane has the focus.
\<close>

theorem compose_pointwise:
  assumes "0 \<le> cols" "0 \<le> rows"
  shows "\<exists>f. compose cols rows ps = Some f \<and> fr_cols f = cols \<and> fr_rows f = rows \<and>
     is_screen cols rows (fr_cells f) \<and>
     fr_cur f = fold (\<lambda>p c. if pn_focused p then pane_cursor cols rows p else c) ps zero_cursor \<and>
     (\<forall>y x. 0 \<le> y \<and> y < rows \<and> 0 \<le> x \<and> x < cols \<longrightarrow>
        at_cell (fr_cells f) y x = fold (\<lambda>p. pane_cell p y x) ps blank_cell)"
  by (rule compose_frame[OF assms])

definition left_pane :: pane where
  "left_pane = \<lparr>pn_col = 0, pn_row = 0, pn_cols = 1, pn_rows = 1,
     pn_grid = [[\<lparr>content = [0xe4, 0xb8, 0x96], width = 2, style = no_style\<rparr>, cont_cell no_style]],
     pn_cursor = zero_cursor\<lparr>c_visible := True\<rparr>, pn_focused = True\<rparr>"

theorem compose_pointwise_witness:
  "\<exists>f. compose 3 1 [left_pane, left_pane\<lparr>pn_col := 1, pn_cols := 2, pn_focused := False\<rparr>] = Some f \<and>
     at_cell (fr_cells f) 0 0 = blank_cell \<and> width (at_cell (fr_cells f) 0 1) = 2 \<and> c_col (fr_cur f) = 0"
  using compose_pointwise[of 3 1 "[left_pane, left_pane\<lparr>pn_col := 1, pn_cols := 2, pn_focused := False\<rparr>]"]
  by (auto simp: pane_cell_def own_cell_def Let_def left_pane_def blank_cell_def space_cell_def pane_cursor_def
      zero_cursor_def clamp_def)

definition covers :: "pane \<Rightarrow> int \<Rightarrow> int \<Rightarrow> bool" where
  "covers p y x \<longleftrightarrow> pn_row p \<le> y \<and> y < pn_row p + pn_rows p \<and> pn_col p \<le> x \<and> x < pn_col p + pn_cols p"

lemma uncovered: "0 < pn_cols p \<Longrightarrow> \<not> covers p y x \<Longrightarrow> pane_cell p y x old = old"
  by (auto simp: pane_cell_def own_cell_def covers_def Let_def)

lemma fold_uncovered: "\<forall>q \<in> set qs. 0 < pn_cols q \<and> \<not> covers q y x \<Longrightarrow> fold (\<lambda>p. pane_cell p y x) qs old = old"
  by (induction qs arbitrary: old) (simp_all add: uncovered)

text \<open>
  A pane cannot draw outside its rectangle: a cell that only one pane's rectangle covers is what
  that pane makes of a blank screen, whatever the other panes show, and a cell no pane covers is
  blank - for panes of at least one column.
\<close>

theorem panes_keep_apart:
  assumes "0 \<le> cols" "0 \<le> rows" "0 \<le> y" "y < rows" "0 \<le> x" "x < cols"
    and "\<forall>q \<in> set qs \<union> set rs. 0 < pn_cols q \<and> \<not> covers q y x" "0 < pn_cols p"
  shows "\<exists>f. compose cols rows (qs @ p # rs) = Some f \<and>
     at_cell (fr_cells f) y x = (if covers p y x then pane_cell p y x blank_cell else blank_cell)"
proof -
  obtain f where f: "compose cols rows (qs @ p # rs) = Some f"
    "at_cell (fr_cells f) y x = fold (\<lambda>p. pane_cell p y x) (qs @ p # rs) blank_cell"
    using compose_frame[OF assms(1,2), of "qs @ p # rs"] assms(3-6) by blast
  then show ?thesis using fold_uncovered[of qs y x] fold_uncovered[of rs y x] assms(7,8) uncovered[of p y x] by simp
qed

theorem panes_keep_apart_witness:
  "\<exists>f. compose 3 1 [left_pane, left_pane\<lparr>pn_col := 1, pn_cols := 2\<rparr>] = Some f \<and> width (at_cell (fr_cells f) 0 1) = 2"
  using panes_keep_apart[of 3 1 0 1 "[left_pane]" "[]" "left_pane\<lparr>pn_col := 1, pn_cols := 2\<rparr>"]
  by (auto simp: covers_def pane_cell_def own_cell_def Let_def left_pane_def)

end
