(* ===== verification/Render.thy ===== *)
theory Render
  imports Emulator Layout
begin

text \<open>
  \<open>src/internal/vt/render/render.go\<close>: the bytes that draw a grid on a terminal. The theorems read
  them back with the emulator: the attribute sequences set exactly the style that was asked for.
\<close>

section \<open>Attributes\<close>

text \<open>A number as the field of a control sequence.\<close>

fun join_params :: "bytes list \<Rightarrow> bytes" where
  "join_params [] = []"
| "join_params [f] = f"
| "join_params (f # fs) = f @ 0x3b # join_params fs"

definition color_codes :: "color \<Rightarrow> bool \<Rightarrow> int list" where
  "color_codes c bg =
     (let base = (if bg then 40 else 30) in
      case col_kind c of
        ColorIndexed \<Rightarrow>
          (if col_index c < 8 then [base + uint (col_index c)]
           else if col_index c < 16 then [base + 60 + uint (col_index c) - 8]
           else [base + 8, 5, uint (col_index c)])
      | ColorRGB \<Rightarrow> [base + 8, 2, uint (col_r c), uint (col_g c), uint (col_b c)]
      | ColorDefault \<Rightarrow> [base + 9])"

definition flag :: "bool \<Rightarrow> int \<Rightarrow> int list" where
  "flag on code = (if on then [code] else [])"

definition attr_codes :: "style \<Rightarrow> style \<Rightarrow> int list" where
  "attr_codes from to =
     flag (st_bold to \<and> \<not> st_bold from) 1 @ flag (st_faint to \<and> \<not> st_faint from) 2 @
     flag (st_italic to \<and> \<not> st_italic from) 3 @ flag (st_underline to \<and> \<not> st_underline from) 4 @
     flag (st_blink to \<and> \<not> st_blink from) 5 @ flag (st_reverse to \<and> \<not> st_reverse from) 7 @
     flag (st_strike to \<and> \<not> st_strike from) 9 @
     (if st_fg to \<noteq> st_fg from then color_codes (st_fg to) False else []) @
     (if st_bg to \<noteq> st_bg from then color_codes (st_bg to) True else [])"

definition attrs :: "style \<Rightarrow> style \<Rightarrow> bytes" where
  "attrs from to =
     (let ps = attr_codes from to in
      if ps = [] then [] else 0x1b # 0x5b # join_params (map itoa ps) @ [0x6d])"

definition turns_something_off :: "style \<Rightarrow> style \<Rightarrow> bool" where
  "turns_something_off from to \<longleftrightarrow>
     (st_bold from \<and> \<not> st_bold to) \<or> (st_faint from \<and> \<not> st_faint to) \<or> (st_italic from \<and> \<not> st_italic to) \<or>
     (st_underline from \<and> \<not> st_underline to) \<or> (st_blink from \<and> \<not> st_blink to) \<or>
     (st_reverse from \<and> \<not> st_reverse to) \<or> (st_strike from \<and> \<not> st_strike to) \<or>
     (st_fg from \<noteq> st_fg to \<and> col_kind (st_fg to) = ColorDefault) \<or>
     (st_bg from \<noteq> st_bg to \<and> col_kind (st_bg to) = ColorDefault)"

definition sgr_bytes :: "style \<Rightarrow> style \<Rightarrow> bytes" where
  "sgr_bytes from to =
     (if turns_something_off from to then (0x1b # bstr ''[0m'') @ attrs no_style to else attrs from to)"

section \<open>A screen\<close>

text \<open>\<open>ESC [ row ; col H\<close>\<close>

definition move_bytes :: "int \<Rightarrow> int \<Rightarrow> bytes" where
  "move_bytes row col = 0x1b # 0x5b # itoa row @ 0x3b # itoa col @ [0x48]"

definition link_bytes :: "bytes \<Rightarrow> bytes" where
  "link_bytes url = (0x1b # bstr '']8;;'') @ url @ [0x1b, 0x5c]"

definition visible_content :: "cell \<Rightarrow> bytes" where
  "visible_content c = (if content c = [] then [0x20] else content c)"

text \<open>One cell: what it adds to the output, and the style the terminal is left in.\<close>

definition cell_bytes :: "style \<Rightarrow> cell \<Rightarrow> bytes \<times> style" where
  "cell_bytes st c =
     (if content c = [] \<and> width c = 0 then ([], st)
      else let lb = (if st_link (style c) \<noteq> st_link st then link_bytes (st_link (style c)) else []);
               st1 = (if st_link (style c) \<noteq> st_link st then st\<lparr>st_link := st_link (style c)\<rparr> else st);
               sb = (if style c \<noteq> st1 then sgr_bytes st1 (style c) else [])
           in (lb @ sb @ visible_content c, style c))"

fun row_bytes :: "style \<Rightarrow> cell list \<Rightarrow> bytes \<times> style" where
  "row_bytes st [] = ([], st)"
| "row_bytes st (c # cs) =
     (let cb = cell_bytes st c; rb = row_bytes (snd cb) cs in (fst cb @ fst rb, snd rb))"

fun rows_bytes :: "int \<Rightarrow> int \<Rightarrow> style \<Rightarrow> cell list list \<Rightarrow> bytes \<times> style" where
  "rows_bytes cols r st [] = ([], st)"
| "rows_bytes cols r st (row # rows) =
     (let mb = (if r > 0 then move_bytes (r + 1) 1 else []);
          rb = row_bytes st (take (nat cols) row);
          rest = rows_bytes cols (r + 1) (snd rb) rows
      in (mb @ fst rb @ fst rest, snd rest))"

text \<open>The width of the character that occupies a column, searching back over continuation cells.\<close>

fun width_back :: "nat \<Rightarrow> cell list \<Rightarrow> int" where
  "width_back k row =
     (if content (row ! k) \<noteq> [] then max (width (row ! k)) 1
      else case k of 0 \<Rightarrow> 1 | Suc j \<Rightarrow> width_back j row)"

declare width_back.simps [simp del]

definition width_at :: "cell list list \<Rightarrow> int \<Rightarrow> int \<Rightarrow> int option" where
  "width_at grid row col =
     (if row \<ge> int (length grid) then Some 1
      else do {
        line \<leftarrow> idx grid row;
        if col \<ge> int (length line) then Some 1
        else Some (if col < 0 then 1 else width_back (nat col) line) })"

definition grid_cell :: "cell list list \<Rightarrow> int \<Rightarrow> int \<Rightarrow> cell option" where
  "grid_cell grid row col =
     (if row < 0 \<or> row \<ge> int (length grid) then None
      else if col < 0 \<or> col \<ge> int (length (grid ! nat row)) then None
      else Some (grid ! nat row ! nat col))"

definition show_bytes :: "bool \<Rightarrow> bytes" where
  "show_bytes visible = (if visible then 0x1b # bstr ''[?25h'' else 0x1b # bstr ''[?25l'')"

definition clear_bytes :: bytes where
  "clear_bytes = (0x1b # bstr ''[0m'') @ (0x1b # bstr ''[r'') @ (0x1b # bstr ''[H'') @ (0x1b # bstr ''[2J'')"

definition screen :: "int \<Rightarrow> int \<Rightarrow> cell list list \<Rightarrow> cursor \<Rightarrow> bytes option" where
  "screen cols rows grid cur =
     (let rb = rows_bytes cols 0 no_style (take (nat rows) grid);
          st = snd rb;
          body = clear_bytes @ fst rb @ (if st \<noteq> no_style then 0x1b # bstr ''[0m'' else [])
      in if c_pending cur then do {
           w \<leftarrow> width_at grid (c_row cur) (cols - 1);
           let (again, st1) =
             (case grid_cell grid (c_row cur) (cols - w) of
                None \<Rightarrow> ([], st)
              | Some c \<Rightarrow> (move_bytes (c_row cur + 1) (cols - w + 1) @ sgr_bytes st (style c) @ visible_content c, style c));
           let (lb, st2) = (if st_link st1 \<noteq> [] then (link_bytes [], st1\<lparr>st_link := []\<rparr>) else ([], st1));
           Some (body @ again @ lb @ (if st2 \<noteq> no_style then 0x1b # bstr ''[0m'' else []) @ show_bytes (c_visible cur)) }
         else Some (body @ (if st_link st \<noteq> [] then link_bytes [] else []) @
                    move_bytes (c_row cur + 1) (c_col cur + 1) @ show_bytes (c_visible cur)))"

text \<open>What the renderer draws of a terminal.\<close>

definition term_screen :: "vterm \<Rightarrow> bytes option" where
  "term_screen t = screen (t_cols t) (t_rows t) (snapshot t) (cursor_of t)"

section \<open>Reading attributes back\<close>

lemma split_on_no_sep: "sep \<notin> set f \<Longrightarrow> split_on sep f = [f]"
  by (induction f) auto

lemma split_on_append: "sep \<notin> set f \<Longrightarrow> split_on sep (f @ sep # s) = f # split_on sep s"
  by (induction f) auto

lemma split_join:
  "fs \<noteq> [] \<Longrightarrow> \<forall>f \<in> set fs. 0x3b \<notin> set f \<Longrightarrow> split_on 0x3b (join_params fs) = fs"
  by (induction fs rule: join_params.induct) (auto simp: split_on_no_sep split_on_append)

lemma itoa_digits: "0 \<le> n \<Longrightarrow> list_all is_digit (itoa n) \<and> itoa n \<noteq> []"
  by (simp add: itoa_def nat_digits_digits)

lemma digit_facts: "is_digit c \<Longrightarrow> c \<noteq> 0x3b \<and> 0x30 \<le> c \<and> c \<le> 0x3f"
  by (auto simp: is_digit_def word_le_nat_alt)

lemma params_join:
  assumes "ns \<noteq> []" "\<forall>n \<in> set ns. 0 \<le> n \<and> n \<le> max_int64"
  shows "params (join_params (map itoa ns)) = ns"
proof -
  have d: "0x3b \<notin> set (itoa n)" "itoa n \<noteq> []" if "0 \<le> n" for n
    using itoa_digits[OF that] digit_facts by (auto simp: list_all_iff)
  have "split_on 0x3b (join_params (map itoa ns)) = map itoa ns"
    using assms d by (intro split_join) auto
  moreover have "join_params (map itoa ns) \<noteq> []"
    using assms d by (cases "map itoa ns" rule: join_params.cases) auto
  moreover have "map (\<lambda>f. if f = [] then -1 else fst (atoi f)) (map itoa ns) = ns"
    using assms(2) d by (auto simp: atoi_itoa intro!: map_idI)
  ultimately show ?thesis by (simp add: params_def)
qed

lemma params_bytes:
  assumes "\<forall>n \<in> set ns. 0 \<le> n"
  shows "\<forall>c \<in> set (join_params (map itoa ns)). 0x30 \<le> c \<and> c \<le> 0x3f"
proof -
  have j: "set (join_params fs) \<subseteq> insert 0x3b (\<Union> (set ` set fs))" for fs
    by (induction fs rule: join_params.induct) auto
  have i: "0x30 \<le> c \<and> c \<le> 0x3f" if "c \<in> set (itoa n)" "0 \<le> n" for c n
    using that itoa_digits[OF that(2)] digit_facts by (auto simp: list_all_iff)
  show ?thesis using j[of "map itoa ns"] i assms by fastforce
qed

text \<open>A whole control sequence through the parser.\<close>

lemma csi_params:
  assumes "\<forall>c \<in> set ps. 0x30 \<le> c \<and> c \<le> 0x3f" "p_state p = Csi"
  shows "feed mark ps (t, p) = Some (t, p\<lparr>p_params := p_params p @ ps\<rparr>)"
  using assms
proof (induction ps arbitrary: p)
  case (Cons c ps)
  have "step1 mark c (t, p) = Some (t, p\<lparr>p_params := p_params p @ [c]\<rparr>)"
    using Cons.prems by (simp add: step1_def step_def csi_def)
  then show ?case using Cons.IH[of "p\<lparr>p_params := p_params p @ [c]\<rparr>"] Cons.prems by (simp add: feed_Cons1)
qed simp

definition at_rest :: "parser \<Rightarrow> bool" where
  "at_rest p \<longleftrightarrow> p_state p = Ground \<and> p_utf8 p = [] \<and> \<not> p_invalid p"

lemma csi_sequence:
  assumes "at_rest p" "\<forall>c \<in> set ps. 0x30 \<le> c \<and> c \<le> 0x3f" "0x40 \<le> f" "f \<le> 0x7e"
  shows "feed mark (0x1b # 0x5b # ps @ [f]) (t, p) =
     map_option (\<lambda>t'. (t', p\<lparr>p_params := ps, p_inter := []\<rparr>)) (dispatch f ps [] t)"
proof -
  let ?p1 = "p\<lparr>p_state := Escape, p_params := [], p_inter := []\<rparr>"
  let ?p2 = "p\<lparr>p_state := Csi, p_params := [], p_inter := []\<rparr>"
  let ?p3 = "p\<lparr>p_state := Csi, p_params := ps, p_inter := []\<rparr>"
  have s1: "step1 mark 0x1b (t, p) = Some (t, ?p1)"
    using assms(1) by (simp add: step1_def step_def ground_def cut_short_def at_rest_def)
  have s2: "step1 mark 0x5b (t, ?p1) = Some (t, ?p2)" by (simp add: step1_def step_def escape_def)
  have s3: "feed mark ps (t, ?p2) = Some (t, ?p3)" using csi_params[OF assms(2), of ?p2] by simp
  have f: "\<not> (0x30 \<le> f \<and> f \<le> 0x3f)" "\<not> (0x20 \<le> f \<and> f \<le> 0x2f)" "f \<noteq> 0x1b" "\<not> f < 0x20" "\<not> (f < 0x40 \<or> f > 0x7e)"
    using assms(3,4) by (auto simp: word_le_nat_alt word_less_nat_alt)
  have "p\<lparr>p_params := ps, p_inter := []\<rparr> = to_ground ?p3" using assms(1) by (cases p) (simp add: to_ground_def at_rest_def)
  then have s4: "step1 mark f (t, ?p3) = map_option (\<lambda>t'. (t', p\<lparr>p_params := ps, p_inter := []\<rparr>)) (dispatch f ps [] t)"
    by (cases "dispatch f ps [] t") (simp_all add: step1_def step_def csi_def f del: not_less not_le de_Morgan_conj)
  have "feed mark [] = Some" by (rule ext) simp
  then show ?thesis using s1 s2 s3 s4 by (simp add: feed_Cons1 feed_append)
qed


text \<open>A colour whose unused fields are clear, which is how the parser and \<open>no_color\<close> make them.\<close>

definition color_ok :: "color \<Rightarrow> bool" where
  "color_ok c \<longleftrightarrow>
     (case col_kind c of
        ColorDefault \<Rightarrow> c = no_color
      | ColorIndexed \<Rightarrow> c = no_color\<lparr>col_kind := ColorIndexed, col_index := col_index c\<rparr>
      | ColorRGB \<Rightarrow> c = no_color\<lparr>col_kind := ColorRGB, col_r := col_r c, col_g := col_g c, col_b := col_b c\<rparr>)"

definition style_ok :: "style \<Rightarrow> bool" where
  "style_ok s \<longleftrightarrow> color_ok (st_fg s) \<and> color_ok (st_bg s) \<and> st_hyperlink s = []"

lemma sgr_flag:
  "n \<noteq> 38 \<Longrightarrow> n \<noteq> 48 \<Longrightarrow> sgr_loop (flag b n @ rest) s = sgr_loop rest (if b then sgr_one n s else s)"
  by (simp add: flag_def)

lemma byte_of_uint: "word_of_int (uint (b :: byte)) = b"
  by simp

lemma index_range: "0 \<le> uint (i :: byte) \<and> uint i < 256"
  using uint_lt2p[of i] by simp

lemma byte_less_uint:
  "((b :: byte) < 8) = (uint b < 8)" "((b :: byte) < 16) = (uint b < 16)"
  unfolding word_less_def by simp_all

lemma sgr_one_indexed:
  "0 \<le> n \<Longrightarrow> n < 8 \<Longrightarrow> sgr_one (30 + n) s = s\<lparr>st_fg := indexed n\<rparr>"
  "8 \<le> n \<Longrightarrow> n < 16 \<Longrightarrow> sgr_one (82 + n) s = s\<lparr>st_fg := indexed n\<rparr>"
  "0 \<le> n \<Longrightarrow> n < 8 \<Longrightarrow> sgr_one (40 + n) s = s\<lparr>st_bg := indexed n\<rparr>"
  "8 \<le> n \<Longrightarrow> n < 16 \<Longrightarrow> sgr_one (92 + n) s = s\<lparr>st_bg := indexed n\<rparr>"
  by (simp_all add: sgr_one_def)

lemma color_codes_indexed:
  assumes "0 \<le> n" "n < 256"
  shows "color_codes (indexed n) bg =
     (if n < 8 then [(if bg then 40 else 30) + n] else if n < 16 then [(if bg then 92 else 82) + n]
      else [if bg then 48 else 38, 5, n])"
proof -
  have u: "uint (word_of_int n :: byte) = n" using assms by (simp add: uint_word_of_int)
  then have "((word_of_int n :: byte) < 8) = (n < 8)" "((word_of_int n :: byte) < 16) = (n < 16)"
    by (simp_all only: byte_less_uint)
  then show ?thesis using u by (simp add: color_codes_def indexed_def)
qed

lemma color_ok_cases:
  assumes "color_ok c"
  obtains "c = no_color"
  | n where "c = indexed n" "0 \<le> n" "n < 256"
  | r g b where "c = rgb (uint r) (uint g) (uint b)" "col_kind c = ColorRGB" "col_r c = r" "col_g c = g" "col_b c = b"
proof (cases "col_kind c")
  case ColorDefault
  then show ?thesis using assms that(1) by (simp add: color_ok_def)
next
  case ColorIndexed
  then show ?thesis using assms that(2)[of "uint (col_index c)"] index_range[of "col_index c"]
    by (simp add: color_ok_def indexed_def)
next
  case ColorRGB
  then show ?thesis using assms that(3)[of "col_r c" "col_g c" "col_b c"] by (simp add: color_ok_def rgb_def)
qed

lemma sgr_color:
  assumes "color_ok c"
  shows "sgr_loop (color_codes c bg @ rest) s = sgr_loop rest (if bg then s\<lparr>st_bg := c\<rparr> else s\<lparr>st_fg := c\<rparr>)"
  using assms
proof (cases rule: color_ok_cases)
  case 1
  then show ?thesis by (simp add: color_codes_def sgr_one_def no_color_def)
next
  case (2 n)
  consider "n < 8" | "8 \<le> n" "n < 16" | "16 \<le> n" by linarith
  then show ?thesis
  proof cases
    case 1
    then show ?thesis using 2 sgr_one_indexed(1,3)[of n s] by (simp add: color_codes_indexed)
  next
    case 2
    then show ?thesis using \<open>c = indexed n\<close> \<open>n < 256\<close> sgr_one_indexed(2,4)[of n s] by (simp add: color_codes_indexed)
  next
    case 3
    then show ?thesis using 2 by (simp add: color_codes_indexed extended_color_def Let_def eval_nat_numeral)
  qed
next
  case (3 r g b)
  have "color_codes c bg = [if bg then 48 else 38, 2, uint r, uint g, uint b]" using 3(2-5) by (simp add: color_codes_def)
  then show ?thesis using 3(1) by (simp add: extended_color_def Let_def eval_nat_numeral)
qed

text \<open>Switching on what is missing leaves the attribute as it should be.\<close>

lemma switch_on:
  "(bf \<longrightarrow> bt) \<Longrightarrow> st_bold s = bf \<Longrightarrow> (if bt \<and> \<not> bf then sgr_one 1 s else s) = s\<lparr>st_bold := bt\<rparr>"
  "(bf \<longrightarrow> bt) \<Longrightarrow> st_faint s = bf \<Longrightarrow> (if bt \<and> \<not> bf then sgr_one 2 s else s) = s\<lparr>st_faint := bt\<rparr>"
  "(bf \<longrightarrow> bt) \<Longrightarrow> st_italic s = bf \<Longrightarrow> (if bt \<and> \<not> bf then sgr_one 3 s else s) = s\<lparr>st_italic := bt\<rparr>"
  "(bf \<longrightarrow> bt) \<Longrightarrow> st_underline s = bf \<Longrightarrow> (if bt \<and> \<not> bf then sgr_one 4 s else s) = s\<lparr>st_underline := bt\<rparr>"
  "(bf \<longrightarrow> bt) \<Longrightarrow> st_blink s = bf \<Longrightarrow> (if bt \<and> \<not> bf then sgr_one 5 s else s) = s\<lparr>st_blink := bt\<rparr>"
  "(bf \<longrightarrow> bt) \<Longrightarrow> st_reverse s = bf \<Longrightarrow> (if bt \<and> \<not> bf then sgr_one 7 s else s) = s\<lparr>st_reverse := bt\<rparr>"
  "(bf \<longrightarrow> bt) \<Longrightarrow> st_strike s = bf \<Longrightarrow> (if bt \<and> \<not> bf then sgr_one 9 s else s) = s\<lparr>st_strike := bt\<rparr>"
  by (cases s; cases bt; cases bf; simp add: sgr_one_def)+

text \<open>The codes that switch on what is missing do that.\<close>

lemma sgr_attr_codes:
  assumes "style_ok to" "style_ok from" "\<not> turns_something_off from to"
  shows "sgr_loop (attr_codes from to) from = to\<lparr>st_link := st_link from\<rparr>"
proof -
  let ?fg = "if st_fg to \<noteq> st_fg from then color_codes (st_fg to) False else []"
  let ?bg = "if st_bg to \<noteq> st_bg from then color_codes (st_bg to) True else []"
  have ok: "color_ok (st_fg to)" "color_ok (st_bg to)" using assms(1) by (simp_all add: style_ok_def)
  have f: "sgr_loop (?fg @ rest) s = sgr_loop rest (if st_fg to \<noteq> st_fg from then s\<lparr>st_fg := st_fg to\<rparr> else s)" for s rest
    using sgr_color[OF ok(1), of False] by simp
  have b: "sgr_loop ?bg s = (if st_bg to \<noteq> st_bg from then s\<lparr>st_bg := st_bg to\<rparr> else s)" for s
    using sgr_color[OF ok(2), of True "[]" s] by simp
  have off: "st_bold from \<longrightarrow> st_bold to" "st_faint from \<longrightarrow> st_faint to" "st_italic from \<longrightarrow> st_italic to"
    "st_underline from \<longrightarrow> st_underline to" "st_blink from \<longrightarrow> st_blink to" "st_reverse from \<longrightarrow> st_reverse to"
    "st_strike from \<longrightarrow> st_strike to"
    using assms(3) by (simp_all add: turns_something_off_def)
  let ?on = "from\<lparr>st_bold := st_bold to, st_faint := st_faint to, st_italic := st_italic to,
      st_underline := st_underline to, st_blink := st_blink to, st_reverse := st_reverse to, st_strike := st_strike to\<rparr>"
  let ?f = "if st_fg to \<noteq> st_fg from then ?on\<lparr>st_fg := st_fg to\<rparr> else ?on"
  have "sgr_loop (attr_codes from to) from = sgr_loop ?bg ?f"
    unfolding attr_codes_def by (simp add: sgr_flag f switch_on off del: if_split)
  then have l: "sgr_loop (attr_codes from to) from = (if st_bg to \<noteq> st_bg from then ?f\<lparr>st_bg := st_bg to\<rparr> else ?f)"
    unfolding b .
  show ?thesis unfolding l using assms(1,2) by (cases "from"; cases "to"; simp add: style_ok_def)
qed


lemma color_codes_range: "n \<in> set (color_codes c bg) \<Longrightarrow> 0 \<le> n \<and> n \<le> 255"
  using index_range[of "col_index c"] index_range[of "col_r c"] index_range[of "col_g c"] index_range[of "col_b c"]
    byte_less_uint[of "col_index c"]
  by (cases "col_kind c") (auto simp: color_codes_def split: if_split_asm)

lemma attr_codes_range: "n \<in> set (attr_codes from to) \<Longrightarrow> 0 \<le> n \<and> n \<le> max_int64"
  using color_codes_range by (force simp: attr_codes_def flag_def max_int64_def split: if_split_asm)

lemma sgr_sequence:
  assumes "at_rest p" "ns \<noteq> []" "\<forall>n \<in> set ns. 0 \<le> n \<and> n \<le> max_int64"
  shows "\<exists>p'. feed mark (0x1b # 0x5b # join_params (map itoa ns) @ [0x6d]) (t, p) =
     Some (t\<lparr>t_style := sgr_loop ns (t_style t)\<rparr>, p') \<and> at_rest p'"
proof -
  let ?ps = "join_params (map itoa ns)"
  have d: "\<forall>c \<in> set ?ps. 0x30 \<le> c \<and> c \<le> 0x3f" using params_bytes assms(3) by blast
  obtain n ns' where ns: "ns = n # ns'" using assms(2) by (cases ns) auto
  have hd: "hd ?ps \<noteq> 0x3f"
  proof -
    have i: "itoa n \<noteq> []" "list_all is_digit (itoa n)" using itoa_digits[of n] assms(3) ns by auto
    then obtain c cs where "itoa n = c # cs" "is_digit c" by (cases "itoa n") auto
    moreover have "hd ?ps = hd (itoa n)" using i ns by (cases ns') auto
    ultimately show ?thesis by (auto simp: is_digit_def)
  qed
  have "dispatch 0x6d ?ps [] t = Some (sgr (params ?ps) t)"
    using hd by (simp add: dispatch_def dispatch_public_def is_move_def Let_def)
  then have "dispatch 0x6d ?ps [] t = Some (t\<lparr>t_style := sgr_loop ns (t_style t)\<rparr>)"
    using params_join[OF assms(2,3)] assms(2) by (simp add: sgr_def)
  then have "feed mark (0x1b # 0x5b # ?ps @ [0x6d]) (t, p) =
      Some (t\<lparr>t_style := sgr_loop ns (t_style t)\<rparr>, p\<lparr>p_params := ?ps, p_inter := []\<rparr>)"
    by (subst csi_sequence[OF assms(1) d]) simp_all
  then show ?thesis using assms(1) by (auto simp: at_rest_def)
qed

lemma attrs_read:
  assumes "at_rest p" "style_ok (t_style t)" "style_ok to" "\<not> turns_something_off (t_style t) to"
  shows "\<exists>p'. feed mark (attrs (t_style t) to) (t, p) = Some (t\<lparr>t_style := to\<lparr>st_link := st_link (t_style t)\<rparr>\<rparr>, p') \<and> at_rest p'"
proof (cases "attr_codes (t_style t) to = []")
  case True
  then have "to\<lparr>st_link := st_link (t_style t)\<rparr> = t_style t" using sgr_attr_codes[OF assms(3,2,4)] by simp
  then show ?thesis using True assms(1) by (auto simp: attrs_def Let_def)
next
  case False
  then show ?thesis
    using sgr_sequence[OF assms(1) False, of mark t] attr_codes_range sgr_attr_codes[OF assms(3,2,4)]
    by (auto simp: attrs_def Let_def)
qed

lemma nothing_off_plain: "style_ok to \<Longrightarrow> \<not> turns_something_off no_style to"
  by (auto simp: turns_something_off_def no_style_def style_ok_def color_ok_def split: color_kind.split_asm)

lemma style_ok_plain: "style_ok no_style"
  by (simp add: style_ok_def no_style_def color_ok_def no_color_def)

lemma reset_read:
  assumes "at_rest p"
  shows "\<exists>p'. feed mark (0x1b # bstr ''[0m'') (t, p) = Some (t\<lparr>t_style := no_style\<rparr>, p') \<and> at_rest p'"
proof -
  have "itoa 0 = [0x30]" by (simp add: itoa_def nat_digits.simps)
  moreover have "sgr_loop [0] (t_style t) = no_style" by (simp add: sgr_one_def)
  ultimately show ?thesis using sgr_sequence[OF assms, of "[0]" mark t] by (simp add: max_int64_def del: sgr_loop.simps)
qed

section \<open>Properties\<close>

text \<open>
  The attribute sequence the renderer writes between two styles is read back as exactly the
  second style: whatever is on or off in either, in any of the colour forms, a terminal drawing in
  the first style draws in the second after it, and nothing else about the terminal changes - save
  that a sequence which has to reset also ends the hyperlink that was open.
\<close>

theorem attributes_read_back:
  assumes "at_rest p" "style_ok (t_style t)" "style_ok to" "st_link (t_style t) = st_link to"
  shows "\<exists>p'. feed mark (sgr_bytes (t_style t) to) (t, p) =
     Some (t\<lparr>t_style := (if turns_something_off (t_style t) to then to\<lparr>st_link := []\<rparr> else to)\<rparr>, p') \<and> at_rest p'"
proof (cases "turns_something_off (t_style t) to")
  case False
  have "to\<lparr>st_link := st_link (t_style t)\<rparr> = to" using assms(4) by simp
  then show ?thesis using attrs_read[OF assms(1-3) False, of mark] False by (simp add: sgr_bytes_def)
next
  case True
  let ?t1 = "t\<lparr>t_style := no_style\<rparr>"
  obtain p1 where p1: "feed mark (0x1b # bstr ''[0m'') (t, p) = Some (?t1, p1)" "at_rest p1"
    using reset_read[OF assms(1)] by blast
  have "style_ok (t_style ?t1)" "\<not> turns_something_off (t_style ?t1) to"
    using style_ok_plain nothing_off_plain[OF assms(3)] by simp_all
  from attrs_read[OF p1(2) this(1) assms(3) this(2), of mark] obtain p2 where
    "feed mark (attrs no_style to) (?t1, p1) = Some (t\<lparr>t_style := to\<lparr>st_link := []\<rparr>\<rparr>, p2)" "at_rest p2"
    by (auto simp: no_style_def)
  then have "feed mark ((0x1b # bstr ''[0m'') @ attrs no_style to) (t, p) = Some (t\<lparr>t_style := to\<lparr>st_link := []\<rparr>\<rparr>, p2)"
    unfolding feed_append using p1(1) by simp
  then show ?thesis using True \<open>at_rest p2\<close> by (auto simp: sgr_bytes_def)
qed

theorem attributes_read_back_witness:
  "\<exists>p'. feed no_marks (sgr_bytes (no_style\<lparr>st_bold := True, st_fg := indexed 3\<rparr>) (no_style\<lparr>st_bg := rgb 1 2 3\<rparr>))
     ((new_term 2 1)\<lparr>t_style := no_style\<lparr>st_bold := True, st_fg := indexed 3\<rparr>\<rparr>, new_parser) =
     Some ((new_term 2 1)\<lparr>t_style := no_style\<lparr>st_bg := rgb 1 2 3\<rparr>\<rparr>, p')"
proof -
  let ?t = "(new_term 2 1)\<lparr>t_style := no_style\<lparr>st_bold := True, st_fg := indexed 3\<rparr>\<rparr>"
  let ?to = "no_style\<lparr>st_bg := rgb 1 2 3\<rparr>"
  have "at_rest new_parser" "style_ok (t_style ?t)" "style_ok ?to" "st_link (t_style ?t) = st_link ?to"
    "?to\<lparr>st_link := []\<rparr> = ?to"
    by (simp_all add: at_rest_def new_parser_def style_ok_def color_ok_def no_style_def no_color_def indexed_def rgb_def)
  then show ?thesis using attributes_read_back[of new_parser ?t ?to no_marks] by auto
qed

text \<open>
  An operating-system command ended by ST (\<open>ESC\<close> and a backslash) rather than BEL is obeyed at the ESC, and the
  backslash that completes the terminator is then drawn on the screen as text. The renderer itself
  ends its hyperlinks that way, so a screen with a link on it does not read back as itself.
\<close>

theorem string_terminator_is_drawn:
  "map_option (\<lambda>(t, p). (t_title t, map (map content) (t_cells t)))
     (feed no_marks ([0x1b] @ bstr '']0;t'' @ [0x1b, 0x5c] @ bstr ''x'') (new_emu 3 1)) =
   Some (bstr ''t'', [[[0x5c], [0x78], [0x20]]]) \<and>
   map_option (\<lambda>(t, p). (t_title t, map (map content) (t_cells t)))
     (feed no_marks ([0x1b] @ bstr '']0;t'' @ [0x07] @ bstr ''x'') (new_emu 3 1)) =
   Some (bstr ''t'', [[[0x78], [0x20], [0x20]]]) \<and>
   Option.bind (screen 3 1 [[\<lparr>content = [0x61], width = 1, style = no_style\<lparr>st_link := [0x75]\<rparr>\<rparr>]] (zero_cursor\<lparr>c_visible := True\<rparr>))
     (\<lambda>b. map_option (\<lambda>(t, p). map (map content) (t_cells t)) (feed no_marks b (new_emu 3 1))) =
   Some [[[0x5c], [0x61], [0x5c]]]"
  by (intro conjI; code_simp)

text \<open>
  When the cursor waits to wrap behind a cell that has the style of the last cell drawn, the
  renderer has already reset the attributes but still takes the terminal to be in that style, so it
  writes the cell again without its attributes. A bold line that fills the bottom row reads back
  with its last character plain.
\<close>

theorem pending_cell_loses_its_style:
  "Option.bind (feed no_marks ([0x1b] @ bstr ''[1mab'') (new_emu 2 1)) (\<lambda>(t, p).
     Option.bind (term_screen t) (\<lambda>b. map_option (\<lambda>(u, q).
       (c_pending (cursor_of u),
        map (map (\<lambda>c. (content c, st_bold (style c)))) (t_cells t),
        map (map (\<lambda>c. (content c, st_bold (style c)))) (t_cells u))) (feed no_marks b (new_emu 2 1)))) =
   Some (True, [[([0x61], True), ([0x62], True)]], [[([0x61], True), ([0x62], False)]])"
  by code_simp

end
