(* ===== verification/TermModes.thy ===== *)
theory TermModes
  imports Prelude "HOL-Library.AList" "HOL-Library.Product_Lexorder"
begin

text \<open>
  \<open>src/internal/fabric/termmodes.go\<close>: the terminal modes a stream of output leaves switched on,
  what puts them back when the stream is replayed and what takes them off again. The map \<open>on\<close> is an
  association list with distinct keys. The mutex is not modelled: each method is one step.
\<close>

record term_modes =
  tm_on :: "(int \<times> bool) list"
  tm_keypad :: bool
  tm_carry :: bytes

definition no_modes :: term_modes where
  "no_modes = \<lparr>tm_on = [], tm_keypad = False, tm_carry = []\<rparr>"

definition tracked_modes :: "int \<Rightarrow> bool option" where
  "tracked_modes = map_of [(1, False), (25, True), (47, False), (1047, False), (1049, False),
     (1000, False), (1002, False), (1003, False), (1004, False), (1005, False), (1006, False),
     (1015, False), (2004, False)]"

definition max_carry :: nat where
  "max_carry = 64"

section \<open>Following the stream\<close>

text \<open>One number of a mode switch: \<open>sets\<close> is whether it is switched on.\<close>

definition switch_mode :: "bool \<Rightarrow> bytes \<Rightarrow> term_modes \<Rightarrow> term_modes" where
  "switch_mode sets f t =
     (case atoi f of
        (n, False) \<Rightarrow> t
      | (n, True) \<Rightarrow>
          (case tracked_modes n of
             None \<Rightarrow> t
           | Some def \<Rightarrow>
               if sets = def then t\<lparr>tm_on := AList.delete n (tm_on t)\<rparr>
               else t\<lparr>tm_on := AList.update n sets (tm_on t)\<rparr>))"

definition is_param :: "byte \<Rightarrow> bool" where
  "is_param c \<longleftrightarrow> is_digit c \<or> c = 0x3b"

text \<open>
  The escape sequence at the start of \<open>p\<close>: how long it is and the state after it, or \<open>None\<close> when \<open>p\<close>
  ends before it does.
\<close>

fun modes_escape :: "bytes \<Rightarrow> term_modes \<Rightarrow> (nat \<times> term_modes) option" where
  "modes_escape (e # c # p) t =
     (if c = 0x3d then Some (2, t\<lparr>tm_keypad := True\<rparr>)
      else if c = 0x3e then Some (2, t\<lparr>tm_keypad := False\<rparr>)
      else if c \<noteq> 0x5b then Some (1, t)
      else (case p of
         [] \<Rightarrow> None
       | q # r \<Rightarrow>
           (if q \<noteq> 0x3f then Some (2, t)
            else (let ps = takeWhile is_param r in
              case drop (length ps) r of
                [] \<Rightarrow> None
              | final # _ \<Rightarrow>
                  (if final \<noteq> 0x68 \<and> final \<noteq> 0x6c then Some (4 + length ps, t)
                   else Some (4 + length ps, fold (switch_mode (final = 0x68)) (split_on 0x3b ps) t))))))"
| "modes_escape p t = None"

lemma modes_escape_progress: "modes_escape p t = Some (n, u) \<Longrightarrow> 0 < n"
  by (cases "(p, t)" rule: modes_escape.cases)
     (auto simp: Let_def split: if_split_asm list.split_asm)

text \<open>The loop of \<open>Feed\<close>: from ESC to ESC.\<close>

function modes_scan :: "bytes \<Rightarrow> term_modes \<Rightarrow> term_modes" where
  "modes_scan p t =
     (let q = dropWhile (\<lambda>c. c \<noteq> 0x1b) p in
      if q = [] then t
      else (case modes_escape q t of
              None \<Rightarrow> (if length q \<le> max_carry then t\<lparr>tm_carry := q\<rparr> else t)
            | Some (n, u) \<Rightarrow> modes_scan (drop n q) u))"
  by auto
termination
proof (relation "measure (length \<circ> fst)")
  fix p q :: bytes and t u :: term_modes and a n
  assume q: "q = dropWhile (\<lambda>c. c \<noteq> 0x1b) p" "q \<noteq> []" and "modes_escape q t = Some a" "(n, u) = a"
  then have "0 < n" using modes_escape_progress by metis
  moreover have "length q \<le> length p" using q(1) by (simp add: length_dropWhile_le)
  moreover have "0 < length q" using q(2) by simp
  ultimately have "length q - n < length p" by linarith
  then show "((drop n q, u), (p, t)) \<in> measure (length \<circ> fst)" by simp
qed simp

declare modes_scan.simps [simp del]

definition modes_feed :: "bytes \<Rightarrow> term_modes \<Rightarrow> term_modes" where
  "modes_feed p t = modes_scan (tm_carry t @ p) (t\<lparr>tm_carry := []\<rparr>)"

definition on_alt_screen :: "term_modes \<Rightarrow> bool" where
  "on_alt_screen t \<longleftrightarrow>
     (let is_on = (\<lambda>n. map_of (tm_on t) n = Some True) in is_on 1049 \<or> is_on 1047 \<or> is_on 47)"

section \<open>Putting the modes back and taking them off\<close>

definition alt_mode :: "int \<Rightarrow> bool" where
  "alt_mode n \<longleftrightarrow> n = 47 \<or> n = 1047 \<or> n = 1049"

definition sorted_modes :: "term_modes \<Rightarrow> int list" where
  "sorted_modes t = sort_key (\<lambda>n. (\<not> alt_mode n, n)) (map fst (tm_on t))"

definition mode_seq :: "int \<Rightarrow> bool \<Rightarrow> bytes" where
  "mode_seq n sets = 0x1b # 0x5b # 0x3f # itoa n @ [if sets then 0x68 else 0x6c]"

definition preamble :: "term_modes \<Rightarrow> bytes" where
  "preamble t =
     concat (map (\<lambda>n. mode_seq n (map_of (tm_on t) n = Some True)) (sorted_modes t))
     @ (if tm_keypad t then [0x1b, 0x3d] else [])"

definition reset_modes :: "term_modes \<Rightarrow> bytes \<times> term_modes" where
  "reset_modes t =
     (concat (map (\<lambda>n. mode_seq n (tracked_modes n = Some True)) (rev (sorted_modes t)))
      @ (if tm_keypad t then [0x1b, 0x3e] else []), no_modes)"

section \<open>The invariant\<close>

text \<open>Only tracked modes are listed, each once, and only those that differ from their default.\<close>

definition tm_ok :: "term_modes \<Rightarrow> bool" where
  "tm_ok t \<longleftrightarrow> distinct (map fst (tm_on t)) \<and> (\<forall>(n, b) \<in> set (tm_on t). tracked_modes n = Some (\<not> b))"

lemma tm_ok_no_modes [simp]: "tm_ok no_modes"
  by (simp add: tm_ok_def no_modes_def)

lemma tm_ok_carry [simp]: "tm_ok (t\<lparr>tm_carry := q\<rparr>) = tm_ok t"
  by (simp add: tm_ok_def)

lemma tm_ok_keypad [simp]: "tm_ok (t\<lparr>tm_keypad := k\<rparr>) = tm_ok t"
  by (simp add: tm_ok_def)

lemma update_entries: "set (AList.update n b al) \<subseteq> insert (n, b) (set al)"
  by (induction al) auto

lemma delete_entries: "set (AList.delete n al) \<subseteq> set al"
  by (auto simp: AList.delete_eq)

lemma switch_mode_ok: "tm_ok t \<Longrightarrow> tm_ok (switch_mode sets f t)"
  using update_entries[of "fst (atoi f)" sets "tm_on t"] delete_entries[of "fst (atoi f)" "tm_on t"]
  unfolding tm_ok_def switch_mode_def
  by (auto split: prod.split bool.split option.split intro: AList.distinct_update AList.distinct_delete)

lemma fold_switch_ok: "tm_ok t \<Longrightarrow> tm_ok (fold (switch_mode sets) fs t)"
  by (induction fs arbitrary: t) (auto simp: switch_mode_ok)

lemma modes_escape_ok: "modes_escape p t = Some (n, u) \<Longrightarrow> tm_ok t \<Longrightarrow> tm_ok u"
  by (cases "(p, t)" rule: modes_escape.cases)
     (auto simp: Let_def fold_switch_ok split: if_split_asm list.split_asm)

lemma modes_scan_induct:
  assumes "\<And>p t. (\<And>n u. dropWhile (\<lambda>c. c \<noteq> 0x1b) p \<noteq> [] \<Longrightarrow>
      modes_escape (dropWhile (\<lambda>c. c \<noteq> 0x1b) p) t = Some (n, u) \<Longrightarrow>
      P (drop n (dropWhile (\<lambda>c. c \<noteq> 0x1b) p)) u) \<Longrightarrow> P p t"
  shows "P p t"
proof (induction p t rule: modes_scan.induct)
  case (1 p t)
  show ?case by (rule assms) (rule 1[OF refl _ _ refl])
qed

lemma modes_scan_ok: "tm_ok t \<Longrightarrow> tm_ok (modes_scan p t)"
proof (induction p t rule: modes_scan_induct)
  case (1 p t)
  then show ?case
    by (subst modes_scan.simps) (auto simp: Let_def split: option.split dest: modes_escape_ok)
qed

lemma modes_feed_ok: "tm_ok t \<Longrightarrow> tm_ok (modes_feed p t)"
  by (simp add: modes_feed_def modes_scan_ok)

lemma history_ok: "tm_ok t \<Longrightarrow> tm_ok (fold modes_feed ps t)"
  by (induction ps arbitrary: t) (auto simp: modes_feed_ok)

section \<open>Cutting the stream anywhere\<close>

lemma escape_extend: "modes_escape p t = Some r \<Longrightarrow> modes_escape (p @ x) t = Some r"
proof (cases "(p, t)" rule: modes_escape.cases)
  case (1 e c q t')
  assume *: "modes_escape p t = Some r"
  show ?thesis
  proof (cases "c = 0x5b \<and> (\<exists>s. q = 0x3f # s)")
    case False
    then show ?thesis using * 1 by (auto split: if_split_asm list.split_asm)
  next
    case True
    then obtain s where q: "c = 0x5b" "q = 0x3f # s" by blast
    show ?thesis
    proof (cases "drop (length (takeWhile is_param s)) s")
      case Nil
      then show ?thesis using * 1 q by (simp add: Let_def)
    next
      case (Cons f fs)
      have s: "s = takeWhile is_param s @ f # fs" using takeWhile_dropWhile_id[of is_param s] Cons
        by (simp add: dropWhile_eq_drop)
      have f: "\<not> is_param f" using Cons hd_dropWhile[of is_param s] by (simp add: dropWhile_eq_drop)
      have "takeWhile is_param (s @ x) = takeWhile is_param s"
        by (subst s) (simp add: takeWhile_append f)
      moreover from this have "drop (length (takeWhile is_param s)) (s @ x) = f # fs @ x"
        using Cons length_takeWhile_le[of is_param s] by simp
      ultimately show ?thesis using * 1 q Cons by (auto simp: Let_def split: if_split_asm)
    qed
  qed
qed simp_all

text \<open>No run of digits and semicolons is longer than the room the carry has for one.\<close>

fun short_runs :: "bytes \<Rightarrow> bool" where
  "short_runs [] = True"
| "short_runs (c # p) = (length (takeWhile is_param (c # p)) \<le> max_carry - 3 \<and> short_runs p)"

lemma short_runs_run: "short_runs p \<Longrightarrow> length (takeWhile is_param p) \<le> max_carry - 3"
  by (cases p) auto

lemma takeWhile_prefix: "length (takeWhile P xs) \<le> length (takeWhile P (xs @ ys))"
  by (induction xs) auto

lemma short_runs_prefix: "short_runs (a @ b) \<Longrightarrow> short_runs a"
proof (induction a)
  case (Cons c a)
  then have "length (takeWhile is_param ((c # a) @ b)) \<le> max_carry - 3" "short_runs a" by simp_all
  then show ?case using takeWhile_prefix[of is_param "c # a" b] by simp
qed simp

lemma short_runs_drop: "short_runs p \<Longrightarrow> short_runs (drop k p)"
  by (induction p arbitrary: k) (auto simp: drop_Cons' simp del: takeWhile.simps)

lemma cut_escape_short: "modes_escape q t = None \<Longrightarrow> short_runs q \<Longrightarrow> length q \<le> max_carry"
proof (cases "(q, t)" rule: modes_escape.cases)
  case (1 e c p t')
  assume *: "modes_escape q t = None" and s: "short_runs q"
  show ?thesis
  proof (cases p)
    case (Cons a r)
    then have "length r \<le> length (takeWhile is_param r)" using * 1 by (auto simp: Let_def split: if_split_asm list.split_asm)
    moreover have "length (takeWhile is_param r) \<le> max_carry - 3"
    proof -
      have "3 \<le> length q" and "drop 3 q = r" using 1 Cons by (simp_all add: numeral_3_eq_3)
      then show ?thesis using short_runs_run[OF short_runs_drop[OF s, of 3]] by simp
    qed
    ultimately show ?thesis using 1 Cons by (simp add: max_carry_def)
  qed (use 1 in \<open>simp add: max_carry_def\<close>)
qed (simp_all add: max_carry_def)

lemma escape_carry: "modes_escape p t = Some (n, u) \<Longrightarrow> tm_carry u = tm_carry t"
proof -
  have *: "tm_carry (switch_mode b f t) = tm_carry t" for b f t
    by (auto simp: switch_mode_def split: prod.split bool.split option.split)
  have "tm_carry (fold (switch_mode b) fs t) = tm_carry t" for b fs t
    by (induction fs arbitrary: t) (auto simp: *)
  then show "modes_escape p t = Some (n, u) \<Longrightarrow> tm_carry u = tm_carry t"
    by (cases "(p, t)" rule: modes_escape.cases) (auto simp: Let_def split: if_split_asm list.split_asm)
qed

lemma escape_length: "modes_escape p t = Some (n, u) \<Longrightarrow> n \<le> length p"
proof (cases "(p, t)" rule: modes_escape.cases)
  case (1 e c q t')
  assume *: "modes_escape p t = Some (n, u)"
  have "length (takeWhile is_param s) < length s" if "drop (length (takeWhile is_param s)) s = f # fs" for s f fs
    using that by (metis drop_all linorder_not_less list.distinct(1))
  then show ?thesis using * 1 by (fastforce simp: Let_def split: if_split_asm list.split_asm)
qed simp_all

lemma carry_id: "tm_carry t = [] \<Longrightarrow> t\<lparr>tm_carry := []\<rparr> = t"
  by simp

lemma scan_step:
  "dropWhile (\<lambda>c. c \<noteq> 0x1b) p = q \<Longrightarrow> q \<noteq> [] \<Longrightarrow> modes_scan p t =
     (case modes_escape q t of
        None \<Rightarrow> (if length q \<le> max_carry then t\<lparr>tm_carry := q\<rparr> else t)
      | Some (n, u) \<Rightarrow> modes_scan (drop n q) u)"
  by (subst modes_scan.simps) (simp only: Let_def if_False)

lemma dropWhile_more: "dropWhile P a \<noteq> [] \<Longrightarrow> dropWhile P (a @ b) = dropWhile P a @ b"
  by (induction a) auto

lemma dropWhile_idem: "dropWhile P (dropWhile P a) = dropWhile P a"
  by (induction a) auto

lemma scan_skip:
  "dropWhile (\<lambda>c. c \<noteq> 0x1b) p = dropWhile (\<lambda>c. c \<noteq> 0x1b) p' \<Longrightarrow> modes_scan p t = modes_scan p' t"
  by (subst (1 2) modes_scan.simps) (simp only:)

lemma scan_append:
  "short_runs a \<Longrightarrow> tm_carry t = [] \<Longrightarrow>
   modes_scan (tm_carry (modes_scan a t) @ b) ((modes_scan a t)\<lparr>tm_carry := []\<rparr>) = modes_scan (a @ b) t"
proof (induction a t rule: modes_scan_induct)
  case (1 a t)
  let ?q = "dropWhile (\<lambda>c. c \<noteq> 0x1b) a"
  show ?case
  proof (cases "?q = []")
    case True
    then have "dropWhile (\<lambda>c. c \<noteq> 0x1b) (a @ b) = dropWhile (\<lambda>c. c \<noteq> 0x1b) b" by (simp add: dropWhile_append)
    moreover have "modes_scan a t = t" using True by (subst modes_scan.simps) simp
    ultimately show ?thesis using scan_skip[of "a @ b" b t] by (simp only: 1(3) carry_id append_Nil)
  next
    case False
    have app: "dropWhile (\<lambda>c. c \<noteq> 0x1b) (a @ b) = ?q @ b" "dropWhile (\<lambda>c. c \<noteq> 0x1b) (?q @ b) = ?q @ b"
      by (rule dropWhile_more[OF False], subst dropWhile_more) (use False in \<open>simp_all only: dropWhile_idem\<close>, simp)
    have q: "short_runs ?q" using short_runs_drop[OF 1(2)] by (simp add: dropWhile_eq_drop)
    show ?thesis
    proof (cases "modes_escape ?q t")
      case None
      then have "modes_scan a t = t\<lparr>tm_carry := ?q\<rparr>"
        using scan_step[OF refl False, of t] None cut_escape_short[OF None q] by simp
      moreover have "modes_scan (?q @ b) t = modes_scan (a @ b) t"
        using app by (intro scan_skip) simp
      ultimately show ?thesis using 1(3) by (simp add: carry_id)
    next
      case (Some r)
      obtain n u where r: "r = (n, u)" by (cases r)
      have "modes_scan a t = modes_scan (drop n ?q) u"
        using scan_step[OF refl False, of t] Some r by simp
      moreover have "modes_scan (a @ b) t = modes_scan (drop n ?q @ b) u"
        using scan_step[OF app(1), of t] False escape_extend[OF Some, of b] escape_length[of ?q t n u] Some r
        by simp
      ultimately show ?thesis
        using 1(1)[OF False, of n u] Some r short_runs_drop[OF q] escape_carry[of ?q t n u] 1(3) by simp
    qed
  qed
qed

lemma feed_pieces:
  assumes "short_runs (concat ps)"
  shows "fold modes_feed ps no_modes = modes_feed (concat ps) no_modes"
  using assms
proof (induction ps rule: rev_induct)
  case Nil
  show ?case by (simp add: modes_feed_def no_modes_def modes_scan.simps)
next
  case (snoc b ps)
  have s: "short_runs (concat ps)" using short_runs_prefix snoc.prems by simp
  then have "fold modes_feed (ps @ [b]) no_modes = modes_feed b (modes_feed (concat ps) no_modes)"
    using snoc.IH by simp
  also have "\<dots> = modes_feed (concat ps @ b) no_modes"
    using scan_append[OF s, of no_modes b] by (simp add: modes_feed_def no_modes_def)
  finally show ?case by simp
qed

section \<open>Reading the modes back\<close>

lemma scan_mode_seq:
  assumes "0 \<le> n" "n \<le> max_int64"
  shows "modes_scan (mode_seq n b @ rest) t = modes_scan rest (switch_mode b (itoa n) t)"
proof -
  have d: "list_all is_digit (itoa n)" using assms(1) by (simp add: itoa_def nat_digits_digits)
  have tw: "takeWhile is_param (itoa n @ x # xs) = itoa n" if "\<not> is_param x" for x xs
    using d that by (auto simp: takeWhile_append list_all_iff is_param_def)
  have sp: "split_on 0x3b (itoa n) = [itoa n]"
  proof -
    have "split_on sep f = [f]" if "sep \<notin> set f" for sep f using that by (induction f) auto
    moreover have "0x3b \<notin> set (itoa n)" using d by (auto simp: list_all_iff is_digit_def)
    ultimately show ?thesis by blast
  qed
  have "\<not> is_param 0x68" "\<not> is_param 0x6c" by (simp_all add: is_param_def is_digit_def)
  then have "modes_escape (mode_seq n b @ rest) t = Some (4 + length (itoa n), switch_mode b (itoa n) t)"
    using tw[of "0x68" rest] tw[of "0x6c" rest] by (simp add: mode_seq_def Let_def sp)
  moreover have "drop (4 + length (itoa n)) (mode_seq n b @ rest) = rest"
    by (simp add: mode_seq_def numeral_eq_Suc)
  moreover have "dropWhile (\<lambda>c. c \<noteq> 0x1b) (mode_seq n b @ rest) = mode_seq n b @ rest" "mode_seq n b \<noteq> []"
    by (simp_all add: mode_seq_def)
  ultimately show ?thesis using scan_step[of "mode_seq n b @ rest" _ t] by (simp del: drop_append)
qed

lemma tracked_range: "tracked_modes n = Some d \<Longrightarrow> 0 \<le> n \<and> n \<le> 2004"
  by (auto simp: tracked_modes_def split: if_split_asm)

lemma switch_tracked:
  assumes "tracked_modes n = Some d"
  shows "switch_mode b (itoa n) t =
     (if b = d then t\<lparr>tm_on := AList.delete n (tm_on t)\<rparr> else t\<lparr>tm_on := AList.update n b (tm_on t)\<rparr>)"
  using tracked_range[OF assms] atoi_itoa[of n] assms by (simp add: switch_mode_def max_int64_def)

lemma scan_mode_seqs:
  assumes "list_all (\<lambda>n. tracked_modes n \<noteq> None) ns"
  shows "modes_scan (concat (map (\<lambda>n. mode_seq n (f n)) ns) @ rest) t =
     modes_scan rest (fold (\<lambda>n. switch_mode (f n) (itoa n)) ns t)"
  using assms
proof (induction ns arbitrary: t)
  case (Cons n ns)
  then obtain d where "tracked_modes n = Some d" by auto
  from tracked_range[OF this] have "0 \<le> n" "n \<le> max_int64" by (simp_all add: max_int64_def)
  from scan_mode_seq[OF this] show ?case using Cons by simp
qed simp

lemma switch_lookup:
  assumes "tracked_modes n = Some d"
  shows "map_of (tm_on (switch_mode b (itoa n) t)) m =
      (if m = n then (if d = b then None else Some b) else map_of (tm_on t) m)"
    "tm_keypad (switch_mode b (itoa n) t) = tm_keypad t" "tm_carry (switch_mode b (itoa n) t) = tm_carry t"
proof -
  have "map_of (AList.update n b al) m = (if m = n then Some b else map_of al m)"
    "map_of (AList.delete n al) m = (if m = n then None else map_of al m)" for al :: "(int \<times> bool) list"
    by (simp_all only: AList.update_conv' AList.delete_conv' fun_upd_apply)
  then show "map_of (tm_on (switch_mode b (itoa n) t)) m =
      (if m = n then (if d = b then None else Some b) else map_of (tm_on t) m)"
    by (cases "b = d") (simp_all add: switch_tracked[OF assms])
qed (simp_all add: switch_tracked[OF assms])

lemma switched:
  assumes "list_all (\<lambda>n. tracked_modes n \<noteq> None) ns"
  shows "map_of (tm_on (fold (\<lambda>n. switch_mode (f n) (itoa n)) ns t)) m =
      (if m \<in> set ns then (if tracked_modes m = Some (f m) then None else Some (f m)) else map_of (tm_on t) m) \<and>
    tm_keypad (fold (\<lambda>n. switch_mode (f n) (itoa n)) ns t) = tm_keypad t \<and>
    tm_carry (fold (\<lambda>n. switch_mode (f n) (itoa n)) ns t) = tm_carry t"
  using assms
proof (induction ns arbitrary: t)
  case (Cons n ns)
  then obtain d where "tracked_modes n = Some d" by auto
  then show ?case using Cons switch_lookup[of n d "f n" t] by auto
qed simp

lemma sorted_modes_set: "set (sorted_modes t) = fst ` set (tm_on t)"
  by (simp add: sorted_modes_def)

lemma keypad_scan:
  "modes_scan [0x1b, 0x3d] t = t\<lparr>tm_keypad := True\<rparr>" "modes_scan [0x1b, 0x3e] t = t\<lparr>tm_keypad := False\<rparr>"
  "modes_scan [] t = t"
  by (simp_all add: modes_scan.simps)

lemma listed_tracked:
  assumes "tm_ok t"
  shows "list_all (\<lambda>n. tracked_modes n \<noteq> None) (sorted_modes t)"
  using assms by (auto simp: list_all_iff sorted_modes_set tm_ok_def)

lemma listed_value: "tm_ok t \<Longrightarrow> (n, b) \<in> set (tm_on t) \<Longrightarrow> map_of (tm_on t) n = Some b \<and> tracked_modes n = Some (\<not> b)"
  by (auto simp: tm_ok_def)

lemma preamble_state:
  assumes "tm_ok t"
  defines "u \<equiv> modes_feed (preamble t) no_modes"
  shows "map_of (tm_on u) = map_of (tm_on t)" "tm_keypad u = tm_keypad t" "tm_carry u = []"
proof -
  let ?f = "\<lambda>n. map_of (tm_on t) n = Some True"
  let ?v = "fold (\<lambda>n. switch_mode (?f n) (itoa n)) (sorted_modes t) no_modes"
  have v: "no_modes\<lparr>tm_carry := []\<rparr> = no_modes" by (simp add: no_modes_def)
  have u: "u = (if tm_keypad t then ?v\<lparr>tm_keypad := True\<rparr> else ?v)"
    unfolding u_def modes_feed_def preamble_def v
    by (simp only: no_modes_def term_modes.simps append_Nil)
       (simp add: scan_mode_seqs[OF listed_tracked[OF assms(1)]] keypad_scan
          scan_mode_seqs[OF listed_tracked[OF assms(1)], where rest = "[]", simplified])
  note s = switched[OF listed_tracked[OF assms(1)], of ?f no_modes]
  show "tm_keypad u = tm_keypad t" "tm_carry u = []" using s by (simp_all add: u no_modes_def)
  show "map_of (tm_on u) = map_of (tm_on t)"
  proof
    fix m
    show "map_of (tm_on u) m = map_of (tm_on t) m"
    proof (cases "map_of (tm_on t) m")
      case None
      then have "m \<notin> set (sorted_modes t)" by (simp add: sorted_modes_set map_of_eq_None_iff)
      then show ?thesis using s[of m] None by (simp add: u no_modes_def)
    next
      case (Some b)
      then have "(m, b) \<in> set (tm_on t)" by (simp add: map_of_SomeD)
      moreover from this have "m \<in> set (sorted_modes t)" by (force simp: sorted_modes_set)
      ultimately show ?thesis using s[of m] Some listed_value[OF assms(1)] by (cases b) (simp_all add: u)
    qed
  qed
qed

lemma reset_state:
  assumes "tm_ok t" "tm_carry t = []"
  shows "modes_feed (fst (reset_modes t)) t = no_modes"
proof -
  let ?f = "\<lambda>n. tracked_modes n = Some True" and ?ns = "rev (sorted_modes t)"
  let ?v = "fold (\<lambda>n. switch_mode (?f n) (itoa n)) ?ns t"
  have ns: "list_all (\<lambda>n. tracked_modes n \<noteq> None) ?ns" using listed_tracked[OF assms(1)] by simp
  have r: "modes_feed (fst (reset_modes t)) t = ?v\<lparr>tm_keypad := False\<rparr>"
  proof (cases "tm_keypad t")
    case True
    then show ?thesis using scan_mode_seqs[OF ns, of ?f "[0x1b, 0x3e]" t] assms(2)
      by (simp add: modes_feed_def reset_modes_def keypad_scan carry_id)
  next
    case False
    have "tm_keypad ?v = False" using switched[OF ns, of ?f t] False by blast
    then have "?v\<lparr>tm_keypad := False\<rparr> = ?v" by simp
    then show ?thesis using scan_mode_seqs[OF ns, of ?f "[]" t] assms(2) False
      by (simp only: modes_feed_def reset_modes_def keypad_scan carry_id append_Nil append_Nil2 fst_conv if_False)
  qed
  have "map_of (tm_on ?v) m = None" for m
  proof (cases "m \<in> set ?ns")
    case True
    then obtain b where b: "(m, b) \<in> set (tm_on t)" by (auto simp: sorted_modes_set)
    then have "tracked_modes m = Some (\<not> b)" using listed_value[OF assms(1)] by blast
    then show ?thesis using switched[OF ns, of ?f t m] True by (cases b) auto
  next
    case False
    then have "map_of (tm_on t) m = None" by (simp add: sorted_modes_set map_of_eq_None_iff)
    then show ?thesis using switched[OF ns, of ?f t m] False by simp
  qed
  then have "tm_on ?v = []" by (metis list.exhaust map_of_eq_empty_iff)
  moreover have "tm_carry ?v = []" using switched[OF ns, of ?f t] assms(2) by simp
  ultimately show ?thesis by (simp add: r no_modes_def)
qed

lemma alternate_first:
  "sorted_modes t = filter alt_mode (sorted_modes t) @ filter (\<lambda>n. \<not> alt_mode n) (sorted_modes t)"
proof -
  have split: "sorted (map (\<lambda>n. (\<not> alt_mode n, n)) ns) \<Longrightarrow> ns = filter alt_mode ns @ filter (\<lambda>n. \<not> alt_mode n) ns" for ns :: "int list"
  proof (induction ns)
    case (Cons n ns)
    show ?case
    proof (cases "alt_mode n")
      case False
      then have "filter alt_mode ns = []" using Cons.prems by (auto simp: filter_empty_conv less_eq_prod_def)
      then show ?thesis using Cons False by simp
    qed (use Cons in simp)
  qed simp
  show ?thesis by (rule split) (simp add: sorted_modes_def sorted_sort_key)
qed

section \<open>Properties\<close>

text \<open>
  The modes found do not depend on how the output was cut into reads, also when a cut falls
  inside an escape sequence, as long as no sequence has more digits than any mode switch needs.
\<close>

theorem modes_split:
  assumes "short_runs (concat ps)"
  shows "fold modes_feed ps no_modes = modes_feed (concat ps) no_modes"
  by (rule feed_pieces[OF assms])

theorem modes_split_witness:
  "fold modes_feed [[0x1b], bstr ''[?10'', bstr ''49;25l x'', [0x1b, 0x5b], bstr ''?1049h''] no_modes =
   \<lparr>tm_on = [(25, False), (1049, True)], tm_keypad = False, tm_carry = []\<rparr>"
proof -
  let ?ps = "[[0x1b], bstr ''[?10'', bstr ''49;25l x'', [0x1b, 0x5b], bstr ''?1049h'']"
  have "short_runs (concat ?ps)" by code_simp
  moreover have "modes_feed (concat ?ps) no_modes =
    \<lparr>tm_on = [(25, False), (1049, True)], tm_keypad = False, tm_carry = []\<rparr>" by code_simp
  ultimately show ?thesis using modes_split[of ?ps] by simp
qed

text \<open>
  C32. After any history of output, the preamble puts a terminal at its defaults into exactly the
  modes the stream left (alternate screens first), and the reset sequence takes it from there back to
  the defaults, so that neither a replay nor a departure leaves a mode wrong.
\<close>

theorem preamble_and_reset:
  fixes ps :: "bytes list"
  defines "t \<equiv> fold modes_feed ps no_modes"
  defines "u \<equiv> modes_feed (preamble t) no_modes"
  shows "map_of (tm_on u) = map_of (tm_on t) \<and> tm_keypad u = tm_keypad t \<and> on_alt_screen u = on_alt_screen t \<and>
    modes_feed (fst (reset_modes t)) (t\<lparr>tm_carry := []\<rparr>) = no_modes \<and> snd (reset_modes t) = no_modes \<and>
    modes_feed (fst (reset_modes u)) u = no_modes \<and>
    sorted_modes t = filter alt_mode (sorted_modes t) @ filter (\<lambda>n. \<not> alt_mode n) (sorted_modes t)"
proof -
  have t: "tm_ok t" unfolding t_def by (intro history_ok) simp
  note u = preamble_state[OF t, folded u_def]
  have "tm_ok u" unfolding u_def by (intro modes_feed_ok) simp
  moreover have "reset_modes (t\<lparr>tm_carry := []\<rparr>) = reset_modes t"
    by (simp add: reset_modes_def sorted_modes_def)
  ultimately show ?thesis
    using u t reset_state[of "t\<lparr>tm_carry := []\<rparr>"] reset_state[of u] alternate_first[of t]
    by (simp add: on_alt_screen_def reset_modes_def)
qed

end
