(* ===== verification/ByteRing.thy ===== *)
theory ByteRing
  imports Prelude
begin

text \<open>
  The ring of \<open>src/internal/fabric/output.go\<close>: \<open>append\<close> and \<open>snapshotLocked\<close> on its storage. What
  the output buffer relies on is the locale \<open>byte_store\<close>: it holds the newest bytes, up to its
  capacity, oldest first. The ring is shown to provide it.
\<close>

record byte_ring =
  rb_buf :: bytes
  rb_start :: nat
  rb_size :: nat

definition default_output_bytes :: int where
  "default_output_bytes = 262144"

definition new_byte_ring :: "int \<Rightarrow> byte_ring" where
  "new_byte_ring capacity =
     \<lparr>rb_buf = replicate (nat (if capacity \<le> 0 then default_output_bytes else capacity)) 0,
      rb_start = 0, rb_size = 0\<rparr>"

definition ring_append :: "bytes \<Rightarrow> byte_ring \<Rightarrow> byte_ring option" where
  "ring_append p r =
     (let cap = length (rb_buf r) in
      if length p \<ge> cap then do {
        newest \<leftarrow> subslice p (int (length p) - int cap) (int (length p));
        Some (r\<lparr>rb_buf := go_copy (rb_buf r) newest, rb_start := 0, rb_size := cap\<rparr>) }
      else
        (let e = (rb_start r + rb_size r) mod cap in do {
           room \<leftarrow> subslice (rb_buf r) (int e) (int cap);
           let n = min (length room) (length p);
           let b1 = take e (rb_buf r) @ go_copy room p;
           b2 \<leftarrow> (if n < length p
                  then do { rest \<leftarrow> subslice p (int n) (int (length p)); Some (go_copy b1 rest) }
                  else Some b1);
           Some (if rb_size r + length p \<le> cap then r\<lparr>rb_buf := b2, rb_size := rb_size r + length p\<rparr>
                 else let overflow = rb_size r + length p - cap in
                      r\<lparr>rb_buf := b2, rb_start := (rb_start r + overflow) mod cap, rb_size := cap\<rparr>) }))"

definition ring_snapshot :: "byte_ring \<Rightarrow> bytes option" where
  "ring_snapshot r =
     (let out = replicate (rb_size r) 0 in
      if rb_size r = 0 then Some out
      else
        (let cap = length (rb_buf r) in do {
           head \<leftarrow> subslice (rb_buf r) (int (rb_start r)) (int (min (rb_start r + rb_size r) cap));
           let n = min (length out) (length head);
           let out1 = go_copy out head;
           if n < rb_size r then do {
             wrapped \<leftarrow> subslice (rb_buf r) 0 (int (rb_size r) - int n);
             Some (take n out1 @ go_copy (drop n out1) wrapped) }
           else Some out1 }))"

section \<open>Abstraction\<close>

definition ring_inv :: "byte_ring \<Rightarrow> bool" where
  "ring_inv r \<longleftrightarrow> rb_start r < length (rb_buf r) \<and> rb_size r \<le> length (rb_buf r)"

text \<open>The bytes held: the storage read from its start, wrapping around.\<close>

definition ring_bytes :: "byte_ring \<Rightarrow> bytes" where
  "ring_bytes r = take (rb_size r) (rotate (rb_start r) (rb_buf r))"

lemma new_byte_ring_inv: "ring_inv (new_byte_ring c)"
  by (simp add: ring_inv_def new_byte_ring_def default_output_bytes_def)

lemma new_byte_ring_bytes [simp]: "ring_bytes (new_byte_ring c) = []"
  by (simp add: ring_bytes_def new_byte_ring_def)

lemma length_ring_bytes: "ring_inv r \<Longrightarrow> length (ring_bytes r) = rb_size r"
  by (simp add: ring_bytes_def ring_inv_def)

lemma rotate_split: "k \<le> length xs \<Longrightarrow> rotate k xs = drop k xs @ take k xs"
  using rotate_append[of "take k xs" "drop k xs"] by (simp add: min_absorb2)

lemma rotate_back:
  assumes "rotate k xs = ys @ zs" "length zs = k"
  shows "xs = zs @ ys"
proof -
  have "rotate k xs = rotate k (zs @ ys)" using assms rotate_append[of zs ys] by simp
  moreover have "xs = ys'" if "rotate k xs = rotate k ys'" for ys' :: "'a list"
    using that
  proof (induction k arbitrary: xs ys')
    case (Suc k)
    have "rotate1 xs = rotate1 ys'" by (rule Suc.IH) (use Suc.prems in \<open>simp add: rotate1_rotate_swap\<close>)
    then show ?case by (cases xs; cases ys') auto
  qed simp
  ultimately show ?thesis by blast
qed

text \<open>What a copy that wraps around leaves, read from where it started.\<close>

definition wrap_copy :: "nat \<Rightarrow> bytes \<Rightarrow> bytes \<Rightarrow> bytes" where
  "wrap_copy e p buf =
     (let n = min (length buf - e) (length p); b1 = take e buf @ go_copy (drop e buf) p in
      if n < length p then go_copy b1 (drop n p) else b1)"

lemma wrap_copy_rotate:
  assumes "e < length buf" "length p < length buf"
  shows "rotate e (wrap_copy e p buf) = p @ drop (length p) (rotate e buf) \<and> length (wrap_copy e p buf) = length buf"
proof -
  have r: "rotate e buf = drop e buf @ take e buf" using assms by (simp add: rotate_split)
  show ?thesis
  proof (cases "length p \<le> length buf - e")
    case True
    then have w: "wrap_copy e p buf = take e buf @ (p @ drop (length p) (drop e buf))"
      by (simp add: wrap_copy_def go_copy_def Let_def min_absorb2)
    show ?thesis unfolding w r using assms True rotate_append[of "take e buf"] by (simp add: min_absorb2)
  next
    case False
    define n where "n = length buf - e"
    have n: "n < length p" "n \<le> length buf" using False by (auto simp: n_def)
    let ?b1 = "take e buf @ take n p"
    have b1: "take e buf @ go_copy (drop e buf) p = ?b1" using n assms by (simp add: go_copy_def Let_def n_def min_absorb1)
    have w: "wrap_copy e p buf = drop n p @ drop (length p - n) (take e buf) @ take n p"
      using n assms False by (simp add: wrap_copy_def Let_def flip: n_def)
        (simp add: go_copy_def Let_def b1[unfolded go_copy_def Let_def] n_def min_absorb1 min_absorb2)
    have l: "length (drop n p @ drop (length p - n) (take e buf)) = e" using n assms by (simp add: n_def)
    have "rotate e (wrap_copy e p buf) = take n p @ drop n p @ drop (length p - n) (take e buf)"
      using rotate_append[of "drop n p @ drop (length p - n) (take e buf)" "take n p"] unfolding w l by simp
    moreover have "drop (length p) (rotate e buf) = drop (length p - n) (take e buf)"
      using n assms by (simp add: r n_def)
    moreover have "length (wrap_copy e p buf) = length buf" using n assms unfolding w by (simp add: n_def)
    ultimately show ?thesis by simp
  qed
qed

lemma ring_append_ok:
  assumes "ring_inv r"
  shows "\<exists>r'. ring_append p r = Some r' \<and> ring_inv r' \<and> length (rb_buf r') = length (rb_buf r) \<and>
     ring_bytes r' = lastn (length (rb_buf r)) (ring_bytes r @ p)"
proof (cases "length (rb_buf r) \<le> length p")
  case True
  let ?cap = "length (rb_buf r)"
  let ?t = "drop (length p - ?cap) p"
  have "nat (int (length p) - int ?cap) = length p - ?cap" using True by simp
  then have "ring_append p r = Some (r\<lparr>rb_buf := ?t, rb_start := 0, rb_size := ?cap\<rparr>)"
    using True by (simp add: ring_append_def Let_def go_copy_def)
  moreover have "lastn ?cap (ring_bytes r @ p) = ?t" using True by (simp add: lastn_append_long) (simp add: lastn_def)
  moreover have "?cap > 0" using assms by (auto simp: ring_inv_def)
  ultimately show ?thesis using True by (simp add: ring_inv_def ring_bytes_def)
next
  case False
  define cap where "cap = length (rb_buf r)"
  define e where "e = (rb_start r + rb_size r) mod cap"
  define b2 where "b2 = wrap_copy e p (rb_buf r)"
  have c: "length p < cap" "0 < cap" "e < cap" "rb_start r < cap" "rb_size r \<le> cap"
  proof -
    show "0 < cap" using assms by (auto simp: cap_def ring_inv_def)
    then show "e < cap" by (simp add: e_def)
  qed (use False assms in \<open>auto simp: cap_def ring_inv_def\<close>)
  define r' where "r' = (if rb_size r + length p \<le> cap then r\<lparr>rb_buf := b2, rb_size := rb_size r + length p\<rparr>
    else r\<lparr>rb_buf := b2, rb_start := (rb_start r + (rb_size r + length p - cap)) mod cap, rb_size := cap\<rparr>)"
  have app: "ring_append p r = Some r'"
    using False c by (simp add: ring_append_def Let_def flip: cap_def e_def)
       (simp add: r'_def b2_def wrap_copy_def Let_def nat_diff_distrib flip: cap_def)
  note b2 = wrap_copy_rotate[of e "rb_buf r" p, folded cap_def b2_def, OF c(3,1)]
  let ?R = "rotate (rb_start r) (rb_buf r)" and ?R2 = "rotate (rb_start r) b2" and ?s = "rb_size r"
  have lens: "length ?R = cap" "length ?R2 = cap" using b2 by (simp_all add: cap_def)
  have rot: "rotate e xs = rotate ?s (rotate (rb_start r) xs)" if "length xs = cap" for xs :: bytes
    using that rotate_conv_mod[of "rb_start r + ?s" xs] by (simp add: e_def rotate_rotate add.commute)
  have key: "rotate ?s ?R2 = p @ drop (length p) (drop ?s ?R @ take ?s ?R)"
    using b2 rot[of b2] rot[of "rb_buf r"] rotate_split[of ?s ?R] c lens by (simp add: cap_def)
  have bytes: "ring_bytes r = take ?s ?R" by (simp add: ring_bytes_def)
  show ?thesis
  proof (cases "?s + length p \<le> cap")
    case True
    have "rotate ?s ?R2 = drop ?s ?R2 @ take ?s ?R2" using rotate_split[of ?s ?R2] c lens by simp
    then have "drop ?s ?R2 @ take ?s ?R2 = (p @ drop (length p) (drop ?s ?R)) @ take ?s ?R"
      using key True lens by simp
    then have "drop ?s ?R2 = p @ drop (length p) (drop ?s ?R)" "take ?s ?R2 = take ?s ?R"
      using c lens True by (subst (asm) append_eq_append_conv; simp)+
    then have "?R2 = take ?s ?R @ p @ drop (length p) (drop ?s ?R)" by (metis append_take_drop_id)
    then have "take (?s + length p) ?R2 = take ?s ?R @ p" using c lens by simp
    then have "ring_bytes r' = ring_bytes r @ p" "length (ring_bytes r @ p) \<le> cap"
      using True lens c by (simp_all add: r'_def ring_bytes_def)
    then show ?thesis using app b2 c True by (simp add: r'_def ring_inv_def cap_def)
  next
    case ov: False
    define k where "k = ?s + length p - cap"
    have k: "k \<le> ?s" "?s - k + length p = cap" "0 < k" using ov c by (auto simp: k_def)
    have d: "drop (length p) (drop ?s ?R @ take ?s ?R) = drop k (take ?s ?R)"
      using ov c lens by (simp add: k_def add.commute)
    have "rotate (?s - k) (rotate k ?R2) = p @ drop k (take ?s ?R)"
      using key d k by (simp add: rotate_rotate)
    then have x: "rotate k ?R2 = drop k (take ?s ?R) @ p"
      by (rule rotate_back) (use c lens in simp)
    have "rotate ((rb_start r + k) mod cap) b2 = rotate k ?R2"
      using b2 rotate_conv_mod[of "rb_start r + k" b2] by (simp add: rotate_rotate add.commute cap_def)
    then have "ring_bytes r' = drop k (take ?s ?R) @ p"
    proof -
      assume rot: "rotate ((rb_start r + k) mod cap) b2 = rotate k ?R2"
      have "ring_bytes r' = take cap (rotate ((rb_start r + k) mod cap) b2)"
        using ov by (simp add: r'_def ring_bytes_def k_def)
      then show ?thesis unfolding rot x using lens k c by simp
    qed
    moreover have "lastn cap (ring_bytes r @ p) = drop k (take ?s ?R) @ p"
      using c lens k by (simp add: lastn_def bytes min_absorb2 k_def)
    ultimately show ?thesis using app b2 c ov by (simp add: r'_def ring_inv_def cap_def)
  qed
qed

lemma ring_snapshot_bytes:
  assumes "ring_inv r"
  shows "ring_snapshot r = Some (ring_bytes r)"
proof -
  let ?cap = "length (rb_buf r)" and ?s = "rb_start r" and ?n = "rb_size r"
  have c: "?s < ?cap" "?n \<le> ?cap" using assms by (auto simp: ring_inv_def)
  have rot: "rotate ?s (rb_buf r) = drop ?s (rb_buf r) @ take ?s (rb_buf r)" using c by (simp add: rotate_split)
  show ?thesis
  proof (cases "?s + ?n \<le> ?cap")
    case True
    have "nat (int ?s + int ?n) = ?s + ?n" by simp
    then show ?thesis using c True
      by (auto simp: ring_snapshot_def ring_bytes_def rot Let_def go_copy_def min_absorb1 min_absorb2 nat_add_distrib)
  next
    case False
    have "nat (int ?n - int (?cap - ?s)) = ?n - (?cap - ?s)" using False c by linarith
    moreover have "int (?cap - ?s) = int ?cap - int ?s" using c by simp
    ultimately show ?thesis using c False
      by (auto simp: ring_snapshot_def ring_bytes_def rot Let_def go_copy_def min_absorb1 min_absorb2 min_def)
  qed
qed

section \<open>The interface\<close>

text \<open>A run of appends.\<close>

fun append_many :: "(bytes \<Rightarrow> 's \<Rightarrow> 's option) \<Rightarrow> bytes list \<Rightarrow> 's \<Rightarrow> 's option" where
  "append_many f [] s = Some s"
| "append_many f (p # ps) s = Option.bind (f p s) (append_many f ps)"

locale byte_store =
  fixes append_to :: "bytes \<Rightarrow> 's \<Rightarrow> 's option"
    and read_all :: "'s \<Rightarrow> bytes option"
    and held :: "'s \<Rightarrow> bytes"
    and room :: "'s \<Rightarrow> nat"
    and valid :: "'s \<Rightarrow> bool"
  assumes append_keeps: "valid s \<Longrightarrow> \<exists>s'. append_to p s = Some s' \<and> valid s' \<and> room s' = room s \<and> held s' = lastn (room s) (held s @ p)"
    and read_held: "valid s \<Longrightarrow> read_all s = Some (held s)"
begin

lemma newest_kept:
  assumes "valid s" "length (held s) \<le> room s"
  shows "\<exists>s'. append_many append_to ps s = Some s' \<and> valid s' \<and> room s' = room s \<and>
     read_all s' = Some (lastn (room s) (held s @ concat ps))"
  using assms
proof (induction ps arbitrary: s)
  case Nil
  then show ?case by (simp add: read_held)
next
  case (Cons p ps)
  obtain s1 where s1: "append_to p s = Some s1" "valid s1" "room s1 = room s" "held s1 = lastn (room s) (held s @ p)"
    using append_keeps[OF Cons.prems(1)] by blast
  have "length (held s1) \<le> room s1" by (simp add: s1)
  from Cons.IH[OF s1(2) this] show ?case using s1 by auto
qed

end

interpretation newest: byte_store ring_append ring_snapshot ring_bytes "\<lambda>r. length (rb_buf r)" ring_inv
  by unfold_locales (auto simp: ring_append_ok ring_snapshot_bytes)

section \<open>Property\<close>

text \<open>
  C30. Whatever is written into the ring, in pieces of any size - also larger than the ring - reading
  it gives exactly the newest bytes of all that was written, as many as the ring has room for, oldest
  first; no write and no read indexes outside the storage.
\<close>

theorem ring_holds_newest:
  "\<exists>r. append_many ring_append ps (new_byte_ring c) = Some r \<and> ring_inv r \<and>
     ring_snapshot r = Some (lastn (length (rb_buf (new_byte_ring c))) (concat ps))"
  using newest.newest_kept[OF new_byte_ring_inv[of c], of ps] by auto

end
