(* ===== verification/Output.thy ===== *)
theory Output
  imports Render TermModes ByteRing
begin

text \<open>
  \<open>src/internal/fabric/output.go\<close>: the recent output of one process and its subscribers. A
  subscriber outlives its registration - its reader goes on draining the channel - so all that were
  ever made are kept in \<open>ob_store\<close> under their ids, and the source's map \<open>subs\<close> is the list of the
  ids registered. The disk writer (type \<open>'s\<close>) is the component LogFile.
\<close>

section \<open>State\<close>

record subscriber =
  sb_preamble :: bytes
  sb_screen :: "bytes option"
  sb_queue :: "bytes list"
  sb_max :: int
  sb_from :: int
  sb_queued :: int
  sb_lagged :: bool
  sb_shut :: bool

record 's outbuf =
  ob_ring :: byte_ring
  ob_written :: int
  ob_store :: "subscriber list"
  ob_subs :: "nat list"
  ob_closed :: bool
  ob_sink :: "'s option"
  ob_sink_err :: bytes
  ob_modes :: term_modes
  ob_screen :: "emu option"
  ob_cols :: int
  ob_rows :: int

datatype output_error = OutputClosed | NoLogWriter

definition subscriber_chunks :: nat where
  "subscriber_chunks = 4096"

definition new_output :: "int \<Rightarrow> 's outbuf" where
  "new_output capacity =
     \<lparr>ob_ring = new_byte_ring capacity, ob_written = 0, ob_store = [], ob_subs = [], ob_closed = False,
      ob_sink = None, ob_sink_err = [], ob_modes = no_modes, ob_screen = None, ob_cols = 0, ob_rows = 0\<rparr>"

section \<open>Subscribers\<close>

text \<open>Ending the stream; \<open>sync.Once\<close> makes a second time harmless.\<close>

definition close_ch :: "subscriber \<Rightarrow> subscriber" where
  "close_ch s = s\<lparr>sb_shut := True\<rparr>"

definition offer :: "bytes \<Rightarrow> subscriber \<Rightarrow> subscriber" where
  "offer p s =
     (if sb_lagged s then s
      else if sb_queued s + int (length p) > sb_max s then close_ch (s\<lparr>sb_lagged := True\<rparr>)
      else let s1 = s\<lparr>sb_queued := sb_queued s + int (length p)\<rparr> in
           if length (sb_queue s1) < subscriber_chunks then s1\<lparr>sb_queue := sb_queue s1 @ [p]\<rparr>
           else close_ch (s1\<lparr>sb_lagged := True, sb_queued := sb_queued s1 - int (length p)\<rparr>))"

definition sub_consumed :: "int \<Rightarrow> subscriber \<Rightarrow> subscriber" where
  "sub_consumed n s = s\<lparr>sb_queued := (if sb_queued s - n < 0 then 0 else sb_queued s - n)\<rparr>"

text \<open>Receiving from the channel: the oldest chunk, also after the channel was closed.\<close>

definition receive :: "subscriber \<Rightarrow> (bytes \<times> subscriber) option" where
  "receive s = (case sb_queue s of [] \<Rightarrow> None | c # cs \<Rightarrow> Some (c, s\<lparr>sb_queue := cs\<rparr>))"

section \<open>The picture of a full-screen program\<close>

definition fresh_screen :: "int \<Rightarrow> int \<Rightarrow> emu option" where
  "fresh_screen cols0 rows0 =
     (let (cols, rows) = (if cols0 \<le> 0 \<or> rows0 \<le> 0 then (80, 24) else (cols0, rows0));
          t = new_term cols rows
      in do { h \<leftarrow> hist_set_limit 0 (t_hist t); Some (t\<lparr>t_hist := h\<rparr>, new_parser) })"

text \<open>The emulator the next write is drawn with.\<close>

definition picture_of :: "'s outbuf \<Rightarrow> emu option" where
  "picture_of ob = (case ob_screen ob of Some e \<Rightarrow> Some e | None \<Rightarrow> fresh_screen (ob_cols ob) (ob_rows ob))"

definition draw_locked :: "(int \<Rightarrow> bool) \<Rightarrow> bytes \<Rightarrow> 's outbuf \<Rightarrow> 's outbuf option" where
  "draw_locked mark p ob =
     (if \<not> on_alt_screen (ob_modes ob) then Some (ob\<lparr>ob_screen := None\<rparr>)
      else do {
        e \<leftarrow> picture_of ob;
        (t, ps) \<leftarrow> feed mark p e;
        Some (ob\<lparr>ob_screen := Some (snd (take_colour_asks (snd (take_replies t))), ps)\<rparr>) })"

definition set_size :: "int \<Rightarrow> int \<Rightarrow> 's outbuf \<Rightarrow> 's outbuf option" where
  "set_size cols rows ob =
     (let ob1 = ob\<lparr>ob_cols := cols, ob_rows := rows\<rparr> in
      case ob_screen ob1 of
        None \<Rightarrow> Some ob1
      | Some (t, ps) \<Rightarrow>
          if cols > 0 \<and> rows > 0 then do { t1 \<leftarrow> resize cols rows t; Some (ob1\<lparr>ob_screen := Some (t1, ps)\<rparr>) }
          else Some ob1)"

section \<open>Operations\<close>

definition sub_at :: "'s outbuf \<Rightarrow> nat \<Rightarrow> subscriber" where
  "sub_at ob i = ob_store ob ! i"

definition set_sub :: "nat \<Rightarrow> subscriber \<Rightarrow> 's outbuf \<Rightarrow> 's outbuf" where
  "set_sub i s ob = ob\<lparr>ob_store := (ob_store ob)[i := s]\<rparr>"

text \<open>The loop over the registered subscribers.\<close>

definition offer_all :: "bytes \<Rightarrow> 's outbuf \<Rightarrow> 's outbuf" where
  "offer_all p ob = fold (\<lambda>i b. set_sub i (offer p (sub_at b i)) b) (ob_subs ob) ob"

definition prune_lagged :: "'s outbuf \<Rightarrow> 's outbuf" where
  "prune_lagged ob = ob\<lparr>ob_subs := filter (\<lambda>i. \<not> sb_lagged (sub_at ob i)) (ob_subs ob)\<rparr>"

definition ob_write :: "(int \<Rightarrow> bool) \<Rightarrow> bytes \<Rightarrow> 's outbuf \<Rightarrow> (output_error + nat \<times> 's outbuf) option" where
  "ob_write mark p ob =
     (if ob_closed ob then Some (Inl OutputClosed)
      else if p = [] then Some (Inr (0, ob))
      else do {
        r \<leftarrow> ring_append p (ob_ring ob);
        let ob1 = ob\<lparr>ob_ring := r, ob_written := ob_written ob + int (length p),
                     ob_modes := modes_feed p (ob_modes ob)\<rparr>;
        ob2 \<leftarrow> draw_locked mark p ob1;
        Some (Inr (length p, prune_lagged (offer_all p ob2))) })"

definition ob_snapshot :: "'s outbuf \<Rightarrow> (bytes \<times> int) option" where
  "ob_snapshot ob = do { b \<leftarrow> ring_snapshot (ob_ring ob); Some (b, ob_written ob) }"

text \<open>\<open>Attach\<close>: the snapshot, the id of the new subscriber, and the state with it registered.\<close>

definition attach :: "int \<Rightarrow> 's outbuf \<Rightarrow> (output_error + bytes \<times> nat \<times> 's outbuf) option" where
  "attach queue_bytes ob =
     (let q = (if queue_bytes \<le> 0 then default_output_bytes else queue_bytes) in
      if ob_closed ob then Some (Inl OutputClosed)
      else do {
        (snap, at) \<leftarrow> ob_snapshot ob;
        picture \<leftarrow> (case ob_screen ob of
            None \<Rightarrow> Some None
          | Some (t, ps) \<Rightarrow> do { b \<leftarrow> term_screen t; Some (Some b) });
        let i = length (ob_store ob);
        let s = \<lparr>sb_preamble = preamble (ob_modes ob), sb_screen = picture, sb_queue = [], sb_max = q,
                 sb_from = at, sb_queued = 0, sb_lagged = False, sb_shut = False\<rparr>;
        Some (Inr (snap, i, ob\<lparr>ob_store := ob_store ob @ [s], ob_subs := ob_subs ob @ [i]\<rparr>)) })"

definition detach :: "nat \<Rightarrow> 's outbuf \<Rightarrow> 's outbuf" where
  "detach i ob =
     (if i \<notin> set (ob_subs ob) then ob
      else set_sub i (close_ch (sub_at ob i)) (ob\<lparr>ob_subs := removeAll i (ob_subs ob)\<rparr>))"

text \<open>\<open>Close\<close>, up to the point where it waits for the disk writer: the writer to wait for is returned.\<close>

definition ob_close :: "'s outbuf \<Rightarrow> 's option \<times> 's outbuf" where
  "ob_close ob =
     (if ob_closed ob then (None, ob)
      else (ob_sink ob,
            (fold (\<lambda>i b. set_sub i (close_ch (sub_at b i)) b) (ob_subs ob) ob)\<lparr>ob_closed := True, ob_subs := []\<rparr>))"

definition set_sink :: "'s \<Rightarrow> 's outbuf \<Rightarrow> 's outbuf" where
  "set_sink s ob = ob\<lparr>ob_sink := Some s, ob_sink_err := []\<rparr>"

definition set_sink_error :: "bytes \<Rightarrow> 's outbuf \<Rightarrow> 's outbuf" where
  "set_sink_error msg ob = ob\<lparr>ob_sink_err := msg\<rparr>"

definition log_error :: "('s \<Rightarrow> bytes) \<Rightarrow> 's outbuf \<Rightarrow> bytes" where
  "log_error sink_err ob =
     (if ob_sink_err ob \<noteq> [] then ob_sink_err ob
      else case ob_sink ob of None \<Rightarrow> [] | Some s \<Rightarrow> sink_err s)"

text \<open>\<open>MoveLog\<close>, given what moving the disk writer came to: the new writer, if any, and an error.\<close>

definition move_log :: "('s \<Rightarrow> 's option \<times> bytes) \<Rightarrow> 's outbuf \<Rightarrow> (output_error + bytes) \<times> 's outbuf" where
  "move_log moving ob =
     (case ob_sink ob of
        None \<Rightarrow> (Inl NoLogWriter, ob)
      | Some s \<Rightarrow>
          (case moving s of
             (None, err) \<Rightarrow>
               if err \<noteq> [] then
                 (Inr err, ob\<lparr>ob_sink := None, ob_sink_err :=
                    bstr ''nothing is writing this service's log since it was renamed: '' @ err\<rparr>)
               else (Inr err, ob)
           | (Some next_sink, err) \<Rightarrow> (Inr err, set_sink next_sink ob)))"

definition replay_start :: "bytes \<Rightarrow> bytes" where
  "replay_start b =
     (let look = 65536; window = (if length b > look then take look b else b) in
      if 0x0a \<in> set window then drop (length (takeWhile (\<lambda>c. c \<noteq> 0x0a) window) + 1) b else b)"

section \<open>Sessions: every interleaving of a buffer with its readers\<close>

text \<open>
  A buffer together with what the world saw of it: all that was accepted, and for each subscriber
  the snapshot it was handed, what it has received and how much of that it has reported consumed.
\<close>

record 's session =
  se_out :: "'s outbuf"
  se_all :: bytes
  se_snap :: "bytes list"
  se_got :: "bytes list"
  se_done :: "int list"

datatype event = EWrite bytes | EAttach int | EDetach nat | EReceive nat | EConsumed nat int | EResize int int | EClose

inductive session_step :: "(int \<Rightarrow> bool) \<Rightarrow> 's session \<Rightarrow> event \<Rightarrow> 's session \<Rightarrow> bool" for mark where
  written: "ob_write mark p (se_out s) = Some (Inr (n, ob)) \<Longrightarrow>
     session_step mark s (EWrite p) (s\<lparr>se_out := ob, se_all := se_all s @ p\<rparr>)"
| refused: "ob_write mark p (se_out s) = Some (Inl e) \<Longrightarrow> session_step mark s (EWrite p) s"
| attached: "attach q (se_out s) = Some (Inr (snap, i, ob)) \<Longrightarrow>
     session_step mark s (EAttach q) (s\<lparr>se_out := ob, se_snap := se_snap s @ [snap], se_got := se_got s @ [[]],
       se_done := se_done s @ [0]\<rparr>)"
| detached: "i < length (ob_store (se_out s)) \<Longrightarrow>
     session_step mark s (EDetach i) (s\<lparr>se_out := detach i (se_out s)\<rparr>)"
| received: "i < length (ob_store (se_out s)) \<Longrightarrow> receive (sub_at (se_out s) i) = Some (c, sb) \<Longrightarrow>
     session_step mark s (EReceive i) (s\<lparr>se_out := set_sub i sb (se_out s), se_got := (se_got s)[i := se_got s ! i @ c]\<rparr>)"
| consumed: "i < length (ob_store (se_out s)) \<Longrightarrow> 0 \<le> n \<Longrightarrow> se_done s ! i + n \<le> int (length (se_got s ! i)) \<Longrightarrow>
     session_step mark s (EConsumed i n)
       (s\<lparr>se_out := set_sub i (sub_consumed n (sub_at (se_out s) i)) (se_out s), se_done := (se_done s)[i := se_done s ! i + n]\<rparr>)"
| resized: "set_size cols rows (se_out s) = Some ob \<Longrightarrow> session_step mark s (EResize cols rows) (s\<lparr>se_out := ob\<rparr>)"
| closed: "session_step mark s EClose (s\<lparr>se_out := snd (ob_close (se_out s))\<rparr>)"

text \<open>The same step as a function: each event has one outcome.\<close>

fun session_do :: "(int \<Rightarrow> bool) \<Rightarrow> event \<Rightarrow> 's session \<Rightarrow> 's session option" where
  "session_do mark (EWrite p) s =
     map_option (\<lambda>r. case r of Inl e \<Rightarrow> s | Inr (n, ob) \<Rightarrow> s\<lparr>se_out := ob, se_all := se_all s @ p\<rparr>) (ob_write mark p (se_out s))"
| "session_do mark (EAttach q) s =
     (case attach q (se_out s) of
        Some (Inr (snap, i, ob)) \<Rightarrow> Some (s\<lparr>se_out := ob, se_snap := se_snap s @ [snap], se_got := se_got s @ [[]], se_done := se_done s @ [0]\<rparr>)
      | _ \<Rightarrow> None)"
| "session_do mark (EDetach i) s =
     (if i < length (ob_store (se_out s)) then Some (s\<lparr>se_out := detach i (se_out s)\<rparr>) else None)"
| "session_do mark (EReceive i) s =
     (if i < length (ob_store (se_out s))
      then map_option (\<lambda>(c, sb). s\<lparr>se_out := set_sub i sb (se_out s), se_got := (se_got s)[i := se_got s ! i @ c]\<rparr>)
             (receive (sub_at (se_out s) i))
      else None)"
| "session_do mark (EConsumed i n) s =
     (if i < length (ob_store (se_out s)) \<and> 0 \<le> n \<and> se_done s ! i + n \<le> int (length (se_got s ! i))
      then Some (s\<lparr>se_out := set_sub i (sub_consumed n (sub_at (se_out s) i)) (se_out s), se_done := (se_done s)[i := se_done s ! i + n]\<rparr>)
      else None)"
| "session_do mark (EResize cols rows) s = map_option (\<lambda>ob. s\<lparr>se_out := ob\<rparr>) (set_size cols rows (se_out s))"
| "session_do mark EClose s = Some (s\<lparr>se_out := snd (ob_close (se_out s))\<rparr>)"

inductive_cases session_stepE: "session_step mark s e s'"

lemma session_step_do: "session_step mark s e s' \<longleftrightarrow> session_do mark e s = Some s'"
proof
  show "session_step mark s e s' \<Longrightarrow> session_do mark e s = Some s'"
    by (erule session_stepE) simp_all
next
  assume "session_do mark e s = Some s'"
  then show "session_step mark s e s'"
  proof (cases e)
    case (EWrite p)
    then obtain r where "ob_write mark p (se_out s) = Some r" "s' = (case r of Inl e \<Rightarrow> s | Inr (n, ob) \<Rightarrow> s\<lparr>se_out := ob, se_all := se_all s @ p\<rparr>)"
      using \<open>session_do mark e s = Some s'\<close> by auto
    then show ?thesis using EWrite by (cases r) (auto intro: session_step.intros)
  qed (auto intro: session_step.intros split: option.split_asm sum.split_asm prod.split_asm if_split_asm)
qed

fun session_run :: "(int \<Rightarrow> bool) \<Rightarrow> event list \<Rightarrow> 's session \<Rightarrow> 's session option" where
  "session_run mark [] s = Some s"
| "session_run mark (e # es) s = Option.bind (session_do mark e s) (session_run mark es)"

definition new_session :: "int \<Rightarrow> 's session" where
  "new_session capacity = \<lparr>se_out = new_output capacity, se_all = [], se_snap = [], se_got = [], se_done = []\<rparr>"

inductive session_reach :: "(int \<Rightarrow> bool) \<Rightarrow> int \<Rightarrow> 's session \<Rightarrow> bool" for mark capacity where
  start: "session_reach mark capacity (new_session capacity)"
| more: "session_reach mark capacity s \<Longrightarrow> session_step mark s e s' \<Longrightarrow> session_reach mark capacity s'"

lemma session_run_reach:
  "session_run mark es s = Some s' \<Longrightarrow> session_reach mark capacity s \<Longrightarrow> session_reach mark capacity s'"
proof (induction es arbitrary: s)
  case (Cons e es)
  obtain s1 where "session_do mark e s = Some s1" "session_run mark es s1 = Some s'"
    using Cons.prems(1) by (auto simp: bind_eq_Some_conv)
  then show ?case using Cons.IH[of s1] Cons.prems(2) session_reach.more session_step_do by blast
qed simp

section \<open>The invariant\<close>

text \<open>One subscriber: \<open>hist\<close> is all that was written, \<open>reg\<close> whether it is still registered.\<close>

definition sub_ok :: "bytes \<Rightarrow> nat \<Rightarrow> bool \<Rightarrow> bytes \<Rightarrow> bytes \<Rightarrow> int \<Rightarrow> subscriber \<Rightarrow> bool" where
  "sub_ok hist room reg snap got finished sb \<longleftrightarrow>
     0 \<le> sb_from sb \<and> sb_from sb \<le> int (length hist) \<and>
     (\<exists>rest. drop (nat (sb_from sb)) hist = got @ concat (sb_queue sb) @ rest \<and> (reg \<longrightarrow> rest = [])) \<and>
     (reg \<longleftrightarrow> \<not> sb_shut sb) \<and> (reg \<longrightarrow> \<not> sb_lagged sb) \<and>
     snap = lastn room (take (nat (sb_from sb)) hist) \<and>
     sb_queued sb = int (length got) - finished + int (length (concat (sb_queue sb))) \<and>
     0 \<le> finished \<and> finished \<le> int (length got) \<and> sb_queued sb \<le> sb_max sb \<and>
     length (sb_queue sb) \<le> subscriber_chunks"

definition session_ok :: "nat \<Rightarrow> 's session \<Rightarrow> bool" where
  "session_ok room s \<longleftrightarrow>
     (let ob = se_out s; n = length (ob_store ob) in
      ring_inv (ob_ring ob) \<and> length (rb_buf (ob_ring ob)) = room \<and> ring_bytes (ob_ring ob) = lastn room (se_all s) \<and>
      ob_written ob = int (length (se_all s)) \<and>
      distinct (ob_subs ob) \<and> (\<forall>i \<in> set (ob_subs ob). i < n) \<and> (ob_closed ob \<longrightarrow> ob_subs ob = []) \<and>
      length (se_snap s) = n \<and> length (se_got s) = n \<and> length (se_done s) = n \<and>
      (\<forall>i < n. sub_ok (se_all s) room (i \<in> set (ob_subs ob)) (se_snap s ! i) (se_got s ! i) (se_done s ! i) (sub_at ob i)))"

subsection \<open>Single subscribers\<close>

lemma sub_ok_offer:
  assumes "sub_ok hist room True snap got finished sb"
  shows "sub_ok (hist @ p) room (\<not> sb_lagged (offer p sb)) snap got finished (offer p sb)"
  using assms unfolding sub_ok_def offer_def close_ch_def Let_def
  by (auto simp: subscriber_chunks_def)

lemma sub_ok_unregistered:
  assumes "sub_ok hist room False snap got finished sb"
  shows "sub_ok (hist @ p) room False snap got finished sb"
  using assms unfolding sub_ok_def by auto

lemma sub_ok_close: "sub_ok hist room reg snap got finished sb \<Longrightarrow> sub_ok hist room False snap got finished (close_ch sb)"
  unfolding sub_ok_def close_ch_def by auto

lemma sub_ok_receive:
  assumes "sub_ok hist room reg snap got finished sb" "receive sb = Some (c, sb')"
  shows "sub_ok hist room reg snap (got @ c) finished sb'"
  using assms unfolding sub_ok_def receive_def by (auto split: list.split_asm)

lemma sub_ok_consumed:
  assumes "sub_ok hist room reg snap got finished sb" "0 \<le> n" "finished + n \<le> int (length got)"
  shows "sub_ok hist room reg snap got (finished + n) (sub_consumed n sb)"
  using assms unfolding sub_ok_def sub_consumed_def by auto

subsection \<open>All of them\<close>

definition each_sub :: "(subscriber \<Rightarrow> subscriber) \<Rightarrow> nat list \<Rightarrow> 's outbuf \<Rightarrow> 's outbuf" where
  "each_sub f ids ob = fold (\<lambda>i b. set_sub i (f (sub_at b i)) b) ids ob"

lemma each_sub_store:
  assumes "distinct ids"
  shows "\<exists>st. each_sub f ids ob = ob\<lparr>ob_store := st\<rparr> \<and> length st = length (ob_store ob) \<and>
     (\<forall>i < length (ob_store ob). st ! i = (if i \<in> set ids then f (ob_store ob ! i) else ob_store ob ! i))"
  using assms
proof (induction ids arbitrary: ob)
  case Nil
  show ?case by (rule exI[of _ "ob_store ob"]) (simp add: each_sub_def)
next
  case (Cons k ids)
  let ?ob = "set_sub k (f (sub_at ob k)) ob"
  obtain st where st: "each_sub f ids ?ob = ?ob\<lparr>ob_store := st\<rparr>" "length st = length (ob_store ?ob)"
    "\<And>i. i < length (ob_store ?ob) \<Longrightarrow> st ! i = (if i \<in> set ids then f (ob_store ?ob ! i) else ob_store ?ob ! i)"
    using Cons.IH[of ?ob] Cons.prems by auto
  have "each_sub f (k # ids) ob = ob\<lparr>ob_store := st\<rparr>"
    using st(1) by (simp add: each_sub_def set_sub_def)
  moreover have "st ! i = (if i \<in> set (k # ids) then f (ob_store ob ! i) else ob_store ob ! i)"
    if "i < length (ob_store ob)" for i
    using st(3)[of i] that Cons.prems by (cases "i = k") (auto simp: set_sub_def sub_at_def)
  ultimately show ?case using st(2) by (auto simp: set_sub_def)
qed

lemma draw_locked_frame:
  assumes "draw_locked mark p ob = Some ob'"
  shows "\<exists>scr. ob' = ob\<lparr>ob_screen := scr\<rparr>"
  using assms unfolding draw_locked_def by (auto split: if_split_asm option.split_asm bind_split_asm)

lemma offer_all_frame: "\<exists>st. offer_all p ob = ob\<lparr>ob_store := st\<rparr>"
proof -
  have "\<exists>st. fold (\<lambda>i b. set_sub i (offer p (sub_at b i)) b) ids ob = ob\<lparr>ob_store := st\<rparr>" for ids
  proof (induction ids arbitrary: ob)
    case Nil
    show ?case by (rule exI[of _ "ob_store ob"]) simp
  next
    case (Cons i ids)
    obtain st where "fold (\<lambda>i b. set_sub i (offer p (sub_at b i)) b) ids (set_sub i (offer p (sub_at ob i)) ob) =
      (set_sub i (offer p (sub_at ob i)) ob)\<lparr>ob_store := st\<rparr>" using Cons by blast
    then show ?case by (auto simp: set_sub_def)
  qed
  then show ?thesis by (simp add: offer_all_def)
qed

lemma write_ok:
  assumes ok: "session_ok room s" and w: "ob_write mark p (se_out s) = Some (Inr (n, ob'))"
  shows "session_ok room (s\<lparr>se_out := ob', se_all := se_all s @ p\<rparr>)"
proof (cases "p = []")
  case True
  then show ?thesis using assms by (auto simp: ob_write_def split: if_split_asm)
next
  case False
  let ?ob = "se_out s"
  note ok' = ok[unfolded session_ok_def Let_def]
  have nc: "\<not> ob_closed ?ob" using w by (auto simp: ob_write_def)
  obtain r where r: "ring_append p (ob_ring ?ob) = Some r" "ring_inv r" "length (rb_buf r) = room"
    "ring_bytes r = lastn room (se_all s @ p)"
    using ring_append_ok[of "ob_ring ?ob" p] ok' by auto
  let ?ob1 = "?ob\<lparr>ob_ring := r, ob_written := ob_written ?ob + int (length p), ob_modes := modes_feed p (ob_modes ?ob)\<rparr>"
  obtain ob2 where d: "draw_locked mark p ?ob1 = Some ob2" and ob': "ob' = prune_lagged (offer_all p ob2)"
    using w False nc r(1) by (auto simp: ob_write_def Let_def bind_eq_Some_conv)
  obtain scr where ob2: "ob2 = ?ob1\<lparr>ob_screen := scr\<rparr>" using draw_locked_frame[OF d] by blast
  have subs: "distinct (ob_subs ?ob)" "\<forall>i \<in> set (ob_subs ?ob). i < length (ob_store ?ob)" using ok' by auto
  obtain st where st: "offer_all p ob2 = ob2\<lparr>ob_store := st\<rparr>" "length st = length (ob_store ?ob)"
    "\<And>i. i < length (ob_store ?ob) \<Longrightarrow>
       st ! i = (if i \<in> set (ob_subs ?ob) then offer p (ob_store ?ob ! i) else ob_store ?ob ! i)"
    using each_sub_store[of "ob_subs ?ob" "offer p" ob2] subs(1) unfolding offer_all_def each_sub_def ob2 by auto
  have ob'': "ob' = prune_lagged (ob2\<lparr>ob_store := st\<rparr>)" by (simp only: ob' st(1))
  have sub: "sub_ok (se_all s @ p) room (i \<in> set (ob_subs ob')) (se_snap s ! i) (se_got s ! i) (se_done s ! i) (sub_at ob' i)"
    if i: "i < length (ob_store ?ob)" for i
  proof -
    have old: "sub_ok (se_all s) room (i \<in> set (ob_subs ?ob)) (se_snap s ! i) (se_got s ! i) (se_done s ! i) (ob_store ?ob ! i)"
      using ok' i by (simp add: sub_at_def)
    have at: "sub_at ob' i = st ! i" "ob_subs ob' = filter (\<lambda>i. \<not> sb_lagged (st ! i)) (ob_subs ?ob)"
      by (simp_all add: ob'' prune_lagged_def sub_at_def ob2)
    show ?thesis
    proof (cases "i \<in> set (ob_subs ?ob)")
      case True
      then show ?thesis using sub_ok_offer[of "se_all s" room _ _ _ _ p] old st(3)[OF i] at by simp
    next
      case False
      then show ?thesis using sub_ok_unregistered[of "se_all s" room _ _ _ _ p] old st(3)[OF i] at by simp
    qed
  qed
  have "ob_ring ob' = r" "ob_written ob' = ob_written ?ob + int (length p)" "ob_closed ob' = ob_closed ?ob"
    "length (ob_store ob') = length (ob_store ?ob)" "ob_subs ob' = filter (\<lambda>i. \<not> sb_lagged (st ! i)) (ob_subs ?ob)"
    using st(2) by (simp_all add: ob'' prune_lagged_def sub_at_def ob2)
  then show ?thesis using r(2-4) nc ok' sub unfolding session_ok_def Let_def by simp
qed

lemma attach_ok:
  assumes ok: "session_ok room s" and a: "attach q (se_out s) = Some (Inr (snap, i, ob'))"
  shows "session_ok room (s\<lparr>se_out := ob', se_snap := se_snap s @ [snap], se_got := se_got s @ [[]], se_done := se_done s @ [0]\<rparr>)"
proof -
  let ?ob = "se_out s"
  note ok' = ok[unfolded session_ok_def Let_def]
  have snap: "ob_snapshot ?ob = Some (lastn room (se_all s), int (length (se_all s)))"
    using ok' by (simp add: ob_snapshot_def ring_snapshot_bytes)
  obtain picture where
    "let sb = \<lparr>sb_preamble = preamble (ob_modes ?ob), sb_screen = picture, sb_queue = [],
        sb_max = (if q \<le> 0 then default_output_bytes else q), sb_from = int (length (se_all s)), sb_queued = 0,
        sb_lagged = False, sb_shut = False\<rparr> in
     snap = lastn room (se_all s) \<and> i = length (ob_store ?ob) \<and> \<not> ob_closed ?ob \<and>
     ob' = ?ob\<lparr>ob_store := ob_store ?ob @ [sb], ob_subs := ob_subs ?ob @ [i]\<rparr>"
    using a by (auto simp: attach_def snap Let_def bind_eq_Some_conv split: if_split_asm)
  then obtain sb where sb: "sub_ok (se_all s) room True snap [] 0 sb" "i = length (ob_store ?ob)" "\<not> ob_closed ?ob"
    "ob' = ?ob\<lparr>ob_store := ob_store ?ob @ [sb], ob_subs := ob_subs ?ob @ [i]\<rparr>"
    unfolding Let_def
    by (elim conjE, intro that) (auto simp: sub_ok_def default_output_bytes_def)
  have "sub_ok (se_all s) room (k \<in> set (ob_subs ob')) ((se_snap s @ [snap]) ! k) ((se_got s @ [[]]) ! k)
      ((se_done s @ [0]) ! k) (sub_at ob' k)" if "k < length (ob_store ob')" for k
  proof (cases "k < length (ob_store ?ob)")
    case True
    then show ?thesis using ok' sb by (auto simp: sub_at_def nth_append)
  next
    case False
    then have "k = i" using that sb by simp
    then show ?thesis using ok' sb by (auto simp: sub_at_def nth_append)
  qed
  then show ?thesis using ok' sb unfolding session_ok_def Let_def by (auto simp: less_Suc_eq)
qed

text \<open>A change to one subscriber, and to what its reader has done.\<close>

lemma one_sub_ok:
  assumes ok: "session_ok room s" and i: "i < length (ob_store (se_out s))"
    and subs: "set ids \<subseteq> set (ob_subs (se_out s))" "distinct ids" "\<And>k. k \<noteq> i \<Longrightarrow> k \<in> set ids \<longleftrightarrow> k \<in> set (ob_subs (se_out s))"
    and sb: "sub_ok (se_all s) room (i \<in> set ids) (se_snap s ! i) got finished sb"
  shows "session_ok room (s\<lparr>se_out := set_sub i sb ((se_out s)\<lparr>ob_subs := ids\<rparr>),
     se_got := (se_got s)[i := got], se_done := (se_done s)[i := finished]\<rparr>)"
proof -
  note ok' = ok[unfolded session_ok_def Let_def]
  have "sub_ok (se_all s) room (k \<in> set ids) (se_snap s ! k) ((se_got s)[i := got] ! k)
      ((se_done s)[i := finished] ! k) ((ob_store (se_out s))[i := sb] ! k)" if "k < length (ob_store (se_out s))" for k
    using that ok' subs(3)[of k] sb i by (cases "k = i") (auto simp: sub_at_def)
  moreover have "\<forall>k \<in> set ids. k < length (ob_store (se_out s))" "ob_closed (se_out s) \<longrightarrow> ids = []"
    using ok' subs(1) by auto
  ultimately show ?thesis using ok' subs(2) unfolding session_ok_def Let_def by (simp add: set_sub_def sub_at_def)
qed

lemma close_ok:
  assumes ok: "session_ok room s"
  shows "session_ok room (s\<lparr>se_out := snd (ob_close (se_out s))\<rparr>)"
proof (cases "ob_closed (se_out s)")
  case True
  then show ?thesis using ok by (simp add: ob_close_def)
next
  case False
  let ?ob = "se_out s"
  note ok' = ok[unfolded session_ok_def Let_def]
  obtain st where st: "each_sub close_ch (ob_subs ?ob) ?ob = ?ob\<lparr>ob_store := st\<rparr>" "length st = length (ob_store ?ob)"
    "\<And>i. i < length (ob_store ?ob) \<Longrightarrow> st ! i = (if i \<in> set (ob_subs ?ob) then close_ch (ob_store ?ob ! i) else ob_store ?ob ! i)"
    using each_sub_store[of "ob_subs ?ob" close_ch ?ob] ok' by auto
  have "snd (ob_close ?ob) = ?ob\<lparr>ob_store := st, ob_closed := True, ob_subs := []\<rparr>"
    using False st(1) by (simp add: ob_close_def each_sub_def)
  moreover have "sub_ok (se_all s) room False (se_snap s ! i) (se_got s ! i) (se_done s ! i) (st ! i)"
    if i: "i < length (ob_store ?ob)" for i
  proof -
    have "sub_ok (se_all s) room (i \<in> set (ob_subs ?ob)) (se_snap s ! i) (se_got s ! i) (se_done s ! i) (ob_store ?ob ! i)"
      using ok' i by (simp add: sub_at_def)
    then show ?thesis using st(3)[OF i] sub_ok_close by (cases "i \<in> set (ob_subs ?ob)") auto
  qed
  ultimately show ?thesis using ok' st(2) unfolding session_ok_def Let_def by (simp add: sub_at_def)
qed

lemma session_step_ok: "session_step mark s e s' \<Longrightarrow> session_ok room s \<Longrightarrow> session_ok room s'"
proof (induction rule: session_step.induct)
  case (written p s n ob)
  then show ?case by (simp add: write_ok)
next
  case (attached q s snap i ob)
  then show ?case by (simp add: attach_ok)
next
  case (detached i s)
  let ?ids = "removeAll i (ob_subs (se_out s))"
  have "distinct ?ids" and sub: "sub_ok (se_all s) room (i \<in> set (ob_subs (se_out s))) (se_snap s ! i) (se_got s ! i) (se_done s ! i) (sub_at (se_out s) i)"
    using detached unfolding session_ok_def Let_def by (auto simp: distinct_removeAll)
  then show ?case
    using one_sub_ok[OF detached(2,1), of ?ids "se_got s ! i" "se_done s ! i" "close_ch (sub_at (se_out s) i)"] sub_ok_close[OF sub] detached(2)
    by (auto simp: detach_def sub_at_def set_sub_def)
next
  case (received i s c sb)
  have "sub_ok (se_all s) room (i \<in> set (ob_subs (se_out s))) (se_snap s ! i) (se_got s ! i) (se_done s ! i) (sub_at (se_out s) i)"
    "distinct (ob_subs (se_out s))"
    using received unfolding session_ok_def Let_def by auto
  then show ?case
    using one_sub_ok[OF received(3,1), of "ob_subs (se_out s)" "se_got s ! i @ c" "se_done s ! i" sb] sub_ok_receive[OF _ received(2)]
    by simp
next
  case (consumed i s n)
  have "sub_ok (se_all s) room (i \<in> set (ob_subs (se_out s))) (se_snap s ! i) (se_got s ! i) (se_done s ! i) (sub_at (se_out s) i)"
    "distinct (ob_subs (se_out s))"
    using consumed unfolding session_ok_def Let_def by auto
  then show ?case
    using one_sub_ok[OF consumed(4,1), of "ob_subs (se_out s)" "se_got s ! i" "se_done s ! i + n"] sub_ok_consumed[OF _ consumed(2,3)]
    by simp
next
  case (resized cols rows s ob)
  then have "ob_ring ob = ob_ring (se_out s)" "ob_written ob = ob_written (se_out s)" "ob_store ob = ob_store (se_out s)"
    "ob_subs ob = ob_subs (se_out s)" "ob_closed ob = ob_closed (se_out s)"
    by (auto simp: set_size_def Let_def split: option.split_asm if_split_asm bind_split_asm)
  then show ?case using resized(2) unfolding session_ok_def Let_def by (simp add: sub_at_def)
next
  case (closed s)
  then show ?case by (rule close_ok)
qed simp

lemma session_reach_ok: "session_reach mark capacity s \<Longrightarrow> session_ok (length (rb_buf (new_byte_ring capacity))) s"
proof (induction rule: session_reach.induct)
  case start
  show ?case by (simp add: session_ok_def new_session_def new_output_def new_byte_ring_inv)
next
  case (more s e s')
  then show ?case using session_step_ok by blast
qed

section \<open>Properties\<close>

text \<open>
  C6. However writes, attaches, detaches, reads, resizes and the close interleave, a subscriber's
  snapshot is the newest output at the moment it attached, and the chunks it has received followed
  by those waiting in its channel are, without gap, loss or repetition, the output from exactly there
  on: all of it while it is registered, and when it is not - it lagged, was detached, or the buffer
  closed - its channel is closed, so its reader is never left waiting for output that will not come.
\<close>

theorem attach_without_gap:
  assumes "session_reach mark capacity s" "i < length (ob_store (se_out s))"
  defines "sb \<equiv> sub_at (se_out s) i"
  defines "before \<equiv> take (nat (sb_from sb)) (se_all s)"
  shows "se_snap s ! i = lastn (length (rb_buf (new_byte_ring capacity))) before \<and>
    (if i \<in> set (ob_subs (se_out s))
     then se_all s = before @ se_got s ! i @ concat (sb_queue sb) \<and> \<not> sb_shut sb
     else (\<exists>rest. se_all s = before @ se_got s ! i @ concat (sb_queue sb) @ rest) \<and> sb_shut sb)"
proof -
  let ?room = "length (rb_buf (new_byte_ring capacity))"
  have ok: "sub_ok (se_all s) ?room (i \<in> set (ob_subs (se_out s))) (se_snap s ! i) (se_got s ! i) (se_done s ! i) sb"
    using session_reach_ok[OF assms(1)] assms(2) unfolding session_ok_def Let_def sb_def by blast
  then obtain rest where "drop (nat (sb_from sb)) (se_all s) = se_got s ! i @ concat (sb_queue sb) @ rest"
    "i \<in> set (ob_subs (se_out s)) \<longrightarrow> rest = []" unfolding sub_ok_def by blast
  moreover from this(1) have "se_all s = before @ se_got s ! i @ concat (sb_queue sb) @ rest"
    unfolding before_def by (metis append_take_drop_id)
  ultimately show ?thesis using ok unfolding sub_ok_def before_def by auto
qed

text \<open>
  C29. What a slow reader can make the daemon hold is bounded: the bytes waiting for it never exceed
  its budget and the chunks never exceed the depth of its channel, whatever is written and however
  little it reads, as long as it reports no more than it received.
\<close>

theorem slow_reader_bounded:
  assumes "session_reach mark capacity s" "i < length (ob_store (se_out s))"
  shows "int (length (concat (sb_queue (sub_at (se_out s) i)))) \<le> sb_max (sub_at (se_out s) i) \<and>
    length (sb_queue (sub_at (se_out s) i)) \<le> subscriber_chunks \<and> 0 \<le> sb_queued (sub_at (se_out s) i)"
proof -
  have "sub_ok (se_all s) (length (rb_buf (new_byte_ring capacity))) (i \<in> set (ob_subs (se_out s))) (se_snap s ! i)
      (se_got s ! i) (se_done s ! i) (sub_at (se_out s) i)"
    using session_reach_ok[OF assms(1)] assms(2) unfolding session_ok_def Let_def by blast
  then show ?thesis unfolding sub_ok_def by auto
qed

text \<open>A run for the witnesses: a write, an attach, a longer write, one chunk read, another attach.\<close>

definition sample_run :: "unit session option" where
  "sample_run = session_run no_marks
     [EWrite (bstr ''abcdef''), EAttach 8, EWrite (bstr ''gh''), EReceive 0, EWrite (bstr ''ij''), EWrite (bstr ''klmnopqr''), EConsumed 0 2] (new_session 4)"

lemma sample_reached: "sample_run = Some s \<Longrightarrow> session_reach no_marks 4 s"
  using session_run_reach[OF _ session_reach.start] unfolding sample_run_def by blast

lemma sample_value:
  "map_option (\<lambda>s. (ob_store (se_out s), ob_subs (se_out s), se_all s, se_snap s, se_got s)) sample_run =
   Some ([\<lparr>sb_preamble = [], sb_screen = None, sb_queue = [bstr ''ij''], sb_max = 8, sb_from = 6, sb_queued = 2,
      sb_lagged = True, sb_shut = True\<rparr>], [], bstr ''abcdefghijklmnopqr'', [bstr ''cdef''], [bstr ''gh''])"
  by code_simp

theorem attach_without_gap_witness:
  "\<exists>s. sample_run = Some s \<and> se_snap s ! 0 = lastn 4 (bstr ''abcdef'') \<and>
     (\<exists>rest. se_all s = bstr ''abcdef'' @ bstr ''gh'' @ bstr ''ij'' @ rest)"
proof -
  obtain s where s: "sample_run = Some s" using sample_value by (cases sample_run) auto
  note v = sample_value[unfolded s, simplified]
  show ?thesis using attach_without_gap[OF sample_reached[OF s], of 0] v s
    by (auto simp: sub_at_def new_byte_ring_def)
qed

theorem slow_reader_bounded_witness:
  "\<exists>s. sample_run = Some s \<and> length (concat (sb_queue (sub_at (se_out s) 0))) \<le> 8"
proof -
  obtain s where s: "sample_run = Some s" using sample_value by (cases sample_run) auto
  note v = sample_value[unfolded s, simplified]
  show ?thesis using slow_reader_bounded[OF sample_reached[OF s], of 0] v s
    by (intro exI[of _ s]) (simp add: sub_at_def)
qed

section \<open>Writes are never refused\<close>

definition picture_ok :: "'s outbuf \<Rightarrow> bool" where
  "picture_ok ob \<longleftrightarrow>
     (ob_cols ob \<le> 0 \<or> ob_rows ob \<le> 0 \<or> 2 \<le> ob_cols ob \<and> ob_cols ob \<le> max_dim \<and> ob_rows ob \<le> max_dim) \<and>
     (case ob_screen ob of Some e \<Rightarrow> good (fst e) | None \<Rightarrow> True)"

lemma fresh_screen_good:
  assumes "cols \<le> 0 \<or> rows \<le> 0 \<or> 2 \<le> cols \<and> cols \<le> max_dim \<and> rows \<le> max_dim"
  shows "\<exists>e. fresh_screen cols rows = Some e \<and> good (fst e)"
proof -
  obtain c r where cr: "(if cols \<le> 0 \<or> rows \<le> 0 then (80, 24) else (cols, rows)) = (c, r)" "2 \<le> c" "c \<le> max_dim" "1 \<le> r" "r \<le> max_dim"
    using assms by (cases "cols \<le> 0 \<or> rows \<le> 0") (auto simp: max_dim_def)
  have g: "good (new_term c r)" by (rule new_term_good) (use cr in auto)
  have h: "t_hist (new_term c r) = \<lparr>hr_lines = [], hr_start = 0, hr_n = 0, hr_limit = default_scrollback\<rparr>"
    using cr by (simp add: new_term_def Let_def new_ring_def empty_ring_def)
  have "hist_set_limit 0 (t_hist (new_term c r)) = Some empty_ring"
    by (simp add: h hist_set_limit_def empty_ring_def default_scrollback_def)
  moreover have "good ((new_term c r)\<lparr>t_hist := empty_ring\<rparr>)"
    using g unfolding good_def wf_def saved_ok_def alt_ok_def
    by (auto simp: hist_ok_def hist_inv_def empty_ring_def split: option.split option.split_asm)
  ultimately show ?thesis by (simp add: fresh_screen_def cr(1))
qed

lemma good_taken: "good t \<Longrightarrow> good (snd (take_colour_asks (snd (take_replies t))))"
  unfolding good_def wf_def saved_ok_def alt_ok_def take_colour_asks_def take_replies_def snd_conv
  by (auto split: option.split option.split_asm)

text \<open>
  The reader of the pty is never held up: on an open buffer every write returns the number of
  bytes given, whatever the subscribers do, also while a full-screen program's picture is kept (for
  two columns or more and numbers of at most 18 digits); and on a closed one every write, even an
  empty one, is the error.
\<close>

theorem writes_never_refused:
  assumes "ring_inv (ob_ring ob)" "picture_ok ob"
    "\<And>e. picture_of ob = Some e \<Longrightarrow> numbers_ok mark p e"
  shows "\<exists>ob'. ob_write mark p ob = Some (if ob_closed ob then Inl OutputClosed else Inr (length p, ob')) \<and>
     ring_inv (ob_ring ob') \<and> picture_ok ob'"
proof (cases "ob_closed ob \<or> p = []")
  case True
  then show ?thesis using assms(1,2) by (auto simp: ob_write_def)
next
  case False
  obtain r where r: "ring_append p (ob_ring ob) = Some r" "ring_inv r" using ring_append_ok[OF assms(1)] by blast
  let ?ob1 = "ob\<lparr>ob_ring := r, ob_written := ob_written ob + int (length p), ob_modes := modes_feed p (ob_modes ob)\<rparr>"
  have pic: "picture_of ?ob1 = picture_of ob" by (simp add: picture_of_def cong: option.case_cong)
  have "\<exists>scr. draw_locked mark p ?ob1 = Some (?ob1\<lparr>ob_screen := scr\<rparr>) \<and> (case scr of Some e \<Rightarrow> good (fst e) | None \<Rightarrow> True)"
  proof (cases "on_alt_screen (modes_feed p (ob_modes ob))")
    case True
    obtain e where e: "picture_of ob = Some e" "good (fst e)"
      using assms(2) fresh_screen_good[of "ob_cols ob" "ob_rows ob"] unfolding picture_ok_def picture_of_def
      by (cases "ob_screen ob") auto
    obtain e' where "feed mark p e = Some e'" "good (fst e')" using feed_okay[OF e(2) assms(3)[OF e(1)]] by blast
    then have "draw_locked mark p ?ob1 = Some (?ob1\<lparr>ob_screen := Some (snd (take_colour_asks (snd (take_replies (fst e')))), snd e')\<rparr>)"
      using True e(1) pic by (simp add: draw_locked_def split_beta)
    then show ?thesis using good_taken[OF \<open>good (fst e')\<close>] by auto
  next
    case False
    then have "draw_locked mark p ?ob1 = Some (?ob1\<lparr>ob_screen := None\<rparr>)" by (simp add: draw_locked_def)
    then show ?thesis by (metis option.simps(4))
  qed
  then obtain scr where scr: "draw_locked mark p ?ob1 = Some (?ob1\<lparr>ob_screen := scr\<rparr>)"
    "case scr of Some e \<Rightarrow> good (fst e) | None \<Rightarrow> True" by blast
  let ?ob' = "prune_lagged (offer_all p (?ob1\<lparr>ob_screen := scr\<rparr>))"
  have w: "ob_write mark p ob = Some (Inr (length p, ?ob'))"
    using False r(1) scr(1) by (simp add: ob_write_def Let_def)
  obtain st where "offer_all p (?ob1\<lparr>ob_screen := scr\<rparr>) = ?ob1\<lparr>ob_screen := scr\<rparr>\<lparr>ob_store := st\<rparr>"
    using offer_all_frame by blast
  then have "ob_ring ?ob' = r" "picture_ok ?ob'" using assms(2) scr(2) by (simp_all add: prune_lagged_def picture_ok_def)
  then show ?thesis using w r(2) False by auto
qed

theorem writes_never_refused_witness:
  "\<exists>ob'. ob_write no_marks (0x1b # bstr ''[?1049hx'') ((new_output 8 :: unit outbuf)\<lparr>ob_cols := 4, ob_rows := 1\<rparr>) = Some (Inr (9, ob'))"
proof -
  let ?ob = "(new_output 8 :: unit outbuf)\<lparr>ob_cols := 4, ob_rows := 1\<rparr>" and ?p = "0x1b # bstr ''[?1049hx''"
  have "picture_of ?ob = fresh_screen 4 1" by (simp add: picture_of_def new_output_def)
  moreover have "map_option (numbers_ok no_marks ?p) (fresh_screen 4 1) = Some True" by code_simp
  ultimately have "\<And>e. picture_of ?ob = Some e \<Longrightarrow> numbers_ok no_marks ?p e" by auto
  moreover have "ring_inv (ob_ring ?ob)" "picture_ok ?ob" "\<not> ob_closed ?ob"
    by (simp_all add: new_output_def new_byte_ring_inv picture_ok_def max_dim_def)
  ultimately show ?thesis using writes_never_refused[of ?ob no_marks ?p] by auto
qed

text \<open>
  The picture kept of a full-screen program depends on how the switch to its screen was cut into
  reads: the modes are followed across a cut, the emulator is only made once they say so, and then
  sees the second half of the escape sequence as text, on the wrong screen.
\<close>

definition picture_text :: "'s outbuf \<Rightarrow> (bool \<times> bytes list) option" where
  "picture_text ob = map_option (\<lambda>(t, p). (alt_screen t, map content (t_cells t ! 0))) (ob_screen ob)"

definition writes :: "bytes list \<Rightarrow> (bool \<times> bytes list) option" where
  "writes ps = Option.bind (set_size 4 1 (new_output 16 :: unit outbuf)) (\<lambda>ob.
     Option.bind (append_many (\<lambda>p b. Option.bind (ob_write no_marks p b) (\<lambda>r. case r of Inl _ \<Rightarrow> None | Inr (n, b') \<Rightarrow> Some b')) ps ob)
       picture_text)"

theorem cut_switch_is_drawn:
  "writes [0x1b # bstr ''[?1049hX''] = Some (True, [[0x58], [0x20], [0x20], [0x20]]) \<and>
   writes [0x1b # bstr ''[?10'', bstr ''49hX''] = Some (False, [[0x34], [0x39], [0x68], [0x58]])"
  by (intro conjI; code_simp)

end
