(* ===== verification/LogFile.thy ===== *)
theory LogFile
  imports Output
begin

text \<open>
  \<open>src/internal/fabric/logfile.go\<close>, writing: the disk writer of one output buffer. Files are a map
  from paths to contents. What the operating system answers is an argument: an \<open>io\<close> record says, for
  one write of the writer, which of the calls it makes succeed and what the clock says. Nobody else
  is assumed to rename or remove the log while the writer has it open, so that an open handle and the
  path are the same file.
\<close>

section \<open>State\<close>

type_synonym files = "bytes \<Rightarrow> bytes option"

text \<open>
  \<open>io_room\<close> is how many of the bytes \<open>write(2)\<close> takes; \<open>io_now\<close> the clock, in nanoseconds. The file may be
  opened twice in one write, before and after a rotation.
\<close>

record io =
  io_open :: bool
  io_seek :: bool
  io_rename :: bool
  io_rename_idx :: bool
  io_reopen :: bool
  io_reseek :: bool
  io_idx :: bool
  io_room :: nat
  io_now :: int
  io_err :: bytes

record log_sink =
  lk_path :: bytes
  lk_max :: int
  lk_open :: bool
  lk_n :: int
  lk_marked :: "int option"
  lk_no_rotate :: int
  lk_flushed :: int
  lk_sub :: nat
  lk_closing :: bool
  lk_last_err :: bytes
  lk_rotate_err :: bytes
  lk_dropped :: int
  lk_done :: bool

definition default_log_bytes :: int where
  "default_log_bytes = 16777216"

definition log_sink_queue_bytes :: int where
  "log_sink_queue_bytes = 8388608"

definition nanos :: int where
  "nanos = 1000000000"

definition mark_every :: int where
  "mark_every = 60 * nanos"

definition old_path :: "bytes \<Rightarrow> bytes" where
  "old_path p = p @ bstr ''.1''"

definition index_path :: "bytes \<Rightarrow> bytes" where
  "index_path p = p @ bstr ''.idx''"

definition file_at :: "files \<Rightarrow> bytes \<Rightarrow> bytes" where
  "file_at fs p = (case fs p of None \<Rightarrow> [] | Some b \<Rightarrow> b)"

text \<open>Opening with \<open>O_CREATE\<close> and \<open>O_APPEND\<close>, and appending.\<close>

definition create :: "bytes \<Rightarrow> files \<Rightarrow> files" where
  "create p fs = fs(p := Some (file_at fs p))"

definition append_file :: "bytes \<Rightarrow> bytes \<Rightarrow> files \<Rightarrow> files" where
  "append_file p b fs = fs(p := Some (file_at fs p @ b))"

definition rename_file :: "bytes \<Rightarrow> bytes \<Rightarrow> files \<Rightarrow> files" where
  "rename_file p q fs = (case fs p of None \<Rightarrow> fs | Some b \<Rightarrow> fs(q := Some b, p := None))"

section \<open>Writing\<close>

definition sink_fail :: "bytes \<Rightarrow> nat \<Rightarrow> log_sink \<Rightarrow> log_sink" where
  "sink_fail err lost l =
     l\<lparr>lk_last_err := err, lk_dropped := (if lost > 0 then lk_dropped l + int lost else lk_dropped l)\<rparr>"

text \<open>A line of the index: seconds and offset.\<close>

definition mark_line :: "int \<Rightarrow> int \<Rightarrow> bytes" where
  "mark_line at off = itoa at @ [0x20] @ itoa off @ [0x0a]"

definition sink_mark :: "io \<Rightarrow> files \<times> log_sink \<Rightarrow> files \<times> log_sink" where
  "sink_mark io s =
     (case s of (fs, l) \<Rightarrow>
        if (case lk_marked l of None \<Rightarrow> False | Some m \<Rightarrow> io_now io - m < mark_every) then (fs, l)
        else if \<not> io_idx io then (fs, l)
        else (append_file (index_path (lk_path l)) (mark_line (io_now io div nanos) (lk_n l)) fs,
              l\<lparr>lk_marked := Some (io_now io)\<rparr>))"

definition sink_rotate :: "io \<Rightarrow> files \<times> log_sink \<Rightarrow> files \<times> log_sink" where
  "sink_rotate io s =
     (case s of (fs, l) \<Rightarrow>
        let p = lk_path l; l0 = l\<lparr>lk_open := False\<rparr>;
            rotated = (fs p = None \<or> io_rename io);
            fs1 = (if rotated then
                     (let moved = rename_file p (old_path p) fs in
                      if io_rename_idx io then rename_file (index_path p) (index_path (old_path p)) moved else moved)
                   else fs);
            l1 = (if rotated then l0\<lparr>lk_rotate_err := [], lk_marked := None\<rparr> else l0\<lparr>lk_rotate_err := io_err io\<rparr>)
        in if \<not> io_reopen io then (fs1, sink_fail (io_err io) 0 l1)
           else let fs2 = create p fs1;
                    sz = (if rotated \<or> \<not> io_reseek io then 0 else int (length (file_at fs2 p)))
                in (fs2, l1\<lparr>lk_open := True, lk_n := sz, lk_no_rotate := (if rotated then 0 else sz + lk_max l)\<rparr>))"

text \<open>The tail of \<open>emit\<close>: the mark and the write.\<close>

definition sink_put :: "io \<Rightarrow> bytes \<Rightarrow> files \<times> log_sink \<Rightarrow> files \<times> log_sink" where
  "sink_put io p s =
     (case sink_mark io s of (fs, l) \<Rightarrow>
        let k = min (length p) (io_room io);
            fs1 = append_file (lk_path l) (take k p) fs;
            l1 = l\<lparr>lk_n := lk_n l + int k\<rparr>
        in (fs1, if k < length p then sink_fail (io_err io) (length p - k) l1 else l1\<lparr>lk_last_err := []\<rparr>))"

text \<open>\<open>emit\<close> on a file that is open: rotating first if the write would take it over the limit.\<close>

definition emit_opened :: "io \<Rightarrow> bytes \<Rightarrow> files \<times> log_sink \<Rightarrow> files \<times> log_sink" where
  "emit_opened io p s =
     (case s of (fs, l) \<Rightarrow>
        if lk_max l > 0 \<and> lk_n l + int (length p) > lk_max l \<and> lk_n l \<ge> lk_no_rotate l then
          (case sink_rotate io (fs, l) of (fs1, l1) \<Rightarrow>
             if \<not> lk_open l1
             then (fs1, sink_fail (bstr ''rotating '' @ lk_path l @ bstr '' left no file open'') (length p) l1)
             else sink_put io p (fs1, l1))
        else sink_put io p (fs, l))"

definition emit :: "io \<Rightarrow> bytes \<Rightarrow> files \<times> log_sink \<Rightarrow> files \<times> log_sink" where
  "emit io p s =
     (case s of (fs, l) \<Rightarrow>
        if p = [] then (fs, l)
        else if lk_open l then emit_opened io p (fs, l)
        else if \<not> io_open io then (fs, sink_fail (io_err io) (length p) l)
        else if \<not> io_seek io then (create (lk_path l) fs, sink_fail (io_err io) (length p) l)
        else emit_opened io p
          (create (lk_path l) fs, l\<lparr>lk_open := True, lk_n := int (length (file_at fs (lk_path l)))\<rparr>))"

definition lost_note :: "int \<Rightarrow> bytes" where
  "lost_note missed =
     [0x0d, 0x0a] @ bstr ''[gozellij] '' @ itoa missed @
     bstr '' bytes of output never reached this log: the log writer fell behind and the buffer wrapped'' @ [0x0d, 0x0a]"

text \<open>
  \<open>catchUp\<close>: the part of a snapshot that ends at offset \<open>at\<close> which the file has not got. The bounds of
  the slice are checked.
\<close>

definition catch_up :: "io \<Rightarrow> io \<Rightarrow> bytes \<Rightarrow> int \<Rightarrow> files \<times> log_sink \<Rightarrow> (files \<times> log_sink) option" where
  "catch_up io1 io2 snap at s =
     (let start = at - int (length snap); flushed = lk_flushed (snd s) in do {
        (fs, l) \<leftarrow>
          (if flushed \<ge> at then Some s
           else if flushed \<ge> start then do {
             new \<leftarrow> subslice snap (flushed - start) (int (length snap));
             Some (emit io1 new s) }
           else
             (let missed = start - flushed; (fs1, l1) = emit io1 (lost_note missed) s
              in Some (emit io2 snap (fs1, l1\<lparr>lk_dropped := lk_dropped l1 + missed\<rparr>))));
        Some (fs, l\<lparr>lk_flushed := at\<rparr>) })"

definition sink_err :: "log_sink \<Rightarrow> bytes" where
  "sink_err l =
     (let a = (if lk_last_err l \<noteq> [] then [lk_last_err l @ bstr '' ('' @ itoa (lk_dropped l) @ bstr '' bytes of output not written)''] else []);
          b = (if lk_rotate_err l \<noteq> [] then [bstr ''cannot rotate this log, so it will grow past its '' @
                 itoa (lk_max l) @ bstr '' byte limit: '' @ lk_rotate_err l] else [])
      in case a @ b of [] \<Rightarrow> [] | [x] \<Rightarrow> x | x # y # _ \<Rightarrow> x @ bstr ''; '' @ y)"

section \<open>Opening, running and closing\<close>

datatype sink_error = NoDirectory bytes | NoFile bytes | NoEnd bytes | Refused output_error

text \<open>
  \<open>openLogSink\<close>: \<open>header\<close> is the line that says which daemon opened the log and why, \<open>resume\<close> the offset a
  writer that has just stopped had reached. \<open>h\<close> is what the buffer will know the writer by.
\<close>

definition open_log_sink :: "bool \<Rightarrow> io \<Rightarrow> io \<Rightarrow> io \<Rightarrow> 's outbuf \<Rightarrow> 's \<Rightarrow> bytes \<Rightarrow> int \<Rightarrow> int option \<Rightarrow> bytes \<Rightarrow> files \<Rightarrow>
    (sink_error + files \<times> log_sink \<times> 's outbuf) option" where
  "open_log_sink mkdir io io1 io2 ob h path max_bytes resume header fs =
     (if \<not> mkdir then Some (Inl (NoDirectory (io_err io)))
      else if \<not> io_open io then Some (Inl (NoFile (io_err io)))
      else if \<not> io_seek io then Some (Inl (NoEnd (io_err io)))
      else do {
        r \<leftarrow> attach log_sink_queue_bytes ob;
        case r of
          Inl e \<Rightarrow> Some (Inl (Refused e))
        | Inr (snap, i, ob1) \<Rightarrow>
            (let at = sb_from (sub_at ob1 i);
                 l = \<lparr>lk_path = path, lk_max = (if max_bytes \<le> 0 then default_log_bytes else max_bytes), lk_open = True,
                      lk_n = int (length (file_at fs path)), lk_marked = None, lk_no_rotate = 0, lk_flushed = 0, lk_sub = i,
                      lk_closing = False, lk_last_err = [], lk_rotate_err = [], lk_dropped = 0, lk_done = False\<rparr>;
                 s1 = emit io header (create path fs, l)
             in do {
               (fs2, l2) \<leftarrow> (case resume of
                   Some f \<Rightarrow> catch_up io1 io2 snap at (fst s1, (snd s1)\<lparr>lk_flushed := f\<rparr>)
                 | None \<Rightarrow> (case emit io1 snap s1 of (fs2, l2) \<Rightarrow> Some (fs2, l2\<lparr>lk_flushed := at\<rparr>)));
               Some (Inr (fs2, l2, set_sink h ob1)) }) })"

text \<open>
  One turn of \<open>run\<close>: a chunk if there is one; when the channel has ended, stop or attach again. A turn
  with nothing to do waits: it changes nothing.
\<close>

definition sink_turn :: "io \<Rightarrow> io \<Rightarrow> files \<times> log_sink \<times> 's outbuf \<Rightarrow> (files \<times> log_sink \<times> 's outbuf) option" where
  "sink_turn io1 io2 w =
     (case w of (fs, l, ob) \<Rightarrow>
        let i = lk_sub l; sb = sub_at ob i in
        if lk_done l then Some w
        else case receive sb of
          Some (chunk, sb1) \<Rightarrow>
            (case emit io1 chunk (fs, l) of (fs1, l1) \<Rightarrow>
               Some (fs1, l1\<lparr>lk_flushed := lk_flushed l1 + int (length chunk)\<rparr>,
                     set_sub i (sub_consumed (int (length chunk)) sb1) ob))
        | None \<Rightarrow>
            if \<not> sb_shut sb then Some w
            else if lk_closing l \<or> \<not> sb_lagged sb then Some (fs, l\<lparr>lk_open := False, lk_done := True\<rparr>, ob)
            else do {
              r \<leftarrow> attach log_sink_queue_bytes ob;
              case r of
                Inl e \<Rightarrow> Some (fs, l\<lparr>lk_open := False, lk_done := True\<rparr>, ob)
              | Inr (snap, next_i, ob1) \<Rightarrow> do {
                  (fs1, l1) \<leftarrow> catch_up io1 io2 snap (sb_from (sub_at ob1 next_i)) (fs, l);
                  Some (fs1, l1\<lparr>lk_sub := next_i\<rparr>, ob1) } })"

text \<open>\<open>Close\<close>, as far as it changes state: whether the writer stopped in time is the clock's.\<close>

definition sink_close :: "log_sink \<times> 's outbuf \<Rightarrow> log_sink \<times> 's outbuf" where
  "sink_close w = (case w of (l, ob) \<Rightarrow> (l\<lparr>lk_closing := True\<rparr>, detach (lk_sub l) ob))"

text \<open>\<open>moveTo\<close>, on the files: each of the four moves unless it is not there or its place is taken.\<close>

definition log_suffixes :: "bytes list" where
  "log_suffixes = [[], bstr ''.1'', bstr ''.idx'', bstr ''.1.idx'']"

definition move_one :: "(bytes \<Rightarrow> bool) \<Rightarrow> bytes \<Rightarrow> bytes \<Rightarrow> bytes \<Rightarrow> files \<times> bytes list \<Rightarrow> files \<times> bytes list" where
  "move_one rename_ok from to suffix s =
     (case s of (fs, left) \<Rightarrow>
        if fs (from @ suffix) = None then (fs, left)
        else if fs (to @ suffix) \<noteq> None then (fs, left @ [from @ suffix])
        else if \<not> rename_ok (from @ suffix) then (fs, left @ [from @ suffix])
        else (rename_file (from @ suffix) (to @ suffix) fs, left))"

definition move_files :: "(bytes \<Rightarrow> bool) \<Rightarrow> bytes \<Rightarrow> bytes \<Rightarrow> files \<Rightarrow> files \<times> bytes list" where
  "move_files rename_ok from to fs = fold (move_one rename_ok from to) log_suffixes (fs, [])"

text \<open>\<open>stopped\<close> is what \<open>Close\<close> answered, \<open>left\<close> the files that stayed where they were.\<close>

definition move_sink :: "bool \<Rightarrow> (bytes \<Rightarrow> bool) \<Rightarrow> bool \<Rightarrow> io \<Rightarrow> io \<Rightarrow> io \<Rightarrow> 's outbuf \<Rightarrow> 's \<Rightarrow> bytes \<Rightarrow> bytes \<Rightarrow> files \<times> log_sink \<Rightarrow>
    ((sink_error + files \<times> log_sink \<times> 's outbuf) option \<times> files \<times> bytes list) option" where
  "move_sink stopped rename_ok mkdir io io1 io2 ob h to header s =
     (case s of (fs, l) \<Rightarrow>
        if \<not> stopped then Some (None, fs, [])
        else case move_files rename_ok (lk_path l) to fs of (fs1, left) \<Rightarrow>
          map_option (\<lambda>r. (Some r, fs1, left))
            (open_log_sink mkdir io io1 io2 ob h to (lk_max l) (Some (lk_flushed l)) header fs1))"

section \<open>Every byte is written or counted\<close>

text \<open>What is kept of the log: the rotated generation and the current one.\<close>

definition kept_log :: "bytes \<Rightarrow> files \<Rightarrow> bytes" where
  "kept_log p fs = file_at fs (old_path p) @ file_at fs p"

lemma paths_differ [simp]:
  "old_path p \<noteq> p" "p \<noteq> old_path p" "index_path p \<noteq> p" "p \<noteq> index_path p" "index_path (old_path p) \<noteq> p"
  "p \<noteq> index_path (old_path p)" "index_path p \<noteq> old_path p" "old_path p \<noteq> index_path p"
  "index_path p \<noteq> index_path (old_path p)" "index_path (old_path p) \<noteq> index_path p"
  "index_path (old_path p) \<noteq> old_path p" "old_path p \<noteq> index_path (old_path p)"
  by (simp_all add: old_path_def index_path_def)

lemma file_at_create [simp]: "file_at (create p fs) q = file_at fs q"
  by (simp add: create_def file_at_def)

lemma create_there [simp]: "create p fs p = Some (file_at fs p)"
  by (simp add: create_def)

lemma file_at_append: "file_at (append_file p b fs) q = (if q = p then file_at fs p @ b else file_at fs q)"
  by (simp add: append_file_def file_at_def)

lemma file_at_rename:
  "p \<noteq> q \<Longrightarrow> file_at (rename_file p q fs) r =
     (if fs p = None then file_at fs r else if r = q then file_at fs p else if r = p then [] else file_at fs r)"
  by (auto simp: rename_file_def file_at_def split: option.split)

lemma kept_create [simp]: "kept_log p (create q fs) = kept_log p fs"
  by (simp add: kept_log_def)

lemma sink_mark_frame:
  "\<exists>fs' m. sink_mark io (fs, l) = (fs', l\<lparr>lk_marked := m\<rparr>) \<and> file_at fs' (lk_path l) = file_at fs (lk_path l) \<and>
     file_at fs' (old_path (lk_path l)) = file_at fs (old_path (lk_path l)) \<and> (fs' (lk_path l) = None \<longleftrightarrow> fs (lk_path l) = None)"
proof -
  have l: "l = l\<lparr>lk_marked := lk_marked l\<rparr>" by simp
  show ?thesis
  proof (cases "(case lk_marked l of None \<Rightarrow> False | Some m \<Rightarrow> io_now io - m < mark_every) \<or> \<not> io_idx io")
    case True
    then have "sink_mark io (fs, l) = (fs, l)" by (auto simp: sink_mark_def)
    then show ?thesis using l by metis
  next
    case False
    then have "sink_mark io (fs, l) = (append_file (index_path (lk_path l)) (mark_line (io_now io div nanos) (lk_n l)) fs,
      l\<lparr>lk_marked := Some (io_now io)\<rparr>)" by (simp add: sink_mark_def)
    then show ?thesis by (auto simp: file_at_append) (auto simp: append_file_def)
  qed
qed

lemma sink_put_form:
  "\<exists>fs' m. sink_put io p (fs, l) = (fs', (let k = min (length p) (io_room io); l1 = l\<lparr>lk_marked := m, lk_n := lk_n l + int k\<rparr> in
      if k < length p then sink_fail (io_err io) (length p - k) l1 else l1\<lparr>lk_last_err := []\<rparr>)) \<and>
     file_at fs' (lk_path l) = file_at fs (lk_path l) @ take (io_room io) p \<and>
     file_at fs' (old_path (lk_path l)) = file_at fs (old_path (lk_path l)) \<and> fs' (lk_path l) \<noteq> None"
proof -
  obtain fs1 m where m: "sink_mark io (fs, l) = (fs1, l\<lparr>lk_marked := m\<rparr>)" "file_at fs1 (lk_path l) = file_at fs (lk_path l)"
    "file_at fs1 (old_path (lk_path l)) = file_at fs (old_path (lk_path l))"
    using sink_mark_frame by blast
  have "take (min (length p) (io_room io)) p = take (io_room io) p" by (simp add: min_def)
  then show ?thesis using m by (auto simp: sink_put_def Let_def file_at_append) (auto simp: append_file_def)
qed

text \<open>One write: how many bytes reached the file, and what a rotation let go of.\<close>

lemma emit_accounts:
  assumes "emit io p (fs, l) = (fs', l')"
  shows "lk_path l' = lk_path l \<and> lk_max l' = lk_max l \<and>
    (\<exists>gone k. k \<le> length p \<and> gone @ kept_log (lk_path l) fs' = kept_log (lk_path l) fs @ take k p \<and>
       lk_dropped l' = lk_dropped l + int (length p - k) \<and>
       (p \<noteq> [] \<longrightarrow> io_err io \<noteq> [] \<longrightarrow> (lk_last_err l' = [] \<longleftrightarrow> k = length p)))"
proof -
  let ?P = "lk_path l"
  have put: "lk_path l2 = lk_path l1 \<and> lk_max l2 = lk_max l1 \<and>
      file_at fs2 (lk_path l1) = file_at fs1 (lk_path l1) @ take (io_room io) p \<and>
      file_at fs2 (old_path (lk_path l1)) = file_at fs1 (old_path (lk_path l1)) \<and>
      lk_dropped l2 = lk_dropped l1 + int (length p - min (length p) (io_room io)) \<and>
      (io_err io \<noteq> [] \<longrightarrow> (lk_last_err l2 = [] \<longleftrightarrow> length p \<le> io_room io))"
    if "sink_put io p (fs1, l1) = (fs2, l2)" for fs1 l1 fs2 l2
    using sink_put_form[of io p fs1 l1] that by (auto simp: Let_def sink_fail_def min_def split: if_split_asm)
  have fin: "\<exists>gone k. k \<le> length p \<and> gone @ kept_log ?P fs2 = kept_log ?P fs @ take k p \<and>
       lk_dropped l2 = lk_dropped l + int (length p - k) \<and>
       (p \<noteq> [] \<longrightarrow> io_err io \<noteq> [] \<longrightarrow> (lk_last_err l2 = [] \<longleftrightarrow> k = length p))"
    if "sink_put io p (fs1, l1) = (fs2, l2)" "lk_path l1 = ?P" "lk_dropped l1 = lk_dropped l"
      "gone @ kept_log ?P fs1 = kept_log ?P fs" for fs1 l1 fs2 l2 gone
    using put[OF that(1)] that(2-4)
    by (intro exI[of _ gone] exI[of _ "min (length p) (io_room io)"])
       (auto simp: kept_log_def min_def)
  consider (empty) "p = []" | (unopened) "p \<noteq> []" "\<not> lk_open l" "\<not> io_open io \<or> \<not> io_seek io"
    | (opened) "p \<noteq> []" "lk_open l \<or> io_open io \<and> io_seek io" by blast
  then show ?thesis
  proof cases
    case empty
    then have "fs' = fs" "l' = l" using assms by (simp_all add: emit_def)
    then show ?thesis using empty by (auto intro: exI[of _ "[]"])
  next
    case unopened
    then have "kept_log ?P fs' = kept_log ?P fs" "l' = sink_fail (io_err io) (length p) l"
      using assms by (auto simp: emit_def split: if_split_asm)
    then show ?thesis using unopened(1) by (intro conjI exI[of _ "[]"] exI[of _ 0]) (auto simp: sink_fail_def)
  next
    case opened
    define fs0 where "fs0 = (if lk_open l then fs else create ?P fs)"
    define l0 where "l0 = (if lk_open l then l else l\<lparr>lk_open := True, lk_n := int (length (file_at fs ?P))\<rparr>)"
    have l0: "lk_path l0 = ?P" "lk_max l0 = lk_max l" "lk_dropped l0 = lk_dropped l" "kept_log ?P fs0 = kept_log ?P fs"
      by (simp_all add: l0_def fs0_def)
    have e: "(fs', l') = (if lk_max l0 > 0 \<and> lk_n l0 + int (length p) > lk_max l0 \<and> lk_n l0 \<ge> lk_no_rotate l0 then
                (case sink_rotate io (fs0, l0) of (fs1, l1) \<Rightarrow>
                   if \<not> lk_open l1
                   then (fs1, sink_fail (bstr ''rotating '' @ lk_path l0 @ bstr '' left no file open'') (length p) l1)
                   else sink_put io p (fs1, l1))
              else sink_put io p (fs0, l0))"
      using assms opened unfolding emit_opened_def[of io p "(fs0, l0)", unfolded prod.case, symmetric]
      by (auto simp: emit_def fs0_def l0_def)
    show ?thesis
    proof (cases "lk_max l0 > 0 \<and> lk_n l0 + int (length p) > lk_max l0 \<and> lk_n l0 \<ge> lk_no_rotate l0")
      case False
      have "sink_put io p (fs0, l0) = (fs', l')" using e unfolding if_not_P[OF False] by simp
      then show ?thesis using put[of fs0 l0 fs' l'] fin[of fs0 l0 fs' l' "[]"] l0 by auto
    next
      case True
      obtain fs1 l1 where r: "sink_rotate io (fs0, l0) = (fs1, l1)" by (cases "sink_rotate io (fs0, l0)")
      have l1: "lk_path l1 = ?P" "lk_max l1 = lk_max l" "lk_dropped l1 = lk_dropped l" "lk_open l1 = io_reopen io"
        using r l0 by (auto simp: sink_rotate_def Let_def sink_fail_def split: if_split_asm)
      have "\<exists>gone. gone @ kept_log ?P fs1 = kept_log ?P fs0"
      proof (cases "fs0 ?P = None \<or> \<not> io_rename io")
        case True
        then have "kept_log ?P fs1 = kept_log ?P fs0"
          using r l0 by (auto simp: sink_rotate_def Let_def kept_log_def file_at_rename split: if_split_asm)
        then show ?thesis by (auto intro: exI[of _ "[]"])
      next
        case False
        then have "file_at fs1 ?P = []" "file_at fs1 (old_path ?P) = file_at fs0 ?P"
          using r l0 by (auto simp: sink_rotate_def Let_def file_at_rename split: if_split_asm)
        then show ?thesis by (auto simp: kept_log_def)
      qed
      then obtain gone where gone: "gone @ kept_log ?P fs1 = kept_log ?P fs" using l0 by auto
      show ?thesis
      proof (cases "io_reopen io")
        case False
        then have "fs' = fs1" "l' = sink_fail (bstr ''rotating '' @ lk_path l0 @ bstr '' left no file open'') (length p) l1"
          using e r l1 False unfolding if_P[OF True] by simp_all
        then show ?thesis using gone l1 opened(1)
          by (intro conjI exI[of _ gone] exI[of _ 0]) (auto simp: sink_fail_def)
      next
        case io: True
        then have "sink_put io p (fs1, l1) = (fs', l')" using e r l1 unfolding if_P[OF True] by simp
        then show ?thesis using put[of fs1 l1 fs' l'] fin[of fs1 l1 fs' l' gone] l1 gone by auto
      qed
    qed
  qed
qed

text \<open>A run of writes, each with what the system answered.\<close>

fun emits :: "(io \<times> bytes) list \<Rightarrow> files \<times> log_sink \<Rightarrow> files \<times> log_sink" where
  "emits [] s = s"
| "emits ((io, p) # ws) s = emits ws (emit io p s)"

lemma emits_account:
  assumes "emits ws (fs, l) = (fs', l')"
  shows "\<exists>gone ks. list_all2 (\<lambda>k w. k \<le> length (snd w)) ks ws \<and>
     gone @ kept_log (lk_path l) fs' = kept_log (lk_path l) fs @ concat (map2 (\<lambda>k w. take k (snd w)) ks ws) \<and>
     lk_dropped l' = lk_dropped l + sum_list (map2 (\<lambda>k w. int (length (snd w) - k)) ks ws)"
  using assms
proof (induction ws arbitrary: fs l)
  case Nil
  then show ?case by (intro exI[of _ "[]"]) simp
next
  case (Cons w ws)
  obtain io p where w: "w = (io, p)" by (cases w)
  obtain fs1 l1 where s1: "emit io p (fs, l) = (fs1, l1)" by (cases "emit io p (fs, l)")
  obtain gone k where a: "lk_path l1 = lk_path l" "k \<le> length p"
    "gone @ kept_log (lk_path l) fs1 = kept_log (lk_path l) fs @ take k p" "lk_dropped l1 = lk_dropped l + int (length p - k)"
    using emit_accounts[OF s1] by blast
  have "emits ws (fs1, l1) = (fs', l')" using Cons.prems by (simp add: w s1)
  from Cons.IH[OF this] obtain gone' ks where b: "list_all2 (\<lambda>k w. k \<le> length (snd w)) ks ws"
    "gone' @ kept_log (lk_path l) fs' = kept_log (lk_path l) fs1 @ concat (map2 (\<lambda>k w. take k (snd w)) ks ws)"
    "lk_dropped l' = lk_dropped l1 + sum_list (map2 (\<lambda>k w. int (length (snd w) - k)) ks ws)"
    using a(1) by auto
  have "(gone @ gone') @ kept_log (lk_path l) fs' = kept_log (lk_path l) fs @ take k p @ concat (map2 (\<lambda>k w. take k (snd w)) ks ws)"
    using a(3) b(2) by (metis append.assoc)
  then show ?case using a b by (intro exI[of _ "gone @ gone'"] exI[of _ "k # ks"]) (auto simp: w)
qed

section \<open>The size of the log\<close>

definition log_within :: "int \<Rightarrow> nat \<Rightarrow> files \<times> log_sink \<Rightarrow> bool" where
  "log_within m k s \<longleftrightarrow>
     (case s of (fs, l) \<Rightarrow>
        0 < m \<and> lk_max l = m \<and> lk_no_rotate l = 0 \<and>
        (lk_open l \<longrightarrow> lk_n l = int (length (file_at fs (lk_path l))) \<and> fs (lk_path l) \<noteq> None) \<and>
        int (length (file_at fs (lk_path l))) \<le> max m (int k) \<and>
        int (length (file_at fs (old_path (lk_path l)))) \<le> max m (int k))"

lemma sink_put_within:
  assumes "log_within m k (fs, l)" "lk_open l"
    "int (length (file_at fs (lk_path l))) + int (length p) \<le> max m (int k)"
  shows "log_within m k (sink_put io p (fs, l))"
proof -
  obtain fs' ma where f: "sink_put io p (fs, l) = (fs', (let k = min (length p) (io_room io); l1 = l\<lparr>lk_marked := ma, lk_n := lk_n l + int k\<rparr> in
      if k < length p then sink_fail (io_err io) (length p - k) l1 else l1\<lparr>lk_last_err := []\<rparr>))"
    "file_at fs' (lk_path l) = file_at fs (lk_path l) @ take (io_room io) p"
    "file_at fs' (old_path (lk_path l)) = file_at fs (old_path (lk_path l))" "fs' (lk_path l) \<noteq> None"
    using sink_put_form by blast
  have "int (min (length p) (io_room io)) \<le> int (length p)" by simp
  then have len: "int (length (file_at fs (lk_path l))) + int (min (length p) (io_room io)) \<le> max m (int k)"
    using assms(3) by linarith
  show ?thesis using assms(1,2) f len
    by (auto simp: log_within_def Let_def sink_fail_def simp del: of_nat_min)
qed

lemma emit_opened_within:
  assumes w: "log_within m k (fs, l)" and o: "lk_open l" and p: "length p \<le> k" and io: "io_rename io"
  shows "log_within m k (emit_opened io p (fs, l))"
proof (cases "lk_max l > 0 \<and> lk_n l + int (length p) > lk_max l \<and> lk_n l \<ge> lk_no_rotate l")
  case False
  have "lk_no_rotate l \<le> lk_n l" "0 < lk_max l" using w o by (simp_all add: log_within_def)
  then have "lk_n l + int (length p) \<le> lk_max l" using False by linarith
  then have "int (length (file_at fs (lk_path l))) + int (length p) \<le> max m (int k)" using w o by (simp add: log_within_def)
  from sink_put_within[OF w o this] show ?thesis unfolding emit_opened_def prod.case if_not_P[OF False] .
next
  case True
  obtain fs1 l1 where r: "sink_rotate io (fs, l) = (fs1, l1)" by (cases "sink_rotate io (fs, l)")
  have fs: "fs (lk_path l) \<noteq> None" using w o by (auto simp: log_within_def)
  have r1: "lk_open l1 = io_reopen io" "lk_path l1 = lk_path l" "lk_max l1 = lk_max l" "lk_no_rotate l1 = 0"
    "io_reopen io \<Longrightarrow> lk_n l1 = 0 \<and> fs1 (lk_path l) \<noteq> None" "file_at fs1 (lk_path l) = []"
    "file_at fs1 (old_path (lk_path l)) = file_at fs (lk_path l)"
    using r fs io w by (auto simp: sink_rotate_def Let_def sink_fail_def file_at_rename log_within_def split: if_split_asm)
  have w1: "log_within m k (fs1, l1)" using w r1 by (auto simp: log_within_def)
  show ?thesis
  proof (cases "io_reopen io")
    case False
    then show ?thesis using w1 r r1 unfolding emit_opened_def prod.case if_P[OF True] by (auto simp: log_within_def sink_fail_def)
  next
    case re: True
    have "log_within m k (sink_put io p (fs1, l1))" by (rule sink_put_within[OF w1]) (use re r1 p in auto)
    then show ?thesis using re r r1 unfolding emit_opened_def prod.case if_P[OF True] by simp
  qed
qed

lemma emit_within:
  assumes "log_within m k s" "length p \<le> k" "io_rename io"
  shows "log_within m k (emit io p s)"
proof -
  obtain fs l where s: "s = (fs, l)" by (cases s)
  have "log_within m k (create (lk_path l) fs, l\<lparr>lk_open := True, lk_n := int (length (file_at fs (lk_path l)))\<rparr>)"
    "log_within m k (fs, sink_fail (io_err io) (length p) l)" "\<not> lk_open l \<Longrightarrow> log_within m k (create (lk_path l) fs, sink_fail (io_err io) (length p) l)"
    using assms(1) by (auto simp: s log_within_def sink_fail_def)
  then show ?thesis using assms emit_opened_within[OF _ _ assms(2,3)] by (auto simp: s emit_def)
qed

lemma emits_within:
  "log_within m k s \<Longrightarrow> list_all (\<lambda>(io, p). length p \<le> k \<and> io_rename io) ws \<Longrightarrow> log_within m k (emits ws s)"
  by (induction ws s rule: emits.induct) (simp_all add: emit_within)

section \<open>Properties\<close>

text \<open>
  No byte is lost silently on its way to the disk: over any run of writes, whatever the system
  answers - files that will not open, rotations that fail, a disk that fills up and has space again -
  what was kept of the log plus what rotation let go of is what was there before followed by the
  part of each write that the file took, and the count of bytes not written goes up by exactly the rest.
\<close>

theorem log_accounts:
  assumes "emits ws (fs, l) = (fs', l')"
  shows "\<exists>gone ks. list_all2 (\<lambda>k w. k \<le> length (snd w)) ks ws \<and>
     gone @ kept_log (lk_path l) fs' = kept_log (lk_path l) fs @ concat (map2 (\<lambda>k w. take k (snd w)) ks ws) \<and>
     lk_dropped l' = lk_dropped l + sum_list (map2 (\<lambda>k w. int (length (snd w) - k)) ks ws)"
  by (rule emits_account[OF assms])

text \<open>A system in which everything works, and a writer with nothing written.\<close>

definition steady :: io where
  "steady = \<lparr>io_open = True, io_seek = True, io_rename = True, io_rename_idx = True, io_reopen = True, io_reseek = True,
     io_idx = True, io_room = 1000, io_now = 0, io_err = []\<rparr>"

definition no_files :: files where
  "no_files = (\<lambda>_. None)"

definition idle_sink :: "int \<Rightarrow> log_sink" where
  "idle_sink m = \<lparr>lk_path = bstr ''web'', lk_max = m, lk_open = False, lk_n = 0, lk_marked = None, lk_no_rotate = 0,
     lk_flushed = 0, lk_sub = 0, lk_closing = False, lk_last_err = [], lk_rotate_err = [], lk_dropped = 0, lk_done = False\<rparr>"

theorem log_accounts_witness:
  "\<exists>fs' l' gone ks. emits [(steady, bstr ''abcd''), (steady\<lparr>io_room := 1, io_err := bstr ''full''\<rparr>, bstr ''ef'')] (no_files, idle_sink 5) = (fs', l') \<and>
     gone @ kept_log (bstr ''web'') fs' = concat (map2 (\<lambda>k w. take k w) ks [bstr ''abcd'', bstr ''ef'']) \<and> lk_dropped l' = 1"
proof -
  let ?ws = "[(steady, bstr ''abcd''), (steady\<lparr>io_room := 1, io_err := bstr ''full''\<rparr>, bstr ''ef'')]"
  obtain fs' l' where e: "emits ?ws (no_files, idle_sink 5) = (fs', l')" by fastforce
  have d: "lk_dropped (snd (emits ?ws (no_files, idle_sink 5))) = 1" by code_simp
  have "lk_path (idle_sink 5) = bstr ''web''" "kept_log (bstr ''web'') no_files = []"
    by (simp_all add: idle_sink_def kept_log_def no_files_def file_at_def)
  then obtain gone ks where g: "list_all2 (\<lambda>k w. k \<le> length (snd w)) ks ?ws"
    "gone @ kept_log (bstr ''web'') fs' = concat (map2 (\<lambda>k w. take k (snd w)) ks ?ws)"
    using log_accounts[OF e] by auto
  obtain a b where ks: "ks = [a, b]" using list_all2_lengthD[OF g(1)] by (auto simp: length_Suc_conv)
  have "gone @ kept_log (bstr ''web'') fs' = concat (map2 (\<lambda>k w. take k w) ks [bstr ''abcd'', bstr ''ef''])"
    using g(2) by (simp add: ks)
  then show ?thesis using e d by (metis snd_conv)
qed

text \<open>
  While files can be renamed, a service's log stays within its ceiling: the current file and the
  rotated one each hold at most the limit, or one write if that is larger.
\<close>

theorem log_bounded:
  assumes "log_within m k s" "list_all (\<lambda>(io, p). length p \<le> k \<and> io_rename io) ws" "emits ws s = (fs', l')"
  shows "int (length (file_at fs' (lk_path l'))) \<le> max m (int k) \<and>
     int (length (file_at fs' (old_path (lk_path l')))) \<le> max m (int k)"
  using emits_within[OF assms(1,2)] unfolding assms(3) by (simp add: log_within_def)

theorem log_bounded_witness:
  "\<exists>fs' l'. emits [(steady, bstr ''abcd''), (steady, bstr ''ef'')] (no_files, idle_sink 5) = (fs', l') \<and>
     int (length (file_at fs' (lk_path l'))) \<le> 5"
proof -
  let ?ws = "[(steady, bstr ''abcd''), (steady, bstr ''ef'')]"
  obtain fs' l' where e: "emits ?ws (no_files, idle_sink 5) = (fs', l')" by fastforce
  have w: "log_within 5 4 (no_files, idle_sink 5)" by (simp add: log_within_def idle_sink_def no_files_def file_at_def)
  have "list_all (\<lambda>(io, p). length p \<le> 4 \<and> io_rename io) ?ws" by (simp add: steady_def)
  from log_bounded[OF w this e] show ?thesis using e by auto
qed

end
