(* ===== verification/LogStream.thy ===== *)
theory LogStream
  imports LogFile
begin

text \<open>
  The disk writer as a reader of the output buffer: \<open>logfile.go\<close> and \<open>output.go\<close> together, in every
  interleaving of the writer's turns with writes, resizes, detaches, the close and other readers.
\<close>

section \<open>What a turn hands to the file\<close>

text \<open>A piece is a run of the stream, or a number of bytes that could not be kept.\<close>

type_synonym pieces = "(bytes + nat) list"

fun follows :: "pieces \<Rightarrow> bytes \<Rightarrow> bool" where
  "follows [] s \<longleftrightarrow> s = []"
| "follows (Inl b # ps) s \<longleftrightarrow> take (length b) s = b \<and> follows ps (drop (length b) s)"
| "follows (Inr k # ps) s \<longleftrightarrow> k \<le> length s \<and> follows ps (drop k s)"

definition piece_text :: "bytes + nat \<Rightarrow> bytes" where
  "piece_text x = (case x of Inl b \<Rightarrow> b | Inr k \<Rightarrow> lost_note (int k))"

definition catch_pieces :: "int \<Rightarrow> bytes \<Rightarrow> int \<Rightarrow> pieces" where
  "catch_pieces flushed snap at =
     (let start = at - int (length snap) in
      if flushed \<ge> at then []
      else if flushed \<ge> start then [Inl (drop (nat (flushed - start)) snap)]
      else [Inr (nat (start - flushed)), Inl snap])"

definition reattaches :: "log_sink \<Rightarrow> 's outbuf \<Rightarrow> bool" where
  "reattaches l ob \<longleftrightarrow>
     (let sb = sub_at ob (lk_sub l) in
      \<not> lk_done l \<and> sb_queue sb = [] \<and> sb_shut sb \<and> \<not> lk_closing l \<and> sb_lagged sb \<and> \<not> ob_closed ob)"

definition turn_pieces :: "log_sink \<Rightarrow> 's outbuf \<Rightarrow> pieces" where
  "turn_pieces l ob =
     (if lk_done l then []
      else case sb_queue (sub_at ob (lk_sub l)) of
        c # _ \<Rightarrow> [Inl c]
      | [] \<Rightarrow> if reattaches l ob then catch_pieces (lk_flushed l) (ring_bytes (ob_ring ob)) (ob_written ob) else [])"

text \<open>The same turn as the session sees it.\<close>

definition turn_events :: "log_sink \<Rightarrow> 's outbuf \<Rightarrow> event list" where
  "turn_events l ob =
     (if lk_done l then []
      else case sb_queue (sub_at ob (lk_sub l)) of
        c # _ \<Rightarrow> [EReceive (lk_sub l), EConsumed (lk_sub l) (int (length c))]
      | [] \<Rightarrow> if reattaches l ob then [EAttach log_sink_queue_bytes] else [])"

lemma follows_append: "follows ps s \<Longrightarrow> follows qs t \<Longrightarrow> follows (ps @ qs) (s @ t)"
proof (induction ps s rule: follows.induct)
  case (2 b ps s)
  then have "length b \<le> length s" by (metis follows.simps(2) length_take min.cobounded1)
  then show ?case using 2 by simp
qed auto

lemma catch_pieces_follow:
  assumes "0 \<le> f" "snap = lastn room h" "at = int (length h)" "f \<le> at" "follows ps (take (nat f) h)"
  shows "follows (ps @ catch_pieces f snap at) h"
proof -
  define start where "start = at - int (length snap)"
  have snap: "snap = drop (nat start) h" "0 \<le> start" "nat start \<le> length h"
    using assms by (auto simp: lastn_def start_def min_def)
  have h: "h = take (nat f) h @ drop (nat f) h" by simp
  have "follows (catch_pieces f snap at) (drop (nat f) h)"
  proof (cases "f \<ge> start")
    case True
    have "nat (f - start) + nat start = nat f" using True snap(2) by linarith
    then have "drop (nat (f - start)) snap = drop (nat f) h" unfolding snap(1) drop_drop by simp
    moreover have "catch_pieces f snap at = (if f \<ge> at then [] else [Inl (drop (nat (f - start)) snap)])"
      using True by (simp add: catch_pieces_def Let_def start_def)
    ultimately show ?thesis using assms(3) by simp
  next
    case False
    have d: "nat (start - f) + nat f = nat start" using False assms(1) by linarith
    then have "nat (start - f) \<le> length (drop (nat f) h)" using snap(3) by simp
    moreover have "drop (nat (start - f)) (drop (nat f) h) = snap" unfolding snap(1) drop_drop by (simp only: d)
    moreover have "f < at" using False by (simp add: start_def)
    moreover have "catch_pieces f snap at = [Inr (nat (start - f)), Inl snap]"
      using False \<open>f < at\<close> by (simp add: catch_pieces_def Let_def start_def)
    ultimately show ?thesis by simp
  qed
  then show ?thesis using follows_append[OF assms(5)] h by metis
qed

section \<open>The files are what was handed over\<close>

text \<open>
  Texts land in a log: what is kept of it afterwards, behind whatever rotations let go of, is what it held before and the
  part of each text that was taken; \<open>lost\<close> is exactly the rest.
\<close>

definition lands :: "bytes \<Rightarrow> bytes list \<Rightarrow> bytes \<Rightarrow> int \<Rightarrow> bool" where
  "lands before texts after lost \<longleftrightarrow>
     (\<exists>gone ks. list_all2 (\<lambda>k t. k \<le> length t) ks texts \<and> gone @ after = before @ concat (map2 take ks texts) \<and>
        lost = sum_list (map2 (\<lambda>k t. int (length t - k)) ks texts))"

definition gaps :: "pieces \<Rightarrow> int" where
  "gaps ps = sum_list (map (\<lambda>x. case x of Inl b \<Rightarrow> 0 | Inr k \<Rightarrow> int k) ps)"

lemma gaps_simps [simp]: "gaps [] = 0" "gaps (Inl b # ps) = gaps ps" "gaps (Inr k # ps) = int k + gaps ps" "gaps (ps @ qs) = gaps ps + gaps qs"
  by (simp_all add: gaps_def)

lemma lands_nil: "lands a [] a 0"
  by (auto simp: lands_def)

lemma lands_append:
  assumes "lands a xs b m" "lands b ys c n"
  shows "lands a (xs @ ys) c (m + n)"
proof -
  obtain g ks where g: "list_all2 (\<lambda>k t. k \<le> length t) ks xs" "g @ b = a @ concat (map2 take ks xs)"
    "m = sum_list (map2 (\<lambda>k t. int (length t - k)) ks xs)" using assms(1) unfolding lands_def by blast
  obtain h js where h: "list_all2 (\<lambda>k t. k \<le> length t) js ys" "h @ c = b @ concat (map2 take js ys)"
    "n = sum_list (map2 (\<lambda>k t. int (length t - k)) js ys)" using assms(2) unfolding lands_def by blast
  have len: "length ks = length xs" using g(1) by (rule list_all2_lengthD)
  have "(g @ h) @ c = a @ concat (map2 take ks xs) @ concat (map2 take js ys)" using g(2) h(2) by (metis append.assoc)
  then show ?thesis unfolding lands_def using g h len
    by (intro exI[of _ "g @ h"] exI[of _ "ks @ js"]) (simp add: list_all2_appendI)
qed

lemma emit_lands:
  assumes "emit io p (fs, l) = (fs', l')"
  shows "lk_path l' = lk_path l \<and> lands (kept_log (lk_path l) fs) [p] (kept_log (lk_path l) fs') (lk_dropped l' - lk_dropped l)"
proof -
  obtain g k where "lk_path l' = lk_path l" "k \<le> length p" "g @ kept_log (lk_path l) fs' = kept_log (lk_path l) fs @ take k p"
    "lk_dropped l' = lk_dropped l + int (length p - k)" using emit_accounts[OF assms] by blast
  then show ?thesis unfolding lands_def by (intro conjI exI[of _ g] exI[of _ "[k]"]) simp_all
qed

lemma lost_nothing:
  assumes "lands a texts b m" "m \<le> 0"
  shows "m = 0 \<and> (\<exists>gone. gone @ b = a @ concat texts)"
proof -
  obtain g ks where g: "list_all2 (\<lambda>k t. k \<le> length t) ks texts" "g @ b = a @ concat (map2 take ks texts)"
    "m = sum_list (map2 (\<lambda>k t. int (length t - k)) ks texts)" using assms(1) unfolding lands_def by blast
  have "0 \<le> sum_list (map2 (\<lambda>k t. int (length t - k)) ks texts) \<and>
      (sum_list (map2 (\<lambda>k t. int (length t - k)) ks texts) \<le> 0 \<longrightarrow> concat (map2 take ks texts) = concat texts)"
    using g(1) by (induction rule: list_all2_induct) auto
  then show ?thesis using g assms(2) by auto
qed

lemma lands_lost: "lands a texts b m \<Longrightarrow> 0 \<le> m"
  using lost_nothing[of a texts b m] by linarith

lemma catch_up_lands:
  assumes "catch_up io1 io2 snap at (fs, l) = Some (fs', l')"
  shows "lk_path l' = lk_path l \<and> lands (kept_log (lk_path l) fs) (map piece_text (catch_pieces (lk_flushed l) snap at)) (kept_log (lk_path l) fs')
    (lk_dropped l' - lk_dropped l - gaps (catch_pieces (lk_flushed l) snap at)) \<and> (\<forall>k. Inr k \<in> set (catch_pieces (lk_flushed l) snap at) \<longrightarrow> 0 < k)"
proof -
  define start where "start = at - int (length snap)"
  consider (new) "lk_flushed l \<ge> at" | (part) "\<not> lk_flushed l \<ge> at" "lk_flushed l \<ge> start" | (gap) "\<not> lk_flushed l \<ge> at" "\<not> lk_flushed l \<ge> start"
    by linarith
  then show ?thesis
  proof cases
    case new
    then show ?thesis using assms lands_nil by (auto simp: catch_up_def catch_pieces_def Let_def)
  next
    case part
    obtain fs1 l1 where e: "emit io1 (drop (nat (lk_flushed l - start)) snap) (fs, l) = (fs1, l1)" by fastforce
    have "subslice snap (lk_flushed l - start) (int (length snap)) = Some (drop (nat (lk_flushed l - start)) snap)"
      using part by (simp add: start_def)
    then have "fs' = fs1" "l' = l1\<lparr>lk_flushed := at\<rparr>"
      using assms part e by (simp_all add: catch_up_def Let_def flip: start_def)
    moreover have "catch_pieces (lk_flushed l) snap at = [Inl (drop (nat (lk_flushed l - start)) snap)]"
      using part by (simp add: catch_pieces_def Let_def start_def)
    ultimately show ?thesis using emit_lands[OF e] by (simp add: piece_text_def)
  next
    case gap
    define missed where "missed = start - lk_flushed l"
    obtain fs1 l1 where e1: "emit io1 (lost_note missed) (fs, l) = (fs1, l1)" by fastforce
    obtain fs2 l2 where e2: "emit io2 snap (fs1, l1\<lparr>lk_dropped := lk_dropped l1 + missed\<rparr>) = (fs2, l2)" by fastforce
    have m: "0 < missed" "int (nat missed) = missed" using gap by (simp_all add: missed_def)
    have "fs' = fs2" "l' = l2\<lparr>lk_flushed := at\<rparr>"
      using assms gap e1 e2 by (simp_all add: catch_up_def Let_def flip: start_def missed_def)
    moreover have "catch_pieces (lk_flushed l) snap at = [Inr (nat missed), Inl snap]"
      using gap by (simp add: catch_pieces_def Let_def missed_def start_def)
    moreover have "lk_path l1 = lk_path l" using emit_lands[OF e1] by blast
    moreover have "lands (kept_log (lk_path l) fs) ([lost_note missed] @ [snap]) (kept_log (lk_path l) fs2)
        ((lk_dropped l1 - lk_dropped l) + (lk_dropped l2 - (lk_dropped l1 + missed)))"
      by (rule lands_append) (use emit_lands[OF e1] emit_lands[OF e2] in auto)
    moreover have "(lk_dropped l1 - lk_dropped l) + (lk_dropped l2 - (lk_dropped l1 + missed)) = lk_dropped l2 - lk_dropped l - missed" by simp
    moreover have "map piece_text [Inr (nat missed), Inl snap] = [lost_note missed, snap]" using m by (simp add: piece_text_def)
    ultimately show ?thesis using m emit_lands[OF e2] by simp
  qed
qed

lemma emit_dropped: "fst (emit io p (fs, l\<lparr>lk_dropped := d\<rparr>)) = fst (emit io p (fs, l))"
proof -
  have m: "sink_mark io (fs, l\<lparr>lk_dropped := d\<rparr>) = (case sink_mark io (fs, l) of (fs', l') \<Rightarrow> (fs', l'\<lparr>lk_dropped := d\<rparr>))" for fs l
    by (auto simp: sink_mark_def)
  have p: "fst (sink_put io p (fs, l\<lparr>lk_dropped := d\<rparr>)) = fst (sink_put io p (fs, l))" for fs l
    using sink_mark_frame[of io fs l] by (auto simp: sink_put_def m Let_def)
  have r: "sink_rotate io (fs, l\<lparr>lk_dropped := d\<rparr>) = (case sink_rotate io (fs, l) of (fs', l') \<Rightarrow> (fs', l'\<lparr>lk_dropped := d\<rparr>))" for fs l
    by (auto simp: sink_rotate_def Let_def sink_fail_def)
  have o: "fst (emit_opened io p (fs, l\<lparr>lk_dropped := d\<rparr>)) = fst (emit_opened io p (fs, l))" for fs l
    by (cases "sink_rotate io (fs, l)") (simp add: emit_opened_def p r)
  have u: "l\<lparr>lk_dropped := d, lk_open := True, lk_n := n\<rparr> = l\<lparr>lk_open := True, lk_n := n\<rparr>\<lparr>lk_dropped := d\<rparr>" for n
    by simp
  show ?thesis by (simp add: emit_def o, simp only: u o, simp)
qed

lemma emit_path: "lk_path (snd (emit io p (fs, l))) = lk_path l"
  using emit_accounts[of io p fs l] by (cases "emit io p (fs, l)") auto

lemma emit_keeps:
  "lk_flushed (snd (emit io p s)) = lk_flushed (snd s) \<and> lk_sub (snd (emit io p s)) = lk_sub (snd s) \<and>
   lk_done (snd (emit io p s)) = lk_done (snd s) \<and> lk_closing (snd (emit io p s)) = lk_closing (snd s)"
proof -
  have m: "\<exists>fs' m. sink_mark io (fs, l) = (fs', l\<lparr>lk_marked := m\<rparr>)" for fs l using sink_mark_frame by blast
  have p: "lk_flushed (snd (sink_put io p (fs, l))) = lk_flushed l \<and> lk_sub (snd (sink_put io p (fs, l))) = lk_sub l \<and>
     lk_done (snd (sink_put io p (fs, l))) = lk_done l \<and> lk_closing (snd (sink_put io p (fs, l))) = lk_closing l" for fs l
    using m[of fs l] by (auto simp: sink_put_def Let_def sink_fail_def split: if_splits)
  have r: "lk_flushed (snd (sink_rotate io (fs, l))) = lk_flushed l \<and> lk_sub (snd (sink_rotate io (fs, l))) = lk_sub l \<and>
     lk_done (snd (sink_rotate io (fs, l))) = lk_done l \<and> lk_closing (snd (sink_rotate io (fs, l))) = lk_closing l" for fs l
    by (auto simp: sink_rotate_def Let_def sink_fail_def)
  have o: "lk_flushed (snd (emit_opened io p (fs, l))) = lk_flushed l \<and> lk_sub (snd (emit_opened io p (fs, l))) = lk_sub l \<and>
     lk_done (snd (emit_opened io p (fs, l))) = lk_done l \<and> lk_closing (snd (emit_opened io p (fs, l))) = lk_closing l" for fs l
    using p r[of fs l] by (cases "sink_rotate io (fs, l)") (auto simp: emit_opened_def sink_fail_def)
  show ?thesis by (cases s) (simp add: emit_def o sink_fail_def)
qed

lemma catch_up_emits:
  assumes "lk_flushed l = f" "f \<le> at" "0 \<le> f" "int (length snap) \<le> at"
  shows "\<exists>fs' l'. catch_up io1 io2 snap at (fs, l) = Some (fs', l') \<and> lk_flushed l' = at \<and> lk_sub l' = lk_sub l \<and>
     lk_done l' = lk_done l \<and> lk_closing l' = lk_closing l \<and>
     fs' = fst (emits (zip [io1, io2] (map piece_text (catch_pieces f snap at))) (fs, l))"
proof (cases "f \<ge> at")
  case True
  then show ?thesis using assms by (simp add: catch_up_def catch_pieces_def Let_def)
next
  case below: False
  define start where "start = at - int (length snap)"
  show ?thesis
  proof (cases "f \<ge> start")
    case True
    have "subslice snap (f - start) (int (length snap)) = Some (drop (nat (f - start)) snap)"
      using True below by (simp add: start_def)
    moreover obtain fs1 l1 where e: "emit io1 (drop (nat (f - start)) snap) (fs, l) = (fs1, l1)" by fastforce
    ultimately show ?thesis using below True assms(1) emit_keeps[of io1 "drop (nat (f - start)) snap" "(fs, l)"]
      by (simp add: catch_up_def catch_pieces_def Let_def piece_text_def flip: start_def)
  next
    case False
    define missed where "missed = start - f"
    obtain fs1 l1 where e1: "emit io1 (lost_note missed) (fs, l) = (fs1, l1)" by fastforce
    obtain fs2 l2 where e2: "emit io2 snap (fs1, l1\<lparr>lk_dropped := lk_dropped l1 + missed\<rparr>) = (fs2, l2)" by fastforce
    have "fst (emit io2 snap (fs1, l1)) = fs2" using emit_dropped[of io2 snap fs1 _ l1] e2 by (metis fst_conv)
    moreover have "int (nat missed) = missed" using False by (simp add: missed_def)
    ultimately show ?thesis
      using below False assms(1) e1 e2 emit_keeps[of io1 "lost_note missed" "(fs, l)"]
        emit_keeps[of io2 snap "(fs1, l1\<lparr>lk_dropped := lk_dropped l1 + missed\<rparr>)"]
      by (simp add: catch_up_def catch_pieces_def Let_def piece_text_def flip: start_def missed_def)
  qed
qed

section \<open>The writer among the others\<close>

record 's world =
  w_ses :: "'s session"
  w_fs :: files
  w_lk :: log_sink
  w_pieces :: pieces
  w_before :: bytes
  w_header :: bytes
  w_start :: nat

text \<open>
  \<open>w_before\<close> is what was kept of the log when it was opened, \<open>w_header\<close> the line that was written then, and
  \<open>w_start\<close> how much of the output the buffer had already let go of.
\<close>

text \<open>What anybody but the writer may do: everything except reading the writer's own channel.\<close>

fun others :: "nat \<Rightarrow> event \<Rightarrow> bool" where
  "others i (EReceive j) = (j \<noteq> i)"
| "others i (EConsumed j n) = (j \<noteq> i)"
| "others i e = True"

inductive logged :: "(int \<Rightarrow> bool) \<Rightarrow> int \<Rightarrow> 's world \<Rightarrow> bool" for mark capacity where
  opened: "session_reach mark capacity s \<Longrightarrow>
     open_log_sink True io io1 io2 (se_out s) h path max_bytes None header fs = Some (Inr (fs1, l, ob)) \<Longrightarrow>
     session_run mark [EAttach log_sink_queue_bytes] s = Some s1 \<Longrightarrow>
     logged mark capacity \<lparr>w_ses = s1\<lparr>se_out := ob\<rparr>, w_fs = fs1, w_lk = l,
       w_pieces = [Inr (length (se_all s) - length (se_snap s1 ! lk_sub l)), Inl (se_snap s1 ! lk_sub l)],
       w_before = kept_log path fs, w_header = header, w_start = length (se_all s) - length (se_snap s1 ! lk_sub l)\<rparr>"
| other: "logged mark capacity w \<Longrightarrow> session_do mark e (w_ses w) = Some s1 \<Longrightarrow> others (lk_sub (w_lk w)) e \<Longrightarrow>
     logged mark capacity (w\<lparr>w_ses := s1\<rparr>)"
| turn: "logged mark capacity w \<Longrightarrow>
     sink_turn io1 io2 (w_fs w, w_lk w, se_out (w_ses w)) = Some (fs1, l1, ob1) \<Longrightarrow>
     session_run mark (turn_events (w_lk w) (se_out (w_ses w))) (w_ses w) = Some s1 \<Longrightarrow>
     logged mark capacity (w\<lparr>w_ses := s1, w_fs := fs1, w_lk := l1,
       w_pieces := w_pieces w @ turn_pieces (w_lk w) (se_out (w_ses w))\<rparr>)"
| closing: "logged mark capacity w \<Longrightarrow> sink_close (w_lk w, se_out (w_ses w)) = (l1, ob1) \<Longrightarrow>
     logged mark capacity (w\<lparr>w_ses := (w_ses w)\<lparr>se_out := ob1\<rparr>, w_lk := l1\<rparr>)"

definition world_ok :: "nat \<Rightarrow> 's world \<Rightarrow> bool" where
  "world_ok room w \<longleftrightarrow>
     (let s = w_ses w; l = w_lk w; i = lk_sub l in
      session_ok room s \<and> i < length (ob_store (se_out s)) \<and>
      0 \<le> lk_flushed l \<and> lk_flushed l \<le> int (length (se_all s)) \<and>
      follows (w_pieces w) (take (nat (lk_flushed l)) (se_all s)) \<and>
      (\<not> lk_done l \<longrightarrow> lk_flushed l = sb_from (sub_at (se_out s) i) + int (length (se_got s ! i)) \<and>
         se_done s ! i = int (length (se_got s ! i))))"

lemma sessionD:
  assumes "session_ok room s"
  shows "ring_bytes (ob_ring (se_out s)) = lastn room (se_all s)" "ob_written (se_out s) = int (length (se_all s))"
    "ob_snapshot (se_out s) = Some (lastn room (se_all s), int (length (se_all s)))"
    "length (se_snap s) = length (ob_store (se_out s))" "length (se_got s) = length (ob_store (se_out s))"
    "length (se_done s) = length (ob_store (se_out s))"
    "i < length (ob_store (se_out s)) \<Longrightarrow>
       sub_ok (se_all s) room (i \<in> set (ob_subs (se_out s))) (se_snap s ! i) (se_got s ! i) (se_done s ! i) (sub_at (se_out s) i)"
  using assms by (auto simp: session_ok_def Let_def ob_snapshot_def ring_snapshot_bytes)

lemma attach_form:
  assumes "session_ok room s" "attach q (se_out s) = Some (Inr (snap, i, ob))"
  shows "i = length (ob_store (se_out s)) \<and> snap = lastn room (se_all s) \<and>
    (\<exists>sb. ob = (se_out s)\<lparr>ob_store := ob_store (se_out s) @ [sb], ob_subs := ob_subs (se_out s) @ [i]\<rparr> \<and>
       sb_from sb = int (length (se_all s)) \<and> sb_queue sb = [] \<and> \<not> sb_shut sb)"
  using assms(2) by (auto simp: attach_def sessionD(3)[OF assms(1)] Let_def bind_eq_Some_conv split: if_split_asm)

lemma offer_all_each: "offer_all p ob = each_sub (offer p) (ob_subs ob) ob"
  by (simp add: offer_all_def each_sub_def)

lemma ob_close_each: "\<not> ob_closed ob \<Longrightarrow> snd (ob_close ob) = (each_sub close_ch (ob_subs ob) ob)\<lparr>ob_closed := True, ob_subs := []\<rparr>"
  by (simp add: ob_close_def each_sub_def)

text \<open>Only the writer moves its own place: the other steps leave it where it was.\<close>

lemma other_keeps:
  assumes ok: "session_ok room s" and e: "session_do mark e s = Some s'" and o: "others i e" and i: "i < length (ob_store (se_out s))"
  shows "i < length (ob_store (se_out s')) \<and> sb_from (sub_at (se_out s') i) = sb_from (sub_at (se_out s) i) \<and>
    se_got s' ! i = se_got s ! i \<and> se_done s' ! i = se_done s ! i \<and> (\<exists>x. se_all s' = se_all s @ x)"
proof -
  have each: "length (ob_store (each_sub f ids ob)) = length (ob_store ob) \<and>
      (\<forall>k < length (ob_store ob). sb_from (sub_at (each_sub f ids ob) k) = sb_from (sub_at ob k))"
    if "\<And>sb. sb_from (f sb) = sb_from sb" for f ids and ob :: "'a outbuf"
  proof (induction ids arbitrary: ob)
    case (Cons k ids)
    have "sb_from ((ob_store ob)[k := f (ob_store ob ! k)] ! j) = sb_from (ob_store ob ! j)" for j
      using that by (cases "j = k"; cases "k < length (ob_store ob)") (simp_all add: not_less list_update_beyond)
    moreover have "each_sub f (k # ids) ob = each_sub f ids (set_sub k (f (sub_at ob k)) ob)" by (simp add: each_sub_def)
    ultimately show ?case using Cons.IH[of "set_sub k (f (sub_at ob k)) ob"] that
      by (auto simp: set_sub_def sub_at_def)
  qed (simp add: each_sub_def)
  have from_kept: "sb_from (offer p sb) = sb_from sb" "sb_from (close_ch sb) = sb_from sb" "sb_from (sub_consumed n sb) = sb_from sb"
    "receive sb = Some (c, sb') \<Longrightarrow> sb_from sb' = sb_from sb" for p sb n c sb'
    by (auto simp: offer_def close_ch_def sub_consumed_def receive_def Let_def split: list.split_asm)
  show ?thesis
  proof (cases e)
    case (EWrite p)
    then obtain r where r: "ob_write mark p (se_out s) = Some r"
      "s' = (case r of Inl e \<Rightarrow> s | Inr (n, ob) \<Rightarrow> s\<lparr>se_out := ob, se_all := se_all s @ p\<rparr>)" using e by auto
    show ?thesis
    proof (cases r)
      case (Inr b)
      obtain n ob where b: "b = (n, ob)" by (cases b)
      have "ob = se_out s \<or> (\<exists>r md scr wr. ob = prune_lagged (offer_all p ((se_out s)\<lparr>ob_ring := r, ob_written := wr, ob_modes := md, ob_screen := scr\<rparr>)))"
        using r(1) Inr b draw_locked_frame
        by (fastforce simp: ob_write_def Let_def bind_eq_Some_conv split: if_split_asm)
      then have "i < length (ob_store ob) \<and> sb_from (sub_at ob i) = sb_from (sub_at (se_out s) i)"
        using each[of "offer p", OF from_kept(1)] i by (auto simp: prune_lagged_def offer_all_each sub_at_def)
      then show ?thesis using r(2) Inr b by simp
    qed (use r i in simp)
  next
    case (EAttach q)
    then obtain snap k ob where a: "attach q (se_out s) = Some (Inr (snap, k, ob))"
      "s' = s\<lparr>se_out := ob, se_snap := se_snap s @ [snap], se_got := se_got s @ [[]], se_done := se_done s @ [0]\<rparr>"
      using e by (auto split: option.split_asm sum.split_asm)
    then show ?thesis using attach_form[OF ok a(1)] i sessionD[OF ok] by (auto simp: sub_at_def nth_append)
  next
    case (EClose)
    then show ?thesis using e i each[of close_ch, OF from_kept(2)] ob_close_each[of "se_out s"]
      by (cases "ob_closed (se_out s)") (auto simp: ob_close_def[of "se_out s"] sub_at_def)
  next
    case (EResize cols rows)
    then show ?thesis using e i
      by (auto simp: set_size_def Let_def sub_at_def split: option.split_asm if_split_asm bind_split_asm)
  qed (use e o i from_kept in \<open>auto simp: detach_def set_sub_def sub_at_def nth_list_update split: if_split_asm\<close>)
qed

lemma world_opened:
  assumes reach: "session_reach mark capacity s"
    and op: "open_log_sink True io io1 io2 (se_out s) h path max_bytes None header fs = Some (Inr (fs1, l, ob))"
    and ev: "session_run mark [EAttach log_sink_queue_bytes] s = Some s1"
  defines "room \<equiv> length (rb_buf (new_byte_ring capacity))"
  shows "world_ok room \<lparr>w_ses = s1\<lparr>se_out := ob\<rparr>, w_fs = fs1, w_lk = l,
       w_pieces = [Inr (length (se_all s) - length (se_snap s1 ! lk_sub l)), Inl (se_snap s1 ! lk_sub l)],
       w_before = kept_log path fs, w_header = header, w_start = length (se_all s) - length (se_snap s1 ! lk_sub l)\<rparr>"
proof -
  have ok: "session_ok room s" unfolding room_def by (rule session_reach_ok[OF reach])
  obtain snap i ob1 where a: "attach log_sink_queue_bytes (se_out s) = Some (Inr (snap, i, ob1))"
    and s1: "s1 = s\<lparr>se_out := ob1, se_snap := se_snap s @ [snap], se_got := se_got s @ [[]], se_done := se_done s @ [0]\<rparr>"
    using ev by (auto split: option.split_asm sum.split_asm)
  have ok1: "session_ok room s1" unfolding s1 by (rule attach_ok[OF ok a])
  obtain sb where sb: "i = length (ob_store (se_out s))" "snap = lastn room (se_all s)"
    "ob1 = (se_out s)\<lparr>ob_store := ob_store (se_out s) @ [sb], ob_subs := ob_subs (se_out s) @ [i]\<rparr>"
    "sb_from sb = int (length (se_all s))" using attach_form[OF ok a] by blast
  define l0 where "l0 = \<lparr>lk_path = path, lk_max = (if max_bytes \<le> 0 then default_log_bytes else max_bytes), lk_open = True,
    lk_n = int (length (file_at fs path)), lk_marked = None, lk_no_rotate = 0, lk_flushed = 0, lk_sub = i,
    lk_closing = False, lk_last_err = [], lk_rotate_err = [], lk_dropped = 0, lk_done = False\<rparr>"
  have l0: "lk_sub l0 = i" "lk_done l0 = False" by (simp_all add: l0_def)
  have l1: "ob = set_sink h ob1 \<and> l = (snd (emit io1 snap (emit io header (create path fs, l0))))\<lparr>lk_flushed := sb_from (sub_at ob1 i)\<rparr>"
    using op a by (auto simp: open_log_sink_def l0_def Let_def split: if_split_asm prod.split_asm)
  have l: "lk_sub l = i" "\<not> lk_done l" "lk_flushed l = int (length (se_all s))"
    using l0 l1 emit_keeps sb by (simp_all add: sub_at_def)
  have snap: "snap = drop (length (se_all s) - length snap) (se_all s)" "length snap \<le> length (se_all s)"
    using sb(2) by (auto simp: lastn_def min_def)
  then have "follows [Inr (length (se_all s) - length snap), Inl snap] (se_all s)" by auto
  moreover have "session_ok room (s1\<lparr>se_out := ob\<rparr>)"
    using ok1 unfolding session_ok_def Let_def by (simp add: s1 l1 set_sink_def sub_at_def)
  ultimately show ?thesis
    using l sb sessionD[OF ok] by (simp add: world_ok_def Let_def s1 l1 set_sink_def sub_at_def nth_append)
qed

lemma world_turn:
  assumes ok: "world_ok room w"
    and t: "sink_turn io1 io2 (w_fs w, w_lk w, se_out (w_ses w)) = Some (fs1, l1, ob1)"
    and ev: "session_run mark (turn_events (w_lk w) (se_out (w_ses w))) (w_ses w) = Some s1"
  shows "world_ok room (w\<lparr>w_ses := s1, w_fs := fs1, w_lk := l1, w_pieces := w_pieces w @ turn_pieces (w_lk w) (se_out (w_ses w))\<rparr>) \<and>
    se_out s1 = ob1 \<and> fs1 = fst (emits (zip [io1, io2] (map piece_text (turn_pieces (w_lk w) (se_out (w_ses w))))) (w_fs w, w_lk w))"
proof -
  define s where "s = w_ses w"
  define l where "l = w_lk w"
  define i where "i = lk_sub l"
  define ob where "ob = se_out s"
  define sb where "sb = sub_at ob i"
  note d = sb_def ob_def i_def l_def s_def
  note folds = s_def[symmetric] l_def[symmetric] ob_def[symmetric]
  note ok' = ok[unfolded world_ok_def Let_def folds, folded i_def]
  have sok: "session_ok room s" and i: "i < length (ob_store ob)" using ok' by auto
  have subi: "sub_ok (se_all s) room (i \<in> set (ob_subs ob)) (se_snap s ! i) (se_got s ! i) (se_done s ! i) sb"
    unfolding sb_def ob_def using sessionD(7)[OF sok] i by (simp add: ob_def)
  note t' = t[unfolded folds] and ev' = ev[unfolded folds]
  consider (stopped) "lk_done l" | (chunk) c cs where "\<not> lk_done l" "sb_queue sb = c # cs"
    | (idle) "\<not> lk_done l" "sb_queue sb = []" "\<not> reattaches l ob" | (again) "\<not> lk_done l" "sb_queue sb = []" "reattaches l ob"
    by (cases "sb_queue sb") auto
  then show ?thesis
  proof cases
    case stopped
    then have "fs1 = w_fs w" "l1 = l" "ob1 = ob" "s1 = s" "turn_pieces l ob = []"
      using t' ev' by (auto simp: sink_turn_def turn_events_def turn_pieces_def Let_def)
    then show ?thesis using ok unfolding world_ok_def Let_def d by simp
  next
    case idle
    have ev0: "turn_events l ob = []" "turn_pieces l ob = []"
      using idle by (simp_all add: turn_events_def turn_pieces_def sb_def i_def)
    moreover have "fs1 = w_fs w \<and> ob1 = ob \<and> (l1 = l \<or> l1 = l\<lparr>lk_open := False, lk_done := True\<rparr>)"
      using t' idle by (auto simp: sink_turn_def reattaches_def attach_def receive_def sb_def i_def Let_def split: if_split_asm)
    ultimately show ?thesis using ok ev' unfolding world_ok_def Let_def d by auto
  next
    case chunk
    obtain fs2 l2 where e: "emit io1 c (w_fs w, l) = (fs2, l2)" by fastforce
    let ?sb1 = "sb\<lparr>sb_queue := cs\<rparr>"
    have r: "receive sb = Some (c, ?sb1)" using chunk by (simp add: receive_def)
    have t1: "fs1 = fs2" "l1 = l2\<lparr>lk_flushed := lk_flushed l2 + int (length c)\<rparr>"
      "ob1 = set_sub i (sub_consumed (int (length c)) ?sb1) ob"
      using t' chunk r e by (auto simp: sink_turn_def Let_def sb_def i_def)
    have evs: "turn_events l ob = [EReceive i, EConsumed i (int (length c))]" "turn_pieces l ob = [Inl c]"
      using chunk by (simp_all add: turn_events_def turn_pieces_def sb_def i_def)
    have done_i: "se_done s ! i = int (length (se_got s ! i))" and fl: "lk_flushed l = sb_from sb + int (length (se_got s ! i))"
      using ok' chunk(1) by (auto simp: sb_def ob_def)
    have len: "length (se_got s) = length (ob_store ob)" "length (se_done s) = length (ob_store ob)"
      using sessionD[OF sok] by (auto simp: ob_def)
    have s1: "s1 = s\<lparr>se_out := ob1, se_got := (se_got s)[i := se_got s ! i @ c],
        se_done := (se_done s)[i := int (length (se_got s ! i)) + int (length c)]\<rparr>"
      using ev' i r done_i len unfolding evs t1(3)
      by (auto simp: set_sub_def sub_at_def sb_def folds split: if_split_asm)
    have ok1: "session_ok room s1"
    proof -
      have "session_step mark s (EReceive i) (s\<lparr>se_out := set_sub i ?sb1 ob, se_got := (se_got s)[i := se_got s ! i @ c]\<rparr>)"
        using session_step.received[of i s c ?sb1 mark] i r by (simp add: ob_def sb_def)
      from session_step_ok[OF this sok] have ok2: "session_ok room (s\<lparr>se_out := set_sub i ?sb1 ob, se_got := (se_got s)[i := se_got s ! i @ c]\<rparr>)" .
      have "session_step mark (s\<lparr>se_out := set_sub i ?sb1 ob, se_got := (se_got s)[i := se_got s ! i @ c]\<rparr>) (EConsumed i (int (length c))) s1"
        using i done_i len unfolding session_step_do s1 t1(3) by (simp add: set_sub_def sub_at_def sb_def)
      from session_step_ok[OF this ok2] show ?thesis .
    qed
    obtain rest where rest: "drop (nat (sb_from sb)) (se_all s) = se_got s ! i @ concat (c # cs) @ rest"
      using subi chunk unfolding sub_ok_def by auto
    have from0: "0 \<le> sb_from sb" "sb_from sb \<le> int (length (se_all s))" using subi unfolding sub_ok_def by auto
    have all: "se_all s = take (nat (lk_flushed l)) (se_all s) @ c @ concat cs @ rest"
    proof -
      have "nat (lk_flushed l) = nat (sb_from sb) + length (se_got s ! i)" using fl from0 by simp
      moreover have h: "se_all s = take (nat (sb_from sb)) (se_all s) @ se_got s ! i @ c @ concat cs @ rest"
        using rest by (metis append_take_drop_id append.assoc concat.simps(2))
      moreover have "take (nat (sb_from sb) + length (se_got s ! i)) (se_all s) = take (nat (sb_from sb)) (se_all s) @ se_got s ! i"
        using rest by (simp add: take_add)
      ultimately have "take (nat (lk_flushed l)) (se_all s) = take (nat (sb_from sb)) (se_all s) @ se_got s ! i"
        by simp
      then show ?thesis using h by simp
    qed
    have fl0: "0 \<le> lk_flushed l" "lk_flushed l \<le> int (length (se_all s))" using ok' by auto
    have bound: "lk_flushed l + int (length c) \<le> int (length (se_all s))"
    proof -
      have "length (se_all s) = nat (lk_flushed l) + length (c @ concat cs @ rest)"
        using arg_cong[OF all, of length] fl0 by simp
      then show ?thesis using fl0 by simp
    qed
    have "take (nat (lk_flushed l + int (length c))) (se_all s) = take (nat (lk_flushed l)) (se_all s) @ c"
    proof -
      have "nat (lk_flushed l + int (length c)) = nat (lk_flushed l) + length c" using fl0 by simp
      moreover have "drop (nat (lk_flushed l)) (se_all s) = c @ concat cs @ rest"
        using all by (metis append_take_drop_id same_append_eq)
      ultimately show ?thesis by (simp add: take_add)
    qed
    then have "follows (w_pieces w @ [Inl c]) (take (nat (lk_flushed l + int (length c))) (se_all s))"
      using follows_append[of "w_pieces w" "take (nat (lk_flushed l)) (se_all s)" "[Inl c]" c] ok' by simp
    moreover have "lk_flushed l2 = lk_flushed l" "lk_sub l2 = i" "lk_done l2 = lk_done l"
      using emit_keeps[of io1 c "(w_fs w, l)"] e by (simp_all add: i_def)
    ultimately show ?thesis
      using ok1 i len bound fl0 fl chunk(1) e by (auto simp: world_ok_def Let_def s1 t1 evs folds set_sub_def sub_at_def sub_consumed_def piece_text_def)
  next
    case again
    have nc: "\<not> ob_closed ob" using again by (simp add: reattaches_def Let_def)
    have evs: "turn_events l ob = [EAttach log_sink_queue_bytes]"
       "turn_pieces l ob = catch_pieces (lk_flushed l) (ring_bytes (ob_ring ob)) (ob_written ob)"
      using again by (simp_all add: turn_events_def turn_pieces_def sb_def i_def)
    obtain snap k ob2 where a: "attach log_sink_queue_bytes ob = Some (Inr (snap, k, ob2))"
      and s1: "s1 = s\<lparr>se_out := ob2, se_snap := se_snap s @ [snap], se_got := se_got s @ [[]], se_done := se_done s @ [0]\<rparr>"
      using ev' unfolding evs by (auto simp: ob_def split: option.split_asm sum.split_asm)
    have ok1: "session_ok room s1" unfolding s1 using attach_ok[OF sok] a by (simp add: ob_def)
    obtain sbk where sbk: "k = length (ob_store ob)" "snap = lastn room (se_all s)"
      "ob2 = ob\<lparr>ob_store := ob_store ob @ [sbk], ob_subs := ob_subs ob @ [k]\<rparr>" "sb_from sbk = int (length (se_all s))"
      using attach_form[OF sok a[unfolded ob_def]] unfolding ob_def by blast
    let ?at = "int (length (se_all s))"
    have f: "lk_flushed l = lk_flushed l" "lk_flushed l \<le> ?at" "0 \<le> lk_flushed l" using ok' by auto
    have "int (length snap) \<le> ?at" by (simp add: sbk(2))
    from catch_up_emits[OF f this, of io1 io2 "w_fs w"] obtain fs' l' where
      c: "catch_up io1 io2 snap ?at (w_fs w, l) = Some (fs', l')" "lk_flushed l' = ?at" "lk_done l' = lk_done l"
        "fs' = fst (emits (zip [io1, io2] (map piece_text (catch_pieces (lk_flushed l) snap ?at))) (w_fs w, l))" by auto
    have at: "sb_from (sub_at ob2 k) = ?at" by (simp add: sbk sub_at_def)
    have t1: "fs1 = fs'" "l1 = l'\<lparr>lk_sub := k\<rparr>" "ob1 = ob2"
      using t' again nc a c(1) at by (auto simp: sink_turn_def Let_def sb_def i_def reattaches_def receive_def split: if_split_asm)
    have bytes: "ring_bytes (ob_ring ob) = snap" "ob_written ob = ?at" using sessionD[OF sok] by (simp_all add: ob_def sbk)
    have "follows (w_pieces w @ turn_pieces l ob) (take (nat ?at) (se_all s))"
      using catch_pieces_follow[of "lk_flushed l" snap room "se_all s" ?at "w_pieces w"] ok' f sbk(2) by (simp add: evs bytes)
    then show ?thesis
      using ok1 sbk c sessionD[OF sok] again(1) by (simp add: world_ok_def Let_def s1 t1 folds evs bytes sub_at_def nth_append split_beta flip: ob_def)
  qed
qed

lemma world_reach_ok: "logged mark capacity w \<Longrightarrow> world_ok (length (rb_buf (new_byte_ring capacity))) w"
proof (induction rule: logged.induct)
  case (opened s io io1 io2 h path max_bytes header fs fs1 l ob s1)
  then show ?case by (rule world_opened)
next
  case (other w e s1)
  let ?s = "w_ses w" and ?i = "lk_sub (w_lk w)"
  have ok: "session_ok (length (rb_buf (new_byte_ring capacity))) ?s" and i: "?i < length (ob_store (se_out ?s))"
    using other(4) unfolding world_ok_def Let_def by auto
  note k = other_keeps[OF ok other(2,3) i]
  have "session_ok (length (rb_buf (new_byte_ring capacity))) s1"
    using session_step_ok[OF _ ok] other(2) session_step_do by blast
  then show ?case using other(4) k unfolding world_ok_def Let_def by auto
next
  case (turn w io1 io2 fs1 l1 ob1 s1)
  then show ?case using world_turn by blast
next
  case (closing w l1 ob1)
  let ?room = "length (rb_buf (new_byte_ring capacity))" and ?s = "w_ses w" and ?l = "w_lk w"
  have ok: "session_ok ?room ?s" and i: "lk_sub ?l < length (ob_store (se_out ?s))"
    using closing(3) unfolding world_ok_def Let_def by auto
  have c: "l1 = ?l\<lparr>lk_closing := True\<rparr>" "ob1 = detach (lk_sub ?l) (se_out ?s)" using closing(2) by (auto simp: sink_close_def)
  have e: "session_do mark (EDetach (lk_sub ?l)) ?s = Some (?s\<lparr>se_out := ob1\<rparr>)" using i by (simp add: c)
  have ok1: "session_ok ?room (?s\<lparr>se_out := ob1\<rparr>)" using session_step_ok[OF _ ok] e session_step_do by blast
  have "others (lk_sub ?l) (EDetach (lk_sub ?l))" by simp
  from other_keeps[OF ok e this i] show ?case using closing(3) ok1 unfolding world_ok_def Let_def by (auto simp: c)
qed

section \<open>The files follow the pieces\<close>

definition filed :: "'s world \<Rightarrow> bool" where
  "filed w \<longleftrightarrow>
     (\<exists>ps. w_pieces w = Inr (w_start w) # ps \<and> (\<forall>k. Inr k \<in> set ps \<longrightarrow> 0 < k) \<and>
        lands (w_before w) (w_header w # map piece_text ps) (kept_log (lk_path (w_lk w)) (w_fs w)) (lk_dropped (w_lk w) - gaps ps))"

lemma opened_filed:
  assumes "open_log_sink True io io1 io2 (se_out s) h path max_bytes None header fs = Some (Inr (fs1, l, ob))"
    and "session_run mark [EAttach log_sink_queue_bytes] s = Some s1" and "session_ok room s"
  shows "lk_path l = path \<and> lands (kept_log path fs) [header, se_snap s1 ! lk_sub l] (kept_log path fs1) (lk_dropped l)"
proof -
  obtain snap i ob1 where a: "attach log_sink_queue_bytes (se_out s) = Some (Inr (snap, i, ob1))"
    and s1: "s1 = s\<lparr>se_out := ob1, se_snap := se_snap s @ [snap], se_got := se_got s @ [[]], se_done := se_done s @ [0]\<rparr>"
    using assms(2) by (auto split: option.split_asm sum.split_asm)
  define l0 where "l0 = \<lparr>lk_path = path, lk_max = (if max_bytes \<le> 0 then default_log_bytes else max_bytes), lk_open = True,
    lk_n = int (length (file_at fs path)), lk_marked = None, lk_no_rotate = 0, lk_flushed = 0, lk_sub = i,
    lk_closing = False, lk_last_err = [], lk_rotate_err = [], lk_dropped = 0, lk_done = False\<rparr>"
  have l0: "lk_sub l0 = i" "lk_path l0 = path" "lk_dropped l0 = 0" by (simp_all add: l0_def)
  obtain fs2 l2 where e1: "emit io header (create path fs, l0) = (fs2, l2)" by fastforce
  obtain fs3 l3 where e2: "emit io1 snap (fs2, l2) = (fs3, l3)" by fastforce
  have l: "fs1 = fs3 \<and> l = l3\<lparr>lk_flushed := sb_from (sub_at ob1 i)\<rparr>"
    using assms(1) a e1 e2 by (auto simp: open_log_sink_def l0_def Let_def split: if_split_asm prod.split_asm)
  have "lk_sub l3 = i" using emit_keeps[of io header "(create path fs, l0)"] emit_keeps[of io1 snap "(fs2, l2)"] e1 e2 l0 by simp
  moreover have "i = length (se_snap s)" using attach_form[OF assms(3) a] sessionD[OF assms(3)] by simp
  ultimately have "se_snap s1 ! lk_sub l = snap" by (simp add: s1 l nth_append)
  moreover have "lands (kept_log path fs) ([header] @ [snap]) (kept_log path fs3) ((lk_dropped l2 - lk_dropped l0) + (lk_dropped l3 - lk_dropped l2))"
    by (rule lands_append) (use emit_lands[OF e1] emit_lands[OF e2] l0 in auto)
  ultimately show ?thesis using emit_lands[OF e1] emit_lands[OF e2] l0 l by simp
qed

lemma turn_filed:
  assumes "filed w" and ok: "world_ok room w"
    and t: "sink_turn io1 io2 (w_fs w, w_lk w, se_out (w_ses w)) = Some (fs1, l1, ob1)"
  shows "lk_path l1 = lk_path (w_lk w) \<and> lands (kept_log (lk_path (w_lk w)) (w_fs w))
      (map piece_text (turn_pieces (w_lk w) (se_out (w_ses w)))) (kept_log (lk_path l1) fs1)
      (lk_dropped l1 - lk_dropped (w_lk w) - gaps (turn_pieces (w_lk w) (se_out (w_ses w))))
    \<and> (\<forall>k. Inr k \<in> set (turn_pieces (w_lk w) (se_out (w_ses w))) \<longrightarrow> 0 < k)"
proof -
  define l where "l = w_lk w"
  define ob where "ob = se_out (w_ses w)"
  define sb where "sb = sub_at ob (lk_sub l)"
  note t' = t[folded l_def ob_def]
  consider (stopped) "lk_done l" | (chunk) c cs where "\<not> lk_done l" "sb_queue sb = c # cs"
    | (idle) "\<not> lk_done l" "sb_queue sb = []" "\<not> reattaches l ob" | (again) "\<not> lk_done l" "sb_queue sb = []" "reattaches l ob"
    by (cases "sb_queue sb") auto
  then have "lk_path l1 = lk_path l \<and> lands (kept_log (lk_path l) (w_fs w)) (map piece_text (turn_pieces l ob)) (kept_log (lk_path l1) fs1)
      (lk_dropped l1 - lk_dropped l - gaps (turn_pieces l ob)) \<and> (\<forall>k. Inr k \<in> set (turn_pieces l ob) \<longrightarrow> 0 < k)"
  proof cases
    case stopped
    then have "fs1 = w_fs w" "l1 = l" "turn_pieces l ob = []" using t' by (auto simp: sink_turn_def turn_pieces_def Let_def)
    then show ?thesis using lands_nil by simp
  next
    case idle
    have "turn_pieces l ob = []" using idle by (simp add: turn_pieces_def sb_def)
    moreover have "fs1 = w_fs w \<and> (l1 = l \<or> l1 = l\<lparr>lk_open := False, lk_done := True\<rparr>)"
      using t' idle by (auto simp: sink_turn_def reattaches_def attach_def receive_def sb_def Let_def split: if_split_asm)
    ultimately show ?thesis using lands_nil by auto
  next
    case chunk
    obtain fs2 l2 where e: "emit io1 c (w_fs w, l) = (fs2, l2)" by fastforce
    have "receive sb = Some (c, sb\<lparr>sb_queue := cs\<rparr>)" using chunk by (simp add: receive_def)
    then have "fs1 = fs2" "l1 = l2\<lparr>lk_flushed := lk_flushed l2 + int (length c)\<rparr>"
      using t' chunk e by (auto simp: sink_turn_def Let_def sb_def)
    moreover have "turn_pieces l ob = [Inl c]" using chunk by (simp add: turn_pieces_def sb_def)
    ultimately show ?thesis using emit_lands[OF e] by (simp add: piece_text_def)
  next
    case again
    have sok: "session_ok room (w_ses w)" using ok by (simp add: world_ok_def Let_def)
    have open_ob: "\<not> ob_closed ob" using again by (simp add: reattaches_def Let_def)
    have "\<exists>x. attach log_sink_queue_bytes ob = Some x"
      using t' again by (cases "attach log_sink_queue_bytes ob") (auto simp: sink_turn_def Let_def sb_def reattaches_def receive_def)
    then obtain x where x: "attach log_sink_queue_bytes ob = Some x" by blast
    have "\<not> isl x" using x open_ob by (auto simp: attach_def Let_def bind_eq_Some_conv)
    then obtain snap k ob2 where a: "attach log_sink_queue_bytes ob = Some (Inr (snap, k, ob2))" using x by (cases x) auto
    obtain sbk where sbk: "k = length (ob_store ob)" "snap = lastn room (se_all (w_ses w))"
      "ob2 = ob\<lparr>ob_store := ob_store ob @ [sbk], ob_subs := ob_subs ob @ [k]\<rparr>" "sb_from sbk = int (length (se_all (w_ses w)))"
      using attach_form[OF sok a[unfolded ob_def]] unfolding ob_def by blast
    have at: "sb_from (sub_at ob2 k) = ob_written ob" using sessionD(2)[OF sok] by (simp add: sbk sub_at_def ob_def)
    have bytes: "ring_bytes (ob_ring ob) = snap" using sessionD(1)[OF sok] by (simp add: ob_def sbk)
    obtain fs' l' where c: "catch_up io1 io2 snap (ob_written ob) (w_fs w, l) = Some (fs', l')" "fs1 = fs'" "l1 = l'\<lparr>lk_sub := k\<rparr>"
      using t' again a at by (auto simp: sink_turn_def Let_def sb_def reattaches_def receive_def bind_eq_Some_conv split: if_split_asm)
    have "turn_pieces l ob = catch_pieces (lk_flushed l) snap (ob_written ob)"
      using again by (simp add: turn_pieces_def sb_def bytes)
    then show ?thesis using catch_up_lands[OF c(1)] c(2,3) by simp
  qed
  then show ?thesis unfolding l_def ob_def .
qed

lemma reach_filed: "logged mark capacity w \<Longrightarrow> filed w"
proof (induction rule: logged.induct)
  case (opened s io io1 io2 h path max_bytes header fs fs1 l ob s1)
  show ?case using opened_filed[OF opened(2,3) session_reach_ok[OF opened(1)]] by (simp add: filed_def piece_text_def)
next
  case (turn w io1 io2 fs1 l1 ob1 s1)
  obtain ps where ps: "w_pieces w = Inr (w_start w) # ps" "\<forall>k. Inr k \<in> set ps \<longrightarrow> 0 < k"
    "lands (w_before w) (w_header w # map piece_text ps) (kept_log (lk_path (w_lk w)) (w_fs w)) (lk_dropped (w_lk w) - gaps ps)"
    using turn(4) unfolding filed_def by blast
  note t = turn_filed[OF turn(4) world_reach_ok[OF turn(1)] turn(2)]
  have "lands (w_before w) ((w_header w # map piece_text ps) @ map piece_text (turn_pieces (w_lk w) (se_out (w_ses w)))) (kept_log (lk_path l1) fs1)
      ((lk_dropped (w_lk w) - gaps ps) + (lk_dropped l1 - lk_dropped (w_lk w) - gaps (turn_pieces (w_lk w) (se_out (w_ses w)))))"
    by (rule lands_append[OF ps(3)]) (use t in blast)
  moreover have e: "(lk_dropped (w_lk w) - gaps ps) + (lk_dropped l1 - lk_dropped (w_lk w) - gaps (turn_pieces (w_lk w) (se_out (w_ses w))))
      = lk_dropped l1 - gaps (ps @ turn_pieces (w_lk w) (se_out (w_ses w)))" by simp
  ultimately have "lands (w_before w) (w_header w # map piece_text (ps @ turn_pieces (w_lk w) (se_out (w_ses w)))) (kept_log (lk_path l1) fs1)
      (lk_dropped l1 - gaps (ps @ turn_pieces (w_lk w) (se_out (w_ses w))))" unfolding e by simp
  moreover have "\<forall>k. Inr k \<in> set (ps @ turn_pieces (w_lk w) (se_out (w_ses w))) \<longrightarrow> 0 < k" using ps(2) t by auto
  ultimately show ?case using ps(1) unfolding filed_def
    by (intro exI[of _ "ps @ turn_pieces (w_lk w) (se_out (w_ses w))"]) simp
qed (auto simp: filed_def sink_close_def)

lemma no_gaps:
  "\<forall>k. Inr k \<in> set ps \<longrightarrow> 0 < k \<Longrightarrow> gaps ps \<le> 0 \<Longrightarrow> follows ps s \<Longrightarrow> concat (map piece_text ps) = s"
proof (induction ps arbitrary: s)
  case (Cons x ps)
  have g: "0 \<le> gaps ps" for ps by (induction ps) (auto simp: gaps_def split: sum.split)
  show ?case
  proof (cases x)
    case (Inl b)
    then show ?thesis using Cons.IH[of "drop (length b) s"] Cons.prems by (simp add: piece_text_def) (metis append_take_drop_id)
  next
    case (Inr k)
    then show ?thesis using Cons.prems g[of ps] by auto
  qed
qed simp

section \<open>Properties\<close>

text \<open>
  C31. The log is the stream. Whatever the interleaving of writes, lag, other readers and the close, and whatever the file
  system answers: what is kept of the log, behind what rotations let go of, is what was there before, the line that says it
  was opened, and the output from then on - byte for byte, each byte once and in order, a run that the buffer let go of
  replaced by the note of its exact length - up to the offset the writer has reached, less what the file system refused, and
  that is counted with the runs, no more and no less. So while nothing is counted the log is exactly the output; and what the
  writer has not reached waits in its queue, as long as it reads.
\<close>

theorem log_follows_stream:
  assumes "logged mark capacity w"
  shows "(\<exists>ps. follows ps (drop (w_start w) (take (nat (lk_flushed (w_lk w))) (se_all (w_ses w))))
      \<and> lands (w_before w) (w_header w # map piece_text ps) (kept_log (lk_path (w_lk w)) (w_fs w)) (lk_dropped (w_lk w) - gaps ps))
    \<and> (lk_dropped (w_lk w) = 0 \<longrightarrow> (\<exists>gone. gone @ kept_log (lk_path (w_lk w)) (w_fs w)
          = w_before w @ w_header w @ drop (w_start w) (take (nat (lk_flushed (w_lk w))) (se_all (w_ses w)))))
    \<and> (\<not> lk_done (w_lk w) \<and> lk_sub (w_lk w) \<in> set (ob_subs (se_out (w_ses w)))
        \<longrightarrow> drop (nat (lk_flushed (w_lk w))) (se_all (w_ses w)) = concat (sb_queue (sub_at (se_out (w_ses w)) (lk_sub (w_lk w)))))
    \<and> 0 \<le> lk_flushed (w_lk w) \<and> lk_flushed (w_lk w) \<le> int (length (se_all (w_ses w)))"
proof -
  let ?l = "w_lk w" and ?s = "w_ses w"
  let ?got = "drop (w_start w) (take (nat (lk_flushed ?l)) (se_all ?s))"
  let ?sb = "sub_at (se_out ?s) (lk_sub ?l)"
  obtain ps where ps: "w_pieces w = Inr (w_start w) # ps" "\<forall>k. Inr k \<in> set ps \<longrightarrow> 0 < k"
    "lands (w_before w) (w_header w # map piece_text ps) (kept_log (lk_path ?l) (w_fs w)) (lk_dropped ?l - gaps ps)"
    using reach_filed[OF assms] unfolding filed_def by blast
  note ok = world_reach_ok[OF assms, unfolded world_ok_def Let_def]
  have f: "follows ps ?got" using ok ps(1) by simp
  have gone: "\<exists>gone. gone @ kept_log (lk_path ?l) (w_fs w) = w_before w @ w_header w @ ?got" if "lk_dropped ?l = 0"
  proof -
    have g: "0 \<le> gaps qs" for qs :: pieces by (induction qs) (auto simp: gaps_def split: sum.split)
    have "lk_dropped ?l - gaps ps \<le> 0" using g[of ps] that by simp
    note n = lost_nothing[OF ps(3) this]
    then have "concat (map piece_text ps) = ?got" using no_gaps[OF ps(2) _ f] that by simp
    then show ?thesis using n by simp
  qed
  have waits: "drop (nat (lk_flushed ?l)) (se_all ?s) = concat (sb_queue ?sb)"
    if "\<not> lk_done ?l" "lk_sub ?l \<in> set (ob_subs (se_out ?s))"
  proof -
    have i: "lk_sub ?l < length (ob_store (se_out ?s))" and fl: "lk_flushed ?l = sb_from ?sb + int (length (se_got ?s ! lk_sub ?l))"
      using ok that(1) by auto
    have d: "drop (nat (sb_from ?sb)) (se_all ?s) = se_got ?s ! lk_sub ?l @ concat (sb_queue ?sb)" "0 \<le> sb_from ?sb"
      using sessionD(7)[of _ ?s, OF _ i] ok that(2) by (auto simp: sub_ok_def)
    have "nat (lk_flushed ?l) = length (se_got ?s ! lk_sub ?l) + nat (sb_from ?sb)" using fl d(2) by simp
    then have "drop (nat (lk_flushed ?l)) (se_all ?s) = drop (length (se_got ?s ! lk_sub ?l)) (drop (nat (sb_from ?sb)) (se_all ?s))"
      by (simp add: drop_drop)
    then show ?thesis using d(1) by simp
  qed
  show ?thesis using f ps(3) gone waits ok by blast
qed

text \<open>A run for the witness: the log is opened, the service writes, the writer takes a turn.\<close>

definition sample_opened :: "unit world option" where
  "sample_opened = do {
     s \<leftarrow> session_run no_marks [EWrite (bstr ''ab'')] (new_session 4);
     r \<leftarrow> open_log_sink True steady steady steady (se_out s) () (bstr ''web'') 0 None (bstr ''--'') no_files;
     s1 \<leftarrow> session_run no_marks [EAttach log_sink_queue_bytes] s;
     case r of Inl e \<Rightarrow> None
     | Inr (fs1, l, ob) \<Rightarrow>
         Some \<lparr>w_ses = s1\<lparr>se_out := ob\<rparr>, w_fs = fs1, w_lk = l,
           w_pieces = [Inr (length (se_all s) - length (se_snap s1 ! lk_sub l)), Inl (se_snap s1 ! lk_sub l)],
       w_before = kept_log (bstr ''web'') no_files, w_header = bstr ''--'', w_start = length (se_all s) - length (se_snap s1 ! lk_sub l)\<rparr> }"

definition sample_world :: "unit world option" where
  "sample_world = do {
     w \<leftarrow> sample_opened;
     s2 \<leftarrow> session_do no_marks (EWrite (bstr ''cde'')) (w_ses w);
     (fs2, l2, ob2) \<leftarrow> sink_turn steady steady (w_fs w, w_lk w, se_out s2);
     s3 \<leftarrow> session_run no_marks (turn_events (w_lk w) (se_out s2)) s2;
     Some (w\<lparr>w_ses := s3, w_fs := fs2, w_lk := l2, w_pieces := w_pieces w @ turn_pieces (w_lk w) (se_out s2)\<rparr>) }"

lemma sample_opened_logged: "sample_opened = Some w \<Longrightarrow> logged no_marks 4 w"
  unfolding sample_opened_def bind_eq_Some_conv
proof (elim exE conjE)
  fix s r s1
  assume a: "session_run no_marks [EWrite (bstr ''ab'')] (new_session 4) = Some s"
    "open_log_sink True steady steady steady (se_out s) () (bstr ''web'') 0 None (bstr ''--'') no_files = Some r"
    "session_run no_marks [EAttach log_sink_queue_bytes] s = Some s1"
    "(case r of Inl e \<Rightarrow> None
     | Inr (fs1, l, ob) \<Rightarrow>
         Some \<lparr>w_ses = s1\<lparr>se_out := ob\<rparr>, w_fs = fs1, w_lk = l,
           w_pieces = [Inr (length (se_all s) - length (se_snap s1 ! lk_sub l)), Inl (se_snap s1 ! lk_sub l)],
       w_before = kept_log (bstr ''web'') no_files, w_header = bstr ''--'', w_start = length (se_all s) - length (se_snap s1 ! lk_sub l)\<rparr>) = Some w"
  then obtain fs1 l ob where r: "r = Inr (fs1, l, ob)" by (cases r) auto
  show ?thesis
    using a(4) logged.opened[OF session_run_reach[OF a(1) session_reach.start] a(2)[unfolded r] a(3)] r by simp
qed

lemma sample_logged: "sample_world = Some w \<Longrightarrow> logged no_marks 4 w"
  unfolding sample_world_def bind_eq_Some_conv
proof (elim exE conjE)
  fix w0 s2 t
  assume a: "sample_opened = Some w0" "session_do no_marks (EWrite (bstr ''cde'')) (w_ses w0) = Some s2"
    "sink_turn steady steady (w_fs w0, w_lk w0, se_out s2) = Some t"
    "(case t of (fs2, l2, ob2) \<Rightarrow> do {
       s3 \<leftarrow> session_run no_marks (turn_events (w_lk w0) (se_out s2)) s2;
       Some (w0\<lparr>w_ses := s3, w_fs := fs2, w_lk := l2, w_pieces := w_pieces w0 @ turn_pieces (w_lk w0) (se_out s2)\<rparr>) }) = Some w"
  obtain fs2 l2 ob2 where t: "t = (fs2, l2, ob2)" by (cases t)
  obtain s3 where s3: "session_run no_marks (turn_events (w_lk w0) (se_out s2)) s2 = Some s3"
    "w = w0\<lparr>w_ses := s3, w_fs := fs2, w_lk := l2, w_pieces := w_pieces w0 @ turn_pieces (w_lk w0) (se_out s2)\<rparr>"
    using a(4) by (auto simp: t bind_eq_Some_conv)
  have w2: "logged no_marks 4 (w0\<lparr>w_ses := s2\<rparr>)"
    by (rule logged.other[OF sample_opened_logged[OF a(1)] a(2)]) simp
  show ?thesis using logged.turn[OF w2, of steady steady fs2 l2 ob2 s3] a(3) s3 by (simp add: t)
qed

lemma sample_world_value:
  "map_option (\<lambda>w. (lk_dropped (w_lk w), lk_path (w_lk w), w_before w, w_header w, w_start w, lk_flushed (w_lk w), se_all (w_ses w))) sample_world =
   Some (0, bstr ''web'', [], bstr ''--'', 0, 5, bstr ''abcde'')"
  by code_simp

theorem log_follows_stream_witness:
  "\<exists>w gone. sample_world = Some w \<and> gone @ kept_log (bstr ''web'') (w_fs w) = bstr ''--'' @ bstr ''abcde''"
proof -
  obtain w where w: "sample_world = Some w" using sample_world_value by (cases sample_world) auto
  have v: "lk_dropped (w_lk w) = 0" "lk_path (w_lk w) = bstr ''web''" "w_before w = []" "w_header w = bstr ''--''" "w_start w = 0"
    "lk_flushed (w_lk w) = 5" "se_all (w_ses w) = bstr ''abcde''"
    using sample_world_value[unfolded w] by simp_all
  have "take (nat 5) (bstr ''abcde'') = bstr ''abcde''" by (simp add: bstr_def)
  with log_follows_stream[OF sample_logged[OF w], THEN conjunct2, THEN conjunct1, rule_format, OF v(1)]
  obtain gone where "gone @ kept_log (bstr ''web'') (w_fs w) = bstr ''--'' @ bstr ''abcde''" unfolding v by auto
  then show ?thesis using w by blast
qed

text \<open>
  What a turn of the writer does to the files is exactly to write the pieces it adds to the log's
  account - a chunk of the stream, the missing part of a fresh snapshot, or the note of a gap and the
  snapshot - and what it does to the buffer is to receive, consume or attach like any reader.
\<close>

theorem turn_writes_pieces:
  assumes "logged mark capacity w"
    and "sink_turn io1 io2 (w_fs w, w_lk w, se_out (w_ses w)) = Some (fs1, l1, ob1)"
    and "session_run mark (turn_events (w_lk w) (se_out (w_ses w))) (w_ses w) = Some s1"
  shows "se_out s1 = ob1 \<and>
    fs1 = fst (emits (zip [io1, io2] (map piece_text (turn_pieces (w_lk w) (se_out (w_ses w))))) (w_fs w, w_lk w))"
  using world_turn[OF world_reach_ok[OF assms(1)] assms(2,3)] by blast

theorem turn_writes_pieces_witness:
  "\<exists>w fs1 l1 ob1. sample_world = Some w \<and> sink_turn steady steady (w_fs w, w_lk w, se_out (w_ses w)) = Some (fs1, l1, ob1) \<and>
     fs1 = fst (emits [] (w_fs w, w_lk w))"
proof -
  have v: "map_option (\<lambda>w. (sink_turn steady steady (w_fs w, w_lk w, se_out (w_ses w)) \<noteq> None,
      turn_events (w_lk w) (se_out (w_ses w)) = [], turn_pieces (w_lk w) (se_out (w_ses w)) = [])) sample_world = Some (True, True, True)"
    by code_simp
  then obtain w where w: "sample_world = Some w" by (cases sample_world) auto
  note v' = v[unfolded w, simplified]
  obtain fs1 l1 ob1 where t: "sink_turn steady steady (w_fs w, w_lk w, se_out (w_ses w)) = Some (fs1, l1, ob1)" using v' by auto
  have "session_run no_marks (turn_events (w_lk w) (se_out (w_ses w))) (w_ses w) = Some (w_ses w)" using v' by simp
  from turn_writes_pieces[OF sample_logged[OF w] t this] show ?thesis using w t v' by auto
qed

end
