(* ===== verification/LogRead.thy ===== *)
theory LogRead
  imports LogFile
begin

text \<open>
  \<open>src/internal/fabric/logfile.go\<close>, reading: the tail of a log, the time index beside it, and the
  output since a moment. \<open>readable\<close> says which files can be read; the times of the index are seconds,
  those of the writes nanoseconds.
\<close>

section \<open>The tail\<close>

datatype read_error = NotExist | ReadFailed bytes | NoIndex

definition tail_file :: "(bytes \<Rightarrow> bool) \<Rightarrow> files \<Rightarrow> bytes \<Rightarrow> int \<Rightarrow> read_error + bytes \<times> int" where
  "tail_file readable fs p max_bytes =
     (case fs p of
        None \<Rightarrow> Inl NotExist
      | Some b \<Rightarrow>
          if \<not> readable p then Inl (ReadFailed p)
          else let sz = int (length b); want = (if max_bytes > 0 \<and> max_bytes < sz then max_bytes else sz) in
               if want \<le> 0 then Inr ([], sz) else Inr (drop (nat (sz - want)) b, sz))"

definition read_log_tail :: "(bytes \<Rightarrow> bool) \<Rightarrow> files \<Rightarrow> bytes \<Rightarrow> int \<Rightarrow> read_error + bytes \<times> bool" where
  "read_log_tail readable fs p max_bytes =
     (case tail_file readable fs p max_bytes of
        Inl e \<Rightarrow> Inl e
      | Inr (cur, sz) \<Rightarrow>
          if max_bytes \<le> 0 \<or> int (length cur) < max_bytes then
            (let room = (if max_bytes > 0 then max_bytes - int (length cur) else 0) in
             case tail_file readable fs (old_path p) room of
               Inr (prev, prev_sz) \<Rightarrow> Inr (prev @ cur, int (length (prev @ cur)) < sz + prev_sz)
             | Inl NotExist \<Rightarrow> Inr (cur, int (length cur) < sz)
             | Inl e \<Rightarrow> Inl e)
          else (let total_sz = (case fs (old_path p) of None \<Rightarrow> sz | Some b \<Rightarrow> sz + int (length b))
                in Inr (cur, int (length cur) < total_sz)))"

section \<open>The time index\<close>

definition is_space :: "byte \<Rightarrow> bool" where
  "is_space c \<longleftrightarrow> c = 0x20 \<or> c = 0x09 \<or> c = 0x0b \<or> c = 0x0c \<or> c = 0x0d"

text \<open>\<open>fmt.Sscanf(line, "%d %d")\<close> on ASCII; what follows the second number is ignored.\<close>

definition scan_int :: "bytes \<Rightarrow> (int \<times> bytes) option" where
  "scan_int s =
     (let s1 = dropWhile is_space s;
          (neg, s2) = (case s1 of [] \<Rightarrow> (False, []) | c # cs \<Rightarrow>
             if c = 0x2d then (True, cs) else if c = 0x2b then (False, cs) else (False, s1));
          ds = takeWhile is_digit s2;
          n = (if neg then - digits_value ds else digits_value ds)
      in if ds = [] \<or> n > max_int64 \<or> n < - max_int64 - 1 then None else Some (n, drop (length ds) s2))"

definition scan_mark :: "bytes \<Rightarrow> (int \<times> int) option" where
  "scan_mark s = do {
     (a, r) \<leftarrow> scan_int s;
     (case r of [] \<Rightarrow> None | c # cs \<Rightarrow>
        if \<not> is_space c then None else do { (b, _) \<leftarrow> scan_int (dropWhile is_space r); Some (a, b) }) }"

definition read_index :: "(bytes \<Rightarrow> bool) \<Rightarrow> files \<Rightarrow> bytes \<Rightarrow> (int \<times> int) list" where
  "read_index readable fs p =
     (case fs p of
        None \<Rightarrow> []
      | Some b \<Rightarrow> if \<not> readable p then [] else List.map_filter scan_mark (split_on 0x0a b))"

text \<open>Where the output from \<open>since\<close> on begins, and whether the marks reach back that far.\<close>

definition since_start :: "(int \<times> int) list \<Rightarrow> int \<Rightarrow> int \<Rightarrow> int \<times> bool" where
  "since_start marks since sz =
     (let k = length (takeWhile (\<lambda>m. \<not> fst m > since) marks) in
      if k = 0 then (0, False)
      else let off = (if since < fst (marks ! (k - 1)) + mark_every div nanos \<or> mark_every < nanos then snd (marks ! (k - 1))
                      else if k < length marks then snd (marks ! k) else sz)
           in (if off > sz then sz else off, True))"

section \<open>The output since a moment\<close>

record log_since =
  ls_data :: bytes
  ls_truncated :: bool
  ls_unknown :: int

definition cut_since :: "int \<Rightarrow> log_since \<Rightarrow> log_since option" where
  "cut_since max_bytes out =
     (if max_bytes > 0 \<and> int (length (ls_data out)) > max_bytes then
        (let cut = int (length (ls_data out)) - max_bytes in do {
           d \<leftarrow> subslice (ls_data out) cut (int (length (ls_data out)));
           Some (out\<lparr>ls_data := d, ls_truncated := True,
                     ls_unknown := (if ls_unknown out - cut < 0 then 0 else ls_unknown out - cut)\<rparr>) })
      else Some out)"

text \<open>\<open>None\<close> is a slice out of range, which only an index edited by hand can cause.\<close>

definition read_log_since_once :: "(bytes \<Rightarrow> bool) \<Rightarrow> files \<Rightarrow> bytes \<Rightarrow> int \<Rightarrow> int \<Rightarrow> (read_error + log_since) option" where
  "read_log_since_once readable fs p since max_bytes =
     (case fs p of
        None \<Rightarrow> Some (Inl NotExist)
      | Some cur \<Rightarrow>
          if \<not> readable p then Some (Inl (ReadFailed p))
          else
            (let prev_marks = read_index readable fs (index_path (old_path p));
                 cur_marks = read_index readable fs (index_path p)
             in if prev_marks = [] \<and> cur_marks = [] then Some (Inl NoIndex)
                else case since_start cur_marks since (int (length cur)) of
                  (off, True) \<Rightarrow> do {
                    d \<leftarrow> subslice cur off (int (length cur));
                    out \<leftarrow> cut_since max_bytes \<lparr>ls_data = d, ls_truncated = False, ls_unknown = 0\<rparr>;
                    Some (Inr out) }
                | (_, False) \<Rightarrow>
                    if fs (old_path p) \<noteq> None \<and> \<not> readable (old_path p) then Some (Inl (ReadFailed (old_path p)))
                    else
                      (let prev = file_at fs (old_path p) in
                       case since_start prev_marks since (int (length prev)) of
                         (off, True) \<Rightarrow> do {
                           d \<leftarrow> subslice prev off (int (length prev));
                           out \<leftarrow> cut_since max_bytes \<lparr>ls_data = d @ cur, ls_truncated = False, ls_unknown = 0\<rparr>;
                           Some (Inr out) }
                       | (_, False) \<Rightarrow> do {
                           m \<leftarrow> (if prev_marks \<noteq> [] then Some (snd (hd prev_marks))
                                 else if prev \<noteq> [] then Some (int (length prev))
                                 else if cur_marks \<noteq> [] then Some (snd (hd cur_marks)) else None);
                           out \<leftarrow> cut_since max_bytes \<lparr>ls_data = prev @ cur, ls_truncated = False, ls_unknown = m\<rparr>;
                           Some (Inr out) })))"

text \<open>
  \<open>ReadLogSince\<close>: read again while the file was replaced meanwhile, at most four times. A look is the
  identity of the file before, what the read found, and the identity after.
\<close>

fun read_log_since :: "nat \<Rightarrow> (nat option \<times> (read_error + log_since) option \<times> nat option) list \<Rightarrow> (read_error + log_since) option" where
  "read_log_since attempt [] = None"
| "read_log_since attempt ((before, got, after) # looks) =
     (case before of
        None \<Rightarrow> Some (Inl NotExist)
      | Some f \<Rightarrow>
          (case got of
             None \<Rightarrow> None
           | Some (Inl e) \<Rightarrow> Some (Inl e)
           | Some (Inr out) \<Rightarrow>
               if after = Some f \<or> attempt = 3 then Some (Inr out) else read_log_since (attempt + 1) looks))"

section \<open>The tail is the end of what was kept\<close>

lemma tail_file_lastn:
  assumes "fs p = Some b" "readable p"
  shows "tail_file readable fs p m = Inr (if m > 0 then lastn (nat m) b else b, int (length b))"
  using assms by (auto simp: tail_file_def Let_def lastn_def nat_diff_distrib)

lemma lastn_pieces:
  assumes "0 < m"
  shows "(if length c < m then lastn (m - length (lastn m c)) p @ lastn m c else lastn m c) = lastn m (p @ c)"
proof (cases "length c < m")
  case True
  then show ?thesis using lastn_append[of c m p] by simp
next
  case False
  then show ?thesis using lastn_append_long[of m c p] by simp
qed

section \<open>Reading back what the writer marked\<close>

lemma takeWhile_digits: "list_all is_digit ds \<Longrightarrow> \<not> is_digit c \<Longrightarrow> takeWhile is_digit (ds @ c # r) = ds"
  by (induction ds) auto

lemma digit_not_space: "is_digit c \<Longrightarrow> \<not> is_space c \<and> c \<noteq> 0x0a \<and> c \<noteq> 0x2d \<and> c \<noteq> 0x2b"
  by (auto simp: is_digit_def is_space_def)

lemma scan_int_itoa:
  assumes "0 \<le> n" "n \<le> max_int64"
  shows "\<not> is_digit c \<Longrightarrow> scan_int (itoa n @ c # r) = Some (n, c # r)" and "scan_int (itoa n) = Some (n, [])"
proof -
  have d: "list_all is_digit (itoa n)" "itoa n \<noteq> []" using assms(1) by (simp_all add: itoa_def nat_digits_digits)
  have v: "digits_value (itoa n) = n" using assms(1) by (simp add: itoa_def)
  obtain a ds where i: "itoa n = a # ds" using d(2) by (cases "itoa n") auto
  have a: "\<not> is_space a" "a \<noteq> 0x2d" "a \<noteq> 0x2b" using d i digit_not_space[of a] by auto
  have "takeWhile is_digit (itoa n) = itoa n" using d(1) by (simp add: list_all_iff)
  then show "scan_int (itoa n) = Some (n, [])" using a v assms by (simp add: scan_int_def i Let_def max_int64_def)
  show "scan_int (itoa n @ c # r) = Some (n, c # r)" if "\<not> is_digit c"
    using takeWhile_digits[OF d(1) that, of r] a v assms by (simp add: scan_int_def i Let_def max_int64_def)
qed

lemma split_lines:
  "sep \<notin> set f \<Longrightarrow> split_on sep (f @ sep # s) = f # split_on sep s"
  by (induction f) auto

lemma scan_mark_line:
  assumes "0 \<le> a" "a \<le> max_int64" "0 \<le> b" "b \<le> max_int64"
  shows "scan_mark (itoa a @ [0x20] @ itoa b) = Some (a, b)" "(0x0a :: byte) \<notin> set (itoa a @ [0x20] @ itoa b)"
proof -
  have d: "list_all is_digit (itoa n) \<and> itoa n \<noteq> []" if "0 \<le> n" for n using that by (simp add: itoa_def nat_digits_digits)
  have s: "\<not> is_digit 0x20" "is_space 0x20" by (simp_all add: is_digit_def is_space_def)
  obtain x xs where b: "itoa b = x # xs" using d[OF assms(3)] by (cases "itoa b") auto
  have "\<not> is_space x" using d[OF assms(3)] b digit_not_space by auto
  then have "dropWhile is_space (0x20 # itoa b) = itoa b" using s b by simp
  then show "scan_mark (itoa a @ [0x20] @ itoa b) = Some (a, b)"
    using scan_int_itoa(1)[OF assms(1,2) s(1), of "itoa b"] scan_int_itoa(2)[OF assms(3,4)] s
    by (simp add: scan_mark_def)
  show "(0x0a :: byte) \<notin> set (itoa a @ [0x20] @ itoa b)"
    using d[OF assms(1)] d[OF assms(3)] digit_not_space by (auto simp: list_all_iff)
qed

definition mark_ok :: "int \<times> int \<Rightarrow> bool" where
  "mark_ok m \<longleftrightarrow> 0 \<le> fst m \<and> fst m \<le> max_int64 \<and> 0 \<le> snd m \<and> snd m \<le> max_int64"

lemma index_roundtrip:
  assumes "list_all mark_ok ms"
  shows "List.map_filter scan_mark (split_on 0x0a (concat (map (\<lambda>(a, b). mark_line a b) ms))) = ms"
  using assms
proof (induction ms)
  case Nil
  then show ?case by (simp add: map_filter_def scan_mark_def scan_int_def)
next
  case (Cons m ms)
  obtain a b where m: "m = (a, b)" by (cases m)
  have ok: "0 \<le> a" "a \<le> max_int64" "0 \<le> b" "b \<le> max_int64" using Cons.prems by (simp_all add: m mark_ok_def)
  have "split_on 0x0a (mark_line a b @ s) = (itoa a @ [0x20] @ itoa b) # split_on 0x0a s" for s
    using split_lines[OF scan_mark_line(2)[OF ok], of s] by (simp add: mark_line_def)
  then show ?case using Cons scan_mark_line(1)[OF ok] by (simp add: m map_filter_simps)
qed

lemma read_index_file:
  "read_index (\<lambda>_. True) fs p = List.map_filter scan_mark (split_on 0x0a (file_at fs p))"
  by (cases "fs p") (simp_all add: read_index_def file_at_def map_filter_def scan_mark_def scan_int_def)

section \<open>Timed writes\<close>

text \<open>The marks the writer makes for writes at given times, \<open>m\<close> being the time of the last mark.\<close>

fun marks_of :: "int option \<Rightarrow> int \<Rightarrow> (int \<times> bytes) list \<Rightarrow> (int \<times> int) list" where
  "marks_of m n [] = []"
| "marks_of m n ((t, c) # ws) =
     (if (case m of None \<Rightarrow> False | Some x \<Rightarrow> t - x < mark_every) then marks_of m (n + int (length c)) ws
      else (t div nanos, n) # marks_of (Some t) (n + int (length c)) ws)"

abbreviation written_by :: "(int \<times> bytes) list \<Rightarrow> bytes" where
  "written_by ws \<equiv> concat (map snd ws)"

text \<open>The same search as \<open>since_start\<close>, mark by mark; \<open>c\<close> is the last mark passed.\<close>

fun search_since :: "(int \<times> int) option \<Rightarrow> (int \<times> int) list \<Rightarrow> int \<Rightarrow> int \<Rightarrow> int \<times> bool" where
  "search_since None [] since sz = (0, False)"
| "search_since (Some (a, b)) [] since sz = (if since < a + 60 then b else sz, True)"
| "search_since c ((a, b) # ms) since sz =
     (if a > since then (case c of None \<Rightarrow> (0, False) | Some (a0, b0) \<Rightarrow> (if since < a0 + 60 then b0 else b, True))
      else search_since (Some (a, b)) ms since sz)"

lemma minute: "mark_every div nanos = 60" "\<not> mark_every < nanos"
  by (simp_all add: mark_every_def nanos_def)

lemma search_since_passed:
  "search_since (Some (a, b)) ms since sz =
     (let k = length (takeWhile (\<lambda>m. \<not> fst m > since) ms); last_mark = (if k = 0 then (a, b) else ms ! (k - 1)) in
      (if since < fst last_mark + 60 then snd last_mark else if k < length ms then snd (ms ! k) else sz, True))"
proof (induction ms arbitrary: a b)
  case (Cons m ms)
  obtain x y where m: "m = (x, y)" by (cases m)
  show ?case
  proof (cases "x > since")
    case False
    let ?k = "length (takeWhile (\<lambda>m. \<not> fst m > since) ms)"
    have "(m # ms) ! ?k = (if ?k = 0 then m else ms ! (?k - 1))" by (cases ?k) simp_all
    then show ?thesis using Cons.IH[of x y] False by (simp add: m Let_def)
  qed (simp add: m)
qed (simp add: Let_def)

lemma since_start_search:
  "since_start ms since sz =
     (let r = search_since None ms since sz in if snd r \<and> fst r > sz then (sz, True) else r)"
proof (cases ms)
  case Nil
  then show ?thesis by (simp add: since_start_def)
next
  case (Cons m rest)
  obtain x y where m: "m = (x, y)" by (cases m)
  show ?thesis
  proof (cases "x > since")
    case True
    then show ?thesis by (simp add: Cons m since_start_def)
  next
    case False
    let ?k = "length (takeWhile (\<lambda>m. \<not> fst m > since) rest)"
    have "(m # rest) ! ?k = (if ?k = 0 then m else rest ! (?k - 1))" by (cases ?k) simp_all
    then show ?thesis using False search_since_passed[of x y rest since sz]
      by (simp add: Cons m since_start_def Let_def minute)
  qed
qed

definition early :: "int \<Rightarrow> int \<times> bytes \<Rightarrow> bool" where
  "early since w \<longleftrightarrow> fst w < (since + 1) * nanos"

definition recent :: "int \<Rightarrow> int \<times> bytes \<Rightarrow> bool" where
  "recent since w \<longleftrightarrow> fst w > since * nanos - mark_every"

lemma second_start: "t div nanos * nanos \<le> t" "t < t div nanos * nanos + nanos"
  using div_mult_mod_eq[of t nanos] pos_mod_bound[of nanos t] pos_mod_sign[of nanos t] by (simp_all add: nanos_def)

lemma seconds: "t div nanos \<le> s \<longleftrightarrow> t < (s + 1) * nanos"
proof
  show "t < (s + 1) * nanos" if "t div nanos \<le> s" 
    using second_start(2)[of t] mult_right_mono[OF that, of nanos] by (simp add: nanos_def)
  show "t div nanos \<le> s" if "t < (s + 1) * nanos"
  proof (rule ccontr)
    assume "\<not> t div nanos \<le> s"
    then have "s + 1 \<le> t div nanos" by simp
    then have "(s + 1) * nanos \<le> t div nanos * nanos" by (rule mult_right_mono) (simp add: nanos_def)
    then show False using that second_start(1)[of t] by simp
  qed
qed

lemma second_bounds: "0 \<le> t \<Longrightarrow> 0 \<le> t div nanos \<and> t div nanos \<le> t"
  using second_start[of t] unfolding nanos_def by linarith

lemma search_marks:
  assumes "sorted (map fst (pre @ ws))" "list_all (\<lambda>w. tau \<le> fst w \<and> fst w < tau + mark_every) pre"
    "tau div nanos \<le> since" "list_all (\<lambda>w. tau \<le> fst w) ws" "n = b + int (length (written_by pre))"
  shows "\<exists>k. search_since (Some (tau div nanos, b)) (marks_of (Some tau) n ws) since (n + int (length (written_by ws))) =
      (b + int (length (written_by (take k (pre @ ws)))), True) \<and> k \<le> length (pre @ ws) \<and>
      list_all (early since) (take k (pre @ ws)) \<and> list_all (recent since) (drop k (pre @ ws))"
  using assms
proof (induction ws arbitrary: pre tau b n)
  case Nil
  show ?case
  proof (cases "since < tau div nanos + 60")
    case True
    have "list_all (recent since) pre"
    proof (rule list.pred_mono_strong[OF Nil.prems(2)])
      fix w assume "w \<in> set pre" "tau \<le> fst w \<and> fst w < tau + mark_every"
      then show "recent since w" using True second_start[of tau] by (simp add: recent_def mark_every_def nanos_def)
    qed
    then show ?thesis using True by (intro exI[of _ 0]) simp
  next
    case False
    have "list_all (early since) pre"
    proof (rule list.pred_mono_strong[OF Nil.prems(2)])
      fix w assume "w \<in> set pre" "tau \<le> fst w \<and> fst w < tau + mark_every"
      then show "early since w" using False second_start[of tau] by (simp add: early_def mark_every_def nanos_def)
    qed
    then show ?thesis using False Nil.prems(5) by (intro exI[of _ "length pre"]) simp
  qed
next
  case (Cons w ws)
  obtain t c where w: "w = (t, c)" by (cases w)
  have t: "tau \<le> t" using Cons.prems(4) by (simp add: w)
  have later: "list_all (\<lambda>v. t \<le> fst v) ws" using Cons.prems(1) by (auto simp: w sorted_append list_all_iff)
  have before: "list_all (\<lambda>v. fst v \<le> t) pre" using Cons.prems(1) by (auto simp: w sorted_append list_all_iff)
  show ?case
  proof (cases "t - tau < mark_every")
    case True
    have "\<exists>k. search_since (Some (tau div nanos, b)) (marks_of (Some tau) (n + int (length c)) ws) since (n + int (length c) + int (length (written_by ws))) =
      (b + int (length (written_by (take k ((pre @ [w]) @ ws)))), True) \<and> k \<le> length ((pre @ [w]) @ ws) \<and>
      list_all (early since) (take k ((pre @ [w]) @ ws)) \<and> list_all (recent since) (drop k ((pre @ [w]) @ ws))"
      by (rule Cons.IH) (use Cons.prems True t in \<open>auto simp: w\<close>)
    then show ?thesis using True by (simp add: w add.assoc)
  next
    case mark: False
    have pre_early: "list_all (early since) pre" if "since \<ge> tau div nanos + 60"
    proof (rule list.pred_mono_strong[OF Cons.prems(2)])
      fix v assume "v \<in> set pre" "tau \<le> fst v \<and> fst v < tau + mark_every"
      then show "early since v" using that second_start[of tau] by (simp add: early_def mark_every_def nanos_def)
    qed
    show ?thesis
    proof (cases "t div nanos > since")
      case True
      have "t \<ge> (since + 1) * nanos" using True seconds[of t since] by linarith
      then have rt: "list_all (recent since) (w # ws)"
        using later by (auto simp: w recent_def list_all_iff mark_every_def nanos_def)
      show ?thesis
      proof (cases "since < tau div nanos + 60")
        case win: True
        have "list_all (recent since) pre"
        proof (rule list.pred_mono_strong[OF Cons.prems(2)])
          fix v assume "v \<in> set pre" "tau \<le> fst v \<and> fst v < tau + mark_every"
          then show "recent since v" using win second_start[of tau] by (simp add: recent_def mark_every_def nanos_def)
        qed
        then show ?thesis using True mark win rt by (intro exI[of _ 0]) (simp add: w)
      next
        case win: False
        then show ?thesis using True mark rt pre_early Cons.prems(5) by (intro exI[of _ "length pre"]) (simp add: w)
      qed
    next
      case False
      have "\<exists>k. search_since (Some (t div nanos, n)) (marks_of (Some t) (n + int (length c)) ws) since (n + int (length c) + int (length (written_by ws))) =
        (n + int (length (written_by (take k ([w] @ ws)))), True) \<and> k \<le> length ([w] @ ws) \<and>
        list_all (early since) (take k ([w] @ ws)) \<and> list_all (recent since) (drop k ([w] @ ws))"
        by (rule Cons.IH) (use Cons.prems False later in \<open>auto simp: w sorted_append mark_every_def nanos_def\<close>)
      then obtain k where k: "search_since (Some (t div nanos, n)) (marks_of (Some t) (n + int (length c)) ws) since (n + int (length c) + int (length (written_by ws))) =
        (n + int (length (written_by (take k (w # ws)))), True)" "k \<le> length (w # ws)"
        "list_all (early since) (take k (w # ws))" "list_all (recent since) (drop k (w # ws))" by auto
      have "t < (since + 1) * nanos" using False seconds[of t since] by linarith
      then have "list_all (early since) pre" using before by (auto simp: early_def list_all_iff)
      then show ?thesis using k mark False Cons.prems(5)
        by (intro exI[of _ "length pre + k"]) (simp add: w add.assoc)
    qed
  qed
qed

lemma since_start_marks:
  assumes "sorted (map fst ws)"
  shows "\<exists>k off found. since_start (marks_of None 0 ws) since (int (length (written_by ws))) = (off, found) \<and> k \<le> length ws \<and>
    (if found then off = int (length (written_by (take k ws))) else k = 0) \<and>
    list_all (early since) (take k ws) \<and> list_all (recent since) (drop k ws)"
proof (cases ws)
  case Nil
  then show ?thesis by (intro exI[of _ 0] exI[of _ False]) (simp add: since_start_def)
next
  case (Cons w rest)
  obtain t c where w: "w = (t, c)" by (cases w)
  have later: "list_all (\<lambda>v. t \<le> fst v) rest" using assms by (auto simp: Cons w list_all_iff)
  show ?thesis
  proof (cases "t div nanos > since")
    case True
    have "t \<ge> (since + 1) * nanos" using True seconds[of t since] by linarith
    then have "list_all (recent since) ws" using later by (auto simp: Cons w recent_def list_all_iff mark_every_def nanos_def)
    then show ?thesis using True by (intro exI[of _ 0] exI[of _ False]) (simp add: Cons w since_start_search)
  next
    case False
    have "\<exists>k. search_since (Some (t div nanos, 0)) (marks_of (Some t) (int (length c)) rest) since (int (length c) + int (length (written_by rest))) =
      (0 + int (length (written_by (take k ([w] @ rest)))), True) \<and> k \<le> length ([w] @ rest) \<and>
      list_all (early since) (take k ([w] @ rest)) \<and> list_all (recent since) (drop k ([w] @ rest))"
      by (rule search_marks) (use assms False later in \<open>auto simp: Cons w mark_every_def nanos_def\<close>)
    then obtain k where k: "search_since None (marks_of None 0 ws) since (int (length (written_by ws))) = (int (length (written_by (take k ws))), True)"
      "k \<le> length ws" "list_all (early since) (take k ws)" "list_all (recent since) (drop k ws)"
      using False by (auto simp: Cons w)
    have "length (written_by (take k ws)) \<le> length (written_by ws)"
      by (metis append_take_drop_id concat_append length_append map_append le_add1)
    then show ?thesis using k by (intro exI[of _ k] exI[of _ "int (length (written_by (take k ws)))"] exI[of _ True])
        (simp add: since_start_search Let_def)
  qed
qed

section \<open>The writer's files\<close>

definition at_time :: "int \<times> bytes \<Rightarrow> io \<times> bytes" where
  "at_time w = (steady\<lparr>io_now := fst w, io_room := length (snd w)\<rparr>, snd w)"

text \<open>A writer that has its file open, on an empty disk.\<close>

definition fresh_log :: "int \<Rightarrow> files \<times> log_sink" where
  "fresh_log m = (create (bstr ''web'') no_files, (idle_sink m)\<lparr>lk_open := True\<rparr>)"

lemma emit_steady:
  assumes "lk_open l" "fs (lk_path l) = Some cur" "lk_n l = int (length cur)" "int (length cur) + int (length c) \<le> lk_max l" "c \<noteq> []"
  shows "\<exists>fs' l'. emit (steady\<lparr>io_now := t, io_room := length c\<rparr>) c (fs, l) = (fs', l') \<and> lk_open l' \<and> lk_path l' = lk_path l \<and>
     lk_max l' = lk_max l \<and> fs' (lk_path l) = Some (cur @ c) \<and> lk_n l' = int (length (cur @ c)) \<and>
     (if (case lk_marked l of None \<Rightarrow> False | Some x \<Rightarrow> t - x < mark_every)
      then lk_marked l' = lk_marked l \<and> file_at fs' (index_path (lk_path l)) = file_at fs (index_path (lk_path l))
      else lk_marked l' = Some t \<and>
        file_at fs' (index_path (lk_path l)) = file_at fs (index_path (lk_path l)) @ mark_line (t div nanos) (lk_n l)) \<and>
     fs' (old_path (lk_path l)) = fs (old_path (lk_path l)) \<and> fs' (index_path (old_path (lk_path l))) = fs (index_path (old_path (lk_path l)))"
  using assms
  by (cases "lk_marked l") (auto simp: emit_def emit_opened_def sink_put_def sink_mark_def steady_def Let_def append_file_def file_at_def)

lemma emits_timed:
  assumes "lk_open l" "fs (lk_path l) = Some cur" "lk_n l = int (length cur)"
    "int (length cur) + int (length (written_by ws)) \<le> lk_max l" "list_all (\<lambda>w. snd w \<noteq> []) ws"
  shows "\<exists>fs' l'. emits (map at_time ws) (fs, l) = (fs', l') \<and> fs' (lk_path l) = Some (cur @ written_by ws) \<and>
     file_at fs' (index_path (lk_path l)) = file_at fs (index_path (lk_path l)) @
       concat (map (\<lambda>(a, b). mark_line a b) (marks_of (lk_marked l) (int (length cur)) ws)) \<and>
     fs' (old_path (lk_path l)) = fs (old_path (lk_path l)) \<and> fs' (index_path (old_path (lk_path l))) = fs (index_path (old_path (lk_path l)))"
  using assms
proof (induction ws arbitrary: fs l cur)
  case (Cons w ws)
  obtain t c where w: "w = (t, c)" by (cases w)
  have c: "c \<noteq> []" "int (length cur) + int (length c) \<le> lk_max l" using Cons.prems(4,5) by (simp_all add: w)
  from emit_steady[of l fs cur c t, OF Cons.prems(1-3) c(2,1)] obtain fs1 l1 where
    e: "emit (steady\<lparr>io_now := t, io_room := length c\<rparr>) c (fs, l) = (fs1, l1)" "lk_open l1" "lk_path l1 = lk_path l" "lk_max l1 = lk_max l"
      "fs1 (lk_path l) = Some (cur @ c)" "lk_n l1 = int (length (cur @ c))"
      "if (case lk_marked l of None \<Rightarrow> False | Some x \<Rightarrow> t - x < mark_every)
       then lk_marked l1 = lk_marked l \<and> file_at fs1 (index_path (lk_path l)) = file_at fs (index_path (lk_path l))
       else lk_marked l1 = Some t \<and>
         file_at fs1 (index_path (lk_path l)) = file_at fs (index_path (lk_path l)) @ mark_line (t div nanos) (lk_n l)"
      "fs1 (old_path (lk_path l)) = fs (old_path (lk_path l))" "fs1 (index_path (old_path (lk_path l))) = fs (index_path (old_path (lk_path l)))"
    by blast
  have "fs1 (lk_path l1) = Some (cur @ c)" using e(3,5) by simp
  moreover have "int (length (cur @ c)) + int (length (written_by ws)) \<le> lk_max l1" using Cons.prems(4) e(4) by (simp add: w)
  moreover have "list_all (\<lambda>w. snd w \<noteq> []) ws" using Cons.prems(5) by simp
  ultimately obtain fs' l' where r: "emits (map at_time ws) (fs1, l1) = (fs', l')"
    "fs' (lk_path l) = Some (cur @ c @ written_by ws)"
    "file_at fs' (index_path (lk_path l)) = file_at fs1 (index_path (lk_path l)) @
       concat (map (\<lambda>(a, b). mark_line a b) (marks_of (lk_marked l1) (int (length cur) + int (length c)) ws))"
    "fs' (old_path (lk_path l)) = fs (old_path (lk_path l))" "fs' (index_path (old_path (lk_path l))) = fs (index_path (old_path (lk_path l)))"
    using Cons.IH[of l1 fs1 "cur @ c"] e(2,3,6,8,9) by auto
  then show ?case using e(1,7) Cons.prems(3) by (auto simp: w at_time_def[of "(t, c)"] split: if_split_asm)
qed simp

lemma marks_ok:
  "sorted (map fst ws) \<Longrightarrow> list_all (\<lambda>w. 0 \<le> fst w \<and> fst w \<le> max_int64) ws \<Longrightarrow> 0 \<le> n \<Longrightarrow>
   n + int (length (written_by ws)) \<le> max_int64 \<Longrightarrow> list_all mark_ok (marks_of m n ws)"
proof (induction m n ws rule: marks_of.induct)
  case (2 m n t c ws)
  have "0 \<le> t div nanos" "t div nanos \<le> t" using 2(4) second_bounds[of t] by auto
  then show ?case using 2 by (auto simp: mark_ok_def)
qed simp

lemma marks_some: "ws \<noteq> [] \<Longrightarrow> marks_of None n ws \<noteq> []"
  by (cases ws) auto

lemma written_log:
  assumes "sorted (map fst ws)" "list_all (\<lambda>w. 0 \<le> fst w \<and> fst w \<le> max_int64 \<and> snd w \<noteq> []) ws"
    "int (length (written_by ws)) \<le> m" "m \<le> max_int64" "p = bstr ''web''"
  obtains fs l where "emits (map at_time ws) (fresh_log m) = (fs, l)" "fs p = Some (written_by ws)" "fs (old_path p) = None"
    "read_index (\<lambda>_. True) fs (index_path p) = marks_of None 0 ws" "read_index (\<lambda>_. True) fs (index_path (old_path p)) = []"
proof -
  let ?ms = "marks_of None 0 ws"
  have f: "lk_open (snd (fresh_log m))" "lk_path (snd (fresh_log m)) = p" "fst (fresh_log m) p = Some []"
    "lk_n (snd (fresh_log m)) = 0" "lk_max (snd (fresh_log m)) = m" "lk_marked (snd (fresh_log m)) = None"
    "fst (fresh_log m) (old_path p) = None" "fst (fresh_log m) (index_path (old_path p)) = None"
    "file_at (fst (fresh_log m)) (index_path p) = []"
    by (simp_all add: fresh_log_def idle_sink_def no_files_def create_def file_at_def assms(5) del: bstr_Cons)
  have ne: "list_all (\<lambda>w. snd w \<noteq> []) ws" using assms(2) by (auto simp: list_all_iff)
  obtain fs l where e: "emits (map at_time ws) (fresh_log m) = (fs, l)" "fs p = Some (written_by ws)"
    "file_at fs (index_path p) = concat (map (\<lambda>(a, b). mark_line a b) ?ms)" "fs (old_path p) = None" "fs (index_path (old_path p)) = None"
    using emits_timed[of "snd (fresh_log m)" "fst (fresh_log m)" "[]" ws] f assms(3) ne by auto
  have "list_all mark_ok ?ms" by (rule marks_ok) (use assms in \<open>auto simp: list_all_iff\<close>)
  then have "read_index (\<lambda>_. True) fs (index_path p) = ?ms"
    using index_roundtrip[of ?ms] e(3) by (simp add: read_index_file)
  moreover have "read_index (\<lambda>_. True) fs (index_path (old_path p)) = []" using e(5) by (simp add: read_index_def)
  ultimately show thesis using that e by blast
qed

section \<open>Properties\<close>

text \<open>
  C26. What \<open>logs\<close> shows is the end of what is kept: the newest bytes of the rotated generation and the
  current file together, as many as were asked for, and it says that something was left out exactly
  when something was.
\<close>

theorem tail_is_the_end:
  assumes "fs p = Some cur" "readable p" "readable (old_path p)"
  shows "read_log_tail readable fs p m =
     Inr (if m > 0 then lastn (nat m) (kept_log p fs) else kept_log p fs, m > 0 \<and> m < int (length (kept_log p fs)))"
proof (cases "fs (old_path p)")
  case None
  then have k: "kept_log p fs = cur" by (simp add: kept_log_def file_at_def assms)
  show ?thesis using None by (auto simp: read_log_tail_def tail_file_lastn[of fs p cur readable, OF assms(1,2)] k Let_def tail_file_def[of _ _ "old_path p"] lastn_def)
next
  case (Some prev)
  then have k: "kept_log p fs = prev @ cur" by (simp add: kept_log_def file_at_def assms)
  note t = tail_file_lastn[of fs p cur readable, OF assms(1,2)] tail_file_lastn[of fs "old_path p" prev readable, OF Some assms(3)]
  show ?thesis
  proof (cases "0 < m")
    case False
    then show ?thesis by (simp add: read_log_tail_def t k Let_def)
  next
    case True
    show ?thesis
    proof (cases "int (length cur) < m")
      case less: True
      have "nat (m - int (length cur)) = nat m - length cur" using less by simp
      moreover have "lastn (nat m) cur = cur" using less by simp
      moreover have "lastn (nat m) (prev @ cur) = lastn (nat m - length cur) prev @ cur" using less by (simp add: lastn_append)
      ultimately show ?thesis using True less by (auto simp: read_log_tail_def t k Let_def)
    next
      case False
      then have "lastn (nat m) (prev @ cur) = lastn (nat m) cur" using True by (simp add: lastn_append_long)
      then show ?thesis using True False Some by (auto simp: read_log_tail_def t k Let_def)
    qed
  qed
qed

theorem tail_is_the_end_witness:
  "read_log_tail (\<lambda>_. True) [bstr ''web'' \<mapsto> bstr ''def'', bstr ''web.1'' \<mapsto> bstr ''abc''] (bstr ''web'') 4 =
     Inr (bstr ''cdef'', True)"
proof -
  let ?fs = "[bstr ''web'' \<mapsto> bstr ''def'', bstr ''web.1'' \<mapsto> bstr ''abc'']"
  have "old_path (bstr ''web'') = bstr ''web.1''" by (simp add: old_path_def)
  then have "kept_log (bstr ''web'') ?fs = bstr ''abcdef''" by (simp add: kept_log_def file_at_def)
  then show ?thesis using tail_is_the_end[of ?fs "bstr ''web''" "bstr ''def''" "\<lambda>_. True" 4] by (simp add: lastn_def)
qed

text \<open>
  C20. What \<open>logs -since\<close> shows, for a log written in one generation: the output from some write on, in
  which every write of the second after \<open>since\<close> and later is included, and no write of more than a
  minute before \<open>since\<close> is. The times are recovered from the index the writer left on the disk.
\<close>

theorem since_window:
  assumes "sorted (map fst ws)" "list_all (\<lambda>w. 0 \<le> fst w \<and> fst w \<le> max_int64 \<and> snd w \<noteq> []) ws" "ws \<noteq> []"
    "int (length (written_by ws)) \<le> m" "m \<le> max_int64"
  shows "\<exists>fs l k. emits (map at_time ws) (fresh_log m) = (fs, l) \<and>
     read_log_since_once (\<lambda>_. True) fs (bstr ''web'') since 0 =
       Some (Inr \<lparr>ls_data = written_by (drop k ws), ls_truncated = False, ls_unknown = 0\<rparr>) \<and>
     list_all (early since) (take k ws) \<and> list_all (recent since) (drop k ws)"
proof -
  let ?p = "bstr ''web''"
  let ?ms = "marks_of None 0 ws"
  obtain fs l where e: "emits (map at_time ws) (fresh_log m) = (fs, l)" "fs ?p = Some (written_by ws)" "fs (old_path ?p) = None"
    and r: "read_index (\<lambda>_. True) fs (index_path ?p) = ?ms" "read_index (\<lambda>_. True) fs (index_path (old_path ?p)) = []"
    using written_log[OF assms(1,2,4,5) refl] by blast
  obtain k off found where s: "since_start ?ms since (int (length (written_by ws))) = (off, found)" "k \<le> length ws"
    "if found then off = int (length (written_by (take k ws))) else k = 0" "list_all (early since) (take k ws)" "list_all (recent since) (drop k ws)"
    using since_start_marks[OF assms(1)] by blast
  have split: "written_by ws = written_by (take k ws) @ written_by (drop k ws)"
    by (metis append_take_drop_id concat_append map_append)
  obtain t c rest where ws: "ws = (t, c) # rest" using assms(3) by (cases ws) auto
  have "read_log_since_once (\<lambda>_. True) fs ?p since 0 =
       Some (Inr \<lparr>ls_data = written_by (drop k ws), ls_truncated = False, ls_unknown = 0\<rparr>)"
  proof (cases found)
    case True
    have "subslice (written_by ws) (int (length (written_by (take k ws)))) (int (length (written_by ws))) = Some (written_by (drop k ws))"
      by (subst (1 2) split) (simp add: subslice_def)
    then show ?thesis using r s(1,3) True e(2) marks_some[OF assms(3)]
      by (simp add: read_log_since_once_def Let_def cut_since_def del: bstr_Cons)
  next
    case False
    then have "k = 0" using s(3) by auto
    then show ?thesis using r s(1) False e(2,3)
      by (simp add: read_log_since_once_def file_at_def Let_def cut_since_def ws since_start_def del: bstr_Cons)
  qed
  then show ?thesis using e s by blast
qed

theorem since_window_witness:
  "\<exists>fs l k. emits (map at_time [(5000000000, bstr ''ab''), (200000000000, bstr ''cd'')]) (fresh_log 100) = (fs, l) \<and>
     read_log_since_once (\<lambda>_. True) fs (bstr ''web'') 150 0 =
       Some (Inr \<lparr>ls_data = written_by (drop k [(5000000000, bstr ''ab''), (200000000000, bstr ''cd'')]), ls_truncated = False, ls_unknown = 0\<rparr>) \<and>
     list_all (early 150) (take k [(5000000000, bstr ''ab''), (200000000000, bstr ''cd'')]) \<and>
     list_all (recent 150) (drop k [(5000000000, bstr ''ab''), (200000000000, bstr ''cd'')])"
  by (rule since_window) (simp_all add: max_int64_def)

text \<open>
  A mark keeps the second of its write, and the search takes the minute it covers to begin at that
  second. So a write is left out that was made after \<open>since\<close>: with a mark at 10.9 s and a write at
  70.8 s, \<open>logs -since\<close> second 70 shows nothing, although the comment says that it errs towards more.
\<close>

theorem since_misses_output:
  "\<exists>fs l. emits (map at_time [(10900000000, bstr ''a''), (70800000000, bstr ''b'')]) (fresh_log 100) = (fs, l) \<and>
     read_log_since_once (\<lambda>_. True) fs (bstr ''web'') 70 0 = Some (Inr \<lparr>ls_data = [], ls_truncated = False, ls_unknown = 0\<rparr>)"
proof -
  let ?ws = "[(10900000000, bstr ''a''), (70800000000, bstr ''b'')] :: (int \<times> bytes) list"
  let ?p = "bstr ''web''"
  obtain fs l where e: "emits (map at_time ?ws) (fresh_log 100) = (fs, l)" "fs ?p = Some (written_by ?ws)"
    and r: "read_index (\<lambda>_. True) fs (index_path ?p) = marks_of None 0 ?ws"
  proof (rule written_log[of ?ws 100 ?p])
    show "sorted (map fst ?ws)" "list_all (\<lambda>w. 0 \<le> fst w \<and> fst w \<le> max_int64 \<and> snd w \<noteq> []) ?ws"
      "int (length (written_by ?ws)) \<le> 100" "100 \<le> max_int64" "?p = ?p" by (simp_all add: max_int64_def)
  qed
  have "marks_of None 0 ?ws = [(10, 0)]" by (simp add: nanos_def mark_every_def)
  then have "read_log_since_once (\<lambda>_. True) fs ?p 70 0 = Some (Inr \<lparr>ls_data = [], ls_truncated = False, ls_unknown = 0\<rparr>)"
    using e(2) r by (simp add: read_log_since_once_def since_start_def minute subslice_def cut_since_def Let_def)
  then show ?thesis using e(1) by blast
qed

end
