(* ===== verification/Watchers.thy ===== *)
theory Watchers
  imports Prelude
begin

text \<open>
  \<open>src/internal/fabric/watch.go\<close>: who is waiting to hear that a service's status changed. A channel of
  capacity one is whether it holds a wakeup and whether it was closed; a reader keeps its channel after
  it has stopped watching, so the channels are kept by id and the source's map is the list of ids in it.
\<close>

section \<open>The set of watchers\<close>

record wake_chan =
  ch_full :: bool
  ch_shut :: bool

record watchers =
  wt_chans :: "wake_chan list"
  wt_in :: "nat list"

definition new_watchers :: watchers where
  "new_watchers = \<lparr>wt_chans = [], wt_in = []\<rparr>"

definition watch :: "watchers \<Rightarrow> nat \<times> watchers" where
  "watch w = (length (wt_chans w),
     \<lparr>wt_chans = wt_chans w @ [\<lparr>ch_full = False, ch_shut = False\<rparr>], wt_in = wt_in w @ [length (wt_chans w)]\<rparr>)"

definition set_chan :: "nat \<Rightarrow> wake_chan \<Rightarrow> watchers \<Rightarrow> watchers" where
  "set_chan i c w = w\<lparr>wt_chans := (wt_chans w)[i := c]\<rparr>"

definition unwatch :: "nat \<Rightarrow> watchers \<Rightarrow> watchers" where
  "unwatch i w =
     (if i \<in> set (wt_in w) then set_chan i ((wt_chans w ! i)\<lparr>ch_shut := True\<rparr>) (w\<lparr>wt_in := removeAll i (wt_in w)\<rparr>) else w)"

text \<open>A send to a channel of one that does not block: a wakeup already there stands for this one too.\<close>

definition notify :: "watchers \<Rightarrow> watchers" where
  "notify w = fold (\<lambda>i v. set_chan i ((wt_chans v ! i)\<lparr>ch_full := True\<rparr>) v) (wt_in w) w"

text \<open>What a reader gets: a wakeup, or that the channel is closed; \<open>None\<close> is waiting.\<close>

definition wake :: "nat \<Rightarrow> watchers \<Rightarrow> (bool \<times> watchers) option" where
  "wake i w =
     (let c = wt_chans w ! i in
      if ch_full c then Some (True, set_chan i (c\<lparr>ch_full := False\<rparr>) w)
      else if ch_shut c then Some (False, w) else None)"

definition watcher_count :: "watchers \<Rightarrow> nat" where
  "watcher_count w = length (wt_in w)"

section \<open>A status and those who follow it\<close>

text \<open>
  \<open>setStatus\<close> stores the status and only then, with the lock released, tells the watchers; several may
  be between the two, \<open>wd_due\<close> of them. A watcher registers, reads the status, waits to be woken, and
  reads again; \<open>None\<close> is about to read.
\<close>

record 'a watched =
  wd_now :: 'a
  wd_due :: nat
  wd_set :: watchers
  wd_read :: "'a option list"

datatype 'a wevent = Change 'a | Tell | Register | Look nat | Wake nat | Leave nat

fun wd_step :: "'a wevent \<Rightarrow> 'a watched \<Rightarrow> 'a watched option" where
  "wd_step (Change x) w = Some (w\<lparr>wd_now := x, wd_due := wd_due w + 1\<rparr>)"
| "wd_step Tell w = (if wd_due w = 0 then None else Some (w\<lparr>wd_due := wd_due w - 1, wd_set := notify (wd_set w)\<rparr>))"
| "wd_step Register w = Some (w\<lparr>wd_set := snd (watch (wd_set w)), wd_read := wd_read w @ [None]\<rparr>)"
| "wd_step (Look i) w =
     (if i < length (wd_read w) \<and> wd_read w ! i = None then Some (w\<lparr>wd_read := (wd_read w)[i := Some (wd_now w)]\<rparr>) else None)"
| "wd_step (Wake i) w =
     (if i < length (wd_read w) \<and> wd_read w ! i \<noteq> None then
        (case wake i (wd_set w) of
           Some (True, ws) \<Rightarrow> Some (w\<lparr>wd_set := ws, wd_read := (wd_read w)[i := None]\<rparr>)
         | _ \<Rightarrow> None)
      else None)"
| "wd_step (Leave i) w = (if i < length (wd_read w) then Some (w\<lparr>wd_set := unwatch i (wd_set w)\<rparr>) else None)"

inductive wd_reach :: "'a watched \<Rightarrow> bool" where
  begins: "wd_reach \<lparr>wd_now = x, wd_due = 0, wd_set = new_watchers, wd_read = []\<rparr>"
| steps: "wd_reach w \<Longrightarrow> wd_step e w = Some w' \<Longrightarrow> wd_reach w'"

definition wd_ok :: "'a watched \<Rightarrow> bool" where
  "wd_ok w \<longleftrightarrow>
     length (wt_chans (wd_set w)) = length (wd_read w) \<and>
     (\<forall>i \<in> set (wt_in (wd_set w)). i < length (wd_read w) \<and>
        (wd_due w = 0 \<and> \<not> ch_full (wt_chans (wd_set w) ! i) \<longrightarrow> wd_read w ! i = None \<or> wd_read w ! i = Some (wd_now w)))"

lemma fold_fill:
  "wt_in (fold (\<lambda>i v. set_chan i ((wt_chans v ! i)\<lparr>ch_full := True\<rparr>) v) is w) = wt_in w"
  "length (wt_chans (fold (\<lambda>i v. set_chan i ((wt_chans v ! i)\<lparr>ch_full := True\<rparr>) v) is w)) = length (wt_chans w)"
  "j < length (wt_chans w) \<Longrightarrow>
     wt_chans (fold (\<lambda>i v. set_chan i ((wt_chans v ! i)\<lparr>ch_full := True\<rparr>) v) is w) ! j =
       (if j \<in> set is then (wt_chans w ! j)\<lparr>ch_full := True\<rparr> else wt_chans w ! j)"
proof (induction "is" arbitrary: w)
  case (Cons i rest)
  {
    case 1 show ?case using Cons(1) by (simp add: set_chan_def)
  next
    case 2 show ?case using Cons(2) by (simp add: set_chan_def)
  next
    case 3 then show ?case using Cons(3)[of "set_chan i ((wt_chans w ! i)\<lparr>ch_full := True\<rparr>) w"]
      by (cases "j = i") (auto simp: set_chan_def)
  }
qed simp_all

lemma wd_step_ok:
  assumes "wd_ok w" "wd_step e w = Some w'"
  shows "wd_ok w'"
  using assms
proof (cases e)
  case Tell
  then show ?thesis using assms by (auto simp: wd_ok_def notify_def fold_fill split: if_split_asm)
next
  case Register
  then show ?thesis using assms by (fastforce simp: wd_ok_def watch_def nth_append)
next
  case (Wake i)
  then show ?thesis using assms
    by (auto simp: wd_ok_def wake_def Let_def set_chan_def nth_list_update split: if_split_asm)
next
  case (Leave i)
  then show ?thesis using assms by (auto simp: wd_ok_def unwatch_def set_chan_def nth_list_update split: if_split_asm)
qed (auto simp: wd_ok_def nth_list_update split: if_split_asm)

lemma wd_reach_ok: "wd_reach w \<Longrightarrow> wd_ok w"
proof (induction rule: wd_reach.induct)
  case (begins x)
  then show ?case by (simp add: wd_ok_def new_watchers_def)
qed (rule wd_step_ok)

section \<open>Properties\<close>

text \<open>
  C37. No wakeup is lost, however changes, tellings and watchers interleave: a watcher that is still
  registered and waits having read something other than the present status will be woken - a wakeup is
  in its channel, or somebody who changed the status has yet to tell.
\<close>

theorem no_lost_wakeup:
  assumes "wd_reach w" "i \<in> set (wt_in (wd_set w))" "wd_read w ! i = Some x" "x \<noteq> wd_now w"
  shows "(\<exists>ws. wake i (wd_set w) = Some (True, ws)) \<or> (\<exists>w'. wd_step Tell w = Some w' \<and> (\<exists>ws. wake i (wd_set w') = Some (True, ws)))"
proof (cases "ch_full (wt_chans (wd_set w) ! i)")
  case True
  then show ?thesis by (simp add: wake_def)
next
  case False
  then have "0 < wd_due w" "i < length (wt_chans (wd_set w))" using wd_reach_ok[OF assms(1)] assms(2-4) by (auto simp: wd_ok_def)
  then show ?thesis using assms(2) by (simp add: wake_def notify_def fold_fill)
qed

theorem no_lost_wakeup_witness:
  "\<exists>w. wd_reach w \<and> wd_now w = (2::nat) \<and>
     ((\<exists>ws. wake 0 (wd_set w) = Some (True, ws)) \<or> (\<exists>w'. wd_step Tell w = Some w' \<and> (\<exists>ws. wake 0 (wd_set w') = Some (True, ws))))"
proof -
  let ?w0 = "\<lparr>wd_now = 1::nat, wd_due = 0, wd_set = new_watchers, wd_read = []\<rparr>"
  obtain w1 where w1: "wd_step Register ?w0 = Some w1" by simp
  obtain w2 where w2: "wd_step (Look 0) w1 = Some w2" using w1 by auto
  obtain w3 where w3: "wd_step (Change 2) w2 = Some w3" by simp
  have r: "wd_reach w3" by (rule wd_reach.steps[OF wd_reach.steps[OF wd_reach.steps[OF wd_reach.begins w1] w2] w3])
  have "wd_now w3 = 2" "wd_read w3 ! 0 = Some 1" "0 \<in> set (wt_in (wd_set w3))"
    using w1 w2 w3 by (auto simp: watch_def new_watchers_def)
  then have "(\<exists>ws. wake 0 (wd_set w3) = Some (True, ws)) \<or> (\<exists>w'. wd_step Tell w3 = Some w' \<and> (\<exists>ws. wake 0 (wd_set w') = Some (True, ws)))"
    by (intro no_lost_wakeup[OF r, of 0 1]) simp_all
  then show ?thesis using r \<open>wd_now w3 = 2\<close> by blast
qed

end
