(* ===== verification/Services.thy ===== *)
theory Services
  imports Restart "HOL-Library.AList" "HOL-Library.List_Lexorder"
begin

text \<open>
  \<open>src/internal/fabric/service.go\<close>: service definitions, the rule for their names, and the registry
  that keeps one file per service. A file is what decoding its JSON gives: a definition, or the
  complaint. What the file system refuses is an argument of each operation.
\<close>

section \<open>Definitions and their names\<close>

record service =
  sv_name :: bytes
  sv_command :: bytes
  sv_args :: "bytes list"
  sv_dir :: bytes
  sv_env :: "bytes list"
  sv_restart :: restart_policy
  sv_enabled :: bool
  sv_no_log :: bool
  sv_close_on_exit :: bool
  sv_auto_name :: bool
  sv_order :: int
  sv_created :: "int option"

datatype write_stage = Encoding | Creating | Writing | Syncing | Closing | Chmodding | Installing

datatype service_error =
    EmptyName
  | BadName bytes
  | NoCommand bytes
  | BadEnv bytes bytes
  | ServiceExists bytes
  | CheckFailed bytes
  | WriteFailed write_stage bytes
  | NoSuchService bytes
  | ReadServiceFailed bytes
  | BadFile bytes bytes
  | RemoveFailed bytes
  | NoRegistry

definition name_start :: "byte \<Rightarrow> bool" where
  "name_start c \<longleftrightarrow> 0x61 \<le> c \<and> c \<le> 0x7a \<or> 0x30 \<le> c \<and> c \<le> 0x39"

definition name_byte :: "byte \<Rightarrow> bool" where
  "name_byte c \<longleftrightarrow> name_start c \<or> c = 0x5f \<or> c = 0x2d"

definition service_name_pattern :: "bytes \<Rightarrow> bool" where
  "service_name_pattern s =
     (case s of [] \<Rightarrow> False | c # cs \<Rightarrow> name_start c \<and> list_all name_byte cs \<and> length cs \<le> 63)"

definition valid_service_name :: "bytes \<Rightarrow> service_error option" where
  "valid_service_name name =
     (if name = [] then Some EmptyName
      else if \<not> service_name_pattern name then Some (BadName name)
      else None)"

definition validate :: "service \<Rightarrow> service_error option" where
  "validate s =
     (case valid_service_name (sv_name s) of
        Some e \<Rightarrow> Some e
      | None \<Rightarrow>
          if trim_space (sv_command s) = [] then Some (NoCommand (sv_name s))
          else map_option (BadEnv (sv_name s)) (find (\<lambda>e. 0x3d \<notin> set e) (sv_env s)))"

section \<open>The registry\<close>

text \<open>The directory: for each \<open>.json\<close> file its name without the suffix, and what it decodes to.\<close>

type_synonym registry = "(bytes \<times> (bytes + service)) list"

definition created :: "int \<Rightarrow> service \<Rightarrow> service" where
  "created now s = (if sv_created s = None then s\<lparr>sv_created := Some now\<rparr> else s)"

text \<open>\<open>write\<close> goes through a temporary file: whatever stage fails, the directory is as it was.\<close>

definition reg_write :: "write_stage option \<Rightarrow> service \<Rightarrow> registry \<Rightarrow> service_error option \<times> registry" where
  "reg_write fault s r =
     (case fault of
        Some f \<Rightarrow> (Some (WriteFailed f (sv_name s)), r)
      | None \<Rightarrow> (None, AList.update (sv_name s) (Inr s) r))"

definition reg_add :: "int \<Rightarrow> bool \<Rightarrow> write_stage option \<Rightarrow> service \<Rightarrow> registry \<Rightarrow> service_error option \<times> registry" where
  "reg_add now stat_ok fault s r =
     (case validate s of
        Some e \<Rightarrow> (Some e, r)
      | None \<Rightarrow>
          (let s1 = created now s in
           if \<not> stat_ok then (Some (CheckFailed (sv_name s)), r)
           else if map_of r (sv_name s) \<noteq> None then (Some (ServiceExists (sv_name s)), r)
           else reg_write fault s1 r))"

definition reg_put :: "int \<Rightarrow> write_stage option \<Rightarrow> service \<Rightarrow> registry \<Rightarrow> service_error option \<times> registry" where
  "reg_put now fault s r =
     (case validate s of Some e \<Rightarrow> (Some e, r) | None \<Rightarrow> reg_write fault (created now s) r)"

definition reg_get :: "bool \<Rightarrow> bytes \<Rightarrow> registry \<Rightarrow> service_error + service" where
  "reg_get readable name r =
     (case valid_service_name name of
        Some e \<Rightarrow> Inl e
      | None \<Rightarrow>
          if \<not> readable then Inl (ReadServiceFailed name)
          else case map_of r name of
            None \<Rightarrow> Inl (NoSuchService name)
          | Some (Inl why) \<Rightarrow> Inl (BadFile name why)
          | Some (Inr s) \<Rightarrow> Inr s)"

definition reg_remove :: "bool \<Rightarrow> bytes \<Rightarrow> registry \<Rightarrow> service_error option \<times> registry" where
  "reg_remove removable name r =
     (case valid_service_name name of
        Some e \<Rightarrow> (Some e, r)
      | None \<Rightarrow>
          if map_of r name = None then (Some (NoSuchService name), r)
          else if \<not> removable then (Some (RemoveFailed name), r)
          else (None, AList.delete name r))"

text \<open>
  \<open>List\<close>: the entries in the order of their file names, hidden files left out. \<open>sort.Slice\<close> leaves
  open in which order definitions of one name come; the model keeps the order of the files.
\<close>

definition dir_names :: "registry \<Rightarrow> bytes list" where
  "dir_names r = filter (\<lambda>n. n \<noteq> [] \<and> hd n \<noteq> 0x2e) (sort_key (\<lambda>n. n @ bstr ''.json'') (remdups (map fst r)))"

definition reg_list :: "bool \<Rightarrow> (bytes \<Rightarrow> bool) \<Rightarrow> registry \<Rightarrow> service list \<times> service_error list" where
  "reg_list dir_ok readable r =
     (if \<not> dir_ok then ([], [NoRegistry])
      else let got = map (\<lambda>n. reg_get (readable n) n r) (dir_names r) in
        (sort_key sv_name (List.map_filter (\<lambda>x. case x of Inr s \<Rightarrow> Some s | Inl e \<Rightarrow> None) got),
         List.map_filter (\<lambda>x. case x of Inl e \<Rightarrow> Some e | Inr s \<Rightarrow> None) got))"

section \<open>What a name promises\<close>

lemma valid_name: "valid_service_name n = None \<longleftrightarrow> service_name_pattern n"
  by (auto simp: valid_service_name_def service_name_pattern_def)

lemma valid_name_bytes:
  assumes "service_name_pattern n"
  shows "list_all name_byte n" "0 < length n" "length n \<le> 64" "n \<noteq> []" "name_start (hd n)"
  using assms by (auto simp: service_name_pattern_def name_byte_def split: list.split_asm)

lemma name_byte_plain:
  assumes "name_byte c"
  shows "c \<noteq> 0x2e" "c \<noteq> 0x2f" "c \<noteq> 0x3a" "c \<noteq> 0x0a" "c \<noteq> 0" "0x20 \<le> c" "c < 0x80"
  using assms by (auto simp: name_byte_def name_start_def word_le_nat_alt word_less_nat_alt)

section \<open>The registry as a store\<close>

text \<open>
  What the fabric relies on: a store of definitions by name, in which one is put and one is dropped.
  An operation that fails changes nothing.
\<close>

locale service_store =
  fixes look :: "'r \<Rightarrow> bytes \<Rightarrow> service option"
    and stamp :: "service \<Rightarrow> service"
    and put :: "service \<Rightarrow> 'r \<Rightarrow> bool \<times> 'r"
    and drop_def :: "bytes \<Rightarrow> 'r \<Rightarrow> bool \<times> 'r"
  assumes look_put: "put s r = (True, r') \<Longrightarrow> look r' n = (if n = sv_name s then Some (stamp s) else look r n)"
    and put_failed: "put s r = (False, r') \<Longrightarrow> r' = r"
    and look_drop: "drop_def m r = (True, r') \<Longrightarrow> look r' n = (if n = m then None else look r n)"
    and drop_failed: "drop_def m r = (False, r') \<Longrightarrow> r' = r"
begin

lemma moved:
  assumes "put s r = (True, r1)" "drop_def old r1 = (True, r2)" "old \<noteq> sv_name s"
  shows "look r2 n = (if n = old then None else if n = sv_name s then Some (stamp s) else look r n)"
  using look_put[OF assms(1)] look_drop[OF assms(2)] assms(3) by simp

lemma unmoved:
  assumes "put s r = (True, r1)" "drop_def old r1 = (False, r2)" "drop_def (sv_name s) r2 = (True, r3)" "look r (sv_name s) = None"
  shows "look r3 n = look r n"
  using look_put[OF assms(1)] drop_failed[OF assms(2)] look_drop[OF assms(3)] assms(4) by auto

lemma put_keeps_others: "put s r = (b, r') \<Longrightarrow> n \<noteq> sv_name s \<Longrightarrow> look r' n = look r n"
  by (metis (full_types) look_put put_failed)

lemma drop_keeps_others: "drop_def m r = (b, r') \<Longrightarrow> n \<noteq> m \<Longrightarrow> look r' n = look r n"
  by (metis (full_types) look_drop drop_failed)

end

definition reg_look :: "registry \<Rightarrow> bytes \<Rightarrow> service option" where
  "reg_look r n = (case map_of r n of Some (Inr s) \<Rightarrow> Some s | _ \<Rightarrow> None)"

definition succeeds :: "service_error option \<times> registry \<Rightarrow> bool \<times> registry" where
  "succeeds x = (fst x = None, snd x)"

lemma reg_get_look: "valid_service_name n = None \<Longrightarrow> reg_get True n r = Inr s \<longleftrightarrow> reg_look r n = Some s"
  by (auto simp: reg_get_def reg_look_def split: option.split sum.split)

lemma reg_get_found: "reg_get ok n r = Inr s \<Longrightarrow> reg_look r n = Some s \<and> valid_service_name n = None"
  by (auto simp: reg_get_def reg_look_def split: option.split_asm sum.split_asm if_split_asm)

lemma reg_look_update: "reg_look (AList.update m (Inr s) r) n = (if n = m then Some s else reg_look r n)"
  by (simp add: reg_look_def update_conv')

lemma reg_look_delete: "reg_look (AList.delete m r) n = (if n = m then None else reg_look r n)"
  by (simp add: reg_look_def delete_conv')

lemma validate_name: "validate s = None \<Longrightarrow> valid_service_name (sv_name s) = None"
  by (auto simp: validate_def split: option.split_asm)

lemma created_simps [simp]: "sv_name (created now s) = sv_name s" "sv_enabled (created now s) = sv_enabled s"
  "sv_restart (created now s) = sv_restart s" "sv_created (created now s) \<noteq> None"
  "sv_created s \<noteq> None \<Longrightarrow> created now s = s"
  by (auto simp: created_def)

lemma validate_created [simp]: "validate (created now s) = validate s"
  by (cases "sv_created s") (simp_all add: validate_def created_def cong: option.case_cong)

lemmas registry_ops = succeeds_def reg_put_def reg_add_def reg_write_def reg_remove_def reg_look_update reg_look_delete

text \<open>Both ways to write a definition provide the interface.\<close>

interpretation reg_putting: service_store reg_look "created now" "\<lambda>s r. succeeds (reg_put now fault s r)"
    "\<lambda>n r. succeeds (reg_remove ok n r)" for now fault ok
  by unfold_locales (auto simp: registry_ops split: option.split_asm if_split_asm)

interpretation reg_adding: service_store reg_look "created now" "\<lambda>s r. succeeds (reg_add now stat_ok fault s r)"
    "\<lambda>n r. succeeds (reg_remove ok n r)" for now stat_ok fault ok
  by unfold_locales (auto simp: registry_ops Let_def split: option.split_asm if_split_asm)

section \<open>Listing\<close>

lemma partition_sums:
  "length (List.map_filter (\<lambda>x. case x of Inr s \<Rightarrow> Some s | Inl e \<Rightarrow> None) xs) +
   length (List.map_filter (\<lambda>x. case x of Inl e \<Rightarrow> Some e | Inr s \<Rightarrow> None) xs) = length xs"
  by (induction xs) (auto simp: map_filter_simps split: sum.split)

lemma map_filter_members:
  "s \<in> set (List.map_filter (\<lambda>x. case x of Inr s \<Rightarrow> Some s | Inl e \<Rightarrow> None) xs) \<longleftrightarrow> Inr s \<in> set xs"
  "e \<in> set (List.map_filter (\<lambda>x. case x of Inl e \<Rightarrow> Some e | Inr s \<Rightarrow> None) xs) \<longleftrightarrow> Inl e \<in> set xs"
  by (induction xs) (auto simp: map_filter_simps split: sum.split)

lemma dir_names_set: "set (dir_names r) = {n \<in> fst ` set r. n \<noteq> [] \<and> hd n \<noteq> 0x2e}"
  by (auto simp: dir_names_def)

lemma dir_names_distinct: "distinct (dir_names r)"
  by (simp add: dir_names_def)

section \<open>Properties\<close>

text \<open>
  The registry is a map from names to definitions with refusals: adding succeeds exactly for a
  valid definition under a free name, and then the name gives back what was added; whatever fails -
  the definition, the name, any stage of writing the file - leaves every name as it was.
\<close>

theorem registry_add:
  "reg_add now stat_ok fault s r = (e, r') \<Longrightarrow>
     (e = None \<longleftrightarrow> validate s = None \<and> stat_ok \<and> fault = None \<and> map_of r (sv_name s) = None) \<and>
     (e = None \<longrightarrow> reg_get True (sv_name s) r' = Inr (created now s) \<and>
        (\<forall>n. n \<noteq> sv_name s \<longrightarrow> reg_get True n r' = reg_get True n r)) \<and>
     (e \<noteq> None \<longrightarrow> r' = r)"
  by (cases "validate s"; cases stat_ok; cases fault; cases "map_of r (sv_name s)")
    (auto simp: reg_add_def reg_write_def Let_def reg_get_def validate_name update_conv' split: option.splits
       intro: exI[where P = "\<lambda>y. validate s = Some y", OF sym])

theorem registry_add_witness:
  "reg_get True (bstr ''web'') (snd (reg_add 5 True None \<lparr>sv_name = bstr ''web'', sv_command = bstr ''ls'', sv_args = [],
     sv_dir = [], sv_env = [], sv_restart = RestartNo, sv_enabled = True, sv_no_log = False, sv_close_on_exit = False,
     sv_auto_name = False, sv_order = 0, sv_created = None\<rparr> [])) =
   Inr \<lparr>sv_name = bstr ''web'', sv_command = bstr ''ls'', sv_args = [],
     sv_dir = [], sv_env = [], sv_restart = RestartNo, sv_enabled = True, sv_no_log = False, sv_close_on_exit = False,
     sv_auto_name = False, sv_order = 0, sv_created = Some 5\<rparr>"
proof -
  let ?s = "\<lparr>sv_name = bstr ''web'', sv_command = bstr ''ls'', sv_args = [],
     sv_dir = [], sv_env = [], sv_restart = RestartNo, sv_enabled = True, sv_no_log = False, sv_close_on_exit = False,
     sv_auto_name = False, sv_order = 0, sv_created = None\<rparr>"
  have v: "validate ?s = None" by code_simp
  obtain e r' where a: "reg_add 5 True None ?s [] = (e, r')" by fastforce
  from registry_add[OF a] show ?thesis using v a by (simp add: created_def)
qed

text \<open>
  Listing hides nothing: every file that is not hidden is either among the definitions or among the
  complaints, never both, and the definitions come in the order of their names.
\<close>

theorem list_hides_nothing:
  "sorted (map sv_name (fst (reg_list True readable r))) \<and>
   length (fst (reg_list True readable r)) + length (snd (reg_list True readable r)) = length (dir_names r) \<and>
   (\<forall>n \<in> fst ` set r. n \<noteq> [] \<and> hd n \<noteq> 0x2e \<longrightarrow>
      (case reg_get (readable n) n r of Inr s \<Rightarrow> s \<in> set (fst (reg_list True readable r))
                                      | Inl e \<Rightarrow> e \<in> set (snd (reg_list True readable r))))"
  by (auto simp: reg_list_def Let_def partition_sums map_filter_members dir_names_set split: sum.split
     intro: rev_image_eqI)

text \<open>The hypotheses are the bounds of the quantifier: a directory with a good and a garbled file.\<close>

theorem list_hides_nothing_witness:
  "BadFile (bstr ''db'') (bstr ''eof'') \<in> set (snd (reg_list True (\<lambda>_. True) [(bstr ''db'', Inl (bstr ''eof''))]))"
proof -
  have "reg_get True (bstr ''db'') [(bstr ''db'', Inl (bstr ''eof''))] = Inl (BadFile (bstr ''db'') (bstr ''eof''))"
    by (simp add: reg_get_def valid_service_name_def service_name_pattern_def name_byte_def name_start_def)
  then show ?thesis
    using list_hides_nothing[of "\<lambda>_. True" "[(bstr ''db'', Inl (bstr ''eof''))]"] by simp
qed

end
