(* ===== verification/Supervisor.thy ===== *)
theory Supervisor
  imports Services LogFile
begin

text \<open>
  \<open>src/internal/fabric/supervisor.go\<close>: what one service is doing, and the loop that keeps it running.
  The loop runs beside whoever starts, stops, renames or redefines the service, so it is a machine
  whose position is a value and whose steps are the stretches between two looks at shared state. What
  the world answers - a process or a refusal, how a process ended, the clock - is the record \<open>loop_env\<close>.
\<close>

section \<open>States and snapshots\<close>

datatype state = StateStopped | StateRunning | StateBackingOff | StateFailed | StateExited | StateOther int

definition state_string :: "state \<Rightarrow> bytes" where
  "state_string s =
     (case s of
        StateStopped \<Rightarrow> bstr ''stopped''
      | StateRunning \<Rightarrow> bstr ''running''
      | StateBackingOff \<Rightarrow> bstr ''backing-off''
      | StateFailed \<Rightarrow> bstr ''failed''
      | StateExited \<Rightarrow> bstr ''exited''
      | StateOther n \<Rightarrow> bstr ''State('' @ itoa n @ bstr '')'')"

record status =
  st_service :: bytes
  st_state :: state
  st_pid :: int
  st_started_at :: "int option"
  st_restarts :: int
  st_total_starts :: int
  st_last_exit :: exit_status
  st_has_exited :: bool
  st_next_restart :: "int option"
  st_started :: bool
  st_ended :: bool
  st_log_error :: bytes
  st_last_error :: bytes

definition new_status :: "bytes \<Rightarrow> status" where
  "new_status name =
     \<lparr>st_service = name, st_state = StateStopped, st_pid = 0, st_started_at = None, st_restarts = 0, st_total_starts = 0,
      st_last_exit = \<lparr>code = 0, signal = []\<rparr>, st_has_exited = False, st_next_restart = None, st_started = False,
      st_ended = False, st_log_error = [], st_last_error = []\<rparr>"

definition status_running :: "status \<Rightarrow> bool" where
  "status_running st \<longleftrightarrow> st_state st = StateRunning"

definition status_live :: "status \<Rightarrow> bool" where
  "status_live st \<longleftrightarrow> st_started st \<and> \<not> st_ended st"

definition status_finished :: "status \<Rightarrow> bool" where
  "status_finished st \<longleftrightarrow> st_ended st"

section \<open>The supervisor\<close>

record proc =
  pr_pid :: int
  pr_started :: int

text \<open>Where the loop stands; the positions follow the statements of \<open>run\<close> and \<open>waitBackoff\<close>.\<close>

datatype loop_pc =
    LIdle
  | LTop
  | LTake
  | LSpawn
  | LRefused
  | LRetry int int
  | LGot proc
  | LName proc
  | LFile proc bytes
  | LUp proc
  | LWait proc
  | LDead proc exit_status int
  | LDrop proc bytes exit_status int
  | LDecide exit_status int
  | LPublish exit_status state int int
  | LAnnounce int int
  | LSleep int
  | LEnd
  | LEnded
  | LDone

text \<open>
  The output buffer and the watchers are shared with the supervisor that comes after this one, so they
  are references: the same number is the same object. \<open>su_cancelled\<close> is the cancel of this loop alone.
\<close>

record supervisor =
  su_svc :: service
  su_out :: nat
  su_watchers :: nat
  su_status :: status
  su_cur :: "proc option"
  su_tracker :: restart_tracker
  su_cancelled :: bool
  su_started :: bool
  su_adopted :: "proc option"
  su_pc :: loop_pc

definition new_supervisor :: "service \<Rightarrow> nat \<Rightarrow> nat \<Rightarrow> supervisor" where
  "new_supervisor s out ws =
     \<lparr>su_svc = s, su_out = out, su_watchers = ws, su_status = new_status (sv_name s), su_cur = None,
      su_tracker = fresh_tracker, su_cancelled = False, su_started = False, su_adopted = None, su_pc = LIdle\<rparr>"

text \<open>The directory is taken as \<open>filepath.Join\<close> would leave it.\<close>

definition log_path :: "bytes \<Rightarrow> bytes \<Rightarrow> bytes" where
  "log_path dir name = dir @ [0x2f] @ name @ bstr ''.log''"

definition attach_log_sink :: "bytes \<Rightarrow> service \<Rightarrow> (bytes \<Rightarrow> 's outbuf \<Rightarrow> bytes + 's outbuf) \<Rightarrow> 's outbuf \<Rightarrow> 's outbuf" where
  "attach_log_sink log_dir s new_sink out =
     (if log_dir = [] then out
      else if sv_no_log s then out
      else case new_sink (log_path log_dir (sv_name s)) out of
        Inl err \<Rightarrow> set_sink_error err out
      | Inr out1 \<Rightarrow> out1)"

definition adopt_running :: "proc \<Rightarrow> supervisor \<Rightarrow> supervisor" where
  "adopt_running p s = s\<lparr>su_adopted := Some p\<rparr>"

definition redefine :: "service \<Rightarrow> supervisor \<Rightarrow> supervisor" where
  "redefine def s = s\<lparr>su_svc := def\<lparr>sv_name := sv_name (su_svc s)\<rparr>\<rparr>"

definition set_status :: "(status \<Rightarrow> status) \<Rightarrow> supervisor \<Rightarrow> supervisor" where
  "set_status f s = s\<lparr>su_status := f (su_status s)\<rparr>"

definition sup_rename :: "bytes \<Rightarrow> supervisor \<Rightarrow> proc option \<times> supervisor" where
  "sup_rename to s =
     (su_cur s, set_status (\<lambda>st. st\<lparr>st_service := to\<rparr>) (s\<lparr>su_svc := (su_svc s)\<lparr>sv_name := to\<rparr>\<rparr>))"

text \<open>\<open>Status\<close>: the log's error is read from the buffer.\<close>

definition sup_status :: "bytes \<Rightarrow> supervisor \<Rightarrow> status" where
  "sup_status log_err s = (su_status s)\<lparr>st_log_error := log_err\<rparr>"

text \<open>\<open>Start\<close>: refused if it up before; otherwise the loop is launched.\<close>

definition sup_start :: "supervisor \<Rightarrow> bool \<times> supervisor" where
  "sup_start s =
     (if su_started s then (False, s)
      else (True, set_status (\<lambda>st. st\<lparr>st_started := True\<rparr>) (s\<lparr>su_started := True, su_pc := LTop\<rparr>)))"

text \<open>\<open>Stop\<close> cancels the loop, if there is one, and waits until it is done.\<close>

definition sup_cancel :: "supervisor \<Rightarrow> supervisor" where
  "sup_cancel s = (if su_started s then s\<lparr>su_cancelled := True\<rparr> else s)"

definition sup_stopped :: "supervisor \<Rightarrow> bool" where
  "sup_stopped s \<longleftrightarrow> \<not> su_started s \<or> su_pc s = LDone"

definition next_backoff :: "int \<Rightarrow> supervisor \<Rightarrow> int \<times> int \<times> supervisor" where
  "next_backoff up s =
     (let (d, t) = died up (su_tracker s) in (d, restarts t, s\<lparr>su_tracker := t\<rparr>))"

section \<open>The loop\<close>

record loop_env =
  en_now :: int
  en_spawn :: "bytes + proc"
  en_pty :: bool
  en_exit :: "(exit_status \<times> int) option"
  en_write :: "bytes option"
  en_timer :: bool

text \<open>
  What a step does outside the supervisor: wake the watchers, call the hooks - with the terminal, if it
  is still open - and write to the buffer.
\<close>

datatype effect = Notify | OnRunning bytes int bool | OnEnded bytes int | Say bytes

text \<open>The delay as \<open>time.Duration\<close> prints it: the tracker gives whole seconds, at most thirty.\<close>

definition restart_line :: "bytes \<Rightarrow> int \<Rightarrow> int \<Rightarrow> bytes" where
  "restart_line name d n =
     [0x0d, 0x0a] @ bstr ''[gozellij] '' @ name @ bstr '' restarting in '' @ itoa (d div second) @ bstr ''s (restart '' @
     itoa n @ bstr '')'' @ [0x0d, 0x0a]"

definition goto :: "loop_pc \<Rightarrow> supervisor \<Rightarrow> supervisor" where
  "goto pc s = s\<lparr>su_pc := pc\<rparr>"

definition publish :: "(status \<Rightarrow> status) \<Rightarrow> loop_pc \<Rightarrow> supervisor \<Rightarrow> (supervisor \<times> effect list) option" where
  "publish f pc s = Some (goto pc (set_status f s), [Notify])"

definition buffer_gone :: "bytes \<Rightarrow> bytes" where
  "buffer_gone err = bstr ''cannot write to this service's output buffer ('' @ err @
     bstr ''); not restarting, because nothing would be able to see it''"

fun loop_step :: "loop_env \<Rightarrow> bool \<Rightarrow> loop_pc \<Rightarrow> supervisor \<Rightarrow> (supervisor \<times> effect list) option" where
  "loop_step e gone LIdle s = None"
| "loop_step e gone LTop s =
     (if gone then publish (\<lambda>st. st\<lparr>st_state := StateStopped, st_pid := 0, st_started_at := None\<rparr>) LEnd s
      else Some (goto LTake s, []))"
| "loop_step e gone LTake s =
     Some (goto (case su_adopted s of None \<Rightarrow> LSpawn | Some p \<Rightarrow> LGot p) (s\<lparr>su_adopted := None\<rparr>), [])"
| "loop_step e gone LSpawn s =
     (case en_spawn e of
        Inl err \<Rightarrow> publish (\<lambda>st. st\<lparr>st_last_error := err, st_pid := 0, st_started_at := None\<rparr>) LRefused s
      | Inr p \<Rightarrow> Some (goto (LGot p) s, []))"
| "loop_step e gone LRefused s =
     (if sv_restart (su_svc s) \<noteq> RestartAlways then publish (\<lambda>st. st\<lparr>st_state := StateFailed\<rparr>) LEnd s
      else case next_backoff 0 s of (d, n, s1) \<Rightarrow> Some (goto (LRetry d n) s1, []))"
| "loop_step e gone (LRetry d n) s =
     publish (\<lambda>st. st\<lparr>st_state := StateBackingOff, st_restarts := n, st_next_restart := Some (en_now e + d)\<rparr>) (LAnnounce d n) s"
| "loop_step e gone (LGot p) s = Some (goto (LName p) (s\<lparr>su_cur := Some p\<rparr>), [])"
| "loop_step e gone (LName p) s = Some (goto (LFile p (sv_name (su_svc s))) s, [])"
| "loop_step e gone (LFile p name) s = Some (goto (LUp p) s, [OnRunning name (pr_pid p) (en_pty e)])"
| "loop_step e gone (LUp p) s =
     publish (\<lambda>st. st\<lparr>st_state := StateRunning, st_pid := pr_pid p, st_started_at := Some (pr_started p),
       st_total_starts := st_total_starts st + 1, st_last_error := [], st_next_restart := None\<rparr>) (LWait p) s"
| "loop_step e gone (LWait p) s =
     (case en_exit e of None \<Rightarrow> None | Some (ex, up) \<Rightarrow> Some (goto (LDead p ex up) s, []))"
| "loop_step e gone (LDead p ex up) s =
     Some (goto (LDrop p (sv_name (su_svc s)) ex up) (s\<lparr>su_cur := None\<rparr>), [])"
| "loop_step e gone (LDrop p name ex up) s = Some (goto (LDecide ex up) s, [OnEnded name (pr_pid p)])"
| "loop_step e gone (LDecide ex up) s =
     (if gone then Some (goto (LPublish ex StateStopped 0 0) s, [])
      else if \<not> should_restart (sv_restart (su_svc s)) ex
        then Some (goto (LPublish ex (if exit_clean ex then StateExited else StateFailed) 0 0) s, [])
      else case next_backoff up s of (d, n, s1) \<Rightarrow> Some (goto (LPublish ex StateBackingOff d n) s1, []))"
| "loop_step e gone (LPublish ex nx d n) s =
     publish (\<lambda>st. let st1 = st\<lparr>st_last_exit := ex, st_has_exited := True, st_pid := 0, st_started_at := None, st_state := nx\<rparr> in
         if nx = StateBackingOff then st1\<lparr>st_restarts := n, st_next_restart := Some (en_now e + d)\<rparr> else st1)
       (if nx = StateBackingOff then LAnnounce d n else LEnd) s"
| "loop_step e gone (LAnnounce d n) s =
     (case en_write e of
        Some err \<Rightarrow> publish (\<lambda>st. st\<lparr>st_state := StateFailed, st_last_error := buffer_gone err, st_next_restart := None\<rparr>) LEnd s
      | None \<Rightarrow> Some (goto (LSleep d) s, [Say (restart_line (sv_name (su_svc s)) d n)]))"
| "loop_step e gone (LSleep d) s =
     (if en_timer e then Some (goto LTop s, [])
      else if gone then publish (\<lambda>st. st\<lparr>st_state := StateStopped, st_next_restart := None\<rparr>) LEnd s
      else None)"
| "loop_step e gone LEnd s = publish (\<lambda>st. st\<lparr>st_ended := True\<rparr>) LEnded s"
| "loop_step e gone LEnded s = Some (goto LDone s, [])"
| "loop_step e gone LDone s = None"

text \<open>\<open>parent\<close> is whether the fabric the supervisor belongs to was cancelled.\<close>

definition sup_step :: "loop_env \<Rightarrow> bool \<Rightarrow> supervisor \<Rightarrow> (supervisor \<times> effect list) option" where
  "sup_step e parent s = loop_step e (parent \<or> su_cancelled s) (su_pc s) s"

section \<open>Every history of a supervisor\<close>

datatype sup_event = Loop loop_env bool | Begin | Cancel | Adopted proc | Renamed bytes | Redefined service

fun sup_do :: "sup_event \<Rightarrow> supervisor \<Rightarrow> supervisor option" where
  "sup_do (Loop e parent) s = map_option fst (sup_step e parent s)"
| "sup_do Begin s = Some (snd (sup_start s))"
| "sup_do Cancel s = Some (sup_cancel s)"
| "sup_do (Adopted p) s = (if su_started s then None else Some (adopt_running p s))"
| "sup_do (Renamed n) s = Some (snd (sup_rename n s))"
| "sup_do (Redefined d) s = Some (redefine d s)"

text \<open>A refusal says why.\<close>

definition says_why :: "loop_env \<Rightarrow> bool" where
  "says_why e \<longleftrightarrow> en_spawn e \<noteq> Inl []"

fun event_ok :: "sup_event \<Rightarrow> bool" where
  "event_ok (Loop e parent) \<longleftrightarrow> says_why e"
| "event_ok _ \<longleftrightarrow> True"

inductive sup_reach :: "supervisor \<Rightarrow> bool" where
  made: "sup_reach (new_supervisor svc out ws)"
| did: "sup_reach s \<Longrightarrow> event_ok ev \<Longrightarrow> sup_do ev s = Some s' \<Longrightarrow> sup_reach s'"

subsection \<open>Published snapshots\<close>

text \<open>What every reader of a status may rely on, whenever it looks.\<close>

definition status_ok :: "status \<Rightarrow> bool" where
  "status_ok st \<longleftrightarrow>
     (st_state st = StateRunning \<longrightarrow> status_live st \<and> st_started_at st \<noteq> None \<and> st_last_error st = [] \<and>
        st_next_restart st = None \<and> 0 < st_total_starts st) \<and>
     (st_state st \<noteq> StateRunning \<longrightarrow> st_pid st = 0 \<and> st_started_at st = None) \<and>
     (st_state st = StateBackingOff \<longrightarrow> status_live st \<and> st_next_restart st \<noteq> None \<and> 0 < st_restarts st) \<and>
     (st_state st = StateExited \<longrightarrow> st_has_exited st \<and> exit_clean (st_last_exit st)) \<and>
     (st_state st = StateFailed \<longrightarrow> st_last_error st \<noteq> [] \<or> st_has_exited st \<and> \<not> exit_clean (st_last_exit st)) \<and>
     (status_finished st \<longrightarrow> st_started st \<and> st_state st \<in> {StateStopped, StateFailed, StateExited})"

fun pc_ok :: "loop_pc \<Rightarrow> supervisor \<Rightarrow> bool" where
  "pc_ok LIdle s \<longleftrightarrow> st_state (su_status s) = StateStopped \<and> su_cur s = None"
| "pc_ok LRefused s \<longleftrightarrow> st_state (su_status s) \<in> {StateStopped, StateBackingOff} \<and> su_cur s = None \<and> st_last_error (su_status s) \<noteq> []"
| "pc_ok (LRetry d n) s \<longleftrightarrow> st_state (su_status s) \<in> {StateStopped, StateBackingOff} \<and> su_cur s = None \<and> 0 < n"
| "pc_ok (LName p) s \<longleftrightarrow> st_state (su_status s) \<in> {StateStopped, StateBackingOff} \<and> su_cur s = Some p"
| "pc_ok (LFile p n) s \<longleftrightarrow> st_state (su_status s) \<in> {StateStopped, StateBackingOff} \<and> su_cur s = Some p"
| "pc_ok (LUp p) s \<longleftrightarrow> st_state (su_status s) \<in> {StateStopped, StateBackingOff} \<and> su_cur s = Some p"
| "pc_ok (LWait p) s \<longleftrightarrow> st_state (su_status s) = StateRunning \<and> st_pid (su_status s) = pr_pid p \<and> su_cur s = Some p"
| "pc_ok (LDead p ex up) s \<longleftrightarrow> st_state (su_status s) = StateRunning \<and> st_pid (su_status s) = pr_pid p \<and> su_cur s = Some p"
| "pc_ok (LDrop p n ex up) s \<longleftrightarrow> st_state (su_status s) = StateRunning \<and> su_cur s = None"
| "pc_ok (LDecide ex up) s \<longleftrightarrow> st_state (su_status s) = StateRunning \<and> su_cur s = None"
| "pc_ok (LPublish ex nx d n) s \<longleftrightarrow> st_state (su_status s) = StateRunning \<and> su_cur s = None \<and>
     (nx = StateStopped \<or> nx = StateExited \<and> exit_clean ex \<or> nx = StateFailed \<and> \<not> exit_clean ex \<or> nx = StateBackingOff \<and> 0 < n)"
| "pc_ok (LAnnounce d n) s \<longleftrightarrow> st_state (su_status s) = StateBackingOff \<and> su_cur s = None"
| "pc_ok (LSleep d) s \<longleftrightarrow> st_state (su_status s) = StateBackingOff \<and> su_cur s = None"
| "pc_ok LEnd s \<longleftrightarrow> st_state (su_status s) \<in> {StateStopped, StateFailed, StateExited} \<and> su_cur s = None"
| "pc_ok LEnded s \<longleftrightarrow> su_cur s = None"
| "pc_ok LDone s \<longleftrightarrow> su_cur s = None"
| "pc_ok _ s \<longleftrightarrow> st_state (su_status s) \<in> {StateStopped, StateBackingOff} \<and> su_cur s = None"

definition sup_ok :: "supervisor \<Rightarrow> bool" where
  "sup_ok s \<longleftrightarrow>
     status_ok (su_status s) \<and> pc_ok (su_pc s) s \<and> 0 \<le> st_total_starts (su_status s) \<and> 0 \<le> restarts (su_tracker s) \<and>
     (st_started (su_status s) \<longleftrightarrow> su_started s) \<and> (su_started s \<longleftrightarrow> su_pc s \<noteq> LIdle) \<and>
     (st_ended (su_status s) \<longleftrightarrow> su_pc s = LEnded \<or> su_pc s = LDone)"

lemmas status_defs = status_ok_def status_live_def status_finished_def

lemma died_restarts: "0 \<le> restarts t \<Longrightarrow> 0 < restarts (snd (died up t))"
  by (simp add: died_def Let_def)

lemma status_ok_same:
  "status_ok (st\<lparr>st_service := n\<rparr>) = status_ok st" "st_started st = b \<Longrightarrow> status_ok (st\<lparr>st_started := b\<rparr>) = status_ok st"
  by (auto simp: status_ok_def status_live_def status_finished_def)

lemma pc_ok_same:
  "pc_ok pc s \<Longrightarrow> su_status s' = su_status s \<Longrightarrow> su_cur s' = su_cur s \<Longrightarrow> pc_ok pc s'"
  by (cases pc) simp_all

text \<open>A step that publishes nothing, and one that does.\<close>

lemma silent_step:
  assumes "sup_ok s" "s' = goto pc t" "su_status t = su_status s" "su_started t = su_started s" "0 \<le> restarts (su_tracker t)"
    "pc_ok pc t" "pc \<notin> {LIdle, LEnded}" "(su_pc s \<in> {LEnded, LDone}) = (pc = LDone)" "su_pc s \<noteq> LIdle"
  shows "sup_ok s'"
  using assms pc_ok_same[OF assms(6), of s'] by (auto simp: sup_ok_def goto_def)

lemma publish_step:
  assumes "sup_ok s" "publish f pc s = Some (s', fx)" "status_ok (f (su_status s))" "pc_ok pc (set_status f s)"
    "0 \<le> st_total_starts (f (su_status s))" "st_started (f (su_status s)) = su_started s" "pc \<notin> {LIdle, LDone}"
    "st_ended (f (su_status s)) = (pc = LEnded)" "su_pc s \<noteq> LIdle"
  shows "sup_ok s'"
  using assms pc_ok_same[OF assms(4), of s'] by (auto simp: sup_ok_def publish_def goto_def set_status_def)

lemma loop_step_ok:
  assumes ok: "sup_ok s" and why: "says_why e" and step: "loop_step e gone (su_pc s) s = Some (s', fx)"
  shows "sup_ok s'"
proof -
  have f: "status_ok (su_status s)" "pc_ok (su_pc s) s" "0 \<le> st_total_starts (su_status s)" "0 \<le> restarts (su_tracker s)"
    "st_started (su_status s) = su_started s" "su_started s = (su_pc s \<noteq> LIdle)"
    "st_ended (su_status s) = (su_pc s = LEnded \<or> su_pc s = LDone)" using ok by (simp_all add: sup_ok_def)
  note silent = silent_step[OF ok] and told = publish_step[OF ok]
  show ?thesis
  proof (cases "su_pc s")
    case LTop
    show ?thesis
    proof (cases gone)
      case True
      show ?thesis by (rule told[OF step[unfolded LTop loop_step.simps if_P[OF True]]]) (use f LTop in \<open>auto simp: status_defs set_status_def\<close>)
    next
      case False
      show ?thesis by (rule silent[where pc = LTake and t = s]) (use step f False LTop in auto)
    qed
  next
    case LTake
    show ?thesis by (rule silent[where pc = "case su_adopted s of None \<Rightarrow> LSpawn | Some p \<Rightarrow> LGot p" and t = "s\<lparr>su_adopted := None\<rparr>"]) (use step f LTake in \<open>auto split: option.splits\<close>)
  next
    case LSpawn
    show ?thesis
    proof (cases "en_spawn e")
      case (Inl err)
      show ?thesis by (rule told[OF step[unfolded LSpawn loop_step.simps Inl sum.case]]) (use f LSpawn Inl why in \<open>auto simp: status_defs says_why_def set_status_def\<close>)
    next
      case (Inr p)
      show ?thesis by (rule silent[where pc = "LGot p" and t = s]) (use step f Inr LSpawn in auto)
    qed
  next
    case LRefused
    show ?thesis
    proof (cases "sv_restart (su_svc s) = RestartAlways")
      case True
      show ?thesis
        by (rule silent[where pc = "LRetry (fst (died 0 (su_tracker s))) (restarts (snd (died 0 (su_tracker s))))"
              and t = "s\<lparr>su_tracker := snd (died 0 (su_tracker s))\<rparr>"])
          (use step f True LRefused died_restarts[OF f(4), of 0] in \<open>auto simp: next_backoff_def split: prod.split_asm\<close>)
    next
      case False
      show ?thesis by (rule told[OF step[unfolded LRefused loop_step.simps if_P[OF False]]]) (use f LRefused in \<open>auto simp: status_defs set_status_def\<close>)
    qed
  next
    case (LRetry d n)
    show ?thesis by (rule told[OF step[unfolded LRetry loop_step.simps]]) (use f LRetry in \<open>auto simp: status_defs set_status_def\<close>)
  next
    case (LGot p)
    show ?thesis by (rule silent[where pc = "LName p" and t = "s\<lparr>su_cur := Some p\<rparr>"]) (use step f LGot in auto)
  next
    case (LName p)
    show ?thesis by (rule silent[where pc = "LFile p (sv_name (su_svc s))" and t = s]) (use step f LName in auto)
  next
    case (LFile p n)
    show ?thesis by (rule silent[where pc = "LUp p" and t = s]) (use step f LFile in auto)
  next
    case (LUp p)
    show ?thesis by (rule told[OF step[unfolded LUp loop_step.simps]]) (use f LUp in \<open>auto simp: status_defs set_status_def\<close>)
  next
    case (LWait p)
    then obtain ex up where x: "en_exit e = Some (ex, up)" using step by (auto split: option.split_asm)
    show ?thesis by (rule silent[where pc = "LDead p ex up" and t = s]) (use step f LWait x in auto)
  next
    case (LDead p ex up)
    show ?thesis by (rule silent[where pc = "LDrop p (sv_name (su_svc s)) ex up" and t = "s\<lparr>su_cur := None\<rparr>"]) (use step f LDead in auto)
  next
    case (LDrop p n ex up)
    show ?thesis by (rule silent[where pc = "LDecide ex up" and t = s]) (use step f LDrop in auto)
  next
    case (LDecide ex up)
    consider (stopped) gone | (over) "\<not> gone" "\<not> should_restart (sv_restart (su_svc s)) ex"
      | (again) "\<not> gone" "should_restart (sv_restart (su_svc s)) ex" by blast
    then show ?thesis
    proof cases
      case stopped
      show ?thesis by (rule silent[where pc = "LPublish ex StateStopped 0 0" and t = s]) (use step f LDecide stopped in auto)
    next
      case over
      show ?thesis by (rule silent[where pc = "LPublish ex (if exit_clean ex then StateExited else StateFailed) 0 0" and t = s])
          (use step f LDecide over in auto)
    next
      case again
      show ?thesis
        by (rule silent[where pc = "LPublish ex StateBackingOff (fst (died up (su_tracker s))) (restarts (snd (died up (su_tracker s))))"
              and t = "s\<lparr>su_tracker := snd (died up (su_tracker s))\<rparr>"])
          (use step f LDecide again died_restarts[OF f(4), of up] in \<open>auto simp: next_backoff_def split: prod.split_asm\<close>)
    qed
  next
    case (LPublish ex nx d n)
    show ?thesis
      by (rule told[OF step[unfolded LPublish loop_step.simps]]; cases "nx = StateBackingOff")
        (use f LPublish in \<open>auto simp: status_defs Let_def set_status_def\<close>)
  next
    case (LAnnounce d n)
    show ?thesis
    proof (cases "en_write e")
      case None
      show ?thesis by (rule silent[where pc = "LSleep d" and t = s]) (use step f LAnnounce None in auto)
    next
      case (Some err)
      show ?thesis by (rule told[OF step[unfolded LAnnounce loop_step.simps Some option.case]]) (use f LAnnounce in \<open>auto simp: status_defs buffer_gone_def set_status_def\<close>)
    qed
  next
    case (LSleep d)
    show ?thesis
    proof (cases "en_timer e")
      case True
      show ?thesis by (rule silent[where pc = LTop and t = s]) (use step f LSleep True in auto)
    next
      case False
      then have gone using step by (simp add: LSleep split: if_split_asm)
      show ?thesis by (rule told[OF step[unfolded LSleep loop_step.simps if_not_P[OF False] if_P[OF \<open>gone\<close>]]])
          (use f LSleep in \<open>auto simp: status_defs set_status_def\<close>)
    qed
  next
    case LEnd
    show ?thesis by (rule told[OF step[unfolded LEnd loop_step.simps]]) (use f LEnd in \<open>auto simp: status_defs set_status_def\<close>)
  next
    case LEnded
    show ?thesis by (rule silent[where pc = LDone and t = s]) (use step f LEnded in auto)
  qed (use step in simp_all)
qed

lemma sup_do_ok:
  assumes "sup_ok s" "event_ok ev" "sup_do ev s = Some s'"
  shows "sup_ok s'"
proof (cases ev)
  case (Loop e parent)
  then obtain fx where "loop_step e (parent \<or> su_cancelled s) (su_pc s) s = Some (s', fx)" using assms(3) by (auto simp: sup_step_def)
  then show ?thesis using loop_step_ok[OF assms(1)] assms(2) Loop by auto
next
  case (Renamed n)
  have "pc_ok (su_pc s) (snd (sup_rename n s))" using assms(1)
    by (cases "su_pc s") (simp_all add: sup_ok_def sup_rename_def set_status_def)
  then show ?thesis using assms Renamed by (auto simp: sup_ok_def sup_rename_def set_status_def status_ok_same)
next
  case Begin
  show ?thesis
  proof (cases "su_started s")
    case False
    then have "status_ok ((su_status s)\<lparr>st_started := True\<rparr>)" "st_state (su_status s) = StateStopped" "su_cur s = None"
      using assms(1) by (auto simp: sup_ok_def status_defs)
    then show ?thesis using assms Begin False by (auto simp: sup_ok_def sup_start_def set_status_def)
  qed (use assms Begin in \<open>simp add: sup_start_def\<close>)
next
  case Cancel
  then have "su_status s' = su_status s" "su_cur s' = su_cur s" "su_pc s' = su_pc s" "su_tracker s' = su_tracker s" "su_started s' = su_started s"
    using assms(3) by (auto simp: sup_cancel_def split: if_splits)
  then show ?thesis using assms(1) pc_ok_same[of "su_pc s" s s'] by (simp add: sup_ok_def)
next
  case (Adopted p)
  then have "su_status s' = su_status s" "su_cur s' = su_cur s" "su_pc s' = su_pc s" "su_tracker s' = su_tracker s" "su_started s' = su_started s"
    using assms(3) by (auto simp: adopt_running_def split: if_split_asm)
  then show ?thesis using assms(1) pc_ok_same[of "su_pc s" s s'] by (simp add: sup_ok_def)
next
  case (Redefined d)
  then have "su_status s' = su_status s" "su_cur s' = su_cur s" "su_pc s' = su_pc s" "su_tracker s' = su_tracker s" "su_started s' = su_started s"
    using assms(3) by (auto simp: redefine_def)
  then show ?thesis using assms(1) pc_ok_same[of "su_pc s" s s'] by (simp add: sup_ok_def)
qed

lemma sup_reach_ok: "sup_reach s \<Longrightarrow> sup_ok s"
proof (induction rule: sup_reach.induct)
  case (made svc out ws)
  then show ?case by (simp add: sup_ok_def new_supervisor_def new_status_def status_defs fresh_tracker_def)
qed (rule sup_do_ok)

section \<open>Letting the loop run\<close>

fun loops :: "loop_env list \<Rightarrow> bool \<Rightarrow> supervisor \<Rightarrow> supervisor" where
  "loops [] parent s = s"
| "loops (e # es) parent s = loops es parent (case sup_step e parent s of None \<Rightarrow> s | Some (s', fx) \<Rightarrow> s')"

text \<open>How far the loop is from its end once it has been told to stop.\<close>

fun distance :: "loop_pc \<Rightarrow> nat" where
  "distance LDone = 0"
| "distance LEnded = 1"
| "distance LEnd = 2"
| "distance LTop = 3"
| "distance (LSleep d) = 4"
| "distance (LAnnounce d n) = 5"
| "distance (LPublish ex nx d n) = 6"
| "distance (LRetry d n) = 6"
| "distance (LDecide ex up) = 7"
| "distance LRefused = 7"
| "distance (LDrop p n ex up) = 8"
| "distance (LDead p ex up) = 9"
| "distance (LWait p) = 10"
| "distance (LUp p) = 11"
| "distance (LFile p n) = 12"
| "distance (LName p) = 13"
| "distance (LGot p) = 14"
| "distance LSpawn = 15"
| "distance LTake = 16"
| "distance LIdle = 0"

lemma loop_step_cancelled: "loop_step e gone pc s = Some (s', fx) \<Longrightarrow> su_cancelled s' = su_cancelled s"
  by (cases pc) (auto simp: publish_def goto_def set_status_def next_backoff_def split: if_split_asm option.split_asm sum.split_asm prod.split_asm)

lemma told_step:
  assumes "en_exit e \<noteq> None" "pc \<notin> {LIdle, LDone}"
  shows "\<exists>s' fx. loop_step e True pc s = Some (s', fx) \<and> distance (su_pc s') < distance pc \<and> su_pc s' \<noteq> LIdle"
  using assms
  by (cases pc) (auto simp: publish_def goto_def set_status_def next_backoff_def split: if_split option.split sum.split prod.split)

lemma loops_end:
  assumes "su_pc s \<noteq> LIdle" "parent \<or> su_cancelled s" "list_all (\<lambda>e. en_exit e \<noteq> None) es" "distance (su_pc s) \<le> length es"
  shows "su_pc (loops es parent s) = LDone"
  using assms
proof (induction es arbitrary: s)
  case Nil
  then show ?case by (cases "su_pc s") simp_all
next
  case (Cons e es)
  show ?case
  proof (cases "su_pc s = LDone")
    case True
    then have "sup_step e parent s = None" by (simp add: sup_step_def)
    then show ?thesis using Cons True by simp
  next
    case False
    obtain s' fx where t: "sup_step e parent s = Some (s', fx)" "distance (su_pc s') < distance (su_pc s)" "su_pc s' \<noteq> LIdle"
      using told_step[of e "su_pc s" s] Cons.prems False by (auto simp: sup_step_def)
    have "su_cancelled s' = su_cancelled s" using t(1) loop_step_cancelled by (auto simp: sup_step_def)
    then show ?thesis using Cons.IH[of s'] Cons.prems t by simp
  qed
qed

lemma distance_bound: "distance pc \<le> 16"
  by (cases pc) simp_all

section \<open>Properties\<close>

text \<open>
  C26. Every snapshot of a status is consistent, whenever it is taken and whatever starts, stops,
  renames and redefines the service meanwhile: running has a start time, no error and no restart
  pending; anything else has no process; backing off says when it goes on; exited is a clean end, failed
  has a reason; and a service that will not move again is in a final state.
\<close>

theorem status_consistent:
  assumes "sup_reach s"
  shows "status_ok (su_status s)"
  using sup_reach_ok[OF assms] by (simp add: sup_ok_def)

theorem status_consistent_witness:
  "status_ok (su_status (snd (sup_rename (bstr ''b'') (snd (sup_start (new_supervisor
     \<lparr>sv_name = bstr ''a'', sv_command = bstr ''ls'', sv_args = [], sv_dir = [], sv_env = [], sv_restart = RestartNo,
      sv_enabled = True, sv_no_log = False, sv_close_on_exit = False, sv_auto_name = False, sv_order = 0, sv_created = None\<rparr> 0 0))))))"
  by (rule status_consistent, rule sup_reach.did[where ev = "Renamed (bstr ''b'')", OF sup_reach.did[where ev = Begin, OF sup_reach.made]])
    simp_all

text \<open>
  C27. A loop that has been told to stop ends, from wherever it stands, in at most sixteen of its own
  steps, provided a process that is waited for ends: it never restarts, sleeps on or waits once more.
\<close>

theorem told_loop_ends:
  assumes "sup_reach s" "su_started s" "parent \<or> su_cancelled s" "list_all (\<lambda>e. en_exit e \<noteq> None) es" "16 \<le> length es"
  shows "su_pc (loops es parent s) = LDone"
proof (rule loops_end)
  show "su_pc s \<noteq> LIdle" using sup_reach_ok[OF assms(1)] assms(2) by (simp add: sup_ok_def)
  show "distance (su_pc s) \<le> length es" using distance_bound[of "su_pc s"] assms(5) by linarith
qed (use assms in auto)

definition plain_service :: "bytes \<Rightarrow> restart_policy \<Rightarrow> service" where
  "plain_service n pol = \<lparr>sv_name = n, sv_command = bstr ''ls'', sv_args = [], sv_dir = [], sv_env = [], sv_restart = pol,
     sv_enabled = True, sv_no_log = False, sv_close_on_exit = False, sv_auto_name = False, sv_order = 0, sv_created = Some 0\<rparr>"

definition calm :: "int \<Rightarrow> loop_env" where
  "calm now = \<lparr>en_now = now, en_spawn = Inr \<lparr>pr_pid = 7, pr_started = now\<rparr>, en_pty = True, en_exit = Some (\<lparr>code = 1, signal = []\<rparr>, 5),
     en_write = None, en_timer = True\<rparr>"

theorem told_loop_ends_witness:
  "su_pc (loops (replicate 16 (calm 9)) False (sup_cancel (snd (sup_start (new_supervisor (plain_service (bstr ''a'') RestartAlways) 0 0))))) = LDone"
proof (rule told_loop_ends)
  let ?s = "snd (sup_start (new_supervisor (plain_service (bstr ''a'') RestartAlways) 0 0))"
  show "sup_reach (sup_cancel ?s)"
    by (rule sup_reach.did[where ev = Cancel, OF sup_reach.did[where ev = Begin, OF sup_reach.made]]) simp_all
  show "su_started (sup_cancel ?s)" "False \<or> su_cancelled (sup_cancel ?s)"
    by (simp_all add: sup_start_def new_supervisor_def sup_cancel_def set_status_def)
qed (simp_all add: calm_def list_all_iff)

text \<open>
  C28. A service whose policy wants it back comes back: from the death of its process, in the fourth step
  of the loop the status says that it is backing off, how often it was restarted and that it goes on
  after the delay of the backoff schedule; nine steps later the new process is running.
\<close>

theorem service_comes_back:
  assumes "su_pc s = LDead p ex up" "\<not> parent" "\<not> su_cancelled s" "su_adopted s = None" "should_restart (sv_restart (su_svc s)) ex"
    "at_flap k (su_tracker s)" "en_write e = None" "en_timer e" "en_spawn e = Inr q"
  shows "let k' = (if up \<ge> stable_after then 1 else k + 1); st = su_status (loops (replicate 4 e) parent s); s' = loops (replicate 13 e) parent s in
     st_state st = StateBackingOff \<and> st_restarts st = int k' \<and> st_next_restart st = Some (en_now e + backoff_delay k') \<and>
     su_pc s' = LWait q \<and> st_state (su_status s') = StateRunning \<and> st_pid (su_status s') = pr_pid q \<and>
     st_total_starts (su_status s') = st_total_starts (su_status s) + 1 \<and> st_restarts (su_status s') = int k'"
proof -
  obtain d t where t: "died up (su_tracker s) = (d, t)" by (cases "died up (su_tracker s)")
  have d: "d = backoff_delay (if up \<ge> stable_after then 1 else k + 1)" "restarts t = int (if up \<ge> stable_after then 1 else k + 1)"
    using died_at_flap[OF assms(6), of up] by (simp_all add: t at_flap_def)
  have r: "replicate 13 e = [e, e, e, e, e, e, e, e, e, e, e, e, e]" "replicate 4 e = [e, e, e, e]" by (simp_all add: eval_nat_numeral)
  show ?thesis unfolding r
    by (simp add: sup_step_def assms goto_def publish_def set_status_def next_backoff_def t d Let_def)
qed

theorem service_comes_back_witness:
  "st_state (su_status (loops (replicate 13 (calm 9)) False
     ((new_supervisor (plain_service (bstr ''a'') RestartOnFailure) 0 0)\<lparr>su_started := True, su_pc := LDead \<lparr>pr_pid = 3, pr_started = 1\<rparr> \<lparr>code = 1, signal = []\<rparr> 5\<rparr>)))
   = StateRunning"
proof -
  let ?s = "(new_supervisor (plain_service (bstr ''a'') RestartOnFailure) 0 0)\<lparr>su_started := True, su_pc := LDead \<lparr>pr_pid = 3, pr_started = 1\<rparr> \<lparr>code = 1, signal = []\<rparr> 5\<rparr>"
  have "su_pc ?s = LDead \<lparr>pr_pid = 3, pr_started = 1\<rparr> \<lparr>code = 1, signal = []\<rparr> 5" "\<not> su_cancelled ?s" "su_adopted ?s = None"
    "should_restart (sv_restart (su_svc ?s)) \<lparr>code = 1, signal = []\<rparr>" "at_flap 0 (su_tracker ?s)"
    by (simp_all add: new_supervisor_def plain_service_def should_restart_def exit_clean_def at_flap_fresh)
  from service_comes_back[of ?s, OF this(1) _ this(2-5), of False "calm 9" "\<lparr>pr_pid = 7, pr_started = 9\<rparr>"]
  show ?thesis by (simp add: calm_def Let_def)
qed

text \<open>
  A service that gave up because its binary is gone still carries the restart time of the attempt
  before: the deadline is cleared on running and on the other ends of the loop, but not here.
\<close>

lemma failed_keeps_deadline:
  "(let s = loops (replicate 16 (calm 9) @ replicate 4 ((calm 9)\<lparr>en_spawn := Inl (bstr ''gone'')\<rparr>)) False
       (snd (sup_start (new_supervisor (plain_service (bstr ''a'') RestartOnFailure) 0 0)))
    in (st_state (su_status s), st_ended (su_status s), st_next_restart (su_status s))) = (StateFailed, True, Some (9 + second))"
  by code_simp

end
