(* ===== verification/Fabric.thy ===== *)
theory Fabric
  imports Supervisor
begin

text \<open>
  \<open>src/internal/fabric/fabric.go\<close>: the fabric owns the supervisors, the registry and the lifecycle locks.
  Every operation is a program of atomic steps - what it does between two points where another goroutine
  can come in - so that operations, supervision loops and a shutdown interleave as they do in the daemon.
  Supervisors live in a heap; the map \<open>sups\<close> and the steps hold indices into it.
\<close>

section \<open>State\<close>

record fab =
  fb_reg :: registry
  fb_sups :: "(bytes \<times> nat) list"
  fb_heap :: "supervisor list"
  fb_locks :: "bytes \<Rightarrow> nat option"
  fb_closed :: bool
  fb_cancelled :: bool
  fb_next :: nat
  fb_shut :: "nat list"
  fb_store :: "(bytes \<times> int) list"
  fb_log_dir :: bytes

text \<open>\<open>fb_shut\<close> are the output buffers that were closed, \<open>fb_store\<close> the terminals the hooks have filed.\<close>

definition new_fabric :: "registry \<Rightarrow> bytes \<Rightarrow> fab" where
  "new_fabric r log_dir =
     \<lparr>fb_reg = r, fb_sups = [], fb_heap = [], fb_locks = (\<lambda>_. None), fb_closed = False, fb_cancelled = False, fb_next = 0,
      fb_shut = [], fb_store = [], fb_log_dir = log_dir\<rparr>"

datatype fab_error =
    FabricClosed
  | NoSuchSupervisor bytes
  | Registry service_error
  | SameName bytes
  | NameTaken bytes
  | LogTaken bytes
  | LogStayed bytes bytes bytes
  | LogKept bytes

text \<open>What the disk answers in one step; \<open>fa_taken\<close> is whether a log of the new name is on it.\<close>

record fab_env =
  fa_now :: int
  fa_readable :: bool
  fa_stat_ok :: bool
  fa_fault :: "write_stage option"
  fa_removable :: bool
  fa_undo :: bool
  fa_taken :: bool
  fa_log_error :: bytes
  fa_pty :: bool

section \<open>Looking up, making and replacing supervisors\<close>

definition sup_of :: "fab \<Rightarrow> nat \<Rightarrow> supervisor" where
  "sup_of f i = fb_heap f ! i"

definition set_sup :: "nat \<Rightarrow> supervisor \<Rightarrow> fab \<Rightarrow> fab" where
  "set_sup i s f = f\<lparr>fb_heap := (fb_heap f)[i := s]\<rparr>"

definition find_sup :: "bytes \<Rightarrow> fab \<Rightarrow> fab_error + nat" where
  "find_sup n f =
     (if fb_closed f then Inl FabricClosed
      else case map_of (fb_sups f) n of None \<Rightarrow> Inl (NoSuchSupervisor n) | Some i \<Rightarrow> Inr i)"

text \<open>A new supervisor with a buffer and watchers of its own.\<close>

definition make_sup :: "service \<Rightarrow> fab \<Rightarrow> nat \<times> fab" where
  "make_sup svc f =
     (length (fb_heap f), f\<lparr>fb_heap := fb_heap f @ [new_supervisor svc (fb_next f) (fb_next f)], fb_next := fb_next f + 1\<rparr>)"

definition fab_adopt :: "service \<Rightarrow> fab \<Rightarrow> fab_error option \<times> fab" where
  "fab_adopt svc f =
     (case validate svc of
        Some e \<Rightarrow> (Some (Registry e), f)
      | None \<Rightarrow>
          if fb_closed f then (Some FabricClosed, f)
          else if map_of (fb_sups f) (sv_name svc) \<noteq> None then (None, f)
          else case make_sup svc f of (i, f1) \<Rightarrow> (None, f1\<lparr>fb_sups := AList.update (sv_name svc) i (fb_sups f1)\<rparr>))"

definition replace_sup :: "bool \<Rightarrow> bytes \<Rightarrow> nat \<Rightarrow> fab \<Rightarrow> nat \<times> fab" where
  "replace_sup readable n old f =
     (let prior = sup_of f old;
          svc = (case reg_get readable n (fb_reg f) of Inr d \<Rightarrow> d | Inl e \<Rightarrow> su_svc prior);
          i = length (fb_heap f);
          f1 = f\<lparr>fb_heap := fb_heap f @ [new_supervisor svc (su_out prior) (su_watchers prior)]\<rparr>
      in (i, if fb_closed f then f1 else f1\<lparr>fb_sups := AList.update n i (fb_sups f1)\<rparr>))"

definition set_enabled :: "fab_env \<Rightarrow> bytes \<Rightarrow> bool \<Rightarrow> fab \<Rightarrow> service_error option \<times> fab" where
  "set_enabled v n b f =
     (case reg_get (fa_readable v) n (fb_reg f) of
        Inl e \<Rightarrow> (Some e, f)
      | Inr svc \<Rightarrow>
          if sv_enabled svc = b then (None, f)
          else case reg_put (fa_now v) (fa_fault v) (svc\<lparr>sv_enabled := b\<rparr>) (fb_reg f) of (e, r) \<Rightarrow> (e, f\<lparr>fb_reg := r\<rparr>))"

definition start_sup :: "nat \<Rightarrow> fab \<Rightarrow> fab" where
  "start_sup i f = set_sup i (snd (sup_start (sup_of f i))) f"

definition cancel_sup :: "nat \<Rightarrow> fab \<Rightarrow> fab" where
  "cancel_sup i f = set_sup i (sup_cancel (sup_of f i)) f"

section \<open>Locks\<close>

definition acquire :: "nat \<Rightarrow> bytes \<Rightarrow> fab \<Rightarrow> fab option" where
  "acquire t n f = (if fb_locks f n = None then Some (f\<lparr>fb_locks := (fb_locks f)(n \<mapsto> t)\<rparr>) else None)"

definition release :: "nat \<Rightarrow> fab \<Rightarrow> fab" where
  "release t f = f\<lparr>fb_locks := (\<lambda>n. if fb_locks f n = Some t then None else fb_locks f n)\<rparr>"

section \<open>Where an operation stands\<close>

datatype start_pc =
    StartLock bytes
  | StartFind bytes
  | StartEnable bytes nat
  | StartCheck bytes nat
  | StartRun bytes nat

datatype stop_pc =
    StopLock bytes
  | StopFind bytes
  | StopEnable bytes nat
  | StopCancel bytes nat
  | StopWait bytes nat

datatype restart_pc =
    RestartLock bytes
  | RestartFind bytes
  | RestartSwap bytes nat
  | RestartCancel bytes nat nat
  | RestartWait bytes nat nat
  | RestartEnable bytes nat

datatype remove_pc =
    RemoveLock bytes bool
  | RemoveFind bytes bool
  | RemoveCancel bytes bool nat
  | RemoveWait bytes bool nat
  | RemoveClose bytes bool nat
  | RemoveForget bytes bool
  | RemoveDef bytes bool

datatype rename_pc =
    RenameLock bytes bytes
  | RenameLock2 bytes bytes
  | RenameFind bytes bytes
  | RenameTaken bytes bytes nat
  | RenameDef bytes bytes nat
  | RenameOld bytes bytes nat
  | RenameMove bytes bytes nat
  | RenameSup bytes bytes nat
  | RenameUnfile bytes bytes proc
  | RenameFile bytes bytes proc
  | RenameLog bytes bytes

datatype add_pc =
    AddLock service bool
  | AddDef service bool
  | AddAdopt service bool

datatype ensure_pc =
    EnsureLock service
  | EnsureGet service
  | EnsureLive service service
  | EnsurePut service
  | EnsureFind service

datatype update_pc =
    UpdateLock bytes "service \<Rightarrow> service"
  | UpdateDef bytes "service \<Rightarrow> service"
  | UpdateSup bytes service

datatype shutdown_pc =
    ShutdownFlag
  | ShutdownCancel "nat list"
  | ShutdownStop "nat list"
  | ShutdownWait "nat list"

datatype op_pc =
    Returned "fab_error option"
  | Starting start_pc
  | Stopping stop_pc
  | Restarting restart_pc
  | Removing remove_pc
  | Renaming rename_pc
  | Adding add_pc
  | Ensuring ensure_pc
  | Updating update_pc
  | ShuttingDown shutdown_pc

text \<open>Returning lets go of every lock, which is what the deferred unlocks do.\<close>

definition finish :: "nat \<Rightarrow> fab_error option \<Rightarrow> fab \<Rightarrow> (op_pc \<times> fab) option" where
  "finish t e f = Some (Returned e, release t f)"

definition locked :: "nat \<Rightarrow> bytes \<Rightarrow> op_pc \<Rightarrow> fab \<Rightarrow> (op_pc \<times> fab) option" where
  "locked t n pc f = map_option (Pair pc) (acquire t n f)"

definition with_sup :: "nat \<Rightarrow> bytes \<Rightarrow> (nat \<Rightarrow> op_pc) \<Rightarrow> fab \<Rightarrow> (op_pc \<times> fab) option" where
  "with_sup t n k f = (case find_sup n f of Inl e \<Rightarrow> finish t (Some e) f | Inr i \<Rightarrow> Some (k i, f))"

definition enabling :: "nat \<Rightarrow> fab_env \<Rightarrow> bytes \<Rightarrow> bool \<Rightarrow> op_pc \<Rightarrow> fab \<Rightarrow> (op_pc \<times> fab) option" where
  "enabling t v n b pc f =
     (case set_enabled v n b f of (Some e, f1) \<Rightarrow> finish t (Some (Registry e)) f1 | (None, f1) \<Rightarrow> Some (pc, f1))"

section \<open>Start, stop, restart\<close>

fun start_step :: "nat \<Rightarrow> fab_env \<Rightarrow> start_pc \<Rightarrow> fab \<Rightarrow> (op_pc \<times> fab) option" where
  "start_step t v (StartLock n) f = locked t n (Starting (StartFind n)) f"
| "start_step t v (StartFind n) f = with_sup t n (\<lambda>i. Starting (StartEnable n i)) f"
| "start_step t v (StartEnable n i) f = enabling t v n True (Starting (StartCheck n i)) f"
| "start_step t v (StartCheck n i) f =
     (if status_live (su_status (sup_of f i)) then Some (Starting (StartRun n i), f)
      else case replace_sup (fa_readable v) n i f of (j, f1) \<Rightarrow> Some (Starting (StartRun n j), f1))"
| "start_step t v (StartRun n i) f = finish t None (start_sup i f)"

fun stop_step :: "nat \<Rightarrow> fab_env \<Rightarrow> stop_pc \<Rightarrow> fab \<Rightarrow> (op_pc \<times> fab) option" where
  "stop_step t v (StopLock n) f = locked t n (Stopping (StopFind n)) f"
| "stop_step t v (StopFind n) f = with_sup t n (\<lambda>i. Stopping (StopEnable n i)) f"
| "stop_step t v (StopEnable n i) f = enabling t v n False (Stopping (StopCancel n i)) f"
| "stop_step t v (StopCancel n i) f = Some (Stopping (StopWait n i), cancel_sup i f)"
| "stop_step t v (StopWait n i) f = (if sup_stopped (sup_of f i) then finish t None f else None)"

fun restart_step :: "nat \<Rightarrow> fab_env \<Rightarrow> restart_pc \<Rightarrow> fab \<Rightarrow> (op_pc \<times> fab) option" where
  "restart_step t v (RestartLock n) f = locked t n (Restarting (RestartFind n)) f"
| "restart_step t v (RestartFind n) f = with_sup t n (\<lambda>i. Restarting (RestartSwap n i)) f"
| "restart_step t v (RestartSwap n i) f =
     (case replace_sup (fa_readable v) n i f of (j, f1) \<Rightarrow> Some (Restarting (RestartCancel n i j), f1))"
| "restart_step t v (RestartCancel n i j) f = Some (Restarting (RestartWait n i j), cancel_sup i f)"
| "restart_step t v (RestartWait n i j) f = (if sup_stopped (sup_of f i) then Some (Restarting (RestartEnable n j), f) else None)"
| "restart_step t v (RestartEnable n j) f = enabling t v n True (Starting (StartRun n j)) f"

section \<open>Remove and rename\<close>

text \<open>The end of \<open>Remove\<close>: the definition, and the log unless it is kept.\<close>

fun remove_step :: "nat \<Rightarrow> fab_env \<Rightarrow> remove_pc \<Rightarrow> fab \<Rightarrow> (op_pc \<times> fab) option" where
  "remove_step t v (RemoveLock n keep) f = locked t n (Removing (RemoveFind n keep)) f"
| "remove_step t v (RemoveFind n keep) f =
     (case find_sup n f of
        Inr i \<Rightarrow> Some (Removing (RemoveCancel n keep i), f)
      | Inl (NoSuchSupervisor m) \<Rightarrow> Some (Removing (RemoveDef n keep), f)
      | Inl e \<Rightarrow> finish t (Some e) f)"
| "remove_step t v (RemoveCancel n keep i) f = Some (Removing (RemoveWait n keep i), cancel_sup i f)"
| "remove_step t v (RemoveWait n keep i) f = (if sup_stopped (sup_of f i) then Some (Removing (RemoveClose n keep i), f) else None)"
| "remove_step t v (RemoveClose n keep i) f = Some (Removing (RemoveForget n keep), f\<lparr>fb_shut := su_out (sup_of f i) # fb_shut f\<rparr>)"
| "remove_step t v (RemoveForget n keep) f = Some (Removing (RemoveDef n keep), f\<lparr>fb_sups := AList.delete n (fb_sups f)\<rparr>)"
| "remove_step t v (RemoveDef n keep) f =
     (case reg_remove (fa_removable v) n (fb_reg f) of
        (Some e, r) \<Rightarrow> finish t (Some (Registry e)) (f\<lparr>fb_reg := r\<rparr>)
      | (None, r) \<Rightarrow>
          finish t (if keep \<or> fb_log_dir f = [] \<or> fa_log_error v = [] then None else Some (LogKept (fa_log_error v))) (f\<lparr>fb_reg := r\<rparr>))"

definition lock_order :: "bytes \<Rightarrow> bytes \<Rightarrow> bytes \<times> bytes" where
  "lock_order old new = (if new < old then (new, old) else (old, new))"

fun rename_step :: "nat \<Rightarrow> fab_env \<Rightarrow> rename_pc \<Rightarrow> fab \<Rightarrow> (op_pc \<times> fab) option" where
  "rename_step t v (RenameLock old new) f =
     (case valid_service_name new of
        Some e \<Rightarrow> finish t (Some (Registry e)) f
      | None \<Rightarrow> if old = new then finish t (Some (SameName old)) f
                else locked t (fst (lock_order old new)) (Renaming (RenameLock2 old new)) f)"
| "rename_step t v (RenameLock2 old new) f = locked t (snd (lock_order old new)) (Renaming (RenameFind old new)) f"
| "rename_step t v (RenameFind old new) f = with_sup t old (\<lambda>i. Renaming (RenameTaken old new i)) f"
| "rename_step t v (RenameTaken old new i) f =
     (case find_sup new f of
        Inr j \<Rightarrow> finish t (Some (NameTaken new)) f
      | Inl e \<Rightarrow> if fa_taken v then finish t (Some (LogTaken new)) f else Some (Renaming (RenameDef old new i), f))"
| "rename_step t v (RenameDef old new i) f =
     (case reg_get (fa_readable v) old (fb_reg f) of
        Inl e \<Rightarrow> finish t (Some (Registry e)) f
      | Inr d \<Rightarrow>
          (case reg_add (fa_now v) (fa_stat_ok v) (fa_fault v) (d\<lparr>sv_name := new, sv_auto_name := False\<rparr>) (fb_reg f) of
             (Some e, r) \<Rightarrow> finish t (Some (Registry e)) (f\<lparr>fb_reg := r\<rparr>)
           | (None, r) \<Rightarrow> Some (Renaming (RenameOld old new i), f\<lparr>fb_reg := r\<rparr>)))"
| "rename_step t v (RenameOld old new i) f =
     (case reg_remove (fa_removable v) old (fb_reg f) of
        (Some e, r) \<Rightarrow> finish t (Some (Registry e)) (f\<lparr>fb_reg := snd (reg_remove (fa_undo v) new r)\<rparr>)
      | (None, r) \<Rightarrow> Some (Renaming (RenameMove old new i), f\<lparr>fb_reg := r\<rparr>))"
| "rename_step t v (RenameMove old new i) f =
     (if fb_closed f then finish t (Some FabricClosed) f
      else Some (Renaming (RenameSup old new i), f\<lparr>fb_sups := AList.update new i (AList.delete old (fb_sups f))\<rparr>))"
| "rename_step t v (RenameSup old new i) f =
     (case sup_rename new (sup_of f i) of
        (None, s) \<Rightarrow> Some (Renaming (RenameLog old new), set_sup i s f)
      | (Some p, s) \<Rightarrow> Some (Renaming (RenameUnfile old new p), set_sup i s f))"
| "rename_step t v (RenameUnfile old new p) f =
     Some (Renaming (RenameFile old new p), f\<lparr>fb_store := removeAll (old, pr_pid p) (fb_store f)\<rparr>)"
| "rename_step t v (RenameFile old new p) f =
     Some (Renaming (RenameLog old new), if fa_pty v then f\<lparr>fb_store := (new, pr_pid p) # fb_store f\<rparr> else f)"
| "rename_step t v (RenameLog old new) f =
     finish t (if fb_log_dir f = [] \<or> fa_log_error v = [] then None else Some (LogStayed old new (fa_log_error v))) f"

section \<open>Add, ensure, update\<close>

fun add_step :: "nat \<Rightarrow> fab_env \<Rightarrow> add_pc \<Rightarrow> fab \<Rightarrow> (op_pc \<times> fab) option" where
  "add_step t v (AddLock svc start) f = locked t (sv_name svc) (Adding (AddDef svc start)) f"
| "add_step t v (AddDef svc start) f =
     (case reg_add (fa_now v) (fa_stat_ok v) (fa_fault v) (svc\<lparr>sv_enabled := start\<rparr>) (fb_reg f) of
        (Some e, r) \<Rightarrow> finish t (Some (Registry e)) (f\<lparr>fb_reg := r\<rparr>)
      | (None, r) \<Rightarrow> Some (Adding (AddAdopt (svc\<lparr>sv_enabled := start\<rparr>) start), f\<lparr>fb_reg := r\<rparr>))"
| "add_step t v (AddAdopt svc start) f =
     (case fab_adopt svc f of
        (Some e, f1) \<Rightarrow> finish t (Some e) f1
      | (None, f1) \<Rightarrow> if start then Some (Starting (StartFind (sv_name svc)), f1) else finish t None f1)"

fun ensure_step :: "nat \<Rightarrow> fab_env \<Rightarrow> ensure_pc \<Rightarrow> fab \<Rightarrow> (op_pc \<times> fab) option" where
  "ensure_step t v (EnsureLock svc) f =
     (case validate svc of
        Some e \<Rightarrow> finish t (Some (Registry e)) f
      | None \<Rightarrow> locked t (sv_name svc) (Ensuring (EnsureGet svc)) f)"
| "ensure_step t v (EnsureGet svc) f =
     (case reg_get (fa_readable v) (sv_name svc) (fb_reg f) of
        Inr d \<Rightarrow> Some (Ensuring (EnsureLive svc d), f)
      | Inl (NoSuchService m) \<Rightarrow> Some (Adding (AddDef svc True), f)
      | Inl e \<Rightarrow> finish t (Some (Registry e)) f)"
| "ensure_step t v (EnsureLive svc d) f =
     (case find_sup (sv_name svc) f of
        Inr i \<Rightarrow> if status_live (su_status (sup_of f i)) then finish t None f
                 else Some (Ensuring (EnsurePut (svc\<lparr>sv_created := sv_created d, sv_enabled := True\<rparr>)), f)
      | Inl e \<Rightarrow> Some (Ensuring (EnsurePut (svc\<lparr>sv_created := sv_created d, sv_enabled := True\<rparr>)), f))"
| "ensure_step t v (EnsurePut svc) f =
     (case reg_put (fa_now v) (fa_fault v) svc (fb_reg f) of
        (Some e, r) \<Rightarrow> finish t (Some (Registry e)) (f\<lparr>fb_reg := r\<rparr>)
      | (None, r) \<Rightarrow> Some (Ensuring (EnsureFind svc), f\<lparr>fb_reg := r\<rparr>))"
| "ensure_step t v (EnsureFind svc) f =
     (case find_sup (sv_name svc) f of
        Inr i \<Rightarrow> Some (Starting (StartFind (sv_name svc)), f)
      | Inl (NoSuchSupervisor m) \<Rightarrow>
          (case fab_adopt svc f of
             (Some e, f1) \<Rightarrow> finish t (Some e) f1
           | (None, f1) \<Rightarrow> Some (Starting (StartFind (sv_name svc)), f1))
      | Inl e \<Rightarrow> finish t (Some e) f)"

fun update_step :: "nat \<Rightarrow> fab_env \<Rightarrow> update_pc \<Rightarrow> fab \<Rightarrow> (op_pc \<times> fab) option" where
  "update_step t v (UpdateLock n change) f = locked t n (Updating (UpdateDef n change)) f"
| "update_step t v (UpdateDef n change) f =
     (case reg_get (fa_readable v) n (fb_reg f) of
        Inl e \<Rightarrow> finish t (Some (Registry e)) f
      | Inr d \<Rightarrow>
          (let nx = (change d)\<lparr>sv_name := sv_name d, sv_no_log := sv_no_log d, sv_created := sv_created d, sv_enabled := sv_enabled d\<rparr> in
           case reg_put (fa_now v) (fa_fault v) nx (fb_reg f) of
             (Some e, r) \<Rightarrow> finish t (Some (Registry e)) (f\<lparr>fb_reg := r\<rparr>)
           | (None, r) \<Rightarrow> Some (Updating (UpdateSup n nx), f\<lparr>fb_reg := r\<rparr>)))"
| "update_step t v (UpdateSup n nx) f =
     (case find_sup n f of
        Inr i \<Rightarrow> finish t None (set_sup i (redefine nx (sup_of f i)) f)
      | Inl e \<Rightarrow> finish t None f)"

section \<open>Shutdown\<close>

text \<open>The services are stopped at once, each by a goroutine; no lifecycle lock is taken.\<close>

fun shutdown_step :: "nat \<Rightarrow> shutdown_pc \<Rightarrow> fab \<Rightarrow> (op_pc \<times> fab) option" where
  "shutdown_step t ShutdownFlag f =
     (if fb_closed f then finish t None f
      else Some (ShuttingDown (ShutdownCancel (map snd (fb_sups f))), f\<lparr>fb_closed := True\<rparr>))"
| "shutdown_step t (ShutdownCancel is) f = Some (ShuttingDown (ShutdownStop is), f\<lparr>fb_cancelled := True\<rparr>)"
| "shutdown_step t (ShutdownStop is) f = Some (ShuttingDown (ShutdownWait is), fold cancel_sup is f)"
| "shutdown_step t (ShutdownWait is) f = (if \<forall>i \<in> set is. sup_stopped (sup_of f i) then finish t None f else None)"

text \<open>One step of whatever operation it is.\<close>

fun op_step :: "nat \<Rightarrow> fab_env \<Rightarrow> op_pc \<Rightarrow> fab \<Rightarrow> (op_pc \<times> fab) option" where
  "op_step t v (Returned e) f = None"
| "op_step t v (Starting p) f = start_step t v p f"
| "op_step t v (Stopping p) f = stop_step t v p f"
| "op_step t v (Restarting p) f = restart_step t v p f"
| "op_step t v (Removing p) f = remove_step t v p f"
| "op_step t v (Renaming p) f = rename_step t v p f"
| "op_step t v (Adding p) f = add_step t v p f"
| "op_step t v (Ensuring p) f = ensure_step t v p f"
| "op_step t v (Updating p) f = update_step t v p f"
| "op_step t v (ShuttingDown p) f = shutdown_step t p f"

section \<open>Coming up, and handing over\<close>

text \<open>\<open>Load\<close> and \<open>AdoptAll\<close> run before the daemon listens, so no other operation is under way.\<close>

fun run_op :: "nat \<Rightarrow> nat \<Rightarrow> fab_env \<Rightarrow> op_pc \<Rightarrow> fab \<Rightarrow> op_pc \<times> fab" where
  "run_op 0 t v pc f = (pc, f)"
| "run_op (Suc k) t v pc f = (case op_step t v pc f of None \<Rightarrow> (pc, f) | Some (pc1, f1) \<Rightarrow> run_op k t v pc1 f1)"

definition load_one :: "fab_env \<Rightarrow> service \<Rightarrow> fab_error list \<times> fab \<Rightarrow> fab_error list \<times> fab" where
  "load_one v svc s =
     (case s of (errs, f) \<Rightarrow>
        case fab_adopt svc f of
          (Some e, f1) \<Rightarrow> (errs @ [e], f1)
        | (None, f1) \<Rightarrow>
            if sv_enabled svc then
              (case run_op 5 0 v (Starting (StartLock (sv_name svc))) f1 of
                 (Returned (Some e), f2) \<Rightarrow> (errs @ [e], f2)
               | (pc, f2) \<Rightarrow> (errs, f2))
            else (errs, f1))"

definition load :: "fab_env \<Rightarrow> bool \<Rightarrow> (bytes \<Rightarrow> bool) \<Rightarrow> fab \<Rightarrow> fab_error list \<times> fab" where
  "load v dir_ok readable f =
     (case reg_list dir_ok readable (fb_reg f) of (svcs, errs) \<Rightarrow> fold (load_one v) svcs (map Registry errs, f))"

text \<open>
  A handover that names no start time is dated now. The cgroup and the size of the terminal, which
  \<open>Adopt\<close> reads too, are the kernel's and not part of the fabric's state.
\<close>

record handover =
  ho_name :: bytes
  ho_pid :: int
  ho_fd :: int
  ho_started :: "int option"
  ho_orphan :: bool

datatype adopt_error = BadPid int | BadFd int | NotThere bytes int

definition adopt_process :: "int \<Rightarrow> (int \<Rightarrow> bool) \<Rightarrow> handover \<Rightarrow> adopt_error + proc" where
  "adopt_process now there h =
     (if ho_pid h \<le> 0 then Inl (BadPid (ho_pid h))
      else if ho_fd h < 0 then Inl (BadFd (ho_fd h))
      else if \<not> there (ho_pid h) then Inl (NotThere (ho_name h) (ho_pid h))
      else Inr \<lparr>pr_pid = ho_pid h, pr_started = (case ho_started h of None \<Rightarrow> now | Some s \<Rightarrow> s)\<rparr>)"

datatype boot_error = Adopting adopt_error | Booting fab_error

definition adopt_one :: "int \<Rightarrow> (int \<Rightarrow> bool) \<Rightarrow> handover \<Rightarrow> boot_error list \<times> fab \<Rightarrow> boot_error list \<times> fab" where
  "adopt_one now there h s =
     (case s of (errs, f) \<Rightarrow>
        case reg_get True (ho_name h) (fb_reg f) of
          Inl e \<Rightarrow> (errs @ [Booting (Registry e)], f)
        | Inr svc \<Rightarrow>
            (case make_sup svc f of (i, f1) \<Rightarrow>
               case validate svc of
                 Some e \<Rightarrow> (errs @ [Booting (Registry e)], f1\<lparr>fb_shut := su_out (sup_of f1 i) # fb_shut f1\<rparr>)
               | None \<Rightarrow>
                   case adopt_process now there h of
                     Inl e \<Rightarrow> (errs @ [Adopting e], f1\<lparr>fb_shut := su_out (sup_of f1 i) # fb_shut f1\<rparr>)
                   | Inr p \<Rightarrow>
                       (let f2 = set_sup i (adopt_running p (sup_of f1 i)) f1 in
                        if fb_closed f2 then (errs @ [Booting FabricClosed], f2)
                        else (errs, start_sup i (f2\<lparr>fb_sups := AList.update (ho_name h) i (fb_sups f2)\<rparr>)))))"

definition adopt_all :: "(int \<Rightarrow> bool) \<Rightarrow> fab_env \<Rightarrow> bool \<Rightarrow> (bytes \<Rightarrow> bool) \<Rightarrow> handover list \<Rightarrow> fab \<Rightarrow> boot_error list \<times> fab" where
  "adopt_all there v dir_ok readable hs f =
     (case fold (adopt_one (fa_now v) there) hs ([], f) of (errs, f1) \<Rightarrow>
        case load v dir_ok readable f1 of (errs2, f2) \<Rightarrow> (errs @ map Booting errs2, f2))"

text \<open>\<open>fd\<close> is the descriptor of a process's terminal, negative when it is closed.\<close>

definition handovers :: "(proc \<Rightarrow> int) \<Rightarrow> fab \<Rightarrow> handover list" where
  "handovers fd f =
     sort_key ho_name (List.map_filter (\<lambda>(n, i).
       case su_cur (sup_of f i) of
         None \<Rightarrow> None
       | Some p \<Rightarrow> if fd p < 0 then None
                   else Some \<lparr>ho_name = n, ho_pid = pr_pid p, ho_fd = fd p, ho_started = Some (pr_started p), ho_orphan = False\<rparr>)
       (fb_sups f))"

section \<open>Questions\<close>

definition fab_status :: "(nat \<Rightarrow> bytes) \<Rightarrow> bytes \<Rightarrow> fab \<Rightarrow> fab_error + status" where
  "fab_status log_err n f =
     (case find_sup n f of Inl e \<Rightarrow> Inl e | Inr i \<Rightarrow> Inr (sup_status (log_err (su_out (sup_of f i))) (sup_of f i)))"

definition fab_list :: "(nat \<Rightarrow> bytes) \<Rightarrow> fab \<Rightarrow> status list" where
  "fab_list log_err f =
     sort_key st_service (map (\<lambda>(n, i). sup_status (log_err (su_out (sup_of f i))) (sup_of f i)) (fb_sups f))"

text \<open>
  A handle follows a service by its watchers, and remembers the name it last had. \<open>None\<close> from
  \<open>handle_current\<close> is a service that has been removed.
\<close>

record handle =
  ha_watchers :: nat
  ha_name :: bytes

definition follow :: "bytes \<Rightarrow> fab \<Rightarrow> fab_error + handle" where
  "follow n f = (case find_sup n f of Inl e \<Rightarrow> Inl e | Inr i \<Rightarrow> Inr \<lparr>ha_watchers = su_watchers (sup_of f i), ha_name = n\<rparr>)"

definition handle_current :: "handle \<Rightarrow> fab \<Rightarrow> nat option" where
  "handle_current h f = map_option snd (find (\<lambda>(n, i). su_watchers (sup_of f i) = ha_watchers h) (fb_sups f))"

definition handle_name :: "handle \<Rightarrow> fab \<Rightarrow> bytes \<times> handle" where
  "handle_name h f =
     (case handle_current h f of
        Some i \<Rightarrow> (sv_name (su_svc (sup_of f i)), h\<lparr>ha_name := sv_name (su_svc (sup_of f i))\<rparr>)
      | None \<Rightarrow> (ha_name h, h))"

definition handle_status :: "(nat \<Rightarrow> bytes) \<Rightarrow> handle \<Rightarrow> fab \<Rightarrow> (bytes + status) \<times> handle" where
  "handle_status log_err h f =
     (case handle_current h f of
        Some i \<Rightarrow> (Inr (sup_status (log_err (su_out (sup_of f i))) (sup_of f i)), h)
      | None \<Rightarrow> (case handle_name h f of (n, h1) \<Rightarrow> (Inl n, h1)))"

end
