(* ===== verification/FabricSafe.thy ===== *)
theory FabricSafe
  imports Fabric
begin

text \<open>
  Every interleaving of the fabric's operations with the supervision loops and a shutdown. Each position
  of an operation has an assertion about the names whose lifecycle locks it holds; a step keeps the
  view of every name it does not hold, so the assertions of the others survive it.
\<close>

section \<open>Assertions\<close>

definition alive :: "fab \<Rightarrow> nat \<Rightarrow> bool" where
  "alive f j \<longleftrightarrow> j < length (fb_heap f) \<and> su_pc (sup_of f j) \<notin> {LIdle, LEnded, LDone}"

definition nm :: "fab \<Rightarrow> nat \<Rightarrow> bytes" where
  "nm f j = sv_name (su_svc (sup_of f j))"

definition mapped :: "fab \<Rightarrow> bytes \<Rightarrow> nat \<Rightarrow> bool" where
  "mapped f n i \<longleftrightarrow> map_of (fb_sups f) n = Some i"

definition at_name :: "fab \<Rightarrow> bytes \<Rightarrow> nat \<Rightarrow> bool" where
  "at_name f n i \<longleftrightarrow> i < length (fb_heap f) \<and> nm f i = n"

definition only :: "fab \<Rightarrow> bytes \<Rightarrow> nat \<Rightarrow> bool" where
  "only f n i \<longleftrightarrow> (\<forall>j. alive f j \<and> nm f j = n \<longrightarrow> j = i)"

definition none_alive :: "fab \<Rightarrow> bytes \<Rightarrow> bool" where
  "none_alive f n \<longleftrightarrow> (\<forall>j. alive f j \<longrightarrow> nm f j \<noteq> n)"

definition bound :: "fab \<Rightarrow> bytes \<Rightarrow> nat \<Rightarrow> bool" where
  "bound f n i \<longleftrightarrow> fb_closed f \<or> mapped f n i"

definition unmapped :: "fab \<Rightarrow> bytes \<Rightarrow> bool" where
  "unmapped f n \<longleftrightarrow> map_of (fb_sups f) n = None"

definition asleep :: "fab \<Rightarrow> nat \<Rightarrow> bool" where
  "asleep f j \<longleftrightarrow> \<not> su_started (sup_of f j)"

definition disabled :: "fab \<Rightarrow> bytes \<Rightarrow> bool" where
  "disabled f n \<longleftrightarrow> (\<exists>s. reg_look (fb_reg f) n = Some s \<and> \<not> sv_enabled s)"

text \<open>What stays true of a name: its entry in the map and in the registry, and that nothing more runs under it.\<close>

definition kept :: "bytes \<Rightarrow> fab \<Rightarrow> fab \<Rightarrow> bool" where
  "kept n f f' \<longleftrightarrow>
     map_of (fb_sups f') n = map_of (fb_sups f) n \<and> reg_look (fb_reg f') n = reg_look (fb_reg f) n \<and>
     length (fb_heap f) \<le> length (fb_heap f') \<and> (fb_closed f \<longrightarrow> fb_closed f') \<and>
     (\<forall>j < length (fb_heap f). nm f j = n \<longrightarrow> nm f' j = n \<and> su_started (sup_of f' j) = su_started (sup_of f j)) \<and>
     (\<forall>j. alive f' j \<and> nm f' j = n \<longrightarrow> alive f j \<and> nm f j = n)"

text \<open>The names whose lock an operation holds at a position.\<close>

fun holds :: "op_pc \<Rightarrow> bytes set" where
  "holds (Returned e) = {}"
| "holds (Starting p) = (case p of StartLock n \<Rightarrow> {} | StartFind n \<Rightarrow> {n} | StartEnable n i \<Rightarrow> {n} | StartCheck n i \<Rightarrow> {n} | StartRun n i \<Rightarrow> {n})"
| "holds (Stopping p) = (case p of StopLock n \<Rightarrow> {} | StopFind n \<Rightarrow> {n} | StopEnable n i \<Rightarrow> {n} | StopCancel n i \<Rightarrow> {n} | StopWait n i \<Rightarrow> {n})"
| "holds (Restarting p) = (case p of RestartLock n \<Rightarrow> {} | RestartFind n \<Rightarrow> {n} | RestartSwap n i \<Rightarrow> {n} | RestartCancel n i j \<Rightarrow> {n}
     | RestartWait n i j \<Rightarrow> {n} | RestartEnable n j \<Rightarrow> {n})"
| "holds (Removing p) = (case p of RemoveLock n k \<Rightarrow> {} | RemoveFind n k \<Rightarrow> {n} | RemoveCancel n k i \<Rightarrow> {n} | RemoveWait n k i \<Rightarrow> {n}
     | RemoveClose n k i \<Rightarrow> {n} | RemoveForget n k \<Rightarrow> {n} | RemoveDef n k \<Rightarrow> {n})"
| "holds (Renaming p) = (case p of RenameLock a b \<Rightarrow> {} | RenameLock2 a b \<Rightarrow> {fst (lock_order a b)} | RenameFind a b \<Rightarrow> {a, b}
     | RenameTaken a b i \<Rightarrow> {a, b} | RenameDef a b i \<Rightarrow> {a, b} | RenameOld a b i \<Rightarrow> {a, b} | RenameMove a b i \<Rightarrow> {a, b}
     | RenameSup a b i \<Rightarrow> {a, b} | RenameUnfile a b p \<Rightarrow> {a, b} | RenameFile a b p \<Rightarrow> {a, b} | RenameLog a b \<Rightarrow> {a, b})"
| "holds (Adding p) = (case p of AddLock s b \<Rightarrow> {} | AddDef s b \<Rightarrow> {sv_name s} | AddAdopt s b \<Rightarrow> {sv_name s})"
| "holds (Ensuring p) = (case p of EnsureLock s \<Rightarrow> {} | EnsureGet s \<Rightarrow> {sv_name s} | EnsureLive s d \<Rightarrow> {sv_name s}
     | EnsurePut s \<Rightarrow> {sv_name s} | EnsureFind s \<Rightarrow> {sv_name s})"
| "holds (Updating p) = (case p of UpdateLock n g \<Rightarrow> {} | UpdateDef n g \<Rightarrow> {n} | UpdateSup n d \<Rightarrow> {n})"
| "holds (ShuttingDown p) = {}"

text \<open>The supervisors an operation is looking after although the map does not lead to them.\<close>

definition mid :: "op_pc \<Rightarrow> nat \<Rightarrow> bool" where
  "mid pc j \<longleftrightarrow>
     (case pc of
        Restarting p \<Rightarrow> (case p of RestartCancel n i k \<Rightarrow> j = i | RestartWait n i k \<Rightarrow> j = i | _ \<Rightarrow> False)
      | Renaming p \<Rightarrow> (case p of RenameSup a b i \<Rightarrow> j = i | _ \<Rightarrow> False)
      | _ \<Rightarrow> False)"

definition moving :: "op_pc \<Rightarrow> bytes \<Rightarrow> nat \<Rightarrow> bool" where
  "moving pc n i \<longleftrightarrow> (case pc of Renaming p \<Rightarrow> (case p of RenameSup a b k \<Rightarrow> b = n \<and> k = i | _ \<Rightarrow> False) | _ \<Rightarrow> False)"

fun op_ok :: "fab \<Rightarrow> op_pc \<Rightarrow> bool" where
  "op_ok f (Starting p) =
     (case p of StartEnable n i \<Rightarrow> at_name f n i \<and> only f n i \<and> bound f n i
      | StartCheck n i \<Rightarrow> at_name f n i \<and> only f n i \<and> bound f n i
      | StartRun n i \<Rightarrow> at_name f n i \<and> only f n i \<and> bound f n i
      | _ \<Rightarrow> True)"
| "op_ok f (Stopping p) =
     (case p of StopEnable n i \<Rightarrow> at_name f n i \<and> only f n i
      | StopCancel n i \<Rightarrow> at_name f n i \<and> only f n i \<and> disabled f n
      | StopWait n i \<Rightarrow> at_name f n i \<and> only f n i \<and> disabled f n
      | _ \<Rightarrow> True)"
| "op_ok f (Restarting p) =
     (case p of RestartSwap n i \<Rightarrow> at_name f n i \<and> only f n i
      | RestartCancel n i j \<Rightarrow> at_name f n i \<and> only f n i \<and> at_name f n j \<and> asleep f j \<and> bound f n j
      | RestartWait n i j \<Rightarrow> at_name f n i \<and> only f n i \<and> at_name f n j \<and> asleep f j \<and> bound f n j
      | RestartEnable n j \<Rightarrow> only f n j \<and> at_name f n j \<and> bound f n j
      | _ \<Rightarrow> True)"
| "op_ok f (Removing p) =
     (case p of RemoveCancel n k i \<Rightarrow> at_name f n i \<and> only f n i
      | RemoveWait n k i \<Rightarrow> at_name f n i \<and> only f n i
      | RemoveClose n k i \<Rightarrow> none_alive f n
      | RemoveForget n k \<Rightarrow> none_alive f n
      | RemoveDef n k \<Rightarrow> none_alive f n \<and> unmapped f n
      | _ \<Rightarrow> True)"
| "op_ok f (Renaming p) =
     (case p of RenameLock2 a b \<Rightarrow> a \<noteq> b
      | RenameFind a b \<Rightarrow> a \<noteq> b
      | RenameTaken a b i \<Rightarrow> a \<noteq> b \<and> at_name f a i \<and> only f a i \<and> bound f a i
      | RenameDef a b i \<Rightarrow> a \<noteq> b \<and> at_name f a i \<and> only f a i \<and> bound f a i \<and> (fb_closed f \<or> unmapped f b)
      | RenameOld a b i \<Rightarrow> a \<noteq> b \<and> at_name f a i \<and> only f a i \<and> bound f a i \<and> (fb_closed f \<or> unmapped f b)
      | RenameMove a b i \<Rightarrow> a \<noteq> b \<and> at_name f a i \<and> only f a i \<and> bound f a i \<and> (fb_closed f \<or> unmapped f b)
      | RenameSup a b i \<Rightarrow> a \<noteq> b \<and> at_name f a i \<and> only f a i \<and> none_alive f b \<and> mapped f b i \<and> unmapped f a
      | _ \<Rightarrow> True)"
| "op_ok f pc = True"

lemmas view_defs = at_name_def only_def none_alive_def bound_def unmapped_def asleep_def disabled_def mapped_def

text \<open>An assertion speaks of the names held only, so it survives what keeps their view.\<close>

lemma kept_view:
  assumes "kept n f f'"
  shows "at_name f n i \<Longrightarrow> at_name f' n i" "only f n i \<Longrightarrow> only f' n i" "none_alive f n \<Longrightarrow> none_alive f' n"
    "bound f n i \<Longrightarrow> bound f' n i" "unmapped f n \<Longrightarrow> unmapped f' n" "disabled f n \<Longrightarrow> disabled f' n" "mapped f n i \<Longrightarrow> mapped f' n i"
    "at_name f n i \<Longrightarrow> asleep f i \<Longrightarrow> asleep f' i" "fb_closed f \<or> unmapped f n \<Longrightarrow> fb_closed f' \<or> unmapped f' n"
  using assms unfolding kept_def view_defs by auto

lemma op_ok_kept:
  assumes "\<And>n. n \<in> holds pc \<Longrightarrow> kept n f f'" "op_ok f pc"
  shows "op_ok f' pc"
proof (cases pc)
  case (Starting p)
  then show ?thesis using assms by (cases p) (simp_all add: kept_view)
next
  case (Stopping p)
  then show ?thesis using assms by (cases p) (simp_all add: kept_view)
next
  case (Restarting p)
  then show ?thesis using assms by (cases p) (auto simp: kept_view)
next
  case (Removing p)
  then show ?thesis using assms by (cases p) (simp_all add: kept_view)
next
  case (Renaming p)
  then show ?thesis using assms by (cases p) (auto dest: kept_view)
qed (use assms in simp_all)

section \<open>Every interleaving\<close>

fun is_entry :: "op_pc \<Rightarrow> bool" where
  "is_entry (Starting p) = (case p of StartLock n \<Rightarrow> True | _ \<Rightarrow> False)"
| "is_entry (Stopping p) = (case p of StopLock n \<Rightarrow> True | _ \<Rightarrow> False)"
| "is_entry (Restarting p) = (case p of RestartLock n \<Rightarrow> True | _ \<Rightarrow> False)"
| "is_entry (Removing p) = (case p of RemoveLock n k \<Rightarrow> True | _ \<Rightarrow> False)"
| "is_entry (Renaming p) = (case p of RenameLock a b \<Rightarrow> True | _ \<Rightarrow> False)"
| "is_entry (Adding p) = (case p of AddLock s b \<Rightarrow> True | _ \<Rightarrow> False)"
| "is_entry (Ensuring p) = (case p of EnsureLock s \<Rightarrow> True | _ \<Rightarrow> False)"
| "is_entry (Updating p) = (case p of UpdateLock n g \<Rightarrow> True | _ \<Rightarrow> False)"
| "is_entry (ShuttingDown p) = (case p of ShutdownFlag \<Rightarrow> True | _ \<Rightarrow> False)"
| "is_entry (Returned e) = False"

definition effect :: "effect \<Rightarrow> fab \<Rightarrow> fab" where
  "effect x f =
     (case x of
        OnRunning n pid open_pty \<Rightarrow> if open_pty then f\<lparr>fb_store := (n, pid) # fb_store f\<rparr> else f
      | OnEnded n pid \<Rightarrow> f\<lparr>fb_store := removeAll (n, pid) (fb_store f)\<rparr>
      | Notify \<Rightarrow> f
      | Say b \<Rightarrow> f)"

definition named_registry :: "registry \<Rightarrow> bool" where
  "named_registry r \<longleftrightarrow> (\<forall>n s. reg_look r n = Some s \<longrightarrow> sv_name s = n)"

text \<open>
  A fabric comes up on a registry whose files are under the names they give, with at most one handover
  for a service; then calls come in, operations and loops take steps. A write to a closed buffer fails.
\<close>

inductive fab_reach :: "fab \<times> op_pc list \<Rightarrow> bool" where
  boot: "named_registry r \<Longrightarrow> distinct (map ho_name hs) \<Longrightarrow>
     fab_reach (snd (adopt_all there v dir_ok readable hs (new_fabric r log_dir)), [])"
| call: "fab_reach (f, ts) \<Longrightarrow> is_entry pc \<Longrightarrow> fab_reach (f, ts @ [pc])"
| oper: "fab_reach (f, ts) \<Longrightarrow> t < length ts \<Longrightarrow> op_step t v (ts ! t) f = Some (pc, f') \<Longrightarrow> fab_reach (f', ts[t := pc])"
| loop: "fab_reach (f, ts) \<Longrightarrow> j < length (fb_heap f) \<Longrightarrow> says_why e \<Longrightarrow>
     en_write e = None \<longleftrightarrow> su_out (sup_of f j) \<notin> set (fb_shut f) \<Longrightarrow>
     sup_step e (fb_cancelled f) (sup_of f j) = Some (s', fx) \<Longrightarrow> fab_reach (fold effect fx (set_sup j s' f), ts)"

section \<open>The invariant\<close>

definition locks_ok :: "fab \<Rightarrow> op_pc list \<Rightarrow> bool" where
  "locks_ok f ts \<longleftrightarrow> (\<forall>n t. fb_locks f n = Some t \<longleftrightarrow> t < length ts \<and> n \<in> holds (ts ! t))"

definition map_ok :: "fab \<Rightarrow> op_pc list \<Rightarrow> bool" where
  "map_ok f ts \<longleftrightarrow> (\<forall>n i. mapped f n i \<longrightarrow> i < length (fb_heap f) \<and>
     (nm f i = n \<or> (\<exists>t < length ts. n \<in> holds (ts ! t) \<and> moving (ts ! t) n i)))"

definition led_to :: "fab \<Rightarrow> op_pc list \<Rightarrow> bool" where
  "led_to f ts \<longleftrightarrow> fb_closed f \<or> (\<forall>j. alive f j \<longrightarrow>
     mapped f (nm f j) j \<or> (\<exists>t < length ts. nm f j \<in> holds (ts ! t) \<and> mid (ts ! t) j))"

lemma led_toI:
  "(\<And>j. \<not> fb_closed f \<Longrightarrow> alive f j \<Longrightarrow> mapped f (nm f j) j \<or> (\<exists>t < length ts. nm f j \<in> holds (ts ! t) \<and> mid (ts ! t) j)) \<Longrightarrow> led_to f ts"
  by (auto simp: led_to_def)

definition unique :: "fab \<Rightarrow> bool" where
  "unique f \<longleftrightarrow> (\<forall>i j. alive f i \<and> alive f j \<and> nm f i = nm f j \<longrightarrow> i = j)"

definition sups_ok :: "fab \<Rightarrow> bool" where
  "sups_ok f \<longleftrightarrow> (\<forall>j < length (fb_heap f). sup_ok (sup_of f j))"

definition fab_ok :: "fab \<Rightarrow> op_pc list \<Rightarrow> bool" where
  "fab_ok f ts \<longleftrightarrow> locks_ok f ts \<and> (\<forall>t < length ts. op_ok f (ts ! t)) \<and> map_ok f ts \<and> led_to f ts \<and> unique f \<and>
     sups_ok f \<and> named_registry (fb_reg f)"

lemma fab_okD:
  assumes "fab_ok f ts"
  shows "locks_ok f ts" "t < length ts \<Longrightarrow> op_ok f (ts ! t)" "map_ok f ts" "led_to f ts" "unique f" "sups_ok f" "named_registry (fb_reg f)"
  using assms by (auto simp: fab_ok_def)

lemma lock_owner:
  assumes "locks_ok f ts" "t < length ts" "u < length ts" "n \<in> holds (ts ! t)" "n \<in> holds (ts ! u)"
  shows "u = t"
  using assms unfolding locks_ok_def by (metis option.inject)

lemma step_keeps:
  assumes ok: "fab_ok f ts" and t: "t < length ts"
    and lk: "\<And>n. fb_locks f' n = (if n \<in> holds pc' then Some t else if n \<in> holds (ts ! t) then None else fb_locks f n)"
    and free: "\<And>n. n \<in> holds pc' \<Longrightarrow> n \<notin> holds (ts ! t) \<Longrightarrow> fb_locks f n = None"
    and kp: "\<And>n. n \<notin> holds (ts ! t) \<Longrightarrow> kept n f f'"
    and op: "op_ok f' pc'"
    and mp: "\<And>n i. n \<in> holds (ts ! t) \<Longrightarrow> mapped f' n i \<Longrightarrow> i < length (fb_heap f') \<and> (nm f' i = n \<or> n \<in> holds pc' \<and> moving pc' n i)"
    and ld: "\<And>j. \<not> fb_closed f' \<Longrightarrow> alive f' j \<Longrightarrow> nm f' j \<in> holds (ts ! t) \<Longrightarrow> mapped f' (nm f' j) j \<or> nm f' j \<in> holds pc' \<and> mid pc' j"
    and un: "unique f'" and su: "sups_ok f'" and rg: "named_registry (fb_reg f')"
  shows "fab_ok f' (ts[t := pc'])"
proof -
  note d = fab_okD[OF ok]
  have others: "u \<noteq> t \<Longrightarrow> u < length ts \<Longrightarrow> n \<in> holds (ts ! u) \<Longrightarrow> n \<notin> holds (ts ! t)" for u n
    using lock_owner[OF d(1) t] by blast
  have locks: "locks_ok f' (ts[t := pc'])" unfolding locks_ok_def
  proof (intro allI)
    fix n u
    show "(fb_locks f' n = Some u) = (u < length (ts[t := pc']) \<and> n \<in> holds (ts[t := pc'] ! u))"
    proof (cases "u = t")
      case True
      have "fb_locks f n = Some t \<longleftrightarrow> n \<in> holds (ts ! t)" using d(1) t by (simp add: locks_ok_def)
      then show ?thesis using True t lk[of n] by auto
    next
      case False
      have "fb_locks f n = Some u \<longleftrightarrow> u < length ts \<and> n \<in> holds (ts ! u)" using d(1) by (simp add: locks_ok_def)
      moreover have "n \<in> holds pc' \<Longrightarrow> \<not> (u < length ts \<and> n \<in> holds (ts ! u))"
        using free[of n] others[of u n] False \<open>fb_locks f n = Some u \<longleftrightarrow> _\<close> by auto
      moreover have "n \<in> holds (ts ! t) \<Longrightarrow> \<not> (u < length ts \<and> n \<in> holds (ts ! u))" using others[of u n] False by blast
      ultimately show ?thesis using False lk[of n] by auto
    qed
  qed
  have "op_ok f' (ts[t := pc'] ! u)" if "u < length (ts[t := pc'])" for u
  proof (cases "u = t")
    case False
    then have "op_ok f' (ts ! u)" using op_ok_kept[of "ts ! u" f f'] kp others that d(2)[of u] by auto
    then show ?thesis using False by simp
  qed (use op t in simp)
  moreover have "map_ok f' (ts[t := pc'])" unfolding map_ok_def
  proof (intro allI impI)
    fix n i assume m: "mapped f' n i"
    show "i < length (fb_heap f') \<and> (nm f' i = n \<or> (\<exists>u<length (ts[t := pc']). n \<in> holds (ts[t := pc'] ! u) \<and> moving (ts[t := pc'] ! u) n i))"
    proof (cases "n \<in> holds (ts ! t)")
      case True
      then show ?thesis using mp[OF True m] t by (metis length_list_update nth_list_update_eq)
    next
      case False
      have k: "kept n f f'" by (rule kp[OF False])
      then have "mapped f n i" using m by (simp add: kept_def mapped_def)
      then have o: "i < length (fb_heap f)" "nm f i = n \<or> (\<exists>u<length ts. n \<in> holds (ts ! u) \<and> moving (ts ! u) n i)"
        using d(3) by (auto simp: map_ok_def)
      have "i < length (fb_heap f')" "nm f i = n \<Longrightarrow> nm f' i = n" using k o(1) by (auto simp: kept_def)
      moreover have "\<exists>v<length (ts[t := pc']). n \<in> holds (ts[t := pc'] ! v) \<and> moving (ts[t := pc'] ! v) n i"
        if "u < length ts" "n \<in> holds (ts ! u)" "moving (ts ! u) n i" for u
        using that False by (intro exI[of _ u]) (metis length_list_update nth_list_update_neq)
      ultimately show ?thesis using o(2) by blast
    qed
  qed
  moreover have "led_to f' (ts[t := pc'])"
  proof (cases "fb_closed f'")
    case False
    have "mapped f' (nm f' j) j \<or> (\<exists>u<length (ts[t := pc']). nm f' j \<in> holds (ts[t := pc'] ! u) \<and> mid (ts[t := pc'] ! u) j)"
      if a: "alive f' j" for j
    proof (cases "nm f' j \<in> holds (ts ! t)")
      case True
      then show ?thesis using ld[OF False a True] t by (metis length_list_update nth_list_update_eq)
    next
      case out: False
      have k: "kept (nm f' j) f f'" by (rule kp[OF out])
      then have b: "alive f j" "nm f j = nm f' j" "\<not> fb_closed f" "mapped f (nm f j) j \<Longrightarrow> mapped f' (nm f' j) j"
        using a False by (auto simp: kept_def mapped_def)
      then have "mapped f (nm f j) j \<or> (\<exists>u<length ts. nm f j \<in> holds (ts ! u) \<and> mid (ts ! u) j)"
        using d(4) by (auto simp: led_to_def)
      moreover have "\<exists>v<length (ts[t := pc']). nm f' j \<in> holds (ts[t := pc'] ! v) \<and> mid (ts[t := pc'] ! v) j"
        if "u < length ts" "nm f j \<in> holds (ts ! u)" "mid (ts ! u) j" for u
        using that out b(2) by (intro exI[of _ u]) (metis length_list_update nth_list_update_neq)
      ultimately show ?thesis using b(4) by blast
    qed
    then show ?thesis by (simp add: led_to_def)
  qed (simp add: led_to_def)
  ultimately show ?thesis using locks un su rg by (simp add: fab_ok_def)
qed

section \<open>Steps that start nothing and move nothing\<close>

definition still :: "fab \<Rightarrow> fab \<Rightarrow> bool" where
  "still f f' \<longleftrightarrow>
     fb_sups f' = fb_sups f \<and> length (fb_heap f') = length (fb_heap f) \<and> (fb_closed f \<longrightarrow> fb_closed f') \<and>
     (\<forall>j < length (fb_heap f). nm f' j = nm f j \<and> su_started (sup_of f' j) = su_started (sup_of f j) \<and> (alive f' j \<longrightarrow> alive f j))"

lemma still_alive: "still f f' \<Longrightarrow> alive f' j \<Longrightarrow> alive f j \<and> nm f' j = nm f j"
  by (auto simp: still_def alive_def)

lemma still_view:
  assumes "still f f'"
  shows "at_name f n i \<Longrightarrow> at_name f' n i" "only f n i \<Longrightarrow> only f' n i" "none_alive f n \<Longrightarrow> none_alive f' n"
    "bound f n i \<Longrightarrow> bound f' n i" "unmapped f n \<Longrightarrow> unmapped f' n" "mapped f n i \<longleftrightarrow> mapped f' n i"
    "at_name f n i \<Longrightarrow> asleep f i \<Longrightarrow> asleep f' i" "fb_closed f \<or> unmapped f n \<Longrightarrow> fb_closed f' \<or> unmapped f' n"
  using assms still_alive[OF assms] unfolding still_def view_defs by auto

lemma still_kept:
  assumes "still f f'" "reg_look (fb_reg f') n = reg_look (fb_reg f) n"
  shows "kept n f f'"
  using assms still_alive[OF assms(1)] by (auto simp: still_def kept_def)

lemma still_same: "fb_heap f' = fb_heap f \<Longrightarrow> fb_sups f' = fb_sups f \<Longrightarrow> fb_closed f \<longrightarrow> fb_closed f' \<Longrightarrow> still f f'"
  by (auto simp: still_def nm_def alive_def sup_of_def)

lemma sups_same: "fb_heap f' = fb_heap f \<Longrightarrow> sups_ok f \<Longrightarrow> sups_ok f'"
  by (simp add: sups_ok_def sup_of_def)

lemma quiet:
  assumes ok: "fab_ok f ts" and t: "t < length ts"
    and lk: "\<And>n. fb_locks f' n = (if n \<in> holds pc' then Some t else if n \<in> holds (ts ! t) then None else fb_locks f n)"
    and free: "\<And>n. n \<in> holds pc' \<Longrightarrow> n \<notin> holds (ts ! t) \<Longrightarrow> fb_locks f n = None"
    and st: "still f f'" "sups_ok f'" and rg: "named_registry (fb_reg f')" "\<And>n. n \<notin> holds (ts ! t) \<Longrightarrow> reg_look (fb_reg f') n = reg_look (fb_reg f) n"
    and pc: "\<And>n i. \<not> moving (ts ! t) n i" "\<And>j. mid (ts ! t) j \<Longrightarrow> alive f' j \<Longrightarrow> mid pc' j \<and> holds (ts ! t) \<subseteq> holds pc'"
    and op: "op_ok f' pc'"
  shows "fab_ok f' (ts[t := pc'])"
proof (rule step_keeps[OF ok t lk free])
  note d = fab_okD[OF ok]
  show "kept n f f'" if "n \<notin> holds (ts ! t)" for n by (rule still_kept[OF st(1) rg(2)[OF that]])
  show "i < length (fb_heap f') \<and> (nm f' i = n \<or> n \<in> holds pc' \<and> moving pc' n i)" if "n \<in> holds (ts ! t)" "mapped f' n i" for n i
  proof -
    have "mapped f n i" using that(2) still_view(6)[OF st(1)] by blast
    then have "i < length (fb_heap f)" "nm f i = n \<or> (\<exists>u<length ts. n \<in> holds (ts ! u) \<and> moving (ts ! u) n i)"
      using d(3) by (auto simp: map_ok_def)
    moreover have "\<not> (u < length ts \<and> n \<in> holds (ts ! u) \<and> moving (ts ! u) n i)" for u
      using lock_owner[OF d(1) t, of u n] that(1) pc(1) by blast
    ultimately show ?thesis using st(1) by (auto simp: still_def)
  qed
  show "mapped f' (nm f' j) j \<or> nm f' j \<in> holds pc' \<and> mid pc' j" if "\<not> fb_closed f'" "alive f' j" "nm f' j \<in> holds (ts ! t)" for j
  proof -
    have a: "alive f j" "nm f' j = nm f j" "\<not> fb_closed f" using still_alive[OF st(1) that(2)] that(1) st(1) by (auto simp: still_def)
    then have "mapped f (nm f j) j \<or> (\<exists>u<length ts. nm f j \<in> holds (ts ! u) \<and> mid (ts ! u) j)" using d(4) by (auto simp: led_to_def)
    moreover have "u = t" if "u < length ts" "nm f j \<in> holds (ts ! u)" for u
      using lock_owner[OF d(1) t that(1)] \<open>nm f' j \<in> holds (ts ! t)\<close> that(2) a(2) by auto
    ultimately show ?thesis using pc(2)[OF _ that(2)] that(3) a(2) still_view(6)[OF st(1)] by auto
  qed
  show "unique f'" using d(5) still_alive[OF st(1)] by (auto simp: unique_def)
qed (use op st rg in auto)

text \<open>The three things a step does with locks: keep them, return with none, take one more.\<close>

lemma held: "locks_ok f ts \<Longrightarrow> t < length ts \<Longrightarrow> n \<in> holds (ts ! t) \<longleftrightarrow> fb_locks f n = Some t"
  by (simp add: locks_ok_def)

lemma quiet_on:
  assumes "fab_ok f ts" "t < length ts" "ts ! t = pc" "fb_locks f' = fb_locks f" "holds pc' = holds pc"
    "still f f'" "sups_ok f'" "named_registry (fb_reg f')" "\<And>n. n \<notin> holds pc \<Longrightarrow> reg_look (fb_reg f') n = reg_look (fb_reg f) n"
    "\<And>n i. \<not> moving pc n i" "\<And>j. mid pc j \<Longrightarrow> alive f' j \<Longrightarrow> mid pc' j" "op_ok f' pc'"
  shows "fab_ok f' (ts[t := pc'])"
  by (rule quiet[OF assms(1,2)]) (use assms held[OF fab_okD(1)[OF assms(1)] assms(2)] in auto)

lemma quiet_done:
  assumes "fab_ok f ts" "t < length ts" "ts ! t = pc" "fb_locks f1 = fb_locks f"
    "still f f1" "sups_ok f1" "named_registry (fb_reg f1)" "\<And>n. n \<notin> holds pc \<Longrightarrow> reg_look (fb_reg f1) n = reg_look (fb_reg f) n"
    "\<And>n i. \<not> moving pc n i" "\<And>j. mid pc j \<Longrightarrow> \<not> alive f1 j" "finish t e f1 = Some (pc', f')"
  shows "fab_ok f' (ts[t := pc'])"
proof -
  have f': "pc' = Returned e" "f' = release t f1" using assms(11) by (simp_all add: finish_def)
  have s: "fb_heap f' = fb_heap f1" "fb_sups f' = fb_sups f1" "fb_closed f' = fb_closed f1" "fb_reg f' = fb_reg f1"
    by (simp_all add: f' release_def)
  have a: "alive f' j = alive f1 j" "nm f' j = nm f1 j" "sup_of f' j = sup_of f1 j" for j using s by (simp_all add: alive_def nm_def sup_of_def)
  show ?thesis
  proof (rule quiet[OF assms(1,2)])
    show "fb_locks f' n = (if n \<in> holds pc' then Some t else if n \<in> holds (ts ! t) then None else fb_locks f n)" for n
      using held[OF fab_okD(1)[OF assms(1)] assms(2)] assms(4) by (simp add: f' release_def)
    show "still f f'" using assms(5) s a by (simp add: still_def)
    show "sups_ok f'" using assms(6) s by (simp add: sups_same)
  qed (use assms s a in \<open>auto simp: f'(1)\<close>)
qed

lemma quiet_lock:
  assumes "fab_ok f ts" "t < length ts" "ts ! t = pc" "locked t n pc1 f = Some (pc', f')" "holds pc1 = insert n (holds pc)"
    "\<And>n i. \<not> moving pc n i" "\<And>j. \<not> mid pc j" "op_ok f pc1"
  shows "fab_ok f' (ts[t := pc'])"
proof -
  have f': "pc' = pc1" "fb_locks f n = None" "f' = f\<lparr>fb_locks := (fb_locks f)(n \<mapsto> t)\<rparr>"
    using assms(4) by (auto simp: locked_def acquire_def split: if_split_asm)
  have s: "still f f'" "sups_ok f'" using fab_okD(6)[OF assms(1)] by (auto simp: f' sups_ok_def sup_of_def intro!: still_same)
  have "op_ok f' pc1" by (rule op_ok_kept[OF still_kept[OF s(1)] assms(8)]) (simp add: f'(3))
  then show ?thesis unfolding f'(1)
    by (intro quiet[OF assms(1,2)])
      (use assms s held[OF fab_okD(1)[OF assms(1)] assms(2)] f' fab_okD(7)[OF assms(1)] in auto)
qed

section \<open>The registry under the operations\<close>

lemma put_writes:
  assumes "reg_put now fault d r = (e, r')" "named_registry r"
  shows "named_registry r'" "n \<noteq> sv_name d \<Longrightarrow> reg_look r' n = reg_look r n" "e = None \<Longrightarrow> reg_look r' (sv_name d) = Some (created now d)"
proof -
  have "succeeds (reg_put now fault d r) = (e = None, r')" by (simp add: succeeds_def assms(1))
  then show "n \<noteq> sv_name d \<Longrightarrow> reg_look r' n = reg_look r n" by (rule reg_putting.put_keeps_others)
  show look: "reg_look r' (sv_name d) = Some (created now d)" if "e = None"
    using reg_putting.look_put[of now fault d r r' "sv_name d"] assms(1) that by (simp add: succeeds_def)
  show "named_registry r'"
  proof (cases e)
    case None
    then show ?thesis using assms(2) reg_putting.look_put[of now fault d r r'] assms(1) by (auto simp: named_registry_def succeeds_def)
  next
    case (Some x)
    then show ?thesis using assms reg_putting.put_failed[of now fault d r r'] by (simp add: succeeds_def)
  qed
qed

lemma add_writes:
  assumes "reg_add now stat_ok fault d r = (e, r')" "named_registry r"
  shows "named_registry r'" "n \<noteq> sv_name d \<Longrightarrow> reg_look r' n = reg_look r n"
proof -
  have "succeeds (reg_add now stat_ok fault d r) = (e = None, r')" by (simp add: succeeds_def assms(1))
  then show "n \<noteq> sv_name d \<Longrightarrow> reg_look r' n = reg_look r n" by (rule reg_adding.put_keeps_others)
  show "named_registry r'"
  proof (cases e)
    case None
    then show ?thesis using assms(2) reg_adding.look_put[of now stat_ok fault d r r'] assms(1) by (auto simp: named_registry_def succeeds_def)
  next
    case (Some x)
    then show ?thesis using assms reg_adding.put_failed[of now stat_ok fault d r r'] by (simp add: succeeds_def)
  qed
qed

lemma remove_writes:
  assumes "reg_remove ok m r = (e, r')" "named_registry r"
  shows "named_registry r'" "n \<noteq> m \<Longrightarrow> reg_look r' n = reg_look r n"
proof -
  have s: "succeeds (reg_remove ok m r) = (e = None, r')" by (simp add: succeeds_def assms(1))
  then show "n \<noteq> m \<Longrightarrow> reg_look r' n = reg_look r n" by (rule reg_putting.drop_keeps_others)
  show "named_registry r'"
  proof (cases e)
    case None
    then show ?thesis using assms(2) reg_putting.look_drop[of ok m r r'] s by (auto simp: named_registry_def)
  next
    case (Some x)
    then show ?thesis using assms reg_putting.drop_failed[of ok m r r'] s by simp
  qed
qed

lemma get_name: "reg_get ok n r = Inr d \<Longrightarrow> named_registry r \<Longrightarrow> sv_name d = n"
  using reg_get_found[of ok n r d] by (auto simp: named_registry_def)

lemma set_enabled_writes:
  assumes "set_enabled v n b f = (e, f')" "named_registry (fb_reg f)"
  shows "fb_heap f' = fb_heap f" "fb_sups f' = fb_sups f" "fb_closed f' = fb_closed f" "fb_locks f' = fb_locks f"
    "named_registry (fb_reg f')" "m \<noteq> n \<Longrightarrow> reg_look (fb_reg f') m = reg_look (fb_reg f) m"
    "e = None \<Longrightarrow> \<exists>s. reg_look (fb_reg f') n = Some s \<and> sv_enabled s = b"
proof -
  show c: "fb_heap f' = fb_heap f" "fb_sups f' = fb_sups f" "fb_closed f' = fb_closed f" "fb_locks f' = fb_locks f"
    using assms(1) by (auto simp: set_enabled_def split: sum.split_asm if_split_asm prod.split_asm)
  show "named_registry (fb_reg f')" "m \<noteq> n \<Longrightarrow> reg_look (fb_reg f') m = reg_look (fb_reg f) m"
    "e = None \<Longrightarrow> \<exists>s. reg_look (fb_reg f') n = Some s \<and> sv_enabled s = b"
  proof (goal_cases)
    case 1
    then show ?case using assms put_writes(1) by (auto simp: set_enabled_def split: sum.split_asm if_split_asm prod.split_asm)
  next
    case 2
    then show ?case using assms put_writes(2) get_name
      by (auto simp: set_enabled_def split: sum.split_asm if_split_asm prod.split_asm)
  next
    case 3
    show ?case
    proof (cases "reg_get (fa_readable v) n (fb_reg f)")
      case (Inr d)
      have n: "sv_name d = n" by (rule get_name[OF Inr assms(2)])
      show ?thesis
      proof (cases "sv_enabled d = b")
        case True
        then show ?thesis using assms(1) Inr reg_get_found[OF Inr] by (auto simp: set_enabled_def)
      next
        case False
        then obtain r where r: "reg_put (fa_now v) (fa_fault v) (d\<lparr>sv_enabled := b\<rparr>) (fb_reg f) = (None, r)" "f' = f\<lparr>fb_reg := r\<rparr>"
          using assms(1) Inr 3 by (auto simp: set_enabled_def split: prod.split_asm)
        from put_writes(3)[OF r(1) assms(2)] show ?thesis using n r(2) by simp
      qed
    qed (use assms(1) 3 in \<open>auto simp: set_enabled_def\<close>)
  qed
qed

section \<open>What an operation may conclude under its lock\<close>

lemma found:
  assumes "fab_ok f ts" "t < length ts" "n \<in> holds (ts ! t)" "\<And>j. \<not> mid (ts ! t) j" "\<And>n i. \<not> moving (ts ! t) n i"
    and "find_sup n f = Inr i"
  shows "at_name f n i \<and> only f n i \<and> bound f n i"
proof -
  note d = fab_okD[OF assms(1)]
  have m: "mapped f n i" "\<not> fb_closed f" using assms(6) by (auto simp: find_sup_def mapped_def split: if_split_asm option.split_asm)
  have me: "u = t" if "u < length ts" "n \<in> holds (ts ! u)" for u using lock_owner[OF d(1) assms(2) that(1) assms(3) that(2)] .
  have "i < length (fb_heap f)" "nm f i = n \<or> (\<exists>u<length ts. n \<in> holds (ts ! u) \<and> moving (ts ! u) n i)"
    using d(3) m(1) by (auto simp: map_ok_def)
  then have "i < length (fb_heap f)" "nm f i = n" using me assms(5) by blast+
  moreover have "j = i" if "alive f j" "nm f j = n" for j
    using d(4) m me assms(4) that by (auto simp: led_to_def mapped_def)
  ultimately show ?thesis using m by (auto simp: at_name_def only_def bound_def)
qed

lemma not_found:
  assumes "fab_ok f ts" "t < length ts" "n \<in> holds (ts ! t)" "\<And>j. \<not> mid (ts ! t) j"
    and "\<not> fb_closed f" "unmapped f n"
  shows "none_alive f n"
  unfolding none_alive_def
proof (intro allI impI notI)
  note d = fab_okD[OF assms(1)]
  fix j assume j: "alive f j" "nm f j = n"
  have me: "u = t" if "u < length ts" "n \<in> holds (ts ! u)" for u using lock_owner[OF d(1) assms(2) that(1) assms(3) that(2)] .
  show False using d(4) me assms(4-6) j by (auto simp: led_to_def mapped_def unmapped_def)
qed

lemma alive_live: "sups_ok f \<Longrightarrow> alive f j \<Longrightarrow> status_live (su_status (sup_of f j)) \<and> su_started (sup_of f j)"
  by (auto simp: sups_ok_def alive_def sup_ok_def status_live_def)

lemma stopped_dead: "sups_ok f \<Longrightarrow> sup_stopped (sup_of f j) \<Longrightarrow> \<not> alive f j"
  by (auto simp: sup_stopped_def alive_def sups_ok_def sup_ok_def)

lemma only_dead: "only f n i \<Longrightarrow> \<not> alive f i \<Longrightarrow> none_alive f n"
  by (auto simp: only_def none_alive_def)

section \<open>A supervisor more\<close>

text \<open>Appending a supervisor that has not started, and possibly leading a name to it.\<close>

definition grown :: "fab \<Rightarrow> fab \<Rightarrow> service \<Rightarrow> bytes \<Rightarrow> bool" where
  "grown f f1 svc n \<longleftrightarrow>
     (\<exists>a b. fb_heap f1 = fb_heap f @ [new_supervisor svc a b]) \<and> fb_reg f1 = fb_reg f \<and> fb_locks f1 = fb_locks f \<and>
     fb_closed f1 = fb_closed f \<and>
     (if fb_closed f then fb_sups f1 = fb_sups f else map_of (fb_sups f1) = (map_of (fb_sups f))(n \<mapsto> length (fb_heap f)))"

lemma grownI:
  assumes "fb_heap f1 = fb_heap f @ [new_supervisor svc a b]" "fb_reg f1 = fb_reg f" "fb_locks f1 = fb_locks f" "fb_closed f1 = fb_closed f"
    "fb_sups f1 = (if fb_closed f then fb_sups f else AList.update n (length (fb_heap f)) (fb_sups f))"
  shows "grown f f1 svc n"
  using assms unfolding grown_def by (simp add: update_conv') blast

lemma grown_view:
  assumes "grown f f1 svc n"
  shows "k < length (fb_heap f) \<Longrightarrow> sup_of f1 k = sup_of f k" "alive f1 k \<longleftrightarrow> alive f k" "alive f k \<Longrightarrow> nm f1 k = nm f k"
    "k < length (fb_heap f) \<Longrightarrow> nm f1 k = nm f k" "nm f1 (length (fb_heap f)) = sv_name svc" "\<not> su_started (sup_of f1 (length (fb_heap f)))"
    "length (fb_heap f1) = Suc (length (fb_heap f))" "m \<noteq> n \<Longrightarrow> map_of (fb_sups f1) m = map_of (fb_sups f) m"
proof -
  obtain a b where h: "fb_heap f1 = fb_heap f @ [new_supervisor svc a b]" using assms by (auto simp: grown_def)
  have s: "sup_of f1 k = sup_of f k" if "k < length (fb_heap f)" for k using that by (simp add: sup_of_def h nth_append)
  have l: "sup_of f1 (length (fb_heap f)) = new_supervisor svc a b" by (simp add: sup_of_def h)
  show "k < length (fb_heap f) \<Longrightarrow> sup_of f1 k = sup_of f k" by (rule s)
  show "alive f1 k \<longleftrightarrow> alive f k" using s[of k] l by (cases "k = length (fb_heap f)") (auto simp: alive_def h new_supervisor_def)
  show "alive f k \<Longrightarrow> nm f1 k = nm f k" using s[of k] by (simp add: alive_def nm_def)
  show "k < length (fb_heap f) \<Longrightarrow> nm f1 k = nm f k" using s[of k] by (simp add: nm_def)
  show "nm f1 (length (fb_heap f)) = sv_name svc" "\<not> su_started (sup_of f1 (length (fb_heap f)))" by (simp_all add: nm_def l new_supervisor_def)
  show "length (fb_heap f1) = Suc (length (fb_heap f))" by (simp add: h)
  show "m \<noteq> n \<Longrightarrow> map_of (fb_sups f1) m = map_of (fb_sups f) m" using assms by (auto simp: grown_def split: if_split_asm)
qed

lemma grown_sups: "grown f f1 svc n \<Longrightarrow> sups_ok f \<Longrightarrow> sups_ok f1"
proof -
  assume g: "grown f f1 svc n" and o: "sups_ok f"
  obtain a b where h: "fb_heap f1 = fb_heap f @ [new_supervisor svc a b]" using g by (auto simp: grown_def)
  have "sup_ok (new_supervisor svc a b)" by (rule sup_reach_ok[OF sup_reach.made])
  then show ?thesis using o by (auto simp: sups_ok_def sup_of_def h nth_append less_Suc_eq)
qed

lemma grown_keeps:
  assumes ok: "fab_ok f ts" and t: "t < length ts" and g: "grown f f1 svc n" and n: "n = sv_name svc" "n \<in> holds (ts ! t)"
    and pc: "holds pc' = holds (ts ! t)" "\<And>n i. \<not> moving (ts ! t) n i" "op_ok f1 pc'"
    and ld: "\<And>j. \<not> fb_closed f \<Longrightarrow> alive f j \<Longrightarrow> nm f j = n \<Longrightarrow> mid pc' j" "\<And>j. \<not> mid (ts ! t) j"
  shows "fab_ok f1 (ts[t := pc'])"
proof (rule step_keeps[OF ok t])
  note d = fab_okD[OF ok] and v = grown_view[OF g]
  have e: "fb_reg f1 = fb_reg f" "fb_locks f1 = fb_locks f" "fb_closed f1 = fb_closed f" using g by (simp_all add: grown_def)
  show "fb_locks f1 m = (if m \<in> holds pc' then Some t else if m \<in> holds (ts ! t) then None else fb_locks f m)" for m
    using held[OF d(1) t, of m] by (simp add: e pc(1))
  show "kept m f f1" if "m \<notin> holds (ts ! t)" for m
  proof -
    have "m \<noteq> n" using that n(2) by blast
    then show ?thesis using v e by (auto simp: kept_def n(1))
  qed
  show "i < length (fb_heap f1) \<and> (nm f1 i = m \<or> m \<in> holds pc' \<and> moving pc' m i)" if "m \<in> holds (ts ! t)" "mapped f1 m i" for m i
  proof (cases "m = n \<and> \<not> fb_closed f")
    case True
    then have "i = length (fb_heap f)" using that g by (simp add: grown_def mapped_def)
    then show ?thesis using True v(5,7) n by simp
  next
    case False
    then have "mapped f m i" using that(2) v(8)[of m] g by (auto simp: grown_def mapped_def)
    then have "i < length (fb_heap f)" "nm f i = m \<or> (\<exists>u<length ts. m \<in> holds (ts ! u) \<and> moving (ts ! u) m i)"
      using d(3) by (auto simp: map_ok_def)
    moreover have "\<not> (u < length ts \<and> m \<in> holds (ts ! u) \<and> moving (ts ! u) m i)" for u
      using lock_owner[OF d(1) t, of u m] that(1) pc(2) by blast
    ultimately show ?thesis using v(4,7) by auto
  qed
  show "mapped f1 (nm f1 j) j \<or> nm f1 j \<in> holds pc' \<and> mid pc' j" if "\<not> fb_closed f1" "alive f1 j" "nm f1 j \<in> holds (ts ! t)" for j
  proof (cases "nm f1 j = n")
    case True
    then show ?thesis using ld(1)[of j] that v(2,3) e pc(1) n by auto
  next
    case False
    have a: "alive f j" "nm f1 j = nm f j" using that v by auto
    then have "mapped f (nm f j) j \<or> (\<exists>u<length ts. nm f j \<in> holds (ts ! u) \<and> mid (ts ! u) j)" using d(4) that(1) e by (auto simp: led_to_def)
    moreover have "u = t" if "u < length ts" "nm f j \<in> holds (ts ! u)" for u
      using lock_owner[OF d(1) t that(1)] \<open>nm f1 j \<in> holds (ts ! t)\<close> that(2) a(2) by auto
    ultimately show ?thesis using ld(2) False a(2) v(8)[of "nm f j"] by (auto simp: mapped_def)
  qed
  show "unique f1" using d(5) v(2,3) by (auto simp: unique_def)
  show "sups_ok f1" by (rule grown_sups[OF g d(6)])
qed (use pc g fab_okD(7)[OF ok] in \<open>auto simp: grown_def\<close>)

lemma replace_grown:
  assumes "replace_sup r n i f = (j, f1)" "at_name f n i" "named_registry (fb_reg f)"
  shows "j = length (fb_heap f)" "\<exists>svc. grown f f1 svc n \<and> sv_name svc = n"
proof -
  show "j = length (fb_heap f)" using assms(1) by (simp add: replace_sup_def Let_def)
  define svc where "svc = (case reg_get r n (fb_reg f) of Inr d \<Rightarrow> d | Inl e \<Rightarrow> su_svc (sup_of f i))"
  have "sv_name svc = n" using assms(2,3) get_name by (auto simp: svc_def at_name_def nm_def split: sum.split)
  moreover have "grown f f1 svc n"
    by (rule grownI[where a = "su_out (sup_of f i)" and b = "su_watchers (sup_of f i)"]; cases "fb_closed f")
      (use assms(1) in \<open>auto simp: replace_sup_def Let_def svc_def\<close>)
  ultimately show "\<exists>svc. grown f f1 svc n \<and> sv_name svc = n" by blast
qed

lemma adopt_grown:
  assumes "fab_adopt svc f = (e, f1)"
  shows "f1 = f \<or> e = None \<and> \<not> fb_closed f \<and> unmapped f (sv_name svc) \<and> grown f f1 svc (sv_name svc)"
  using assms
  by (auto simp: fab_adopt_def make_sup_def unmapped_def split: option.split_asm if_split_asm
      intro!: grownI[where a = "fb_next f" and b = "fb_next f"])

section \<open>Starting\<close>

lemma started_form:
  assumes "i < length (fb_heap f)"
  shows "su_started (sup_of f i) \<Longrightarrow> start_sup i f = f"
    "\<not> su_started (sup_of f i) \<Longrightarrow> sup_of (start_sup i f) j = (if j = i then snd (sup_start (sup_of f i)) else sup_of f j)"
    "fb_sups (start_sup i f) = fb_sups f" "fb_reg (start_sup i f) = fb_reg f" "fb_locks (start_sup i f) = fb_locks f"
    "fb_closed (start_sup i f) = fb_closed f" "length (fb_heap (start_sup i f)) = length (fb_heap f)"
    "nm (start_sup i f) j = nm f j" "alive (start_sup i f) j \<Longrightarrow> j \<noteq> i \<Longrightarrow> alive f j"
  using assms by (auto simp: start_sup_def set_sup_def sup_of_def sup_start_def nm_def alive_def set_status_def nth_list_update)

lemma start_keeps_fab:
  assumes ok: "fab_ok f ts" and t: "t < length ts" and i: "at_name f n i" "only f n i" "bound f n i" "n \<in> holds (ts ! t)"
    and pc: "holds pc' = holds (ts ! t)" "\<And>n i. \<not> moving (ts ! t) n i" "\<And>j. \<not> mid (ts ! t) j" "\<And>g. op_ok g pc'"
  shows "fab_ok (start_sup i f) (ts[t := pc'])"
proof (rule step_keeps[OF ok t])
  note d = fab_okD[OF ok] and v = started_form
  have il: "i < length (fb_heap f)" "nm f i = n" using i(1) by (simp_all add: at_name_def)
  note v = started_form[OF il(1)]
  show "fb_locks (start_sup i f) m = (if m \<in> holds pc' then Some t else if m \<in> holds (ts ! t) then None else fb_locks f m)" for m
    using held[OF d(1) t, of m] by (simp add: v pc(1))
  have others: "alive f j" if "alive (start_sup i f) j" "nm f j \<noteq> n" for j
    using that il(2) v(9) by blast
  show "kept m f (start_sup i f)" if "m \<notin> holds (ts ! t)" for m
  proof -
    have "m \<noteq> n" using that i(4) by blast
    then show ?thesis using v il others
      by (auto simp: kept_def) (metis v(1,2))+
  qed
  show "k < length (fb_heap (start_sup i f)) \<and> (nm (start_sup i f) k = m \<or> m \<in> holds pc' \<and> moving pc' m k)"
    if "m \<in> holds (ts ! t)" "mapped (start_sup i f) m k" for m k
  proof -
    have "mapped f m k" using that(2) by (simp add: mapped_def v)
    then have "k < length (fb_heap f)" "nm f k = m \<or> (\<exists>u<length ts. m \<in> holds (ts ! u) \<and> moving (ts ! u) m k)"
      using d(3) by (auto simp: map_ok_def)
    moreover have "\<not> (u < length ts \<and> m \<in> holds (ts ! u) \<and> moving (ts ! u) m k)" for u
      using lock_owner[OF d(1) t, of u m] that(1) pc(2) by blast
    ultimately show ?thesis by (auto simp: v)
  qed
  show "mapped (start_sup i f) (nm (start_sup i f) j) j \<or> nm (start_sup i f) j \<in> holds pc' \<and> mid pc' j"
    if "\<not> fb_closed (start_sup i f)" "alive (start_sup i f) j" "nm (start_sup i f) j \<in> holds (ts ! t)" for j
  proof (cases "j = i")
    case True
    then show ?thesis using i(3) that(1) il(2) by (simp add: bound_def mapped_def v)
  next
    case False
    then have a: "alive f j" using that(2) v(9) by blast
    then have "mapped f (nm f j) j \<or> (\<exists>u<length ts. nm f j \<in> holds (ts ! u) \<and> mid (ts ! u) j)" using d(4) that(1) by (auto simp: led_to_def v)
    moreover have "u = t" if "u < length ts" "nm f j \<in> holds (ts ! u)" for u
      using lock_owner[OF d(1) t that(1)] \<open>nm (start_sup i f) j \<in> holds (ts ! t)\<close> that(2) by (auto simp: v)
    ultimately show ?thesis using pc(3) by (auto simp: mapped_def v)
  qed
  show "unique (start_sup i f)" unfolding unique_def
  proof (intro allI impI)
    fix a b assume ab: "alive (start_sup i f) a \<and> alive (start_sup i f) b \<and> nm (start_sup i f) a = nm (start_sup i f) b"
    show "a = b"
    proof (cases "nm f a = n")
      case True
      then have "nm f b = n" using ab by (simp add: v)
      then show ?thesis using True ab v(9) i(2) unfolding only_def by metis
    next
      case False
      then have "alive f a" "alive f b" "nm f a = nm f b" using ab others by (auto simp: v)
      then show ?thesis using d(5) by (auto simp: unique_def)
    qed
  qed
  show "sups_ok (start_sup i f)" unfolding sups_ok_def
  proof (intro allI impI)
    fix j assume j: "j < length (fb_heap (start_sup i f))"
    have "sup_ok (snd (sup_start (sup_of f i)))" using sup_do_ok[of "sup_of f i" Begin] d(6) il(1) by (simp add: sups_ok_def)
    then show "sup_ok (sup_of (start_sup i f) j)" using d(6) j v by (cases "su_started (sup_of f i)") (auto simp: sups_ok_def)
  qed
qed (use pc fab_okD(7)[OF ok] started_form(4)[of i f] i(1) in \<open>auto simp: at_name_def\<close>)

section \<open>Cancelling and redefining\<close>

text \<open>A change of one supervisor that neither renames nor starts it.\<close>

lemma sup_of_set: "sup_of (set_sup i s f) j = (if j = i \<and> i < length (fb_heap f) then s else sup_of f j)"
  by (cases "i < length (fb_heap f)") (simp_all add: sup_of_def set_sup_def nth_list_update list_update_beyond)

lemma changed_rest [simp]:
  "fb_reg (set_sup i s f) = fb_reg f" "fb_locks (set_sup i s f) = fb_locks f" "fb_closed (set_sup i s f) = fb_closed f"
  "fb_sups (set_sup i s f) = fb_sups f" "length (fb_heap (set_sup i s f)) = length (fb_heap f)"
  by (simp_all add: set_sup_def)

lemma changed_still:
  assumes "sv_name (su_svc s') = sv_name (su_svc (sup_of f i))" "su_started s' = su_started (sup_of f i)"
    "su_pc s' = su_pc (sup_of f i) \<or> su_pc s' \<in> {LEnded, LDone} \<or> su_pc (sup_of f i) \<notin> {LIdle, LEnded, LDone}"
  shows "still f (set_sup i s' f)"
  using assms by (auto simp: still_def sup_of_set nm_def alive_def)

lemma changed_sups: "sups_ok f \<Longrightarrow> sup_ok s' \<Longrightarrow> sups_ok (set_sup i s' f)"
  by (auto simp: sups_ok_def sup_of_set)

lemma cancel_still: "still f (cancel_sup i f)"
  unfolding cancel_sup_def by (rule changed_still) (simp_all add: sup_cancel_def)

lemma cancel_sups:
  assumes "sups_ok f"
  shows "sups_ok (cancel_sup i f)"
proof (cases "i < length (fb_heap f)")
  case True
  then have "sup_ok (sup_cancel (sup_of f i))" using assms sup_do_ok[of "sup_of f i" Cancel] by (simp add: sups_ok_def)
  then show ?thesis unfolding cancel_sup_def by (rule changed_sups[OF assms])
next
  case False
  then have "cancel_sup i f = f" by (simp add: cancel_sup_def set_sup_def list_update_beyond)
  then show ?thesis using assms by simp
qed

lemma still_trans: "still f g \<Longrightarrow> still g h \<Longrightarrow> still f h"
  by (auto simp: still_def)

lemma still_refl: "still f f"
  by (simp add: still_def)

lemma cancel_all:
  "still f (fold cancel_sup xs f)" "sups_ok f \<Longrightarrow> sups_ok (fold cancel_sup xs f)" "fb_reg (fold cancel_sup xs f) = fb_reg f"
  "fb_locks (fold cancel_sup xs f) = fb_locks f"
proof (induction xs arbitrary: f)
  case (Cons i rest)
  {
    case 1 show ?case using still_trans[OF cancel_still[of f i] Cons(1)] by simp
  next
    case 2 then show ?case using Cons(2)[OF cancel_sups] by simp
  next
    case 3 show ?case using Cons(3)[of "cancel_sup i f"] by (simp add: cancel_sup_def)
  next
    case 4 show ?case using Cons(4)[of "cancel_sup i f"] by (simp add: cancel_sup_def)
  }
qed (simp_all add: still_refl)

section \<open>Forgetting and moving a name\<close>

lemma forget_keeps:
  assumes ok: "fab_ok f ts" and t: "t < length ts" and n: "none_alive f n" "holds (ts ! t) = {n}" "holds pc' = {n}" "op_ok f' pc'"
    and pc: "\<And>n i. \<not> moving (ts ! t) n i" and f': "f' = f\<lparr>fb_sups := AList.delete n (fb_sups f)\<rparr>"
  shows "fab_ok f' (ts[t := pc'])"
proof (rule step_keeps[OF ok t])
  note d = fab_okD[OF ok]
  have same: "alive f' j = alive f j" "nm f' j = nm f j" "sup_of f' j = sup_of f j" for j by (simp_all add: f' alive_def nm_def sup_of_def)
  show "fb_locks f' m = (if m \<in> holds pc' then Some t else if m \<in> holds (ts ! t) then None else fb_locks f m)" for m
    using held[OF d(1) t, of m] n by (simp add: f')
  show "kept m f f'" if "m \<notin> holds (ts ! t)" for m using that n(2) same by (auto simp: kept_def f' delete_conv')
  show "i < length (fb_heap f') \<and> (nm f' i = m \<or> m \<in> holds pc' \<and> moving pc' m i)" if "m \<in> holds (ts ! t)" "mapped f' m i" for m i
    using that n(2) by (simp add: mapped_def f' delete_conv')
  show "mapped f' (nm f' j) j \<or> nm f' j \<in> holds pc' \<and> mid pc' j" if "\<not> fb_closed f'" "alive f' j" "nm f' j \<in> holds (ts ! t)" for j
    using that n(1,2) same by (auto simp: none_alive_def)
  show "unique f'" using d(5) same by (simp add: unique_def)
  show "sups_ok f'" using d(6) same by (simp add: sups_ok_def f')
qed (use n fab_okD(7)[OF ok] f' in auto)

lemma move_keeps:
  assumes ok: "fab_ok f ts" and t: "t < length ts" and p: "ts ! t = Renaming (RenameMove a b i)" and c: "\<not> fb_closed f"
    and f': "f' = f\<lparr>fb_sups := AList.update b i (AList.delete a (fb_sups f))\<rparr>"
  shows "fab_ok f' (ts[t := Renaming (RenameSup a b i)])"
proof (rule step_keeps[OF ok t])
  note d = fab_okD[OF ok]
  have o: "a \<noteq> b" "at_name f a i" "only f a i" "mapped f a i" "unmapped f b"
    using d(2)[OF t] c by (simp_all add: p bound_def)
  have nb: "none_alive f b" by (rule not_found[OF ok t _ _ c o(5)]) (simp_all add: p mid_def)
  have same: "alive f' j = alive f j" "nm f' j = nm f j" "sup_of f' j = sup_of f j" for j by (simp_all add: f' alive_def nm_def sup_of_def)
  have m: "map_of (fb_sups f') = (\<lambda>n. if n = b then Some i else if n = a then None else map_of (fb_sups f) n)"
    by (auto simp: f' update_conv' delete_conv')
  show "fb_locks f' n = (if n \<in> holds (Renaming (RenameSup a b i)) then Some t else if n \<in> holds (ts ! t) then None else fb_locks f n)" for n
    using held[OF d(1) t, of n] by (simp add: f' p)
  show "kept n f f'" if "n \<notin> holds (ts ! t)" for n using that same by (auto simp: kept_def m p) (simp_all add: f')
  show "op_ok f' (Renaming (RenameSup a b i))" using o nb same m
    by (auto simp: at_name_def only_def none_alive_def mapped_def unmapped_def) (simp add: f')
  show "k < length (fb_heap f') \<and> (nm f' k = n \<or> n \<in> holds (Renaming (RenameSup a b i)) \<and> moving (Renaming (RenameSup a b i)) n k)"
    if "n \<in> holds (ts ! t)" "mapped f' n k" for n k
  proof -
    have "fb_heap f' = fb_heap f" by (simp add: f')
    then show ?thesis using that o(2) by (auto simp: p mapped_def m moving_def at_name_def split: if_split_asm)
  qed
  show "mapped f' (nm f' j) j \<or> nm f' j \<in> holds (Renaming (RenameSup a b i)) \<and> mid (Renaming (RenameSup a b i)) j"
    if "\<not> fb_closed f'" "alive f' j" "nm f' j \<in> holds (ts ! t)" for j
    using that o nb same by (auto simp: p mid_def only_def none_alive_def)
  show "unique f'" using d(5) same by (simp add: unique_def)
  show "sups_ok f'" using d(6) same by (simp add: sups_ok_def f')
qed (use fab_okD(7)[OF ok] f' p in auto)

lemma renamed_keeps:
  assumes ok: "fab_ok f ts" and t: "t < length ts" and p: "ts ! t = Renaming (RenameSup a b i)"
    and f': "f' = set_sup i (snd (sup_rename b (sup_of f i))) f" and pc': "holds pc' = {a, b}" "op_ok f' pc'"
  shows "fab_ok f' (ts[t := pc'])"
proof (rule step_keeps[OF ok t])
  note d = fab_okD[OF ok]
  have o: "a \<noteq> b" "at_name f a i" "only f a i" "none_alive f b" "mapped f b i" "unmapped f a" using d(2)[OF t] by (simp_all add: p)
  have il: "i < length (fb_heap f)" "nm f i = a" using o(2) by (simp_all add: at_name_def)
  have nmf: "nm f' j = (if j = i then b else nm f j)" for j
    using il(1) by (simp add: f' nm_def sup_of_set sup_rename_def set_status_def)
  have al: "alive f' j = alive f j" for j
    using il(1) by (simp add: f' alive_def sup_of_set sup_rename_def set_status_def)
  have stt: "su_started (sup_of f' j) = su_started (sup_of f j)" for j
    using il(1) by (simp add: f' sup_of_set sup_rename_def set_status_def)
  have rest: "fb_sups f' = fb_sups f" "fb_closed f' = fb_closed f" "fb_locks f' = fb_locks f" "fb_reg f' = fb_reg f" "length (fb_heap f') = length (fb_heap f)"
    by (simp_all add: f')
  show "fb_locks f' n = (if n \<in> holds pc' then Some t else if n \<in> holds (ts ! t) then None else fb_locks f n)" for n
    using held[OF d(1) t, of n] by (simp add: rest p pc')
  show "kept n f f'" if "n \<notin> holds (ts ! t)" for n using that il(2) nmf al stt rest by (auto simp: kept_def p)
  show "k < length (fb_heap f') \<and> (nm f' k = n \<or> n \<in> holds pc' \<and> moving pc' n k)" if "n \<in> holds (ts ! t)" "mapped f' n k" for n k
    using that o il nmf by (auto simp: p mapped_def unmapped_def rest)
  show "mapped f' (nm f' j) j \<or> nm f' j \<in> holds pc' \<and> mid pc' j" if "\<not> fb_closed f'" "alive f' j" "nm f' j \<in> holds (ts ! t)" for j
    using that o(3,4,5) nmf al by (auto simp: p only_def none_alive_def mapped_def rest split: if_split_asm)
  show "unique f'" using d(5) o(4) nmf al by (auto simp: unique_def none_alive_def split: if_split_asm)
  have "sup_ok (snd (sup_rename b (sup_of f i)))" using sup_do_ok[of "sup_of f i" "Renamed b"] d(6) il(1) by (simp add: sups_ok_def)
  then show "sups_ok f'" using changed_sups[OF d(6)] by (simp add: f')
qed (use fab_okD(7)[OF ok] f' p pc' in auto)

section \<open>Each operation keeps the invariant\<close>

lemma mid_simps [simp]:
  "\<not> mid (Starting a) j" "\<not> mid (Stopping b) j" "\<not> mid (Removing c) j" "\<not> mid (Adding d) j" "\<not> mid (Ensuring g) j" "\<not> mid (Updating h) j"
  "\<not> mid (ShuttingDown u) j" "\<not> mid (Returned e) j" "mid (Restarting (RestartCancel n i k)) j \<longleftrightarrow> j = i"
  "mid (Restarting (RestartWait n i k)) j \<longleftrightarrow> j = i" "mid (Renaming (RenameSup x y i)) j \<longleftrightarrow> j = i"
  by (simp_all add: mid_def)

lemma moving_simps [simp]:
  "\<not> moving (Starting a) n i" "\<not> moving (Stopping b) n i" "\<not> moving (Removing c) n i" "\<not> moving (Adding d) n i" "\<not> moving (Ensuring g) n i"
  "\<not> moving (Updating h) n i" "\<not> moving (ShuttingDown u) n i" "\<not> moving (Returned e) n i" "\<not> moving (Restarting r) n i"
  by (simp_all add: moving_def)

lemma set_back: "t < length ts \<Longrightarrow> (ts[t := x])[t := y] = ts[t := y]"
  by simp

lemma then_finish:
  assumes "fab_ok f (ts[t := x])" "t < length ts" "\<And>j. \<not> mid x j" "\<And>n i. \<not> moving x n i" "finish t e f = Some (pc', f')"
  shows "fab_ok f' (ts[t := pc'])"
proof -
  have "fab_ok f' ((ts[t := x])[t := pc'])"
    by (rule quiet_done[where pc = x and f = f and ?f1.0 = f]) (use assms fab_okD[OF assms(1)] in \<open>auto simp: still_refl\<close>)
  then show ?thesis by simp
qed

lemma finish_now:
  assumes "fab_ok f ts" "t < length ts" "\<And>j. \<not> mid (ts ! t) j" "\<And>n i. \<not> moving (ts ! t) n i" "finish t e f = Some (pc', f')"
  shows "fab_ok f' (ts[t := pc'])"
  using then_finish[of f ts t "ts ! t"] assms by simp

lemma with_sup_op:
  assumes "fab_ok f ts" "t < length ts" "ts ! t = pc" "with_sup t n k f = Some (pc', f')" "n \<in> holds pc" "\<And>i. holds (k i) = holds pc"
    "\<And>j. \<not> mid pc j" "\<And>n i. \<not> moving pc n i" "\<And>i. at_name f n i \<Longrightarrow> only f n i \<Longrightarrow> bound f n i \<Longrightarrow> op_ok f (k i)"
  shows "fab_ok f' (ts[t := pc'])"
proof (cases "find_sup n f")
  case (Inl e)
  then show ?thesis using finish_now[OF assms(1,2)] assms by (simp add: with_sup_def)
next
  case (Inr i)
  then have f': "f' = f" "pc' = k i" using assms(4) by (simp_all add: with_sup_def)
  have "at_name f n i \<and> only f n i \<and> bound f n i" by (rule found[OF assms(1,2) _ _ _ Inr]) (use assms in auto)
  then show ?thesis unfolding f'
    by (intro quiet_on[OF assms(1,2,3)]) (use assms fab_okD[OF assms(1)] in \<open>auto simp: still_refl\<close>)
qed

lemma enabling_op:
  assumes "fab_ok f ts" "t < length ts" "ts ! t = pc" "enabling t v n b k f = Some (pc', f')" "holds pc = {n}" "holds k = {n}"
    "\<And>j. \<not> mid pc j" "\<And>n i. \<not> moving pc n i"
    "\<And>g. still f g \<Longrightarrow> \<exists>s. reg_look (fb_reg g) n = Some s \<and> sv_enabled s = b \<Longrightarrow> op_ok g k"
  shows "fab_ok f' (ts[t := pc'])"
proof -
  obtain e g where g: "set_enabled v n b f = (e, g)" by (cases "set_enabled v n b f")
  note w = set_enabled_writes[OF g fab_okD(7)[OF assms(1)]]
  have s: "still f g" "sups_ok g" using w fab_okD(6)[OF assms(1)] by (auto intro: still_same sups_same[of g f])
  show ?thesis
  proof (cases e)
    case None
    then have f': "f' = g" "pc' = k" using assms(4) g by (simp_all add: enabling_def)
    show ?thesis unfolding f' by (rule quiet_on[OF assms(1,2,3)]) (use assms w s None in auto)
  next
    case (Some x)
    then have "finish t (Some (Registry x)) g = Some (pc', f')" using assms(4) g by (simp add: enabling_def)
    then show ?thesis by (intro quiet_done[OF assms(1,2,3)]) (use assms w s in auto)
  qed
qed

text \<open>Putting one supervisor in another's place.\<close>

lemma replace_op:
  assumes "fab_ok f ts" "t < length ts" "ts ! t = pc" "replace_sup r n i f = (j, f1)" "at_name f n i" "only f n i" "holds pc = {n}" "holds pc' = {n}"
    "\<And>j. \<not> mid pc j" "\<And>n i. \<not> moving pc n i" "alive f i \<Longrightarrow> mid pc' i"
    "at_name f1 n j \<Longrightarrow> at_name f1 n i \<Longrightarrow> only f1 n i \<Longrightarrow> asleep f1 j \<Longrightarrow> bound f1 n j \<Longrightarrow> (\<not> alive f i \<Longrightarrow> only f1 n j) \<Longrightarrow> op_ok f1 pc'"
  shows "fab_ok f1 (ts[t := pc'])"
proof -
  obtain svc where g: "grown f f1 svc n" "sv_name svc = n" "j = length (fb_heap f)"
    using replace_grown[OF assms(4,5) fab_okD(7)[OF assms(1)]] by blast
  note v = grown_view[OF g(1)]
  show ?thesis
  proof (rule grown_keeps[OF assms(1,2) g(1)])
    show "op_ok f1 pc'"
    proof (rule assms(12))
      show "at_name f1 n j" "at_name f1 n i" "asleep f1 j" using v g assms(5) by (simp_all add: at_name_def asleep_def)
      show "only f1 n i" using assms(6) v by (auto simp: only_def)
      show "bound f1 n j" using g by (auto simp: bound_def mapped_def grown_def)
      show "only f1 n j" if "\<not> alive f i" using only_dead[OF assms(6) that] v by (auto simp: only_def none_alive_def)
    qed
    show "mid pc' k" if "\<not> fb_closed f" "alive f k" "nm f k = n" for k using assms(6,11) that by (auto simp: only_def)
  qed (use assms g in auto)
qed

lemma start_op:
  assumes "fab_ok f ts" "t < length ts" "ts ! t = Starting p" "start_step t v p f = Some (pc', f')"
  shows "fab_ok f' (ts[t := pc'])"
proof (cases p)
  case (StartLock n)
  show ?thesis by (rule quiet_lock[OF assms(1-3)]) (use assms(4) StartLock in auto)
next
  case (StartFind n)
  show ?thesis by (rule with_sup_op[OF assms(1-3)]) (use assms(4) StartFind in auto)
next
  case (StartEnable n i)
  show ?thesis
    by (rule enabling_op[OF assms(1-3)]) (use assms(4) StartEnable fab_okD(2)[OF assms(1,2)] still_view in \<open>auto simp: assms(3)\<close>)
next
  case (StartCheck n i)
  have o: "at_name f n i" "only f n i" "bound f n i" using fab_okD(2)[OF assms(1,2)] by (simp_all add: assms(3) StartCheck)
  show ?thesis
  proof (cases "status_live (su_status (sup_of f i))")
    case True
    then have f': "f' = f" "pc' = Starting (StartRun n i)" using assms(4) by (simp_all add: StartCheck)
    show ?thesis unfolding f'
      by (rule quiet_on[OF assms(1-3)]) (use o fab_okD[OF assms(1)] in \<open>auto simp: StartCheck still_refl\<close>)
  next
    case False
    obtain j f1 where r: "replace_sup (fa_readable v) n i f = (j, f1)" by (cases "replace_sup (fa_readable v) n i f")
    then have f': "f' = f1" "pc' = Starting (StartRun n j)" using assms(4) False by (simp_all add: StartCheck)
    have "\<not> alive f i" using False alive_live[OF fab_okD(6)[OF assms(1)]] by blast
    then show ?thesis unfolding f' by (intro replace_op[OF assms(1-3) r o(1,2)]) (simp_all add: StartCheck)
  qed
next
  case (StartRun n i)
  have o: "at_name f n i" "only f n i" "bound f n i" using fab_okD(2)[OF assms(1,2)] by (simp_all add: assms(3) StartRun)
  have "fab_ok (start_sup i f) (ts[t := Starting (StartFind n)])"
    by (rule start_keeps_fab[OF assms(1,2) o]) (simp_all add: assms(3) StartRun)
  then show ?thesis by (rule then_finish) (use assms StartRun in simp_all)
qed

lemma stop_op:
  assumes "fab_ok f ts" "t < length ts" "ts ! t = Stopping p" "stop_step t v p f = Some (pc', f')"
  shows "fab_ok f' (ts[t := pc'])"
proof (cases p)
  case (StopLock n)
  show ?thesis by (rule quiet_lock[OF assms(1-3)]) (use assms(4) StopLock in auto)
next
  case (StopFind n)
  show ?thesis by (rule with_sup_op[OF assms(1-3)]) (use assms(4) StopFind in auto)
next
  case (StopEnable n i)
  show ?thesis
    by (rule enabling_op[OF assms(1-3)]) (use assms(4) StopEnable fab_okD(2)[OF assms(1,2)] still_view in \<open>auto simp: assms(3) disabled_def\<close>)
next
  case (StopCancel n i)
  then have f': "f' = cancel_sup i f" "pc' = Stopping (StopWait n i)" using assms(4) by simp_all
  have "fb_reg (cancel_sup i f) = fb_reg f" "fb_locks (cancel_sup i f) = fb_locks f" by (simp_all add: cancel_sup_def)
  then show ?thesis unfolding f'
    by (intro quiet_on[OF assms(1-3)])
      (use fab_okD[OF assms(1)] fab_okD(2)[OF assms(1,2)] StopCancel still_view[OF cancel_still[of f i]] in
        \<open>auto simp: assms(3) cancel_still cancel_sups disabled_def\<close>)
next
  case (StopWait n i)
  then have "finish t None f = Some (pc', f')" using assms(4) by (simp split: if_split_asm)
  then show ?thesis by (intro finish_now[OF assms(1,2)]) (simp_all add: assms(3))
qed

lemma restart_op:
  assumes "fab_ok f ts" "t < length ts" "ts ! t = Restarting p" "restart_step t v p f = Some (pc', f')"
  shows "fab_ok f' (ts[t := pc'])"
proof (cases p)
  case (RestartLock n)
  show ?thesis by (rule quiet_lock[OF assms(1-3)]) (use assms(4) RestartLock in \<open>auto simp: mid_def\<close>)
next
  case (RestartFind n)
  show ?thesis by (rule with_sup_op[OF assms(1-3)]) (use assms(4) RestartFind in \<open>auto simp: mid_def\<close>)
next
  case (RestartSwap n i)
  have o: "at_name f n i" "only f n i" using fab_okD(2)[OF assms(1,2)] by (simp_all add: assms(3) RestartSwap)
  obtain j f1 where r: "replace_sup (fa_readable v) n i f = (j, f1)" by (cases "replace_sup (fa_readable v) n i f")
  then have f': "f' = f1" "pc' = Restarting (RestartCancel n i j)" using assms(4) by (simp_all add: RestartSwap)
  show ?thesis unfolding f' by (rule replace_op[OF assms(1-3) r o]) (simp_all add: RestartSwap mid_def)
next
  case (RestartCancel n i j)
  then have f': "f' = cancel_sup i f" "pc' = Restarting (RestartWait n i j)" using assms(4) by simp_all
  have "fb_reg (cancel_sup i f) = fb_reg f" "fb_locks (cancel_sup i f) = fb_locks f" by (simp_all add: cancel_sup_def)
  then show ?thesis unfolding f'
    by (intro quiet_on[OF assms(1-3)])
      (use fab_okD[OF assms(1)] fab_okD(2)[OF assms(1,2)] RestartCancel still_view[OF cancel_still[of f i]] in
        \<open>auto simp: assms(3) cancel_still cancel_sups\<close>)
next
  case (RestartWait n i j)
  then have f': "f' = f" "pc' = Restarting (RestartEnable n j)" "sup_stopped (sup_of f i)" using assms(4) by (simp_all split: if_split_asm)
  have o: "only f n i" "at_name f n j" "bound f n j" using fab_okD(2)[OF assms(1,2)] by (simp_all add: assms(3) RestartWait)
  have dead: "\<not> alive f i" by (rule stopped_dead[OF fab_okD(6)[OF assms(1)] f'(3)])
  then have "only f n j" using only_dead[OF o(1)] by (auto simp: only_def none_alive_def)
  then show ?thesis unfolding f'(1,2)
    by (intro quiet_on[OF assms(1-3)]) (use fab_okD[OF assms(1)] o dead in \<open>auto simp: RestartWait still_refl\<close>)
next
  case (RestartEnable n j)
  show ?thesis
    by (rule enabling_op[OF assms(1-3)]) (use assms(4) RestartEnable fab_okD(2)[OF assms(1,2)] still_view in \<open>auto simp: assms(3) mid_def\<close>)
qed

text \<open>A step that only writes the registry, the store or the list of closed buffers.\<close>

lemma writes_only:
  assumes "fab_ok f ts" "fb_heap g = fb_heap f" "fb_sups g = fb_sups f" "fb_closed f \<longrightarrow> fb_closed g"
  shows "still f g" "sups_ok g"
  using still_same[OF assms(2-4)] sups_same[OF assms(2) fab_okD(6)[OF assms(1)]] by auto

lemma remove_op:
  assumes "fab_ok f ts" "t < length ts" "ts ! t = Removing p" "remove_step t v p f = Some (pc', f')"
  shows "fab_ok f' (ts[t := pc'])"
proof (cases p)
  case (RemoveLock n k)
  show ?thesis by (rule quiet_lock[OF assms(1-3)]) (use assms(4) RemoveLock in auto)
next
  case (RemoveFind n k)
  show ?thesis
  proof (cases "find_sup n f")
    case (Inr i)
    then have f': "f' = f" "pc' = Removing (RemoveCancel n k i)" using assms(4) by (simp_all add: RemoveFind)
    have "at_name f n i \<and> only f n i \<and> bound f n i" by (rule found[OF assms(1,2) _ _ _ Inr]) (simp_all add: assms(3) RemoveFind)
    then show ?thesis unfolding f'
      by (intro quiet_on[OF assms(1-3)]) (use fab_okD[OF assms(1)] in \<open>auto simp: RemoveFind still_refl\<close>)
  next
    case (Inl e)
    show ?thesis
    proof (cases "\<exists>m. e = NoSuchSupervisor m")
      case True
      then have f': "f' = f" "pc' = Removing (RemoveDef n k)" using assms(4) Inl by (auto simp: RemoveFind)
      have u: "unmapped f n" "\<not> fb_closed f" using Inl True by (auto simp: find_sup_def unmapped_def split: if_split_asm option.split_asm)
      then have "none_alive f n" by (intro not_found[OF assms(1,2)]) (simp_all add: assms(3) RemoveFind)
      then show ?thesis unfolding f'
        by (intro quiet_on[OF assms(1-3)]) (use u fab_okD[OF assms(1)] in \<open>auto simp: RemoveFind still_refl\<close>)
    next
      case False
      then have "finish t (Some e) f = Some (pc', f')" using assms(4) Inl by (cases e) (simp_all add: RemoveFind)
      then show ?thesis by (intro finish_now[OF assms(1,2)]) (simp_all add: assms(3))
    qed
  qed
next
  case (RemoveCancel n k i)
  then have f': "f' = cancel_sup i f" "pc' = Removing (RemoveWait n k i)" using assms(4) by simp_all
  have "fb_reg (cancel_sup i f) = fb_reg f" "fb_locks (cancel_sup i f) = fb_locks f" by (simp_all add: cancel_sup_def)
  then show ?thesis unfolding f'
    by (intro quiet_on[OF assms(1-3)])
      (use fab_okD[OF assms(1)] fab_okD(2)[OF assms(1,2)] RemoveCancel still_view[OF cancel_still[of f i]] in
        \<open>auto simp: assms(3) cancel_still cancel_sups\<close>)
next
  case (RemoveWait n k i)
  then have f': "f' = f" "pc' = Removing (RemoveClose n k i)" "sup_stopped (sup_of f i)" using assms(4) by (simp_all split: if_split_asm)
  have "only f n i" using fab_okD(2)[OF assms(1,2)] by (simp add: assms(3) RemoveWait)
  then have "none_alive f n" using only_dead stopped_dead[OF fab_okD(6)[OF assms(1)] f'(3)] by blast
  then show ?thesis unfolding f'(1,2)
    by (intro quiet_on[OF assms(1-3)]) (use fab_okD[OF assms(1)] in \<open>auto simp: RemoveWait still_refl\<close>)
next
  case (RemoveClose n k i)
  then have f': "f' = f\<lparr>fb_shut := su_out (sup_of f i) # fb_shut f\<rparr>" "pc' = Removing (RemoveForget n k)" using assms(4) by simp_all
  have w: "still f f'" "sups_ok f'" by (rule writes_only[OF assms(1)]; simp add: f'(1))+
  show ?thesis unfolding f'(2)
    by (rule quiet_on[OF assms(1-3) _ _ w])
      (use fab_okD[OF assms(1)] fab_okD(2)[OF assms(1,2)] still_view[OF w(1)] in \<open>auto simp: assms(3) RemoveClose f'(1)\<close>)
next
  case (RemoveForget n k)
  then have f': "f' = f\<lparr>fb_sups := AList.delete n (fb_sups f)\<rparr>" "pc' = Removing (RemoveDef n k)" using assms(4) by simp_all
  have "none_alive f n" using fab_okD(2)[OF assms(1,2)] by (simp add: assms(3) RemoveForget)
  then have "none_alive f' n \<and> unmapped f' n" by (simp add: f' none_alive_def alive_def nm_def sup_of_def unmapped_def delete_conv')
  then show ?thesis unfolding f'(2)
    using \<open>none_alive f n\<close> by (intro forget_keeps[OF assms(1,2) _ _ _ _ _ f'(1)]) (simp_all add: assms(3) RemoveForget)
next
  case (RemoveDef n k)
  obtain e r where r: "reg_remove (fa_removable v) n (fb_reg f) = (e, r)" by (cases "reg_remove (fa_removable v) n (fb_reg f)")
  obtain e' where f': "finish t e' (f\<lparr>fb_reg := r\<rparr>) = Some (pc', f')" using assms(4) r by (auto simp: RemoveDef split: option.split_asm)
  note w = remove_writes[OF r fab_okD(7)[OF assms(1)]]
  have s: "still f (f\<lparr>fb_reg := r\<rparr>)" "sups_ok (f\<lparr>fb_reg := r\<rparr>)" by (rule writes_only[OF assms(1)]; simp)+
  show ?thesis by (rule quiet_done[OF assms(1-3) _ s _ _ _ _ f']) (use w RemoveDef in auto)
qed

lemma rename_op:
  assumes "fab_ok f ts" "t < length ts" "ts ! t = Renaming p" "rename_step t v p f = Some (pc', f')"
  shows "fab_ok f' (ts[t := pc'])"
proof (cases p)
  case (RenameLock a b)
  have "pc' = Returned e \<Longrightarrow> ?thesis" if "finish t e f = Some (pc', f')" for e
    by (rule finish_now[OF assms(1,2) _ _ that]) (simp_all add: assms(3) RenameLock mid_def moving_def)
  moreover have ?thesis if "locked t (fst (lock_order a b)) (Renaming (RenameLock2 a b)) f = Some (pc', f')" "a \<noteq> b"
    by (rule quiet_lock[OF assms(1-3) that(1)]) (use that(2) RenameLock in \<open>simp_all add: mid_def moving_def\<close>)
  ultimately show ?thesis using assms(4) by (auto simp: RenameLock finish_def split: option.split_asm if_split_asm)
next
  case (RenameLock2 a b)
  have "a \<noteq> b" using fab_okD(2)[OF assms(1,2)] by (simp add: assms(3) RenameLock2)
  then show ?thesis using assms(4)
    by (intro quiet_lock[OF assms(1-3), of "snd (lock_order a b)" "Renaming (RenameFind a b)"])
      (auto simp: RenameLock2 mid_def moving_def lock_order_def)
next
  case (RenameFind a b)
  have "a \<noteq> b" using fab_okD(2)[OF assms(1,2)] by (simp add: assms(3) RenameFind)
  then show ?thesis using assms(4)
    by (intro with_sup_op[OF assms(1-3), of a "\<lambda>i. Renaming (RenameTaken a b i)"]) (auto simp: RenameFind mid_def moving_def)
next
  case (RenameTaken a b i)
  have o: "a \<noteq> b" "at_name f a i" "only f a i" "bound f a i" using fab_okD(2)[OF assms(1,2)] by (simp_all add: assms(3) RenameTaken)
  have fin: ?thesis if "finish t e f = Some (pc', f')" for e
    by (rule finish_now[OF assms(1,2) _ _ that]) (simp_all add: assms(3) RenameTaken mid_def moving_def)
  show ?thesis
  proof (cases "find_sup b f")
    case (Inr j)
    then show ?thesis using assms(4) by (intro fin) (simp add: RenameTaken)
  next
    case (Inl e)
    show ?thesis
    proof (cases "fa_taken v")
      case True
      then show ?thesis using assms(4) Inl by (intro fin) (simp add: RenameTaken)
    next
      case False
      then have f': "f' = f" "pc' = Renaming (RenameDef a b i)" using assms(4) Inl by (simp_all add: RenameTaken)
      have "fb_closed f \<or> unmapped f b" using Inl by (auto simp: find_sup_def unmapped_def split: if_split_asm option.split_asm)
      then show ?thesis unfolding f'
        by (intro quiet_on[OF assms(1-3)]) (use o fab_okD[OF assms(1)] in \<open>auto simp: RenameTaken still_refl mid_def moving_def\<close>)
    qed
  qed
next
  case (RenameDef a b i)
  have o: "a \<noteq> b" "at_name f a i" "only f a i" "bound f a i" "fb_closed f \<or> unmapped f b"
    using fab_okD(2)[OF assms(1,2)] by (simp_all add: assms(3) RenameDef)
  show ?thesis
  proof (cases "reg_get (fa_readable v) a (fb_reg f)")
    case (Inl e)
    then show ?thesis using assms(4)
      by (intro finish_now[OF assms(1,2), of "Some (Registry e)"]) (simp_all add: assms(3) RenameDef mid_def moving_def)
  next
    case (Inr d)
    obtain e r where r: "reg_add (fa_now v) (fa_stat_ok v) (fa_fault v) (d\<lparr>sv_name := b, sv_auto_name := False\<rparr>) (fb_reg f) = (e, r)" by fastforce
    note w = add_writes[OF r fab_okD(7)[OF assms(1)]]
    have s: "still f (f\<lparr>fb_reg := r\<rparr>)" "sups_ok (f\<lparr>fb_reg := r\<rparr>)" by (rule writes_only[OF assms(1)]; simp)+
    show ?thesis
    proof (cases e)
      case None
      then have f': "f' = f\<lparr>fb_reg := r\<rparr>" "pc' = Renaming (RenameOld a b i)" using assms(4) r Inr by (simp_all add: RenameDef)
      show ?thesis unfolding f'
        by (rule quiet_on[OF assms(1-3) _ _ s]) (use o w still_view[OF s(1)] in \<open>auto simp: RenameDef mid_def moving_def\<close>)
    next
      case (Some x)
      then have f': "finish t (Some (Registry x)) (f\<lparr>fb_reg := r\<rparr>) = Some (pc', f')" using assms(4) r Inr by (simp add: RenameDef)
      show ?thesis by (rule quiet_done[OF assms(1-3) _ s _ _ _ _ f']) (use w in \<open>auto simp: RenameDef mid_def moving_def\<close>)
    qed
  qed
next
  case (RenameOld a b i)
  have o: "a \<noteq> b" "at_name f a i" "only f a i" "bound f a i" "fb_closed f \<or> unmapped f b"
    using fab_okD(2)[OF assms(1,2)] by (simp_all add: assms(3) RenameOld)
  obtain e r where r: "reg_remove (fa_removable v) a (fb_reg f) = (e, r)" by fastforce
  note w = remove_writes[OF r fab_okD(7)[OF assms(1)]]
  show ?thesis
  proof (cases e)
    case None
    have s: "still f (f\<lparr>fb_reg := r\<rparr>)" "sups_ok (f\<lparr>fb_reg := r\<rparr>)" by (rule writes_only[OF assms(1)]; simp)+
    have f': "f' = f\<lparr>fb_reg := r\<rparr>" "pc' = Renaming (RenameMove a b i)" using assms(4) r None by (simp_all add: RenameOld)
    show ?thesis unfolding f'
      by (rule quiet_on[OF assms(1-3) _ _ s]) (use o w still_view[OF s(1)] in \<open>auto simp: RenameOld mid_def moving_def\<close>)
  next
    case (Some x)
    obtain e2 r2 where r2: "reg_remove (fa_undo v) b r = (e2, r2)" by fastforce
    note w2 = remove_writes[OF r2 w(1)]
    have s: "still f (f\<lparr>fb_reg := r2\<rparr>)" "sups_ok (f\<lparr>fb_reg := r2\<rparr>)" by (rule writes_only[OF assms(1)]; simp)+
    have f': "finish t (Some (Registry x)) (f\<lparr>fb_reg := r2\<rparr>) = Some (pc', f')" using assms(4) r r2 Some by (simp add: RenameOld)
    show ?thesis by (rule quiet_done[OF assms(1-3) _ s _ _ _ _ f']) (use w(2) w2 in \<open>auto simp: RenameOld mid_def moving_def\<close>)
  qed
next
  case (RenameMove a b i)
  show ?thesis
  proof (cases "fb_closed f")
    case True
    then show ?thesis using assms(4)
      by (intro finish_now[OF assms(1,2), of "Some FabricClosed"]) (simp_all add: assms(3) RenameMove mid_def moving_def)
  next
    case False
    then have "f' = f\<lparr>fb_sups := AList.update b i (AList.delete a (fb_sups f))\<rparr>" "pc' = Renaming (RenameSup a b i)"
      using assms(4) by (simp_all add: RenameMove)
    then show ?thesis using move_keeps[OF assms(1,2) _ False, of a b i f'] by (simp add: assms(3) RenameMove)
  qed
next
  case (RenameSup a b i)
  obtain q s where q: "sup_rename b (sup_of f i) = (q, s)" by fastforce
  have "f' = set_sup i (snd (sup_rename b (sup_of f i))) f" "holds pc' = {a, b}" "op_ok f' pc'"
    using assms(4) q by (auto simp: RenameSup split: option.split_asm)
  then show ?thesis using renamed_keeps[OF assms(1,2), of a b i f' pc'] by (simp add: assms(3) RenameSup)
next
  case (RenameUnfile a b q)
  then have f': "f' = f\<lparr>fb_store := removeAll (a, pr_pid q) (fb_store f)\<rparr>" "pc' = Renaming (RenameFile a b q)" using assms(4) by simp_all
  have w: "still f f'" "sups_ok f'" by (rule writes_only[OF assms(1)]; simp add: f'(1))+
  show ?thesis unfolding f'(2)
    by (rule quiet_on[OF assms(1-3) _ _ w]) (use fab_okD[OF assms(1)] in \<open>auto simp: RenameUnfile f'(1) mid_def moving_def\<close>)
next
  case (RenameFile a b q)
  then have f': "f' = (if fa_pty v then f\<lparr>fb_store := (b, pr_pid q) # fb_store f\<rparr> else f)" "pc' = Renaming (RenameLog a b)" using assms(4) by simp_all
  have w: "still f f'" "sups_ok f'" by (rule writes_only[OF assms(1)]; simp add: f'(1))+
  show ?thesis unfolding f'(2)
    by (rule quiet_on[OF assms(1-3) _ _ w]) (use fab_okD[OF assms(1)] in \<open>auto simp: RenameFile f'(1) mid_def moving_def\<close>)
next
  case (RenameLog a b)
  obtain e where "finish t e f = Some (pc', f')" using assms(4) by (simp add: RenameLog)
  then show ?thesis by (intro finish_now[OF assms(1,2)]) (simp_all add: assms(3) RenameLog mid_def moving_def)
qed

lemma adopt_op:
  assumes "fab_ok f ts" "t < length ts" "fab_adopt svc f = (e, f1)" "holds (ts ! t) = {sv_name svc}" "holds pc' = {sv_name svc}"
    "\<And>j. \<not> mid (ts ! t) j" "\<And>n i. \<not> moving (ts ! t) n i" "\<And>g. op_ok g pc'"
  shows "fab_ok f1 (ts[t := pc'])"
  using adopt_grown[OF assms(3)]
proof (elim disjE conjE)
  assume "f1 = f"
  then show ?thesis
    by (intro quiet_on[OF assms(1,2) refl]) (use assms fab_okD[OF assms(1)] in \<open>auto simp: still_refl\<close>)
next
  assume g: "grown f f1 svc (sv_name svc)" and c: "\<not> fb_closed f" "unmapped f (sv_name svc)"
  have "none_alive f (sv_name svc)" by (rule not_found[OF assms(1,2) _ _ c]) (use assms in simp_all)
  then show ?thesis by (intro grown_keeps[OF assms(1,2) g]) (use assms in \<open>auto simp: none_alive_def\<close>)
qed

lemma add_op:
  assumes "fab_ok f ts" "t < length ts" "ts ! t = Adding p" "add_step t v p f = Some (pc', f')"
  shows "fab_ok f' (ts[t := pc'])"
proof (cases p)
  case (AddLock svc b)
  show ?thesis by (rule quiet_lock[OF assms(1-3)]) (use assms(4) AddLock in auto)
next
  case (AddDef svc b)
  obtain e r where r: "reg_add (fa_now v) (fa_stat_ok v) (fa_fault v) (svc\<lparr>sv_enabled := b\<rparr>) (fb_reg f) = (e, r)" by fastforce
  note w = add_writes[OF r fab_okD(7)[OF assms(1)]]
  have s: "still f (f\<lparr>fb_reg := r\<rparr>)" "sups_ok (f\<lparr>fb_reg := r\<rparr>)" by (rule writes_only[OF assms(1)]; simp)+
  show ?thesis
  proof (cases e)
    case None
    then have f': "f' = f\<lparr>fb_reg := r\<rparr>" "pc' = Adding (AddAdopt (svc\<lparr>sv_enabled := b\<rparr>) b)" using assms(4) r by (simp_all add: AddDef)
    show ?thesis unfolding f' by (rule quiet_on[OF assms(1-3) _ _ s]) (use w AddDef in auto)
  next
    case (Some x)
    then have f': "finish t (Some (Registry x)) (f\<lparr>fb_reg := r\<rparr>) = Some (pc', f')" using assms(4) r by (simp add: AddDef)
    show ?thesis by (rule quiet_done[OF assms(1-3) _ s _ _ _ _ f']) (use w AddDef in auto)
  qed
next
  case (AddAdopt svc b)
  obtain e f1 where a: "fab_adopt svc f = (e, f1)" by fastforce
  have k: "fab_ok f1 (ts[t := Starting (StartFind (sv_name svc))])"
    by (rule adopt_op[OF assms(1,2) a]) (simp_all add: assms(3) AddAdopt)
  show ?thesis
  proof (cases "e = None \<and> b")
    case True
    then show ?thesis using assms(4) a k by (simp add: AddAdopt)
  next
    case False
    then obtain e' where "finish t e' f1 = Some (pc', f')" using assms(4) a by (cases e) (auto simp: AddAdopt split: if_split_asm)
    from then_finish[OF k assms(2) _ _ this] show ?thesis by simp
  qed
qed

lemma ensure_op:
  assumes "fab_ok f ts" "t < length ts" "ts ! t = Ensuring p" "ensure_step t v p f = Some (pc', f')"
  shows "fab_ok f' (ts[t := pc'])"
proof (cases p)
  case (EnsureLock svc)
  show ?thesis
  proof (cases "validate svc")
    case None
    then show ?thesis using assms(4)
      by (intro quiet_lock[OF assms(1-3), of "sv_name svc" "Ensuring (EnsureGet svc)"]) (auto simp: EnsureLock)
  next
    case (Some e)
    then show ?thesis using assms(4) by (intro finish_now[OF assms(1,2), of "Some (Registry e)"]) (simp_all add: assms(3) EnsureLock)
  qed
next
  case (EnsureGet svc)
  have on: "fab_ok f (ts[t := pc1])" if "holds pc1 = {sv_name svc}" "op_ok f pc1" for pc1
    by (rule quiet_on[OF assms(1-3)]) (use that fab_okD[OF assms(1)] in \<open>auto simp: EnsureGet still_refl\<close>)
  show ?thesis
  proof (cases "reg_get (fa_readable v) (sv_name svc) (fb_reg f)")
    case (Inr d)
    then show ?thesis using assms(4) on[of "Ensuring (EnsureLive svc d)"] by (auto simp: EnsureGet)
  next
    case (Inl e)
    show ?thesis
    proof (cases "\<exists>m. e = NoSuchService m")
      case True
      then show ?thesis using assms(4) Inl on[of "Adding (AddDef svc True)"] by (auto simp: EnsureGet)
    next
      case False
      then have "finish t (Some (Registry e)) f = Some (pc', f')" using assms(4) Inl by (cases e) (simp_all add: EnsureGet)
      then show ?thesis by (intro finish_now[OF assms(1,2)]) (simp_all add: assms(3))
    qed
  qed
next
  case (EnsureLive svc d)
  have on: "fab_ok f (ts[t := Ensuring (EnsurePut (svc\<lparr>sv_created := sv_created d, sv_enabled := True\<rparr>))])"
    by (rule quiet_on[OF assms(1-3)]) (use fab_okD[OF assms(1)] in \<open>auto simp: EnsureLive still_refl\<close>)
  have "f' = f \<and> pc' = Ensuring (EnsurePut (svc\<lparr>sv_created := sv_created d, sv_enabled := True\<rparr>)) \<or> finish t None f = Some (pc', f')"
    using assms(4) by (auto simp: EnsureLive split: sum.split_asm if_split_asm)
  then show ?thesis using on finish_now[OF assms(1,2), of None pc' f'] by (auto simp: assms(3))
next
  case (EnsurePut svc)
  obtain e r where r: "reg_put (fa_now v) (fa_fault v) svc (fb_reg f) = (e, r)" by fastforce
  note w = put_writes[OF r fab_okD(7)[OF assms(1)]]
  have s: "still f (f\<lparr>fb_reg := r\<rparr>)" "sups_ok (f\<lparr>fb_reg := r\<rparr>)" by (rule writes_only[OF assms(1)]; simp)+
  show ?thesis
  proof (cases e)
    case None
    then have f': "f' = f\<lparr>fb_reg := r\<rparr>" "pc' = Ensuring (EnsureFind svc)" using assms(4) r by (simp_all add: EnsurePut)
    show ?thesis unfolding f' by (rule quiet_on[OF assms(1-3) _ _ s]) (use w EnsurePut in auto)
  next
    case (Some x)
    then have f': "finish t (Some (Registry x)) (f\<lparr>fb_reg := r\<rparr>) = Some (pc', f')" using assms(4) r by (simp add: EnsurePut)
    show ?thesis by (rule quiet_done[OF assms(1-3) _ s _ _ _ _ f']) (use w EnsurePut in auto)
  qed
next
  case (EnsureFind svc)
  show ?thesis
  proof (cases "find_sup (sv_name svc) f")
    case (Inr i)
    then have f': "f' = f" "pc' = Starting (StartFind (sv_name svc))" using assms(4) by (simp_all add: EnsureFind)
    show ?thesis unfolding f' by (rule quiet_on[OF assms(1-3)]) (use fab_okD[OF assms(1)] in \<open>auto simp: EnsureFind still_refl\<close>)
  next
    case (Inl e)
    show ?thesis
    proof (cases "\<exists>m. e = NoSuchSupervisor m")
      case True
      obtain e2 f1 where a: "fab_adopt svc f = (e2, f1)" by fastforce
      have k: "fab_ok f1 (ts[t := Starting (StartFind (sv_name svc))])"
        by (rule adopt_op[OF assms(1,2) a]) (simp_all add: assms(3) EnsureFind)
      show ?thesis
      proof (cases e2)
        case None
        then show ?thesis using assms(4) Inl True a k by (auto simp: EnsureFind)
      next
        case (Some x)
        then have "finish t (Some x) f1 = Some (pc', f')" using assms(4) Inl True a by (auto simp: EnsureFind)
        from then_finish[OF k assms(2) _ _ this] show ?thesis by simp
      qed
    next
      case False
      then have "finish t (Some e) f = Some (pc', f')" using assms(4) Inl by (cases e) (simp_all add: EnsureFind)
      then show ?thesis by (intro finish_now[OF assms(1,2)]) (simp_all add: assms(3))
    qed
  qed
qed

lemma update_op:
  assumes "fab_ok f ts" "t < length ts" "ts ! t = Updating p" "update_step t v p f = Some (pc', f')"
  shows "fab_ok f' (ts[t := pc'])"
proof (cases p)
  case (UpdateLock n g)
  show ?thesis by (rule quiet_lock[OF assms(1-3)]) (use assms(4) UpdateLock in auto)
next
  case (UpdateDef n g)
  show ?thesis
  proof (cases "reg_get (fa_readable v) n (fb_reg f)")
    case (Inl e)
    then show ?thesis using assms(4) by (intro finish_now[OF assms(1,2), of "Some (Registry e)"]) (simp_all add: assms(3) UpdateDef)
  next
    case (Inr d)
    define nx where "nx = (g d)\<lparr>sv_name := sv_name d, sv_no_log := sv_no_log d, sv_created := sv_created d, sv_enabled := sv_enabled d\<rparr>"
    obtain e r where r: "reg_put (fa_now v) (fa_fault v) nx (fb_reg f) = (e, r)" by fastforce
    have nn: "sv_name nx = n" using get_name[OF Inr fab_okD(7)[OF assms(1)]] by (simp add: nx_def)
    note w = put_writes[OF r fab_okD(7)[OF assms(1)]]
    have s: "still f (f\<lparr>fb_reg := r\<rparr>)" "sups_ok (f\<lparr>fb_reg := r\<rparr>)" by (rule writes_only[OF assms(1)]; simp)+
    show ?thesis
    proof (cases e)
      case None
      then have f': "f' = f\<lparr>fb_reg := r\<rparr>" "pc' = Updating (UpdateSup n nx)" using assms(4) r Inr by (simp_all add: UpdateDef Let_def flip: nx_def)
      show ?thesis unfolding f' by (rule quiet_on[OF assms(1-3) _ _ s]) (use w nn UpdateDef in auto)
    next
      case (Some x)
      then have f': "finish t (Some (Registry x)) (f\<lparr>fb_reg := r\<rparr>) = Some (pc', f')" using assms(4) r Inr by (simp add: UpdateDef Let_def flip: nx_def)
      show ?thesis by (rule quiet_done[OF assms(1-3) _ s _ _ _ _ f']) (use w nn UpdateDef in auto)
    qed
  qed
next
  case (UpdateSup n nx)
  show ?thesis
  proof (cases "find_sup n f")
    case (Inl e)
    then show ?thesis using assms(4) by (intro finish_now[OF assms(1,2), of None]) (simp_all add: assms(3) UpdateSup)
  next
    case (Inr i)
    then have f': "finish t None (set_sup i (redefine nx (sup_of f i)) f) = Some (pc', f')" using assms(4) by (simp add: UpdateSup)
    have "at_name f n i \<and> only f n i \<and> bound f n i" by (rule found[OF assms(1,2) _ _ _ Inr]) (simp_all add: assms(3) UpdateSup)
    then have "sup_ok (redefine nx (sup_of f i))"
      using sup_do_ok[of "sup_of f i" "Redefined nx"] fab_okD(6)[OF assms(1)] by (simp add: sups_ok_def at_name_def)
    then have s: "still f (set_sup i (redefine nx (sup_of f i)) f)" "sups_ok (set_sup i (redefine nx (sup_of f i)) f)"
      using changed_sups[OF fab_okD(6)[OF assms(1)]] by (auto intro!: changed_still simp: redefine_def)
    show ?thesis by (rule quiet_done[OF assms(1-3) _ s _ _ _ _ f']) (use fab_okD(7)[OF assms(1)] in auto)
  qed
qed

lemma shutdown_op:
  assumes "fab_ok f ts" "t < length ts" "ts ! t = ShuttingDown p" "shutdown_step t p f = Some (pc', f')"
  shows "fab_ok f' (ts[t := pc'])"
proof (cases p)
  case ShutdownFlag
  show ?thesis
  proof (cases "fb_closed f")
    case True
    then show ?thesis using assms(4) by (intro finish_now[OF assms(1,2), of None]) (simp_all add: assms(3) ShutdownFlag)
  next
    case False
    then have f': "f' = f\<lparr>fb_closed := True\<rparr>" "pc' = ShuttingDown (ShutdownCancel (map snd (fb_sups f)))" using assms(4) by (simp_all add: ShutdownFlag)
    have w: "still f f'" "sups_ok f'" by (rule writes_only[OF assms(1)]; simp add: f'(1))+
    show ?thesis unfolding f'(2) by (rule quiet_on[OF assms(1-3) _ _ w]) (use fab_okD[OF assms(1)] in \<open>auto simp: f'(1)\<close>)
  qed
next
  case (ShutdownCancel xs)
  then have f': "f' = f\<lparr>fb_cancelled := True\<rparr>" "pc' = ShuttingDown (ShutdownStop xs)" using assms(4) by simp_all
  have w: "still f f'" "sups_ok f'" by (rule writes_only[OF assms(1)]; simp add: f'(1))+
  show ?thesis unfolding f'(2) by (rule quiet_on[OF assms(1-3) _ _ w]) (use fab_okD[OF assms(1)] in \<open>auto simp: f'(1)\<close>)
next
  case (ShutdownStop xs)
  then have f': "f' = fold cancel_sup xs f" "pc' = ShuttingDown (ShutdownWait xs)" using assms(4) by simp_all
  show ?thesis unfolding f'
    by (rule quiet_on[OF assms(1-3)]) (use fab_okD[OF assms(1)] cancel_all[where f = f and xs = xs] in auto)
next
  case (ShutdownWait xs)
  then have "finish t None f = Some (pc', f')" using assms(4) by (simp split: if_split_asm)
  then show ?thesis by (intro finish_now[OF assms(1,2)]) (simp_all add: assms(3))
qed

lemma op_keeps:
  assumes "fab_ok f ts" "t < length ts" "op_step t v (ts ! t) f = Some (pc', f')"
  shows "fab_ok f' (ts[t := pc'])"
proof (cases "ts ! t")
  case (Starting p)
  then show ?thesis using start_op[OF assms(1,2)] assms(3) by simp
next
  case (Stopping p)
  then show ?thesis using stop_op[OF assms(1,2)] assms(3) by simp
next
  case (Restarting p)
  then show ?thesis using restart_op[OF assms(1,2)] assms(3) by simp
next
  case (Removing p)
  then show ?thesis using remove_op[OF assms(1,2)] assms(3) by simp
next
  case (Renaming p)
  then show ?thesis using rename_op[OF assms(1,2)] assms(3) by simp
next
  case (Adding p)
  then show ?thesis using add_op[OF assms(1,2)] assms(3) by simp
next
  case (Ensuring p)
  then show ?thesis using ensure_op[OF assms(1,2)] assms(3) by simp
next
  case (Updating p)
  then show ?thesis using update_op[OF assms(1,2)] assms(3) by simp
next
  case (ShuttingDown p)
  then show ?thesis using shutdown_op[OF assms(1,2)] assms(3) by simp
qed (use assms(3) in simp)

section \<open>Loops, calls and coming up\<close>

lemma loop_step_frame:
  assumes "loop_step e gone (su_pc s) s = Some (s', fx)"
  shows "su_svc s' = su_svc s" "su_started s' = su_started s" "su_pc s \<notin> {LIdle, LDone}" "su_pc s = LEnded \<Longrightarrow> su_pc s' = LDone"
  using assms by (cases "su_pc s";
    auto simp: publish_def goto_def set_status_def next_backoff_def split: if_split_asm option.split_asm sum.split_asm prod.split_asm)+

lemma effects_rest:
  "fb_heap (fold effect fx f) = fb_heap f" "fb_sups (fold effect fx f) = fb_sups f" "fb_reg (fold effect fx f) = fb_reg f"
  "fb_locks (fold effect fx f) = fb_locks f" "fb_closed (fold effect fx f) = fb_closed f"
  by (induction fx arbitrary: f) (simp_all add: effect_def split: effect.split)

lemma loop_keeps:
  assumes ok: "fab_ok f ts" and j: "j < length (fb_heap f)" "says_why e" and st: "sup_step e (fb_cancelled f) (sup_of f j) = Some (s', fx)"
  shows "fab_ok (fold effect fx (set_sup j s' f)) ts"
proof -
  note d = fab_okD[OF ok]
  let ?f = "fold effect fx (set_sup j s' f)"
  have l: "loop_step e (fb_cancelled f \<or> su_cancelled (sup_of f j)) (su_pc (sup_of f j)) (sup_of f j) = Some (s', fx)"
    using st by (simp add: sup_step_def)
  note fr = loop_step_frame[OF l]
  have g: "still f (set_sup j s' f)" by (rule changed_still) (use fr in auto)
  have h: "fb_heap ?f = fb_heap (set_sup j s' f)" "fb_sups ?f = fb_sups f" "fb_reg ?f = fb_reg f" "fb_locks ?f = fb_locks f" "fb_closed ?f = fb_closed f"
    by (simp_all add: effects_rest)
  have s: "still f ?f" using still_trans[OF g still_same[of ?f "set_sup j s' f"]] h by simp
  have so: "sups_ok ?f"
  proof (rule sups_same[OF h(1)], rule changed_sups[OF d(6)])
    show "sup_ok s'" by (rule loop_step_ok[OF _ j(2) l]) (use d(6) j(1) in \<open>simp add: sups_ok_def\<close>)
  qed
  have k: "kept n f ?f" for n by (rule still_kept[OF s]) (simp add: h)
  note a = still_alive[OF s] and vw = still_view[OF s]
  have "locks_ok ?f ts" using d(1) by (simp add: locks_ok_def h)
  moreover have "op_ok ?f (ts ! t)" if "t < length ts" for t by (rule op_ok_kept[OF k d(2)[OF that]])
  moreover have "map_ok ?f ts" unfolding map_ok_def
  proof (intro allI impI)
    fix n i assume "mapped ?f n i"
    then have m: "mapped f n i" using vw(6) by blast
    then have "i < length (fb_heap f)" using d(3) by (auto simp: map_ok_def)
    then have "i < length (fb_heap ?f)" "nm ?f i = nm f i" using s by (auto simp: still_def)
    then show "i < length (fb_heap ?f) \<and> (nm ?f i = n \<or> (\<exists>t<length ts. n \<in> holds (ts ! t) \<and> moving (ts ! t) n i))"
      using d(3) m by (auto simp: map_ok_def)
  qed
  moreover have "led_to ?f ts"
  proof (rule led_toI)
    fix i assume c: "\<not> fb_closed ?f" and "alive ?f i"
    then have "alive f i" "nm ?f i = nm f i" using a by auto
    then show "mapped ?f (nm ?f i) i \<or> (\<exists>t<length ts. nm ?f i \<in> holds (ts ! t) \<and> mid (ts ! t) i)"
      using d(4) c vw(6) by (auto simp: led_to_def h)
  qed
  moreover have "unique ?f" using d(5) a by (auto simp: unique_def)
  ultimately show ?thesis using so d(7) by (simp add: fab_ok_def h)
qed

lemma entry_plain: "is_entry pc \<Longrightarrow> holds pc = {} \<and> op_ok f pc"
  by (cases pc)
    (auto split: start_pc.splits stop_pc.splits restart_pc.splits remove_pc.splits rename_pc.splits add_pc.splits ensure_pc.splits
      update_pc.splits shutdown_pc.splits)

lemma call_keeps:
  assumes "fab_ok f ts" "is_entry pc"
  shows "fab_ok f (ts @ [pc])"
proof -
  note d = fab_okD[OF assms(1)] and e = entry_plain[OF assms(2), of f]
  have "locks_ok f (ts @ [pc])" using d(1) e by (auto simp: locks_ok_def nth_append less_Suc_eq)
  moreover have "op_ok f ((ts @ [pc]) ! t)" if "t < length (ts @ [pc])" for t using d(2)[of t] e that by (auto simp: nth_append less_Suc_eq)
  moreover have *: "\<exists>u<length (ts @ [pc]). P ((ts @ [pc]) ! u)" if "\<exists>u<length ts. P (ts ! u)" for P
    using that by (metis length_append_singleton less_Suc_eq nth_append)
  moreover have "map_ok f (ts @ [pc])" unfolding map_ok_def
  proof (intro allI impI)
    fix n i assume "mapped f n i"
    then show "i < length (fb_heap f) \<and> (nm f i = n \<or> (\<exists>u<length (ts @ [pc]). n \<in> holds ((ts @ [pc]) ! u) \<and> moving ((ts @ [pc]) ! u) n i))"
      using d(3) *[of "\<lambda>x. n \<in> holds x \<and> moving x n i"] unfolding map_ok_def by blast
  qed
  moreover have "led_to f (ts @ [pc])"
  proof (rule led_toI)
    fix j assume "\<not> fb_closed f" "alive f j"
    then show "mapped f (nm f j) j \<or> (\<exists>u<length (ts @ [pc]). nm f j \<in> holds ((ts @ [pc]) ! u) \<and> mid ((ts @ [pc]) ! u) j)"
      using d(4) *[of "\<lambda>x. nm f j \<in> holds x \<and> mid x j"] unfolding led_to_def by blast
  qed
  ultimately show ?thesis using d by (simp add: fab_ok_def)
qed

lemma idle_ok:
  "fab_ok f [] \<longleftrightarrow> fb_locks f = (\<lambda>_. None) \<and> (\<forall>n i. mapped f n i \<longrightarrow> at_name f n i) \<and>
     (fb_closed f \<or> (\<forall>j. alive f j \<longrightarrow> mapped f (nm f j) j)) \<and> unique f \<and> sups_ok f \<and> named_registry (fb_reg f)"
  by (auto simp: fab_ok_def locks_ok_def map_ok_def led_to_def at_name_def fun_eq_iff)

lemma drop_returned: "fab_ok f [Returned e] \<Longrightarrow> fab_ok f []"
  by (auto simp: fab_ok_def locks_ok_def map_ok_def led_to_def)

lemma run_op_ok: "fab_ok f [pc] \<Longrightarrow> run_op k 0 v pc f = (pc', f') \<Longrightarrow> fab_ok f' [pc']"
proof (induction k arbitrary: pc f)
  case (Suc k)
  show ?case
  proof (cases "op_step 0 v pc f")
    case (Some r)
    obtain pc1 f1 where r: "r = (pc1, f1)" by (cases r)
    then have "fab_ok f1 [pc1]" using op_keeps[OF Suc.prems(1), of 0 v pc1 f1] Some by simp
    then show ?thesis using Suc r Some by simp
  qed (use Suc.prems in simp)
qed simp

lemma run_start: "fb_locks f n = None \<Longrightarrow> \<exists>e f'. run_op 5 0 v (Starting (StartLock n)) f = (Returned e, f')"
  by (auto simp: eval_nat_numeral locked_def acquire_def with_sup_def enabling_def finish_def split: sum.split prod.split option.split)

lemma grown_idle:
  assumes "fab_ok f []" "grown f f1 svc (sv_name svc)" "\<not> fb_closed f" "unmapped f (sv_name svc)"
  shows "fab_ok f1 []"
proof -
  note v = grown_view[OF assms(2)]
  have o: "\<And>n i. mapped f n i \<Longrightarrow> at_name f n i" "\<And>j. alive f j \<Longrightarrow> mapped f (nm f j) j" "unique f" "sups_ok f" "named_registry (fb_reg f)"
    "fb_locks f = (\<lambda>_. None)" using assms(1,3) by (auto simp: idle_ok)
  have g: "fb_reg f1 = fb_reg f" "fb_locks f1 = fb_locks f" "fb_closed f1 = fb_closed f"
    "map_of (fb_sups f1) = (map_of (fb_sups f))(sv_name svc \<mapsto> length (fb_heap f))" using assms(2,3) by (auto simp: grown_def)
  have "at_name f1 n i" if "mapped f1 n i" for n i
    using that o(1)[of n i] v by (auto simp: mapped_def g at_name_def split: if_split_asm)
  moreover have "mapped f1 (nm f1 j) j" if "alive f1 j" for j
    using that o(2)[of j] v assms(4) by (auto simp: mapped_def g unmapped_def)
  moreover have "unique f1" using o(3) v by (auto simp: unique_def)
  ultimately show ?thesis using grown_sups[OF assms(2) o(4)] o g by (simp add: idle_ok)
qed

lemma adopt_idle:
  assumes "fab_ok f []" "fab_adopt svc f = (e, f1)"
  shows "fab_ok f1 []"
  using adopt_grown[OF assms(2)] grown_idle[OF assms(1)] assms(1) by auto

lemma load_one_idle:
  assumes "fab_ok (snd s) []"
  shows "fab_ok (snd (load_one v svc s)) []"
proof -
  obtain errs f where s: "s = (errs, f)" by (cases s)
  obtain e f1 where a: "fab_adopt svc f = (e, f1)" by fastforce
  have k: "fab_ok f1 []" by (rule adopt_idle[OF _ a]) (use assms in \<open>simp add: s\<close>)
  have "fab_ok f1 [Starting (StartLock (sv_name svc))]" using call_keeps[OF k, of "Starting (StartLock (sv_name svc))"] by simp
  moreover have "fb_locks f1 (sv_name svc) = None" using k by (simp add: idle_ok)
  then obtain x f2 where r: "run_op 5 0 v (Starting (StartLock (sv_name svc))) f1 = (Returned x, f2)" using run_start by blast
  ultimately have "fab_ok f2 []" using run_op_ok drop_returned by blast
  then show ?thesis using a k r by (cases x) (auto simp: load_one_def s split: option.split)
qed

lemma load_idle: "fab_ok f [] \<Longrightarrow> fab_ok (snd (load v dir_ok readable f)) []"
proof -
  have "fab_ok (snd (fold (load_one v) svcs s)) []" if "fab_ok (snd s) []" for svcs s
    using that by (induction svcs arbitrary: s) (simp_all add: load_one_idle)
  then show "fab_ok f [] \<Longrightarrow> ?thesis" by (auto simp: load_def split: prod.split)
qed

text \<open>A supervisor that is in the heap and nowhere else, and one that takes over a process.\<close>

lemma adopt_one_idle:
  assumes ok: "fab_ok f []" and free: "unmapped f (ho_name h)" and open_fab: "\<not> fb_closed f" and a: "adopt_one now there h (errs, f) = (errs', f')"
  shows "fab_ok f' []" "\<not> fb_closed f'" "n \<noteq> ho_name h \<Longrightarrow> unmapped f n \<Longrightarrow> unmapped f' n"
proof -
  have o: "\<And>n i. mapped f n i \<Longrightarrow> at_name f n i" "\<And>j. alive f j \<Longrightarrow> mapped f (nm f j) j" "unique f" "sups_ok f" "named_registry (fb_reg f)"
    "fb_locks f = (\<lambda>_. None)" using ok open_fab by (auto simp: idle_ok)
  have "fab_ok f' [] \<and> \<not> fb_closed f' \<and> (n \<noteq> ho_name h \<longrightarrow> unmapped f n \<longrightarrow> unmapped f' n)"
  proof (cases "reg_get True (ho_name h) (fb_reg f)")
    case (Inl e)
    then show ?thesis using a ok open_fab by (simp add: adopt_one_def)
  next
    case (Inr svc)
    have nn: "sv_name svc = ho_name h" by (rule get_name[OF Inr o(5)])
    let ?i = "length (fb_heap f)"
    define f1 where "f1 = f\<lparr>fb_heap := fb_heap f @ [new_supervisor svc (fb_next f) (fb_next f)], fb_next := fb_next f + 1\<rparr>"
    have sup1: "sup_of f1 j = (if j = ?i then new_supervisor svc (fb_next f) (fb_next f) else sup_of f j)" if "j \<le> ?i" for j
      using that by (simp add: f1_def sup_of_def nth_append)
    have new_ok: "sup_ok (new_supervisor svc (fb_next f) (fb_next f))" by (rule sup_reach_ok[OF sup_reach.made])
    show ?thesis
    proof (cases "\<exists>p. validate svc = None \<and> adopt_process now there h = Inr p")
      case False
      then have f': "fb_heap f' = fb_heap f1" "fb_sups f' = fb_sups f" "fb_reg f' = fb_reg f" "fb_locks f' = fb_locks f" "fb_closed f' = fb_closed f"
        using a Inr open_fab
        by (auto simp: adopt_one_def make_sup_def f1_def split: option.split_asm sum.split_asm)
      have s: "sup_of f' j = sup_of f1 j" for j by (simp add: sup_of_def f')
      have al: "alive f' j \<longleftrightarrow> alive f j" for j
        using sup1[of j] s[of j] by (auto simp: alive_def f' f1_def new_supervisor_def split: if_split_asm)
      have nmj: "j < ?i \<Longrightarrow> nm f' j = nm f j" for j using sup1[of j] s[of j] by (simp add: nm_def)
      have "at_name f' m i" if "mapped f' m i" for m i
        using o(1)[of m i] that nmj[of i] by (auto simp: mapped_def f' at_name_def f1_def)
      moreover have "mapped f' (nm f' j) j" if "alive f' j" for j
        using that o(2)[of j] al nmj[of j] by (auto simp: mapped_def f' alive_def)
      moreover have "unique f'" using o(3) al nmj by (auto simp: unique_def alive_def)
      moreover have "sups_ok f'" using o(4) new_ok sup1 s by (auto simp: sups_ok_def f' f1_def less_Suc_eq_le)
      ultimately show ?thesis using o open_fab f' by (simp add: idle_ok unmapped_def)
    next
      case True
      then obtain p where p: "validate svc = None" "adopt_process now there h = Inr p" by blast
      define sp where "sp = snd (sup_start (adopt_running p (new_supervisor svc (fb_next f) (fb_next f))))"
      have f'eq: "f' = start_sup ?i ((set_sup ?i (adopt_running p (sup_of f1 ?i)) f1)\<lparr>fb_sups := AList.update (ho_name h) ?i (fb_sups f)\<rparr>)"
        using a Inr p open_fab
        by (auto simp: adopt_one_def make_sup_def f1_def set_sup_def Let_def)
      have f': "fb_heap f' = fb_heap f @ [sp]" "map_of (fb_sups f') = (map_of (fb_sups f))(ho_name h \<mapsto> ?i)" "fb_reg f' = fb_reg f"
        "fb_locks f' = fb_locks f" "fb_closed f' = fb_closed f"
        by (simp_all add: f'eq start_sup_def set_sup_def sup_of_def f1_def sp_def update_conv')
      have s: "sup_of f' j = (if j = ?i then sp else sup_of f j)" if "j \<le> ?i" for j using that by (simp add: sup_of_def f' nth_append)
      have spn: "sv_name (su_svc sp) = ho_name h" by (simp add: sp_def sup_start_def adopt_running_def new_supervisor_def set_status_def nn)
      have sp_ok: "sup_ok sp" using sup_do_ok[OF sup_do_ok[OF new_ok, of "Adopted p"], of _ Begin]
        by (simp add: sp_def new_supervisor_def)
      have al: "alive f' j \<Longrightarrow> j = ?i \<or> alive f j" for j using s[of j] by (auto simp: alive_def f' less_Suc_eq_le split: if_split_asm)
      have nmj: "j < ?i \<Longrightarrow> nm f' j = nm f j" "nm f' ?i = ho_name h" for j using s[of j] s[of ?i] spn by (simp_all add: nm_def)
      have alo: "alive f j \<Longrightarrow> nm f j \<noteq> ho_name h" for j using o(2)[of j] free by (auto simp: mapped_def unmapped_def)
      have "at_name f' m i" if "mapped f' m i" for m i
        using o(1)[of m i] that nmj by (auto simp: mapped_def f' at_name_def split: if_split_asm)
      moreover have "mapped f' (nm f' j) j" if "alive f' j" for j
        using al[OF that] o(2)[of j] nmj alo[of j] by (auto simp: mapped_def f' alive_def)
      moreover have "unique f'" unfolding unique_def
      proof (intro allI impI)
        fix x y assume xy: "alive f' x \<and> alive f' y \<and> nm f' x = nm f' y"
        show "x = y"
          using al[of x] al[of y] xy nmj alo[of x] alo[of y] o(3) by (auto simp: unique_def alive_def)
      qed
      moreover have "sups_ok f'" using o(4) sp_ok s by (auto simp: sups_ok_def f' less_Suc_eq_le)
      ultimately show ?thesis using o open_fab f' by (simp add: idle_ok unmapped_def)
    qed
  qed
  then show "fab_ok f' []" "\<not> fb_closed f'" "n \<noteq> ho_name h \<Longrightarrow> unmapped f n \<Longrightarrow> unmapped f' n" by blast+
qed

lemma adopt_all_idle:
  assumes "fab_ok f []" "\<not> fb_closed f" "distinct (map ho_name hs)" "\<forall>h \<in> set hs. unmapped f (ho_name h)"
  shows "fab_ok (snd (adopt_all there v dir_ok readable hs f)) []"
proof -
  have "fab_ok (snd (fold (adopt_one now there) hs (errs, f))) []" for errs now
    using assms
  proof (induction hs arbitrary: errs f)
    case (Cons h hs)
    obtain errs' f' where a: "adopt_one now there h (errs, f) = (errs', f')" by fastforce
    have u: "unmapped f (ho_name h)" using Cons.prems(4) by simp
    note k = adopt_one_idle[OF Cons.prems(1) u Cons.prems(2) a]
    have "fab_ok (snd (fold (adopt_one now there) hs (errs', f'))) []"
    proof (rule Cons.IH)
      show "\<forall>h \<in> set hs. unmapped f' (ho_name h)"
      proof
        fix x assume x: "x \<in> set hs"
        have "ho_name h \<notin> ho_name ` set hs" using Cons.prems(3) by simp
        then have "ho_name x \<noteq> ho_name h" using x by (metis imageI)
        then show "unmapped f' (ho_name x)" using k(3) Cons.prems(4) x by simp
      qed
    qed (use k Cons.prems in auto)
    then show ?case by (simp add: a)
  qed simp
  from load_idle[OF this] show ?thesis by (auto simp: adopt_all_def split: prod.split) (metis snd_conv)
qed

lemma fab_reach_ok: "fab_reach w \<Longrightarrow> fab_ok (fst w) (snd w)"
proof (induction rule: fab_reach.induct)
  case (boot r hs there v dir_ok readable log_dir)
  have "fab_ok (new_fabric r log_dir) []"
    using boot(1) by (simp add: idle_ok new_fabric_def mapped_def alive_def unique_def sups_ok_def)
  then show ?case using adopt_all_idle boot(2) by (simp add: new_fabric_def unmapped_def)
next
  case (call f ts pc)
  then show ?case using call_keeps by simp
next
  case (oper f ts t v pc f')
  then show ?case using op_keeps by simp
next
  case (loop f ts j e s' fx)
  then show ?case using loop_keeps by simp
qed

end
