(* ===== verification/Lifecycle.thy ===== *)
theory Lifecycle
  imports FabricSafe
begin

text \<open>
  What the operations of the fabric promise while others run beside them: one supervisor at most looks
  after a name, stop and remove have happened when they return, a restart is never reported as an end,
  and no operation waits for ever. \<open>schedule\<close> runs a given interleaving, for concrete histories.
\<close>

section \<open>Concrete interleavings\<close>

datatype turn = Call op_pc | Oper nat fab_env | Turn nat loop_env

definition turn_ok :: "fab \<Rightarrow> nat \<Rightarrow> loop_env \<Rightarrow> bool" where
  "turn_ok f j e \<longleftrightarrow> j < length (fb_heap f) \<and> says_why e \<and> (en_write e = None \<longleftrightarrow> su_out (sup_of f j) \<notin> set (fb_shut f))"

fun one_turn :: "turn \<Rightarrow> fab \<times> op_pc list \<Rightarrow> fab \<times> op_pc list" where
  "one_turn (Call pc) (f, ts) = (if is_entry pc then (f, ts @ [pc]) else (f, ts))"
| "one_turn (Oper t v) (f, ts) =
     (if t < length ts then case op_step t v (ts ! t) f of None \<Rightarrow> (f, ts) | Some (pc, f') \<Rightarrow> (f', ts[t := pc]) else (f, ts))"
| "one_turn (Turn j e) (f, ts) =
     (if turn_ok f j e then case sup_step e (fb_cancelled f) (sup_of f j) of None \<Rightarrow> (f, ts) | Some (s', fx) \<Rightarrow> (fold effect fx (set_sup j s' f), ts)
      else (f, ts))"

definition schedule :: "turn list \<Rightarrow> fab \<times> op_pc list \<Rightarrow> fab \<times> op_pc list" where
  "schedule ms w = fold one_turn ms w"

lemma one_turn_reach: "fab_reach w \<Longrightarrow> fab_reach (one_turn m w)"
  by (cases w; cases m) (auto intro: fab_reach.intros simp: turn_ok_def split: option.split)

lemma schedule_reach: "fab_reach w \<Longrightarrow> fab_reach (schedule ms w)"
  unfolding schedule_def by (induction ms arbitrary: w) (simp_all add: one_turn_reach)

lemma fresh_reach: "fab_reach (new_fabric [] d, [])"
proof -
  have "fab_reach (snd (adopt_all (\<lambda>_. False) undefined True (\<lambda>_. True) [] (new_fabric [] d)), [])"
    by (rule fab_reach.boot) (simp_all add: named_registry_def reg_look_def)
  then show ?thesis by (simp add: adopt_all_def load_def reg_list_def dir_names_def new_fabric_def)
qed

section \<open>Who waits for what\<close>

fun wants :: "op_pc \<Rightarrow> bytes option" where
  "wants (Returned e) = None"
| "wants (Starting p) = (case p of StartLock n \<Rightarrow> Some n | _ \<Rightarrow> None)"
| "wants (Stopping p) = (case p of StopLock n \<Rightarrow> Some n | _ \<Rightarrow> None)"
| "wants (Restarting p) = (case p of RestartLock n \<Rightarrow> Some n | _ \<Rightarrow> None)"
| "wants (Removing p) = (case p of RemoveLock n k \<Rightarrow> Some n | _ \<Rightarrow> None)"
| "wants (Renaming p) = (case p of RenameLock a b \<Rightarrow> Some (fst (lock_order a b)) | RenameLock2 a b \<Rightarrow> Some (snd (lock_order a b)) | _ \<Rightarrow> None)"
| "wants (Adding p) = (case p of AddLock s b \<Rightarrow> Some (sv_name s) | _ \<Rightarrow> None)"
| "wants (Ensuring p) = (case p of EnsureLock s \<Rightarrow> Some (sv_name s) | _ \<Rightarrow> None)"
| "wants (Updating p) = (case p of UpdateLock n g \<Rightarrow> Some n | _ \<Rightarrow> None)"
| "wants (ShuttingDown p) = None"

fun awaits :: "op_pc \<Rightarrow> nat set" where
  "awaits (Stopping p) = (case p of StopWait n i \<Rightarrow> {i} | _ \<Rightarrow> {})"
| "awaits (Restarting p) = (case p of RestartWait n i j \<Rightarrow> {i} | _ \<Rightarrow> {})"
| "awaits (Removing p) = (case p of RemoveWait n k i \<Rightarrow> {i} | _ \<Rightarrow> {})"
| "awaits (ShuttingDown p) = (case p of ShutdownWait is \<Rightarrow> set is | _ \<Rightarrow> {})"
| "awaits pc = {}"

lemmas step_defs = finish_def locked_def acquire_def with_sup_def enabling_def

lemmas step_splits = if_split_asm sum.split_asm option.split_asm prod.split_asm fab_error.split_asm service_error.split_asm

lemma blocked:
  assumes "op_step t v pc f = None"
  shows "(\<exists>e. pc = Returned e) \<or> (\<exists>n u. wants pc = Some n \<and> fb_locks f n = Some u) \<or> (\<exists>i \<in> awaits pc. \<not> sup_stopped (sup_of f i))"
proof (cases pc)
  case (Starting p)
  then show ?thesis using assms by (cases p) (auto simp: step_defs split: step_splits)
next
  case (Stopping p)
  then show ?thesis using assms by (cases p) (auto simp: step_defs split: step_splits)
next
  case (Restarting p)
  then show ?thesis using assms by (cases p) (auto simp: step_defs split: step_splits)
next
  case (Removing p)
  then show ?thesis using assms by (cases p) (auto simp: step_defs split: step_splits)
next
  case (Renaming p)
  then show ?thesis using assms by (cases p) (auto simp: step_defs split: step_splits)
next
  case (Adding p)
  then show ?thesis using assms by (cases p) (auto simp: step_defs split: step_splits)
next
  case (Ensuring p)
  then show ?thesis using assms by (cases p) (auto simp: step_defs split: step_splits)
next
  case (Updating p)
  then show ?thesis using assms by (cases p) (auto simp: step_defs Let_def split: step_splits)
next
  case (ShuttingDown p)
  then show ?thesis using assms by (cases p) (auto simp: step_defs split: step_splits)
qed simp

section \<open>Who is waited for has been told to stop\<close>

definition told :: "fab \<Rightarrow> nat \<Rightarrow> bool" where
  "told f i \<longleftrightarrow> i < length (fb_heap f) \<and> (su_started (sup_of f i) \<longrightarrow> fb_cancelled f \<or> su_cancelled (sup_of f i))"

definition keyed :: "fab \<Rightarrow> bool" where
  "keyed f \<longleftrightarrow> distinct (map fst (fb_sups f))"

text \<open>A step that launches nothing leaves it at that.\<close>

definition steady :: "fab \<Rightarrow> fab \<Rightarrow> bool" where
  "steady f f' \<longleftrightarrow> length (fb_heap f) \<le> length (fb_heap f') \<and> (fb_cancelled f \<longrightarrow> fb_cancelled f') \<and> (keyed f \<longrightarrow> keyed f') \<and>
     (\<forall>i < length (fb_heap f). su_started (sup_of f' i) = su_started (sup_of f i) \<and> (su_cancelled (sup_of f i) \<longrightarrow> su_cancelled (sup_of f' i)))"

lemma steady_told: "steady f f' \<Longrightarrow> told f i \<Longrightarrow> told f' i"
  by (auto simp: steady_def told_def)

lemma steady_trans: "steady f g \<Longrightarrow> steady g h \<Longrightarrow> steady f h"
  by (auto simp: steady_def)

lemma keyed_writes:
  "fb_sups f' = fb_sups f \<Longrightarrow> keyed f \<Longrightarrow> keyed f'" "fb_sups f' = AList.update n i (fb_sups f) \<Longrightarrow> keyed f \<Longrightarrow> keyed f'"
  "fb_sups f' = AList.delete n (fb_sups f) \<Longrightarrow> keyed f \<Longrightarrow> keyed f'"
  "fb_sups f' = AList.update n i (AList.delete m (fb_sups f)) \<Longrightarrow> keyed f \<Longrightarrow> keyed f'"
  by (simp_all add: keyed_def distinct_update distinct_delete)

lemma steady_same [simp]: "fb_heap f' = fb_heap f \<Longrightarrow> fb_cancelled f \<longrightarrow> fb_cancelled f' \<Longrightarrow> fb_sups f' = fb_sups f \<Longrightarrow> steady f f'"
  by (simp add: steady_def sup_of_def keyed_def)

lemma steady_sups: "steady f (f\<lparr>fb_sups := AList.delete n (fb_sups f)\<rparr>)" "steady f (f\<lparr>fb_sups := AList.update n i (AList.delete m (fb_sups f))\<rparr>)"
  "steady f (f\<lparr>fb_sups := AList.update n i (fb_sups f)\<rparr>)"
  by (simp_all add: steady_def sup_of_def keyed_def distinct_update distinct_delete)

lemma steady_more: "fb_heap f' = fb_heap f @ [s] \<Longrightarrow> fb_cancelled f' = fb_cancelled f \<Longrightarrow> keyed f \<longrightarrow> keyed f' \<Longrightarrow> steady f f'"
  by (simp add: steady_def sup_of_def nth_append)

lemma steady_set:
  "su_started s = su_started (sup_of f i) \<Longrightarrow> (su_cancelled (sup_of f i) \<longrightarrow> su_cancelled s) \<Longrightarrow> steady f (set_sup i s f)"
  by (auto simp: steady_def sup_of_set) (simp_all add: set_sup_def keyed_def)

lemma steady_cancel: "steady f (cancel_sup i f)"
  unfolding cancel_sup_def by (rule steady_set) (simp_all add: sup_cancel_def)

lemma steady_cancel_all: "steady f (fold cancel_sup is f)"
  by (induction "is" arbitrary: f) (auto intro: steady_trans steady_cancel)

lemma steady_replace: "replace_sup b n i f = (j, f') \<Longrightarrow> steady f f'"
  by (auto simp: replace_sup_def Let_def split: if_split_asm intro!: steady_more intro: keyed_writes)

lemma steady_adopt: "fab_adopt svc f = (e, f') \<Longrightarrow> steady f f'"
  by (auto simp: fab_adopt_def make_sup_def split: step_splits intro!: steady_more intro: keyed_writes)

lemma steady_enabled: "set_enabled v n b f = (e, f') \<Longrightarrow> steady f f'"
  by (auto simp: set_enabled_def split: step_splits)

lemma steady_rename: "sup_rename n (sup_of f i) = (p, s) \<Longrightarrow> steady f (set_sup i s f)"
  by (intro steady_set) (auto simp: sup_rename_def set_status_def)

lemma steady_redefine: "steady f (set_sup i (redefine d (sup_of f i)) f)"
  by (intro steady_set) (simp_all add: redefine_def)

lemma steady_release [simp]: "steady f (release t g) \<longleftrightarrow> steady f g"
  by (simp add: steady_def release_def sup_of_def keyed_def)

lemmas steady_rules = steady_sups steady_cancel steady_cancel_all steady_replace steady_adopt steady_enabled steady_rename steady_redefine

lemma step_steady:
  assumes "op_step t v pc f = Some (pc', f')"
  shows "steady f f' \<or> (\<exists>n i. pc = Starting (StartRun n i) \<and> pc' = Returned None \<and> f' = release t (start_sup i f))"
proof (cases pc)
  case (Starting p)
  then show ?thesis using assms by (cases p) (auto simp: step_defs intro: steady_rules split: step_splits)
next
  case (Stopping p)
  then show ?thesis using assms by (cases p) (auto simp: step_defs intro: steady_rules split: step_splits)
next
  case (Restarting p)
  then show ?thesis using assms by (cases p) (auto simp: step_defs intro: steady_rules split: step_splits)
next
  case (Removing p)
  then show ?thesis using assms by (cases p) (auto simp: step_defs intro: steady_rules split: step_splits)
next
  case (Renaming p)
  then show ?thesis using assms by (cases p) (auto simp: step_defs intro: steady_rules split: step_splits)
next
  case (Adding p)
  then show ?thesis using assms by (cases p) (auto simp: step_defs intro: steady_rules split: step_splits)
next
  case (Ensuring p)
  then show ?thesis using assms by (cases p) (auto simp: step_defs intro: steady_rules split: step_splits)
next
  case (Updating p)
  then show ?thesis using assms by (cases p) (auto simp: step_defs Let_def intro: steady_rules split: step_splits)
next
  case (ShuttingDown p)
  then show ?thesis using assms by (cases p) (auto simp: step_defs intro: steady_rules split: step_splits)
qed (use assms in simp)

lemma steady_keyed: "steady f f' \<Longrightarrow> keyed f \<Longrightarrow> keyed f'"
  by (simp add: steady_def)

lemma keyed_start: "keyed (start_sup i f) = keyed f" "keyed (release t f) = keyed f" "keyed (set_sup i s f) = keyed f"
  "keyed (fold effect fx f) = keyed f"
  by (simp_all add: keyed_def start_sup_def set_sup_def release_def effects_rest)

lemma op_keyed: "op_step t v pc f = Some (pc', f') \<Longrightarrow> keyed f \<Longrightarrow> keyed f'"
  using step_steady[of t v pc f pc' f'] by (auto simp: keyed_start dest: steady_keyed)

lemma run_keyed: "run_op k t v pc f = (pc', f') \<Longrightarrow> keyed f \<Longrightarrow> keyed f'"
  by (induction k arbitrary: pc f) (auto dest: op_keyed split: option.split_asm)

lemma load_one_keyed: "keyed (snd s) \<Longrightarrow> keyed (snd (load_one v svc s))"
  by (cases s) (auto simp: load_one_def dest: steady_keyed[OF steady_adopt] run_keyed split: prod.split option.split op_pc.split)

lemma load_keyed: "keyed f \<Longrightarrow> keyed (snd (load v ok rd f))"
proof -
  have "keyed (snd (fold (load_one v) svcs s))" if "keyed (snd s)" for svcs s
    using that by (induction svcs arbitrary: s) (simp_all add: load_one_keyed)
  then show "keyed f \<Longrightarrow> ?thesis" by (auto simp: load_def split: prod.split)
qed

lemma adopt_one_keyed: "keyed (snd s) \<Longrightarrow> keyed (snd (adopt_one now there h s))"
proof -
  have "keyed (start_sup i (f\<lparr>fb_sups := AList.update n i (fb_sups f)\<rparr>))" if "keyed f" for f n i
    using that by (simp add: keyed_start(1)) (simp add: keyed_def distinct_update)
  then show "keyed (snd s) \<Longrightarrow> ?thesis"
    by (cases s) (auto simp: adopt_one_def Let_def make_sup_def keyed_start split: sum.split option.split, simp_all add: keyed_def set_sup_def distinct_update start_sup_def)
qed

lemma adopt_all_keyed: "keyed f \<Longrightarrow> keyed (snd (adopt_all there v ok rd hs f))"
proof -
  have "keyed (snd (fold (adopt_one now there) hs s))" if "keyed (snd s)" for s now
    using that by (induction hs arbitrary: s) (simp_all add: adopt_one_keyed)
  then have "keyed f \<Longrightarrow> keyed (snd (fold (adopt_one now there) hs ([], f)))" for now by simp
  then show "keyed f \<Longrightarrow> ?thesis" using load_keyed by (auto simp: adopt_all_def split: prod.split) (metis snd_conv)
qed

lemma reach_keyed: "fab_reach w \<Longrightarrow> keyed (fst w)"
proof (induction rule: fab_reach.induct)
  case (boot r hs there v dir_ok readable log_dir)
  have "keyed (new_fabric r log_dir)" by (simp add: keyed_def new_fabric_def)
  then show ?case by (simp add: adopt_all_keyed)
qed (auto simp: keyed_start dest: op_keyed)

text \<open>Whoever an operation waits for, and whoever a shutdown is about to.\<close>

fun told_ok :: "fab \<Rightarrow> op_pc \<Rightarrow> bool" where
  "told_ok f (ShuttingDown p) = (case p of
     ShutdownFlag \<Rightarrow> True
   | ShutdownCancel is \<Rightarrow> list_all (\<lambda>i. i < length (fb_heap f)) is
   | ShutdownStop is \<Rightarrow> fb_cancelled f \<and> list_all (\<lambda>i. i < length (fb_heap f)) is
   | ShutdownWait is \<Rightarrow> fb_cancelled f \<and> list_all (\<lambda>i. i < length (fb_heap f)) is)"
| "told_ok f pc = (\<forall>i \<in> awaits pc. told f i)"

lemma told_ok_told: "told_ok f pc \<Longrightarrow> i \<in> awaits pc \<Longrightarrow> told f i"
  by (cases pc) (auto simp: told_def list_all_iff split: shutdown_pc.split_asm)

lemma told_ok_mono:
  assumes "told_ok f pc" "length (fb_heap f) \<le> length (fb_heap f')" "fb_cancelled f \<longrightarrow> fb_cancelled f'"
    "\<And>i. i \<in> awaits pc \<Longrightarrow> told f i \<Longrightarrow> told f' i"
  shows "told_ok f' pc"
  using assms by (cases pc) (auto simp: list_all_iff split: shutdown_pc.split_asm)

lemma told_ok_steady: "told_ok f pc \<Longrightarrow> steady f f' \<Longrightarrow> told_ok f' pc"
  using told_ok_mono[of f pc f'] steady_told[of f f'] by (simp add: steady_def)

lemma cancel_told: "i < length (fb_heap f) \<Longrightarrow> told (cancel_sup i f) i"
  by (simp add: told_def cancel_sup_def sup_cancel_def sup_of_set)

lemma op_told:
  assumes "op_step t v pc f = Some (pc', f')" "op_ok f pc" "told_ok f pc" "\<forall>i \<in> set (map snd (fb_sups f)). i < length (fb_heap f)"
  shows "told_ok f' pc'"
proof (cases pc)
  case (Starting p)
  then show ?thesis using assms by (cases p) (auto simp: step_defs split: step_splits)
next
  case (Stopping p)
  then show ?thesis using assms by (cases p) (auto simp: step_defs at_name_def cancel_told split: step_splits)
next
  case (Restarting p)
  then show ?thesis using assms by (cases p) (auto simp: step_defs at_name_def cancel_told split: step_splits)
next
  case (Removing p)
  then show ?thesis using assms by (cases p) (auto simp: step_defs at_name_def cancel_told split: step_splits)
next
  case (Renaming p)
  then show ?thesis using assms by (cases p) (auto simp: step_defs split: step_splits)
next
  case (Adding p)
  then show ?thesis using assms by (cases p) (auto simp: step_defs split: step_splits)
next
  case (Ensuring p)
  then show ?thesis using assms by (cases p) (auto simp: step_defs split: step_splits)
next
  case (Updating p)
  then show ?thesis using assms by (cases p) (auto simp: step_defs Let_def split: step_splits)
next
  case (ShuttingDown p)
  have c: "length (fb_heap f) \<le> length (fb_heap (fold cancel_sup is f))" "fb_cancelled f \<longrightarrow> fb_cancelled (fold cancel_sup is f)" for "is"
    using steady_cancel_all[of f "is"] by (auto simp: steady_def)
  show ?thesis
  proof (cases p)
    case ShutdownFlag
    then show ?thesis using assms ShuttingDown by (auto simp: step_defs list_all_iff split: if_split_asm)
  next
    case (ShutdownStop "is")
    then show ?thesis using assms ShuttingDown c[of "is"] by (auto simp: list_all_iff) (meson less_le_trans)
  qed (use assms ShuttingDown in \<open>auto simp: step_defs split: if_split_asm\<close>)
qed (use assms in simp)

lemma reach_sups: "fab_reach (f, ts) \<Longrightarrow> \<forall>i \<in> set (map snd (fb_sups f)). i < length (fb_heap f)"
proof
  assume r: "fab_reach (f, ts)"
  fix i assume "i \<in> set (map snd (fb_sups f))"
  then obtain n where "(n, i) \<in> set (fb_sups f)" by auto
  then have "mapped f n i" using reach_keyed[OF r] by (simp add: mapped_def keyed_def map_of_is_SomeI)
  then show "i < length (fb_heap f)" using fab_okD(3)[OF fab_reach_ok[OF r]] by (simp add: map_ok_def)
qed

lemma start_told:
  assumes "told f i" "i \<noteq> j"
  shows "told (release t (start_sup j f)) i"
  using assms by (auto simp: told_def release_def start_sup_def sup_of_def set_sup_def)

lemma reach_told: "fab_reach w \<Longrightarrow> list_all (told_ok (fst w)) (snd w)"
proof (induction rule: fab_reach.induct)
  case (call f ts pc)
  then have "told_ok f pc" by (cases pc) (auto split: stop_pc.split restart_pc.split remove_pc.split shutdown_pc.split)
  then show ?case using call by simp
next
  case (oper f ts t v pc f')
  note ok = fab_reach_ok[OF oper.hyps(1), simplified]
  have told: "told_ok f (ts ! u)" if "u < length ts" for u using oper.IH that by (simp add: list_all_length)
  have me: "told_ok f' pc" by (rule op_told[OF oper.hyps(3) fab_okD(2)[OF ok oper.hyps(2)] told[OF oper.hyps(2)] reach_sups[OF oper.hyps(1)]])
  have "told_ok f' (ts ! u)" if u: "u < length ts" "u \<noteq> t" for u
  proof -
    consider (calm) "steady f f'" | (launch) n i where "ts ! t = Starting (StartRun n i)" "f' = release t (start_sup i f)"
      using step_steady[OF oper.hyps(3)] by blast
    then show ?thesis
    proof cases
      case calm
      then show ?thesis using told_ok_steady told u by blast
    next
      case launch
      have n: "n \<in> holds (ts ! t)" "at_name f n i" using fab_okD(2)[OF ok oper.hyps(2)] by (simp_all add: launch)
      have "told_ok f' (ts ! u)" if "\<forall>j \<in> awaits (ts ! u). told f j \<longrightarrow> told f' j"
        using told_ok_mono[OF told[OF u(1)], of f'] that by (simp add: launch(2) release_def start_sup_def set_sup_def)
      moreover have "told f' j" if j: "j \<in> awaits (ts ! u)" "told f j" for j
      proof (cases "\<exists>p. ts ! u = ShuttingDown p")
        case True
        then have "fb_cancelled f" using told[OF u(1)] j(1) by (auto split: shutdown_pc.split_asm)
        then show ?thesis using j(2) by (simp add: told_def launch(2) release_def start_sup_def set_sup_def)
      next
        case False
        then obtain m where m: "m \<in> holds (ts ! u)" "at_name f m j" using j(1) fab_okD(2)[OF ok u(1)]
          by (cases "ts ! u") (auto split: stop_pc.split_asm restart_pc.split_asm remove_pc.split_asm)
        have "j \<noteq> i"
        proof
          assume "j = i"
          then have "m = n" using m(2) n(2) by (simp add: at_name_def)
          then show False using lock_owner[OF fab_okD(1)[OF ok] oper.hyps(2) u(1) n(1)] m(1) u(2) by simp
        qed
        then show ?thesis unfolding launch(2) by (rule start_told[OF j(2)])
      qed
      ultimately show ?thesis by blast
    qed
  qed
  then show ?case using me oper.hyps(2) by (auto simp: list_all_length nth_list_update)
next
  case (loop f ts j e s' fx)
  have l: "loop_step e (fb_cancelled f \<or> su_cancelled (sup_of f j)) (su_pc (sup_of f j)) (sup_of f j) = Some (s', fx)"
    using loop.hyps by (simp add: sup_step_def)
  have "steady f (set_sup j s' f)" by (rule steady_set) (simp_all add: loop_step_frame[OF l] loop_step_cancelled[OF l])
  moreover have "fb_cancelled (fold effect fx g) = fb_cancelled g" for g
    by (induction fx arbitrary: g) (simp_all add: effect_def split: effect.split)
  then have "steady (set_sup j s' f) (fold effect fx (set_sup j s' f))" by (simp add: effects_rest)
  ultimately have "steady f (fold effect fx (set_sup j s' f))" by (rule steady_trans)
  then show ?case using loop.IH told_ok_steady by (auto simp: list_all_iff)
qed simp

section \<open>Nobody waits for ever\<close>

text \<open>The only position that holds a lock and wants another one.\<close>

lemma wants_more:
  assumes "wants pc = Some n" "holds pc \<noteq> {}" "op_ok f pc"
  shows "\<exists>a. holds pc = {a} \<and> a < n"
proof -
  have "\<exists>a b. pc = Renaming (RenameLock2 a b)"
  proof (cases pc)
    case (Starting p)
    then show ?thesis using assms(1,2) by (cases p) simp_all
  next
    case (Stopping p)
    then show ?thesis using assms(1,2) by (cases p) simp_all
  next
    case (Restarting p)
    then show ?thesis using assms(1,2) by (cases p) simp_all
  next
    case (Removing p)
    then show ?thesis using assms(1,2) by (cases p) simp_all
  next
    case (Renaming p)
    then show ?thesis using assms(1,2) by (cases p) simp_all
  next
    case (Adding p)
    then show ?thesis using assms(1,2) by (cases p) simp_all
  next
    case (Ensuring p)
    then show ?thesis using assms(1,2) by (cases p) simp_all
  next
    case (Updating p)
    then show ?thesis using assms(1,2) by (cases p) simp_all
  qed (use assms(1) in simp_all)
  then obtain a b where "pc = Renaming (RenameLock2 a b)" by blast
  then show ?thesis using assms(1,3) by (auto simp: lock_order_def split: if_split_asm)
qed

text \<open>Following the owners of the locks upwards ends at an operation that wants none.\<close>

lemma some_owner_free:
  assumes ok: "fab_ok f ts" and t: "t < length ts" and b: "\<forall>u < length ts. \<forall>n. wants (ts ! u) = Some n \<longrightarrow> fb_locks f n \<noteq> None"
    and busy: "\<forall>e. ts ! t \<noteq> Returned e"
  shows "\<exists>u < length ts. wants (ts ! u) = None \<and> (\<forall>e. ts ! u \<noteq> Returned e)"
proof (rule ccontr)
  assume "\<not> ?thesis"
  then have all: "\<exists>n. wants (ts ! u) = Some n" if "u < length ts" "\<forall>e. ts ! u \<noteq> Returned e" for u using that by (cases "wants (ts ! u)") auto
  have owner: "\<exists>w < length ts. n \<in> holds (ts ! w) \<and> (\<exists>m > n. wants (ts ! w) = Some m)"
    if u: "u < length ts" "wants (ts ! u) = Some n" for u n
  proof -
    obtain w where w: "fb_locks f n = Some w" using b u by blast
    then have o: "w < length ts" "n \<in> holds (ts ! w)" using fab_okD(1)[OF ok] by (auto simp: locks_ok_def)
    then have "\<forall>e. ts ! w \<noteq> Returned e" by (metis empty_iff holds.simps(1))
    then obtain m where m: "wants (ts ! w) = Some m" using all[OF o(1)] by blast
    have "holds (ts ! w) \<noteq> {}" using o(2) by blast
    then obtain a where "holds (ts ! w) = {a}" "a < m" using wants_more[OF m _ fab_okD(2)[OF ok o(1)]] by blast
    then have "n < m" using o(2) by simp
    then show ?thesis using o m by blast
  qed
  let ?W = "{n. \<exists>u < length ts. wants (ts ! u) = Some n}"
  have fin: "finite ?W"
  proof (rule finite_subset)
    show "?W \<subseteq> (\<lambda>u. the (wants (ts ! u))) ` {..<length ts}" by force
  qed simp
  have "?W \<noteq> {}" using all[OF t] busy t by blast
  then have "Max ?W \<in> ?W" using fin by (intro Max_in)
  then obtain m where "m > Max ?W" "m \<in> ?W" using owner by blast
  then show False using Max_ge[OF fin] by fastforce
qed

text \<open>A fabric that comes up empty, and an answer from a disk that works.\<close>

definition demo :: "turn list \<Rightarrow> fab \<times> op_pc list" where
  "demo ms = schedule ms (new_fabric [] (bstr ''/log''), [])"

definition fine :: fab_env where
  "fine = \<lparr>fa_now = 1, fa_readable = True, fa_stat_ok = True, fa_fault = None, fa_removable = True, fa_undo = True, fa_taken = False,
     fa_log_error = [], fa_pty = True\<rparr>"

definition demo_up :: "turn list" where
  "demo_up = Call (Adding (AddLock (plain_service (bstr ''a'') RestartAlways) True)) # replicate 7 (Oper 0 fine)"

definition awake :: loop_env where
  "awake = \<lparr>en_now = 2, en_spawn = Inr \<lparr>pr_pid = 7, pr_started = 2\<rparr>, en_pty = True, en_exit = None, en_write = None, en_timer = False\<rparr>"

definition all_up :: "turn list" where
  "all_up = demo_up @ replicate 7 (Turn 1 awake)"

definition ended :: loop_env where
  "ended = awake\<lparr>en_exit := Some (\<lparr>code = 0, signal = []\<rparr>, 5)\<rparr>"

text \<open>Whether the next step of an operation returns without an error.\<close>

definition ends_well :: "nat \<Rightarrow> fab \<times> op_pc list \<Rightarrow> bool" where
  "ends_well t w \<longleftrightarrow> t < length (snd w) \<and> (case op_step t fine (snd w ! t) (fst w) of Some (Returned None, f') \<Rightarrow> True | _ \<Rightarrow> False)"

lemma ends_well_step: "ends_well t w \<Longrightarrow> t < length (snd w) \<and> (\<exists>f'. op_step t fine (snd w ! t) (fst w) = Some (Returned None, f'))"
  by (auto simp: ends_well_def split: option.split_asm prod.split_asm op_pc.split_asm)

definition stopping :: "turn list" where
  "stopping = all_up @ Call (Stopping (StopLock (bstr ''a''))) # replicate 4 (Oper 1 fine) @ replicate 7 (Turn 1 ended)"

definition removing :: "turn list" where
  "removing = all_up @ Call (Removing (RemoveLock (bstr ''a'') True)) # replicate 3 (Oper 1 fine) @ replicate 7 (Turn 1 ended) @ replicate 3 (Oper 1 fine)"

definition restarting :: "turn list" where
  "restarting = all_up @ Call (Restarting (RestartLock (bstr ''a''))) # replicate 4 (Oper 1 fine)"

lemma demo_reach: "fab_reach (fst (demo ms), snd (demo ms))"
  using schedule_reach[OF fresh_reach] by (simp add: demo_def)

fun returned :: "op_pc \<Rightarrow> bool" where
  "returned (Returned e) = True"
| "returned _ = False"

lemma returned_none: "returned pc \<Longrightarrow> holds pc = {}"
  by (cases pc) simp_all

section \<open>Properties\<close>

text \<open>What a daemon hands to its successor names every service once, so that the successor comes up as \<open>boot\<close> has it.\<close>

lemma some_names: "map ho_name (List.map_filter g xs) = map fst (filter (\<lambda>x. g x \<noteq> None) xs)"
  if "\<And>x h. g x = Some h \<Longrightarrow> ho_name h = fst x"
  using that by (induction xs) (auto simp: List.map_filter_def)

lemma handovers_distinct: "keyed f \<Longrightarrow> distinct (map ho_name (handovers fd f))"
proof -
  assume k: "keyed f"
  let ?g = "\<lambda>(n, i). case su_cur (sup_of f i) of None \<Rightarrow> None | Some p \<Rightarrow> if fd p < 0 then None
      else Some \<lparr>ho_name = n, ho_pid = pr_pid p, ho_fd = fd p, ho_started = Some (pr_started p), ho_orphan = False\<rparr>"
  have "distinct (map ho_name (List.map_filter ?g (fb_sups f)))"
    using k by (subst some_names) (auto simp: keyed_def distinct_map_filter split: option.split_asm if_split_asm)
  then show ?thesis by (simp add: handovers_def distinct_map)
qed

lemma upgraded_reach:
  assumes "fab_reach (f, ts)"
  shows "fab_reach (snd (adopt_all there v dir_ok readable (filter keep (handovers fd f)) (new_fabric (fb_reg f) log_dir)), [])"
proof (rule fab_reach.boot)
  show "named_registry (fb_reg f)" using fab_okD(7)[OF fab_reach_ok[OF assms]] by simp
  show "distinct (map ho_name (filter keep (handovers fd f)))"
    using handovers_distinct[of f fd] reach_keyed[OF assms] by (simp add: distinct_map_filter)
qed



text \<open>
  Two handovers of one name are not refused (\<open>AdoptAll\<close> does not look, and \<open>RecoveredPTYs\<close> only asks whether the process
  is there): both are adopted, and two loops look after one service, of which the fabric knows the second only.
\<close>

definition of_a :: "int \<Rightarrow> handover" where
  "of_a pid = \<lparr>ho_name = bstr ''a'', ho_pid = pid, ho_fd = 5, ho_started = None, ho_orphan = True\<rparr>"

lemma handed_twice:
  "case snd (adopt_all (\<lambda>pid. True) fine True (\<lambda>n. True) [of_a 7, of_a 8] (new_fabric (fb_reg (fst (demo demo_up))) [])) of
     f \<Rightarrow> alive f 0 \<and> alive f 1 \<and> map snd (fb_sups f) = [1] \<and>
       map (\<lambda>s. (sv_name (su_svc s), map_option pr_pid (su_adopted s))) (fb_heap f) = [(bstr ''a'', Some 7), (bstr ''a'', Some 8)]"
  by code_simp

text \<open>
  No service runs where nobody can reach it: once the operations under way have returned, the
  fabric leads from the name of every live supervisor to that supervisor.
\<close>

theorem running_is_reachable:
  assumes "fab_reach (f, ts)" "\<not> fb_closed f" "list_all returned ts" "alive f j"
  shows "find_sup (nm f j) f = Inr j"
proof -
  have "mapped f (nm f j) j \<or> (\<exists>t < length ts. nm f j \<in> holds (ts ! t))"
    using fab_okD(4)[OF fab_reach_ok[OF assms(1)]] assms(2,4) by (auto simp: led_to_def)
  moreover have "holds (ts ! t) = {}" if "t < length ts" for t using assms(3) that by (auto simp: list_all_length dest: returned_none)
  ultimately show ?thesis using assms(2) by (auto simp: mapped_def find_sup_def)
qed

theorem running_is_reachable_witness: "find_sup (nm (fst (demo demo_up)) 1) (fst (demo demo_up)) = Inr 1"
proof (rule running_is_reachable[OF demo_reach])
  show "\<not> fb_closed (fst (demo demo_up))" "list_all returned (snd (demo demo_up))" "alive (fst (demo demo_up)) 1" by code_simp+
qed

text \<open>
  C3. Stopped means stopped: when \<open>Stop\<close> returns without an error, nothing runs under the name any more
  and the definition says that nothing should.
\<close>

theorem stop_means_stopped:
  assumes "fab_reach (f, ts)" "t < length ts" "ts ! t = Stopping p" "op_step t v (ts ! t) f = Some (Returned None, f')"
  shows "\<exists>n i. p = StopWait n i \<and> none_alive f' n \<and> disabled f' n"
proof -
  note ok = fab_reach_ok[OF assms(1), simplified]
  obtain n i where p: "p = StopWait n i" "sup_stopped (sup_of f i)" "f' = release t f"
    using assms(3,4) by (cases p) (auto simp: step_defs split: step_splits)
  have o: "only f n i" "disabled f n" using fab_okD(2)[OF ok assms(2)] by (simp_all add: assms(3) p(1))
  have "none_alive f n" using only_dead[OF o(1)] stopped_dead[OF fab_okD(6)[OF ok] p(2)] by simp
  then show ?thesis using p(1,3) o(2) by (simp add: none_alive_def disabled_def release_def alive_def nm_def sup_of_def)
qed

theorem stop_means_stopped_witness:
  "\<exists>f'. op_step 1 fine (snd (demo stopping) ! 1) (fst (demo stopping)) = Some (Returned None, f') \<and> none_alive f' (bstr ''a'') \<and> disabled f' (bstr ''a'')"
proof -
  have w: "ends_well 1 (demo stopping)" "case snd (demo stopping) ! 1 of Stopping (StopWait n i) \<Rightarrow> n = bstr ''a'' | _ \<Rightarrow> False" by code_simp+
  then obtain i where p: "snd (demo stopping) ! 1 = Stopping (StopWait (bstr ''a'') i)" by (auto split: op_pc.split_asm stop_pc.split_asm)
  show ?thesis using stop_means_stopped[OF demo_reach _ p] ends_well_step[OF w(1)] p by fastforce
qed

text \<open>
  C4. Removed means gone: when \<open>Remove\<close> returns without an error, or with one that is about the log
  only, nothing runs under the name, the fabric does not know it and there is no file of that name.
\<close>

theorem removed_is_gone:
  assumes "fab_reach (f, ts)" "t < length ts" "ts ! t = Removing p" "op_step t v (ts ! t) f = Some (Returned e, f')"
    "\<forall>x. e = Some x \<longrightarrow> (\<exists>why. x = LogKept why)"
  shows "\<exists>n keep. p = RemoveDef n keep \<and> none_alive f' n \<and> map_of (fb_sups f') n = None \<and> map_of (fb_reg f') n = None"
proof -
  note ok = fab_reach_ok[OF assms(1), simplified]
  obtain n keep where p: "p = RemoveDef n keep" using assms(3-5) by (cases p) (auto simp: step_defs find_sup_def split: step_splits)
  obtain r where r: "reg_remove (fa_removable v) n (fb_reg f) = (None, r)" "f' = release t (f\<lparr>fb_reg := r\<rparr>)"
    using assms(3-5) by (auto simp: p step_defs split: step_splits)
  have "none_alive f n" "unmapped f n" using fab_okD(2)[OF ok assms(2)] by (simp_all add: assms(3) p)
  moreover have "map_of r n = None" using r(1) by (auto simp: reg_remove_def delete_conv' split: step_splits)
  ultimately show ?thesis using p r(2) by (simp add: none_alive_def unmapped_def release_def alive_def nm_def sup_of_def)
qed

theorem removed_is_gone_witness:
  "\<exists>f'. op_step 1 fine (snd (demo removing) ! 1) (fst (demo removing)) = Some (Returned None, f') \<and> none_alive f' (bstr ''a'') \<and>
     map_of (fb_reg f') (bstr ''a'') = None"
proof -
  have w: "ends_well 1 (demo removing)" "case snd (demo removing) ! 1 of Removing (RemoveDef n k) \<Rightarrow> n = bstr ''a'' | _ \<Rightarrow> False" by code_simp+
  then obtain k where p: "snd (demo removing) ! 1 = Removing (RemoveDef (bstr ''a'') k)" by (auto split: op_pc.split_asm remove_pc.split_asm)
  show ?thesis using removed_is_gone[OF demo_reach _ p] ends_well_step[OF w(1)] p by fastforce
qed

text \<open>
  C5. A restart is never reported as an end: from the moment the successor is in place until it is
  started, whoever asks for the status of the name reads a service that has not run yet, so it is not
  finished - although the old process is being stopped meanwhile.
\<close>

theorem restart_is_not_an_end:
  assumes "fab_reach (f, ts)" "t < length ts" "ts ! t = Restarting p" "p \<in> {RestartCancel n i j, RestartWait n i j}" "fab_status le n f = Inr st"
  shows "\<not> status_finished st \<and> \<not> status_live st \<and> st_state st = StateStopped"
proof -
  note ok = fab_reach_ok[OF assms(1), simplified]
  have a: "at_name f n j" "asleep f j" "bound f n j" using fab_okD(2)[OF ok assms(2)] assms(3,4) by auto
  have "\<not> fb_closed f" "st = sup_status (le (su_out (sup_of f j))) (sup_of f j)"
    using assms(5) a(3) by (auto simp: fab_status_def find_sup_def bound_def mapped_def split: if_split_asm option.split_asm)
  moreover have "sup_ok (sup_of f j)" using fab_okD(6)[OF ok] a(1) by (simp add: sups_ok_def at_name_def)
  ultimately show ?thesis using a(2) by (auto simp: sup_ok_def asleep_def sup_status_def status_live_def status_finished_def)
qed

theorem restart_is_not_an_end_witness:
  "\<exists>st. fab_status (\<lambda>_. []) (bstr ''a'') (fst (demo restarting)) = Inr st \<and> \<not> status_finished st"
proof -
  have "case snd (demo restarting) ! 1 of Restarting (RestartWait n i j) \<Rightarrow> n = bstr ''a'' | _ \<Rightarrow> False" "1 < length (snd (demo restarting))"
    "\<not> isl (fab_status (\<lambda>_. []) (bstr ''a'') (fst (demo restarting)))" by code_simp+
  then obtain i j st where p: "snd (demo restarting) ! 1 = Restarting (RestartWait (bstr ''a'') i j)" "1 < length (snd (demo restarting))"
    "fab_status (\<lambda>_. []) (bstr ''a'') (fst (demo restarting)) = Inr st"
    by (cases "fab_status (\<lambda>_. []) (bstr ''a'') (fst (demo restarting))") (auto split: op_pc.split_asm restart_pc.split_asm)
  show ?thesis using restart_is_not_an_end[OF demo_reach p(2,1) _ p(3)] p(3) by blast
qed

text \<open>
  C2. No operation waits for ever: as long as one has not returned, an operation can take its next
  step, or one waits for a loop that has been told to end, and that loop takes a step towards its end as
  soon as its process is gone. Two renames that swap names do not lock each other out.
\<close>

theorem no_deadlock:
  assumes "fab_reach (f, ts)" "t < length ts" "\<forall>e. ts ! t \<noteq> Returned e"
  shows "(\<exists>u < length ts. op_step u v (ts ! u) f \<noteq> None) \<or>
    (\<exists>u < length ts. \<exists>j \<in> awaits (ts ! u). j < length (fb_heap f) \<and>
       (\<forall>e. en_exit e \<noteq> None \<longrightarrow> (\<exists>s fx. sup_step e (fb_cancelled f) (sup_of f j) = Some (s, fx) \<and> distance (su_pc s) < distance (su_pc (sup_of f j)))))"
proof (cases "\<exists>u < length ts. op_step u v (ts ! u) f \<noteq> None")
  case False
  note ok = fab_reach_ok[OF assms(1), simplified]
  have b: "(\<exists>e. ts ! u = Returned e) \<or> (\<exists>n w. wants (ts ! u) = Some n \<and> fb_locks f n = Some w) \<or> (\<exists>i \<in> awaits (ts ! u). \<not> sup_stopped (sup_of f i))"
    if "u < length ts" for u using blocked False that by blast
  have "awaits pc = {}" if "wants pc = Some n" for pc n using that
    by (cases pc) (auto split: stop_pc.split_asm restart_pc.split_asm remove_pc.split_asm)
  then have "\<forall>u < length ts. \<forall>n. wants (ts ! u) = Some n \<longrightarrow> fb_locks f n \<noteq> None" using b by fastforce
  then obtain u where u: "u < length ts" "wants (ts ! u) = None" "\<forall>e. ts ! u \<noteq> Returned e" using some_owner_free[OF ok assms(2) _ assms(3)] by blast
  then obtain j where j: "j \<in> awaits (ts ! u)" "\<not> sup_stopped (sup_of f j)" using b[OF u(1)] by auto
  have "told f j" using reach_told[OF assms(1)] u(1) j(1) told_ok_told by (auto simp: list_all_length)
  then have g: "j < length (fb_heap f)" "fb_cancelled f \<or> su_cancelled (sup_of f j)" using j(2) by (auto simp: told_def sup_stopped_def)
  have "su_pc (sup_of f j) \<notin> {LIdle, LDone}" using fab_okD(6)[OF ok] g(1) j(2) by (auto simp: sups_ok_def sup_ok_def sup_stopped_def)
  then have "\<exists>s fx. sup_step e (fb_cancelled f) (sup_of f j) = Some (s, fx) \<and> distance (su_pc s) < distance (su_pc (sup_of f j))" if "en_exit e \<noteq> None" for e
    using told_step[OF that, of "su_pc (sup_of f j)" "sup_of f j"] g(2) by (auto simp: sup_step_def)
  then show ?thesis using u(1) j(1) g(1) by blast
qed simp

theorem no_deadlock_witness:
  "\<exists>u < length (snd (demo stopping)). (op_step u fine (snd (demo stopping) ! u) (fst (demo stopping)), awaits (snd (demo stopping) ! u)) \<noteq> (None, {})"
proof -
  have "1 < length (snd (demo stopping))" "case snd (demo stopping) ! 1 of Returned e \<Rightarrow> False | _ \<Rightarrow> True" by code_simp+
  then show ?thesis using no_deadlock[OF demo_reach, of 1 stopping fine] by fastforce
qed

text \<open>
  The name is read before the hook is called, and a rename may come in between: the descriptor of the
  terminal is then filed under the old name after the rename re-filed it, and when the process ends it
  is dropped under the new name only. The entry of a process that is gone stays in the store.
\<close>

definition raced :: "turn list" where
  "raced = demo_up @ replicate 5 (Turn 1 awake) @ Call (Renaming (RenameLock (bstr ''a'') (bstr ''b''))) # replicate 11 (Oper 1 fine) @
     replicate 2 (Turn 1 awake) @ replicate 3 (Turn 1 (awake\<lparr>en_exit := Some (\<lparr>code = 0, signal = []\<rparr>, 5)\<rparr>))"

lemma rename_leaves_descriptor:
  "(let f = fst (demo raced) in (map fst (fb_sups f), su_cur (sup_of f 1), fb_store f)) = ([bstr ''b''], None, [(bstr ''a'', 7)])"
  by code_simp

end
