(* ===== verification/Keys.thy ===== *)
theory Keys
  imports Prelude
begin

text \<open>
  The keyboard side of an attach, \<open>terminalInput\<close> of \<open>src/internal/daemon/attachclient.go\<close>: one reader for the
  whole time somebody is here. Everything typed is for the service until the prefix key; the byte after
  that is a command for gozellij. What the reader says to the user is a value, not its words.
\<close>

section \<open>Commands and keys\<close>

datatype outcome =
    OutcomeDisconnected
  | OutcomeDetached
  | OutcomeFinished
  | OutcomeNext
  | OutcomePrev
  | OutcomeList
  | OutcomeSplit
  | OutcomeSplitRows
  | OutcomeFocus
  | OutcomeClosePane
  | OutcomeScrollBack
  | OutcomeScrollForward
  | OutcomeScrollLive
  | OutcomeGrow
  | OutcomeShrink
  | OutcomeRemove
  | OutcomeRevive
  | OutcomeCreate
  | OutcomeRedraw
  | OutcomeRename
  | OutcomeTab nat
  | OutcomeMoveLeft
  | OutcomeMoveRight

text \<open>\<open>OutcomeTab n\<close> is \<open>outcomeTab1 + n\<close>.\<close>

definition default_prefix :: byte where
  "default_prefix = 0x1d"

definition unctrl :: "byte \<Rightarrow> byte \<Rightarrow> byte" where
  "unctrl prefix b =
     (if b = prefix \<or> b = 0x09 \<or> b = 0x0c \<or> b = 0x1b then b
      else if 0x01 \<le> b \<and> b \<le> 0x1a then b + 0x60
      else if b = 0x1f then 0x3f
      else b)"

datatype notice = NoPanes byte bytes | Help | Unbound byte

datatype action = Literal byte | Do outcome | InPanes outcome bytes | Explain notice

definition among :: "byte \<Rightarrow> string \<Rightarrow> bool" where
  "among b cs \<longleftrightarrow> b \<in> set (bstr cs)"

text \<open>The switch of \<open>run\<close>, in its order; \<open>InPanes\<close> is a command that needs panes, and what it would do.\<close>

definition key_action :: "byte \<Rightarrow> byte \<Rightarrow> action" where
  "key_action prefix b =
     (if b = prefix then Literal b
      else if among b ''dD'' then Do OutcomeDetached
      else if among b ''nN '' then Do OutcomeNext
      else if among b ''pP'' then Do OutcomePrev
      else if among b ''lLwW'' then Do OutcomeList
      else if 0x31 \<le> b \<and> b \<le> 0x39 then Do (OutcomeTab (unat (b - 0x31)))
      else if among b ''|sS'' then InPanes OutcomeSplit (bstr ''split the screen'')
      else if among b ''-_'' then InPanes OutcomeSplitRows (bstr ''split the screen'')
      else if among b ''oO'' \<or> b = 0x09 then InPanes OutcomeFocus (bstr ''move between panes'')
      else if among b ''xX'' then InPanes OutcomeClosePane (bstr ''close a pane'')
      else if among b ''rR'' \<or> b = 0x0c then Do OutcomeRedraw
      else if among b ''>+='' then InPanes OutcomeGrow (bstr ''resize a pane'')
      else if among b ''<'' then InPanes OutcomeShrink (bstr ''resize a pane'')
      else if among b ''bB'' then InPanes OutcomeScrollBack (bstr ''scroll back'')
      else if among b ''fF'' then InPanes OutcomeScrollForward (bstr ''scroll forward'')
      else if among b ''gG'' then InPanes OutcomeScrollLive (bstr ''return to the live screen'')
      else if among b ''cC'' then Do OutcomeCreate
      else if among b ''kK'' then Do OutcomeRemove
      else if among b '','' then Do OutcomeRename
      else if among b ''{'' then Do OutcomeMoveLeft
      else if among b ''}'' then Do OutcomeMoveRight
      else if among b ''uU'' then Do OutcomeRevive
      else if among b ''?h'' then Explain Help
      else Explain (Unbound b))"

section \<open>The reader\<close>

text \<open>What it sends: bytes for the service, a command with the fence after it, something for the user.\<close>

datatype sent = Data bytes | Command outcome | Fence | Tell notice

record reader =
  rd_pending :: bytes
  rd_prefixed :: bool

definition new_reader :: reader where
  "new_reader = \<lparr>rd_pending = [], rd_prefixed = False\<rparr>"

definition flush :: "reader \<Rightarrow> sent list" where
  "flush r = (if rd_pending r = [] then [] else [Data (rd_pending r)])"

definition flushed :: "reader \<Rightarrow> reader" where
  "flushed r = r\<lparr>rd_pending := []\<rparr>"

definition key_byte :: "byte \<Rightarrow> bool \<Rightarrow> byte \<Rightarrow> reader \<Rightarrow> sent list \<times> reader" where
  "key_byte prefix panes b r =
     (if rd_prefixed r then
        (let c = unctrl prefix b; r1 = r\<lparr>rd_prefixed := False\<rparr> in
         case key_action prefix c of
           Literal d \<Rightarrow> ([], r1\<lparr>rd_pending := rd_pending r @ [d]\<rparr>)
         | Do x \<Rightarrow> (flush r @ [Command x, Fence], flushed r1)
         | InPanes x what \<Rightarrow>
             if panes then (flush r @ [Command x, Fence], flushed r1) else (flush r @ [Tell (NoPanes c what)], flushed r1)
         | Explain m \<Rightarrow> (flush r @ [Tell m], flushed r1))
      else if b = prefix then ([], r\<lparr>rd_prefixed := True\<rparr>)
      else ([], r\<lparr>rd_pending := rd_pending r @ [b]\<rparr>))"

fun key_bytes :: "byte \<Rightarrow> bool \<Rightarrow> bytes \<Rightarrow> reader \<Rightarrow> sent list \<times> reader" where
  "key_bytes prefix panes [] r = ([], r)"
| "key_bytes prefix panes (b # bs) r =
     (case key_byte prefix panes b r of (out, r1) \<Rightarrow>
        case key_bytes prefix panes bs r1 of (out2, r2) \<Rightarrow> (out @ out2, r2))"

text \<open>One read of the terminal, and the reads of a whole attach.\<close>

definition key_read :: "byte \<Rightarrow> bool \<Rightarrow> bytes \<Rightarrow> reader \<Rightarrow> sent list \<times> reader" where
  "key_read prefix panes buf r = (case key_bytes prefix panes buf r of (out, r1) \<Rightarrow> (out @ flush r1, flushed r1))"

fun key_reads :: "byte \<Rightarrow> bool \<Rightarrow> bytes list \<Rightarrow> reader \<Rightarrow> sent list \<times> reader" where
  "key_reads prefix panes [] r = ([], r)"
| "key_reads prefix panes (buf # bufs) r =
     (case key_read prefix panes buf r of (out, r1) \<Rightarrow>
        case key_reads prefix panes bufs r1 of (out2, r2) \<Rightarrow> (out @ out2, r2))"

section \<open>How the reads are cut does not matter\<close>

text \<open>What was sent, without the grouping of bytes into chunks.\<close>

datatype item = Typed byte | Ordered outcome | Told notice

fun items :: "sent list \<Rightarrow> item list" where
  "items [] = []"
| "items (Data bs # ss) = map Typed bs @ items ss"
| "items (Command x # ss) = Ordered x # items ss"
| "items (Fence # ss) = items ss"
| "items (Tell m # ss) = Told m # items ss"

lemma items_append [simp]: "items (a @ b) = items a @ items b"
  by (induction a rule: items.induct) simp_all

lemma items_flush [simp]: "items (flush r) = map Typed (rd_pending r)"
  by (simp add: flush_def)

lemma flushed_simps [simp]: "rd_pending (flushed r) = []" "rd_prefixed (flushed r) = rd_prefixed r" "flushed (flushed r) = flushed r"
  by (simp_all add: flushed_def)

text \<open>What the keys mean, one at a time: the reference the reader is compared with.\<close>

definition meaning :: "byte \<Rightarrow> bool \<Rightarrow> bool \<Rightarrow> byte \<Rightarrow> item list \<times> bool" where
  "meaning prefix panes prefixed b =
     (if prefixed then
        ((case key_action prefix (unctrl prefix b) of
            Literal d \<Rightarrow> [Typed d]
          | Do x \<Rightarrow> [Ordered x]
          | InPanes x what \<Rightarrow> [if panes then Ordered x else Told (NoPanes (unctrl prefix b) what)]
          | Explain m \<Rightarrow> [Told m]), False)
      else if b = prefix then ([], True)
      else ([Typed b], False))"

fun meanings :: "byte \<Rightarrow> bool \<Rightarrow> bool \<Rightarrow> bytes \<Rightarrow> item list \<times> bool" where
  "meanings prefix panes prefixed [] = ([], prefixed)"
| "meanings prefix panes prefixed (b # bs) =
     (case meaning prefix panes prefixed b of (xs, pf) \<Rightarrow> case meanings prefix panes pf bs of (ys, pf2) \<Rightarrow> (xs @ ys, pf2))"

lemma meanings_append:
  "meanings prefix panes pf (xs @ ys) =
     (case meanings prefix panes pf xs of (a, pf1) \<Rightarrow> case meanings prefix panes pf1 ys of (b, pf2) \<Rightarrow> (a @ b, pf2))"
  by (induction xs arbitrary: pf) (auto split: prod.splits)

lemma key_byte_meaning:
  assumes "key_byte prefix panes b r = (out, r1)"
  shows "items out @ map Typed (rd_pending r1) = map Typed (rd_pending r) @ fst (meaning prefix panes (rd_prefixed r) b)"
    "rd_prefixed r1 = snd (meaning prefix panes (rd_prefixed r) b)"
  using assms by (auto simp: key_byte_def meaning_def flush_def flushed_def Let_def split: if_split_asm action.split_asm)

lemma key_bytes_meaning:
  "key_bytes prefix panes bs r = (out, r1) \<Longrightarrow>
     items out @ map Typed (rd_pending r1) = map Typed (rd_pending r) @ fst (meanings prefix panes (rd_prefixed r) bs) \<and>
     rd_prefixed r1 = snd (meanings prefix panes (rd_prefixed r) bs)"
proof (induction bs arbitrary: r out)
  case (Cons b bs)
  obtain o1 r2 where b: "key_byte prefix panes b r = (o1, r2)" by fastforce
  obtain o2 where bs: "key_bytes prefix panes bs r2 = (o2, r1)" "out = o1 @ o2" using Cons.prems b by (auto split: prod.split_asm)
  show ?case using key_byte_meaning[OF b] Cons.IH[OF bs(1)] bs(2) by (auto split: prod.split)
qed simp

lemma key_reads_meaning:
  "key_reads prefix panes bufs r = (out, r1) \<Longrightarrow> rd_pending r = [] \<Longrightarrow>
     items out = fst (meanings prefix panes (rd_prefixed r) (concat bufs)) \<and> rd_pending r1 = [] \<and>
     rd_prefixed r1 = snd (meanings prefix panes (rd_prefixed r) (concat bufs))"
proof (induction bufs arbitrary: r out)
  case (Cons buf bufs)
  obtain o1 r2 where b: "key_bytes prefix panes buf r = (o1, r2)" by fastforce
  obtain o2 where bs: "key_reads prefix panes bufs (flushed r2) = (o2, r1)" "out = o1 @ flush r2 @ o2"
    using Cons.prems(1) b by (auto simp: key_read_def split: prod.split_asm)
  show ?case using key_bytes_meaning[OF b] Cons.IH[OF bs(1)] Cons.prems(2) bs(2) by (auto simp: meanings_append split: prod.split)
qed simp

section \<open>Commands and their fences\<close>

text \<open>A command is always followed by its fence, and a fence belongs to a command.\<close>

fun fenced :: "sent list \<Rightarrow> bool" where
  "fenced [] = True"
| "fenced (Data bs # ss) = (bs \<noteq> [] \<and> fenced ss)"
| "fenced (Command x # ss) = (case ss of Fence # rest \<Rightarrow> fenced rest | _ \<Rightarrow> False)"
| "fenced (Fence # ss) = False"
| "fenced (Tell m # ss) = fenced ss"

lemma fenced_append: "fenced a \<Longrightarrow> fenced b \<Longrightarrow> fenced (a @ b)"
  by (induction a rule: fenced.induct) (auto split: list.split_asm sent.split_asm)

lemma fenced_flush [simp]: "fenced (flush r)"
  by (simp add: flush_def)

lemma key_byte_fenced: "key_byte prefix panes b r = (out, r1) \<Longrightarrow> fenced out"
  by (auto simp: key_byte_def Let_def split: if_split_asm action.split_asm intro!: fenced_append)

lemma key_bytes_fenced: "key_bytes prefix panes bs r = (out, r1) \<Longrightarrow> fenced out"
  by (induction bs arbitrary: r out) (auto split: prod.split_asm intro!: fenced_append dest: key_byte_fenced)

lemma key_reads_fenced: "key_reads prefix panes bufs r = (out, r1) \<Longrightarrow> fenced out"
  by (induction bufs arbitrary: r out) (auto simp: key_read_def split: prod.split_asm intro!: fenced_append dest: key_bytes_fenced)

text \<open>Typing a byte so that it is for the service whatever it is.\<close>

definition doubled :: "byte \<Rightarrow> bytes \<Rightarrow> bytes" where
  "doubled prefix bs = concat (map (\<lambda>b. if b = prefix then [b, b] else [b]) bs)"

lemma doubled_meaning: "meanings prefix panes False (doubled prefix bs) = (map Typed bs, False)"
  by (induction bs) (auto simp: doubled_def meaning_def unctrl_def key_action_def)

section \<open>Properties\<close>

text \<open>
  However the terminal's input is cut into reads - a paste, a key and the text after it in one read, a
  prefix at the end of one and its command in the next - the reader delivers exactly what the keys mean one
  by one: the same bytes, commands and notices, in the same order.
\<close>

theorem reads_do_not_matter:
  "items (fst (key_reads prefix panes bufs new_reader)) = fst (meanings prefix panes False (concat bufs))"
proof -
  obtain out r1 where "key_reads prefix panes bufs new_reader = (out, r1)" by fastforce
  then show ?thesis using key_reads_meaning[of prefix panes bufs new_reader out r1] by (simp add: new_reader_def)
qed

text \<open>
  Any bytes at all can be typed at a service: with the prefix key pressed twice wherever it occurs, what
  arrives is exactly what was meant, and nothing of it is taken for a command.
\<close>

theorem literal_prefix:
  assumes "concat bufs = doubled prefix bs"
  shows "items (fst (key_reads prefix panes bufs new_reader)) = map Typed bs"
proof -
  obtain out r1 where "key_reads prefix panes bufs new_reader = (out, r1)" by fastforce
  then show ?thesis using key_reads_meaning[of prefix panes bufs new_reader out r1] assms by (simp add: new_reader_def doubled_meaning)
qed

theorem literal_prefix_witness: "items (fst (key_reads default_prefix False [[0x61, 0x1d], [0x1d]] new_reader)) = map Typed [0x61, 0x1d]"
  by (rule literal_prefix) (simp add: doubled_def default_prefix_def)

end
