(* ===== verification/Desk.thy ===== *)
theory Desk
  imports Keys
begin

text \<open>
  Keyboard and session, \<open>runSession\<close>, \<open>drainToFence\<close> and \<open>pickService\<close> of \<open>src/internal/daemon/attachclient.go\<close>.
  The reader sends bytes on one channel and commands on another, a session takes from whichever is ready -
  the choice of \<open>select\<close> is free - and a command ends it; the next session takes over the same channels. A
  session that only watches sends nothing and is not modelled; neither is the timeout of \<open>drainToFence\<close>,
  which is for a reader that has stopped.
\<close>

section \<open>The channels and who reads them\<close>

text \<open>
  \<open>Selecting b\<close> is the loop of a session, \<open>b\<close> being its variable \<open>fenced\<close>; \<open>Picking\<close> is the list of
  services on the screen; \<open>Deaf\<close> is a session whose terminal has ended; \<open>Home\<close> has handed the terminal back.
\<close>

datatype mode = Selecting bool | Draining outcome | Picking | Deaf | Home

record desk =
  dk_todo :: "sent list"
  dk_data :: "bytes option list"
  dk_cmds :: "outcome list"
  dk_mode :: mode
  dk_sent :: bytes
  dk_done :: "(bytes \<times> outcome) list"

definition data_room :: nat where
  "data_room = 64"

text \<open>\<open>dk_sent\<close> is what the session under way has sent to its service, \<open>dk_done\<close> what those before it had.\<close>

definition new_desk :: "sent list \<Rightarrow> desk" where
  "new_desk ss = \<lparr>dk_todo = ss, dk_data = [], dk_cmds = [], dk_mode = Selecting False, dk_sent = [], dk_done = []\<rparr>"

datatype move = Push | TakeData | TakeCmd | Hangup

text \<open>What the attach does about a command: a list to pick from, home, or another session.\<close>

definition after :: "outcome \<Rightarrow> mode" where
  "after x = (if x = OutcomeList then Picking else if x = OutcomeDetached then Home else Selecting False)"

definition leave :: "outcome \<Rightarrow> desk \<Rightarrow> desk" where
  "leave x w = w\<lparr>dk_mode := after x, dk_done := dk_done w @ [(dk_sent w, x)], dk_sent := []\<rparr>"

definition push :: "desk \<Rightarrow> desk option" where
  "push w =
     (case dk_todo w of
        [] \<Rightarrow> None
      | Tell m # r \<Rightarrow> Some (w\<lparr>dk_todo := r\<rparr>)
      | Data c # r \<Rightarrow> if length (dk_data w) < data_room then Some (w\<lparr>dk_todo := r, dk_data := dk_data w @ [Some c]\<rparr>) else None
      | Fence # r \<Rightarrow> if length (dk_data w) < data_room then Some (w\<lparr>dk_todo := r, dk_data := dk_data w @ [None]\<rparr>) else None
      | Command x # r \<Rightarrow> if dk_cmds w = [] then Some (w\<lparr>dk_todo := r, dk_cmds := [x]\<rparr>) else None)"

definition take_data :: "desk \<Rightarrow> desk option" where
  "take_data w =
     (case dk_data w of
        [] \<Rightarrow> None
      | d # ds \<Rightarrow>
          (let v = w\<lparr>dk_data := ds\<rparr> in
           case dk_mode w of
             Selecting f \<Rightarrow>
               (if f then None
                else case d of
                  Some c \<Rightarrow> Some (v\<lparr>dk_sent := dk_sent w @ c\<rparr>)
                | None \<Rightarrow> Some (if dk_cmds w \<noteq> [] then v\<lparr>dk_mode := Selecting True\<rparr> else v))
           | Draining x \<Rightarrow>
               (case d of Some c \<Rightarrow> Some (v\<lparr>dk_sent := dk_sent w @ c\<rparr>) | None \<Rightarrow> Some (leave x v))
           | Picking \<Rightarrow>
               (case d of
                  Some c \<Rightarrow> Some (v\<lparr>dk_mode := Selecting False\<rparr>)
                | None \<Rightarrow> (case dk_cmds w of [] \<Rightarrow> Some v | x # xs \<Rightarrow> Some (v\<lparr>dk_cmds := xs, dk_mode := after x\<rparr>)))
           | Deaf \<Rightarrow> None
           | Home \<Rightarrow> None))"

definition take_cmd :: "desk \<Rightarrow> desk option" where
  "take_cmd w =
     (case dk_cmds w of
        [] \<Rightarrow> None
      | x # xs \<Rightarrow>
          (let v = w\<lparr>dk_cmds := xs\<rparr> in
           case dk_mode w of
             Selecting f \<Rightarrow> Some (if f then leave x v else v\<lparr>dk_mode := Draining x\<rparr>)
           | Draining y \<Rightarrow> None
           | Picking \<Rightarrow> Some (v\<lparr>dk_mode := after x\<rparr>)
           | Deaf \<Rightarrow> None
           | Home \<Rightarrow> None))"

text \<open>The reader reports the end of the terminal once it has sent everything; the session may hear that first.\<close>

definition hangup :: "desk \<Rightarrow> desk option" where
  "hangup w = (if dk_todo w = [] \<and> (\<exists>f \<in> {True, False}. dk_mode w = Selecting f) then Some (w\<lparr>dk_mode := Deaf\<rparr>) else None)"

fun desk_step :: "move \<Rightarrow> desk \<Rightarrow> desk option" where
  "desk_step Push w = push w"
| "desk_step TakeData w = take_data w"
| "desk_step TakeCmd w = take_cmd w"
| "desk_step Hangup w = hangup w"

inductive desk_reach :: "sent list \<Rightarrow> desk \<Rightarrow> bool" for ss where
  start: "desk_reach ss (new_desk ss)"
| step: "desk_reach ss w \<Longrightarrow> desk_step m w = Some w' \<Longrightarrow> desk_reach ss w'"

fun desk_run :: "move list \<Rightarrow> desk \<Rightarrow> desk" where
  "desk_run [] w = w"
| "desk_run (m # ms) w = desk_run ms (case desk_step m w of None \<Rightarrow> w | Some w' \<Rightarrow> w')"

lemma desk_run_reach: "desk_reach ss w \<Longrightarrow> desk_reach ss (desk_run ms w)"
  by (induction ms arbitrary: w) (auto split: option.split intro: desk_reach.step)

section \<open>Whose keystrokes they are\<close>

text \<open>What is typed, divided by the commands: the bytes before each, and those after the last.\<close>

fun parts :: "item list \<Rightarrow> bytes \<Rightarrow> (bytes \<times> outcome) list \<times> bytes" where
  "parts [] acc = ([], acc)"
| "parts (Typed b # is) acc = parts is (acc @ [b])"
| "parts (Ordered x # is) acc = (case parts is [] of (ps, l) \<Rightarrow> ((acc, x) # ps, l))"
| "parts (Told m # is) acc = parts is acc"

fun lane :: "sent list \<Rightarrow> bytes option list" where
  "lane [] = []"
| "lane (Data c # ss) = Some c # lane ss"
| "lane (Fence # ss) = None # lane ss"
| "lane (Command x # ss) = lane ss"
| "lane (Tell m # ss) = lane ss"

fun orders :: "sent list \<Rightarrow> outcome list" where
  "orders [] = []"
| "orders (Command x # ss) = x # orders ss"
| "orders (Data c # ss) = orders ss"
| "orders (Fence # ss) = orders ss"
| "orders (Tell m # ss) = orders ss"

text \<open>The two channels, dealt out again: a fence closes the part of the next command.\<close>

fun deal :: "bytes option list \<Rightarrow> outcome list \<Rightarrow> bytes \<Rightarrow> (bytes \<times> outcome) list \<times> bytes" where
  "deal [] xs acc = ([], acc)"
| "deal (Some c # ds) xs acc = deal ds xs (acc @ c)"
| "deal (None # ds) [] acc = deal ds [] acc"
| "deal (None # ds) (x # xs) acc = (case deal ds xs [] of (ps, l) \<Rightarrow> ((acc, x) # ps, l))"

definition fences :: "bytes option list \<Rightarrow> nat" where
  "fences ds = length (filter (\<lambda>d. d = None) ds)"

lemma fences_simps [simp]: "fences [] = 0" "fences (None # ds) = Suc (fences ds)" "fences (Some c # ds) = fences ds"
  "fences (ds @ es) = fences ds + fences es"
  by (simp_all add: fences_def)

lemma parts_typed: "parts (map Typed c @ is) acc = parts is (acc @ c)"
  by (induction c arbitrary: acc) simp_all

lemma deal_fenced: "fenced ss \<Longrightarrow> deal (lane ss) (orders ss) acc = parts (items ss) acc"
proof (induction ss arbitrary: acc rule: fenced.induct)
  case (3 x ss)
  then show ?case by (auto split: list.split_asm sent.split_asm)
qed (auto simp: parts_typed)

lemma deal_part:
  "deal ds xs acc = (ps, l) \<Longrightarrow> \<exists>r. (case ps of [] \<Rightarrow> l | p # _ \<Rightarrow> fst p) = acc @ r"
proof (induction ds xs acc arbitrary: ps l rule: deal.induct)
  case (2 c ds xs acc)
  then show ?case by fastforce
qed (auto split: prod.split_asm)

lemma orders_fences: "fenced ss \<Longrightarrow> length (orders ss) = fences (lane ss)"
  by (induction ss rule: fenced.induct) (auto split: list.split_asm sent.split_asm)

section \<open>The invariant\<close>

text \<open>The reader may stand between a command and its fence.\<close>

definition half_fenced :: "sent list \<Rightarrow> bool" where
  "half_fenced ss \<longleftrightarrow> fenced ss \<or> (\<exists>r. ss = Fence # r \<and> fenced r)"

definition ahead :: "bytes option list \<Rightarrow> outcome list \<Rightarrow> desk \<Rightarrow> (bytes \<times> outcome) list \<times> bytes" where
  "ahead ds xs w = (case deal ds xs (dk_sent w) of (ps, l) \<Rightarrow> (dk_done w @ ps, l))"

definition desk_ok :: "sent list \<Rightarrow> desk \<Rightarrow> bool" where
  "desk_ok ss w \<longleftrightarrow>
     (let ds = dk_data w @ lane (dk_todo w); xs = dk_cmds w @ orders (dk_todo w); whole = deal (lane ss) (orders ss) [] in
      half_fenced (dk_todo w) \<and> OutcomeList \<notin> set xs \<and>
      (case dk_mode w of
         Selecting f \<Rightarrow> if f then dk_cmds w \<noteq> [] \<and> Suc (fences ds) = length xs \<and> ahead (None # ds) xs w = whole
                        else fences ds = length xs \<and> ahead ds xs w = whole
       | Draining x \<Rightarrow> x \<noteq> OutcomeList \<and> fences ds = Suc (length xs) \<and> ahead ds (x # xs) w = whole
       | Picking \<Rightarrow> False
       | Deaf \<Rightarrow> \<exists>f. ahead (if f then None # ds else ds) xs w = whole
       | Home \<Rightarrow> fences ds = length xs \<and> ahead ds xs w = whole))"

lemma half_fenced_simps [simp]:
  "half_fenced (Data c # ss) \<longleftrightarrow> c \<noteq> [] \<and> fenced ss" "half_fenced (Tell m # ss) \<longleftrightarrow> fenced ss"
  "half_fenced (Fence # ss) \<longleftrightarrow> fenced ss" "half_fenced (Command x # ss) \<longleftrightarrow> (\<exists>r. ss = Fence # r \<and> fenced r)"
  by (auto simp: half_fenced_def split: list.split_asm sent.split_asm)

lemma half_fenced_fenced: "fenced ss \<Longrightarrow> half_fenced ss"
  by (simp add: half_fenced_def)

lemma half_orders: "half_fenced ss \<Longrightarrow> length (orders ss) \<le> fences (lane ss)"
  by (auto simp: half_fenced_def orders_fences)

lemma push_same:
  assumes "push w = Some w'" "half_fenced (dk_todo w)"
  shows "dk_data w' @ lane (dk_todo w') = dk_data w @ lane (dk_todo w)" "dk_cmds w' @ orders (dk_todo w') = dk_cmds w @ orders (dk_todo w)"
    "dk_mode w' = dk_mode w" "dk_sent w' = dk_sent w" "dk_done w' = dk_done w" "half_fenced (dk_todo w')" "dk_cmds w \<noteq> [] \<longrightarrow> dk_cmds w' \<noteq> []"
  using assms by (auto simp: push_def half_fenced_fenced split: list.split_asm sent.split_asm if_split_asm)

lemma leave_ahead:
  "ahead ds xs (leave x w) = (case deal ds xs [] of (ps, l) \<Rightarrow> (dk_done w @ (dk_sent w, x) # ps, l))"
  by (auto simp: ahead_def leave_def split: prod.split)

lemma ahead_same: "dk_sent w' = dk_sent w \<Longrightarrow> dk_done w' = dk_done w \<Longrightarrow> ahead ds xs w' = ahead ds xs w"
  by (simp add: ahead_def)

lemma ahead_send: "ahead ds xs (w\<lparr>dk_sent := dk_sent w @ c\<rparr>) = ahead (Some c # ds) xs w"
  by (simp add: ahead_def)

lemma ahead_fence: "ahead (None # ds) (x # xs) w = ahead ds xs (leave x w)"
  by (simp add: ahead_def leave_def split: prod.split)

lemma push_ok:
  assumes "desk_ok ss w" "push w = Some w'"
  shows "desk_ok ss w'"
proof -
  have h: "half_fenced (dk_todo w)" using assms(1) by (simp add: desk_ok_def Let_def)
  note s = push_same[OF assms(2) h]
  show ?thesis using assms(1) s(6,7) ahead_same[OF s(4,5)] unfolding desk_ok_def Let_def s(1-3)
    by (cases "dk_mode w") (auto split: if_split_asm)
qed

text \<open>A fence is never found without its command: the command was sent first and has not been taken.\<close>

lemma fence_waits:
  assumes "half_fenced todo" "fences (None # ds @ lane todo) = length (cmds @ orders todo)"
  shows "cmds \<noteq> []"
  using half_orders[OF assms(1)] assms(2) by auto

lemma data_ok:
  assumes "desk_ok ss w" "take_data w = Some w'"
  shows "desk_ok ss w'"
proof -
  obtain d ds where q: "dk_data w = d # ds" using assms(2) by (auto simp: take_data_def split: list.split_asm)
  have h: "half_fenced (dk_todo w)" using assms(1) by (simp add: desk_ok_def Let_def)
  show ?thesis
  proof (cases "dk_mode w")
    case (Selecting f)
    then have f: "\<not> f" using assms(2) q by (auto simp: take_data_def Let_def split: if_split_asm)
    have i: "fences (dk_data w @ lane (dk_todo w)) = length (dk_cmds w @ orders (dk_todo w))"
      "ahead (dk_data w @ lane (dk_todo w)) (dk_cmds w @ orders (dk_todo w)) w = deal (lane ss) (orders ss) []"
      and l: "OutcomeList \<notin> set (dk_cmds w)" "OutcomeList \<notin> set (orders (dk_todo w))"
      using assms(1) Selecting f by (simp_all add: desk_ok_def Let_def)
    show ?thesis
    proof (cases d)
      case (Some c)
      then have "w' = w\<lparr>dk_data := ds, dk_sent := dk_sent w @ c\<rparr>" using assms(2) q Selecting f by (simp add: take_data_def Let_def)
      then show ?thesis using i l q Some h Selecting f by (simp add: desk_ok_def Let_def ahead_def)
    next
      case None
      have c: "dk_cmds w \<noteq> []" by (rule fence_waits[OF h, of ds]) (use i(1) q None in simp)
      then have "w' = w\<lparr>dk_data := ds, dk_mode := Selecting True\<rparr>" using assms(2) q Selecting f None by (simp add: take_data_def Let_def)
      then show ?thesis using i l q None h c by (simp add: desk_ok_def Let_def ahead_def)
    qed
  next
    case (Draining x)
    have i: "fences (dk_data w @ lane (dk_todo w)) = Suc (length (dk_cmds w @ orders (dk_todo w)))"
      "ahead (dk_data w @ lane (dk_todo w)) (x # dk_cmds w @ orders (dk_todo w)) w = deal (lane ss) (orders ss) []"
      and l: "x \<noteq> OutcomeList" "OutcomeList \<notin> set (dk_cmds w)" "OutcomeList \<notin> set (orders (dk_todo w))"
      using assms(1) Draining by (simp_all add: desk_ok_def Let_def)
    show ?thesis
    proof (cases d)
      case (Some c)
      then have "w' = w\<lparr>dk_data := ds, dk_sent := dk_sent w @ c\<rparr>" using assms(2) q Draining by (simp add: take_data_def Let_def)
      then show ?thesis using i l q Some h Draining by (simp add: desk_ok_def Let_def ahead_def)
    next
      case None
      then have "w' = leave x (w\<lparr>dk_data := ds\<rparr>)" using assms(2) q Draining by (simp add: take_data_def Let_def)
      then show ?thesis using i l q None h
        by (cases "x = OutcomeDetached") (simp_all add: desk_ok_def Let_def leave_def after_def ahead_def split: prod.split_asm)
    qed
  qed (use assms q in \<open>auto simp: take_data_def desk_ok_def Let_def\<close>)
qed

lemma cmd_ok:
  assumes "desk_ok ss w" "take_cmd w = Some w'"
  shows "desk_ok ss w'"
proof -
  obtain x xs where q: "dk_cmds w = x # xs" using assms(2) by (auto simp: take_cmd_def split: list.split_asm)
  show ?thesis
  proof (cases "dk_mode w")
    case (Selecting f)
    show ?thesis
    proof (cases f)
      case True
      then have "w' = leave x (w\<lparr>dk_cmds := xs\<rparr>)" using assms(2) q Selecting by (simp add: take_cmd_def Let_def)
      then show ?thesis using assms(1) q Selecting True
        by (cases "x = OutcomeDetached") (simp_all add: desk_ok_def Let_def leave_def after_def ahead_def split: prod.split_asm)
    next
      case False
      then have "w' = w\<lparr>dk_cmds := xs, dk_mode := Draining x\<rparr>" using assms(2) q Selecting by (simp add: take_cmd_def Let_def)
      then show ?thesis using assms(1) q Selecting False by (auto simp: desk_ok_def Let_def ahead_def)
    qed
  qed (use assms q in \<open>auto simp: take_cmd_def desk_ok_def Let_def\<close>)
qed

lemma hangup_ok: "desk_ok ss w \<Longrightarrow> hangup w = Some w' \<Longrightarrow> desk_ok ss w'"
  by (auto simp: hangup_def desk_ok_def Let_def ahead_def split: if_split_asm)

lemma desk_reach_ok: "desk_reach ss w \<Longrightarrow> fenced ss \<Longrightarrow> OutcomeList \<notin> set (orders ss) \<Longrightarrow> desk_ok ss w"
proof (induction rule: desk_reach.induct)
  case start
  then show ?case by (simp add: desk_ok_def new_desk_def half_fenced_fenced orders_fences ahead_def)
next
  case (step w m w')
  then show ?case by (cases m) (auto intro: push_ok data_ok cmd_ok hangup_ok)
qed

lemma desk_ok_whole:
  assumes "desk_ok ss w"
  shows "\<exists>ds xs. ahead ds xs w = deal (lane ss) (orders ss) [] \<and>
    (dk_data w @ lane (dk_todo w) = [] \<and> dk_cmds w @ orders (dk_todo w) = [] \<and> (\<forall>x. dk_mode w \<noteq> Draining x) \<and> dk_mode w \<noteq> Deaf \<longrightarrow> ds = [] \<and> xs = [])"
  using assms by (cases "dk_mode w") (auto simp: desk_ok_def Let_def split: if_split_asm)

text \<open>A history: \<open>a\<close> is typed, the next service asked for, \<open>b\<close> typed there.\<close>

definition sample_reads :: "bytes list" where
  "sample_reads = [[0x61, 0x1d, 0x6e, 0x62]]"

definition sample_desk :: desk where
  "sample_desk = desk_run [Push, Push, Push, TakeCmd, TakeData, TakeData, Push, TakeData]
     (new_desk (fst (key_reads 0x1d False sample_reads new_reader)))"

lemma sample_orders: "OutcomeList \<notin> set (orders (fst (key_reads 0x1d False sample_reads new_reader)))"
  by code_simp

lemma sample_reach: "desk_reach (fst (key_reads 0x1d False sample_reads new_reader)) sample_desk"
  unfolding sample_desk_def by (rule desk_run_reach[OF desk_reach.start])

section \<open>Properties\<close>



text \<open>
  Everything typed arrives: reader and sessions never wait for each other, so when none of them can go on
  - and nobody detached or hung up - every part has been sent and every command obeyed.
\<close>

theorem everything_typed_arrives:
  assumes "fst (key_reads prefix panes bufs new_reader) = ss" "OutcomeList \<notin> set (orders ss)" "desk_reach ss w"
    "push w = None" "take_data w = None" "take_cmd w = None" "dk_mode w \<noteq> Home" "dk_mode w \<noteq> Deaf"
  shows "(dk_done w, dk_sent w) = parts (fst (meanings prefix panes False (concat bufs))) []"
proof -
  obtain r where r: "key_reads prefix panes bufs new_reader = (ss, r)" using assms(1) by (metis prod.collapse)
  have f: "fenced ss" by (rule key_reads_fenced[OF r])
  have items: "items ss = fst (meanings prefix panes False (concat bufs))"
    using key_reads_meaning[OF r] by (simp add: new_reader_def)
  have ok: "desk_ok ss w" by (rule desk_reach_ok[OF assms(3) f assms(2)])
  have data: "dk_data w = []" if "\<nexists>b. b \<and> dk_mode w = Selecting b"
    using assms(5,7,8) that ok
    by (cases "dk_mode w"; cases "dk_data w") (auto simp: take_data_def desk_ok_def Let_def split: option.split_asm if_split_asm)
  have todo: "\<exists>x rest. dk_todo w = Command x # rest \<and> dk_cmds w \<noteq> []" if "dk_todo w \<noteq> []" "dk_data w = []"
    using assms(4) that by (cases "dk_todo w"; cases "hd (dk_todo w)") (auto simp: push_def data_room_def split: if_split_asm)
  show ?thesis
  proof (cases "dk_mode w")
    case (Selecting b)
    have c: "dk_cmds w = []" using assms(6) Selecting by (auto simp: take_cmd_def Let_def split: list.split_asm)
    then have b: "\<not> b" using ok Selecting by (auto simp: desk_ok_def Let_def)
    then have d: "dk_data w = []" using data Selecting by auto
    have "dk_todo w = []" using todo d c by blast
    then show ?thesis using ok Selecting b d c deal_fenced[OF f, of "[]"] items by (simp add: desk_ok_def Let_def ahead_def)
  next
    case (Draining x)
    have d: "dk_data w = []" using data Draining by auto
    have i: "fences (lane (dk_todo w)) = Suc (length (dk_cmds w @ orders (dk_todo w)))" "half_fenced (dk_todo w)"
      using ok Draining d by (simp_all add: desk_ok_def Let_def)
    then have "dk_todo w \<noteq> []" by auto
    then obtain y rest where y: "dk_todo w = Command y # rest" "dk_cmds w \<noteq> []" using todo d by blast
    then show ?thesis using i by (auto simp: orders_fences)
  qed (use ok assms(7,8) in \<open>auto simp: desk_ok_def Let_def\<close>)
qed

theorem everything_typed_arrives_witness:
  "(dk_done sample_desk, dk_sent sample_desk) = parts (fst (meanings 0x1d False False (concat sample_reads))) []"
proof (rule everything_typed_arrives[OF refl sample_orders sample_reach])
  have "Option.is_none (push sample_desk)" "Option.is_none (take_data sample_desk)" "Option.is_none (take_cmd sample_desk)" by code_simp+
  then show "push sample_desk = None" "take_data sample_desk = None" "take_cmd sample_desk = None" by (simp_all add: Option.is_none_def)
  show "dk_mode sample_desk \<noteq> Home" "dk_mode sample_desk \<noteq> Deaf" by code_simp+
qed

text \<open>
  Three interleavings in which typed text is lost or goes to the wrong service. Input that ends - a pipe, a
  file - is reported on a channel of its own, and a session that hears of the end first never reads what is
  still queued.
\<close>

lemma early_end_loses_input:
  "(let w = desk_run [Push, Hangup] (new_desk (fst (key_reads 0x1d False [bstr ''ls''] new_reader)))
    in (dk_todo w, dk_data w, dk_sent w, map (\<lambda>m. Option.is_none (desk_step m w)) [Push, TakeData, TakeCmd, Hangup])) =
   ([], [Some (bstr ''ls'')], [], [True, True, True, True])"
  by code_simp

text \<open>The list takes a command before the text typed ahead of it, and the next service gets that text.\<close>

lemma list_text_leaks:
  "(let w = desk_run [Push, TakeCmd, Push, TakeData, Push, Push, TakeCmd, TakeData]
      (new_desk (fst (key_reads 0x1d False [0x1d # bstr ''l'', bstr ''x'' @ 0x1d # bstr ''n''] new_reader)))
    in (dk_done w, dk_mode w, dk_sent w)) = ([([], OutcomeList)], Selecting False, bstr ''x'')"
  by code_simp

text \<open>It also leaves the fence of that command behind, and a session takes it for the fence of its own next command.\<close>

lemma stale_fence_misdirects:
  "(let w = desk_run [Push, TakeCmd, Push, TakeData, Push, TakeCmd, Push, Push, Push, TakeData, TakeCmd, TakeData]
      (new_desk (fst (key_reads 0x1d False [0x1d # bstr ''l'', 0x1d # bstr ''n'', bstr ''x'' @ 0x1d # bstr ''p''] new_reader)))
    in (dk_done w, dk_mode w, dk_sent w)) = ([([], OutcomeList), ([], OutcomePrev)], Selecting False, bstr ''x'')"
  by code_simp

end
