(* ===== verification/Tabs.thy ===== *)
theory Tabs
  imports Services "HOL-Library.Product_Lexorder" "HOL-Library.Multiset"
begin

text \<open>
  Tabs: the order they are numbered in and moving one (\<open>TabOrder\<close>, \<open>moveTab\<close>, \<open>Server.move\<close>), walking from
  one to the next (\<open>neighbourService\<close>, \<open>runningNeighbour\<close>, \<open>nthTab\<close>, \<open>nextUnshown\<close>) and choosing from the list
  (\<open>pickKey\<close>, \<open>pickIndex\<close>), in \<open>src/internal/daemon/attachclient.go\<close>, \<open>server.go\<close> and \<open>renderedsession.go\<close>.
\<close>

section \<open>The order of tabs\<close>

text \<open>What of a status reply the tabs look at.\<close>

record tab =
  tb_service :: bytes
  tb_pid :: int
  tb_created :: int
  tb_order :: int

definition tab_before :: "tab \<Rightarrow> tab \<Rightarrow> bool" where
  "tab_before a b =
     (if (tb_order a > 0) \<noteq> (tb_order b > 0) then tb_order a > 0
      else if tb_order a \<noteq> tb_order b then tb_order a < tb_order b
      else if tb_created a \<noteq> tb_created b then tb_created a < tb_created b
      else tb_service a < tb_service b)"

definition tab_key :: "tab \<Rightarrow> bool \<times> int \<times> int \<times> bytes" where
  "tab_key a = (\<not> tb_order a > 0, tb_order a, tb_created a, tb_service a)"

text \<open>\<open>sort.SliceStable\<close> with \<open>tab_before\<close>: a comparison by a key, and the stable sort by it.\<close>

definition tab_order :: "tab list \<Rightarrow> tab list" where
  "tab_order ts = sort_key tab_key ts"

lemma tab_before_key: "tab_before a b \<longleftrightarrow> tab_key a < tab_key b"
  by (auto simp: tab_before_def tab_key_def less_bool_def)

section \<open>Moving a tab\<close>

fun last_index :: "bytes \<Rightarrow> tab list \<Rightarrow> nat option" where
  "last_index n [] = None"
| "last_index n (t # ts) =
     (case last_index n ts of Some i \<Rightarrow> Some (Suc i) | None \<Rightarrow> if tb_service t = n then Some 0 else None)"

definition rearranged :: "nat \<Rightarrow> nat \<Rightarrow> tab list \<Rightarrow> tab list" where
  "rearranged at to ts =
     (let rest = take at ts @ drop (at + 1) ts in take to rest @ [ts ! at] @ drop to rest)"

text \<open>The orders the daemon writes, first to last; one that is right already is not written.\<close>

definition renumbering :: "tab list \<Rightarrow> (bytes \<times> int) list" where
  "renumbering ts = map (\<lambda>(i, t). (tb_service t, int i + 1)) (filter (\<lambda>(i, t). tb_order t \<noteq> int i + 1) (enumerate 0 ts))"

definition server_move :: "bytes \<Rightarrow> int \<Rightarrow> tab list \<Rightarrow> (service_error + (bytes \<times> int) list)" where
  "server_move n to ts =
     (let list = tab_order ts in
      case last_index n list of
        None \<Rightarrow> Inl (NoSuchService n)
      | Some at \<Rightarrow> Inr (renumbering (rearranged at (nat (min (max to 1) (int (length list)) - 1)) list)))"

definition order_written :: "bytes \<times> int \<Rightarrow> tab list \<Rightarrow> tab list" where
  "order_written u ts = map (\<lambda>t. if tb_service t = fst u then t\<lparr>tb_order := snd u\<rparr> else t) ts"

text \<open>\<open>moveTab\<close>: the key asks for the position beside the one it has, which the daemon counts from one.\<close>

datatype moved = AtTheEnd | MoveTo int

definition move_tab :: "bytes \<Rightarrow> bool \<Rightarrow> tab list \<Rightarrow> moved" where
  "move_tab n right ts =
     (let list = tab_order ts;
          at = (case last_index n list of None \<Rightarrow> -1 | Some i \<Rightarrow> int i);
          to = (if right then at + 2 else at)
      in if at < 0 \<or> to < 1 \<or> to > int (length list) then AtTheEnd else MoveTo to)"

section \<open>From one tab to the next\<close>

fun first_index :: "bytes \<Rightarrow> bytes list \<Rightarrow> nat option" where
  "first_index n [] = None"
| "first_index n (m # ms) = (if m = n then Some 0 else map_option Suc (first_index n ms))"

datatype no_tab = NoServices | OnlyService bytes | NoTab int int | AllShown

definition tab_names :: "tab list \<Rightarrow> bytes list" where
  "tab_names ts = map tb_service (tab_order ts)"

definition neighbour :: "bytes \<Rightarrow> bool \<Rightarrow> tab list \<Rightarrow> no_tab + bytes" where
  "neighbour current forward ts =
     (let names = tab_names ts; n = int (length names) in
      if names = [] then Inl NoServices
      else if length names = 1 then Inl (OnlyService (names ! 0))
      else case first_index current names of
        None \<Rightarrow> Inr (names ! 0)
      | Some at \<Rightarrow> Inr (names ! nat ((int at + (if forward then 1 else -1) + n) mod n)))"

definition nth_tab :: "int \<Rightarrow> tab list \<Rightarrow> no_tab + bytes" where
  "nth_tab n ts =
     (let list = tab_order ts in
      if n < 0 \<or> n \<ge> int (length list) then Inl (NoTab (n + 1) (int (length list))) else Inr (tb_service (list ! nat n)))"

definition running_neighbour :: "bytes \<Rightarrow> tab list \<Rightarrow> bytes" where
  "running_neighbour current ts =
     (let list = tab_order ts; n = int (length list);
          at = (case first_index current (map tb_service list) of None \<Rightarrow> -1 | Some i \<Rightarrow> int i)
      in case find (\<lambda>s. tb_service s \<noteq> current \<and> tb_pid s \<noteq> 0)
           (map (\<lambda>step. list ! nat ((at + int step + n) mod n)) [1..<Suc (length list)]) of
           None \<Rightarrow> [] | Some s \<Rightarrow> tb_service s)"

definition next_unshown :: "bytes \<Rightarrow> bytes list \<Rightarrow> tab list \<Rightarrow> no_tab + bytes" where
  "next_unshown from_here shown ts =
     (let names = tab_names ts; start = (case first_index from_here names of None \<Rightarrow> 0 | Some i \<Rightarrow> i) in
      case find (\<lambda>n. n \<notin> set shown) (map (\<lambda>i. names ! ((start + i) mod length names)) [1..<Suc (length names)]) of
        None \<Rightarrow> Inl AllShown | Some n \<Rightarrow> Inr n)"

section \<open>Choosing from the list\<close>

definition pick_key :: "nat \<Rightarrow> byte" where
  "pick_key i = (if i < 9 then of_nat (0x31 + i) else if i < 9 + 26 then of_nat (0x61 + i - 9) else 0x2e)"

definition pick_index :: "byte \<Rightarrow> int" where
  "pick_index b =
     (if 0x31 \<le> b \<and> b \<le> 0x39 then uint (b - 0x31)
      else if 0x61 \<le> b \<and> b \<le> 0x7a then uint (b - 0x61) + 9
      else if 0x41 \<le> b \<and> b \<le> 0x5a then uint (b - 0x41) + 9
      else -1)"

section \<open>What moving does to the order\<close>

lemma sort_key_map_orders:
  assumes "\<And>i. i < length ts \<Longrightarrow> tb_order (ts ! i) = int i + 1" "mset ts = mset us" "distinct (map tb_service us)"
  shows "tab_order us = ts"
proof -
  have s: "sorted (map tab_key ts)"
    by (rule sorted_iff_nth_mono_less[THEN iffD2]) (auto simp: tab_key_def assms(1))
  have "distinct (map tab_key us)" 
    using assms(3) by (auto simp: distinct_map inj_on_def tab_key_def)
  then have i: "inj_on tab_key (set us)" "distinct us" using distinct_map by blast+
  have "mset (map tab_key ts) = mset (map tab_key (tab_order us))" using assms(2) by (simp add: tab_order_def)
  then have "sort (map tab_key (tab_order us)) = map tab_key ts" using s by (intro properties_for_sort)
  moreover have "sort (map tab_key (tab_order us)) = map tab_key (tab_order us)" by (simp add: tab_order_def sorted_sort_id)
  ultimately have "map tab_key (tab_order us) = map tab_key ts" by simp
  moreover have "set (tab_order us) = set us" "set ts = set us" using mset_eq_setD[OF assms(2)] by (simp_all add: tab_order_def)
  ultimately show ?thesis using inj_on_map_eq_map[of tab_key "tab_order us" ts] i(1) by simp
qed

lemma last_index_Some: "last_index n ts = Some i \<Longrightarrow> i < length ts \<and> tb_service (ts ! i) = n"
  by (induction ts arbitrary: i) (auto split: option.split_asm if_split_asm)

lemma last_index_there: "t \<in> set ts \<Longrightarrow> tb_service t = n \<Longrightarrow> last_index n ts \<noteq> None"
  by (induction ts) (auto split: option.split)

lemma last_index_distinct: "distinct (map tb_service ts) \<Longrightarrow> i < length ts \<Longrightarrow> last_index (tb_service (ts ! i)) ts = Some i"
  using last_index_there[of "ts ! i" ts] last_index_Some[of "tb_service (ts ! i)" ts]
  by (auto simp: distinct_conv_nth)

lemma rearranged_mset: "at < length ts \<Longrightarrow> mset (rearranged at to ts) = mset ts"
proof -
  assume at: "at < length ts"
  have split: "mset (take to xs @ [x] @ drop to xs) = add_mset x (mset xs)" for xs :: "tab list" and x
    by simp (metis append_take_drop_id mset_append)
  have "mset ts = add_mset (ts ! at) (mset (take at ts @ drop (at + 1) ts))"
    by (subst id_take_nth_drop[OF at]) simp
  then show ?thesis unfolding rearranged_def Let_def split by simp
qed

lemma rearranged_length: "at < length ts \<Longrightarrow> length (rearranged at to ts) = length ts"
  using mset_eq_length[OF rearranged_mset] by simp

lemma rearranged_at: "at < length ts \<Longrightarrow> to < length ts \<Longrightarrow> rearranged at to ts ! to = ts ! at"
  by (simp add: rearranged_def Let_def nth_append)

text \<open>The others keep their order.\<close>

lemma rearranged_others:
  assumes "distinct ts" "at < length ts"
  shows "filter (\<lambda>t. t \<noteq> ts ! at) (rearranged at to ts) = filter (\<lambda>t. t \<noteq> ts ! at) ts"
proof -
  have "filter (\<lambda>t. t \<noteq> ts ! at) ts = filter (\<lambda>t. t \<noteq> ts ! at) (take at ts @ drop (at + 1) ts)"
    by (subst id_take_nth_drop[OF assms(2)]) simp
  moreover have "filter (\<lambda>t. t \<noteq> ts ! at) (take to xs @ [ts ! at] @ drop to xs) = filter (\<lambda>t. t \<noteq> ts ! at) xs" for xs
    by simp (metis append_take_drop_id filter_append)
  ultimately show ?thesis unfolding rearranged_def Let_def by metis
qed

section \<open>Writing the new orders\<close>

definition numbered :: "tab list \<Rightarrow> tab list" where
  "numbered ts = map (\<lambda>(i, t). t\<lparr>tb_order := int i + 1\<rparr>) (enumerate 0 ts)"

lemma numbered_nth: "i < length ts \<Longrightarrow> numbered ts ! i = (ts ! i)\<lparr>tb_order := int i + 1\<rparr>"
  by (simp add: numbered_def nth_enumerate_eq)

lemma length_numbered [simp]: "length (numbered ts) = length ts"
  by (simp add: numbered_def)

lemma orders_written:
  "distinct (map fst us) \<Longrightarrow> fold order_written us ts =
     map (\<lambda>t. case map_of us (tb_service t) of None \<Rightarrow> t | Some p \<Rightarrow> t\<lparr>tb_order := p\<rparr>) ts"
proof (induction us arbitrary: ts)
  case (Cons u us)
  have "map_of us (fst u) = None" using Cons.prems by (simp add: map_of_eq_None_iff)
  then show ?case using Cons by (cases u) (auto simp: order_written_def comp_def split: option.split)
qed simp

lemma renumbering_distinct: "distinct (map tb_service ts) \<Longrightarrow> distinct (map fst (renumbering ts))"
proof -
  have "map tb_service ts = map (tb_service \<circ> snd) (enumerate 0 ts)" by (simp flip: map_map)
  then show "distinct (map tb_service ts) \<Longrightarrow> ?thesis"
    by (simp add: renumbering_def comp_def case_prod_unfold distinct_map_filter)
qed

lemma renumbering_of:
  assumes "distinct (map tb_service ts)" "i < length ts"
  shows "map_of (renumbering ts) (tb_service (ts ! i)) = (if tb_order (ts ! i) = int i + 1 then None else Some (int i + 1))"
proof -
  have same: "j = i" if "j < length ts" "tb_service (ts ! j) = tb_service (ts ! i)" for j
    using assms that by (auto simp: distinct_conv_nth)
  have m: "(tb_service (ts ! i), p) \<in> set (renumbering ts) \<longleftrightarrow> tb_order (ts ! i) \<noteq> int i + 1 \<and> p = int i + 1" for p
  proof -
    have "(tb_service (ts ! i), p) \<in> set (renumbering ts) \<longleftrightarrow>
        (\<exists>j < length ts. tb_order (ts ! j) \<noteq> int j + 1 \<and> tb_service (ts ! j) = tb_service (ts ! i) \<and> p = int j + 1)"
      unfolding renumbering_def by (auto simp: in_set_enumerate_eq image_iff Bex_def)
    then show ?thesis using assms(2) same by blast
  qed
  show ?thesis
    using m map_of_eq_Some_iff[OF renumbering_distinct[OF assms(1)], of "tb_service (ts ! i)"]
    by (cases "map_of (renumbering ts) (tb_service (ts ! i))") auto
qed

lemma move_numbers:
  assumes "distinct (map tb_service ts)" "mset r = mset ts"
  shows "tab_order (fold order_written (renumbering r) ts) = numbered r"
proof -
  define g :: "tab \<Rightarrow> tab" where "g t = (case map_of (renumbering r) (tb_service t) of None \<Rightarrow> t | Some p \<Rightarrow> t\<lparr>tb_order := p\<rparr>)" for t
  have d: "distinct (map tb_service r)" using assms by (metis mset_eq_imp_distinct_iff mset_map)
  have w: "fold order_written (renumbering r) ts = map g ts"
    unfolding g_def by (rule orders_written[OF renumbering_distinct[OF d]])
  have n: "numbered r = map g r"
    by (rule nth_equalityI) (auto simp: numbered_nth g_def renumbering_of[OF d])
  have "mset (numbered r) = mset (map g ts)" using assms(2) n by simp
  moreover have "distinct (map tb_service (map g ts))"
  proof -
    have "tb_service (g t) = tb_service t" for t by (simp add: g_def split: option.split)
    then show ?thesis using assms(1) by (simp add: comp_def)
  qed
  ultimately show ?thesis unfolding w by (intro sort_key_map_orders) (auto simp: numbered_nth)
qed

lemma numbered_services [simp]: "map tb_service (numbered ts) = map tb_service ts"
  by (rule nth_equalityI) (simp_all add: numbered_nth)

section \<open>Walking\<close>

lemma first_index_Some: "first_index n ms = Some i \<Longrightarrow> i < length ms \<and> ms ! i = n"
  by (induction ms arbitrary: i) (auto split: if_split_asm)

lemma first_index_distinct: "distinct ms \<Longrightarrow> i < length ms \<Longrightarrow> first_index (ms ! i) ms = Some i"
  by (induction ms arbitrary: i) (auto simp: nth_Cons' nth_mem)

lemma tab_names_set: "set (tab_names ts) = tb_service ` set ts" "length (tab_names ts) = length ts"
  "distinct (map tb_service ts) \<Longrightarrow> distinct (tab_names ts)"
proof -
  have m: "mset (tab_names ts) = mset (map tb_service ts)" by (simp add: tab_names_def tab_order_def)
  show "set (tab_names ts) = tb_service ` set ts" "length (tab_names ts) = length ts"
    using mset_eq_setD[OF m] mset_eq_length[OF m] by simp_all
  show "distinct (map tb_service ts) \<Longrightarrow> distinct (tab_names ts)" using mset_eq_imp_distinct_iff[OF m] by simp
qed

lemma neighbour_at:
  assumes "distinct (map tb_service ts)" "1 < length ts" "i < length ts"
  shows "neighbour (tab_names ts ! i) forward ts = Inr (tab_names ts ! nat ((int i + (if forward then 1 else -1)) mod int (length ts)))"
proof -
  have "first_index (tab_names ts ! i) (tab_names ts) = Some i"
    by (rule first_index_distinct) (use assms tab_names_set in auto)
  moreover have "tab_names ts \<noteq> []" "length (tab_names ts) = length ts" using assms(2) tab_names_set(2)[of ts] by auto
  ultimately show ?thesis using assms(2) by (simp add: neighbour_def Let_def)
qed

fun walk :: "nat \<Rightarrow> bytes \<Rightarrow> tab list \<Rightarrow> bytes" where
  "walk 0 n ts = n"
| "walk (Suc k) n ts = (case neighbour n True ts of Inl e \<Rightarrow> n | Inr m \<Rightarrow> walk k m ts)"

lemma walk_at:
  assumes "distinct (map tb_service ts)" "1 < length ts"
  shows "i < length ts \<Longrightarrow> walk k (tab_names ts ! i) ts = tab_names ts ! ((i + k) mod length ts)"
proof (induction k arbitrary: i)
  case (Suc k)
  have "nat ((int i + 1) mod int (length ts)) = (i + 1) mod length ts"
    by (metis nat_int of_nat_1 of_nat_add zmod_int)
  moreover have "((i + 1) mod length ts + k) mod length ts = (i + Suc k) mod length ts" by (simp add: mod_add_left_eq)
  moreover have "(i + 1) mod length ts < length ts" using assms(2) by (cases ts) simp_all
  ultimately show ?case using neighbour_at[OF assms Suc.prems, of True] Suc.IH[of "(i + 1) mod length ts"] by simp
qed simp

lemma step_back:
  fixes i n :: nat
  assumes "i < n"
  shows "(int (nat ((int i + s) mod int n)) + - s) mod int n = int i"
proof -
  have "int (nat ((int i + s) mod int n)) = (int i + s) mod int n" using assms by simp
  then have "(int (nat ((int i + s) mod int n)) + - s) mod int n = (int i + s + - s) mod int n" by (simp only: mod_add_left_eq)
  then show ?thesis using assms by simp
qed

lemma pick_key_index: "list_all (\<lambda>i. pick_index (pick_key i) = int i) [0..<35]"
  by code_simp

definition sample_tabs :: "tab list" where
  "sample_tabs = [\<lparr>tb_service = bstr ''a'', tb_pid = 1, tb_created = 5, tb_order = 0\<rparr>, \<lparr>tb_service = bstr ''b'', tb_pid = 0, tb_created = 3, tb_order = 0\<rparr>,
     \<lparr>tb_service = bstr ''c'', tb_pid = 2, tb_created = 9, tb_order = 1\<rparr>]"

section \<open>Properties\<close>

text \<open>
  Moving a tab puts it at the position asked for, held to the ends of the row, and leaves the others in
  the order they had - whichever tabs were moved before, made since, or never moved.
\<close>

theorem move_puts_it_there:
  assumes "distinct (map tb_service ts)" "server_move n to ts = Inr us"
  shows "let old = tab_names ts; new = tab_names (fold order_written us ts); k = nat (min (max to 1) (int (length ts)) - 1) in
     k < length new \<and> new ! k = n \<and> filter (\<lambda>m. m \<noteq> n) new = filter (\<lambda>m. m \<noteq> n) old"
proof -
  define list where "list = tab_order ts"
  define k where "k = nat (min (max to 1) (int (length ts)) - 1)"
  have l: "mset list = mset ts" "length list = length ts" by (simp_all add: list_def tab_order_def)
  then have dl: "distinct (map tb_service list)" using assms(1) by (metis mset_eq_imp_distinct_iff mset_map)
  obtain at where a: "last_index n list = Some at" "us = renumbering (rearranged at k list)"
    using assms(2) l(2) by (auto simp: server_move_def Let_def list_def[symmetric] k_def split: option.split_asm)
  have at: "at < length list" "tb_service (list ! at) = n" using last_index_Some[OF a(1)] by auto
  have k: "k < length list" using at(1) l(2) by (simp add: k_def)
  have "tab_order (fold order_written us ts) = numbered (rearranged at k list)"
    unfolding a(2) by (rule move_numbers[OF assms(1)]) (use rearranged_mset[OF at(1)] l(1) in simp)
  then have new: "tab_names (fold order_written us ts) = map tb_service (rearranged at k list)" by (simp add: tab_names_def)
  have "filter (\<lambda>m. m \<noteq> n) (map tb_service xs) = map tb_service (filter (\<lambda>t. t \<noteq> list ! at) xs)" if "set xs \<subseteq> set list" for xs
  proof -
    have "tb_service t \<noteq> n \<longleftrightarrow> t \<noteq> list ! at" if "t \<in> set xs" for t
      using dl at that \<open>set xs \<subseteq> set list\<close> nth_mem[OF at(1)] by (auto simp: distinct_map inj_on_def)
    then show ?thesis by (simp add: filter_map comp_def cong: filter_cong)
  qed
  moreover have "set (rearranged at k list) = set list" by (rule mset_eq_setD[OF rearranged_mset[OF at(1)]])
  moreover have "distinct list" using dl by (simp add: distinct_map)
  ultimately have "filter (\<lambda>m. m \<noteq> n) (map tb_service (rearranged at k list)) = filter (\<lambda>m. m \<noteq> n) (map tb_service list)"
    using rearranged_others[OF _ at(1), of k] by simp
  then show ?thesis unfolding Let_def k_def[symmetric] new
    using k rearranged_at[OF at(1) k] at by (simp add: rearranged_length tab_names_def list_def)
qed

theorem move_puts_it_there_witness:
  "let new = tab_names (fold order_written [(bstr ''a'', 1), (bstr ''c'', 2), (bstr ''b'', 3)] sample_tabs) in new ! 0 = bstr ''a''"
proof -
  have m: "server_move (bstr ''a'') 1 sample_tabs = Inr [(bstr ''a'', 1), (bstr ''c'', 2), (bstr ''b'', 3)]" by code_simp
  have "distinct (map tb_service sample_tabs)" by code_simp
  from move_puts_it_there[OF this m] show ?thesis by (simp add: Let_def sample_tabs_def)
qed

text \<open>
  The keys for next and previous undo each other, and pressing next as often as there are tabs comes
  back to where it began: the walk goes round all tabs.
\<close>

theorem next_and_previous:
  assumes "distinct (map tb_service ts)" "1 < length ts" "n \<in> tb_service ` set ts" "neighbour n forward ts = Inr m"
  shows "neighbour m (\<not> forward) ts = Inr n \<and> walk (length ts) n ts = n"
proof -
  obtain i where i: "i < length ts" "n = tab_names ts ! i" using assms(3) tab_names_set(1,2)[of ts] by (metis in_set_conv_nth)
  define s :: int where "s = (if forward then 1 else -1)"
  define j where "j = nat ((int i + s) mod int (length ts))"
  have "0 \<le> (int i + s) mod int (length ts)" "(int i + s) mod int (length ts) < int (length ts)"
    using assms(2) by (cases ts; simp)+
  then have j: "j < length ts" by (simp add: j_def nat_less_iff)
  have m: "m = tab_names ts ! j" using neighbour_at[OF assms(1,2) i(1), of forward] assms(4) i(2) by (simp add: j_def s_def)
  have "nat ((int j + - s) mod int (length ts)) = i" unfolding j_def using step_back[OF i(1), of s] by simp
  then have "neighbour m (\<not> forward) ts = Inr n"
    unfolding m using neighbour_at[OF assms(1,2) j, of "\<not> forward"] by (simp add: s_def i(2) split: if_split_asm)
  then show ?thesis using walk_at[OF assms(1,2) i(1)] i by simp
qed

theorem next_and_previous_witness: "neighbour (bstr ''b'') False sample_tabs = Inr (bstr ''c'') \<and> walk 3 (bstr ''c'') sample_tabs = bstr ''c''"
proof -
  have "distinct (map tb_service sample_tabs)" "1 < length sample_tabs" "bstr ''c'' \<in> tb_service ` set sample_tabs"
    "neighbour (bstr ''c'') True sample_tabs = Inr (bstr ''b'')" "length sample_tabs = 3" by code_simp+
  from next_and_previous[OF this(1-4)] this(5) show ?thesis by simp
qed

end
