(* ===== verification/AutoName.thy ===== *)
theory AutoName
  imports Services
begin

text \<open>
  \<open>src/internal/daemon/autoname.go\<close>: a tab made by gozellij is named after the program that holds its
  foreground, once it has held it for a while. What the operating system answers about a tab - its process
  group in front, that group's command name and directory - is a value of each round.
\<close>

section \<open>A name from a program\<close>

definition auto_name_every :: int where "auto_name_every = second"
definition name_after :: int where "name_after = 2 * second"
definition rename_after :: int where "rename_after = 30 * second"

text \<open>The pattern \<open>^(new-[0-9]+|shell)$\<close>.\<close>

definition placeholder :: "bytes \<Rightarrow> bool" where
  "placeholder n \<longleftrightarrow>
     n = bstr ''shell'' \<or>
     take 4 n = bstr ''new-'' \<and> drop 4 n \<noteq> [] \<and> list_all is_digit (drop 4 n)"

definition same_name :: "bytes \<Rightarrow> bytes \<Rightarrow> bool" where
  "same_name n base \<longleftrightarrow>
     n = base \<or>
     (let p = base @ [0x2d]; rest = drop (length p) n in take (length p) n = p \<and> rest \<noteq> [] \<and> snd (atoi rest))"

definition not_a_tool :: "bytes list" where
  "not_a_tool = map bstr
     [''bash'', ''sh'', ''zsh'', ''fish'', ''dash'', ''ksh'', ''tcsh'', ''csh'', ''login'', ''sudo'', ''doas'', ''su'', ''gozellij'',
      ''env'', ''nohup'', ''time'']"

text \<open>
  Replacing the runs of \<open>[^a-z0-9_-]+\<close> by a hyphen; the flag is whether the byte before belonged to such a
  run. All bytes of a character that is not ASCII do.
\<close>

fun dashed :: "bool \<Rightarrow> bytes \<Rightarrow> bytes" where
  "dashed run [] = []"
| "dashed run (c # cs) =
     (if name_byte c then c # dashed False cs else if run then dashed True cs else 0x2d # dashed True cs)"

definition trim_dashes :: "bytes \<Rightarrow> bytes" where
  "trim_dashes n = (let d = (\<lambda>c. c = 0x2d \<or> c = 0x5f) in rev (dropWhile d (rev (dropWhile d n))))"

text \<open>\<open>lower\<close> is \<open>strings.ToLower\<close>, whose table of letters is not modelled.\<close>

definition tool_name :: "(bytes \<Rightarrow> bytes) \<Rightarrow> bytes \<Rightarrow> bytes" where
  "tool_name lower comm =
     (let n = lower (trim_space comm) in
      if n \<in> set not_a_tool then []
      else let m = take 32 (trim_dashes (dashed False n)) in
           if m = [] then [] else if name_start (m ! 0) then m else [])"

text \<open>Absolute directories are the lists of their components; the base of the root is a slash.\<close>

definition path_base :: "bytes list \<Rightarrow> bytes" where
  "path_base d = (if d = [] then [0x2f] else last d)"

function repo_root :: "(bytes list \<Rightarrow> bool) \<Rightarrow> bytes list \<Rightarrow> bytes list option" where
  "repo_root git d = (if git d then Some d else if d = [] then None else repo_root git (butlast d))"
  by auto
termination by (relation "measure (\<lambda>(git, d). length d)") auto

declare repo_root.simps [simp del]

definition tab_name :: "(bytes \<Rightarrow> bytes) \<Rightarrow> (bytes list \<Rightarrow> bool) \<Rightarrow> bytes list option \<Rightarrow> bytes \<Rightarrow> bytes list option \<Rightarrow> bytes" where
  "tab_name lower git home tool cwd =
     (case cwd of
        None \<Rightarrow> tool
      | Some d \<Rightarrow>
          (let project = (case repo_root git d of None \<Rightarrow> [] | Some r \<Rightarrow> tool_name lower (path_base r));
               own = (if tool = bstr ''claude'' \<and> d \<noteq> [] \<and> home \<noteq> Some d then tool_name lower (path_base d) else [])
           in if project \<noteq> [] then project else if own \<noteq> [] then own else tool))"

section \<open>The rounds\<close>

record held =
  hl_pg :: int
  hl_since :: int

text \<open>What a round finds out about a tab.\<close>

record look =
  lk_auto :: "bool option"
  lk_live :: bool
  lk_pid :: "int option"
  lk_fg :: "int option"
  lk_comm :: "bytes option"
  lk_cwd :: "bytes list option"

record namer =
  nr_seen :: "bytes \<Rightarrow> held option"
  nr_taken :: "bytes list"
  nr_renames :: "(bytes \<times> bytes) list"

text \<open>The first of base, base-2, base-3 ... that is free; as many tries as there are names are enough.\<close>

fun free_name :: "nat \<Rightarrow> nat \<Rightarrow> bytes \<Rightarrow> bytes \<Rightarrow> bytes list \<Rightarrow> bytes" where
  "free_name 0 i base to taken = to"
| "free_name (Suc k) i base to taken =
     (if to \<in> set taken then free_name k (i + 1) base (base @ [0x2d] @ itoa (int i)) taken else to)"

definition forget :: "bytes \<Rightarrow> namer \<Rightarrow> namer" where
  "forget n w = w\<lparr>nr_seen := (nr_seen w)(n := None)\<rparr>"

definition in_front :: "look \<Rightarrow> int option" where
  "in_front l =
     (if lk_auto l \<noteq> Some True \<or> \<not> lk_live l then None
      else case lk_pid l of
        None \<Rightarrow> None
      | Some pid \<Rightarrow> (case lk_fg l of None \<Rightarrow> None | Some pg \<Rightarrow> if pg = pid then None else Some pg))"

text \<open>\<open>renamed\<close> is whether the fabric did rename the service, its log along or not.\<close>

definition auto_tab ::
  "(bytes \<Rightarrow> bytes) \<Rightarrow> (bytes list \<Rightarrow> bool) \<Rightarrow> bytes list option \<Rightarrow> (bytes \<Rightarrow> bytes \<Rightarrow> bool) \<Rightarrow> int \<Rightarrow> (bytes \<Rightarrow> look) \<Rightarrow> bytes \<Rightarrow> namer \<Rightarrow> namer" where
  "auto_tab lower git home renamed now looks n w =
     (case in_front (looks n) of
        None \<Rightarrow> forget n w
      | Some pg \<Rightarrow>
          (case nr_seen w n of
             None \<Rightarrow> w\<lparr>nr_seen := (nr_seen w)(n \<mapsto> \<lparr>hl_pg = pg, hl_since = now\<rparr>)\<rparr>
           | Some h \<Rightarrow>
               if hl_pg h \<noteq> pg then w\<lparr>nr_seen := (nr_seen w)(n \<mapsto> \<lparr>hl_pg = pg, hl_since = now\<rparr>)\<rparr>
               else if now - hl_since h < (if placeholder n then name_after else rename_after) then w
               else case lk_comm (looks n) of
                 None \<Rightarrow> w
               | Some comm \<Rightarrow>
                   (let tool = tool_name lower comm; base = tab_name lower git home tool (lk_cwd (looks n)) in
                    if tool = [] \<or> same_name n base then w
                    else let to = free_name (length (nr_taken w) + 1) 2 base base (nr_taken w) in
                      if \<not> renamed n to then w
                      else w\<lparr>nr_seen := (nr_seen w)(n := None, to \<mapsto> \<lparr>hl_pg = pg, hl_since = now\<rparr>),
                             nr_taken := to # removeAll n (nr_taken w), nr_renames := nr_renames w @ [(n, to)]\<rparr>)))"

definition auto_once ::
  "(bytes \<Rightarrow> bytes) \<Rightarrow> (bytes list \<Rightarrow> bool) \<Rightarrow> bytes list option \<Rightarrow> (bytes \<Rightarrow> bytes \<Rightarrow> bool) \<Rightarrow> int \<Rightarrow> bytes list \<Rightarrow> (bytes \<Rightarrow> look) \<Rightarrow>
     (bytes \<Rightarrow> held option) \<Rightarrow> namer" where
  "auto_once lower git home renamed now list looks seen =
     fold (auto_tab lower git home renamed now looks) list
       \<lparr>nr_seen = (\<lambda>n. if n \<in> set list then seen n else None), nr_taken = list, nr_renames = []\<rparr>"

section \<open>The names it makes\<close>

lemma dashed_bytes: "list_all name_byte (dashed run n)"
  by (induction run n rule: dashed.induct) (auto simp: name_byte_def)

lemma trim_dashes_set: "set (trim_dashes n) \<subseteq> set n"
  by (auto simp: trim_dashes_def Let_def dest!: set_dropWhileD)

lemma tool_name_ok:
  assumes "tool_name lower comm \<noteq> []"
  shows "list_all name_byte (tool_name lower comm)" "length (tool_name lower comm) \<le> 32" "name_start (tool_name lower comm ! 0)"
proof -
  let ?d = "dashed False (lower (trim_space comm))"
  have m: "tool_name lower comm = take 32 (trim_dashes ?d)" "name_start (take 32 (trim_dashes ?d) ! 0)"
    using assms by (auto simp: tool_name_def Let_def split: if_split_asm)
  show "length (tool_name lower comm) \<le> 32" "name_start (tool_name lower comm ! 0)" using m by simp_all
  have "set (tool_name lower comm) \<subseteq> set ?d" unfolding m(1) using set_take_subset trim_dashes_set by fast
  then show "list_all name_byte (tool_name lower comm)" using dashed_bytes by (auto simp: list_all_iff)
qed

lemma tab_name_ok:
  assumes "tool_name lower comm \<noteq> []"
  shows "\<exists>c. tab_name lower git home (tool_name lower comm) cwd = tool_name lower c \<and> tool_name lower c \<noteq> []"
proof -
  have "tab_name lower git home t cwd = t \<or> (\<exists>c. tab_name lower git home t cwd = tool_name lower c \<and> tool_name lower c \<noteq> [])" for t
    by (auto simp: tab_name_def Let_def split: option.split)
  then show ?thesis using assms by metis
qed

lemma nat_digits_short: "n < 10 ^ k \<Longrightarrow> 0 < k \<Longrightarrow> length (nat_digits n) \<le> k"
proof (induction n arbitrary: k rule: nat_digits.induct)
  case (1 n)
  show ?case
  proof (cases "n < 10")
    case False
    then obtain j where j: "k = Suc j" "0 < j" using 1(2,3) by (cases k; cases "k - 1") auto
    then have "n div 10 < 10 ^ j" using 1(2) by (simp add: less_mult_imp_div_less mult.commute)
    then show ?thesis using 1(1)[OF False, of j] j False by (subst nat_digits.simps) simp
  qed (use 1(3) in \<open>subst nat_digits.simps; simp\<close>)
qed

lemma digit_name_byte: "is_digit c \<Longrightarrow> name_byte c"
  by (auto simp: is_digit_def name_byte_def name_start_def)

lemma numbered_name:
  assumes "tool_name lower c \<noteq> []" "i < 10 ^ 20"
  shows "valid_service_name (tool_name lower c) = None" "valid_service_name (tool_name lower c @ [0x2d] @ itoa (int i)) = None"
proof -
  let ?b = "tool_name lower c"
  note ok = tool_name_ok[OF assms(1)]
  obtain x xs where b: "?b = x # xs" using assms(1) by (cases ?b) auto
  then have x: "name_start x" "list_all name_byte xs" "length xs \<le> 31" using ok by simp_all
  have d: "list_all name_byte (itoa (int i))" "length (itoa (int i)) \<le> 20"
    using nat_digits_digits[of i] nat_digits_short[OF assms(2)] by (auto simp: itoa_def list_all_iff digit_name_byte)
  show "valid_service_name ?b = None" using x by (simp add: b valid_service_name_def service_name_pattern_def)
  have "name_byte 0x2d" by (simp add: name_byte_def)
  then show "valid_service_name (?b @ [0x2d] @ itoa (int i)) = None"
    using x d by (simp add: b valid_service_name_def service_name_pattern_def)
qed

lemma itoa_inj: "0 \<le> m \<Longrightarrow> 0 \<le> n \<Longrightarrow> itoa m = itoa n \<longleftrightarrow> m = n"
proof -
  have "nat_digits a = nat_digits b \<Longrightarrow> a = b" for a b by (metis digits_value_nat_digits of_nat_eq_iff)
  from this[of "nat m" "nat n"] show "0 \<le> m \<Longrightarrow> 0 \<le> n \<Longrightarrow> ?thesis" by (auto simp: itoa_def)
qed

definition candidates :: "nat \<Rightarrow> nat \<Rightarrow> bytes \<Rightarrow> bytes \<Rightarrow> bytes list" where
  "candidates k i base to = to # map (\<lambda>j. base @ [0x2d] @ itoa (int (i + j))) [0..<k]"

lemma candidates_Suc: "candidates (Suc k) i base to = to # candidates k (i + 1) base (base @ [0x2d] @ itoa (int i))"
  by (simp add: candidates_def upt_conv_Cons map_Suc_upt[symmetric] comp_def ac_simps del: upt_Suc)

lemma free_name_cases:
  "(\<exists>c \<in> set (candidates k i base to). free_name (Suc k) i base to taken = c \<and> c \<notin> set taken) \<or> set (candidates k i base to) \<subseteq> set taken"
proof (induction k arbitrary: i to)
  case 0
  then show ?case by (simp add: candidates_def)
next
  case (Suc k)
  show ?case
  proof (cases "to \<in> set taken")
    case True
    then show ?thesis using Suc[of "i + 1" "base @ [0x2d] @ itoa (int i)"] by (auto simp: candidates_Suc)
  qed (simp add: candidates_def)
qed

lemma free_name_ok:
  assumes "base \<noteq> []"
  shows "free_name (length taken + 1) 2 base base taken \<notin> set taken \<and>
    (\<exists>i \<le> length taken + 1. free_name (length taken + 1) 2 base base taken \<in> {base, base @ [0x2d] @ itoa (int i)})"
proof -
  let ?c = "candidates (length taken) 2 base base"
  have "distinct ?c" by (auto simp: candidates_def distinct_map inj_on_def itoa_inj)
  then have "card (set ?c) = length ?c" by (rule distinct_card)
  then have "card (set ?c) = length taken + 1" by (simp add: candidates_def)
  moreover have "card (set taken) \<le> length taken" by (rule card_length)
  ultimately have "\<not> set ?c \<subseteq> set taken" using card_mono[of "set taken" "set ?c"] by auto
  then obtain c where c: "c \<in> set ?c" "free_name (Suc (length taken)) 2 base base taken = c" "c \<notin> set taken"
    using free_name_cases[of "length taken" 2 base base taken] by blast
  have "\<exists>i \<le> length taken + 1. c \<in> {base, base @ [0x2d] @ itoa (int i)}"
  proof (cases "c = base")
    case False
    then obtain j where "j < length taken" "c = base @ [0x2d] @ itoa (int (2 + j))"
      using c(1) unfolding candidates_def list.set set_map insert_iff image_iff by force
    then show ?thesis by (intro exI[of _ "2 + j"]) simp
  qed blast
  then show ?thesis using c(2,3) by simp
qed

section \<open>Round after round\<close>

record auto_round =
  rd_now :: int
  rd_list :: "bytes list"
  rd_looks :: "bytes \<Rightarrow> look"
  rd_renamed :: "bytes \<Rightarrow> bytes \<Rightarrow> bool"

definition round_of ::
  "(bytes \<Rightarrow> bytes) \<Rightarrow> (bytes list \<Rightarrow> bool) \<Rightarrow> bytes list option \<Rightarrow> auto_round \<Rightarrow> (bytes \<Rightarrow> held option) \<Rightarrow> namer" where
  "round_of lower git home r seen = auto_once lower git home (rd_renamed r) (rd_now r) (rd_list r) (rd_looks r) seen"

definition auto_namer ::
  "(bytes \<Rightarrow> bytes) \<Rightarrow> (bytes list \<Rightarrow> bool) \<Rightarrow> bytes list option \<Rightarrow> auto_round list \<Rightarrow> (bytes \<Rightarrow> held option)" where
  "auto_namer lower git home rs = foldl (\<lambda>seen r. nr_seen (round_of lower git home r seen)) (\<lambda>n. None) rs"

section \<open>What a round does\<close>

text \<open>
  While the tabs of a round are gone through: the names are distinct, the tabs still to come have the
  entries the round began with, and what has been renamed had been held long enough.
\<close>

definition held_enough :: "int \<Rightarrow> (bytes \<Rightarrow> look) \<Rightarrow> (bytes \<Rightarrow> held option) \<Rightarrow> bytes \<Rightarrow> bool" where
  "held_enough now looks seen n \<longleftrightarrow>
     (\<exists>h. seen n = Some h \<and> in_front (looks n) = Some (hl_pg h) \<and> now - hl_since h \<ge> (if placeholder n then name_after else rename_after))"

definition seen_ok :: "int \<Rightarrow> (bytes \<Rightarrow> look) \<Rightarrow> (bytes \<Rightarrow> held option) \<Rightarrow> bytes \<Rightarrow> held \<Rightarrow> bool" where
  "seen_ok now looks seen n h \<longleftrightarrow> hl_since h = now \<or> seen n = Some h \<and> in_front (looks n) = Some (hl_pg h)"

definition round_ok :: "nat \<Rightarrow> int \<Rightarrow> (bytes \<Rightarrow> look) \<Rightarrow> (bytes \<Rightarrow> held option) \<Rightarrow> bytes list \<Rightarrow> namer \<Rightarrow> bool" where
  "round_ok k now looks seen todo w \<longleftrightarrow>
     distinct (nr_taken w) \<and> length (nr_taken w) = k \<and> distinct todo \<and> set todo \<subseteq> set (nr_taken w) \<and>
     (\<forall>n \<in> set todo. nr_seen w n = seen n) \<and>
     (\<forall>n h. n \<notin> set todo \<longrightarrow> nr_seen w n = Some h \<longrightarrow> seen_ok now looks seen n h) \<and>
     (\<forall>(n, to) \<in> set (nr_renames w). valid_service_name to = None \<and> held_enough now looks seen n)"

lemma auto_tab_ok:
  assumes "round_ok k now looks seen (n # todo) w" "k < 10 ^ 19"
  shows "round_ok k now looks seen todo (auto_tab lower git home renamed now looks n w)"
proof -
  have a: "distinct (nr_taken w)" "length (nr_taken w) = k" "n \<notin> set todo" "n \<in> set (nr_taken w)" "nr_seen w n = seen n"
    using assms(1) by (auto simp: round_ok_def)
  define base where "base comm = tab_name lower git home (tool_name lower comm) (lk_cwd (looks n))" for comm
  define to where "to comm = free_name (length (nr_taken w) + 1) 2 (base comm) (base comm) (nr_taken w)" for comm
  have to: "to comm \<notin> set (nr_taken w) \<and> valid_service_name (to comm) = None" if "tool_name lower comm \<noteq> []" for comm
  proof -
    have "\<exists>c. base comm = tool_name lower c \<and> tool_name lower c \<noteq> []" unfolding base_def by (rule tab_name_ok[OF that])
    then obtain c where c: "base comm = tool_name lower c" "tool_name lower c \<noteq> []" by blast
    have "base comm \<noteq> []" using c by simp
    obtain i where i: "i \<le> k + 1" "to comm \<in> {base comm, base comm @ [0x2d] @ itoa (int i)}" "to comm \<notin> set (nr_taken w)"
      using free_name_ok[OF \<open>base comm \<noteq> []\<close>, of "nr_taken w"] unfolding to_def a(2)[symmetric] by blast
    have "i < 10 ^ 20" using i(1) assms(2) by simp
    then show ?thesis using i numbered_name[OF c(2), of i] unfolding c(1) by auto
  qed
  have len: "length (removeAll n (nr_taken w)) = k - 1" "0 < k" "distinct (removeAll n (nr_taken w))"
    using a by (auto simp: distinct_remove1_removeAll[symmetric] length_remove1)
  consider (forgotten) "in_front (looks n) = None"
    | (fresh) pg where "in_front (looks n) = Some pg" "nr_seen w n = None \<or> hl_pg (the (nr_seen w n)) \<noteq> pg"
    | (waiting) pg h where "in_front (looks n) = Some pg" "nr_seen w n = Some h" "hl_pg h = pg"
    by (metis not_None_eq option.sel)
  then show ?thesis
  proof cases
    case forgotten
    then show ?thesis using assms(1) a by (auto simp: auto_tab_def forget_def round_ok_def)
  next
    case fresh
    then have "auto_tab lower git home renamed now looks n w = w\<lparr>nr_seen := (nr_seen w)(n \<mapsto> \<lparr>hl_pg = pg, hl_since = now\<rparr>)\<rparr>"
      by (cases "nr_seen w n") (auto simp: auto_tab_def)
    then show ?thesis using assms(1) a by (auto simp: round_ok_def seen_ok_def)
  next
    case waiting
    then have ok: "seen_ok now looks seen n h" using a(5) by (simp add: seen_ok_def)
    have "nr_seen w m = Some g \<longrightarrow> seen_ok now looks seen m g" if "m \<notin> set todo" for m g
      using ok waiting(2) that assms(1) by (cases "m = n") (auto simp: round_ok_def)
    then have keep: "round_ok k now looks seen todo w" using assms(1) by (simp add: round_ok_def)
    show ?thesis
    proof (cases "auto_tab lower git home renamed now looks n w = w")
      case False
      then obtain comm where comm: "tool_name lower comm \<noteq> []" "now - hl_since h \<ge> (if placeholder n then name_after else rename_after)"
        "auto_tab lower git home renamed now looks n w =
           w\<lparr>nr_seen := (nr_seen w)(n := None, to comm \<mapsto> \<lparr>hl_pg = pg, hl_since = now\<rparr>),
             nr_taken := to comm # removeAll n (nr_taken w), nr_renames := nr_renames w @ [(n, to comm)]\<rparr>"
        using waiting by (auto simp: auto_tab_def to_def base_def Let_def not_less split: option.split_asm if_split_asm)
      have h: "held_enough now looks seen n" using waiting comm(2) a(5) by (auto simp: held_enough_def)
      show ?thesis using assms(1) a to[OF comm(1)] len h unfolding comm(3)
        by (auto simp: round_ok_def seen_ok_def)
    qed (use keep in simp)
  qed
qed

lemma auto_tabs_ok:
  assumes "round_ok k now looks seen todo w" "k < 10 ^ 19"
  shows "round_ok k now looks seen [] (fold (auto_tab lower git home renamed now looks) todo w)"
  using assms(1)
proof (induction todo arbitrary: w)
  case (Cons n todo)
  show ?case unfolding fold_simps by (rule Cons.IH[OF auto_tab_ok[OF Cons.prems assms(2)]])
qed simp

lemma auto_once_ok:
  assumes "distinct list" "length list < 10 ^ 19"
  shows "round_ok (length list) now looks (\<lambda>n. if n \<in> set list then seen n else None) []
    (auto_once lower git home renamed now list looks seen)"
  unfolding auto_once_def by (rule auto_tabs_ok) (use assms in \<open>simp_all add: round_ok_def\<close>)

definition listable :: "bytes list \<Rightarrow> bool" where
  "listable l \<longleftrightarrow> distinct l \<and> length l < 10 ^ 19"

definition held_through :: "auto_round list \<Rightarrow> int \<Rightarrow> int \<Rightarrow> bytes \<Rightarrow> bool" where
  "held_through rs since pg n \<longleftrightarrow>
     since \<in> set (map rd_now rs) \<and>
     list_all (\<lambda>r. since < rd_now r \<longrightarrow> n \<in> set (rd_list r) \<and> in_front (rd_looks r n) = Some pg) rs"

lemma auto_namer_held:
  assumes "sorted (map rd_now rs)" "list_all (\<lambda>r. listable (rd_list r)) rs" "auto_namer lower git home rs n = Some h"
  shows "held_through rs (hl_since h) (hl_pg h) n"
  using assms
proof (induction rs arbitrary: n h rule: rev_induct)
  case (snoc r rs)
  let ?seen = "\<lambda>n. if n \<in> set (rd_list r) then auto_namer lower git home rs n else None"
  have "round_ok (length (rd_list r)) (rd_now r) (rd_looks r) ?seen [] (round_of lower git home r (auto_namer lower git home rs))"
    using snoc.prems(2) unfolding round_of_def by (auto simp: listable_def intro: auto_once_ok)
  then have "seen_ok (rd_now r) (rd_looks r) ?seen n h" using snoc.prems(3) by (simp add: round_ok_def auto_namer_def)
  then consider "hl_since h = rd_now r"
    | "n \<in> set (rd_list r)" "auto_namer lower git home rs n = Some h" "in_front (rd_looks r n) = Some (hl_pg h)"
    by (auto simp: seen_ok_def split: if_split_asm)
  then show ?case
  proof cases
    case 1
    then show ?thesis using snoc.prems(1) by (auto simp: held_through_def list_all_iff sorted_append)
  next
    case 2
    then have "held_through rs (hl_since h) (hl_pg h) n" using snoc by (simp add: sorted_append)
    then show ?thesis using 2 by (simp add: held_through_def)
  qed
qed (simp add: auto_namer_def)

definition htop_tab :: "bytes \<Rightarrow> look" where
  "htop_tab n = \<lparr>lk_auto = Some True, lk_live = True, lk_pid = Some 10, lk_fg = Some 11, lk_comm = Some (bstr ''htop''), lk_cwd = None\<rparr>"

definition htop_round :: "int \<Rightarrow> auto_round" where
  "htop_round t = \<lparr>rd_now = t, rd_list = [bstr ''new-1''], rd_looks = htop_tab, rd_renamed = (\<lambda>a b. True)\<rparr>"

section \<open>Properties\<close>

text \<open>
  A tab is named after a program only when that program has held its foreground at every look for two
  seconds - thirty when the tab has a name of its own making already - and the name it gets is one the daemon
  accepts.
\<close>

theorem named_after_what_stayed:
  assumes "sorted (map rd_now (rs @ [r]))" "list_all (\<lambda>q. listable (rd_list q)) (rs @ [r])"
    and "(n, to) \<in> set (nr_renames (round_of lower git home r (auto_namer lower git home rs)))"
  shows "valid_service_name to = None \<and>
    (\<exists>since pg. held_through (rs @ [r]) since pg n \<and> rd_now r - since \<ge> (if placeholder n then name_after else rename_after))"
proof -
  let ?seen = "\<lambda>n. if n \<in> set (rd_list r) then auto_namer lower git home rs n else None"
  have "round_ok (length (rd_list r)) (rd_now r) (rd_looks r) ?seen [] (round_of lower git home r (auto_namer lower git home rs))"
    using assms(2) unfolding round_of_def by (auto simp: listable_def intro: auto_once_ok)
  then have v: "valid_service_name to = None" "held_enough (rd_now r) (rd_looks r) ?seen n"
    using assms(3) by (auto simp: round_ok_def)
  then obtain h where h: "n \<in> set (rd_list r)" "auto_namer lower git home rs n = Some h" "in_front (rd_looks r n) = Some (hl_pg h)"
    "rd_now r - hl_since h \<ge> (if placeholder n then name_after else rename_after)"
    by (auto simp: held_enough_def split: if_split_asm)
  have "held_through rs (hl_since h) (hl_pg h) n" using auto_namer_held[OF _ _ h(2)] assms(1,2) by (simp add: sorted_append)
  then have "held_through (rs @ [r]) (hl_since h) (hl_pg h) n" using h by (simp add: held_through_def)
  then show ?thesis using v(1) h(4) by blast
qed

text \<open>A tab called new-1 in which htop has been running for two seconds.\<close>

theorem named_after_what_stayed_witness:
  "\<exists>since pg. held_through [htop_round 0, htop_round 1000000000, htop_round 2000000000] since pg (bstr ''new-1'') \<and> 2000000000 - since \<ge> name_after"
proof -
  have r: "(bstr ''new-1'', bstr ''htop'') \<in> set (nr_renames (round_of (\<lambda>x. x) (\<lambda>d. False) None (htop_round 2000000000)
      (auto_namer (\<lambda>x. x) (\<lambda>d. False) None [htop_round 0, htop_round 1000000000])))"
    by code_simp
  have p: "placeholder (bstr ''new-1'')" by code_simp
  have l: "list_all (\<lambda>q. listable (rd_list q)) ([htop_round 0, htop_round 1000000000] @ [htop_round 2000000000])"
    by (simp add: htop_round_def listable_def)
  have s: "sorted (map rd_now ([htop_round 0, htop_round 1000000000] @ [htop_round 2000000000]))" by (simp add: htop_round_def)
  show ?thesis using named_after_what_stayed[OF s l r] p by (simp add: htop_round_def)
qed

end
