(* ===== verification/AttachServer.thy ===== *)
theory AttachServer
  imports LogStream Watchers Supervisor Ipc
begin

text \<open>
  The daemon's side of an attach, \<open>src/internal/daemon/attach.go\<close>: three goroutines per client. The pump
  sends the service's output, the watcher waits for renames and for the end, the reader takes what the
  client types. They share the connection, the subscription to the output buffer (component Output) and
  a channel of the status watchers (component Watchers). What the service and everybody else do meanwhile
  are steps of their own.
\<close>

section \<open>Messages\<close>

definition attach_queue_bytes :: int where
  "attach_queue_bytes = 4194304"

datatype event_kind = EventStateChanged | EventLagged | EventProcessExited | EventFinished | EventNotice | EventRenamed

text \<open>The clock's stamp is left out.\<close>

record event_msg =
  ev_kind :: event_kind
  ev_service :: bytes
  ev_message :: bytes

text \<open>Why a request made while attached is refused; \<open>None\<close> in an answer is success.\<close>

datatype refusal = MalformedRequest | NoService bytes | ResizeFailed bytes | NotWhileAttached bytes | UnexpectedFrame kind

datatype to_client = Output bytes | Event event_msg | Answer nat "refusal option"

definition unknown_exit_signal :: bytes where
  "unknown_exit_signal = bstr ''ended while adopted, so how is not known''"

definition unknown_exit :: exit_status where
  "unknown_exit = \<lparr>code = -1, signal = unknown_exit_signal\<rparr>"

definition is_unknown :: "exit_status \<Rightarrow> bool" where
  "is_unknown e \<longleftrightarrow> signal e = unknown_exit_signal"

definition exit_words :: "bytes \<Rightarrow> status \<Rightarrow> bytes" where
  "exit_words n st =
     (if st_state st = StateStopped \<and> st_has_exited st then n @ bstr '' was stopped''
      else if st_last_error st \<noteq> [] \<and> \<not> st_has_exited st then n @ bstr '' could not start: '' @ st_last_error st
      else if signal (st_last_exit st) \<noteq> [] then n @ bstr '' was killed by '' @ signal (st_last_exit st) @ bstr '' and is not restarting''
      else if code (st_last_exit st) = 0 then n @ bstr '' exited''
      else n @ bstr '' exited with code '' @ itoa (code (st_last_exit st)) @ bstr '' and is not restarting'')"

definition lagged_words :: bytes where
  "lagged_words = bstr ''output was dropped because this client could not keep up; re-attach to resynchronise''"

text \<open>The frames \<open>writeData\<close> cuts output into.\<close>

definition data_chunk :: int where
  "data_chunk = int max_frame_size div 2"

lemma data_chunk_value [code]: "data_chunk = 4194304"
  by (simp add: data_chunk_def max_frame_size_def)

definition data_len :: "bytes \<Rightarrow> nat" where
  "data_len b = (if int (length b) > data_chunk then nat data_chunk else length b)"

function data_frames :: "bytes \<Rightarrow> bytes list" where
  "data_frames b = (if b = [] then [] else take (data_len b) b # data_frames (drop (data_len b) b))"
  by pat_completeness auto
termination by (relation "measure length") (auto simp: data_len_def data_chunk_value)

declare data_frames.simps [simp del]

text \<open>What an attach sends before anything else: its recent output, or the screen of a full-screen program.\<close>

definition replay_bytes :: "bool \<Rightarrow> bytes \<Rightarrow> subscriber \<Rightarrow> bytes" where
  "replay_bytes replay snap sb =
     (if \<not> replay then []
      else sb_preamble sb @
        (case sb_screen sb of
           Some scr \<Rightarrow> scr
         | None \<Rightarrow> if sb_from sb > int (length snap) then replay_start snap else snap))"

section \<open>The state of a session\<close>

text \<open>
  Where the pump is: about to take a chunk, sending one (its length and what is left of it), about to look
  whether it lagged, on its way out, about to close the connection, gone. The watcher: about to compare
  names (and whether it then goes on to the end), about to tell a new name, about to ask whether the
  service has finished, waiting, about to tell the end, about to let go of the subscription, gone. The
  reader: reading, then the ends it ties up one by one.
\<close>

datatype pump_pc = PTake | PSend nat bytes | PCheck | PLast | PClose | PDone
datatype watch_pc = WName bool | WTell bytes bool | WFinished | WWait | WEnd | WDetach | WDone
datatype read_pc = RRead | RHangUp | RDetach | RPump | RUnwatch | RWatch | RGone

text \<open>
  The service as the handle sees it: its name, its status (none once it has been removed) and whether it has a
  process. For the statements: \<open>at_replay\<close> is what was replayed, \<open>at_mark\<close> how much had been written while the
  subscription was last registered, \<open>at_broken\<close> whether the connection ended other than by the pump, \<open>at_raced\<close>
  whether the service was renamed once more while the client was being told a name.
\<close>

record att =
  at_ses :: "unit session"
  at_sub :: nat
  at_name :: bytes
  at_status :: "status option"
  at_proc :: bool
  at_due :: nat
  at_set :: watchers
  at_chan :: nat
  at_asked :: bytes
  at_ro :: bool
  at_open :: bool
  at_told :: bytes
  at_pump :: pump_pc
  at_watch :: watch_pc
  at_read :: read_pc
  at_frames :: "to_client list"
  at_typed :: "bytes list"
  at_sizes :: "(int \<times> int) list"
  at_replay :: bytes
  at_mark :: nat
  at_broken :: bool
  at_raced :: bool

definition finished_status :: "status option \<Rightarrow> bool" where
  "finished_status st = (case st of None \<Rightarrow> True | Some s \<Rightarrow> st_ended s)"

text \<open>A status that says so itself, as opposed to a service that is not there any more.\<close>

definition ended_status :: "status option \<Rightarrow> bool" where
  "ended_status st = (case st of None \<Rightarrow> False | Some s \<Rightarrow> st_ended s)"

lemma unfinished_not_ended: "\<not> finished_status st \<Longrightarrow> \<not> ended_status st"
  by (cases st) (simp_all add: finished_status_def ended_status_def)

definition emit_frame :: "to_client \<Rightarrow> att \<Rightarrow> att" where
  "emit_frame f a = (if at_open a then a\<lparr>at_frames := at_frames a @ [f]\<rparr> else a)"

definition notify_client :: "event_kind \<Rightarrow> bytes \<Rightarrow> att \<Rightarrow> att" where
  "notify_client k msg a = emit_frame (Event \<lparr>ev_kind = k, ev_service = at_name a, ev_message = msg\<rparr>) a"

definition sub_of :: "att \<Rightarrow> subscriber" where
  "sub_of a = sub_at (se_out (at_ses a)) (at_sub a)"

definition registered :: "att \<Rightarrow> bool" where
  "registered a \<longleftrightarrow> at_sub a \<in> set (ob_subs (se_out (at_ses a)))"

definition on_session :: "event \<Rightarrow> att \<Rightarrow> att" where
  "on_session e a = (case session_do no_marks e (at_ses a) of None \<Rightarrow> a | Some s \<Rightarrow> a\<lparr>at_ses := s\<rparr>)"

text \<open>The subscription, the channel and the first frames; then the three goroutines run.\<close>

definition begin_attach ::
  "bool \<Rightarrow> bool \<Rightarrow> bytes \<Rightarrow> bytes \<Rightarrow> status option \<Rightarrow> bool \<Rightarrow> nat \<Rightarrow> watchers \<Rightarrow> unit session \<Rightarrow> att option" where
  "begin_attach ro replay asked name st proc due ws s =
     (case session_do no_marks (EAttach attach_queue_bytes) s of
        None \<Rightarrow> None
      | Some s1 \<Rightarrow>
          (let i = length (ob_store (se_out s)); out = replay_bytes replay (se_snap s1 ! i) (sub_at (se_out s1) i);
               (c, ws1) = watch ws in
           Some \<lparr>at_ses = s1, at_sub = i, at_name = name, at_status = st, at_proc = proc, at_due = due, at_set = ws1, at_chan = c,
             at_asked = asked, at_ro = ro, at_open = True, at_told = asked, at_pump = PTake, at_watch = WName False, at_read = RRead,
             at_frames = Answer 0 None # map Output (data_frames out), at_typed = [], at_sizes = [],
             at_replay = out, at_mark = length (se_all s1), at_broken = False, at_raced = False\<rparr>))"

section \<open>The three goroutines\<close>

definition tell_lagged :: "att \<Rightarrow> att" where
  "tell_lagged a = (if sb_lagged (sub_of a) then notify_client EventLagged lagged_words a else a)"

text \<open>\<open>pumpOutput\<close> with \<open>writeData\<close>, one frame at a time; \<open>PLast\<close> is its deferred function.\<close>

definition pump_step :: "att \<Rightarrow> att option" where
  "pump_step a =
     (case at_pump a of
        PTake \<Rightarrow>
          (case sb_queue (sub_of a) of
             c # cs \<Rightarrow> Some (on_session (EReceive (at_sub a)) (a\<lparr>at_pump := PSend (length c) c\<rparr>))
           | [] \<Rightarrow> if sb_shut (sub_of a) then Some (a\<lparr>at_pump := PLast\<rparr>) else None)
      | PSend n rest \<Rightarrow>
          if rest = [] then Some (on_session (EConsumed (at_sub a) (int n)) (a\<lparr>at_pump := PCheck\<rparr>))
          else if \<not> at_open a then Some (a\<lparr>at_pump := PLast\<rparr>)
          else Some (emit_frame (Output (take (data_len rest) rest)) (a\<lparr>at_pump := PSend n (drop (data_len rest) rest)\<rparr>))
      | PCheck \<Rightarrow> Some (if sb_lagged (sub_of a) then (tell_lagged a)\<lparr>at_pump := PLast\<rparr> else a\<lparr>at_pump := PTake\<rparr>)
      | PLast \<Rightarrow> Some ((tell_lagged a)\<lparr>at_pump := PClose\<rparr>)
      | PClose \<Rightarrow> Some (a\<lparr>at_pump := PDone, at_open := False\<rparr>)
      | PDone \<Rightarrow> None)"

text \<open>\<open>watchForExit\<close>; \<open>WName False\<close> is \<open>renamed()\<close> on the way to the loop's condition, \<open>WName True\<close> after the loop.\<close>

definition after_name :: "bool \<Rightarrow> watch_pc" where
  "after_name fin = (if fin then WEnd else WFinished)"

definition watch_step :: "att \<Rightarrow> att option" where
  "watch_step a =
     (case at_watch a of
        WName fin \<Rightarrow> Some (a\<lparr>at_watch := (if at_name a \<noteq> at_told a then WTell (at_name a) fin else after_name fin)\<rparr>)
      | WTell now fin \<Rightarrow>
          Some ((notify_client EventRenamed (at_told a @ bstr '' is now called '' @ now) a)
            \<lparr>at_told := now, at_watch := after_name fin, at_raced := at_raced a \<or> at_name a \<noteq> now\<rparr>)
      | WFinished \<Rightarrow> Some (a\<lparr>at_watch := (if finished_status (at_status a) then WName True else WWait)\<rparr>)
      | WWait \<Rightarrow>
          (case wake (at_chan a) (at_set a) of
             None \<Rightarrow> None
           | Some (woken, ws) \<Rightarrow> Some (a\<lparr>at_set := ws, at_watch := (if woken then WName False else WDone)\<rparr>))
      | WEnd \<Rightarrow>
          Some ((notify_client EventFinished
              (exit_words (at_name a) (case at_status a of None \<Rightarrow> new_status [] | Some st \<Rightarrow> st)) a)\<lparr>at_watch := WDetach\<rparr>)
      | WDetach \<Rightarrow> Some (on_session (EDetach (at_sub a)) (a\<lparr>at_watch := WDone\<rparr>))
      | WDone \<Rightarrow> None)"

text \<open>The end of \<open>attach\<close>, after \<open>readInput\<close> has returned.\<close>

definition read_step :: "att \<Rightarrow> att option" where
  "read_step a =
     (case at_read a of
        RRead \<Rightarrow> if at_open a then None else Some (a\<lparr>at_read := RHangUp\<rparr>)
      | RHangUp \<Rightarrow> Some (a\<lparr>at_read := RDetach, at_broken := at_broken a \<or> at_open a, at_open := False\<rparr>)
      | RDetach \<Rightarrow> Some (on_session (EDetach (at_sub a)) (a\<lparr>at_read := RPump\<rparr>))
      | RPump \<Rightarrow> if at_pump a = PDone then Some (a\<lparr>at_read := RUnwatch\<rparr>) else None
      | RUnwatch \<Rightarrow> Some (a\<lparr>at_read := RWatch, at_set := unwatch (at_chan a) (at_set a)\<rparr>)
      | RWatch \<Rightarrow> if at_watch a = WDone then Some (a\<lparr>at_read := RGone\<rparr>) else None
      | RGone \<Rightarrow> None)"

text \<open>What the client sends, and what the process says to being written to or resized.\<close>

datatype from_client = CData bytes | CResize nat "(int \<times> int) option" | COp nat bytes | CMalformed | CKind kind | CEnd
datatype proc_answer = Taken | Vanished | Rejected bytes

text \<open>\<open>handleInStream\<close> for a resize.\<close>

definition resize_step :: "nat \<Rightarrow> (int \<times> int) option \<Rightarrow> proc_answer \<Rightarrow> att \<Rightarrow> att" where
  "resize_step k dims p a =
     (if at_ro a then emit_frame (Answer k None) a
      else case dims of
        None \<Rightarrow> emit_frame (Answer k (Some MalformedRequest)) a
      | Some sz \<Rightarrow>
          if at_status a = None then emit_frame (Answer k (Some (NoService (at_name a)))) a
          else if \<not> at_proc a then emit_frame (Answer k None) a
          else case p of
            Taken \<Rightarrow> emit_frame (Answer k None) (a\<lparr>at_sizes := at_sizes a @ [sz]\<rparr>)
          | Vanished \<Rightarrow> emit_frame (Answer k None) a
          | Rejected e \<Rightarrow> emit_frame (Answer k (Some (ResizeFailed e))) a)"

text \<open>One frame taken by \<open>readInput\<close>.\<close>

definition client_step :: "from_client \<Rightarrow> proc_answer \<Rightarrow> att \<Rightarrow> att option" where
  "client_step f p a =
     (if at_read a \<noteq> RRead \<or> \<not> at_open a then None
      else Some (case f of
        CData b \<Rightarrow>
          if at_ro a then notify_client EventNotice (bstr ''this attach is read-only, so your keystrokes went nowhere'') a
          else if at_status a = None then a\<lparr>at_read := RHangUp\<rparr>
          else if \<not> at_proc a then notify_client EventProcessExited (bstr ''input ignored: the service is not running'') a
          else (case p of
            Taken \<Rightarrow> a\<lparr>at_typed := at_typed a @ [b]\<rparr>
          | Vanished \<Rightarrow> notify_client EventProcessExited (bstr ''input ignored: the process has exited'') a
          | Rejected e \<Rightarrow> a\<lparr>at_read := RHangUp\<rparr>)
      | CResize k dims \<Rightarrow> resize_step k dims p a
      | COp k n \<Rightarrow> emit_frame (Answer k (Some (NotWhileAttached n))) a
      | CMalformed \<Rightarrow> emit_frame (Answer 0 (Some MalformedRequest)) a
      | CKind k \<Rightarrow> emit_frame (Answer 0 (Some (UnexpectedFrame k))) a
      | CEnd \<Rightarrow> a\<lparr>at_read := RHangUp, at_broken := True\<rparr>))"

section \<open>Everybody's steps\<close>

text \<open>
  The service's output and the other readers of its buffer; a new name or status, stored before the watchers
  are told; a change nobody is told of, which is never an end and never a name (a restart puts a supervisor that has
  not run in place of one that may have ended; a removal takes the service away, whether it ever ran or not); other
  watchers. A service is taken away only once its buffer has been closed: \<open>Remove\<close> closes it first.
\<close>

datatype att_move =
    Pump | Watch | Read | Client from_client proc_answer
  | World event | Becomes bytes "status option" | Slips "status option" | Process bool | Tells | Registers | Leaves nat | Wakes nat

definition not_mine :: "nat \<Rightarrow> event \<Rightarrow> bool" where
  "not_mine i e \<longleftrightarrow> others i e \<and> e \<noteq> EDetach i"

fun att_do :: "att_move \<Rightarrow> att \<Rightarrow> att option" where
  "att_do Pump a = pump_step a"
| "att_do Watch a = watch_step a"
| "att_do Read a = read_step a"
| "att_do (Client f p) a = client_step f p a"
| "att_do (World e) a =
     (if not_mine (at_sub a) e then map_option (\<lambda>s. a\<lparr>at_ses := s\<rparr>) (session_do no_marks e (at_ses a)) else None)"
| "att_do (Becomes n st) a =
     (if st = None \<and> \<not> ob_closed (se_out (at_ses a)) then None
      else Some (a\<lparr>at_name := n, at_status := st, at_due := at_due a + 1\<rparr>))"
| "att_do (Slips st) a =
     (if (ended_status (at_status a) \<or> \<not> ended_status st) \<and> (st = None \<longrightarrow> ob_closed (se_out (at_ses a)))
      then Some (a\<lparr>at_status := st\<rparr>) else None)"
| "att_do (Process p) a = Some (a\<lparr>at_proc := p\<rparr>)"
| "att_do Tells a = (if at_due a = 0 then None else Some (a\<lparr>at_due := at_due a - 1, at_set := notify (at_set a)\<rparr>))"
| "att_do Registers a = Some (a\<lparr>at_set := snd (watch (at_set a))\<rparr>)"
| "att_do (Leaves j) a = (if j = at_chan a then None else Some (a\<lparr>at_set := unwatch j (at_set a)\<rparr>))"
| "att_do (Wakes j) a =
     (if j = at_chan a then None else map_option (\<lambda>(b, ws). a\<lparr>at_set := ws\<rparr>) (wake j (at_set a)))"

definition track :: "att \<Rightarrow> att" where
  "track a = (if registered a then a\<lparr>at_mark := length (se_all (at_ses a))\<rparr> else a)"

definition att_step :: "att_move \<Rightarrow> att \<Rightarrow> att option" where
  "att_step m a = map_option track (att_do m a)"

inductive att_reach :: "int \<Rightarrow> att \<Rightarrow> bool" for capacity where
  begins: "session_reach no_marks capacity s \<Longrightarrow> list_all (\<lambda>j. j < length (wt_chans ws)) (wt_in ws) \<Longrightarrow>
     (st = None \<Longrightarrow> ob_closed (se_out s)) \<Longrightarrow>
     begin_attach ro replay asked name st proc due ws s = Some a \<Longrightarrow> att_reach capacity a"
| steps: "att_reach capacity a \<Longrightarrow> att_step m a = Some a' \<Longrightarrow> att_reach capacity a'"

fun att_run :: "att_move list \<Rightarrow> att \<Rightarrow> att option" where
  "att_run [] a = Some a"
| "att_run (m # ms) a = Option.bind (att_step m a) (att_run ms)"

lemma att_run_reach: "att_run ms a = Some a' \<Longrightarrow> att_reach capacity a \<Longrightarrow> att_reach capacity a'"
  by (induction ms arbitrary: a) (auto simp: bind_eq_Some_conv intro: att_reach.steps)

section \<open>The subscription under other people's steps\<close>

lemma write_form:
  assumes "ob_write mark p ob = Some (Inr (n, ob'))" "distinct (ob_subs ob)"
  shows "p = [] \<and> ob' = ob \<or>
    ob_closed ob' = ob_closed ob \<and> ob_subs ob' = filter (\<lambda>k. \<not> sb_lagged (sub_at ob' k)) (ob_subs ob) \<and>
    (\<forall>k < length (ob_store ob). sub_at ob' k = (if k \<in> set (ob_subs ob) then offer p (sub_at ob k) else sub_at ob k))"
proof (cases "p = []")
  case False
  then obtain r md wr scr where ob': "ob' = prune_lagged (offer_all p (ob\<lparr>ob_ring := r, ob_written := wr, ob_modes := md, ob_screen := scr\<rparr>))"
    using assms(1) draw_locked_frame by (fastforce simp: ob_write_def Let_def bind_eq_Some_conv split: if_split_asm)
  let ?ob = "ob\<lparr>ob_ring := r, ob_written := wr, ob_modes := md, ob_screen := scr\<rparr>"
  obtain st where st: "offer_all p ?ob = ?ob\<lparr>ob_store := st\<rparr>"
    "\<And>k. k < length (ob_store ob) \<Longrightarrow> st ! k = (if k \<in> set (ob_subs ob) then offer p (ob_store ob ! k) else ob_store ob ! k)"
    using each_sub_store[of "ob_subs ob" "offer p" ?ob] assms(2) unfolding offer_all_each by auto
  then show ?thesis by (simp add: ob' prune_lagged_def sub_at_def)
qed (use assms in \<open>auto simp: ob_write_def split: if_split_asm\<close>)

lemma close_form:
  assumes "distinct (ob_subs ob)"
  shows "ob_closed (snd (ob_close ob)) \<and> ob_subs (snd (ob_close ob)) = (if ob_closed ob then ob_subs ob else []) \<and>
    (\<forall>k < length (ob_store ob). sub_at (snd (ob_close ob)) k = (if k \<in> set (ob_subs ob) \<and> \<not> ob_closed ob then close_ch (sub_at ob k) else sub_at ob k))"
proof (cases "ob_closed ob")
  case False
  obtain st where "each_sub close_ch (ob_subs ob) ob = ob\<lparr>ob_store := st\<rparr>"
    "\<And>k. k < length (ob_store ob) \<Longrightarrow> st ! k = (if k \<in> set (ob_subs ob) then close_ch (ob_store ob ! k) else ob_store ob ! k)"
    using each_sub_store[OF assms, of close_ch ob] by blast
  then show ?thesis using False by (simp add: ob_close_each sub_at_def)
qed (simp add: ob_close_def)

lemma others_subscription:
  assumes ok: "session_ok room s" and e: "session_do mark e s = Some s'" and o: "not_mine i e" and i: "i < length (ob_store (se_out s))"
  shows "if i \<notin> set (ob_subs (se_out s)) then i \<notin> set (ob_subs (se_out s')) \<and> sub_at (se_out s') i = sub_at (se_out s) i
    else i \<in> set (ob_subs (se_out s')) \<or> sb_lagged (sub_at (se_out s') i) \<or>
      ob_closed (se_out s') \<and> se_all s' = se_all s \<and> sb_queue (sub_at (se_out s') i) = sb_queue (sub_at (se_out s) i) \<and>
      sb_lagged (sub_at (se_out s') i) = sb_lagged (sub_at (se_out s) i)"
    "ob_closed (se_out s) \<Longrightarrow> ob_closed (se_out s')"
proof -
  have d: "distinct (ob_subs (se_out s))" using ok by (simp add: session_ok_def Let_def)
  have "(if i \<notin> set (ob_subs (se_out s)) then i \<notin> set (ob_subs (se_out s')) \<and> sub_at (se_out s') i = sub_at (se_out s) i
    else i \<in> set (ob_subs (se_out s')) \<or> sb_lagged (sub_at (se_out s') i) \<or>
      ob_closed (se_out s') \<and> se_all s' = se_all s \<and> sb_queue (sub_at (se_out s') i) = sb_queue (sub_at (se_out s) i) \<and>
      sb_lagged (sub_at (se_out s') i) = sb_lagged (sub_at (se_out s) i)) \<and> (ob_closed (se_out s) \<longrightarrow> ob_closed (se_out s'))"
  proof (cases e)
    case (EWrite p)
    then obtain r where r: "ob_write mark p (se_out s) = Some r"
      "s' = (case r of Inl e \<Rightarrow> s | Inr (n, ob) \<Rightarrow> s\<lparr>se_out := ob, se_all := se_all s @ p\<rparr>)" using e by auto
    then show ?thesis using write_form[OF _ d] i by (cases r) fastforce+
  next
    case (EAttach q)
    then obtain snap k ob where a: "attach q (se_out s) = Some (Inr (snap, k, ob))"
      "s' = s\<lparr>se_out := ob, se_snap := se_snap s @ [snap], se_got := se_got s @ [[]], se_done := se_done s @ [0]\<rparr>"
      using e by (auto split: option.split_asm sum.split_asm)
    then show ?thesis using attach_form[OF ok a(1)] i by (auto simp: sub_at_def nth_append)
  next
    case EClose
    then show ?thesis using e i close_form[OF d] by (auto simp: close_ch_def)
  next
    case (EResize cols rows)
    then show ?thesis using e i
      by (auto simp: set_size_def Let_def sub_at_def split: option.split_asm if_split_asm bind_split_asm)
  qed (use e o i in \<open>auto simp: not_mine_def detach_def set_sub_def sub_at_def split: if_split_asm\<close>)
  then show "if i \<notin> set (ob_subs (se_out s)) then i \<notin> set (ob_subs (se_out s')) \<and> sub_at (se_out s') i = sub_at (se_out s) i
    else i \<in> set (ob_subs (se_out s')) \<or> sb_lagged (sub_at (se_out s') i) \<or>
      ob_closed (se_out s') \<and> se_all s' = se_all s \<and> sb_queue (sub_at (se_out s') i) = sb_queue (sub_at (se_out s) i) \<and>
      sb_lagged (sub_at (se_out s') i) = sb_lagged (sub_at (se_out s) i)"
    "ob_closed (se_out s) \<Longrightarrow> ob_closed (se_out s')" by simp_all
qed

section \<open>The session's own events\<close>

definition got_of :: "att \<Rightarrow> bytes" where
  "got_of a = se_got (at_ses a) ! at_sub a"

definition sound :: "nat \<Rightarrow> att \<Rightarrow> bool" where
  "sound room a \<longleftrightarrow> session_ok room (at_ses a) \<and> at_sub a < length (ob_store (se_out (at_ses a)))"

definition same_source :: "att \<Rightarrow> att \<Rightarrow> bool" where
  "same_source a b \<longleftrightarrow>
     b = a\<lparr>at_ses := at_ses b\<rparr> \<and> se_all (at_ses b) = se_all (at_ses a) \<and> ob_closed (se_out (at_ses b)) = ob_closed (se_out (at_ses a)) \<and>
     sb_lagged (sub_of b) = sb_lagged (sub_of a) \<and> sb_from (sub_of b) = sb_from (sub_of a)"

lemma sound_event:
  assumes "sound room a" "session_do no_marks e (at_ses a) = Some s"
    and "length (ob_store (se_out (at_ses a))) \<le> length (ob_store (se_out s))"
  shows "sound room (a\<lparr>at_ses := s\<rparr>)"
  using assms session_step_ok session_step_do unfolding sound_def by fastforce

lemma received:
  assumes "sound room a" "sb_queue (sub_of a) = c # cs"
  defines "b \<equiv> on_session (EReceive (at_sub a)) a"
  shows "sound room b" "same_source a b" "got_of b = got_of a @ c" "sb_queue (sub_of b) = cs" "registered b = registered a"
    "sb_shut (sub_of b) = sb_shut (sub_of a)"
proof -
  let ?s = "at_ses a" and ?i = "at_sub a"
  have i: "?i < length (ob_store (se_out ?s))" "?i < length (se_got ?s)" using assms(1) sessionD[of room ?s] by (auto simp: sound_def)
  have r: "receive (sub_at (se_out ?s) ?i) = Some (c, (sub_of a)\<lparr>sb_queue := cs\<rparr>)" using assms(2) by (simp add: receive_def sub_of_def)
  define s1 where "s1 = ?s\<lparr>se_out := set_sub ?i ((sub_of a)\<lparr>sb_queue := cs\<rparr>) (se_out ?s), se_got := (se_got ?s)[?i := se_got ?s ! ?i @ c]\<rparr>"
  have e: "session_do no_marks (EReceive ?i) ?s = Some s1" using i r by (simp add: s1_def)
  have b: "b = a\<lparr>at_ses := s1\<rparr>" by (simp add: b_def on_session_def e del: session_do.simps)
  show "sound room b" unfolding b by (rule sound_event[OF assms(1) e]) (simp add: s1_def set_sub_def)
  show "same_source a b" "got_of b = got_of a @ c" "sb_queue (sub_of b) = cs" "registered b = registered a" "sb_shut (sub_of b) = sb_shut (sub_of a)"
    using i by (simp_all add: b s1_def same_source_def got_of_def sub_of_def registered_def set_sub_def sub_at_def)
qed

lemma consumed:
  fixes a :: att and n :: int
  assumes "sound room a"
  defines "b \<equiv> on_session (EConsumed (at_sub a) n) a"
  shows "sound room b" "same_source a b" "got_of b = got_of a" "sb_queue (sub_of b) = sb_queue (sub_of a)" "registered b = registered a"
    "sb_shut (sub_of b) = sb_shut (sub_of a)"
proof -
  let ?s = "at_ses a" and ?i = "at_sub a"
  have i: "?i < length (ob_store (se_out ?s))" using assms(1) by (simp add: sound_def)
  have "sound room b \<and> same_source a b \<and> got_of b = got_of a \<and> sb_queue (sub_of b) = sb_queue (sub_of a) \<and> registered b = registered a \<and>
    sb_shut (sub_of b) = sb_shut (sub_of a)"
  proof (cases "session_do no_marks (EConsumed ?i n) ?s")
    case None
    then show ?thesis using assms by (simp add: b_def on_session_def same_source_def del: session_do.simps)
  next
    case (Some s1)
    then have b: "b = a\<lparr>at_ses := s1\<rparr>" by (simp add: b_def on_session_def del: session_do.simps)
    have s1: "s1 = ?s\<lparr>se_out := set_sub ?i (sub_consumed n (sub_at (se_out ?s) ?i)) (se_out ?s), se_done := (se_done ?s)[?i := se_done ?s ! ?i + n]\<rparr>"
      using Some by (auto split: if_split_asm)
    have "sound room b" unfolding b by (rule sound_event[OF assms(1) Some]) (simp add: s1 set_sub_def)
    then show ?thesis using i
      by (simp add: b s1 same_source_def got_of_def sub_of_def registered_def set_sub_def sub_at_def sub_consumed_def)
  qed
  then show "sound room b" "same_source a b" "got_of b = got_of a" "sb_queue (sub_of b) = sb_queue (sub_of a)" "registered b = registered a"
    "sb_shut (sub_of b) = sb_shut (sub_of a)" by simp_all
qed

lemma let_go:
  assumes "sound room a"
  defines "b \<equiv> on_session (EDetach (at_sub a)) a"
  shows "sound room b" "same_source a b" "got_of b = got_of a" "sb_queue (sub_of b) = sb_queue (sub_of a)" "\<not> registered b" "sb_shut (sub_of b)"
proof -
  let ?s = "at_ses a" and ?i = "at_sub a"
  have i: "?i < length (ob_store (se_out ?s))" using assms(1) by (simp add: sound_def)
  define s1 where "s1 = ?s\<lparr>se_out := detach ?i (se_out ?s)\<rparr>"
  have e: "session_do no_marks (EDetach ?i) ?s = Some s1" using i by (simp add: s1_def)
  have b: "b = a\<lparr>at_ses := s1\<rparr>" by (simp add: b_def on_session_def e del: session_do.simps)
  have sh: "?i \<notin> set (ob_subs (se_out ?s)) \<Longrightarrow> sb_shut (sub_at (se_out ?s) ?i)"
    using assms(1) sessionD(7)[of room ?s ?i] by (auto simp: sound_def sub_ok_def)
  show "sound room b" unfolding b by (rule sound_event[OF assms(1) e]) (simp add: s1_def detach_def set_sub_def)
  show "same_source a b" "got_of b = got_of a" "sb_queue (sub_of b) = sb_queue (sub_of a)" "\<not> registered b" "sb_shut (sub_of b)"
    using i sh by (auto simp: b s1_def same_source_def got_of_def sub_of_def registered_def detach_def set_sub_def sub_at_def close_ch_def)
qed

lemma same_source_simps:
  assumes "same_source a b"
  shows "at_sub b = at_sub a" "at_name b = at_name a" "at_status b = at_status a" "at_proc b = at_proc a" "at_due b = at_due a"
    "at_set b = at_set a" "at_chan b = at_chan a" "at_asked b = at_asked a" "at_ro b = at_ro a" "at_open b = at_open a" "at_told b = at_told a"
    "at_pump b = at_pump a" "at_watch b = at_watch a" "at_read b = at_read a" "at_frames b = at_frames a" "at_typed b = at_typed a"
    "at_sizes b = at_sizes a" "at_replay b = at_replay a" "at_mark b = at_mark a" "at_broken b = at_broken a" "at_raced b = at_raced a"
    "sb_lagged (sub_of b) = sb_lagged (sub_of a)" "sb_from (sub_of b) = sb_from (sub_of a)" "se_all (at_ses b) = se_all (at_ses a)"
    "ob_closed (se_out (at_ses b)) = ob_closed (se_out (at_ses a))"
proof -
  obtain s where "b = a\<lparr>at_ses := s\<rparr>" using assms unfolding same_source_def by blast
  then show "at_sub b = at_sub a" "at_name b = at_name a" "at_status b = at_status a" "at_proc b = at_proc a" "at_due b = at_due a"
    "at_set b = at_set a" "at_chan b = at_chan a" "at_asked b = at_asked a" "at_ro b = at_ro a" "at_open b = at_open a" "at_told b = at_told a"
    "at_pump b = at_pump a" "at_watch b = at_watch a" "at_read b = at_read a" "at_frames b = at_frames a" "at_typed b = at_typed a"
    "at_sizes b = at_sizes a" "at_replay b = at_replay a" "at_mark b = at_mark a" "at_broken b = at_broken a" "at_raced b = at_raced a"
    by simp_all
qed (use assms in \<open>simp_all add: same_source_def\<close>)

text \<open>A record update of any other part leaves the subscription alone.\<close>

lemma source_congs:
  assumes "at_ses b = at_ses a" "at_sub b = at_sub a"
  shows "sub_of b = sub_of a" "registered b = registered a" "got_of b = got_of a" "sound room b = sound room a"
  using assms by (simp_all add: sub_of_def registered_def got_of_def sound_def)

lemma source_updates [simp]:
  "sub_of (a\<lparr>at_pump := x1\<rparr>) = sub_of a" "sub_of (a\<lparr>at_watch := x2\<rparr>) = sub_of a" "sub_of (a\<lparr>at_read := x3\<rparr>) = sub_of a"
  "registered (a\<lparr>at_pump := x1\<rparr>) = registered a" "registered (a\<lparr>at_watch := x2\<rparr>) = registered a" "registered (a\<lparr>at_read := x3\<rparr>) = registered a"
  "got_of (a\<lparr>at_pump := x1\<rparr>) = got_of a" "got_of (a\<lparr>at_watch := x2\<rparr>) = got_of a" "got_of (a\<lparr>at_read := x3\<rparr>) = got_of a"
  "sound room (a\<lparr>at_pump := x1\<rparr>) = sound room a" "sound room (a\<lparr>at_watch := x2\<rparr>) = sound room a" "sound room (a\<lparr>at_read := x3\<rparr>) = sound room a"
  by (simp_all add: sub_of_def registered_def got_of_def sound_def)

lemma sound_sub:
  assumes "sound room a"
  shows "registered a \<Longrightarrow> drop (nat (sb_from (sub_of a))) (se_all (at_ses a)) = got_of a @ concat (sb_queue (sub_of a))"
    "sb_lagged (sub_of a) \<Longrightarrow> \<not> registered a" "sb_shut (sub_of a) \<longleftrightarrow> \<not> registered a"
    "\<exists>rest. drop (nat (sb_from (sub_of a))) (se_all (at_ses a)) = got_of a @ rest"
  using sessionD(7)[of room "at_ses a" "at_sub a"] assms
  by (auto simp: sound_def sub_of_def registered_def got_of_def sub_ok_def)

section \<open>What the client has been sent\<close>

definition outs :: "to_client list \<Rightarrow> bytes" where
  "outs fs = concat (map (\<lambda>f. case f of Output b \<Rightarrow> b | _ \<Rightarrow> []) fs)"

definition in_hand :: "pump_pc \<Rightarrow> bytes" where
  "in_hand p = (case p of PSend n r \<Rightarrow> r | _ \<Rightarrow> [])"

definition told :: "event_kind \<Rightarrow> to_client list \<Rightarrow> bool" where
  "told k fs \<longleftrightarrow> list_ex (\<lambda>f. case f of Event e \<Rightarrow> ev_kind e = k | _ \<Rightarrow> False) fs"

lemma outs_simps [simp]: "outs [] = []" "outs (fs @ gs) = outs fs @ outs gs" "outs [Event e] = []" "outs [Answer k r] = []" "outs [Output b] = b"
  "outs (Answer k r # fs) = outs fs"
  by (simp_all add: outs_def)

lemma told_simps [simp]: "told k [] = False" "told k (fs @ gs) \<longleftrightarrow> told k fs \<or> told k gs" "told k [Event e] \<longleftrightarrow> ev_kind e = k" "told k [Answer i r] = False"
  "told k [Output b] = False" "told k (Answer i r # fs) = told k fs"
  by (simp_all add: told_def)

lemma data_frames_outs: "outs (map Output (data_frames b)) = b" "\<not> told k (map Output (data_frames b))"
proof -
  have "concat (data_frames b) = b"
  proof (induction b rule: data_frames.induct)
    case (1 b)
    then show ?case by (subst data_frames.simps) (cases "b = []"; simp)
  qed
  then show "outs (map Output (data_frames b)) = b" by (simp add: outs_def comp_def)
  show "\<not> told k (map Output (data_frames b))" by (auto simp: told_def list_ex_iff)
qed

definition stream_ok :: "nat \<Rightarrow> att \<Rightarrow> bool" where
  "stream_ok room a \<longleftrightarrow> sound room a \<and>
     (\<exists>rest. at_replay a @ got_of a = outs (at_frames a) @ rest) \<and>
     (at_open a \<or> \<not> at_broken a \<longrightarrow> at_replay a @ got_of a = outs (at_frames a) @ in_hand (at_pump a)) \<and>
     (registered a \<longrightarrow> at_mark a = length (se_all (at_ses a))) \<and> at_mark a \<le> length (se_all (at_ses a)) \<and>
     (\<not> registered a \<and> \<not> sb_lagged (sub_of a) \<longrightarrow>
        drop (nat (sb_from (sub_of a))) (take (at_mark a) (se_all (at_ses a))) = got_of a @ concat (sb_queue (sub_of a)))"

text \<open>
  Where the pump is, and: the connection is open, it ended otherwise, the reader lagged, it is subscribed, its
  queue is empty, it was told that it lagged, that the service finished, the buffer is closed, the watcher is
  about to let go.
\<close>

definition reasons :: "pump_pc \<Rightarrow> bool \<Rightarrow> bool \<Rightarrow> bool \<Rightarrow> bool \<Rightarrow> bool \<Rightarrow> bool \<Rightarrow> bool \<Rightarrow> bool \<Rightarrow> bool \<Rightarrow> bool" where
  "reasons p up broken lagged subscribed dry told_lag told_end closed letting \<longleftrightarrow>
     (case p of
        PDone \<Rightarrow> \<not> up \<and> (broken \<or> lagged \<and> told_lag \<or> \<not> lagged \<and> \<not> subscribed \<and> dry)
      | PClose \<Rightarrow> (up \<or> broken) \<and> (broken \<or> lagged \<and> told_lag \<or> \<not> lagged \<and> \<not> subscribed \<and> dry)
      | PLast \<Rightarrow> (up \<or> broken) \<and> (broken \<or> lagged \<or> \<not> subscribed \<and> dry)
      | _ \<Rightarrow> up \<or> broken) \<and>
     (\<not> told_lag \<or> lagged) \<and> (subscribed \<or> lagged \<or> broken \<or> told_end \<or> closed) \<and>
     (\<not> letting \<or> broken \<or> told_end \<or> told_lag \<or> closed)"

definition reasons_ok :: "att \<Rightarrow> bool" where
  "reasons_ok a \<longleftrightarrow>
     reasons (at_pump a) (at_open a) (at_broken a) (sb_lagged (sub_of a)) (registered a) (sb_queue (sub_of a) = [])
       (told EventLagged (at_frames a)) (told EventFinished (at_frames a)) (ob_closed (se_out (at_ses a))) (at_watch a = WDetach)"

definition order_ok :: "att \<Rightarrow> bool" where
  "order_ok a \<longleftrightarrow>
     (at_read a \<notin> {RRead, RHangUp} \<longrightarrow> \<not> at_open a) \<and> (at_read a \<in> {RPump, RUnwatch, RWatch, RGone} \<longrightarrow> \<not> registered a) \<and>
     (at_read a \<in> {RUnwatch, RWatch, RGone} \<longrightarrow> at_pump a = PDone) \<and> (at_read a = RGone \<longrightarrow> at_watch a = WDone)"

lemma track_simps [simp]:
  "at_ses (track a) = at_ses a" "at_sub (track a) = at_sub a" "at_name (track a) = at_name a" "at_status (track a) = at_status a"
  "at_proc (track a) = at_proc a" "at_due (track a) = at_due a" "at_set (track a) = at_set a" "at_chan (track a) = at_chan a"
  "at_asked (track a) = at_asked a" "at_ro (track a) = at_ro a" "at_open (track a) = at_open a" "at_told (track a) = at_told a"
  "at_pump (track a) = at_pump a" "at_watch (track a) = at_watch a" "at_read (track a) = at_read a" "at_frames (track a) = at_frames a"
  "at_typed (track a) = at_typed a" "at_sizes (track a) = at_sizes a" "at_replay (track a) = at_replay a"
  "at_broken (track a) = at_broken a" "at_raced (track a) = at_raced a"
  "sub_of (track a) = sub_of a" "registered (track a) = registered a" "got_of (track a) = got_of a" "sound room (track a) = sound room a"
  "at_mark (track a) = (if registered a then length (se_all (at_ses a)) else at_mark a)"
  by (simp_all add: track_def sub_of_def registered_def got_of_def sound_def)

lemma stream_track:
  assumes "sound room a" "\<exists>rest. at_replay a @ got_of a = outs (at_frames a) @ rest"
    and "at_open a \<or> \<not> at_broken a \<longrightarrow> at_replay a @ got_of a = outs (at_frames a) @ in_hand (at_pump a)"
    and "at_mark a \<le> length (se_all (at_ses a))"
    and "\<not> registered a \<and> \<not> sb_lagged (sub_of a) \<longrightarrow>
        drop (nat (sb_from (sub_of a))) (take (at_mark a) (se_all (at_ses a))) = got_of a @ concat (sb_queue (sub_of a))"
  shows "stream_ok room (track a)"
  using assms by (simp add: stream_ok_def)

lemma emit_frame_simps [simp]:
  "at_ses (emit_frame f a) = at_ses a" "at_sub (emit_frame f a) = at_sub a" "at_name (emit_frame f a) = at_name a" "at_status (emit_frame f a) = at_status a"
  "at_due (emit_frame f a) = at_due a" "at_set (emit_frame f a) = at_set a" "at_chan (emit_frame f a) = at_chan a"
  "at_asked (emit_frame f a) = at_asked a" "at_ro (emit_frame f a) = at_ro a" "at_open (emit_frame f a) = at_open a" "at_told (emit_frame f a) = at_told a"
  "at_pump (emit_frame f a) = at_pump a" "at_watch (emit_frame f a) = at_watch a" "at_read (emit_frame f a) = at_read a"
  "at_typed (emit_frame f a) = at_typed a" "at_sizes (emit_frame f a) = at_sizes a" "at_replay (emit_frame f a) = at_replay a"
  "at_mark (emit_frame f a) = at_mark a" "at_broken (emit_frame f a) = at_broken a" "at_raced (emit_frame f a) = at_raced a"
  "sub_of (emit_frame f a) = sub_of a" "registered (emit_frame f a) = registered a" "got_of (emit_frame f a) = got_of a" "sound room (emit_frame f a) = sound room a"
  "at_frames (emit_frame f a) = (if at_open a then at_frames a @ [f] else at_frames a)"
  by (simp_all add: emit_frame_def sub_of_def registered_def got_of_def sound_def)

section \<open>What the client knows\<close>

text \<open>The name a client goes by: the one it asked for, and then the service of every rename it is told of.\<close>

definition known :: "bytes \<Rightarrow> to_client list \<Rightarrow> bytes" where
  "known asked fs = fold (\<lambda>f n. case f of Event e \<Rightarrow> if ev_kind e = EventRenamed then ev_service e else n | _ \<Rightarrow> n) fs asked"

lemma known_simps [simp]:
  "known n [] = n" "known n (Answer k r # fs) = known n fs" "known n (fs @ [Answer k r]) = known n fs" "known n (fs @ [Output b]) = known n fs"
  "known n (fs @ [Event e]) = (if ev_kind e = EventRenamed then ev_service e else known n fs)" "known n (map Output bs) = n"
  by (simp_all add: known_def fold_map) (induction bs, simp_all)

lemma tell_lagged_simps [simp]:
  "at_ses (tell_lagged a) = at_ses a" "at_sub (tell_lagged a) = at_sub a" "at_name (tell_lagged a) = at_name a" "at_status (tell_lagged a) = at_status a"
  "at_due (tell_lagged a) = at_due a" "at_set (tell_lagged a) = at_set a" "at_chan (tell_lagged a) = at_chan a" "at_asked (tell_lagged a) = at_asked a"
  "at_ro (tell_lagged a) = at_ro a" "at_open (tell_lagged a) = at_open a" "at_told (tell_lagged a) = at_told a" "at_pump (tell_lagged a) = at_pump a"
  "at_watch (tell_lagged a) = at_watch a" "at_read (tell_lagged a) = at_read a" "at_typed (tell_lagged a) = at_typed a" "at_sizes (tell_lagged a) = at_sizes a"
  "at_replay (tell_lagged a) = at_replay a" "at_mark (tell_lagged a) = at_mark a" "at_broken (tell_lagged a) = at_broken a" "at_raced (tell_lagged a) = at_raced a"
  "sub_of (tell_lagged a) = sub_of a" "registered (tell_lagged a) = registered a" "got_of (tell_lagged a) = got_of a" "sound room (tell_lagged a) = sound room a"
  "outs (at_frames (tell_lagged a)) = outs (at_frames a)" "known n (at_frames (tell_lagged a)) = known n (at_frames a)"
  by (simp_all add: tell_lagged_def notify_client_def)

definition abreast :: "watch_pc \<Rightarrow> bytes \<Rightarrow> bytes \<Rightarrow> status option \<Rightarrow> bool" where
  "abreast w n now st =
     (case w of
        WTell to fin \<Rightarrow> to = now
      | WFinished \<Rightarrow> n = now
      | WWait \<Rightarrow> n = now \<and> \<not> ended_status st
      | _ \<Rightarrow> True)"

definition names_ok :: "att \<Rightarrow> bool" where
  "names_ok a \<longleftrightarrow>
     (let ws = at_set a; c = at_chan a in
      c < length (wt_chans ws) \<and> list_all (\<lambda>j. j < length (wt_chans ws)) (wt_in ws) \<and>
      (c \<in> set (wt_in ws) \<longleftrightarrow> at_read a \<noteq> RWatch \<and> at_read a \<noteq> RGone) \<and> (ch_shut (wt_chans ws ! c) \<longleftrightarrow> c \<notin> set (wt_in ws)) \<and>
      (c \<in> set (wt_in ws) \<and> at_due a = 0 \<and> \<not> ch_full (wt_chans ws ! c) \<longrightarrow> abreast (at_watch a) (at_told a) (at_name a) (at_status a)) \<and>
      (at_open a \<and> \<not> at_raced a \<longrightarrow> known (at_asked a) (at_frames a) = at_told a))"

section \<open>How much is left to do once the connection is closed\<close>

definition pump_effort :: "pump_pc \<Rightarrow> nat \<Rightarrow> nat" where
  "pump_effort p q = (case p of PTake \<Rightarrow> 3 * q + 4 | PSend n r \<Rightarrow> 3 * q + 6 | PCheck \<Rightarrow> 3 * q + 5 | PLast \<Rightarrow> 2 | PClose \<Rightarrow> 1 | PDone \<Rightarrow> 0)"

definition watch_effort :: "watch_pc \<Rightarrow> bool \<Rightarrow> nat" where
  "watch_effort w full =
     (case w of WName fin \<Rightarrow> if fin then 4 else 8 | WTell now fin \<Rightarrow> if fin then 3 else 7
        | WFinished \<Rightarrow> 6 | WWait \<Rightarrow> 5 | WEnd \<Rightarrow> 2 | WDetach \<Rightarrow> 1 | WDone \<Rightarrow> 0) + (if full then 4 else 0)"

definition read_effort :: "read_pc \<Rightarrow> nat" where
  "read_effort r = (case r of RRead \<Rightarrow> 6 | RHangUp \<Rightarrow> 5 | RDetach \<Rightarrow> 4 | RPump \<Rightarrow> 3 | RUnwatch \<Rightarrow> 2 | RWatch \<Rightarrow> 1 | RGone \<Rightarrow> 0)"

definition effort :: "att \<Rightarrow> nat" where
  "effort a = pump_effort (at_pump a) (length (sb_queue (sub_of a))) +
     watch_effort (at_watch a) (ch_full (wt_chans (at_set a) ! at_chan a)) + read_effort (at_read a)"

end
