(* ===== verification/AttachSafe.thy ===== *)
theory AttachSafe
  imports AttachServer
begin

text \<open>
  What an attach promises: the client is sent the output without gap, told every name and why the stream
  ends, and once the connection is closed all three goroutines end.
\<close>

section \<open>The stream\<close>

lemma stream_okD:
  assumes "stream_ok room a"
  shows "sound room a" "\<exists>rest. at_replay a @ got_of a = outs (at_frames a) @ rest"
    "at_open a \<or> \<not> at_broken a \<Longrightarrow> at_replay a @ got_of a = outs (at_frames a) @ in_hand (at_pump a)"
    "registered a \<Longrightarrow> at_mark a = length (se_all (at_ses a))" "at_mark a \<le> length (se_all (at_ses a))"
    "\<not> registered a \<Longrightarrow> \<not> sb_lagged (sub_of a) \<Longrightarrow>
        drop (nat (sb_from (sub_of a))) (take (at_mark a) (se_all (at_ses a))) = got_of a @ concat (sb_queue (sub_of a))"
  using assms by (simp_all add: stream_ok_def)

lemma stream_now:
  assumes "stream_ok room a" "\<not> sb_lagged (sub_of a)"
  shows "drop (nat (sb_from (sub_of a))) (take (at_mark a) (se_all (at_ses a))) = got_of a @ concat (sb_queue (sub_of a))"
  using stream_okD[OF assms(1)] sound_sub(1)[of room a] assms(2) by (cases "registered a") simp_all

text \<open>A step that neither receives nor writes output.\<close>

lemma stream_same:
  assumes "stream_ok room a" "at_ses b = at_ses a" "at_sub b = at_sub a" "at_replay b = at_replay a" "at_mark b = at_mark a"
    and "outs (at_frames b) = outs (at_frames a)" "at_open b \<or> \<not> at_broken b \<Longrightarrow> (at_open a \<or> \<not> at_broken a) \<and> in_hand (at_pump b) = in_hand (at_pump a)"
  shows "stream_ok room (track b)"
proof -
  note c = source_congs[OF assms(2,3)]
  show ?thesis using stream_okD[OF assms(1)] assms(2-7) by (intro stream_track) (auto simp: c)
qed

lemma pump_stream:
  assumes ok: "stream_ok room a" and step: "pump_step a = Some b" and reasons: "reasons_ok a"
  shows "stream_ok room (track b)"
proof (cases "at_pump a")
  case PTake
  show ?thesis
  proof (cases "sb_queue (sub_of a)")
    case Nil
    then have "b = a\<lparr>at_pump := PLast\<rparr>" using step PTake by (auto simp: pump_step_def split: if_split_asm)
    then show ?thesis using PTake by (intro stream_same[OF ok]) (simp_all add: in_hand_def)
  next
    case (Cons c cs)
    let ?a = "a\<lparr>at_pump := PSend (length c) c\<rparr>"
    have b: "b = on_session (EReceive (at_sub ?a)) ?a" using step PTake Cons by (simp add: pump_step_def)
    have r: "sound room ?a" "sb_queue (sub_of ?a) = c # cs" using stream_okD(1)[OF ok] Cons by simp_all
    note r = received[OF r, folded b]
    note f = same_source_simps[OF r(2)]
    show ?thesis
    proof (rule stream_track)
      obtain rest where "at_replay a @ got_of a = outs (at_frames a) @ rest" using stream_okD(2)[OF ok] by blast
      then have "at_replay b @ got_of b = outs (at_frames b) @ rest @ c" by (simp add: f r append_assoc[symmetric] del: append_assoc)
      then show "\<exists>rest. at_replay b @ got_of b = outs (at_frames b) @ rest" by blast
      show "at_open b \<or> \<not> at_broken b \<longrightarrow> at_replay b @ got_of b = outs (at_frames b) @ in_hand (at_pump b)"
        using stream_okD(3)[OF ok] PTake by (auto simp: f r in_hand_def append_assoc[symmetric] simp del: append_assoc)
      show "\<not> registered b \<and> \<not> sb_lagged (sub_of b) \<longrightarrow>
        drop (nat (sb_from (sub_of b))) (take (at_mark b) (se_all (at_ses b))) = got_of b @ concat (sb_queue (sub_of b))"
        using stream_okD(6)[OF ok] Cons by (simp add: f r)
    qed (use r stream_okD(5)[OF ok] in \<open>simp_all add: f\<close>)
  qed
next
  case (PSend n r)
  consider (all_sent) "r = []" "b = on_session (EConsumed (at_sub a) (int n)) (a\<lparr>at_pump := PCheck\<rparr>)"
    | (gone) "\<not> at_open a" "b = a\<lparr>at_pump := PLast\<rparr>"
    | (more) "at_open a" "b = emit_frame (Output (take (data_len r) r)) (a\<lparr>at_pump := PSend n (drop (data_len r) r)\<rparr>)"
    using step PSend by (auto simp: pump_step_def split: if_split_asm)
  then show ?thesis
  proof cases
    case all_sent
    let ?a = "a\<lparr>at_pump := PCheck\<rparr>"
    have b: "b = on_session (EConsumed (at_sub ?a) (int n)) ?a" using all_sent by simp
    have "sound room ?a" using stream_okD(1)[OF ok] by simp
    note r = consumed[OF this, of "int n", folded b]
    note f = same_source_simps[OF r(2)]
    show ?thesis by (rule stream_track) (use r stream_okD[OF ok] PSend all_sent(1) in \<open>auto simp: f in_hand_def\<close>)
  next
    case gone
    then have "at_broken a" using reasons PSend by (auto simp: reasons_ok_def reasons_def)
    then show ?thesis using gone by (intro stream_same[OF ok]) simp_all
  next
    case more
    have "\<exists>rest. r = take (data_len r) r @ rest" by (rule exI[of _ "drop (data_len r) r"]) simp
    then show ?thesis using stream_okD[OF ok] PSend more by (intro stream_track) (auto simp: in_hand_def)
  qed
qed (use step in \<open>auto intro!: stream_same[OF ok] simp: pump_step_def in_hand_def tell_lagged_def notify_client_def split: if_split_asm\<close>)

lemma let_go_stream:
  assumes "stream_ok room a" and b: "b = on_session (EDetach (at_sub a)) a"
  shows "stream_ok room (track b)"
proof -
  note r = let_go[OF stream_okD(1)[OF assms(1)], folded b]
  note f = same_source_simps[OF r(2)]
  show ?thesis
  proof (rule stream_track)
    show "\<not> registered b \<and> \<not> sb_lagged (sub_of b) \<longrightarrow>
        drop (nat (sb_from (sub_of b))) (take (at_mark b) (se_all (at_ses b))) = got_of b @ concat (sb_queue (sub_of b))"
      using stream_now[OF assms(1)] by (simp add: f r)
  qed (use r stream_okD[OF assms(1)] in \<open>simp_all add: f\<close>)
qed

lemma watch_stream:
  assumes ok: "stream_ok room a" and step: "watch_step a = Some b"
  shows "stream_ok room (track b)"
proof (cases "at_watch a")
  case WDetach
  let ?a = "a\<lparr>at_watch := WDone\<rparr>"
  have "stream_ok room ?a" using ok by (simp add: stream_ok_def)
  then show ?thesis using let_go_stream[of room ?a b] step WDetach by (simp add: watch_step_def)
next
  case WWait
  then show ?thesis using step ok
    by (auto intro!: stream_same[OF ok] simp: watch_step_def split: option.split_asm)
qed (use step in \<open>auto intro!: stream_same[OF ok] simp: watch_step_def notify_client_def\<close>)

lemma read_stream:
  assumes ok: "stream_ok room a" and step: "read_step a = Some b"
  shows "stream_ok room (track b)"
proof (cases "at_read a")
  case RDetach
  let ?a = "a\<lparr>at_read := RPump\<rparr>"
  have "stream_ok room ?a" using ok by (simp add: stream_ok_def)
  then show ?thesis using let_go_stream[of room ?a b] step RDetach by (simp add: read_step_def)
qed (use step in \<open>auto intro!: stream_same[OF ok] simp: read_step_def split: if_split_asm\<close>)

lemma resize_step_simps:
  "at_ses (resize_step k d p a) = at_ses a" "at_sub (resize_step k d p a) = at_sub a" "outs (at_frames (resize_step k d p a)) = outs (at_frames a)"
  "told ev (at_frames (resize_step k d p a)) = told ev (at_frames a)"
  "at_replay (resize_step k d p a) = at_replay a" "at_mark (resize_step k d p a) = at_mark a" "at_open (resize_step k d p a) = at_open a"
  "at_broken (resize_step k d p a) = at_broken a" "at_pump (resize_step k d p a) = at_pump a" "at_watch (resize_step k d p a) = at_watch a"
  "at_read (resize_step k d p a) = at_read a" "at_name (resize_step k d p a) = at_name a" "at_status (resize_step k d p a) = at_status a"
  "at_due (resize_step k d p a) = at_due a" "at_set (resize_step k d p a) = at_set a" "at_chan (resize_step k d p a) = at_chan a"
  "at_asked (resize_step k d p a) = at_asked a" "at_told (resize_step k d p a) = at_told a" "at_raced (resize_step k d p a) = at_raced a"
  "at_ro (resize_step k d p a) = at_ro a"
  by (simp_all add: resize_step_def emit_frame_def split: option.split proc_answer.split)

lemma client_stream:
  assumes ok: "stream_ok room a" and step: "client_step f p a = Some b"
  shows "stream_ok room (track b)"
proof (cases f)
  case (CData d)
  then show ?thesis using step
    by (intro stream_same[OF ok]) (auto simp: client_step_def notify_client_def split: if_split_asm proc_answer.split_asm)
next
  case (CResize k dims)
  then have "b = resize_step k dims p a" using step by (simp add: client_step_def split: if_split_asm)
  then show ?thesis by (intro stream_same[OF ok]) (simp_all add: resize_step_simps)
qed (use step in \<open>auto intro!: stream_same[OF ok] simp: client_step_def split: if_split_asm\<close>)

lemma world_stream:
  assumes ok: "stream_ok room a" and e: "session_do no_marks e (at_ses a) = Some s" and mine: "not_mine (at_sub a) e"
  defines "b \<equiv> a\<lparr>at_ses := s\<rparr>"
  shows "stream_ok room (track b)"
proof -
  have a: "sound room a" by (rule stream_okD(1)[OF ok])
  then have i: "session_ok room (at_ses a)" "at_sub a < length (ob_store (se_out (at_ses a)))" by (simp_all add: sound_def)
  have "others (at_sub a) e" using mine by (simp add: not_mine_def)
  note k = other_keeps[OF i(1) e this i(2)]
  note o = others_subscription[OF i(1) e mine i(2)]
  have s: "session_ok room s" using session_step_ok[OF _ i(1)] e session_step_do by blast
  obtain x where x: "se_all s = se_all (at_ses a) @ x" using k by blast
  have b: "sound room b" using k s by (simp add: b_def sound_def)
  have g: "got_of b = got_of a" "sb_from (sub_of b) = sb_from (sub_of a)" using k by (simp_all add: b_def got_of_def sub_of_def)
  show ?thesis
  proof (rule stream_track[OF b])
    show "\<not> registered b \<and> \<not> sb_lagged (sub_of b) \<longrightarrow>
        drop (nat (sb_from (sub_of b))) (take (at_mark b) (se_all (at_ses b))) = got_of b @ concat (sb_queue (sub_of b))"
    proof (intro impI, elim conjE)
      assume n: "\<not> registered b" "\<not> sb_lagged (sub_of b)"
      show "drop (nat (sb_from (sub_of b))) (take (at_mark b) (se_all (at_ses b))) = got_of b @ concat (sb_queue (sub_of b))"
      proof (cases "registered a")
        case True
        then have "se_all s = se_all (at_ses a)" "sb_queue (sub_of b) = sb_queue (sub_of a)" "sb_lagged (sub_of b) = sb_lagged (sub_of a)"
          using o(1) n by (auto simp: registered_def sub_of_def b_def)
        then show ?thesis using stream_now[OF ok] n by (simp add: g) (simp add: b_def)
      next
        case False
        then have "sub_of b = sub_of a" using o(1) by (simp add: registered_def sub_of_def b_def)
        then show ?thesis using stream_okD(5,6)[OF ok] n False by (simp add: g) (simp add: b_def x)
      qed
    qed
  qed (use stream_okD[OF ok] in \<open>simp_all add: g, simp_all add: b_def x\<close>)
qed

lemma stream_step:
  assumes ok: "stream_ok room a" and reasons: "reasons_ok a" and step: "att_step m a = Some b"
  shows "stream_ok room b"
proof -
  obtain c where c: "att_do m a = Some c" "b = track c" using step by (auto simp: att_step_def)
  show ?thesis
  proof (cases m)
    case (World e)
    then show ?thesis using c world_stream[OF ok] by (auto split: if_split_asm)
  qed (use c pump_stream[OF ok _ reasons] watch_stream[OF ok] read_stream[OF ok] client_stream[OF ok] in
      \<open>auto intro!: stream_same[OF ok] split: if_split_asm\<close>)
qed

section \<open>Why the stream ends\<close>

lemma reasons_told:
  assumes "reasons_ok a" "\<not> at_open a" "\<not> at_broken a"
  shows "at_pump a = PDone" "told EventFinished (at_frames a) \<or> told EventLagged (at_frames a) \<or> ob_closed (se_out (at_ses a))"
  using assms unfolding reasons_ok_def reasons_def by (auto split: pump_pc.split_asm)

text \<open>A step that leaves the subscription, the pump and the connection alone and says nothing that ends a stream.\<close>

lemma reasons_same:
  assumes "reasons_ok a" "at_ses b = at_ses a" "at_sub b = at_sub a" "at_pump b = at_pump a" "at_open b = at_open a"
    and "at_broken a \<longrightarrow> at_broken b" "at_watch b = WDetach \<longrightarrow> at_watch a = WDetach"
    and "told EventLagged (at_frames b) = told EventLagged (at_frames a)" "told EventFinished (at_frames b) = told EventFinished (at_frames a)"
  shows "reasons_ok b"
  using assms(1,6,7) unfolding reasons_ok_def source_congs[OF assms(2,3)] assms(2-5,8,9)
  by (auto simp: reasons_def split: pump_pc.split)

lemma pump_reasons:
  assumes ok: "reasons_ok a" and sound: "sound room a" and step: "pump_step a = Some b"
  shows "reasons_ok b"
proof (cases "at_pump a")
  case PTake
  show ?thesis
  proof (cases "sb_queue (sub_of a)")
    case Nil
    then have "b = a\<lparr>at_pump := PLast\<rparr>" "\<not> registered a" using step PTake sound_sub(3)[OF sound]
      by (auto simp: pump_step_def split: if_split_asm)
    then show ?thesis using ok Nil by (auto simp: reasons_ok_def reasons_def PTake)
  next
    case (Cons c cs)
    let ?a = "a\<lparr>at_pump := PSend (length c) c\<rparr>"
    have b: "b = on_session (EReceive (at_sub ?a)) ?a" using step PTake Cons by (simp add: pump_step_def)
    have "sound room ?a" "sb_queue (sub_of ?a) = c # cs" using sound Cons by simp_all
    note r = received[OF this, folded b]
    show ?thesis using ok by (auto simp: reasons_ok_def same_source_simps[OF r(2)] r(3-6) reasons_def PTake)
  qed
next
  case (PSend n r)
  consider (all_sent) "r = []" "b = on_session (EConsumed (at_sub a) (int n)) (a\<lparr>at_pump := PCheck\<rparr>)"
    | (gone) "\<not> at_open a" "b = a\<lparr>at_pump := PLast\<rparr>"
    | (more) "at_open a" "b = emit_frame (Output (take (data_len r) r)) (a\<lparr>at_pump := PSend n (drop (data_len r) r)\<rparr>)"
    using step PSend by (auto simp: pump_step_def split: if_split_asm)
  then show ?thesis
  proof cases
    case all_sent
    let ?a = "a\<lparr>at_pump := PCheck\<rparr>"
    have b: "b = on_session (EConsumed (at_sub ?a) (int n)) ?a" using all_sent by simp
    have "sound room ?a" using sound by simp
    note r = consumed[OF this, of "int n", folded b]
    show ?thesis using ok by (auto simp: reasons_ok_def same_source_simps[OF r(2)] r(3-6) reasons_def PSend)
  qed (use ok PSend in \<open>auto simp: reasons_ok_def reasons_def\<close>)
next
  case PCheck
  have l: "sb_lagged (sub_of a) \<longrightarrow> \<not> registered a" using sound_sub(2)[OF sound] by blast
  show ?thesis
  proof (cases "sb_lagged (sub_of a)")
    case True
    then have "b = (notify_client EventLagged lagged_words a)\<lparr>at_pump := PLast\<rparr>" using step PCheck by (simp add: pump_step_def tell_lagged_def)
    then show ?thesis using ok True PCheck l by (auto simp: notify_client_def reasons_ok_def reasons_def)
  next
    case False
    then have "b = a\<lparr>at_pump := PTake\<rparr>" using step PCheck by (simp add: pump_step_def)
    then show ?thesis using ok False PCheck by (auto simp: reasons_ok_def reasons_def)
  qed
next
  case PLast
  show ?thesis
  proof (cases "sb_lagged (sub_of a)")
    case True
    then have "b = (notify_client EventLagged lagged_words a)\<lparr>at_pump := PClose\<rparr>" using step PLast by (simp add: pump_step_def tell_lagged_def)
    then show ?thesis using ok True PLast by (auto simp: notify_client_def reasons_ok_def reasons_def)
  next
    case False
    then have "b = a\<lparr>at_pump := PClose\<rparr>" using step PLast by (simp add: pump_step_def tell_lagged_def)
    then show ?thesis using ok False PLast by (auto simp: reasons_ok_def reasons_def)
  qed
next
  case PClose
  have b: "b = a\<lparr>at_pump := PDone, at_open := False\<rparr>" using step PClose by (simp add: pump_step_def)
  have s: "at_ses b = at_ses a" "at_sub b = at_sub a" by (simp_all add: b)
  note c = s source_congs[OF s]
  show ?thesis using ok unfolding reasons_ok_def c by (auto simp: b PClose reasons_def)
qed (use step in \<open>simp add: pump_step_def\<close>)

lemma let_go_reasons:
  assumes ok: "reasons_ok a" and sound: "sound room a" and b: "b = on_session (EDetach (at_sub a)) a"
    and why: "at_broken a \<or> told EventFinished (at_frames a) \<or> told EventLagged (at_frames a) \<or> ob_closed (se_out (at_ses a))"
  shows "reasons_ok b"
proof -
  note r = let_go[OF sound, folded b]
  show ?thesis using ok why unfolding reasons_ok_def same_source_simps[OF r(2)] r(3,4)
    by (auto simp: r(5) reasons_def split: pump_pc.split_asm pump_pc.split)
qed

lemma watch_reasons:
  assumes ok: "reasons_ok a" and sound: "sound room a" and step: "watch_step a = Some b"
  shows "reasons_ok b"
proof (cases "at_watch a")
  case WDetach
  let ?a = "a\<lparr>at_watch := WDone\<rparr>"
  have a: "reasons_ok ?a" "sound room ?a" using sound by (auto intro: reasons_same[OF ok])
  have "b = on_session (EDetach (at_sub ?a)) ?a" using step WDetach by (simp add: watch_step_def)
  then show ?thesis using ok by (intro let_go_reasons[OF a]) (auto simp: reasons_ok_def reasons_def WDetach)
next
  case WEnd
  obtain m where b: "b = (notify_client EventFinished m a)\<lparr>at_watch := WDetach\<rparr>" using step WEnd by (auto simp: watch_step_def)
  show ?thesis
  proof (cases "at_open a")
    case True
    then show ?thesis using ok by (auto simp: b notify_client_def reasons_ok_def reasons_def split: pump_pc.split_asm pump_pc.split)
  next
    case False
    then show ?thesis using ok reasons_told(2)[OF ok False]
      by (auto simp: b notify_client_def reasons_ok_def reasons_def split: pump_pc.split_asm pump_pc.split)
  qed
next
  case WWait
  then show ?thesis using step
    by (auto intro!: reasons_same[OF ok] simp: watch_step_def split: option.split_asm if_split_asm)
qed (use step in \<open>auto intro!: reasons_same[OF ok] simp: watch_step_def notify_client_def after_name_def split: if_split_asm\<close>)

lemma read_reasons:
  assumes ok: "reasons_ok a" and ord: "order_ok a" and sound: "sound room a" and step: "read_step a = Some b"
  shows "reasons_ok b"
proof (cases "at_read a")
  case RDetach
  let ?a = "a\<lparr>at_read := RPump\<rparr>"
  have a: "reasons_ok ?a" "sound room ?a" using sound by (auto intro: reasons_same[OF ok])
  have "\<not> at_open a" using ord RDetach by (simp add: order_ok_def)
  moreover have "b = on_session (EDetach (at_sub ?a)) ?a" using step RDetach by (simp add: read_step_def)
  ultimately show ?thesis using reasons_told(2)[OF ok] by (intro let_go_reasons[OF a]) auto
next
  case RHangUp
  have b: "b = a\<lparr>at_read := RDetach, at_broken := at_broken a \<or> at_open a, at_open := False\<rparr>" using step RHangUp by (simp add: read_step_def)
  have s: "at_ses b = at_ses a" "at_sub b = at_sub a" by (simp_all add: b)
  note c = s source_congs[OF s]
  show ?thesis using ok unfolding reasons_ok_def c by (auto simp: b reasons_def split: pump_pc.split_asm pump_pc.split)
qed (use step in \<open>auto intro!: reasons_same[OF ok] simp: read_step_def split: if_split_asm\<close>)

lemma client_reasons:
  assumes ok: "reasons_ok a" and step: "client_step f p a = Some b"
  shows "reasons_ok b"
proof (cases f)
  case (CData d)
  then show ?thesis using step
    by (intro reasons_same[OF ok]) (auto simp: client_step_def notify_client_def split: if_split_asm proc_answer.split_asm)
next
  case (CResize k dims)
  then have "b = resize_step k dims p a" using step by (simp add: client_step_def split: if_split_asm)
  then show ?thesis by (intro reasons_same[OF ok]) (simp_all add: resize_step_simps)
qed (use step in \<open>auto intro!: reasons_same[OF ok] simp: client_step_def split: if_split_asm\<close>)

lemma world_reasons:
  assumes ok: "reasons_ok a" and sound: "sound room a" and e: "session_do no_marks e (at_ses a) = Some s" and mine: "not_mine (at_sub a) e"
  shows "reasons_ok (a\<lparr>at_ses := s\<rparr>)"
proof -
  let ?b = "a\<lparr>at_ses := s\<rparr>"
  have i: "session_ok room (at_ses a)" "at_sub a < length (ob_store (se_out (at_ses a)))" using sound by (simp_all add: sound_def)
  note o = others_subscription[OF i(1) e mine i(2)]
  have l: "sb_lagged (sub_of a) \<longrightarrow> \<not> registered a" using sound_sub(2)[OF sound] by blast
  show ?thesis
  proof (cases "registered a")
    case False
    then have "sub_of ?b = sub_of a" "registered ?b = registered a" using o(1) by (simp_all add: registered_def sub_of_def)
    then show ?thesis using ok o(2) unfolding reasons_ok_def by (auto simp: reasons_def split: pump_pc.split_asm pump_pc.split)
  next
    case True
    then have "registered ?b \<or> sb_lagged (sub_of ?b) \<or> ob_closed (se_out s) \<and> (sb_queue (sub_of ?b) = []) = (sb_queue (sub_of a) = []) \<and> \<not> sb_lagged (sub_of ?b)"
      using o(1) l by (auto simp: registered_def sub_of_def)
    then show ?thesis using ok o(2) l True unfolding reasons_ok_def
      by (auto simp: reasons_def split: pump_pc.split_asm pump_pc.split)
  qed
qed

lemma reasons_step:
  assumes ok: "reasons_ok a" "order_ok a" "sound room a" and step: "att_step m a = Some b"
  shows "reasons_ok b"
proof -
  obtain c where c: "att_do m a = Some c" "b = track c" using step by (auto simp: att_step_def)
  have "reasons_ok c"
  proof (cases m)
    case (World e)
    then show ?thesis using c world_reasons[OF ok(1,3)] by (auto split: if_split_asm)
  qed (use c pump_reasons[OF ok(1,3)] watch_reasons[OF ok(1,3)] read_reasons[OF ok(1-3)] client_reasons[OF ok(1)] in
      \<open>auto intro!: reasons_same[OF ok(1)] split: if_split_asm\<close>)
  then show ?thesis unfolding c(2) reasons_ok_def by simp
qed

section \<open>The order in which the goroutines end\<close>

lemma order_same:
  assumes "order_ok a" "at_ses b = at_ses a" "at_sub b = at_sub a" "at_read b = at_read a"
    and "at_open b \<longrightarrow> at_open a" "at_pump a = PDone \<longrightarrow> at_pump b = PDone" "at_watch a = WDone \<longrightarrow> at_watch b = WDone"
  shows "order_ok b"
  using assms(1,5-7) unfolding order_ok_def source_congs[OF assms(2,3)] assms(4) by auto

lemma pump_order:
  assumes ok: "order_ok a" and sound: "sound room a" and step: "pump_step a = Some b"
  shows "order_ok b"
proof (cases "at_pump a")
  case PTake
  show ?thesis
  proof (cases "sb_queue (sub_of a)")
    case Nil
    then have "b = a\<lparr>at_pump := PLast\<rparr>" using step PTake by (auto simp: pump_step_def split: if_split_asm)
    then show ?thesis using PTake by (intro order_same[OF ok]) simp_all
  next
    case (Cons c cs)
    let ?a = "a\<lparr>at_pump := PSend (length c) c\<rparr>"
    have b: "b = on_session (EReceive (at_sub ?a)) ?a" using step PTake Cons by (simp add: pump_step_def)
    have "sound room ?a" "sb_queue (sub_of ?a) = c # cs" using sound Cons by simp_all
    note r = received[OF this, folded b]
    show ?thesis using ok by (auto simp: order_ok_def same_source_simps[OF r(2)] r(5) PTake)
  qed
next
  case (PSend n r)
  consider (all_sent) "r = []" "b = on_session (EConsumed (at_sub a) (int n)) (a\<lparr>at_pump := PCheck\<rparr>)"
    | (gone) "b = a\<lparr>at_pump := PLast\<rparr>"
    | (more) "at_open a" "b = emit_frame (Output (take (data_len r) r)) (a\<lparr>at_pump := PSend n (drop (data_len r) r)\<rparr>)"
    using step PSend by (auto simp: pump_step_def split: if_split_asm)
  then show ?thesis
  proof cases
    case all_sent
    let ?a = "a\<lparr>at_pump := PCheck\<rparr>"
    have b: "b = on_session (EConsumed (at_sub ?a) (int n)) ?a" using all_sent by simp
    have "sound room ?a" using sound by simp
    note r = consumed[OF this, of "int n", folded b]
    show ?thesis using ok by (auto simp: order_ok_def same_source_simps[OF r(2)] r(5) PSend)
  qed (use PSend in \<open>auto intro!: order_same[OF ok]\<close>)
qed (use step in \<open>auto intro!: order_same[OF ok] simp: pump_step_def split: if_split_asm\<close>)

lemma let_go_order:
  assumes ok: "order_ok a" and sound: "sound room a" and b: "b = on_session (EDetach (at_sub a)) a"
  shows "order_ok b"
proof -
  note r = let_go[OF sound, folded b]
  show ?thesis using ok by (auto simp: order_ok_def same_source_simps[OF r(2)] r(5))
qed

lemma watch_order:
  assumes ok: "order_ok a" and sound: "sound room a" and step: "watch_step a = Some b"
  shows "order_ok b"
proof (cases "at_watch a")
  case WDetach
  let ?a = "a\<lparr>at_watch := WDone\<rparr>"
  have a: "order_ok ?a" "sound room ?a" using sound WDetach by (auto intro: order_same[OF ok])
  have "b = on_session (EDetach (at_sub ?a)) ?a" using step WDetach by (simp add: watch_step_def)
  then show ?thesis by (rule let_go_order[OF a])
next
  case WWait
  then show ?thesis using step by (auto intro!: order_same[OF ok] simp: watch_step_def split: option.split_asm)
qed (use step in \<open>auto intro!: order_same[OF ok] simp: watch_step_def notify_client_def\<close>)

lemma read_order:
  assumes ok: "order_ok a" and sound: "sound room a" and step: "read_step a = Some b"
  shows "order_ok b"
proof (cases "at_read a")
  case RDetach
  let ?a = "a\<lparr>at_read := RPump\<rparr>"
  have a: "sound room ?a" using sound by simp
  have b: "b = on_session (EDetach (at_sub ?a)) ?a" using step RDetach by (simp add: read_step_def)
  note r = let_go[OF a, folded b]
  show ?thesis using ok RDetach by (auto simp: order_ok_def same_source_simps[OF r(2)] r(5))
next
  case RUnwatch
  then have b: "b = a\<lparr>at_read := RWatch, at_set := unwatch (at_chan a) (at_set a)\<rparr>" using step by (simp add: read_step_def)
  have s: "at_ses b = at_ses a" "at_sub b = at_sub a" by (simp_all add: b)
  show ?thesis using ok RUnwatch unfolding order_ok_def source_congs[OF s] by (auto simp: b)
next
  case RHangUp
  then have b: "b = a\<lparr>at_read := RDetach, at_broken := at_broken a \<or> at_open a, at_open := False\<rparr>" using step by (simp add: read_step_def)
  have s: "at_ses b = at_ses a" "at_sub b = at_sub a" by (simp_all add: b)
  show ?thesis unfolding order_ok_def source_congs[OF s] by (auto simp: b)
qed (use step ok in \<open>auto simp: order_ok_def read_step_def split: if_split_asm\<close>)

lemma client_order:
  assumes ok: "order_ok a" and step: "client_step f p a = Some b"
  shows "order_ok b"
proof -
  have a: "at_read a = RRead" "at_open a" using step by (auto simp: client_step_def split: if_split_asm)
  have "at_read b = RRead \<or> at_read b = RHangUp"
  proof (cases f)
    case (CResize k dims)
    then have "b = resize_step k dims p a" using step a by (simp add: client_step_def)
    then show ?thesis using a by (simp add: resize_step_simps)
  qed (use step a in \<open>auto simp: client_step_def notify_client_def split: if_split_asm proc_answer.split_asm\<close>)
  then show ?thesis by (auto simp: order_ok_def)
qed

lemma order_step:
  assumes ok: "order_ok a" "sound room a" and step: "att_step m a = Some b"
  shows "order_ok b"
proof -
  obtain c where c: "att_do m a = Some c" "b = track c" using step by (auto simp: att_step_def)
  have "order_ok c"
  proof (cases m)
    case (World e)
    then obtain s where s: "session_do no_marks e (at_ses a) = Some s" "not_mine (at_sub a) e" "c = a\<lparr>at_ses := s\<rparr>"
      using c by (auto split: if_split_asm)
    have i: "session_ok room (at_ses a)" "at_sub a < length (ob_store (se_out (at_ses a)))" using ok(2) by (simp_all add: sound_def)
    have "\<not> registered a \<longrightarrow> \<not> registered c" using others_subscription(1)[OF i(1) s(1,2) i(2)] by (simp add: registered_def s(3))
    then show ?thesis using ok(1) by (auto simp: order_ok_def s(3))
  qed (use c pump_order[OF ok] watch_order[OF ok] read_order[OF ok] client_order[OF ok(1)] in
      \<open>auto intro!: order_same[OF ok(1)] split: if_split_asm\<close>)
  then show ?thesis unfolding c(2) order_ok_def by simp
qed

section \<open>Names\<close>

lemma names_same:
  assumes "names_ok a" "at_set b = at_set a" "at_chan b = at_chan a" "at_due b = at_due a" "at_read b = at_read a"
    and "abreast (at_watch a) (at_told a) (at_name a) (at_status a) \<longrightarrow> abreast (at_watch b) (at_told b) (at_name b) (at_status b)"
    and "at_open b \<and> \<not> at_raced b \<longrightarrow> known (at_asked b) (at_frames b) = at_told b"
  shows "names_ok b"
  using assms(1,6,7) unfolding names_ok_def Let_def assms(2-5) by blast

lemma names_known: "names_ok a \<Longrightarrow> at_open a \<Longrightarrow> \<not> at_raced a \<Longrightarrow> known (at_asked a) (at_frames a) = at_told a"
  by (simp add: names_ok_def Let_def)

lemma pump_names:
  assumes ok: "names_ok a" and sound: "sound room a" and step: "pump_step a = Some b"
  shows "names_ok b"
proof (cases "at_pump a")
  case PTake
  show ?thesis
  proof (cases "sb_queue (sub_of a)")
    case Nil
    then have "b = a\<lparr>at_pump := PLast\<rparr>" using step PTake by (auto simp: pump_step_def split: if_split_asm)
    then show ?thesis using names_known[OF ok] by (intro names_same[OF ok]) simp_all
  next
    case (Cons c cs)
    let ?a = "a\<lparr>at_pump := PSend (length c) c\<rparr>"
    have b: "b = on_session (EReceive (at_sub ?a)) ?a" using step PTake Cons by (simp add: pump_step_def)
    have "sound room ?a" "sb_queue (sub_of ?a) = c # cs" using sound Cons by simp_all
    note f = same_source_simps[OF received(2)[OF this, folded b]]
    show ?thesis using names_known[OF ok] by (intro names_same[OF ok]) (simp_all add: f)
  qed
next
  case (PSend n r)
  consider (all_sent) "r = []" "b = on_session (EConsumed (at_sub a) (int n)) (a\<lparr>at_pump := PCheck\<rparr>)"
    | (gone) "b = a\<lparr>at_pump := PLast\<rparr>"
    | (more) "at_open a" "b = emit_frame (Output (take (data_len r) r)) (a\<lparr>at_pump := PSend n (drop (data_len r) r)\<rparr>)"
    using step PSend by (auto simp: pump_step_def split: if_split_asm)
  then show ?thesis
  proof cases
    case all_sent
    let ?a = "a\<lparr>at_pump := PCheck\<rparr>"
    have b: "b = on_session (EConsumed (at_sub ?a) (int n)) ?a" using all_sent by simp
    have "sound room ?a" using sound by simp
    note f = same_source_simps[OF consumed(2)[OF this, of "int n", folded b]]
    show ?thesis using names_known[OF ok] by (intro names_same[OF ok]) (simp_all add: f)
  qed (use names_known[OF ok] in \<open>auto intro!: names_same[OF ok]\<close>)
qed (use step names_known[OF ok] in
    \<open>auto intro!: names_same[OF ok] simp: pump_step_def split: if_split_asm\<close>)

lemma let_go_names:
  assumes ok: "names_ok a" and sound: "sound room a" and b: "b = on_session (EDetach (at_sub a)) a"
  shows "names_ok b"
  using names_known[OF ok]
  by (intro names_same[OF ok]) (simp_all add: same_source_simps[OF let_go(2)[OF sound, folded b]])

lemma watch_names:
  assumes ok: "names_ok a" and sound: "sound room a" and step: "watch_step a = Some b"
  shows "names_ok b"
proof (cases "at_watch a")
  case WDetach
  let ?a = "a\<lparr>at_watch := WDone\<rparr>"
  have a: "names_ok ?a" "sound room ?a" using sound names_known[OF ok] by (auto intro: names_same[OF ok] simp: abreast_def)
  have "b = on_session (EDetach (at_sub ?a)) ?a" using step WDetach by (simp add: watch_step_def)
  then show ?thesis by (rule let_go_names[OF a])
next
  case WWait
  then obtain woken ws where w: "wake (at_chan a) (at_set a) = Some (woken, ws)"
    "b = a\<lparr>at_set := ws, at_watch := (if woken then WName False else WDone)\<rparr>"
    using step by (auto simp: watch_step_def split: option.split_asm)
  have "abreast (at_watch b) n now st" for n now st by (simp add: w(2) abreast_def)
  moreover have "length (wt_chans ws) = length (wt_chans (at_set a))" "wt_in ws = wt_in (at_set a)"
    "ch_shut (wt_chans ws ! at_chan a) = ch_shut (wt_chans (at_set a) ! at_chan a)"
    using w(1) ok by (auto simp: names_ok_def Let_def wake_def set_chan_def split: if_split_asm)
  ultimately show ?thesis using ok unfolding names_ok_def Let_def by (simp add: w(2))
next
  case (WTell now fin)
  then show ?thesis using step names_known[OF ok]
    by (intro names_same[OF ok]) (auto simp: watch_step_def notify_client_def abreast_def after_name_def)
next
  case (WName fin)
  then show ?thesis using step names_known[OF ok]
    by (intro names_same[OF ok]) (auto simp: watch_step_def abreast_def after_name_def)
next
  case WFinished
  then show ?thesis using step names_known[OF ok]
    by (intro names_same[OF ok]) (auto simp: watch_step_def abreast_def unfinished_not_ended)
next
  case WEnd
  then show ?thesis using step names_known[OF ok]
    by (intro names_same[OF ok]) (auto simp: watch_step_def notify_client_def abreast_def)
qed (use step in \<open>simp add: watch_step_def\<close>)

lemma read_names:
  assumes ok: "names_ok a" and sound: "sound room a" and step: "read_step a = Some b"
  shows "names_ok b"
proof (cases "at_read a")
  case RDetach
  let ?a = "a\<lparr>at_read := RPump\<rparr>"
  have a: "names_ok ?a" "sound room ?a" using sound ok RDetach by (simp_all add: names_ok_def Let_def)
  have "b = on_session (EDetach (at_sub ?a)) ?a" using step RDetach by (simp add: read_step_def)
  then show ?thesis by (rule let_go_names[OF a])
next
  case RUnwatch
  then have b: "b = a\<lparr>at_read := RWatch, at_set := unwatch (at_chan a) (at_set a)\<rparr>" using step by (simp add: read_step_def)
  show ?thesis using ok RUnwatch unfolding names_ok_def Let_def
    by (auto simp: b unwatch_def set_chan_def list_all_iff)
next
  case RWatch
  then show ?thesis using step ok by (auto simp: read_step_def names_ok_def Let_def split: if_split_asm)
qed (use step ok in \<open>auto simp: read_step_def names_ok_def Let_def split: if_split_asm\<close>)

lemma client_names:
  assumes ok: "names_ok a" and step: "client_step f p a = Some b"
  shows "names_ok b"
proof -
  have a: "at_read a = RRead" "at_open a" using step by (auto simp: client_step_def split: if_split_asm)
  have r: "known n (at_frames (resize_step k d p a)) = known n (at_frames a)" for n k d
    by (simp add: resize_step_def split: option.split proc_answer.split)
  have "(at_read b = RRead \<or> at_read b = RHangUp) \<and> at_set b = at_set a \<and> at_chan b = at_chan a \<and> at_due b = at_due a \<and>
      at_watch b = at_watch a \<and> at_name b = at_name a \<and> at_status b = at_status a \<and> known (at_asked b) (at_frames b) = known (at_asked a) (at_frames a) \<and> at_told b = at_told a \<and> at_raced b = at_raced a"
  proof (cases f)
    case (CResize k dims)
    then have "b = resize_step k dims p a" using step a by (simp add: client_step_def)
    then show ?thesis using a r by (simp add: resize_step_simps)
  qed (use step a in \<open>auto simp: client_step_def notify_client_def split: if_split_asm proc_answer.split_asm\<close>)
  then show ?thesis using ok a unfolding names_ok_def Let_def by auto
qed

text \<open>Somebody else's dealings with the watchers.\<close>

lemma names_set:
  assumes "names_ok a" "wt_chans ws ! at_chan a = wt_chans (at_set a) ! at_chan a"
    and "at_chan a \<in> set (wt_in ws) \<longleftrightarrow> at_chan a \<in> set (wt_in (at_set a))" "length (wt_chans (at_set a)) \<le> length (wt_chans ws)"
    and "set (wt_in ws) \<subseteq> {j. j < length (wt_chans ws)}"
  shows "names_ok (a\<lparr>at_set := ws\<rparr>)"
  using assms unfolding names_ok_def Let_def list_all_iff by simp blast

lemma names_step:
  assumes ok: "names_ok a" "sound room a" and step: "att_step m a = Some b"
  shows "names_ok b"
proof -
  obtain c where c: "att_do m a = Some c" "b = track c" using step by (auto simp: att_step_def)
  have range: "at_chan a < length (wt_chans (at_set a))" "set (wt_in (at_set a)) \<subseteq> {j. j < length (wt_chans (at_set a))}"
    using ok(1) by (auto simp: names_ok_def Let_def list_all_iff)
  have "names_ok c"
  proof (cases m)
    case (World e)
    then obtain s where "c = a\<lparr>at_ses := s\<rparr>" using c by (auto split: if_split_asm)
    then show ?thesis using names_known[OF ok(1)] by (intro names_same[OF ok(1)]) simp_all
  next
    case (Becomes n st)
    then have "c = a\<lparr>at_name := n, at_status := st, at_due := at_due a + 1\<rparr>" using c by (simp split: if_split_asm)
    then show ?thesis using ok(1) unfolding names_ok_def Let_def by simp
  next
    case (Slips st)
    then show ?thesis using c names_known[OF ok(1)]
      by (intro names_same[OF ok(1)]) (auto simp: abreast_def split: if_split_asm watch_pc.split)
  next
    case (Process p)
    then show ?thesis using c names_known[OF ok(1)] by (intro names_same[OF ok(1)]) auto
  next
    case Tells
    have n: "wt_in (notify ws) = wt_in ws" "length (wt_chans (notify ws)) = length (wt_chans ws)"
      "j < length (wt_chans ws) \<Longrightarrow>
         wt_chans (notify ws) ! j = (if j \<in> set (wt_in ws) then (wt_chans ws ! j)\<lparr>ch_full := True\<rparr> else wt_chans ws ! j)" for ws j
      using fold_fill[of _ ws] by (simp_all add: notify_def)
    have "c = a\<lparr>at_due := at_due a - 1, at_set := notify (at_set a)\<rparr>" using Tells c by (simp split: if_split_asm)
    then show ?thesis using ok(1) n(3)[of "at_chan a" "at_set a"] unfolding names_ok_def Let_def by (auto simp: n(1,2) list_all_iff)
  next
    case Registers
    then have "c = a\<lparr>at_set := snd (watch (at_set a))\<rparr>" using c by simp
    then show ?thesis using range by (auto intro!: names_set[OF ok(1)] simp: watch_def nth_append less_Suc_eq)
  next
    case (Leaves j)
    then have "c = a\<lparr>at_set := unwatch j (at_set a)\<rparr>" "j \<noteq> at_chan a" using c by (simp_all split: if_split_asm)
    then show ?thesis using range ok(1) by (auto intro!: names_set[OF ok(1)] simp: unwatch_def set_chan_def)
  next
    case (Wakes j)
    then obtain b ws where w: "wake j (at_set a) = Some (b, ws)" "c = a\<lparr>at_set := ws\<rparr>" "j \<noteq> at_chan a"
      using c by (auto split: if_split_asm)
    have "ws = at_set a \<or> (\<exists>x. ws = set_chan j x (at_set a))" using w(1) by (auto simp: wake_def Let_def split: if_split_asm)
    then show ?thesis using range w(3) unfolding w(2) by (intro names_set[OF ok(1)]) (auto simp: set_chan_def)
  qed (use c pump_names[OF ok] watch_names[OF ok] read_names[OF ok] client_names[OF ok(1)] in simp_all)
  then show ?thesis unfolding c(2) names_ok_def Let_def by simp
qed

section \<open>Everything reachable\<close>

definition attach_ok :: "nat \<Rightarrow> att \<Rightarrow> bool" where
  "attach_ok room a \<longleftrightarrow> stream_ok room a \<and> reasons_ok a \<and> order_ok a \<and> names_ok a"

lemma attach_step_ok: "attach_ok room a \<Longrightarrow> att_step m a = Some b \<Longrightarrow> attach_ok room b"
  using stream_step reasons_step order_step names_step stream_okD(1) unfolding attach_ok_def by blast

lemma begin_ok:
  assumes "session_ok room s" "list_all (\<lambda>j. j < length (wt_chans ws)) (wt_in ws)"
    and "begin_attach ro replay asked name st proc due ws s = Some a"
  shows "attach_ok room a"
proof -
  obtain s1 where s1: "session_do no_marks (EAttach attach_queue_bytes) s = Some s1"
    using assms(3) by (auto simp: begin_attach_def simp del: session_do.simps split: option.split_asm)
  then obtain snap k ob where a: "attach attach_queue_bytes (se_out s) = Some (Inr (snap, k, ob))"
    "s1 = s\<lparr>se_out := ob, se_snap := se_snap s @ [snap], se_got := se_got s @ [[]], se_done := se_done s @ [0]\<rparr>"
    by (auto split: option.split_asm sum.split_asm)
  let ?i = "length (ob_store (se_out s))"
  obtain sb where ob: "k = ?i" "ob = (se_out s)\<lparr>ob_store := ob_store (se_out s) @ [sb], ob_subs := ob_subs (se_out s) @ [?i]\<rparr>"
    "sb_from sb = int (length (se_all s))" "sb_queue sb = []" "\<not> sb_shut sb"
    using attach_form[OF assms(1) a(1)] by blast
  have ok1: "session_ok room s1" using session_step_ok[OF _ assms(1)] s1 session_step_do by blast
  have g: "se_got s1 ! ?i = []" using a(2) sessionD(5)[OF assms(1)] by (simp add: nth_append)
  have at: "at_ses a = s1" "at_sub a = ?i" "at_open a" "at_pump a = PTake" "at_watch a = WName False" "at_read a = RRead" "\<not> at_broken a" "\<not> at_raced a"
    "at_told a = at_asked a" "at_mark a = length (se_all s1)" "at_chan a = length (wt_chans ws)" "at_set a = snd (watch ws)"
    "at_frames a = Answer 0 None # map Output (data_frames (at_replay a))"
    using assms(3) s1 by (auto simp: begin_attach_def Let_def watch_def simp del: session_do.simps)
  have r: "registered a" "got_of a = []" "sub_of a = sb" "sound room a"
    using g ok1 by (simp_all add: registered_def got_of_def sub_of_def sound_def at a(2) ob sub_at_def)
  have l: "\<not> sb_lagged sb" using sound_sub(2)[OF r(4)] r(1,3) by auto
  have "stream_ok room a" using r by (simp add: stream_ok_def at in_hand_def data_frames_outs)
  moreover have "reasons_ok a" using r l by (simp add: reasons_ok_def reasons_def at data_frames_outs)
  moreover have "order_ok a" by (simp add: order_ok_def at)
  moreover have "names_ok a" using assms(2) unfolding names_ok_def Let_def
    by (auto simp: at watch_def nth_append abreast_def list_all_iff)
  ultimately show ?thesis by (simp add: attach_ok_def)
qed

lemma att_reach_ok: "att_reach capacity a \<Longrightarrow> attach_ok (length (rb_buf (new_byte_ring capacity))) a"
proof (induction rule: att_reach.induct)
  case (begins s ws ro replay asked name st proc due a)
  then show ?case using begin_ok session_reach_ok by blast
qed (rule attach_step_ok)

text \<open>A service that is not there has had its buffer closed, and a closed buffer has no readers.\<close>

definition removal :: "att \<Rightarrow> bool \<times> status option" where
  "removal a = (ob_closed (se_out (at_ses a)), at_status a)"

lemma removal_simps [simp]:
  "removal (emit_frame f a) = removal a" "removal (notify_client k m a) = removal a" "removal (tell_lagged a) = removal a"
  "removal (a\<lparr>at_pump := x1\<rparr>) = removal a" "removal (a\<lparr>at_watch := x2\<rparr>) = removal a" "removal (a\<lparr>at_read := x3\<rparr>) = removal a"
  "removal (a\<lparr>at_open := x4\<rparr>) = removal a" "removal (a\<lparr>at_told := x5\<rparr>) = removal a" "removal (a\<lparr>at_raced := x6\<rparr>) = removal a"
  "removal (a\<lparr>at_broken := x7\<rparr>) = removal a" "removal (a\<lparr>at_set := x8\<rparr>) = removal a" "removal (a\<lparr>at_typed := x9\<rparr>) = removal a"
  "removal (a\<lparr>at_sizes := x10\<rparr>) = removal a" "removal (track a) = removal a"
  by (simp_all add: removal_def notify_client_def)

lemma removal_source: "same_source a b \<Longrightarrow> removal b = removal a"
  by (simp add: removal_def same_source_simps)

lemma own_removal:
  assumes "sound room a"
  shows "pump_step a = Some b \<Longrightarrow> removal b = removal a" "watch_step a = Some b \<Longrightarrow> removal b = removal a"
    "read_step a = Some b \<Longrightarrow> removal b = removal a" "client_step f p a = Some b \<Longrightarrow> removal b = removal a"
proof -
  have got: "removal (on_session (EReceive (at_sub a)) (a\<lparr>at_pump := x\<rparr>)) = removal a" if "sb_queue (sub_of a) = c # cs" for x c cs
    using removal_source[OF received(2)[of room "a\<lparr>at_pump := x\<rparr>" c cs]] that assms by simp
  have used: "removal (on_session (EConsumed (at_sub a) (int n)) (a\<lparr>at_pump := x\<rparr>)) = removal a" for x n
    using removal_source[OF consumed(2)[of room "a\<lparr>at_pump := x\<rparr>" "int n"]] assms by simp
  have gone: "removal (on_session (EDetach (at_sub a)) (a\<lparr>at_watch := x\<rparr>)) = removal a" "removal (on_session (EDetach (at_sub a)) (a\<lparr>at_read := y\<rparr>)) = removal a" for x y
    using removal_source[OF let_go(2)[of room "a\<lparr>at_watch := x\<rparr>"]] removal_source[OF let_go(2)[of room "a\<lparr>at_read := y\<rparr>"]] assms by simp_all
  show "pump_step a = Some b \<Longrightarrow> removal b = removal a"
    by (auto simp: pump_step_def got used split: pump_pc.split_asm list.split_asm if_split_asm)
  show "watch_step a = Some b \<Longrightarrow> removal b = removal a"
    by (auto simp: watch_step_def gone split: watch_pc.split_asm option.split_asm if_split_asm)
  show "read_step a = Some b \<Longrightarrow> removal b = removal a"
    by (auto simp: read_step_def gone split: read_pc.split_asm if_split_asm)
  show "client_step f p a = Some b \<Longrightarrow> removal b = removal a"
    by (auto simp: client_step_def resize_step_def split: from_client.split_asm proc_answer.split_asm if_split_asm option.split_asm)
qed

lemma removed_step:
  assumes "sound room a" "att_step m a = Some b" "at_status a = None \<longrightarrow> ob_closed (se_out (at_ses a))"
  shows "at_status b = None \<longrightarrow> ob_closed (se_out (at_ses b))"
proof -
  obtain c where c: "att_do m a = Some c" "b = track c" using assms(2) by (auto simp: att_step_def)
  have "snd (removal c) = None \<longrightarrow> fst (removal c)"
  proof (cases m)
    case (World e)
    then obtain s where s: "not_mine (at_sub a) e" "session_do no_marks e (at_ses a) = Some s" "c = a\<lparr>at_ses := s\<rparr>"
      using c(1) by (auto split: if_split_asm)
    have "session_ok room (at_ses a)" "at_sub a < length (ob_store (se_out (at_ses a)))" using assms(1) by (simp_all add: sound_def)
    then show ?thesis using others_subscription(2)[OF _ s(2,1)] assms(3) s(3) by (auto simp: removal_def)
  qed (use c(1) assms(3) own_removal[OF assms(1)] in \<open>auto simp: removal_def split: if_split_asm\<close>)
  then show ?thesis using c(2) removal_simps(14)[of c] by (simp add: removal_def)
qed

lemma att_reach_removed: "att_reach capacity a \<Longrightarrow> at_status a = None \<longrightarrow> ob_closed (se_out (at_ses a))"
proof (induction rule: att_reach.induct)
  case (begins s ws st ro replay asked name proc due a)
  then show ?case
    by (auto simp: begin_attach_def Let_def attach_def watch_def split: option.split_asm sum.split_asm if_split_asm)
next
  case (steps a m a')
  have "sound (length (rb_buf (new_byte_ring capacity))) a"
    using att_reach_ok[OF steps.hyps(1)] stream_okD(1) by (simp add: attach_ok_def)
  then show ?case by (rule removed_step[OF _ steps.hyps(2) steps.IH])
qed

lemma closed_unregistered: "sound room a \<Longrightarrow> ob_closed (se_out (at_ses a)) \<Longrightarrow> \<not> registered a"
  by (auto simp: sound_def registered_def session_ok_def Let_def)

section \<open>A closed connection\<close>

fun own :: "att_move \<Rightarrow> bool" where
  "own Pump = True" | "own Watch = True" | "own Read = True" | "own m = False"

lemma pump_less:
  assumes "\<not> at_open a" "sound room a" "pump_step a = Some b"
  shows "effort b < effort a \<and> \<not> at_open b"
proof (cases "at_pump a")
  case PTake
  show ?thesis
  proof (cases "sb_queue (sub_of a)")
    case (Cons c cs)
    let ?a = "a\<lparr>at_pump := PSend (length c) c\<rparr>"
    have b: "b = on_session (EReceive (at_sub ?a)) ?a" using assms(3) PTake Cons by (simp add: pump_step_def)
    have "sound room ?a" "sb_queue (sub_of ?a) = c # cs" using assms(2) Cons by simp_all
    note r = received[OF this, folded b]
    show ?thesis using assms(1) Cons by (simp add: effort_def pump_effort_def same_source_simps[OF r(2)] r(4) PTake)
  qed (use assms PTake in \<open>auto simp: pump_step_def effort_def pump_effort_def split: if_split_asm\<close>)
next
  case (PSend n r)
  show ?thesis
  proof (cases "r = []")
    case True
    let ?a = "a\<lparr>at_pump := PCheck\<rparr>"
    have b: "b = on_session (EConsumed (at_sub ?a) (int n)) ?a" using assms(3) PSend True by (simp add: pump_step_def)
    have "sound room ?a" using assms(2) by simp
    note r = consumed[OF this, of "int n", folded b]
    show ?thesis using assms(1) by (simp add: effort_def pump_effort_def same_source_simps[OF r(2)] r(4) PSend)
  qed (use assms PSend in \<open>auto simp: pump_step_def effort_def pump_effort_def split: if_split_asm\<close>)
next
  case PClose
  then have b: "b = a\<lparr>at_pump := PDone, at_open := False\<rparr>" using assms(3) by (simp add: pump_step_def)
  have "sub_of b = sub_of a" by (rule source_congs) (simp_all add: b)
  then show ?thesis using PClose by (simp add: effort_def pump_effort_def) (simp add: b)
qed (use assms in \<open>auto simp: pump_step_def effort_def pump_effort_def split: if_split_asm\<close>)

lemma let_go_effort:
  assumes "sound room a" "b = on_session (EDetach (at_sub a)) a"
  shows "effort b = effort a" "at_open b = at_open a"
  using let_go[OF assms(1), folded assms(2)] by (simp_all add: effort_def same_source_simps)

lemma watch_less:
  assumes "\<not> at_open a" "sound room a" "names_ok a" "watch_step a = Some b"
  shows "effort b < effort a \<and> \<not> at_open b"
proof (cases "at_watch a")
  case WDetach
  let ?a = "a\<lparr>at_watch := WDone\<rparr>"
  have "b = on_session (EDetach (at_sub ?a)) ?a" using assms(4) WDetach by (simp add: watch_step_def)
  moreover have "sound room ?a" using assms(2) by simp
  ultimately show ?thesis using let_go_effort[of room ?a b] assms(1) WDetach by (simp add: effort_def watch_effort_def)
next
  case WWait
  then obtain woken ws where w: "wake (at_chan a) (at_set a) = Some (woken, ws)"
    "b = a\<lparr>at_set := ws, at_watch := (if woken then WName False else WDone)\<rparr>"
    using assms(4) by (auto simp: watch_step_def split: option.split_asm)
  have "woken \<and> ch_full (wt_chans (at_set a) ! at_chan a) \<and> \<not> ch_full (wt_chans ws ! at_chan a) \<or> \<not> woken \<and> ws = at_set a"
    using w(1) assms(3) by (auto simp: wake_def Let_def set_chan_def names_ok_def split: if_split_asm)
  moreover have "sub_of b = sub_of a" by (rule source_congs) (simp_all add: w(2))
  ultimately show ?thesis using assms(1) WWait by (auto simp: effort_def watch_effort_def w(2))
next
  case (WTell now fin)
  then have b: "b = (notify_client EventRenamed (at_told a @ bstr '' is now called '' @ now) a)
      \<lparr>at_told := now, at_watch := after_name fin, at_raced := at_raced a \<or> at_name a \<noteq> now\<rparr>"
    using assms(4) by (simp add: watch_step_def)
  have "sub_of b = sub_of a" by (rule source_congs) (simp_all add: b notify_client_def)
  then show ?thesis using assms(1) WTell by (simp add: effort_def watch_effort_def after_name_def) (simp add: b notify_client_def after_name_def)
qed (use assms in \<open>auto simp: watch_step_def notify_client_def effort_def watch_effort_def after_name_def split: if_split_asm\<close>)

lemma read_less:
  assumes "\<not> at_open a" "sound room a" "names_ok a" "read_step a = Some b"
  shows "effort b < effort a \<and> \<not> at_open b"
proof (cases "at_read a")
  case RDetach
  let ?a = "a\<lparr>at_read := RPump\<rparr>"
  have "b = on_session (EDetach (at_sub ?a)) ?a" using assms(4) RDetach by (simp add: read_step_def)
  moreover have "sound room ?a" using assms(2) by simp
  ultimately show ?thesis using let_go_effort[of room ?a b] assms(1) RDetach by (simp add: effort_def read_effort_def)
next
  case RHangUp
  then have b: "b = a\<lparr>at_read := RDetach, at_broken := at_broken a \<or> at_open a, at_open := False\<rparr>" using assms(4) by (simp add: read_step_def)
  have "sub_of b = sub_of a" by (rule source_congs) (simp_all add: b)
  then show ?thesis using RHangUp by (simp add: effort_def read_effort_def) (simp add: b)
next
  case RUnwatch
  then have b: "b = a\<lparr>at_read := RWatch, at_set := unwatch (at_chan a) (at_set a)\<rparr>" using assms(4) by (simp add: read_step_def)
  have "sub_of b = sub_of a" by (rule source_congs) (simp_all add: b)
  moreover have "ch_full (wt_chans (unwatch (at_chan a) (at_set a)) ! at_chan a) = ch_full (wt_chans (at_set a) ! at_chan a)"
    using assms(3) by (simp add: unwatch_def set_chan_def names_ok_def Let_def)
  ultimately show ?thesis using assms(1) RUnwatch by (simp add: effort_def read_effort_def) (simp add: b)
qed (use assms in \<open>auto simp: read_step_def effort_def read_effort_def split: if_split_asm\<close>)

lemma own_less:
  assumes "\<not> at_open a" "attach_ok room a" "own m" "att_step m a = Some b"
  shows "effort b < effort a \<and> \<not> at_open b"
proof -
  have sound: "sound room a" "names_ok a" using assms(2) stream_okD(1) by (auto simp: attach_ok_def)
  obtain c where c: "att_do m a = Some c" "b = track c" using assms(4) by (auto simp: att_step_def)
  have "effort (track c) = effort c" by (simp add: effort_def)
  moreover have "effort c < effort a \<and> \<not> at_open c"
  proof (cases m)
    case Pump
    then show ?thesis using pump_less[OF assms(1) sound(1)] c(1) by simp
  next
    case Watch
    then show ?thesis using watch_less[OF assms(1) sound] c(1) by simp
  next
    case Read
    then show ?thesis using read_less[OF assms(1) sound] c(1) by simp
  qed (use assms(3) in simp_all)
  ultimately show ?thesis by (simp add: c(2))
qed

lemma own_run_bounded:
  assumes "att_run ms a = Some b" "list_all own ms" "\<not> at_open a" "attach_ok room a"
  shows "length ms + effort b \<le> effort a \<and> \<not> at_open b \<and> attach_ok room b"
  using assms
proof (induction ms arbitrary: a)
  case (Cons m ms)
  then obtain c where c: "att_step m a = Some c" "att_run ms c = Some b" by (auto simp: bind_eq_Some_conv)
  then have "effort c < effort a" "\<not> at_open c" "attach_ok room c"
    using own_less[OF Cons.prems(3,4)] attach_step_ok[OF Cons.prems(4)] Cons.prems(2) by auto
  then show ?case using Cons.IH[OF c(2)] Cons.prems(2) by simp
qed simp

text \<open>Nobody waits for somebody who waits.\<close>

lemma none_stuck:
  assumes ok: "attach_ok room a" and closed: "\<not> at_open a" and stuck: "att_step Pump a = None" "att_step Watch a = None" "att_step Read a = None"
  shows "at_read a = RGone \<and> \<not> registered a \<and> at_chan a \<notin> set (wt_in (at_set a))"
proof -
  have o: "order_ok a" "names_ok a" "sound room a" using ok stream_okD(1) by (auto simp: attach_ok_def)
  have p: "pump_step a = None" "watch_step a = None" "read_step a = None" using stuck by (simp_all add: att_step_def)
  have "at_read a = RGone"
  proof (cases "at_read a")
    case RPump
    then have "sb_shut (sub_of a)" using o(1) sound_sub(3)[OF o(3)] by (simp add: order_ok_def)
    then have "at_pump a = PDone" using p(1) by (auto simp: pump_step_def split: pump_pc.split_asm list.split_asm if_split_asm)
    then show ?thesis using p(3) RPump by (simp add: read_step_def)
  next
    case RWatch
    then have "ch_shut (wt_chans (at_set a) ! at_chan a)" using o(2) by (simp add: names_ok_def Let_def)
    then have "wake (at_chan a) (at_set a) \<noteq> None" by (simp only: wake_def Let_def split: if_split) simp
    then have "at_watch a = WDone" using p(2) by (auto simp: watch_step_def split: watch_pc.split_asm option.split_asm)
    then show ?thesis using p(3) RWatch by (simp add: read_step_def)
  qed (use p(3) closed in \<open>auto simp: read_step_def\<close>)
  then show ?thesis using o by (simp add: order_ok_def names_ok_def Let_def)
qed

text \<open>What reaches the process.\<close>

definition hands :: "att \<Rightarrow> bytes list \<times> (int \<times> int) list \<times> bool" where
  "hands a = (at_typed a, at_sizes a, at_ro a)"

lemma hands_simps:
  "hands (on_session e a) = hands a" "hands (emit_frame f a) = hands a" "hands (tell_lagged a) = hands a" "hands (notify_client k n a) = hands a"
  "hands (track a) = hands a" "hands (a\<lparr>at_pump := x1\<rparr>) = hands a" "hands (a\<lparr>at_watch := x2\<rparr>) = hands a" "hands (a\<lparr>at_read := x3\<rparr>) = hands a"
  by (simp_all add: hands_def on_session_def emit_frame_def tell_lagged_def notify_client_def track_def split: option.split)

lemma pump_hands: "pump_step a = Some b \<Longrightarrow> hands b = hands a"
  by (auto simp: pump_step_def hands_simps split: pump_pc.split_asm list.split_asm if_split_asm) (simp_all add: hands_def)

lemma watch_hands: "watch_step a = Some b \<Longrightarrow> hands b = hands a"
  by (auto simp: watch_step_def hands_simps split: watch_pc.split_asm option.split_asm if_split_asm) (simp_all add: hands_def notify_client_def)

lemma read_hands: "read_step a = Some b \<Longrightarrow> hands b = hands a"
  by (auto simp: read_step_def hands_simps split: read_pc.split_asm if_split_asm) (simp_all add: hands_def)

lemma client_hands: "at_ro a \<Longrightarrow> client_step f p a = Some b \<Longrightarrow> hands b = hands a"
  by (auto simp: client_step_def resize_step_def hands_simps split: from_client.split_asm if_split_asm) (simp_all add: hands_def)

lemma step_hands: "att_step m a = Some b \<Longrightarrow> at_ro a \<Longrightarrow> hands b = hands a"
proof -
  assume "att_step m a = Some b" "at_ro a"
  then obtain c where c: "att_do m a = Some c" "b = track c" by (auto simp: att_step_def)
  have "hands c = hands a"
  proof (cases m)
    case (Client f p)
    then show ?thesis using c client_hands[OF \<open>at_ro a\<close>] by simp
  qed (use c pump_hands watch_hands read_hands in \<open>auto simp: hands_def split: if_split_asm\<close>)
  then show ?thesis by (simp add: c(2) hands_simps)
qed

section \<open>A session to look at\<close>

definition running :: status where
  "running = (new_status (bstr ''web''))\<lparr>st_state := StateRunning, st_started := True\<rparr>"

definition finished :: status where
  "finished = running\<lparr>st_state := StateExited, st_has_exited := True, st_ended := True\<rparr>"

definition some_output :: "unit session option" where
  "some_output = session_run no_marks [EWrite (bstr ''ab'')] (new_session 4)"

definition sample_attach :: "bool \<Rightarrow> att option" where
  "sample_attach ro =
     Option.bind some_output (begin_attach ro True (bstr ''web'') (bstr ''web'') (Some running) True 0 new_watchers)"

definition attach_after :: "bool \<Rightarrow> att_move list \<Rightarrow> att option" where
  "attach_after ro ms = Option.bind (sample_attach ro) (att_run ms)"

definition settled :: "att_move list" where
  "settled = [Watch, Watch]"

definition renamed_once :: "att_move list" where
  "renamed_once = settled @ [Becomes (bstr ''site'') (Some running), Tells, World (EWrite (bstr ''c'')), Watch, Watch, Watch, Watch]"

definition finishing :: "att_move list" where
  "finishing = renamed_once @ [World (EWrite (bstr ''d'')), Becomes (bstr ''site'') (Some finished), Tells, Watch, Watch, Watch, Watch, Watch, Watch]"

definition finished_off :: "att_move list" where
  "finished_off = finishing @ [Pump, Pump, Pump, Pump, Pump, Pump, Pump, Pump, Pump, Pump, Pump]"

lemma attach_after_reach: "attach_after ro ms = Some a \<Longrightarrow> att_reach 4 a"
proof -
  assume "attach_after ro ms = Some a"
  then obtain s b where s: "some_output = Some s" "begin_attach ro True (bstr ''web'') (bstr ''web'') (Some running) True 0 new_watchers s = Some b"
    "att_run ms b = Some a" by (auto simp: attach_after_def sample_attach_def bind_eq_Some_conv)
  have "session_reach no_marks 4 s" using s(1) session_run_reach session_reach.start unfolding some_output_def by blast
  then have "att_reach 4 b" by (rule att_reach.begins[OF _ _ _ s(2)]) (simp_all add: new_watchers_def)
  then show "att_reach 4 a" by (rule att_run_reach[OF s(3)])
qed

definition facts :: "att \<Rightarrow> pump_pc \<times> watch_pc \<times> bool \<times> bool \<times> bool \<times> bytes \<times> bytes" where
  "facts a = (at_pump a, at_watch a, at_open a, at_broken a, sb_lagged (sub_of a), outs (at_frames a), known (at_asked a) (at_frames a))"

lemma finished_off_value:
  "map_option facts (attach_after False finished_off) = Some (PDone, WDone, False, False, False, bstr ''abcd'', bstr ''site'')"
  by code_simp

lemma renamed_once_value:
  "map_option (\<lambda>a. (facts a, at_due a, at_name a, at_raced a, map_option fst (wake (at_chan a) (at_set a)))) (attach_after False renamed_once) =
     Some ((PTake, WWait, True, False, False, bstr ''ab'', bstr ''site''), 0, bstr ''site'', False, None)"
  by code_simp

section \<open>Properties\<close>








definition tied_up :: "att_move list" where
  "tied_up = [Read, Read, Read, Read, Read, Read]"

lemma tied_up_value:
  "map_option (\<lambda>b. (att_step Pump b = None, att_step Watch b = None, att_step Read b = None))
     (Option.bind (attach_after False finished_off) (att_run tied_up)) = Some (True, True, True)"
  by code_simp


text \<open>
  A read-only attach never reaches the process: whatever its client sends, nothing is written to it and it is not
  resized.
\<close>

theorem onlookers_do_not_type:
  assumes "att_run ms a = Some b" "at_ro a"
  shows "at_typed b = at_typed a \<and> at_sizes b = at_sizes a"
  using assms
proof (induction ms arbitrary: a)
  case (Cons m ms)
  then obtain c where c: "att_step m a = Some c" "att_run ms c = Some b" by (auto simp: bind_eq_Some_conv)
  then have "hands c = hands a" using step_hands Cons.prems(2) by blast
  then show ?case using Cons.IH[OF c(2)] Cons.prems(2) by (simp add: hands_def)
qed simp

theorem onlookers_do_not_type_witness:
  "\<exists>b. attach_after True [Client (CData (bstr ''rm'')) Taken, Client (CResize 1 (Some (80, 24))) Taken] = Some b \<and> at_typed b = [] \<and> at_sizes b = []"
proof -
  have v: "map_option (\<lambda>a. (at_ro a, at_typed a, at_sizes a)) (sample_attach True) = Some (True, [], [])"
    "map_option (\<lambda>b. True) (attach_after True [Client (CData (bstr ''rm'')) Taken, Client (CResize 1 (Some (80, 24))) Taken]) = Some True"
    by code_simp+
  obtain a where a: "sample_attach True = Some a" "at_ro a" "at_typed a = []" "at_sizes a = []" using v(1) by auto
  obtain b where b: "att_run [Client (CData (bstr ''rm'')) Taken, Client (CResize 1 (Some (80, 24))) Taken] a = Some b"
    using v(2) a(1) by (auto simp: attach_after_def simp del: att_run.simps)
  show ?thesis using onlookers_do_not_type[OF b a(2)] a b by (simp add: attach_after_def del: att_run.simps)
qed

section \<open>What is not so\<close>

text \<open>
  The event of a rename carries the service's name at the moment it is sent, the watcher remembers the one it read
  before: when the service is renamed in between and then back, the watcher sees no change any more and the
  client keeps the name in the middle.
\<close>

lemma rename_told_late:
  "map_option (\<lambda>a. (at_watch a, at_due a, map_option fst (wake (at_chan a) (at_set a)), at_name a, known (at_asked a) (at_frames a)))
     (attach_after False (settled @
        [Becomes (bstr ''b'') (Some running), Tells, Watch, Watch,
         Becomes (bstr ''c'') (Some running), Tells, Watch, Becomes (bstr ''b'') (Some running), Tells, Watch, Watch, Watch, Watch])) =
   Some (WWait, 0, None, bstr ''b'', bstr ''c'')"
  by code_simp

text \<open>
  A removal stops the service, which wakes the watcher, and closes the buffer, which ends the pump: the pump may be
  through first, and the client is hung up on without a word.
\<close>

lemma removed_without_a_word:
  "map_option (\<lambda>a. (at_open a, at_broken a, told EventFinished (at_frames a), told EventLagged (at_frames a), at_status a))
     (attach_after False (settled @
        [Becomes (bstr ''web'') (Some finished), Tells, World EClose, Slips None, Pump, Pump, Pump, Watch, Watch, Watch, Watch, Watch])) =
   Some (False, False, False, False, None)"
  by code_simp

text \<open>A client that falls behind is told so twice.\<close>

lemma lagged_told_twice:
  assumes "at_open a" "at_pump a = PCheck" "sb_lagged (sub_of a)"
  defines "lag \<equiv> Event \<lparr>ev_kind = EventLagged, ev_service = at_name a, ev_message = lagged_words\<rparr>"
  shows "\<exists>b. att_run [Pump, Pump] a = Some b \<and> at_frames b = at_frames a @ [lag, lag]"
proof -
  let ?c = "track ((notify_client EventLagged lagged_words a)\<lparr>at_pump := PLast\<rparr>)"
  have one: "att_step Pump a = Some ?c" using assms(2,3) by (simp add: att_step_def pump_step_def tell_lagged_def)
  have c: "at_open ?c" "at_pump ?c = PLast" "sb_lagged (sub_of ?c)" "at_frames ?c = at_frames a @ [lag]" "at_name ?c = at_name a"
    using assms(1,3) by (simp_all add: notify_client_def lag_def)
  have two: "att_step Pump ?c = Some (track ((tell_lagged ?c)\<lparr>at_pump := PClose\<rparr>))"
    using c(2) unfolding att_step_def att_do.simps pump_step_def by simp
  have "at_frames (track ((tell_lagged ?c)\<lparr>at_pump := PClose\<rparr>)) = at_frames a @ [lag, lag]"
    using c(1,3-5) by (simp add: tell_lagged_def[of ?c] notify_client_def[of _ _ ?c] lag_def del: track_simps(1-15))
  then show ?thesis using one two by simp
qed

text \<open>The end of an adopted process, which nobody could observe, is announced as a signal of that name.\<close>

lemma unknown_exit_is_announced:
  "exit_words (bstr ''web'') (finished\<lparr>st_last_exit := unknown_exit\<rparr>) =
     bstr ''web was killed by ended while adopted, so how is not known and is not restarting''"
  by code_simp

end
