(* ===== verification/Settings.thy ===== *)
theory Settings
  imports Prelude
begin

text \<open>
  The settings file: \<open>src/internal/status/prefix.go\<close> (the key that talks to gozellij) and
  \<open>src/internal/status/config.go\<close> (what the status line shows, where and how often).

  A message is its kind and what it quotes; its wording is left out. The environment and the file
  system are arguments: the path, and what opening it gave. \<open>time.ParseDuration\<close> is written out but
  for the floating-point conversion of a fraction, which is the argument \<open>frac\<close>.
\<close>

section \<open>The prefix key\<close>

definition default_prefix :: byte where "default_prefix = 0x1d"

definition lower :: "byte \<Rightarrow> byte" where
  "lower c = or c 0x20"

text \<open>\<open>strconv.ParseUint(s, 0, 8)\<close>: the base comes from the spelling, underscores may group digits.\<close>

definition uint_base :: "bytes \<Rightarrow> int \<times> bytes" where
  "uint_base s =
     (case s of [] \<Rightarrow> (10, [])
      | c # cs \<Rightarrow>
          if c \<noteq> 0x30 then (10, s)
          else if length s \<ge> 3 \<and> lower (hd cs) = 0x62 then (2, tl cs)
          else if length s \<ge> 3 \<and> lower (hd cs) = 0x6f then (8, tl cs)
          else if length s \<ge> 3 \<and> lower (hd cs) = 0x78 then (16, tl cs)
          else (8, cs))"

definition uint_digit :: "byte \<Rightarrow> int option" where
  "uint_digit c =
     (if is_digit c then Some (uint c - 0x30)
      else if 0x61 \<le> lower c \<and> lower c \<le> 0x7a then Some (uint (lower c) - 0x61 + 10)
      else None)"

fun uint_digits :: "int \<Rightarrow> int \<Rightarrow> bytes \<Rightarrow> int option" where
  "uint_digits base n [] = Some n"
| "uint_digits base n (c # cs) =
     (if c = 0x5f then uint_digits base n cs
      else case uint_digit c of
        None \<Rightarrow> None
      | Some d \<Rightarrow>
          if d \<ge> base then None
          else if n * base + d > 255 then None
          else uint_digits base (n * base + d) cs)"

datatype underscore_seen = Saw_start | Saw_digit | Saw_underscore | Saw_other

fun underscores_from :: "bool \<Rightarrow> underscore_seen \<Rightarrow> bytes \<Rightarrow> bool" where
  "underscores_from hex saw [] = (saw \<noteq> Saw_underscore)"
| "underscores_from hex saw (c # cs) =
     (if is_digit c \<or> (hex \<and> 0x61 \<le> lower c \<and> lower c \<le> 0x66) then underscores_from hex Saw_digit cs
      else if c = 0x5f then saw = Saw_digit \<and> underscores_from hex Saw_underscore cs
      else saw \<noteq> Saw_underscore \<and> underscores_from hex Saw_other cs)"

definition underscore_ok :: "bytes \<Rightarrow> bool" where
  "underscore_ok s0 =
     (let s = (case s0 of c # cs \<Rightarrow> if c = 0x2d \<or> c = 0x2b then cs else s0 | [] \<Rightarrow> s0)
      in case s of
           z # x # cs \<Rightarrow>
             if z = 0x30 \<and> lower x \<in> {0x62, 0x6f, 0x78}
             then underscores_from (lower x = 0x78) Saw_digit cs
             else underscores_from False Saw_start s
         | _ \<Rightarrow> underscores_from False Saw_start s)"

definition parse_uint8 :: "bytes \<Rightarrow> int option" where
  "parse_uint8 s =
     (if s = [] then None
      else case uint_base s of (base, ds) \<Rightarrow>
        (case uint_digits base 0 ds of
           None \<Rightarrow> None
         | Some n \<Rightarrow> if 0x5f \<in> set ds \<and> \<not> underscore_ok s then None else Some n))"

datatype prefix_error =
    No_key_given
  | Not_a_control_character bytes
  | Not_understood bytes

fun cut_prefixes :: "bytes list \<Rightarrow> bytes \<Rightarrow> bytes" where
  "cut_prefixes [] s = s"
| "cut_prefixes (p # ps) s = (if starts_with p s then drop (length p) s else cut_prefixes ps s)"

definition prefix_spellings :: "bytes list" where
  "prefix_spellings = [bstr ''ctrl-'', bstr ''ctrl+'', bstr ''c-'', bstr ''^'']"

definition control_of :: "byte \<Rightarrow> byte option" where
  "control_of c =
     (if 0x61 \<le> c \<and> c \<le> 0x7a then Some (c - 0x61 + 1)
      else if c = 0x5d then Some 0x1d
      else if c = 0x5b then Some 0x1b
      else if c = 0x5c then Some 0x1c
      else if c = 0x5e then Some 0x1e
      else if c = 0x5f then Some 0x1f
      else if c = 0x20 then Some 0
      else None)"

definition parse_prefix :: "bytes \<Rightarrow> prefix_error + byte" where
  "parse_prefix s =
     (let t = trim_space s
      in if t = [] then Inl No_key_given
         else case parse_uint8 t of
           Some n \<Rightarrow>
             if n = 0 \<or> n > 0x1f then Inl (Not_a_control_character t) else Inr (word_of_int n)
         | None \<Rightarrow>
             (let low = cut_prefixes prefix_spellings (to_lower t)
              in if length low \<noteq> 1 then Inl (Not_understood s)
                 else case control_of (hd low) of
                   Some b \<Rightarrow> Inr b
                 | None \<Rightarrow> Inl (Not_understood s)))"

definition hex_digit :: "byte \<Rightarrow> byte" where
  "hex_digit n = (if n < 10 then 0x30 + n else 0x61 + (n - 10))"

definition prefix_label :: "byte \<Rightarrow> bytes" where
  "prefix_label b =
     (if 1 \<le> b \<and> b \<le> 26 then bstr ''Ctrl-'' @ [0x41 + b - 1]
      else if b = 0x1b then bstr ''Ctrl-'' @ [0x5b]
      else if b = 0x1c then bstr ''Ctrl-'' @ [0x5c]
      else if b = 0x1d then bstr ''Ctrl-'' @ [0x5d]
      else if b = 0x1e then bstr ''Ctrl-'' @ [0x5e]
      else if b = 0x1f then bstr ''Ctrl-'' @ [0x5f]
      else bstr ''0x'' @ [hex_digit (b div 16), hex_digit (b mod 16)])"

section \<open>The configuration\<close>

datatype placement = Bottom | Title | Off

definition placement_of :: "bytes \<Rightarrow> placement option" where
  "placement_of s =
     (if s = bstr ''bottom'' then Some Bottom
      else if s = bstr ''title'' then Some Title
      else if s = bstr ''off'' then Some Off
      else None)"

definition placement_name :: "placement \<Rightarrow> bytes" where
  "placement_name p = (case p of Bottom \<Rightarrow> bstr ''bottom'' | Title \<Rightarrow> bstr ''title'' | Off \<Rightarrow> bstr ''off'')"

datatype problem =
    Cannot_read
  | Not_key_value nat bytes
  | Bad_where nat bytes
  | Bad_prefix nat bytes prefix_error
  | Bad_every nat bytes
  | Too_fast nat bytes
  | Unknown_setting nat bytes
  | No_such_widget nat bytes
  | Line_too_long
  | Read_failed
  | Nothing_to_show

record config =
  where_line :: placement
  left_names :: "bytes list"
  right_names :: "bytes list"
  every :: int
  prefix_key :: byte
  problems :: "problem list"

definition default_left :: "bytes list" where
  "default_left = [bstr ''keys'', bstr ''tabs'', bstr ''services'']"

definition default_right :: "bytes list" where
  "default_right = [bstr ''uptime'', bstr ''load_average'', bstr ''cpu_count'', bstr ''memory'',
     bstr ''disk'', bstr ''date'', bstr ''time'']"

text \<open>Durations are in nanoseconds.\<close>

definition default_every :: int where "default_every = 2000000000"

definition min_every :: int where "min_every = 250000000"

definition default_config :: config where
  "default_config = \<lparr>where_line = Bottom, left_names = default_left, right_names = default_right,
     every = default_every, prefix_key = default_prefix, problems = []\<rparr>"

text \<open>The registry's keys, in the order \<open>Names\<close> sorts them.\<close>

definition widget_names :: "bytes list" where
  "widget_names = [bstr ''cpu_count'', bstr ''cpu_freq'', bstr ''date'', bstr ''disk'',
     bstr ''hostname'', bstr ''keys'', bstr ''load_average'', bstr ''logs'', bstr ''memory'',
     bstr ''release'', bstr ''services'', bstr ''session'', bstr ''tabs'', bstr ''time'',
     bstr ''uptime'', bstr ''viewers'', bstr ''whoami'']"

definition known_widget :: "bytes \<Rightarrow> bool" where
  "known_widget n \<longleftrightarrow> n \<in> set widget_names"

subsection \<open>Splitting text\<close>

text \<open>\<open>strings.Fields\<close>; a white-space rune never begins inside another rune.\<close>

fun fields_from :: "bytes \<Rightarrow> bytes \<Rightarrow> bytes list" where
  "fields_from acc [] = (if acc = [] then [] else [rev acc])"
| "fields_from acc (c # cs) =
     (let k = leading white_space (c # cs)
      in if k = 0 then fields_from (c # acc) cs
         else (if acc = [] then [] else [rev acc]) @ fields_from [] (drop (k - 1) cs))"

definition go_fields :: "bytes \<Rightarrow> bytes list" where
  "go_fields s = fields_from [] s"

text \<open>\<open>strings.Trim(s, "\"'")\<close>\<close>

definition unquote :: "bytes \<Rightarrow> bytes" where
  "unquote s =
     (let q = (\<lambda>c. c = 0x22 \<or> c = 0x27) in rev (dropWhile q (rev (dropWhile q s))))"

text \<open>
  \<open>bufio.Scanner\<close> with its own buffer: lines without their end, one carriage return before it
  dropped, and whether a line of 64 KiB or more stopped the scan.
\<close>

definition drop_cr :: "bytes \<Rightarrow> bytes" where
  "drop_cr l = (if l \<noteq> [] \<and> last l = 0x0d then butlast l else l)"

definition raw_lines :: "bytes \<Rightarrow> bytes list" where
  "raw_lines s = (let ls = split_on 0x0a s in if last ls = [] then butlast ls else ls)"

definition fits_scanner :: "bytes \<Rightarrow> bool" where
  "fits_scanner l \<longleftrightarrow> int (length l) < 65536"

definition scan_lines :: "bytes \<Rightarrow> bytes list \<times> bool" where
  "scan_lines s =
     (let ls = raw_lines s
      in (map drop_cr (takeWhile fits_scanner ls), \<not> list_all fits_scanner ls))"

subsection \<open>Durations\<close>

definition duration_limit :: int where "duration_limit = 9223372036854775808"

definition duration_unit :: "bytes \<Rightarrow> int option" where
  "duration_unit u =
     map_of [(bstr ''ns'', 1), (bstr ''us'', 1000), ([0xc2, 0xb5, 0x73], 1000), ([0xce, 0xbc, 0x73], 1000),
             (bstr ''ms'', 1000000), (bstr ''s'', 1000000000), (bstr ''m'', 60000000000),
             (bstr ''h'', 3600000000000)] u"

fun leading_int :: "int \<Rightarrow> bytes \<Rightarrow> (int \<times> bytes) option" where
  "leading_int x [] = Some (x, [])"
| "leading_int x (c # cs) =
     (if \<not> is_digit c then Some (x, c # cs)
      else if x > duration_limit div 10 then None
      else (let y = x * 10 + (uint c - 0x30) in if y > duration_limit then None else leading_int y cs))"

text \<open>The digits read and how many of them count; the rest are beyond what the integer holds.\<close>

fun leading_fraction :: "bool \<Rightarrow> int \<Rightarrow> nat \<Rightarrow> bytes \<Rightarrow> int \<times> nat \<times> bytes" where
  "leading_fraction over x k [] = (x, k, [])"
| "leading_fraction over x k (c # cs) =
     (if \<not> is_digit c then (x, k, c # cs)
      else if over then leading_fraction over x k cs
      else if x > (duration_limit - 1) div 10 then leading_fraction True x k cs
      else (let y = x * 10 + (uint c - 0x30)
            in if y > duration_limit then leading_fraction True x k cs
               else leading_fraction False y (Suc k) cs))"

definition unit_char :: "byte \<Rightarrow> bool" where
  "unit_char c \<longleftrightarrow> c \<noteq> 0x2e \<and> \<not> is_digit c"

text \<open>
  One \<open>number unit\<close> of a duration: its nanoseconds and what is left. \<open>frac f unit k\<close> is
  \<open>uint64(float64(f) * (float64(unit) / 10^k))\<close>.
\<close>

definition duration_part :: "(int \<Rightarrow> int \<Rightarrow> nat \<Rightarrow> int) \<Rightarrow> bytes \<Rightarrow> (int \<times> bytes) option" where
  "duration_part frac s =
     (if s = [] \<or> \<not> (hd s = 0x2e \<or> is_digit (hd s)) then None
      else do {
        (v, s1) \<leftarrow> leading_int 0 s;
        let pre = length s1 \<noteq> length s;
        let dotted = s1 \<noteq> [] \<and> hd s1 = 0x2e;
        let (f, k, s2) = (if dotted then leading_fraction False 0 0 (tl s1) else (0, 0, s1));
        let post = dotted \<and> length s2 \<noteq> length (tl s1);
        if \<not> pre \<and> \<not> post then None
        else do {
          let u = takeWhile unit_char s2;
          if u = [] then None
          else do {
            n \<leftarrow> duration_unit u;
            if v > duration_limit div n then None
            else do {
              let w = (if f > 0 then v * n + frac f n k else v * n);
              if f > 0 \<and> w > duration_limit then None
              else Some (w, drop (length u) s2) } } } })"

text \<open>Each part takes at least a byte, so as many turns as there are bytes are enough.\<close>

fun duration_parts :: "(int \<Rightarrow> int \<Rightarrow> nat \<Rightarrow> int) \<Rightarrow> nat \<Rightarrow> int \<Rightarrow> bytes \<Rightarrow> int option" where
  "duration_parts frac k d [] = Some d"
| "duration_parts frac 0 d (c # cs) = None"
| "duration_parts frac (Suc k) d (c # cs) =
     do { (v, rest) \<leftarrow> duration_part frac (c # cs);
          if d + v > duration_limit then None else duration_parts frac k (d + v) rest }"

definition parse_duration :: "(int \<Rightarrow> int \<Rightarrow> nat \<Rightarrow> int) \<Rightarrow> bytes \<Rightarrow> int option" where
  "parse_duration frac s0 =
     (let neg = (s0 \<noteq> [] \<and> hd s0 = 0x2d);
          s = (if s0 \<noteq> [] \<and> (hd s0 = 0x2d \<or> hd s0 = 0x2b) then tl s0 else s0)
      in if s = [0x30] then Some 0
         else if s = [] then None
         else case duration_parts frac (length s) 0 s of
           None \<Rightarrow> None
         | Some d \<Rightarrow> if neg then Some (- d)
                     else if d > duration_limit - 1 then None else Some d)"

subsection \<open>Reading the file\<close>

fun widget_fields :: "nat \<Rightarrow> bytes list \<Rightarrow> problem list \<Rightarrow> bytes list \<times> problem list" where
  "widget_fields line [] ps = ([], ps)"
| "widget_fields line (n # ns) ps =
     (if starts_with [0x23] n then widget_fields line ns ps
      else if \<not> known_widget n then widget_fields line ns (ps @ [No_such_widget line n])
      else (case widget_fields line ns ps of (ws, qs) \<Rightarrow> (n # ws, qs)))"

definition report :: "problem \<Rightarrow> config \<Rightarrow> config" where
  "report p c = c\<lparr>problems := problems c @ [p]\<rparr>"

definition set_left :: "nat \<Rightarrow> bytes \<Rightarrow> config \<Rightarrow> config" where
  "set_left line v c =
     (case widget_fields line (go_fields v) (problems c) of
        (ws, ps) \<Rightarrow> c\<lparr>left_names := ws, problems := ps\<rparr>)"

definition set_right :: "nat \<Rightarrow> bytes \<Rightarrow> config \<Rightarrow> config" where
  "set_right line v c =
     (case widget_fields line (go_fields v) (problems c) of
        (ws, ps) \<Rightarrow> c\<lparr>right_names := ws, problems := ps\<rparr>)"

definition set_every :: "(int \<Rightarrow> int \<Rightarrow> nat \<Rightarrow> int) \<Rightarrow> nat \<Rightarrow> bytes \<Rightarrow> config \<Rightarrow> config" where
  "set_every frac line v c =
     (case parse_duration frac v of
        None \<Rightarrow> report (Bad_every line v) c
      | Some d \<Rightarrow>
          if d \<le> 0 then report (Bad_every line v) c
          else if d < min_every then (report (Too_fast line v) c)\<lparr>every := min_every\<rparr>
          else c\<lparr>every := d\<rparr>)"

definition set_key :: "nat \<Rightarrow> bytes \<Rightarrow> config \<Rightarrow> config" where
  "set_key line v c =
     (case parse_prefix v of
        Inl e \<Rightarrow> report (Bad_prefix line v e) c
      | Inr b \<Rightarrow> c\<lparr>prefix_key := b\<rparr>)"

definition set_where :: "nat \<Rightarrow> bytes \<Rightarrow> config \<Rightarrow> config" where
  "set_where line v c =
     (case placement_of v of
        Some p \<Rightarrow> c\<lparr>where_line := p\<rparr>
      | None \<Rightarrow> report (Bad_where line v) c)"

definition parse_line :: "(int \<Rightarrow> int \<Rightarrow> nat \<Rightarrow> int) \<Rightarrow> nat \<Rightarrow> bytes \<Rightarrow> config \<Rightarrow> config" where
  "parse_line frac line raw c =
     (let text = trim_space raw
      in if text = [] \<or> starts_with [0x23] text then c
         else case cut_at 0x3d text of
           None \<Rightarrow> report (Not_key_value line text) c
         | Some (k0, v0) \<Rightarrow>
             (let key = trim_space k0; value = unquote (trim_space v0)
              in if key = bstr ''where'' then set_where line value c
                 else if key = bstr ''prefix'' then set_key line value c
                 else if key = bstr ''left'' then set_left line value c
                 else if key = bstr ''right'' then set_right line value c
                 else if key = bstr ''every'' then set_every frac line value c
                 else report (Unknown_setting line key) c))"

fun parse_lines :: "(int \<Rightarrow> int \<Rightarrow> nat \<Rightarrow> int) \<Rightarrow> nat \<Rightarrow> bytes list \<Rightarrow> config \<Rightarrow> config" where
  "parse_lines frac line [] c = c"
| "parse_lines frac line (l # ls) c = parse_lines frac (Suc line) ls (parse_line frac (Suc line) l c)"

definition hide_blank :: "config \<Rightarrow> config" where
  "hide_blank c =
     (if where_line c \<noteq> Off \<and> left_names c = [] \<and> right_names c = []
      then (report Nothing_to_show c)\<lparr>where_line := Off\<rparr> else c)"

text \<open>\<open>failed\<close>: reading stopped with an error after these bytes.\<close>

definition parse_config :: "(int \<Rightarrow> int \<Rightarrow> nat \<Rightarrow> int) \<Rightarrow> bytes \<Rightarrow> bool \<Rightarrow> config \<Rightarrow> config" where
  "parse_config frac data failed c =
     (case scan_lines data of (ls, too_long) \<Rightarrow>
        (let c1 = parse_lines frac 0 ls c;
             c2 = (if too_long then report Line_too_long c1
                   else if failed then report Read_failed c1 else c1)
         in hide_blank c2))"

datatype opened = No_file | Unreadable | Opened bytes bool

definition load_config :: "(int \<Rightarrow> int \<Rightarrow> nat \<Rightarrow> int) \<Rightarrow> bytes \<Rightarrow> opened \<Rightarrow> config" where
  "load_config frac path file =
     (if path = [] then default_config
      else case file of
        No_file \<Rightarrow> default_config
      | Unreadable \<Rightarrow> report Cannot_read default_config
      | Opened data failed \<Rightarrow> parse_config frac data failed default_config)"

definition unlines :: "bytes list \<Rightarrow> bytes" where
  "unlines ls = concat (map (\<lambda>l. l @ [0x0a]) ls)"

fun join_with :: "bytes \<Rightarrow> bytes list \<Rightarrow> bytes" where
  "join_with sep [] = []"
| "join_with sep [x] = x"
| "join_with sep (x # y # ys) = x @ sep @ join_with sep (y # ys)"

definition example_about_where :: "bytes list" where
  "example_about_where =
    [bstr ''#'',
     bstr ''# Where the status line goes: bottom, title or off.'',
     bstr ''#'',
     bstr ''#   bottom  the last row of the terminal, byobu-style. A full-screen program that'',
     bstr ''#           sets its own scrolling region will draw over it until it exits.'',
     bstr ''#   title   the terminal's title bar. Nothing can draw over it, and it survives'',
     bstr ''#           vim and top - but you only see it if your terminal shows titles.'',
     bstr ''#   off     nothing.'']"

definition example_about_prefix :: "bytes list" where
  "example_about_prefix =
    [[],
     bstr ''# The key that talks to gozellij rather than to the program you are attached to.'',
     bstr ''# Ctrl-] by default, as telnet has used for decades. Write it any of these ways:'',
     bstr ''# C-b, ^B, Ctrl-b, ctrl+b, 0x02. It has to be a control character.'',
     bstr ''#prefix=C-b'',
     [],
     bstr ''# The key that talks to gozellij rather than to what you are attached to.'',
     bstr ''# Ctrl-] by default, as telnet has used for decades. Write it any of these ways:'',
     bstr ''# C-b, ^B, Ctrl-b, ctrl+b, 0x02. It has to be a control character.'',
     bstr ''#prefix=C-b'',
     []]"

definition example_about_widgets :: "bytes list" where
  "example_about_widgets =
    [bstr ''# Widgets, in order, as byobu names them. A leading # switches one off without'',
     bstr ''# deleting it. Everything available:'',
     bstr ''#'',
     bstr ''#   '' @ join_with [0x20] widget_names]"

definition example_about_every :: "bytes list" where
  "example_about_every =
    [[],
     bstr ''# How often to redraw.'']"

definition example_body :: "bytes list" where
  "example_body =
     example_about_where @ [bstr ''where='' @ placement_name Bottom]
     @ example_about_prefix @ example_about_widgets
     @ [bstr ''left='' @ [0x22] @ join_with [0x20] default_left @ [0x22],
        bstr ''right='' @ [0x22] @ join_with [0x20] default_right @ [0x22]]
     @ example_about_every @ [bstr ''every='' @ bstr ''2s'']"

definition example_file :: "bytes \<Rightarrow> bytes" where
  "example_file path = unlines ((bstr ''# '' @ path) # example_body)"

section \<open>The prefix key: what is accepted, and that it reads back\<close>

lemma leading_0_not_start:
  assumes "leading ps s = 0" "p \<in> set ps" "\<forall>q \<in> set ps. q \<noteq> []"
  shows "\<not> starts_with p s"
proof
  assume "starts_with p s"
  then obtain q where q: "find (\<lambda>q. starts_with q s) ps = Some q"
    using assms(2) by (metis find_None_iff not_None_eq)
  then have "q \<in> set ps" by (metis find_Some_iff nth_mem)
  then show False using assms(1,3) q by (auto simp: leading_def)
qed

lemma leading_le: "leading ps s \<le> length s"
proof (cases "find (\<lambda>q. starts_with q s) ps")
  case (Some q)
  then have "take (length q) s = q" by (auto simp: find_Some_iff starts_with_def)
  then have "length q \<le> length s" by (metis length_take min.cobounded1)
  then show ?thesis using Some by (simp add: leading_def)
qed (simp add: leading_def)

lemma trim_front_done:
  assumes "length s \<le> k"
  shows "leading ps (trim_front k ps s) = 0"
  using assms
proof (induction k arbitrary: s)
  case 0
  then show ?case using leading_le[of ps "[]"] by simp
next
  case (Suc k)
  then show ?case by simp
qed

lemma white_space_nonempty: "\<forall>p \<in> set white_space. p \<noteq> []" "\<forall>p \<in> set (map rev white_space). p \<noteq> []"
  by (simp_all add: white_space_def)

lemma leading_graphic:
  assumes "0x21 \<le> c" "c \<le> 0x7e"
  shows "leading white_space (c # s) = 0" "leading (map rev white_space) (c # s) = 0"
proof -
  have hds: "\<forall>p \<in> set white_space. hd p < 0x21 \<or> 0x7e < hd p"
    "\<forall>p \<in> set (map rev white_space). hd p < 0x21 \<or> 0x7e < hd p"
    by (simp_all add: white_space_def)
  have start: "p \<noteq> [] \<Longrightarrow> starts_with p (c # s) \<Longrightarrow> hd p = c" for p
    by (cases p) (simp_all add: starts_with_def)
  have "leading ps (c # s) = 0" if "\<forall>p \<in> set ps. hd p < 0x21 \<or> 0x7e < hd p" "\<forall>p \<in> set ps. p \<noteq> []" for ps
  proof -
    have "\<not> starts_with p (c # s)" if "p \<in> set ps" for p
    proof
      assume "starts_with p (c # s)"
      then have "hd p = c" using start[of p] that \<open>\<forall>p \<in> set ps. p \<noteq> []\<close> by blast
      then show False using that \<open>\<forall>p \<in> set ps. hd p < 0x21 \<or> 0x7e < hd p\<close> assms by (auto simp: not_less)
    qed
    then have "find (\<lambda>p. starts_with p (c # s)) ps = None" by (simp add: find_None_iff)
    then show ?thesis by (simp add: leading_def)
  qed
  then show "leading white_space (c # s) = 0" "leading (map rev white_space) (c # s) = 0"
    using hds white_space_nonempty by blast+
qed

lemma trim_front_stop: "leading ps s = 0 \<Longrightarrow> trim_front k ps s = s"
  by (cases k) simp_all

lemma trim_space_id:
  assumes "s \<noteq> []" "0x21 \<le> hd s" "hd s \<le> 0x7e" "0x21 \<le> last s" "last s \<le> 0x7e"
  shows "trim_space s = s"
proof -
  have "leading white_space s = 0" using leading_graphic(1)[of "hd s" "tl s"] assms by simp
  moreover have "leading (map rev white_space) (rev s) = 0"
    using leading_graphic(2)[of "last s" "tl (rev s)"] assms
    by (metis Nil_is_rev_conv hd_Cons_tl hd_rev)
  ultimately show ?thesis by (simp add: trim_space_def trim_front_stop)
qed

lemma label_shape:
  assumes "1 \<le> b" "b \<le> 0x1f"
  shows "\<exists>k. prefix_label b = bstr ''Ctrl-'' @ [k]"
proof -
  have "b \<le> 26 \<or> b = 0x1b \<or> b = 0x1c \<or> b = 0x1d \<or> b = 0x1e \<or> b = 0x1f"
    using assms by (simp add: word_le_nat_alt word_eq_iff_unsigned[where 'a = nat and 'b = 8] unat_arith_simps) linarith
  then show ?thesis using assms by (auto simp: prefix_label_def)
qed

lemma trim_space_end:
  assumes "trim_space s \<noteq> []"
  shows "last (trim_space s) \<noteq> 0x20"
proof
  assume l: "last (trim_space s) = 0x20"
  define a where "a = trim_front (length s) white_space s"
  define b where "b = trim_front (length a) (map rev white_space) (rev a)"
  have t: "trim_space s = rev b" by (simp add: trim_space_def Let_def flip: a_def b_def)
  have "leading (map rev white_space) b = 0" unfolding b_def by (rule trim_front_done) simp
  moreover have "[0x20] \<in> set (map rev white_space)" by (simp add: white_space_def)
  ultimately have "\<not> starts_with [0x20] b"
    using leading_0_not_start white_space_nonempty(2) by blast
  moreover have "b \<noteq> []" "hd b = 0x20" using assms l by (simp_all add: t last_rev)
  ultimately show False by (cases b) (simp_all add: starts_with_def)
qed

lemma to_lower_Nil_iff [simp]: "to_lower s = [] \<longleftrightarrow> s = []"
  by (cases s) simp_all

lemma to_lower_end: "to_lower t \<noteq> [] \<Longrightarrow> last (to_lower t) = 0x20 \<Longrightarrow> t \<noteq> [] \<and> last t = 0x20"
proof (induction t rule: to_lower.induct)
  case (2 c cs)
  have fold: "c + 0x20 = (0x20 :: byte) \<Longrightarrow> c = 0" by simp
  show ?case
    using 2 fold
    by (auto split: if_split_asm simp: last_drop)
qed simp

lemma cut_prefixes_end: "cut_prefixes ps s \<noteq> [] \<Longrightarrow> s \<noteq> [] \<and> last (cut_prefixes ps s) = last s"
  by (induction ps) (auto simp: last_drop split: if_split_asm)

lemma uint_digit_nonneg: "uint_digit c = Some d \<Longrightarrow> 0 \<le> d"
proof -
  have "is_digit c \<Longrightarrow> 0x30 \<le> uint c" by (simp add: is_digit_def word_le_def)
  moreover have "0x61 \<le> lower c \<Longrightarrow> 0x61 \<le> uint (lower c)" by (simp add: word_le_def)
  ultimately show "uint_digit c = Some d \<Longrightarrow> 0 \<le> d" by (auto simp: uint_digit_def split: if_split_asm)
qed

lemma uint_digits_nonneg: "uint_digits base n s = Some m \<Longrightarrow> 0 \<le> n \<Longrightarrow> 0 \<le> base \<Longrightarrow> 0 \<le> m"
  by (induction base n s rule: uint_digits.induct)
    (auto split: if_split_asm option.split_asm dest: uint_digit_nonneg)

lemma parse_uint8_nonneg: "parse_uint8 s = Some n \<Longrightarrow> 0 \<le> n"
proof -
  have "0 \<le> fst (uint_base s)" by (simp add: uint_base_def split: list.split)
  then show "parse_uint8 s = Some n \<Longrightarrow> 0 \<le> n"
    by (auto simp: parse_uint8_def split: if_split_asm prod.split_asm option.split_asm
        dest: uint_digits_nonneg)
qed

lemma control_of_range:
  assumes "control_of c = Some b" "c \<noteq> 0x20"
  shows "1 \<le> b \<and> b \<le> 0x1f"
proof (cases "0x61 \<le> c \<and> c \<le> 0x7a")
  case True
  then have b: "b = c - 0x60" using assms(1) by (simp add: control_of_def)
  have "1 \<le> c - 0x60 \<and> c - 0x60 \<le> 0x1f" using True by unat_arith
  then show ?thesis by (simp add: b)
next
  case False
  then show ?thesis using assms by (auto simp: control_of_def split: if_split_asm)
qed

lemma prefix_range:
  assumes "parse_prefix s = Inr b"
  shows "1 \<le> b \<and> b \<le> 0x1f"
proof -
  define t where "t = trim_space s"
  have t: "t \<noteq> []" using assms by (auto simp: parse_prefix_def Let_def t_def)
  show ?thesis
  proof (cases "parse_uint8 t")
    case (Some n)
    then have n: "1 \<le> n" "n \<le> 0x1f" "b = word_of_int n"
      using assms t parse_uint8_nonneg[OF Some]
      by (auto simp: parse_prefix_def Let_def simp flip: t_def split: if_split_asm)
    then have "uint b = n" by (simp add: uint_word_of_int)
    then show ?thesis using n by (simp add: word_le_def)
  next
    case None
    define low where "low = cut_prefixes prefix_spellings (to_lower t)"
    have low: "length low = 1" "control_of (hd low) = Some b"
      using assms t None
      by (auto simp: parse_prefix_def Let_def simp flip: t_def low_def split: if_split_asm option.split_asm)
    then have "low \<noteq> []" "hd low = last low" by (auto simp: length_Suc_conv)
    then have "last low = last (to_lower t)" "to_lower t \<noteq> []"
      using cut_prefixes_end[of prefix_spellings "to_lower t"] by (auto simp: low_def)
    then have "last low \<noteq> 0x20" using to_lower_end[of t] trim_space_end[of s] t by (auto simp: t_def)
    then show ?thesis using control_of_range low(2) \<open>hd low = last low\<close> by simp
  qed
qed

text \<open>
  Whatever spelling of a key the file or the command line gives, the key accepted is a control
  character and never the NUL byte (although the code has a branch for Ctrl-Space): so no ordinary key press can be
  taken for a command.
\<close>

theorem prefix_is_a_control_character:
  assumes "parse_prefix s = Inr b"
  shows "1 \<le> b \<and> b \<le> 0x1f"
  using assms by (rule prefix_range)

theorem prefix_is_a_control_character_witness:
  "parse_prefix (bstr '' ^B '') = Inr 2 \<and> (1 :: byte) \<le> 2 \<and> (2 :: byte) \<le> 0x1f"
proof -
  have "parse_prefix (bstr '' ^B '') = Inr 2" by code_simp
  then show ?thesis using prefix_is_a_control_character by blast
qed

text \<open>
  The label every message shows for a key is a spelling the settings file accepts for that same key:
  each of the 31 control characters reads back as itself.
\<close>

theorem prefix_label_reads_back:
  assumes "1 \<le> b" "b \<le> 0x1f"
  shows "parse_prefix (prefix_label b) = Inr b"
proof -
  let ?P = "\<lambda>b. case cut_prefixes prefix_spellings (to_lower (prefix_label b)) of
      [c] \<Rightarrow> control_of c = Some b \<and> 0x21 \<le> last (prefix_label b) \<and> last (prefix_label b) \<le> 0x7e
    | _ \<Rightarrow> False"
  have all: "list_all (\<lambda>n. ?P (word_of_nat n)) [1..<32]" by code_simp
  have "unat b \<in> set [1..<32]" using assms by (simp add: word_le_nat_alt)
  then have one: "?P (word_of_nat (unat b))" by (rule bspec[OF all[unfolded list_all_iff]])
  have self: "word_of_nat (unat b) = b" by simp
  have "?P b" using one unfolding self .
  then obtain c where c: "cut_prefixes prefix_spellings (to_lower (prefix_label b)) = [c]"
    "control_of c = Some b" "0x21 \<le> last (prefix_label b)" "last (prefix_label b) \<le> 0x7e"
    by (auto split: list.split_asm)
  obtain k where k: "prefix_label b = bstr ''Ctrl-'' @ [k]"
    using assms label_shape by blast
  have "trim_space (prefix_label b) = prefix_label b"
    using c(3,4) by (intro trim_space_id) (simp_all add: k)
  moreover have "parse_uint8 (prefix_label b) = None"
    by (simp add: k parse_uint8_def uint_base_def uint_digit_def is_digit_def lower_def)
  ultimately show ?thesis using c(1,2) by (simp add: parse_prefix_def Let_def k)
qed

theorem prefix_label_reads_back_witness:
  "(1 :: byte) \<le> 0x1d \<and> (0x1d :: byte) \<le> 0x1f \<and> parse_prefix (prefix_label 0x1d) = Inr 0x1d"
  using prefix_label_reads_back[of "0x1d"] by simp

section \<open>Reading a file keeps the settings usable\<close>

text \<open>What a widget list keeps, and what it reports: exactly the names no widget has.\<close>

lemma widget_fields_spec:
  "widget_fields line ns ps =
     (filter (\<lambda>n. \<not> starts_with [0x23] n \<and> known_widget n) ns,
      ps @ map (No_such_widget line) (filter (\<lambda>n. \<not> starts_with [0x23] n \<and> \<not> known_widget n) ns))"
  by (induction line ns ps rule: widget_fields.induct) simp_all

definition config_ok :: "config \<Rightarrow> bool" where
  "config_ok c \<longleftrightarrow> min_every \<le> every c \<and> 1 \<le> prefix_key c \<and> prefix_key c \<le> 0x1f
     \<and> list_all known_widget (left_names c) \<and> list_all known_widget (right_names c)"

named_theorems setters \<comment> \<open>what one line of the file does\<close>

lemmas [setters] = set_left_def set_right_def set_every_def set_key_def set_where_def report_def widget_fields_spec

lemma config_ok_default: "config_ok default_config"
  by (simp add: config_ok_def default_config_def min_every_def default_every_def default_prefix_def
      default_left_def default_right_def known_widget_def widget_names_def)

lemma config_ok_setters:
  assumes "config_ok c"
  shows "config_ok (set_left n v c)" "config_ok (set_right n v c)" "config_ok (set_every frac n v c)"
    "config_ok (set_where n v c)" "config_ok (report q c)"
  using assms by (auto simp: setters config_ok_def list_all_iff split: option.split sum.split)

lemma config_ok_set_key: "config_ok c \<Longrightarrow> config_ok (set_key n v c)"
  using prefix_range[of v] by (auto simp: setters config_ok_def split: sum.split)

lemma config_ok_line: "config_ok c \<Longrightarrow> config_ok (parse_line frac n l c)"
  by (simp add: parse_line_def Let_def config_ok_setters config_ok_set_key split: option.split prod.split)

lemma config_ok_lines: "config_ok c \<Longrightarrow> config_ok (parse_lines frac n ls c)"
  by (induction frac n ls c rule: parse_lines.induct) (simp_all add: config_ok_line)

lemma config_ok_hide_blank: "config_ok c \<Longrightarrow> config_ok (hide_blank c)"
  by (simp add: hide_blank_def config_ok_def report_def)

definition shows_something :: "config \<Rightarrow> bool" where
  "shows_something c \<longleftrightarrow> where_line c = Off \<or> left_names c \<noteq> [] \<or> right_names c \<noteq> []"

lemma shows_something_hide_blank: "shows_something (hide_blank c)"
  by (simp add: hide_blank_def report_def shows_something_def)

lemma shows_something_parse: "shows_something (parse_config frac data failed c)"
  by (simp add: parse_config_def Let_def shows_something_hide_blank split: prod.split)

lemma shows_something_default: "shows_something default_config" "shows_something (report q default_config)"
  by (simp_all add: shows_something_def report_def default_config_def default_left_def)

lemma config_ok_parse: "config_ok c \<Longrightarrow> config_ok (parse_config frac data failed c)"
  by (simp add: parse_config_def Let_def config_ok_hide_blank config_ok_lines config_ok_setters split: prod.split)

text \<open>
  C39. Whatever the settings file holds, and however reading it fails, the settings are usable: the
  line is redrawn no more often than the limit, the key is a control character, only widgets that
  exist are named, and a line that is drawn has something to show.
\<close>

theorem settings_are_usable:
  "config_ok (load_config frac path file) \<and> shows_something (load_config frac path file)"
proof -
  have "config_ok (load_config frac path file)"
    by (simp add: load_config_def config_ok_default config_ok_parse config_ok_setters split: opened.split)
  moreover have "shows_something (load_config frac path file)"
    by (simp add: load_config_def shows_something_parse shows_something_default split: opened.split)
  ultimately show ?thesis by blast
qed

section \<open>Nothing in the file is lost silently\<close>

definition list_fine :: "bytes \<Rightarrow> bool" where
  "list_fine v \<longleftrightarrow> list_all (\<lambda>n. starts_with [0x23] n \<or> known_widget n) (go_fields v)"

definition every_fine :: "(int \<Rightarrow> int \<Rightarrow> nat \<Rightarrow> int) \<Rightarrow> bytes \<Rightarrow> bool" where
  "every_fine frac v \<longleftrightarrow> (case parse_duration frac v of None \<Rightarrow> False | Some d \<Rightarrow> min_every \<le> d)"

text \<open>The lines a reader of the documentation would call right.\<close>

definition line_fine :: "(int \<Rightarrow> int \<Rightarrow> nat \<Rightarrow> int) \<Rightarrow> bytes \<Rightarrow> bool" where
  "line_fine frac raw \<longleftrightarrow>
     (let text = trim_space raw
      in text = [] \<or> starts_with [0x23] text
         \<or> (case cut_at 0x3d text of
              None \<Rightarrow> False
            | Some (k, w) \<Rightarrow>
                (let key = trim_space k; v = unquote (trim_space w)
                 in (key = bstr ''where'' \<and> placement_of v \<noteq> None)
                    \<or> (key = bstr ''prefix'' \<and> \<not> isl (parse_prefix v))
                    \<or> ((key = bstr ''left'' \<or> key = bstr ''right'') \<and> list_fine v)
                    \<or> (key = bstr ''every'' \<and> every_fine frac v))))"

lemma list_fine_filter:
  "list_fine v \<longleftrightarrow> filter (\<lambda>n. \<not> starts_with [0x23] n \<and> \<not> known_widget n) (go_fields v) = []"
  by (auto simp: list_fine_def list_all_iff filter_empty_conv)

text \<open>One line only adds to the problems, and adds something exactly when it is not right.\<close>

definition complains :: "bool \<Rightarrow> config \<Rightarrow> config \<Rightarrow> bool" where
  "complains fine c c' \<longleftrightarrow> (\<exists>ps. problems c' = problems c @ ps \<and> (ps = [] \<longleftrightarrow> fine))"

lemma complains_setters:
  "complains (placement_of v \<noteq> None) c (set_where n v c)"
  "complains (\<not> isl (parse_prefix v)) c (set_key n v c)"
  "complains (list_fine v) c (set_left n v c)"
  "complains (list_fine v) c (set_right n v c)"
  "complains (every_fine frac v) c (set_every frac n v c)"
  "complains False c (report q c)"
  "complains True c c"
  by (auto simp: complains_def setters list_fine_filter every_fine_def min_every_def
      split: option.split sum.split)

lemma complains_line: "complains (line_fine frac l) c (parse_line frac n l c)"
proof -
  define text' where "text' = trim_space l"
  have keys: "bstr ''where'' \<noteq> bstr ''prefix''" "bstr ''where'' \<noteq> bstr ''left''" "bstr ''where'' \<noteq> bstr ''right''"
    "bstr ''where'' \<noteq> bstr ''every''" "bstr ''prefix'' \<noteq> bstr ''left''" "bstr ''prefix'' \<noteq> bstr ''right''"
    "bstr ''prefix'' \<noteq> bstr ''every''" "bstr ''left'' \<noteq> bstr ''every''" "bstr ''right'' \<noteq> bstr ''every''"
    by simp_all
  show ?thesis
  proof (cases "text' = [] \<or> starts_with [0x23] text'")
    case True
    then have "line_fine frac l" unfolding line_fine_def Let_def text'_def[symmetric] by blast
    moreover have "parse_line frac n l c = c"
      using True by (simp only: parse_line_def Let_def text'_def[symmetric] if_True)
    ultimately show ?thesis using complains_setters(7) by simp
  next
    case False
    show ?thesis
    proof (cases "cut_at 0x3d text'")
      case None
      then have "\<not> line_fine frac l" "parse_line frac n l c = report (Not_key_value n text') c"
        using False
        by (simp_all add: line_fine_def parse_line_def Let_def del: bstr_Cons flip: text'_def)
      then show ?thesis using complains_setters(6) by simp
    next
      case (Some kw)
      obtain k w where kw: "kw = (k, w)" by (cases kw)
      define key v where "key = trim_space k" "v = unquote (trim_space w)"
      have p: "parse_line frac n l c =
          (if key = bstr ''where'' then set_where n v c
           else if key = bstr ''prefix'' then set_key n v c
           else if key = bstr ''left'' then set_left n v c
           else if key = bstr ''right'' then set_right n v c
           else if key = bstr ''every'' then set_every frac n v c
           else report (Unknown_setting n key) c)"
        using False Some
        by (simp add: parse_line_def Let_def kw key_v_def del: bstr_Cons flip: text'_def)
      have f: "line_fine frac l \<longleftrightarrow>
          (key = bstr ''where'' \<and> placement_of v \<noteq> None) \<or> (key = bstr ''prefix'' \<and> \<not> isl (parse_prefix v))
          \<or> ((key = bstr ''left'' \<or> key = bstr ''right'') \<and> list_fine v)
          \<or> (key = bstr ''every'' \<and> every_fine frac v)"
        using False Some
        by (simp add: line_fine_def Let_def kw key_v_def del: bstr_Cons flip: text'_def)
      consider "key = bstr ''where''" | "key = bstr ''prefix''" | "key = bstr ''left''" | "key = bstr ''right''"
        | "key = bstr ''every''"
        | "key \<noteq> bstr ''where''" "key \<noteq> bstr ''prefix''" "key \<noteq> bstr ''left''" "key \<noteq> bstr ''right''"
          "key \<noteq> bstr ''every''"
        by blast
      then show ?thesis
        by cases (use keys complains_setters in \<open>simp_all add: p f del: bstr_Cons\<close>)
    qed
  qed
qed

lemma complains_trans:
  "complains a c d \<Longrightarrow> complains b d e \<Longrightarrow> complains (a \<and> b) c e"
  by (fastforce simp: complains_def)

lemma complains_lines: "complains (list_all (line_fine frac) ls) c (parse_lines frac n ls c)"
proof (induction ls arbitrary: c n)
  case Nil
  then show ?case using complains_setters(7) by simp
next
  case (Cons l ls)
  show ?case
    using complains_trans[OF complains_line[of frac l c "Suc n"] Cons.IH] by simp
qed

lemma problems_default: "problems default_config = []"
  by (simp add: default_config_def)

text \<open>
  The settings file is read without complaint exactly when every line of it is blank, a comment
  or a setting whose value is legal, no line is too long for the scanner and reading did not fail,
  and the lists it leaves are not both empty on a line that is to be drawn. Anything else is
  reported: a misspelt setting, a wrong value or a cut-off file never passes in silence.
\<close>

theorem silence_means_understood:
  "problems (parse_config frac data failed default_config) = [] \<longleftrightarrow>
     (let ls = fst (scan_lines data); c = parse_lines frac 0 ls default_config
      in list_all (line_fine frac) ls \<and> \<not> snd (scan_lines data) \<and> \<not> failed \<and> shows_something c)"
proof -
  obtain ls too where s: "scan_lines data = (ls, too)" by (cases "scan_lines data")
  define c where "c = parse_lines frac 0 ls default_config"
  have "problems c = [] \<longleftrightarrow> list_all (line_fine frac) ls"
    using complains_lines[of frac ls default_config 0]
    by (auto simp: complains_def problems_default simp flip: c_def)
  then show ?thesis
    by (auto simp: parse_config_def s Let_def hide_blank_def report_def shows_something_def simp flip: c_def)
qed

section \<open>The example file says what the defaults are\<close>

lemma split_on_free: "sep \<notin> set l \<Longrightarrow> split_on sep (l @ sep # r) = l # split_on sep r"
  by (induction l) auto

lemma split_on_unlines: "\<forall>l \<in> set ls. 0x0a \<notin> set l \<Longrightarrow> split_on 0x0a (unlines ls) = ls @ [[]]"
  by (induction ls) (simp_all add: unlines_def split_on_free)

lemma raw_lines_unlines: "\<forall>l \<in> set ls. 0x0a \<notin> set l \<Longrightarrow> raw_lines (unlines ls) = ls"
  by (simp add: raw_lines_def split_on_unlines)

lemma trim_front_keeps:
  assumes "\<forall>p \<in> set ps. c \<notin> set p"
  shows "\<exists>y'. trim_front k ps (y @ [c]) = y' @ [c]"
proof (induction k arbitrary: y)
  case (Suc k)
  have "leading ps (y @ [c]) \<le> length y"
  proof (cases "find (\<lambda>p. starts_with p (y @ [c])) ps")
    case (Some p)
    then have p: "p \<in> set ps" "take (length p) (y @ [c]) = p"
      by (auto simp: find_Some_iff starts_with_def)
    have "\<not> length p > length y"
    proof
      assume "length p > length y"
      then have "p = y @ [c]" using p(2) by simp
      then show False using assms p(1) by auto
    qed
    then show ?thesis using Some by (simp add: leading_def)
  qed (simp add: leading_def)
  then show ?case using Suc.IH by auto
qed simp

lemma trim_space_hash: "\<exists>x'. trim_space (0x23 # x) = 0x23 # x'"
proof -
  have "leading white_space (0x23 # x) = 0" by (rule leading_graphic) simp_all
  then have a: "trim_front (length (0x23 # x)) white_space (0x23 # x) = 0x23 # x" by (rule trim_front_stop)
  have "\<forall>p \<in> set (map rev white_space). 0x23 \<notin> set p" by (simp add: white_space_def)
  then obtain y where "trim_front (length (0x23 # x)) (map rev white_space) (rev x @ [0x23]) = y @ [0x23]"
    using trim_front_keeps by blast
  then have "trim_space (0x23 # x) = 0x23 # rev y"
    unfolding trim_space_def Let_def a by simp
  then show ?thesis by blast
qed

lemma comment_line: "parse_line frac n (0x23 # x) c = c"
proof -
  obtain x' where "trim_space (0x23 # x) = 0x23 # x'" using trim_space_hash by blast
  then show ?thesis by (simp add: parse_line_def starts_with_def)
qed

lemma empty_line: "parse_line frac n [] c = c"
  by (simp add: parse_line_def trim_space_def)

lemma drop_cr_hash: "\<exists>x'. drop_cr (0x23 # x) = 0x23 # x' \<and> length x' \<le> length x"
  by (auto simp: drop_cr_def)

definition skipped_line :: "bytes \<Rightarrow> bool" where
  "skipped_line l \<longleftrightarrow> l = [] \<or> hd l = 0x23"

lemma parse_lines_skip:
  "parse_lines frac n ls c = c" if "list_all skipped_line ls"
  using that
proof (induction ls arbitrary: n)
  case (Cons l ls)
  then have "parse_line frac (Suc n) l c = c"
    by (cases l) (auto simp: skipped_line_def comment_line empty_line)
  then show ?case using Cons by simp
qed simp

lemma parse_lines_append:
  "parse_lines frac n (xs @ ys) c = parse_lines frac (n + length xs) ys (parse_lines frac n xs c)"
  by (induction xs arbitrary: n c) simp_all

definition ends_graphic :: "bytes \<Rightarrow> bool" where
  "ends_graphic s \<longleftrightarrow> s \<noteq> [] \<and> 0x21 \<le> hd s \<and> hd s \<le> 0x7e \<and> 0x21 \<le> last s \<and> last s \<le> 0x7e"

lemma trim_space_graphic: "ends_graphic s \<Longrightarrow> trim_space s = s"
  by (simp add: ends_graphic_def trim_space_id)

lemma cut_at_free: "sep \<notin> set k \<Longrightarrow> cut_at sep (k @ sep # v) = Some (k, v)"
  by (induction k) auto

text \<open>A line that is a setting and nothing else.\<close>

lemma setting_line:
  assumes "ends_graphic k" "ends_graphic v" "0x3d \<notin> set k" "hd k \<noteq> 0x23" "unquote v = u"
  shows "parse_line frac n (k @ 0x3d # v) c =
     (if k = bstr ''where'' then set_where n u c
      else if k = bstr ''prefix'' then set_key n u c
      else if k = bstr ''left'' then set_left n u c
      else if k = bstr ''right'' then set_right n u c
      else if k = bstr ''every'' then set_every frac n u c
      else report (Unknown_setting n k) c)"
proof -
  have line: "ends_graphic (k @ 0x3d # v)"
    using assms(1,2) by (auto simp: ends_graphic_def)
  have "\<not> starts_with [0x23] (k @ 0x3d # v)"
    using assms(1,4) by (cases k) (auto simp: starts_with_def ends_graphic_def)
  then show ?thesis
    using assms by (simp add: parse_line_def Let_def trim_space_graphic line cut_at_free del: bstr_Cons)
qed

lemma where_example: "parse_line frac n (bstr ''where='' @ placement_name Bottom) default_config = default_config"
  using setting_line[of "bstr ''where''" "bstr ''bottom''" "bstr ''bottom''" frac n default_config]
  by (simp add: ends_graphic_def unquote_def placement_name_def set_where_def placement_of_def default_config_def)

lemma every_example: "parse_line frac n (bstr ''every='' @ bstr ''2s'') default_config = default_config"
  using setting_line[of "bstr ''every''" "bstr ''2s''" "bstr ''2s''" frac n default_config]
  by (simp add: ends_graphic_def unquote_def set_every_def default_config_def parse_duration_def duration_part_def
      is_digit_def unit_char_def duration_unit_def duration_limit_def min_every_def default_every_def)

lemma left_example:
  "parse_line frac n (bstr ''left='' @ [0x22] @ join_with [0x20] default_left @ [0x22]) default_config = default_config"
proof -
  have f: "go_fields (join_with [0x20] default_left) = default_left" by code_simp
  have k: "list_all (\<lambda>n. \<not> starts_with [0x23] n \<and> known_widget n) default_left" by code_simp
  have q: "unquote ([0x22] @ join_with [0x20] default_left @ [0x22]) = join_with [0x20] default_left"
    by (simp add: unquote_def default_left_def)
  have "set_left n (join_with [0x20] default_left) default_config = default_config"
    using k by (simp add: set_left_def widget_fields_spec f default_config_def list_all_iff filter_empty_conv filter_id_conv)
  then show ?thesis
    using setting_line[of "bstr ''left''" "[0x22] @ join_with [0x20] default_left @ [0x22]" _ frac n default_config, OF _ _ _ _ q]
    by (simp add: ends_graphic_def)
qed

lemma right_example:
  "parse_line frac n (bstr ''right='' @ [0x22] @ join_with [0x20] default_right @ [0x22]) default_config = default_config"
proof -
  have f: "go_fields (join_with [0x20] default_right) = default_right" by code_simp
  have k: "list_all (\<lambda>n. \<not> starts_with [0x23] n \<and> known_widget n) default_right" by code_simp
  have q: "unquote ([0x22] @ join_with [0x20] default_right @ [0x22]) = join_with [0x20] default_right"
    by (simp add: unquote_def default_right_def)
  have "set_right n (join_with [0x20] default_right) default_config = default_config"
    using k by (simp add: set_right_def widget_fields_spec f default_config_def list_all_iff filter_empty_conv filter_id_conv)
  then show ?thesis
    using setting_line[of "bstr ''right''" "[0x22] @ join_with [0x20] default_right @ [0x22]" _ frac n default_config, OF _ _ _ _ q]
    by (simp add: ends_graphic_def)
qed

definition plain_line :: "bytes \<Rightarrow> bool" where
  "plain_line l \<longleftrightarrow> list_all (\<lambda>c. c \<noteq> 0x0a \<and> c \<noteq> 0x0d) l \<and> fits_scanner l"

lemma plain_line_drop_cr: "plain_line l \<Longrightarrow> drop_cr l = l"
  using last_in_set[of l] by (auto simp: plain_line_def drop_cr_def list_all_iff)

lemma example_body_plain: "list_all plain_line example_body"
  unfolding example_body_def list_all_append
  by (intro conjI) code_simp+

lemma example_skipped:
  "list_all skipped_line example_about_where" "list_all skipped_line example_about_prefix"
  "list_all skipped_line example_about_widgets" "list_all skipped_line example_about_every"
  by code_simp+

lemma example_body_reads: "parse_lines frac n example_body default_config = default_config"
  unfolding example_body_def
  by (simp add: parse_lines_append parse_lines_skip example_skipped where_example left_example right_example
      every_example del: bstr_Cons append_Cons append_Nil)

text \<open>
  C35. The file \<open>gozellij stats -example\<close> prints describes the program: read back, whatever the path
  named in its first line (short of a line break in it), it gives exactly the built-in settings and no complaint.
\<close>

theorem example_is_the_defaults:
  assumes "0x0a \<notin> set path" "length path < 60000"
  shows "load_config frac path (Opened (example_file path) False) = default_config"
proof (cases "path = []")
  case False
  let ?first = "bstr ''# '' @ path"
  have free: "\<forall>l \<in> set (?first # example_body). 0x0a \<notin> set l"
    using assms(1) example_body_plain by (auto simp: plain_line_def list_all_iff)
  have fits: "list_all fits_scanner (?first # example_body)"
    using assms(2) example_body_plain by (auto simp: plain_line_def list_all_iff fits_scanner_def)
  have "scan_lines (example_file path) = (map drop_cr (?first # example_body), False)"
  proof -
    have "takeWhile fits_scanner (?first # example_body) = ?first # example_body"
      using fits by (simp only: takeWhile_eq_all_conv list_all_iff)
    then show ?thesis
      using fits raw_lines_unlines[OF free] by (simp only: scan_lines_def example_file_def Let_def simp_thms)
  qed
  moreover have "map drop_cr example_body = example_body"
    using example_body_plain by (simp add: list_all_iff plain_line_drop_cr map_idI)
  moreover have "parse_line frac 1 (drop_cr ?first) default_config = default_config"
    using drop_cr_hash[of "0x20 # path"] comment_line by fastforce
  moreover have "hide_blank default_config = default_config"
    by (simp add: hide_blank_def default_config_def default_left_def)
  ultimately show ?thesis
    using False example_body_reads[of frac 1]
    by (simp add: load_config_def parse_config_def Let_def del: bstr_Cons)
qed (simp add: load_config_def)

theorem example_is_the_defaults_witness:
  "load_config (\<lambda>_ _ _. 0) (bstr ''/s'') (Opened (example_file (bstr ''/s'')) False) = default_config"
  by (rule example_is_the_defaults) simp_all

end
