(* ===== verification/StatusLine.thy ===== *)
theory StatusLine
  imports Cells Settings
begin

text \<open>
  The status line: \<open>src/internal/status/status.go\<close>. What the machine says of itself (the files under
  \<open>/proc\<close>, the file system, the clock) is the record \<open>host\<close>; each widget is a function of it and
  of the context, and \<open>render\<close> lays one line out. Texts of the clock and of a frequency, whose
  formatting is the library's, come formatted.
\<close>

section \<open>Numbers a person reads\<close>

text \<open>Dividing and rounding a half to the even side.\<close>

definition half_even :: "int \<Rightarrow> int \<Rightarrow> int" where
  "half_even n d =
     (let q = n div d; r = n mod d
      in if 2 * r < d then q else if 2 * r > d then q + 1 else if even q then q else q + 1)"

text \<open>\<open>float64(n)\<close>: exact below 2^53, otherwise rounded to 53 bits.\<close>

function ulp_of :: "int \<Rightarrow> int" where
  "ulp_of n = (if n < 9007199254740992 then 1 else 2 * ulp_of (n div 2))"
  by pat_completeness auto
termination by (relation "measure nat") auto

declare ulp_of.simps [simp del]

definition float_of_int :: "int \<Rightarrow> int" where
  "float_of_int n = half_even n (ulp_of n) * ulp_of n"

text \<open>\<open>fmt.Sprintf("%.1f", m / scale)\<close>, which rounds the exact value.\<close>

definition tenths :: "int \<Rightarrow> int \<Rightarrow> int" where
  "tenths m scale = half_even (10 * m) scale"

definition show_tenths :: "int \<Rightarrow> bytes" where
  "show_tenths t = itoa (t div 10) @ [0x2e] @ itoa (t mod 10)"

text \<open>The double nearest to 1023.95 is 4503379725044941 / 2^42.\<close>

definition below_unit :: "int \<Rightarrow> int \<Rightarrow> bool" where
  "below_unit m scale \<longleftrightarrow> m * 4398046511104 < 4503379725044941 * scale"

fun bytes_unit :: "bytes \<Rightarrow> int \<Rightarrow> int \<Rightarrow> int \<times> byte" where
  "bytes_unit [] m scale = (tenths m scale, 0x54)"
| "bytes_unit (u # us) m scale =
     (if below_unit m scale then (tenths m scale, u) else bytes_unit us m (scale * 1024))"

definition bytes_text :: "int \<Rightarrow> bytes" where
  "bytes_text n =
     (if n \<le> 0 then [0x30]
      else if n < 1024 then itoa n @ [0x42]
      else (case bytes_unit [0x4b, 0x4d, 0x47] (float_of_int n) 1024 of
              (t, u) \<Rightarrow> show_tenths t @ [u]))"

text \<open>An uptime of whole seconds.\<close>

definition duration_text :: "nat \<Rightarrow> bytes" where
  "duration_text secs =
     (let h = secs div 3600; days = h div 24; hours = h mod 24; mins = secs div 60 mod 60
      in if days > 0 then nat_digits days @ [0x64] @ nat_digits hours @ [0x68]
         else if hours > 0 then nat_digits hours @ [0x68] @ nat_digits mins @ [0x6d]
         else nat_digits mins @ [0x6d])"

section \<open>What the widgets know\<close>

record line_context =
  cx_width :: int
  cx_service :: bytes
  cx_position :: int
  cx_of :: int
  cx_names :: "bytes list"
  cx_running :: int
  cx_services :: int
  cx_viewers :: int
  cx_log_bytes :: int
  cx_state_dir :: bytes
  cx_prefix :: byte

record host =
  h_uptime :: "nat option" \<comment> \<open>whole seconds of \<open>/proc/uptime\<close>, when it could be read and parsed\<close>
  h_loadavg :: "bytes option"
  h_num_cpu :: int
  h_freq :: "bytes option" \<comment> \<open>the frequency in GHz to one decimal, when it is known and positive\<close>
  h_meminfo :: "bytes option"
  h_statfs :: "bytes \<Rightarrow> (int \<times> int \<times> int) option" \<comment> \<open>\<open>Bavail\<close>, \<open>Bsize\<close>, \<open>Blocks\<close>\<close>
  h_date :: bytes
  h_clock :: bytes
  h_os_release :: "bytes option"
  h_user :: bytes
  h_logname :: bytes
  h_hostname :: "bytes option"

subsection \<open>The fabric's own fields\<close>

definition w_keys :: "line_context \<Rightarrow> bytes" where
  "w_keys c = prefix_label (if cx_prefix c = 0 then default_prefix else cx_prefix c) @ bstr '' ?''"

definition w_session :: "line_context \<Rightarrow> bytes" where
  "w_session c =
     (if cx_service c = [] then []
      else if cx_of c > 1 \<and> cx_position c > 0
        then [0x5b] @ cx_service c @ [0x20] @ itoa (cx_position c) @ [0x2f] @ itoa (cx_of c) @ [0x5d]
      else [0x5b] @ cx_service c @ [0x5d])"

fun index_from :: "int \<Rightarrow> bytes list \<Rightarrow> bytes \<Rightarrow> int" where
  "index_from i [] want = -1"
| "index_from i (n # ns) want = (if n = want then i else index_from (i + 1) ns want)"

definition index_of :: "bytes list \<Rightarrow> bytes \<Rightarrow> int" where
  "index_of names want = index_from 0 names want"

definition ellipsis :: bytes where "ellipsis = [0xe2, 0x80, 0xa6]"

text \<open>One tab: its number, and brackets when it is where you are.\<close>

definition one_tab :: "line_context \<Rightarrow> int \<Rightarrow> bytes" where
  "one_tab c i =
     itoa (i + 1) @ [0x3a]
     @ (let n = cx_names c ! nat i in if n = cx_service c then [0x5b] @ n @ [0x5d] else n)"

definition tab_bounds :: "line_context \<Rightarrow> int \<Rightarrow> int \<times> int" where
  "tab_bounds c around =
     (let n = int (length (cx_names c)); at = index_of (cx_names c) (cx_service c)
      in if at \<ge> 0 \<and> n > 2 * around + 1 then (max (at - around) 0, min (at + around) (n - 1))
         else (0, n - 1))"

definition tab_window :: "line_context \<Rightarrow> int \<Rightarrow> bytes" where
  "tab_window c around =
     (case tab_bounds c around of (lo, hi) \<Rightarrow>
        (if lo > 0 then ellipsis else [])
        @ join_with [0x20] (map (one_tab c) [lo..hi])
        @ (if hi < int (length (cx_names c)) - 1 then ellipsis else []))"

text \<open>Two neighbours a side, then one, then only where you are.\<close>

fun tab_line :: "(int \<Rightarrow> bool) \<Rightarrow> line_context \<Rightarrow> nat \<Rightarrow> bytes" where
  "tab_line mark c around =
     (let line = tab_window c (int around)
      in if cx_width c \<le> 0 \<or> around = 0 \<or> string_width mark line \<le> cx_width c - 12 then line
         else tab_line mark c (around - 1))"

declare tab_line.simps [simp del]

definition w_tabs :: "(int \<Rightarrow> bool) \<Rightarrow> line_context \<Rightarrow> bytes" where
  "w_tabs mark c =
     (if cx_names c = [] then w_session c
      else if length (cx_names c) = 1 then [0x5b] @ hd (cx_names c) @ [0x5d]
      else tab_line mark c 2)"

definition w_services :: "line_context \<Rightarrow> bytes" where
  "w_services c =
     (if cx_services c = 0 then []
      else itoa (cx_running c) @ [0x2f] @ itoa (cx_services c) @ bstr '' up'')"

definition w_viewers :: "line_context \<Rightarrow> bytes" where
  "w_viewers c = (if cx_viewers c \<le> 1 then [] else itoa (cx_viewers c) @ bstr '' viewers'')"

definition w_logs :: "line_context \<Rightarrow> bytes" where
  "w_logs c = (if cx_log_bytes c \<le> 0 then [] else bstr ''logs '' @ bytes_text (cx_log_bytes c))"

subsection \<open>The host's fields\<close>

definition w_uptime :: "host \<Rightarrow> bytes" where
  "w_uptime h = (case h_uptime h of None \<Rightarrow> [] | Some s \<Rightarrow> bstr ''up '' @ duration_text s)"

definition w_load_average :: "host \<Rightarrow> bytes" where
  "w_load_average h =
     (case h_loadavg h of
        None \<Rightarrow> []
      | Some b \<Rightarrow> (let fs = go_fields b in if length fs < 3 then [] else join_with [0x20] (take 3 fs)))"

definition w_cpu_count :: "host \<Rightarrow> bytes" where
  "w_cpu_count h = itoa (h_num_cpu h) @ bstr ''cpu''"

definition w_cpu_freq :: "host \<Rightarrow> bytes" where
  "w_cpu_freq h = (case h_freq h of None \<Rightarrow> [] | Some s \<Rightarrow> s @ bstr ''GHz'')"

text \<open>The totals of \<open>/proc/meminfo\<close>, in bytes; a later line of the same name wins.\<close>

fun meminfo_totals :: "bytes list \<Rightarrow> int \<times> int \<Rightarrow> int \<times> int" where
  "meminfo_totals [] acc = acc"
| "meminfo_totals (l # ls) (tot, avail) =
     (let fs = go_fields l
      in if length fs < 2 \<or> \<not> snd (atoi (fs ! 1)) then meminfo_totals ls (tot, avail)
         else (let v = wrap64 (fst (atoi (fs ! 1)) * 1024)
               in if hd fs = bstr ''MemTotal:'' then meminfo_totals ls (v, avail)
                  else if hd fs = bstr ''MemAvailable:'' then meminfo_totals ls (tot, v)
                  else meminfo_totals ls (tot, avail)))"

definition w_memory :: "host \<Rightarrow> bytes" where
  "w_memory h =
     (case h_meminfo h of
        None \<Rightarrow> []
      | Some b \<Rightarrow>
          (case meminfo_totals (split_on 0x0a b) (0, 0) of (tot, avail) \<Rightarrow>
             if tot \<le> 0 then []
             else bytes_text (wrap64 (tot - avail)) @ [0x2f] @ bytes_text tot))"

definition w_disk :: "host \<Rightarrow> line_context \<Rightarrow> bytes" where
  "w_disk h c =
     (case h_statfs h (if cx_state_dir c = [] then [0x2f] else cx_state_dir c) of
        None \<Rightarrow> []
      | Some (bavail, bsize, blocks) \<Rightarrow>
          if wrap64 (blocks * bsize) \<le> 0 then []
          else bytes_text (wrap64 (bavail * bsize)) @ bstr '' free'')"

fun pretty_name :: "bytes list \<Rightarrow> bytes" where
  "pretty_name [] = []"
| "pretty_name (l # ls) =
     (if starts_with (bstr ''PRETTY_NAME='') l
      then rev (dropWhile (\<lambda>c. c = 0x22) (rev (dropWhile (\<lambda>c. c = 0x22) (drop 12 l))))
      else pretty_name ls)"

definition w_release :: "host \<Rightarrow> bytes" where
  "w_release h = (case h_os_release h of None \<Rightarrow> [] | Some b \<Rightarrow> pretty_name (split_on 0x0a b))"

definition w_whoami :: "host \<Rightarrow> bytes" where
  "w_whoami h = (if h_user h \<noteq> [] then h_user h else h_logname h)"

definition w_hostname :: "host \<Rightarrow> bytes" where
  "w_hostname h =
     (case h_hostname h of
        None \<Rightarrow> []
      | Some n \<Rightarrow> (case cut_at 0x2e n of Some (b, _) \<Rightarrow> if b \<noteq> [] then b else n | None \<Rightarrow> n))"

subsection \<open>The registry\<close>

definition widget :: "(int \<Rightarrow> bool) \<Rightarrow> host \<Rightarrow> line_context \<Rightarrow> bytes \<Rightarrow> bytes option" where
  "widget mark h c n =
     map_of
       [(bstr ''keys'', w_keys c), (bstr ''tabs'', w_tabs mark c), (bstr ''session'', w_session c),
        (bstr ''services'', w_services c), (bstr ''viewers'', w_viewers c), (bstr ''logs'', w_logs c),
        (bstr ''uptime'', w_uptime h), (bstr ''load_average'', w_load_average h),
        (bstr ''cpu_count'', w_cpu_count h), (bstr ''cpu_freq'', w_cpu_freq h),
        (bstr ''memory'', w_memory h), (bstr ''disk'', w_disk h c), (bstr ''date'', h_date h),
        (bstr ''time'', h_clock h), (bstr ''release'', w_release h), (bstr ''whoami'', w_whoami h),
        (bstr ''hostname'', w_hostname h)] n"

section \<open>The line\<close>

text \<open>The fields of some names that have something to say, each with its name.\<close>

definition said :: "(int \<Rightarrow> bool) \<Rightarrow> host \<Rightarrow> line_context \<Rightarrow> bytes list \<Rightarrow> (bytes \<times> bytes) list" where
  "said mark h c names =
     concat (map (\<lambda>n. case widget mark h c n of
        None \<Rightarrow> [] | Some s \<Rightarrow> if s = [] then [] else [(n, s)]) names)"

definition render_each :: "(int \<Rightarrow> bool) \<Rightarrow> host \<Rightarrow> line_context \<Rightarrow> bytes list \<Rightarrow> bytes list" where
  "render_each mark h c names = map snd (said mark h c names)"

definition joined :: "(int \<Rightarrow> bool) \<Rightarrow> host \<Rightarrow> line_context \<Rightarrow> bytes list \<Rightarrow> bytes" where
  "joined mark h c names = join_with [0x20] (render_each mark h c names)"

text \<open>The right-hand fields that are left once the line fits.\<close>

fun fitting :: "(int \<Rightarrow> bool) \<Rightarrow> int \<Rightarrow> int \<Rightarrow> bytes list \<Rightarrow> bytes list" where
  "fitting mark lw wid [] = []"
| "fitting mark lw wid (r # rs) =
     (if lw + string_width mark (join_with [0x20] (r # rs)) + 1 > wid then fitting mark lw wid rs
      else r # rs)"

definition render :: "(int \<Rightarrow> bool) \<Rightarrow> host \<Rightarrow> line_context \<Rightarrow> bytes list \<Rightarrow> bytes list \<Rightarrow> int \<Rightarrow> bytes" where
  "render mark h c0 left right wid =
     (let c = c0\<lparr>cx_width := wid\<rparr>;
          l = joined mark h c left;
          rendered = render_each mark h c right;
          r = join_with [0x20] rendered
      in if wid \<le> 0 then (if l = [] then r else if r = [] then l else l @ bstr ''  '' @ r)
         else
           (let r' = join_with [0x20] (fitting mark (string_width mark l) wid rendered);
                l' = (if string_width mark l > wid then truncate_to_width mark l wid else l);
                gap = wid - string_width mark l' - string_width mark r'
            in l' @ replicate (nat gap) 0x20 @ r'))"

definition needed :: "(int \<Rightarrow> bool) \<Rightarrow> host \<Rightarrow> line_context \<Rightarrow> bytes list \<Rightarrow> bytes list \<Rightarrow> int" where
  "needed mark h c left right =
     (let l = joined mark h c left; r = joined mark h c right
      in if l = [] \<and> r = [] then 0
         else if l = [] \<or> r = [] then string_width mark l + string_width mark r
         else string_width mark l + 1 + string_width mark r)"

fun losing :: "(int \<Rightarrow> bool) \<Rightarrow> int \<Rightarrow> int \<Rightarrow> (bytes \<times> bytes) list \<Rightarrow> bytes list" where
  "losing mark lw wid [] = []"
| "losing mark lw wid (r # rs) =
     (if lw + string_width mark (join_with [0x20] (map snd (r # rs))) + 1 > wid
      then fst r # losing mark lw wid rs else [])"

definition dropped :: "(int \<Rightarrow> bool) \<Rightarrow> host \<Rightarrow> line_context \<Rightarrow> bytes list \<Rightarrow> bytes list \<Rightarrow> int \<Rightarrow> bytes list" where
  "dropped mark h c left right wid =
     (if wid \<le> 0 then []
      else losing mark (string_width mark (joined mark h c left)) wid (said mark h c right))"

section \<open>Columns of a text put together\<close>

lemma decode_rune_ascii: "c < 0x80 \<Longrightarrow> decode_rune (c # s) = (uint c, 1)"
  by (simp add: decode_rune_def)

text \<open>What decides between a rune and an error, and which bytes the rune is read from.\<close>

definition malformed :: "byte \<Rightarrow> bytes \<Rightarrow> bool" where
  "malformed c s \<longleftrightarrow> (case lead_info c of (sz, lo, hi) \<Rightarrow>
     sz = 1 \<or> Suc (length s) < sz \<or> \<not> (lo \<le> s ! 0 \<and> s ! 0 \<le> hi)
     \<or> (2 < sz \<and> \<not> is_cont (s ! 1)) \<or> (3 < sz \<and> \<not> is_cont (s ! 2)))"

lemma decode_rune_cases:
  assumes "\<not> c < 0x80" "lead_info c = (sz, lo, hi)"
  shows "malformed c s \<Longrightarrow> decode_rune (c # s) = (rune_error, 1)"
    and "\<not> malformed c s \<Longrightarrow> decode_rune (c # s) =
      (if sz = 2 then (uint c - 0xc0) * 64 + (uint (s ! 0) - 0x80)
       else if sz = 3 then (uint c - 0xe0) * 4096 + (uint (s ! 0) - 0x80) * 64 + (uint (s ! 1) - 0x80)
       else (uint c - 0xf0) * 262144 + (uint (s ! 0) - 0x80) * 4096
            + (uint (s ! 1) - 0x80) * 64 + (uint (s ! 2) - 0x80), sz)"
proof -
  have sz: "sz = 1 \<or> sz = 2 \<or> sz = 3 \<or> sz = 4" using lead_info_size[of c] assms(2) by auto
  define b1 where "b1 \<longleftrightarrow> lo \<le> s ! 0 \<and> s ! 0 \<le> hi"
  define b2 where "b2 \<longleftrightarrow> is_cont (s ! 1)"
  define b3 where "b3 \<longleftrightarrow> is_cont (s ! 2)"
  define v2 where "v2 = (uint c - 0xc0) * 64 + (uint (s ! 0) - 0x80)"
  define v3 where "v3 = (uint c - 0xe0) * 4096 + (uint (s ! 0) - 0x80) * 64 + (uint (s ! 1) - 0x80)"
  define v4 where "v4 = (uint c - 0xf0) * 262144 + (uint (s ! 0) - 0x80) * 4096
     + (uint (s ! 1) - 0x80) * 64 + (uint (s ! 2) - 0x80)"
  have nths: "(c # s) ! 1 = s ! 0" "(c # s) ! 2 = s ! 1" "(c # s) ! 3 = s ! 2" "length (c # s) = Suc (length s)"
    by simp_all
  have D: "decode_rune (c # s) =
      (if sz = 1 \<or> Suc (length s) < sz \<or> \<not> b1 then (rune_error, 1) else if sz = 2 then (v2, 2)
       else if \<not> b2 then (rune_error, 1) else if sz = 3 then (v3, 3)
       else if \<not> b3 then (rune_error, 1) else (v4, 4))"
    by (simp only: decode_rune_def list.case assms if_False prod.case nths b1_def b2_def b3_def v2_def v3_def v4_def)
  have M: "malformed c s \<longleftrightarrow>
      sz = 1 \<or> Suc (length s) < sz \<or> \<not> b1 \<or> (2 < sz \<and> \<not> b2) \<or> (3 < sz \<and> \<not> b3)"
    by (simp only: malformed_def assms prod.case b1_def b2_def b3_def)
  show "malformed c s \<Longrightarrow> decode_rune (c # s) = (rune_error, 1)"
    unfolding D M using sz by auto
  show "\<not> malformed c s \<Longrightarrow> decode_rune (c # s) =
      (if sz = 2 then (uint c - 0xc0) * 64 + (uint (s ! 0) - 0x80)
       else if sz = 3 then (uint c - 0xe0) * 4096 + (uint (s ! 0) - 0x80) * 64 + (uint (s ! 1) - 0x80)
       else (uint c - 0xf0) * 262144 + (uint (s ! 0) - 0x80) * 4096
            + (uint (s ! 1) - 0x80) * 64 + (uint (s ! 2) - 0x80), sz)"
    unfolding D M v2_def[symmetric] v3_def[symmetric] v4_def[symmetric] using sz by auto
qed

lemma decode_rune_same:
  assumes "\<not> malformed c s" "lead_info c = (sz, lo, hi)" "sz \<le> Suc n" "take n s = take n s'"
  shows "decode_rune (c # s') = decode_rune (c # s)"
proof (cases "c < 0x80")
  case False
  have sz: "sz \<in> {2, 3, 4}" "sz \<le> Suc (length s)"
    using assms(1,2) lead_info_size[of c] by (auto simp: malformed_def)
  have nth: "s' ! k = s ! k" if "k < sz - 1" for k
    using that sz(2) assms(3,4) nth_take[of k n s] nth_take[of k n s'] by simp
  have "sz - 1 \<le> length s'"
  proof -
    have "sz - 1 \<le> length s \<and> sz - 1 \<le> n" using sz(2) assms(3) by linarith
    then have "sz - 1 \<le> length (take n s)" by simp
    then show ?thesis unfolding assms(4) by simp
  qed
  then have len: "\<not> Suc (length s') < sz" by simp
  have n0: "s' ! 0 = s ! 0" using nth[of 0] sz(1) by auto
  have n1: "2 < sz \<Longrightarrow> s' ! 1 = s ! 1" using nth[of 1] by simp
  have n2: "3 < sz \<Longrightarrow> s' ! 2 = s ! 2" using nth[of 2] by simp
  have "\<not> malformed c s'" using assms(1) len n0 n1 n2 by (simp add: malformed_def assms(2))
  then show ?thesis
    using assms(1) n0 n1 n2 sz(1) by (simp add: decode_rune_cases(2)[OF False assms(2)]) auto
qed (simp add: decode_rune_ascii)

lemma malformed_append:
  assumes "malformed c s" "q = [] \<or> \<not> is_cont (hd q)"
  shows "malformed c (s @ q)"
proof (cases q)
  case (Cons d q')
  obtain sz lo hi where i: "lead_info c = (sz, lo, hi)" by (cases "lead_info c")
  have d: "\<not> is_cont d" "\<not> (lo \<le> d \<and> d \<le> hi)" using assms(2) lead_info_cont[OF i] Cons by auto
  show ?thesis
  proof (cases "Suc (length s) < sz")
    case True
    moreover have "sz \<le> 4" using lead_info_size[of c] i by auto
    ultimately have "length s = 0 \<or> length s = 1 \<or> length s = 2" by linarith
    then show ?thesis using True d by (auto simp: malformed_def i Cons nth_append)
  next
    case False
    moreover have "1 \<le> sz" using lead_info_size[of c] i by simp
    ultimately show ?thesis using assms(1) by (auto simp: malformed_def i nth_append)
  qed
qed (use assms in simp)

lemma decode_rune_append:
  assumes "p \<noteq> []" "q = [] \<or> \<not> is_cont (hd q)"
  shows "decode_rune (p @ q) = decode_rune p"
proof -
  obtain c s where p: "p = c # s" using assms(1) by (cases p) auto
  obtain sz lo hi where i: "lead_info c = (sz, lo, hi)" by (cases "lead_info c")
  show ?thesis
  proof (cases "c < 0x80 \<or> malformed c s")
    case True
    then show ?thesis
      using decode_rune_cases(1)[OF _ i] malformed_append[OF _ assms(2)]
      by (cases "c < 0x80") (simp_all add: p decode_rune_ascii)
  next
    case False
    then have "sz \<le> Suc (length s)" by (auto simp: malformed_def i)
    then show ?thesis using decode_rune_same[OF _ i, of s "length s" "s @ q"] False by (simp add: p)
  qed
qed

lemma decode_rune_take:
  assumes "s \<noteq> []" "snd (decode_rune s) \<le> k"
  shows "decode_rune (take k s) = decode_rune s"
proof -
  obtain c r where s: "s = c # r" using assms(1) by (cases s) auto
  have "0 < k" using decode_rune_size[OF assms(1)] assms(2) by linarith
  then obtain j where j: "k = Suc j" by (cases k) auto
  obtain sz lo hi where i: "lead_info c = (sz, lo, hi)" by (cases "lead_info c")
  consider "c < 0x80" | "\<not> c < 0x80" "malformed c r" | "\<not> c < 0x80" "\<not> malformed c r" by blast
  then show ?thesis
  proof cases
    case 1
    then show ?thesis by (simp add: s j decode_rune_ascii)
  next
    case 2
    have "malformed c (take j r)"
    proof (cases "Suc j < sz")
      case False
      then have "sz \<noteq> 1 \<longrightarrow> take j r ! 0 = r ! 0" "2 < sz \<longrightarrow> take j r ! 1 = r ! 1" "3 < sz \<longrightarrow> take j r ! 2 = r ! 2"
        using lead_info_size[of c] i by (auto intro!: nth_take)
      then show ?thesis using 2(2) by (auto simp: malformed_def i)
    next
      case True
      then have "Suc (length (take j r)) < sz" by simp
      then show ?thesis by (simp only: malformed_def i prod.case) blast
    qed
    then show ?thesis using 2 decode_rune_cases(1)[OF 2(1) i] by (simp add: s j)
  next
    case 3
    then have "sz \<le> Suc j" using assms(2) by (simp add: s j decode_rune_cases(2)[OF 3(1) i])
    then show ?thesis using decode_rune_same[OF 3(2) i, of j "take j r"] by (simp add: s j)
  qed
qed

lemma string_runes_append:
  assumes "q = [] \<or> \<not> is_cont (hd q)"
  shows "string_runes i (p @ q) = string_runes i p @ string_runes (i + length p) q"
proof (induction i p rule: string_runes.induct)
  case (1 i p)
  show ?case
  proof (cases "p = []")
    case False
    have k: "snd (decode_rune p) \<le> length p" using decode_rune_size[OF False] by simp
    have "string_runes i (p @ q) = (i, fst (decode_rune p)) #
        string_runes (i + snd (decode_rune p)) (drop (snd (decode_rune p)) p @ q)"
      using False k by (subst string_runes_nonempty) (simp_all add: decode_rune_append[OF False assms])
    then show ?thesis
      using 1[OF False] k by (simp add: string_runes_nonempty[OF False])
  qed simp
qed

lemma string_width_from: "(\<Sum>(j, r) \<leftarrow> string_runes i s. rune_width mark r) = string_width mark s"
  using string_runes_shift[of 0 i s]
  by (simp add: string_width_def comp_def case_prod_unfold)

lemma string_width_append:
  "q = [] \<or> \<not> is_cont (hd q) \<Longrightarrow> string_width mark (p @ q) = string_width mark p + string_width mark q"
  using string_width_from[of mark "length p" q]
  by (simp add: string_runes_append string_width_def)

lemma string_width_Nil [simp]: "string_width mark [] = 0"
  by (simp add: string_width_def)

lemma string_width_ascii: "c < 0x80 \<Longrightarrow> string_width mark (c # s) = rune_width mark (uint c) + string_width mark s"
  using string_width_from[of mark "Suc 0" s]
  by (simp add: string_width_def string_runes_nonempty decode_rune_ascii)

lemma string_width_nonneg [go_bounds]: "0 \<le> string_width mark s"
  unfolding string_width_def by (rule sum_list_nonneg) (auto simp: rune_width_range)

lemma string_width_spaces:
  assumes "\<not> mark 0x20"
  shows "string_width mark (replicate n 0x20 @ s) = int n + string_width mark s"
proof (induction n)
  case (Suc n)
  have "rune_width mark (uint (0x20 :: byte)) = 1" using assms by (simp add: rune_width_def is_wide_def wide_ranges_def)
  then show ?case using Suc by (simp add: string_width_ascii)
qed simp

lemma string_runes_take:
  assumes "string_runes k s = pre @ (k + i, r) # post"
  shows "string_runes k (take i s) = pre"
  using assms
proof (induction pre arbitrary: k s i)
  case Nil
  then have "s \<noteq> []" by (cases s) auto
  then have "i = 0" using Nil by (simp add: string_runes_nonempty)
  then show ?case by simp
next
  case (Cons x pre)
  then have s: "s \<noteq> []" by (cases s) auto
  let ?n = "snd (decode_rune s)"
  have x: "x = (k, fst (decode_rune s))" and rest: "string_runes (k + ?n) (drop ?n s) = pre @ (k + i, r) # post"
    using Cons.prems by (simp_all add: string_runes_nonempty[OF s])
  have i: "?n \<le> i" using string_runes_bound[of "k + i" r "k + ?n" "drop ?n s"] rest by simp
  have n: "1 \<le> ?n" using decode_rune_size[OF s] by simp
  have ne: "take i s \<noteq> []" using s i n by auto
  have "string_runes (k + ?n) (take (i - ?n) (drop ?n s)) = pre"
    by (rule Cons.IH) (use rest i in simp)
  then show ?case
    using decode_rune_take[OF s i] by (simp add: string_runes_nonempty[OF ne] x drop_take)
qed

lemma cut_width_Some:
  "cut_width mark w u rs = Some i \<Longrightarrow> u \<le> w \<Longrightarrow>
     \<exists>pre r post. rs = pre @ (i, r) # post \<and> u + (\<Sum>(j, r) \<leftarrow> pre. rune_width mark r) \<le> w"
proof (induction mark w u rs rule: cut_width.induct)
  case (2 mark w u j r rs)
  show ?case
  proof (cases "u + rune_width mark r > w")
    case True
    then have "(j, r) # rs = [] @ (i, r) # rs" using 2 by simp
    then show ?thesis using 2 by fastforce
  next
    case False
    then obtain pre r' post where "rs = pre @ (i, r') # post"
      "u + rune_width mark r + (\<Sum>(j, r) \<leftarrow> pre. rune_width mark r) \<le> w"
      using 2 by (auto simp: Let_def)
    then have "(j, r) # rs = ((j, r) # pre) @ (i, r') # post"
      "u + (\<Sum>(j, r) \<leftarrow> (j, r) # pre. rune_width mark r) \<le> w" by simp_all
    then show ?thesis by blast
  qed
qed simp

lemma truncated_width:
  assumes "0 < w" "w < string_width mark s"
  shows "string_width mark (truncate_to_width mark s w) \<le> w"
proof (cases "cut_width mark w 0 (string_runes 0 s)")
  case None
  have "u \<le> w \<Longrightarrow> cut_width mark w u rs = None \<Longrightarrow> u + (\<Sum>(j, r) \<leftarrow> rs. rune_width mark r) \<le> w" for u rs
    by (induction mark w u rs rule: cut_width.induct) (auto simp: Let_def split: if_split_asm)
  from this[of 0, OF _ None] show ?thesis using assms by (simp add: string_width_def)
next
  case (Some i)
  obtain pre r post where p: "string_runes 0 s = pre @ (i, r) # post" "(\<Sum>(j, r) \<leftarrow> pre. rune_width mark r) \<le> w"
    using cut_width_Some[OF Some] assms(1) by auto
  have "string_runes 0 (take i s) = pre" using string_runes_take[of 0 s pre i] p(1) by simp
  then show ?thesis using p(2) assms(1) Some by (simp add: truncate_to_width_def string_width_def)
qed

section \<open>The line fits its row exactly\<close>

abbreviation fits :: "(int \<Rightarrow> bool) \<Rightarrow> int \<Rightarrow> int \<Rightarrow> bytes list \<Rightarrow> bool" where
  "fits mark lw wid rs \<equiv> lw + string_width mark (join_with [0x20] rs) + 1 \<le> wid"

text \<open>As many right-hand fields as must go are dropped from the left end, and no more.\<close>

lemma fitting_spec:
  "\<exists>k \<le> length rs. fitting mark lw wid rs = drop k rs \<and> (\<forall>j < k. \<not> fits mark lw wid (drop j rs))
     \<and> (k < length rs \<longrightarrow> fits mark lw wid (drop k rs))"
proof (induction mark lw wid rs rule: fitting.induct)
  case (2 mark lw wid r rs)
  show ?case
  proof (cases "fits mark lw wid (r # rs)")
    case True
    then show ?thesis by (intro exI[of _ 0]) simp
  next
    case False
    then obtain k where k: "k \<le> length rs" "fitting mark lw wid rs = drop k rs"
      "\<forall>j < k. \<not> fits mark lw wid (drop j rs)" "k < length rs \<longrightarrow> fits mark lw wid (drop k rs)"
      using 2 by auto
    have "\<forall>j < Suc k. \<not> fits mark lw wid (drop j (r # rs))"
      using k(3) False by (auto simp: less_Suc_eq_0_disj)
    then show ?thesis using k False by (intro exI[of _ "Suc k"]) auto
  qed
qed simp

lemma fitting_fits: "fitting mark lw wid rs = [] \<or> fits mark lw wid (fitting mark lw wid rs)"
  using fitting_spec[of rs mark lw wid] by auto

lemma render_width:
  assumes "0 < wid" "\<not> mark 0x20"
  shows "string_width mark (render mark h c left right wid) = wid"
proof -
  define c' where "c' = c\<lparr>cx_width := wid\<rparr>"
  define l where "l = joined mark h c' left"
  define fs where "fs = fitting mark (string_width mark l) wid (render_each mark h c' right)"
  define r where "r = join_with [0x20] fs"
  define l' where "l' = (if string_width mark l > wid then truncate_to_width mark l wid else l)"
  define gap where "gap = wid - string_width mark l' - string_width mark r"
  have R: "render mark h c left right wid = l' @ replicate (nat gap) 0x20 @ r"
    using assms(1) unfolding render_def Let_def gap_def r_def l'_def fs_def l_def c'_def by simp
  have l': "string_width mark l' \<le> wid" using truncated_width[OF assms(1)] by (auto simp: l'_def)
  have fs: "fs = [] \<or> string_width mark l + string_width mark r + 1 \<le> wid"
    using fitting_fits by (simp add: fs_def r_def)
  have gap: "(r = [] \<and> 0 \<le> gap) \<or> 0 < gap"
  proof (cases "fs = []")
    case True
    then show ?thesis using l' by (simp add: r_def gap_def)
  next
    case False
    then have w: "string_width mark l + string_width mark r + 1 \<le> wid" using fs by blast
    then have "l' = l" using string_width_nonneg[of mark r] by (simp add: l'_def)
    then show ?thesis using w by (simp add: gap_def)
  qed
  have "string_width mark (replicate (nat gap) 0x20 @ r) = int (nat gap) + string_width mark r"
    by (rule string_width_spaces[where mark = mark, OF assms(2)])
  moreover have "string_width mark (l' @ replicate (nat gap) 0x20 @ r)
      = string_width mark l' + string_width mark (replicate (nat gap) 0x20 @ r)"
  proof (rule string_width_append)
    show "replicate (nat gap) 0x20 @ r = [] \<or> \<not> is_cont (hd (replicate (nat gap) 0x20 @ r))"
      using gap by (cases "nat gap") (auto simp: is_cont_def)
  qed
  ultimately show ?thesis using gap by (auto simp: R gap_def)
qed

text \<open>
  C40. A status line for a terminal of some width takes exactly that many columns, whatever the widgets
  say, whatever bytes a host name or a service name holds and however little room there is.
\<close>

theorem line_fills_its_row:
  assumes "0 < wid" "\<not> mark 0x20"
  shows "string_width mark (render mark h c left right wid) = wid"
  using assms by (rule render_width)

definition quiet_host :: host where
  "quiet_host = \<lparr>h_uptime = None, h_loadavg = Some (bstr ''0.31 0.28 0.20 1/200 7''), h_num_cpu = 4, h_freq = None,
     h_meminfo = None, h_statfs = (\<lambda>_. None), h_date = bstr ''2026-11-19'', h_clock = bstr ''15:04'',
     h_os_release = None, h_user = bstr ''me'', h_logname = [], h_hostname = Some (bstr ''box.example'')\<rparr>"

definition in_shell :: line_context where
  "in_shell = \<lparr>cx_width = 0, cx_service = bstr ''shell'', cx_position = 1, cx_of = 2,
     cx_names = [bstr ''shell'', bstr ''web''], cx_running = 2, cx_services = 2, cx_viewers = 1,
     cx_log_bytes = 0, cx_state_dir = [], cx_prefix = 0\<rparr>"

theorem line_fills_its_row_witness:
  "string_width (\<lambda>_. False) (render (\<lambda>_. False) quiet_host in_shell [bstr ''tabs''] [bstr ''hostname'', bstr ''time''] 30) = 30"
  by (rule line_fills_its_row) simp_all

subsection \<open>Which fields go\<close>

lemma losing_fitting:
  "fitting mark lw wid (map snd ps) = map snd (drop (length (losing mark lw wid ps)) ps)"
  by (induction mark lw wid ps rule: losing.induct) simp_all

lemma losing_take: "losing mark lw wid ps = map fst (take (length (losing mark lw wid ps)) ps)"
  by (induction mark lw wid ps rule: losing.induct) simp_all

lemma losing_only_must:
  "j < length (losing mark lw wid ps) \<Longrightarrow> \<not> fits mark lw wid (map snd (drop j ps))"
proof (induction mark lw wid ps arbitrary: j rule: losing.induct)
  case (2 mark lw wid r rs)
  then show ?case by (cases j) (auto split: if_split_asm)
qed simp

lemma render_shape:
  assumes "0 < wid"
  shows "\<exists>l gap. render mark h c left right wid = l @ replicate gap 0x20 @ join_with [0x20]
     (fitting mark (string_width mark (joined mark h (c\<lparr>cx_width := wid\<rparr>) left)) wid
        (render_each mark h (c\<lparr>cx_width := wid\<rparr>) right))"
  unfolding render_def Let_def using assms by auto

text \<open>
  C37. What \<open>Dropped\<close> names is what the line loses, when it is asked about the width the line is drawn
  for: the line ends in the fields of exactly the remaining names, in order, and the named ones are the
  leftmost of those with something to say, none of them more than has to go.
\<close>

theorem dropped_is_what_goes:
  assumes "0 < wid" "cx_width c = wid"
  shows "let ps = said mark h c right; lost = dropped mark h c left right wid; k = length lost;
             lw = string_width mark (joined mark h c left)
         in lost = map fst (take k ps)
            \<and> (\<exists>l gap. render mark h c left right wid = l @ replicate gap 0x20 @ join_with [0x20] (map snd (drop k ps)))
            \<and> list_all (\<lambda>j. \<not> fits mark lw wid (map snd (drop j ps))) [0..<k]"
proof -
  define lw where "lw = string_width mark (joined mark h c left)"
  define ps where "ps = said mark h c right"
  have c: "c\<lparr>cx_width := wid\<rparr> = c" using assms(2) by simp
  have lost: "dropped mark h c left right wid = losing mark lw wid ps"
    using assms(1) by (simp add: dropped_def lw_def ps_def)
  have f: "fitting mark lw wid (render_each mark h c right) = map snd (drop (length (losing mark lw wid ps)) ps)"
    using losing_fitting[of mark lw wid ps] by (simp add: render_each_def ps_def)
  have "list_all (\<lambda>j. \<not> fits mark lw wid (map snd (drop j ps))) [0..<length (losing mark lw wid ps)]"
    using losing_only_must[of _ mark lw wid ps] unfolding list_all_iff set_upt by (meson atLeastLessThan_iff)
  moreover obtain l gap where "render mark h c left right wid = l @ replicate gap 0x20 @ join_with [0x20]
      (map snd (drop (length (losing mark lw wid ps)) ps))"
    using render_shape[OF assms(1), of mark h c left right] unfolding c lw_def[symmetric] f by blast
  ultimately show ?thesis
    unfolding Let_def lost lw_def[symmetric] ps_def[symmetric] using losing_take by blast
qed

theorem dropped_is_what_goes_witness:
  "let c = in_shell\<lparr>cx_width := 18\<rparr>
   in dropped (\<lambda>_. False) quiet_host c [bstr ''tabs''] [bstr ''hostname'', bstr ''time''] 18 = [bstr ''hostname'']
      \<and> (\<exists>l gap. render (\<lambda>_. False) quiet_host c [bstr ''tabs''] [bstr ''hostname'', bstr ''time''] 18
             = l @ replicate gap 0x20 @ bstr ''15:04'')"
proof -
  let ?c = "in_shell\<lparr>cx_width := 18\<rparr>"
  have d: "dropped (\<lambda>_. False) quiet_host ?c [bstr ''tabs''] [bstr ''hostname'', bstr ''time''] 18 = [bstr ''hostname'']"
    by code_simp
  have s: "said (\<lambda>_. False) quiet_host ?c [bstr ''hostname'', bstr ''time'']
      = [(bstr ''hostname'', bstr ''box''), (bstr ''time'', bstr ''15:04'')]"
    by code_simp
  show ?thesis
    using dropped_is_what_goes[of 18 ?c "\<lambda>_. False" quiet_host "[bstr ''hostname'', bstr ''time'']" "[bstr ''tabs'']"] d s
    by (simp add: Let_def del: bstr_Cons)
qed

lemma said_nonempty: "p \<in> set (said mark h c names) \<Longrightarrow> snd p \<noteq> []"
  by (auto simp: said_def split: option.split_asm if_split_asm)

lemma join_with_nonempty: "xs \<noteq> [] \<Longrightarrow> hd xs \<noteq> [] \<Longrightarrow> join_with sep xs \<noteq> []"
  by (induction sep xs rule: join_with.induct) simp_all

text \<open>When the whole line fits, nothing is dropped - unless the left half is empty.\<close>

lemma needed_fits:
  assumes "needed mark h c left right \<le> wid" "joined mark h c left \<noteq> []"
  shows "dropped mark h c left right wid = []"
proof (cases "said mark h c right")
  case (Cons p ps)
  have "joined mark h c right = join_with [0x20] (map snd (p # ps))"
    using Cons by (simp add: joined_def render_each_def)
  moreover have "joined mark h c right \<noteq> []"
    using said_nonempty[of p mark h c right] Cons join_with_nonempty[of "map snd (p # ps)" "[0x20]"]
    by (simp add: joined_def render_each_def)
  ultimately show ?thesis
    using assms Cons string_width_nonneg[of mark "joined mark h c left"] string_width_nonneg[of mark "joined mark h c right"]
    by (auto simp: needed_def dropped_def Let_def split: if_split_asm)
qed (simp add: dropped_def)

text \<open>With an empty left half, a line of exactly the needed width loses a field.\<close>

lemma needed_is_one_short:
  "needed (\<lambda>_. False) quiet_host in_shell [] [bstr ''time''] = 5
   \<and> dropped (\<lambda>_. False) quiet_host in_shell [] [bstr ''time''] 5 = [bstr ''time'']"
  by code_simp

text \<open>
  \<open>gozellij doctor\<close> asks \<open>Dropped\<close> with a context that has no width: the tabs are then counted at
  their longest, and a field that is on the line is reported as lost.
\<close>

definition many_tabs :: line_context where
  "many_tabs = in_shell\<lparr>cx_names := [bstr ''alpha'', bstr ''beta'', bstr ''gamma'', bstr ''shell'', bstr ''web'']\<rparr>"

lemma doctor_counts_wrong:
  "dropped (\<lambda>_. False) quiet_host many_tabs [bstr ''tabs''] [bstr ''time''] 40 = [bstr ''time'']"
  "dropped (\<lambda>_. False) quiet_host (many_tabs\<lparr>cx_width := 40\<rparr>) [bstr ''tabs''] [bstr ''time''] 40 = []"
  by code_simp+

section \<open>The tab you are in is on the line\<close>

lemma index_from_found: "want \<in> set ns \<Longrightarrow> \<exists>k < length ns. index_from i ns want = i + int k \<and> ns ! k = want"
proof (induction ns arbitrary: i)
  case (Cons n ns)
  show ?case
  proof (cases "n = want")
    case False
    then obtain k where "k < length ns" "index_from (i + 1) ns want = i + 1 + int k" "ns ! k = want"
      using Cons by auto
    then show ?thesis using False by (intro exI[of _ "Suc k"]) simp
  qed auto
qed simp

lemma join_with_infix: "x \<in> set xs \<Longrightarrow> \<exists>a b. join_with sep xs = a @ x @ b"
proof (induction sep xs rule: join_with.induct)
  case (3 sep y z zs)
  show ?case
  proof (cases "x = y")
    case True
    then show ?thesis by (metis append_Nil join_with.simps(3))
  next
    case False
    then obtain a b where "join_with sep (z # zs) = a @ x @ b" using 3 by auto
    then show ?thesis by (metis append.assoc join_with.simps(3))
  qed
qed (auto intro: exI[of _ "[]"])

lemma tab_window_shows:
  assumes "cx_service c \<in> set (cx_names c)" "0 \<le> around"
  shows "\<exists>a b. tab_window c around = a @ [0x5b] @ cx_service c @ [0x5d] @ b"
proof -
  obtain k where k: "k < length (cx_names c)" "index_of (cx_names c) (cx_service c) = int k"
    "cx_names c ! k = cx_service c"
    using index_from_found[OF assms(1), of 0] by (auto simp: index_of_def)
  obtain lo hi where b: "tab_bounds c around = (lo, hi)" by (cases "tab_bounds c around")
  have "lo \<le> int k" "int k \<le> hi"
    using b k assms(2) by (auto simp: tab_bounds_def Let_def split: if_split_asm)
  then have "one_tab c (int k) \<in> set (map (one_tab c) [lo..hi])" by simp
  then obtain x y where "join_with [0x20] (map (one_tab c) [lo..hi]) = x @ one_tab c (int k) @ y"
    using join_with_infix by blast
  moreover have "one_tab c (int k) = itoa (int k + 1) @ [0x3a] @ [0x5b] @ cx_service c @ [0x5d]"
    by (simp add: one_tab_def Let_def k(3))
  ultimately show ?thesis unfolding tab_window_def b prod.case by (metis append.assoc)
qed

lemma tab_line_window: "\<exists>k \<le> around. tab_line mark c around = tab_window c (int k)"
proof (induction mark c around rule: tab_line.induct)
  case (1 mark c around)
  show ?case
  proof (cases "cx_width c \<le> 0 \<or> around = 0 \<or> string_width mark (tab_window c (int around)) \<le> cx_width c - 12")
    case True
    then show ?thesis by (subst tab_line.simps) (auto simp: Let_def)
  next
    case False
    then obtain k where "k \<le> around - 1" "tab_line mark c (around - 1) = tab_window c (int k)"
      using 1[OF refl] by auto
    moreover have "tab_line mark c around = tab_line mark c (around - 1)"
      using False by (subst tab_line.simps) (simp add: Let_def)
    ultimately show ?thesis by (intro exI[of _ k]) simp
  qed
qed

text \<open>
  However many services there are and however little room the line has, the tabs show the one you
  are in, in brackets.
\<close>

theorem tabs_show_where_you_are:
  assumes "cx_service c \<in> set (cx_names c)"
  shows "\<exists>a b. w_tabs mark c = a @ [0x5b] @ cx_service c @ [0x5d] @ b"
proof (cases "length (cx_names c) = 1")
  case True
  then have "hd (cx_names c) = cx_service c" "cx_names c \<noteq> []" using assms by (auto simp: length_Suc_conv)
  then have "w_tabs mark c = [] @ [0x5b] @ cx_service c @ [0x5d] @ []" using True by (simp add: w_tabs_def)
  then show ?thesis by blast
next
  case False
  then have "w_tabs mark c = tab_line mark c 2" using assms by (auto simp: w_tabs_def)
  then show ?thesis using tab_line_window[of 2 mark c] tab_window_shows[OF assms] by fastforce
qed

theorem tabs_show_where_you_are_witness:
  "\<exists>a b. w_tabs (\<lambda>_. False) many_tabs = a @ [0x5b] @ bstr ''shell'' @ [0x5d] @ b"
  using tabs_show_where_you_are[of many_tabs "\<lambda>_. False"] by (simp add: many_tabs_def in_shell_def)

section \<open>Sizes\<close>

lemma half_even_bounds:
  assumes "0 < d"
  shows "2 * n - d \<le> 2 * d * half_even n d" "2 * d * half_even n d \<le> 2 * n + d"
proof -
  define q r where "q = n div d" "r = n mod d"
  have n: "n = q * d + r" "0 \<le> r" "r < d" using assms by (simp_all add: q_r_def)
  have "half_even n d = (if 2 * r < d then q else if 2 * r > d then q + 1 else if even q then q else q + 1)"
    by (simp add: half_even_def Let_def q_r_def)
  moreover have "2 * n - d \<le> 2 * d * q" if "2 * r \<le> d" using n that by (simp add: algebra_simps)
  moreover have "2 * d * q \<le> 2 * n + d" using n assms by (simp add: algebra_simps)
  moreover have "2 * n - d \<le> 2 * d * (q + 1)" using n by (simp add: algebra_simps)
  moreover have "2 * d * (q + 1) \<le> 2 * n + d" if "d \<le> 2 * r" using n that by (simp add: algebra_simps)
  ultimately show "2 * n - d \<le> 2 * d * half_even n d" "2 * d * half_even n d \<le> 2 * n + d"
    by (auto split: if_split_asm)
qed

lemma half_even_1 [simp]: "half_even n 1 = n"
  by (simp add: half_even_def)

lemma ulp_pos: "0 < ulp_of n"
proof (induction n rule: ulp_of.induct)
  case (1 n)
  then show ?case by (subst ulp_of.simps) simp
qed

lemma float_of_int_small: "n < 9007199254740992 \<Longrightarrow> float_of_int n = n"
  by (simp add: float_of_int_def ulp_of.simps)

lemma ulp_le: "9007199254740992 \<le> n \<Longrightarrow> ulp_of n * 4503599627370496 \<le> n"
proof (induction n rule: ulp_of.induct)
  case (1 n)
  have e: "ulp_of n = 2 * ulp_of (n div 2)" using 1(2) by (subst ulp_of.simps) simp
  show ?case
  proof (cases "9007199254740992 \<le> n div 2")
    case True
    then show ?thesis using 1 e by simp
  next
    case False
    then have "ulp_of (n div 2) = 1" by (subst ulp_of.simps) simp
    then show ?thesis using 1(2) e by simp
  qed
qed

text \<open>Rounding to a double does not take a large size below 2^52.\<close>

lemma float_of_int_large:
  assumes "9007199254740992 \<le> n"
  shows "4503599627370496 \<le> float_of_int n"
proof -
  have u: "0 < ulp_of n" by (rule ulp_pos)
  have "2 * n - ulp_of n \<le> 2 * ulp_of n * half_even n (ulp_of n)" by (rule half_even_bounds(1)[OF u])
  then have "2 * n - ulp_of n \<le> 2 * float_of_int n" by (simp add: float_of_int_def algebra_simps)
  moreover have "ulp_of n \<le> n"
    using ulp_le[OF assms] u by linarith
  ultimately show ?thesis using assms by linarith
qed

lemma float_of_int_least: "1024 \<le> n \<Longrightarrow> 1024 \<le> float_of_int n"
  using float_of_int_small[of n] float_of_int_large[of n] by (cases "n < 9007199254740992") simp_all

lemma tenths_bounds: "0 < scale \<Longrightarrow> 20 * m - scale \<le> 2 * scale * tenths m scale \<and> 2 * scale * tenths m scale \<le> 20 * m + scale"
  using half_even_bounds[of scale "10 * m"] by (simp add: tenths_def)

lemma bytes_unit_range:
  assumes "1024 \<le> m" "bytes_unit [0x4b, 0x4d, 0x47] m 1024 = (t, u)"
  shows "10 \<le> t \<and> u \<in> {0x4b, 0x4d, 0x47, 0x54} \<and> (u \<noteq> 0x54 \<longrightarrow> t < 10240)"
proof -
  have kilo: "tenths m 1024 < 10240" "10 \<le> tenths m 1024" if "below_unit m 1024"
    using that tenths_bounds[of 1024 m] assms(1) by (simp_all add: below_unit_def)
  have mega: "tenths m 1048576 < 10240" "10 \<le> tenths m 1048576" if "below_unit m 1048576" "\<not> below_unit m 1024"
    using that tenths_bounds[of 1048576 m] by (simp_all add: below_unit_def)
  have giga: "tenths m 1073741824 < 10240" "10 \<le> tenths m 1073741824"
    if "below_unit m 1073741824" "\<not> below_unit m 1048576"
    using that tenths_bounds[of 1073741824 m] by (simp_all add: below_unit_def)
  have tera: "10 \<le> tenths m 1099511627776" if "\<not> below_unit m 1073741824"
    using that tenths_bounds[of 1099511627776 m] by (simp add: below_unit_def)
  show ?thesis
    using assms(2) kilo mega giga tera by (auto split: if_split_asm)
qed

text \<open>
  A size of a kilobyte or more is printed as a number of tenths with a unit, and rounding never leaves a
  unit that does not exist, such as 1024.0K: the number is at least 1.0, and below 1024.0 in every unit
  that has a larger one.
\<close>

theorem sizes_use_the_right_unit:
  assumes "1024 \<le> n"
  shows "\<exists>t u. bytes_text n = show_tenths t @ [u] \<and> 10 \<le> t \<and> u \<in> {0x4b, 0x4d, 0x47, 0x54} \<and> (u = 0x54 \<or> t < 10240)"
proof -
  obtain t u where tu: "bytes_unit [0x4b, 0x4d, 0x47] (float_of_int n) 1024 = (t, u)"
    by (cases "bytes_unit [0x4b, 0x4d, 0x47] (float_of_int n) 1024")
  then have "bytes_text n = show_tenths t @ [u]" using assms by (simp add: bytes_text_def)
  then show ?thesis using bytes_unit_range[OF float_of_int_least[OF assms] tu] by blast
qed

theorem sizes_use_the_right_unit_witness:
  "\<exists>t u. bytes_text 1048575 = show_tenths t @ [u] \<and> 10 \<le> t \<and> u \<in> {0x4b, 0x4d, 0x47, 0x54} \<and> (u = 0x54 \<or> t < 10240)"
  by (rule sizes_use_the_right_unit) simp

lemma sizes_example: "bytes_text 1048575 = bstr ''1.0M''"
  by code_simp

end
