(* ===== verification/Panes.thy ===== *)
theory Panes
  imports Keys Reflow Parser
begin

text \<open>
  Several services on one screen: \<open>src/internal/daemon/renderedsession.go\<close> (the session, its panes and the
  readers of their connections) and \<open>src/internal/daemon/layoutstate.go\<close> (the arrangement that is kept).

  A pane is a place in \<open>ss_store\<close>, a connection a place in \<open>ss_conns\<close>: both outlive what is on the screen, as
  pointers do. Each pane's terminal is the emulator of \<open>Parser\<close>, so a step may panic (\<open>None\<close>). What the daemon
  answers - which service is next, whether an attach or a reconnection succeeded - comes with the command or the
  event. Weights are floating-point numbers: the type \<open>'w\<close> with the operations of the record \<open>weights\<close>.
\<close>

section \<open>Weights and rectangles\<close>

text \<open>
  \<open>wt_step up n w\<close> is \<open>min(max(w + step, 0.2), n)\<close>, \<open>wt_share room ws w\<close> is \<open>int(room * w / total)\<close> with the
  total of \<open>ws\<close>, \<open>wt_text\<close> is \<open>%.2f\<close>.
\<close>

record 'w weights =
  wt_zero :: 'w
  wt_one :: 'w
  wt_positive :: "'w \<Rightarrow> bool"
  wt_step :: "bool \<Rightarrow> nat \<Rightarrow> 'w \<Rightarrow> 'w"
  wt_share :: "int \<Rightarrow> 'w list \<Rightarrow> 'w \<Rightarrow> int"
  wt_text :: "'w \<Rightarrow> bytes"

record rect =
  rc_col :: int
  rc_row :: int
  rc_cols :: int
  rc_rows :: int

definition some_weight :: "'w weights \<Rightarrow> 'w \<Rightarrow> 'w" where
  "some_weight fl w = (if wt_positive fl w then w else wt_one fl)"

text \<open>\<open>h\<close> is the share of each pane; the last takes what is left.\<close>

fun stack_rows :: "int \<Rightarrow> int \<Rightarrow> int \<Rightarrow> int list \<Rightarrow> rect list" where
  "stack_rows cols rows y [] = []"
| "stack_rows cols rows y [h] =
     [\<lparr>rc_col = 0, rc_row = y, rc_cols = cols, rc_rows = max (rows - y) 1\<rparr>]"
| "stack_rows cols rows y (h # h2 # hs) =
     \<lparr>rc_col = 0, rc_row = y, rc_cols = cols, rc_rows = max h 1\<rparr>
     # stack_rows cols rows (y + max h 1) (h2 # hs)"

fun stack_cols :: "int \<Rightarrow> int \<Rightarrow> int \<Rightarrow> int list \<Rightarrow> rect list" where
  "stack_cols cols rows x [] = []"
| "stack_cols cols rows x [w] =
     [\<lparr>rc_col = x, rc_row = 0, rc_cols = cols - x, rc_rows = rows\<rparr>]"
| "stack_cols cols rows x (w # w2 # ws) =
     \<lparr>rc_col = x, rc_row = 0, rc_cols = max w 1, rc_rows = rows\<rparr>
     # stack_cols cols rows (x + max w 1 + 1) (w2 # ws)"

definition usable_cols :: "int \<Rightarrow> nat \<Rightarrow> int" where
  "usable_cols cols n = (let u = cols - (int n - 1) in if u < int n then int n else u)"

text \<open>The rectangles of panes with these (positive) weights.\<close>

definition pane_rects :: "'w weights \<Rightarrow> int \<Rightarrow> int \<Rightarrow> bool \<Rightarrow> 'w list \<Rightarrow> rect list" where
  "pane_rects fl cols rows in_rows ws =
     (if in_rows then stack_rows cols rows 0 (map (wt_share fl rows ws) ws)
      else stack_cols cols rows 0 (map (wt_share fl (usable_cols cols (length ws)) ws) ws))"

section \<open>Panes, connections and the session\<close>

record 'w live_pane =
  lp_service :: bytes
  lp_client :: nat
  lp_closed :: bool
  lp_term :: emu
  lp_rect :: rect
  lp_finished :: bool
  lp_frozen :: bool
  lp_was_running :: bool
  lp_scroll :: int
  lp_told :: "bytes list"
  lp_weight :: 'w

text \<open>What this client has sent on a connection, and whether it has closed it.\<close>

datatype sent_frame = Typed bytes | Answered bytes | Sized int int

record conn =
  cn_read_only :: bool
  cn_closed :: bool
  cn_sent :: "sent_frame list"

datatype pane_note =
    Says bytes
  | Failed_to bytes
  | Lost_connection bytes
  | Reconnected bytes
  | Not_running bytes
  | Ended bytes bytes
  | Unanswered_colour bytes
  | Not_implemented bytes bytes
  | Is_frozen bytes
  | Is_read_only
  | Nothing_to_share

record event =
  ev_pane :: nat
  ev_from :: nat
  ev_data :: bytes
  ev_finished :: bool
  ev_gone :: bool
  ev_message :: bytes
  ev_renamed :: bytes

definition no_event :: "nat \<Rightarrow> nat \<Rightarrow> event" where
  "no_event p c = \<lparr>ev_pane = p, ev_from = c, ev_data = [], ev_finished = False, ev_gone = False,
     ev_message = [], ev_renamed = []\<rparr>"

record 'w saved_layout =
  sl_rows :: bool \<comment> \<open>\<open>How == "rows"\<close>\<close>
  sl_focus :: int
  sl_panes :: "(bytes \<times> 'w) list"

text \<open>
  \<open>ss_events\<close> is the channel, of capacity 64, and \<open>ss_readers\<close> the goroutines of \<open>readFrames\<close>, each with the pane
  and the connection it was started with. \<open>ss_owed\<close> says that a repaint is due, \<open>ss_stale\<close> that something has
  changed since the last one. \<open>ss_file\<close> is the layout file, \<open>ss_written\<close> the signature the session remembers of it.
\<close>

record 'w session =
  ss_store :: "'w live_pane list"
  ss_panes :: "nat list"
  ss_in_rows :: bool
  ss_focus :: nat
  ss_conns :: "conn list"
  ss_readers :: "(nat \<times> nat) list"
  ss_events :: "event list"
  ss_size :: "int \<times> int"
  ss_notes :: "pane_note list"
  ss_file :: "'w saved_layout option"
  ss_written :: bytes
  ss_data_on :: bool
  ss_keys_on :: bool
  ss_fenced :: bool
  ss_said_read_only :: bool
  ss_said_frozen :: bool
  ss_owed :: bool
  ss_stale :: bool

definition event_room :: nat where "event_room = 64"

definition pane_of :: "'w session \<Rightarrow> nat \<Rightarrow> 'w live_pane" where
  "pane_of s p = ss_store s ! p"

definition focused :: "'w session \<Rightarrow> nat" where
  "focused s = ss_panes s ! ss_focus s"

definition set_pane :: "nat \<Rightarrow> ('w live_pane \<Rightarrow> 'w live_pane) \<Rightarrow> 'w session \<Rightarrow> 'w session" where
  "set_pane p f s = s\<lparr>ss_store := (ss_store s)[p := f (ss_store s ! p)]\<rparr>"

definition set_conn :: "nat \<Rightarrow> (conn \<Rightarrow> conn) \<Rightarrow> 'w session \<Rightarrow> 'w session" where
  "set_conn c f s = s\<lparr>ss_conns := (ss_conns s)[c := f (ss_conns s ! c)]\<rparr>"

definition send_to :: "nat \<Rightarrow> sent_frame \<Rightarrow> 'w session \<Rightarrow> 'w session" where
  "send_to c x = set_conn c (\<lambda>k. k\<lparr>cn_sent := cn_sent k @ [x]\<rparr>)"

definition close_conn :: "nat \<Rightarrow> 'w session \<Rightarrow> 'w session" where
  "close_conn c = set_conn c (\<lambda>k. k\<lparr>cn_closed := True\<rparr>)"

definition say_note :: "pane_note \<Rightarrow> 'w session \<Rightarrow> 'w session" where
  "say_note n s = s\<lparr>ss_notes := ss_notes s @ [n]\<rparr>"

text \<open>\<open>ss_stale\<close> is set by whatever changes a pane's screen or the arrangement; \<open>paint\<close> draws them all.\<close>

definition stale :: "'w session \<Rightarrow> 'w session" where
  "stale s = s\<lparr>ss_stale := True\<rparr>"

definition paint :: "'w session \<Rightarrow> 'w session" where
  "paint s = s\<lparr>ss_stale := False\<rparr>"

text \<open>\<open>paintSoon\<close>; \<open>recent\<close> says that the last paint was less than 50 milliseconds ago.\<close>

definition paint_soon :: "bool \<Rightarrow> 'w session \<Rightarrow> 'w session" where
  "paint_soon recent s = (if recent then s\<lparr>ss_owed := True\<rparr> else paint (s\<lparr>ss_owed := False\<rparr>))"

text \<open>A dialled connection with its attach; \<open>DialTo\<close> in the order of connections.\<close>

definition new_conn :: "bool \<Rightarrow> 'w session \<Rightarrow> nat \<times> 'w session" where
  "new_conn ro s = (length (ss_conns s), s\<lparr>ss_conns := ss_conns s @ [\<lparr>cn_read_only = ro, cn_closed = False, cn_sent = []\<rparr>]\<rparr>)"

definition read_frames :: "nat \<Rightarrow> 'w session \<Rightarrow> 'w session" where
  "read_frames p s = s\<lparr>ss_readers := (p, lp_client (pane_of s p)) # ss_readers s\<rparr>"

subsection \<open>Laying the panes out\<close>

fun set_rects :: "nat list \<Rightarrow> rect list \<Rightarrow> 'w session \<Rightarrow> 'w session" where
  "set_rects (p # ps) (r # rs) s = set_rects ps rs (set_pane p (\<lambda>q. q\<lparr>lp_rect := r\<rparr>) s)"
| "set_rects ps rs s = s"

fun fix_weights :: "'w weights \<Rightarrow> nat list \<Rightarrow> 'w session \<Rightarrow> 'w session" where
  "fix_weights fl [] s = s"
| "fix_weights fl (p # ps) s = fix_weights fl ps (set_pane p (\<lambda>q. q\<lparr>lp_weight := some_weight fl (lp_weight q)\<rparr>) s)"

definition layout_panes :: "'w weights \<Rightarrow> 'w session \<Rightarrow> 'w session" where
  "layout_panes fl s =
     (let s1 = fix_weights fl (ss_panes s) s
      in set_rects (ss_panes s)
           (pane_rects fl (fst (ss_size s)) (snd (ss_size s)) (ss_in_rows s)
              (map (\<lambda>p. lp_weight (pane_of s1 p)) (ss_panes s))) s1)"

fun resize_panes :: "nat list \<Rightarrow> 'w session \<Rightarrow> 'w session option" where
  "resize_panes [] s = Some s"
| "resize_panes (p # ps) s =
     (let q = pane_of s p; r = lp_rect q in
      do { t \<leftarrow> resize (rc_cols r) (rc_rows r) (fst (lp_term q));
           resize_panes ps (send_to (lp_client q) (Sized (rc_cols r) (rc_rows r))
             (set_pane p (\<lambda>q. q\<lparr>lp_term := (t, snd (lp_term q))\<rparr>) s)) })"

definition lay_out_again :: "'w weights \<Rightarrow> 'w session \<Rightarrow> 'w session option" where
  "lay_out_again fl s = (let s1 = stale (layout_panes fl s) in resize_panes (ss_panes s1) s1)"

subsection \<open>The arrangement that is kept\<close>

definition layout_of :: "'w weights \<Rightarrow> 'w session \<Rightarrow> 'w saved_layout" where
  "layout_of fl s = \<lparr>sl_rows = ss_in_rows s, sl_focus = int (ss_focus s),
     sl_panes = map (\<lambda>p. (lp_service (pane_of s p), some_weight fl (lp_weight (pane_of s p)))) (ss_panes s)\<rparr>"

definition signature :: "'w weights \<Rightarrow> 'w saved_layout \<Rightarrow> bytes" where
  "signature fl l =
     (if sl_rows l then bstr ''rows'' else bstr ''columns'') @ [0x2f] @ itoa (sl_focus l)
     @ concat (map (\<lambda>(n, w). [0x3b] @ n @ [0x3d] @ wt_text fl w) (sl_panes l))"

text \<open>\<open>remember\<close>; \<open>ok\<close> says whether \<open>saveLayout\<close> succeeded.\<close>

definition remember :: "'w weights \<Rightarrow> bool \<Rightarrow> 'w session \<Rightarrow> 'w session" where
  "remember fl ok s =
     (let l = layout_of fl s; sig = signature fl l
      in if sig = ss_written s then s
         else (if ok then s\<lparr>ss_file := Some l\<rparr> else say_note (Failed_to (bstr ''save'')) s)\<lparr>ss_written := sig\<rparr>)"

definition min_pane_cols :: int where "min_pane_cols = 10"

definition min_pane_rows :: int where "min_pane_rows = 2"

definition pane_room :: "int \<times> int \<Rightarrow> bool \<Rightarrow> int" where
  "pane_room scr in_rows =
     max (if in_rows then snd scr div min_pane_rows else (fst scr + 1) div (min_pane_cols + 1)) 1"

text \<open>Which saved panes are put up, and which of them is the one that was asked for.\<close>

definition wanted :: "bytes \<Rightarrow> int \<Rightarrow> 'w saved_layout \<Rightarrow> ((bytes \<times> 'w) list \<times> nat) option" where
  "wanted service room l =
     (let ps = sl_panes l in
      case find (\<lambda>i. fst (ps ! i) = service) [0..<length ps] of
        None \<Rightarrow> None
      | Some at \<Rightarrow>
          if int (length ps) > room then
            (if int at \<ge> room then Some (take (nat (room - 1)) ps @ [ps ! at], nat (room - 1))
             else Some (take (nat room) ps, at))
          else Some (ps, at))"

section \<open>Opening, swapping and reopening panes\<close>

datatype attach_answer = No_daemon bytes | Refused bytes | Attached bool

definition no_rect :: rect where
  "no_rect = \<lparr>rc_col = 0, rc_row = 0, rc_cols = 0, rc_rows = 0\<rparr>"

definition new_pane :: "bytes \<Rightarrow> nat \<Rightarrow> emu \<Rightarrow> bool \<Rightarrow> 'w \<Rightarrow> 'w live_pane" where
  "new_pane service c t running w =
     \<lparr>lp_service = service, lp_client = c, lp_closed = False, lp_term = t, lp_rect = no_rect, lp_finished = False,
      lp_frozen = False, lp_was_running = running, lp_scroll = 0, lp_told = [], lp_weight = w\<rparr>"

definition add_pane :: "'w live_pane \<Rightarrow> 'w session \<Rightarrow> 'w session" where
  "add_pane q s = s\<lparr>ss_store := ss_store s @ [q], ss_panes := ss_panes s @ [length (ss_store s)]\<rparr>"

text \<open>\<open>openPane\<close>: the connection of an attach that was refused is closed again.\<close>

definition open_pane :: "'w weights \<Rightarrow> bytes \<Rightarrow> attach_answer \<Rightarrow> nat \<Rightarrow> bool \<Rightarrow> 'w session \<Rightarrow> (bytes + 'w live_pane) \<times> 'w session" where
  "open_pane fl service ans count ro s =
     (case ans of
        No_daemon e \<Rightarrow> (Inl e, s)
      | Refused e \<Rightarrow> (case new_conn ro s of (c, s1) \<Rightarrow> (Inl e, close_conn c s1))
      | Attached running \<Rightarrow>
          (case new_conn ro s of (c, s1) \<Rightarrow>
             (Inr (new_pane service c (new_emu (max (fst (ss_size s) div int (max count 1)) 1) (snd (ss_size s)))
                running (wt_zero fl)), s1)))"

definition swap_pane :: "nat \<Rightarrow> bytes \<Rightarrow> attach_answer \<Rightarrow> 'w session \<Rightarrow> bytes option \<times> 'w session" where
  "swap_pane p service ans s =
     (let q = pane_of s p; ro = cn_read_only (ss_conns s ! lp_client q) in
      case ans of
        No_daemon e \<Rightarrow> (Some e, s)
      | Refused e \<Rightarrow> (case new_conn ro s of (c, s1) \<Rightarrow> (Some e, close_conn c s1))
      | Attached running \<Rightarrow>
          (case new_conn ro s of (c, s1) \<Rightarrow>
             (None, stale (set_pane p (\<lambda>q. q\<lparr>lp_client := c, lp_service := service, lp_scroll := 0, lp_finished := False,
                lp_frozen := False, lp_was_running := running,
                lp_term := new_emu (rc_cols (lp_rect q)) (rc_rows (lp_rect q))\<rparr>) (close_conn (lp_client q) s1)))))"

definition reopen_pane :: "nat \<Rightarrow> attach_answer \<Rightarrow> 'w session \<Rightarrow> bytes option \<times> 'w session" where
  "reopen_pane p ans s =
     (let q = pane_of s p; ro = cn_read_only (ss_conns s ! lp_client q) in
      case ans of
        No_daemon e \<Rightarrow> (Some e, s)
      | Refused e \<Rightarrow> (case new_conn ro s of (c, s1) \<Rightarrow> (Some e, close_conn c s1))
      | Attached _ \<Rightarrow>
          (case new_conn ro s of (c, s1) \<Rightarrow>
             (None, set_pane p (\<lambda>q. q\<lparr>lp_client := c\<rparr>) (close_conn (lp_client q) s1))))"

text \<open>A pane is pointed somewhere else, and what is said when it cannot be.\<close>

definition swap_focused :: "bytes \<Rightarrow> attach_answer \<Rightarrow> 'w session \<Rightarrow> 'w session" where
  "swap_focused service ans s =
     (let p = focused s in
      case swap_pane p service ans s of
        (Some e, s1) \<Rightarrow> say_note (Failed_to e) s1
      | (None, s1) \<Rightarrow> read_frames p s1)"

definition without :: "nat \<Rightarrow> nat list \<Rightarrow> nat list" where
  "without i ps = take i ps @ drop (Suc i) ps"

text \<open>A pane leaves the screen.\<close>

definition drop_pane :: "nat \<Rightarrow> 'w session \<Rightarrow> 'w session" where
  "drop_pane i s =
     (let p = ss_panes s ! i in
      (close_conn (lp_client (pane_of s p)) (set_pane p (\<lambda>q. q\<lparr>lp_closed := True\<rparr>) s))
        \<lparr>ss_panes := without i (ss_panes s)\<rparr>)"

section \<open>Coming back to an arrangement\<close>

fun put_up :: "'w weights \<Rightarrow> bool \<Rightarrow> nat \<Rightarrow> nat \<Rightarrow> nat \<Rightarrow> (bytes \<times> 'w) list \<Rightarrow> attach_answer list \<Rightarrow> 'w session \<Rightarrow> 'w session" where
  "put_up fl ro count at i [] answers s = s"
| "put_up fl ro count at i ((n, w) # rest) answers s =
     (if i = at then
        put_up fl ro count at (Suc i) rest answers
          (add_pane (new_pane n 0 (new_emu (fst (ss_size s)) (snd (ss_size s))) False w) s)
      else
        (let ans = (case answers of [] \<Rightarrow> No_daemon [] | a # _ \<Rightarrow> a) in
         case open_pane fl n ans count ro s of
           (Inl e, s1) \<Rightarrow> put_up fl ro count at (Suc i) rest (tl answers) (say_note (Failed_to n) s1)
         | (Inr q, s1) \<Rightarrow> put_up fl ro count at (Suc i) rest (tl answers) (add_pane (q\<lparr>lp_weight := w\<rparr>) s1)))"

text \<open>The focus of a restored arrangement is the pane with the connection the attach began with.\<close>

definition first_pane :: "'w session \<Rightarrow> nat" where
  "first_pane s = (case find (\<lambda>i. lp_client (pane_of s (ss_panes s ! i)) = 0) [0..<length (ss_panes s)] of
     None \<Rightarrow> 0 | Some i \<Rightarrow> i)"

definition restore_panes :: "'w weights \<Rightarrow> bytes \<Rightarrow> bool \<Rightarrow> 'w saved_layout \<Rightarrow> attach_answer list \<Rightarrow> 'w session \<Rightarrow> 'w session" where
  "restore_panes fl service ro l answers s =
     (case wanted service (pane_room (ss_size s) (sl_rows l)) l of
        None \<Rightarrow> add_pane (new_pane service 0 (new_emu (fst (ss_size s)) (snd (ss_size s))) False (wt_zero fl)) s
      | Some (want, at) \<Rightarrow>
          (let s1 = (if length want < length (sl_panes l) then say_note (Failed_to (bstr ''room'')) s else s);
               s2 = put_up fl ro (length want) at 0 want answers s1
           in s2\<lparr>ss_in_rows := sl_rows l, ss_focus := first_pane s2, ss_written := signature fl l\<rparr>))"

datatype 'w remembered = No_layout | Bad_layout bytes | Layout "'w saved_layout"

definition new_session :: "bool \<Rightarrow> int \<times> int \<Rightarrow> 'w saved_layout option \<Rightarrow> 'w session" where
  "new_session ro scr file =
     \<lparr>ss_store = [], ss_panes = [], ss_in_rows = False, ss_focus = 0,
      ss_conns = [\<lparr>cn_read_only = ro, cn_closed = False, cn_sent = []\<rparr>], ss_readers = [], ss_events = [],
      ss_size = scr, ss_notes = [], ss_file = file, ss_written = [], ss_data_on = True, ss_keys_on = True,
      ss_fenced = False, ss_said_read_only = False, ss_said_frozen = False, ss_owed = False, ss_stale = True\<rparr>"

fun read_all :: "nat list \<Rightarrow> 'w session \<Rightarrow> 'w session" where
  "read_all [] s = s"
| "read_all (p # ps) s = read_all ps (read_frames p s)"

text \<open>\<open>renderedSession\<close> up to its loop. \<open>running\<close> is \<open>serviceIsRunning\<close>, \<open>saved\<close> whether writing the layout succeeds.\<close>

definition start_session :: "'w weights \<Rightarrow> bytes \<Rightarrow> bool \<Rightarrow> bool \<Rightarrow> int \<times> int \<Rightarrow> 'w remembered \<Rightarrow> attach_answer list
    \<Rightarrow> bool \<Rightarrow> 'w session option" where
  "start_session fl service running ro scr layout answers saved =
     (let s0 = new_session ro scr (case layout of Layout l \<Rightarrow> Some l | _ \<Rightarrow> None);
          alone = add_pane (new_pane service 0 (new_emu (fst scr) (snd scr)) running (wt_zero fl)) s0;
          s1 = (case layout of
                  No_layout \<Rightarrow> alone
                | Bad_layout e \<Rightarrow> say_note (Failed_to e) alone
                | Layout l \<Rightarrow> restore_panes fl service ro l answers s0);
          s2 = layout_panes fl s1
      in do {
        s3 \<leftarrow> (if length (ss_panes s2) > 1 then resize_panes (ss_panes s2) s2 else Some s2);
        Some (remember fl saved (paint (read_all (ss_panes s3) s3))) })"

section \<open>What can happen next\<close>

datatype scroll_way = Back | Forward | Live

datatype rename_answer = Interrupted | Renamed_to bytes bytes

text \<open>A command with what the daemon, or the person asked for a name, answers to it.\<close>

datatype command =
    Split bool "bytes + bytes" attach_answer
  | Scroll scroll_way
  | Walk bool "bytes + bytes" attach_answer
  | Tab nat "bytes + bytes" attach_answer
  | Move bool bytes
  | Rename rename_answer
  | Create "bytes + bytes" attach_answer
  | Remove_it "bytes option"
  | Revive bytes bool attach_answer
  | Grow bool
  | Redraw
  | Next_pane
  | Close_pane
  | Other outcome

text \<open>How a command's case ends: \<open>continue\<close>, falling out of the switch, or \<open>return\<close>.\<close>

datatype 'w flow = Skip "'w session" | Through "'w session" | Return outcome "'w session"

definition scroll_step :: "'w session \<Rightarrow> int" where
  "scroll_step s = max (t_rows (fst (lp_term (pane_of s (focused s)))) div 2) 1"

definition max_scroll :: "'w live_pane \<Rightarrow> int" where
  "max_scroll q = hist_len (t_hist (fst (lp_term q)))"

fun do_command :: "'w weights \<Rightarrow> bool \<Rightarrow> command \<Rightarrow> 'w session \<Rightarrow> 'w flow option" where
  "do_command fl ro (Split in_rows unshown ans) s =
     (case unshown of
        Inl e \<Rightarrow> Some (Skip (paint (say_note (Failed_to e) s)))
      | Inr n \<Rightarrow>
          (case open_pane fl n ans (Suc (length (ss_panes s))) ro s of
             (Inl e, s1) \<Rightarrow> Some (Skip (paint (say_note (Failed_to e) s1)))
           | (Inr q, s1) \<Rightarrow>
               (let s2 = add_pane q s1;
                    s3 = s2\<lparr>ss_focus := length (ss_panes s2) - 1, ss_in_rows := in_rows\<rparr>
                in do { s4 \<leftarrow> lay_out_again fl s3;
                        Some (Through (paint (read_frames (length (ss_store s1)) s4))) })))"
| "do_command fl ro (Scroll way) s =
     (let step = scroll_step s in
      Some (Through (paint (set_pane (focused s)
        (\<lambda>q. q\<lparr>lp_scroll := (case way of Back \<Rightarrow> min (lp_scroll q + step) (max_scroll q)
           | Forward \<Rightarrow> max (lp_scroll q - step) 0 | Live \<Rightarrow> 0)\<rparr>) s))))"
| "do_command fl ro (Walk onward next_one ans) s =
     (if length (ss_panes s) = 1 then Some (Return (if onward then OutcomeNext else OutcomePrev) s)
      else case next_one of
        Inl e \<Rightarrow> Some (Skip (paint (say_note (Failed_to e) s)))
      | Inr n \<Rightarrow> Some (Through (paint (swap_focused n ans s))))"
| "do_command fl ro (Tab k which ans) s =
     (if length (ss_panes s) = 1 then Some (Return (OutcomeTab k) s)
      else case which of
        Inl e \<Rightarrow> Some (Through (paint (say_note (Failed_to e) s)))
      | Inr n \<Rightarrow> Some (Through (paint
          (if n = lp_service (pane_of s (focused s)) then s else swap_focused n ans s))))"
| "do_command fl ro (Move right msg) s = Some (Through (paint (say_note (Says msg) s)))"
| "do_command fl ro (Rename ans) s =
     (case ans of
        Interrupted \<Rightarrow> Some (Skip s)
      | Renamed_to n msg \<Rightarrow>
          Some (Through (paint (say_note (Says msg) (set_pane (focused s) (\<lambda>q. q\<lparr>lp_service := n\<rparr>) s)))))"
| "do_command fl ro (Create made ans) s =
     (if length (ss_panes s) = 1 then Some (Return OutcomeCreate s)
      else case made of
        Inl e \<Rightarrow> Some (Skip (paint (say_note (Failed_to e) s)))
      | Inr n \<Rightarrow>
          (case swap_pane (focused s) n ans s of
             (Some e, s1) \<Rightarrow> Some (Through (paint (say_note (Failed_to e) s1)))
           | (None, s1) \<Rightarrow> Some (Through (paint (say_note (Says n) (read_frames (focused s) s1))))))"
| "do_command fl ro (Remove_it failed) s =
     (if length (ss_panes s) = 1 then Some (Return OutcomeRemove s)
      else case failed of
        Some e \<Rightarrow> Some (Skip (paint (say_note (Failed_to e) s)))
      | None \<Rightarrow>
          (let gone = lp_service (pane_of s (focused s));
               s1 = drop_pane (ss_focus s) s;
               s2 = s1\<lparr>ss_focus := ss_focus s mod length (ss_panes s1)\<rparr>
           in do { s3 \<leftarrow> lay_out_again fl s2; Some (Through (paint (say_note (Says gone) s3))) }))"
| "do_command fl ro (Revive msg ok ans) s =
     (if ok then
        (case swap_pane (focused s) (lp_service (pane_of s (focused s))) ans s of
           (Some e, s1) \<Rightarrow> Some (Through (paint (say_note (Failed_to e) s1)))
         | (None, s1) \<Rightarrow> Some (Through (paint (say_note (Says msg) (read_frames (focused s) s1)))))
      else Some (Through (paint (say_note (Says msg) s))))"
| "do_command fl ro (Grow up) s =
     (if length (ss_panes s) = 1 then Some (Skip (paint (say_note Nothing_to_share s)))
      else do {
        s1 \<leftarrow> lay_out_again fl (set_pane (focused s)
               (\<lambda>q. q\<lparr>lp_weight := wt_step fl up (length (ss_panes s)) (lp_weight q)\<rparr>) s);
        Some (Through (paint s1)) })"
| "do_command fl ro Redraw s = Some (Through (paint s))"
| "do_command fl ro Next_pane s =
     Some (Through (paint (s\<lparr>ss_focus := Suc (ss_focus s) mod length (ss_panes s)\<rparr>)))"
| "do_command fl ro Close_pane s =
     (if length (ss_panes s) = 1 then Some (Return OutcomeDetached s)
      else
        (let s1 = drop_pane (ss_focus s) s;
             s2 = s1\<lparr>ss_focus := ss_focus s mod length (ss_panes s1)\<rparr>
         in do { s3 \<leftarrow> lay_out_again fl s2; Some (Through (paint s3)) }))"
| "do_command fl ro (Other x) s = Some (Return x s)"

datatype 'w result = On "'w session" | Ends outcome "'w session" | Panic

text \<open>A piece of typing; \<open>ok\<close> says whether the write reaches the connection.\<close>

definition typed :: "bool \<Rightarrow> bytes \<Rightarrow> 'w session \<Rightarrow> 'w result" where
  "typed ok chunk s =
     (let q = pane_of s (focused s) in
      if chunk = [] then On s
      else if lp_frozen q then
        On (if ss_said_frozen s then s else paint (say_note (Is_frozen (lp_service q)) (s\<lparr>ss_said_frozen := True\<rparr>)))
      else if cn_read_only (ss_conns s ! lp_client q) then
        On (if ss_said_read_only s then s else paint (say_note Is_read_only (s\<lparr>ss_said_read_only := True\<rparr>)))
      else if ok then On (send_to (lp_client q) (Typed chunk) s)
      else Ends OutcomeDisconnected s)"

text \<open>A fence taken by the select: only with a command waiting does it mean anything.\<close>

definition met_fence :: "bool \<Rightarrow> 'w session \<Rightarrow> 'w session" where
  "met_fence waiting s = (if waiting then s\<lparr>ss_fenced := True, ss_data_on := False\<rparr> else s)"

text \<open>What was typed before a command is sent first: \<open>drained\<close> is what stood in front of its fence.\<close>

fun send_all :: "bytes list \<Rightarrow> 'w session \<Rightarrow> 'w session" where
  "send_all [] s = s"
| "send_all (b # bs) s = send_all bs (if b = [] then s else send_to (lp_client (pane_of s (focused s))) (Typed b) s)"

definition before_command :: "bytes list \<Rightarrow> 'w session \<Rightarrow> 'w session" where
  "before_command drained s =
     (if ss_fenced s then s\<lparr>ss_fenced := False, ss_data_on := True\<rparr>
      else if ss_data_on s then send_all drained s
      else s)"

definition commanded :: "'w weights \<Rightarrow> bool \<Rightarrow> bool \<Rightarrow> bytes list \<Rightarrow> command \<Rightarrow> 'w session \<Rightarrow> 'w result" where
  "commanded fl ro saved drained c s =
     (case do_command fl ro c (before_command drained s) of
        None \<Rightarrow> Panic
      | Some (Skip s1) \<Rightarrow> On s1
      | Some (Through s1) \<Rightarrow> On (remember fl saved s1)
      | Some (Return x s1) \<Rightarrow> Ends x s1)"

definition newlines :: "bytes \<Rightarrow> int" where
  "newlines b = int (length (filter (\<lambda>c. c = 0x0a) b))"

definition colour_reply :: "int \<Rightarrow> bytes \<Rightarrow> bytes" where
  "colour_reply which value = [0x1b, 0x5d] @ itoa which @ [0x3b] @ value @ [0x1b, 0x5c]"

fun answer_colours :: "(int \<Rightarrow> bytes option) \<Rightarrow> nat \<Rightarrow> int list \<Rightarrow> 'w session \<Rightarrow> 'w session" where
  "answer_colours colour p [] s = s"
| "answer_colours colour p (w # ws) s =
     answer_colours colour p ws
       (case colour w of
          None \<Rightarrow> say_note (Unanswered_colour (lp_service (pane_of s p))) s
        | Some v \<Rightarrow> send_to (lp_client (pane_of s p)) (Answered (colour_reply w v)) s)"

text \<open>The part of \<open>applyEvent\<close> that draws: the terminal takes the bytes, and its answers go back.\<close>

definition draw_data :: "(int \<Rightarrow> bool) \<Rightarrow> (int \<Rightarrow> bytes option) \<Rightarrow> nat \<Rightarrow> bytes \<Rightarrow> 'w session \<Rightarrow> 'w session option" where
  "draw_data mark colour p b s =
     (if b = [] then Some s
      else do {
        (t, ps) \<leftarrow> feed mark b (lp_term (pane_of s p));
        let (replies, t1) = take_replies t;
        let (asks, t2) = take_colour_asks t1;
        let s1 = stale (set_pane p (\<lambda>q. q\<lparr>lp_term := (t2, ps)\<rparr>) s);
        let s2 = (if replies = [] then s1 else send_to (lp_client (pane_of s1 p)) (Answered replies) s1);
        let s3 = answer_colours colour p asks s2;
        Some (if lp_scroll (pane_of s3 p) > 0
              then set_pane p (\<lambda>q. q\<lparr>lp_scroll := min (lp_scroll q + newlines b) (max_scroll q)\<rparr>) s3 else s3) })"

fun tell_unknown :: "nat \<Rightarrow> bytes list \<Rightarrow> 'w session \<Rightarrow> 'w session" where
  "tell_unknown p [] s = s"
| "tell_unknown p (n # ns) s =
     tell_unknown p ns
       (if n \<in> set (lp_told (pane_of s p)) then s
        else say_note (Not_implemented (lp_service (pane_of s p)) n)
               (set_pane p (\<lambda>q. q\<lparr>lp_told := n # lp_told q\<rparr>) s))"

definition note_finished :: "event \<Rightarrow> 'w session \<Rightarrow> 'w session" where
  "note_finished e s =
     (let p = ev_pane e; q = pane_of s p in
      if ev_finished e \<and> \<not> lp_finished q
      then say_note (if lp_was_running q then Ended (lp_service q) (ev_message e) else Not_running (lp_service q))
             (set_pane p (\<lambda>q. q\<lparr>lp_finished := True\<rparr>) s)
      else s)"

definition note_gone :: "attach_answer \<Rightarrow> event \<Rightarrow> 'w session \<Rightarrow> 'w session" where
  "note_gone ans e s =
     (let p = ev_pane e in
      if ev_gone e \<and> \<not> lp_finished (pane_of s p)
      then (case reopen_pane p ans s of
              (Some err, s1) \<Rightarrow> say_note (Lost_connection (lp_service (pane_of s p)))
                                  (set_pane p (\<lambda>q. q\<lparr>lp_frozen := True\<rparr>) s1)
            | (None, s1) \<Rightarrow> read_frames p (say_note (Reconnected (lp_service (pane_of s p))) s1))
      else s)"

definition note_words :: "event \<Rightarrow> 'w session \<Rightarrow> 'w session" where
  "note_words e s =
     (let s1 = (if ev_renamed e = [] then s else set_pane (ev_pane e) (\<lambda>q. q\<lparr>lp_service := ev_renamed e\<rparr>) s)
      in if ev_message e = [] then s1 else say_note (Says (ev_message e)) s1)"

definition heeded :: "event \<Rightarrow> 'w session \<Rightarrow> bool" where
  "heeded e s \<longleftrightarrow> \<not> lp_closed (pane_of s (ev_pane e)) \<and> ev_from e = lp_client (pane_of s (ev_pane e))"

definition apply_event :: "(int \<Rightarrow> bool) \<Rightarrow> (int \<Rightarrow> bytes option) \<Rightarrow> attach_answer \<Rightarrow> event \<Rightarrow> 'w session \<Rightarrow> 'w session option" where
  "apply_event mark colour ans e s =
     (if \<not> heeded e s then Some s
      else do {
        s1 \<leftarrow> draw_data mark colour (ev_pane e) (ev_data e) (note_words e s);
        let s2 = tell_unknown (ev_pane e) (map fst (t_unknown (fst (lp_term (pane_of s1 (ev_pane e)))))) s1;
        Some (note_gone ans e (note_finished e s2)) })"

definition all_done :: "'w session \<Rightarrow> bool" where
  "all_done s \<longleftrightarrow> list_all (\<lambda>p. lp_finished (pane_of s p) \<or> lp_frozen (pane_of s p)) (ss_panes s)"

text \<open>A pane whose program has ended closes, and the focus stays on the pane it was on.\<close>

definition natural_death :: "'w weights \<Rightarrow> bool \<Rightarrow> nat \<Rightarrow> 'w session \<Rightarrow> 'w session option" where
  "natural_death fl saved p s =
     (if lp_finished (pane_of s p) \<and> lp_was_running (pane_of s p) \<and> length (ss_panes s) > 1 then
        (case find (\<lambda>i. ss_panes s ! i = p) [0..<length (ss_panes s)] of
           None \<Rightarrow> Some s
         | Some i \<Rightarrow>
             (let s1 = drop_pane i s;
                  f = (if ss_focus s \<ge> length (ss_panes s1) then length (ss_panes s1) - 1
                       else if ss_focus s > i then ss_focus s - 1 else ss_focus s)
              in map_option (remember fl saved) (lay_out_again fl (s1\<lparr>ss_focus := f\<rparr>))))
      else Some s)"

definition happened :: "'w weights \<Rightarrow> (int \<Rightarrow> bool) \<Rightarrow> (int \<Rightarrow> bytes option) \<Rightarrow> attach_answer \<Rightarrow> bool \<Rightarrow> bool
    \<Rightarrow> event \<Rightarrow> 'w session \<Rightarrow> 'w result" where
  "happened fl mark colour ans saved recent e s =
     (case Option.bind (apply_event mark colour ans e s) (natural_death fl saved (ev_pane e)) of
        None \<Rightarrow> Panic
      | Some s1 \<Rightarrow>
          (let s2 = paint_soon recent s1
           in if all_done s2 then Ends (if ev_finished e then OutcomeFinished else OutcomeDisconnected) (paint s2)
              else On s2))"

text \<open>The window has another size; \<open>None\<close> when the screen cannot be resized.\<close>

definition winched :: "'w weights \<Rightarrow> (int \<times> int) option \<Rightarrow> 'w session \<Rightarrow> 'w result" where
  "winched fl scr s =
     (case scr of
        None \<Rightarrow> Ends OutcomeDisconnected s
      | Some z \<Rightarrow> (case lay_out_again fl (s\<lparr>ss_size := z\<rparr>) of None \<Rightarrow> Panic | Some s1 \<Rightarrow> On (paint s1)))"

definition post :: "event \<Rightarrow> 'w session \<Rightarrow> 'w session" where
  "post e s = s\<lparr>ss_events := ss_events s @ [e]\<rparr>"

text \<open>
  One step of the session's select, or of one of the readers. A reader reports what arrives while there is room in
  the channel, and its connection's end once, as the last thing it does.
\<close>

inductive ses_step :: "'w weights \<Rightarrow> (int \<Rightarrow> bool) \<Rightarrow> (int \<Rightarrow> bytes option) \<Rightarrow> bool \<Rightarrow> 'w session \<Rightarrow> 'w result \<Rightarrow> bool"
  for fl mark colour ro where
  step_typed: "ss_data_on s \<Longrightarrow> ses_step fl mark colour ro s (typed ok chunk s)"
| step_fence: "ss_data_on s \<Longrightarrow> ses_step fl mark colour ro s (On (met_fence waiting s))"
| step_command: "ss_keys_on s \<Longrightarrow> ses_step fl mark colour ro s (commanded fl ro saved drained c s)"
| step_ended: "ses_step fl mark colour ro s (On (s\<lparr>ss_data_on := False, ss_keys_on := False\<rparr>))"
| step_event: "ss_events s = e # es \<Longrightarrow>
    ses_step fl mark colour ro s (happened fl mark colour ans saved recent e (s\<lparr>ss_events := es\<rparr>))"
| step_due: "ss_owed s \<Longrightarrow> ses_step fl mark colour ro s (On (paint (s\<lparr>ss_owed := False\<rparr>)))"
| step_winch: "ses_step fl mark colour ro s (winched fl scr s)"
| step_reads: "(p, c) \<in> set (ss_readers s) \<Longrightarrow> length (ss_events s) < event_room \<Longrightarrow>
    ev_pane e = p \<Longrightarrow> ev_from e = c \<Longrightarrow> \<not> ev_gone e \<Longrightarrow> ses_step fl mark colour ro s (On (post e s))"
| step_reader_ends: "(p, c) \<in> set (ss_readers s) \<Longrightarrow> length (ss_events s) < event_room \<Longrightarrow>
    ses_step fl mark colour ro s
      (On (post ((no_event p c)\<lparr>ev_gone := True\<rparr>) (s\<lparr>ss_readers := remove1 (p, c) (ss_readers s)\<rparr>)))"

inductive ses_reach :: "'w weights \<Rightarrow> (int \<Rightarrow> bool) \<Rightarrow> (int \<Rightarrow> bytes option) \<Rightarrow> bool \<Rightarrow> 'w session \<Rightarrow> 'w session \<Rightarrow> bool"
  for fl mark colour ro s0 where
  reach_start: "ses_reach fl mark colour ro s0 s0"
| reach_step: "ses_reach fl mark colour ro s0 s \<Longrightarrow> ses_step fl mark colour ro s (On s') \<Longrightarrow> ses_reach fl mark colour ro s0 s'"

end
