(* ===== verification/PanesSafe.thy ===== *)
theory PanesSafe
  imports Panes
begin

text \<open>
  What holds of a rendered session in every interleaving: the panes on the screen keep their connections and
  their readers, the keyboard keeps its pane, and what has changed is drawn or due to be drawn.
\<close>

section \<open>What the invariant looks at\<close>

type_synonym marks = "nat \<times> bool \<times> bool"

definition marks_of :: "'w live_pane \<Rightarrow> marks" where
  "marks_of q = (lp_client q, lp_closed q, lp_finished q \<or> lp_frozen q)"

record facts =
  fa_panes :: "nat list"
  fa_marks :: "marks list"
  fa_closed :: "bool list"
  fa_readers :: "(nat \<times> nat) list"
  fa_events :: "event list"

definition facts_of :: "'w session \<Rightarrow> facts" where
  "facts_of s = \<lparr>fa_panes = ss_panes s, fa_marks = map marks_of (ss_store s),
     fa_closed = map cn_closed (ss_conns s), fa_readers = ss_readers s, fa_events = ss_events s\<rparr>"

definition client_in :: "facts \<Rightarrow> nat \<Rightarrow> nat" where
  "client_in a p = fst (fa_marks a ! p)"

definition closed_in :: "facts \<Rightarrow> nat \<Rightarrow> bool" where
  "closed_in a p = fst (snd (fa_marks a ! p))"

definition silent_in :: "facts \<Rightarrow> nat \<Rightarrow> bool" where
  "silent_in a p = snd (snd (fa_marks a ! p))"

definition gone_event :: "nat \<Rightarrow> nat \<Rightarrow> event \<Rightarrow> bool" where
  "gone_event p c e \<longleftrightarrow> ev_gone e \<and> ev_pane e = p \<and> ev_from e = c"

text \<open>Somebody reads the pane's connection, or its end is on its way, or the pane shows that it is over.\<close>

definition attended :: "facts \<Rightarrow> nat \<Rightarrow> bool" where
  "attended a p \<longleftrightarrow> (p, client_in a p) \<in> set (fa_readers a)
     \<or> (\<exists>e \<in> set (fa_events a). gone_event p (client_in a p) e) \<or> silent_in a p"

definition panes_ok :: "facts \<Rightarrow> bool" where
  "panes_ok a \<longleftrightarrow> distinct (fa_panes a) \<and> (\<forall>p \<in> set (fa_panes a). p < length (fa_marks a))
     \<and> (\<forall>p < length (fa_marks a). closed_in a p \<longleftrightarrow> p \<notin> set (fa_panes a))"

definition conns_ok :: "facts \<Rightarrow> bool" where
  "conns_ok a \<longleftrightarrow> (\<forall>p \<in> set (fa_panes a). client_in a p < length (fa_closed a) \<and> \<not> fa_closed a ! client_in a p)
     \<and> inj_on (client_in a) (set (fa_panes a))"

definition readers_ok :: "facts \<Rightarrow> bool" where
  "readers_ok a \<longleftrightarrow> distinct (map snd (fa_readers a))
     \<and> (\<forall>(p, c) \<in> set (fa_readers a). p < length (fa_marks a) \<and> c < length (fa_closed a))"

definition events_ok :: "facts \<Rightarrow> bool" where
  "events_ok a \<longleftrightarrow> (\<forall>e \<in> set (fa_events a). ev_pane e < length (fa_marks a) \<and> ev_from e < length (fa_closed a)
     \<and> (ev_gone e \<longrightarrow> ev_from e \<notin> snd ` set (fa_readers a)))"

text \<open>\<open>X\<close>: panes that need not be attended right now.\<close>

definition facts_ok :: "nat set \<Rightarrow> facts \<Rightarrow> bool" where
  "facts_ok X a \<longleftrightarrow> panes_ok a \<and> conns_ok a \<and> readers_ok a \<and> events_ok a
     \<and> (\<forall>p \<in> set (fa_panes a) - X. attended a p)"

definition session_ok :: "'w session \<Rightarrow> bool" where
  "session_ok s \<longleftrightarrow> facts_ok {} (facts_of s) \<and> ss_focus s < length (ss_panes s)"

section \<open>Operations that leave it as it is\<close>

named_theorems kept_facts \<comment> \<open>operations that change nothing the invariant looks at\<close>

lemma set_pane_facts:
  assumes "\<And>q. marks_of (f q) = marks_of q"
  shows "facts_of (set_pane p f s) = facts_of s"
proof -
  have "map marks_of ((ss_store s)[p := f (ss_store s ! p)]) = map marks_of (ss_store s)"
    by (cases "p < length (ss_store s)") (simp_all add: map_update assms list_update_same_conv list_update_beyond)
  then show ?thesis by (simp add: facts_of_def set_pane_def)
qed

lemma set_conn_facts:
  assumes "\<And>k. cn_closed (f k) = cn_closed k"
  shows "facts_of (set_conn c f s) = facts_of s"
proof -
  have "map cn_closed ((ss_conns s)[c := f (ss_conns s ! c)]) = map cn_closed (ss_conns s)"
    by (cases "c < length (ss_conns s)") (simp_all add: map_update assms list_update_same_conv list_update_beyond)
  then show ?thesis by (simp add: facts_of_def set_conn_def)
qed

lemma send_to_facts [kept_facts]: "facts_of (send_to c x s) = facts_of s"
  unfolding send_to_def by (rule set_conn_facts) simp

lemma note_facts [kept_facts]:
  "facts_of (say_note n s) = facts_of s" "facts_of (stale s) = facts_of s" "facts_of (paint s) = facts_of s"
  "facts_of (paint_soon recent s) = facts_of s"
  by (simp_all add: say_note_def stale_def paint_def paint_soon_def facts_of_def)

lemma set_pane_kept [kept_facts]:
  "facts_of (set_pane p (\<lambda>q. q\<lparr>lp_rect := r\<rparr>) s) = facts_of s"
  "facts_of (set_pane p (\<lambda>q. q\<lparr>lp_weight := g q\<rparr>) s) = facts_of s"
  "facts_of (set_pane p (\<lambda>q. q\<lparr>lp_term := h q\<rparr>) s) = facts_of s"
  "facts_of (set_pane p (\<lambda>q. q\<lparr>lp_scroll := k q\<rparr>) s) = facts_of s"
  "facts_of (set_pane p (\<lambda>q. q\<lparr>lp_service := n\<rparr>) s) = facts_of s"
  "facts_of (set_pane p (\<lambda>q. q\<lparr>lp_told := m q\<rparr>) s) = facts_of s"
  by (rule set_pane_facts, simp add: marks_of_def)+

lemma set_rects_facts [kept_facts]: "facts_of (set_rects ps rs s) = facts_of s"
  by (induction ps rs s rule: set_rects.induct) (simp_all add: kept_facts)

lemma fix_weights_facts [kept_facts]: "facts_of (fix_weights fl ps s) = facts_of s"
  by (induction fl ps s rule: fix_weights.induct) (simp_all add: kept_facts)

lemma layout_panes_facts [kept_facts]: "facts_of (layout_panes fl s) = facts_of s"
  by (simp add: layout_panes_def Let_def kept_facts)

lemma focus_facts [kept_facts]: "facts_of (s\<lparr>ss_focus := f\<rparr>) = facts_of s" "facts_of (s\<lparr>ss_in_rows := b\<rparr>) = facts_of s"
  "facts_of (s\<lparr>ss_focus := f, ss_in_rows := b\<rparr>) = facts_of s"
  by (simp_all add: facts_of_def)

lemma put_facts: "facts_of (s\<lparr>ss_in_rows := b, ss_focus := f, ss_written := w\<rparr>) = facts_of s"
  by (simp add: facts_of_def)

lemma remember_facts [kept_facts]: "facts_of (remember fl ok s) = facts_of s"
  by (simp add: remember_def Let_def say_note_def facts_of_def)

section \<open>The panes on the screen and the focus\<close>

named_theorems kept_screen \<comment> \<open>operations that leave the panes on the screen and the focus alone\<close>

definition screen_of :: "'w session \<Rightarrow> nat list \<times> nat" where
  "screen_of s = (ss_panes s, ss_focus s)"

lemma small_screen [kept_screen]:
  "screen_of (set_pane p f s) = screen_of s" "screen_of (set_conn c g s) = screen_of s"
  "screen_of (send_to c x s) = screen_of s" "screen_of (close_conn c s) = screen_of s"
  "screen_of (say_note n s) = screen_of s" "screen_of (stale s) = screen_of s" "screen_of (paint s) = screen_of s"
  "screen_of (paint_soon recent s) = screen_of s" "screen_of (read_frames p s) = screen_of s"
  by (simp_all add: screen_of_def set_pane_def set_conn_def send_to_def close_conn_def say_note_def stale_def
      paint_def paint_soon_def read_frames_def)

lemma set_rects_screen [kept_screen]: "screen_of (set_rects ps rs s) = screen_of s"
  by (induction ps rs s rule: set_rects.induct) (simp_all add: kept_screen)

lemma fix_weights_screen [kept_screen]: "screen_of (fix_weights fl ps s) = screen_of s"
  by (induction fl ps s rule: fix_weights.induct) (simp_all add: kept_screen)

lemma layout_panes_screen [kept_screen]: "screen_of (layout_panes fl s) = screen_of s"
  by (simp add: layout_panes_def Let_def kept_screen)

lemma resize_panes_kept:
  "resize_panes ps s = Some s' \<Longrightarrow> facts_of s' = facts_of s \<and> screen_of s' = screen_of s"
proof (induction ps s rule: resize_panes.induct)
  case (2 p ps s)
  then show ?case
    by (auto simp: Let_def kept_facts kept_screen bind_eq_Some_conv)
qed simp

lemma lay_out_again_kept:
  "lay_out_again fl s = Some s' \<Longrightarrow> facts_of s' = facts_of s \<and> screen_of s' = screen_of s"
  using resize_panes_kept[of "ss_panes (stale (layout_panes fl s))" "stale (layout_panes fl s)" s']
  by (simp add: lay_out_again_def Let_def kept_facts kept_screen)

lemma remember_screen [kept_screen]: "screen_of (remember fl ok s) = screen_of s"
  by (simp add: remember_def Let_def say_note_def screen_of_def)

section \<open>What the other operations do to it\<close>

lemma facts_okD:
  assumes "facts_ok X a"
  shows "panes_ok a" "conns_ok a" "readers_ok a" "events_ok a" "\<forall>p \<in> set (fa_panes a) - X. attended a p"
  using assms by (simp_all add: facts_ok_def)

text \<open>A pane gets a new connection with a reader of its own, and its old connection is closed.\<close>

definition rewire :: "nat \<Rightarrow> bool \<Rightarrow> facts \<Rightarrow> facts" where
  "rewire p b a = a\<lparr>fa_marks := (fa_marks a)[p := (length (fa_closed a), False, b)],
     fa_closed := (fa_closed a @ [False])[client_in a p := True],
     fa_readers := (p, length (fa_closed a)) # fa_readers a\<rparr>"

lemma rewire_other:
  "q \<noteq> p \<Longrightarrow> client_in (rewire p b a) q = client_in a q"
  "q \<noteq> p \<Longrightarrow> closed_in (rewire p b a) q = closed_in a q"
  "q \<noteq> p \<Longrightarrow> silent_in (rewire p b a) q = silent_in a q"
  by (simp_all add: rewire_def client_in_def closed_in_def silent_in_def)

lemma rewire_same:
  assumes "p < length (fa_marks a)"
  shows "client_in (rewire p b a) p = length (fa_closed a)" "closed_in (rewire p b a) p = False"
  using assms by (simp_all add: rewire_def client_in_def closed_in_def)

lemma rewire_ok:
  assumes "facts_ok (insert p X) a" "p \<in> set (fa_panes a)"
  shows "facts_ok X (rewire p b a)"
proof -
  note ok = facts_okD[OF assms(1)]
  let ?r = "rewire p b a"
  have p: "p < length (fa_marks a)" using ok(1) assms(2) by (auto simp: panes_ok_def)
  have c: "client_in a p < length (fa_closed a)" using ok(2) assms(2) by (auto simp: conns_ok_def)
  have basic: "fa_panes ?r = fa_panes a" "length (fa_marks ?r) = length (fa_marks a)" "fa_events ?r = fa_events a"
    "length (fa_closed ?r) = Suc (length (fa_closed a))" "fa_readers ?r = (p, length (fa_closed a)) # fa_readers a"
    by (simp_all add: rewire_def)
  have 1: "panes_ok ?r"
  proof -
    have "closed_in ?r q \<longleftrightarrow> q \<notin> set (fa_panes a)" if "q < length (fa_marks a)" for q
      using that ok(1) assms(2) rewire_other(2)[of q p b a] rewire_same(2)[OF p, of b]
      by (cases "q = p") (auto simp: panes_ok_def)
    then show ?thesis using ok(1) basic by (simp add: panes_ok_def)
  qed
  have 2: "conns_ok ?r"
  proof -
    have one: "client_in ?r q < length (fa_closed ?r) \<and> \<not> fa_closed ?r ! client_in ?r q" if "q \<in> set (fa_panes a)" for q
    proof (cases "q = p")
      case True
      then show ?thesis using rewire_same(1)[OF p, of b] c by (simp add: basic) (simp add: rewire_def nth_append)
    next
      case False
      then have "client_in a q \<noteq> client_in a p" using ok(2) that assms(2) by (auto simp: conns_ok_def inj_on_def)
      moreover have "client_in a q < length (fa_closed a)" "\<not> fa_closed a ! client_in a q"
        using ok(2) that by (auto simp: conns_ok_def)
      ultimately show ?thesis
        using rewire_other(1)[OF False, of b a] by (simp add: basic) (simp add: rewire_def nth_append)
    qed
    have "inj_on (client_in ?r) (set (fa_panes a))"
    proof (rule inj_onI)
      fix x y assume xy: "x \<in> set (fa_panes a)" "y \<in> set (fa_panes a)" "client_in ?r x = client_in ?r y"
      have lt: "client_in a x < length (fa_closed a)" "client_in a y < length (fa_closed a)"
        using ok(2) xy(1,2) by (auto simp: conns_ok_def)
      show "x = y"
      proof -
        have same: "client_in ?r p = length (fa_closed a)" by (rule rewire_same(1)[OF p])
        consider "x = p" "y = p" | "x = p" "y \<noteq> p" | "x \<noteq> p" "y = p" | "x \<noteq> p" "y \<noteq> p" by blast
        then show ?thesis
        proof cases
          case 2
          then show ?thesis using xy(3) lt(2) same rewire_other(1)[OF 2(2), of b a] by simp
        next
          case 3
          then show ?thesis using xy(3) lt(1) same rewire_other(1)[OF 3(1), of b a] by simp
        next
          case 4
          then have "client_in a x = client_in a y"
            using xy(3) rewire_other(1)[OF 4(1), of b a] rewire_other(1)[OF 4(2), of b a] by simp
          then show ?thesis using ok(2) xy(1,2) by (auto simp: conns_ok_def inj_on_def)
        qed simp
      qed
    qed
    then show ?thesis using one by (simp add: conns_ok_def basic(1))
  qed
  have 3: "readers_ok ?r"
    using ok(3) p by (fastforce simp: readers_ok_def basic)
  have 4: "events_ok ?r" using ok(4) by (fastforce simp: events_ok_def basic)
  have 5: "attended ?r q" if "q \<in> set (fa_panes a) - X" for q
  proof (cases "q = p")
    case True
    then show ?thesis using rewire_same(1)[OF p, of b] by (simp add: attended_def basic)
  next
    case False
    then have "attended a q" using ok(5) that by blast
    then show ?thesis using rewire_other[OF False, of b a] by (auto simp: attended_def basic)
  qed
  show ?thesis using 1 2 3 4 5 by (simp add: facts_ok_def basic(1))
qed

text \<open>A new pane with a connection and a reader.\<close>

definition extend :: "facts \<Rightarrow> facts" where
  "extend a = a\<lparr>fa_panes := fa_panes a @ [length (fa_marks a)],
     fa_marks := fa_marks a @ [(length (fa_closed a), False, False)],
     fa_closed := fa_closed a @ [False],
     fa_readers := (length (fa_marks a), length (fa_closed a)) # fa_readers a\<rparr>"

lemma marks_append:
  assumes "q < length (fa_marks a)" "fa_marks b = fa_marks a @ ms"
  shows "client_in b q = client_in a q" "closed_in b q = closed_in a q" "silent_in b q = silent_in a q"
  using assms by (simp_all add: client_in_def closed_in_def silent_in_def nth_append)

lemma extend_ok:
  assumes "facts_ok {} a"
  shows "facts_ok {} (extend a)"
proof -
  note ok = facts_okD[OF assms]
  let ?r = "extend a" and ?n = "length (fa_marks a)"
  have basic: "fa_panes ?r = fa_panes a @ [?n]" "fa_marks ?r = fa_marks a @ [(length (fa_closed a), False, False)]"
    "fa_events ?r = fa_events a" "fa_closed ?r = fa_closed a @ [False]"
    "fa_readers ?r = (?n, length (fa_closed a)) # fa_readers a"
    by (simp_all add: extend_def)
  have old: "q \<in> set (fa_panes a) \<Longrightarrow> q < ?n" for q using ok(1) by (auto simp: panes_ok_def)
  note same = marks_append[OF _ basic(2)]
  have new: "client_in ?r ?n = length (fa_closed a)" "closed_in ?r ?n = False"
    by (simp_all add: client_in_def closed_in_def basic(2))
  have 1: "panes_ok ?r"
    using ok(1) old same(2) new(2) by (auto simp: panes_ok_def basic less_Suc_eq)
  have 2: "conns_ok ?r"
  proof -
    have lt: "client_in ?r q < length (fa_closed a)" if "q \<in> set (fa_panes a)" for q
      using ok(2) that same(1)[OF old[OF that]] by (auto simp: conns_ok_def)
    have "inj_on (client_in ?r) (insert ?n (set (fa_panes a)))"
    proof (rule inj_onI)
      fix x y assume xy: "x \<in> insert ?n (set (fa_panes a))" "y \<in> insert ?n (set (fa_panes a))" "client_in ?r x = client_in ?r y"
      then show "x = y"
        using lt[of x] lt[of y] new(1) same(1)[OF old, of x] same(1)[OF old, of y] ok(2)
        by (auto simp: conns_ok_def inj_on_def)
    qed
    then show ?thesis
      using ok(2) lt new(1) same(1)[OF old] by (auto simp: conns_ok_def basic nth_append)
  qed
  have 3: "readers_ok ?r" using ok(3) by (fastforce simp: readers_ok_def basic)
  have 4: "events_ok ?r" using ok(4) by (fastforce simp: events_ok_def basic)
  have 5: "attended ?r q" if "q \<in> set (fa_panes ?r)" for q
  proof (cases "q = ?n")
    case True
    then show ?thesis using new(1) by (simp add: attended_def basic)
  next
    case False
    then have "q \<in> set (fa_panes a)" "attended a q" using that ok(5) by (auto simp: basic)
    then show ?thesis using same[OF old] by (auto simp: attended_def basic)
  qed
  show ?thesis using 1 2 3 4 5 by (simp add: facts_ok_def)
qed

text \<open>An attach that was refused leaves a closed connection behind.\<close>

definition refuse :: "facts \<Rightarrow> facts" where
  "refuse a = a\<lparr>fa_closed := fa_closed a @ [True]\<rparr>"

lemma refuse_ok:
  assumes "facts_ok X a"
  shows "facts_ok X (refuse a)"
proof -
  note ok = facts_okD[OF assms]
  have same: "client_in (refuse a) = client_in a" "closed_in (refuse a) = closed_in a" "silent_in (refuse a) = silent_in a"
    by (simp_all add: fun_eq_iff client_in_def closed_in_def silent_in_def refuse_def)
  have "panes_ok (refuse a)" using ok(1) unfolding panes_ok_def same by (simp add: refuse_def)
  moreover have "conns_ok (refuse a)"
    using ok(2) unfolding conns_ok_def same by (auto simp: refuse_def nth_append)
  moreover have "readers_ok (refuse a)"
    using ok(3) unfolding readers_ok_def by (auto simp: refuse_def)
  moreover have "events_ok (refuse a)"
    using ok(4) unfolding events_ok_def by (auto simp: refuse_def)
  moreover have "\<forall>p \<in> set (fa_panes (refuse a)) - X. attended (refuse a) p"
    using ok(5) unfolding attended_def same by (simp add: refuse_def)
  ultimately show ?thesis unfolding facts_ok_def by blast
qed

text \<open>A pane leaves the screen, and its connection is closed.\<close>

definition drop_fact :: "nat \<Rightarrow> facts \<Rightarrow> facts" where
  "drop_fact i a = (let p = fa_panes a ! i in
     a\<lparr>fa_panes := without i (fa_panes a), fa_marks := (fa_marks a)[p := (client_in a p, True, silent_in a p)],
       fa_closed := (fa_closed a)[client_in a p := True]\<rparr>)"

lemma set_without:
  assumes "distinct ps" "i < length ps"
  shows "set (without i ps) = set ps - {ps ! i}" "distinct (without i ps)"
proof -
  have ps: "ps = take i ps @ ps ! i # drop (Suc i) ps" using assms(2) by (rule id_take_nth_drop)
  have "distinct (take i ps @ ps ! i # drop (Suc i) ps)" using assms(1) ps by simp
  then have d: "ps ! i \<notin> set (take i ps)" "ps ! i \<notin> set (drop (Suc i) ps)" "distinct (take i ps @ drop (Suc i) ps)"
    by auto
  show "distinct (without i ps)" using d(3) by (simp add: without_def)
  have "set ps = set (take i ps) \<union> {ps ! i} \<union> set (drop (Suc i) ps)" by (subst ps) auto
  then show "set (without i ps) = set ps - {ps ! i}" using d(1,2) by (auto simp: without_def)
qed

lemma drop_ok:
  assumes "facts_ok {} a" "i < length (fa_panes a)"
  shows "facts_ok {} (drop_fact i a)"
proof -
  note ok = facts_okD[OF assms(1)]
  define p where "p = fa_panes a ! i"
  have pin: "p \<in> set (fa_panes a)" using assms(2) by (simp add: p_def)
  have p: "p < length (fa_marks a)" using ok(1) pin by (auto simp: panes_ok_def)
  have c: "client_in a p < length (fa_closed a)" using ok(2) pin by (auto simp: conns_ok_def)
  let ?r = "drop_fact i a"
  have r: "?r = a\<lparr>fa_panes := without i (fa_panes a), fa_marks := (fa_marks a)[p := (client_in a p, True, silent_in a p)],
       fa_closed := (fa_closed a)[client_in a p := True]\<rparr>"
    by (simp add: drop_fact_def p_def Let_def)
  have ps: "set (fa_panes ?r) = set (fa_panes a) - {p}" "distinct (fa_panes ?r)"
    using set_without[of "fa_panes a" i] ok(1) assms(2) by (simp_all add: r p_def panes_ok_def)
  have basic: "fa_readers ?r = fa_readers a" "fa_events ?r = fa_events a" "length (fa_marks ?r) = length (fa_marks a)"
    "length (fa_closed ?r) = length (fa_closed a)" "fa_closed ?r = (fa_closed a)[client_in a p := True]"
    by (simp_all add: r)
  have other: "client_in ?r q = client_in a q" "silent_in ?r q = silent_in a q" for q
    using p by (cases "q = p"; simp add: r client_in_def silent_in_def)+
  have cl: "closed_in ?r q \<longleftrightarrow> closed_in a q \<or> q = p" for q
    using p by (auto simp: r closed_in_def nth_list_update)
  have 1: "panes_ok ?r" using ok(1) ps pin by (auto simp: panes_ok_def basic cl)
  have 2: "conns_ok ?r"
  proof -
    have "\<not> fa_closed ?r ! client_in a q" if "q \<in> set (fa_panes a) - {p}" for q
    proof -
      have "client_in a q \<noteq> client_in a p" using ok(2) pin that by (auto simp: conns_ok_def inj_on_def)
      then show ?thesis using ok(2) that by (auto simp: conns_ok_def basic)
    qed
    moreover have "inj_on (client_in ?r) (set (fa_panes ?r))"
      using ok(2) by (auto simp: conns_ok_def other ps inj_on_def)
    ultimately show ?thesis using ok(2) by (auto simp: conns_ok_def other ps basic(4))
  qed
  have 3: "readers_ok ?r" using ok(3) by (simp add: readers_ok_def basic)
  have 4: "events_ok ?r" using ok(4) by (simp add: events_ok_def basic)
  have 5: "\<forall>q \<in> set (fa_panes ?r). attended ?r q" using ok(5) by (auto simp: ps attended_def other basic)
  show ?thesis using 1 2 3 4 5 by (simp add: facts_ok_def)
qed

text \<open>A pane shows that it is over, or that it has lost its connection.\<close>

definition silence :: "nat \<Rightarrow> facts \<Rightarrow> facts" where
  "silence p a = a\<lparr>fa_marks := (fa_marks a)[p := (client_in a p, closed_in a p, True)]\<rparr>"

lemma silence_ok:
  assumes "facts_ok (insert p X) a"
  shows "facts_ok X (silence p a)"
proof -
  note ok = facts_okD[OF assms]
  let ?r = "silence p a"
  have basic: "fa_panes ?r = fa_panes a" "fa_readers ?r = fa_readers a" "fa_events ?r = fa_events a"
    "length (fa_marks ?r) = length (fa_marks a)" "fa_closed ?r = fa_closed a"
    by (simp_all add: silence_def)
  have same: "client_in ?r = client_in a" "closed_in ?r = closed_in a"
  proof -
    have "client_in ?r q = client_in a q \<and> closed_in ?r q = closed_in a q" for q
      by (cases "p < length (fa_marks a)"; cases "q = p")
        (simp_all add: silence_def client_in_def closed_in_def list_update_beyond)
    then show "client_in ?r = client_in a" "closed_in ?r = closed_in a" by auto
  qed
  have "silent_in ?r q \<longleftrightarrow> silent_in a q \<or> q = p" if "q < length (fa_marks a)" for q
    using that by (cases "q = p") (simp_all add: silence_def silent_in_def)
  moreover have "q < length (fa_marks a)" if "q \<in> set (fa_panes a)" for q using ok(1) that by (auto simp: panes_ok_def)
  ultimately have "\<forall>q \<in> set (fa_panes a) - X. attended ?r q"
    using ok(5) by (auto simp: attended_def same basic)
  then show ?thesis
    using ok(1-4) unfolding facts_ok_def panes_ok_def conns_ok_def readers_ok_def events_ok_def same basic by blast
qed

text \<open>The next event leaves the channel.\<close>

lemma pop_ok:
  assumes "facts_ok {} a" "fa_events a = e # es"
  shows "facts_ok (if ev_gone e \<and> ev_from e = client_in a (ev_pane e) then {ev_pane e} else {}) (a\<lparr>fa_events := es\<rparr>)"
proof -
  note ok = facts_okD[OF assms(1)]
  have same: "client_in (a\<lparr>fa_events := es\<rparr>) = client_in a" "closed_in (a\<lparr>fa_events := es\<rparr>) = closed_in a"
    "silent_in (a\<lparr>fa_events := es\<rparr>) = silent_in a"
    by (simp_all add: fun_eq_iff client_in_def closed_in_def silent_in_def)
  have "panes_ok (a\<lparr>fa_events := es\<rparr>)" using ok(1) unfolding panes_ok_def same by simp
  moreover have "conns_ok (a\<lparr>fa_events := es\<rparr>)" using ok(2) unfolding conns_ok_def same by simp
  moreover have "readers_ok (a\<lparr>fa_events := es\<rparr>)" using ok(3) by (simp add: readers_ok_def)
  moreover have "events_ok (a\<lparr>fa_events := es\<rparr>)" using ok(4) assms(2) by (simp add: events_ok_def)
  moreover have "attended (a\<lparr>fa_events := es\<rparr>) p"
    if "p \<in> set (fa_panes a)" "\<not> (ev_gone e \<and> ev_from e = client_in a (ev_pane e) \<and> p = ev_pane e)" for p
  proof -
    have "attended a p" using ok(5) that(1) by blast
    moreover have "\<not> gone_event p (client_in a p) e" using that(2) by (auto simp: gone_event_def)
    ultimately show ?thesis unfolding attended_def same using assms(2) by auto
  qed
  ultimately show ?thesis by (auto simp: facts_ok_def)
qed

lemma post_ok:
  assumes "facts_ok {} a" "(p, c) \<in> set (fa_readers a)" "ev_pane e = p" "ev_from e = c" "\<not> ev_gone e"
  shows "facts_ok {} (a\<lparr>fa_events := fa_events a @ [e]\<rparr>)"
proof -
  let ?r = "a\<lparr>fa_events := fa_events a @ [e]\<rparr>"
  note ok = facts_okD[OF assms(1)]
  have same: "client_in ?r = client_in a" "closed_in ?r = closed_in a" "silent_in ?r = silent_in a"
    by (simp_all add: fun_eq_iff client_in_def closed_in_def silent_in_def)
  have "panes_ok ?r" using ok(1) unfolding panes_ok_def same by simp
  moreover have "conns_ok ?r" using ok(2) unfolding conns_ok_def same by simp
  moreover have "readers_ok ?r" using ok(3) by (simp add: readers_ok_def)
  moreover have "events_ok ?r" using ok(3,4) assms(2-5) by (auto simp: events_ok_def readers_ok_def)
  moreover have "\<forall>p \<in> set (fa_panes ?r). attended ?r p" using ok(5) unfolding attended_def same by auto
  ultimately show ?thesis by (simp add: facts_ok_def)
qed

lemma reader_end_ok:
  assumes "facts_ok {} a" "(p, c) \<in> set (fa_readers a)" "ev_pane e = p" "ev_from e = c" "ev_gone e"
  shows "facts_ok {} (a\<lparr>fa_readers := remove1 (p, c) (fa_readers a), fa_events := fa_events a @ [e]\<rparr>)"
proof -
  let ?r = "a\<lparr>fa_readers := remove1 (p, c) (fa_readers a), fa_events := fa_events a @ [e]\<rparr>"
  note ok = facts_okD[OF assms(1)]
  have same: "client_in ?r = client_in a" "closed_in ?r = closed_in a" "silent_in ?r = silent_in a"
    by (simp_all add: fun_eq_iff client_in_def closed_in_def silent_in_def)
  have d: "distinct (map snd (fa_readers a))" using ok(3) by (simp add: readers_ok_def)
  then have dr: "distinct (fa_readers a)" by (simp add: distinct_map)
  have sub: "set (remove1 (p, c) (fa_readers a)) = set (fa_readers a) - {(p, c)}" using dr by (rule set_remove1_eq)
  have out: "c \<notin> snd ` set (remove1 (p, c) (fa_readers a))"
  proof
    assume "c \<in> snd ` set (remove1 (p, c) (fa_readers a))"
    then obtain x where "x \<in> set (remove1 (p, c) (fa_readers a))" "snd x = c" by blast
    then have x: "x \<in> set (fa_readers a)" "x \<noteq> (p, c)" "snd x = snd (p, c)" unfolding sub by auto
    have "inj_on snd (set (fa_readers a))" using d by (simp add: distinct_map)
    from inj_onD[OF this x(3) x(1) assms(2)] x(2) show False by simp
  qed
  have "panes_ok ?r" using ok(1) unfolding panes_ok_def same by simp
  moreover have "conns_ok ?r" using ok(2) unfolding conns_ok_def same by simp
  moreover have "readers_ok ?r"
    using ok(3) dr unfolding readers_ok_def by (auto simp: distinct_map inj_on_def)
  moreover have "events_ok ?r"
    using ok(3,4) assms(2-5) out unfolding events_ok_def readers_ok_def by (auto simp: sub)
  moreover have "attended ?r q" if "q \<in> set (fa_panes a)" for q
  proof (cases "(q, client_in a q) = (p, c)")
    case True
    then have "q = p" "client_in a q = c" by auto
    then have "gone_event q (client_in a q) e" using assms(3-5) unfolding gone_event_def by metis
    then show ?thesis unfolding attended_def same by simp
  next
    case False
    then show ?thesis using ok(5) that unfolding attended_def same by (auto simp: sub)
  qed
  ultimately show ?thesis by (simp add: facts_ok_def)
qed

section \<open>The session's operations\<close>

lemma facts_sel [simp]:
  "fa_panes (facts_of s) = ss_panes s" "fa_readers (facts_of s) = ss_readers s" "fa_events (facts_of s) = ss_events s"
  "length (fa_marks (facts_of s)) = length (ss_store s)" "length (fa_closed (facts_of s)) = length (ss_conns s)"
  by (simp_all add: facts_of_def)

lemma facts_in:
  assumes "p < length (ss_store s)"
  shows "client_in (facts_of s) p = lp_client (pane_of s p)" "closed_in (facts_of s) p = lp_closed (pane_of s p)"
    "silent_in (facts_of s) p = (lp_finished (pane_of s p) \<or> lp_frozen (pane_of s p))"
  using assms by (simp_all add: facts_of_def client_in_def closed_in_def silent_in_def marks_of_def pane_of_def)

lemma on_screen:
  assumes "facts_ok X (facts_of s)" "p \<in> set (ss_panes s)"
  shows "p < length (ss_store s)" "\<not> lp_closed (pane_of s p)" "lp_client (pane_of s p) < length (ss_conns s)"
    "client_in (facts_of s) p = lp_client (pane_of s p)"
proof -
  note ok = facts_okD[OF assms(1)]
  show p: "p < length (ss_store s)" using ok(1) assms(2) by (simp add: panes_ok_def)
  show "\<not> lp_closed (pane_of s p)" using ok(1) assms(2) p facts_in(2)[OF p] by (auto simp: panes_ok_def)
  show "client_in (facts_of s) p = lp_client (pane_of s p)" by (rule facts_in(1)[OF p])
  then show "lp_client (pane_of s p) < length (ss_conns s)" using ok(2) assms(2) by (auto simp: conns_ok_def)
qed

lemma new_conn_facts:
  assumes "new_conn ro s = (c, s1)"
  shows "c = length (ss_conns s)" "facts_of (close_conn c s1) = refuse (facts_of s)" "screen_of s1 = screen_of s"
    "ss_store s1 = ss_store s" "ss_stale s1 = ss_stale s" "ss_owed s1 = ss_owed s"
  using assms by (auto simp: new_conn_def close_conn_def set_conn_def facts_of_def refuse_def screen_of_def)

lemma swapped_facts:
  assumes "new_conn ro s = (c, s1)" "p < length (ss_store s)" "\<And>q. lp_client (f q) = c"
    "lp_client (pane_of s p) < length (ss_conns s)"
    "lp_closed (f (pane_of s p)) = False" "(lp_finished (f (pane_of s p)) \<or> lp_frozen (f (pane_of s p))) = b"
  shows "facts_of (read_frames p (set_pane p f (close_conn (lp_client (pane_of s p)) s1))) = rewire p b (facts_of s)"
proof -
  have s1: "s1 = s\<lparr>ss_conns := ss_conns s @ [\<lparr>cn_read_only = ro, cn_closed = False, cn_sent = []\<rparr>]\<rparr>" "c = length (ss_conns s)"
    using assms(1) by (auto simp: new_conn_def)
  show ?thesis
    using assms(2-6) unfolding s1
    by (simp add: facts_of_def rewire_def read_frames_def set_pane_def close_conn_def set_conn_def pane_of_def map_update
        marks_of_def client_in_def)
qed

lemma close_conn_store [simp]: "ss_store (close_conn c s) = ss_store s"
  by (simp add: close_conn_def set_conn_def)

lemma swap_pane_cases:
  assumes "facts_ok X (facts_of s)" "p \<in> set (ss_panes s)"
  shows "swap_pane p n ans s = (r, s') \<Longrightarrow>
     (r \<noteq> None \<longrightarrow> (facts_of s' = facts_of s \<or> facts_of s' = refuse (facts_of s)))
     \<and> (r = None \<longrightarrow> facts_of (read_frames p s') = rewire p False (facts_of s))
     \<and> screen_of s' = screen_of s"
proof -
  note os = on_screen[OF assms]
  assume a: "swap_pane p n ans s = (r, s')"
  obtain c s1 where nc: "new_conn (cn_read_only (ss_conns s ! lp_client (pane_of s p))) s = (c, s1)"
    by (cases "new_conn (cn_read_only (ss_conns s ! lp_client (pane_of s p))) s")
  note nf = new_conn_facts[OF nc]
  show ?thesis
  proof (cases ans)
    case (No_daemon e)
    then show ?thesis using a by (auto simp: swap_pane_def)
  next
    case (Refused e)
    then show ?thesis using a nc nf by (auto simp: swap_pane_def kept_screen)
  next
    case (Attached running)
    have st: "read_frames p (stale t) = stale (read_frames p t)" for t :: "'w session"
      by (simp add: read_frames_def stale_def pane_of_def)
    have "facts_of (read_frames p (set_pane p (\<lambda>q. q\<lparr>lp_client := c, lp_service := n, lp_scroll := 0, lp_finished := False,
        lp_frozen := False, lp_was_running := running,
        lp_term := new_emu (rc_cols (lp_rect q)) (rc_rows (lp_rect q))\<rparr>) (close_conn (lp_client (pane_of s p)) s1)))
        = rewire p False (facts_of s)"
      by (rule swapped_facts[OF nc os(1) _ os(3)]) (use os(2) in simp_all)
    then show ?thesis using a Attached nc nf(3) by (auto simp: swap_pane_def Let_def kept_screen st kept_facts)
  qed
qed

lemma reopen_pane_cases:
  assumes "facts_ok X (facts_of s)" "p \<in> set (ss_panes s)"
  shows "reopen_pane p ans s = (r, s') \<Longrightarrow>
     (r \<noteq> None \<longrightarrow> (facts_of s' = facts_of s \<or> facts_of s' = refuse (facts_of s)) \<and> ss_store s' = ss_store s)
     \<and> (r = None \<longrightarrow> facts_of (read_frames p s') = rewire p (lp_finished (pane_of s p) \<or> lp_frozen (pane_of s p)) (facts_of s))
     \<and> screen_of s' = screen_of s"
proof -
  note os = on_screen[OF assms]
  assume a: "reopen_pane p ans s = (r, s')"
  obtain c s1 where nc: "new_conn (cn_read_only (ss_conns s ! lp_client (pane_of s p))) s = (c, s1)"
    by (cases "new_conn (cn_read_only (ss_conns s ! lp_client (pane_of s p))) s")
  note nf = new_conn_facts[OF nc]
  show ?thesis
  proof (cases ans)
    case (No_daemon e)
    then show ?thesis using a by (auto simp: reopen_pane_def)
  next
    case (Refused e)
    then show ?thesis using a nc nf by (auto simp: reopen_pane_def kept_screen)
  next
    case (Attached running)
    have "facts_of (read_frames p (set_pane p (\<lambda>q. q\<lparr>lp_client := c\<rparr>) (close_conn (lp_client (pane_of s p)) s1)))
        = rewire p (lp_finished (pane_of s p) \<or> lp_frozen (pane_of s p)) (facts_of s)"
      by (rule swapped_facts[OF nc os(1) _ os(3)]) (use os(2) in simp_all)
    then show ?thesis using a Attached nc nf(3) by (auto simp: reopen_pane_def Let_def kept_screen)
  qed
qed

lemma facts_ok_weaken: "facts_ok X a \<Longrightarrow> X \<subseteq> Y \<Longrightarrow> facts_ok Y a"
  by (auto simp: facts_ok_def)

lemma session_okI:
  assumes "facts_ok {} (facts_of s)" "screen_of s' = screen_of t" "facts_of s' = facts_of s" "ss_focus t < length (ss_panes t)"
  shows "session_ok s'"
  using assms by (simp add: session_ok_def screen_of_def)

lemma session_ok_same: "session_ok s \<Longrightarrow> facts_of s' = facts_of s \<Longrightarrow> screen_of s' = screen_of s \<Longrightarrow> session_ok s'"
  by (simp add: session_ok_def screen_of_def)

lemma session_ok_refuse:
  "session_ok s \<Longrightarrow> facts_of s' = facts_of s \<or> facts_of s' = refuse (facts_of s) \<Longrightarrow> screen_of s' = screen_of s \<Longrightarrow> session_ok s'"
  using refuse_ok[of "{}" "facts_of s"] by (auto simp: session_ok_def screen_of_def)

lemma session_ok_focused:
  assumes "session_ok s"
  shows "focused s \<in> set (ss_panes s)" "facts_ok {} (facts_of s)" "ss_panes s \<noteq> []"
  using assms by (auto simp: session_ok_def focused_def)

lemma session_ok_rewire:
  assumes "session_ok s" "p \<in> set (ss_panes s)" "facts_of s' = rewire p b (facts_of s)" "screen_of s' = screen_of s"
  shows "session_ok s'"
proof -
  have "facts_ok {} (rewire p b (facts_of s))"
    using assms(1,2) facts_ok_weaken[of "{}" "facts_of s" "{p}"] by (intro rewire_ok) (auto simp: session_ok_def)
  then show ?thesis using assms by (simp add: session_ok_def screen_of_def)
qed

lemma session_ok_small:
  "session_ok (paint s) = session_ok s" "session_ok (say_note n s) = session_ok s" "session_ok (stale s) = session_ok s"
  "session_ok (remember fl ok s) = session_ok s" "session_ok (paint_soon recent s) = session_ok s"
  "session_ok (send_to c x s) = session_ok s"
  using session_ok_same kept_facts kept_screen by metis+

lemma swap_focused_ok:
  assumes "session_ok s"
  shows "session_ok (swap_focused n ans s)"
proof -
  note f = session_ok_focused[OF assms]
  obtain r s' where sw: "swap_pane (focused s) n ans s = (r, s')" by (cases "swap_pane (focused s) n ans s")
  note c = swap_pane_cases[OF f(2,1) sw]
  show ?thesis
  proof (cases r)
    case None
    then have "session_ok (read_frames (focused s) s')"
      using c session_ok_rewire[OF assms f(1), of "read_frames (focused s) s'" False] by (simp add: kept_screen)
    then show ?thesis using sw None by (simp add: swap_focused_def)
  next
    case (Some e)
    then have "session_ok s'" using c session_ok_refuse[OF assms, of s'] by simp
    then show ?thesis using sw Some by (simp add: swap_focused_def session_ok_small)
  qed
qed

text \<open>A pane is swapped, read, and a note is made: what \<open>Create\<close> and \<open>Revive\<close> do.\<close>

lemma swap_read_ok:
  assumes "session_ok s" "swap_pane (focused s) n ans s = (r, s')"
  shows "r = None \<Longrightarrow> session_ok (read_frames (focused s) s')" "r = Some e \<Longrightarrow> session_ok s'"
  using swap_pane_cases[OF session_ok_focused(2,1)[OF assms(1)] assms(2)] session_ok_refuse[OF assms(1), of s']
    session_ok_rewire[OF assms(1) session_ok_focused(1)[OF assms(1)], of "read_frames (focused s) s'" False]
  by (simp_all add: kept_screen)

lemma open_pane_cases:
  assumes "open_pane fl n ans count ro s = (r, s')"
  shows "case r of
      Inl e \<Rightarrow> facts_of s' = facts_of s \<or> facts_of s' = refuse (facts_of s)
    | Inr q \<Rightarrow> marks_of q = (length (ss_conns s), False, False) \<and> ss_store s' = ss_store s
        \<and> facts_of s' = (facts_of s)\<lparr>fa_closed := fa_closed (facts_of s) @ [False]\<rparr>"
    and "screen_of s' = screen_of s"
proof -
  obtain c s1 where nc: "new_conn ro s = (c, s1)" by (cases "new_conn ro s")
  note nf = new_conn_facts[OF nc]
  have s1: "facts_of s1 = (facts_of s)\<lparr>fa_closed := fa_closed (facts_of s) @ [False]\<rparr>"
    using nc by (auto simp: new_conn_def facts_of_def)
  show "case r of
      Inl e \<Rightarrow> facts_of s' = facts_of s \<or> facts_of s' = refuse (facts_of s)
    | Inr q \<Rightarrow> marks_of q = (length (ss_conns s), False, False) \<and> ss_store s' = ss_store s
        \<and> facts_of s' = (facts_of s)\<lparr>fa_closed := fa_closed (facts_of s) @ [False]\<rparr>"
    and "screen_of s' = screen_of s"
    using assms nc nf s1
    by (auto simp: open_pane_def marks_of_def new_pane_def kept_screen split: attach_answer.split_asm)
qed

lemma read_frames_facts:
  "p < length (ss_store s) \<Longrightarrow>
     facts_of (read_frames p s) = (facts_of s)\<lparr>fa_readers := (p, client_in (facts_of s) p) # fa_readers (facts_of s)\<rparr>"
  by (simp add: read_frames_def facts_in(1)) (simp add: facts_of_def)

lemma add_pane_facts:
  "facts_of (add_pane q s) = (facts_of s)\<lparr>fa_panes := ss_panes s @ [length (ss_store s)],
     fa_marks := fa_marks (facts_of s) @ [marks_of q]\<rparr>"
  by (simp add: add_pane_def facts_of_def)

lemma marks_snoc: "(fa_marks (facts_of s) @ [m]) ! length (ss_store s) = m"
  by (metis facts_sel(4) nth_append_length)

lemma split_ok:
  assumes "session_ok s" "open_pane fl n ans count ro s = (Inr q, s1)"
    "lay_out_again fl ((add_pane q s1)\<lparr>ss_focus := length (ss_panes (add_pane q s1)) - 1, ss_in_rows := rows\<rparr>) = Some s4"
  shows "session_ok (read_frames (length (ss_store s1)) s4)"
proof -
  note oc = open_pane_cases[OF assms(2)]
  note la = lay_out_again_kept[OF assms(3)]
  let ?p = "length (ss_store s)" and ?a = "facts_of s"
  have st: "ss_store s1 = ss_store s" using oc by simp
  have f4: "facts_of s4 = ?a\<lparr>fa_panes := ss_panes s @ [?p], fa_marks := fa_marks ?a @ [(length (ss_conns s), False, False)],
      fa_closed := fa_closed ?a @ [False]\<rparr>"
    using la oc by (simp add: kept_facts add_pane_facts screen_of_def)
  have len: "length (ss_store s4) = Suc ?p" using arg_cong[OF f4, of "\<lambda>a. length (fa_marks a)"] by simp
  have "facts_of (read_frames ?p s4) = extend ?a"
    unfolding read_frames_facts[of ?p s4, simplified len, OF lessI] f4
    by (simp add: extend_def client_in_def marks_snoc)
  moreover have "facts_ok {} (extend ?a)" using extend_ok assms(1) by (auto simp: session_ok_def)
  moreover have "ss_focus s4 < length (ss_panes s4)"
    using la oc by (simp add: screen_of_def add_pane_def)
  moreover have "screen_of (read_frames ?p s4) = screen_of s4" by (simp add: kept_screen)
  ultimately show ?thesis by (simp add: session_ok_def screen_of_def st)
qed

lemma drop_pane_facts:
  assumes "facts_ok {} (facts_of s)" "i < length (ss_panes s)"
  shows "facts_of (drop_pane i s) = drop_fact i (facts_of s)"
proof -
  have p: "ss_panes s ! i \<in> set (ss_panes s)" using assms(2) by simp
  note os = on_screen[OF assms(1) p]
  show ?thesis
    using os facts_in(3)[OF os(1)]
    by (simp add: drop_pane_def drop_fact_def facts_of_def set_pane_def close_conn_def set_conn_def Let_def map_update
        marks_of_def pane_of_def)
qed

lemma length_without: "i < length ps \<Longrightarrow> length (without i ps) = length ps - 1"
  by (simp add: without_def)

lemma dropped_ok:
  assumes "session_ok s" "i < length (ss_panes s)" "f < length (ss_panes s) - 1"
    "lay_out_again fl ((drop_pane i s)\<lparr>ss_focus := f\<rparr>) = Some s'"
  shows "session_ok s'"
proof -
  have ok: "facts_ok {} (facts_of s)" using assms(1) by (simp add: session_ok_def)
  have "facts_of s' = drop_fact i (facts_of s)"
    using lay_out_again_kept[OF assms(4)] drop_pane_facts[OF ok assms(2)] by (simp add: kept_facts)
  moreover have "facts_ok {} (drop_fact i (facts_of s))" using drop_ok ok assms(2) by simp
  moreover have "ss_focus s' = f" "ss_panes s' = without i (ss_panes s)"
    using lay_out_again_kept[OF assms(4)] by (simp_all add: screen_of_def drop_pane_def Let_def)
  ultimately show ?thesis using assms(2,3) by (simp add: session_ok_def length_without)
qed

fun flow_session :: "'w flow \<Rightarrow> 'w session" where
  "flow_session (Skip s) = s"
| "flow_session (Through s) = s"
| "flow_session (Return x s) = s"

lemma shrunk_focus: "length (ss_panes s) \<noteq> 1 \<Longrightarrow> ss_focus s < length (ss_panes s) \<Longrightarrow> f mod (length (ss_panes s) - 1) < length (ss_panes s) - 1"
  by (intro mod_less_divisor) linarith

lemma drop_focused_ok:
  assumes "session_ok s" "length (ss_panes s) \<noteq> 1"
    "lay_out_again fl ((drop_pane (ss_focus s) s)\<lparr>ss_focus := ss_focus s mod length (ss_panes (drop_pane (ss_focus s) s))\<rparr>) = Some s'"
  shows "session_ok s'"
proof -
  have f: "ss_focus s < length (ss_panes s)" using assms(1) by (simp add: session_ok_def)
  then have "length (ss_panes (drop_pane (ss_focus s) s)) = length (ss_panes s) - 1"
    by (simp add: drop_pane_def Let_def length_without)
  then show ?thesis
    using dropped_ok[OF assms(1) f shrunk_focus[OF assms(2) f, of "ss_focus s"]] assms(3) by simp
qed

lemma lay_out_session_ok: "session_ok s \<Longrightarrow> lay_out_again fl s = Some s' \<Longrightarrow> session_ok s'"
  using lay_out_again_kept session_ok_same by blast

lemma do_command_ok:
  assumes "session_ok s" "do_command fl ro c s = Some fw"
  shows "session_ok (flow_session fw)"
proof -
  note small = session_ok_small
  show ?thesis
  proof (cases c)
    case (Split rows unshown ans)
    show ?thesis
    proof (cases unshown)
      case (Inr n)
      obtain r s1 where o: "open_pane fl n ans (Suc (length (ss_panes s))) ro s = (r, s1)"
        by (cases "open_pane fl n ans (Suc (length (ss_panes s))) ro s")
      show ?thesis
      proof (cases r)
        case (Inl e)
        then have "session_ok s1" using open_pane_cases[OF o] session_ok_refuse[OF assms(1), of s1] by simp
        then show ?thesis using assms(2) o Inl Inr Split by (auto simp: small)
      next
        case (Inr q)
        then show ?thesis
          using assms(2) o \<open>unshown = Inr n\<close> Split split_ok[OF assms(1), of fl n ans _ ro q s1]
          by (auto simp: Let_def bind_eq_Some_conv small)
      qed
    qed (use assms Split in \<open>auto simp: small\<close>)
  next
    case (Scroll way)
    then show ?thesis
      using assms session_ok_same[OF assms(1) set_pane_kept(4) small_screen(1)] by (auto simp: Let_def small)
  next
    case (Walk onward n ans)
    then show ?thesis using assms swap_focused_ok by (auto simp: small split: if_split_asm sum.split_asm)
  next
    case (Tab k n ans)
    then show ?thesis using assms swap_focused_ok by (auto simp: small split: if_split_asm sum.split_asm)
  next
    case (Rename ans)
    then show ?thesis
      using assms session_ok_same[OF assms(1) set_pane_kept(5) small_screen(1)]
      by (auto simp: small split: rename_answer.split_asm)
  next
    case (Create made ans)
    then show ?thesis
      using assms swap_read_ok[OF assms(1)]
      by (auto simp: small split: if_split_asm sum.split_asm prod.split_asm option.split_asm)
  next
    case (Remove_it failed)
    then show ?thesis
      using assms drop_focused_ok[OF assms(1)]
      by (auto simp: small Let_def bind_eq_Some_conv split: if_split_asm option.split_asm)
  next
    case (Revive msg ok ans)
    then show ?thesis
      using assms swap_read_ok[OF assms(1)]
      by (auto simp: small split: if_split_asm prod.split_asm option.split_asm)
  next
    case (Grow up)
    have "session_ok (set_pane (focused s) (\<lambda>q. q\<lparr>lp_weight := wt_step fl up (length (ss_panes s)) (lp_weight q)\<rparr>) s)"
      by (rule session_ok_same[OF assms(1) set_pane_kept(2) small_screen(1)])
    then show ?thesis
      using Grow assms lay_out_session_ok by (auto simp: small bind_eq_Some_conv split: if_split_asm)
  next
    case Next_pane
    then show ?thesis
      using assms by (auto simp: small) (auto simp: session_ok_def kept_facts intro!: mod_less_divisor)
  next
    case Close_pane
    then show ?thesis
      using assms drop_focused_ok[OF assms(1)] by (auto simp: small Let_def bind_eq_Some_conv split: if_split_asm)
  qed (use assms in \<open>auto simp: small\<close>)
qed

lemma send_all_kept: "facts_of (send_all bs s) = facts_of s \<and> screen_of (send_all bs s) = screen_of s"
  by (induction bs s rule: send_all.induct) (simp_all add: kept_facts kept_screen)

lemma before_command_ok: "session_ok s \<Longrightarrow> session_ok (before_command drained s)"
  by (rule session_ok_same, assumption)
    (simp_all add: before_command_def send_all_kept, simp_all add: facts_of_def screen_of_def)

lemma commanded_ok:
  assumes "session_ok s" "commanded fl ro saved drained c s = On s'"
  shows "session_ok s'"
proof -
  obtain fw where fw: "do_command fl ro c (before_command drained s) = Some fw"
    using assms(2) by (auto simp: commanded_def split: option.split_asm)
  have "session_ok (flow_session fw)" by (rule do_command_ok[OF before_command_ok[OF assms(1)] fw])
  then show ?thesis using assms(2) fw by (auto simp: commanded_def session_ok_small split: flow.split_asm)
qed

lemma typed_ok: "session_ok s \<Longrightarrow> typed ok chunk s = On s' \<Longrightarrow> session_ok s'"
proof -
  have f: "session_ok (s\<lparr>ss_said_frozen := b\<rparr>) = session_ok s" "session_ok (s\<lparr>ss_said_read_only := b\<rparr>) = session_ok s" for b
    by (simp_all add: session_ok_def facts_of_def)
  show "session_ok s \<Longrightarrow> typed ok chunk s = On s' \<Longrightarrow> session_ok s'"
    by (auto simp: typed_def Let_def session_ok_small f split: if_split_asm)
qed

section \<open>Events\<close>

lemma set_pane_store:
  "pane_of (set_pane p f s) q = (if q = p \<and> p < length (ss_store s) then f (pane_of s p) else pane_of s q)"
  by (cases "p < length (ss_store s)"; cases "q = p") (simp_all add: pane_of_def set_pane_def list_update_beyond)

lemma note_words_kept: "facts_of (note_words e s) = facts_of s \<and> screen_of (note_words e s) = screen_of s"
  by (simp add: note_words_def Let_def kept_facts kept_screen)

lemma answer_colours_kept:
  "facts_of (answer_colours colour p ws s) = facts_of s \<and> screen_of (answer_colours colour p ws s) = screen_of s"
  by (induction colour p ws s rule: answer_colours.induct) (simp_all add: kept_facts kept_screen split: option.split)

lemma draw_data_kept:
  assumes "draw_data mark colour p b s = Some s'"
  shows "facts_of s' = facts_of s \<and> screen_of s' = screen_of s"
proof (cases "b = []")
  case False
  then obtain t ps where f: "feed mark b (lp_term (pane_of s p)) = Some (t, ps)"
    using assms by (auto simp: draw_data_def bind_eq_Some_conv)
  obtain replies t1 where r: "take_replies t = (replies, t1)" by (cases "take_replies t")
  obtain asks t2 where q: "take_colour_asks t1 = (asks, t2)" by (cases "take_colour_asks t1")
  define s1 where "s1 = stale (set_pane p (\<lambda>q. q\<lparr>lp_term := (t2, ps)\<rparr>) s)"
  define s3 where "s3 = answer_colours colour p asks
    (if replies = [] then s1 else send_to (lp_client (pane_of s1 p)) (Answered replies) s1)"
  have s3: "facts_of s3 = facts_of s \<and> screen_of s3 = screen_of s"
    by (simp add: s3_def s1_def answer_colours_kept kept_facts kept_screen)
  have "draw_data mark colour p b s = Some (if lp_scroll (pane_of s3 p) > 0
      then set_pane p (\<lambda>q. q\<lparr>lp_scroll := min (lp_scroll q + newlines b) (max_scroll q)\<rparr>) s3 else s3)"
    using False by (simp add: draw_data_def f r q s3_def s1_def Let_def)
  then show ?thesis using s3 assms by (simp add: kept_facts kept_screen split: if_split_asm)
qed (use assms in \<open>simp add: draw_data_def\<close>)

lemma tell_unknown_kept:
  "facts_of (tell_unknown p ns s) = facts_of s \<and> screen_of (tell_unknown p ns s) = screen_of s"
  by (induction p ns s rule: tell_unknown.induct) (simp_all add: kept_facts kept_screen)

lemma silenced:
  assumes "p < length (ss_store s)" "\<And>q. marks_of (f q) = (lp_client q, lp_closed q, True)"
  shows "facts_of (set_pane p f s) = silence p (facts_of s)"
  using assms
  by (simp add: facts_of_def set_pane_def silence_def map_update client_in_def closed_in_def pane_of_def) (simp add: marks_of_def)

lemma finished_facts:
  assumes "facts_ok X (facts_of s)" "ev_pane e \<in> set (ss_panes s)"
  shows "facts_of (note_finished e s) = (if ev_finished e \<and> \<not> lp_finished (pane_of s (ev_pane e))
      then silence (ev_pane e) (facts_of s) else facts_of s)"
    and "screen_of (note_finished e s) = screen_of s"
  using on_screen(1)[OF assms]
  by (simp_all add: note_finished_def Let_def kept_facts kept_screen silenced marks_of_def)

lemma silence_ok_more: "facts_ok X a \<Longrightarrow> facts_ok X (silence p a)"
  using facts_ok_weaken[of X a "insert p X"] silence_ok[of p X a] by blast

lemma gone_ok:
  assumes "facts_ok (if ev_gone e then {ev_pane e} else {}) (facts_of s)" "ev_pane e \<in> set (ss_panes s)"
    "ss_focus s < length (ss_panes s)"
  shows "session_ok (note_gone ans e s)"
proof -
  let ?p = "ev_pane e"
  note os = on_screen[OF assms(1,2)]
  show ?thesis
  proof (cases "ev_gone e \<and> \<not> lp_finished (pane_of s ?p)")
    case False
    have "facts_ok {} (facts_of s)"
    proof (cases "ev_gone e")
      case True
      then have "attended (facts_of s) ?p" using False facts_in(3)[OF os(1)] by (simp add: attended_def)
      then show ?thesis using assms(1) True by (auto simp: facts_ok_def)
    qed (use assms(1) in simp)
    then show ?thesis using False assms(3) by (auto simp: note_gone_def Let_def session_ok_def)
  next
    case True
    then have ok: "facts_ok {?p} (facts_of s)" using assms(1) by simp
    obtain r s1 where re: "reopen_pane ?p ans s = (r, s1)" by (cases "reopen_pane ?p ans s")
    note rc = reopen_pane_cases[OF ok assms(2) re]
    show ?thesis
    proof (cases r)
      case None
      have sw: "read_frames ?p (say_note n s1) = say_note n (read_frames ?p s1)" for n
        by (simp add: read_frames_def say_note_def pane_of_def)
      have "facts_ok {} (facts_of (read_frames ?p s1))" using rc None rewire_ok[of ?p "{}" "facts_of s"] ok assms(2) by simp
      moreover have "screen_of (read_frames ?p s1) = screen_of s" using rc by (simp add: kept_screen)
      ultimately have "session_ok (read_frames ?p s1)" using assms(3) by (simp add: session_ok_def screen_of_def)
      then show ?thesis using True re None by (simp add: note_gone_def Let_def sw session_ok_small)
    next
      case (Some err)
      have f1: "facts_ok {?p} (facts_of s1)" using rc Some ok refuse_ok by auto
      have p1: "?p < length (ss_store s1)" using rc Some os(1) by simp
      have "facts_of (set_pane ?p (\<lambda>q. q\<lparr>lp_frozen := True\<rparr>) s1) = silence ?p (facts_of s1)"
        by (rule silenced[OF p1]) (simp add: marks_of_def)
      then have "facts_ok {} (facts_of (set_pane ?p (\<lambda>q. q\<lparr>lp_frozen := True\<rparr>) s1))"
        using silence_ok[of ?p "{}"] f1 by simp
      moreover have "screen_of (set_pane ?p (\<lambda>q. q\<lparr>lp_frozen := True\<rparr>) s1) = screen_of s" using rc by (simp add: kept_screen)
      ultimately have "session_ok (set_pane ?p (\<lambda>q. q\<lparr>lp_frozen := True\<rparr>) s1)"
        using assms(3) by (simp add: session_ok_def screen_of_def)
      then show ?thesis using True re Some by (simp add: note_gone_def Let_def session_ok_small)
    qed
  qed
qed

lemma apply_event_ok:
  assumes "session_ok s" "ss_events s = e # es" "apply_event mark colour ans e (s\<lparr>ss_events := es\<rparr>) = Some s'"
  shows "session_ok s' \<and> screen_of s' = screen_of s"
proof -
  let ?p = "ev_pane e" and ?s = "s\<lparr>ss_events := es\<rparr>"
  have ok: "facts_ok {} (facts_of s)" and foc: "ss_focus s < length (ss_panes s)" using assms(1) by (simp_all add: session_ok_def)
  have fs: "facts_of ?s = (facts_of s)\<lparr>fa_events := es\<rparr>" by (simp add: facts_of_def)
  have pop: "facts_ok (if ev_gone e \<and> ev_from e = client_in (facts_of s) ?p then {?p} else {}) (facts_of ?s)"
    unfolding fs by (rule pop_ok[OF ok]) (simp add: assms(2))
  have pl: "?p < length (ss_store s)" using facts_okD(4)[OF ok] assms(2) by (simp add: events_ok_def)
  have po: "pane_of ?s q = pane_of s q" for q by (simp add: pane_of_def)
  show ?thesis
  proof (cases "heeded e ?s")
    case False
    have "facts_ok {} (facts_of ?s)"
    proof (cases "ev_gone e \<and> ev_from e = client_in (facts_of s) ?p")
      case True
      then have "lp_closed (pane_of s ?p)" using False facts_in(1)[OF pl] by (simp add: heeded_def po)
      then have "?p \<notin> set (ss_panes s)" using facts_okD(1)[OF ok] facts_in(2)[OF pl] pl by (simp add: panes_ok_def)
      then show ?thesis using pop True by (auto simp: facts_ok_def)
    next
      case False
      show ?thesis using pop unfolding if_not_P[OF False] .
    qed
    then show ?thesis using False assms(3) foc by (auto simp: apply_event_def session_ok_def screen_of_def)
  next
    case True
    then have h: "\<not> lp_closed (pane_of s ?p)" "ev_from e = client_in (facts_of s) ?p"
      using facts_in(1)[OF pl] by (simp_all add: heeded_def po)
    have pin: "?p \<in> set (ss_panes s)" using h(1) facts_okD(1)[OF ok] facts_in(2)[OF pl] pl by (simp add: panes_ok_def)
    obtain s1 where s1: "draw_data mark colour ?p (ev_data e) (note_words e ?s) = Some s1"
      using assms(3) True by (auto simp: apply_event_def bind_eq_Some_conv)
    define s2 where "s2 = tell_unknown ?p (map fst (t_unknown (fst (lp_term (pane_of s1 ?p))))) s1"
    have s': "s' = note_gone ans e (note_finished e s2)"
      using assms(3) True s1 by (simp add: apply_event_def s2_def Let_def)
    have k2: "facts_of s2 = facts_of ?s" "screen_of s2 = screen_of s"
      using draw_data_kept[OF s1] note_words_kept[of e ?s] tell_unknown_kept[of ?p _ s1]
      by (simp_all add: s2_def) (simp add: screen_of_def)
    let ?X = "if ev_gone e then {?p} else {}"
    have ok2: "facts_ok ?X (facts_of s2)" using pop h(2) k2(1) by simp
    have pin2: "?p \<in> set (ss_panes s2)" using pin k2(2) by (simp add: screen_of_def)
    note ff = finished_facts[OF ok2 pin2]
    have ok3: "facts_ok ?X (facts_of (note_finished e s2))"
      using ok2 silence_ok_more by (simp add: ff(1))
    have sc3: "screen_of (note_finished e s2) = screen_of s" using ff(2) k2(2) by simp
    have "session_ok s'"
      unfolding s' by (rule gone_ok[OF ok3]) (use sc3 pin foc in \<open>simp_all add: screen_of_def\<close>)
    moreover have "screen_of s' = screen_of s"
    proof -
      have pin3: "?p \<in> set (ss_panes (note_finished e s2))" using sc3 pin by (simp add: screen_of_def)
      obtain r s4 where re: "reopen_pane ?p ans (note_finished e s2) = (r, s4)"
        by (cases "reopen_pane ?p ans (note_finished e s2)")
      then have "screen_of s4 = screen_of s" using reopen_pane_cases[OF ok3 pin3 re] sc3 by simp
      then show ?thesis using re sc3 unfolding s' by (simp add: note_gone_def Let_def kept_screen split: option.split)
    qed
    ultimately show ?thesis by blast
  qed
qed

lemma find_index:
  assumes "find (\<lambda>i. xs ! i = x) [0..<length xs] = Some i"
  shows "i < length xs" "xs ! i = x"
  using assms by (auto simp: find_Some_iff)

lemma nth_without:
  assumes "i < length xs"
  shows "k < i \<Longrightarrow> without i xs ! k = xs ! k" "i < k \<Longrightarrow> k < length xs \<Longrightarrow> without i xs ! (k - 1) = xs ! k"
  using assms by (auto simp: without_def nth_append min_def)

text \<open>Another pane's end leaves the focus on the pane it was on.\<close>

lemma natural_death_kept:
  assumes "session_ok s" "natural_death fl saved p s = Some s'"
  shows "session_ok s'" "focused s \<noteq> p \<Longrightarrow> focused s' = focused s"
proof -
  have foc: "ss_focus s < length (ss_panes s)" using assms(1) by (simp add: session_ok_def)
  have "session_ok s' \<and> (focused s \<noteq> p \<longrightarrow> focused s' = focused s)"
  proof (cases "s' = s")
    case False
    then obtain i where i: "lp_finished (pane_of s p)" "lp_was_running (pane_of s p)" "length (ss_panes s) > 1"
      "find (\<lambda>i. ss_panes s ! i = p) [0..<length (ss_panes s)] = Some i"
      using assms(2) by (auto simp: natural_death_def split: if_split_asm option.split_asm)
    note ix = find_index[OF i(4)]
    let ?n = "length (ss_panes s) - 1"
    define f where "f = (if ss_focus s \<ge> length (ss_panes (drop_pane i s)) then length (ss_panes (drop_pane i s)) - 1
      else if ss_focus s > i then ss_focus s - 1 else ss_focus s)"
    obtain s1 where s1: "lay_out_again fl ((drop_pane i s)\<lparr>ss_focus := f\<rparr>) = Some s1" "s' = remember fl saved s1"
      using assms(2) i by (auto simp: natural_death_def Let_def f_def)
    have len: "length (ss_panes (drop_pane i s)) = ?n" using ix(1) by (simp add: drop_pane_def Let_def length_without)
    note f_def = f_def[unfolded len]
    have "f < ?n" using i(3) foc by (auto simp: f_def)
    then have "session_ok s'" using dropped_ok[OF assms(1) ix(1) _ s1(1)] s1(2) by (simp add: session_ok_small)
    moreover have "focused s' = focused s" if "focused s \<noteq> p"
    proof -
      have "ss_focus s \<noteq> i" using that ix(2) by (auto simp: focused_def)
      moreover have "screen_of s' = (without i (ss_panes s), f)"
        using lay_out_again_kept[OF s1(1)] s1(2) by (simp add: kept_screen) (simp add: screen_of_def drop_pane_def Let_def)
      moreover have "f = (if ss_focus s > i then ss_focus s - 1 else ss_focus s)"
        using foc ix(1) \<open>ss_focus s \<noteq> i\<close> by (auto simp: f_def)
      ultimately show ?thesis
        using foc ix(1) nth_without[of i "ss_panes s"] by (auto simp: focused_def screen_of_def)
    qed
    ultimately show ?thesis by blast
  qed (use assms(1) in simp)
  then show "session_ok s'" "focused s \<noteq> p \<Longrightarrow> focused s' = focused s" by blast+
qed

lemma happened_ok:
  assumes "session_ok s" "ss_events s = e # es" "happened fl mark colour ans saved recent e (s\<lparr>ss_events := es\<rparr>) = On s'"
  shows "session_ok s'" "focused s \<noteq> ev_pane e \<Longrightarrow> focused s' = focused s"
proof -
  obtain s1 s2 where s: "apply_event mark colour ans e (s\<lparr>ss_events := es\<rparr>) = Some s1"
    "natural_death fl saved (ev_pane e) s1 = Some s2" "s' = paint_soon recent s2"
    using assms(3)
    by (auto simp: happened_def Let_def split: option.split_asm if_split_asm bind_splits)
  have ok1: "session_ok s1" "screen_of s1 = screen_of s" using apply_event_ok[OF assms(1,2) s(1)] by simp_all
  have f: "focused s1 = focused s" "focused s' = focused s2"
    using ok1(2) by (simp_all add: focused_def screen_of_def s(3) paint_soon_def paint_def)
  show "session_ok s'" using natural_death_kept(1)[OF ok1(1) s(2)] s(3) by (simp add: session_ok_small)
  show "focused s \<noteq> ev_pane e \<Longrightarrow> focused s' = focused s" using natural_death_kept(2)[OF ok1(1) s(2)] f by simp
qed

section \<open>Every step keeps it\<close>

inductive_cases ses_stepE: "ses_step fl mark colour ro s r"

lemma ses_step_ok:
  assumes "session_ok s" "ses_step fl mark colour ro s (On s')"
  shows "session_ok s'"
  using assms(2)
proof (cases rule: ses_step.cases)
  case (step_typed ok chunk)
  then show ?thesis using typed_ok[OF assms(1)] by metis
next
  case (step_fence waiting)
  then show ?thesis using assms(1) by (auto simp: met_fence_def session_ok_def facts_of_def)
next
  case (step_command saved drained c)
  then show ?thesis using commanded_ok[OF assms(1)] by metis
next
  case step_ended
  then show ?thesis using assms(1) by (auto simp: session_ok_def facts_of_def)
next
  case (step_event e es ans saved recent)
  then show ?thesis using happened_ok(1)[OF assms(1)] by metis
next
  case step_due
  then show ?thesis using assms(1) by (auto simp: session_ok_def facts_of_def paint_def)
next
  case (step_winch scr)
  then obtain z s1 where z: "lay_out_again fl (s\<lparr>ss_size := z\<rparr>) = Some s1" "s' = paint s1"
    by (auto simp: winched_def split: option.split_asm)
  have "session_ok (s\<lparr>ss_size := z\<rparr>)" using assms(1) by (simp add: session_ok_def facts_of_def)
  then show ?thesis using lay_out_session_ok[OF _ z(1)] z(2) by (simp add: session_ok_small)
next
  case (step_reads p c e)
  have "facts_of (post e s) = (facts_of s)\<lparr>fa_events := fa_events (facts_of s) @ [e]\<rparr>" by (simp add: post_def facts_of_def)
  then show ?thesis
    using step_reads assms(1) post_ok[of "facts_of s" p c e] by (auto simp: session_ok_def post_def)
next
  case (step_reader_ends p c)
  let ?e = "(no_event p c)\<lparr>ev_gone := True\<rparr>"
  have "facts_of (post ?e (s\<lparr>ss_readers := remove1 (p, c) (ss_readers s)\<rparr>))
      = (facts_of s)\<lparr>fa_readers := remove1 (p, c) (fa_readers (facts_of s)), fa_events := fa_events (facts_of s) @ [?e]\<rparr>"
    by (simp add: post_def facts_of_def)
  moreover have "facts_ok {} ((facts_of s)\<lparr>fa_readers := remove1 (p, c) (fa_readers (facts_of s)),
      fa_events := fa_events (facts_of s) @ [?e]\<rparr>)"
    using step_reader_ends assms(1) by (intro reader_end_ok) (auto simp: session_ok_def no_event_def)
  ultimately show ?thesis using step_reader_ends assms(1) by (auto simp: session_ok_def post_def)
qed

section \<open>The first panes\<close>

text \<open>While panes are put up nobody reads yet.\<close>

definition first_ok :: "nat \<Rightarrow> nat \<Rightarrow> 'w session \<Rightarrow> bool" where
  "first_ok at i s \<longleftrightarrow> facts_ok UNIV (facts_of s) \<and> ss_readers s = [] \<and> ss_events s = []
     \<and> ss_conns s \<noteq> [] \<and> \<not> cn_closed (ss_conns s ! 0)
     \<and> (i \<le> at \<longrightarrow> (\<forall>p \<in> set (ss_panes s). client_in (facts_of s) p \<noteq> 0)) \<and> (at < i \<longrightarrow> ss_panes s \<noteq> [])"

lemma more_conns_ok:
  assumes "facts_ok X a"
  shows "facts_ok X (a\<lparr>fa_closed := fa_closed a @ [b]\<rparr>)"
proof -
  let ?r = "a\<lparr>fa_closed := fa_closed a @ [b]\<rparr>"
  note ok = facts_okD[OF assms]
  have same: "client_in ?r = client_in a" "closed_in ?r = closed_in a" "silent_in ?r = silent_in a"
    by (simp_all add: fun_eq_iff client_in_def closed_in_def silent_in_def)
  have "panes_ok ?r" using ok(1) unfolding panes_ok_def same by simp
  moreover have "conns_ok ?r" using ok(2) unfolding conns_ok_def same by (auto simp: nth_append)
  moreover have "readers_ok ?r" using ok(3) unfolding readers_ok_def by auto
  moreover have "events_ok ?r" using ok(4) unfolding events_ok_def by auto
  moreover have "\<forall>p \<in> set (fa_panes ?r) - X. attended ?r p" using ok(5) unfolding attended_def same by simp
  ultimately show ?thesis unfolding facts_ok_def by blast
qed

lemma more_panes_ok:
  assumes "facts_ok UNIV a" "c < length (fa_closed a)" "\<not> fa_closed a ! c" "\<forall>p \<in> set (fa_panes a). client_in a p \<noteq> c"
  shows "facts_ok UNIV (a\<lparr>fa_panes := fa_panes a @ [length (fa_marks a)], fa_marks := fa_marks a @ [(c, False, False)]\<rparr>)"
proof -
  let ?n = "length (fa_marks a)"
  let ?r = "a\<lparr>fa_panes := fa_panes a @ [?n], fa_marks := fa_marks a @ [(c, False, False)]\<rparr>"
  note ok = facts_okD[OF assms(1)]
  have old: "q \<in> set (fa_panes a) \<Longrightarrow> q < ?n" for q using ok(1) by (auto simp: panes_ok_def)
  have same: "q < ?n \<Longrightarrow> client_in ?r q = client_in a q" "q < ?n \<Longrightarrow> closed_in ?r q = closed_in a q" for q
    by (simp_all add: client_in_def closed_in_def nth_append)
  have new: "client_in ?r ?n = c" "closed_in ?r ?n = False" by (simp_all add: client_in_def closed_in_def)
  have "panes_ok ?r" using ok(1) old same(2) new(2) by (auto simp: panes_ok_def less_Suc_eq)
  moreover have "conns_ok ?r"
    using ok(2) old same(1) new(1) assms(2-4) by (auto simp: conns_ok_def inj_on_def)
  moreover have "readers_ok ?r" using ok(3) by (fastforce simp: readers_ok_def)
  moreover have "events_ok ?r" using ok(4) by (fastforce simp: events_ok_def)
  ultimately show ?thesis by (simp add: facts_ok_def)
qed

lemma first_ok_new: "first_ok at 0 (new_session ro scr file)"
  by (simp add: first_ok_def new_session_def facts_of_def facts_ok_def panes_ok_def conns_ok_def readers_ok_def
      events_ok_def)

lemma first_ok_mine:
  assumes "first_ok at at s" "marks_of q = (0, False, False)"
  shows "first_ok at (Suc at) (add_pane q s)"
proof -
  have z: "fa_closed (facts_of s) ! 0 = cn_closed (ss_conns s ! 0)" "0 < length (ss_conns s)"
    using assms(1) by (simp_all add: first_ok_def facts_of_def)
  have "facts_ok UNIV (facts_of (add_pane q s))"
    using more_panes_ok[of "facts_of s" 0] assms z by (simp add: first_ok_def add_pane_facts)
  then show ?thesis using assms(1) by (simp add: first_ok_def add_pane_def)
qed

lemma first_ok_skip:
  assumes "first_ok at i s" "i \<noteq> at" "facts_of s' = facts_of s \<or> facts_of s' = refuse (facts_of s)"
    "screen_of s' = screen_of s" "ss_conns s' \<noteq> []" "\<not> cn_closed (ss_conns s' ! 0)"
  shows "first_ok at (Suc i) s'"
proof -
  have c: "client_in (facts_of s') = client_in (facts_of s)"
    using assms(3) by (auto simp: fun_eq_iff client_in_def refuse_def)
  have e: "ss_readers s' = ss_readers s" "ss_events s' = ss_events s"
  proof -
    have r: "fa_readers (refuse a) = fa_readers a" "fa_events (refuse a) = fa_events a" for a by (simp_all add: refuse_def)
    have "fa_readers (facts_of s') = fa_readers (facts_of s)" using assms(3) r(1) by metis
    moreover have "fa_events (facts_of s') = fa_events (facts_of s)" using assms(3) r(2) by metis
    ultimately show "ss_readers s' = ss_readers s" "ss_events s' = ss_events s" by (simp_all only: facts_sel)
  qed
  show ?thesis
    using assms refuse_ok[of UNIV "facts_of s"] unfolding first_ok_def c e screen_of_def by auto
qed

lemma open_pane_first:
  assumes "open_pane fl n ans count ro s = (r, s')" "ss_conns s \<noteq> []" "\<not> cn_closed (ss_conns s ! 0)"
  shows "ss_conns s' \<noteq> []" "\<not> cn_closed (ss_conns s' ! 0)"
  using assms
  by (auto simp: open_pane_def new_conn_def close_conn_def set_conn_def nth_append nth_list_update
      split: attach_answer.split_asm)

lemma first_ok_other:
  assumes "first_ok at i s" "i \<noteq> at" "open_pane fl n ans count ro s = (Inr q, s1)"
  shows "first_ok at (Suc i) (add_pane (q\<lparr>lp_weight := w\<rparr>) s1)"
proof -
  note oc = open_pane_cases[OF assms(3)]
  note opf = open_pane_first[OF assms(3)]
  let ?a = "facts_of s" and ?c = "length (ss_conns s)"
  have q: "marks_of q = (?c, False, False)" "ss_store s1 = ss_store s"
    "facts_of s1 = ?a\<lparr>fa_closed := fa_closed ?a @ [False]\<rparr>" "ss_panes s1 = ss_panes s"
    using oc by (auto simp: screen_of_def)
  have ok: "facts_ok UNIV ?a" using assms(1) by (simp add: first_ok_def)
  have lt: "\<forall>p \<in> set (ss_panes s). client_in ?a p < ?c" using facts_okD(2)[OF ok] by (simp add: conns_ok_def)
  let ?b = "?a\<lparr>fa_closed := fa_closed ?a @ [False]\<rparr>"
  have cb: "client_in ?b = client_in ?a" by (simp add: fun_eq_iff client_in_def)
  have f: "facts_of (add_pane (q\<lparr>lp_weight := w\<rparr>) s1) =
      ?b\<lparr>fa_panes := fa_panes ?b @ [length (fa_marks ?b)], fa_marks := fa_marks ?b @ [(?c, False, False)]\<rparr>"
    using q by (simp add: add_pane_facts marks_of_def)
  have nthc: "(fa_closed ?a @ [False]) ! ?c = False" by (metis facts_sel(5) nth_append_length)
  have fok: "facts_ok UNIV (facts_of (add_pane (q\<lparr>lp_weight := w\<rparr>) s1))"
    unfolding f by (rule more_panes_ok[OF more_conns_ok[OF ok]]) (use lt nthc in \<open>auto simp: cb\<close>)
  have "client_in (facts_of (add_pane (q\<lparr>lp_weight := w\<rparr>) s1)) p \<noteq> 0"
    if "Suc i \<le> at" "p \<in> set (ss_panes s @ [length (ss_store s)])" for p
  proof (cases "p < length (ss_store s)")
    case True
    have "p \<in> set (ss_panes s)" using that(2) True by auto
    moreover have "client_in (facts_of (add_pane (q\<lparr>lp_weight := w\<rparr>) s1)) p = client_in ?a p"
      using True unfolding f by (simp add: client_in_def nth_append)
    ultimately show ?thesis using assms(1) that(1) by (simp add: first_ok_def)
  next
    case False
    then have "p = length (ss_store s)"
      using that(2) facts_okD(1)[OF ok] by (auto simp: panes_ok_def)
    then have "client_in (facts_of (add_pane (q\<lparr>lp_weight := w\<rparr>) s1)) p = ?c"
      unfolding f by (simp add: client_in_def marks_snoc)
    then show ?thesis using assms(1) by (simp add: first_ok_def)
  qed
  moreover have "ss_readers s1 = []" "ss_events s1 = []"
    using assms(1) arg_cong[OF q(3), of fa_readers] arg_cong[OF q(3), of fa_events] by (simp_all add: first_ok_def)
  ultimately show ?thesis
    using fok opf assms(1) q(2,4) by (simp add: first_ok_def add_pane_def)
qed

lemma first_ok_note: "first_ok at i (say_note n s) = first_ok at i s"
  by (simp add: first_ok_def kept_facts) (simp add: say_note_def)

lemma put_up_ok: "first_ok at i s \<Longrightarrow> first_ok at (i + length want) (put_up fl ro count at i want answers s)"
proof (induction fl ro count at i want answers s rule: put_up.induct)
  case (2 fl ro count at i n w rest answers s)
  show ?case
  proof (cases "i = at")
    case True
    have "first_ok at (Suc i) (add_pane (new_pane n 0 (new_emu (fst (ss_size s)) (snd (ss_size s))) False w) s)"
      using first_ok_mine[of at s] 2(4) True by (simp add: marks_of_def new_pane_def)
    then show ?thesis using 2(1)[OF True] True by simp
  next
    case False
    let ?ans = "case answers of [] \<Rightarrow> No_daemon [] | a # x \<Rightarrow> a"
    obtain r s1 where o: "open_pane fl n ?ans count ro s = (r, s1)" by (cases "open_pane fl n ?ans count ro s")
    have c0: "ss_conns s \<noteq> []" "\<not> cn_closed (ss_conns s ! 0)" using 2(4) by (simp_all add: first_ok_def)
    show ?thesis
    proof (cases r)
      case (Inl e)
      have "first_ok at (Suc i) (say_note (Failed_to n) s1)"
        using first_ok_skip[OF 2(4) False, of "say_note (Failed_to n) s1"] open_pane_cases[OF o] Inl open_pane_first[OF o c0]
        by (simp add: kept_facts kept_screen) (simp add: say_note_def)
      then show ?thesis using 2(2)[OF False refl] o Inl False by simp
    next
      case (Inr q)
      then show ?thesis using 2(3)[OF False refl] o first_ok_other[OF 2(4) False o[unfolded Inr], of w] False by simp
    qed
  qed
qed simp

lemma put_up_screen: "snd (screen_of (put_up fl ro count at i want answers s)) = ss_focus s"
proof (induction fl ro count at i want answers s rule: put_up.induct)
  case (2 fl ro count at i n w rest answers s)
  let ?ans = "case answers of [] \<Rightarrow> No_daemon [] | a # x \<Rightarrow> a"
  obtain r s1 where o: "open_pane fl n ?ans count ro s = (r, s1)" by (cases "open_pane fl n ?ans count ro s")
  have f: "ss_focus s1 = ss_focus s" using open_pane_cases(2)[OF o] by (simp add: screen_of_def)
  show ?case
    using 2(1) 2(2)[OF _ refl] 2(3)[OF _ refl] o f
    by (cases "i = at"; cases r) (simp_all add: screen_of_def add_pane_def say_note_def)
qed (simp add: screen_of_def)

lemma wanted_at:
  assumes "wanted service room l = Some (want, at)" "1 \<le> room"
  shows "at < length want"
proof -
  obtain k where k: "find (\<lambda>i. fst (sl_panes l ! i) = service) [0..<length (sl_panes l)] = Some k"
    using assms(1) by (auto simp: wanted_def Let_def split: option.split_asm)
  then have "k < length (sl_panes l)" by (auto simp: find_Some_iff)
  then show ?thesis
    using assms k by (auto simp: wanted_def Let_def min_def nat_diff_distrib split: if_split_asm)
qed

lemma read_all_facts:
  "\<forall>q \<in> set qs. q < length (ss_store s) \<Longrightarrow>
     facts_of (read_all qs s) = (facts_of s)\<lparr>fa_readers := rev (map (\<lambda>p. (p, client_in (facts_of s) p)) qs) @ ss_readers s\<rparr>
     \<and> screen_of (read_all qs s) = screen_of s"
proof (induction qs arbitrary: s)
  case Nil
  then show ?case by (simp add: facts_of_def)
next
  case (Cons q qs)
  let ?s = "read_frames q s"
  have f: "facts_of ?s = (facts_of s)\<lparr>fa_readers := (q, client_in (facts_of s) q) # ss_readers s\<rparr>"
    using read_frames_facts[of q s] Cons.prems by simp
  have c: "client_in (facts_of ?s) = client_in (facts_of s)" unfolding f by (simp add: fun_eq_iff client_in_def)
  have r: "ss_readers ?s = (q, client_in (facts_of s) q) # ss_readers s" using arg_cong[OF f, of fa_readers] by simp
  have "\<forall>q \<in> set qs. q < length (ss_store ?s)" using Cons.prems by (simp add: read_frames_def)
  note ih = Cons.IH[OF this]
  have "facts_of (read_all qs ?s) = (facts_of s)\<lparr>fa_readers :=
      rev (map (\<lambda>p. (p, client_in (facts_of s) p)) (q # qs)) @ ss_readers s\<rparr>"
    using ih by (simp add: c r) (simp add: f)
  then show ?case using ih by (simp add: kept_screen)
qed

lemma all_read_ok:
  assumes "facts_ok UNIV (facts_of s)" "ss_readers s = []" "ss_events s = []" "ss_panes s \<noteq> []" "ss_focus s < length (ss_panes s)"
  shows "session_ok (read_all (ss_panes s) s)"
proof -
  note ok = facts_okD[OF assms(1)]
  let ?a = "facts_of s" and ?r = "facts_of (read_all (ss_panes s) s)"
  have lt: "\<forall>q \<in> set (ss_panes s). q < length (ss_store s)" using ok(1) by (simp add: panes_ok_def)
  have f: "?r = ?a\<lparr>fa_readers := rev (map (\<lambda>p. (p, client_in ?a p)) (ss_panes s))\<rparr>" "screen_of (read_all (ss_panes s) s) = screen_of s"
    using read_all_facts[OF lt] assms(2) by simp_all
  have same: "client_in ?r = client_in ?a" "closed_in ?r = closed_in ?a" "silent_in ?r = silent_in ?a"
    unfolding f(1) by (simp_all add: fun_eq_iff client_in_def closed_in_def silent_in_def)
  have basic: "fa_panes ?r = ss_panes s" "fa_marks ?r = fa_marks ?a" "fa_closed ?r = fa_closed ?a"
    "fa_readers ?r = rev (map (\<lambda>p. (p, client_in ?a p)) (ss_panes s))" "fa_events ?r = []"
    unfolding f(1) using assms(3) by simp_all
  have "panes_ok ?r" using ok(1) unfolding panes_ok_def same basic by simp
  moreover have "conns_ok ?r" using ok(2) unfolding conns_ok_def same basic by simp
  moreover have "readers_ok ?r"
  proof -
    have "distinct (map snd (rev (map (\<lambda>p. (p, client_in ?a p)) (ss_panes s))))"
      using ok(1,2) by (simp add: rev_map[symmetric] comp_def distinct_map panes_ok_def conns_ok_def)
    moreover have "\<forall>p \<in> set (ss_panes s). client_in ?a p < length (ss_conns s)" using ok(2) by (simp add: conns_ok_def)
    ultimately show ?thesis using lt unfolding readers_ok_def basic by auto
  qed
  moreover have "events_ok ?r" unfolding events_ok_def basic by simp
  moreover have "\<forall>p \<in> set (fa_panes ?r). attended ?r p" unfolding attended_def same basic by auto
  ultimately have "facts_ok {} ?r" by (simp add: facts_ok_def)
  then show ?thesis using f(2) assms(5) by (simp add: session_ok_def screen_of_def)
qed

lemma start_session_ok:
  assumes "start_session fl service running ro scr layout answers saved = Some s"
  shows "session_ok s"
proof -
  let ?s0 = "new_session ro scr (case layout of Layout l \<Rightarrow> Some l | _ \<Rightarrow> None)"
  define ready :: "'a session \<Rightarrow> bool" where
    "ready t \<longleftrightarrow> facts_ok UNIV (facts_of t) \<and> ss_readers t = [] \<and> ss_events t = [] \<and> ss_panes t \<noteq> []
       \<and> ss_focus t < length (ss_panes t)" for t
  have ready_kept: "ready t \<Longrightarrow> facts_of u = facts_of t \<Longrightarrow> screen_of u = screen_of t \<Longrightarrow> ready u" for t u
    using facts_sel(2,3)[of t] facts_sel(2,3)[of u] by (simp add: ready_def screen_of_def)
  have alone: "ready (add_pane q ?s0)" if "marks_of q = (0, False, False)" for q
  proof -
    have "first_ok 0 1 (add_pane q ?s0)" using first_ok_mine[OF first_ok_new that] by simp
    then show ?thesis by (simp add: ready_def first_ok_def) (simp add: add_pane_def new_session_def)
  qed
  have mine: "marks_of (new_pane n 0 t b w) = (0, False, False)" for n t b and w :: 'a
    by (simp add: marks_of_def new_pane_def)
  have restored: "ready (restore_panes fl service ro l answers ?s0)" for l
  proof (cases "wanted service (pane_room (ss_size ?s0) (sl_rows l)) l")
    case None
    then show ?thesis using alone[OF mine] by (simp add: restore_panes_def)
  next
    case (Some x)
    obtain want at where x: "x = (want, at)" by (cases x)
    have at: "at < length want" by (rule wanted_at[OF Some[unfolded x]]) (simp add: pane_room_def)
    define s1 where "s1 = (if length want < length (sl_panes l) then say_note (Failed_to (bstr ''room'')) ?s0 else ?s0)"
    define s2 where "s2 = put_up fl ro (length want) at 0 want answers s1"
    have "first_ok at 0 s1"
      by (simp add: s1_def first_ok_note first_ok_new)
    from put_up_ok[OF this] have p2: "first_ok at (length want) s2" by (simp add: s2_def)
    have "first_pane s2 < length (ss_panes s2)"
      using p2 at by (auto simp: first_pane_def first_ok_def find_Some_iff split: option.split)
    then have "ready (s2\<lparr>ss_in_rows := sl_rows l, ss_focus := first_pane s2, ss_written := signature fl l\<rparr>)"
      using p2 at by (simp add: ready_def first_ok_def put_facts)
    then show ?thesis using Some x by (simp add: restore_panes_def Let_def s1_def s2_def)
  qed
  define s1 where "s1 = (case layout of
      No_layout \<Rightarrow> add_pane (new_pane service 0 (new_emu (fst scr) (snd scr)) running (wt_zero fl)) ?s0
    | Bad_layout e \<Rightarrow> say_note (Failed_to e) (add_pane (new_pane service 0 (new_emu (fst scr) (snd scr)) running (wt_zero fl)) ?s0)
    | Layout l \<Rightarrow> restore_panes fl service ro l answers ?s0)"
  have r1: "ready s1"
    using alone[OF mine, of service "new_emu (fst scr) (snd scr)" running "wt_zero fl"] restored
      ready_kept[OF alone[OF mine] note_facts(1) small_screen(5)]
    unfolding s1_def by (cases layout) simp_all
  define s2 where "s2 = layout_panes fl s1"
  have r2: "ready s2" unfolding s2_def by (rule ready_kept[OF r1 layout_panes_facts layout_panes_screen])
  obtain s3 where s3: "(if length (ss_panes s2) > 1 then resize_panes (ss_panes s2) s2 else Some s2) = Some s3"
    "s = remember fl saved (paint (read_all (ss_panes s3) s3))"
  proof -
    have "start_session fl service running ro scr layout answers saved = do {
        s3 \<leftarrow> (if length (ss_panes s2) > 1 then resize_panes (ss_panes s2) s2 else Some s2);
        Some (remember fl saved (paint (read_all (ss_panes s3) s3))) }"
      by (simp only: start_session_def Let_def s1_def s2_def)
    with assms have "Option.bind (if length (ss_panes s2) > 1 then resize_panes (ss_panes s2) s2 else Some s2)
        (\<lambda>s3. Some (remember fl saved (paint (read_all (ss_panes s3) s3)))) = Some s" by metis
    then show thesis unfolding bind_eq_Some_conv using that by blast
  qed
  have "ready s3" using s3(1) r2 resize_panes_kept[of "ss_panes s2" s2 s3] ready_kept[OF r2] by (auto split: if_split_asm)
  then show ?thesis using all_read_ok[of s3] s3(2) by (simp add: ready_def session_ok_small)
qed

end
