(* ===== verification/Rendered.thy ===== *)
theory Rendered
  imports PanesSafe
begin

text \<open>
  What the rendered session promises: panes that never go quiet unnoticed, a focus that stays where it is, changes
  that are drawn or due, an arrangement that fills the screen and is kept - and where it does not keep its word.
\<close>

section \<open>Every pane on the screen is looked after\<close>

definition looked_after :: "'w session \<Rightarrow> nat \<Rightarrow> bool" where
  "looked_after s p \<longleftrightarrow>
     (let q = pane_of s p in
      \<not> lp_closed q \<and> \<not> cn_closed (ss_conns s ! lp_client q)
      \<and> ((p, lp_client q) \<in> set (ss_readers s) \<or> list_ex (gone_event p (lp_client q)) (ss_events s)
         \<or> lp_finished q \<or> lp_frozen q))"

lemma session_ok_looked_after:
  assumes "session_ok s" "p \<in> set (ss_panes s)"
  shows "looked_after s p"
proof -
  have ok: "facts_ok {} (facts_of s)" using assms(1) by (simp add: session_ok_def)
  note os = on_screen[OF ok assms(2)]
  have "attended (facts_of s) p" using facts_okD(5)[OF ok] assms(2) by simp
  moreover have "\<not> cn_closed (ss_conns s ! lp_client (pane_of s p))"
  proof -
    have "fa_closed (facts_of s) ! lp_client (pane_of s p) = cn_closed (ss_conns s ! lp_client (pane_of s p))"
      using os(3) by (simp add: facts_of_def)
    then show ?thesis using facts_okD(2)[OF ok] assms(2) os(4) by (auto simp: conns_ok_def)
  qed
  ultimately show ?thesis
    using os facts_in(3)[OF os(1)] by (auto simp: looked_after_def Let_def attended_def list_ex_iff)
qed

lemma reach_ok: "ses_reach fl mark colour ro s0 s \<Longrightarrow> session_ok s0 \<Longrightarrow> session_ok s"
  by (induction rule: ses_reach.induct) (auto intro: ses_step_ok)

text \<open>
  C19. Through any sequence of keys, commands, events, resizes, reconnections and readers coming to their end, the
  focus is on a pane of the screen, no two goroutines ever read one connection, and every pane on the screen has
  an open connection of its own with a reader on it or the news of its end under way - unless the pane shows that
  its service has ended or that its connection is lost. No pane just stops.
\<close>

theorem panes_are_looked_after:
  assumes "start_session fl service running ro scr layout answers saved = Some s0"
    "ses_reach fl mark colour ro s0 s"
  shows "ss_focus s < length (ss_panes s) \<and> distinct (ss_panes s) \<and> distinct (map snd (ss_readers s))
     \<and> list_all (looked_after s) (ss_panes s)"
proof -
  have ok: "session_ok s" by (rule reach_ok[OF assms(2) start_session_ok[OF assms(1)]])
  then have f: "facts_ok {} (facts_of s)" "ss_focus s < length (ss_panes s)" by (simp_all add: session_ok_def)
  have "distinct (ss_panes s)" using facts_okD(1)[OF f(1)] by (simp add: panes_ok_def)
  moreover have "distinct (map snd (ss_readers s))" using facts_okD(3)[OF f(1)] by (simp add: readers_ok_def)
  ultimately show ?thesis using f(2) session_ok_looked_after[OF ok] by (simp add: list_all_iff)
qed

text \<open>Weights in fifths, for concrete sessions.\<close>

definition fifths :: "int weights" where
  "fifths = \<lparr>wt_zero = 0, wt_one = 5, wt_positive = (\<lambda>w. 0 < w),
     wt_step = (\<lambda>up n w. min (max (if up then w + 1 else w - 1) 1) (5 * int n)),
     wt_share = (\<lambda>room ws w. room * w div sum_list ws),
     wt_text = (\<lambda>w. itoa (w div 5) @ [0x2e] @ itoa (w mod 5 * 2) @ [0x30])\<rparr>"

definition no_colour :: "int \<Rightarrow> bytes option" where "no_colour w = None"

definition plain_marks :: "int \<Rightarrow> bool" where "plain_marks r = False"

definition two_panes :: "int saved_layout" where
  "two_panes = \<lparr>sl_rows = False, sl_focus = 0, sl_panes = [(bstr ''a'', 5), (bstr ''b'', 5)]\<rparr>"

definition split_session :: "int session" where
  "split_session = the (start_session fifths (bstr ''a'') True False (23, 2) (Layout two_panes) [Attached True] True)"

lemma split_session_starts:
  "start_session fifths (bstr ''a'') True False (23, 2) (Layout two_panes) [Attached True] True = Some split_session"
proof -
  have "start_session fifths (bstr ''a'') True False (23, 2) (Layout two_panes) [Attached True] True \<noteq> None"
    by code_simp
  then show ?thesis by (simp add: split_session_def)
qed

theorem panes_are_looked_after_witness:
  "ses_reach fifths plain_marks no_colour False split_session split_session
   \<and> ss_focus split_session < length (ss_panes split_session) \<and> distinct (map snd (ss_readers split_session))"
  using panes_are_looked_after[OF split_session_starts reach_start] reach_start by blast

section \<open>The focus\<close>

text \<open>
  Whatever a connection has to say - output, a rename, a program that ends and takes its pane with it, a
  daemon that is replaced - the keyboard stays with the pane it was with, unless that is the pane that goes.
\<close>

theorem focus_stays_put:
  assumes "start_session fl service running ro scr layout answers saved0 = Some s0" "ses_reach fl mark colour ro s0 s"
    "ss_events s = e # es" "happened fl mark colour ans saved recent e (s\<lparr>ss_events := es\<rparr>) = On s'"
    "focused s \<noteq> ev_pane e"
  shows "focused s' = focused s \<and> ss_focus s' < length (ss_panes s')"
proof -
  have ok: "session_ok s" by (rule reach_ok[OF assms(2) start_session_ok[OF assms(1)]])
  show ?thesis using happened_ok[OF ok assms(3,4)] assms(5) by (simp add: session_ok_def)
qed

definition the_on :: "'w result \<Rightarrow> 'w session" where
  "the_on r = (case r of On s \<Rightarrow> s | Ends x s \<Rightarrow> s | Panic \<Rightarrow> undefined)"

definition is_on :: "'w result \<Rightarrow> bool" where
  "is_on r = (case r of On s \<Rightarrow> True | _ \<Rightarrow> False)"

lemma the_on: "is_on r \<Longrightarrow> r = On (the_on r)"
  by (simp add: is_on_def the_on_def split: result.split_asm)

text \<open>The program in the second pane prints, then it ends.\<close>

definition b_prints :: event where
  "b_prints = (no_event 1 1)\<lparr>ev_data := bstr ''hi''\<rparr>"

definition b_ends :: event where
  "b_ends = (no_event 1 1)\<lparr>ev_finished := True\<rparr>"

definition after_print :: "int session" where
  "after_print = the_on (happened fifths plain_marks no_colour (Attached True) True True b_prints split_session)"

lemma split_session_shape:
  "ss_readers split_session = [(1, 1), (0, 0)]" "ss_events split_session = []" "focused split_session = 0"
  "ss_panes split_session = [0, 1]"
  "is_on (happened fifths plain_marks no_colour (Attached True) True True b_prints split_session)"
  "is_on (happened fifths plain_marks no_colour (Attached True) True True b_ends split_session)"
  by code_simp+

lemma posted_reach:
  "e \<in> {b_prints, b_ends} \<Longrightarrow> ses_reach fifths plain_marks no_colour False split_session (post e split_session)"
  by (rule reach_step[OF reach_start], rule step_reads[of 1 1])
    (auto simp: split_session_shape event_room_def b_prints_def b_ends_def no_event_def)

lemma posted_events: "(post e split_session)\<lparr>ss_events := []\<rparr> = split_session"
  using split_session_shape(2) by (simp add: post_def)

theorem focus_stays_put_witness:
  "focused (the_on (happened fifths plain_marks no_colour (Attached True) True True b_ends split_session)) = 0"
proof -
  have "ss_events (post b_ends split_session) = [b_ends]" by (simp add: post_def split_session_shape)
  moreover have "focused (post b_ends split_session) = 0" using split_session_shape by (simp add: post_def focused_def)
  ultimately show ?thesis
    using focus_stays_put[OF split_session_starts posted_reach, of b_ends b_ends "[]" "Attached True" True True]
      the_on[OF split_session_shape(6)]
    by (simp add: posted_events b_ends_def no_event_def)
qed

section \<open>What has changed is drawn, or due to be drawn\<close>

definition due_ok :: "'w session \<Rightarrow> bool" where
  "due_ok s \<longleftrightarrow> (ss_stale s \<longrightarrow> ss_owed s)"

lemma paint_clears [simp]:
  "ss_stale (paint s) = False" "ss_stale (say_note n s) = ss_stale s" "ss_owed (say_note n s) = ss_owed s"
  "ss_stale (send_to c x s) = ss_stale s" "ss_owed (send_to c x s) = ss_owed s"
  "ss_stale (remember fl ok s) = ss_stale s" "ss_owed (remember fl ok s) = ss_owed s"
  by (simp_all add: paint_def say_note_def send_to_def set_conn_def remember_def Let_def)

lemma do_command_due:
  assumes "do_command fl ro c s = Some fw" "due_ok s"
  shows "due_ok (flow_session fw)"
  using assms
  by (cases c)
    (auto simp: due_ok_def Let_def bind_eq_Some_conv split: sum.split_asm prod.split_asm if_split_asm option.split_asm
      rename_answer.split_asm)

lemma send_all_due: "ss_stale (send_all bs s) = ss_stale s \<and> ss_owed (send_all bs s) = ss_owed s"
  by (induction bs s rule: send_all.induct) simp_all

lemma ses_step_due:
  assumes "ses_step fl mark colour ro s (On s')" "due_ok s"
  shows "due_ok s'"
  using assms(1)
proof (cases rule: ses_step.cases)
  case (step_typed ok chunk)
  then show ?thesis
    using assms(2) by (auto simp: typed_def Let_def due_ok_def split: if_split_asm)
next
  case (step_fence waiting)
  then show ?thesis using assms(2) by (auto simp: met_fence_def due_ok_def)
next
  case (step_command saved drained c)
  then obtain fw where fw: "do_command fl ro c (before_command drained s) = Some fw"
    by (auto simp: commanded_def split: option.split_asm)
  have "due_ok (before_command drained s)"
    using assms(2) send_all_due[of drained s] by (simp add: before_command_def due_ok_def)
  then have "due_ok (flow_session fw)" by (rule do_command_due[OF fw])
  then show ?thesis using step_command fw by (auto simp: commanded_def due_ok_def split: flow.split_asm)
next
  case step_ended
  then show ?thesis using assms(2) by (simp add: due_ok_def)
next
  case (step_event e es ans saved recent)
  then show ?thesis
    by (auto simp: happened_def Let_def due_ok_def paint_soon_def paint_def split: option.split_asm if_split_asm)
next
  case step_due
  then show ?thesis by (simp add: due_ok_def)
next
  case (step_winch scr)
  then show ?thesis using assms(2) by (auto simp: winched_def due_ok_def split: option.split_asm)
next
  case (step_reads p c e)
  then show ?thesis using assms(2) by (simp add: due_ok_def post_def)
next
  case (step_reader_ends p c)
  then show ?thesis using assms(2) by (simp add: due_ok_def post_def)
qed

lemma reach_due: "ses_reach fl mark colour ro s0 s \<Longrightarrow> due_ok s0 \<Longrightarrow> due_ok s"
  by (induction rule: ses_reach.induct) (auto intro: ses_step_due)

lemma start_due: "start_session fl service running ro scr layout answers saved = Some s \<Longrightarrow> due_ok s"
  by (auto simp: start_session_def Let_def bind_eq_Some_conv due_ok_def)

text \<open>
  Limiting repaints loses nothing: whenever something on the screen has changed since the last paint, a paint
  is due.
\<close>

theorem changes_are_drawn_or_due:
  assumes "start_session fl service running ro scr layout answers saved = Some s0" "ses_reach fl mark colour ro s0 s"
    "ss_stale s"
  shows "ss_owed s"
  using reach_due[OF assms(2) start_due[OF assms(1)]] assms(3) by (simp add: due_ok_def)

theorem changes_are_drawn_or_due_witness: "ss_stale after_print \<and> ss_owed after_print"
proof -
  let ?s = "post b_prints split_session"
  have "ss_events ?s = [b_prints]" by (simp add: post_def split_session_shape)
  then have "ses_step fifths plain_marks no_colour False ?s
      (happened fifths plain_marks no_colour (Attached True) True True b_prints (?s\<lparr>ss_events := []\<rparr>))"
    by (rule step_event)
  then have "ses_step fifths plain_marks no_colour False ?s (On after_print)"
    using the_on[OF split_session_shape(5)] by (simp add: posted_events after_print_def)
  then have "ses_reach fifths plain_marks no_colour False split_session after_print"
    using posted_reach[of b_prints] reach_step by blast
  moreover have "ss_stale after_print" by code_simp
  ultimately show ?thesis using changes_are_drawn_or_due[OF split_session_starts] by blast
qed

section \<open>The panes fill the screen\<close>

text \<open>Stretches of a line, each beginning \<open>gap\<close> after the one before it has ended, from \<open>x\<close> to \<open>e\<close>.\<close>

fun abutting :: "int \<Rightarrow> int \<Rightarrow> int \<Rightarrow> (int \<times> int) list \<Rightarrow> bool" where
  "abutting gap x e [] \<longleftrightarrow> False"
| "abutting gap x e [(a, l)] \<longleftrightarrow> a = x \<and> 1 \<le> l \<and> a + l = e"
| "abutting gap x e ((a, l) # q # qs) \<longleftrightarrow> a = x \<and> 1 \<le> l \<and> abutting gap (a + l + gap) e (q # qs)"

definition fills :: "bool \<Rightarrow> int \<Rightarrow> int \<Rightarrow> rect list \<Rightarrow> bool" where
  "fills in_rows cols rows rs \<longleftrightarrow>
     (if in_rows
      then abutting 0 0 rows (map (\<lambda>r. (rc_row r, rc_rows r)) rs) \<and> list_all (\<lambda>r. rc_col r = 0 \<and> rc_cols r = cols) rs
      else abutting 1 0 cols (map (\<lambda>r. (rc_col r, rc_cols r)) rs) \<and> list_all (\<lambda>r. rc_row r = 0 \<and> rc_rows r = rows) rs)"

lemma abutting_snoc_cong: "abutting gap x e ((a, l) # map f (r # rs)) \<longleftrightarrow> a = x \<and> 1 \<le> l \<and> abutting gap (a + l + gap) e (map f (r # rs))"
  by (cases "f r") simp

lemma stack_rows_Cons: "\<exists>r rs. stack_rows cols rows y (h # hs) = r # rs"
  by (cases hs) simp_all

lemma stack_cols_Cons: "\<exists>r rs. stack_cols cols rows x (w # ws) = r # rs"
  by (cases ws) simp_all

lemma sum_list_ge_length: "list_all (\<lambda>h. (1::int) \<le> h) hs \<Longrightarrow> int (length hs) \<le> sum_list hs"
  by (induction hs) auto

lemma stack_rows_fill:
  "hs \<noteq> [] \<Longrightarrow> list_all (\<lambda>h. 1 \<le> h) hs \<Longrightarrow> y + sum_list hs \<le> rows \<Longrightarrow>
   abutting 0 y rows (map (\<lambda>r. (rc_row r, rc_rows r)) (stack_rows cols rows y hs))
   \<and> list_all (\<lambda>r. rc_col r = 0 \<and> rc_cols r = cols) (stack_rows cols rows y hs)"
proof (induction cols rows y hs rule: stack_rows.induct)
  case (3 cols rows y h h2 hs)
  have h: "max h 1 = h" using 3 by simp
  obtain r rs where e: "stack_rows cols rows (y + h) (h2 # hs) = r # rs" using stack_rows_Cons by blast
  have "y + h + sum_list (h2 # hs) \<le> rows" using 3 by simp
  then show ?case using 3 by (simp add: h e del: sum_list.Cons)
qed simp_all

lemma stack_cols_fill:
  "ws \<noteq> [] \<Longrightarrow> list_all (\<lambda>w. 1 \<le> w) ws \<Longrightarrow> x + sum_list ws + int (length ws) - 1 \<le> cols \<Longrightarrow>
   abutting 1 x cols (map (\<lambda>r. (rc_col r, rc_cols r)) (stack_cols cols rows x ws))
   \<and> list_all (\<lambda>r. rc_row r = 0 \<and> rc_rows r = rows) (stack_cols cols rows x ws)"
proof (induction cols rows x ws rule: stack_cols.induct)
  case (3 cols rows x w w2 ws)
  have w: "max w 1 = w" using 3 by simp
  obtain r rs where e: "stack_cols cols rows (x + w + 1) (w2 # ws) = r # rs" using stack_cols_Cons by blast
  have "x + w + 1 + sum_list (w2 # ws) + int (length (w2 # ws)) - 1 \<le> cols" using 3 by simp
  then show ?case using 3 by (simp add: w e del: sum_list.Cons list.size(4))
qed simp_all

text \<open>The room the panes share, and what each of them gets of it.\<close>

definition shared_room :: "int \<Rightarrow> int \<Rightarrow> bool \<Rightarrow> nat \<Rightarrow> int" where
  "shared_room cols rows in_rows n = (if in_rows then rows else usable_cols cols n)"

text \<open>
  When every pane's share of the screen is at least a line, the panes fill it: the first begins at the edge,
  each next one begins where the one before it ended - after one separating column, when they stand side by
  side - and the last ends at the other edge, all of them as tall, or as wide, as the screen. No column is drawn by
  two panes and none is left over, whatever the rounding of the shares was.
\<close>

theorem panes_fill_the_screen:
  assumes "ws \<noteq> []"
    "list_all (\<lambda>w. 1 \<le> wt_share fl (shared_room cols rows in_rows (length ws)) ws w) ws"
    "sum_list (map (wt_share fl (shared_room cols rows in_rows (length ws)) ws) ws)
       \<le> (if in_rows then rows else cols - (int (length ws) - 1))"
  shows "fills in_rows cols rows (pane_rects fl cols rows in_rows ws)"
proof (cases in_rows)
  case True
  then show ?thesis using assms stack_rows_fill[of "map (wt_share fl rows ws) ws" 0 rows cols]
    by (simp add: fills_def pane_rects_def shared_room_def list_all_length)
next
  case False
  then show ?thesis
    using assms stack_cols_fill[of "map (wt_share fl (usable_cols cols (length ws)) ws) ws" 0 cols rows]
    by (simp add: fills_def pane_rects_def shared_room_def list_all_length)
qed

theorem panes_fill_the_screen_witness: "fills False 80 24 (pane_rects fifths 80 24 False [5, 9, 5])"
  by (rule panes_fill_the_screen) code_simp+

text \<open>
  One share that rounds to nothing is raised to a column the last pane does not have: six panes of a screen of 25
  columns, and the last of them is given a width of -1.
\<close>

lemma squeezed_pane: "rc_cols (List.last (pane_rects fifths 25 10 False [1, 1, 1, 1, 30, 1])) = -1"
  by code_simp

section \<open>Where the session does not keep its word\<close>

definition three_panes :: "int saved_layout" where
  "three_panes = \<lparr>sl_rows = False, sl_focus = 0, sl_panes = [(bstr ''a'', 5), (bstr ''b'', 5), (bstr ''c'', 5)]\<rparr>"

text \<open>
  The arrangement on disk is to survive a restore that had to leave a pane out. The attach writes the smaller one
  back before its first key.
\<close>

lemma restore_forgets_a_pane:
  "map_option (\<lambda>s. map_option (map fst \<circ> sl_panes) (ss_file s))
     (start_session fifths (bstr ''a'') True False (60, 2) (Layout three_panes) [Refused (bstr ''gone''), Attached True] True)
   = Some (Some [bstr ''a'', bstr ''c''])"
  by code_simp

definition a_ends :: event where
  "a_ends = (no_event 0 0)\<lparr>ev_finished := True\<rparr>"

definition run_on :: "('w session \<Rightarrow> 'w result) \<Rightarrow> 'w result \<Rightarrow> 'w result" where
  "run_on f r = (case r of On s \<Rightarrow> f s | _ \<Rightarrow> r)"

text \<open>
  A pane whose program ends closes. The pane that was asked for does not, once there is a layout to come back to:
  it is put up as one that was not running.
\<close>

lemma asked_for_pane_stays:
  "(case happened fifths plain_marks no_colour (Attached True) True True a_ends split_session of
      On s \<Rightarrow> ss_panes s = [0, 1] \<and> ss_notes s = [Not_running (bstr ''a'')] | _ \<Rightarrow> False)
   \<and> (case happened fifths plain_marks no_colour (Attached True) True True b_ends split_session of
      On s \<Rightarrow> ss_panes s = [0] | _ \<Rightarrow> False)"
  by code_simp

definition a_lost :: event where
  "a_lost = (no_event 0 0)\<lparr>ev_gone := True\<rparr>"

text \<open>
  A pane that has lost its connection counts as done: when the other pane's program ends, the attach reports that
  the program has ended, though the first one runs on.
\<close>

lemma lost_taken_for_finished:
  "(case run_on (happened fifths plain_marks no_colour (Attached True) True True b_ends)
           (happened fifths plain_marks no_colour (No_daemon []) True True a_lost split_session) of
      Ends x s \<Rightarrow> x = OutcomeFinished \<and> map (lp_frozen \<circ> pane_of s) (ss_panes s) = [True]
        \<and> map (lp_finished \<circ> pane_of s) (ss_panes s) = [False]
    | _ \<Rightarrow> False)"
  by code_simp

text \<open>
  What is typed into a read-only pane is refused - unless a command follows it closely enough: then it is sent.
\<close>

definition watched_session :: "int session" where
  "watched_session = the (start_session fifths (bstr ''a'') True True (23, 2) No_layout [] True)"

lemma drained_past_the_guard:
  "(case commanded fifths True True [bstr ''rm''] Redraw watched_session of
      On s \<Rightarrow> cn_sent (ss_conns s ! 0) = [Typed (bstr ''rm'')] | _ \<Rightarrow> False)
   \<and> (case typed True (bstr ''rm'') watched_session of On s \<Rightarrow> cn_sent (ss_conns s ! 0) = [] | _ \<Rightarrow> False)"
  by code_simp

definition b_renamed :: event where
  "b_renamed = (no_event 1 1)\<lparr>ev_renamed := bstr ''c''\<rparr>"

text \<open>A service renamed by somebody else keeps its old name in the layout file.\<close>

lemma rename_not_remembered:
  "(case happened fifths plain_marks no_colour (Attached True) True True b_renamed split_session of
      On s \<Rightarrow> map (lp_service \<circ> pane_of s) (ss_panes s) = [bstr ''a'', bstr ''c'']
        \<and> map_option (map fst \<circ> sl_panes) (ss_file s) = Some [bstr ''a'', bstr ''b''] | _ \<Rightarrow> False)"
  by code_simp

end
