(* ===== verification/FabricLogs.thy ===== *)
theory FabricLogs
  imports LogRead Fabric
begin

text \<open>
  What a fabric answers about logs: \<open>Logs\<close>, \<open>LogsSince\<close>, \<open>LogFiles\<close>, and what becomes of a log when its
  service is renamed or removed (\<open>src/internal/fabric/fabric.go\<close>). The files, which of them can be read,
  renamed and removed, and what the buffers hold are arguments; the words of an answer are values.
\<close>

section \<open>Answers\<close>

datatype tail_note = NoNote | FromAGoneService bytes | BeforeTimes int

record log_tail =
  lt_note :: tail_note
  lt_data :: bytes
  lt_truncated :: bool
  lt_path :: bytes
  lt_behind :: "(bytes \<times> bytes) option" \<comment> \<open>\<open>the error of the writer, and the file that stops there\<close>\<close>

datatype logs_error =
    Lookup fab_error
  | Unreadable read_error
  | KeepsNoLogs bytes
  | LoggingOff bytes
  | WritingBroke bytes bytes
  | Untimed bytes

text \<open>What \<open>Logs\<close> looks at: the directory, the error and the contents of each buffer, and the files.\<close>

record log_env =
  le_error :: "nat \<Rightarrow> bytes"
  le_ring :: "nat \<Rightarrow> bytes"
  le_readable :: "bytes \<Rightarrow> bool"
  le_def_readable :: bool
  le_files :: files

definition has_logging_off :: "log_env \<Rightarrow> bytes \<Rightarrow> fab \<Rightarrow> bool" where
  "has_logging_off v n f = (case reg_get (le_def_readable v) n (fb_reg f) of Inr d \<Rightarrow> sv_no_log d | Inl e \<Rightarrow> False)"

text \<open>A name no service has: the file it left, if there is one.\<close>

definition left_behind :: "bytes \<Rightarrow> fab_error \<Rightarrow> (read_error + bytes \<times> bool) \<Rightarrow> fab \<Rightarrow> logs_error + log_tail" where
  "left_behind n e got f =
     (case e of
        NoSuchSupervisor m \<Rightarrow>
          if fb_log_dir f = [] then Inl (Lookup e)
          else (case got of
                  Inl NotExist \<Rightarrow> Inl (Lookup e)
                | Inl r \<Rightarrow> Inl (Unreadable r)
                | Inr (data, clipped) \<Rightarrow>
                    Inr \<lparr>lt_note = FromAGoneService n, lt_data = data, lt_truncated = clipped,
                         lt_path = log_path (fb_log_dir f) n, lt_behind = None\<rparr>)
      | _ \<Rightarrow> Inl (Lookup e))"

text \<open>The answer from memory: it has no path.\<close>

definition from_ring :: "bytes \<Rightarrow> int \<Rightarrow> (bytes \<times> bytes) option \<Rightarrow> log_tail" where
  "from_ring data max_bytes behind =
     (if max_bytes > 0 \<and> int (length data) > max_bytes
      then \<lparr>lt_note = NoNote, lt_data = drop (nat (int (length data) - max_bytes)) data, lt_truncated = True,
            lt_path = [], lt_behind = behind\<rparr>
      else \<lparr>lt_note = NoNote, lt_data = data, lt_truncated = False, lt_path = [], lt_behind = behind\<rparr>)"

definition fab_logs :: "log_env \<Rightarrow> bytes \<Rightarrow> int \<Rightarrow> fab \<Rightarrow> logs_error + log_tail" where
  "fab_logs v n max_bytes f =
     (let p = log_path (fb_log_dir f) n in
      case find_sup n f of
        Inl e \<Rightarrow> left_behind n e (read_log_tail (le_readable v) (le_files v) p max_bytes) f
      | Inr i \<Rightarrow>
          (let out = su_out (sup_of f i);
               kept = (fb_log_dir f \<noteq> [] \<and> \<not> has_logging_off v n f);
               broke = (kept \<and> le_error v out \<noteq> []);
               behind = (if broke then Some (le_error v out, p) else None)
           in if kept \<and> \<not> broke then
                (case read_log_tail (le_readable v) (le_files v) p max_bytes of
                   Inr (data, clipped) \<Rightarrow> Inr \<lparr>lt_note = NoNote, lt_data = data, lt_truncated = clipped, lt_path = p, lt_behind = None\<rparr>
                 | Inl NotExist \<Rightarrow> Inr (from_ring (le_ring v out) max_bytes behind)
                 | Inl r \<Rightarrow> Inl (Unreadable r))
              else Inr (from_ring (le_ring v out) max_bytes behind)))"

text \<open>\<open>got\<close> is what \<open>ReadLogSince\<close> answers for the path of the service.\<close>

definition fab_logs_since :: "log_env \<Rightarrow> bytes \<Rightarrow> (read_error + log_since) \<Rightarrow> fab \<Rightarrow> logs_error + log_tail" where
  "fab_logs_since v n got f =
     (let p = log_path (fb_log_dir f) n in
      case find_sup n f of
        Inl e \<Rightarrow> left_behind n e (map_sum id (\<lambda>s. (ls_data s, ls_truncated s)) got) f
      | Inr i \<Rightarrow>
          (let out = su_out (sup_of f i) in
           if fb_log_dir f = [] then Inl (KeepsNoLogs n)
           else if has_logging_off v n f then Inl (LoggingOff n)
           else if le_error v out \<noteq> [] then Inl (WritingBroke n (le_error v out))
           else (case got of
                   Inl NoIndex \<Rightarrow> Inl (Untimed n)
                 | Inl NotExist \<Rightarrow> Inr \<lparr>lt_note = NoNote, lt_data = [], lt_truncated = False, lt_path = p, lt_behind = None\<rparr>
                 | Inl r \<Rightarrow> Inl (Unreadable r)
                 | Inr s \<Rightarrow>
                     Inr \<lparr>lt_note = (if ls_unknown s > 0 then BeforeTimes (ls_unknown s) else NoNote), lt_data = ls_data s,
                          lt_truncated = ls_truncated s, lt_path = p, lt_behind = None\<rparr>)))"

definition log_files :: "log_env \<Rightarrow> bytes \<Rightarrow> fab \<Rightarrow> bytes list" where
  "log_files v n f =
     (if fb_log_dir f = [] then []
      else if has_logging_off v n f then []
      else (let p = log_path (fb_log_dir f) n in filter (\<lambda>q. le_files v q \<noteq> None) [p, old_path p]))"

section \<open>Renaming and removing\<close>

text \<open>The suffixes of a log's files: the log, its rotated generation, and the time index of each.\<close>

definition log_suffixes :: "bytes list" where
  "log_suffixes = [[], bstr ''.1'', bstr ''.idx'', bstr ''.1.idx'']"

datatype file_trouble = AlreadyThere bytes bytes | NotRenamed bytes | NotRemoved bytes

text \<open>\<open>may q\<close> says whether the operating system carries out the rename, or the removal, of \<open>q\<close>.\<close>

definition move_one :: "(bytes \<Rightarrow> bool) \<Rightarrow> bytes \<Rightarrow> bytes \<Rightarrow> bytes \<Rightarrow> file_trouble list \<times> files \<Rightarrow> file_trouble list \<times> files" where
  "move_one may p q x s =
     (case s of (errs, fs) \<Rightarrow>
        if fs (p @ x) = None then (errs, fs)
        else if fs (q @ x) \<noteq> None then (errs @ [AlreadyThere (q @ x) (p @ x)], fs)
        else if \<not> may (p @ x) then (errs @ [NotRenamed (p @ x)], fs)
        else (errs, rename_file (p @ x) (q @ x) fs))"

definition move_logs :: "(bytes \<Rightarrow> bool) \<Rightarrow> bytes \<Rightarrow> bytes \<Rightarrow> bytes \<Rightarrow> files \<Rightarrow> file_trouble list \<times> files" where
  "move_logs may dir old new fs =
     (if dir = [] then ([], fs)
      else fold (move_one may (log_path dir old) (log_path dir new)) log_suffixes ([], fs))"

definition remove_one :: "(bytes \<Rightarrow> bool) \<Rightarrow> bytes \<Rightarrow> file_trouble list \<times> files \<Rightarrow> file_trouble list \<times> files" where
  "remove_one may q s =
     (case s of (errs, fs) \<Rightarrow>
        if fs q = None then (errs, fs)
        else if \<not> may q then (errs @ [NotRemoved q], fs)
        else (errs, fs(q := None)))"

definition remove_logs :: "(bytes \<Rightarrow> bool) \<Rightarrow> bytes \<Rightarrow> bytes \<Rightarrow> files \<Rightarrow> file_trouble list \<times> files" where
  "remove_logs may dir n fs =
     (if dir = [] then ([], fs)
      else fold (remove_one may) (map ((@) (log_path dir n)) log_suffixes) ([], fs))"

section \<open>Whose output it is\<close>

lemma from_ring_suffix:
  "\<exists>m. lt_data (from_ring data max_bytes b) = drop m data" "lt_path (from_ring data max_bytes b) = []"
  "lt_note (from_ring data max_bytes b) = NoNote" "lt_behind (from_ring data max_bytes b) = b"
  by (auto simp: from_ring_def intro: exI[of _ 0])


section \<open>A log follows its service\<close>

lemma log_path_inj [simp]: "log_path d a = log_path d b \<longleftrightarrow> a = b"
  by (simp add: log_path_def)

lemma log_path_suffix [simp]:
  assumes "x \<in> set log_suffixes" "y \<in> set log_suffixes"
  shows "log_path d a @ x = log_path d b @ y \<longleftrightarrow> a = b \<and> x = y"
proof
  assume e: "log_path d a @ x = log_path d b @ y"
  then have "rev (log_path d a @ x) = rev (log_path d b @ y)" by simp
  then have "x = y" using assms by (auto simp: log_path_def log_suffixes_def bstr_def)
  then show "a = b \<and> x = y" using e by simp
qed simp

lemma fold_move:
  assumes "set xs \<subseteq> set log_suffixes" "distinct xs" "old \<noteq> new"
    "fold (move_one may (log_path d old) (log_path d new)) xs (errs, fs) = (errs2, fs2)"
  shows "(\<exists>more. errs2 = errs @ more
      \<and> (more = [] \<longrightarrow> (\<forall>x \<in> set xs. fs2 (log_path d old @ x) = None \<and>
             fs2 (log_path d new @ x) = (case fs (log_path d old @ x) of None \<Rightarrow> fs (log_path d new @ x) | Some b \<Rightarrow> Some b))))
    \<and> (\<forall>x \<in> set xs. (fs2 (log_path d old @ x) = fs (log_path d old @ x) \<and> fs2 (log_path d new @ x) = fs (log_path d new @ x))
         \<or> (fs (log_path d new @ x) = None \<and> fs2 (log_path d new @ x) = fs (log_path d old @ x) \<and> fs2 (log_path d old @ x) = None))
    \<and> (\<forall>p. p \<notin> (@) (log_path d old) ` set xs \<union> (@) (log_path d new) ` set xs \<longrightarrow> fs2 p = fs p)"
  using assms
proof (induction xs arbitrary: errs fs)
  case (Cons x xs)
  obtain errs1 fs1 where s: "move_one may (log_path d old) (log_path d new) x (errs, fs) = (errs1, fs1)" by force
  have x: "x \<in> set log_suffixes" "set xs \<subseteq> set log_suffixes" "distinct xs" "x \<notin> set xs" using Cons.prems by auto
  have f2: "fold (move_one may (log_path d old) (log_path d new)) xs (errs1, fs1) = (errs2, fs2)"
    using Cons.prems(4) s by simp
  note ih = Cons.IH[OF x(2,3) Cons.prems(3) f2]
  have apart: "fs1 (log_path d n @ y) = fs (log_path d n @ y)" if "y \<in> set xs" for y n
  proof -
    have "y \<in> set log_suffixes" "y \<noteq> x" using that x by auto
    then show ?thesis using s x(1)
      by (auto simp: move_one_def rename_file_def split: if_split_asm option.split_asm)
  qed
  have others: "fs2 p = fs1 p" if "p \<notin> (@) (log_path d old) ` set xs \<union> (@) (log_path d new) ` set xs" for p
    using ih that by blast
  have here: "fs2 (log_path d n @ x) = fs1 (log_path d n @ x)" for n
  proof (rule others)
    have "log_path d n @ x \<noteq> log_path d k @ y" if "y \<in> set xs" for k y
      using log_path_suffix[OF x(1), of y d n k] x(2,4) that by auto
    then show "log_path d n @ x \<notin> (@) (log_path d old) ` set xs \<union> (@) (log_path d new) ` set xs" by blast
  qed
  have one: "(fs1 (log_path d old @ x) = fs (log_path d old @ x) \<and> fs1 (log_path d new @ x) = fs (log_path d new @ x))
         \<or> (fs (log_path d new @ x) = None \<and> fs1 (log_path d new @ x) = fs (log_path d old @ x) \<and> fs1 (log_path d old @ x) = None)"
    using s x(1) Cons.prems(3) by (auto simp: move_one_def rename_file_def split: if_split_asm option.split_asm)
  have grow: "\<exists>more. errs1 = errs @ more \<and> (more = [] \<longrightarrow> fs1 (log_path d old @ x) = None \<and>
             fs1 (log_path d new @ x) = (case fs (log_path d old @ x) of None \<Rightarrow> fs (log_path d new @ x) | Some b \<Rightarrow> Some b))"
    using s x(1) Cons.prems(3) by (auto simp: move_one_def rename_file_def split: if_split_asm option.split_asm)
  have rest: "fs1 p = fs p" if "p \<noteq> log_path d old @ x" "p \<noteq> log_path d new @ x" for p
    using s that by (auto simp: move_one_def rename_file_def split: if_split_asm option.split_asm)
  obtain m1 m2 where m: "errs1 = errs @ m1" "errs2 = errs1 @ m2"
    "m1 = [] \<Longrightarrow> fs1 (log_path d old @ x) = None \<and>
       fs1 (log_path d new @ x) = (case fs (log_path d old @ x) of None \<Rightarrow> fs (log_path d new @ x) | Some b \<Rightarrow> Some b)"
    "m2 = [] \<Longrightarrow> \<forall>y \<in> set xs. fs2 (log_path d old @ y) = None \<and>
       fs2 (log_path d new @ y) = (case fs1 (log_path d old @ y) of None \<Rightarrow> fs1 (log_path d new @ y) | Some b \<Rightarrow> Some b)"
    using grow ih by blast
  show ?case
  proof (intro conjI)
    show "\<exists>more. errs2 = errs @ more \<and> (more = [] \<longrightarrow> (\<forall>y \<in> set (x # xs). fs2 (log_path d old @ y) = None \<and>
        fs2 (log_path d new @ y) = (case fs (log_path d old @ y) of None \<Rightarrow> fs (log_path d new @ y) | Some b \<Rightarrow> Some b)))"
    proof (intro exI[of _ "m1 @ m2"] conjI impI ballI)
      show "errs2 = errs @ (m1 @ m2)" using m by simp
    next
      fix y assume z: "m1 @ m2 = []" and y: "y \<in> set (x # xs)"
      show "fs2 (log_path d old @ y) = None" using m(3,4) z y here by auto
    next
      fix y assume z: "m1 @ m2 = []" and y: "y \<in> set (x # xs)"
      show "fs2 (log_path d new @ y) = (case fs (log_path d old @ y) of None \<Rightarrow> fs (log_path d new @ y) | Some b \<Rightarrow> Some b)"
      proof (cases "y = x")
        case True
        then show ?thesis using m(3) z here by (cases "fs (log_path d old @ x)") simp_all
      next
        case False
        then have "y \<in> set xs" using y by simp
        then show ?thesis using m(4) z apart[of y new] apart[of y old] by (cases "fs (log_path d old @ y)") auto
      qed
    qed
    show "\<forall>y \<in> set (x # xs). (fs2 (log_path d old @ y) = fs (log_path d old @ y) \<and> fs2 (log_path d new @ y) = fs (log_path d new @ y))
         \<or> (fs (log_path d new @ y) = None \<and> fs2 (log_path d new @ y) = fs (log_path d old @ y) \<and> fs2 (log_path d old @ y) = None)"
      using one here ih apart by simp
    show "\<forall>p. p \<notin> (@) (log_path d old) ` set (x # xs) \<union> (@) (log_path d new) ` set (x # xs) \<longrightarrow> fs2 p = fs p"
      using ih rest by simp
  qed
qed simp

lemma old_index_paths: "old_path p = p @ bstr ''.1''" "index_path p = p @ bstr ''.idx''" "index_path (old_path p) = p @ bstr ''.1.idx''"
  by (simp_all add: old_path_def index_path_def bstr_def)

lemma tail_file_same: "fs p = gs q \<Longrightarrow> tail_file (\<lambda>_. True) fs p = tail_file (\<lambda>_. True) gs q"
  by (cases "gs q") (simp_all add: tail_file_def fun_eq_iff)


definition two_logs :: files where
  "two_logs = (\<lambda>_. None)(log_path (bstr ''d'') (bstr ''a'') := Some (bstr ''new''),
     old_path (log_path (bstr ''d'') (bstr ''a'')) := Some (bstr ''older''))"


text \<open>After a removal that reports nothing the service has no log left, and every other file is as it was.\<close>

lemma removed_logs_are_gone:
  assumes "remove_logs may dir n fs = ([], fs2)" "dir \<noteq> []"
  shows "fs2 p = (if p \<in> (@) (log_path dir n) ` set log_suffixes then None else fs p)"
proof -
  have "fst (fold (remove_one may) qs (errs, gs)) = [] \<Longrightarrow>
      errs = [] \<and> snd (fold (remove_one may) qs (errs, gs)) p = (if p \<in> set qs then None else gs p)" for qs errs gs
  proof (induction qs arbitrary: errs gs)
    case (Cons q qs)
    obtain e1 g1 where s: "remove_one may q (errs, gs) = (e1, g1)" by force
    then show ?case using Cons.IH[of e1 g1] Cons.prems
      by (auto simp: remove_one_def split: if_split_asm)
  qed simp
  from this[of "map ((@) (log_path dir n)) log_suffixes" "[]" fs] show ?thesis
    using assms by (simp add: remove_logs_def)
qed

definition quiet_env :: log_env where
  "quiet_env = \<lparr>le_error = (\<lambda>_. []), le_ring = (\<lambda>_. bstr ''mine''), le_readable = (\<lambda>_. True), le_def_readable = True,
     le_files = (\<lambda>_. None)(log_path (bstr ''d'') (bstr ''a'') := Some (bstr ''theirs''))\<rparr>"

definition good_disk :: fab_env where
  "good_disk = \<lparr>fa_now = 1, fa_readable = True, fa_stat_ok = True, fa_fault = None, fa_removable = True, fa_undo = True,
     fa_taken = False, fa_log_error = [], fa_pty = True\<rparr>"

definition unlogged :: fab where
  "unlogged = snd (load good_disk True (\<lambda>_. True)
     (new_fabric [(bstr ''a'', Inr ((plain_service (bstr ''a'') RestartNo)\<lparr>sv_no_log := True\<rparr>))] (bstr ''d'')))"


end
