(* ===== verification/Server.thy ===== *)
theory Server
  imports FabricLogs AttachServer Tabs "HOL-Library.Sublist"
begin

text \<open>
  The daemon's side of a connection, \<open>src/internal/daemon/server.go\<close>, and the requests and replies of
  \<open>src/internal/ipc/messages.go\<close>: what each request does to the fabric, and the answer it gets.

  A handler is a program: the questions it puts, each with what it does for every answer, down to the reply.
  Between two questions anything can happen to the fabric, so a run takes any answers; \<open>Do pc\<close> is a whole
  operation of the fabric, begun at \<open>pc\<close> (component Fabric). JSON is the standard library's: a payload is
  absent, does not decode, or decodes to a value. The words of errors are values.
\<close>

section \<open>Requests\<close>

datatype 'a body = Absent | Garbled | Given 'a

record add_request =
  ar_command :: bytes
  ar_args :: "bytes list"
  ar_dir :: bytes
  ar_env :: "bytes list"
  ar_restart :: bytes
  ar_start :: bool
  ar_no_log :: bool
  ar_close_on_exit :: bool
  ar_auto_name :: bool

text \<open>\<open>None\<close> is a field the request does not have.\<close>

record set_request =
  se_command :: "bytes option"
  se_args :: "bytes list option"
  se_dir :: "bytes option"
  se_env :: "bytes list option"
  se_restart :: "bytes option"

record logs_request =
  lr_max :: int
  lr_follow :: bool
  lr_since :: int

datatype operation =
    OpPing
  | OpAdd "add_request body"
  | OpList
  | OpStatus
  | OpStart
  | OpStop
  | OpRestart
  | OpRemove "bool body"
  | OpRename "bytes body"
  | OpMove "int body"
  | OpSet "set_request body"
  | OpAttach
  | OpResize
  | OpEnsure "add_request body"
  | OpLogs "logs_request body"
  | OpUpgrade
  | OpUnknown bytes

record request =
  rq_id :: nat
  rq_service :: bytes
  rq_op :: operation

section \<open>Replies\<close>

record status_reply =
  sp_service :: bytes
  sp_state :: bytes
  sp_pid :: int
  sp_started_at :: "int option"
  sp_restarts :: int
  sp_total_starts :: int
  sp_exit_code :: int
  sp_exit_signal :: bytes
  sp_exit_unknown :: bool
  sp_has_exited :: bool
  sp_next_restart :: "int option"
  sp_last_error :: bytes
  sp_log_error :: bytes
  sp_viewers :: int
  sp_watchers :: int
  sp_enabled :: bool
  sp_command :: bytes
  sp_close_on_exit :: bool
  sp_created :: "int option"
  sp_order :: int
  sp_log_path :: bytes
  sp_log_bytes :: int

datatype tree_kill = ByCgroup bytes | ByGroup bytes

datatype reply =
    Done
  | Pong bytes tree_kill
  | StatusOf status_reply
  | Listing "status_reply list"
  | Removed "bytes list"
  | RenamedBut fab_error
  | SetTo status_reply bool
  | LogsOf log_tail bool
  | Upgrading nat "bytes list"

datatype server_error =
    MalformedPayload
  | BadPolicy policy_error
  | Fab fab_error
  | Reg service_error
  | NoLogs logs_error
  | MovingFailed bytes fab_error
  | UpgradeQueued
  | AttachDispatched
  | ResizeDetached
  | UnknownOperation bytes
  | StrayFrame kind
  | MalformedFrame

type_synonym result = "server_error + reply"

section \<open>Handlers as programs\<close>

datatype prog =
    Answer result
  | Do op_pc "fab_error option \<Rightarrow> prog"
  | AskStatus bytes "fab_error + status \<Rightarrow> prog"
  | AskDefinition bytes "service_error + service \<Rightarrow> prog"
  | AskProcess bytes "fab_error + service option \<Rightarrow> prog"
  | AskList "status list \<Rightarrow> prog"
  | AskLogFiles bytes "bytes list \<Rightarrow> prog"
  | AskSize bytes "int option \<Rightarrow> prog"
  | AskViewers bytes bool "nat \<Rightarrow> prog"
  | AskLogs bytes int int "logs_error + log_tail \<Rightarrow> prog"
  | AskDaemon "bytes \<Rightarrow> tree_kill \<Rightarrow> prog"
  | AskHandover "nat \<Rightarrow> bytes list \<Rightarrow> prog"
  | QueueUpgrade "bool \<Rightarrow> prog"
  | WaitABit "bool \<Rightarrow> prog"

text \<open>
  \<open>AskProcess\<close> answers with the definition the live process was started with; \<open>AskViewers n True\<close> counts the
  read-only viewers only; \<open>WaitABit\<close> says whether the deadline is still ahead, and sleeps if it is.
\<close>

definition refuse :: "server_error \<Rightarrow> prog" where
  "refuse e = Answer (Inl e)"

subsection \<open>Statuses\<close>

definition exit_signal_of :: "exit_status \<Rightarrow> bytes" where
  "exit_signal_of e = (if is_unknown e then [] else signal e)"

definition base_reply :: "status \<Rightarrow> nat \<Rightarrow> nat \<Rightarrow> status_reply" where
  "base_reply st viewers watchers =
     \<lparr>sp_service = st_service st, sp_state = state_string (st_state st), sp_pid = st_pid st, sp_started_at = st_started_at st,
      sp_restarts = st_restarts st, sp_total_starts = st_total_starts st, sp_exit_code = code (st_last_exit st),
      sp_exit_signal = exit_signal_of (st_last_exit st), sp_exit_unknown = is_unknown (st_last_exit st),
      sp_has_exited = st_has_exited st, sp_next_restart = st_next_restart st, sp_last_error = st_last_error st,
      sp_log_error = st_log_error st, sp_viewers = int viewers, sp_watchers = int watchers, sp_enabled = False,
      sp_command = [], sp_close_on_exit = False, sp_created = None, sp_order = 0, sp_log_path = [], sp_log_bytes = 0\<rparr>"

definition with_definition :: "service_error + service \<Rightarrow> status_reply \<Rightarrow> status_reply" where
  "with_definition d r =
     (case d of
        Inl e \<Rightarrow> r
      | Inr s \<Rightarrow> r\<lparr>sp_enabled := sv_enabled s, sp_command := sv_command s, sp_close_on_exit := sv_close_on_exit s,
                   sp_created := sv_created s, sp_order := sv_order s\<rparr>)"

fun sum_sizes :: "bytes list \<Rightarrow> int \<Rightarrow> (int \<Rightarrow> prog) \<Rightarrow> prog" where
  "sum_sizes [] n k = k n"
| "sum_sizes (p # ps) n k = AskSize p (\<lambda>sz. sum_sizes ps (case sz of None \<Rightarrow> n | Some b \<Rightarrow> n + b) k)"

definition status_reply_of :: "status \<Rightarrow> (status_reply \<Rightarrow> prog) \<Rightarrow> prog" where
  "status_reply_of st k =
     AskViewers (st_service st) False (\<lambda>v. AskViewers (st_service st) True (\<lambda>w.
       AskDefinition (st_service st) (\<lambda>d. AskLogFiles (st_service st) (\<lambda>files.
         let r = with_definition d (base_reply st v w) in
         if files = [] then k r
         else sum_sizes files 0 (\<lambda>n. k (r\<lparr>sp_log_path := hd files, sp_log_bytes := n\<rparr>))))))"

text \<open>Two seconds in sleeps of ten milliseconds at least.\<close>

definition settle_rounds :: nat where "settle_rounds = 200"

fun poll :: "nat \<Rightarrow> fab_error + status \<Rightarrow> bytes \<Rightarrow> (fab_error + status \<Rightarrow> prog) \<Rightarrow> prog" where
  "poll 0 st n k = k st"
| "poll (Suc r) st n k = WaitABit (\<lambda>before.
     if before then AskStatus n (\<lambda>now. case now of
         Inl e \<Rightarrow> k now
       | Inr s \<Rightarrow> if st_state s \<noteq> StateStopped then k now else poll r now n k)
     else k st)"

definition settled_status :: "bytes \<Rightarrow> (fab_error + status \<Rightarrow> prog) \<Rightarrow> prog" where
  "settled_status n k = AskStatus n (\<lambda>st. case st of
       Inl e \<Rightarrow> k st
     | Inr s \<Rightarrow>
         if st_state s \<noteq> StateStopped then k st
         else AskDefinition n (\<lambda>d. case d of
             Inl e \<Rightarrow> k st
           | Inr def \<Rightarrow> if sv_enabled def then poll settle_rounds st n k else k st))"

definition status_after :: "bytes \<Rightarrow> prog" where
  "status_after n = settled_status n (\<lambda>st. case st of
       Inl e \<Rightarrow> refuse (Fab e)
     | Inr s \<Rightarrow> status_reply_of s (\<lambda>r. Answer (Inr (StatusOf r))))"

fun reply_each :: "status list \<Rightarrow> status_reply list \<Rightarrow> (status_reply list \<Rightarrow> prog) \<Rightarrow> prog" where
  "reply_each [] acc k = k acc"
| "reply_each (st # sts) acc k = status_reply_of st (\<lambda>r. reply_each sts (acc @ [r]) k)"

definition list_replies :: "(status_reply list \<Rightarrow> prog) \<Rightarrow> prog" where
  "list_replies k = AskList (\<lambda>sts. reply_each sts [] k)"

subsection \<open>Defining services\<close>

text \<open>Without a payload a definition is empty; without a policy the service is not restarted.\<close>

definition empty_add :: add_request where
  "empty_add = \<lparr>ar_command = [], ar_args = [], ar_dir = [], ar_env = [], ar_restart = [], ar_start = False,
     ar_no_log = False, ar_close_on_exit = False, ar_auto_name = False\<rparr>"

definition service_of :: "bytes \<Rightarrow> add_request \<Rightarrow> restart_policy \<Rightarrow> service" where
  "service_of n a policy =
     \<lparr>sv_name = n, sv_command = ar_command a, sv_args = ar_args a, sv_dir = ar_dir a, sv_env = ar_env a,
      sv_restart = policy, sv_enabled = False, sv_no_log = ar_no_log a, sv_close_on_exit = ar_close_on_exit a,
      sv_auto_name = ar_auto_name a, sv_order = 0, sv_created = None\<rparr>"

definition or_empty :: "'a \<Rightarrow> 'a body \<Rightarrow> ('a \<Rightarrow> prog) \<Rightarrow> prog" where
  "or_empty def b k = (case b of Absent \<Rightarrow> k def | Garbled \<Rightarrow> refuse MalformedPayload | Given a \<Rightarrow> k a)"

definition required :: "'a body \<Rightarrow> ('a \<Rightarrow> prog) \<Rightarrow> prog" where
  "required b k = (case b of Given a \<Rightarrow> k a | _ \<Rightarrow> refuse MalformedPayload)"

definition or_refuse :: "op_pc \<Rightarrow> prog \<Rightarrow> prog" where
  "or_refuse pc k = Do pc (\<lambda>e. case e of Some err \<Rightarrow> refuse (Fab err) | None \<Rightarrow> k)"

definition add_handler :: "bytes \<Rightarrow> add_request body \<Rightarrow> prog" where
  "add_handler n b = or_empty empty_add b (\<lambda>a.
     case parse_restart_policy (ar_restart a) of
       Inl e \<Rightarrow> refuse (BadPolicy e)
     | Inr policy \<Rightarrow> or_refuse (Adding (AddLock (service_of n a policy) (ar_start a))) (status_after n))"

definition ensure_handler :: "bytes \<Rightarrow> add_request body \<Rightarrow> prog" where
  "ensure_handler n b = or_empty empty_add b (\<lambda>a.
     case parse_restart_policy (ar_restart a) of
       Inl e \<Rightarrow> refuse (BadPolicy e)
     | Inr policy \<Rightarrow> or_refuse (Ensuring (EnsureLock (service_of n a policy))) (status_after n))"

subsection \<open>Changing services\<close>

definition set_change :: "set_request \<Rightarrow> restart_policy \<Rightarrow> service \<Rightarrow> service" where
  "set_change r policy d =
     (let d1 = (case se_command r of None \<Rightarrow> d | Some c \<Rightarrow> d\<lparr>sv_command := c\<rparr>);
          d2 = (case se_args r of None \<Rightarrow> d1 | Some a \<Rightarrow> d1\<lparr>sv_args := a\<rparr>);
          d3 = (case se_dir r of None \<Rightarrow> d2 | Some x \<Rightarrow> d2\<lparr>sv_dir := x\<rparr>);
          d4 = (case se_env r of None \<Rightarrow> d3 | Some x \<Rightarrow> d3\<lparr>sv_env := x\<rparr>)
      in (case se_restart r of None \<Rightarrow> d4 | Some x \<Rightarrow> d4\<lparr>sv_restart := policy\<rparr>))"

text \<open>
  The comparison of two signatures, \<open>%q\<close> of the texts and \<open>%v\<close> of the policy: what they print can be told
  apart where the fields differ, so they are compared as fields.
\<close>

definition same_definition :: "service \<Rightarrow> service \<Rightarrow> bool" where
  "same_definition a b \<longleftrightarrow> sv_command a = sv_command b \<and> sv_args a = sv_args b \<and> sv_dir a = sv_dir b
     \<and> sv_env a = sv_env b \<and> restart_policy_string (sv_restart a) = restart_policy_string (sv_restart b)"

definition if_stale :: "bytes \<Rightarrow> (bool \<Rightarrow> prog) \<Rightarrow> prog" where
  "if_stale n k = AskProcess n (\<lambda>p. case p of
       Inr (Some started) \<Rightarrow> AskDefinition n (\<lambda>d. case d of Inl e \<Rightarrow> k False | Inr def \<Rightarrow> k (\<not> same_definition def started))
     | _ \<Rightarrow> k False)"

definition set_handler :: "bytes \<Rightarrow> set_request body \<Rightarrow> prog" where
  "set_handler n b = required b (\<lambda>r.
     let change = (\<lambda>policy. or_refuse (Updating (UpdateLock n (set_change r policy)))
           (AskStatus n (\<lambda>st. case st of
                Inl e \<Rightarrow> refuse (Fab e)
              | Inr s \<Rightarrow> status_reply_of s (\<lambda>rep. if_stale n (\<lambda>old. Answer (Inr (SetTo rep old)))))))
     in (case se_restart r of
           None \<Rightarrow> change RestartNo
         | Some p \<Rightarrow> (case parse_restart_policy p of Inl e \<Rightarrow> refuse (BadPolicy e) | Inr policy \<Rightarrow> change policy)))"

text \<open>A time never set comes before every other.\<close>

definition zero_time :: int where "zero_time = -62135596800000000000"

definition tab_of :: "status_reply \<Rightarrow> tab" where
  "tab_of r = \<lparr>tb_service = sp_service r, tb_pid = sp_pid r,
     tb_created = (case sp_created r of None \<Rightarrow> zero_time | Some t \<Rightarrow> t), tb_order = sp_order r\<rparr>"

fun renumber :: "bytes \<Rightarrow> (bytes \<times> int) list \<Rightarrow> prog" where
  "renumber moving [] = Answer (Inr Done)"
| "renumber moving ((n, pos) # us) =
     Do (Updating (UpdateLock n (\<lambda>d. d\<lparr>sv_order := pos\<rparr>)))
       (\<lambda>e. case e of Some err \<Rightarrow> refuse (MovingFailed moving err) | None \<Rightarrow> renumber moving us)"

definition move_handler :: "bytes \<Rightarrow> int body \<Rightarrow> prog" where
  "move_handler n b = required b (\<lambda>to. list_replies (\<lambda>rs.
     case server_move n to (map tab_of rs) of Inl e \<Rightarrow> refuse (Reg e) | Inr us \<Rightarrow> renumber n us))"

definition rename_handler :: "bytes \<Rightarrow> bytes body \<Rightarrow> prog" where
  "rename_handler n b = required b (\<lambda>to. Do (Renaming (RenameLock n to)) (\<lambda>e. case e of
       None \<Rightarrow> Answer (Inr Done)
     | Some (LogStayed f t w) \<Rightarrow> Answer (Inr (RenamedBut (LogStayed f t w)))
     | Some err \<Rightarrow> refuse (Fab err)))"

definition remove_handler :: "bytes \<Rightarrow> bool body \<Rightarrow> prog" where
  "remove_handler n b = or_empty False b (\<lambda>keep.
     let remove = (\<lambda>files. or_refuse (Removing (RemoveLock n keep)) (Answer (Inr (Removed files))))
     in if keep then remove [] else AskLogFiles n remove)"

subsection \<open>Logs and upgrades\<close>

definition max_logs_bytes :: int where "max_logs_bytes = 4194304"

definition empty_logs :: logs_request where
  "empty_logs = \<lparr>lr_max = 0, lr_follow = False, lr_since = 0\<rparr>"

definition logs_limit :: "int \<Rightarrow> int" where
  "logs_limit m = (if m \<le> 0 \<or> m > max_logs_bytes then max_logs_bytes else m)"

definition logs_handler :: "bytes \<Rightarrow> logs_request body \<Rightarrow> prog" where
  "logs_handler n b = or_empty empty_logs b (\<lambda>r.
     AskLogs n (lr_since r) (logs_limit (lr_max r)) (\<lambda>t. case t of
         Inl e \<Rightarrow> refuse (NoLogs e)
       | Inr tail \<Rightarrow> AskStatus n (\<lambda>st. Answer (Inr (LogsOf tail
           (case st of Inl e \<Rightarrow> False | Inr s \<Rightarrow> st_state s = StateRunning))))))"

definition upgrade_handler :: prog where
  "upgrade_handler = AskHandover (\<lambda>carried problems. QueueUpgrade (\<lambda>room.
     if room then Answer (Inr (Upgrading carried problems)) else refuse UpgradeQueued))"

subsection \<open>Dispatch\<close>

definition dispatch :: "request \<Rightarrow> prog" where
  "dispatch q =
     (let n = rq_service q in
      case rq_op q of
        OpPing \<Rightarrow> AskDaemon (\<lambda>version kill. Answer (Inr (Pong version kill)))
      | OpLogs b \<Rightarrow> logs_handler n b
      | OpUpgrade \<Rightarrow> upgrade_handler
      | OpAdd b \<Rightarrow> add_handler n b
      | OpEnsure b \<Rightarrow> ensure_handler n b
      | OpList \<Rightarrow> list_replies (\<lambda>rs. Answer (Inr (Listing rs)))
      | OpStatus \<Rightarrow> AskStatus n (\<lambda>st. case st of
            Inl e \<Rightarrow> refuse (Fab e) | Inr s \<Rightarrow> status_reply_of s (\<lambda>r. Answer (Inr (StatusOf r))))
      | OpStart \<Rightarrow> or_refuse (Starting (StartLock n)) (status_after n)
      | OpStop \<Rightarrow> or_refuse (Stopping (StopLock n)) (status_after n)
      | OpRestart \<Rightarrow> or_refuse (Restarting (RestartLock n)) (status_after n)
      | OpMove b \<Rightarrow> move_handler n b
      | OpRename b \<Rightarrow> rename_handler n b
      | OpSet b \<Rightarrow> set_handler n b
      | OpRemove b \<Rightarrow> remove_handler n b
      | OpAttach \<Rightarrow> refuse AttachDispatched
      | OpResize \<Rightarrow> refuse ResizeDetached
      | OpUnknown w \<Rightarrow> refuse (UnknownOperation w))"

section \<open>Runs\<close>

datatype seen =
    Did op_pc "fab_error option"
  | SawStatus bytes "fab_error + status"
  | SawDefinition bytes "service_error + service"
  | SawProcess bytes "fab_error + service option"
  | SawList "status list"
  | SawLogFiles bytes "bytes list"
  | SawSize bytes "int option"
  | SawViewers bytes bool nat
  | SawLogs bytes int int "logs_error + log_tail"
  | SawDaemon bytes tree_kill
  | SawHandover nat "bytes list"
  | Queued bool
  | Waited bool

text \<open>A run of a handler: what it did and was told, in order, and its answer.\<close>

inductive runs :: "prog \<Rightarrow> seen list \<Rightarrow> result \<Rightarrow> bool" where
  run_answer: "runs (Answer r) [] r"
| run_do: "runs (k e) tr r \<Longrightarrow> runs (Do pc k) (Did pc e # tr) r"
| run_status: "runs (k a) tr r \<Longrightarrow> runs (AskStatus n k) (SawStatus n a # tr) r"
| run_definition: "runs (k a) tr r \<Longrightarrow> runs (AskDefinition n k) (SawDefinition n a # tr) r"
| run_process: "runs (k a) tr r \<Longrightarrow> runs (AskProcess n k) (SawProcess n a # tr) r"
| run_list: "runs (k a) tr r \<Longrightarrow> runs (AskList k) (SawList a # tr) r"
| run_log_files: "runs (k a) tr r \<Longrightarrow> runs (AskLogFiles n k) (SawLogFiles n a # tr) r"
| run_size: "runs (k a) tr r \<Longrightarrow> runs (AskSize p k) (SawSize p a # tr) r"
| run_viewers: "runs (k a) tr r \<Longrightarrow> runs (AskViewers n ro k) (SawViewers n ro a # tr) r"
| run_logs: "runs (k a) tr r \<Longrightarrow> runs (AskLogs n since m k) (SawLogs n since m a # tr) r"
| run_daemon: "runs (k v c) tr r \<Longrightarrow> runs (AskDaemon k) (SawDaemon v c # tr) r"
| run_handover: "runs (k c ps) tr r \<Longrightarrow> runs (AskHandover k) (SawHandover c ps # tr) r"
| run_queue: "runs (k room) tr r \<Longrightarrow> runs (QueueUpgrade k) (Queued room # tr) r"
| run_wait: "runs (k before) tr r \<Longrightarrow> runs (WaitABit k) (Waited before # tr) r"

inductive_simps runs_simps [simp]:
  "runs (Answer r0) tr r" "runs (Do pc k) tr r" "runs (AskStatus n k) tr r" "runs (AskDefinition n k) tr r"
  "runs (AskProcess n k) tr r" "runs (AskList k) tr r" "runs (AskLogFiles n k) tr r" "runs (AskSize p k) tr r"
  "runs (AskViewers n ro k) tr r" "runs (AskLogs n since m k) tr r" "runs (AskDaemon k) tr r"
  "runs (AskHandover k) tr r" "runs (QueueUpgrade k) tr r" "runs (WaitABit k) tr r"

section \<open>A connection\<close>

datatype frame_in = Asks request | MalformedAsk | Stray kind

record answer =
  an_id :: nat
  an_result :: result

text \<open>\<open>wantsFollow\<close> and attach: from here on the stream carries data.\<close>

definition takes_over :: "request \<Rightarrow> bool" where
  "takes_over q \<longleftrightarrow> (case rq_op q of OpAttach \<Rightarrow> True | OpLogs (Given r) \<Rightarrow> lr_follow r | _ \<Rightarrow> False)"

datatype conn_end = HungUp | TakenOver request | CannotAnswer

text \<open>
  The loop of \<open>handle\<close>, with the answers it writes or tries to: one that cannot be written ends the connection
  when it answers a request, and is let go when it is about a frame that is none.
\<close>

inductive handles :: "frame_in list \<Rightarrow> answer list \<Rightarrow> conn_end \<Rightarrow> bool" where
  hung_up: "handles [] [] HungUp"
| stray: "handles fs as e \<Longrightarrow> handles (Stray k # fs) (\<lparr>an_id = 0, an_result = Inl (StrayFrame k)\<rparr> # as) e"
| malformed: "handles fs as e \<Longrightarrow> handles (MalformedAsk # fs) (\<lparr>an_id = 0, an_result = Inl MalformedFrame\<rparr> # as) e"
| taken_over: "takes_over q \<Longrightarrow> handles (Asks q # fs) [] (TakenOver q)"
| answered: "\<not> takes_over q \<Longrightarrow> runs (dispatch q) tr r \<Longrightarrow> handles fs as e \<Longrightarrow>
    handles (Asks q # fs) (\<lparr>an_id = rq_id q, an_result = r\<rparr> # as) e"
| cannot_answer: "\<not> takes_over q \<Longrightarrow> runs (dispatch q) tr r \<Longrightarrow>
    handles (Asks q # fs) [\<lparr>an_id = rq_id q, an_result = r\<rparr>] CannotAnswer"

section \<open>What a run shows\<close>

text \<open>The operations that were done with how each ended, the status that was told last, and the times it has slept.\<close>

definition ops_of :: "seen list \<Rightarrow> (op_pc \<times> fab_error option) list" where
  "ops_of tr = List.map_filter (\<lambda>x. case x of Did pc e \<Rightarrow> Some (pc, e) | _ \<Rightarrow> None) tr"

definition latest :: "seen \<Rightarrow> (bytes \<times> (fab_error + status)) option \<Rightarrow> (bytes \<times> (fab_error + status)) option" where
  "latest x old = (case x of SawStatus n a \<Rightarrow> Some (n, a) | _ \<Rightarrow> old)"

definition last_status :: "seen list \<Rightarrow> (bytes \<times> (fab_error + status)) option" where
  "last_status tr = fold latest tr None"

definition naps :: "seen list \<Rightarrow> nat" where
  "naps tr = length (filter (\<lambda>x. x = Waited True) tr)"

lemma ops_of_append [simp]: "ops_of (a @ b) = ops_of a @ ops_of b"
  by (simp add: ops_of_def map_filter_def)

lemma ops_of_simps [simp]:
  "ops_of [] = []" "ops_of (Did pc e # tr) = (pc, e) # ops_of tr" "ops_of (SawStatus n a # tr) = ops_of tr"
  "ops_of (SawDefinition n d # tr) = ops_of tr" "ops_of (SawProcess n p # tr) = ops_of tr"
  "ops_of (SawList l # tr) = ops_of tr" "ops_of (SawLogFiles n fs # tr) = ops_of tr" "ops_of (SawSize q sz # tr) = ops_of tr"
  "ops_of (SawViewers n ro vs # tr) = ops_of tr" "ops_of (SawLogs n since m t # tr) = ops_of tr"
  "ops_of (SawDaemon v c # tr) = ops_of tr" "ops_of (SawHandover cs ps # tr) = ops_of tr" "ops_of (Queued room # tr) = ops_of tr"
  "ops_of (Waited before # tr) = ops_of tr"
  by (simp_all add: ops_of_def map_filter_simps)

lemma naps_append [simp]: "naps (a @ b) = naps a + naps b"
  by (simp add: naps_def)

lemma naps_simps [simp]:
  "naps [] = 0" "naps (Did pc e # tr) = naps tr" "naps (SawStatus n a # tr) = naps tr"
  "naps (SawDefinition n d # tr) = naps tr" "naps (SawProcess n p # tr) = naps tr"
  "naps (SawList l # tr) = naps tr" "naps (SawLogFiles n fs # tr) = naps tr" "naps (SawSize q sz # tr) = naps tr"
  "naps (SawViewers n ro vs # tr) = naps tr" "naps (SawLogs n since m t # tr) = naps tr"
  "naps (SawDaemon v c # tr) = naps tr" "naps (SawHandover cs ps # tr) = naps tr" "naps (Queued room # tr) = naps tr"
  "naps (Waited before # tr) = (if before then Suc (naps tr) else naps tr)"
  by (simp_all add: naps_def)

lemma latest_simps [simp]:
  "latest (SawStatus n a) old = Some (n, a)" "latest (Did pc e) old = old" "latest (SawDefinition n d) old = old" "latest (SawProcess n p) old = old"
  "latest (SawList l) old = old" "latest (SawLogFiles n fs) old = old" "latest (SawSize q sz) old = old" "latest (SawViewers n ro vs) old = old"
  "latest (SawLogs n since m t) old = old" "latest (SawDaemon v c) old = old" "latest (SawHandover cs ps) old = old" "latest (Queued room) old = old"
  "latest (Waited before) old = old"
  by (simp_all add: latest_def)

text \<open>\<open>post P pre p\<close>: after \<open>pre\<close>, every run of \<open>p\<close> ends so that \<open>P\<close> holds of the whole of it and the answer.\<close>

definition post :: "(seen list \<Rightarrow> result \<Rightarrow> bool) \<Rightarrow> seen list \<Rightarrow> prog \<Rightarrow> bool" where
  "post P pre p \<longleftrightarrow> (\<forall>tr r. runs p tr r \<longrightarrow> P (pre @ tr) r)"

lemma postD: "post P [] p \<Longrightarrow> runs p tr r \<Longrightarrow> P tr r"
  by (simp add: post_def)

lemma snoc_all: "(\<forall>tr. Q tr \<longrightarrow> P (pre @ x # tr)) \<longleftrightarrow> (\<forall>tr. Q tr \<longrightarrow> P ((pre @ [x]) @ tr))"
  by simp

lemma post_simps [simp]:
  "post P pre (Answer r) \<longleftrightarrow> P pre r"
  "post P pre (Do pc k) \<longleftrightarrow> (\<forall>e. post P (pre @ [Did pc e]) (k e))"
  "post P pre (AskStatus n ks) \<longleftrightarrow> (\<forall>a. post P (pre @ [SawStatus n a]) (ks a))"
  "post P pre (AskDefinition n kd) \<longleftrightarrow> (\<forall>a. post P (pre @ [SawDefinition n a]) (kd a))"
  "post P pre (AskProcess n kp) \<longleftrightarrow> (\<forall>a. post P (pre @ [SawProcess n a]) (kp a))"
  "post P pre (AskList kl) \<longleftrightarrow> (\<forall>a. post P (pre @ [SawList a]) (kl a))"
  "post P pre (AskLogFiles n kf) \<longleftrightarrow> (\<forall>a. post P (pre @ [SawLogFiles n a]) (kf a))"
  "post P pre (AskSize n kz) \<longleftrightarrow> (\<forall>a. post P (pre @ [SawSize n a]) (kz a))"
  "post P pre (AskViewers n ro kv) \<longleftrightarrow> (\<forall>a. post P (pre @ [SawViewers n ro a]) (kv a))"
  "post P pre (AskLogs n since m kt) \<longleftrightarrow> (\<forall>a. post P (pre @ [SawLogs n since m a]) (kt a))"
  "post P pre (AskDaemon kc) \<longleftrightarrow> (\<forall>a c. post P (pre @ [SawDaemon a c]) (kc a c))"
  "post P pre (AskHandover kh) \<longleftrightarrow> (\<forall>c ps. post P (pre @ [SawHandover c ps]) (kh c ps))"
  "post P pre (QueueUpgrade kb) \<longleftrightarrow> (\<forall>a. post P (pre @ [Queued a]) (kb a))"
  "post P pre (WaitABit kb) \<longleftrightarrow> (\<forall>a. post P (pre @ [Waited a]) (kb a))"
  by (auto simp: post_def)

lemma post_refuse [simp]: "post P pre (refuse e) \<longleftrightarrow> P pre (Inl e)"
  by (simp add: refuse_def)

text \<open>What is asked to make up a reply: it does nothing, and asks no status.\<close>

definition quiet :: "seen list \<Rightarrow> bool" where
  "quiet tr \<longleftrightarrow> list_all (\<lambda>x. case x of SawDefinition n d \<Rightarrow> True | SawLogFiles n fs \<Rightarrow> True | SawSize f sz \<Rightarrow> True | SawViewers n ro v \<Rightarrow> True | _ \<Rightarrow> False) tr"

lemma quiet_simps [simp]:
  "quiet []" "quiet (SawDefinition n d # tr) = quiet tr" "quiet (SawLogFiles n fs # tr) = quiet tr" "quiet (SawSize f sz # tr) = quiet tr"
  "quiet (SawViewers n ro v # tr) = quiet tr" "quiet (a @ b) \<longleftrightarrow> quiet a \<and> quiet b"
  by (simp_all add: quiet_def)

lemma quiet_nothing: "quiet tr \<Longrightarrow> ops_of tr = [] \<and> naps tr = 0 \<and> fold latest tr acc = acc"
  by (induction tr) (auto simp: quiet_def split: seen.split_asm)

text \<open>The reply that shows a status: made from it, and from what was told of the service of that name.\<close>

definition bytes_of :: "int option list \<Rightarrow> int" where
  "bytes_of szs = sum_list (map (\<lambda>sz. case sz of None \<Rightarrow> 0 | Some b \<Rightarrow> b) szs)"

definition reply_shows :: "seen list \<Rightarrow> status \<Rightarrow> status_reply \<Rightarrow> bool" where
  "reply_shows tr st rep \<longleftrightarrow>
     (\<exists>v w d files szs. {SawViewers (st_service st) False v, SawViewers (st_service st) True w, SawDefinition (st_service st) d,
          SawLogFiles (st_service st) files} \<subseteq> set tr
        \<and> list_all2 (\<lambda>f sz. SawSize f sz \<in> set tr) files szs
        \<and> rep = (with_definition d (base_reply st v w))\<lparr>sp_log_path := (if files = [] then [] else hd files), sp_log_bytes := bytes_of szs\<rparr>)"

lemma reply_shows_more: "reply_shows tr st rep \<Longrightarrow> set tr \<subseteq> set tr1 \<Longrightarrow> reply_shows tr1 st rep"
proof -
  assume a: "reply_shows tr st rep" "set tr \<subseteq> set tr1"
  then obtain v w d files szs where x: "{SawViewers (st_service st) False v, SawViewers (st_service st) True w, SawDefinition (st_service st) d,
        SawLogFiles (st_service st) files} \<subseteq> set tr" "list_all2 (\<lambda>f sz. SawSize f sz \<in> set tr) files szs"
      "rep = (with_definition d (base_reply st v w))\<lparr>sp_log_path := (if files = [] then [] else hd files), sp_log_bytes := bytes_of szs\<rparr>"
    unfolding reply_shows_def by blast
  have "list_all2 (\<lambda>f sz. SawSize f sz \<in> set tr1) files szs" using x(2) a(2) by (auto elim!: list_all2_mono)
  then show ?thesis unfolding reply_shows_def using x(1,3) a(2) by blast
qed

lemma sizes_post:
  assumes "\<And>ext szs. quiet ext \<Longrightarrow> list_all2 (\<lambda>f sz. SawSize f sz \<in> set ext) ps szs \<Longrightarrow> post P (pre @ ext) (k (n + bytes_of szs))"
  shows "post P pre (sum_sizes ps n k)"
  using assms
proof (induction ps arbitrary: pre n)
  case Nil
  then show ?case using Nil[of "[]" "[]"] by (simp add: bytes_of_def)
next
  case (Cons p ps)
  have "post P (pre @ [SawSize p sz]) (sum_sizes ps (case sz of None \<Rightarrow> n | Some b \<Rightarrow> n + b) k)" for sz
  proof (rule Cons.IH)
    fix ext szs assume e: "quiet ext" "list_all2 (\<lambda>f sz. SawSize f sz \<in> set ext) ps szs"
    have "list_all2 (\<lambda>f z. SawSize f z \<in> set (SawSize p sz # ext)) (p # ps) (sz # szs)" using e(2) by (auto elim: list_all2_mono)
    from Cons.prems[OF _ this] show "post P ((pre @ [SawSize p sz]) @ ext) (k ((case sz of None \<Rightarrow> n | Some b \<Rightarrow> n + b) + bytes_of szs))"
      using e(1) by (cases sz) (simp_all add: bytes_of_def add.assoc)
  qed
  then show ?case by simp
qed

lemma status_reply_post:
  assumes "\<And>ext rep. quiet ext \<Longrightarrow> reply_shows ext st rep \<Longrightarrow> post P (pre @ ext) (k rep)"
  shows "post P pre (status_reply_of st k)"
proof -
  let ?n = "st_service st"
  have "post P (pre @ [SawViewers ?n False v, SawViewers ?n True w, SawDefinition ?n d, SawLogFiles ?n files])
      (if files = [] then k (with_definition d (base_reply st v w))
       else sum_sizes files 0 (\<lambda>n. k ((with_definition d (base_reply st v w))\<lparr>sp_log_path := hd files, sp_log_bytes := n\<rparr>)))" (is "post P (pre @ ?ext) _")
    for v w d files
  proof (cases "files = []")
    case True
    have "reply_shows ?ext st (with_definition d (base_reply st v w))"
      unfolding reply_shows_def
      by (intro exI[of _ v] exI[of _ w] exI[of _ d] exI[of _ "[]"])
        (simp add: True bytes_of_def with_definition_def base_reply_def split: sum.split)
    then show ?thesis using assms[of ?ext] True by simp
  next
    case False
    have "post P (pre @ ?ext) (sum_sizes files 0 (\<lambda>n. k ((with_definition d (base_reply st v w))\<lparr>sp_log_path := hd files, sp_log_bytes := n\<rparr>)))"
    proof (rule sizes_post)
      fix ext szs assume e: "quiet ext" "list_all2 (\<lambda>f sz. SawSize f sz \<in> set ext) files szs"
      have "reply_shows (?ext @ ext) st ((with_definition d (base_reply st v w))\<lparr>sp_log_path := hd files, sp_log_bytes := 0 + bytes_of szs\<rparr>)"
        unfolding reply_shows_def
        by (intro exI[of _ v] exI[of _ w] exI[of _ d] exI[of _ files] exI[of _ szs]) (use e(2) False in \<open>auto elim: list_all2_mono\<close>)
      then show "post P ((pre @ ?ext) @ ext) (k ((with_definition d (base_reply st v w))\<lparr>sp_log_path := hd files, sp_log_bytes := 0 + bytes_of szs\<rparr>))"
        using assms[of "?ext @ ext"] e(1) by simp
    qed
    then show ?thesis using False by simp
  qed
  then show ?thesis by (simp add: status_reply_of_def Let_def)
qed

lemma reply_each_post:
  assumes "\<And>ext reps. quiet ext \<Longrightarrow> list_all2 (reply_shows ext) sts reps \<Longrightarrow> post P (pre @ ext) (k (acc @ reps))"
  shows "post P pre (reply_each sts acc k)"
  using assms
proof (induction sts arbitrary: pre acc)
  case Nil
  then show ?case using Nil[of "[]" "[]"] by simp
next
  case (Cons st sts)
  show ?case unfolding reply_each.simps
  proof (rule status_reply_post)
    fix ext rep assume e: "quiet ext" "reply_shows ext st rep"
    show "post P (pre @ ext) (reply_each sts (acc @ [rep]) k)"
    proof (rule Cons.IH)
      fix ext1 reps assume e1: "quiet ext1" "list_all2 (reply_shows ext1) sts reps"
      have "list_all2 (reply_shows (ext @ ext1)) (st # sts) (rep # reps)"
        using e(2) e1(2) by (auto intro: reply_shows_more elim!: list_all2_mono)
      then show "post P ((pre @ ext) @ ext1) (k ((acc @ [rep]) @ reps))"
        using Cons.prems[of "ext @ ext1" "rep # reps"] e(1) e1(1) by simp
    qed
  qed
qed

text \<open>A status that is waited for: the one that was told last, after at most so many sleeps.\<close>

lemma poll_post:
  assumes "last_status pre = Some (n, st)"
    and "\<And>ext st. ops_of ext = [] \<Longrightarrow> naps ext \<le> j \<Longrightarrow> last_status (pre @ ext) = Some (n, st) \<Longrightarrow> post P (pre @ ext) (k st)"
  shows "post P pre (poll j st n k)"
  using assms
proof (induction j arbitrary: pre st)
  case 0
  then show ?case using 0(2)[of "[]"] by simp
next
  case (Suc j)
  have "post P (pre @ [Waited False]) (k st)" using Suc.prems(2)[of "[Waited False]" st] Suc.prems(1) by (simp add: last_status_def)
  moreover have k: "post P (pre @ [Waited True, SawStatus n now]) (k now)" for now
    using Suc.prems(2)[of "[Waited True, SawStatus n now]" now] by (simp add: last_status_def)
  moreover have "post P (pre @ [Waited True, SawStatus n now]) (poll j now n k)" for now
  proof (rule Suc.IH)
    show "last_status (pre @ [Waited True, SawStatus n now]) = Some (n, now)" by (simp add: last_status_def)
    fix ext st assume "ops_of ext = []" "naps ext \<le> j" "last_status ((pre @ [Waited True, SawStatus n now]) @ ext) = Some (n, st)"
    then show "post P ((pre @ [Waited True, SawStatus n now]) @ ext) (k st)"
      using Suc.prems(2)[of "[Waited True, SawStatus n now] @ ext" st] by simp
  qed
  ultimately show ?case by (simp add: all_bool_eq split: sum.split)
qed

lemma settled_post:
  assumes "\<And>ext st. ops_of ext = [] \<Longrightarrow> naps ext \<le> settle_rounds \<Longrightarrow> last_status (pre @ ext) = Some (n, st) \<Longrightarrow> post P (pre @ ext) (k st)"
  shows "post P pre (settled_status n k)"
proof -
  have k: "post P (pre @ [SawStatus n st]) (k st)" "post P (pre @ [SawStatus n st, SawDefinition n d]) (k st)" for st d
    using assms[of "[SawStatus n st]" st] assms[of "[SawStatus n st, SawDefinition n d]" st] by (simp_all add: last_status_def)
  moreover have "post P (pre @ [SawStatus n st, SawDefinition n d]) (poll settle_rounds st n k)" for st d
  proof (rule poll_post)
    show "last_status (pre @ [SawStatus n st, SawDefinition n d]) = Some (n, st)" by (simp add: last_status_def)
    fix ext st1 assume "ops_of ext = []" "naps ext \<le> settle_rounds" "last_status ((pre @ [SawStatus n st, SawDefinition n d]) @ ext) = Some (n, st1)"
    then show "post P ((pre @ [SawStatus n st, SawDefinition n d]) @ ext) (k st1)"
      using assms[of "[SawStatus n st, SawDefinition n d] @ ext" st1] by simp
  qed
  ultimately show ?thesis by (simp add: settled_status_def split: sum.split)
qed

section \<open>What a request asks for\<close>

text \<open>The operation of the fabric a request asks for, unless it is a move.\<close>

definition asked :: "request \<Rightarrow> op_pc \<Rightarrow> bool" where
  "asked q pc \<longleftrightarrow>
     (let n = rq_service q;
          defines = (\<lambda>b begin. \<exists>a policy. (b = Given a \<or> b = Absent \<and> a = empty_add)
             \<and> parse_restart_policy (ar_restart a) = Inr policy \<and> pc = begin a (service_of n a policy))
      in case rq_op q of
        OpAdd b \<Rightarrow> defines b (\<lambda>a svc. Adding (AddLock svc (ar_start a)))
      | OpEnsure b \<Rightarrow> defines b (\<lambda>a svc. Ensuring (EnsureLock svc))
      | OpStart \<Rightarrow> pc = Starting (StartLock n)
      | OpStop \<Rightarrow> pc = Stopping (StopLock n)
      | OpRestart \<Rightarrow> pc = Restarting (RestartLock n)
      | OpRemove b \<Rightarrow> (\<exists>keep. (b = Given keep \<or> b = Absent \<and> \<not> keep) \<and> pc = Removing (RemoveLock n keep))
      | OpRename b \<Rightarrow> (\<exists>to. b = Given to \<and> pc = Renaming (RenameLock n to))
      | OpSet b \<Rightarrow> (\<exists>r policy. b = Given r \<and> (\<forall>p. se_restart r = Some p \<longrightarrow> parse_restart_policy p = Inr policy)
          \<and> pc = Updating (UpdateLock n (set_change r policy)))
      | _ \<Rightarrow> False)"

text \<open>A request that is to change something, moves apart.\<close>

definition changes :: "request \<Rightarrow> bool" where
  "changes q \<longleftrightarrow> (case rq_op q of OpAdd b \<Rightarrow> True | OpEnsure b \<Rightarrow> True | OpStart \<Rightarrow> True | OpStop \<Rightarrow> True | OpRestart \<Rightarrow> True
     | OpRemove b \<Rightarrow> True | OpRename b \<Rightarrow> True | OpSet b \<Rightarrow> True | _ \<Rightarrow> False)"

text \<open>The tabs as the fabric listed them.\<close>

definition listed :: "seen list \<Rightarrow> status_reply list \<Rightarrow> bool" where
  "listed tr reps \<longleftrightarrow> (\<exists>sts. SawList sts \<in> set tr \<and> list_all2 (reply_shows tr) sts reps)"

lemma listedI: "SawList sts \<in> set tr1 \<Longrightarrow> list_all2 (reply_shows tr) sts reps \<Longrightarrow> set tr \<subseteq> set tr1 \<Longrightarrow> listed tr1 reps"
  unfolding listed_def by (intro exI[of _ sts] conjI) (auto elim!: list_all2_mono intro: reply_shows_more)

lemma listed_more: "listed tr reps \<Longrightarrow> set tr \<subseteq> set tr1 \<Longrightarrow> listed tr1 reps"
  unfolding listed_def[of tr] by (blast intro: listedI)

definition renumber_op :: "bytes \<times> int \<Rightarrow> op_pc" where
  "renumber_op u = Updating (UpdateLock (fst u) (\<lambda>d. d\<lparr>sv_order := snd u\<rparr>))"

text \<open>
  A move does the renumber_op that puts the tab where the request wants it, one after the other as far as it gets, and all
  of it when it says so. Any other request has one operation at most, the one it asks for.
\<close>

definition acted :: "request \<Rightarrow> seen list \<Rightarrow> result \<Rightarrow> bool" where
  "acted q tr r \<longleftrightarrow>
     (case rq_op q of
        OpMove b \<Rightarrow> isl r \<and> ops_of tr = []
          \<or> (\<exists>to reps us. b = Given to \<and> listed tr reps \<and> server_move (rq_service q) to (map tab_of reps) = Inr us
               \<and> prefix (map fst (ops_of tr)) (map renumber_op us) \<and> (r = Inr Done \<longrightarrow> map fst (ops_of tr) = map renumber_op us))
      | _ \<Rightarrow> ops_of tr = [] \<or> (\<exists>pc e. ops_of tr = [(pc, e)] \<and> asked q pc))"

section \<open>What an answer says\<close>

definition garbled :: "request \<Rightarrow> bool" where
  "garbled q \<longleftrightarrow>
     (case rq_op q of OpAdd b \<Rightarrow> b = Garbled | OpEnsure b \<Rightarrow> b = Garbled | OpRemove b \<Rightarrow> b = Garbled | OpLogs b \<Rightarrow> b = Garbled
      | OpRename b \<Rightarrow> b = Garbled \<or> b = Absent | OpMove b \<Rightarrow> b = Garbled \<or> b = Absent | OpSet b \<Rightarrow> b = Garbled \<or> b = Absent | _ \<Rightarrow> False)"

definition policy_text :: "request \<Rightarrow> bytes option" where
  "policy_text q =
     (let add = (\<lambda>b. case b of Given a \<Rightarrow> Some (ar_restart a) | Absent \<Rightarrow> Some [] | Garbled \<Rightarrow> None)
      in case rq_op q of OpAdd b \<Rightarrow> add b | OpEnsure b \<Rightarrow> add b | OpSet (Given r) \<Rightarrow> se_restart r | _ \<Rightarrow> None)"

definition log_query :: "request \<Rightarrow> (int \<times> int) option" where
  "log_query q =
     (case rq_op q of
        OpLogs (Given r) \<Rightarrow> Some (lr_since r, logs_limit (lr_max r)) | OpLogs Absent \<Rightarrow> Some (0, logs_limit 0) | _ \<Rightarrow> None)"

definition all_fine :: "(op_pc \<times> fab_error option) list \<Rightarrow> bool" where
  "all_fine ops \<longleftrightarrow> list_all (\<lambda>(pc, e). e = None) ops"

text \<open>
  A refusal: the payload or the policy is wrong and nothing was done; or the last thing done failed with that very error,
  or everything went well and the service was not there when its status was asked; or what was asked was refused.
\<close>

definition justified :: "request \<Rightarrow> seen list \<Rightarrow> server_error \<Rightarrow> bool" where
  "justified q tr err \<longleftrightarrow>
     (let n = rq_service q; ops = ops_of tr
      in case err of
        MalformedPayload \<Rightarrow> garbled q \<and> ops = []
      | BadPolicy e \<Rightarrow> (\<exists>p. policy_text q = Some p \<and> parse_restart_policy p = Inl e) \<and> ops = []
      | Fab e \<Rightarrow> (\<exists>pc. ops = [(pc, Some e)]) \<or> all_fine ops \<and> last_status tr = Some (n, Inl e)
      | MovingFailed m e \<Rightarrow> m = n \<and> (\<exists>done_ops pc. ops = done_ops @ [(pc, Some e)] \<and> all_fine done_ops)
      | Reg e \<Rightarrow> (\<exists>to reps. rq_op q = OpMove (Given to) \<and> listed tr reps \<and> server_move n to (map tab_of reps) = Inl e) \<and> ops = []
      | NoLogs e \<Rightarrow> (\<exists>since limit. log_query q = Some (since, limit) \<and> SawLogs n since limit (Inl e) \<in> set tr)
      | UpgradeQueued \<Rightarrow> rq_op q = OpUpgrade \<and> Queued False \<in> set tr
      | AttachDispatched \<Rightarrow> rq_op q = OpAttach
      | ResizeDetached \<Rightarrow> rq_op q = OpResize
      | UnknownOperation w \<Rightarrow> rq_op q = OpUnknown w
      | StrayFrame k \<Rightarrow> False
      | MalformedFrame \<Rightarrow> False)"

definition tells_status :: "request \<Rightarrow> bool" where
  "tells_status q \<longleftrightarrow> (case rq_op q of OpStatus \<Rightarrow> True | OpAdd b \<Rightarrow> True | OpEnsure b \<Rightarrow> True | OpStart \<Rightarrow> True | OpStop \<Rightarrow> True | OpRestart \<Rightarrow> True | _ \<Rightarrow> False)"

definition status_told :: "request \<Rightarrow> seen list \<Rightarrow> status_reply \<Rightarrow> bool" where
  "status_told q tr rep \<longleftrightarrow> (\<exists>st. last_status tr = Some (rq_service q, Inr st) \<and> reply_shows tr st rep)"

text \<open>Whether the process that runs was started with another definition than the one there is now.\<close>

definition staleness :: "bytes \<Rightarrow> seen list \<Rightarrow> bool \<Rightarrow> bool" where
  "staleness n tr stale \<longleftrightarrow>
     (\<exists>p. SawProcess n p \<in> set tr
        \<and> (case p of
             Inr (Some started) \<Rightarrow> (\<exists>d. SawDefinition n d \<in> set tr
                \<and> (stale \<longleftrightarrow> (case d of Inl e \<Rightarrow> False | Inr def \<Rightarrow> \<not> same_definition def started)))
           | _ \<Rightarrow> \<not> stale))"

text \<open>A success: everything done went well, and what the answer tells is what was told.\<close>

definition backed :: "request \<Rightarrow> seen list \<Rightarrow> reply \<Rightarrow> bool" where
  "backed q tr rep \<longleftrightarrow>
     (let n = rq_service q
      in (changes q \<longrightarrow> ops_of tr \<noteq> [])
       \<and> (case rep of RenamedBut e \<Rightarrow> (\<exists>pc. ops_of tr = [(pc, Some e)]) | _ \<Rightarrow> all_fine (ops_of tr))
       \<and> (case rep of
            Done \<Rightarrow> (\<exists>b. rq_op q = OpRename b) \<or> (\<exists>b. rq_op q = OpMove b)
          | Pong v c \<Rightarrow> rq_op q = OpPing \<and> SawDaemon v c \<in> set tr
          | StatusOf s \<Rightarrow> tells_status q \<and> status_told q tr s
          | Listing reps \<Rightarrow> rq_op q = OpList \<and> listed tr reps
          | Removed files \<Rightarrow> (\<exists>b. rq_op q = OpRemove b \<and> (if b = Given True then files = [] else SawLogFiles n files \<in> set tr))
          | RenamedBut e \<Rightarrow> (\<exists>b f t w. rq_op q = OpRename b \<and> e = LogStayed f t w)
          | SetTo s stale \<Rightarrow> (\<exists>b. rq_op q = OpSet b) \<and> status_told q tr s \<and> staleness n tr stale
          | LogsOf tail alive \<Rightarrow> (\<exists>since limit st. log_query q = Some (since, limit) \<and> SawLogs n since limit (Inr tail) \<in> set tr
              \<and> last_status tr = Some (n, st) \<and> (alive \<longleftrightarrow> (\<exists>s. st = Inr s \<and> st_state s = StateRunning)))
          | Upgrading carried problems \<Rightarrow> rq_op q = OpUpgrade \<and> SawHandover carried problems \<in> set tr \<and> Queued True \<in> set tr))"

definition honest :: "request \<Rightarrow> seen list \<Rightarrow> result \<Rightarrow> bool" where
  "honest q tr r \<longleftrightarrow> acted q tr r \<and> (case r of Inl err \<Rightarrow> justified q tr err | Inr rep \<Rightarrow> backed q tr rep) \<and> naps tr \<le> settle_rounds"

lemma staleness_known:
  "SawProcess n (Inr (Some started)) \<in> set tr \<Longrightarrow> SawDefinition n (Inl e) \<in> set tr \<Longrightarrow> staleness n tr False"
  "SawProcess n (Inr (Some started)) \<in> set tr \<Longrightarrow> SawDefinition n (Inr def) \<in> set tr \<Longrightarrow> staleness n tr (\<not> same_definition def started)"
  "SawProcess n p \<in> set tr \<Longrightarrow> \<forall>started. p \<noteq> Inr (Some started) \<Longrightarrow> staleness n tr False"
proof -
  assume "SawProcess n (Inr (Some started)) \<in> set tr"
  then show "SawDefinition n (Inl e) \<in> set tr \<Longrightarrow> staleness n tr False"
    "SawDefinition n (Inr def) \<in> set tr \<Longrightarrow> staleness n tr (\<not> same_definition def started)"
    unfolding staleness_def by (intro exI[of _ "Inr (Some started)"]; force)+
next
  assume "SawProcess n p \<in> set tr" "\<forall>started. p \<noteq> Inr (Some started)"
  then show "staleness n tr False" unfolding staleness_def by (intro exI[of _ p]) (auto split: sum.split option.split)
qed

lemma all_fine_simps [simp]: "all_fine []" "all_fine ((pc, e) # ops) \<longleftrightarrow> e = None \<and> all_fine ops" "all_fine (a @ b) \<longleftrightarrow> all_fine a \<and> all_fine b"
  by (simp_all add: all_fine_def)

lemma last_status_simps [simp]: "last_status (tr @ [SawStatus n a]) = Some (n, a)" "last_status (tr @ [SawStatus n a, x]) = latest x (Some (n, a))"
  by (simp_all add: last_status_def)

lemma last_status_quiet: "quiet ext \<Longrightarrow> last_status (tr @ ext) = last_status tr"
  using quiet_nothing by (simp add: last_status_def)

section \<open>Every handler\<close>

text \<open>A handler that does one thing, and then tells the status of the service.\<close>

lemma status_after_post:
  assumes "asked q pc" "tells_status q" "\<forall>b. rq_op q \<noteq> OpMove b"
  shows "post (honest q) [Did pc None] (status_after (rq_service q))"
  unfolding status_after_def
proof (rule settled_post)
  fix ext st
  assume e: "ops_of ext = []" "naps ext \<le> settle_rounds" "last_status ([Did pc None] @ ext) = Some (rq_service q, st)"
  have a: "acted q ([Did pc None] @ ext @ more) r" if "ops_of more = []" for more r
    using assms(1,3) e(1) that by (auto simp: acted_def split: operation.split)
  show "post (honest q) ([Did pc None] @ ext) (case st of Inl e \<Rightarrow> refuse (Fab e) | Inr s \<Rightarrow> status_reply_of s (\<lambda>r. Answer (Inr (StatusOf r))))"
  proof (cases st)
    case (Inl err)
    then show ?thesis using e a[of "[]"] by (simp add: honest_def justified_def)
  next
    case (Inr s)
    have "post (honest q) ([Did pc None] @ ext) (status_reply_of s (\<lambda>r. Answer (Inr (StatusOf r))))"
    proof (rule status_reply_post)
      fix ext1 rep assume r: "quiet ext1" "reply_shows ext1 s rep"
      note z = quiet_nothing[OF r(1)]
      have "last_status (Did pc None # ext @ ext1) = Some (rq_service q, Inr s)"
        using e(3) Inr last_status_quiet[OF r(1), of "Did pc None # ext"] by simp
      moreover have "reply_shows (Did pc None # ext @ ext1) s rep" by (rule reply_shows_more[OF r(2)]) auto
      ultimately have "status_told q (([Did pc None] @ ext) @ ext1) rep" by (simp add: status_told_def)
      then show "post (honest q) (([Did pc None] @ ext) @ ext1) (Answer (Inr (StatusOf rep)))"
        using e z a[of ext1] assms(2) by (simp add: honest_def backed_def)
    qed
    then show ?thesis using Inr by simp
  qed
qed

lemma or_refuse_post:
  assumes "asked q pc" "\<forall>b. rq_op q \<noteq> OpMove b" "ops_of pre = []" "naps pre = 0" "post (honest q) (pre @ [Did pc None]) k"
  shows "post (honest q) pre (or_refuse pc k)"
proof -
  have "honest q (pre @ [Did pc (Some e)]) (Inl (Fab e))" for e
    using assms by (auto simp: honest_def acted_def justified_def split: operation.split)
  then show ?thesis using assms(5) by (simp add: or_refuse_def split: option.split)
qed

lemma refused_post:
  assumes "justified q pre err" "ops_of pre = []" "naps pre = 0"
  shows "post (honest q) pre (refuse err)"
  using assms by (auto simp: honest_def acted_def split: operation.split)

lemma add_post:
  assumes "\<exists>b. rq_op q = OpAdd b \<and> p = add_handler (rq_service q) b \<or> rq_op q = OpEnsure b \<and> p = ensure_handler (rq_service q) b"
  shows "post (honest q) [] p"
proof -
  obtain b where b: "rq_op q = OpAdd b \<and> p = add_handler (rq_service q) b \<or> rq_op q = OpEnsure b \<and> p = ensure_handler (rq_service q) b"
    using assms by blast
  have t: "tells_status q" "\<forall>m. rq_op q \<noteq> OpMove m" using b by (auto simp: tells_status_def)
  show ?thesis
  proof (cases "b = Garbled")
    case True
    then have "p = refuse MalformedPayload" using b by (auto simp: add_handler_def ensure_handler_def or_empty_def)
    moreover have "justified q [] MalformedPayload" using b True by (auto simp: justified_def garbled_def)
    ultimately show ?thesis using refused_post[of q "[]"] by simp
  next
    case False
    define a where "a = (case b of Given x \<Rightarrow> x | _ \<Rightarrow> empty_add)"
    have a: "b = Given a \<or> b = Absent \<and> a = empty_add" using False by (auto simp: a_def split: body.split)
    have words: "policy_text q = Some (ar_restart a)" using a b by (auto simp: policy_text_def empty_add_def)
    show ?thesis
    proof (cases "parse_restart_policy (ar_restart a)")
      case (Inl e)
      then have "p = refuse (BadPolicy e)" using a b by (auto simp: add_handler_def ensure_handler_def or_empty_def)
      moreover have "justified q [] (BadPolicy e)" using words Inl by (simp add: justified_def)
      ultimately show ?thesis using refused_post[of q "[]"] by simp
    next
      case (Inr policy)
      define pc where "pc = (if rq_op q = OpAdd b then Adding (AddLock (service_of (rq_service q) a policy) (ar_start a))
        else Ensuring (EnsureLock (service_of (rq_service q) a policy)))"
      have p: "p = or_refuse pc (status_after (rq_service q))"
        using a b Inr by (auto simp: add_handler_def ensure_handler_def or_empty_def pc_def)
      have "asked q pc" using a b Inr by (auto simp: asked_def pc_def Let_def)
      then show ?thesis unfolding p using t by (intro or_refuse_post) (simp_all add: status_after_post)
    qed
  qed
qed

lemma simple_post:
  assumes "\<exists>pc. asked q pc \<and> p = or_refuse pc (status_after (rq_service q))" "tells_status q" "\<forall>m. rq_op q \<noteq> OpMove m"
  shows "post (honest q) [] p"
  using assms by (auto intro!: or_refuse_post simp: status_after_post)

lemma set_post:
  assumes "rq_op q = OpSet b"
  shows "post (honest q) [] (set_handler (rq_service q) b)"
proof (cases b)
  case (Given r)
  let ?n = "rq_service q"
  have nm: "\<forall>m. rq_op q \<noteq> OpMove m" using assms by simp
  have change: "post (honest q) [] (or_refuse (Updating (UpdateLock ?n (set_change r policy)))
      (AskStatus ?n (\<lambda>st. case st of Inl e \<Rightarrow> refuse (Fab e)
         | Inr s \<Rightarrow> status_reply_of s (\<lambda>rep. if_stale ?n (\<lambda>old. Answer (Inr (SetTo rep old)))))))"
    if pol: "\<forall>p. se_restart r = Some p \<longrightarrow> parse_restart_policy p = Inr policy" for policy
  proof (rule or_refuse_post[OF _ nm])
    let ?pc = "Updating (UpdateLock ?n (set_change r policy))"
    show ask: "asked q ?pc" using assms Given pol by (auto simp: asked_def)
    have a: "acted q (Did ?pc None # more) x" if "ops_of more = []" for more x
      using ask that nm by (auto simp: acted_def split: operation.split)
    have "post (honest q) [Did ?pc None, SawStatus ?n st] (case st of Inl e \<Rightarrow> refuse (Fab e)
         | Inr s \<Rightarrow> status_reply_of s (\<lambda>rep. if_stale ?n (\<lambda>old. Answer (Inr (SetTo rep old)))))" for st
    proof (cases st)
      case (Inl e)
      then show ?thesis using a[of "[SawStatus ?n st]"] by (simp add: honest_def justified_def last_status_def)
    next
      case (Inr s)
      have "post (honest q) [Did ?pc None, SawStatus ?n st] (status_reply_of s (\<lambda>rep. if_stale ?n (\<lambda>old. Answer (Inr (SetTo rep old)))))"
      proof (rule status_reply_post)
        fix ext rep assume e: "quiet ext" "reply_shows ext s rep"
        note z = quiet_nothing[OF e(1)]
        let ?pre = "[Did ?pc None, SawStatus ?n st] @ ext"
        have told: "status_told q (?pre @ more) rep" if "\<forall>acc. fold latest more acc = acc" for more
          unfolding status_told_def using z Inr that by (auto simp: last_status_def intro: reply_shows_more[OF e(2)])
        have done_with: "honest q (?pre @ more) (Inr (SetTo rep old))"
          if "ops_of more = []" "naps more = 0" "\<forall>acc. fold latest more acc = acc" "staleness ?n (?pre @ more) old" for more old
          using a[of "SawStatus ?n st # ext @ more"] z that(1,2,4) told[OF that(3)] assms by (simp add: honest_def backed_def)
        have "post (honest q) (?pre @ [SawProcess ?n p]) (case p of
             Inr (Some started) \<Rightarrow> AskDefinition ?n (\<lambda>d. case d of Inl e \<Rightarrow> Answer (Inr (SetTo rep False))
               | Inr def \<Rightarrow> Answer (Inr (SetTo rep (\<not> same_definition def started))))
           | _ \<Rightarrow> Answer (Inr (SetTo rep False)))" for p
        proof (cases "\<exists>started. p = Inr (Some started)")
          case True
          then obtain started where p: "p = Inr (Some started)" by blast
          have "honest q (?pre @ [SawProcess ?n p, SawDefinition ?n (Inl e)]) (Inr (SetTo rep False))" for e
            by (rule done_with) (auto simp: p intro: staleness_known(1))
          moreover have "honest q (?pre @ [SawProcess ?n p, SawDefinition ?n (Inr def)]) (Inr (SetTo rep (\<not> same_definition def started)))" for def
            by (rule done_with) (auto simp: p intro: staleness_known(2))
          ultimately show ?thesis using p by (auto split: sum.split)
        next
          case False
          have "honest q (?pre @ [SawProcess ?n p]) (Inr (SetTo rep False))"
            by (rule done_with) (use False in \<open>auto intro: staleness_known(3)\<close>)
          then show ?thesis using False by (auto split: sum.split option.split)
        qed
        then show "post (honest q) ?pre (if_stale ?n (\<lambda>old. Answer (Inr (SetTo rep old))))"
          by (simp add: if_stale_def)
      qed
      then show ?thesis using Inr by simp
    qed
    then show "post (honest q) ([] @ [Did ?pc None]) (AskStatus ?n (\<lambda>st. case st of Inl e \<Rightarrow> refuse (Fab e)
         | Inr s \<Rightarrow> status_reply_of s (\<lambda>rep. if_stale ?n (\<lambda>old. Answer (Inr (SetTo rep old))))))" by simp
  qed simp_all
  show ?thesis
  proof (cases "\<exists>p e. se_restart r = Some p \<and> parse_restart_policy p = Inl e")
    case True
    then obtain p e where pe: "se_restart r = Some p" "parse_restart_policy p = Inl e" by blast
    have "justified q [] (BadPolicy e)" using assms Given pe by (simp add: justified_def policy_text_def)
    then show ?thesis using Given pe by (simp add: set_handler_def required_def Let_def refused_post[of q "[]", simplified])
  next
    case False
    then show ?thesis using Given change by (auto simp: set_handler_def required_def Let_def split: option.split sum.split)
  qed
qed (use assms in \<open>auto simp: set_handler_def required_def justified_def garbled_def simp del: post_refuse intro!: refused_post\<close>)

lemma move_post:
  assumes "rq_op q = OpMove b"
  shows "post (honest q) [] (move_handler (rq_service q) b)"
proof (cases b)
  case (Given to)
  let ?n = "rq_service q"
  have renumbered: "post (honest q) pre (renumber ?n us)"
    if "listed pre reps" "server_move ?n to (map tab_of reps) = Inr all" "all_fine (ops_of pre)" "naps pre = 0"
      "map renumber_op all = map fst (ops_of pre) @ map renumber_op us" for pre reps all us
    using that
  proof (induction us arbitrary: pre)
    case Nil
    then have "acted q pre (Inr Done)" unfolding acted_def using assms Given by auto
    then show ?case using Nil assms by (simp add: honest_def backed_def changes_def)
  next
    case (Cons u us)
    obtain m pos where u: "u = (m, pos)" by (cases u)
    let ?pc = "renumber_op u"
    have more: "listed (pre @ [Did ?pc e]) reps" for e
      by (rule listed_more[OF Cons.prems(1)]) auto
    have failed: "honest q (pre @ [Did ?pc (Some err)]) (Inl (MovingFailed ?n err))" for err
    proof -
      have "prefix (map fst (ops_of (pre @ [Did ?pc (Some err)]))) (map renumber_op all)"
        using Cons.prems(5) by (simp add: prefix_def)
      then have "acted q (pre @ [Did ?pc (Some err)]) (Inl (MovingFailed ?n err))"
        unfolding acted_def using assms Given more Cons.prems(2) by auto
      then show ?thesis using Cons.prems by (simp add: honest_def justified_def)
    qed
    have "post (honest q) (pre @ [Did ?pc None]) (renumber ?n us)"
      by (rule Cons.IH[OF more]) (use Cons.prems in simp_all)
    then show ?case using failed u by (simp add: renumber_op_def split: option.split)
  qed
  have "post (honest q) [] (list_replies (\<lambda>rs. case server_move ?n to (map tab_of rs) of Inl e \<Rightarrow> refuse (Reg e) | Inr us \<Rightarrow> renumber ?n us))"
  proof -
    have "post (honest q) ([] @ [SawList sts]) (reply_each sts []
        (\<lambda>rs. case server_move ?n to (map tab_of rs) of Inl e \<Rightarrow> refuse (Reg e) | Inr us \<Rightarrow> renumber ?n us))" for sts
    proof (rule reply_each_post)
      fix ext reps assume e: "quiet ext" "list_all2 (reply_shows ext) sts reps"
      have l: "listed ([SawList sts] @ ext) reps" by (rule listedI[OF _ e(2)]) auto
      note z = quiet_nothing[OF e(1)]
      show "post (honest q) (([] @ [SawList sts]) @ ext)
          (case server_move ?n to (map tab_of ([] @ reps)) of Inl e \<Rightarrow> refuse (Reg e) | Inr us \<Rightarrow> renumber ?n us)"
      proof (cases "server_move ?n to (map tab_of reps)")
        case (Inl err)
        then have "justified q ([SawList sts] @ ext) (Reg err)" using l assms Given z by (auto simp: justified_def)
        then show ?thesis using Inl refused_post[of q "[SawList sts] @ ext"] z by simp
      next
        case (Inr us)
        then show ?thesis using renumbered[OF l Inr] z by simp
      qed
    qed
    then show ?thesis by (simp add: list_replies_def)
  qed
  then show ?thesis by (simp add: Given move_handler_def required_def)
qed (use assms in \<open>auto simp: move_handler_def required_def justified_def garbled_def simp del: post_refuse intro!: refused_post\<close>)

lemma rename_post:
  assumes "rq_op q = OpRename b"
  shows "post (honest q) [] (rename_handler (rq_service q) b)"
proof (cases b)
  case (Given to)
  let ?pc = "Renaming (RenameLock (rq_service q) to)"
  have a: "acted q [Did ?pc e] r" for e r using assms Given by (simp add: acted_def asked_def)
  have "honest q [Did ?pc None] (Inr Done)" "honest q [Did ?pc (Some (LogStayed f t w))] (Inr (RenamedBut (LogStayed f t w)))"
    "honest q [Did ?pc (Some e)] (Inl (Fab e))" for e f t w
    using a assms by (simp_all add: honest_def justified_def backed_def)
  then show ?thesis by (auto simp: Given rename_handler_def required_def split: option.split fab_error.split)
qed (use assms in \<open>auto simp: rename_handler_def required_def justified_def garbled_def simp del: post_refuse intro!: refused_post\<close>)

lemma remove_post:
  assumes "rq_op q = OpRemove b"
  shows "post (honest q) [] (remove_handler (rq_service q) b)"
proof (cases "b = Garbled")
  case True
  have "justified q [] MalformedPayload" using assms True by (simp add: justified_def garbled_def)
  then show ?thesis using True refused_post[of q "[]"] by (simp add: remove_handler_def or_empty_def)
next
  case False
  define keep where "keep = (b = Given True)"
  have b: "b = Given keep \<or> b = Absent \<and> \<not> keep" using False by (cases b) (auto simp: keep_def)
  let ?pc = "Removing (RemoveLock (rq_service q) keep)"
  have ask: "asked q ?pc" "\<forall>m. rq_op q \<noteq> OpMove m" using assms b by (auto simp: asked_def)
  have gone: "post (honest q) pre (or_refuse ?pc (Answer (Inr (Removed files))))"
    if "ops_of pre = []" "naps pre = 0" "if keep then files = [] else SawLogFiles (rq_service q) files \<in> set pre" for pre files
  proof (rule or_refuse_post[OF ask that(1,2)])
    have "acted q (pre @ [Did ?pc None]) r" for r using ask that(1) by (auto simp: acted_def split: operation.split)
    then show "post (honest q) (pre @ [Did ?pc None]) (Answer (Inr (Removed files)))"
      using that assms by (auto simp: honest_def backed_def keep_def)
  qed
  show ?thesis
  proof (cases keep)
    case True
    then show ?thesis using gone[of "[]" "[]"] b by (auto simp: remove_handler_def or_empty_def)
  next
    case f: False
    then show ?thesis using gone[of "[SawLogFiles (rq_service q) files]" files for files] b by (auto simp: remove_handler_def or_empty_def)
  qed
qed

lemma logs_post:
  assumes "rq_op q = OpLogs b"
  shows "post (honest q) [] (logs_handler (rq_service q) b)"
proof (cases "b = Garbled")
  case True
  have "justified q [] MalformedPayload" using assms True by (simp add: justified_def garbled_def)
  then show ?thesis using True refused_post[of q "[]"] by (simp add: logs_handler_def or_empty_def)
next
  case False
  define l where "l = (case b of Given x \<Rightarrow> x | _ \<Rightarrow> empty_logs)"
  let ?n = "rq_service q"
  let ?saw = "SawLogs ?n (lr_since l) (logs_limit (lr_max l))"
  have query: "log_query q = Some (lr_since l, logs_limit (lr_max l))"
    using assms False by (cases b) (simp_all add: log_query_def l_def empty_logs_def)
  have a: "acted q tr r" if "ops_of tr = []" for tr r using assms that by (simp add: acted_def)
  have "honest q [?saw (Inl e)] (Inl (NoLogs e))" for e using a query by (simp add: honest_def justified_def)
  moreover have "honest q [?saw (Inr tail), SawStatus ?n st] (Inr (LogsOf tail (case st of Inl e \<Rightarrow> False | Inr s \<Rightarrow> st_state s = StateRunning)))" for tail st
    using a query assms by (cases st) (auto simp: honest_def backed_def changes_def last_status_def)
  ultimately have "post (honest q) [] (AskLogs ?n (lr_since l) (logs_limit (lr_max l)) (\<lambda>t. case t of
         Inl e \<Rightarrow> refuse (NoLogs e)
       | Inr tail \<Rightarrow> AskStatus ?n (\<lambda>st. Answer (Inr (LogsOf tail (case st of Inl e \<Rightarrow> False | Inr s \<Rightarrow> st_state s = StateRunning))))))"
    by (simp split: sum.split)
  then show ?thesis using False by (cases b) (simp_all add: logs_handler_def or_empty_def l_def)
qed

lemma asking_post:
  "rq_op q = OpList \<Longrightarrow> post (honest q) [] (list_replies (\<lambda>rs. Answer (Inr (Listing rs))))"
  "rq_op q = OpStatus \<Longrightarrow> post (honest q) [] (AskStatus (rq_service q) (\<lambda>st. case st of
      Inl e \<Rightarrow> refuse (Fab e) | Inr s \<Rightarrow> status_reply_of s (\<lambda>r. Answer (Inr (StatusOf r)))))"
  "rq_op q = OpPing \<Longrightarrow> post (honest q) [] (AskDaemon (\<lambda>version kill. Answer (Inr (Pong version kill))))"
  "rq_op q = OpUpgrade \<Longrightarrow> post (honest q) [] upgrade_handler"
proof -
  assume op: "rq_op q = OpList"
  have "post (honest q) ([] @ [SawList sts]) (reply_each sts [] (\<lambda>rs. Answer (Inr (Listing rs))))" for sts
  proof (rule reply_each_post)
    fix ext reps assume e: "quiet ext" "list_all2 (reply_shows ext) sts reps"
    have "listed ([SawList sts] @ ext) reps" by (rule listedI[OF _ e(2)]) auto
    then show "post (honest q) (([] @ [SawList sts]) @ ext) (Answer (Inr (Listing ([] @ reps))))"
      using quiet_nothing[OF e(1)] op by (simp add: honest_def backed_def acted_def changes_def)
  qed
  then show "post (honest q) [] (list_replies (\<lambda>rs. Answer (Inr (Listing rs))))" by (simp add: list_replies_def)
next
  assume op: "rq_op q = OpStatus"
  let ?n = "rq_service q"
  have "post (honest q) [SawStatus ?n (Inr s)] (status_reply_of s (\<lambda>r. Answer (Inr (StatusOf r))))" for s
  proof (rule status_reply_post)
    fix ext rep assume e: "quiet ext" "reply_shows ext s rep"
    note z = quiet_nothing[OF e(1)]
    have "status_told q ([SawStatus ?n (Inr s)] @ ext) rep" unfolding status_told_def
      using z reply_shows_more[OF e(2), of "[SawStatus ?n (Inr s)] @ ext"] by (auto simp: last_status_def)
    then show "post (honest q) ([SawStatus ?n (Inr s)] @ ext) (Answer (Inr (StatusOf rep)))"
      using z op by (simp add: honest_def backed_def acted_def changes_def tells_status_def)
  qed
  moreover have "honest q [SawStatus ?n (Inl e)] (Inl (Fab e))" for e
    using op by (simp add: honest_def justified_def acted_def last_status_def)
  ultimately show "post (honest q) [] (AskStatus ?n (\<lambda>st. case st of
      Inl e \<Rightarrow> refuse (Fab e) | Inr s \<Rightarrow> status_reply_of s (\<lambda>r. Answer (Inr (StatusOf r)))))" by (simp split: sum.split)
next
  assume "rq_op q = OpPing"
  then show "post (honest q) [] (AskDaemon (\<lambda>version kill. Answer (Inr (Pong version kill))))"
    by (simp add: honest_def backed_def acted_def changes_def)
next
  assume "rq_op q = OpUpgrade"
  then show "post (honest q) [] upgrade_handler"
    by (simp add: upgrade_handler_def honest_def backed_def justified_def acted_def changes_def)
qed

lemma dispatch_honest: "post (honest q) [] (dispatch q)"
proof (cases "rq_op q")
  case OpStart
  then show ?thesis using simple_post[of q] by (auto simp: dispatch_def Let_def asked_def tells_status_def)
next
  case OpStop
  then show ?thesis using simple_post[of q] by (auto simp: dispatch_def Let_def asked_def tells_status_def)
next
  case OpRestart
  then show ?thesis using simple_post[of q] by (auto simp: dispatch_def Let_def asked_def tells_status_def)
qed (auto simp: dispatch_def Let_def add_post set_post move_post rename_post remove_post logs_post asking_post justified_def simp del: post_simps post_refuse
    intro!: refused_post)

text \<open>
  C20. The daemon does what a request asks, and its answer is true to what happened. In every run of a handler, whatever the
  fabric answers and whoever else is at it meanwhile: only the operation the request names is done, with what it carries, and
  for a move the renumbering that puts the tab in its place, from the beginning as far as it gets. A success means that every
  one of them was done without an error, all of a move's among them, and it tells what the fabric told: the status that was
  asked last, the list, the log of that service and window, what was handed over. A refusal tells the error of the operation
  that failed, or that the service was not there any more when its status was asked after it, or what is wrong with the
  request, of which then nothing was done. An answer waits for two hundred naps at most.
\<close>

theorem answers_are_honest:
  assumes "runs (dispatch q) tr r"
  shows "acted q tr r \<and> (case r of Inl err \<Rightarrow> justified q tr err | Inr rep \<Rightarrow> backed q tr rep) \<and> naps tr \<le> 200"
  using postD[OF dispatch_honest assms] by (simp add: honest_def settle_rounds_def)

definition stop_a :: request where
  "stop_a = \<lparr>rq_id = 7, rq_service = bstr ''a'', rq_op = OpStop\<rparr>"

definition logs_a :: request where
  "logs_a = \<lparr>rq_id = 8, rq_service = bstr ''a'', rq_op = OpLogs Absent\<rparr>"

lemma stop_run: "runs (dispatch stop_a) [Did (Stopping (StopLock (bstr ''a''))) (Some FabricClosed)] (Inl (Fab FabricClosed))"
  by (auto simp: dispatch_def stop_a_def or_refuse_def refuse_def Let_def intro!: exI[of _ "Some FabricClosed"])

lemma logs_run:
  "runs (dispatch logs_a) [SawLogs (bstr ''a'') 0 4194304 (Inr tail), SawStatus (bstr ''a'') (Inl FabricClosed)] (Inr (LogsOf tail False))"
  by (auto simp: dispatch_def logs_a_def logs_handler_def or_empty_def empty_logs_def logs_limit_def max_logs_bytes_def Let_def
      intro!: exI[of _ "Inr tail"] exI[of _ "Inl FabricClosed"])

definition some_tail :: log_tail where
  "some_tail = \<lparr>lt_note = NoNote, lt_data = bstr ''out'', lt_truncated = False, lt_path = [], lt_behind = None\<rparr>"

theorem answers_are_honest_witness:
  "justified stop_a [Did (Stopping (StopLock (bstr ''a''))) (Some FabricClosed)] (Fab FabricClosed)
   \<and> backed logs_a [SawLogs (bstr ''a'') 0 4194304 (Inr some_tail), SawStatus (bstr ''a'') (Inl FabricClosed)] (LogsOf some_tail False)"
  using answers_are_honest[OF stop_run] answers_are_honest[OF logs_run, of some_tail] by simp

section \<open>A connection from its bytes to its answers\<close>

text \<open>What an answer is to its frame.\<close>

definition answers :: "frame_in \<Rightarrow> answer \<Rightarrow> bool" where
  "answers f a \<longleftrightarrow>
     (case f of
        Asks q \<Rightarrow> \<not> takes_over q \<and> an_id a = rq_id q \<and> (\<exists>tr. runs (dispatch q) tr (an_result a) \<and> honest q tr (an_result a))
      | MalformedAsk \<Rightarrow> a = \<lparr>an_id = 0, an_result = Inl MalformedFrame\<rparr>
      | Stray k \<Rightarrow> a = \<lparr>an_id = 0, an_result = Inl (StrayFrame k)\<rparr>)"

definition ends_at :: "frame_in list \<Rightarrow> nat \<Rightarrow> conn_end \<Rightarrow> bool" where
  "ends_at fs k e \<longleftrightarrow>
     (case e of
        HungUp \<Rightarrow> k = length fs
      | TakenOver q \<Rightarrow> k < length fs \<and> fs ! k = Asks q \<and> takes_over q
      | CannotAnswer \<Rightarrow> 0 < k \<and> k \<le> length fs)"

lemma ends_at_Suc: "ends_at fs k e \<Longrightarrow> ends_at (f # fs) (Suc k) e"
  by (auto simp: ends_at_def split: conn_end.split_asm conn_end.split)

lemma ends_at_simps: "ends_at [] 0 HungUp" "takes_over q \<Longrightarrow> ends_at (Asks q # fs) 0 (TakenOver q)" "ends_at (f # fs) 1 CannotAnswer"
  by (simp_all add: ends_at_def)

lemma handled: "handles fs as e \<Longrightarrow> list_all2 answers (take (length as) fs) as \<and> ends_at fs (length as) e"
proof (induction rule: handles.induct)
  case (answered q tr r fs as e)
  then show ?case using postD[OF dispatch_honest answered(2)] by (auto simp: answers_def ends_at_Suc)
next
  case (cannot_answer q tr r fs)
  then show ?case using postD[OF dispatch_honest cannot_answer(2)] ends_at_simps(3) by (auto simp: answers_def)
qed (auto simp: answers_def ends_at_Suc ends_at_simps)

text \<open>The frames of the wire, \<open>dec\<close> being the decoder of a request.\<close>

definition frame_of :: "(bytes \<Rightarrow> request option) \<Rightarrow> kind \<times> bytes \<Rightarrow> frame_in" where
  "frame_of dec f =
     (if fst f \<noteq> kind_request then Stray (fst f)
      else case dec (snd f) of None \<Rightarrow> MalformedAsk | Some q \<Rightarrow> Asks q)"

definition serves :: "(bytes \<Rightarrow> request option) \<Rightarrow> nat \<Rightarrow> stream \<Rightarrow> answer list \<Rightarrow> conn_end \<Rightarrow> bool" where
  "serves dec fuel s as e \<longleftrightarrow> handles (map (frame_of dec) (fst (read_frames fuel s))) as e"

lemma read_before_cut:
  assumes "list_all frame_ok fs" "frame_ok f" "m < length (frame_bytes f)"
  shows "fst (read_frames (length fs + 1) \<lparr>pending = concat (map frame_bytes fs) @ take m (frame_bytes f), ending = EndEOF\<rparr>) = fs"
proof -
  let ?rest = "\<lparr>pending = take m (frame_bytes f), ending = EndEOF\<rparr>"
  have "\<exists>x. fst (read_frame ?rest) = Inl x" using read_frame_cut[OF assms(2,3), of ?rest] by simp
  then have "\<exists>x. read_frames (Suc 0) ?rest = ([], Some x)" by (cases "read_frame ?rest") auto
  then obtain x where x: "read_frames (Suc 0) ?rest = ([], Some x)" by blast
  have ok: "\<forall>g \<in> set fs. frame_ok g" using assms(1) by (simp add: list_all_iff)
  have e: "length fs + 1 = length fs + Suc 0" by simp
  show ?thesis unfolding e
    by (subst read_frames_frame_bytes[OF ok, where rest = "take m (frame_bytes f)"]) (simp_all only: stream.simps x Let_def prod.case fst_conv append_Nil2)
qed

text \<open>
  C21. From bytes to answers. Whatever frames a client has written, and wherever in the middle of the next one it is cut off:
  the answers the daemon writes are, in order and one each, answers to the first of them - to a request under its own id and
  with the honest outcome of its own handler, to what is no request an error that says so - up to the request that takes the
  stream over, the answer that could not be written, or the last whole frame.
\<close>

theorem requests_on_the_wire_are_answered:
  assumes "list_all frame_ok fs" "frame_ok f" "m < length (frame_bytes f)"
    and "serves dec (length fs + 1) \<lparr>pending = concat (map frame_bytes fs) @ take m (frame_bytes f), ending = EndEOF\<rparr> as e"
  shows "list_all2 answers (take (length as) (map (frame_of dec) fs)) as \<and> ends_at (map (frame_of dec) fs) (length as) e"
  using assms(4) unfolding serves_def read_before_cut[OF assms(1-3)] by (rule handled)

text \<open>A ping, data that belongs to no attach, an attach, and what comes after it; the payload of a ping is its id.\<close>

definition attach_a :: request where
  "attach_a = \<lparr>rq_id = 9, rq_service = bstr ''a'', rq_op = OpAttach\<rparr>"

definition ping :: "nat \<Rightarrow> request" where
  "ping i = \<lparr>rq_id = i, rq_service = [], rq_op = OpPing\<rparr>"

definition dec_some :: "bytes \<Rightarrow> request option" where
  "dec_some b = (case b of [] \<Rightarrow> None | [c] \<Rightarrow> Some (ping (unat c)) | c # d # ds \<Rightarrow> Some attach_a)"

definition some_frames :: "(kind \<times> bytes) list" where
  "some_frames = [(kind_request, [7]), (kind_data, bstr ''x''), (kind_request, bstr ''at''), (kind_request, [8])]"

lemma some_serves:
  "serves dec_some (length some_frames + 1) \<lparr>pending = concat (map frame_bytes some_frames) @ take 3 (frame_bytes (kind_request, [9])), ending = EndEOF\<rparr>
     [\<lparr>an_id = 7, an_result = Inr (Pong [] (ByGroup []))\<rparr>, \<lparr>an_id = 0, an_result = Inl (StrayFrame kind_data)\<rparr>] (TakenOver attach_a)"
proof -
  have ok: "list_all frame_ok some_frames" "frame_ok (kind_request, [9])" "3 < length (frame_bytes (kind_request, [9]))"
    by (simp_all add: some_frames_def frame_ok_def kind_valid_def max_frame_size_def length_frame_bytes bstr_def)
  have m: "map (frame_of dec_some) some_frames = [Asks (ping 7), Stray kind_data, Asks attach_a, Asks (ping 8)]"
    by (simp add: some_frames_def frame_of_def dec_some_def kind_data_def kind_request_def bstr_def)
  have r: "runs (dispatch (ping 7)) [SawDaemon [] (ByGroup [])] (Inr (Pong [] (ByGroup [])))" "\<not> takes_over (ping 7)" "rq_id (ping 7) = 7" "takes_over attach_a"
    by (simp_all add: dispatch_def ping_def takes_over_def Let_def attach_a_def)
  show ?thesis unfolding serves_def read_before_cut[OF ok] m
    using answered[OF r(2,1) stray[OF taken_over[OF r(4)]]] by (simp add: r(3))
qed

theorem requests_on_the_wire_are_answered_witness:
  "answers (Asks (ping 7)) \<lparr>an_id = 7, an_result = Inr (Pong [] (ByGroup []))\<rparr>
    \<and> ends_at (map (frame_of dec_some) some_frames) 2 (TakenOver attach_a)"
proof -
  have ok: "list_all frame_ok some_frames" "frame_ok (kind_request, [9])" "3 < length (frame_bytes (kind_request, [9]))"
    by (simp_all add: some_frames_def frame_ok_def kind_valid_def max_frame_size_def length_frame_bytes bstr_def)
  have m: "map (frame_of dec_some) some_frames = [Asks (ping 7), Stray kind_data, Asks attach_a, Asks (ping 8)]"
    by (simp add: some_frames_def frame_of_def dec_some_def kind_data_def kind_request_def bstr_def)
  show ?thesis using requests_on_the_wire_are_answered[OF ok some_serves, unfolded m] unfolding m by (simp add: numeral_2_eq_2)
qed

end
