(* ===== verification/FdStore.thy ===== *)
theory FdStore
  imports Fabric Render Settings "HOL-Library.Multiset"
begin

text \<open>
  Keeping the services' terminals across a crash: \<open>src/internal/daemon/ptystore.go\<close>, the store of what systemd handed
  back in \<open>socketstore.go\<close>, and the messages and names of \<open>sdnotify.go\<close>. A descriptor is its number. The map of
  pending descriptors is an association list, whose order stands for whatever order Go walks a map in. What a
  notification carries is a value; sending it is the operating system's.
\<close>

section \<open>Names\<close>

definition pty_fd_prefix :: bytes where
  "pty_fd_prefix = bstr ''gzpty-''"

definition pty_fd_name :: "bytes \<Rightarrow> int \<Rightarrow> bytes" where
  "pty_fd_name service pid = pty_fd_prefix @ itoa pid @ [0x2d] @ service"

definition parse_pty_fd_name :: "bytes \<Rightarrow> (bytes \<times> int) option" where
  "parse_pty_fd_name n =
     (if \<not> starts_with pty_fd_prefix n then None
      else case cut_at 0x2d (drop (length pty_fd_prefix) n) of
        None \<Rightarrow> None
      | Some (pid_text, service) \<Rightarrow>
          if service = [] then None
          else (case atoi pid_text of (pid, number) \<Rightarrow> if \<not> number \<or> pid \<le> 0 then None else Some (service, pid)))"

definition socket_fd_name :: bytes where
  "socket_fd_name = bstr ''gz-socket''"

definition max_fd_name :: nat where "max_fd_name = 255"

datatype fd_name_error = NoFdName | FdNameTooLong nat | FdNameSeparator

definition check_fd_name :: "bytes \<Rightarrow> fd_name_error option" where
  "check_fd_name n =
     (if n = [] then Some NoFdName
      else if length n > max_fd_name then Some (FdNameTooLong (length n))
      else if list_ex (\<lambda>c. c \<in> {0x3a, 0x0a, 0x00}) n then Some FdNameSeparator
      else None)"

section \<open>Messages\<close>

datatype notify_error = NoNotifySocket | BadFdName fd_name_error

text \<open>A datagram: where it goes, its text, and the descriptors with it.\<close>

record datagram =
  dg_to :: bytes
  dg_text :: bytes
  dg_fds :: "int list"

definition notify :: "bytes \<Rightarrow> bytes \<Rightarrow> int list \<Rightarrow> notify_error + datagram" where
  "notify addr msg fds =
     (case addr of
        [] \<Rightarrow> Inl NoNotifySocket
      | c # cs \<Rightarrow> Inr \<lparr>dg_to = (if c = 0x40 then 0x00 # cs else addr), dg_text = msg, dg_fds = fds\<rparr>)"

definition notify_ready :: "bytes \<Rightarrow> notify_error + datagram" where
  "notify_ready addr = notify addr (bstr ''READY=1'') []"

definition newline :: bytes where "newline = [0x0a]"

definition store_fd :: "bytes \<Rightarrow> bytes \<Rightarrow> int \<Rightarrow> notify_error + datagram" where
  "store_fd addr n fd =
     (case check_fd_name n of
        Some e \<Rightarrow> Inl (BadFdName e)
      | None \<Rightarrow> notify addr (bstr ''FDSTORE=1'' @ newline @ bstr ''FDNAME='' @ n) [fd])"

definition remove_stored_fd :: "bytes \<Rightarrow> bytes \<Rightarrow> notify_error + datagram" where
  "remove_stored_fd addr n =
     (case check_fd_name n of
        Some e \<Rightarrow> Inl (BadFdName e)
      | None \<Rightarrow> notify addr (bstr ''FDSTOREREMOVE=1'' @ newline @ bstr ''FDNAME='' @ n) [])"

text \<open>\<open>StorePTY\<close> and \<open>DropPTY\<close>: what they send, if anything. A failure is said in the log and is no more than that.\<close>

definition sent :: "notify_error + datagram \<Rightarrow> datagram list" where
  "sent r = (case r of Inl e \<Rightarrow> [] | Inr d \<Rightarrow> [d])"

definition store_pty :: "bytes \<Rightarrow> bytes \<Rightarrow> int \<Rightarrow> int option \<Rightarrow> datagram list" where
  "store_pty addr service pid pty =
     (case pty of None \<Rightarrow> [] | Some fd \<Rightarrow> sent (store_fd addr (pty_fd_name service pid) fd))"

definition drop_pty :: "bytes \<Rightarrow> bytes \<Rightarrow> int \<Rightarrow> datagram list" where
  "drop_pty addr service pid = sent (remove_stored_fd addr (pty_fd_name service pid))"

section \<open>What systemd hands back\<close>

definition listen_fds_start :: int where "listen_fds_start = 3"

record listen_env =
  li_pid :: bytes
  li_fds :: bytes
  li_names :: bytes

definition fd_name_at :: "bytes list \<Rightarrow> nat \<Rightarrow> bytes" where
  "fd_name_at names i =
     (let n = (if i < length names then names ! i else [])
      in if n = [] \<or> n = bstr ''unknown'' then bstr ''unnamed-'' @ itoa (listen_fds_start + int i) else n)"

definition stored_fds :: "int \<Rightarrow> listen_env \<Rightarrow> (bytes \<times> int) list" where
  "stored_fds own v =
     (case atoi (li_pid v) of (p, number) \<Rightarrow>
        if \<not> number \<or> p \<noteq> own then []
        else (case atoi (li_fds v) of (n, number2) \<Rightarrow>
          if \<not> number2 \<or> n \<le> 0 then []
          else (let names = split_on 0x3a (li_names v)
                in fold (\<lambda>i out. AList.update (fd_name_at names i) (listen_fds_start + int i) out) [0..<nat n] [])))"

text \<open>The environment is cleared, so a second look finds nothing; \<open>CollectStoredFDs\<close> looks once.\<close>

record fd_store =
  fs_pending :: "(bytes \<times> int) list"
  fs_collected :: bool
  fs_env :: listen_env
  fs_sent :: "datagram list"
  fs_closed :: "int list"

definition no_listen_env :: listen_env where
  "no_listen_env = \<lparr>li_pid = [], li_fds = [], li_names = []\<rparr>"

definition collect_stored_fds :: "int \<Rightarrow> fd_store \<Rightarrow> fd_store" where
  "collect_stored_fds own s =
     (if fs_collected s then s
      else s\<lparr>fs_collected := True, fs_env := no_listen_env,
             fs_pending := fold (\<lambda>(n, fd) out. AList.update n fd out) (stored_fds own (fs_env s)) (fs_pending s)\<rparr>)"

definition claim_fd :: "bytes \<Rightarrow> fd_store \<Rightarrow> fd_store" where
  "claim_fd n s = s\<lparr>fs_pending := AList.delete n (fs_pending s)\<rparr>"

definition release_fd :: "bytes \<Rightarrow> bytes \<Rightarrow> fd_store \<Rightarrow> fd_store" where
  "release_fd addr n s =
     (case map_of (fs_pending s) n of
        None \<Rightarrow> s
      | Some fd \<Rightarrow> s\<lparr>fs_pending := AList.delete n (fs_pending s), fs_closed := fs_closed s @ [fd],
                     fs_sent := fs_sent s @ sent (remove_stored_fd addr n)\<rparr>)"

definition release_unadopted :: "bytes \<Rightarrow> fd_store \<Rightarrow> fd_store" where
  "release_unadopted addr s = fold (\<lambda>(n, fd) s1. release_fd addr n s1) (fs_pending s) s"

text \<open>\<open>RecoveredPTYs\<close>: \<open>rc_started\<close> is the start the kernel gives for a process, or now.\<close>

record recovery =
  rc_alive :: "int \<Rightarrow> bool"
  rc_dup :: "int \<Rightarrow> int option"
  rc_started :: "int \<Rightarrow> int"

definition recover_one :: "bytes \<Rightarrow> recovery \<Rightarrow> bytes \<times> int \<Rightarrow> handover list \<times> fd_store \<Rightarrow> handover list \<times> fd_store" where
  "recover_one addr v x acc =
     (case x of (n, fd) \<Rightarrow> case acc of (out, s) \<Rightarrow>
        case parse_pty_fd_name n of
          None \<Rightarrow> (out, s)
        | Some (service, pid) \<Rightarrow>
            if \<not> rc_alive v pid then (out, release_fd addr n s)
            else (case rc_dup v fd of
                None \<Rightarrow> (out, release_fd addr n s)
              | Some d \<Rightarrow>
                  (out @ [\<lparr>ho_name = service, ho_pid = pid, ho_fd = d, ho_started = Some (rc_started v pid), ho_orphan = True\<rparr>],
                   claim_fd n (s\<lparr>fs_closed := fs_closed s @ [fd]\<rparr>))))"

definition recovered_ptys :: "bytes \<Rightarrow> recovery \<Rightarrow> fd_store \<Rightarrow> handover list \<times> fd_store" where
  "recovered_ptys addr v s = fold (recover_one addr v) (fs_pending s) ([], s)"

section \<open>Names come back\<close>

lemma digits_no_dash: "list_all is_digit s \<Longrightarrow> 0x2d \<notin> set s"
  using is_digit_not_sign by (auto simp: list_all_iff)

lemma parse_pty_name:
  assumes "0 < pid" "pid \<le> max_int64" "service \<noteq> []"
  shows "parse_pty_fd_name (pty_fd_name service pid) = Some (service, pid)"
proof -
  have d: "0x2d \<notin> set (itoa pid)" using itoa_digits[of pid] assms(1) digits_no_dash by simp
  have "starts_with pty_fd_prefix (pty_fd_name service pid)" by (simp add: starts_with_def pty_fd_name_def)
  moreover have "drop (length pty_fd_prefix) (pty_fd_name service pid) = itoa pid @ 0x2d # service" by (simp add: pty_fd_name_def)
  ultimately show ?thesis
    using assms cut_at_free[OF d, of service] atoi_itoa[of pid] by (simp add: parse_pty_fd_name_def)
qed

lemma fd_valid_name_bytes:
  assumes "valid_service_name n = None"
  shows "n \<noteq> []" "length n \<le> 64" "list_all name_byte n"
  using assms by (auto simp: valid_service_name_def service_name_pattern_def name_byte_def split: if_split_asm list.split_asm)

lemma fd_name_byte_plain: "name_byte c \<Longrightarrow> c \<noteq> 0x3a \<and> c \<noteq> 0x0a \<and> c \<noteq> 0x00"
  by (auto simp: name_byte_def name_start_def)

lemma nat_digits_length: "n < 10 ^ k \<Longrightarrow> 0 < k \<Longrightarrow> length (nat_digits n) \<le> k"
proof (induction k arbitrary: n)
  case (Suc k)
  show ?case
  proof (cases "n < 10")
    case False
    then have "n div 10 < 10 ^ k" "0 < k" using Suc.prems by (cases k; auto simp: less_mult_imp_div_less)+
    then show ?thesis using Suc.IH[of "n div 10"] False by (simp add: nat_digits.simps[of n])
  qed (simp add: nat_digits.simps[of n])
qed simp

lemma terminal_names_lemma:
  assumes "valid_service_name n = None" "0 < pid" "pid \<le> max_int64"
  shows "check_fd_name (pty_fd_name n pid) = None \<and> pty_fd_name n pid \<noteq> socket_fd_name
    \<and> parse_pty_fd_name (pty_fd_name n pid) = Some (n, pid)"
proof -
  have v: "n \<noteq> []" "length n \<le> 64" "list_all name_byte n" using fd_valid_name_bytes[OF assms(1)] by auto
  have "nat pid < 10 ^ 19" using assms(3) by (simp add: max_int64_def nat_less_iff)
  then have l: "length (itoa pid) \<le> 19" using nat_digits_length[of "nat pid" 19] assms(2) by (simp add: itoa_def)
  have "list_all is_digit (itoa pid)" using itoa_digits[of pid] assms(2) by simp
  then have "c \<notin> {0x3a, 0x0a, 0x00}" if "c \<in> set (itoa pid)" for c
    using that by (auto simp: list_all_iff is_digit_def)
  moreover have "c \<notin> {0x3a, 0x0a, 0x00}" if "c \<in> set n" for c
    using that v(3) fd_name_byte_plain by (auto simp: list_all_iff)
  ultimately have "\<not> list_ex (\<lambda>c. c \<in> {0x3a, 0x0a, 0x00}) (pty_fd_name n pid)"
    by (auto simp: pty_fd_name_def pty_fd_prefix_def list_ex_iff)
  moreover have "length (pty_fd_name n pid) \<le> max_fd_name" "pty_fd_name n pid \<noteq> []"
    using l v(2) by (simp_all add: pty_fd_name_def pty_fd_prefix_def max_fd_name_def)
  moreover have "pty_fd_name n pid \<noteq> socket_fd_name" by (simp add: pty_fd_name_def pty_fd_prefix_def socket_fd_name_def)
  ultimately show ?thesis using parse_pty_name[OF assms(2,3) v(1)] by (simp add: check_fd_name_def)
qed

text \<open>
  The terminal of every service that can exist can be kept: under a valid name and any process id the name of
  its descriptor is one systemd takes, it is not the name of the listening socket, and reading it back gives the
  service and the process again.
\<close>

theorem terminal_names_come_back:
  assumes "valid_service_name n = None" "0 < pid" "pid \<le> max_int64"
  shows "check_fd_name (pty_fd_name n pid) = None \<and> pty_fd_name n pid \<noteq> socket_fd_name
    \<and> parse_pty_fd_name (pty_fd_name n pid) = Some (n, pid)"
  by (rule terminal_names_lemma[OF assms])

theorem terminal_names_come_back_witness:
  "parse_pty_fd_name (pty_fd_name (bstr ''my-shell'') 4711) = Some (bstr ''my-shell'', 4711)"
proof -
  have "valid_service_name (bstr ''my-shell'') = None" by code_simp
  from terminal_names_come_back[OF this, of 4711] show ?thesis by (simp add: max_int64_def)
qed

section \<open>Descriptors come back\<close>

lemma update_new: "k \<notin> fst ` set al \<Longrightarrow> AList.update k v al = al @ [(k, v)]"
  by (induction al) auto

lemma fold_update_upto:
  "inj_on f {..<n} \<Longrightarrow> fold (\<lambda>i out. AList.update (f i) (g i) out) [0..<n] [] = map (\<lambda>i. (f i, g i)) [0..<n]"
proof (induction n)
  case (Suc n)
  have "f n \<notin> fst ` set (map (\<lambda>i. (f i, g i)) [0..<n])" using inj_onD[OF Suc.prems, of n] by fastforce
  moreover have "inj_on f {..<n}" by (rule inj_on_subset[OF Suc.prems]) auto
  ultimately show ?case using Suc.IH by (simp add: update_new)
qed simp

lemma fold_update_new:
  "distinct (map fst xs) \<Longrightarrow> fst ` set xs \<inter> fst ` set al = {} \<Longrightarrow> fold (\<lambda>(n, fd) out. AList.update n fd out) xs al = al @ xs"
proof (induction xs arbitrary: al)
  case (Cons x xs)
  obtain n fd where x: "x = (n, fd)" by (cases x)
  have "AList.update n fd al = al @ [(n, fd)]" using Cons.prems x by (intro update_new) auto
  then show ?case using Cons.IH[of "al @ [(n, fd)]"] Cons.prems x by auto
qed simp

definition recovered_one :: "recovery \<Rightarrow> bytes \<times> int \<Rightarrow> handover option" where
  "recovered_one v x =
     (case parse_pty_fd_name (fst x) of
        None \<Rightarrow> None
      | Some (service, pid) \<Rightarrow>
          if \<not> rc_alive v pid then None
          else map_option (\<lambda>d. \<lparr>ho_name = service, ho_pid = pid, ho_fd = d, ho_started = Some (rc_started v pid), ho_orphan = True\<rparr>)
                 (rc_dup v (snd x)))"

lemma recover_one_form:
  "\<exists>s2. recover_one addr v x (out, s) = (out @ (case recovered_one v x of None \<Rightarrow> [] | Some h \<Rightarrow> [h]), s2)"
proof (cases x)
  case (Pair n fd)
  then show ?thesis by (cases "parse_pty_fd_name n") (simp_all add: recover_one_def recovered_one_def split: prod.split option.split)
qed

lemma recovered_handovers:
  "fst (fold (recover_one addr v) xs (out, s)) = out @ List.map_filter (recovered_one v) xs"
proof (induction xs arbitrary: out s)
  case (Cons x xs)
  obtain s2 where "recover_one addr v x (out, s) = (out @ (case recovered_one v x of None \<Rightarrow> [] | Some h \<Rightarrow> [h]), s2)"
    using recover_one_form by blast
  then show ?case using Cons.IH by (cases "recovered_one v x") (simp_all add: map_filter_simps)
qed (simp add: map_filter_simps)

lemma split_names:
  "ns \<noteq> [] \<Longrightarrow> \<forall>n \<in> set ns. 0x3a \<notin> set n \<Longrightarrow> split_on 0x3a (join_with [0x3a] ns) = ns"
  by (induction "[0x3a] :: bytes" ns rule: join_with.induct) (auto simp: split_on_no_sep split_on_append)

text \<open>What systemd says to the successor about the terminals it holds of these services and processes.\<close>

definition handed_back :: "int \<Rightarrow> (bytes \<times> int) list \<Rightarrow> listen_env" where
  "handed_back own ps =
     \<lparr>li_pid = itoa own, li_fds = itoa (int (length ps)), li_names = join_with [0x3a] (map (\<lambda>(n, p). pty_fd_name n p) ps)\<rparr>"

lemma stored_back:
  assumes "list_all (\<lambda>(n, p). valid_service_name n = None \<and> 0 < p \<and> p \<le> max_int64) ps" "distinct ps" "ps \<noteq> []"
    "0 < own" "own \<le> max_int64" "int (length ps) \<le> max_int64"
  shows "stored_fds own (handed_back own ps) = map (\<lambda>i. (pty_fd_name (fst (ps ! i)) (snd (ps ! i)), listen_fds_start + int i)) [0..<length ps]"
proof -
  let ?ns = "map (\<lambda>(n, p). pty_fd_name n p) ps"
  have t: "check_fd_name (pty_fd_name n p) = None \<and> parse_pty_fd_name (pty_fd_name n p) = Some (n, p)" if "(n, p) \<in> set ps" for n p
    using terminal_names_lemma that assms(1) by (auto simp: list_all_iff)
  have "0x3a \<notin> set n" if m: "n \<in> set ?ns" for n
  proof -
    obtain a p where "(a, p) \<in> set ps" "n = pty_fd_name a p" using m by auto
    then have "check_fd_name n = None" using t by simp
    then show ?thesis by (auto simp: check_fd_name_def list_ex_iff split: if_split_asm)
  qed
  then have s: "split_on 0x3a (join_with [0x3a] ?ns) = ?ns" using assms(3) by (intro split_names) auto
  have at: "fd_name_at ?ns i = pty_fd_name (fst (ps ! i)) (snd (ps ! i))" if "i < length ps" for i
  proof -
    have "pty_fd_name n p \<noteq> bstr ''unknown''" "pty_fd_name n p \<noteq> []" for n p by (simp_all add: pty_fd_name_def pty_fd_prefix_def)
    then show ?thesis using that by (simp add: fd_name_at_def Let_def split_def)
  qed
  have inj: "inj_on (fd_name_at ?ns) {..<length ps}"
  proof (rule inj_onI)
    fix i j assume ij: "i \<in> {..<length ps}" "j \<in> {..<length ps}" "fd_name_at ?ns i = fd_name_at ?ns j"
    have "parse_pty_fd_name (fd_name_at ?ns k) = Some (ps ! k)" if "k < length ps" for k
    proof -
      have "(fst (ps ! k), snd (ps ! k)) \<in> set ps" using that by simp
      from t[OF this] show ?thesis using at[OF that] by simp
    qed
    then have "ps ! i = ps ! j" using ij by (metis lessThan_iff option.inject)
    then show "i = j" using ij(1,2) assms(2) by (simp add: nth_eq_iff_index_eq)
  qed
  have "stored_fds own (handed_back own ps)
      = fold (\<lambda>i out. AList.update (fd_name_at ?ns i) (listen_fds_start + int i) out) [0..<length ps] []"
    using assms(3-6) atoi_itoa s by (simp add: stored_fds_def handed_back_def Let_def)
  also have "\<dots> = map (\<lambda>i. (fd_name_at ?ns i, listen_fds_start + int i)) [0..<length ps]" by (rule fold_update_upto[OF inj])
  finally show ?thesis using at by simp
qed

definition new_store :: "listen_env \<Rightarrow> fd_store" where
  "new_store v = \<lparr>fs_pending = [], fs_collected = False, fs_env = v, fs_sent = [], fs_closed = []\<rparr>"


definition two_left :: recovery where
  "two_left = \<lparr>rc_alive = (\<lambda>p. p \<noteq> 12), rc_dup = (\<lambda>fd. Some (fd + 10)), rc_started = (\<lambda>p. 0)\<rparr>"


section \<open>No descriptor is left over\<close>

definition settled :: "int multiset \<Rightarrow> fd_store \<Rightarrow> bool" where
  "settled all s \<longleftrightarrow> distinct (map fst (fs_pending s)) \<and> mset (map snd (fs_pending s)) + mset (fs_closed s) = all"

lemma delete_one:
  assumes "distinct (map fst al)" "map_of al k = Some v"
  shows "mset (map snd al) = add_mset v (mset (map snd (AList.delete k al)))"
  using assms
proof (induction al)
  case (Cons x al)
  show ?case
  proof (cases "fst x = k")
    case True
    then have "k \<notin> fst ` set al" using Cons.prems(1) by auto
    then have "AList.delete k al = al" by (simp add: AList.delete_id)
    then show ?thesis using Cons.prems True by (cases x) simp
  next
    case False
    then show ?thesis using Cons by (cases x) auto
  qed
qed simp

lemma release_settled: "settled all s \<Longrightarrow> settled all (release_fd addr n s)"
proof (cases "map_of (fs_pending s) n")
  case (Some fd)
  moreover assume "settled all s"
  ultimately show ?thesis using delete_one[of "fs_pending s" n fd]
    by (simp add: settled_def release_fd_def AList.distinct_delete)
qed (simp add: release_fd_def)

lemma claim_settled:
  "settled all s \<Longrightarrow> map_of (fs_pending s) n = Some fd \<Longrightarrow> settled all (claim_fd n (s\<lparr>fs_closed := fs_closed s @ [fd]\<rparr>))"
  using delete_one[of "fs_pending s" n fd]
  by (simp add: settled_def claim_fd_def AList.distinct_delete)

lemma release_pending: "fs_pending (release_fd addr n s) = AList.delete n (fs_pending s)"
proof (cases "map_of (fs_pending s) n")
  case None
  then have "n \<notin> fst ` set (fs_pending s)" by (simp add: map_of_eq_None_iff)
  then show ?thesis using None by (simp add: release_fd_def AList.delete_id)
qed (simp add: release_fd_def)

lemma recover_one_settled:
  assumes "settled all s" "map_of (fs_pending s) n = Some fd" "recover_one addr v (n, fd) (out, s) = (out2, s2)"
  shows "settled all s2 \<and> (\<forall>k. k \<noteq> n \<longrightarrow> map_of (fs_pending s2) k = map_of (fs_pending s) k)"
proof -
  consider "s2 = s" | "s2 = release_fd addr n s" | "s2 = claim_fd n (s\<lparr>fs_closed := fs_closed s @ [fd]\<rparr>)"
    using assms(3) by (auto simp: recover_one_def split: option.split_asm prod.split_asm if_split_asm)
  then show ?thesis
    using assms(1) release_settled claim_settled[OF assms(1,2)]
    by cases (auto simp: release_pending claim_fd_def AList.delete_conv')
qed

lemma recovered_settled:
  assumes "distinct (map fst xs)" "\<forall>(n, fd) \<in> set xs. map_of (fs_pending s) n = Some fd" "settled all s"
  shows "settled all (snd (fold (recover_one addr v) xs (out, s)))"
  using assms
proof (induction xs arbitrary: out s)
  case (Cons x xs)
  obtain n fd where x: "x = (n, fd)" by (cases x)
  obtain out2 s2 where r: "recover_one addr v (n, fd) (out, s) = (out2, s2)" by force
  have n: "map_of (fs_pending s) n = Some fd" using Cons.prems(2) x by simp
  have "map_of (fs_pending s2) k = Some d" if "(k, d) \<in> set xs" for k d
  proof -
    have "k \<noteq> n" using Cons.prems(1) x that by force
    then show ?thesis using recover_one_settled[OF Cons.prems(3) n r] Cons.prems(2) that by auto
  qed
  then show ?case using Cons.IH[of s2 out2] recover_one_settled[OF Cons.prems(3) n r] Cons.prems(1) x r by auto
qed simp

lemma released_all:
  "settled all s \<Longrightarrow> settled all (fold (\<lambda>(n, fd) s1. release_fd addr n s1) xs s)
     \<and> fs_pending (fold (\<lambda>(n, fd) s1. release_fd addr n s1) xs s) = filter (\<lambda>x. fst x \<notin> fst ` set xs) (fs_pending s)"
proof (induction xs arbitrary: s)
  case (Cons x xs)
  have "settled all (release_fd addr (fst x) s)" using Cons.prems by (rule release_settled)
  from Cons.IH[OF this] show ?case
    by (auto simp: split_def release_pending AList.delete_eq intro: filter_cong)
qed simp

text \<open>
  No descriptor leaks: of all that systemd handed back - terminals of services that live, of services that are
  gone, and what is nobody's - every one is closed exactly once by the time the daemon has finished adopting; a
  terminal it goes on using is a copy.
\<close>

theorem no_descriptor_leaks:
  assumes "distinct (map fst (fs_pending s))"
  shows "fs_pending (release_unadopted addr (snd (recovered_ptys addr v s))) = []
    \<and> mset (fs_closed (release_unadopted addr (snd (recovered_ptys addr v s)))) = mset (fs_closed s) + mset (map snd (fs_pending s))"
proof -
  let ?all = "mset (map snd (fs_pending s)) + mset (fs_closed s)"
  have "settled ?all s" using assms by (simp add: settled_def)
  then have "settled ?all (snd (recovered_ptys addr v s))"
    unfolding recovered_ptys_def using assms by (intro recovered_settled) auto
  from released_all[OF this, of addr "fs_pending (snd (recovered_ptys addr v s))"]
  have "settled ?all (release_unadopted addr (snd (recovered_ptys addr v s)))"
    "fs_pending (release_unadopted addr (snd (recovered_ptys addr v s))) = []"
    by (auto simp: release_unadopted_def filter_empty_conv)
  then show ?thesis by (simp add: settled_def)
qed

theorem no_descriptor_leaks_witness:
  "fs_pending (release_unadopted [] (snd (recovered_ptys [] two_left
     ((new_store no_listen_env)\<lparr>fs_pending := [(pty_fd_name (bstr ''a'') 11, 3), (pty_fd_name (bstr ''b'') 12, 4), (bstr ''x'', 5)]\<rparr>)))) = []"
proof -
  have "distinct (map fst (fs_pending ((new_store no_listen_env)\<lparr>fs_pending := [(pty_fd_name (bstr ''a'') 11, 3),
      (pty_fd_name (bstr ''b'') 12, 4), (bstr ''x'', 5 :: int)]\<rparr>)))" by code_simp
  from no_descriptor_leaks[OF this] show ?thesis by blast
qed

end
