(* ===== verification/Doors.thy ===== *)
theory Doors
  imports Fabric FdStore
begin

text \<open>
  How a daemon comes to have the socket and lets go of it, \<open>src/internal/daemon/server.go\<close> and the listener's part of
  \<open>socketstore.go\<close>: taking a listening socket over, clearing a stale one, accepting connections and closing down; and
  who is looking at a service.

  The file system holds at the path an inode or nothing. An inode answers a connect as long as somebody - a daemon, or
  systemd - has it open for listening.
\<close>

section \<open>Coming to have the socket\<close>

record sock_world =
  so_file :: "nat option"
  so_open :: "nat list"
  so_next :: nat

datatype door_error = DaemonRunning | CannotCheck | CannotTell | NotRemovable | CannotBind | NotSecured

text \<open>\<open>Up i held\<close>: listening on the inode \<open>i\<close>, which systemd holds as well if \<open>held\<close>.\<close>

datatype door = Begin | Look | Knock | Sweep | Bind | Up nat bool | Refused door_error | Departed

text \<open>What a descriptor that was handed over turns out to be.\<close>

datatype fd_kind = NotAListener | NotUnix | ListenerAt bytes nat

definition right_listener :: "bytes \<Rightarrow> fd_kind \<Rightarrow> nat option" where
  "right_listener path k = (case k of ListenerAt p i \<Rightarrow> if p = path then Some i else None | _ \<Rightarrow> None)"

text \<open>\<open>adoptHandedListener\<close>; \<open>v\<close> is the variable, which is cleared.\<close>

definition adopt_handed :: "bytes \<Rightarrow> bytes \<Rightarrow> (int \<Rightarrow> fd_kind) \<Rightarrow> nat option" where
  "adopt_handed path v kind_of =
     (if v = [] then None
      else case atoi v of (fd, number) \<Rightarrow>
        if \<not> number \<or> fd < 0 then None else right_listener path (kind_of fd))"

text \<open>\<open>adoptListener\<close>: what systemd held, whatever it is, is claimed and closed.\<close>

definition adopt_stored :: "int \<Rightarrow> bytes \<Rightarrow> (int \<Rightarrow> fd_kind) \<Rightarrow> fd_store \<Rightarrow> nat option \<times> fd_store" where
  "adopt_stored own path kind_of s0 =
     (let s = collect_stored_fds own s0 in
      case map_of (fs_pending s) socket_fd_name of
        None \<Rightarrow> (None, s)
      | Some fd \<Rightarrow> (right_listener path (kind_of fd),
                    claim_fd socket_fd_name (s\<lparr>fs_closed := fs_closed s @ [fd]\<rparr>)))"

text \<open>
  What the start of a daemon finds: the listeners it can take over, whether it was started by systemd, whether systemd
  takes its socket, and how its calls go. \<open>de_odd\<close> is an error of the connect that says nothing.
\<close>

record door_env =
  de_handed :: "nat option"
  de_stored :: "nat option"
  de_systemd :: bool
  de_store_ok :: bool
  de_stat_ok :: bool
  de_odd :: bool
  de_remove_ok :: bool
  de_chmod_ok :: bool

text \<open>
  The steps of \<open>Listen\<close> and \<open>clearStaleSocket\<close>: stat, connect, remove, bind. Anything can happen between two of them.
\<close>

fun door_step :: "door_env \<Rightarrow> door \<Rightarrow> sock_world \<Rightarrow> door \<times> sock_world" where
  "door_step v Begin w =
     (case de_handed v of
        Some i \<Rightarrow> (Up i (de_systemd v), w)
      | None \<Rightarrow> (case de_stored v of Some i \<Rightarrow> (Up i True, w) | None \<Rightarrow> (Look, w)))"
| "door_step v Look w =
     (if so_file w = None then (Bind, w) else if de_stat_ok v then (Knock, w) else (Refused CannotCheck, w))"
| "door_step v Knock w =
     (case so_file w of
        None \<Rightarrow> (Sweep, w)
      | Some i \<Rightarrow>
          if i \<in> set (so_open w) then (Refused DaemonRunning, w)
          else if de_odd v then (Refused CannotTell, w)
          else (Sweep, w))"
| "door_step v Sweep w =
     (if so_file w \<noteq> None \<and> \<not> de_remove_ok v then (Refused NotRemovable, w) else (Bind, w\<lparr>so_file := None\<rparr>))"
| "door_step v Bind w =
     (if so_file w \<noteq> None then (Refused CannotBind, w)
      else if \<not> de_chmod_ok v then (Refused NotSecured, w\<lparr>so_next := so_next w + 1\<rparr>)
      else (Up (so_next w) (de_store_ok v),
            w\<lparr>so_file := Some (so_next w), so_open := so_next w # so_open w, so_next := so_next w + 1\<rparr>))"
| "door_step v d w = (d, w)"

text \<open>
  \<open>Close\<close>: a socket systemd holds keeps its path and its backlog; any other is closed and unlinked. A daemon that dies
  leaves the file, and the listener only if systemd has it.
\<close>

definition close_door :: "bool \<Rightarrow> door \<Rightarrow> sock_world \<Rightarrow> door \<times> sock_world" where
  "close_door remove_ok d w =
     (case d of
        Up i held \<Rightarrow>
          (Departed, if held then w
                 else w\<lparr>so_open := removeAll i (so_open w), so_file := (if remove_ok then None else so_file w)\<rparr>)
      | _ \<Rightarrow> (d, w))"

definition crash :: "door \<Rightarrow> sock_world \<Rightarrow> door \<times> sock_world" where
  "crash d w =
     (case d of
        Up i held \<Rightarrow> (Departed, if held then w else w\<lparr>so_open := removeAll i (so_open w)\<rparr>)
      | _ \<Rightarrow> (Departed, w))"

text \<open>Several daemons at one path.\<close>

datatype door_move = Arrive | Go nat door_env | CloseIt nat bool | Die nat

definition at_door :: "door list \<Rightarrow> nat \<Rightarrow> (door \<Rightarrow> sock_world \<Rightarrow> door \<times> sock_world) \<Rightarrow> sock_world \<Rightarrow> door list \<times> sock_world" where
  "at_door ds k f w = (if k < length ds then (case f (ds ! k) w of (d, w1) \<Rightarrow> (ds[k := d], w1)) else (ds, w))"

fun make_move :: "door_move \<Rightarrow> door list \<times> sock_world \<Rightarrow> door list \<times> sock_world" where
  "make_move Arrive (ds, w) = (ds @ [Begin], w)"
| "make_move (Go k v) (ds, w) = at_door ds k (door_step v) w"
| "make_move (CloseIt k ok) (ds, w) = at_door ds k (close_door ok) w"
| "make_move (Die k) (ds, w) = at_door ds k crash w"

subsection \<open>One daemon at a time\<close>

definition starting :: "door \<Rightarrow> bool" where
  "starting d \<longleftrightarrow> d \<in> {Look, Knock, Sweep, Bind}"

definition up_now :: "door \<Rightarrow> bool" where
  "up_now d \<longleftrightarrow> (case d of Up i held \<Rightarrow> True | _ \<Rightarrow> False)"

text \<open>
  The rule of the house: no daemon starts while another is at it, and a listener is handed over only when the daemon
  that had it is gone.
\<close>

fun in_turn :: "door_move \<Rightarrow> door list \<times> sock_world \<Rightarrow> bool" where
  "in_turn (Go k v) (ds, w) \<longleftrightarrow>
     (\<forall>j < length ds. j \<noteq> k \<longrightarrow> \<not> starting (ds ! j))
     \<and> (k < length ds \<longrightarrow> ds ! k = Begin \<longrightarrow> de_handed v \<noteq> None \<or> de_stored v \<noteq> None \<longrightarrow>
         (\<forall>j < length ds. \<not> up_now (ds ! j))
         \<and> (\<forall>i. de_handed v = Some i \<or> de_stored v = Some i \<longrightarrow> so_file w = Some i \<and> i \<in> set (so_open w)))"
| "in_turn m s \<longleftrightarrow> True"

definition quiet_path :: "sock_world \<Rightarrow> bool" where
  "quiet_path w \<longleftrightarrow> (\<forall>i \<in> set (so_open w). i < so_next w) \<and> (\<forall>i. so_file w = Some i \<longrightarrow> i < so_next w)"

text \<open>At first no daemon has come; the path may hold what an earlier one left.\<close>

inductive door_reach :: "door list \<times> sock_world \<Rightarrow> bool" where
  door_first: "quiet_path w \<Longrightarrow> door_reach ([], w)"
| door_next: "door_reach s \<Longrightarrow> in_turn m s \<Longrightarrow> door_reach (make_move m s)"

definition doors_ok :: "door list \<times> sock_world \<Rightarrow> bool" where
  "doors_ok s \<longleftrightarrow>
     quiet_path (snd s)
     \<and> (\<forall>k i h. k < length (fst s) \<longrightarrow> fst s ! k = Up i h \<longrightarrow> so_file (snd s) = Some i \<and> i \<in> set (so_open (snd s)))
     \<and> (\<forall>j k. j < length (fst s) \<longrightarrow> k < length (fst s) \<longrightarrow> up_now (fst s ! j) \<longrightarrow> up_now (fst s ! k) \<longrightarrow> j = k)
     \<and> (\<forall>j k. j < length (fst s) \<longrightarrow> k < length (fst s) \<longrightarrow> starting (fst s ! j) \<longrightarrow> starting (fst s ! k) \<longrightarrow> j = k)
     \<and> (\<forall>j k. j < length (fst s) \<longrightarrow> k < length (fst s) \<longrightarrow> fst s ! j \<in> {Sweep, Bind} \<longrightarrow> \<not> up_now (fst s ! k))"

lemma doors_okD:
  assumes "doors_ok (ds, w)"
  shows "quiet_path w" "\<And>k i h. k < length ds \<Longrightarrow> ds ! k = Up i h \<Longrightarrow> so_file w = Some i \<and> i \<in> set (so_open w)"
    "\<And>j k. j < length ds \<Longrightarrow> k < length ds \<Longrightarrow> up_now (ds ! j) \<Longrightarrow> up_now (ds ! k) \<Longrightarrow> j = k"
    "\<And>j k. j < length ds \<Longrightarrow> k < length ds \<Longrightarrow> starting (ds ! j) \<Longrightarrow> starting (ds ! k) \<Longrightarrow> j = k"
    "\<And>j k. j < length ds \<Longrightarrow> k < length ds \<Longrightarrow> ds ! j \<in> {Sweep, Bind} \<Longrightarrow> \<not> up_now (ds ! k)"
  using assms by (auto simp: doors_ok_def)

lemma kinds [simp]:
  "\<not> starting Begin" "starting Look" "starting Knock" "starting Sweep" "starting Bind" "\<not> starting (Up i h)"
  "\<not> starting (Refused e)" "\<not> starting Departed" "\<not> up_now Begin" "\<not> up_now Look" "\<not> up_now Knock" "\<not> up_now Sweep" "\<not> up_now Bind"
  "up_now (Up i h)" "\<not> up_now (Refused e)" "\<not> up_now Departed"
  by (simp_all add: starting_def up_now_def)

lemma up_now_Up: "up_now d \<Longrightarrow> \<exists>i h. d = Up i h"
  by (cases d) (simp_all add: up_now_def)

text \<open>One place of the list changes, and what it must bring with it.\<close>

lemma doors_ok_set:
  assumes ok: "doors_ok (ds, w)" and k: "k < length ds" and w1: "quiet_path w1"
    and ups: "\<And>i h. d = Up i h \<Longrightarrow> so_file w1 = Some i \<and> i \<in> set (so_open w1) \<and> (\<forall>j < length ds. j \<noteq> k \<longrightarrow> \<not> up_now (ds ! j) \<and> ds ! j \<notin> {Sweep, Bind})"
    and rest: "(\<exists>j < length ds. j \<noteq> k \<and> up_now (ds ! j)) \<Longrightarrow> so_file w1 = so_file w \<and> set (so_open w1) = set (so_open w)"
    and st: "starting d \<Longrightarrow> \<forall>j < length ds. j \<noteq> k \<longrightarrow> \<not> starting (ds ! j)"
    and sw: "d \<in> {Sweep, Bind} \<Longrightarrow> \<forall>j < length ds. j \<noteq> k \<longrightarrow> \<not> up_now (ds ! j)"
  shows "doors_ok (ds[k := d], w1)"
proof -
  note o = doors_okD[OF ok]
  have up: "so_file w1 = Some i \<and> i \<in> set (so_open w1)" if "j < length ds" "ds[k := d] ! j = Up i h" for j i h
  proof (cases "j = k")
    case True
    then show ?thesis using ups that k by simp
  next
    case False
    then have u: "ds ! j = Up i h" using that by simp
    then have "up_now (ds ! j)" by simp
    then have "\<exists>j < length ds. j \<noteq> k \<and> up_now (ds ! j)" using False that(1) by blast
    from rest[OF this] show ?thesis using o(2)[OF that(1) u] by simp
  qed
  have one: "i = j" if "i < length ds" "j < length ds" "up_now (ds[k := d] ! i)" "up_now (ds[k := d] ! j)" for i j
  proof (cases "i = k \<or> j = k")
    case False
    then show ?thesis using that o(3) by simp
  next
    case True
    then have "up_now d" using that k by auto
    then obtain a h where "d = Up a h" using up_now_Up by blast
    then have "\<forall>l < length ds. l \<noteq> k \<longrightarrow> \<not> up_now (ds ! l)" using ups by blast
    then have others: "\<not> up_now (ds[k := d] ! l)" if "l < length ds" "l \<noteq> k" for l using that by simp
    have "i = k" using others[OF that(1)] that(3) by blast
    moreover have "j = k" using others[OF that(2)] that(4) by blast
    ultimately show ?thesis by simp
  qed
  have two: "i = j" if "i < length ds" "j < length ds" "starting (ds[k := d] ! i)" "starting (ds[k := d] ! j)" for i j
  proof (cases "i = k \<or> j = k")
    case False
    then show ?thesis using that o(4) by simp
  next
    case True
    then have "starting d" using that k by auto
    then have "\<forall>l < length ds. l \<noteq> k \<longrightarrow> \<not> starting (ds ! l)" by (rule st)
    then have others: "\<not> starting (ds[k := d] ! l)" if "l < length ds" "l \<noteq> k" for l using that by simp
    have "i = k" using others[OF that(1)] that(3) by blast
    moreover have "j = k" using others[OF that(2)] that(4) by blast
    ultimately show ?thesis by simp
  qed
  have three: "\<not> up_now (ds[k := d] ! j)" if "i < length ds" "j < length ds" "ds[k := d] ! i \<in> {Sweep, Bind}" for i j
  proof (cases "i = k")
    case True
    then have d: "d \<in> {Sweep, Bind}" using that(3) k by simp
    show ?thesis
    proof (cases "j = k")
      case True
      then show ?thesis using d k by auto
    next
      case False
      then show ?thesis using sw[OF d] that(2) by simp
    qed
  next
    case False
    then have i: "ds ! i \<in> {Sweep, Bind}" using that by simp
    show ?thesis
    proof (cases "j = k")
      case True
      have "\<not> up_now d"
      proof
        assume "up_now d"
        then obtain a h where "d = Up a h" using up_now_Up by blast
        then have "ds ! i \<notin> {Sweep, Bind}" using ups that(1) False by blast
        then show False using i by simp
      qed
      then show ?thesis using True k by simp
    next
      case j: False
      then show ?thesis using o(5)[OF that(1,2) i] by simp
    qed
  qed
  show ?thesis using w1 up one two three by (simp add: doors_ok_def)
qed

lemma go_ok:
  assumes ok: "doors_ok (ds, w)" and k: "k < length ds" and turn: "in_turn (Go k v) (ds, w)" and step: "door_step v (ds ! k) w = (d, w1)"
  shows "doors_ok (ds[k := d], w1)"
proof -
  note o = doors_okD[OF ok]
  have quiet: "\<forall>j < length ds. j \<noteq> k \<longrightarrow> \<not> starting (ds ! j)" using turn by simp
  then have calm: "\<forall>j < length ds. j \<noteq> k \<longrightarrow> ds ! j \<notin> {Sweep, Bind}" by (auto simp: starting_def)
  show ?thesis
  proof (cases "ds ! k")
    case Begin
    then show ?thesis using step turn k quiet calm o(1)
      by (intro doors_ok_set[OF ok k]) (auto split: option.split_asm)
  next
    case Look
    then show ?thesis using step quiet o
      by (intro doors_ok_set[OF ok k]) (auto split: if_split_asm dest!: up_now_Up)
  next
    case Knock
    have "so_file w = Some i \<and> i \<in> set (so_open w)" if "j < length ds" "up_now (ds ! j)" "ds ! j = Up i h" for j i h
      using o(2) that by blast
    then show ?thesis using Knock step quiet o(1)
      by (intro doors_ok_set[OF ok k]) (auto split: if_split_asm option.split_asm dest!: up_now_Up)
  next
    case Sweep
    then have "\<not> up_now (ds ! j)" if "j < length ds" for j using o(5)[OF k that] by simp
    then show ?thesis using Sweep step quiet o(1)
      by (intro doors_ok_set[OF ok k]) (auto simp: quiet_path_def split: if_split_asm)
  next
    case Bind
    then have "\<not> up_now (ds ! j)" if "j < length ds" for j using o(5)[OF k that] by simp
    then show ?thesis using Bind step quiet calm o(1)
      by (intro doors_ok_set[OF ok k]) (auto simp: quiet_path_def less_Suc_eq split: if_split_asm)
  qed (use step ok k list_update_id[of ds k] in auto)
qed

lemma alone: "doors_ok (ds, w) \<Longrightarrow> k < length ds \<Longrightarrow> ds ! k = Up i h \<Longrightarrow> j < length ds \<Longrightarrow> j \<noteq> k \<Longrightarrow> \<not> up_now (ds ! j)"
  using doors_okD(3)[of ds w j k] by auto

lemma leave_ok:
  assumes ok: "doors_ok (ds, w)" and k: "k < length ds" and w1: "quiet_path w1"
    and same: "\<not> up_now (ds ! k) \<Longrightarrow> w1 = w"
  shows "doors_ok (ds[k := Departed], w1)"
proof (rule doors_ok_set[OF ok k w1])
  assume "\<exists>j < length ds. j \<noteq> k \<and> up_now (ds ! j)"
  then have "\<not> up_now (ds ! k)" using doors_okD(3)[OF ok] k by blast
  then show "so_file w1 = so_file w \<and> set (so_open w1) = set (so_open w)" using same by simp
qed simp_all

lemma make_move_ok:
  assumes "doors_ok s" "in_turn m s"
  shows "doors_ok (make_move m s)"
proof -
  obtain ds w where s: "s = (ds, w)" by (cases s)
  have ok: "doors_ok (ds, w)" using assms(1) s by simp
  have q: "quiet_path (w\<lparr>so_open := removeAll i (so_open w)\<rparr>)" "quiet_path (w\<lparr>so_open := removeAll i (so_open w), so_file := None\<rparr>)" for i
    using doors_okD(1)[OF ok] by (auto simp: quiet_path_def)
  show ?thesis
  proof (cases m)
    case Arrive
    have n: "(ds @ [Begin]) ! j = (if j < length ds then ds ! j else Begin)" if "j < Suc (length ds)" for j
      using that by (simp add: nth_append)
    show ?thesis unfolding s Arrive make_move.simps doors_ok_def fst_conv snd_conv length_append
      using doors_okD[OF ok] n by (auto simp: less_Suc_eq split: if_split_asm)
  next
    case (Go k v)
    then show ?thesis using go_ok[OF ok _ assms(2)[unfolded s Go]] ok s by (auto simp: at_door_def split: prod.split)
  next
    case (CloseIt k r)
    have "doors_ok (ds[k := fst (close_door r (ds ! k) w)], snd (close_door r (ds ! k) w))" if k: "k < length ds"
    proof (cases "up_now (ds ! k)")
      case True
      then obtain i h where u: "ds ! k = Up i h" using up_now_Up by blast
      then show ?thesis using q doors_okD(1)[OF ok] by (auto simp: close_door_def intro!: leave_ok[OF ok k])
    next
      case False
      then have "close_door r (ds ! k) w = (ds ! k, w)" by (cases "ds ! k") (simp_all add: close_door_def)
      then show ?thesis using ok by simp
    qed
    then show ?thesis using CloseIt ok s by (simp add: at_door_def split_def)
  next
    case (Die k)
    have "doors_ok (ds[k := fst (crash (ds ! k) w)], snd (crash (ds ! k) w))" if k: "k < length ds"
      using q doors_okD(1)[OF ok] by (cases "ds ! k") (auto simp: crash_def intro!: leave_ok[OF ok k])
    then show ?thesis using Die ok s by (simp add: at_door_def split_def)
  qed
qed

lemma door_reach_ok: "door_reach s \<Longrightarrow> doors_ok s"
proof (induction rule: door_reach.induct)
  case (door_first w)
  then show ?case by (simp add: doors_ok_def)
qed (rule make_move_ok)


lemma door_reach_step: "door_reach (ds, w) \<Longrightarrow> in_turn m (ds, w) \<Longrightarrow> make_move m (ds, w) = s \<Longrightarrow> door_reach s"
  using door_next by blast

text \<open>A start that nothing stands in the way of.\<close>

definition plain_start :: door_env where
  "plain_start =
     \<lparr>de_handed = None, de_stored = None, de_systemd = False, de_store_ok = False, de_stat_ok = True, de_odd = False,
      de_remove_ok = True, de_chmod_ok = True\<rparr>"

text \<open>A daemon finds the file of one that died, and is up after sweeping it away.\<close>

lemma swept_and_up:
  "door_reach ([Up 1 False], \<lparr>so_file = Some 1, so_open = [1], so_next = 2\<rparr>)"
proof -
  let ?w = "\<lparr>so_file = Some 0, so_open = [], so_next = 1\<rparr>"
  have "door_reach ([], ?w)" by (rule door_first) (simp add: quiet_path_def)
  from door_reach_step[OF this, of Arrive] have "door_reach ([Begin], ?w)" by simp
  from door_reach_step[OF this, of "Go 0 plain_start"] have "door_reach ([Look], ?w)" by (simp add: at_door_def plain_start_def)
  from door_reach_step[OF this, of "Go 0 plain_start"] have "door_reach ([Knock], ?w)" by (simp add: at_door_def plain_start_def)
  from door_reach_step[OF this, of "Go 0 plain_start"] have "door_reach ([Sweep], ?w)" by (simp add: at_door_def plain_start_def)
  from door_reach_step[OF this, of "Go 0 plain_start"] have "door_reach ([Bind], ?w\<lparr>so_file := None\<rparr>)" by (simp add: at_door_def plain_start_def)
  from door_reach_step[OF this, of "Go 0 plain_start"] show ?thesis by (simp add: at_door_def plain_start_def numeral_2_eq_2)
qed


text \<open>
  Nothing keeps two daemons from starting at once. Both find the file of one that died, nobody answers either; the first
  sweeps and binds, and the second, which has knocked already, sweeps the first one's socket away and binds its own. The
  first is up and nobody can reach it.
\<close>

lemma swept_away_by_the_second:
  "fold make_move
     [Arrive, Arrive, Go 0 plain_start, Go 0 plain_start, Go 1 plain_start, Go 1 plain_start, Go 0 plain_start, Go 1 plain_start,
      Go 0 plain_start, Go 0 plain_start, Go 1 plain_start, Go 1 plain_start]
     ([], \<lparr>so_file = Some 0, so_open = [], so_next = 1\<rparr>)
   = ([Up 1 False, Up 2 False], \<lparr>so_file = Some 2, so_open = [2, 1], so_next = 3\<rparr>)"
  by (simp add: at_door_def plain_start_def numeral_2_eq_2 numeral_3_eq_3)

end
