(* ===== verification/Stopping.thy ===== *)
theory Stopping
  imports Prelude
begin

text \<open>
  Stopping a service, \<open>Stop\<close> of \<open>src/internal/fabric/process.go\<close>, with the signals it sends: to the process group of the
  service's first process, and to whatever is in its cgroup (\<open>cgroup.go\<close>).

  The kernel's part is the record \<open>os\<close>: the processes the service has, who is in which group and in the cgroup, and what
  has been sent to whom and when. Other things happen between two steps of a stop: processes fork, leave the group and
  end, time passes, and the reaper collects the first process and then publishes its exit. A process id is not used
  twice in a run. Sending to a group, and going through a listing of the cgroup, are one step each.
\<close>

section \<open>The kernel's part\<close>

datatype signal = Term | Hup | Kill

record task =
  tk_group :: int
  tk_cg :: bool
  tk_zombie :: bool

text \<open>
  \<open>os_pid\<close> is the first process, \<open>os_has_cg\<close> whether the service has a cgroup, \<open>os_may p\<close> whether the daemon may signal
  \<open>p\<close>, \<open>os_used\<close> every process id there has been; \<open>os_sent\<close> is what arrived where, with the time.
\<close>

record os =
  os_pid :: int
  os_has_cg :: bool
  os_may :: "int \<Rightarrow> bool"
  os_reaped :: bool
  os_exited :: bool
  os_tasks :: "int \<Rightarrow> task option"
  os_used :: "int list"
  os_now :: int
  os_sent :: "(int \<times> signal \<times> int) list"

definition doomed :: "int \<Rightarrow> os \<Rightarrow> bool" where
  "doomed p w \<longleftrightarrow> list_ex (\<lambda>(q, s, t). q = p \<and> s = Kill) (os_sent w)"

datatype os_move = Tick nat | Ends int | Forks int int | Leaves int int | Reaps | Publishes

definition task_of :: "int \<Rightarrow> os \<Rightarrow> task option" where
  "task_of p w = (case os_tasks w p of None \<Rightarrow> None | Some t \<Rightarrow> if tk_zombie t then None else Some t)"

text \<open>
  The first process stays a zombie until it is reaped. It leads its session, so it cannot leave its group, and nobody
  joins it; what has been killed forks no more.
\<close>

fun os_step :: "os_move \<Rightarrow> os \<Rightarrow> os option" where
  "os_step (Tick n) w = Some (w\<lparr>os_now := os_now w + int n\<rparr>)"
| "os_step (Ends p) w =
     (case task_of p w of
        None \<Rightarrow> None
      | Some t \<Rightarrow> Some (w\<lparr>os_tasks := (os_tasks w)(p := (if p = os_pid w then Some (t\<lparr>tk_zombie := True\<rparr>) else None))\<rparr>))"
| "os_step (Forks p c) w =
     (case task_of p w of
        None \<Rightarrow> None
      | Some t \<Rightarrow> if doomed p w \<or> c \<in> set (os_used w) then None
                  else Some (w\<lparr>os_tasks := (os_tasks w)(c := Some t), os_used := c # os_used w\<rparr>))"
| "os_step (Leaves p g) w =
     (case task_of p w of
        None \<Rightarrow> None
      | Some t \<Rightarrow> if p = os_pid w \<or> g = os_pid w then None
                  else Some (w\<lparr>os_tasks := (os_tasks w)(p := Some (t\<lparr>tk_group := g\<rparr>))\<rparr>))"
| "os_step Reaps w =
     (case os_tasks w (os_pid w) of
        None \<Rightarrow> None
      | Some t \<Rightarrow> if tk_zombie t then Some (w\<lparr>os_tasks := (os_tasks w)(os_pid w := None), os_reaped := True\<rparr>) else None)"
| "os_step Publishes w = (if os_reaped w then Some (w\<lparr>os_exited := True\<rparr>) else None)"

section \<open>Signals\<close>

definition send :: "signal \<Rightarrow> int list \<Rightarrow> os \<Rightarrow> os" where
  "send s ps w = w\<lparr>os_sent := os_sent w @ map (\<lambda>p. (p, s, os_now w)) ps\<rparr>"

text \<open>The members of the group: any, and the living ones.\<close>

definition in_group :: "os \<Rightarrow> int \<Rightarrow> bool" where
  "in_group w p \<longleftrightarrow> (case task_of p w of Some t \<Rightarrow> tk_group t = os_pid w | None \<Rightarrow> False)"

definition group_pids :: "os \<Rightarrow> int list" where
  "group_pids w = filter (\<lambda>p. case os_tasks w p of Some t \<Rightarrow> tk_group t = os_pid w | None \<Rightarrow> False) (os_used w)"

datatype signalled = Sent | Gone | NotLeader | Trouble

text \<open>A kill of a group reaches those it may; it is an error if it may none.\<close>

definition signal_group :: "signal \<Rightarrow> os \<Rightarrow> signalled \<times> os" where
  "signal_group s w =
     (if os_pid w \<le> 0 then (Gone, w)
      else if os_reaped w then (Gone, w)
      else case os_tasks w (os_pid w) of
        None \<Rightarrow> (Gone, w)
      | Some t \<Rightarrow>
          if tk_group t \<noteq> os_pid w then (NotLeader, w)
          else if list_ex (os_may w) (group_pids w) then (Sent, send s (filter (\<lambda>p. os_may w p \<and> in_group w p) (group_pids w)) w)
          else (Trouble, w))"

text \<open>The first process alone; one that has been waited for is gone.\<close>

definition signal_leader :: "signal \<Rightarrow> os \<Rightarrow> os" where
  "signal_leader s w =
     (if os_pid w \<le> 0 \<or> os_reaped w \<or> task_of (os_pid w) w = None \<or> \<not> os_may w (os_pid w) then w else send s [os_pid w] w)"

definition stop_signal :: "signal \<Rightarrow> os \<Rightarrow> os" where
  "stop_signal s w =
     (case signal_group s w of
        (Sent, w1) \<Rightarrow> w1
      | (Gone, w1) \<Rightarrow> w1
      | (r, w1) \<Rightarrow> signal_leader s w1)"

text \<open>\<open>Pids\<close>, without the cgroup: a zombie is not listed.\<close>

definition cgroup_pids :: "os \<Rightarrow> int list" where
  "cgroup_pids w = filter (\<lambda>p. case task_of p w of Some t \<Rightarrow> tk_cg t | None \<Rightarrow> False) (os_used w)"

definition signal_cgroup :: "bool \<Rightarrow> signal \<Rightarrow> bool \<Rightarrow> os \<Rightarrow> os" where
  "signal_cgroup readable s group_signalled w =
     (if \<not> os_has_cg w \<or> \<not> readable then w
      else send s (filter (os_may w) (filter (\<lambda>p. \<not> (group_signalled \<and> in_group w p)) (cgroup_pids w))) w)"

definition sweep_cgroup :: "bool \<Rightarrow> os \<Rightarrow> os" where
  "sweep_cgroup kill_ok w = (if os_has_cg w \<and> kill_ok then send Kill (cgroup_pids w) w else w)"

section \<open>Stop\<close>

definition stop_grace :: int where "stop_grace = 5000000000"

definition hangup_after :: int where "hangup_after = 250000000"

definition poll_every :: int where "poll_every = 20000000"

text \<open>\<open>st_readable\<close>: the cgroup can be listed; \<open>st_kill_ok\<close>: it can be killed.\<close>

record stop_env =
  sn_readable :: bool
  sn_kill_ok :: bool

text \<open>The places of a stop; \<open>d\<close> is its deadline.\<close>

datatype stop_pc =
    SBegin
  | SLate int
  | SAsk int
  | SAskRest int
  | SHangup int int
  | SGrace int
  | SEmpty int
  | SNap int int
  | SSweep int
  | SJoin
  | SDone

text \<open>
  \<open>done_first\<close> chooses when the process is done and the timer has fired as well. \<open>None\<close> is that nothing happens yet.
\<close>

fun stop_step :: "stop_env \<Rightarrow> bool \<Rightarrow> stop_pc \<Rightarrow> os \<Rightarrow> (stop_pc \<times> os) option" where
  "stop_step v done_first SBegin w =
     (let d = os_now w + stop_grace in Some (if os_exited w then SLate d else SAsk d, w))"
| "stop_step v done_first (SLate d) w = Some (SEmpty d, signal_cgroup (sn_readable v) Term False w)"
| "stop_step v done_first (SAsk d) w = Some (SAskRest d, stop_signal Term w)"
| "stop_step v done_first (SAskRest d) w = Some (SHangup d (os_now w + hangup_after), signal_cgroup (sn_readable v) Term True w)"
| "stop_step v done_first (SHangup d u) w =
     (if os_exited w \<and> (done_first \<or> os_now w < u) then Some (SEmpty d, w)
      else if u \<le> os_now w then Some (SGrace d, stop_signal Hup w)
      else None)"
| "stop_step v done_first (SGrace d) w =
     (if os_exited w \<and> (done_first \<or> os_now w < d) then Some (SEmpty d, w)
      else if d \<le> os_now w then Some (SEmpty d, stop_signal Kill w)
      else None)"
| "stop_step v done_first (SEmpty d) w =
     (if \<not> os_has_cg w \<or> \<not> sn_readable v \<or> cgroup_pids w = [] \<or> d \<le> os_now w then Some (SSweep d, w)
      else Some (SNap d (os_now w + poll_every), w))"
| "stop_step v done_first (SNap d u) w = (if u \<le> os_now w then Some (SEmpty d, w) else None)"
| "stop_step v done_first (SSweep d) w = Some (SJoin, sweep_cgroup (sn_kill_ok v) w)"
| "stop_step v done_first SJoin w = (if os_exited w then Some (SDone, w) else None)"
| "stop_step v done_first SDone w = None"

text \<open>
  The service when it is told to stop: nothing has been sent, and the first process leads its group until it is reaped.
\<close>

definition may_stop :: "os \<Rightarrow> bool" where
  "may_stop w \<longleftrightarrow>
     os_sent w = [] \<and> 0 < os_pid w \<and> os_pid w \<in> set (os_used w)
     \<and> (\<forall>p t. os_tasks w p = Some t \<longrightarrow> p \<in> set (os_used w) \<and> (tk_cg t \<longrightarrow> os_has_cg w))
     \<and> (os_exited w \<longrightarrow> os_reaped w)
     \<and> (if os_reaped w then os_tasks w (os_pid w) = None
        else (\<exists>t. os_tasks w (os_pid w) = Some t \<and> tk_group t = os_pid w))"

text \<open>
  A run of one stop among everything else. In a calm run the first process is not reaped just when it is to be asked.
\<close>

inductive stop_run :: "stop_env \<Rightarrow> bool \<Rightarrow> os \<Rightarrow> stop_pc \<Rightarrow> os \<Rightarrow> bool" for v calm w0 where
  stop_begins: "stop_run v calm w0 SBegin w0"
| stop_moves: "stop_run v calm w0 pc w \<Longrightarrow> stop_step v b pc w = Some (pc1, w1) \<Longrightarrow> stop_run v calm w0 pc1 w1"
| world_moves: "stop_run v calm w0 pc w \<Longrightarrow> os_step m w = Some w1 \<Longrightarrow>
    (calm \<longrightarrow> m = Reaps \<longrightarrow> pc \<noteq> SBegin \<and> (\<forall>d. pc \<noteq> SAsk d)) \<Longrightarrow> stop_run v calm w0 pc w1"

inductive_cases stop_run_cases: "stop_run v calm w0 pc w"

section \<open>What a step changes\<close>

lemma send_simps [simp]:
  "os_pid (send s ps w) = os_pid w" "os_has_cg (send s ps w) = os_has_cg w" "os_may (send s ps w) = os_may w"
  "os_reaped (send s ps w) = os_reaped w" "os_exited (send s ps w) = os_exited w" "os_tasks (send s ps w) = os_tasks w"
  "os_used (send s ps w) = os_used w" "os_now (send s ps w) = os_now w"
  "os_sent (send s ps w) = os_sent w @ map (\<lambda>p. (p, s, os_now w)) ps"
  by (simp_all add: send_def)

lemma send_who [simp]:
  "task_of p (send s ps w) = task_of p w" "in_group (send s ps w) p = in_group w p" "cgroup_pids (send s ps w) = cgroup_pids w"
proof -
  have t: "task_of q (send s ps w) = task_of q w" for q by (simp add: task_of_def)
  show "task_of p (send s ps w) = task_of p w" by (rule t)
  show "in_group (send s ps w) p = in_group w p" "cgroup_pids (send s ps w) = cgroup_pids w"
    by (simp_all add: in_group_def cgroup_pids_def t split: option.split)
qed

text \<open>\<open>told s P w w1\<close>: nothing happened but that \<open>s\<close> went to some processes, all of which \<open>P\<close> holds of.\<close>

definition told :: "signal \<Rightarrow> (int \<Rightarrow> bool) \<Rightarrow> os \<Rightarrow> os \<Rightarrow> bool" where
  "told s P w w1 \<longleftrightarrow> (\<exists>ps. w1 = send s ps w \<and> (\<forall>p \<in> set ps. P p))"

lemma toldE: "told s P w w1 \<Longrightarrow> (\<And>ps. w1 = send s ps w \<Longrightarrow> \<forall>p \<in> set ps. P p \<Longrightarrow> thesis) \<Longrightarrow> thesis"
  by (auto simp: told_def)

lemma told_none: "told s P w w"
  by (auto simp: told_def send_def intro!: exI[of _ "[]"])

lemma told_send: "(\<And>p. p \<in> set ps \<Longrightarrow> P p) \<Longrightarrow> told s P w (send s ps w)"
  by (auto simp: told_def)

lemma task_of_Some: "task_of p w = Some t \<longleftrightarrow> os_tasks w p = Some t \<and> \<not> tk_zombie t"
  by (auto simp: task_of_def split: option.split)

text \<open>What holds of the kernel's part all through a stop.\<close>

definition steady :: "os \<Rightarrow> os \<Rightarrow> bool" where
  "steady w0 w \<longleftrightarrow>
     os_pid w = os_pid w0 \<and> os_has_cg w = os_has_cg w0 \<and> os_may w = os_may w0 \<and> os_now w0 \<le> os_now w
     \<and> 0 < os_pid w \<and> os_pid w \<in> set (os_used w) \<and> set (os_used w0) \<subseteq> set (os_used w)
     \<and> (\<forall>p t. os_tasks w p = Some t \<longrightarrow> p \<in> set (os_used w) \<and> (tk_cg t \<longrightarrow> os_has_cg w))
     \<and> (os_exited w \<longrightarrow> os_reaped w)
     \<and> (if os_reaped w then os_tasks w (os_pid w) = None
        else (\<exists>t. os_tasks w (os_pid w) = Some t \<and> tk_group t = os_pid w))"

lemma steadyD:
  assumes "steady w0 w"
  shows "os_pid w = os_pid w0" "os_has_cg w = os_has_cg w0" "os_may w = os_may w0" "os_now w0 \<le> os_now w" "0 < os_pid w"
    "os_pid w \<in> set (os_used w)" "set (os_used w0) \<subseteq> set (os_used w)" "os_exited w \<Longrightarrow> os_reaped w"
    "\<And>p t. os_tasks w p = Some t \<Longrightarrow> p \<in> set (os_used w)"
    "\<And>p t. os_tasks w p = Some t \<Longrightarrow> tk_cg t \<Longrightarrow> os_has_cg w"
    "os_reaped w \<Longrightarrow> os_tasks w (os_pid w) = None"
    "\<not> os_reaped w \<Longrightarrow> \<exists>t. os_tasks w (os_pid w) = Some t \<and> tk_group t = os_pid w"
  using assms by (auto simp: steady_def)

lemma steady_start: "may_stop w \<Longrightarrow> steady w w"
  by (auto simp: may_stop_def steady_def)

lemma os_steady_told: "steady w0 w \<Longrightarrow> told s P w w1 \<Longrightarrow> steady w0 w1"
  by (auto simp: told_def steady_def)

lemma steady_os:
  assumes "steady w0 w" "os_step m w = Some w1"
  shows "steady w0 w1"
proof -
  note d = steadyD[OF assms(1)]
  show ?thesis
  proof (cases m)
    case (Ends p)
    then obtain t where t: "task_of p w = Some t" using assms(2) by (auto split: option.split_asm)
    then have "w1 = w\<lparr>os_tasks := (os_tasks w)(p := (if p = os_pid w then Some (t\<lparr>tk_zombie := True\<rparr>) else None))\<rparr>"
      using assms(2) Ends by simp
    then show ?thesis using assms(1) t by (auto simp: steady_def task_of_Some)
  next
    case (Forks p c)
    then obtain t where t: "task_of p w = Some t" using assms(2) by (auto split: option.split_asm)
    then have w1: "w1 = w\<lparr>os_tasks := (os_tasks w)(c := Some t), os_used := c # os_used w\<rparr>" and c: "c \<notin> set (os_used w)"
      using assms(2) Forks by (simp_all split: if_split_asm)
    have "c \<noteq> os_pid w" using c d(6) by metis
    then show ?thesis using assms(1) t w1 by (auto simp: steady_def task_of_Some)
  next
    case (Leaves p g)
    then obtain t where t: "task_of p w = Some t" using assms(2) by (auto split: option.split_asm)
    then have "w1 = w\<lparr>os_tasks := (os_tasks w)(p := Some (t\<lparr>tk_group := g\<rparr>))\<rparr>" "p \<noteq> os_pid w"
      using assms(2) Leaves by (simp_all split: if_split_asm)
    then show ?thesis using assms(1) t by (auto simp: steady_def task_of_Some)
  next
    case Reaps
    then show ?thesis using assms by (auto simp: steady_def split: option.split_asm if_split_asm)
  qed (use assms in \<open>auto simp: steady_def split: if_split_asm\<close>)
qed

lemma cgroup_pids_iff: "steady w0 w \<Longrightarrow> p \<in> set (cgroup_pids w) \<longleftrightarrow> (\<exists>t. task_of p w = Some t \<and> tk_cg t)"
  using steadyD(9)[of w0 w p] by (auto simp: cgroup_pids_def task_of_def split: option.split if_split_asm)

lemma in_cgroup_has: "steady w0 w \<Longrightarrow> p \<in> set (cgroup_pids w) \<Longrightarrow> os_has_cg w"
  using cgroup_pids_iff[of w0 w p] steadyD(10)[of w0 w p] by (auto simp: task_of_Some)

lemma no_cgroup: "steady w0 w \<Longrightarrow> \<not> os_has_cg w \<Longrightarrow> cgroup_pids w = []"
  using in_cgroup_has[of w0 w "hd (cgroup_pids w)"] by (cases "cgroup_pids w") auto

lemma in_group_pids: "steady w0 w \<Longrightarrow> in_group w p \<Longrightarrow> p \<in> set (group_pids w)"
  using steadyD(9)[of w0 w p] by (auto simp: group_pids_def in_group_def task_of_Some split: option.split_asm option.split)

text \<open>Who a signal to the group reaches, and that it reaches them all unless the first process has been reaped.\<close>

lemma stop_signal_told:
  assumes "steady w0 w"
  shows "told s (\<lambda>p. in_group w p \<and> \<not> os_reaped w) w (stop_signal s w)"
proof (cases "os_reaped w")
  case True
  then show ?thesis by (auto simp: stop_signal_def signal_group_def intro: told_none)
next
  case False
  then obtain t where t: "os_tasks w (os_pid w) = Some t" "tk_group t = os_pid w" using steadyD(12)[OF assms] by blast
  have g: "in_group w (os_pid w)" if "task_of (os_pid w) w \<noteq> None"
    using that t by (auto simp: in_group_def task_of_def)
  show ?thesis using t False g steadyD(5)[OF assms]
    by (auto simp: stop_signal_def signal_group_def signal_leader_def intro!: told_send told_none)
qed

lemma stop_signal_reaches:
  assumes "steady w0 w" "\<not> os_reaped w" "in_group w p" "os_may w p"
  shows "(p, s, os_now w) \<in> set (os_sent (stop_signal s w))"
proof -
  have p: "p \<in> set (group_pids w)" using in_group_pids assms by blast
  then have "list_ex (os_may w) (group_pids w)" using assms(4) by (auto simp: list_ex_iff)
  then show ?thesis using assms p steadyD(5,12)[OF assms(1)] by (auto simp: stop_signal_def signal_group_def)
qed

lemma signal_cgroup_told:
  "steady w0 w \<Longrightarrow> told s (\<lambda>p. p \<in> set (cgroup_pids w)) w (signal_cgroup r s g w)"
  by (auto simp: signal_cgroup_def intro!: told_send told_none)

lemma signal_cgroup_reaches:
  "os_has_cg w \<Longrightarrow> p \<in> set (cgroup_pids w) \<Longrightarrow> os_may w p \<Longrightarrow> \<not> (g \<and> in_group w p) \<Longrightarrow>
   (p, s, os_now w) \<in> set (os_sent (signal_cgroup True s g w))"
  by (auto simp: signal_cgroup_def)

lemma sweep_told: "told Kill (\<lambda>p. p \<in> set (cgroup_pids w)) w (sweep_cgroup k w)"
  by (auto simp: sweep_cgroup_def intro!: told_send told_none)

section \<open>Runs\<close>

lemma stop_step_steady:
  assumes "steady w0 w" "stop_step v b pc w = Some (pc1, w1)"
  shows "steady w0 w1"
  using assms os_steady_told[OF assms(1) stop_signal_told[OF assms(1)]] os_steady_told[OF assms(1) signal_cgroup_told[OF assms(1)]]
    os_steady_told[OF assms(1) sweep_told]
  by (cases pc) (auto simp: Let_def split: if_split_asm)

lemma run_steady: "stop_run v calm w0 pc w \<Longrightarrow> may_stop w0 \<Longrightarrow> steady w0 w"
  by (induction rule: stop_run.induct) (auto intro: steady_start stop_step_steady steady_os)

text \<open>Nobody joins the group, and only what is in the cgroup and not doomed adds to it.\<close>

lemma os_group: "os_step m w = Some w1 \<Longrightarrow> in_group w1 p \<Longrightarrow> p \<in> set (os_used w) \<Longrightarrow> in_group w p"
  by (cases m) (auto simp: in_group_def task_of_def split: option.split_asm option.split if_split_asm)

lemma os_cgroup:
  assumes "steady w0 w" "os_step m w = Some w1" "p \<in> set (cgroup_pids w1)"
  shows "p \<in> set (cgroup_pids w) \<or> p \<notin> set (os_used w) \<and> (\<exists>q \<in> set (cgroup_pids w). \<not> doomed q w)"
proof -
  have "\<exists>t. task_of p w1 = Some t \<and> tk_cg t" using assms(3) cgroup_pids_iff[OF steady_os[OF assms(1,2)]] by blast
  then show ?thesis unfolding cgroup_pids_iff[OF assms(1)] using assms(2)
    by (cases m) (auto simp: cgroup_pids_iff[OF assms(1)] task_of_def split: option.split_asm if_split_asm)
qed

lemma os_same: "os_step m w = Some w1 \<Longrightarrow> os_sent w1 = os_sent w"
  by (cases m) (auto split: option.split_asm if_split_asm)

lemma os_flags:
  "os_step m w = Some w1 \<Longrightarrow> os_now w \<le> os_now w1"
  "os_step m w = Some w1 \<Longrightarrow> os_reaped w \<Longrightarrow> os_reaped w1"
  "os_step m w = Some w1 \<Longrightarrow> m \<noteq> Reaps \<Longrightarrow> os_reaped w1 = os_reaped w"
  by (cases m; auto split: option.split_asm if_split_asm)+

text \<open>What a step of the stop sends.\<close>

lemma step_sends:
  assumes "steady w0 w" "stop_step v b pc w = Some (pc1, w1)"
  obtains s ps where "w1 = send s ps w"
    and "s = Kill \<Longrightarrow> (\<exists>d. pc = SGrace d \<and> d \<le> os_now w \<and> (\<forall>p \<in> set ps. in_group w p \<and> \<not> os_reaped w))
          \<or> (\<exists>d. pc = SSweep d \<and> set ps \<subseteq> set (cgroup_pids w)) \<or> ps = []"
proof -
  have none: "w = send Term [] w" by (simp add: send_def)
  show ?thesis
  proof (cases pc)
    case (SLate d)
    then have "w1 = signal_cgroup (sn_readable v) Term False w" using assms(2) by simp
    then obtain ps where "w1 = send Term ps w" using toldE[OF signal_cgroup_told[OF assms(1), of Term "sn_readable v" False]] by metis
    then show ?thesis by (rule that) simp
  next
    case (SAsk d)
    then have "w1 = stop_signal Term w" using assms(2) by simp
    then obtain ps where "w1 = send Term ps w" using toldE[OF stop_signal_told[OF assms(1), of Term]] by metis
    then show ?thesis by (rule that) simp
  next
    case (SAskRest d)
    then have "w1 = signal_cgroup (sn_readable v) Term True w" using assms(2) by simp
    then obtain ps where "w1 = send Term ps w" using toldE[OF signal_cgroup_told[OF assms(1), of Term "sn_readable v" True]] by metis
    then show ?thesis by (rule that) simp
  next
    case (SHangup d u)
    then have "w1 = w \<or> w1 = stop_signal Hup w" using assms(2) by (auto split: if_split_asm)
    then show ?thesis
    proof
      assume "w1 = w"
      then show ?thesis using none that[of Term "[]"] by simp
    next
      assume "w1 = stop_signal Hup w"
      then obtain ps where "w1 = send Hup ps w" using toldE[OF stop_signal_told[OF assms(1), of Hup]] by metis
      then show ?thesis by (rule that) simp
    qed
  next
    case (SGrace d)
    then have "w1 = w \<or> w1 = stop_signal Kill w \<and> d \<le> os_now w" using assms(2) by (auto split: if_split_asm)
    then show ?thesis
    proof
      assume "w1 = w"
      then show ?thesis using none that[of Term "[]"] by simp
    next
      assume a: "w1 = stop_signal Kill w \<and> d \<le> os_now w"
      then obtain ps where "w1 = send Kill ps w" "\<forall>p \<in> set ps. in_group w p \<and> \<not> os_reaped w"
        using toldE[OF stop_signal_told[OF assms(1), of Kill]] by metis
      then show ?thesis using a SGrace by (intro that) auto
    qed
  next
    case (SSweep d)
    then have "w1 = sweep_cgroup (sn_kill_ok v) w" using assms(2) by simp
    then obtain ps where "w1 = send Kill ps w" "\<forall>p \<in> set ps. p \<in> set (cgroup_pids w)" using toldE[OF sweep_told[of w "sn_kill_ok v"]] by metis
    then show ?thesis using SSweep by (intro that) auto
  next
    case SDone
    then show ?thesis using assms(2) by simp
  qed (use assms(2) none that[of Term "[]"] in \<open>auto simp: Let_def split: if_split_asm\<close>)
qed

subsection \<open>The grace\<close>

fun deadline_of :: "stop_pc \<Rightarrow> int option" where
  "deadline_of (SLate d) = Some d"
| "deadline_of (SAsk d) = Some d"
| "deadline_of (SAskRest d) = Some d"
| "deadline_of (SHangup d u) = Some d"
| "deadline_of (SGrace d) = Some d"
| "deadline_of (SEmpty d) = Some d"
| "deadline_of (SNap d u) = Some d"
| "deadline_of (SSweep d) = Some d"
| "deadline_of pc = None"

lemma step_deadline:
  "stop_step v b pc w = Some (pc1, w1) \<Longrightarrow>
   deadline_of pc1 = None \<or> deadline_of pc1 = deadline_of pc \<or> pc = SBegin \<and> deadline_of pc1 = Some (os_now w + stop_grace)"
  by (cases pc) (auto simp: Let_def split: if_split_asm)

definition patient :: "stop_env \<Rightarrow> os \<Rightarrow> stop_pc \<Rightarrow> os \<Rightarrow> bool" where
  "patient v w0 pc w \<longleftrightarrow>
     (\<forall>p s t. (p, s, t) \<in> set (os_sent w) \<longrightarrow> t \<le> os_now w \<and> (s = Kill \<longrightarrow> os_now w0 + stop_grace \<le> t))
     \<and> (\<forall>d. deadline_of pc = Some d \<longrightarrow> os_now w0 + stop_grace \<le> d)
     \<and> (\<forall>d. pc = SSweep d \<longrightarrow> cgroup_pids w = [] \<or> d \<le> os_now w)"

lemma step_patient:
  assumes st: "steady w0 w" and p: "patient v w0 pc w" and r: "sn_readable v" and step: "stop_step v b pc w = Some (pc1, w1)"
  shows "patient v w0 pc1 w1"
proof -
  obtain s ps where w1: "w1 = send s ps w"
    and kill: "s = Kill \<Longrightarrow> (\<exists>d. pc = SGrace d \<and> d \<le> os_now w \<and> (\<forall>p \<in> set ps. in_group w p \<and> \<not> os_reaped w))
          \<or> (\<exists>d. pc = SSweep d \<and> set ps \<subseteq> set (cgroup_pids w)) \<or> ps = []"
    using step_sends[OF st step] by blast
  have late: "os_now w0 + stop_grace \<le> os_now w" if "s = Kill" "q \<in> set ps" for q
  proof -
    have "\<exists>d. deadline_of pc = Some d \<and> d \<le> os_now w"
      using kill[OF that(1)]
    proof (elim disjE exE conjE)
      fix d assume "pc = SGrace d" "d \<le> os_now w"
      then show ?thesis by simp
    next
      fix d assume "pc = SSweep d" "set ps \<subseteq> set (cgroup_pids w)"
      moreover have "cgroup_pids w = [] \<or> d \<le> os_now w" using p calculation(1) by (simp add: patient_def)
      ultimately show ?thesis using that(2) by auto
    qed (use that(2) in simp)
    then show ?thesis using p by (auto simp: patient_def)
  qed
  have sent: "t \<le> os_now w1 \<and> (x = Kill \<longrightarrow> os_now w0 + stop_grace \<le> t)" if "(q, x, t) \<in> set (os_sent w1)" for q x t
    using that w1 late p by (auto simp: patient_def)
  have due: "os_now w0 + stop_grace \<le> d" if "deadline_of pc1 = Some d" for d
    using step_deadline[OF step] that p steadyD(4)[OF st] by (auto simp: patient_def)
  have sweep: "cgroup_pids w1 = [] \<or> d \<le> os_now w1" if "pc1 = SSweep d" for d
  proof -
    have "w1 = w \<and> (\<not> os_has_cg w \<or> cgroup_pids w = [] \<or> d \<le> os_now w)"
      using step that r by (cases pc) (auto simp: Let_def split: if_split_asm)
    moreover have "\<not> os_has_cg w \<Longrightarrow> cgroup_pids w = []" using no_cgroup[OF st] .
    ultimately show ?thesis by auto
  qed
  show ?thesis unfolding patient_def using sent due sweep by blast
qed

lemma world_patient:
  assumes st: "steady w0 w" and p: "patient v w0 pc w" and step: "os_step m w = Some w1"
  shows "patient v w0 pc w1"
proof -
  have "cgroup_pids w1 = []" if "cgroup_pids w = []"
    using os_cgroup[OF st step, of "hd (cgroup_pids w1)"] that by (cases "cgroup_pids w1") auto
  then show ?thesis using p os_flags(1)[OF step] unfolding patient_def os_same[OF step] by fastforce
qed

lemma run_patient: "stop_run v calm w0 pc w \<Longrightarrow> may_stop w0 \<Longrightarrow> sn_readable v \<Longrightarrow> patient v w0 pc w"
proof (induction rule: stop_run.induct)
  case stop_begins
  then show ?case by (simp add: patient_def may_stop_def)
next
  case (stop_moves pc w b pc1 w1)
  then show ?case using step_patient run_steady by blast
next
  case (world_moves pc w m w1)
  then show ?case using world_patient run_steady by blast
qed

subsection \<open>Asking\<close>

definition told_to_end :: "int \<Rightarrow> os \<Rightarrow> bool" where
  "told_to_end p w \<longleftrightarrow> (\<exists>t. (p, Term, t) \<in> set (os_sent w))"

text \<open>How far the asking has come, for a process that was there from the start.\<close>

fun asked_by :: "stop_pc \<Rightarrow> int \<Rightarrow> os \<Rightarrow> bool" where
  "asked_by SBegin p w \<longleftrightarrow> os_reaped w \<longrightarrow> os_exited w"
| "asked_by (SLate d) p w \<longleftrightarrow> os_reaped w"
| "asked_by (SAsk d) p w \<longleftrightarrow> \<not> os_reaped w"
| "asked_by (SAskRest d) p w \<longleftrightarrow> in_group w p \<longrightarrow> told_to_end p w"
| "asked_by pc p w \<longleftrightarrow> (p \<in> set (cgroup_pids w) \<or> in_group w p \<and> \<not> os_reaped w) \<longrightarrow> told_to_end p w"

lemma step_asked:
  assumes st: "steady w0 w" and r: "sn_readable v" and may: "os_may w p" and step: "stop_step v b pc w = Some (pc1, w1)"
    and a: "asked_by pc p w"
  shows "asked_by pc1 p w1"
proof -
  obtain s ps where w1: "w1 = send s ps w" using step_sends[OF st step] by blast
  then have same: "cgroup_pids w1 = cgroup_pids w" "in_group w1 p = in_group w p" "os_reaped w1 = os_reaped w" "os_exited w1 = os_exited w"
    by simp_all
  have keep: "told_to_end p w \<Longrightarrow> told_to_end p w1" using w1 by (auto simp: told_to_end_def)
  note has = in_cgroup_has[OF st, of p]
  show ?thesis
  proof (cases pc)
    case SBegin
    show ?thesis
    proof (cases "os_exited w")
      case True
      then have "os_reaped w" by (rule steadyD(8)[OF st])
      then show ?thesis using step SBegin True by (auto simp: Let_def)
    next
      case False
      then have "\<not> os_reaped w" using a SBegin by simp
      then show ?thesis using step SBegin False by (auto simp: Let_def)
    qed
  next
    case (SLate d)
    have pc1: "pc1 = SEmpty d" and w2: "w1 = signal_cgroup True Term False w" using step SLate r by auto
    have "told_to_end p w1" if "p \<in> set (cgroup_pids w)"
      using signal_cgroup_reaches[OF has[OF that] that may, of False Term] w2 unfolding told_to_end_def by auto
    then show ?thesis using a same unfolding SLate pc1 by simp
  next
    case (SAsk d)
    have pc1: "pc1 = SAskRest d" and w2: "w1 = stop_signal Term w" using step SAsk by auto
    have "told_to_end p w1" if "in_group w p"
      using stop_signal_reaches[OF st _ that may, of Term] a w2 unfolding SAsk told_to_end_def by auto
    then show ?thesis using same unfolding pc1 by simp
  next
    case (SAskRest d)
    obtain u where pc1: "pc1 = SHangup d u" and w2: "w1 = signal_cgroup True Term True w" using step SAskRest r by auto
    have "told_to_end p w1" if "p \<in> set (cgroup_pids w)" "\<not> in_group w p"
      using signal_cgroup_reaches[OF has[OF that(1)] that(1) may, of True Term] that(2) w2 unfolding told_to_end_def by auto
    then show ?thesis using a same keep unfolding SAskRest pc1 by (cases "in_group w p") simp_all
  next
    case SDone
    then show ?thesis using step by simp
  next
    case (SHangup d u)
    then have "pc1 = SEmpty d \<or> pc1 = SGrace d" using step by (auto split: if_split_asm)
    then show ?thesis using a same keep unfolding SHangup by auto
  next
    case (SGrace d)
    then have "pc1 = SEmpty d" using step by (auto split: if_split_asm)
    then show ?thesis using a same keep unfolding SGrace by auto
  next
    case (SEmpty d)
    then have "pc1 = SSweep d \<or> (\<exists>u. pc1 = SNap d u)" using step by (auto split: if_split_asm)
    then show ?thesis using a same keep unfolding SEmpty by auto
  next
    case (SNap d u)
    then have "pc1 = SEmpty d" using step by (auto split: if_split_asm)
    then show ?thesis using a same keep unfolding SNap by auto
  next
    case (SSweep d)
    then have "pc1 = SJoin" using step by auto
    then show ?thesis using a same keep unfolding SSweep by auto
  next
    case SJoin
    then have "pc1 = SDone" using step by (auto split: if_split_asm)
    then show ?thesis using a same keep unfolding SJoin by auto
  qed
qed

lemma world_asked:
  assumes st: "steady w0 w" and p: "p \<in> set (os_used w0)" and step: "os_step m w = Some w1"
    and calm: "m = Reaps \<longrightarrow> pc \<noteq> SBegin \<and> (\<forall>d. pc \<noteq> SAsk d)" and a: "asked_by pc p w"
  shows "asked_by pc p w1"
proof -
  have u: "p \<in> set (os_used w)" using steadyD(7)[OF st] p by blast
  have g: "in_group w1 p \<Longrightarrow> in_group w p" using os_group[OF step _ u] .
  have c: "p \<in> set (cgroup_pids w1) \<Longrightarrow> p \<in> set (cgroup_pids w)" using os_cgroup[OF st step] u by blast
  have t: "told_to_end p w1 = told_to_end p w" using os_same[OF step] by (simp add: told_to_end_def)
  have e: "os_exited w \<Longrightarrow> os_exited w1" using step by (cases m) (auto split: option.split_asm if_split_asm)
  show ?thesis using a g c t e calm os_flags(2,3)[OF step] by (cases pc) auto
qed

lemma run_asked:
  assumes "stop_run v True w0 pc w" "may_stop w0" "sn_readable v" "os_reaped w0 \<longrightarrow> os_exited w0" "p \<in> set (os_used w0)" "os_may w0 p"
  shows "asked_by pc p w"
  using assms(1)
proof (induction rule: stop_run.induct)
  case stop_begins
  then show ?case using assms(4) by simp
next
  case (stop_moves pc w b pc1 w1)
  have st: "steady w0 w" using run_steady[OF stop_moves(1) assms(2)] .
  then have "os_may w p" using steadyD(3) assms(6) by metis
  then show ?case using step_asked[OF st assms(3) _ stop_moves(2,3)] by blast
next
  case (world_moves pc w m w1)
  then show ?case using world_asked[OF run_steady[OF world_moves(1) assms(2)] assms(5)] by blast
qed

text \<open>Whoever is killed has been asked before.\<close>

lemma killed_was_asked:
  assumes run: "stop_run v True w0 pc w" and env: "may_stop w0" "sn_readable v" "os_reaped w0 \<longrightarrow> os_exited w0"
    and p: "p \<in> set (os_used w0)" "os_may w0 p" and k: "(p, Kill, t) \<in> set (os_sent w)"
  shows "\<exists>t1 \<le> t. (p, Term, t1) \<in> set (os_sent w)"
  using run k
proof (induction rule: stop_run.induct)
  case stop_begins
  then show ?case using env(1) by (simp add: may_stop_def)
next
  case (stop_moves pc w b pc1 w1)
  have st: "steady w0 w" using run_steady[OF stop_moves(1) env(1)] .
  obtain s ps where w1: "w1 = send s ps w"
    and kill: "s = Kill \<Longrightarrow> (\<exists>d. pc = SGrace d \<and> d \<le> os_now w \<and> (\<forall>p \<in> set ps. in_group w p \<and> \<not> os_reaped w))
          \<or> (\<exists>d. pc = SSweep d \<and> set ps \<subseteq> set (cgroup_pids w)) \<or> ps = []"
    using step_sends[OF st stop_moves(2)] by blast
  show ?case
  proof (cases "(p, Kill, t) \<in> set (os_sent w)")
    case True
    then show ?thesis using stop_moves.IH w1 by auto
  next
    case False
    then have new: "s = Kill" "p \<in> set ps" "t = os_now w" using stop_moves.prems w1 by auto
    have "asked_by pc p w" using run_asked[OF stop_moves(1) env p] .
    then have "told_to_end p w" using kill[OF new(1)] new(2) by auto
    then obtain t1 where "(p, Term, t1) \<in> set (os_sent w)" by (auto simp: told_to_end_def)
    moreover have "t1 \<le> t" using run_patient[OF stop_moves(1) env(1,2)] calculation new(3) by (auto simp: patient_def)
    ultimately show ?thesis using w1 by auto
  qed
next
  case (world_moves pc w m w1)
  then show ?case using os_same[OF world_moves(2)] by simp
qed

subsection \<open>Nothing stays\<close>

lemma run_swept:
  assumes "stop_run v calm w0 pc w" "may_stop w0" "sn_kill_ok v" "pc \<in> {SJoin, SDone}" "p \<in> set (cgroup_pids w)"
  shows "doomed p w"
  using assms(1,4,5)
proof (induction arbitrary: p rule: stop_run.induct)
  case stop_begins
  then show ?case by simp
next
  case (stop_moves pc w b pc1 w1)
  have st: "steady w0 w" using run_steady[OF stop_moves(1) assms(2)] .
  show ?case
  proof (cases pc)
    case (SSweep d)
    then have w1: "w1 = sweep_cgroup True w" using stop_moves(2) assms(3) by simp
    have p: "p \<in> set (cgroup_pids w)" using stop_moves.prems w1 by (auto simp: sweep_cgroup_def split: if_split_asm)
    then have "os_has_cg w" using in_cgroup_has[OF st] by blast
    then show ?thesis using w1 p by (force simp: sweep_cgroup_def doomed_def list_ex_iff)
  next
    case SJoin
    then show ?thesis using stop_moves by (auto split: if_split_asm)
  qed (use stop_moves in \<open>auto simp: Let_def split: if_split_asm\<close>)
next
  case (world_moves pc w m w1)
  have st: "steady w0 w" using run_steady[OF world_moves(1) assms(2)] .
  have "p \<in> set (cgroup_pids w)" using os_cgroup[OF st world_moves(2) world_moves.prems(2)] world_moves.IH world_moves.prems(1) by blast
  then show ?case using world_moves.IH world_moves.prems(1) os_same[OF world_moves(2)] by (simp add: doomed_def)
qed


text \<open>
  C8. Stopping a service stops all of it: when a stop is over, and the kernel kills a cgroup when it is told to, there is no
  process left in the service's cgroup but those that are being killed, whatever forked, left the group or ended meanwhile;
  and its first process has ended.
\<close>

theorem stopped_is_all_of_it:
  assumes "stop_run v calm w0 SDone w" "may_stop w0" "sn_kill_ok v"
  shows "list_all (\<lambda>p. doomed p w) (cgroup_pids w) \<and> os_reaped w"
proof -
  have "os_exited w"
    using assms(1)
  proof (induction "SDone" w rule: stop_run.induct)
    case (stop_moves pc w b w1)
    then show ?case by (cases pc) (auto simp: Let_def split: if_split_asm)
  next
    case (world_moves w m w1)
    then show ?case by (cases m) (auto split: option.split_asm if_split_asm)
  qed
  then show ?thesis using run_swept[OF assms(1-3)] steadyD(8)[OF run_steady[OF assms(1,2)]] by (auto simp: list_all_iff)
qed

lemma run_nap: "stop_run v calm w0 pc w \<Longrightarrow> pc = SNap d u \<Longrightarrow> u < d + poll_every"
proof (induction rule: stop_run.induct)
  case (stop_moves pc w b pc1 w1)
  then show ?case by (cases pc) (auto simp: Let_def split: if_split_asm)
qed simp_all

text \<open>A stop on its own, step by step for as long as it goes on.\<close>

fun go_on :: "stop_env \<Rightarrow> bool \<Rightarrow> nat \<Rightarrow> stop_pc \<times> os \<Rightarrow> stop_pc \<times> os" where
  "go_on v b 0 s = s"
| "go_on v b (Suc n) s = (case stop_step v b (fst s) (snd s) of None \<Rightarrow> s | Some s1 \<Rightarrow> go_on v b n s1)"

lemma go_on_done [simp]: "go_on v b n (SDone, w) = (SDone, w)"
  by (cases n) simp_all

text \<open>Every step of a stop that is past its deadline brings it nearer to its end.\<close>

fun steps_left :: "stop_pc \<Rightarrow> nat" where
  "steps_left SBegin = 8"
| "steps_left (SLate d) = 4"
| "steps_left (SAsk d) = 7"
| "steps_left (SAskRest d) = 6"
| "steps_left (SHangup d u) = 5"
| "steps_left (SGrace d) = 4"
| "steps_left (SEmpty d) = 3"
| "steps_left (SNap d u) = 4"
| "steps_left (SSweep d) = 2"
| "steps_left SJoin = 1"
| "steps_left SDone = 0"

definition past :: "stop_pc \<Rightarrow> os \<Rightarrow> bool" where
  "past pc w \<longleftrightarrow> os_exited w \<and> pc \<noteq> SBegin \<and> (\<forall>d. deadline_of pc = Some d \<longrightarrow> d \<le> os_now w) \<and> (\<forall>d u. pc = SNap d u \<longrightarrow> u \<le> os_now w)"

lemma past_step:
  assumes st: "steady w0 w" and p: "past pc w" and more: "pc \<noteq> SDone"
  shows "\<exists>pc1 w1. stop_step v b pc w = Some (pc1, w1) \<and> past pc1 w1 \<and> steps_left pc1 < steps_left pc"
proof -
  have goes: "stop_step v b pc w \<noteq> None"
    using p more by (cases pc) (auto simp: past_def)
  then obtain pc1 w1 where step: "stop_step v b pc w = Some (pc1, w1)" by auto
  obtain s ps where w1: "w1 = send s ps w" using step_sends[OF st step] by blast
  have less: "steps_left pc1 < steps_left pc \<and> (\<forall>d u. pc1 \<noteq> SNap d u) \<and> pc1 \<noteq> SBegin"
    using step p by (cases pc) (auto simp: past_def Let_def split: if_split_asm)
  have "past pc1 w1" using p less step_deadline[OF step] by (auto simp: past_def w1)
  then show ?thesis using step less by blast
qed

lemma past_ends: "steady w0 w \<Longrightarrow> past pc w \<Longrightarrow> steps_left pc \<le> n \<Longrightarrow> fst (go_on v b n (pc, w)) = SDone"
proof (induction n arbitrary: pc w)
  case 0
  then show ?case by (cases pc) simp_all
next
  case (Suc n)
  show ?case
  proof (cases "pc = SDone")
    case False
    then obtain pc1 w1 where s: "stop_step v b pc w = Some (pc1, w1)" "past pc1 w1" "steps_left pc1 < steps_left pc"
      using past_step Suc.prems(1,2) by blast
    then show ?thesis using Suc.IH[OF stop_step_steady[OF Suc.prems(1) s(1)] s(2)] Suc.prems(3) by simp
  qed simp
qed

text \<open>
  C10. A stop comes to its end: once the exit of the first process has been published and the grace is over, no step of it
  waits for anything any more, and it is through after seven of them, wherever it was and whatever is left of the service.
\<close>

theorem a_stop_ends:
  assumes "stop_run v calm w0 pc w" "may_stop w0" "os_exited w" "deadline_of pc = Some d" "d + poll_every \<le> os_now w"
  shows "fst (go_on v b 7 (pc, w)) = SDone"
proof -
  have "past pc w" using assms(3-5) run_nap[OF assms(1)] by (cases pc) (auto simp: past_def poll_every_def)
  moreover have "steps_left pc \<le> 7" using assms(4) by (cases pc) simp_all
  ultimately show ?thesis using past_ends run_steady[OF assms(1,2)] by blast
qed

section \<open>A stop\<close>

text \<open>A run as a list: \<open>Inl b\<close> is a step of the stop, \<open>Inr m\<close> a move of the world.\<close>

fun follow :: "stop_env \<Rightarrow> (bool + os_move) list \<Rightarrow> stop_pc \<times> os \<Rightarrow> (stop_pc \<times> os) option" where
  "follow v [] s = Some s"
| "follow v (Inl b # es) s = Option.bind (stop_step v b (fst s) (snd s)) (follow v es)"
| "follow v (Inr m # es) s = Option.bind (os_step m (snd s)) (\<lambda>w. follow v es (fst s, w))"

definition reaped_late :: "stop_pc \<Rightarrow> bool" where
  "reaped_late pc \<longleftrightarrow> (case pc of SBegin \<Rightarrow> False | SAsk d \<Rightarrow> False | _ \<Rightarrow> True)"

lemma follow_run:
  assumes "stop_run v False w0 pc w" "follow v es (pc, w) = Some (pc1, w1)"
  shows "stop_run v False w0 pc1 w1"
  using assms
proof (induction es arbitrary: pc w)
  case (Cons e es)
  show ?case
  proof (cases e)
    case (Inl b)
    then obtain pc2 w2 where s: "stop_step v b pc w = Some (pc2, w2)" "follow v es (pc2, w2) = Some (pc1, w1)"
      using Cons.prems(2) by (auto simp: bind_eq_Some_conv)
    show ?thesis by (rule Cons.IH[OF stop_moves[OF Cons.prems(1) s(1)] s(2)])
  next
    case (Inr m)
    then obtain w2 where s: "os_step m w = Some w2" "follow v es (pc, w2) = Some (pc1, w1)"
      using Cons.prems(2) by (auto simp: bind_eq_Some_conv)
    have "stop_run v False w0 pc w2" by (rule world_moves[OF Cons.prems(1) s(1)]) simp
    then show ?thesis using Cons.IH s(2) by blast
  qed
qed simp

text \<open>No reaping until the asking has begun: the run is calm.\<close>

lemma follow_calm:
  assumes "stop_run v True w0 pc w" "reaped_late pc" "follow v es (pc, w) = Some (pc1, w1)"
  shows "stop_run v True w0 pc1 w1"
  using assms
proof (induction es arbitrary: pc w)
  case (Cons e es)
  show ?case
  proof (cases e)
    case (Inl b)
    then obtain pc2 w2 where s: "stop_step v b pc w = Some (pc2, w2)" "follow v es (pc2, w2) = Some (pc1, w1)"
      using Cons.prems(3) by (auto simp: bind_eq_Some_conv)
    have "reaped_late pc2" using s(1) Cons.prems(2) by (cases pc) (auto simp: reaped_late_def split: if_split_asm)
    then show ?thesis using Cons.IH[OF stop_moves[OF Cons.prems(1) s(1)]] s(2) by blast
  next
    case (Inr m)
    then obtain w2 where s: "os_step m w = Some w2" "follow v es (pc, w2) = Some (pc1, w1)"
      using Cons.prems(3) by (auto simp: bind_eq_Some_conv)
    have "stop_run v True w0 pc w2" by (rule world_moves[OF Cons.prems(1) s(1)]) (use Cons.prems(2) in \<open>auto simp: reaped_late_def\<close>)
    then show ?thesis using Cons.IH Cons.prems(2) s(2) by blast
  qed
qed simp

text \<open>A shell that ends when asked, and a child of it that does not, both in a cgroup.\<close>

definition shell_and_child :: os where
  "shell_and_child =
     \<lparr>os_pid = 10, os_has_cg = True, os_may = (\<lambda>p. True), os_reaped = False, os_exited = False,
      os_tasks = [10 \<mapsto> \<lparr>tk_group = 10, tk_cg = True, tk_zombie = False\<rparr>, 11 \<mapsto> \<lparr>tk_group = 10, tk_cg = True, tk_zombie = False\<rparr>],
      os_used = [10, 11], os_now = 0, os_sent = []\<rparr>"

definition plain_stop :: stop_env where
  "plain_stop = \<lparr>sn_readable = True, sn_kill_ok = True\<rparr>"

definition sample_stop :: "(bool + os_move) list" where
  "sample_stop = [Inr (Ends 10), Inr Reaps, Inr Publishes, Inl True, Inl True, Inr (Tick 6000000000), Inl True, Inl True, Inl True]"

lemma sample_stops:
  obtains w where "stop_run plain_stop True shell_and_child SDone w"
    and "os_sent w = [(10, Term, 0), (11, Term, 0), (11, Kill, 6000000000)]"
proof -
  have ask: "stop_run plain_stop True shell_and_child (SAsk stop_grace) shell_and_child"
    by (rule stop_moves[OF stop_begins, where b = True]) (simp add: shell_and_child_def)
  have asked: "stop_run plain_stop True shell_and_child (SAskRest stop_grace) (stop_signal Term shell_and_child)"
    by (rule stop_moves[OF ask, where b = True]) simp
  obtain w where w: "follow plain_stop sample_stop (SAskRest stop_grace, stop_signal Term shell_and_child) = Some (SDone, w)"
      "os_sent w = [(10, Term, 0), (11, Term, 0), (11, Kill, 6000000000)]"
    by (simp add: sample_stop_def shell_and_child_def stop_signal_def signal_group_def group_pids_def in_group_def task_of_def
        send_def signal_cgroup_def cgroup_pids_def sweep_cgroup_def plain_stop_def stop_grace_def hangup_after_def poll_every_def)
  show ?thesis using follow_calm[OF asked _ w(1)] w(2) by (intro that) (simp_all add: reaped_late_def)
qed

lemma sample_may: "may_stop shell_and_child"
  by (simp add: may_stop_def shell_and_child_def)


lemma stopped_is_all_of_it_witness:
  "\<exists>w. stop_run plain_stop True shell_and_child SDone w \<and> list_all (\<lambda>p. doomed p w) (cgroup_pids w) \<and> os_reaped w"
proof -
  obtain w where w: "stop_run plain_stop True shell_and_child SDone w"
      "os_sent w = [(10, Term, 0), (11, Term, 0), (11, Kill, 6000000000)]" by (rule sample_stops)
  then show ?thesis using stopped_is_all_of_it[OF w(1) sample_may] by (auto simp: plain_stop_def)
qed

text \<open>The same shell, with its exit published, long after the stop began.\<close>

definition late :: os where
  "late = shell_and_child\<lparr>os_reaped := True, os_exited := True, os_tasks := Map.empty\<rparr>"

lemma a_stop_ends_witness:
  "fst (go_on plain_stop True 7 (SLate stop_grace, late\<lparr>os_now := 6000000000\<rparr>)) = SDone"
proof -
  have b: "stop_run plain_stop False late (SLate stop_grace) late"
    by (rule stop_moves[OF stop_begins, where b = True]) (simp add: late_def shell_and_child_def)
  have "os_step (Tick 6000000000) late = Some (late\<lparr>os_now := 6000000000\<rparr>)" by (simp add: late_def shell_and_child_def)
  then have "stop_run plain_stop False late (SLate stop_grace) (late\<lparr>os_now := 6000000000\<rparr>)" by (rule world_moves[OF b]) simp
  moreover have "may_stop late" by (simp add: late_def shell_and_child_def may_stop_def)
  moreover have "stop_grace + poll_every \<le> 6000000000" by (simp add: stop_grace_def poll_every_def)
  ultimately show ?thesis by (intro a_stop_ends[where d = stop_grace]) (simp_all add: late_def)
qed

text \<open>
  Between the reaping of the first process and its exit being published - as long as something else holds the terminal
  open, up to two and a quarter seconds - the group cannot be signalled any more, and its members are passed over in the
  cgroup as if it had been: they get no SIGTERM, sit out the grace and are killed.
\<close>

lemma passed_over_in_between:
  "\<exists>w. stop_run plain_stop False (shell_and_child\<lparr>os_reaped := True, os_tasks := (os_tasks shell_and_child)(10 := None)\<rparr>) SDone w
     \<and> os_sent w = [(11, Kill, 6000000000)]"
proof -
  let ?w = "shell_and_child\<lparr>os_reaped := True, os_tasks := (os_tasks shell_and_child)(10 := None)\<rparr>"
  obtain w where w: "follow plain_stop [Inl True, Inl True, Inl True, Inr Publishes, Inl True, Inr (Tick 6000000000), Inl True, Inl True, Inl True]
      (SBegin, ?w) = Some (SDone, w)" "os_sent w = [(11, Kill, 6000000000)]"
    by (simp add: shell_and_child_def stop_signal_def signal_group_def group_pids_def in_group_def task_of_def
        send_def signal_cgroup_def cgroup_pids_def sweep_cgroup_def plain_stop_def stop_grace_def hangup_after_def poll_every_def)
  show ?thesis using follow_run[OF stop_begins w(1)] w(2) by blast
qed

end
