(* ===== verification/ProcInfo.thy ===== *)
theory ProcInfo
  imports Settings
begin

text \<open>
  What the daemon and its client read from \<open>/proc\<close>: when a process started (\<open>src/internal/fabric/procstart.go\<close>), from
  whom it descends (\<open>ancestry.go\<close>), and which cgroup it is in and whether that one is the daemon's to kill
  (\<open>cgroup.go\<close>). The contents of the files are arguments, \<open>None\<close> for one that cannot be read.
\<close>

section \<open>The stat file\<close>

text \<open>The fields after the name of the program, which is between parentheses and may hold anything.\<close>

fun after_last :: "byte \<Rightarrow> bytes \<Rightarrow> bytes option" where
  "after_last x [] = None"
| "after_last x (c # cs) = (case after_last x cs of Some r \<Rightarrow> Some r | None \<Rightarrow> if c = x then Some cs else None)"

definition stat_fields :: "bytes \<Rightarrow> bytes list option" where
  "stat_fields body = (case after_last 0x29 body of None \<Rightarrow> None | Some r \<Rightarrow> if length r < 2 then None else Some (go_fields (tl r)))"

text \<open>Field 22 is the start in ticks; it is the twentieth of them. Field 4 is the parent.\<close>

definition start_index :: nat where "start_index = 22 - 3"

definition start_ticks :: "bytes option \<Rightarrow> int option" where
  "start_ticks file =
     (case Option.bind file stat_fields of
        None \<Rightarrow> None
      | Some fs \<Rightarrow> if length fs \<le> start_index then None
                  else (case atoi (fs ! start_index) of (n, number) \<Rightarrow> if number then Some n else None))"

definition parent_of :: "bytes option \<Rightarrow> int option" where
  "parent_of file =
     (case Option.bind file stat_fields of
        None \<Rightarrow> None
      | Some fs \<Rightarrow> if length fs < 2 then None else (case atoi (fs ! 1) of (n, number) \<Rightarrow> if number then Some n else None))"

text \<open>The first line with the time of the boot decides.\<close>

fun boot_line :: "bytes list \<Rightarrow> int option" where
  "boot_line [] = None"
| "boot_line (l # ls) =
     (if starts_with (bstr ''btime '') l
      then (case atoi (trim_space (drop 6 l)) of (n, number) \<Rightarrow> if number then Some n else None)
      else boot_line ls)"

definition boot_time :: "bytes option \<Rightarrow> int option" where
  "boot_time file = (case file of None \<Rightarrow> None | Some body \<Rightarrow> boot_line (split_on 0x0a body))"

definition user_hz :: int where "user_hz = 100"

text \<open>Seconds and ticks in nanoseconds, in 64 bits; a duration is divided towards zero.\<close>

definition go_div :: "int \<Rightarrow> int \<Rightarrow> int" where
  "go_div a b = (if a < 0 then - ((- a) div b) else a div b)"

definition process_start :: "bytes option \<Rightarrow> bytes option \<Rightarrow> int option" where
  "process_start stat_file pid_file =
     (case boot_time stat_file of
        None \<Rightarrow> None
      | Some boot \<Rightarrow>
          (case start_ticks pid_file of
             None \<Rightarrow> None
           | Some ticks \<Rightarrow> Some (boot * 1000000000 + go_div (wrap64 (ticks * 1000000000)) user_hz)))"

subsection \<open>What a program is called does not matter\<close>

lemma after_last_none: "x \<notin> set r \<Longrightarrow> after_last x r = None"
  by (induction r) auto

lemma after_last_append: "x \<notin> set r \<Longrightarrow> after_last x (a @ x # r) = Some r"
  by (induction a) (auto simp: after_last_none)

lemma stat_fields_name:
  assumes "0x29 \<notin> set r" "r \<noteq> []"
  shows "stat_fields (a @ 0x29 # 0x20 # r) = Some (go_fields r)"
proof -
  have "after_last 0x29 (a @ 0x29 # (0x20 # r)) = Some (0x20 # r)" by (rule after_last_append) (use assms(1) in simp)
  moreover have "\<not> length (0x20 # r) < 2" using assms(2) by (cases r) simp_all
  ultimately show ?thesis by (simp add: stat_fields_def)
qed

text \<open>
  A line of \<open>/proc/<pid>/stat\<close>, as the kernel writes it: the id, the name between parentheses, and the other fields, which
  are visible characters without a closing parenthesis, one space apart.
\<close>

definition plain :: "bytes \<Rightarrow> bool" where
  "plain f \<longleftrightarrow> f \<noteq> [] \<and> list_all (\<lambda>c. 0x21 \<le> c \<and> c \<le> 0x7e \<and> c \<noteq> 0x29) f"

definition stat_line :: "int \<Rightarrow> bytes \<Rightarrow> bytes list \<Rightarrow> bytes" where
  "stat_line pid name fs = itoa pid @ bstr '' ('' @ name @ 0x29 # 0x20 # join_with [0x20] fs @ [0x0a]"

lemma white_space_hidden: "list_all (\<lambda>p. p \<noteq> [] \<and> \<not> (0x21 \<le> hd p \<and> hd p \<le> 0x7e)) white_space"
  by code_simp

lemma leading_visible:
  assumes "0x21 \<le> c" "c \<le> 0x7e"
  shows "leading white_space (c # cs) = 0"
proof -
  have "\<not> starts_with p (c # cs)" if m: "p \<in> set white_space" for p
  proof
    assume "starts_with p (c # cs)"
    moreover obtain a as where p: "p = a # as" "\<not> (0x21 \<le> a \<and> a \<le> 0x7e)"
      using bspec[OF white_space_hidden[unfolded list_all_iff] m] by (cases p) auto
    ultimately show False using assms by (simp add: starts_with_def)
  qed
  then show ?thesis by (auto simp: leading_def find_None_iff find_Some_iff split: option.split)
qed

lemma leading_blank: "leading white_space (0x20 # cs) = 1" "leading white_space (0x0a # cs) = 1"
  by (simp_all add: leading_def white_space_def starts_with_def)

lemma fields_word:
  assumes "list_all (\<lambda>c. 0x21 \<le> c \<and> c \<le> 0x7e) w" "c = 0x20 \<or> c = 0x0a"
  shows "fields_from acc (w @ c # cs) = (if acc = [] \<and> w = [] then [] else [rev acc @ w]) @ fields_from [] cs"
  using assms(1)
proof (induction w arbitrary: acc)
  case Nil
  then show ?case using assms(2) by (auto simp: leading_blank)
qed (simp add: leading_visible)

lemma plain_visible: "plain f \<Longrightarrow> f \<noteq> [] \<and> list_all (\<lambda>c. 0x21 \<le> c \<and> c \<le> 0x7e) f"
  by (auto simp: plain_def list_all_iff)

lemma fields_of_join: "list_all plain fs \<Longrightarrow> go_fields (join_with [0x20] fs @ [0x0a]) = fs"
proof (induction fs)
  case Nil
  then show ?case by (simp add: go_fields_def leading_blank)
next
  case (Cons f fs)
  have p: "f \<noteq> []" "list_all (\<lambda>c. 0x21 \<le> c \<and> c \<le> 0x7e) f" using Cons.prems plain_visible by auto
  show ?case
  proof (cases fs)
    case Nil
    then show ?thesis using fields_word[OF p(2), where c = "0x0a" and acc = "[]" and cs = "[]"] p(1) by (simp add: go_fields_def)
  next
    case (Cons g gs)
    then show ?thesis using fields_word[OF p(2), where c = "0x20" and acc = "[]" and cs = "join_with [0x20] fs @ [0x0a]"] p(1) Cons.IH Cons.prems
      by (simp add: go_fields_def)
  qed
qed

lemma join_keeps: "c \<noteq> 0x20 \<Longrightarrow> list_all (\<lambda>f. c \<notin> set f) fs \<Longrightarrow> c \<notin> set (join_with [0x20] fs)"
proof (induction fs)
  case (Cons f fs)
  then show ?case by (cases fs) auto
qed simp

lemma plain_itoa: "0 \<le> n \<Longrightarrow> plain (itoa n)"
  using nat_digits_digits[of "nat n"]
  by (auto simp: plain_def itoa_def list_all_iff is_digit_def intro: order.trans[of "0x21::byte" "0x30"] order.trans[of _ "0x39::byte"])

lemma stat_fields_line:
  assumes "list_all plain fs"
  shows "stat_fields (stat_line pid name fs) = Some fs"
proof -
  have "0x29 \<notin> set (join_with [0x20] fs @ [0x0a])"
    using assms join_keeps[of "0x29" fs] by (auto simp: plain_def list_all_iff)
  from stat_fields_name[OF this, of "itoa pid @ bstr '' ('' @ name"] fields_of_join[OF assms]
  show ?thesis by (simp add: stat_line_def)
qed

text \<open>
  C14. A process is read right whatever its program is called: from a line of the process table with any bytes for the name
  (spaces, parentheses, numbers and all), the parent that is read is the fourth field of the line and the start is the
  twenty-second: the state, the parent, seventeen fields, the start, and whatever else the kernel adds.
\<close>

theorem names_do_not_mislead:
  assumes "list_all plain (state # mid @ others)" "length mid = 17"
    and "0 \<le> parent" "parent \<le> max_int64" "0 \<le> start" "start \<le> max_int64"
  shows "parent_of (Some (stat_line pid name (state # itoa parent # mid @ itoa start # others))) = Some parent
     \<and> start_ticks (Some (stat_line pid name (state # itoa parent # mid @ itoa start # others))) = Some start"
proof -
  let ?fs = "state # itoa parent # mid @ itoa start # others"
  have f: "stat_fields (stat_line pid name ?fs) = Some ?fs"
    by (rule stat_fields_line) (use assms plain_itoa in simp)
  have "?fs ! start_index = itoa start" using assms(2) by (simp add: start_index_def nth_append)
  then show ?thesis using f assms(3-6) atoi_itoa by (simp add: parent_of_def start_ticks_def start_index_def assms(2))
qed

definition weird_line :: bytes where
  "weird_line = stat_line 17 (bstr ''a) S 99 (b'') (bstr ''S'' # itoa 4 # replicate 17 (bstr ''0'') @ itoa 12345 # [bstr ''7''])"

lemma names_do_not_mislead_witness: "parent_of (Some weird_line) = Some 4 \<and> start_ticks (Some weird_line) = Some 12345"
  unfolding weird_line_def
  by (rule names_do_not_mislead) (simp_all add: plain_def bstr_def max_int64_def list_all_iff)

section \<open>Ancestry\<close>

text \<open>\<open>parent p\<close> is what \<open>parentOf\<close> answers for \<open>p\<close> when it is asked.\<close>

definition ancestry_limit :: nat where "ancestry_limit = 4096"

fun climb :: "(int \<Rightarrow> int option) \<Rightarrow> nat \<Rightarrow> int \<Rightarrow> int \<Rightarrow> bool" where
  "climb parent 0 pid anc = False"
| "climb parent (Suc i) pid anc =
     (if pid \<le> 1 then False
      else if pid = anc then True
      else (case parent pid of None \<Rightarrow> False | Some p \<Rightarrow> climb parent i p anc))"

definition descends_from :: "(int \<Rightarrow> int option) \<Rightarrow> int \<Rightarrow> int \<Rightarrow> bool" where
  "descends_from parent pid anc = (if anc \<le> 1 \<or> pid \<le> 0 then False else climb parent ancestry_limit pid anc)"

text \<open>The reference: \<open>anc\<close> is on the way up from \<open>pid\<close>, at most so many steps away and not beyond the first process.\<close>

inductive beneath :: "(int \<Rightarrow> int option) \<Rightarrow> int \<Rightarrow> int \<Rightarrow> nat \<Rightarrow> bool" for parent anc where
  itself: "beneath parent anc anc 0"
| child: "parent pid = Some p \<Longrightarrow> 1 < pid \<Longrightarrow> beneath parent anc p n \<Longrightarrow> beneath parent anc pid (Suc n)"

lemma climb_sound: "climb parent i pid anc \<Longrightarrow> \<exists>n < i. beneath parent anc pid n"
proof (induction parent i pid anc rule: climb.induct)
  case (2 parent i pid anc)
  show ?case
  proof (cases "pid = anc")
    case True
    then show ?thesis using beneath.itself by blast
  next
    case False
    then obtain p where "parent pid = Some p" "1 < pid" "climb parent i p anc"
      using 2(2) by (auto split: if_split_asm option.split_asm)
    then show ?thesis using 2(1) False by (fastforce intro: beneath.child)
  qed
qed simp

lemma climb_complete: "beneath parent anc pid n \<Longrightarrow> 1 < anc \<Longrightarrow> n < i \<Longrightarrow> climb parent i pid anc"
proof (induction arbitrary: i rule: beneath.induct)
  case itself
  then show ?case by (cases i) auto
next
  case (child pid p n)
  then show ?case by (cases i) auto
qed

text \<open>
  C15. A process is taken to run inside another exactly when the other is on the way up from it, at most 4,095 steps away;
  the search ends whatever the process table answers.
\<close>

theorem descends_is_beneath:
  "descends_from parent pid anc \<longleftrightarrow> 1 < anc \<and> 0 < pid \<and> (\<exists>n. n < ancestry_limit \<and> beneath parent anc pid n)"
  using climb_sound[of parent ancestry_limit pid anc] climb_complete[of parent anc pid]
  by (auto simp: descends_from_def)

section \<open>Cgroups\<close>

text \<open>The line of the unified hierarchy.\<close>

definition cgroup_path_of :: "bytes option \<Rightarrow> bytes option" where
  "cgroup_path_of file =
     (case file of
        None \<Rightarrow> None
      | Some body \<Rightarrow> map_option (\<lambda>l. trim_space (drop 3 l)) (find (starts_with (bstr ''0::'')) (split_on 0x0a body)))"

text \<open>\<open>filepath.Join\<close> of a mount point and a path, by its components: \<open>.\<close> and \<open>..\<close> are resolved, the root is its own parent.\<close>

definition clean_step :: "bytes \<Rightarrow> bytes list \<Rightarrow> bytes list" where
  "clean_step c acc = (if c = [] \<or> c = bstr ''.'' then acc else if c = bstr ''..'' then butlast acc else acc @ [c])"

definition join_path :: "bytes list \<Rightarrow> bytes \<Rightarrow> bytes list" where
  "join_path base p = fold clean_step (split_on 0x2f p) base"

definition cgroup_mount :: "bytes list" where
  "cgroup_mount = [bstr ''sys'', bstr ''fs'', bstr ''cgroup'']"

text \<open>\<open>filepath.Rel\<close> of two rooted paths.\<close>

fun rel_path :: "bytes list \<Rightarrow> bytes list \<Rightarrow> bytes list" where
  "rel_path (a # as) (b # bs) = (if a = b then rel_path as bs else map (\<lambda>x. bstr ''..'') (a # as) @ b # bs)"
| "rel_path [] bs = bs"
| "rel_path as [] = map (\<lambda>x. bstr ''..'') as"

datatype cgroup_error = NoDelegation | NoUnified | NotUnder "bytes list" | GroupIsGone | NotMade

text \<open>\<open>Adopt\<close>: the cgroup of a process, if it is strictly inside the daemon's own; \<open>there\<close> says whether the directory exists.\<close>

definition adopt_cgroup :: "bytes list option \<Rightarrow> bytes option \<Rightarrow> (bytes list \<Rightarrow> bool) \<Rightarrow> cgroup_error + bytes list" where
  "adopt_cgroup root file there =
     (case root of
        None \<Rightarrow> Inl NoDelegation
      | Some r \<Rightarrow>
          (case cgroup_path_of file of
             None \<Rightarrow> Inl NoUnified
           | Some p \<Rightarrow>
               (let dir = join_path cgroup_mount p; rel = rel_path r dir in
                if rel = [] \<or> starts_with (bstr ''..'') (hd rel) then Inl (NotUnder dir)
                else if \<not> there dir then Inl GroupIsGone
                else Inr dir)))"

text \<open>\<open>Create\<close>: a fresh name for every run of a service.\<close>

definition cgroup_name :: "bytes \<Rightarrow> nat \<Rightarrow> bytes" where
  "cgroup_name service seq = bstr ''gozellij-'' @ service @ bstr ''-'' @ itoa (int seq)"

definition create_cgroup :: "bytes list option \<Rightarrow> bytes \<Rightarrow> nat \<Rightarrow> (bytes list \<Rightarrow> bool) \<Rightarrow> (cgroup_error + bytes list) \<times> nat" where
  "create_cgroup root service seq mkdir =
     (case root of
        None \<Rightarrow> (Inl NoDelegation, seq)
      | Some r \<Rightarrow> (let dir = r @ [cgroup_name service (seq + 1)] in (if mkdir dir then Inr dir else Inl NotMade, seq + 1)))"

text \<open>\<open>Pids\<close>: the numbers of the listing; a cgroup that is gone has none.\<close>

datatype proc_file = IsGone | CannotRead | Reads bytes

definition parse_pids :: "bytes \<Rightarrow> int list" where
  "parse_pids body = List.map_filter (\<lambda>l. case atoi l of (n, number) \<Rightarrow> if number then Some n else None) (go_fields body)"

definition cgroup_listing :: "proc_file \<Rightarrow> int list option" where
  "cgroup_listing f = (case f of IsGone \<Rightarrow> Some [] | CannotRead \<Rightarrow> None | Reads body \<Rightarrow> Some (parse_pids body))"

lemma rel_inside: "rel_path r d = q \<Longrightarrow> q \<noteq> [] \<Longrightarrow> \<not> starts_with (bstr ''..'') (hd q) \<Longrightarrow> d = r @ q"
proof (induction r d rule: rel_path.induct)
  case (1 a as b bs)
  then show ?case by (cases "a = b") (auto simp: starts_with_def)
qed (auto simp: starts_with_def)

text \<open>
  The daemon takes over only what is its own: a cgroup it adopts is a directory strictly inside the one it was given,
  never that one itself and never one beside or above it, whatever the path in the process table says.
\<close>

theorem adopted_cgroups_are_ours:
  assumes "adopt_cgroup root file there = Inr dir"
  shows "\<exists>r q. root = Some r \<and> q \<noteq> [] \<and> dir = r @ q \<and> there dir"
proof -
  obtain r p where r: "root = Some r" and p: "cgroup_path_of file = Some p"
    using assms by (auto simp: adopt_cgroup_def split: option.split_asm)
  let ?q = "rel_path r (join_path cgroup_mount p)"
  have "?q \<noteq> []" "\<not> starts_with (bstr ''..'') (hd ?q)" "there dir" "dir = join_path cgroup_mount p"
    using assms r p by (auto simp: adopt_cgroup_def Let_def split: if_split_asm)
  then show ?thesis using r rel_inside[of r _ ?q] by blast
qed

lemma adopted_cgroups_are_ours_witness:
  "\<exists>r q. Some (cgroup_mount @ [bstr ''user'']) = Some r \<and> q \<noteq> [] \<and> cgroup_mount @ [bstr ''user'', bstr ''gozellij-a-1''] = r @ q"
proof -
  have "adopt_cgroup (Some (cgroup_mount @ [bstr ''user''])) (Some (bstr ''0::/user/gozellij-a-1'')) (\<lambda>d. True)
      = Inr (cgroup_mount @ [bstr ''user'', bstr ''gozellij-a-1''])" by code_simp
  from adopted_cgroups_are_ours[OF this] show ?thesis by blast
qed

text \<open>Two runs never get the same directory, also of services whose names end in a number.\<close>

lemma nat_digits_no_dash: "0x2d \<notin> set (nat_digits n)"
  using nat_digits_digits[of n] by (auto simp: list_all_iff is_digit_def)

lemma cgroup_names_differ:
  assumes "cgroup_name a m = cgroup_name b n"
  shows "a = b \<and> itoa (int m) = itoa (int n)"
proof -
  have e: "a @ 0x2d # itoa (int m) = b @ 0x2d # itoa (int n)" using assms by (simp add: cgroup_name_def bstr_def)
  have d: "0x2d \<notin> set (itoa (int k))" for k by (simp add: itoa_def nat_digits_no_dash)
  have "Some (itoa (int m)) = Some (itoa (int n))"
    unfolding after_last_append[OF d, symmetric, of m a] after_last_append[OF d, symmetric, of n b] by (simp only: e)
  then show ?thesis using e by simp
qed

end
