(* ===== verification/Process.thy ===== *)
theory Process
  imports Services AttachServer "HOL-Library.Sublist"
begin

text \<open>
  One run of a service, \<open>src/internal/fabric/process.go\<close>: the environment it gets, how it is started in a terminal and a
  cgroup, what is read of its output, how its end is collected and published, and the size of its terminal. How it is
  stopped is in the theory Stopping. \<open>adopt.go\<close> and \<open>orphan.go\<close> give the two other ways an end is observed.

  The operating system's answers - whether a program is found, a cgroup made, a child launched - are arguments.
\<close>

section \<open>The environment\<close>

definition sets_var :: "bytes \<Rightarrow> bytes \<Rightarrow> bool" where
  "sets_var k kv \<longleftrightarrow> starts_with (k @ [0x3d]) kv"

definition daemon_only :: "bytes list" where
  "daemon_only = map bstr
     [''NOTIFY_SOCKET'', ''LISTEN_PID'', ''LISTEN_FDS'', ''LISTEN_FDNAMES'', ''INVOCATION_ID'', ''JOURNAL_STREAM'',
      ''WATCHDOG_PID'', ''WATCHDOG_USEC'', ''MANAGERPID'', ''SYSTEMD_EXEC_PID'']"

definition inheritable :: "bytes list \<Rightarrow> bytes list" where
  "inheritable env = filter (\<lambda>kv. \<not> list_ex (\<lambda>k. sets_var k kv) daemon_only) env"

definition gozellij_var :: bytes where "gozellij_var = bstr ''GOZELLIJ''"

definition service_env :: "bytes list \<Rightarrow> service \<Rightarrow> bytes list \<Rightarrow> bytes list" where
  "service_env environ s extra =
     (let env = inheritable environ @ sv_env s @ extra in
      if list_ex (sets_var gozellij_var) (sv_env s @ extra) then env
      else filter (\<lambda>kv. \<not> sets_var gozellij_var kv) env @ [gozellij_var @ [0x3d] @ sv_name s])"

text \<open>What a program started with an environment finds under a name: of several entries \<open>os/exec\<close> keeps the last.\<close>

fun env_value :: "bytes \<Rightarrow> bytes list \<Rightarrow> bytes option" where
  "env_value k [] = None"
| "env_value k (kv # kvs) =
     (case env_value k kvs of
        Some v \<Rightarrow> Some v
      | None \<Rightarrow> if sets_var k kv then Some (drop (length k + 1) kv) else None)"

lemma env_value_append:
  "env_value k (xs @ ys) = (case env_value k ys of Some v \<Rightarrow> Some v | None \<Rightarrow> env_value k xs)"
  by (induction xs) (auto split: option.split)

lemma env_value_None: "env_value k xs = None \<longleftrightarrow> \<not> list_ex (sets_var k) xs"
  by (induction xs) (auto split: option.split)

lemma sets_var_form:
  assumes "sets_var k kv"
  shows "kv = k @ 0x3d # drop (Suc (length k)) kv"
proof -
  have "take (Suc (length k)) kv = k @ [0x3d]" using assms by (simp add: sets_var_def starts_with_def)
  then have "take (Suc (length k)) kv @ drop (Suc (length k)) kv = k @ 0x3d # drop (Suc (length k)) kv" by simp
  then show ?thesis by simp
qed

lemma sets_one:
  assumes "0x3d \<notin> set k" "0x3d \<notin> set j" "sets_var k kv" "sets_var j kv"
  shows "k = j"
proof -
  have t: "takeWhile (\<lambda>c. c \<noteq> 0x3d) (n @ 0x3d # x) = n" if "0x3d \<notin> set n" for n x :: bytes
    using that by (induction n) auto
  have "takeWhile (\<lambda>c. c \<noteq> 0x3d) kv = k" by (subst sets_var_form[OF assms(3)], rule t[OF assms(1)])
  moreover have "takeWhile (\<lambda>c. c \<noteq> 0x3d) kv = j" by (subst sets_var_form[OF assms(4)], rule t[OF assms(2)])
  ultimately show ?thesis by simp
qed

lemma env_value_filter:
  assumes "\<And>kv. kv \<in> set xs \<Longrightarrow> sets_var k kv \<Longrightarrow> P kv"
  shows "env_value k (filter P xs) = env_value k xs"
  using assms by (induction xs) (auto split: option.split)

lemma env_value_dropped:
  assumes "\<And>kv. sets_var k kv \<Longrightarrow> \<not> P kv"
  shows "env_value k (filter P xs) = None"
  using assms by (induction xs) auto

lemma daemon_only_plain: "k \<in> set daemon_only \<Longrightarrow> 0x3d \<notin> set k"
  by (auto simp: daemon_only_def)

lemma gozellij_plain: "0x3d \<notin> set gozellij_var" "gozellij_var \<notin> set daemon_only"
  by code_simp+

lemma inheritable_value:
  assumes "0x3d \<notin> set k"
  shows "env_value k (inheritable environ) = (if k \<in> set daemon_only then None else env_value k environ)"
proof (cases "k \<in> set daemon_only")
  case True
  then show ?thesis by (auto simp: inheritable_def list_ex_iff intro!: env_value_dropped)
next
  case False
  then have "\<not> list_ex (\<lambda>j. sets_var j kv) daemon_only" if "sets_var k kv" for kv
    using that sets_one[OF assms] daemon_only_plain by (auto simp: list_ex_iff)
  then show ?thesis using False by (auto simp: inheritable_def intro: env_value_filter)
qed

text \<open>
  C13. A service finds in its environment what it should: what its definition or its starter sets counts, and the last of
  it; otherwise GOZELLIJ is its own name, the variables that are between the daemon and the service manager are not
  there, and every other variable is the daemon's.
\<close>

theorem services_find_their_environment:
  assumes "0x3d \<notin> set k"
  shows "env_value k (service_env environ s extra)
    = (case env_value k (sv_env s @ extra) of
         Some v \<Rightarrow> Some v
       | None \<Rightarrow> if k = gozellij_var then Some (sv_name s) else if k \<in> set daemon_only then None else env_value k environ)"
proof (cases "k = gozellij_var")
  case True
  have own: "env_value k (xs @ [gozellij_var @ [0x3d] @ sv_name s]) = Some (sv_name s)" for xs
    by (simp add: True env_value_append sets_var_def starts_with_def)
  show ?thesis
  proof (cases "env_value k (sv_env s @ extra)")
    case None
    then have no: "\<not> list_ex (sets_var gozellij_var) (sv_env s @ extra)" using True env_value_None by metis
    then have "service_env environ s extra
        = filter (\<lambda>kv. \<not> sets_var gozellij_var kv) (inheritable environ @ sv_env s @ extra) @ [gozellij_var @ [0x3d] @ sv_name s]"
      by (simp only: service_env_def Let_def if_False)
    then show ?thesis using None True own by (simp only: option.case if_True simp_thms)
  next
    case (Some v)
    then have "list_ex (sets_var gozellij_var) (sv_env s @ extra)" using True env_value_None[of k "sv_env s @ extra"] by auto
    then show ?thesis using Some env_value_append[of k "inheritable environ" "sv_env s @ extra"] by (simp add: service_env_def Let_def)
  qed
next
  case False
  then have other: "\<not> sets_var gozellij_var kv" if "sets_var k kv" for kv
    using that sets_one[OF assms gozellij_plain(1)] by blast
  have "\<not> sets_var k (gozellij_var @ [0x3d] @ sv_name s)"
    using other by (fastforce simp: sets_var_def starts_with_def)
  then have "env_value k (service_env environ s extra) = env_value k (inheritable environ @ sv_env s @ extra)"
    using other env_value_filter[of "inheritable environ @ sv_env s @ extra" k "\<lambda>kv. \<not> sets_var gozellij_var kv"]
      env_value_append[of k "filter (\<lambda>kv. \<not> sets_var gozellij_var kv) (inheritable environ @ sv_env s @ extra)" "[gozellij_var @ [0x3d] @ sv_name s]"]
    by (simp add: service_env_def Let_def)
  then show ?thesis using False env_value_append[of k "inheritable environ" "sv_env s @ extra"] inheritable_value[OF assms]
    by (simp split: option.split)
qed

section \<open>Starting\<close>

text \<open>
  What a start is told: whether the program is found, whether cgroups are available and one can be made and opened, the
  process ids of the two attempts, and whether the child of the second can be put into the cgroup.
\<close>

record start_env =
  sa_found :: bool
  sa_cgroups :: bool
  sa_made :: bool
  sa_opened :: bool
  sa_first :: "int option"
  sa_second :: "int option"
  sa_added :: bool

datatype start_effect = MadeGroup | RemovedGroup | OpenedDir | ClosedDir | Launched int bool | PutInGroup int

datatype start_error = Invalid service_error | CommandNotFound | NotStarted

text \<open>\<open>Launched p g\<close>: \<open>p\<close> was started, in the cgroup if \<open>g\<close>. A width and a height are sent to the kernel in 16 bits.\<close>

definition default_cols :: int where "default_cols = 80"
definition default_rows :: int where "default_rows = 24"

definition or_default :: "int \<Rightarrow> int \<Rightarrow> int" where
  "or_default d n = (if n \<le> 0 then d else n)"

definition window_size :: "int \<Rightarrow> int \<Rightarrow> 16 word \<times> 16 word" where
  "window_size cols rows = (word_of_int cols, word_of_int rows)"

record started =
  sd_pid :: int
  sd_in_group :: bool
  sd_window :: "16 word \<times> 16 word"
  sd_screen :: "int \<times> int"

definition start_group :: "start_env \<Rightarrow> bool \<times> start_effect list" where
  "start_group v =
     (if \<not> sa_cgroups v then (False, [])
      else if \<not> sa_made v then (False, [])
      else if \<not> sa_opened v then (False, [MadeGroup, RemovedGroup])
      else (True, [MadeGroup, OpenedDir]))"

definition start_process :: "start_env \<Rightarrow> int \<Rightarrow> int \<Rightarrow> service \<Rightarrow> (start_error + started) \<times> start_effect list" where
  "start_process v want_cols want_rows s =
     (case validate s of
        Some e \<Rightarrow> (Inl (Invalid e), [])
      | None \<Rightarrow>
          if \<not> sa_found v then (Inl CommandNotFound, [])
          else (case start_group v of (grp, fx) \<Rightarrow>
            let cols = or_default default_cols want_cols; rows = or_default default_rows want_rows;
                shut = (if grp then [ClosedDir] else []);
                run = (\<lambda>p g. \<lparr>sd_pid = p, sd_in_group = g, sd_window = window_size cols rows, sd_screen = (cols, rows)\<rparr>)
            in (case sa_first v of
                  Some p \<Rightarrow> (Inr (run p grp), fx @ [Launched p grp] @ shut)
                | None \<Rightarrow>
                    if \<not> grp then (Inl NotStarted, fx)
                    else (case sa_second v of
                            None \<Rightarrow> (Inl NotStarted, fx @ shut @ [RemovedGroup])
                          | Some p \<Rightarrow>
                              if sa_added v then (Inr (run p True), fx @ [Launched p False, PutInGroup p] @ shut)
                              else (Inr (run p False), fx @ [Launched p False, RemovedGroup] @ shut)))))"

definition balance :: "start_effect \<Rightarrow> start_effect \<Rightarrow> start_effect list \<Rightarrow> int" where
  "balance up down fx = int (count_list fx up) - int (count_list fx down)"

definition launches :: "start_effect list \<Rightarrow> int list" where
  "launches fx = List.map_filter (\<lambda>x. case x of Launched p g \<Rightarrow> Some p | _ \<Rightarrow> None) fx"

text \<open>
  C12. A start leaves nothing behind: on every path the directory of the cgroup is closed again, the cgroup it made is the
  process's or has been removed, at most one program is launched, one is exactly if the start succeeds, and it is in the
  cgroup the process is said to have.
\<close>

theorem starts_leave_nothing:
  "case start_process v c r s of (res, fx) \<Rightarrow>
     balance OpenedDir ClosedDir fx = 0
     \<and> balance MadeGroup RemovedGroup fx = (case res of Inr p \<Rightarrow> if sd_in_group p then 1 else 0 | Inl e \<Rightarrow> 0)
     \<and> launches fx = (case res of Inr p \<Rightarrow> [sd_pid p] | Inl e \<Rightarrow> [])
     \<and> (case res of Inr p \<Rightarrow> sd_in_group p = (Launched (sd_pid p) True \<in> set fx \<or> PutInGroup (sd_pid p) \<in> set fx) | Inl e \<Rightarrow> True)"
  by (simp add: start_process_def start_group_def balance_def launches_def map_filter_simps Let_def split: option.split)

text \<open>
  A screen of 65,536 columns: the program is told that it has none, the emulator draws that many.
\<close>

lemma columns_wrap:
  "window_size 65536 24 = (0, 24)" "window_size (or_default default_cols 65616) 24 = (80, 24)"
  by (simp_all add: window_size_def or_default_def)

section \<open>The terminal\<close>

datatype process_error = ProcessGone | BadSize int int | PtyTrouble

datatype errno = EIO | ErrClosed | OtherErrno

text \<open>\<open>Resize\<close>: the size the program is told and the size the emulator gets, when it works.\<close>

definition process_resize :: "bool \<Rightarrow> errno option \<Rightarrow> int \<Rightarrow> int \<Rightarrow> process_error + ((16 word \<times> 16 word) \<times> int \<times> int)" where
  "process_resize closed failed cols rows =
     (if cols \<le> 0 \<or> rows \<le> 0 then Inl (BadSize cols rows)
      else if closed then Inl ProcessGone
      else (case failed of
              None \<Rightarrow> Inr (window_size cols rows, cols, rows)
            | Some ErrClosed \<Rightarrow> Inl ProcessGone
            | Some e \<Rightarrow> Inl PtyTrouble))"

definition process_write :: "bool \<Rightarrow> int \<times> errno option \<Rightarrow> int \<times> process_error option" where
  "process_write closed r =
     (if closed then (0, Some ProcessGone)
      else (case r of
              (n, None) \<Rightarrow> (n, None)
            | (n, Some OtherErrno) \<Rightarrow> (n, Some PtyTrouble)
            | (n, Some e) \<Rightarrow> (n, Some ProcessGone)))"

definition foreground :: "bool \<Rightarrow> int option \<Rightarrow> int option" where
  "foreground closed asked =
     (if closed then None else case asked of None \<Rightarrow> None | Some pg \<Rightarrow> if pg \<le> 0 then None else Some pg)"

text \<open>\<open>drain\<close>: the reads of the terminal, each with what it brought and whether it failed; \<open>takes\<close> says whether the buffer does.\<close>

fun drain :: "(bytes \<Rightarrow> bool) \<Rightarrow> (bytes \<times> bool) list \<Rightarrow> bytes list" where
  "drain takes [] = []"
| "drain takes ((p, failed) # rs) =
     (if p \<noteq> [] \<and> \<not> takes p then []
      else (if p = [] then [] else [p]) @ (if failed then [] else drain takes rs))"

lemma drain_all:
  "list_all (\<lambda>(p, failed). takes p \<and> \<not> failed) rs \<Longrightarrow>
   concat (drain takes (rs @ [(p, True)])) = concat (map fst rs) @ (if takes p then p else [])"
  by (induction rs) auto

section \<open>The end\<close>

text \<open>What \<open>Wait\<close> of \<open>os/exec\<close> says: a state, unless there is none, and an error.\<close>

datatype wait_state = Signaled bytes | ExitedWith int

definition exit_from :: "bytes option \<Rightarrow> wait_state option \<Rightarrow> exit_status" where
  "exit_from err st =
     (case st of
        None \<Rightarrow> (case err of Some e \<Rightarrow> \<lparr>code = -1, signal = bstr ''unknown: '' @ e\<rparr> | None \<Rightarrow> \<lparr>code = -1, signal = bstr ''unknown''\<rparr>)
      | Some (Signaled s) \<Rightarrow> \<lparr>code = -1, signal = s\<rparr>
      | Some (ExitedWith n) \<Rightarrow> \<lparr>code = n, signal = []\<rparr>)"

text \<open>\<open>waitAdopted\<close>: the answers of \<open>wait4\<close>, in order; \<open>None\<close> as long as it waits on.\<close>

datatype wait4 = Interrupted | WaitFailed bytes | Waited4 int wait_state

fun wait_adopted :: "int \<Rightarrow> wait4 list \<Rightarrow> exit_status option" where
  "wait_adopted pid [] = None"
| "wait_adopted pid (Interrupted # ws) = wait_adopted pid ws"
| "wait_adopted pid (WaitFailed e # ws) =
     Some \<lparr>code = -1, signal = bstr ''unknown: waiting for adopted process '' @ itoa pid @ bstr '': '' @ e\<rparr>"
| "wait_adopted pid (Waited4 p st # ws) = (if p \<noteq> pid then wait_adopted pid ws else Some (exit_from None (Some st)))"

text \<open>\<open>waitOrphan\<close>: whether a pidfd could be had, and the answers of the polls with whether the process still answers a signal.\<close>

datatype poll_answer = PollInterrupted | PollFailed | Readable | TimedOut bool

fun watch_orphan :: "poll_answer list \<Rightarrow> exit_status option" where
  "watch_orphan [] = None"
| "watch_orphan (PollInterrupted # ps) = watch_orphan ps"
| "watch_orphan (PollFailed # ps) = Some unknown_exit"
| "watch_orphan (Readable # ps) = Some unknown_exit"
| "watch_orphan (TimedOut there # ps) = (if there then watch_orphan ps else Some unknown_exit)"

definition wait_orphan :: "bool \<Rightarrow> poll_answer list \<Rightarrow> exit_status option" where
  "wait_orphan opened ps = (if opened then watch_orphan ps else Some unknown_exit)"

text \<open>
  An end nobody saw is never a clean one: a process that was taken over after a crash, that was waited for in vain, or
  of which there is no state, counts as failed, so a service that is to be restarted on failure is; a signal is never
  taken for an exit code.
\<close>

theorem unseen_ends_are_failures:
  assumes "wait_orphan opened ps = Some e \<or> wait_adopted pid (WaitFailed why # ws) = Some e \<or> exit_from err None = e
      \<or> (name \<noteq> [] \<and> exit_from err (Some (Signaled name)) = e)"
  shows "\<not> exit_clean e \<and> should_restart RestartOnFailure e \<and> code e = -1"
proof -
  have w: "watch_orphan ps = Some e \<Longrightarrow> e = unknown_exit" for ps
    by (induction ps rule: watch_orphan.induct) (auto split: if_split_asm)
  have "wait_orphan opened ps = Some e \<Longrightarrow> e = unknown_exit" using w[of ps] by (simp add: wait_orphan_def split: if_split_asm)
  moreover have "code unknown_exit = -1 \<and> signal unknown_exit \<noteq> []" by (simp add: unknown_exit_def unknown_exit_signal_def)
  moreover have "code (exit_from err None) = -1 \<and> signal (exit_from err None) \<noteq> []" by (simp add: exit_from_def split: option.split)
  moreover have "wait_adopted pid (WaitFailed why # ws) = Some e \<Longrightarrow> code e = -1 \<and> signal e \<noteq> []" by auto
  moreover have "name \<noteq> [] \<Longrightarrow> exit_from err (Some (Signaled name)) = e \<Longrightarrow> code e = -1 \<and> signal e \<noteq> []" by (auto simp: exit_from_def)
  ultimately have "code e = -1 \<and> signal e \<noteq> []" using assms by metis
  then show ?thesis by (auto simp: exit_clean_def should_restart_def)
qed

lemma unseen_ends_are_failures_witness:
  "wait_orphan True [PollInterrupted, TimedOut True, Readable] = Some unknown_exit \<and> \<not> exit_clean unknown_exit"
  using unseen_ends_are_failures[of True "[PollInterrupted, TimedOut True, Readable]" unknown_exit] by (simp add: wait_orphan_def)

lemma services_find_their_environment_witness:
  "env_value gozellij_var (service_env [bstr ''GOZELLIJ=web'', bstr ''NOTIFY_SOCKET=/run/x'', bstr ''HOME=/root'']
       \<lparr>sv_name = bstr ''db'', sv_command = bstr ''sh'', sv_args = [], sv_dir = [], sv_env = [bstr ''A=1''], sv_restart = RestartNo,
        sv_enabled = True, sv_no_log = False, sv_close_on_exit = False, sv_auto_name = False, sv_order = 0, sv_created = None\<rparr> [])
     = Some (bstr ''db'')"
  by (subst services_find_their_environment) (simp_all add: gozellij_plain sets_var_def starts_with_def gozellij_var_def)

section \<open>Collecting the end\<close>

text \<open>
  \<open>drain\<close>, the reader of the terminal, and \<open>reap\<close>, beside each other and the world. \<open>rp_flag\<close> is \<open>Process.orphan\<close>, which
  \<open>AdoptOrphan\<close> sets after \<open>Adopt\<close> has started both; \<open>rp_end\<close> is how the process really ended. \<open>rp_wrote\<close> is what has been
  written to the terminal and \<open>rp_held\<close> whether anybody still holds it; of that \<open>rp_read\<close> bytes have been read and
  \<open>rp_kept\<close> has gone into the output buffer, which \<open>rp_shut\<close> closes. \<open>rp_note\<close> is the line in the output that says the
  reading was given up.
\<close>

datatype origin = Started | TakenOver | Orphaned

datatype drain_pc = DRead | DWrite bytes | DBack

record reaping =
  rp_origin :: origin
  rp_pid :: int
  rp_flag :: bool
  rp_end :: "wait_state option"
  rp_wrote :: bytes
  rp_held :: bool
  rp_read :: nat
  rp_kept :: bytes
  rp_shut :: bool
  rp_reader :: drain_pc
  rp_reaped :: "int option"
  rp_exit :: "exit_status option"
  rp_closed :: bool
  rp_done :: bool
  rp_note :: bool
  rp_now :: int

definition drain_grace :: int where "drain_grace = 250000000"
definition drain_abandon :: int where "drain_abandon = 2000000000"

text \<open>
  One read takes up to 32 KiB of what is there. It fails when nobody holds the terminal any more and nothing is left, and
  when the terminal has been closed under it - but a read under way need not notice that (\<open>woken\<close>). \<open>None\<close>: it waits.
\<close>

fun drain_step :: "bool \<Rightarrow> nat \<Rightarrow> reaping \<Rightarrow> reaping option" where
  "drain_step woken n r =
     (case rp_reader r of
        DRead \<Rightarrow>
          if rp_closed r \<and> woken then Some (r\<lparr>rp_reader := DBack\<rparr>)
          else let left = drop (rp_read r) (rp_wrote r) in
            if left \<noteq> [] then
              (if 0 < n \<and> int n \<le> 32768 then Some (r\<lparr>rp_reader := DWrite (take n left), rp_read := rp_read r + length (take n left)\<rparr>) else None)
            else if \<not> rp_held r then Some (r\<lparr>rp_reader := DBack\<rparr>) else None
      | DWrite b \<Rightarrow> Some (if rp_shut r then r\<lparr>rp_reader := DBack\<rparr> else r\<lparr>rp_reader := DRead, rp_kept := rp_kept r @ b\<rparr>)
      | DBack \<Rightarrow> None)"

datatype reap_pc =
    RLook
  | RPidfd
  | RPoll
  | RChild
  | RWait4
  | RReaped exit_status
  | RDrain exit_status int
  | RClose exit_status
  | RAbandon exit_status int
  | RPublish exit_status
  | RShut
  | REnd

text \<open>
  What the system answers: whether a pidfd can be had and what a poll of it says, what \<open>Wait\<close> says of a child of this
  process and \<open>wait4\<close> of an adopted one. \<open>re_drained\<close> chooses when the reader is back and the timer has fired as well.
\<close>

record reap_env =
  re_pidfd :: bool
  re_poll :: poll_answer
  re_wait :: "bytes option \<times> wait_state option"
  re_wait4 :: wait4
  re_drained :: bool

definition collected :: "reap_pc \<Rightarrow> exit_status option \<Rightarrow> reap_pc" where
  "collected pc e = (case e of None \<Rightarrow> pc | Some x \<Rightarrow> RReaped x)"

fun reap_step :: "reap_env \<Rightarrow> reap_pc \<Rightarrow> reaping \<Rightarrow> (reap_pc \<times> reaping) option" where
  "reap_step v RLook r = Some (if rp_flag r then RPidfd else if rp_origin r = Started then RChild else RWait4, r)"
| "reap_step v RPidfd r = Some (if re_pidfd v then RPoll else collected RPidfd (wait_orphan False []), r)"
| "reap_step v RPoll r = Some (collected RPoll (wait_orphan True [re_poll v]), r)"
| "reap_step v RChild r = Some (RReaped (exit_from (fst (re_wait v)) (snd (re_wait v))), r)"
| "reap_step v RWait4 r = Some (collected RWait4 (wait_adopted (rp_pid r) [re_wait4 v]), r)"
| "reap_step v (RReaped e) r = Some (RDrain e (rp_now r + drain_grace), r\<lparr>rp_reaped := Some (rp_now r)\<rparr>)"
| "reap_step v (RDrain e u) r =
     (if rp_reader r = DBack \<and> (re_drained v \<or> rp_now r < u) then Some (RPublish e, r)
      else if u \<le> rp_now r then Some (RClose e, r) else None)"
| "reap_step v (RClose e) r = Some (RAbandon e (rp_now r + drain_abandon), r\<lparr>rp_closed := True\<rparr>)"
| "reap_step v (RAbandon e u) r =
     (if rp_reader r = DBack \<and> (re_drained v \<or> rp_now r < u) then Some (RPublish e, r)
      else if u \<le> rp_now r then Some (RPublish e, r\<lparr>rp_note := \<not> rp_shut r\<rparr>) else None)"
| "reap_step v (RPublish e) r = Some (RShut, r\<lparr>rp_exit := Some e\<rparr>)"
| "reap_step v RShut r = Some (REnd, r\<lparr>rp_closed := True, rp_done := True\<rparr>)"
| "reap_step v REnd r = None"

text \<open>
  What the kernel documents of its answers: \<open>Wait\<close> and \<open>wait4\<close> tell how a process ended once it has, and only then. An
  interrupted poll and one that times out are answers like the others, and so is an error.
\<close>

definition answers_ok :: "reap_env \<Rightarrow> reaping \<Rightarrow> bool" where
  "answers_ok v r \<longleftrightarrow>
     (\<forall>st. snd (re_wait v) = Some st \<longrightarrow> rp_end r = Some st) \<and> (\<forall>st. re_wait4 v = Waited4 (rp_pid r) st \<longrightarrow> rp_end r = Some st)"

text \<open>The world: time, the process ends, somebody writes to the terminal or the last one lets go of it, the buffer is closed.\<close>

datatype reap_event = RTick int | REnds wait_state | RWrites bytes | RLets | RShuts | RFlags

fun reap_move :: "reap_event \<Rightarrow> reaping \<Rightarrow> reaping option" where
  "reap_move (RTick n) r = (if 0 \<le> n then Some (r\<lparr>rp_now := rp_now r + n\<rparr>) else None)"
| "reap_move (REnds st) r = (if rp_end r = None then Some (r\<lparr>rp_end := Some st\<rparr>) else None)"
| "reap_move (RWrites b) r = (if rp_held r then Some (r\<lparr>rp_wrote := rp_wrote r @ b\<rparr>) else None)"
| "reap_move RLets r = Some (r\<lparr>rp_held := False\<rparr>)"
| "reap_move RShuts r = Some (r\<lparr>rp_shut := True\<rparr>)"
| "reap_move RFlags r = (if rp_origin r = Orphaned then Some (r\<lparr>rp_flag := True\<rparr>) else None)"

definition new_reaping :: "origin \<Rightarrow> int \<Rightarrow> int \<Rightarrow> reaping" where
  "new_reaping kind pid now =
     \<lparr>rp_origin = kind, rp_pid = pid, rp_flag = False, rp_end = None, rp_wrote = [], rp_held = True, rp_read = 0, rp_kept = [],
      rp_shut = False, rp_reader = DRead, rp_reaped = None, rp_exit = None, rp_closed = False, rp_done = False, rp_note = False, rp_now = now\<rparr>"

inductive reap_run :: "reap_pc \<Rightarrow> reaping \<Rightarrow> bool" where
  reap_begins: "reap_run RLook (new_reaping kind pid now)"
| reap_steps: "reap_run pc r \<Longrightarrow> answers_ok v r \<Longrightarrow> reap_step v pc r = Some (pc1, r1) \<Longrightarrow> reap_run pc1 r1"
| reap_reads: "reap_run pc r \<Longrightarrow> drain_step woken n r = Some r1 \<Longrightarrow> reap_run pc r1"
| reap_world: "reap_run pc r \<Longrightarrow> reap_move m r = Some r1 \<Longrightarrow> reap_run pc r1"

text \<open>An exit that says of itself that nobody knows how the process ended, and one that is how it ended.\<close>

definition unknown_end :: "exit_status \<Rightarrow> bool" where
  "unknown_end e \<longleftrightarrow> code e = -1 \<and> (is_unknown e \<or> starts_with (bstr ''unknown'') (signal e))"

definition told_truly :: "exit_status \<Rightarrow> wait_state option \<Rightarrow> bool" where
  "told_truly e how \<longleftrightarrow> (\<exists>st. how = Some st \<and> e = exit_from None (Some st)) \<or> unknown_end e"

definition all_kept :: "reaping \<Rightarrow> bool" where
  "all_kept r \<longleftrightarrow> \<not> rp_held r \<and> rp_kept r = rp_wrote r"

definition grace_over :: "reaping \<Rightarrow> bool" where
  "grace_over r \<longleftrightarrow> (\<exists>t. rp_reaped r = Some t \<and> t + drain_grace \<le> rp_now r)"

text \<open>What is read: everything up to where the reader is, in order.\<close>

definition reader_ok :: "reaping \<Rightarrow> bool" where
  "reader_ok r \<longleftrightarrow> rp_read r \<le> length (rp_wrote r) \<and>
     (case rp_reader r of
        DRead \<Rightarrow> rp_kept r = take (rp_read r) (rp_wrote r)
      | DWrite b \<Rightarrow> rp_kept r @ b = take (rp_read r) (rp_wrote r)
      | DBack \<Rightarrow> prefix (rp_kept r) (rp_wrote r) \<and> (all_kept r \<or> rp_shut r \<or> rp_closed r))"

text \<open>
  What an exit is published upon: the output is all in the buffer, or the buffer was closed, or the grace was over; and the
  reader is back, or the note says that it is not, or there was no buffer left to say it in.
\<close>

definition settled :: "reaping \<Rightarrow> bool" where
  "settled r \<longleftrightarrow> (all_kept r \<or> rp_shut r \<or> grace_over r) \<and> (rp_reader r = DBack \<or> rp_note r \<or> rp_shut r)"

definition unpublished :: "reaping \<Rightarrow> bool" where
  "unpublished r \<longleftrightarrow> rp_exit r = None \<and> \<not> rp_done r"

definition reap_ok :: "reap_pc \<Rightarrow> reaping \<Rightarrow> bool" where
  "reap_ok pc r \<longleftrightarrow>
     (case pc of
        RReaped e \<Rightarrow> unpublished r \<and> told_truly e (rp_end r) \<and> rp_reaped r = None \<and> \<not> rp_closed r
      | RDrain e u \<Rightarrow> unpublished r \<and> told_truly e (rp_end r) \<and> \<not> rp_closed r \<and> rp_reaped r = Some (u - drain_grace)
      | RClose e \<Rightarrow> unpublished r \<and> told_truly e (rp_end r) \<and> grace_over r
      | RAbandon e u \<Rightarrow> unpublished r \<and> told_truly e (rp_end r) \<and> grace_over r
      | RPublish e \<Rightarrow> unpublished r \<and> told_truly e (rp_end r) \<and> rp_reaped r \<noteq> None \<and> settled r
      | RShut \<Rightarrow> rp_exit r \<noteq> None \<and> told_truly (the (rp_exit r)) (rp_end r) \<and> rp_reaped r \<noteq> None \<and> settled r \<and> \<not> rp_done r
      | REnd \<Rightarrow> rp_exit r \<noteq> None \<and> told_truly (the (rp_exit r)) (rp_end r) \<and> rp_reaped r \<noteq> None \<and> settled r \<and> rp_closed r
      | _ \<Rightarrow> unpublished r \<and> rp_reaped r = None \<and> \<not> rp_closed r)"

text \<open>What the reader and the world may change.\<close>

definition later :: "reaping \<Rightarrow> reaping \<Rightarrow> bool" where
  "later r r1 \<longleftrightarrow>
     rp_exit r1 = rp_exit r \<and> rp_reaped r1 = rp_reaped r \<and> rp_closed r1 = rp_closed r \<and> rp_done r1 = rp_done r
     \<and> (\<forall>e. told_truly e (rp_end r) \<longrightarrow> told_truly e (rp_end r1)) \<and> (grace_over r \<longrightarrow> grace_over r1) \<and> (settled r \<longrightarrow> settled r1)"

lemma reap_ok_later: "reap_ok pc r \<Longrightarrow> later r r1 \<Longrightarrow> reap_ok pc r1"
  by (cases pc) (simp_all add: reap_ok_def later_def unpublished_def)

lemma reader_okD:
  assumes "reader_ok r"
  shows "rp_reader r = DBack \<Longrightarrow> all_kept r \<or> rp_shut r \<or> rp_closed r" "prefix (rp_kept r) (rp_wrote r)"
proof -
  show "rp_reader r = DBack \<Longrightarrow> all_kept r \<or> rp_shut r \<or> rp_closed r" using assms by (simp add: reader_ok_def)
  show "prefix (rp_kept r) (rp_wrote r)"
  proof (cases "rp_reader r")
    case (DWrite b)
    then have "prefix (rp_kept r @ b) (rp_wrote r)" using assms by (simp add: reader_ok_def take_is_prefix)
    then show ?thesis by (rule append_prefixD)
  qed (use assms in \<open>simp_all add: reader_ok_def take_is_prefix\<close>)
qed

lemma reader_same:
  assumes "reader_ok r" "rp_reader r1 = rp_reader r" "rp_read r1 = rp_read r" "rp_kept r1 = rp_kept r" "rp_wrote r1 = rp_wrote r"
    and "all_kept r \<or> rp_shut r \<or> rp_closed r \<Longrightarrow> all_kept r1 \<or> rp_shut r1 \<or> rp_closed r1"
  shows "reader_ok r1"
  using assms(1,6) unfolding reader_ok_def assms(2-5) by (cases "rp_reader r") simp_all

lemma drain_cases:
  assumes "drain_step woken n r = Some r1"
  obtains (closed) "rp_reader r = DRead" "rp_closed r" "r1 = r\<lparr>rp_reader := DBack\<rparr>"
    | (all_read) "rp_reader r = DRead" "drop (rp_read r) (rp_wrote r) = []" "\<not> rp_held r" "r1 = r\<lparr>rp_reader := DBack\<rparr>"
    | (more) b where "rp_reader r = DRead" "b = take n (drop (rp_read r) (rp_wrote r))"
        "r1 = r\<lparr>rp_reader := DWrite b, rp_read := rp_read r + length b\<rparr>"
    | (refused) b where "rp_reader r = DWrite b" "rp_shut r" "r1 = r\<lparr>rp_reader := DBack\<rparr>"
    | (written) b where "rp_reader r = DWrite b" "r1 = r\<lparr>rp_reader := DRead, rp_kept := rp_kept r @ b\<rparr>"
proof (cases "rp_reader r")
  case DRead
  let ?left = "drop (rp_read r) (rp_wrote r)"
  consider "rp_closed r \<and> woken" | "\<not> (rp_closed r \<and> woken)" "?left \<noteq> []" | "\<not> (rp_closed r \<and> woken)" "?left = []" by blast
  then show thesis
  proof cases
    case 2
    then have "r1 = r\<lparr>rp_reader := DWrite (take n ?left), rp_read := rp_read r + length (take n ?left)\<rparr>"
      using assms DRead by (simp add: Let_def split: if_split_asm)
    then show thesis by (intro more[OF DRead refl])
  qed (use assms DRead closed all_read in \<open>simp_all add: Let_def split: if_split_asm\<close>)
next
  case (DWrite b)
  then show thesis using assms refused[of b] written[of b] by (cases "rp_shut r") simp_all
qed (use assms in simp)

lemma take_more: "take (k + length (take n (drop k xs))) xs = take k xs @ take n (drop k xs)"
proof (cases "k \<le> length xs")
  case True
  then have "take n (drop k xs) = take (length (take n (drop k xs))) (drop k xs)" by (metis append_eq_conv_conj append_take_drop_id)
  then show ?thesis by (metis take_add)
qed simp

lemma drain_ok:
  assumes ok: "reader_ok r" and step: "drain_step woken n r = Some r1"
  shows "reader_ok r1" "all_kept r \<Longrightarrow> all_kept r1"
proof -
  note whole = reader_okD(2)[OF ok]
  have "reader_ok r1 \<and> (all_kept r \<longrightarrow> all_kept r1)"
    using step
  proof (cases rule: drain_cases)
    case closed
    have "all_kept r1 = all_kept r" by (simp add: closed(3) all_kept_def)
    then show ?thesis using ok whole closed by (simp add: reader_ok_def)
  next
    case all_read
    then have "rp_kept r = rp_wrote r" using ok by (simp add: reader_ok_def)
    then show ?thesis using ok all_read by (simp add: reader_ok_def all_kept_def)
  next
    case (more b)
    have "rp_read r \<le> length (rp_wrote r)" using ok by (simp add: reader_ok_def)
    then have "rp_read r + length b \<le> length (rp_wrote r)" by (simp add: more(2))
    moreover have "all_kept r1 = all_kept r" by (simp add: more(3) all_kept_def)
    ultimately show ?thesis using ok more(1) take_more[of "rp_read r" n "rp_wrote r", folded more(2)]
      by (simp add: reader_ok_def more(3))
  next
    case (refused b)
    have "all_kept r1 = all_kept r" by (simp add: refused(3) all_kept_def)
    then show ?thesis using ok whole refused by (simp add: reader_ok_def)
  next
    case (written b)
    have t: "rp_kept r @ b = take (rp_read r) (rp_wrote r)" "rp_read r \<le> length (rp_wrote r)" using ok written(1) by (simp_all add: reader_ok_def)
    then have "length (rp_kept r) + length b \<le> length (rp_wrote r)" by (metis length_append length_take min.cobounded1)
    then have "rp_kept r = rp_wrote r \<Longrightarrow> b = []" by simp
    then have "all_kept r \<longrightarrow> all_kept r1" by (auto simp: written(2) all_kept_def)
    then show ?thesis using t written by (simp add: reader_ok_def)
  qed
  then show "reader_ok r1" "all_kept r \<Longrightarrow> all_kept r1" by blast+
qed

lemma drain_later:
  assumes "reader_ok r" "drain_step woken n r = Some r1"
  shows "later r r1"
proof -
  have "rp_end r1 = rp_end r \<and> rp_exit r1 = rp_exit r \<and> rp_reaped r1 = rp_reaped r \<and> rp_closed r1 = rp_closed r \<and> rp_now r1 = rp_now r
      \<and> rp_shut r1 = rp_shut r \<and> rp_note r1 = rp_note r \<and> rp_done r1 = rp_done r \<and> rp_reader r \<noteq> DBack"
    using assms(2) by (cases rule: drain_cases) simp_all
  then show ?thesis using drain_ok(2)[OF assms] by (auto simp: later_def settled_def grace_over_def)
qed

lemma world_reader:
  assumes "reader_ok r" "reap_move m r = Some r1"
  shows "reader_ok r1"
proof (cases m)
  case (RWrites b)
  then have w: "rp_held r" "r1 = r\<lparr>rp_wrote := rp_wrote r @ b\<rparr>" using assms(2) by (simp_all split: if_split_asm)
  then have "\<not> all_kept r" by (simp add: all_kept_def)
  then show ?thesis using assms(1) w(2) by (cases "rp_reader r") (simp_all add: reader_ok_def prefix_prefix)
qed (use assms(2) in \<open>auto intro!: reader_same[OF assms(1)] simp: all_kept_def split: if_split_asm\<close>)

lemma world_later: "reap_move m r = Some r1 \<Longrightarrow> later r r1"
  by (cases m) (auto simp: later_def settled_def grace_over_def all_kept_def told_truly_def split: if_split_asm)

lemma collected_truly:
  assumes "answers_ok v r"
  shows "told_truly (exit_from (fst (re_wait v)) (snd (re_wait v))) (rp_end r)"
    "wait_adopted (rp_pid r) [re_wait4 v] = Some e \<Longrightarrow> told_truly e (rp_end r)"
    "wait_orphan b [re_poll v] = Some e \<Longrightarrow> told_truly e (rp_end r)" "wait_orphan False [] = Some e \<Longrightarrow> told_truly e (rp_end r)"
proof -
  have u: "unknown_end unknown_exit" by (simp add: unknown_end_def unknown_exit_def is_unknown_def)
  show "told_truly (exit_from (fst (re_wait v)) (snd (re_wait v))) (rp_end r)"
  proof (cases "snd (re_wait v)")
    case None
    then show ?thesis by (auto simp: told_truly_def unknown_end_def exit_from_def starts_with_def bstr_def split: option.split)
  next
    case (Some st)
    then show ?thesis using assms by (cases st) (auto simp: told_truly_def answers_ok_def exit_from_def)
  qed
  show "wait_adopted (rp_pid r) [re_wait4 v] = Some e \<Longrightarrow> told_truly e (rp_end r)"
    using assms by (cases "re_wait4 v") (auto simp: told_truly_def unknown_end_def starts_with_def bstr_def answers_ok_def split: if_split_asm)
  show "wait_orphan b [re_poll v] = Some e \<Longrightarrow> told_truly e (rp_end r)" "wait_orphan False [] = Some e \<Longrightarrow> told_truly e (rp_end r)"
    using u by (cases "re_poll v"; auto simp: wait_orphan_def told_truly_def split: if_split_asm)+
qed

lemma reap_step_frame:
  "reap_step v pc r = Some (pc1, r1) \<Longrightarrow>
     rp_reader r1 = rp_reader r \<and> rp_read r1 = rp_read r \<and> rp_kept r1 = rp_kept r \<and> rp_wrote r1 = rp_wrote r \<and> rp_held r1 = rp_held r
     \<and> rp_shut r1 = rp_shut r \<and> (rp_closed r \<longrightarrow> rp_closed r1)"
  by (cases pc) (auto split: if_split_asm)

lemma reap_step_reader:
  assumes "reader_ok r" "reap_step v pc r = Some (pc1, r1)"
  shows "reader_ok r1"
proof -
  note f = reap_step_frame[OF assms(2)]
  then have "all_kept r1 = all_kept r" by (simp add: all_kept_def)
  then show ?thesis using f by (intro reader_same[OF assms(1)]) auto
qed

lemma reap_step_ok:
  assumes "reader_ok r" "reap_ok pc r" "answers_ok v r" "reap_step v pc r = Some (pc1, r1)"
  shows "reap_ok pc1 r1"
proof -
  note c = collected_truly[OF assms(3)]
  note defs = reap_ok_def unpublished_def
  show ?thesis
  proof (cases pc)
    case RPidfd
    then show ?thesis using assms(2,4) c(4) by (auto simp: defs collected_def split: if_split_asm option.split_asm option.split)
  next
    case RPoll
    then show ?thesis using assms(2,4) c(3)[of True] by (auto simp: defs collected_def split: option.split_asm option.split)
  next
    case RWait4
    then show ?thesis using assms(2,4) c(2) by (auto simp: defs collected_def split: option.split_asm option.split)
  next
    case (RDrain e u)
    have g: "u \<le> rp_now r \<Longrightarrow> grace_over r" using assms(2) RDrain by (auto simp: defs grace_over_def)
    show ?thesis
    proof (cases "rp_reader r = DBack \<and> (re_drained v \<or> rp_now r < u)")
      case True
      then have "settled r" using reader_okD(1)[OF assms(1)] assms(2) RDrain by (auto simp: defs settled_def)
      then show ?thesis using assms(2,4) RDrain True by (auto simp: defs)
    next
      case False
      then show ?thesis using assms(2,4) RDrain g by (auto simp: defs split: if_split_asm)
    qed
  next
    case (RAbandon e u)
    then have g: "grace_over r" "rp_reaped r \<noteq> None" using assms(2) by (auto simp: defs grace_over_def)
    then have "settled (r\<lparr>rp_note := \<not> rp_shut r\<rparr>)" "rp_reader r = DBack \<Longrightarrow> settled r" by (auto simp: settled_def grace_over_def)
    then show ?thesis using assms(2,4) RAbandon g by (auto simp: defs split: if_split_asm)
  next
    case RShut
    then have "settled (r\<lparr>rp_closed := True, rp_done := True\<rparr>)" using assms(2) by (auto simp: defs settled_def grace_over_def all_kept_def)
    then show ?thesis using assms(2,4) RShut by (auto simp: defs)
  next
    case (RPublish e)
    then have "settled (r\<lparr>rp_exit := Some e\<rparr>)" using assms(2) by (auto simp: defs settled_def grace_over_def all_kept_def)
    then show ?thesis using assms(2,4) RPublish by (auto simp: defs)
  next
    case (RClose e)
    then have "grace_over (r\<lparr>rp_closed := True\<rparr>)" using assms(2) by (simp add: defs grace_over_def)
    then show ?thesis using assms(2,4) RClose by (auto simp: defs)
  qed (use assms(2,4) c(1) in \<open>auto simp: defs split: if_split_asm\<close>)
qed

lemma reap_run_ok: "reap_run pc r \<Longrightarrow> reader_ok r \<and> reap_ok pc r"
proof (induction rule: reap_run.induct)
  case (reap_begins kind pid now)
  show ?case by (simp add: reader_ok_def reap_ok_def unpublished_def new_reaping_def)
next
  case (reap_steps pc r v pc1 r1)
  then show ?case using reap_step_ok reap_step_reader by blast
next
  case (reap_reads pc r woken n r1)
  then show ?case using drain_ok(1) drain_later reap_ok_later by blast
next
  case (reap_world pc r m r1)
  then show ?case using world_reader world_later reap_ok_later by blast
qed


text \<open>Runs to look at.\<close>

datatype reap_turn = Reaps reap_env | Drains bool nat | Happens reap_event

definition reap_answers :: "reap_env \<Rightarrow> reaping \<Rightarrow> bool" where
  "reap_answers v r \<longleftrightarrow>
     (case snd (re_wait v) of None \<Rightarrow> True | Some st \<Rightarrow> rp_end r = Some st)
     \<and> (case re_wait4 v of Waited4 p st \<Rightarrow> p \<noteq> rp_pid r \<or> rp_end r = Some st | _ \<Rightarrow> True)"

fun take_turn :: "reap_turn \<Rightarrow> reap_pc \<times> reaping \<Rightarrow> (reap_pc \<times> reaping) option" where
  "take_turn (Reaps v) (pc, r) = (if reap_answers v r then reap_step v pc r else None)"
| "take_turn (Drains woken n) (pc, r) = map_option (Pair pc) (drain_step woken n r)"
| "take_turn (Happens m) (pc, r) = map_option (Pair pc) (reap_move m r)"

fun reap_turns :: "reap_turn list \<Rightarrow> reap_pc \<times> reaping \<Rightarrow> (reap_pc \<times> reaping) option" where
  "reap_turns [] x = Some x"
| "reap_turns (t # ts) x = Option.bind (take_turn t x) (reap_turns ts)"

lemma reap_turns_run: "reap_turns ts (pc, r) = Some (pc1, r1) \<Longrightarrow> reap_run pc r \<Longrightarrow> reap_run pc1 r1"
proof (induction ts arbitrary: pc r)
  case (Cons t ts)
  then obtain pc2 r2 where t: "take_turn t (pc, r) = Some (pc2, r2)" "reap_turns ts (pc2, r2) = Some (pc1, r1)"
    by (auto simp: bind_eq_Some_conv)
  have "reap_run pc2 r2"
  proof (cases t)
    case (Reaps v)
    then have "answers_ok v r" "reap_step v pc r = Some (pc2, r2)"
      using t(1) by (auto simp: reap_answers_def answers_ok_def split: if_split_asm wait4.split_asm option.split_asm)
    then show ?thesis using reap_steps[OF Cons.prems(2)] by blast
  next
    case (Drains woken n)
    then have "pc2 = pc" "drain_step woken n r = Some r2" using t(1) by (auto simp del: drain_step.simps)
    then show ?thesis using reap_reads[OF Cons.prems(2)] by blast
  next
    case (Happens m)
    then have "pc2 = pc" "reap_move m r = Some r2" using t(1) by (auto simp del: reap_move.simps)
    then show ?thesis using reap_world[OF Cons.prems(2)] by blast
  qed
  then show ?case using Cons.IH t(2) by blast
qed simp

definition no_child :: reap_env where
  "no_child = \<lparr>re_pidfd = True, re_poll = Readable, re_wait = (None, None), re_wait4 = WaitFailed (bstr ''no child processes''), re_drained = True\<rparr>"

definition ended_with :: "int \<Rightarrow> reap_env" where
  "ended_with n = no_child\<lparr>re_wait := (None, Some (ExitedWith n))\<rparr>"

definition first_reaping :: "origin \<Rightarrow> reap_pc \<times> reaping" where
  "first_reaping kind = (RLook, new_reaping kind 17 0)"

lemma first_reaping_run: "reap_turns ts (first_reaping kind) = Some (pc, r) \<Longrightarrow> reap_run pc r"
  unfolding first_reaping_def by (erule reap_turns_run) (rule reap_begins)

definition seen :: "reap_pc \<times> reaping \<Rightarrow> exit_status option \<times> bytes \<times> bytes \<times> drain_pc \<times> bool \<times> bool \<times> wait_state option" where
  "seen x = (rp_exit (snd x), rp_wrote (snd x), rp_kept (snd x), rp_reader (snd x), rp_note (snd x), rp_done (snd x), rp_end (snd x))"

text \<open>A child says something and ends with 3.\<close>

definition plain_end :: "reap_turn list" where
  "plain_end = [Happens (RWrites (bstr ''bye'')), Reaps no_child, Drains False 2, Happens (REnds (ExitedWith 3)), Reaps (ended_with 3), Drains False 0,
     Reaps (ended_with 3), Drains False 9, Happens RLets, Drains False 0, Drains False 0, Reaps (ended_with 3), Reaps (ended_with 3), Reaps (ended_with 3)]"

lemma plain_end_seen:
  "map_option seen (reap_turns plain_end (first_reaping Started))
     = Some (Some \<lparr>code = 3, signal = []\<rparr>, bstr ''bye'', bstr ''bye'', DBack, False, True, Some (ExitedWith 3))"
  by code_simp


text \<open>
  An orphan may be taken for one of this daemon's children: \<open>Adopt\<close> starts \<open>reap\<close> before \<open>AdoptOrphan\<close> has set the flag. Then
  \<open>wait4\<close> is asked for a process that is not a child, and while it runs its end is published - and its terminal closed.
\<close>

lemma orphan_taken_for_dead:
  "map_option seen (reap_turns ([Reaps no_child, Happens RFlags] @ replicate 2 (Reaps no_child) @ [Happens (RTick 250000000)]
       @ replicate 2 (Reaps no_child) @ [Drains True 0] @ replicate 3 (Reaps no_child)) (first_reaping Orphaned))
     = Some (Some \<lparr>code = -1, signal = bstr ''unknown: waiting for adopted process 17: no child processes''\<rparr>, [], [], DBack, False, True, None)"
  by code_simp

text \<open>
  And when closing the terminal does wake the reader, what was still to be read is dropped and nothing is said: the note is
  for a reader that does not come back.
\<close>

lemma cut_off_in_silence:
  "map_option seen (reap_turns ([Reaps no_child, Happens (REnds (ExitedWith 3)), Reaps (ended_with 3), Reaps (ended_with 3), Happens (RTick 250000000),
       Happens (RWrites (bstr ''bye'')), Reaps (ended_with 3), Reaps (ended_with 3), Drains True 0] @ replicate 3 (Reaps (ended_with 3))) (first_reaping Started))
     = Some (Some \<lparr>code = 3, signal = []\<rparr>, bstr ''bye'', [], DBack, False, True, Some (ExitedWith 3))"
  by code_simp

end
