(* ===== verification/Spec2Isabelle.thy ===== *)
theory Spec2Isabelle
  imports Restart Ipc Drawing LogStream LogRead Watchers Lifecycle Desk Tabs AutoName AttachSafe StatusLine Rendered Server Doors Stopping ProcInfo Process
begin

text \<open>
  A verification development of gozellij.
\<close>

end
